(* ===== verification/Prelude.thy ===== *)
theory Prelude
  imports Main "HOL-Library.Word"
begin

unbundle bit_operations_syntax

text \<open>
  Shared vocabulary of the development: the integer types of the C code, the outcome of a
  call (a value, an abort through the error module, or undefined behaviour), the allocator
  of \<^verbatim>\<open>src/ucb/memory.c\<close>, and the generic lemmas on byte lists and words that the component
  theories share.

  \<^item> A C object is passed by value and its new value is returned; an object pointer that the
    code checks with \<^verbatim>\<open>UCB_VERIFY_ARGS(ptr)\<close> is the record itself, hence never null.
  \<^item> \<^verbatim>\<open>size_t\<close> is a \<^typ>\<open>nat\<close> up to \<open>SIZE_MAX\<close>; where the code adds or multiplies
    without a guard the wrap-around is written out with \<open>usize\<close>.
  \<^item> \<open>Abort\<close> is the end of the process in \<^verbatim>\<open>ucb_report_user\<close> (UCB_VERIFY, UCB_REPORT) or in
    the default handler of a fatal error; \<open>Undef\<close> is a read or write the C standard leaves
    undefined (past the object, or of freed memory).
\<close>

section \<open>Types and outcomes\<close>

type_synonym byte = "8 word"
type_synonym ucb_cp = "32 word"

datatype ucb_ecode =
    UCB_ERROR_OUT_OF_MEMORY
  | UCB_ERROR_INVALID_ARG
  | UCB_ERROR_OUT_OF_BOUNDS
  | UCB_ERROR_INVALID_UTF8
  | UCB_ERROR_INVALID_CODEPOINT
  | UCB_ERROR_INTERNAL
  | UCB_ERROR_INVALID_STATE
  | UCB_ERROR_BUFFER
  | UCB_ERROR_ERRNO
  | UCB_ERROR_MUTEX_LOCKED
  | UCB_ERROR_THREAD_BUSY

datatype 'a result = Ret 'a | Abort ucb_ecode | Undef

primrec rbind :: "'a result \<Rightarrow> ('a \<Rightarrow> 'b result) \<Rightarrow> 'b result" where
  "rbind (Ret x) k = k x"
| "rbind (Abort c) k = Abort c"
| "rbind Undef k = Undef"

definition verify :: "bool \<Rightarrow> ucb_ecode \<Rightarrow> 'a result \<Rightarrow> 'a result" where
  "verify b c k = (if b then k else Abort c)"

text \<open>The call does nothing undefined, and a value it returns satisfies \<open>P\<close>.\<close>

definition always :: "'a result \<Rightarrow> ('a \<Rightarrow> bool) \<Rightarrow> bool" where
  "always r P = (case r of Ret x \<Rightarrow> P x | Abort _ \<Rightarrow> True | Undef \<Rightarrow> False)"

definition SIZE_MAX :: nat where
  "SIZE_MAX = 2 ^ 64 - 1"

definition usize :: "nat \<Rightarrow> nat" where
  "usize n = n mod 2 ^ 64"

text \<open>Subtraction of two \<^verbatim>\<open>size_t\<close> values.\<close>

definition usub :: "nat \<Rightarrow> nat \<Rightarrow> nat" where
  "usub a b = (a + 2 ^ 64 - b) mod 2 ^ 64"

definition UCB_NPOS :: nat where
  "UCB_NPOS = SIZE_MAX - 1"

lemma UCB_NPOS_eq: "UCB_NPOS = 18446744073709551614"
  by (simp add: UCB_NPOS_def SIZE_MAX_def)

named_theorems outcome_simps \<open>evaluation of outcomes and their guards\<close>

lemma rbind_cong [fundef_cong]:
  "m = m' \<Longrightarrow> (\<And>x. m' = Ret x \<Longrightarrow> k x = k' x) \<Longrightarrow> rbind m k = rbind m' k'"
  by (cases m') auto

lemma rbind_Ret_iff [simp]: "rbind m k = Ret y \<longleftrightarrow> (\<exists>x. m = Ret x \<and> k x = Ret y)"
  by (cases m) auto

lemma rbind_Abort_iff:
  "rbind m k = Abort c \<longleftrightarrow> m = Abort c \<or> (\<exists>x. m = Ret x \<and> k x = Abort c)"
  by (cases m) auto

lemma rbind_Undef_iff:
  "rbind m k = Undef \<longleftrightarrow> m = Undef \<or> (\<exists>x. m = Ret x \<and> k x = Undef)"
  by (cases m) auto

lemma rbind_assoc: "rbind (rbind m k) h = rbind m (\<lambda>x. rbind (k x) h)"
  by (cases m) auto

lemma verify_True [simp, outcome_simps]: "verify True c k = k"
  by (simp add: verify_def)

lemma verify_False [simp, outcome_simps]: "verify False c k = Abort c"
  by (simp add: verify_def)

lemma verify_Ret_iff [simp]: "verify b c k = Ret y \<longleftrightarrow> b \<and> k = Ret y"
  by (simp add: verify_def)

lemma always_simps [simp]:
  "always (Ret x) P = P x" "always (Abort c) P = True" "always Undef P = False"
  by (simp_all add: always_def)

lemma always_rbind: "always (rbind m k) P = always m (\<lambda>x. always (k x) P)"
  by (cases m) simp_all

lemma always_verify [simp]: "always (verify b c k) P \<longleftrightarrow> (b \<longrightarrow> always k P)"
  by (simp add: verify_def)

lemma always_mono: "always m P \<Longrightarrow> (\<And>x. m = Ret x \<Longrightarrow> P x \<Longrightarrow> Q x) \<Longrightarrow> always m Q"
  by (cases m) simp_all

lemma always_bind: "always m P \<Longrightarrow> (\<And>x. P x \<Longrightarrow> always (k x) Q) \<Longrightarrow> always (rbind m k) Q"
  by (cases m) simp_all

lemma always_bind_ok:
  "always m (\<lambda>(ok, s). ok \<and> P s) \<Longrightarrow> (\<And>s. P s \<Longrightarrow> always (k (True, s)) Q) \<Longrightarrow> always (rbind m k) Q"
  by (cases m) auto

lemma always_Ret: "always m P \<Longrightarrow> m = Ret x \<Longrightarrow> P x"
  by simp

lemma always_not_Undef: "always m P \<Longrightarrow> m \<noteq> Undef"
  by (cases m) simp_all

lemma usize_id: "n \<le> SIZE_MAX \<Longrightarrow> usize n = n"
  by (simp add: usize_def SIZE_MAX_def)

lemma usize_le: "usize n \<le> SIZE_MAX"
proof -
  have "n mod 2 ^ 64 < (2::nat) ^ 64" by (rule mod_less_divisor) simp
  then show ?thesis unfolding usize_def SIZE_MAX_def by linarith
qed

lemma usub_eq [simp]: "b \<le> a \<Longrightarrow> a \<le> SIZE_MAX \<Longrightarrow> usub a b = a - b"
proof -
  assume a: "b \<le> a" "a \<le> SIZE_MAX"
  then have "a + 2 ^ 64 - b = 2 ^ 64 + (a - b)" "a - b < 2 ^ 64"
    unfolding SIZE_MAX_def by auto
  then show ?thesis unfolding usub_def by (simp only: mod_add_self1 mod_less)
qed

section \<open>The allocator\<close>

text \<open>
  The C library's \<^verbatim>\<open>malloc\<close>, \<^verbatim>\<open>calloc\<close> and \<^verbatim>\<open>realloc\<close> are parameters: \<open>alloc_ok n\<close> says
  whether a request of \<open>n\<close> bytes is granted and \<open>junk i\<close> is the content of byte \<open>i\<close> of a
  granted block that nothing has written yet. \<open>fatal_returns\<close> says whether an error handler
  is installed that returns from a fatal error; the default handler aborts.
\<close>

record mem_env =
  alloc_ok :: "nat \<Rightarrow> bool"
  fatal_returns :: bool
  junk :: "nat \<Rightarrow> byte"

text \<open>No object is larger than \<^verbatim>\<open>PTRDIFF_MAX\<close>; the C library refuses such a request.\<close>

definition PTRDIFF_MAX :: nat where
  "PTRDIFF_MAX = 2 ^ 63 - 1"

definition granted :: "mem_env \<Rightarrow> nat \<Rightarrow> bool" where
  "granted me n = (n \<le> PTRDIFF_MAX \<and> alloc_ok me n)"

text \<open>Every request of up to \<open>m\<close> bytes is granted.\<close>

definition grants_upto :: "mem_env \<Rightarrow> nat \<Rightarrow> bool" where
  "grants_upto me m = (m \<le> PTRDIFF_MAX \<and> (\<forall>n \<le> m. alloc_ok me n))"

definition ucb_fatal_oom :: "mem_env \<Rightarrow> 'a result \<Rightarrow> 'a result" where
  "ucb_fatal_oom me k = (if fatal_returns me then k else Abort UCB_ERROR_OUT_OF_MEMORY)"

text \<open>The result of \<^verbatim>\<open>ucb_malloc\<close> and \<^verbatim>\<open>ucb_calloc\<close>: whether the pointer is not null.\<close>

definition ucb_malloc :: "mem_env \<Rightarrow> nat \<Rightarrow> bool result" where
  "ucb_malloc me n =
     (if n > 0
      then (if granted me n then Ret True else ucb_fatal_oom me (Ret False))
      else Ret False)"

definition ucb_calloc :: "mem_env \<Rightarrow> nat \<Rightarrow> nat \<Rightarrow> bool result" where
  "ucb_calloc me num sz =
     (if num > 0 \<and> sz > 0
      then (if granted me (num * sz) then Ret True else ucb_fatal_oom me (Ret False))
      else Ret False)"

text \<open>
  \<^verbatim>\<open>ucb_realloc2\<close> either moves the block (\<open>Moved\<close>), or returns null with the old block kept
  (\<open>FailKept\<close>) or already freed (\<open>FailFreed\<close>, the caller's pointer then dangles).
\<close>

datatype realloc_result = Moved | FailKept | FailFreed

definition ucb_realloc2 :: "mem_env \<Rightarrow> bool \<Rightarrow> nat \<Rightarrow> bool \<Rightarrow> realloc_result result" where
  "ucb_realloc2 me have_ptr n free_on_failure =
     (let failed = (if free_on_failure \<and> have_ptr then FailFreed else FailKept) in
      if n > 0
      then (if granted me n then Ret Moved else ucb_fatal_oom me (Ret failed))
      else Ret failed)"

definition ucb_realloc :: "mem_env \<Rightarrow> bool \<Rightarrow> nat \<Rightarrow> realloc_result result" where
  "ucb_realloc me have_ptr n = ucb_realloc2 me have_ptr n True"

text \<open>The environment in which every request is granted.\<close>

definition me_ok :: mem_env where
  "me_ok = \<lparr>alloc_ok = (\<lambda>_. True), fatal_returns = False, junk = (\<lambda>_. 0xCD)\<rparr>"

lemma me_ok_simps [simp]: "alloc_ok me_ok n" "fatal_returns me_ok = False"
  by (simp_all add: me_ok_def)

lemma ucb_malloc_not_Undef [simp]: "ucb_malloc me n \<noteq> Undef"
  by (simp add: ucb_malloc_def ucb_fatal_oom_def)

lemma ucb_malloc_ok [outcome_simps]: "n > 0 \<Longrightarrow> granted me n \<Longrightarrow> ucb_malloc me n = Ret True"
  by (simp add: ucb_malloc_def)

lemma ucb_realloc_ok [outcome_simps]:
  "n > 0 \<Longrightarrow> granted me n \<Longrightarrow> ucb_realloc me p n = Ret Moved"
  by (simp add: ucb_realloc_def ucb_realloc2_def)

lemma granted_me_ok [simp]: "granted me_ok n \<longleftrightarrow> n \<le> PTRDIFF_MAX"
  by (simp add: granted_def)

lemma granted_upto: "grants_upto me m \<Longrightarrow> n \<le> m \<Longrightarrow> granted me n"
  by (simp add: grants_upto_def granted_def)

lemma ucb_malloc_Ret_iff:
  "ucb_malloc me n = Ret r \<longleftrightarrow>
     (if n > 0 \<and> granted me n then r else \<not> r \<and> (n > 0 \<longrightarrow> fatal_returns me))"
  by (auto simp: ucb_malloc_def ucb_fatal_oom_def)

lemma ucb_calloc_Ret_iff:
  "ucb_calloc me num sz = Ret r \<longleftrightarrow>
     (if num > 0 \<and> sz > 0 \<and> granted me (num * sz) then r
      else \<not> r \<and> (num > 0 \<and> sz > 0 \<longrightarrow> fatal_returns me))"
  by (auto simp: ucb_calloc_def ucb_fatal_oom_def)

lemma ucb_realloc2_Ret_iff:
  "ucb_realloc2 me p n f = Ret r \<longleftrightarrow>
     (if n > 0 \<and> granted me n then r = Moved
      else r = (if f \<and> p then FailFreed else FailKept) \<and> (n > 0 \<longrightarrow> fatal_returns me))"
  by (auto simp: ucb_realloc2_def ucb_fatal_oom_def Let_def)

lemma alloc_not_Undef [simp]:
  "ucb_calloc me num sz \<noteq> Undef" "ucb_realloc2 me p n f \<noteq> Undef" "ucb_realloc me p n \<noteq> Undef"
  by (simp_all add: ucb_calloc_def ucb_realloc2_def ucb_realloc_def ucb_fatal_oom_def Let_def)

lemma always_malloc:
  "\<not> fatal_returns me \<Longrightarrow> n > 0 \<Longrightarrow> always (ucb_malloc me n) (\<lambda>ok. ok \<and> n \<le> PTRDIFF_MAX)"
  by (simp add: ucb_malloc_def ucb_fatal_oom_def granted_def)

lemma always_realloc:
  "\<not> fatal_returns me \<Longrightarrow> n > 0 \<Longrightarrow> always (ucb_realloc me p n) (\<lambda>r. r = Moved \<and> n \<le> PTRDIFF_MAX)"
  by (simp add: ucb_realloc_def ucb_realloc2_def ucb_fatal_oom_def granted_def)

lemma PTRDIFF_MAX_less: "n \<le> PTRDIFF_MAX \<Longrightarrow> n \<le> SIZE_MAX"
  "n \<le> PTRDIFF_MAX \<Longrightarrow> m \<le> PTRDIFF_MAX \<Longrightarrow> n + m \<le> SIZE_MAX"
  by (simp_all add: PTRDIFF_MAX_def SIZE_MAX_def)

section \<open>Success up to memory\<close>

text \<open>
  A call returns a value satisfying \<open>P\<close> or ends the process for want of memory, and nothing
  else.
\<close>

definition succeeds :: "'a result \<Rightarrow> ('a \<Rightarrow> bool) \<Rightarrow> bool" where
  "succeeds r P =
     (case r of Ret x \<Rightarrow> P x | Abort c \<Rightarrow> c = UCB_ERROR_OUT_OF_MEMORY | Undef \<Rightarrow> False)"

lemma succeeds_simps [simp]:
  "succeeds (Ret x) P = P x" "succeeds (Abort c) P = (c = UCB_ERROR_OUT_OF_MEMORY)"
  "succeeds Undef P = False"
  by (simp_all add: succeeds_def)

lemma succeeds_bind: "succeeds m P \<Longrightarrow> (\<And>x. P x \<Longrightarrow> succeeds (k x) Q) \<Longrightarrow> succeeds (rbind m k) Q"
  by (cases m) simp_all

lemma succeeds_mono: "succeeds m P \<Longrightarrow> (\<And>x. m = Ret x \<Longrightarrow> P x \<Longrightarrow> Q x) \<Longrightarrow> succeeds m Q"
  by (cases m) simp_all

lemma succeeds_rbind: "succeeds (rbind m k) P = succeeds m (\<lambda>x. succeeds (k x) P)"
  by (cases m) simp_all

lemma succeeds_always: "succeeds m P \<Longrightarrow> always m P"
  by (cases m) simp_all

lemma always_succeeds:
  "always m P \<Longrightarrow> (\<And>c. m = Abort c \<Longrightarrow> c = UCB_ERROR_OUT_OF_MEMORY) \<Longrightarrow> succeeds m P"
  by (cases m) simp_all

lemma succeeds_verify [simp]:
  "c \<noteq> UCB_ERROR_OUT_OF_MEMORY \<Longrightarrow> succeeds (verify b c k) P \<longleftrightarrow> b \<and> succeeds k P"
  by (simp add: verify_def)

lemma succeeds_malloc:
  "\<not> fatal_returns me \<Longrightarrow> n > 0 \<Longrightarrow> succeeds (ucb_malloc me n) (\<lambda>ok. ok \<and> n \<le> PTRDIFF_MAX)"
  by (simp add: ucb_malloc_def ucb_fatal_oom_def granted_def)

lemma succeeds_realloc:
  "\<not> fatal_returns me \<Longrightarrow> n > 0 \<Longrightarrow> succeeds (ucb_realloc me p n) (\<lambda>r. r = Moved \<and> n \<le> PTRDIFF_MAX)"
  by (simp add: ucb_realloc_def ucb_realloc2_def ucb_fatal_oom_def granted_def)

text \<open>A step that returns a success flag, followed by another one only when it succeeded.\<close>

definition and_then :: "(bool \<times> 's) result \<Rightarrow> ('s \<Rightarrow> (bool \<times> 's) result) \<Rightarrow> (bool \<times> 's) result" where
  "and_then m k = rbind m (\<lambda>(ok, s). if ok then k s else Ret (False, s))"

lemma and_then_cong [fundef_cong]:
  "m = m' \<Longrightarrow> (\<And>s. m' = Ret (True, s) \<Longrightarrow> k s = k' s) \<Longrightarrow> and_then m k = and_then m' k'"
  unfolding and_then_def by (cases m') auto

lemma succeeds_and_then:
  "succeeds m (\<lambda>(ok, s). ok \<and> P s) \<Longrightarrow> (\<And>s. P s \<Longrightarrow> succeeds (k s) Q) \<Longrightarrow> succeeds (and_then m k) Q"
  unfolding and_then_def by (cases m) auto

section \<open>Byte lists\<close>

text \<open>
  A pointer is modelled by the readable memory from it to the end of its object.
  \<^verbatim>\<open>strlen\<close> of memory without a null byte runs past the object.
\<close>

definition c_strlen :: "byte list \<Rightarrow> nat result" where
  "c_strlen mem = (if 0 \<in> set mem then Ret (length (takeWhile (\<lambda>b. b \<noteq> 0) mem)) else Undef)"

definition mem_read :: "byte list \<Rightarrow> nat \<Rightarrow> byte list result" where
  "mem_read mem n = (if n \<le> length mem then Ret (take n mem) else Undef)"

definition mem_write :: "nat \<Rightarrow> 'a list \<Rightarrow> 'a list \<Rightarrow> 'a list" where
  "mem_write off xs mem = take off mem @ xs @ drop (off + length xs) mem"

text \<open>A store of \<open>xs\<close> at \<open>off\<close>: undefined unless it lies inside the block.\<close>

definition mem_put :: "nat \<Rightarrow> byte list \<Rightarrow> byte list \<Rightarrow> byte list result" where
  "mem_put off xs mem = (if off + length xs \<le> length mem then Ret (mem_write off xs mem) else Undef)"

text \<open>A fresh block of \<open>n\<close> bytes, and a block resized by \<^verbatim>\<open>realloc\<close>.\<close>

definition new_block :: "mem_env \<Rightarrow> nat \<Rightarrow> byte list" where
  "new_block me n = map (junk me) [0..<n]"

definition resize_block :: "mem_env \<Rightarrow> byte list \<Rightarrow> nat \<Rightarrow> byte list" where
  "resize_block me mem n = take n mem @ map (junk me) [length mem..<n]"

lemma length_new_block [simp]: "length (new_block me n) = n"
  by (simp add: new_block_def)

lemma length_resize_block [simp]: "length (resize_block me mem n) = n"
  by (simp add: resize_block_def)

lemma take_resize_block: "k \<le> n \<Longrightarrow> k \<le> length mem \<Longrightarrow> take k (resize_block me mem n) = take k mem"
  by (simp add: resize_block_def min_def)

lemma resize_block_shrink: "n \<le> length mem \<Longrightarrow> resize_block me mem n = take n mem"
  by (simp add: resize_block_def)

lemma take_mem_write: "off \<le> length mem \<Longrightarrow> take (off + length xs) (mem_write off xs mem) = take off mem @ xs"
  by (simp add: mem_write_def)

lemma mem_put_Ret_iff [simp]:
  "mem_put off xs mem = Ret m \<longleftrightarrow> off + length xs \<le> length mem \<and> m = mem_write off xs mem"
  by (auto simp: mem_put_def)

lemma mem_put_ok [simp]: "off + length xs \<le> length mem \<Longrightarrow> mem_put off xs mem = Ret (mem_write off xs mem)"
  by simp

lemma mem_read_ok [simp]: "n \<le> length mem \<Longrightarrow> mem_read mem n = Ret (take n mem)"
  by (simp add: mem_read_def)

lemma length_mem_write: "off \<le> length mem \<Longrightarrow>
    length (mem_write off xs mem) = max (length mem) (off + length xs)"
  by (simp add: mem_write_def)

text \<open>Shifting the cells from \<open>k\<close> on by one place and storing into the gap.\<close>

lemma mem_write_shift:
  assumes "k \<le> n" "n < length bs"
  shows "take (n + 1) ((mem_write (k + 1) (take (n - k) (drop k bs)) bs)[k := b])
    = take k bs @ b # drop k (take n bs)"
proof -
  have "mem_write (k + 1) (take (n - k) (drop k bs)) bs
      = take k bs @ bs ! k # take (n - k) (drop k bs) @ drop (n + 1) bs"
    using assms by (simp add: mem_write_def take_Suc_conv_app_nth)
  then have "(mem_write (k + 1) (take (n - k) (drop k bs)) bs)[k := b]
      = (take k bs @ b # drop k (take n bs)) @ drop (n + 1) bs"
    using assms by (simp add: list_update_append drop_take)
  moreover have "length (take k bs @ b # drop k (take n bs)) = n + 1" using assms by simp
  ultimately show ?thesis by (metis append_eq_conv_conj)
qed

lemma length_mem_write_shift:
  "k \<le> n \<Longrightarrow> n < length bs \<Longrightarrow> length (mem_write (k + 1) (take (n - k) (drop k bs)) bs) = length bs"
  by (simp add: mem_write_def)

lemma c_strlen_term: "0 \<notin> set bs \<Longrightarrow> c_strlen (bs @ 0 # r) = Ret (length bs)"
proof -
  assume "0 \<notin> set bs"
  then have "takeWhile (\<lambda>b. b \<noteq> 0) (bs @ 0 # r) = bs"
    by (subst takeWhile_append2) auto
  then show ?thesis by (simp add: c_strlen_def)
qed

lemma c_strlen_Ret: "c_strlen mem = Ret n \<Longrightarrow> n < length mem \<and> 0 \<notin> set (take n mem) \<and> mem ! n = 0"
proof -
  assume a: "c_strlen mem = Ret n"
  then have z: "0 \<in> set mem" and n: "n = length (takeWhile (\<lambda>b. b \<noteq> 0) mem)"
    by (auto simp: c_strlen_def split: if_splits)
  obtain xs ys where m: "mem = xs @ 0 # ys" "0 \<notin> set xs"
    using split_list_first [OF z] by blast
  then have "n = length xs" using a c_strlen_term [of xs ys] by simp
  then show ?thesis using m by simp
qed

section \<open>Words as natural numbers\<close>

lemma half_less: "(m::nat) div 2 < x \<Longrightarrow> m \<le> 2 * x"
  by presburger

lemma half_ge: "\<not> (m::nat) div 2 < x \<Longrightarrow> x * 2 \<le> m"
  by presburger

lemma nat_push_or: "(b::nat) < 2 ^ n \<Longrightarrow> push_bit n a OR b = a * 2 ^ n + b"
proof -
  assume b: "b < 2 ^ n"
  then have tb: "take_bit n b = b" by (simp add: take_bit_nat_eq_self_iff)
  have "push_bit n a AND take_bit n b = 0"
    by (rule bit_eqI) (auto simp: bit_simps)
  then have "push_bit n a OR b = push_bit n a + b"
    using disjunctive_add_eq_or [of "push_bit n a" b] tb by simp
  then show ?thesis by (simp add: push_bit_nat_def)
qed

lemma unat_push_or:
  fixes a b :: "'a::len word"
  assumes "unat b < 2 ^ n" "unat a * 2 ^ n < 2 ^ LENGTH('a)"
  shows "unat (push_bit n a OR b) = unat a * 2 ^ n + unat b"
proof -
  have "take_bit LENGTH('a) (unat a * 2 ^ n) = unat a * 2 ^ n"
    using assms(2) by (simp add: take_bit_nat_eq_self_iff)
  then have "unat (push_bit n a) = push_bit n (unat a)"
    by (simp add: unsigned_push_bit_eq push_bit_nat_def)
  then show ?thesis using nat_push_or [OF assms(1)] by (simp add: unsigned_or_eq)
qed

lemma unat_and_mask_mod: "unat ((a::'a::len word) AND mask n) = unat a mod 2 ^ n"
  by (metis take_bit_eq_mask take_bit_nat_def unsigned_take_bit_eq)

lemma unat_ucast_up:
  assumes "LENGTH('a) \<le> LENGTH('b)"
  shows "unat (ucast (x::'a::len word) :: 'b::len word) = unat x"
proof -
  have "unat x < 2 ^ LENGTH('a)" by (rule unsigned_less)
  also have "(2::nat) ^ LENGTH('a) \<le> 2 ^ LENGTH('b)" using assms by simp
  finally show ?thesis by (simp add: unsigned_ucast_eq take_bit_nat_eq_self_iff)
qed

lemma unat_drop: "unat (drop_bit n (a::'a::len word)) = unat a div 2 ^ n"
  by (simp add: unat_drop_bit_eq drop_bit_nat_def)

lemma unat_and_not_mask:
  "unat ((b::'a::len word) AND NOT (mask n)) = unat b div 2 ^ n * 2 ^ n"
proof -
  have "b = (b AND NOT (mask n)) + (b AND mask n)"
    by (subst disjunctive_add_eq_or) (auto simp: bit_eq_iff bit_simps)
  moreover have "(b AND NOT (mask n)) AND (b AND mask n) = 0"
    by (auto simp: bit_eq_iff bit_simps)
  ultimately have "unat b = unat (b AND NOT (mask n)) + unat (b AND mask n)"
    by (metis disjunctive_add_eq_or unsigned_and_eq unsigned_or_eq unsigned_0)
  then show ?thesis by (simp add: unat_and_mask_mod div_mult_mod_eq flip: minus_mod_eq_div_mult)
qed

end
