(* ===== verification/Utf8.thy ===== *)
theory Utf8
  imports Prelude
begin

unbundle bit_operations_syntax

text \<open>
  UTF-8 decoding, validation and single code point encoding of \<^verbatim>\<open>src/ucb/unicode.c\<close>
  (\<^verbatim>\<open>ucb_uc_fetch*\<close>, \<^verbatim>\<open>ucb_uc_next_valid\<close>, \<^verbatim>\<open>ucb_uc_validate\<close>, \<^verbatim>\<open>ucb_uc_encode_codepoint\<close>,
  \<^verbatim>\<open>ucb_uc_num_cp\<close> and the FOR_EACH_CODEPOINT loop).  A \<^verbatim>\<open>const char*\<close> is the readable memory
  from the pointer to the end of its object; \<^verbatim>\<open>*iter\<close> is an offset.
\<close>

section \<open>Decoding\<close>

definition ucb_uc_fetch2 :: "byte list \<Rightarrow> ucb_cp" where
  "ucb_uc_fetch2 bytes =
     push_bit 6 (ucast (bytes ! 0) AND 0x1F)
     OR (ucast (bytes ! 1) AND 0x3F)"

definition ucb_uc_fetch3 :: "byte list \<Rightarrow> ucb_cp" where
  "ucb_uc_fetch3 bytes =
     (push_bit 12 (ucast (bytes ! 0) AND 0x0F)
      OR push_bit 6 (ucast (bytes ! 1) AND 0x3F))
     OR (ucast (bytes ! 2) AND 0x3F)"

definition ucb_uc_fetch4 :: "byte list \<Rightarrow> ucb_cp" where
  "ucb_uc_fetch4 bytes =
     ((push_bit 18 (ucast (bytes ! 0) AND 0x07)
       OR push_bit 12 (ucast (bytes ! 1) AND 0x3F))
      OR push_bit 6 (ucast (bytes ! 2) AND 0x3F))
     OR (ucast (bytes ! 3) AND 0x3F)"

text \<open>The decoded code point and the number of bytes the iterator advances.\<close>

definition ucb_uc_next_valid :: "byte list \<Rightarrow> (ucb_cp \<times> nat) result" where
  "ucb_uc_next_valid bytes =
     (if length bytes < 1 then Undef
      else if bytes ! 0 < 0x80 then Ret (ucast (bytes ! 0), 1)
      else if bytes ! 0 AND 0xE0 = 0xC0
        then (if length bytes < 2 then Undef else Ret (ucb_uc_fetch2 bytes, 2))
      else if bytes ! 0 AND 0xF0 = 0xE0
        then (if length bytes < 3 then Undef else Ret (ucb_uc_fetch3 bytes, 3))
      else (if length bytes < 4 then Undef else Ret (ucb_uc_fetch4 bytes, 4)))"

definition ucb_uc_iter_next :: "byte list \<Rightarrow> nat \<Rightarrow> nat \<Rightarrow> (ucb_cp \<times> nat) option result" where
  "ucb_uc_iter_next mem iter stop =
     (if iter \<ge> stop then Ret None
      else rbind (ucb_uc_next_valid (drop iter mem)) (\<lambda>(cp, n). Ret (Some (cp, iter + n))))"

lemma ucb_uc_next_valid_pos: "ucb_uc_next_valid bytes = Ret (cp, n) \<Longrightarrow> 1 \<le> n \<and> n \<le> 4 \<and> n \<le> length bytes"
  by (auto simp: ucb_uc_next_valid_def Suc_le_eq split: if_splits)

lemma ucb_uc_iter_next_less: "ucb_uc_iter_next mem i stop = Ret (Some (cp, j)) \<Longrightarrow> i < j \<and> i < stop"
  by (auto simp: ucb_uc_iter_next_def dest!: ucb_uc_next_valid_pos split: if_splits)

text \<open>
  FOR_EACH_CODEPOINT from \<open>iter\<close>: the code points visited and the final iterator, which
  lies past \<open>stop\<close> when the stop sequence is cut.
\<close>

function for_each_codepoint :: "byte list \<Rightarrow> nat \<Rightarrow> nat \<Rightarrow> (ucb_cp list \<times> nat) result" where
  "for_each_codepoint mem iter stop =
     (case ucb_uc_iter_next mem iter stop of
        Ret None \<Rightarrow> Ret ([], iter)
      | Ret (Some (cp, iter')) \<Rightarrow>
          rbind (for_each_codepoint mem iter' stop) (\<lambda>(cps, e). Ret (cp # cps, e))
      | Abort c \<Rightarrow> Abort c
      | Undef \<Rightarrow> Undef)"
  by pat_completeness auto
termination
  by (relation "measure (\<lambda>(mem, iter, stop). stop - iter)")
    (auto dest!: ucb_uc_iter_next_less)

declare for_each_codepoint.simps [simp del]

text \<open>A null \<open>str\<close> is \<open>None\<close>.\<close>

definition ucb_uc_num_cp :: "byte list option \<Rightarrow> nat \<Rightarrow> nat result" where
  "ucb_uc_num_cp str len =
     (case str of
        None \<Rightarrow> Ret 0
      | Some mem \<Rightarrow>
          rbind (if len = UCB_NPOS then c_strlen mem else Ret len) (\<lambda>len.
          rbind (for_each_codepoint mem 0 len) (\<lambda>(cps, e).
          verify (e = len) UCB_ERROR_INVALID_UTF8 (Ret (length cps)))))"

section \<open>Validation\<close>

text \<open>
  One pass of the loop of \<^verbatim>\<open>ucb_uc_validate\<close> at \<open>i < len\<close>: \<open>Inr\<close> the next index, or
  \<open>Inl expected\<close> when the loop breaks with \<open>errpos = i\<close> (\<open>expected\<close> is 0 unless the sequence
  is truncated).
\<close>

definition uc_validate_at :: "byte list \<Rightarrow> nat \<Rightarrow> nat \<Rightarrow> nat + nat" where
  "uc_validate_at bytes len i =
     (let c = bytes ! i in
      if c < 0x80 then Inr (i + 1)
      else if c AND 0xE0 = 0xC0 then
        (if i + 1 \<ge> len then Inl 2
         else if bytes ! (i + 1) AND 0xC0 \<noteq> 0x80 then Inl 0
         else let cp = ucb_uc_fetch2 (drop i bytes) in
           if cp < 0x80 then Inl 0 else Inr (i + 2))
      else if c AND 0xF0 = 0xE0 then
        (if i + 2 \<ge> len then Inl 3
         else if bytes ! (i + 1) AND 0xC0 \<noteq> 0x80 \<or> bytes ! (i + 2) AND 0xC0 \<noteq> 0x80 then Inl 0
         else let cp = ucb_uc_fetch3 (drop i bytes) in
           if cp < 0x800 then Inl 0
           else if cp \<ge> 0xD800 \<and> cp \<le> 0xDFFF then Inl 0
           else Inr (i + 3))
      else if c AND 0xF8 = 0xF0 then
        (if i + 3 \<ge> len then Inl 4
         else if bytes ! (i + 1) AND 0xC0 \<noteq> 0x80 \<or> bytes ! (i + 2) AND 0xC0 \<noteq> 0x80
                 \<or> bytes ! (i + 3) AND 0xC0 \<noteq> 0x80 then Inl 0
         else let cp = ucb_uc_fetch4 (drop i bytes) in
           if cp < 0x10000 \<or> cp > 0x10FFFF then Inl 0
           else Inr (i + 4))
      else Inl 0)"

lemma uc_validate_at_less: "uc_validate_at bytes len i = Inr j \<Longrightarrow> i < j"
  by (auto simp: uc_validate_at_def Let_def split: if_splits)

function uc_validate_loop :: "byte list \<Rightarrow> nat \<Rightarrow> nat \<Rightarrow> (nat \<times> nat) + nat" where
  "uc_validate_loop bytes len i =
     (if i < len
      then (case uc_validate_at bytes len i of
              Inl expected \<Rightarrow> Inl (i, expected)
            | Inr j \<Rightarrow> uc_validate_loop bytes len j)
      else Inr i)"
  by pat_completeness auto
termination
  by (relation "measure (\<lambda>(bytes, len, i). len - i)") (auto dest!: uc_validate_at_less)

declare uc_validate_loop.simps [simp del]

text \<open>The thrown error: its position, and for a truncated sequence the expected and actual sizes.\<close>

datatype uc_error = Truncated nat nat nat | InvalidSeq nat

text \<open>\<open>None\<close> is the return value true.\<close>

definition ucb_uc_validate :: "byte list \<Rightarrow> nat \<Rightarrow> uc_error option result" where
  "ucb_uc_validate mem len =
     rbind (if len = UCB_NPOS then c_strlen mem else Ret len) (\<lambda>len.
     if length mem < len then Undef
     else case uc_validate_loop mem len 0 of
         Inr i \<Rightarrow> Ret None
       | Inl (errpos, expected) \<Rightarrow>
           Ret (Some (if expected \<noteq> 0 then Truncated errpos expected (len - errpos)
                      else InvalidSeq errpos)))"

section \<open>Encoding one code point\<close>

text \<open>
  \<^verbatim>\<open>ucb_uc_encode_codepoint(dst, cp)\<close>: the returned length and the bytes stored at \<open>dst\<close>
  (none when \<open>dst\<close> is null); \<open>None\<close> is the return value -1.
\<close>

definition ucb_uc_encode_codepoint :: "bool \<Rightarrow> ucb_cp \<Rightarrow> (nat \<times> byte list) option" where
  "ucb_uc_encode_codepoint dst cp =
     (let out = (\<lambda>bs. Some (length bs, if dst then bs else [])) in
      if cp \<le> 0x7F then out [ucast cp]
      else if cp \<le> 0x7FF then
        out [ucast (0xC0 OR drop_bit 6 cp), ucast (0x80 OR (cp AND 0x3F))]
      else if cp \<le> 0xFFFF then
        (if cp \<ge> 0xD800 \<and> cp \<le> 0xDFFF then None
         else out [ucast (0xE0 OR drop_bit 12 cp),
                   ucast (0x80 OR (drop_bit 6 cp AND 0x3F)),
                   ucast (0x80 OR (cp AND 0x3F))])
      else if cp \<le> 0x10FFFF then
        out [ucast (0xF0 OR drop_bit 18 cp),
             ucast (0x80 OR (drop_bit 12 cp AND 0x3F)),
             ucast (0x80 OR (drop_bit 6 cp AND 0x3F)),
             ucast (0x80 OR (cp AND 0x3F))]
      else None)"

text \<open>Unicode scalar values and the well-formed byte strings they encode to.\<close>

definition is_scalar :: "ucb_cp \<Rightarrow> bool" where
  "is_scalar cp \<longleftrightarrow> cp \<le> 0x10FFFF \<and> \<not> (cp \<ge> 0xD800 \<and> cp \<le> 0xDFFF)"

text \<open>The encoding of RFC 3629 in ordinary arithmetic.\<close>

definition utf8 :: "ucb_cp \<Rightarrow> byte list" where
  "utf8 cp =
     (let c = unat cp; b = (\<lambda>n. (word_of_nat n :: byte)) in
      if c < 128 then [b c]
      else if c < 2048 then [b (192 + c div 64), b (128 + c mod 64)]
      else if c < 65536 then [b (224 + c div 4096), b (128 + c div 64 mod 64), b (128 + c mod 64)]
      else [b (240 + c div 262144), b (128 + c div 4096 mod 64),
            b (128 + c div 64 mod 64), b (128 + c mod 64)])"

definition utf8s :: "ucb_cp list \<Rightarrow> byte list" where
  "utf8s cps = concat (map utf8 cps)"

definition wf_utf8 :: "byte list \<Rightarrow> bool" where
  "wf_utf8 bs \<longleftrightarrow> (\<exists>cps. list_all is_scalar cps \<and> bs = utf8s cps)"

section \<open>Masks and shifts as arithmetic\<close>

lemma byte_masks:
  "(0xE0::byte) = NOT (mask 5)" "(0xF0::byte) = NOT (mask 4)"
  "(0xF8::byte) = NOT (mask 3)" "(0xC0::byte) = NOT (mask 6)"
  by (code_simp, code_simp, code_simp, code_simp)

lemma cp_masks:
  "(0x1F::ucb_cp) = mask 5" "(0x0F::ucb_cp) = mask 4" "(0x07::ucb_cp) = mask 3"
  "(0x3F::ucb_cp) = mask 6"
  by (code_simp, code_simp, code_simp, code_simp)

lemma byte_lead2: "((b::byte) AND 0xE0 = 0xC0) \<longleftrightarrow> unat b div 32 = 6"
  unfolding byte_masks(1) word_unat_eq_iff unat_and_not_mask by simp

lemma byte_lead3: "((b::byte) AND 0xF0 = 0xE0) \<longleftrightarrow> unat b div 16 = 14"
  unfolding byte_masks(2) word_unat_eq_iff unat_and_not_mask by simp

lemma byte_lead4: "((b::byte) AND 0xF8 = 0xF0) \<longleftrightarrow> unat b div 8 = 30"
  unfolding byte_masks(3) word_unat_eq_iff unat_and_not_mask by simp

lemma byte_cont: "((b::byte) AND 0xC0 = 0x80) \<longleftrightarrow> unat b div 64 = 2"
  unfolding byte_masks(4) word_unat_eq_iff unat_and_not_mask by simp

lemma byte_ascii: "((b::byte) < 0x80) \<longleftrightarrow> unat b < 128"
  by (simp add: word_less_nat_alt)

lemma unat_byte_less: "unat (b::byte) < 256"
  using unsigned_less [of b] by simp

lemma unat_cp_less: "unat (c::ucb_cp) < 4294967296"
  using unsigned_less [of c] by simp

lemma unat_byte_bits: "unat (ucast (b::byte) AND mask n :: ucb_cp) = unat b mod 2 ^ n"
  by (simp add: unat_and_mask_mod unat_ucast_up)

lemma unat_cont_less: "unat (ucast (b::byte) AND mask n :: ucb_cp) < 2 ^ n"
  by (simp add: unat_byte_bits)

lemma ucb_uc_fetch3_horner:
  "ucb_uc_fetch3 bs = push_bit 6 (push_bit 6 (ucast (bs ! 0) AND mask 4) OR (ucast (bs ! 1) AND mask 6))
     OR (ucast (bs ! 2) AND mask 6)"
  by (simp add: ucb_uc_fetch3_def cp_masks push_bit_or)

lemma ucb_uc_fetch4_horner:
  "ucb_uc_fetch4 bs =
     push_bit 6 (push_bit 6 (push_bit 6 (ucast (bs ! 0) AND mask 3) OR (ucast (bs ! 1) AND mask 6))
                 OR (ucast (bs ! 2) AND mask 6))
     OR (ucast (bs ! 3) AND mask 6)"
  by (simp add: ucb_uc_fetch4_def cp_masks push_bit_or)

lemma unat_fetch2: "unat (ucb_uc_fetch2 bs) = unat (bs ! 0) mod 32 * 64 + unat (bs ! 1) mod 64"
  unfolding ucb_uc_fetch2_def cp_masks by (subst unat_push_or) (simp_all add: unat_byte_bits)

lemma unat_push6_step:
  fixes x :: ucb_cp
  assumes "unat x < n" "n * 64 \<le> 2 ^ 32"
  shows "unat (push_bit 6 x OR (ucast (b::byte) AND mask 6)) = unat x * 64 + unat b mod 64"
  using assms by (subst unat_push_or) (simp_all add: unat_byte_bits)

lemma unat_fetch3:
  "unat (ucb_uc_fetch3 bs) = (unat (bs ! 0) mod 16 * 64 + unat (bs ! 1) mod 64) * 64 + unat (bs ! 2) mod 64"
proof -
  define x where "x = push_bit 6 (ucast (bs ! 0) AND mask 4) OR (ucast (bs ! 1) AND mask 6 :: ucb_cp)"
  have a: "unat x = unat (bs ! 0) mod 16 * 64 + unat (bs ! 1) mod 64"
    unfolding x_def by (subst unat_push6_step [where n = 16]) (simp_all add: unat_byte_bits)
  have "unat (bs ! 0) mod 16 < 16" "unat (bs ! 1) mod 64 < 64" by simp_all
  then have "unat x < 1024" unfolding a by linarith
  then show ?thesis unfolding ucb_uc_fetch3_horner x_def [symmetric]
    by (subst unat_push6_step [where n = 1024]) (simp_all add: a)
qed

lemma unat_fetch4:
  "unat (ucb_uc_fetch4 bs) = ((unat (bs ! 0) mod 8 * 64 + unat (bs ! 1) mod 64) * 64
      + unat (bs ! 2) mod 64) * 64 + unat (bs ! 3) mod 64"
proof -
  define x where "x = push_bit 6 (ucast (bs ! 0) AND mask 3) OR (ucast (bs ! 1) AND mask 6 :: ucb_cp)"
  define y where "y = push_bit 6 x OR (ucast (bs ! 2) AND mask 6)"
  have x: "unat x = unat (bs ! 0) mod 8 * 64 + unat (bs ! 1) mod 64"
    unfolding x_def by (subst unat_push6_step [where n = 8]) (simp_all add: unat_byte_bits)
  have l: "unat (bs ! 0) mod 8 < 8" "unat (bs ! 1) mod 64 < 64" "unat (bs ! 2) mod 64 < 64" by simp_all
  then have "unat x < 512" unfolding x by linarith
  then have y: "unat y = unat x * 64 + unat (bs ! 2) mod 64"
    unfolding y_def by (subst unat_push6_step [where n = 512]) simp_all
  then have "unat y < 32768" using l \<open>unat x < 512\<close> by linarith
  then show ?thesis unfolding ucb_uc_fetch4_horner x_def [symmetric] y_def [symmetric]
    by (subst unat_push6_step [where n = 32768]) (simp_all add: x y)
qed

lemma unat_word_of_nat: "n < 2 ^ LENGTH('a) \<Longrightarrow> unat (word_of_nat n :: 'a::len word) = n"
  by (simp add: unsigned_of_nat take_bit_nat_eq_self_iff)

lemma unat_byte_of_nat [simp]: "n < 256 \<Longrightarrow> unat (word_of_nat n :: byte) = n"
  by (rule unat_word_of_nat) simp

lemma byte_or_disjoint:
  fixes x :: ucb_cp
  assumes "unat x < 2 ^ n" "k * 2 ^ n < 256"
  shows "(ucast (word_of_nat (k * 2 ^ n) OR x) :: byte) = word_of_nat (k * 2 ^ n + unat x)"
proof -
  have "k \<le> k * 2 ^ n" by simp
  then have k: "k < 256" using assms(2) by linarith
  then have uk: "unat (word_of_nat k :: ucb_cp) = k" by (simp add: unat_word_of_nat)
  have "(word_of_nat (k * 2 ^ n) :: ucb_cp) = push_bit n (word_of_nat k)"
    by (simp add: push_bit_eq_mult)
  then have "unat (word_of_nat (k * 2 ^ n) OR x) = k * 2 ^ n + unat x"
    using assms uk by (simp add: unat_push_or)
  then show ?thesis by (metis of_nat_unat)
qed

lemma encode_bytes:
  fixes cp :: ucb_cp
  shows "(ucast cp :: byte) = word_of_nat (unat cp)"
    "unat cp < 2048 \<Longrightarrow> (ucast (0xC0 OR drop_bit 6 cp) :: byte) = word_of_nat (192 + unat cp div 64)"
    "unat cp < 65536 \<Longrightarrow> (ucast (0xE0 OR drop_bit 12 cp) :: byte) = word_of_nat (224 + unat cp div 4096)"
    "unat cp < 2097152 \<Longrightarrow> (ucast (0xF0 OR drop_bit 18 cp) :: byte) = word_of_nat (240 + unat cp div 262144)"
    "(ucast (0x80 OR (drop_bit n cp AND 0x3F)) :: byte) = word_of_nat (128 + unat cp div 2 ^ n mod 64)"
  using byte_or_disjoint [of "drop_bit 6 cp" 6 3] byte_or_disjoint [of "drop_bit 12 cp" 4 14]
    byte_or_disjoint [of "drop_bit 18 cp" 3 30] byte_or_disjoint [of "drop_bit n cp AND mask 6" 6 2]
  by (simp_all add: unat_drop unat_and_mask_mod cp_masks less_mult_imp_div_less)

lemma is_scalar_unat: "is_scalar cp \<longleftrightarrow> unat cp \<le> 1114111 \<and> \<not> (55296 \<le> unat cp \<and> unat cp \<le> 57343)"
  by (simp add: is_scalar_def word_le_nat_alt)

lemma cp_le_unat:
  "((cp::ucb_cp) \<le> 0x7F) \<longleftrightarrow> unat cp < 128" "((cp::ucb_cp) \<le> 0x7FF) \<longleftrightarrow> unat cp < 2048"
  "((cp::ucb_cp) \<le> 0xFFFF) \<longleftrightarrow> unat cp < 65536" "((cp::ucb_cp) \<le> 0x10FFFF) \<longleftrightarrow> unat cp < 1114112"
  "((cp::ucb_cp) \<ge> 0xD800 \<and> (cp::ucb_cp) \<le> 0xDFFF) \<longleftrightarrow> 55296 \<le> unat cp \<and> unat cp \<le> 57343"
  by (auto simp: word_le_nat_alt)

lemma encode_cont:
  fixes cp :: ucb_cp
  shows "(ucast (0x80 OR (cp AND 0x3F)) :: byte) = word_of_nat (128 + unat cp mod 64)"
    "(ucast (0x80 OR (drop_bit 6 cp AND 0x3F)) :: byte) = word_of_nat (128 + unat cp div 64 mod 64)"
    "(ucast (0x80 OR (drop_bit 12 cp AND 0x3F)) :: byte) = word_of_nat (128 + unat cp div 4096 mod 64)"
  using encode_bytes(5) [of 0 cp] encode_bytes(5) [of 6 cp] encode_bytes(5) [of 12 cp]
  by simp_all

lemma ucb_uc_encode_codepoint_eq:
  "ucb_uc_encode_codepoint dst cp =
     (if is_scalar cp then Some (length (utf8 cp), if dst then utf8 cp else []) else None)"
proof -
  consider "unat cp < 128" | "128 \<le> unat cp" "unat cp < 2048" | "2048 \<le> unat cp" "unat cp < 65536"
    | "65536 \<le> unat cp" "unat cp < 1114112" | "1114112 \<le> unat cp" by linarith
  then show ?thesis
    unfolding ucb_uc_encode_codepoint_def utf8_def Let_def is_scalar_unat cp_le_unat encode_cont
    by cases (simp_all add: encode_bytes(2-4) unat_drop)
qed

lemma utf8_length: "1 \<le> length (utf8 cp)" "length (utf8 cp) \<le> 4"
  by (simp_all add: utf8_def Let_def)

lemma utf8_nonempty [simp]: "utf8 cp \<noteq> []"
  by (simp add: utf8_def Let_def)

section \<open>Decoding inverts encoding\<close>

lemma div_eq_split: "(n::nat) div k = q \<Longrightarrow> q * k + n mod k = n"
  by (auto simp: div_mult_mod_eq)

lemma horner_less: "(x::nat) < k \<Longrightarrow> y < 64 \<Longrightarrow> x * 64 + y < k * 64"
  by simp

lemma horner64:
  "(y::nat) < 64 \<Longrightarrow> (x * 64 + y) div 64 = x" "y < 64 \<Longrightarrow> (x * 64 + y) mod 64 = y"
  "(n::nat) div 4096 = n div 64 div 64" "n div 262144 = n div 64 div 64 div 64"
  by (simp_all flip: div_mult2_eq)

lemma utf8_of_fetch2:
  assumes "unat (bs ! 0) div 32 = 6" "unat (bs ! 1) div 64 = 2" "\<not> ucb_uc_fetch2 bs < 0x80"
  shows "is_scalar (ucb_uc_fetch2 bs) \<and> utf8 (ucb_uc_fetch2 bs) = [bs ! 0, bs ! 1]"
proof -
  let ?c = "unat (ucb_uc_fetch2 bs)"
  have c: "?c = unat (bs ! 0) mod 32 * 64 + unat (bs ! 1) mod 64" by (rule unat_fetch2)
  have l: "unat (bs ! 0) mod 32 < 32" "unat (bs ! 1) mod 64 < 64" by simp_all
  have r: "?c < 2048" using c l by linarith
  have r2: "\<not> ?c < 128" using assms(3) by (simp add: word_less_nat_alt)
  have "192 + ?c div 64 = unat (bs ! 0)" "128 + ?c mod 64 = unat (bs ! 1)"
    using div_eq_split [OF assms(1)] div_eq_split [OF assms(2)] unfolding c by (simp_all only: horner64 l)
  then show ?thesis using r r2 by (simp add: utf8_def Let_def is_scalar_unat)
qed

lemma utf8_of_fetch3:
  assumes "unat (bs ! 0) div 16 = 14" "unat (bs ! 1) div 64 = 2" "unat (bs ! 2) div 64 = 2"
    "\<not> ucb_uc_fetch3 bs < 0x800" "\<not> (ucb_uc_fetch3 bs \<ge> 0xD800 \<and> ucb_uc_fetch3 bs \<le> 0xDFFF)"
  shows "is_scalar (ucb_uc_fetch3 bs) \<and> utf8 (ucb_uc_fetch3 bs) = [bs ! 0, bs ! 1, bs ! 2]"
proof -
  let ?c = "unat (ucb_uc_fetch3 bs)"
  have c: "?c = (unat (bs ! 0) mod 16 * 64 + unat (bs ! 1) mod 64) * 64 + unat (bs ! 2) mod 64"
    by (rule unat_fetch3)
  have l: "unat (bs ! 0) mod 16 < 16" "unat (bs ! 1) mod 64 < 64" "unat (bs ! 2) mod 64 < 64" by simp_all
  have r: "?c < 65536" unfolding c
    using horner_less [OF horner_less [OF l(1,2)] l(3)] by simp
  have r2: "\<not> ?c < 2048" using assms(4) by (simp add: word_less_nat_alt)
  have "224 + ?c div 4096 = unat (bs ! 0)" "128 + ?c div 64 mod 64 = unat (bs ! 1)"
    "128 + ?c mod 64 = unat (bs ! 2)"
    using div_eq_split [OF assms(1)] div_eq_split [OF assms(2)] div_eq_split [OF assms(3)]
    unfolding c by (simp_all only: horner64 l)
  then show ?thesis using r r2 assms(5)
    by (simp add: utf8_def Let_def is_scalar_unat word_le_nat_alt)
qed

lemma utf8_of_fetch4:
  assumes "unat (bs ! 0) div 8 = 30" "unat (bs ! 1) div 64 = 2" "unat (bs ! 2) div 64 = 2"
    "unat (bs ! 3) div 64 = 2" "\<not> (ucb_uc_fetch4 bs < 0x10000 \<or> ucb_uc_fetch4 bs > 0x10FFFF)"
  shows "is_scalar (ucb_uc_fetch4 bs) \<and> utf8 (ucb_uc_fetch4 bs) = [bs ! 0, bs ! 1, bs ! 2, bs ! 3]"
proof -
  let ?c = "unat (ucb_uc_fetch4 bs)"
  have c: "?c = ((unat (bs ! 0) mod 8 * 64 + unat (bs ! 1) mod 64) * 64 + unat (bs ! 2) mod 64) * 64
      + unat (bs ! 3) mod 64" by (rule unat_fetch4)
  have l: "unat (bs ! 0) mod 8 < 8" "unat (bs ! 1) mod 64 < 64" "unat (bs ! 2) mod 64 < 64"
    "unat (bs ! 3) mod 64 < 64" by simp_all
  have r: "?c \<le> 1114111" "\<not> ?c < 65536" using assms(5) by (simp_all add: word_less_nat_alt)
  have "240 + ?c div 262144 = unat (bs ! 0)" "128 + ?c div 4096 mod 64 = unat (bs ! 1)"
    "128 + ?c div 64 mod 64 = unat (bs ! 2)" "128 + ?c mod 64 = unat (bs ! 3)"
    using div_eq_split [OF assms(1)] div_eq_split [OF assms(2)] div_eq_split [OF assms(3)]
      div_eq_split [OF assms(4)] unfolding c by (simp_all only: horner64 l)
  then show ?thesis using r by (simp add: utf8_def Let_def is_scalar_unat)
qed

section \<open>Validation against well-formedness\<close>

lemma take2: "length bs \<ge> 2 \<Longrightarrow> take 2 bs = [bs ! 0, bs ! 1]"
  by (cases bs; cases "tl bs") auto

lemma take3: "length bs \<ge> 3 \<Longrightarrow> take 3 bs = [bs ! 0, bs ! 1, bs ! 2]"
  by (cases bs; cases "tl bs"; cases "tl (tl bs)") auto

lemma take4: "length bs \<ge> 4 \<Longrightarrow> take 4 bs = [bs ! 0, bs ! 1, bs ! 2, bs ! 3]"
  by (cases bs; cases "tl bs"; cases "tl (tl bs)"; cases "tl (tl (tl bs))") auto

lemma take1: "length bs \<ge> 1 \<Longrightarrow> take 1 bs = [bs ! 0]"
  by (cases bs) auto

lemmas utf8_byte_simps = byte_lead2 byte_lead3 byte_lead4 byte_cont byte_ascii

lemma ascii_scalar: "unat (b::byte) < 128 \<Longrightarrow> is_scalar (ucast b) \<and> utf8 (ucast b) = [b]"
  by (simp add: is_scalar_unat utf8_def Let_def unat_ucast_up)

text \<open>A step of the loop succeeds exactly over the encoding of one scalar value.\<close>

lemma uc_validate_at_sound:
  assumes "uc_validate_at mem len i = Inr j" "i < len" "len \<le> length mem"
  obtains cp where "is_scalar cp" "take (length (utf8 cp)) (drop i mem) = utf8 cp"
    "j = i + length (utf8 cp)" "j \<le> len" "ucb_uc_next_valid (drop i mem) = Ret (cp, length (utf8 cp))"
proof -
  let ?b = "drop i mem"
  have nth: "?b ! k = mem ! (i + k)" for k using assms(2,3) by simp
  note found = that
  have fin: thesis if h: "is_scalar cp" "utf8 cp = take n ?b" "j = i + n" "i + n \<le> len"
      "ucb_uc_next_valid ?b = Ret (cp, n)" for cp n
  proof -
    have "length (utf8 cp) = n" using h assms(3) by simp
    then show thesis using h assms by (intro found [of cp]) simp_all
  qed
  consider (a) "?b ! 0 < 0x80" | (b) "\<not> ?b ! 0 < 0x80" "?b ! 0 AND 0xE0 = 0xC0"
    | (c) "\<not> ?b ! 0 < 0x80" "?b ! 0 AND 0xE0 \<noteq> 0xC0" "?b ! 0 AND 0xF0 = 0xE0"
    | (d) "\<not> ?b ! 0 < 0x80" "?b ! 0 AND 0xE0 \<noteq> 0xC0" "?b ! 0 AND 0xF0 \<noteq> 0xE0" "?b ! 0 AND 0xF8 = 0xF0"
    | (e) "\<not> ?b ! 0 < 0x80" "?b ! 0 AND 0xE0 \<noteq> 0xC0" "?b ! 0 AND 0xF0 \<noteq> 0xE0" "?b ! 0 AND 0xF8 \<noteq> 0xF0"
    by blast
  then show thesis
  proof cases
    case a
    have "utf8 (ucast (?b ! 0)) = [?b ! 0]" "is_scalar (ucast (?b ! 0))"
      using a ascii_scalar [of "?b ! 0"] by (simp_all add: byte_ascii)
    moreover have "j = i + 1" using assms(1) a by (simp add: uc_validate_at_def nth Let_def)
    moreover have "\<not> length ?b < 1" using assms(2,3) by simp
    ultimately show ?thesis using fin [of "ucast (?b ! 0)" 1] assms(2) a take1 [of ?b]
      by (simp add: ucb_uc_next_valid_def)
  next
    case b
    have v: "i + 1 < len" "?b ! 1 AND 0xC0 = 0x80" "\<not> ucb_uc_fetch2 ?b < 0x80" "j = i + 2"
      using assms(1) b by (auto simp: uc_validate_at_def nth Let_def split: if_splits)
    have "is_scalar (ucb_uc_fetch2 ?b) \<and> utf8 (ucb_uc_fetch2 ?b) = [?b ! 0, ?b ! 1]"
      using b v by (intro utf8_of_fetch2) (simp_all only: utf8_byte_simps not_False_eq_True)
    moreover have "\<not> length ?b < 2" "\<not> length ?b < 1" using v(1) assms(3) by simp_all
    moreover have "ucb_uc_next_valid ?b = Ret (ucb_uc_fetch2 ?b, 2)"
      unfolding ucb_uc_next_valid_def using b calculation(2,3) by simp
    ultimately show ?thesis using fin [of "ucb_uc_fetch2 ?b" 2] v(1,4) take2 [of ?b] by simp
  next
    case c
    have v: "i + 2 < len" "?b ! 1 AND 0xC0 = 0x80" "?b ! 2 AND 0xC0 = 0x80" "\<not> ucb_uc_fetch3 ?b < 0x800"
       "\<not> (ucb_uc_fetch3 ?b \<ge> 0xD800 \<and> ucb_uc_fetch3 ?b \<le> 0xDFFF)" "j = i + 3"
      using assms(1) c by (auto simp: uc_validate_at_def nth Let_def split: if_splits)
    have "is_scalar (ucb_uc_fetch3 ?b) \<and> utf8 (ucb_uc_fetch3 ?b) = [?b ! 0, ?b ! 1, ?b ! 2]"
      using c v by (intro utf8_of_fetch3) (simp_all only: utf8_byte_simps not_False_eq_True)
    moreover have "\<not> length ?b < 3" "\<not> length ?b < 1" using v(1) assms(3) by simp_all
    moreover have "ucb_uc_next_valid ?b = Ret (ucb_uc_fetch3 ?b, 3)"
      unfolding ucb_uc_next_valid_def using c calculation(2,3) by simp
    ultimately show ?thesis using fin [of "ucb_uc_fetch3 ?b" 3] v(1,6) take3 [of ?b] by simp
  next
    case d
    have v: "i + 3 < len" "?b ! 1 AND 0xC0 = 0x80" "?b ! 2 AND 0xC0 = 0x80" "?b ! 3 AND 0xC0 = 0x80"
      "\<not> (ucb_uc_fetch4 ?b < 0x10000 \<or> ucb_uc_fetch4 ?b > 0x10FFFF)" "j = i + 4"
      using assms(1) d by (auto simp: uc_validate_at_def nth Let_def split: if_splits)
    have "is_scalar (ucb_uc_fetch4 ?b) \<and> utf8 (ucb_uc_fetch4 ?b) = [?b ! 0, ?b ! 1, ?b ! 2, ?b ! 3]"
      using d v by (intro utf8_of_fetch4) (simp_all only: utf8_byte_simps not_False_eq_True)
    moreover have "\<not> length ?b < 4" "\<not> length ?b < 1" using v(1) assms(3) by simp_all
    moreover have "ucb_uc_next_valid ?b = Ret (ucb_uc_fetch4 ?b, 4)"
      unfolding ucb_uc_next_valid_def using d calculation(2,3) by simp
    ultimately show ?thesis using fin [of "ucb_uc_fetch4 ?b" 4] v(1,6) take4 [of ?b] by simp
  next
    case e
    then show ?thesis using assms(1) by (simp add: uc_validate_at_def nth Let_def)
  qed
qed

lemma unat_ucast_byte: "unat (ucast (cp::ucb_cp) :: byte) = unat cp mod 256"
  by (simp add: unsigned_ucast_eq take_bit_nat_def)

lemma utf8_1:
  assumes "unat cp < 128" shows "\<exists>b. utf8 cp = [b] \<and> unat b = unat cp"
  using assms by (simp add: utf8_def Let_def unat_ucast_byte)

lemma utf8_2:
  assumes "128 \<le> unat cp" "unat cp < 2048"
  shows "\<exists>b b1. utf8 cp = [b, b1] \<and> unat b = 192 + unat cp div 64 \<and> unat b1 = 128 + unat cp mod 64
    \<and> unat cp div 64 < 32"
proof -
  have "unat cp div 64 < 32" using assms by (simp add: less_mult_imp_div_less)
  then show ?thesis using assms by (simp add: utf8_def Let_def del: of_nat_add)
qed

lemma utf8_3:
  assumes "2048 \<le> unat cp" "unat cp < 65536"
  shows "\<exists>b b1 b2. utf8 cp = [b, b1, b2] \<and> unat b = 224 + unat cp div 4096
    \<and> unat b1 = 128 + unat cp div 64 mod 64 \<and> unat b2 = 128 + unat cp mod 64 \<and> unat cp div 4096 < 16"
proof -
  have "unat cp div 4096 < 16" using assms by (simp add: less_mult_imp_div_less)
  then show ?thesis using assms by (simp add: utf8_def Let_def del: of_nat_add)
qed

lemma utf8_4:
  assumes "65536 \<le> unat cp" "unat cp \<le> 1114111"
  shows "\<exists>b b1 b2 b3. utf8 cp = [b, b1, b2, b3] \<and> unat b = 240 + unat cp div 262144
    \<and> unat b1 = 128 + unat cp div 4096 mod 64 \<and> unat b2 = 128 + unat cp div 64 mod 64
    \<and> unat b3 = 128 + unat cp mod 64 \<and> unat cp div 262144 < 8"
proof -
  have "unat cp div 262144 < 8" using assms by (simp add: less_mult_imp_div_less)
  then show ?thesis using assms by (simp add: utf8_def Let_def del: of_nat_add)
qed

lemma take_eq_nth:
  assumes "take n bs = xs" "length xs = n" "k < n" shows "bs ! k = xs ! k"
  using assms by (metis nth_take)

lemma cont_div: "(128 + x mod 64) div 64 = (2::nat)"
  using div_mult_self3 [of 64 2 "x mod 64"] by simp

lemma lead_mods: "(192 + x) mod 32 = (x::nat) mod 32" "(224 + x) mod 16 = x mod 16"
    "(240 + x) mod 8 = x mod 8" "(128 + x) mod 64 = x mod 64"
  using mod_mult_self3 [of 6 32 x] mod_mult_self3 [of 14 16 x] mod_mult_self3 [of 30 8 x]
    mod_mult_self3 [of 2 64 x] by simp_all

lemma uc_validate_at_complete:
  assumes s: "is_scalar cp" and t: "take (length (utf8 cp)) (drop i mem) = utf8 cp"
    and l: "i + length (utf8 cp) \<le> len" "len \<le> length mem"
  shows "uc_validate_at mem len i = Inr (i + length (utf8 cp))
    \<and> ucb_uc_next_valid (drop i mem) = Ret (cp, length (utf8 cp))"
proof -
  let ?b = "drop i mem" and ?c = "unat cp"
  have i: "i < len" using l utf8_length(1) [of cp] by linarith
  have nth: "mem ! i = ?b ! 0" "\<And>k. mem ! (i + k) = ?b ! k" using i l by simp_all
  have bk: "k < length (utf8 cp) \<Longrightarrow> ?b ! k = utf8 cp ! k" for k
    using take_eq_nth [OF t refl] by blast
  consider "?c < 128" | "128 \<le> ?c" "?c < 2048" | "2048 \<le> ?c" "?c < 65536"
    | "65536 \<le> ?c" "?c \<le> 1114111" using s by (fastforce simp: is_scalar_unat)
  then show ?thesis
  proof cases
    case 1
    then obtain b where b: "utf8 cp = [b]" "unat b = ?c" using utf8_1 by blast
    then have "?b ! 0 = b" using bk [of 0] by simp
    then have e: "mem ! i = b" by (simp only: nth)
    have f: "ucast b = cp" unfolding word_unat_eq_iff using b by (subst unat_ucast_up) simp_all
    have "\<not> length ?b < 1" using i l by simp
    then have "ucb_uc_next_valid ?b = Ret (cp, length (utf8 cp))"
      unfolding ucb_uc_next_valid_def \<open>?b ! 0 = b\<close> f byte_ascii using b 1 by simp
    moreover have "uc_validate_at mem len i = Inr (i + length (utf8 cp))"
      unfolding uc_validate_at_def Let_def e byte_ascii using b 1 by simp
    ultimately show ?thesis by blast
  next
    case 2
    then obtain b b1 where b: "utf8 cp = [b, b1]" "unat b = 192 + ?c div 64" "unat b1 = 128 + ?c mod 64"
      "?c div 64 < 32" using utf8_2 by blast
    have e: "?b ! 0 = b" "?b ! 1 = b1" using bk [of 0] bk [of 1] b(1) by (simp_all del: nth_drop)
    have m: "mem ! i = b" "mem ! (i + 1) = b1" 
      by (simp_all only: nth e)
    have a: "unat b div 32 = 6" "unat b1 div 64 = 2" "\<not> unat b < 128" using b by (simp_all add: cont_div)
    have f: "unat (ucb_uc_fetch2 ?b) = ?c" unfolding unat_fetch2 e using b by (simp add: lead_mods)
    from f have "\<not> ucb_uc_fetch2 ?b < 0x80" using 2 by (simp add: word_less_nat_alt)
    then have "uc_validate_at mem len i = Inr (i + length (utf8 cp))" using a b(1) l(1) m
      by (simp add: uc_validate_at_def utf8_byte_simps Let_def)
    moreover have "\<not> length ?b < 2" "\<not> length ?b < 1" using l b(1) by simp_all
    moreover have "ucb_uc_fetch2 ?b = cp" using f by (simp only: word_unat_eq_iff)
    moreover have "ucb_uc_next_valid ?b = Ret (cp, length (utf8 cp))"
      unfolding ucb_uc_next_valid_def utf8_byte_simps e using a b(1) calculation(2-4) by simp
    ultimately show ?thesis by blast
  next
    case 3
    then obtain b b1 b2 where b: "utf8 cp = [b, b1, b2]" "unat b = 224 + ?c div 4096"
      "unat b1 = 128 + ?c div 64 mod 64" "unat b2 = 128 + ?c mod 64" "?c div 4096 < 16"
      using utf8_3 by blast
    have e: "?b ! 0 = b" "?b ! 1 = b1" "?b ! 2 = b2"
      using bk [of 0] bk [of 1] bk [of 2] b(1) by (simp_all del: nth_drop)
    have m: "mem ! i = b" "mem ! (i + 1) = b1" "mem ! (i + 2) = b2"
      by (simp_all only: nth e)
    have a: "unat b div 16 = 14" "unat b div 32 = 7" "unat b1 div 64 = 2" "unat b2 div 64 = 2"
      "\<not> unat b < 128" using b by (simp_all add: cont_div)
    have "unat (ucb_uc_fetch3 ?b) = (?c div 64 div 64 * 64 + ?c div 64 mod 64) * 64 + ?c mod 64"
      unfolding unat_fetch3 e using b by (simp add: horner64(3) lead_mods)
    then have f: "unat (ucb_uc_fetch3 ?b) = ?c" by (simp only: div_mult_mod_eq)
    from f have "\<not> ucb_uc_fetch3 ?b < 0x800" "\<not> (ucb_uc_fetch3 ?b \<ge> 0xD800 \<and> ucb_uc_fetch3 ?b \<le> 0xDFFF)"
      using 3 s by (simp_all add: word_less_nat_alt word_le_nat_alt is_scalar_unat)
    then have "uc_validate_at mem len i = Inr (i + length (utf8 cp))" using a b(1) l(1) m
      by (simp add: uc_validate_at_def utf8_byte_simps Let_def)
    moreover have "\<not> length ?b < 3" "\<not> length ?b < 1" using l b(1) by simp_all
    moreover have "ucb_uc_fetch3 ?b = cp" using f by (simp only: word_unat_eq_iff)
    moreover have "ucb_uc_next_valid ?b = Ret (cp, length (utf8 cp))"
      unfolding ucb_uc_next_valid_def utf8_byte_simps e using a b(1) calculation(2-4) by simp
    ultimately show ?thesis by blast
  next
    case 4
    then obtain b b1 b2 b3 where b: "utf8 cp = [b, b1, b2, b3]" "unat b = 240 + ?c div 262144"
      "unat b1 = 128 + ?c div 4096 mod 64" "unat b2 = 128 + ?c div 64 mod 64" "unat b3 = 128 + ?c mod 64"
      "?c div 262144 < 8" using utf8_4 by blast
    have e: "?b ! 0 = b" "?b ! 1 = b1" "?b ! 2 = b2" "?b ! 3 = b3"
      using bk [of 0] bk [of 1] bk [of 2] bk [of 3] b(1) by (simp_all del: nth_drop)
    have m: "mem ! i = b" "mem ! (i + 1) = b1" "mem ! (i + 2) = b2" "mem ! (i + 3) = b3"
      by (simp_all only: nth e)
    have a: "unat b div 8 = 30" "unat b div 16 = 15" "unat b div 32 = 7" "unat b1 div 64 = 2"
      "unat b2 div 64 = 2" "unat b3 div 64 = 2" "\<not> unat b < 128" using b by (simp_all add: cont_div)
    have "unat (ucb_uc_fetch4 ?b) =
        ((?c div 64 div 64 div 64 * 64 + ?c div 64 div 64 mod 64) * 64 + ?c div 64 mod 64) * 64 + ?c mod 64"
      unfolding unat_fetch4 e using b by (simp add: horner64(3,4) lead_mods)
    then have f: "unat (ucb_uc_fetch4 ?b) = ?c" by (simp only: div_mult_mod_eq)
    from f have "\<not> ucb_uc_fetch4 ?b < 0x10000" "\<not> ucb_uc_fetch4 ?b > 0x10FFFF"
      using 4 by (simp_all add: word_less_nat_alt)
    then have "uc_validate_at mem len i = Inr (i + length (utf8 cp))" using a b(1) l(1) m
      by (simp add: uc_validate_at_def utf8_byte_simps Let_def)
    moreover have "\<not> length ?b < 4" "\<not> length ?b < 1" using l b(1) by simp_all
    moreover have "ucb_uc_fetch4 ?b = cp" using f by (simp only: word_unat_eq_iff)
    moreover have "ucb_uc_next_valid ?b = Ret (cp, length (utf8 cp))"
      unfolding ucb_uc_next_valid_def utf8_byte_simps e using a b(1) calculation(2-4) by simp
    ultimately show ?thesis by blast
  qed
qed

lemma utf8s_simps [simp]: "utf8s [] = []" "utf8s (cp # cps) = utf8 cp @ utf8s cps"
  "utf8s (cps @ cps') = utf8s cps @ utf8s cps'"
  by (simp_all add: utf8s_def)

lemma take_append_split:
  assumes "take n (drop i mem) = xs @ ys" "n + i \<le> length mem"
  shows "take (length xs) (drop i mem) = xs" "take (n - length xs) (drop (i + length xs) mem) = ys"
    "length xs \<le> n" "n = length xs + length ys"
proof -
  have n: "length xs + length ys = n" using arg_cong [OF assms(1), of length] assms(2) by simp
  then have "length xs \<le> n" by simp
  then show "take (length xs) (drop i mem) = xs"
    using arg_cong [OF assms(1), of "take (length xs)"] by (simp add: min_absorb1)
  show "take (n - length xs) (drop (i + length xs) mem) = ys"
    using arg_cong [OF assms(1), of "drop (length xs)"] by (simp add: drop_take add.commute)
  show "length xs \<le> n" "n = length xs + length ys" using n by simp_all
qed

lemma uc_validate_loop_complete:
  assumes "list_all is_scalar cps" "take (len - i) (drop i mem) = utf8s cps" "i \<le> len" "len \<le> length mem"
  shows "uc_validate_loop mem len i = Inr len"
  using assms
proof (induction cps arbitrary: i)
  case Nil
  then show ?case by (auto simp: uc_validate_loop.simps [of mem len i])
next
  case (Cons cp cps)
  have le: "len - i + i \<le> length mem" using Cons.prems by simp
  have eq: "take (len - i) (drop i mem) = utf8 cp @ utf8s cps" using Cons.prems by simp
  note sp = take_append_split [OF eq le]
  have i: "i < len" using sp(3) utf8_length(1) [of cp] by linarith
  have "uc_validate_at mem len i = Inr (i + length (utf8 cp))"
    using Cons.prems sp(1,3) i uc_validate_at_complete [of cp i mem len] by auto
  then have "uc_validate_loop mem len i = uc_validate_loop mem len (i + length (utf8 cp))"
    using i by (simp add: uc_validate_loop.simps [of mem len i])
  also have "\<dots> = Inr len"
    using Cons.prems sp(2,3) i by (intro Cons.IH) (simp_all add: diff_diff_left)
  finally show ?case .
qed

lemma uc_validate_loop_Inr:
  assumes "uc_validate_loop mem len i = Inr j" "i \<le> len" "len \<le> length mem"
  shows "j = len \<and> (\<exists>cps. list_all is_scalar cps \<and> take (len - i) (drop i mem) = utf8s cps)"
  using assms
proof (induction mem len i rule: uc_validate_loop.induct)
  case (1 mem len i)
  show ?case
  proof (cases "i < len")
    case False
    then show ?thesis using "1.prems"
      by (auto simp: uc_validate_loop.simps [of mem len len] intro!: exI [of _ "[]"])
  next
    case True
    then obtain k where k: "uc_validate_at mem len i = Inr k" "uc_validate_loop mem len k = Inr j"
      using "1.prems"(1) by (auto simp: uc_validate_loop.simps [of mem len i] split: sum.splits)
    obtain cp where cp: "is_scalar cp" "take (length (utf8 cp)) (drop i mem) = utf8 cp"
      "k = i + length (utf8 cp)" "k \<le> len"
      using uc_validate_at_sound [OF k(1) True "1.prems"(3)] by metis
    obtain cps where cps: "list_all is_scalar cps" "take (len - k) (drop k mem) = utf8s cps" and j: "j = len"
      using "1.IH" [OF True k(1,2) cp(4) "1.prems"(3)] by blast
    have "take (len - i) (drop i mem) = take (length (utf8 cp) + (len - k)) (drop i mem)"
      using cp(3,4) by simp
    also have "\<dots> = utf8s (cp # cps)"
      using cp(2,3) cps(2) by (simp add: take_add add.commute)
    finally show ?thesis using j cp(1) cps(1) by (metis list.pred_inject(2))
  qed
qed

lemma uc_validate_loop_Inl:
  assumes "uc_validate_loop mem len i = Inl (p, e)" "i \<le> len" "len \<le> length mem"
  shows "i \<le> p \<and> p < len \<and> uc_validate_at mem len p = Inl e
    \<and> (\<exists>cps. list_all is_scalar cps \<and> take (p - i) (drop i mem) = utf8s cps)"
  using assms
proof (induction mem len i rule: uc_validate_loop.induct)
  case (1 mem len i)
  have i: "i < len" using "1.prems"(1) by (auto simp: uc_validate_loop.simps [of mem len i] split: if_splits)
  show ?case
  proof (cases "uc_validate_at mem len i")
    case (Inl e')
    then have "p = i" "e = e'" using "1.prems"(1) i by (simp_all add: uc_validate_loop.simps [of mem len i])
    moreover have "take (p - i) (drop i mem) = utf8s []" using calculation by simp
    ultimately show ?thesis using Inl i by (metis list.pred_inject(1) order_refl)
  next
    case (Inr k)
    then have k: "uc_validate_loop mem len k = Inl (p, e)"
      using "1.prems"(1) i by (simp add: uc_validate_loop.simps [of mem len i])
    obtain cp where cp: "is_scalar cp" "take (length (utf8 cp)) (drop i mem) = utf8 cp"
      "k = i + length (utf8 cp)" "k \<le> len"
      using uc_validate_at_sound [OF Inr i "1.prems"(3)] by metis
    obtain cps where cps: "list_all is_scalar cps" "take (p - k) (drop k mem) = utf8s cps"
      and r: "k \<le> p" "p < len" "uc_validate_at mem len p = Inl e"
      using "1.IH" [OF i Inr k cp(4) "1.prems"(3)] by blast
    have "take (p - i) (drop i mem) = take (length (utf8 cp) + (p - k)) (drop i mem)"
      using cp(3) r(1) by simp
    also have "\<dots> = utf8s (cp # cps)"
      using cp(2,3) cps(2) by (simp add: take_add add.commute)
    finally have "take (p - i) (drop i mem) = utf8s (cp # cps)" .
    moreover have "list_all is_scalar (cp # cps)" "i \<le> p" using cp(1,3) cps(1) r(1) by simp_all
    ultimately show ?thesis using r(2,3) by blast
  qed
qed

lemma for_each_valid:
  assumes "list_all is_scalar cps" "take (len - i) (drop i mem) = utf8s cps" "i \<le> len" "len \<le> length mem"
  shows "for_each_codepoint mem i len = Ret (cps, len)"
  using assms
proof (induction cps arbitrary: i)
  case Nil
  then show ?case by (auto simp: for_each_codepoint.simps [of mem i len] ucb_uc_iter_next_def)
next
  case (Cons cp cps)
  have le: "len - i + i \<le> length mem" using Cons.prems by simp
  have eq: "take (len - i) (drop i mem) = utf8 cp @ utf8s cps" using Cons.prems by simp
  note sp = take_append_split [OF eq le]
  have i: "i < len" using sp(3) utf8_length(1) [of cp] by linarith
  have nv: "ucb_uc_next_valid (drop i mem) = Ret (cp, length (utf8 cp))"
    using Cons.prems sp(1,3) i uc_validate_at_complete [of cp i mem len] by auto
  have "for_each_codepoint mem (i + length (utf8 cp)) len = Ret (cps, len)"
    using Cons.prems sp(2,3) i by (intro Cons.IH) (simp_all add: diff_diff_left)
  then show ?case using i nv
    by (simp add: for_each_codepoint.simps [of mem i len] ucb_uc_iter_next_def)
qed

section \<open>Properties\<close>

text \<open>The text a (pointer, length) argument pair denotes: \<open>UCB_NPOS\<close> asks for \<^verbatim>\<open>strlen\<close>.\<close>

definition arg_text :: "byte list \<Rightarrow> nat \<Rightarrow> byte list result" where
  "arg_text mem len =
     rbind (if len = UCB_NPOS then c_strlen mem else Ret len) (\<lambda>n. mem_read mem n)"

lemma arg_text_Ret:
  assumes "arg_text mem len = Ret txt"
  shows "(if len = UCB_NPOS then c_strlen mem else Ret len) = Ret (length txt)"
    "length txt \<le> length mem" "txt = take (length txt) mem"
  using assms by (auto simp: arg_text_def mem_read_def split: if_splits)

lemma ucb_uc_validate_cases:
  assumes "arg_text mem len = Ret txt"
  shows "ucb_uc_validate mem len =
     Ret (case uc_validate_loop mem (length txt) 0 of Inr i \<Rightarrow> None
          | Inl (p, e) \<Rightarrow> Some (if e \<noteq> 0 then Truncated p e (length txt - p) else InvalidSeq p))"
  using arg_text_Ret(1,2) [OF assms] by (simp add: ucb_uc_validate_def split: sum.split)

lemma ucb_uc_validate_correct_aux:
  assumes "arg_text mem len = Ret txt"
  shows "ucb_uc_validate mem len = Ret None \<longleftrightarrow> wf_utf8 txt"
proof -
  note t = arg_text_Ret(2,3) [OF assms]
  show ?thesis
  proof
    assume "ucb_uc_validate mem len = Ret None"
    then obtain j where "uc_validate_loop mem (length txt) 0 = Inr j"
      by (auto simp: ucb_uc_validate_cases [OF assms] split: sum.splits)
    from uc_validate_loop_Inr [OF this] t show "wf_utf8 txt" by (auto simp: wf_utf8_def)
  next
    assume "wf_utf8 txt"
    then obtain cps where "list_all is_scalar cps" "txt = utf8s cps" by (auto simp: wf_utf8_def)
    then have "uc_validate_loop mem (length txt) 0 = Inr (length txt)"
      using t by (intro uc_validate_loop_complete [of cps]) simp_all
    then show "ucb_uc_validate mem len = Ret None" by (simp add: ucb_uc_validate_cases [OF assms])
  qed
qed

text \<open>
  C1: \<^verbatim>\<open>ucb_uc_validate\<close> returns true exactly when the text is the concatenated UTF-8
  encoding (RFC 3629) of a sequence of Unicode scalar values: no overlong form, no surrogate,
  nothing past U+10FFFF, no stray or missing continuation byte.
\<close>

theorem ucb_uc_validate_correct:
  assumes "arg_text mem len = Ret txt"
  shows "ucb_uc_validate mem len = Ret None \<longleftrightarrow> wf_utf8 txt"
  by (rule ucb_uc_validate_correct_aux [OF assms])

theorem ucb_uc_validate_correct_witness:
  "ucb_uc_validate [0xC3, 0xA5, 0x41, 0] UCB_NPOS = Ret None \<longleftrightarrow> wf_utf8 [0xC3, 0xA5, 0x41]"
  by (rule ucb_uc_validate_correct) (simp add: arg_text_def c_strlen_def mem_read_def)

text \<open>
  When \<^verbatim>\<open>ucb_uc_validate\<close> fails, the reported position is the end of the longest
  well-formed prefix: the text before it is well formed and no scalar value is encoded at it.
  A truncation error reports the number of bytes left, which is less than the number expected.
\<close>

theorem ucb_uc_validate_error_position:
  assumes "arg_text mem len = Ret txt" and "ucb_uc_validate mem len = Ret (Some e)"
  shows "\<exists>p. (e = InvalidSeq p \<or> (\<exists>n. e = Truncated p n (length txt - p) \<and> length txt - p < n))
     \<and> p < length txt \<and> wf_utf8 (take p txt)
     \<and> (\<nexists>cp rest. is_scalar cp \<and> drop p txt = utf8 cp @ rest)"
proof -
  note t = arg_text_Ret(2,3) [OF assms(1)]
  obtain p x where l: "uc_validate_loop mem (length txt) 0 = Inl (p, x)"
    and e: "e = (if x \<noteq> 0 then Truncated p x (length txt - p) else InvalidSeq p)"
    using assms(2) by (auto simp: ucb_uc_validate_cases [OF assms(1)] split: sum.splits)
  from uc_validate_loop_Inl [OF l] t(1)
  have p: "p < length txt" "uc_validate_at mem (length txt) p = Inl x"
    and w: "\<exists>cps. list_all is_scalar cps \<and> take p mem = utf8s cps" by auto
  have "take p txt = take p mem" using p(1) by (subst t(2)) (simp add: min_def)
  then have w: "wf_utf8 (take p txt)" using w by (auto simp: wf_utf8_def)
  have tr: "length txt - p < x" if "x \<noteq> 0"
    using p that by (auto simp: uc_validate_at_def Let_def split: if_splits)
  have "False" if h: "is_scalar cp" "drop p txt = utf8 cp @ rest" for cp rest
  proof -
    have "drop p txt = take (length txt - p) (drop p mem)" by (subst t(2)) (simp add: drop_take)
    then have s: "take (length txt - p) (drop p mem) = utf8 cp @ rest" using h(2) by simp
    note sp = take_append_split [OF s]
    have "uc_validate_at mem (length txt) p = Inr (p + length (utf8 cp))"
      using sp(1,3) t(1) p(1) uc_validate_at_complete [OF h(1), of p mem "length txt"] by auto
    then show False using p(2) by simp
  qed
  then show ?thesis using e p(1) w tr by (intro exI [of _ p]) auto
qed

theorem ucb_uc_validate_error_position_witness:
  "\<exists>p. (Truncated 1 3 2 = InvalidSeq p \<or> (\<exists>n. Truncated 1 3 2 = Truncated p n (3 - p) \<and> 3 - p < n))
     \<and> p < 3 \<and> wf_utf8 (take p [0x41, 0xE2, 0x82])
     \<and> (\<nexists>cp rest. is_scalar cp \<and> drop p [0x41, 0xE2, 0x82] = utf8 cp @ rest)"
proof -
  have "uc_validate_loop [0x41, 0xE2, 0x82] 3 0 = Inl (1, 3)" by code_simp
  then have "ucb_uc_validate [0x41, 0xE2, 0x82] 3 = Ret (Some (Truncated 1 3 2))"
    by (simp add: ucb_uc_validate_def UCB_NPOS_eq)
  then show ?thesis
    using ucb_uc_validate_error_position [of "[0x41, 0xE2, 0x82]" 3 "[0x41, 0xE2, 0x82]" "Truncated 1 3 2"]
    by (simp add: arg_text_def mem_read_def UCB_NPOS_eq)
qed

text \<open>
  C5: Iterating over the encoding of a sequence of scalar values yields that sequence and
  stops exactly at the end of the text, whatever bytes follow it; so decoding inverts encoding
  and \<^verbatim>\<open>ucb_uc_num_cp\<close> is the number of scalar values.
\<close>

theorem decode_inverts_encode:
  assumes "list_all is_scalar cps" and "length (utf8s cps) \<noteq> UCB_NPOS"
  shows "for_each_codepoint (utf8s cps @ rest) 0 (length (utf8s cps)) = Ret (cps, length (utf8s cps))
    \<and> ucb_uc_num_cp (Some (utf8s cps @ rest)) (length (utf8s cps)) = Ret (length cps)"
proof -
  have "for_each_codepoint (utf8s cps @ rest) 0 (length (utf8s cps)) = Ret (cps, length (utf8s cps))"
    using assms(1) by (intro for_each_valid) simp_all
  then show ?thesis using assms(2) by (simp add: ucb_uc_num_cp_def)
qed

theorem decode_inverts_encode_witness:
  "for_each_codepoint (utf8s [0x41, 0x20AC, 0x1F600] @ [0xFF]) 0 8 = Ret ([0x41, 0x20AC, 0x1F600], 8)"
proof -
  have l: "length (utf8s [0x41, 0x20AC, 0x1F600]) = 8" by (simp add: utf8_def)
  have "list_all is_scalar [0x41, 0x20AC, 0x1F600]" by (simp add: is_scalar_def)
  from decode_inverts_encode [OF this, of "[0xFF]"] show ?thesis
    unfolding l by (simp add: UCB_NPOS_eq)
qed

text \<open>
  \<^verbatim>\<open>ucb_uc_encode_codepoint\<close> succeeds exactly on the scalar values; it returns the length of
  the RFC 3629 encoding and stores that encoding when \<^verbatim>\<open>dst\<close> is not null.
\<close>

theorem ucb_uc_encode_codepoint_correct:
  "ucb_uc_encode_codepoint dst cp =
     (if is_scalar cp then Some (length (utf8 cp), if dst then utf8 cp else []) else None)"
  by (rule ucb_uc_encode_codepoint_eq)

lemma utf8s_inject:
  assumes "list_all is_scalar xs" "list_all is_scalar ys" "utf8s xs = utf8s ys"
  shows "xs = ys"
proof -
  have "for_each_codepoint (utf8s xs) 0 (length (utf8s xs)) = Ret (xs, length (utf8s xs))"
    using assms(1) by (intro for_each_valid) simp_all
  moreover have "for_each_codepoint (utf8s ys) 0 (length (utf8s ys)) = Ret (ys, length (utf8s ys))"
    using assms(2) by (intro for_each_valid) simp_all
  ultimately have "Ret (xs, length (utf8s xs)) = Ret (ys, length (utf8s ys))" by (simp only: assms(3))
  then show ?thesis by simp
qed

text \<open>
  The comment above \<^verbatim>\<open>ucb_uc_iter_next\<close> says it never reads at or past \<open>stop\<close>; a sequence cut by
  \<open>stop\<close> is read past it (the callers iterate over validated text).
\<close>

lemma ucb_uc_iter_next_overread: "ucb_uc_iter_next [0xE2] 0 1 = Undef"
proof -
  have "(0xE2::byte) AND 0xE0 \<noteq> 0xC0" "(0xE2::byte) AND 0xF0 = 0xE0" "\<not> (0xE2::byte) < 0x80"
    by (code_simp, code_simp, code_simp)
  then show ?thesis by (simp add: ucb_uc_iter_next_def ucb_uc_next_valid_def)
qed

end
