(* ===== verification/Buffer.thy ===== *)
theory Buffer
  imports Prelude
begin

text \<open>
  The byte buffer of \<^verbatim>\<open>src/ucb/buffer.c\<close> with its static and heap implementations, and the
  growth policy \<^verbatim>\<open>ucb_buffer_grow_double\<close> of \<^verbatim>\<open>include/ucb/buffer.h\<close>.  The block a buffer points
  to is the list of its \<open>alloc\<close> bytes; the used bytes are its first \<open>size\<close>.
\<close>

section \<open>State\<close>

text \<open>
  The three function pointers of the implementation are set together, so they are one field.
  \<open>GrowCustom\<close> is a caller's \<^verbatim>\<open>grow_func\<close>, a function of the size, the capacity and the increment.
\<close>

datatype buffer_impl = ImplStatic | ImplHeap

datatype buffer_grow = GrowExact | GrowDouble | GrowCustom "nat \<Rightarrow> nat \<Rightarrow> nat \<Rightarrow> nat"

record ucb_buffer =
  b_data :: "byte list option"
  b_size :: nat
  b_alloc :: nat
  b_grow :: buffer_grow
  b_impl :: buffer_impl

definition zero_buffer :: ucb_buffer where
  "zero_buffer = \<lparr>b_data = None, b_size = 0, b_alloc = 0, b_grow = GrowExact, b_impl = ImplStatic\<rparr>"

abbreviation block :: "ucb_buffer \<Rightarrow> byte list" where
  "block buf \<equiv> (case b_data buf of None \<Rightarrow> [] | Some blk \<Rightarrow> blk)"

section \<open>Creation\<close>

text \<open>The memory handed over by the caller is the list \<open>blk\<close> (null is \<open>None\<close>).\<close>

definition ucb_buffer_init_static :: "byte list option \<Rightarrow> ucb_buffer result" where
  "ucb_buffer_init_static dat =
     (case dat of
        None \<Rightarrow> Abort UCB_ERROR_INVALID_ARG
      | Some blk \<Rightarrow>
          verify (length blk > 0) UCB_ERROR_INVALID_ARG
            (Ret (zero_buffer\<lparr>b_data := Some blk, b_alloc := length blk\<rparr>)))"

definition sizeof_ucb_buffer :: nat where
  "sizeof_ucb_buffer = 64"

definition ucb_buffer_new_static :: "mem_env \<Rightarrow> byte list option \<Rightarrow> ucb_buffer result" where
  "ucb_buffer_new_static me dat =
     rbind (ucb_calloc me 1 sizeof_ucb_buffer) (\<lambda>buf.
     verify buf UCB_ERROR_INVALID_ARG (ucb_buffer_init_static dat))"

definition ucb_buffer_init_heap :: "mem_env \<Rightarrow> nat \<Rightarrow> (bool \<times> ucb_buffer) result" where
  "ucb_buffer_init_heap me initial_capacity =
     verify (initial_capacity > 0) UCB_ERROR_INVALID_ARG (
     rbind (ucb_calloc me initial_capacity 1) (\<lambda>ok.
     if \<not> ok then Ret (False, zero_buffer)
     else Ret (True, zero_buffer\<lparr>b_data := Some (replicate initial_capacity 0),
                 b_alloc := initial_capacity, b_impl := ImplHeap\<rparr>)))"

definition ucb_buffer_new_heap :: "mem_env \<Rightarrow> nat \<Rightarrow> ucb_buffer option result" where
  "ucb_buffer_new_heap me initial_capacity =
     rbind (ucb_calloc me 1 sizeof_ucb_buffer) (\<lambda>buf.
     verify buf UCB_ERROR_INVALID_ARG (
     rbind (ucb_buffer_init_heap me initial_capacity) (\<lambda>(ok, b).
     Ret (if ok then Some b else None))))"

section \<open>Capacity\<close>

definition ucb_buffer_resize_heap :: "mem_env \<Rightarrow> ucb_buffer \<Rightarrow> nat \<Rightarrow> (bool \<times> ucb_buffer) result" where
  "ucb_buffer_resize_heap me buf new_capacity =
     (if new_capacity = 0 then Ret (True, buf\<lparr>b_data := None, b_alloc := 0\<rparr>)
      else rbind (ucb_realloc2 me (b_data buf \<noteq> None) new_capacity False) (\<lambda>r.
        if r \<noteq> Moved then Ret (False, buf)
        else Ret (True, buf\<lparr>b_data := Some (resize_block me (block buf) new_capacity),
                            b_alloc := new_capacity\<rparr>)))"

definition ucb_buffer_can_resize :: "ucb_buffer \<Rightarrow> bool" where
  "ucb_buffer_can_resize buf = (b_impl buf = ImplHeap)"

definition ucb_buffer_can_transfer :: "ucb_buffer \<Rightarrow> bool" where
  "ucb_buffer_can_transfer buf = (b_impl buf = ImplHeap)"

definition ucb_buffer_resize :: "mem_env \<Rightarrow> ucb_buffer \<Rightarrow> nat \<Rightarrow> (bool \<times> ucb_buffer) result" where
  "ucb_buffer_resize me buf new_capacity =
     verify (ucb_buffer_can_resize buf) UCB_ERROR_BUFFER (
     rbind (if b_alloc buf = new_capacity then Ret (True, buf)
            else ucb_buffer_resize_heap me buf new_capacity) (\<lambda>(success, buf).
     Ret (success, if success \<and> b_size buf > b_alloc buf then buf\<lparr>b_size := b_alloc buf\<rparr> else buf)))"

text \<open>
  The loop of \<^verbatim>\<open>ucb_buffer_grow_double\<close>.  \<open>None\<close> is a loop that does not end, which a capacity of
  zero would give (0 * 2 = 0).
\<close>

function grow_double_loop :: "nat \<Rightarrow> nat \<Rightarrow> nat \<Rightarrow> nat option" where
  "grow_double_loop alloc size_needed cap =
     (if size_needed > usub cap alloc
      then (if cap > SIZE_MAX div 2 then Some SIZE_MAX
            else if cap = 0 then None
            else grow_double_loop alloc size_needed (cap * 2))
      else Some cap)"
  by pat_completeness auto
termination
  by (relation "measure (\<lambda>(alloc, size_needed, cap). SIZE_MAX - cap)") (auto simp: SIZE_MAX_def)

declare grow_double_loop.simps [simp del]

definition ucb_buffer_grow_double :: "nat \<Rightarrow> nat \<Rightarrow> nat option" where
  "ucb_buffer_grow_double alloc size_needed =
     (let cap = alloc in
      let cap = (if cap = 0 then 1 else if cap \<le> SIZE_MAX div 2 then cap * 2 else SIZE_MAX) in
      grow_double_loop alloc size_needed cap)"

definition ucb_buffer_grow :: "mem_env \<Rightarrow> ucb_buffer \<Rightarrow> nat \<Rightarrow> (bool \<times> ucb_buffer) result" where
  "ucb_buffer_grow me buf inc_capacity =
     (let grown = (\<lambda>new_capacity.
        ucb_buffer_resize me buf (if new_capacity < b_alloc buf then b_alloc buf else new_capacity)) in
      case b_grow buf of
        GrowDouble \<Rightarrow>
          (case ucb_buffer_grow_double (b_alloc buf) inc_capacity of
             None \<Rightarrow> Undef | Some new_capacity \<Rightarrow> grown new_capacity)
      | GrowCustom f \<Rightarrow> grown (usize (f (b_size buf) (b_alloc buf) inc_capacity))
      | GrowExact \<Rightarrow>
          verify (inc_capacity \<le> usub SIZE_MAX (b_alloc buf)) UCB_ERROR_INVALID_ARG
            (ucb_buffer_resize me buf (b_alloc buf + inc_capacity)))"

definition ucb_buffer_ensure :: "mem_env \<Rightarrow> ucb_buffer \<Rightarrow> nat \<Rightarrow> (bool \<times> ucb_buffer) result" where
  "ucb_buffer_ensure me buf sz =
     (let spare = usub (b_alloc buf) (b_size buf) in
      if sz \<le> spare then Ret (True, buf)
      else ucb_buffer_grow me buf (sz - spare))"

definition ucb_buffer_can_ensure :: "ucb_buffer \<Rightarrow> nat \<Rightarrow> bool" where
  "ucb_buffer_can_ensure buf sz =
     (let spare = usub (b_alloc buf) (b_size buf) in
      if sz \<le> spare then True
      else if \<not> ucb_buffer_can_resize buf then False
      else sz \<le> usub SIZE_MAX (b_size buf))"

section \<open>Contents\<close>

definition ucb_buffer_read :: "ucb_buffer \<Rightarrow> nat \<Rightarrow> nat \<Rightarrow> byte list result" where
  "ucb_buffer_read buf sz offset =
     verify (offset \<le> b_size buf \<and> sz \<le> b_size buf - offset) UCB_ERROR_OUT_OF_BOUNDS
       (if sz > 0 then mem_read (drop offset (block buf)) sz else Ret [])"

definition ucb_buffer_put :: "ucb_buffer \<Rightarrow> byte list \<Rightarrow> ucb_buffer result" where
  "ucb_buffer_put buf bs =
     rbind (mem_put (b_size buf) bs (block buf)) (\<lambda>blk.
     Ret (buf\<lparr>b_data := Some blk, b_size := b_size buf + length bs\<rparr>))"

definition ucb_buffer_push :: "mem_env \<Rightarrow> ucb_buffer \<Rightarrow> byte list \<Rightarrow> (bool \<times> ucb_buffer) result" where
  "ucb_buffer_push me buf dat =
     (if length dat > 0 then
        let spare = usub (b_alloc buf) (b_size buf) in
        rbind (if length dat > spare then ucb_buffer_grow me buf (length dat - spare)
               else Ret (True, buf)) (\<lambda>(ok, buf).
        if \<not> ok then Ret (False, buf)
        else rbind (ucb_buffer_put buf dat) (\<lambda>buf. Ret (True, buf)))
      else Ret (True, buf))"

text \<open>
  \<open>text\<close> is what \<^verbatim>\<open>vsnprintf\<close> formats (\<open>None\<close> when it reports an error); the terminating null is
  pushed with it.  The result is the returned int.
\<close>

definition ucb_buffer_push_formatv ::
    "mem_env \<Rightarrow> ucb_buffer \<Rightarrow> byte list option \<Rightarrow> (int \<times> ucb_buffer) result" where
  "ucb_buffer_push_formatv me buf txt =
     (case txt of
        None \<Rightarrow> Abort UCB_ERROR_ERRNO
      | Some cs \<Rightarrow>
          if length cs = 0 then
            rbind (ucb_buffer_ensure me buf 1) (\<lambda>(ok, buf).
            if \<not> ok then Ret (- 1, buf)
            else rbind (ucb_buffer_put buf [0]) (\<lambda>buf. Ret (0, buf)))
          else
            rbind (ucb_buffer_ensure me buf (length cs + 1)) (\<lambda>(ok, buf).
            if \<not> ok then Ret (- 1, buf)
            else rbind (ucb_buffer_put buf (cs @ [0])) (\<lambda>buf. Ret (int (length cs), buf))))"

definition ucb_buffer_push_null :: "mem_env \<Rightarrow> ucb_buffer \<Rightarrow> (int \<times> ucb_buffer) result" where
  "ucb_buffer_push_null me buf =
     rbind (ucb_buffer_ensure me buf 1) (\<lambda>(ok, buf).
     if \<not> ok then Ret (- 1, buf)
     else rbind (ucb_buffer_put buf [0]) (\<lambda>buf. Ret (0, buf)))"

definition ucb_buffer_pop :: "ucb_buffer \<Rightarrow> nat \<Rightarrow> (byte list \<times> ucb_buffer) result" where
  "ucb_buffer_pop buf sz =
     verify (sz \<le> b_size buf) UCB_ERROR_OUT_OF_BOUNDS
       (if sz > 0 then
          rbind (mem_read (drop (b_size buf - sz) (block buf)) sz) (\<lambda>out_data.
          Ret (out_data, buf\<lparr>b_size := b_size buf - sz\<rparr>))
        else Ret ([], buf))"

definition ucb_buffer_clear :: "ucb_buffer \<Rightarrow> ucb_buffer" where
  "ucb_buffer_clear buf = buf\<lparr>b_size := 0\<rparr>"

definition ucb_buffer_zero :: "ucb_buffer \<Rightarrow> ucb_buffer result" where
  "ucb_buffer_zero buf =
     (if b_data buf \<noteq> None \<and> b_size buf > 0 then
        rbind (mem_put 0 (replicate (b_size buf) 0) (block buf)) (\<lambda>blk. Ret (buf\<lparr>b_data := Some blk\<rparr>))
      else Ret buf)"

definition ucb_buffer_truncate :: "ucb_buffer \<Rightarrow> nat \<Rightarrow> ucb_buffer result" where
  "ucb_buffer_truncate buf new_size =
     verify (new_size \<le> b_size buf) UCB_ERROR_OUT_OF_BOUNDS (Ret (buf\<lparr>b_size := new_size\<rparr>))"

definition ucb_buffer_fit :: "mem_env \<Rightarrow> ucb_buffer \<Rightarrow> (bool \<times> ucb_buffer) result" where
  "ucb_buffer_fit me buf =
     (if b_size buf = b_alloc buf then Ret (True, buf)
      else ucb_buffer_resize me buf (b_size buf))"

text \<open>The block, its used size and its capacity move to the caller; the buffer is zeroed.\<close>

definition ucb_buffer_transfer :: "ucb_buffer \<Rightarrow> ((byte list option \<times> nat \<times> nat) \<times> ucb_buffer) result" where
  "ucb_buffer_transfer buf =
     verify (ucb_buffer_can_transfer buf) UCB_ERROR_BUFFER
       (Ret ((b_data buf, b_size buf, b_alloc buf), zero_buffer))"

definition ucb_buffer_release :: "ucb_buffer \<Rightarrow> ucb_buffer" where
  "ucb_buffer_release buf = (if b_impl buf = ImplHeap then buf\<lparr>b_data := None\<rparr> else buf)"

section \<open>Invariant\<close>

definition buffer_ok :: "ucb_buffer \<Rightarrow> bool" where
  "buffer_ok buf \<longleftrightarrow> length (block buf) = b_alloc buf \<and> b_size buf \<le> b_alloc buf \<and> b_alloc buf \<le> PTRDIFF_MAX"

definition buffer_bytes :: "ucb_buffer \<Rightarrow> byte list" where
  "buffer_bytes buf = take (b_size buf) (block buf)"

text \<open>What \<^verbatim>\<open>ucb_buffer_push\<close> relies on: a caller's growth policy makes room for the increment.\<close>

definition grow_sound :: "buffer_grow \<Rightarrow> bool" where
  "grow_sound g \<longleftrightarrow>
     (case g of GrowCustom f \<Rightarrow> (\<forall>s a n. a + n \<le> SIZE_MAX \<longrightarrow> a + n \<le> usize (f s a n)) | _ \<Rightarrow> True)"

lemma grow_sound_simps [simp]: "grow_sound GrowExact" "grow_sound GrowDouble"
  by (simp_all add: grow_sound_def)

lemma buffer_okD:
  assumes "buffer_ok buf"
  shows "length (block buf) = b_alloc buf" "b_size buf \<le> b_alloc buf" "b_alloc buf \<le> PTRDIFF_MAX"
    "b_alloc buf \<le> SIZE_MAX" "usub (b_alloc buf) (b_size buf) = b_alloc buf - b_size buf"
    "length (buffer_bytes buf) = b_size buf"
  using assms PTRDIFF_MAX_less(1) by (simp_all add: buffer_ok_def buffer_bytes_def)

lemma zero_buffer_ok [simp]: "buffer_ok zero_buffer" "buffer_bytes zero_buffer = []"
  by (simp_all add: buffer_ok_def buffer_bytes_def zero_buffer_def)

text \<open>The doubling policy.\<close>

lemma grow_double_loop_spec:
  assumes "alloc \<le> cap" "0 < cap" "cap \<le> SIZE_MAX" "cap \<le> max 1 (2 * (alloc + n))"
  shows "\<exists>c. grow_double_loop alloc n cap = Some c \<and> alloc \<le> c \<and> min (alloc + n) SIZE_MAX \<le> c
    \<and> c \<le> SIZE_MAX \<and> c \<le> max 1 (2 * (alloc + n))"
  using assms
proof (induction alloc n cap rule: grow_double_loop.induct)
  case (1 alloc n cap)
  have u: "usub cap alloc = cap - alloc" using "1.prems" by simp
  consider "\<not> n > cap - alloc" | "n > cap - alloc" "cap > SIZE_MAX div 2"
    | "n > cap - alloc" "\<not> cap > SIZE_MAX div 2" by blast
  then show ?case
  proof cases
    case 1
    then have "grow_double_loop alloc n cap = Some cap" by (simp add: grow_double_loop.simps u)
    then show ?thesis using 1 "1.prems" by simp
  next
    case 2
    then have "grow_double_loop alloc n cap = Some SIZE_MAX" by (simp add: grow_double_loop.simps u)
    moreover have "SIZE_MAX \<le> 2 * (alloc + n)" using half_less [OF 2(2)] less_diff_conv2 [OF "1.prems"(1), of n] 2(1) "1.prems"(1) by simp
    ultimately show ?thesis using "1.prems" by simp
  next
    case 3
    then have "grow_double_loop alloc n cap = grow_double_loop alloc n (cap * 2)"
      using "1.prems"(2) by (simp add: grow_double_loop.simps [of alloc n cap] u)
    moreover have "cap * 2 \<le> SIZE_MAX" "cap * 2 \<le> max 1 (2 * (alloc + n))"
      using half_ge [OF 3(2)] less_diff_conv2 [OF "1.prems"(1), of n] 3(1) by auto
    ultimately show ?thesis using "1.IH" 3 "1.prems" u by simp
  qed
qed

lemma ucb_buffer_grow_double_spec:
  assumes "alloc \<le> SIZE_MAX"
  shows "\<exists>c. ucb_buffer_grow_double alloc n = Some c \<and> alloc \<le> c \<and> min (alloc + n) SIZE_MAX \<le> c
    \<and> c \<le> SIZE_MAX \<and> c \<le> max 1 (2 * (alloc + n))"
proof -
  define cap where "cap = (if alloc = 0 then 1 else if alloc \<le> SIZE_MAX div 2 then alloc * 2 else SIZE_MAX)"
  have p: "(1::nat) \<le> SIZE_MAX" by (simp add: SIZE_MAX_def)
  have "SIZE_MAX \<le> 2 * (alloc + n)" if "\<not> alloc \<le> SIZE_MAX div 2"
    using half_less [of SIZE_MAX alloc] that by simp
  then have "alloc \<le> cap" "0 < cap" "cap \<le> SIZE_MAX" "cap \<le> max 1 (2 * (alloc + n))"
    using assms p unfolding cap_def by (auto split: if_splits)
  from grow_double_loop_spec [OF this] show ?thesis
    unfolding ucb_buffer_grow_double_def Let_def cap_def by simp
qed

text \<open>Every operation that changes the block goes through \<^verbatim>\<open>ucb_buffer_resize\<close>.\<close>

lemma ucb_buffer_resize_spec:
  assumes ok: "buffer_ok buf" and r: "ucb_buffer_resize me buf n = Ret (success, buf')"
  shows "buffer_ok buf' \<and> b_impl buf' = b_impl buf \<and> b_grow buf' = b_grow buf
    \<and> (if success then b_alloc buf' = n \<and> buffer_bytes buf' = take n (buffer_bytes buf) else buf' = buf)"
proof -
  note o = buffer_okD [OF ok]
  have "take (min (b_size buf) n) (resize_block me (block buf) n) = take n (buffer_bytes buf)"
    using o(1,2) by (simp add: buffer_bytes_def take_resize_block min.commute)
  then show ?thesis
    using r ok o(1-3) unfolding buffer_ok_def buffer_bytes_def
    by (auto simp: ucb_buffer_resize_def ucb_buffer_resize_heap_def ucb_realloc2_Ret_iff granted_def
        take_resize_block resize_block_shrink min_def split: if_splits)
qed

lemma ucb_buffer_resize_not_Undef [simp]: "ucb_buffer_resize me buf n \<noteq> Undef"
  by (simp add: ucb_buffer_resize_def ucb_buffer_resize_heap_def verify_def rbind_Undef_iff split_def)

text \<open>Growing keeps the contents and, under a sound policy, makes the room asked for.\<close>

lemma ucb_buffer_grow_spec:
  assumes ok: "buffer_ok buf" and g: "grow_sound (b_grow buf)" and n: "n \<le> PTRDIFF_MAX"
    and r: "ucb_buffer_grow me buf n = Ret (success, buf')"
  shows "buffer_ok buf' \<and> b_impl buf' = b_impl buf \<and> b_grow buf' = b_grow buf
    \<and> buffer_bytes buf' = buffer_bytes buf \<and> b_size buf' = b_size buf
    \<and> (if success then b_alloc buf + n \<le> b_alloc buf' else buf' = buf)"
proof -
  note o = buffer_okD [OF ok]
  have sm: "b_alloc buf + n \<le> SIZE_MAX" using o(3) n by (rule PTRDIFF_MAX_less)
  obtain c where c: "ucb_buffer_resize me buf c = Ret (success, buf')" and cb: "b_alloc buf + n \<le> c"
  proof (cases "b_grow buf")
    case GrowExact
    then show ?thesis using r that [of "b_alloc buf + n"] by (simp add: ucb_buffer_grow_def)
  next
    case GrowDouble
    obtain c where "ucb_buffer_grow_double (b_alloc buf) n = Some c" "b_alloc buf \<le> c" "b_alloc buf + n \<le> c"
      using ucb_buffer_grow_double_spec [OF o(4), of n] sm by auto
    then show ?thesis using r that GrowDouble by (simp add: ucb_buffer_grow_def)
  next
    case (GrowCustom f)
    then have "b_alloc buf + n \<le> usize (f (b_size buf) (b_alloc buf) n)"
      using g sm by (simp add: grow_sound_def)
    then show ?thesis using r that GrowCustom by (auto simp: ucb_buffer_grow_def)
  qed
  have t: "take c (buffer_bytes buf) = buffer_bytes buf" using o(2,6) cb by simp
  note s = ucb_buffer_resize_spec [OF ok c, unfolded t]
  then have "buffer_bytes buf' = buffer_bytes buf" by (cases success) auto
  then have "b_size buf' = b_size buf" using buffer_okD(6) [of buf'] s o(6) by metis
  then show ?thesis using s cb \<open>buffer_bytes buf' = _\<close> by (cases success) auto
qed

lemma ucb_buffer_grow_not_Undef:
  assumes "buffer_ok buf" shows "ucb_buffer_grow me buf n \<noteq> Undef"
  using ucb_buffer_grow_double_spec [OF buffer_okD(4) [OF assms], of n]
  by (auto simp: ucb_buffer_grow_def verify_def split: buffer_grow.split)

lemma ucb_buffer_put_spec:
  assumes "buffer_ok buf" "b_size buf + length bs \<le> b_alloc buf"
  obtains buf' where "ucb_buffer_put buf bs = Ret buf'" "buffer_ok buf'" "b_impl buf' = b_impl buf"
    "b_grow buf' = b_grow buf" "buffer_bytes buf' = buffer_bytes buf @ bs" "b_alloc buf' = b_alloc buf"
proof -
  note o = buffer_okD [OF assms(1)]
  let ?b = "buf\<lparr>b_data := Some (mem_write (b_size buf) bs (block buf)), b_size := b_size buf + length bs\<rparr>"
  have "ucb_buffer_put buf bs = Ret ?b" using o(1) assms(2) by (simp add: ucb_buffer_put_def)
  moreover have "buffer_ok ?b" "buffer_bytes ?b = buffer_bytes buf @ bs"
    using o(1-3) assms(2) by (simp_all add: buffer_ok_def buffer_bytes_def length_mem_write take_mem_write)
  ultimately show ?thesis using that by simp
qed

lemma ucb_buffer_ensure_spec:
  assumes ok: "buffer_ok buf" and g: "grow_sound (b_grow buf)" and n: "n \<le> PTRDIFF_MAX"
    and r: "ucb_buffer_ensure me buf n = Ret (success, buf')"
  shows "buffer_ok buf' \<and> b_impl buf' = b_impl buf \<and> b_grow buf' = b_grow buf
    \<and> buffer_bytes buf' = buffer_bytes buf \<and> b_size buf' = b_size buf
    \<and> (if success then b_size buf + n \<le> b_alloc buf' else buf' = buf)"
proof (cases "n \<le> b_alloc buf - b_size buf")
  case True
  then show ?thesis using r ok buffer_okD [OF ok] by (auto simp: ucb_buffer_ensure_def)
next
  case False
  note o = buffer_okD [OF ok]
  let ?k = "n - (b_alloc buf - b_size buf)"
  have "ucb_buffer_grow me buf ?k = Ret (success, buf')"
    using r False o by (simp add: ucb_buffer_ensure_def)
  moreover have "?k \<le> PTRDIFF_MAX" using n by simp
  moreover have "b_size buf + n = b_alloc buf + ?k" using False o(2) by simp
  ultimately show ?thesis using ucb_buffer_grow_spec [OF ok g, of ?k me success buf'] by metis
qed

lemma ucb_buffer_push_eq_ensure:
  "dat \<noteq> [] \<Longrightarrow> ucb_buffer_push me buf dat =
     rbind (ucb_buffer_ensure me buf (length dat)) (\<lambda>(ok, buf).
       if \<not> ok then Ret (False, buf) else rbind (ucb_buffer_put buf dat) (\<lambda>buf. Ret (True, buf)))"
  by (simp add: ucb_buffer_push_def ucb_buffer_ensure_def Let_def not_le)

lemma ucb_buffer_ensure_not_Undef:
  "buffer_ok buf \<Longrightarrow> ucb_buffer_ensure me buf n \<noteq> Undef"
  by (simp add: ucb_buffer_ensure_def Let_def ucb_buffer_grow_not_Undef)

lemma ucb_buffer_push_spec:
  assumes ok: "buffer_ok buf" and g: "grow_sound (b_grow buf)" and n: "length dat \<le> PTRDIFF_MAX"
  shows "ucb_buffer_push me buf dat \<noteq> Undef"
    and "ucb_buffer_push me buf dat = Ret (success, buf') \<Longrightarrow>
      buffer_ok buf' \<and> b_impl buf' = b_impl buf \<and> b_grow buf' = b_grow buf
      \<and> (if success then buffer_bytes buf' = buffer_bytes buf @ dat else buf' = buf)"
proof -
  have put: "\<exists>b2. ucb_buffer_put b dat = Ret b2 \<and> buffer_ok b2 \<and> b_impl b2 = b_impl buf
      \<and> b_grow b2 = b_grow buf \<and> buffer_bytes b2 = buffer_bytes buf @ dat"
    if e: "ucb_buffer_ensure me buf (length dat) = Ret (True, b)" for b
  proof -
    from ucb_buffer_ensure_spec [OF ok g n e]
    have b: "buffer_ok b" "b_size b + length dat \<le> b_alloc b" "b_impl b = b_impl buf"
      "b_grow b = b_grow buf" "buffer_bytes b = buffer_bytes buf" by simp_all
    from ucb_buffer_put_spec [OF b(1,2)] b(3-5) show ?thesis by metis
  qed
  have fail: "b = buf" if "ucb_buffer_ensure me buf (length dat) = Ret (False, b)" for b
    using ucb_buffer_ensure_spec [OF ok g n that] by simp
  show "ucb_buffer_push me buf dat \<noteq> Undef"
  proof (cases "dat = []")
    case False
    then show ?thesis
    proof (cases "ucb_buffer_ensure me buf (length dat)")
      case (Ret p)
      then show ?thesis using False put by (cases p) (auto simp: ucb_buffer_push_eq_ensure)
    qed (use False ucb_buffer_ensure_not_Undef [OF ok] in \<open>auto simp: ucb_buffer_push_eq_ensure\<close>)
  qed (simp add: ucb_buffer_push_def)
  show "buffer_ok buf' \<and> b_impl buf' = b_impl buf \<and> b_grow buf' = b_grow buf
      \<and> (if success then buffer_bytes buf' = buffer_bytes buf @ dat else buf' = buf)"
    if p: "ucb_buffer_push me buf dat = Ret (success, buf')"
  proof (cases "dat = []")
    case True
    then show ?thesis using ok p by (auto simp: ucb_buffer_push_def)
  next
    case False
    with p obtain e b where e: "ucb_buffer_ensure me buf (length dat) = Ret (e, b)"
      and r: "(if \<not> e then Ret (False, b) else rbind (ucb_buffer_put b dat) (\<lambda>buf. Ret (True, buf)))
        = Ret (success, buf')"
      by (auto simp: ucb_buffer_push_eq_ensure)
    then show ?thesis using put [of b] fail [of b] ok by (cases e) auto
  qed
qed

text \<open>The null and the formatted push are pushes.\<close>

lemma push_null_eq:
  "ucb_buffer_push_null me buf =
     rbind (ucb_buffer_push me buf [0]) (\<lambda>(ok, b). Ret (if ok then 0 else - 1, b))"
  by (cases "ucb_buffer_ensure me buf 1")
    (auto simp: ucb_buffer_push_null_def ucb_buffer_push_eq_ensure rbind_assoc)

lemma push_formatv_eq:
  "ucb_buffer_push_formatv me buf (Some cs) =
     rbind (ucb_buffer_push me buf (cs @ [0])) (\<lambda>(ok, b). Ret (if ok then int (length cs) else - 1, b))"
  by (cases "ucb_buffer_ensure me buf (length cs + 1)")
    (auto simp: ucb_buffer_push_formatv_def ucb_buffer_push_eq_ensure rbind_assoc)

lemma ucb_buffer_pop_spec:
  assumes "buffer_ok buf" "n \<le> b_size buf"
  shows "ucb_buffer_pop buf n =
     Ret (drop (b_size buf - n) (buffer_bytes buf), buf\<lparr>b_size := b_size buf - n\<rparr>)"
  using buffer_okD(1,2) [OF assms(1)] assms(2)
  by (auto simp: ucb_buffer_pop_def mem_read_def buffer_bytes_def drop_take)

lemma ucb_buffer_read_spec:
  assumes "buffer_ok buf" "off \<le> b_size buf" "n \<le> b_size buf - off"
  shows "ucb_buffer_read buf n off = Ret (take n (drop off (buffer_bytes buf)))"
  using buffer_okD(1,2) [OF assms(1)] assms(2,3)
  by (auto simp: ucb_buffer_read_def mem_read_def buffer_bytes_def drop_take min_def)

lemma buffer_size_le_ok: "buffer_ok buf \<Longrightarrow> n \<le> b_size buf \<Longrightarrow> buffer_ok (buf\<lparr>b_size := n\<rparr>)"
  by (simp add: buffer_ok_def)

lemma ucb_buffer_zero_spec:
  assumes "buffer_ok buf"
  shows "\<exists>buf'. ucb_buffer_zero buf = Ret buf' \<and> buffer_ok buf' \<and> b_impl buf' = b_impl buf
     \<and> b_grow buf' = b_grow buf \<and> buffer_bytes buf' = replicate (b_size buf) 0"
proof (cases "b_size buf > 0")
  case True
  note o = buffer_okD [OF assms]
  then obtain blk where "b_data buf = Some blk" using True by (cases "b_data buf") auto
  then show ?thesis using True o(1-3)
    by (simp add: ucb_buffer_zero_def buffer_ok_def buffer_bytes_def length_mem_write mem_write_def)
qed (use assms in \<open>simp add: ucb_buffer_zero_def buffer_bytes_def\<close>)

section \<open>Sequences of operations\<close>

datatype buffer_op =
    OpPush "byte list" | OpPushFormat "byte list option" | OpPushNull | OpPop nat | OpRead nat nat
  | OpClear | OpZero | OpTruncate nat | OpFit | OpResize nat | OpEnsure nat | OpTransfer

fun buffer_exec :: "mem_env \<Rightarrow> buffer_op \<Rightarrow> ucb_buffer \<Rightarrow> ucb_buffer result" where
  "buffer_exec me (OpPush dat) b = rbind (ucb_buffer_push me b dat) (\<lambda>(_, b). Ret b)"
| "buffer_exec me (OpPushFormat txt) b = rbind (ucb_buffer_push_formatv me b txt) (\<lambda>(_, b). Ret b)"
| "buffer_exec me OpPushNull b = rbind (ucb_buffer_push_null me b) (\<lambda>(_, b). Ret b)"
| "buffer_exec me (OpPop n) b = rbind (ucb_buffer_pop b n) (\<lambda>(_, b). Ret b)"
| "buffer_exec me (OpRead n off) b = rbind (ucb_buffer_read b n off) (\<lambda>_. Ret b)"
| "buffer_exec me OpClear b = Ret (ucb_buffer_clear b)"
| "buffer_exec me OpZero b = ucb_buffer_zero b"
| "buffer_exec me (OpTruncate n) b = ucb_buffer_truncate b n"
| "buffer_exec me OpFit b = rbind (ucb_buffer_fit me b) (\<lambda>(_, b). Ret b)"
| "buffer_exec me (OpResize n) b = rbind (ucb_buffer_resize me b n) (\<lambda>(_, b). Ret b)"
| "buffer_exec me (OpEnsure n) b = rbind (ucb_buffer_ensure me b n) (\<lambda>(_, b). Ret b)"
| "buffer_exec me OpTransfer b = rbind (ucb_buffer_transfer b) (\<lambda>(_, b). Ret b)"

text \<open>No object, hence no argument of an operation, is larger than \<open>PTRDIFF_MAX\<close>.\<close>

fun buffer_op_ok :: "buffer_op \<Rightarrow> bool" where
  "buffer_op_ok (OpPush dat) = (length dat \<le> PTRDIFF_MAX)"
| "buffer_op_ok (OpPushFormat txt) = (case txt of None \<Rightarrow> True | Some cs \<Rightarrow> length cs < PTRDIFF_MAX)"
| "buffer_op_ok (OpEnsure n) = (n \<le> PTRDIFF_MAX)"
| "buffer_op_ok _ = True"

primrec buffer_run :: "mem_env \<Rightarrow> buffer_op list \<Rightarrow> ucb_buffer \<Rightarrow> ucb_buffer result" where
  "buffer_run me [] b = Ret b"
| "buffer_run me (op # ops) b = rbind (buffer_exec me op b) (buffer_run me ops)"

definition buffer_safe :: "ucb_buffer \<Rightarrow> bool" where
  "buffer_safe b \<longleftrightarrow> buffer_ok b \<and> grow_sound (b_grow b)"

definition ends_safe :: "ucb_buffer result \<Rightarrow> bool" where
  "ends_safe r \<longleftrightarrow> always r buffer_safe"

lemma ends_safe_rbind:
  "ends_safe m \<Longrightarrow> (\<And>b. m = Ret b \<Longrightarrow> buffer_safe b \<Longrightarrow> ends_safe (k b)) \<Longrightarrow> ends_safe (rbind m k)"
  by (cases m) (auto simp: ends_safe_def)

lemma ends_safe_pair:
  assumes "m \<noteq> Undef" "\<And>x b. m = Ret (x, b) \<Longrightarrow> buffer_safe b"
  shows "ends_safe (rbind m (\<lambda>(_, b). Ret b))"
  using assms by (cases m) (auto simp: ends_safe_def)

lemma ends_safe_pair2:
  assumes "m \<noteq> Undef" "\<And>x b. m = Ret (x, b) \<Longrightarrow> buffer_safe b"
  shows "ends_safe (rbind (rbind m (\<lambda>(ok, b). Ret (f ok, b))) (\<lambda>(_, b). Ret b))"
  using assms by (cases m) (auto simp: ends_safe_def)

lemma buffer_safe_resize: "buffer_safe b \<Longrightarrow> ucb_buffer_resize me b n = Ret (s, b') \<Longrightarrow> buffer_safe b'"
  using ucb_buffer_resize_spec [of b me n s b'] by (simp add: buffer_safe_def)

lemma buffer_safe_push:
  assumes "buffer_safe b" "length dat \<le> PTRDIFF_MAX"
  shows "ucb_buffer_push me b dat \<noteq> Undef" "ucb_buffer_push me b dat = Ret (s, b') \<Longrightarrow> buffer_safe b'"
proof -
  have p: "buffer_ok b" "grow_sound (b_grow b)" using assms(1) by (simp_all add: buffer_safe_def)
  show "ucb_buffer_push me b dat \<noteq> Undef" by (rule ucb_buffer_push_spec(1) [OF p assms(2)])
  show "buffer_safe b'" if "ucb_buffer_push me b dat = Ret (s, b')"
    using ucb_buffer_push_spec(2) [OF p assms(2) that] p(2) unfolding buffer_safe_def by metis
qed

lemma buffer_exec_safe:
  assumes s: "buffer_safe b" and op: "buffer_op_ok op"
  shows "ends_safe (buffer_exec me op b)"
proof -
  have ok: "buffer_ok b" and g: "grow_sound (b_grow b)" using s by (simp_all add: buffer_safe_def)
  show ?thesis
  proof (cases op)
    case (OpPush dat)
    then show ?thesis using buffer_safe_push [OF s] op by (auto intro!: ends_safe_pair)
  next
    case (OpPushFormat t)
    show ?thesis
    proof (cases t)
      case (Some cs)
      then have "length (cs @ [0]) \<le> PTRDIFF_MAX" using op OpPushFormat by simp
      from buffer_safe_push [OF s this] OpPushFormat Some show ?thesis
        by (auto simp: push_formatv_eq intro!: ends_safe_pair2)
    qed (simp add: OpPushFormat ucb_buffer_push_formatv_def ends_safe_def)
  next
    case OpPushNull
    have "length [0::byte] \<le> PTRDIFF_MAX" by (simp add: PTRDIFF_MAX_def)
    from buffer_safe_push [OF s this] OpPushNull show ?thesis
      by (auto simp: push_null_eq intro!: ends_safe_pair2)
  next
    case (OpPop n)
    show ?thesis
    proof (cases "n \<le> b_size b")
      case True
      then show ?thesis using OpPop ucb_buffer_pop_spec [OF ok True] g buffer_size_le_ok [OF ok]
        by (simp add: ends_safe_def buffer_safe_def)
    qed (simp add: OpPop ends_safe_def ucb_buffer_pop_def)
  next
    case (OpRead n off)
    show ?thesis
    proof (cases "off \<le> b_size b \<and> n \<le> b_size b - off")
      case True
      then show ?thesis using OpRead ucb_buffer_read_spec [OF ok, of off n] s by (simp add: ends_safe_def)
    qed (auto simp: OpRead ends_safe_def ucb_buffer_read_def verify_def)
  next
    case OpZero
    then show ?thesis using ucb_buffer_zero_spec [OF ok] g by (auto simp: ends_safe_def buffer_safe_def)
  next
    case OpFit
    have "ends_safe (Ret b)" using s by (simp add: ends_safe_def)
    then show ?thesis using OpFit s buffer_safe_resize [OF s]
      by (cases "b_size b = b_alloc b") (auto simp: ucb_buffer_fit_def intro!: ends_safe_pair)
  next
    case (OpResize n)
    then show ?thesis using buffer_safe_resize [OF s] by (auto intro!: ends_safe_pair)
  next
    case (OpEnsure n)
    then have "n \<le> PTRDIFF_MAX" using op by simp
    then show ?thesis using ucb_buffer_ensure_spec [OF ok g] ucb_buffer_ensure_not_Undef [OF ok] g OpEnsure
      by (auto simp: buffer_safe_def intro!: ends_safe_pair)
  next
    case OpTransfer
    moreover have "buffer_safe zero_buffer" by (simp add: buffer_safe_def) (simp add: zero_buffer_def)
    ultimately show ?thesis by (simp add: ucb_buffer_transfer_def verify_def ends_safe_def)
  qed (use ok g in \<open>auto simp: ends_safe_def buffer_safe_def ucb_buffer_clear_def
      ucb_buffer_truncate_def verify_def buffer_size_le_ok\<close>)
qed

lemma buffer_run_safe:
  "buffer_safe b \<Longrightarrow> list_all buffer_op_ok ops \<Longrightarrow> ends_safe (buffer_run me ops b)"
proof (induction ops arbitrary: b)
  case Nil
  then show ?case by (simp add: ends_safe_def)
next
  case (Cons op ops)
  then show ?case using buffer_exec_safe [of b op me] by (auto intro: ends_safe_rbind)
qed

section \<open>Properties\<close>

text \<open>
  C4: No sequence of buffer operations reads or writes outside the block or freed memory:
  from a well-formed buffer every run of operations, whatever the allocator grants, ends in a
  well-formed buffer (used size at most the capacity, capacity the length of the block) or in a
  reported abort.
\<close>

theorem buffer_run_no_undefined_behaviour:
  assumes "buffer_ok b" "grow_sound (b_grow b)" "list_all buffer_op_ok ops"
  shows "always (buffer_run me ops b) buffer_ok"
  using buffer_run_safe [of b ops me] assms
  by (auto simp: ends_safe_def buffer_safe_def intro: always_mono)

definition demo_buffer :: ucb_buffer where
  "demo_buffer = zero_buffer\<lparr>b_data := Some [1, 2, 3, 0], b_size := 3, b_alloc := 4,
     b_grow := GrowDouble, b_impl := ImplHeap\<rparr>"

lemma demo_buffer_ok: "buffer_ok demo_buffer" "grow_sound (b_grow demo_buffer)"
  "buffer_bytes demo_buffer = [1, 2, 3]"
  by (simp_all add: demo_buffer_def buffer_ok_def zero_buffer_def buffer_bytes_def PTRDIFF_MAX_def)

theorem buffer_run_no_undefined_behaviour_witness:
  "always (buffer_run me_ok [OpPush [4, 5], OpPop 1, OpFit, OpPushNull] demo_buffer) buffer_ok"
  by (rule buffer_run_no_undefined_behaviour) (simp_all add: demo_buffer_ok PTRDIFF_MAX_def)

text \<open>
  \<^verbatim>\<open>ucb_buffer_push\<close> appends exactly the given bytes and keeps the bytes already used,
  growing the block as its policy asks; when it returns false the buffer is unchanged.
\<close>

theorem ucb_buffer_push_appends:
  assumes "buffer_ok buf" "grow_sound (b_grow buf)" "length dat \<le> PTRDIFF_MAX"
    and "ucb_buffer_push me buf dat = Ret (success, buf')"
  shows "if success then buffer_bytes buf' = buffer_bytes buf @ dat \<and> buffer_ok buf' else buf' = buf"
  using ucb_buffer_push_spec(2) [OF assms] by simp

theorem ucb_buffer_push_appends_witness:
  "\<exists>buf'. ucb_buffer_push me_ok demo_buffer [4, 5, 6] = Ret (True, buf')
     \<and> buffer_bytes buf' = [1, 2, 3, 4, 5, 6]"
proof -
  have "\<exists>buf'. ucb_buffer_push me_ok demo_buffer [4, 5, 6] = Ret (True, buf')"
    by (simp add: ucb_buffer_push_def ucb_buffer_put_def ucb_buffer_grow_def ucb_buffer_grow_double_def
        grow_double_loop.simps demo_buffer_def zero_buffer_def ucb_buffer_resize_def
        ucb_buffer_can_resize_def ucb_buffer_resize_heap_def ucb_realloc2_def PTRDIFF_MAX_def
        SIZE_MAX_def)
  then obtain buf' where "ucb_buffer_push me_ok demo_buffer [4, 5, 6] = Ret (True, buf')" by blast
  from ucb_buffer_push_appends [OF demo_buffer_ok(1,2) _ this] this show ?thesis
    by (auto simp: demo_buffer_ok PTRDIFF_MAX_def)
qed

text \<open>
  Popping as many bytes as were pushed returns those bytes and restores the used contents.
\<close>

theorem ucb_buffer_pop_push:
  assumes "buffer_ok buf" "grow_sound (b_grow buf)" "length dat \<le> PTRDIFF_MAX"
    and "ucb_buffer_push me buf dat = Ret (True, buf')"
  shows "\<exists>buf''. ucb_buffer_pop buf' (length dat) = Ret (dat, buf'') \<and> buffer_ok buf''
     \<and> buffer_bytes buf'' = buffer_bytes buf"
proof -
  from ucb_buffer_push_spec(2) [OF assms]
  have b: "buffer_ok buf'" "buffer_bytes buf' = buffer_bytes buf @ dat" by simp_all
  have s: "b_size buf' = length (buffer_bytes buf) + length dat"
    using buffer_okD(6) [OF b(1)] b(2) by simp
  then have p: "ucb_buffer_pop buf' (length dat) =
      Ret (dat, buf'\<lparr>b_size := length (buffer_bytes buf)\<rparr>)"
    using ucb_buffer_pop_spec [OF b(1), of "length dat"] b(2) by simp
  define n where "n = length (buffer_bytes buf)"
  have "take n (buffer_bytes buf') = take n (block buf')"
    using s unfolding n_def [symmetric] by (simp add: buffer_bytes_def [of buf'] min_def)
  moreover have "take n (buffer_bytes buf') = buffer_bytes buf" by (simp add: b(2) n_def)
  moreover have "buffer_bytes (buf'\<lparr>b_size := n\<rparr>) = take n (block buf')" by (simp add: buffer_bytes_def)
  ultimately have "buffer_bytes (buf'\<lparr>b_size := length (buffer_bytes buf)\<rparr>) = buffer_bytes buf"
    unfolding n_def by argo
  then show ?thesis using p buffer_size_le_ok [OF b(1)] s by simp
qed

theorem ucb_buffer_pop_push_witness:
  "\<exists>buf' buf''. ucb_buffer_push me_ok demo_buffer [9] = Ret (True, buf')
     \<and> ucb_buffer_pop buf' 1 = Ret ([9], buf'') \<and> buffer_bytes buf'' = [1, 2, 3]"
proof -
  have "\<exists>buf'. ucb_buffer_push me_ok demo_buffer [9] = Ret (True, buf')"
    by (simp add: ucb_buffer_push_def ucb_buffer_put_def demo_buffer_def zero_buffer_def SIZE_MAX_def)
  then obtain buf' where "ucb_buffer_push me_ok demo_buffer [9] = Ret (True, buf')" by blast
  from ucb_buffer_pop_push [OF demo_buffer_ok(1,2) _ this] this show ?thesis
    by (auto simp: demo_buffer_ok PTRDIFF_MAX_def)
qed

text \<open>
  \<^verbatim>\<open>ucb_buffer_grow_double\<close> always returns: at least the capacity asked for (saturating at
  \<open>SIZE_MAX\<close>), never less than the current capacity, and at most twice what was asked for.
\<close>

theorem ucb_buffer_grow_double_bounds:
  assumes "alloc \<le> SIZE_MAX"
  shows "\<exists>c. ucb_buffer_grow_double alloc n = Some c \<and> alloc \<le> c \<and> min (alloc + n) SIZE_MAX \<le> c
    \<and> c \<le> SIZE_MAX \<and> c \<le> max 1 (2 * (alloc + n))"
  by (rule ucb_buffer_grow_double_spec [OF assms])

theorem ucb_buffer_grow_double_bounds_witness:
  "\<exists>c. ucb_buffer_grow_double 24 100 = Some c \<and> 124 \<le> c \<and> c \<le> 248"
  using ucb_buffer_grow_double_bounds [of 24 100] by (auto simp: SIZE_MAX_def)

text \<open>
  The comment of \<^verbatim>\<open>ucb_buffer_push\<close> promises false when the buffer is full and cannot grow; a full
  static buffer aborts instead, in the check of \<^verbatim>\<open>ucb_buffer_resize\<close>.
\<close>

lemma push_full_static_aborts:
  "rbind (ucb_buffer_init_static (Some [0])) (\<lambda>b. ucb_buffer_push me_ok b [1, 2]) = Abort UCB_ERROR_BUFFER"
  by (simp add: ucb_buffer_init_static_def ucb_buffer_push_def ucb_buffer_grow_def zero_buffer_def
      ucb_buffer_resize_def ucb_buffer_can_resize_def SIZE_MAX_def)

end
