(* ===== verification/Utf8_Encode.thy ===== *)
theory Utf8_Encode
  imports Utf8 Buffer
begin

text \<open>
  \<^verbatim>\<open>ucb_uc_encode_codepoints\<close> of \<^verbatim>\<open>src/ucb/unicode.c\<close>: code points are encoded into a chunk on the
  stack, which is pushed to the byte buffer whenever the next encoding might not fit.  The
  interface between the encoder and the buffer is the locale \<open>byte_sink\<close>; the buffer model of
  \<^verbatim>\<open>Buffer\<close> interprets it.
\<close>

section \<open>The encoder\<close>

text \<open>
  \<open>M\<close> is the generated constant \<^verbatim>\<open>UCB_UC_MAX_MULTI_LEN\<close>: the chunk has \<open>5 * M\<close> bytes.  The outcome is
  true, false from a failed push, or false with an invalid code point error.
\<close>

datatype encode_outcome = EncOk | EncPushFailed | EncInvalid ucb_cp

fun encode_loop ::
    "nat \<Rightarrow> ('s \<Rightarrow> byte list \<Rightarrow> (bool \<times> 's) result) \<Rightarrow> 's \<Rightarrow> byte list \<Rightarrow> ucb_cp list
     \<Rightarrow> (encode_outcome \<times> 's) result" where
  "encode_loop M push buf bytes [] =
     (if length bytes = 0 then Ret (EncOk, buf)
      else rbind (push buf bytes) (\<lambda>(ok, buf). Ret (if ok then EncOk else EncPushFailed, buf)))"
| "encode_loop M push buf bytes (cp # cps) =
     (case ucb_uc_encode_codepoint True cp of
        None \<Rightarrow> Ret (EncInvalid cp, buf)
      | Some (res, bs) \<Rightarrow>
          if length bytes + res > 5 * M then Undef
          else let bytes = bytes @ bs in
            if length bytes \<ge> 4 * M then
              rbind (push buf bytes) (\<lambda>(ok, buf).
              if \<not> ok then Ret (EncPushFailed, buf) else encode_loop M push buf [] cps)
            else encode_loop M push buf bytes cps)"

definition ucb_uc_encode_codepoints ::
    "mem_env \<Rightarrow> nat \<Rightarrow> ucb_buffer \<Rightarrow> ucb_cp list \<Rightarrow> (encode_outcome \<times> ucb_buffer) result" where
  "ucb_uc_encode_codepoints me M buf cps = encode_loop M (ucb_buffer_push me) buf [] cps"

section \<open>The interface of a sink of bytes\<close>

locale byte_sink =
  fixes push :: "'s \<Rightarrow> byte list \<Rightarrow> (bool \<times> 's) result"
    and bytes :: "'s \<Rightarrow> byte list"
    and inv :: "'s \<Rightarrow> bool"
  assumes push_defined: "inv s \<Longrightarrow> length bs \<le> PTRDIFF_MAX \<Longrightarrow> push s bs \<noteq> Undef"
    and push_appends: "inv s \<Longrightarrow> length bs \<le> PTRDIFF_MAX \<Longrightarrow> push s bs = Ret (ok, s') \<Longrightarrow>
      inv s' \<and> bytes s' = (if ok then bytes s @ bs else bytes s)"
begin

text \<open>
  What the encoder leaves in a sink: all encodings on success, otherwise those of some of the
  code points before the failure.
\<close>

definition encoded :: "encode_outcome \<Rightarrow> byte list \<Rightarrow> ucb_cp list \<Rightarrow> byte list \<Rightarrow> bool" where
  "encoded r pending cps out \<longleftrightarrow>
     (case r of
        EncOk \<Rightarrow> list_all is_scalar cps \<and> out = pending @ utf8s cps
      | EncPushFailed \<Rightarrow> (\<exists>k. out = take k (pending @ utf8s cps))
      | EncInvalid cp \<Rightarrow> \<exists>pre post k. cps = pre @ cp # post \<and> list_all is_scalar pre \<and> \<not> is_scalar cp
          \<and> out = take k (pending @ utf8s pre))"

lemma encoded_Cons:
  assumes "encoded r (pending @ utf8 cp) cps out" "is_scalar cp"
  shows "encoded r pending (cp # cps) out"
proof (cases r)
  case (EncInvalid x)
  then obtain pre post k where "cps = pre @ x # post" "list_all is_scalar pre" "\<not> is_scalar x"
    "out = take k (pending @ utf8s (cp # pre))" using assms(1) by (auto simp: encoded_def)
  then have "cp # cps = (cp # pre) @ x # post \<and> list_all is_scalar (cp # pre) \<and> \<not> is_scalar x
      \<and> out = take k (pending @ utf8s (cp # pre))" using assms(2) by simp
  then show ?thesis unfolding encoded_def EncInvalid encode_outcome.case by blast
qed (use assms in \<open>auto simp: encoded_def\<close>)

lemma encoded_flushed:
  assumes "encoded r [] cps out" shows "encoded r pending cps (pending @ out)"
proof (cases r)
  case EncPushFailed
  then obtain k where "out = take k (utf8s cps)" using assms by (auto simp: encoded_def)
  then have "pending @ out = take (length pending + k) (pending @ utf8s cps)" by simp
  then show ?thesis unfolding encoded_def EncPushFailed encode_outcome.case by blast
next
  case (EncInvalid x)
  then obtain pre post k where "cps = pre @ x # post" "list_all is_scalar pre" "\<not> is_scalar x"
    "out = take k (utf8s pre)" using assms by (auto simp: encoded_def)
  moreover from this have "pending @ out = take (length pending + k) (pending @ utf8s pre)" by simp
  ultimately show ?thesis unfolding encoded_def EncInvalid encode_outcome.case by blast
qed (use assms in \<open>auto simp: encoded_def\<close>)

lemma encoded_nothing: "encoded EncPushFailed pending cps []"
  by (auto simp: encoded_def intro: exI [of _ 0])

lemma encode_loop_spec:
  assumes "inv s" "3 \<le> M" "5 * M \<le> PTRDIFF_MAX" "length pending < 4 * M"
  shows "encode_loop M push s pending cps \<noteq> Undef
     \<and> (\<forall>r s'. encode_loop M push s pending cps = Ret (r, s') \<longrightarrow>
          inv s' \<and> (\<exists>out. bytes s' = bytes s @ out \<and> encoded r pending cps out))"
  using assms
proof (induction cps arbitrary: s pending)
  case Nil
  have l: "length pending \<le> PTRDIFF_MAX" using Nil.prems by simp
  show ?case
  proof (cases "push s pending")
    case (Ret p)
    then have "inv (snd p) \<and> bytes (snd p) = (if fst p then bytes s @ pending else bytes s)"
      using push_appends [OF Nil.prems(1) l, of "fst p" "snd p"] by simp
    moreover have "encoded EncPushFailed pending [] []" by (rule encoded_nothing)
    ultimately show ?thesis using Ret Nil.prems(1) by (auto simp: split_def encoded_def)
  qed (use push_defined [OF Nil.prems(1) l] Nil.prems(1) in \<open>auto simp: encoded_def\<close>)
next
  case (Cons cp cps)
  show ?case
  proof (cases "is_scalar cp")
    case False
    have "encoded (EncInvalid cp) pending (cp # cps) []"
      unfolding encoded_def using False by (simp, intro exI [of _ "[]"] exI [of _ 0]) simp
    then show ?thesis using False Cons.prems(1) by (auto simp: ucb_uc_encode_codepoint_eq)
  next
    case True
    let ?p = "pending @ utf8 cp"
    have fits: "length ?p \<le> 5 * M" using Cons.prems(2,4) utf8_length(2) [of cp] by simp
    then have l: "length ?p \<le> PTRDIFF_MAX" using Cons.prems(3) by simp
    show ?thesis
    proof (cases "length ?p < 4 * M")
      case less: True
      have "encode_loop M push s pending (cp # cps) = encode_loop M push s ?p cps"
        using True fits less by (simp add: ucb_uc_encode_codepoint_eq)
      moreover have "encode_loop M push s ?p cps \<noteq> Undef
        \<and> (\<forall>r s'. encode_loop M push s ?p cps = Ret (r, s') \<longrightarrow>
            inv s' \<and> (\<exists>out. bytes s' = bytes s @ out \<and> encoded r ?p cps out))"
        by (rule Cons.IH [OF Cons.prems(1-3) less])
      ultimately show ?thesis using encoded_Cons [OF _ True] by metis
    next
      case flush: False
      then have e: "encode_loop M push s pending (cp # cps) = rbind (push s ?p) (\<lambda>(ok, buf).
          if \<not> ok then Ret (EncPushFailed, buf) else encode_loop M push buf [] cps)"
        using True fits by (simp add: ucb_uc_encode_codepoint_eq)
      show ?thesis
      proof (cases "push s ?p")
        case (Ret q)
        obtain ok s1 where q: "push s ?p = Ret (ok, s1)" using Ret by (cases q) simp
        have s1: "inv s1" "bytes s1 = (if ok then bytes s @ ?p else bytes s)"
          using push_appends [OF Cons.prems(1) l q] by simp_all
        have pf: "encoded EncPushFailed pending (cp # cps) []" by (rule encoded_nothing)
        have M: "length [] < 4 * M" using Cons.prems(2) by simp
        have "encoded r pending (cp # cps) (?p @ out)" if "encoded r [] cps out" for r out
          using encoded_Cons [OF encoded_flushed [OF that] True] .
        then show ?thesis using Cons.IH [OF s1(1) Cons.prems(2,3) M] s1 q pf e
          by (cases ok) (simp, metis append_assoc, simp)
      qed (use push_defined [OF Cons.prems(1) l] e in auto)
    qed
  qed
qed

lemma encode_defined:
  assumes "inv s" "3 \<le> M" "5 * M \<le> PTRDIFF_MAX"
  shows "encode_loop M push s [] cps \<noteq> Undef"
  using encode_loop_spec [of s M "[]" cps] assms by simp

lemma encode_ok:
  assumes "inv s" "3 \<le> M" "5 * M \<le> PTRDIFF_MAX" "encode_loop M push s [] cps = Ret (EncOk, s')"
  shows "inv s' \<and> list_all is_scalar cps \<and> bytes s' = bytes s @ utf8s cps"
  using encode_loop_spec [of s M "[]" cps] assms by (auto simp: encoded_def)

lemma encode_invalid:
  assumes "inv s" "3 \<le> M" "5 * M \<le> PTRDIFF_MAX" "encode_loop M push s [] cps = Ret (EncInvalid cp, s')"
  shows "inv s' \<and> (\<exists>pre post k. cps = pre @ cp # post \<and> list_all is_scalar pre \<and> \<not> is_scalar cp
     \<and> bytes s' = bytes s @ take k (utf8s pre))"
  using encode_loop_spec [of s M "[]" cps] assms by (fastforce simp: encoded_def)

end

section \<open>The buffer is a sink\<close>

interpretation buffer_sink: byte_sink "ucb_buffer_push me" buffer_bytes buffer_safe for me
proof
  show "ucb_buffer_push me s bs \<noteq> Undef" if "buffer_safe s" "length bs \<le> PTRDIFF_MAX" for s bs
    using buffer_safe_push(1) [OF that] .
  show "buffer_safe s' \<and> buffer_bytes s' = (if ok then buffer_bytes s @ bs else buffer_bytes s)"
    if "buffer_safe s" "length bs \<le> PTRDIFF_MAX" "ucb_buffer_push me s bs = Ret (ok, s')" for s bs ok s'
    using buffer_safe_push(2) [OF that] ucb_buffer_push_spec(2) [OF _ _ that(2,3)] that(1)
    by (cases ok) (simp_all add: buffer_safe_def)
qed

text \<open>With room for all the encodings the buffer never grows and the encoder succeeds.\<close>

lemma push_room:
  assumes "buffer_ok buf" "b_size buf + length dat \<le> b_alloc buf"
  shows "\<exists>buf'. ucb_buffer_push me buf dat = Ret (True, buf') \<and> buffer_ok buf'
    \<and> b_alloc buf' = b_alloc buf \<and> buffer_bytes buf' = buffer_bytes buf @ dat"
proof (cases "dat = []")
  case False
  obtain b where "ucb_buffer_put buf dat = Ret b" "buffer_ok b" "buffer_bytes b = buffer_bytes buf @ dat"
    "b_alloc b = b_alloc buf" using ucb_buffer_put_spec [OF assms] by metis
  moreover have "length dat \<le> usub (b_alloc buf) (b_size buf)" using buffer_okD(2,5) [OF assms(1)] assms(2) by simp
  ultimately show ?thesis using False by (simp add: ucb_buffer_push_eq_ensure ucb_buffer_ensure_def)
qed (use assms in \<open>simp add: ucb_buffer_push_def\<close>)

lemma encode_loop_room:
  assumes "buffer_ok buf" "b_size buf + length pending + length (utf8s cps) \<le> b_alloc buf"
    "list_all is_scalar cps" "3 \<le> M" "length pending < 4 * M"
  shows "\<exists>buf'. encode_loop M (ucb_buffer_push me) buf pending cps = Ret (EncOk, buf') \<and> buffer_ok buf'
    \<and> b_alloc buf' = b_alloc buf \<and> buffer_bytes buf' = buffer_bytes buf @ pending @ utf8s cps"
  using assms
proof (induction cps arbitrary: buf pending)
  case Nil
  then show ?case using push_room [OF Nil.prems(1), of pending me] by auto
next
  case (Cons cp cps)
  let ?p = "pending @ utf8 cp"
  have s: "is_scalar cp" "list_all is_scalar cps" using Cons.prems(3) by simp_all
  have fits: "length ?p \<le> 5 * M" using Cons.prems(4,5) utf8_length(2) [of cp] by simp
  show ?case
  proof (cases "length ?p < 4 * M")
    case True
    then show ?thesis using Cons.IH [OF Cons.prems(1) _ s(2) Cons.prems(4) True] Cons.prems(2) s(1) fits
      by (simp add: ucb_uc_encode_codepoint_eq add.assoc)
  next
    case False
    obtain b where b: "ucb_buffer_push me buf ?p = Ret (True, b)" "buffer_ok b" "b_alloc b = b_alloc buf"
      "buffer_bytes b = buffer_bytes buf @ ?p"
      using push_room [OF Cons.prems(1), of ?p me] Cons.prems(2) by auto
    have "b_size b = b_size buf + length ?p"
      using arg_cong [OF b(4), of length] buffer_okD(6) [OF b(2)] buffer_okD(6) [OF Cons.prems(1)] by simp
    then show ?thesis
      using Cons.IH [OF b(2) _ s(2) Cons.prems(4), of "[]"] Cons.prems(2,4) s(1) fits False b
      by (simp add: ucb_uc_encode_codepoint_eq add.assoc)
  qed
qed

text \<open>
  With room for four bytes per code point a push never fails, whatever the code points are: the
  encoder succeeds or stops at one that is not a scalar value.
\<close>

lemma encode_loop_room_any:
  assumes "buffer_ok buf" "b_size buf + length pending + 4 * length cps \<le> b_alloc buf"
    "3 \<le> M" "length pending < 4 * M"
  shows "\<exists>r buf'. encode_loop M (ucb_buffer_push me) buf pending cps = Ret (r, buf') \<and> buffer_ok buf'
    \<and> b_alloc buf' = b_alloc buf \<and> (r = EncOk \<and> list_all is_scalar cps \<or> (\<exists>c. r = EncInvalid c))"
  using assms
proof (induction cps arbitrary: buf pending)
  case Nil
  then show ?case using push_room [OF Nil.prems(1), of pending me] by auto
next
  case (Cons cp cps)
  let ?p = "pending @ utf8 cp"
  have le: "length (utf8 cp) \<le> 4" by (rule utf8_length(2))
  have fits: "length ?p \<le> 5 * M" using Cons.prems(3,4) le by simp
  show ?case
  proof (cases "is_scalar cp")
    case no: False
    then show ?thesis using Cons.prems(1) by (simp add: ucb_uc_encode_codepoint_eq)
  next
    case s: True
    show ?thesis
    proof (cases "length ?p < 4 * M")
      case True
      then show ?thesis using Cons.IH [OF Cons.prems(1) _ Cons.prems(3) True] Cons.prems(2) s fits le
        by (simp add: ucb_uc_encode_codepoint_eq)
    next
      case False
      obtain b where b: "ucb_buffer_push me buf ?p = Ret (True, b)" "buffer_ok b" "b_alloc b = b_alloc buf"
        "buffer_bytes b = buffer_bytes buf @ ?p"
        using push_room [OF Cons.prems(1), of ?p me] Cons.prems(2) le by auto
      have "b_size b = b_size buf + length ?p"
        using arg_cong [OF b(4), of length] buffer_okD(6) [OF b(2)] buffer_okD(6) [OF Cons.prems(1)] by simp
      then show ?thesis
        using Cons.IH [OF b(2) _ Cons.prems(3), of "[]"] Cons.prems(2,3) s fits False b le
        by (simp add: ucb_uc_encode_codepoint_eq)
    qed
  qed
qed

text \<open>
  C3: \<^verbatim>\<open>ucb_uc_encode_codepoints\<close> never overruns its chunk (for \<open>UCB_UC_MAX_MULTI_LEN\<close> of at least 3);
  on success it has appended exactly the UTF-8 encodings of all the code points, and an invalid
  code point it reports is the first one that is not a scalar value.
\<close>

theorem ucb_uc_encode_codepoints_correct:
  assumes "buffer_ok buf" "grow_sound (b_grow buf)" "3 \<le> M" "5 * M \<le> PTRDIFF_MAX"
  shows "case ucb_uc_encode_codepoints me M buf cps of
       Undef \<Rightarrow> False
     | Abort c \<Rightarrow> True
     | Ret (EncOk, buf') \<Rightarrow> list_all is_scalar cps \<and> buffer_bytes buf' = buffer_bytes buf @ utf8s cps
     | Ret (EncPushFailed, buf') \<Rightarrow> True
     | Ret (EncInvalid cp, buf') \<Rightarrow>
         \<exists>pre post. cps = pre @ cp # post \<and> list_all is_scalar pre \<and> \<not> is_scalar cp"
proof -
  have s: "buffer_safe buf" using assms(1,2) by (simp add: buffer_safe_def)
  note l = buffer_sink.encode_defined [OF s assms(3,4), of me cps]
    buffer_sink.encode_ok [OF s assms(3,4), of me cps]
    buffer_sink.encode_invalid [OF s assms(3,4), of me cps]
  show ?thesis using l unfolding ucb_uc_encode_codepoints_def
    by (cases "encode_loop M (ucb_buffer_push me) buf [] cps")
      (auto split: encode_outcome.split, blast)
qed

theorem ucb_uc_encode_codepoints_correct_witness:
  "\<exists>buf'. ucb_uc_encode_codepoints me_ok 3 demo_buffer [0x41] = Ret (EncOk, buf')
     \<and> buffer_bytes buf' = [1, 2, 3] @ utf8s [0x41]"
proof -
  have "\<exists>buf'. ucb_uc_encode_codepoints me_ok 3 demo_buffer [0x41] = Ret (EncOk, buf')"
    by (simp add: ucb_uc_encode_codepoints_def ucb_uc_encode_codepoint_def ucb_buffer_push_def
        ucb_buffer_put_def demo_buffer_def zero_buffer_def SIZE_MAX_def)
  then obtain buf' where b: "ucb_uc_encode_codepoints me_ok 3 demo_buffer [0x41] = Ret (EncOk, buf')"
    by blast
  then show ?thesis
    using ucb_uc_encode_codepoints_correct [OF demo_buffer_ok(1,2),
      where M = 3 and me = me_ok and cps = "[0x41]"]
    by (simp add: demo_buffer_ok PTRDIFF_MAX_def)
qed

end
