(* ===== verification/Uc_Tables.thy ===== *)
theory Uc_Tables
  imports Utf8
begin

text \<open>
  The property lookup of \<^verbatim>\<open>src/ucb/unicode.c\<close>.  The tables are generated from the Unicode
  Character Database at build time and are not part of the repository, so they are a parameter
  (\<open>uc_tables\<close>); what the code relies on is \<open>uc_tables_ok\<close>.
\<close>

datatype ucb_uc_gcb =
    GCB_OTHER | GCB_CR | GCB_LF | GCB_CONTROL | GCB_EXTEND | GCB_ZWJ | GCB_REGIONAL_INDICATOR
  | GCB_PREPEND | GCB_SPACINGMARK | GCB_L | GCB_V | GCB_T | GCB_LV | GCB_LVT

datatype ucb_uc_incb = INCB_NONE | INCB_CONSONANT | INCB_EXTEND | INCB_LINKER

text \<open>
  A row of the property table. The three flags are \<^verbatim>\<open>COMPEXCL\<close> (excluded from composition),
  \<^verbatim>\<open>COMPMAYBE\<close> (may compose with a preceding character) and \<^verbatim>\<open>NFKCNO\<close> (not in NFKC form); the other
  enumerations are those of the generated headers.
\<close>

datatype ucb_uc_gc =
    GC_LU | GC_LL | GC_LT | GC_LM | GC_LO | GC_MN | GC_MC | GC_ME | GC_ND | GC_NL | GC_NO | GC_PC | GC_PD
  | GC_PS | GC_PE | GC_PI | GC_PF | GC_PO | GC_SM | GC_SC | GC_SK | GC_SO | GC_ZS | GC_ZL | GC_ZP | GC_CC
  | GC_CF | GC_CS | GC_CO | GC_CN

datatype ucb_uc_dctype =
    DC_CANON | DC_FONT | DC_NOBRK | DC_INIT | DC_MEDIAL | DC_FINAL | DC_ISOL | DC_CIRCLE | DC_SUPER
  | DC_SUB | DC_VERT | DC_WIDE | DC_NARROW | DC_SMALL | DC_SQUARE | DC_FRACT | DC_COMPAT

record uc_prop =
  p_compexcl :: bool
  p_compmaybe :: bool
  p_nfkcno :: bool
  p_gcb :: ucb_uc_gcb
  p_incb :: ucb_uc_incb
  p_extpict :: bool
  p_category :: ucb_uc_gc
  p_ccc :: nat
  p_mapping_idx :: nat
  p_decomp_idx :: nat
  p_combiner_idx :: nat

text \<open>
  A row of the case mappings: references into the table of single code points (from 1) and, past its
  end, into the table of sequences, whose entries have \<open>tab_max_multi\<close> places, the unused ones
  holding \<open>tab_no_value\<close>. A row of the decompositions: type and values. A row of the combiners:
  pairs of a combiner and the composed code point.
\<close>

record ucb_uc_mapping =
  m_to_upper :: nat
  m_to_lower :: nat
  m_to_title :: nat
  m_to_casefold :: nat

record ucb_uc_decomp =
  d_type :: ucb_uc_dctype
  d_vals :: "ucb_cp list"

record uc_tables =
  tab_block_size :: nat
  tab_stage1 :: "nat list"
  tab_stage2 :: "nat list"
  tab_props :: "uc_prop list"
  tab_mapping :: "ucb_uc_mapping list"
  tab_smap :: "ucb_cp list"
  tab_mmap :: "ucb_cp list list"
  tab_no_value :: ucb_cp
  tab_max_multi :: nat
  tab_decomp :: "ucb_uc_decomp list"
  tab_combiners :: "(ucb_cp \<times> ucb_cp) list list"

definition tab_nth :: "'a list \<Rightarrow> nat \<Rightarrow> 'a result" where
  "tab_nth xs i = (if i < length xs then Ret (xs ! i) else Undef)"

definition ucb_uc_get_prop :: "uc_tables \<Rightarrow> ucb_cp \<Rightarrow> uc_prop result" where
  "ucb_uc_get_prop T cp =
     rbind (tab_nth (tab_stage1 T) (unat cp div tab_block_size T)) (\<lambda>block.
     rbind (tab_nth (tab_stage2 T) (block * tab_block_size T + unat cp mod tab_block_size T)) (\<lambda>index.
     tab_nth (tab_props T) index))"

definition tab_ref :: "'a list \<Rightarrow> nat \<Rightarrow> 'a option result" where
  "tab_ref xs idx = (if idx \<noteq> 0 then rbind (tab_nth xs (idx - 1)) (\<lambda>x. Ret (Some x)) else Ret None)"

definition ucb_uc_get_mapping :: "uc_tables \<Rightarrow> uc_prop \<Rightarrow> ucb_uc_mapping option result" where
  "ucb_uc_get_mapping T prop = tab_ref (tab_mapping T) (p_mapping_idx prop)"

definition ucb_uc_get_decomp :: "uc_tables \<Rightarrow> uc_prop \<Rightarrow> ucb_uc_decomp option result" where
  "ucb_uc_get_decomp T prop = tab_ref (tab_decomp T) (p_decomp_idx prop)"

definition ucb_uc_get_combiners :: "uc_tables \<Rightarrow> uc_prop \<Rightarrow> (ucb_cp \<times> ucb_cp) list option result" where
  "ucb_uc_get_combiners T prop = tab_ref (tab_combiners T) (p_combiner_idx prop)"

text \<open>
  What the generated tables provide: a row for every scalar value, and (Unicode's emoji data)
  every Extended_Pictographic character has Grapheme_Cluster_Break Other.
\<close>

definition uc_row_ok :: "uc_prop \<Rightarrow> bool" where
  "uc_row_ok p \<longleftrightarrow> (p_extpict p \<longrightarrow> p_gcb p = GCB_OTHER)"

definition uc_tables_ok :: "uc_tables \<Rightarrow> bool" where
  "uc_tables_ok T \<longleftrightarrow>
     tab_block_size T > 0
     \<and> 1114112 \<le> length (tab_stage1 T) * tab_block_size T
     \<and> list_all (\<lambda>b. (b + 1) * tab_block_size T \<le> length (tab_stage2 T)) (tab_stage1 T)
     \<and> list_all (\<lambda>i. i < length (tab_props T)) (tab_stage2 T)
     \<and> list_all uc_row_ok (tab_props T)"

definition prop_of :: "uc_tables \<Rightarrow> ucb_cp \<Rightarrow> uc_prop" where
  "prop_of T cp = tab_props T !
     (tab_stage2 T ! (tab_stage1 T ! (unat cp div tab_block_size T) * tab_block_size T
                      + unat cp mod tab_block_size T))"

lemma list_all_nth: "list_all P xs \<Longrightarrow> i < length xs \<Longrightarrow> P (xs ! i)"
  by (simp add: list_all_length)

lemma ucb_uc_get_prop_scalar:
  assumes "uc_tables_ok T" "is_scalar cp"
  shows "ucb_uc_get_prop T cp = Ret (prop_of T cp) \<and> uc_row_ok (prop_of T cp)"
proof -
  let ?b = "tab_block_size T" and ?c = "unat cp"
  have b: "?b > 0" and l1: "1114112 \<le> length (tab_stage1 T) * ?b"
    and a1: "list_all (\<lambda>b. (b + 1) * ?b \<le> length (tab_stage2 T)) (tab_stage1 T)"
    and a2: "list_all (\<lambda>i. i < length (tab_props T)) (tab_stage2 T)"
    and a3: "list_all uc_row_ok (tab_props T)"
    using assms(1) by (auto simp: uc_tables_ok_def)
  have "?c < length (tab_stage1 T) * ?b" using assms(2) l1 by (simp add: is_scalar_unat)
  then have i1: "?c div ?b < length (tab_stage1 T)" using b by (simp add: less_mult_imp_div_less)
  let ?s = "tab_stage1 T ! (?c div ?b)"
  have "?c mod ?b < ?b" using b by simp
  then have i2: "?s * ?b + ?c mod ?b < length (tab_stage2 T)" using list_all_nth [OF a1 i1] by simp
  note i3 = list_all_nth [OF a2 i2]
  show ?thesis using i1 i2 i3 list_all_nth [OF a3 i3]
    by (simp add: ucb_uc_get_prop_def tab_nth_def prop_of_def)
qed

text \<open>A small table for witnesses: one row for all of Unicode, in one block.\<close>

definition one_row_tables :: "uc_prop \<Rightarrow> uc_tables" where
  "one_row_tables p = \<lparr>tab_block_size = 1114112, tab_stage1 = [0], tab_stage2 = replicate 1114112 0,
     tab_props = [p], tab_mapping = [], tab_smap = [], tab_mmap = [], tab_no_value = 0x110000,
     tab_max_multi = 3, tab_decomp = [], tab_combiners = []\<rparr>"

lemma one_row_tables_ok: "uc_row_ok p \<Longrightarrow> uc_tables_ok (one_row_tables p)"
  by (simp add: uc_tables_ok_def one_row_tables_def list_all_length)

lemma one_row_prop_of: "is_scalar cp \<Longrightarrow> prop_of (one_row_tables p) cp = p"
  using ucb_uc_get_prop_scalar [of "one_row_tables p" cp]
  by (simp add: prop_of_def one_row_tables_def is_scalar_unat)

section \<open>Text positions\<close>

text \<open>The code points of the text from byte \<open>i\<close> to byte \<open>len\<close>.\<close>

definition text_at :: "byte list \<Rightarrow> nat \<Rightarrow> nat \<Rightarrow> ucb_cp list \<Rightarrow> bool" where
  "text_at mem i len cps \<longleftrightarrow>
     list_all is_scalar cps \<and> take (len - i) (drop i mem) = utf8s cps \<and> i \<le> len \<and> len \<le> length mem"

lemma text_at_Nil: "text_at mem i len [] \<longleftrightarrow> i = len \<and> len \<le> length mem"
  by (auto simp: text_at_def)

lemma text_at_length: "text_at mem i len cps \<Longrightarrow> len = i + length (utf8s cps)"
  unfolding text_at_def by (metis add_diff_inverse_nat diff_le_mono length_drop length_take
      less_diff_conv linorder_not_less min_absorb2)

lemma text_at_Cons:
  assumes "text_at mem i len (cp # cps)"
  shows "is_scalar cp" "text_at mem (i + length (utf8 cp)) len cps" "i < len"
    "ucb_uc_next_valid (drop i mem) = Ret (cp, length (utf8 cp))"
proof -
  have s: "is_scalar cp" "list_all is_scalar cps" and le: "len - i + i \<le> length mem" "i \<le> len"
    and eq: "take (len - i) (drop i mem) = utf8 cp @ utf8s cps" using assms by (auto simp: text_at_def)
  note sp = take_append_split [OF eq le(1)]
  show "i < len" using sp(3) utf8_length(1) [of cp] by linarith
  show "is_scalar cp" by (rule s)
  show "text_at mem (i + length (utf8 cp)) len cps"
  proof -
    have "len - (i + length (utf8 cp)) = len - i - length (utf8 cp)" by simp
    then show ?thesis using sp(2,3) s le unfolding text_at_def by simp
  qed
  show "ucb_uc_next_valid (drop i mem) = Ret (cp, length (utf8 cp))"
    using uc_validate_at_complete [OF s(1) sp(1), of len] sp(3) le by simp
qed

lemma text_at_whole: "list_all is_scalar cps \<Longrightarrow> text_at (utf8s cps @ rest) 0 (length (utf8s cps)) cps"
  by (simp add: text_at_def)

lemma text_at_append:
  "text_at mem i len (xs @ ys) \<Longrightarrow> text_at mem (i + length (utf8s xs)) len ys"
proof (induction xs arbitrary: i)
  case (Cons x xs)
  from Cons.prems have "text_at mem i len (x # (xs @ ys))" by simp
  from Cons.IH [OF text_at_Cons(2) [OF this]] show ?case by (simp add: add.assoc)
qed simp

lemma text_at_prefix:
  assumes "text_at mem i len (xs @ ys)" shows "text_at mem i (i + length (utf8s xs)) xs"
proof -
  have s: "list_all is_scalar xs" and le: "len - i + i \<le> length mem" "i \<le> len" "len \<le> length mem"
    and eq: "take (len - i) (drop i mem) = utf8s xs @ utf8s ys" using assms by (auto simp: text_at_def)
  note sp = take_append_split [OF eq le(1)]
  show ?thesis using s sp le by (simp add: text_at_def)
qed

end
