(* ===== verification/Grapheme.thy ===== *)
theory Grapheme
  imports Uc_Tables
begin

text \<open>
  Extended grapheme clusters of \<^verbatim>\<open>src/ucb/unicode.c\<close>: the scanner state, the boundary rules, the
  backward reconstruction of the state and the character functions built on them; then the
  rules of Unicode Annex 29 as regular conditions on the preceding characters, and the proof
  that the scanner implements them.
\<close>

section \<open>The scanner\<close>

record grapheme_state =
  ri_odd :: bool
  gb11 :: nat
  incb_seq :: bool
  incb_linker :: bool

definition zero_state :: grapheme_state where
  "zero_state = \<lparr>ri_odd = False, gb11 = 0, incb_seq = False, incb_linker = False\<rparr>"

definition ucb_uc_grapheme_update ::
    "grapheme_state \<Rightarrow> ucb_uc_gcb \<Rightarrow> bool \<Rightarrow> ucb_uc_incb \<Rightarrow> grapheme_state" where
  "ucb_uc_grapheme_update st gcb extpict incb =
     (let st = st\<lparr>gb11 :=
            if extpict then 1
            else if gcb = GCB_EXTEND \<and> (gb11 st = 1 \<or> gb11 st = 2) then 2
            else if gcb = GCB_ZWJ \<and> (gb11 st = 1 \<or> gb11 st = 2) then 3
            else 0\<rparr>;
          st = st\<lparr>ri_odd := if gcb = GCB_REGIONAL_INDICATOR then \<not> ri_odd st else False\<rparr>
      in if incb = INCB_CONSONANT then st\<lparr>incb_seq := True, incb_linker := False\<rparr>
         else if incb_seq st \<and> (incb = INCB_EXTEND \<or> incb = INCB_LINKER)
         then (if incb = INCB_LINKER then st\<lparr>incb_linker := True\<rparr> else st)
         else st\<lparr>incb_seq := False, incb_linker := False\<rparr>)"

definition ucb_uc_grapheme_should_break ::
    "grapheme_state \<Rightarrow> ucb_uc_gcb \<Rightarrow> ucb_uc_gcb \<Rightarrow> bool \<Rightarrow> ucb_uc_incb \<Rightarrow> bool" where
  "ucb_uc_grapheme_should_break st a b cur_extpict cur_incb =
     (if a = GCB_CR \<and> b = GCB_LF then False
      else if a = GCB_CONTROL \<or> a = GCB_CR \<or> a = GCB_LF then True
      else if b = GCB_CONTROL \<or> b = GCB_CR \<or> b = GCB_LF then True
      else if a = GCB_L \<and> (b = GCB_L \<or> b = GCB_V \<or> b = GCB_LV \<or> b = GCB_LVT) then False
      else if (a = GCB_LV \<or> a = GCB_V) \<and> (b = GCB_V \<or> b = GCB_T) then False
      else if (a = GCB_LVT \<or> a = GCB_T) \<and> b = GCB_T then False
      else if b = GCB_EXTEND \<or> b = GCB_ZWJ then False
      else if b = GCB_SPACINGMARK then False
      else if a = GCB_PREPEND then False
      else if incb_seq st \<and> incb_linker st \<and> cur_incb = INCB_CONSONANT then False
      else if gb11 st = 3 \<and> cur_extpict then False
      else if a = GCB_REGIONAL_INDICATOR \<and> b = GCB_REGIONAL_INDICATOR \<and> ri_odd st then False
      else True)"

text \<open>The update and the test by a row of the property table.\<close>

definition update :: "grapheme_state \<Rightarrow> uc_prop \<Rightarrow> grapheme_state" where
  "update st p = ucb_uc_grapheme_update st (p_gcb p) (p_extpict p) (p_incb p)"

definition should_break :: "grapheme_state \<Rightarrow> uc_prop \<Rightarrow> uc_prop \<Rightarrow> bool" where
  "should_break st p q =
     ucb_uc_grapheme_should_break st (p_gcb p) (p_gcb q) (p_extpict q) (p_incb q)"

section \<open>Stepping over code points\<close>

fun prev_start_loop :: "byte list \<Rightarrow> nat \<Rightarrow> nat" where
  "prev_start_loop mem 0 = 0"
| "prev_start_loop mem (Suc p) =
     (if mem ! Suc p AND 0xC0 = 0x80 then prev_start_loop mem p else Suc p)"

definition ucb_uc_prev_start :: "byte list \<Rightarrow> nat \<Rightarrow> nat" where
  "ucb_uc_prev_start mem pos = prev_start_loop mem (pos - 1)"

definition ucb_uc_prop_at :: "uc_tables \<Rightarrow> byte list \<Rightarrow> nat \<Rightarrow> (uc_prop \<times> nat) result" where
  "ucb_uc_prop_at T mem start =
     rbind (ucb_uc_next_valid (drop start mem)) (\<lambda>(cp, n).
     rbind (ucb_uc_get_prop T cp) (\<lambda>p. Ret (p, start + n)))"

lemma ucb_uc_prop_at_less: "ucb_uc_prop_at T mem i = Ret (p, j) \<Longrightarrow> i < j"
  by (auto simp: ucb_uc_prop_at_def dest!: ucb_uc_next_valid_pos)

lemma prev_start_loop_le: "prev_start_loop mem p \<le> p"
  by (induction mem p rule: prev_start_loop.induct) auto

lemma ucb_uc_prev_start_less: "0 < p \<Longrightarrow> ucb_uc_prev_start mem p < p"
  using prev_start_loop_le [of mem "p - 1"] by (simp add: ucb_uc_prev_start_def)

section \<open>Reconstructing the state backwards\<close>

function ri_loop :: "uc_tables \<Rightarrow> byte list \<Rightarrow> nat \<Rightarrow> bool \<Rightarrow> bool result" where
  "ri_loop T mem p oddp =
     (if p > 0 then
        let q = ucb_uc_prev_start mem p in
        rbind (ucb_uc_prop_at T mem q) (\<lambda>(prop, _).
        if p_gcb prop \<noteq> GCB_REGIONAL_INDICATOR then Ret oddp
        else ri_loop T mem q (\<not> oddp))
      else Ret oddp)"
  by pat_completeness auto
termination
  by (relation "measure (\<lambda>(T, mem, p, oddp). p)") (auto simp: ucb_uc_prev_start_less)

function gb11_loop :: "uc_tables \<Rightarrow> byte list \<Rightarrow> nat \<Rightarrow> bool result" where
  "gb11_loop T mem p =
     (if p > 0 then
        let q = ucb_uc_prev_start mem p in
        rbind (ucb_uc_prop_at T mem q) (\<lambda>(prop, _).
        if p_extpict prop then Ret True
        else if p_gcb prop \<noteq> GCB_EXTEND then Ret False
        else gb11_loop T mem q)
      else Ret False)"
  by pat_completeness auto
termination
  by (relation "measure (\<lambda>(T, mem, p). p)") (auto simp: ucb_uc_prev_start_less)

text \<open>The loop for GB9c: \<open>Some linker\<close> when a consonant is met, \<open>None\<close> otherwise.\<close>

function incb_loop :: "uc_tables \<Rightarrow> byte list \<Rightarrow> nat \<Rightarrow> bool \<Rightarrow> bool option result" where
  "incb_loop T mem p linker =
     (if p > 0 then
        let q = ucb_uc_prev_start mem p in
        rbind (ucb_uc_prop_at T mem q) (\<lambda>(prop, _).
        if p_incb prop = INCB_LINKER then incb_loop T mem q True
        else if p_incb prop = INCB_EXTEND then incb_loop T mem q linker
        else if p_incb prop = INCB_CONSONANT then Ret (Some linker)
        else Ret None)
      else Ret None)"
  by pat_completeness auto
termination
  by (relation "measure (\<lambda>(T, mem, p, linker). p)") (auto simp: ucb_uc_prev_start_less)

declare ri_loop.simps [simp del] gb11_loop.simps [simp del] incb_loop.simps [simp del]

definition ucb_uc_grapheme_state_at :: "uc_tables \<Rightarrow> byte list \<Rightarrow> nat \<Rightarrow> grapheme_state result" where
  "ucb_uc_grapheme_state_at T mem from =
     (if from = 0 then Ret zero_state
      else
        rbind (ri_loop T mem from False) (\<lambda>oddp.
        rbind (let q = ucb_uc_prev_start mem from in
               rbind (ucb_uc_prop_at T mem q) (\<lambda>(prop, _).
               if p_gcb prop = GCB_ZWJ then gb11_loop T mem q else Ret False)) (\<lambda>zwj.
        rbind (incb_loop T mem from False) (\<lambda>incb.
        Ret \<lparr>ri_odd = oddp, gb11 = (if zwj then 3 else 0),
             incb_seq = (incb \<noteq> None), incb_linker = (incb = Some True)\<rparr>))))"

section \<open>Character functions\<close>

function next_from_loop ::
    "uc_tables \<Rightarrow> byte list \<Rightarrow> nat \<Rightarrow> nat \<Rightarrow> grapheme_state \<Rightarrow> uc_prop \<Rightarrow> nat result" where
  "next_from_loop T mem stop iter st prop =
     (if iter < stop then
        rbind (ucb_uc_prop_at T mem iter) (\<lambda>(next_prop, iter').
        if should_break st prop next_prop then Ret iter
        else next_from_loop T mem stop iter' (update st next_prop) next_prop)
      else Ret UCB_NPOS)"
  by pat_completeness auto
termination
  by (relation "measure (\<lambda>(T, mem, stop, iter, st, prop). stop - iter)")
    (auto dest: ucb_uc_prop_at_less)

definition ucb_uc_grapheme_next_from ::
    "uc_tables \<Rightarrow> byte list \<Rightarrow> nat \<Rightarrow> nat \<Rightarrow> grapheme_state \<Rightarrow> nat result" where
  "ucb_uc_grapheme_next_from T mem start stop st =
     rbind (ucb_uc_prop_at T mem start) (\<lambda>(prop, iter).
     next_from_loop T mem stop iter (update st prop) prop)"

function num_char_loop ::
    "uc_tables \<Rightarrow> byte list \<Rightarrow> nat \<Rightarrow> nat \<Rightarrow> grapheme_state \<Rightarrow> uc_prop \<Rightarrow> nat \<Rightarrow> nat result" where
  "num_char_loop T mem stop iter st prop num =
     (if iter < stop then
        rbind (ucb_uc_prop_at T mem iter) (\<lambda>(next_prop, iter').
        num_char_loop T mem stop iter' (update st next_prop) next_prop
          (if should_break st prop next_prop then num + 1 else num))
      else Ret num)"
  by pat_completeness auto
termination
  by (relation "measure (\<lambda>(T, mem, stop, iter, st, prop, num). stop - iter)")
    (auto dest: ucb_uc_prop_at_less)

definition ucb_uc_num_char :: "uc_tables \<Rightarrow> byte list option \<Rightarrow> nat \<Rightarrow> nat result" where
  "ucb_uc_num_char T str len =
     (case str of
        None \<Rightarrow> Ret 0
      | Some mem \<Rightarrow>
          rbind (if len = UCB_NPOS then c_strlen mem else Ret len) (\<lambda>len.
          if 0 < len then
            rbind (ucb_uc_prop_at T mem 0) (\<lambda>(prop, iter).
            num_char_loop T mem len iter (update zero_state prop) prop 1)
          else Ret 0))"

definition ucb_uc_next_char :: "uc_tables \<Rightarrow> byte list \<Rightarrow> nat \<Rightarrow> nat \<Rightarrow> nat result" where
  "ucb_uc_next_char T mem len from_byte =
     (if from_byte \<ge> len then Ret UCB_NPOS
      else rbind (ucb_uc_grapheme_state_at T mem from_byte) (\<lambda>st.
        ucb_uc_grapheme_next_from T mem from_byte len st))"

function char_index_loop ::
    "uc_tables \<Rightarrow> byte list \<Rightarrow> nat \<Rightarrow> nat \<Rightarrow> nat \<Rightarrow> grapheme_state \<Rightarrow> uc_prop \<Rightarrow> nat \<Rightarrow> nat result" where
  "char_index_loop T mem len index iter st prop num =
     (if iter < len then
        rbind (ucb_uc_prop_at T mem iter) (\<lambda>(next_prop, iter').
        if should_break st prop next_prop then
          (if num = index then Ret iter
           else char_index_loop T mem len index iter' (update st next_prop) next_prop (num + 1))
        else char_index_loop T mem len index iter' (update st next_prop) next_prop num)
      else Ret len)"
  by pat_completeness auto
termination
  by (relation "measure (\<lambda>(T, mem, len, index, iter, st, prop, num). len - iter)")
    (auto dest: ucb_uc_prop_at_less)

declare next_from_loop.simps [simp del] num_char_loop.simps [simp del] char_index_loop.simps [simp del]

definition ucb_uc_char_index :: "uc_tables \<Rightarrow> byte list option \<Rightarrow> nat \<Rightarrow> nat \<Rightarrow> nat result" where
  "ucb_uc_char_index T str len index =
     (case str of
        None \<Rightarrow> Ret len
      | Some mem \<Rightarrow>
          if index = 0 then Ret len
          else if 0 \<ge> len then Ret len
          else rbind (ucb_uc_prop_at T mem 0) (\<lambda>(prop, iter).
            char_index_loop T mem len index iter (update zero_state prop) prop 1))"

section \<open>Annex 29\<close>

text \<open>
  The boundary rules as Annex 29 states them: the preceding characters, the last one first, and
  the next character.  The contexts of GB9c, GB11 and GB12/13 are read off the whole text.
\<close>

definition ext_only :: "uc_prop \<Rightarrow> bool" where
  "ext_only p \<longleftrightarrow> p_gcb p = GCB_EXTEND \<and> \<not> p_extpict p"

text \<open>... ExtPict Extend*\<close>

definition pict_extend :: "uc_prop list \<Rightarrow> bool" where
  "pict_extend rpre \<longleftrightarrow> (case dropWhile ext_only rpre of [] \<Rightarrow> False | q # _ \<Rightarrow> p_extpict q)"

text \<open>... ExtPict Extend* ZWJ\<close>

definition gb11_ctx :: "uc_prop list \<Rightarrow> bool" where
  "gb11_ctx rpre \<longleftrightarrow> (case rpre of [] \<Rightarrow> False | p # r \<Rightarrow> p_gcb p = GCB_ZWJ \<and> pict_extend r)"

text \<open>... Consonant [Extend Linker]*, with at least one Linker\<close>

definition conj_ext :: "uc_prop \<Rightarrow> bool" where
  "conj_ext p \<longleftrightarrow> p_incb p = INCB_EXTEND \<or> p_incb p = INCB_LINKER"

definition conj_seq :: "uc_prop list \<Rightarrow> bool" where
  "conj_seq rpre \<longleftrightarrow> (case dropWhile conj_ext rpre of [] \<Rightarrow> False | q # _ \<Rightarrow> p_incb q = INCB_CONSONANT)"

definition conj_linker :: "uc_prop list \<Rightarrow> bool" where
  "conj_linker rpre \<longleftrightarrow> list_ex (\<lambda>p. p_incb p = INCB_LINKER) (takeWhile conj_ext rpre)"

definition trailing_ri :: "uc_prop list \<Rightarrow> nat" where
  "trailing_ri rpre = length (takeWhile (\<lambda>p. p_gcb p = GCB_REGIONAL_INDICATOR) rpre)"

definition uax29_break :: "uc_prop list \<Rightarrow> uc_prop \<Rightarrow> bool" where
  "uax29_break rpre q =
     (case rpre of
        [] \<Rightarrow> True
      | p # _ \<Rightarrow>
          let a = p_gcb p; b = p_gcb q; ctrl = {GCB_CONTROL, GCB_CR, GCB_LF} in
          \<not> (a = GCB_CR \<and> b = GCB_LF)
          \<and> (a \<in> ctrl \<or> b \<in> ctrl
             \<or> \<not> (a = GCB_L \<and> b \<in> {GCB_L, GCB_V, GCB_LV, GCB_LVT}
                  \<or> a \<in> {GCB_LV, GCB_V} \<and> b \<in> {GCB_V, GCB_T}
                  \<or> a \<in> {GCB_LVT, GCB_T} \<and> b = GCB_T
                  \<or> b \<in> {GCB_EXTEND, GCB_ZWJ}
                  \<or> b = GCB_SPACINGMARK
                  \<or> a = GCB_PREPEND
                  \<or> conj_seq rpre \<and> conj_linker rpre \<and> p_incb q = INCB_CONSONANT
                  \<or> gb11_ctx rpre \<and> p_extpict q
                  \<or> odd (trailing_ri rpre) \<and> b = GCB_REGIONAL_INDICATOR)))"

text \<open>The clusters of a text: \<open>rpre\<close> are the characters before, \<open>cur\<close> the cluster being read.\<close>

fun clusters_from :: "uc_tables \<Rightarrow> uc_prop list \<Rightarrow> ucb_cp list \<Rightarrow> ucb_cp list \<Rightarrow> ucb_cp list list" where
  "clusters_from T rpre cur [] = [cur]"
| "clusters_from T rpre cur (c # cs) =
     (if uax29_break rpre (prop_of T c)
      then cur # clusters_from T (prop_of T c # rpre) [c] cs
      else clusters_from T (prop_of T c # rpre) (cur @ [c]) cs)"

fun clusters :: "uc_tables \<Rightarrow> ucb_cp list \<Rightarrow> ucb_cp list list" where
  "clusters T [] = []"
| "clusters T (c # cs) = clusters_from T [prop_of T c] [c] cs"

section \<open>The scanner implements Annex 29\<close>

text \<open>The state after scanning the characters \<open>rev rpre\<close>.\<close>

primrec scan :: "uc_prop list \<Rightarrow> grapheme_state" where
  "scan [] = zero_state"
| "scan (p # rpre) = update (scan rpre) p"

lemma update_fields:
  "ri_odd (update st p) = (p_gcb p = GCB_REGIONAL_INDICATOR \<and> \<not> ri_odd st)"
  "gb11 (update st p) = (if p_extpict p then 1
     else if p_gcb p = GCB_EXTEND \<and> (gb11 st = 1 \<or> gb11 st = 2) then 2
     else if p_gcb p = GCB_ZWJ \<and> (gb11 st = 1 \<or> gb11 st = 2) then 3 else 0)"
  "incb_seq (update st p) = (p_incb p = INCB_CONSONANT \<or> incb_seq st \<and> conj_ext p)"
  "incb_linker (update st p) = (p_incb p \<noteq> INCB_CONSONANT \<and> incb_seq st
     \<and> (p_incb p = INCB_LINKER \<or> p_incb p = INCB_EXTEND \<and> incb_linker st))"
  by (auto simp: update_def ucb_uc_grapheme_update_def Let_def conj_ext_def)

lemma scan_ri: "ri_odd (scan rpre) = odd (trailing_ri rpre)"
  by (induction rpre) (auto simp: zero_state_def trailing_ri_def update_fields)

lemma scan_gb11:
  assumes "list_all uc_row_ok rpre"
  shows "(gb11 (scan rpre) = 1 \<or> gb11 (scan rpre) = 2) = pict_extend rpre
    \<and> (gb11 (scan rpre) = 3) = gb11_ctx rpre"
  using assms
  by (induction rpre) (auto simp: zero_state_def pict_extend_def gb11_ctx_def update_fields
      ext_only_def uc_row_ok_def split: list.splits)

lemma scan_incb:
  "incb_seq (scan rpre) = conj_seq rpre \<and> incb_linker (scan rpre) = (conj_seq rpre \<and> conj_linker rpre)"
  by (induction rpre) (auto simp: zero_state_def conj_seq_def conj_linker_def update_fields
      conj_ext_def split: list.splits)

lemma trailing_ri_not: "p_gcb p \<noteq> GCB_REGIONAL_INDICATOR \<Longrightarrow> trailing_ri (p # r) = 0"
  by (simp add: trailing_ri_def)

lemma should_break_uax29:
  assumes "list_all uc_row_ok (p # r)"
  shows "should_break (scan (p # r)) p q = uax29_break (p # r) q"
proof -
  have g: "(gb11 (scan (p # r)) = 3) = gb11_ctx (p # r)" using scan_gb11 [OF assms] by blast
  note i = scan_incb [of "p # r", THEN conjunct1] scan_incb [of "p # r", THEN conjunct2]
  show ?thesis
    unfolding should_break_def ucb_uc_grapheme_should_break_def uax29_break_def list.case Let_def
      g i scan_ri
    by (cases "p_gcb p"; cases "p_gcb q"; simp add: trailing_ri_not)
qed

section \<open>The loops over a text\<close>

lemma prop_at_text:
  assumes "uc_tables_ok T" "text_at mem i len (c # cs)"
  shows "ucb_uc_prop_at T mem i = Ret (prop_of T c, i + length (utf8 c))" "uc_row_ok (prop_of T c)"
  using text_at_Cons(1,4) [OF assms(2)] ucb_uc_get_prop_scalar [OF assms(1)]
  by (simp_all add: ucb_uc_prop_at_def)

lemma clusters_from_nonempty [simp]: "clusters_from T rpre cur cs \<noteq> []"
  by (induction cs arbitrary: rpre cur) auto

lemma concat_clusters_from: "concat (clusters_from T rpre cur cs) = cur @ cs"
  by (induction cs arbitrary: rpre cur) auto

lemma concat_clusters [simp]: "concat (clusters T cps) = cps"
  by (cases cps) (simp_all add: concat_clusters_from)

lemma num_char_loop_text:
  assumes "uc_tables_ok T" "text_at mem i len cs" "list_all uc_row_ok (p # r)"
  shows "num_char_loop T mem len i (scan (p # r)) p num =
    Ret (num + length (clusters_from T (p # r) cur cs) - 1)"
  using assms(2,3)
proof (induction cs arbitrary: i p r num cur)
  case Nil
  then show ?case by (simp add: text_at_Nil num_char_loop.simps del: scan.simps)
next
  case (Cons c cs)
  note t = text_at_Cons [OF Cons.prems(1)] and q = prop_at_text [OF assms(1) Cons.prems(1)]
  have ok: "list_all uc_row_ok (prop_of T c # p # r)" using q(2) Cons.prems(2) by simp
  have "length (clusters_from T (prop_of T c # p # r) [c] cs) \<ge> 1" by (simp add: Suc_le_eq)
  then show ?case
    using Cons.IH [OF t(2) ok, of "num + 1" "[c]"] Cons.IH [OF t(2) ok, of num "cur @ [c]"] t(3) q(1)
      should_break_uax29 [OF Cons.prems(2)] scan.simps(2) [of "prop_of T c" "p # r"]
    by (subst num_char_loop.simps) (simp del: scan.simps)
qed

lemma char_index_loop_text:
  assumes "uc_tables_ok T" "text_at mem i len cs" "list_all uc_row_ok (p # r)" "num \<le> index"
    and "i = s + length (utf8s cur)"
  shows "char_index_loop T mem len index i (scan (p # r)) p num =
    Ret (s + length (utf8s (concat (take (Suc index - num) (clusters_from T (p # r) cur cs)))))"
  using assms(2-5)
proof (induction cs arbitrary: i p r num cur s)
  case Nil
  then show ?case by (simp add: text_at_Nil char_index_loop.simps Suc_diff_le del: scan.simps)
next
  case (Cons c cs)
  note t = text_at_Cons [OF Cons.prems(1)] and q = prop_at_text [OF assms(1) Cons.prems(1)]
  have ok: "list_all uc_row_ok (prop_of T c # p # r)" using q(2) Cons.prems(2) by simp
  have sc: "update (scan (p # r)) (prop_of T c) = scan (prop_of T c # p # r)" by simp
  show ?case
  proof (cases "uax29_break (p # r) (prop_of T c)")
    case True
    show ?thesis
    proof (cases "num = index")
      case True
      then show ?thesis using \<open>uax29_break (p # r) (prop_of T c)\<close> t(3) q(1) Cons.prems(4)
          should_break_uax29 [OF Cons.prems(2)]
        by (subst char_index_loop.simps) (simp del: scan.simps)
    next
      case False
      then have n: "num + 1 \<le> index" using Cons.prems(3) by simp
      have e: "i + length (utf8 c) = i + length (utf8s [c])" by simp
      have "Suc index - num = Suc (Suc index - (num + 1))" using n by simp
      then show ?thesis
        using Cons.IH [OF t(2) ok n e] True False t(3) q(1) Cons.prems(4)
          should_break_uax29 [OF Cons.prems(2)] sc
        by (subst char_index_loop.simps) (simp del: scan.simps)
    qed
  next
    case False
    have e: "i + length (utf8 c) = s + length (utf8s (cur @ [c]))" using Cons.prems(4) by simp
    show ?thesis
      using Cons.IH [OF t(2) ok Cons.prems(3) e] False t(3) q(1)
        should_break_uax29 [OF Cons.prems(2)] sc
      by (subst char_index_loop.simps) (simp del: scan.simps)
  qed
qed

lemma next_from_loop_text:
  assumes "uc_tables_ok T" "text_at mem i len cs" "list_all uc_row_ok (p # r)"
    and "i = s + length (utf8s cur)"
  shows "next_from_loop T mem len i (scan (p # r)) p =
    Ret (case clusters_from T (p # r) cur cs of
           c1 # c2 # _ \<Rightarrow> s + length (utf8s c1) | _ \<Rightarrow> UCB_NPOS)"
  using assms(2-4)
proof (induction cs arbitrary: i p r cur)
  case Nil
  then show ?case by (simp add: text_at_Nil next_from_loop.simps del: scan.simps)
next
  case (Cons c cs)
  note t = text_at_Cons [OF Cons.prems(1)] and q = prop_at_text [OF assms(1) Cons.prems(1)]
  have ok: "list_all uc_row_ok (prop_of T c # p # r)" using q(2) Cons.prems(2) by simp
  have sc: "update (scan (p # r)) (prop_of T c) = scan (prop_of T c # p # r)" by simp
  show ?case
  proof (cases "uax29_break (p # r) (prop_of T c)")
    case True
    obtain c2 rest where "clusters_from T (prop_of T c # p # r) [c] cs = c2 # rest"
      by (metis clusters_from_nonempty list.exhaust)
    then show ?thesis using True t(3) q(1) Cons.prems(3) should_break_uax29 [OF Cons.prems(2)]
      by (subst next_from_loop.simps) (simp del: scan.simps)
  next
    case False
    have e: "i + length (utf8 c) = s + length (utf8s (cur @ [c]))" using Cons.prems(3) by simp
    show ?thesis
      using Cons.IH [OF t(2) ok e] False t(3) q(1) should_break_uax29 [OF Cons.prems(2)] sc
      by (subst next_from_loop.simps) (simp del: scan.simps)
  qed
qed

section \<open>Scanning backwards\<close>

lemma lead_not_cont: "192 \<le> unat (b::byte) \<Longrightarrow> b AND 0xC0 \<noteq> 0x80"
  using div_le_mono [of 192 "unat b" 64] by (simp add: byte_cont)

lemma cont_byte: "unat (b::byte) = 128 + x mod 64 \<Longrightarrow> b AND 0xC0 = 0x80"
  by (simp add: byte_cont cont_div)

lemma utf8_lead_cont:
  assumes "is_scalar c"
  obtains b bs where "utf8 c = b # bs" "b AND 0xC0 \<noteq> 0x80" "list_all (\<lambda>x. x AND 0xC0 = 0x80) bs"
proof -
  consider "unat c < 128" | "128 \<le> unat c" "unat c < 2048" | "2048 \<le> unat c" "unat c < 65536"
    | "65536 \<le> unat c" "unat c \<le> 1114111" using assms by (fastforce simp: is_scalar_unat)
  then show thesis
  proof cases
    case 1
    then show ?thesis using utf8_1 [of c] that by (auto simp: byte_cont)
  next
    case 2
    then obtain b b1 where b: "utf8 c = [b, b1]" "unat b = 192 + unat c div 64"
      "unat b1 = 128 + unat c mod 64" using utf8_2 by blast
    have "b AND 0xC0 \<noteq> 0x80" "b1 AND 0xC0 = 0x80" using b by (simp_all add: lead_not_cont cont_byte)
    then show ?thesis using that b(1) by simp
  next
    case 3
    then obtain b b1 b2 where b: "utf8 c = [b, b1, b2]" "unat b = 224 + unat c div 4096"
      "unat b1 = 128 + unat c div 64 mod 64" "unat b2 = 128 + unat c mod 64" using utf8_3 by blast
    have "b AND 0xC0 \<noteq> 0x80" "b1 AND 0xC0 = 0x80" "b2 AND 0xC0 = 0x80"
      using b by (simp_all add: lead_not_cont cont_byte)
    then show ?thesis using that b(1) by simp
  next
    case 4
    then obtain b b1 b2 b3 where b: "utf8 c = [b, b1, b2, b3]" "unat b = 240 + unat c div 262144"
      "unat b1 = 128 + unat c div 4096 mod 64" "unat b2 = 128 + unat c div 64 mod 64"
      "unat b3 = 128 + unat c mod 64" using utf8_4 by blast
    have "b AND 0xC0 \<noteq> 0x80" "b1 AND 0xC0 = 0x80" "b2 AND 0xC0 = 0x80" "b3 AND 0xC0 = 0x80"
      using b by (simp_all add: lead_not_cont cont_byte)
    then show ?thesis using that b(1) by simp
  qed
qed

lemma prev_start_loop_eq:
  assumes "q \<le> p" "\<And>k. q < k \<Longrightarrow> k \<le> p \<Longrightarrow> mem ! k AND 0xC0 = 0x80" "q = 0 \<or> mem ! q AND 0xC0 \<noteq> 0x80"
  shows "prev_start_loop mem p = q"
  using assms
proof (induction mem p rule: prev_start_loop.induct)
  case (2 mem p)
  show ?case
  proof (cases "q = Suc p")
    case False
    then have "q \<le> p" using "2.prems"(1) by simp
    then show ?thesis using 2 by simp
  qed (use 2 in auto)
qed simp

lemma prev_start_text:
  assumes "text_at mem 0 pos (pre @ [c])"
  shows "ucb_uc_prev_start mem pos = length (utf8s pre)"
proof -
  let ?q = "length (utf8s pre)"
  have t: "take pos mem = utf8s pre @ utf8 c" and s: "is_scalar c" using assms by (auto simp: text_at_def)
  have pos: "pos = ?q + length (utf8 c)" using text_at_length [OF assms] by simp
  have nth: "mem ! (?q + j) = utf8 c ! j" if "j < length (utf8 c)" for j
    using arg_cong [OF t, of "\<lambda>xs. xs ! (?q + j)"] that pos by (simp add: nth_append)
  obtain b bs where u: "utf8 c = b # bs" "b AND 0xC0 \<noteq> 0x80" "list_all (\<lambda>x. x AND 0xC0 = 0x80) bs"
    using utf8_lead_cont [OF s] .
  have "mem ! k AND 0xC0 = 0x80" if k: "?q < k" "k \<le> pos - 1" for k
  proof -
    obtain j where j: "k = ?q + Suc j" using k(1) less_iff_Suc_add by auto
    have "j < length bs" using k(2) pos u(1) j by simp
    then show ?thesis using nth [of "Suc j"] u(1,3) j by (simp add: list_all_length)
  qed
  moreover have "mem ! ?q AND 0xC0 \<noteq> 0x80" using nth [of 0] u(1,2) by simp
  ultimately show ?thesis using pos u(1) unfolding ucb_uc_prev_start_def
    by (intro prev_start_loop_eq) auto
qed

text \<open>One step back over a text that ends at \<open>p\<close>.\<close>

lemma step_back:
  assumes "uc_tables_ok T" "text_at mem 0 p (rev (c # rcps))"
  defines "q \<equiv> ucb_uc_prev_start mem p"
  shows "p > 0" "text_at mem 0 q (rev rcps)" "\<exists>e. ucb_uc_prop_at T mem q = Ret (prop_of T c, e)"
    "uc_row_ok (prop_of T c)"
proof -
  have t: "text_at mem 0 p (rev rcps @ [c])" using assms(2) by simp
  have q: "q = length (utf8s (rev rcps))" unfolding q_def by (rule prev_start_text [OF t])
  show "text_at mem 0 q (rev rcps)" using text_at_prefix [OF t] q by simp
  have l: "text_at mem q p [c]" using text_at_append [OF t] q by simp
  show "\<exists>e. ucb_uc_prop_at T mem q = Ret (prop_of T c, e)" "uc_row_ok (prop_of T c)"
    using prop_at_text [OF assms(1) l] by auto
  show "p > 0" using text_at_Cons(3) [OF l] by simp
qed

lemma ri_loop_text:
  assumes "uc_tables_ok T" "text_at mem 0 p (rev rcps)"
  shows "ri_loop T mem p od = Ret (od \<noteq> odd (trailing_ri (map (prop_of T) rcps)))"
  using assms(2)
proof (induction rcps arbitrary: p od)
  case Nil
  then show ?case by (simp add: text_at_Nil ri_loop.simps trailing_ri_def)
next
  case (Cons c rcps)
  note b = step_back [OF assms(1) Cons.prems]
  show ?case using Cons.IH [OF b(2)] b(1,3) by (subst ri_loop.simps) (auto simp: trailing_ri_def)
qed

lemma gb11_loop_text:
  assumes "uc_tables_ok T" "text_at mem 0 p (rev rcps)"
  shows "gb11_loop T mem p = Ret (pict_extend (map (prop_of T) rcps))"
  using assms(2)
proof (induction rcps arbitrary: p)
  case Nil
  then show ?case by (simp add: text_at_Nil gb11_loop.simps pict_extend_def)
next
  case (Cons c rcps)
  note b = step_back [OF assms(1) Cons.prems]
  show ?case using Cons.IH [OF b(2)] b(1,3)
    by (subst gb11_loop.simps) (auto simp: pict_extend_def ext_only_def)
qed

lemma incb_loop_text:
  assumes "uc_tables_ok T" "text_at mem 0 p (rev rcps)"
  shows "incb_loop T mem p linker =
    Ret (if conj_seq (map (prop_of T) rcps) then Some (linker \<or> conj_linker (map (prop_of T) rcps)) else None)"
  using assms(2)
proof (induction rcps arbitrary: p linker)
  case Nil
  then show ?case by (simp add: text_at_Nil incb_loop.simps conj_seq_def)
next
  case (Cons c rcps)
  note b = step_back [OF assms(1) Cons.prems]
  show ?case using Cons.IH [OF b(2)] b(1,3)
    by (subst incb_loop.simps) (auto simp: conj_seq_def conj_linker_def conj_ext_def)
qed

lemma state_at_text:
  assumes "uc_tables_ok T" "text_at mem 0 p (rev rcps)"
  shows "ucb_uc_grapheme_state_at T mem p =
    Ret ((scan (map (prop_of T) rcps))\<lparr>gb11 := if gb11_ctx (map (prop_of T) rcps) then 3 else 0\<rparr>)"
proof (cases rcps)
  case Nil
  then show ?thesis using assms(2)
    by (simp add: text_at_Nil ucb_uc_grapheme_state_at_def zero_state_def gb11_ctx_def)
next
  case (Cons c r)
  let ?ps = "map (prop_of T) rcps"
  note b = step_back [OF assms(1), of mem p c r, folded Cons, OF assms(2)]
  obtain e where e: "ucb_uc_prop_at T mem (ucb_uc_prev_start mem p) = Ret (prop_of T c, e)" using b(3) by blast
  have z: "(if p_gcb (prop_of T c) = GCB_ZWJ then gb11_loop T mem (ucb_uc_prev_start mem p) else Ret False)
      = Ret (gb11_ctx ?ps)"
    using gb11_loop_text [OF assms(1) b(2)] Cons by (simp add: gb11_ctx_def)
  have "ucb_uc_grapheme_state_at T mem p = Ret \<lparr>ri_odd = odd (trailing_ri ?ps),
      gb11 = (if gb11_ctx ?ps then 3 else 0), incb_seq = conj_seq ?ps,
      incb_linker = (conj_seq ?ps \<and> conj_linker ?ps)\<rparr>"
    using ri_loop_text [OF assms, of False] incb_loop_text [OF assms, of False] e z b(1)
    by (simp add: ucb_uc_grapheme_state_at_def)
  also have "\<dots> = Ret ((scan ?ps)\<lparr>gb11 := if gb11_ctx ?ps then 3 else 0\<rparr>)"
    using scan_ri [of ?ps] scan_incb [of ?ps] by (cases "scan ?ps") simp
  finally show ?thesis .
qed

text \<open>
  At a boundary the reconstructed state and the scanned one agree after the next character:
  the two differ only inside an unfinished ExtPict Extend* sequence, which no boundary splits.
\<close>

lemma boundary_update:
  assumes "list_all uc_row_ok (p # r)" "uc_row_ok q" "uax29_break (p # r) q"
  shows "update ((scan (p # r))\<lparr>gb11 := if gb11_ctx (p # r) then 3 else 0\<rparr>) q = scan (q # p # r)"
proof -
  let ?s = "scan (p # r)"
  have g: "(gb11 ?s = 1 \<or> gb11 ?s = 2) = pict_extend (p # r)" using scan_gb11 [OF assms(1)] by blast
  have "\<not> pict_extend (p # r)" if "p_gcb q = GCB_EXTEND \<or> p_gcb q = GCB_ZWJ"
  proof -
    have "p_gcb p = GCB_CONTROL \<or> p_gcb p = GCB_CR \<or> p_gcb p = GCB_LF"
      using assms(3) that by (auto simp: uax29_break_def Let_def split: if_splits)
    then show ?thesis using assms(1) by (auto simp: pict_extend_def ext_only_def uc_row_ok_def)
  qed
  then have "gb11 (update (?s\<lparr>gb11 := if gb11_ctx (p # r) then 3 else 0\<rparr>) q) = gb11 (update ?s q)"
    using g by (auto simp: update_fields simp del: scan.simps)
  then show ?thesis unfolding scan.simps(2) [of q "p # r"]
    by (intro grapheme_state.equality) (simp_all add: update_fields del: scan.simps)
qed

section \<open>Properties\<close>

lemma clusters_from_split:
  assumes "1 \<le> k" "k < length (clusters_from T rpre cur cs)"
  shows "\<exists>ds c cs'. cs = ds @ c # cs' \<and> concat (take k (clusters_from T rpre cur cs)) = cur @ ds
    \<and> drop k (clusters_from T rpre cur cs)
        = clusters_from T (prop_of T c # rev (map (prop_of T) ds) @ rpre) [c] cs'
    \<and> uax29_break (rev (map (prop_of T) ds) @ rpre) (prop_of T c)"
  using assms
proof (induction cs arbitrary: rpre cur k)
  case (Cons c0 cs)
  let ?r = "prop_of T c0 # rpre"
  show ?case
  proof (cases "uax29_break rpre (prop_of T c0)")
    case br: True
    show ?thesis
    proof (cases "k = 1")
      case True
      then show ?thesis using br by (intro exI [of _ "[]"] exI [of _ c0] exI [of _ cs]) simp
    next
      case False
      then obtain j where j: "k = Suc j" "1 \<le> j" using Cons.prems(1) by (cases k) auto
      have "j < length (clusters_from T ?r [c0] cs)" using Cons.prems(2) br j(1) by simp
      from Cons.IH [OF j(2) this] obtain ds c cs' where
        "cs = ds @ c # cs'" "concat (take j (clusters_from T ?r [c0] cs)) = [c0] @ ds"
        "drop j (clusters_from T ?r [c0] cs) = clusters_from T (prop_of T c # rev (map (prop_of T) ds) @ ?r) [c] cs'"
        "uax29_break (rev (map (prop_of T) ds) @ ?r) (prop_of T c)" by blast
      then show ?thesis using br j(1) by (intro exI [of _ "c0 # ds"] exI [of _ c] exI [of _ cs']) simp
    qed
  next
    case nb: False
    then have "k < length (clusters_from T ?r (cur @ [c0]) cs)" using Cons.prems(2) by simp
    from Cons.IH [OF Cons.prems(1) this] obtain ds c cs' where
      "cs = ds @ c # cs'" "concat (take k (clusters_from T ?r (cur @ [c0]) cs)) = (cur @ [c0]) @ ds"
      "drop k (clusters_from T ?r (cur @ [c0]) cs) = clusters_from T (prop_of T c # rev (map (prop_of T) ds) @ ?r) [c] cs'"
      "uax29_break (rev (map (prop_of T) ds) @ ?r) (prop_of T c)" by blast
    then show ?thesis using nb by (intro exI [of _ "c0 # ds"] exI [of _ c] exI [of _ cs']) simp
  qed
qed simp

lemma clusters_split:
  assumes "k < length (clusters T cps)"
  defines "pre \<equiv> concat (take k (clusters T cps))"
  obtains c cs where "cps = pre @ c # cs"
    "drop k (clusters T cps) = clusters_from T (prop_of T c # rev (map (prop_of T) pre)) [c] cs"
    "pre \<noteq> [] \<Longrightarrow> uax29_break (rev (map (prop_of T) pre)) (prop_of T c)"
proof (cases cps)
  case Nil
  then show ?thesis using assms(1) by simp
next
  case (Cons c0 cs0)
  show ?thesis
  proof (cases "k = 0")
    case True
    then show ?thesis using that [of c0 cs0] Cons by (simp add: pre_def)
  next
    case False
    then have "1 \<le> k" by simp
    from clusters_from_split [OF this, of T "[prop_of T c0]" "[c0]" cs0] assms(1) Cons
    obtain ds c cs where "cs0 = ds @ c # cs" "pre = [c0] @ ds"
      "drop k (clusters T cps) = clusters_from T (prop_of T c # rev (map (prop_of T) ds) @ [prop_of T c0]) [c] cs"
      "uax29_break (rev (map (prop_of T) ds) @ [prop_of T c0]) (prop_of T c)" by (auto simp: pre_def)
    then show ?thesis using that [of c cs] Cons by simp
  qed
qed

lemma num_char_text:
  assumes "uc_tables_ok T" "list_all is_scalar cps" "length (utf8s cps) \<noteq> UCB_NPOS"
  shows "ucb_uc_num_char T (Some (utf8s cps @ rest)) (length (utf8s cps)) = Ret (length (clusters T cps))"
proof (cases cps)
  case Nil
  then show ?thesis using assms(3) by (simp add: ucb_uc_num_char_def)
next
  case (Cons c cs)
  have t: "text_at (utf8s cps @ rest) 0 (length (utf8s cps)) (c # cs)"
    using text_at_whole [OF assms(2)] Cons by simp
  note q = prop_at_text [OF assms(1) t] and n = text_at_Cons(2,3) [OF t]
  have ok: "list_all uc_row_ok [prop_of T c]" using q(2) by simp
  show ?thesis using num_char_loop_text [OF assms(1) n(1) ok, of 1 "[c]"] q(1) n(2) assms(3) Cons
    by (simp add: ucb_uc_num_char_def)
qed

text \<open>
  C6: On the UTF-8 encoding of any scalar values \<^verbatim>\<open>ucb_uc_num_char\<close> returns the number of extended
  grapheme clusters of Unicode Annex 29, for any tables that cover the scalar values.
\<close>

theorem ucb_uc_num_char_clusters:
  assumes "uc_tables_ok T" "list_all is_scalar cps" "length (utf8s cps) \<noteq> UCB_NPOS"
  shows "ucb_uc_num_char T (Some (utf8s cps @ rest)) (length (utf8s cps)) = Ret (length (clusters T cps))"
  by (rule num_char_text [OF assms])

lemma char_index_text:
  assumes "uc_tables_ok T" "list_all is_scalar cps" "1 \<le> index"
  shows "ucb_uc_char_index T (Some (utf8s cps @ rest)) (length (utf8s cps)) index =
    Ret (length (utf8s (concat (take index (clusters T cps)))))"
proof (cases cps)
  case Nil
  then show ?thesis by (simp add: ucb_uc_char_index_def)
next
  case (Cons c cs)
  have t: "text_at (utf8s cps @ rest) 0 (length (utf8s cps)) (c # cs)"
    using text_at_whole [OF assms(2)] Cons by simp
  note q = prop_at_text [OF assms(1) t] and n = text_at_Cons(2,3) [OF t]
  have ok: "list_all uc_row_ok [prop_of T c]" using q(2) by simp
  have e: "0 + length (utf8 c) = 0 + length (utf8s [c])" by simp
  show ?thesis using char_index_loop_text [OF assms(1) n(1) ok assms(3) e] q(1) n(2) assms(3) Cons
    by (simp add: ucb_uc_char_index_def)
qed

text \<open>
  For an index of at least 1 \<^verbatim>\<open>ucb_uc_char_index\<close> is the byte offset just past that many
  grapheme clusters (the end of the text when there are fewer).
\<close>

theorem ucb_uc_char_index_clusters:
  assumes "uc_tables_ok T" "list_all is_scalar cps" "1 \<le> index"
  shows "ucb_uc_char_index T (Some (utf8s cps @ rest)) (length (utf8s cps)) index =
    Ret (length (utf8s (concat (take index (clusters T cps)))))"
  by (rule char_index_text [OF assms])

text \<open>
  C2: From the start of any grapheme cluster \<^verbatim>\<open>ucb_uc_next_char\<close> returns the start of the next one,
  or \<open>UCB_NPOS\<close> from the last: the state it reconstructs by scanning backwards gives the same
  boundaries as a scan from the start of the text.
\<close>

theorem ucb_uc_next_char_clusters:
  assumes T: "uc_tables_ok T" and s: "list_all is_scalar cps" and k: "k < length (clusters T cps)"
  shows "ucb_uc_next_char T (utf8s cps @ rest) (length (utf8s cps))
      (length (utf8s (concat (take k (clusters T cps))))) =
    Ret (if Suc k < length (clusters T cps)
         then length (utf8s (concat (take (Suc k) (clusters T cps)))) else UCB_NPOS)"
proof -
  let ?mem = "utf8s cps @ rest" and ?len = "length (utf8s cps)"
  define pre where "pre = concat (take k (clusters T cps))"
  define fr where "fr = length (utf8s pre)"
  obtain c cs where sp: "cps = pre @ c # cs"
    "drop k (clusters T cps) = clusters_from T (prop_of T c # rev (map (prop_of T) pre)) [c] cs"
    "pre \<noteq> [] \<Longrightarrow> uax29_break (rev (map (prop_of T) pre)) (prop_of T c)"
    using clusters_split [OF k, folded pre_def] by metis
  let ?r = "rev (map (prop_of T) pre)" and ?p = "prop_of T c"
  have w: "text_at ?mem 0 ?len (pre @ c # cs)" using text_at_whole [OF s, of rest] sp(1) by simp
  have t: "text_at ?mem fr ?len (c # cs)" using text_at_append [OF w] by (simp add: fr_def)
  have tp: "text_at ?mem 0 fr (rev (rev pre))" using text_at_prefix [OF w] by (simp add: fr_def)
  note q = prop_at_text [OF T t] and n = text_at_Cons(2,3) [OF t]
  have rows: "list_all uc_row_ok ?r"
    using s sp(1) ucb_uc_get_prop_scalar [OF T] by (auto simp: list_all_iff)
  have st: "ucb_uc_grapheme_state_at T ?mem fr = Ret ((scan ?r)\<lparr>gb11 := if gb11_ctx ?r then 3 else 0\<rparr>)"
    using state_at_text [OF T tp] by (simp add: rev_map)
  have up: "update ((scan ?r)\<lparr>gb11 := if gb11_ctx ?r then 3 else 0\<rparr>) ?p = scan (?p # ?r)"
  proof (cases ?r)
    case Nil
    then show ?thesis by (simp add: zero_state_def gb11_ctx_def)
  next
    case (Cons p r)
    then have "pre \<noteq> []" by auto
    then show ?thesis using boundary_update [of p r ?p] rows q(2) sp(3) Cons by simp
  qed
  have "ucb_uc_next_char T ?mem ?len fr = next_from_loop T ?mem ?len (fr + length (utf8 c)) (scan (?p # ?r)) ?p"
    using n(2) st q(1) up by (simp add: ucb_uc_next_char_def ucb_uc_grapheme_next_from_def)
  also have "\<dots> = Ret (case drop k (clusters T cps) of c1 # c2 # _ \<Rightarrow> fr + length (utf8s c1) | _ \<Rightarrow> UCB_NPOS)"
    using next_from_loop_text [OF T n(1), of ?p ?r fr "[c]"] rows q(2) sp(2) by simp
  also have "\<dots> = Ret (if Suc k < length (clusters T cps)
         then length (utf8s (concat (take (Suc k) (clusters T cps)))) else UCB_NPOS)"
  proof -
    have d: "drop k (clusters T cps) = clusters T cps ! k # drop (Suc k) (clusters T cps)"
      using k by (simp add: Cons_nth_drop_Suc)
    have "fr + length (utf8s (clusters T cps ! k)) = length (utf8s (concat (take (Suc k) (clusters T cps))))"
      using k by (simp add: fr_def pre_def take_Suc_conv_app_nth)
    then show ?thesis using k
      by (auto simp: d split: list.split)
  qed
  finally show ?thesis unfolding fr_def pre_def .
qed

text \<open>A text of four regional indicators, and a table that gives every character that property.\<close>

definition ri_row :: uc_prop where
  "ri_row = \<lparr>p_compexcl = False, p_compmaybe = False, p_nfkcno = False, p_gcb = GCB_REGIONAL_INDICATOR, p_incb = INCB_NONE, p_extpict = False, p_category = GC_SO,
     p_ccc = 0, p_mapping_idx = 0, p_decomp_idx = 0, p_combiner_idx = 0\<rparr>"

definition flags :: "ucb_cp list" where
  "flags = [0x1F1F8, 0x1F1EA, 0x1F1F8]"

lemma flags_scalar: "list_all is_scalar flags" "is_scalar 0x1F1F8" "is_scalar 0x1F1EA"
  by (simp_all add: flags_def is_scalar_def)

lemma flags_length: "length (utf8s flags) = 12" "length (utf8s [0x1F1F8, 0x1F1EA]) = 8"
  by (simp_all add: flags_def utf8_def)

lemma flags_tables: "uc_tables_ok (one_row_tables ri_row)"
  by (rule one_row_tables_ok) (simp add: uc_row_ok_def ri_row_def)

lemma flags_clusters:
  "clusters (one_row_tables ri_row) flags = [[0x1F1F8, 0x1F1EA], [0x1F1F8]]"
proof -
  note p = one_row_prop_of [OF flags_scalar(2), of ri_row] one_row_prop_of [OF flags_scalar(3), of ri_row]
  have b: "uax29_break [ri_row] ri_row = False" "uax29_break [ri_row, ri_row] ri_row = True"
    by (simp_all add: uax29_break_def ri_row_def trailing_ri_def conj_seq_def conj_ext_def gb11_ctx_def)
  show ?thesis unfolding flags_def clusters.simps clusters_from.simps p b by simp
qed

theorem ucb_uc_num_char_clusters_witness:
  "ucb_uc_num_char (one_row_tables ri_row) (Some (utf8s flags @ [0])) 12 = Ret 2"
  using ucb_uc_num_char_clusters [OF flags_tables flags_scalar(1), of "[0]"]
  unfolding flags_length flags_clusters by (simp add: UCB_NPOS_eq)

theorem ucb_uc_char_index_clusters_witness:
  "ucb_uc_char_index (one_row_tables ri_row) (Some (utf8s flags @ [0])) 12 1 = Ret 8"
  using ucb_uc_char_index_clusters [OF flags_tables flags_scalar(1), of 1 "[0]"]
  unfolding flags_length flags_clusters by (simp add: flags_length del: utf8s_simps)

theorem ucb_uc_next_char_clusters_witness:
  "ucb_uc_next_char (one_row_tables ri_row) (utf8s flags @ [0]) 12 0 = Ret 8"
  using ucb_uc_next_char_clusters [OF flags_tables flags_scalar(1), of 0 "[0]"]
  unfolding flags_length flags_clusters by (simp add: flags_length utf8s_def [of "[]"] del: utf8s_simps)

end
