(* ===== verification/Ucb_Str.thy ===== *)
theory Ucb_Str
  imports Utf8_Encode Grapheme "HOL-Library.List_Lexorder"
begin

text \<open>
  The owned UTF-8 string of \<^verbatim>\<open>src/ucb/string.c\<close>.  A string is either owned (a heap block of
  \<open>alloc\<close> bytes) or the interned empty string (the shared literal, \<open>alloc = 0\<close>).  The block is
  explicit, so that a null, freed or too short block is visible; a source pointer that lies
  inside the string's own block (\<open>COwn\<close>) is distinguished from every other one (\<open>CExt\<close>), as
  \<^verbatim>\<open>ucb_str_aliases\<close> does.  The memory tracker is off (\<^verbatim>\<open>UCB_MEMTRACK_IS_ENABLED()\<close> is false).
\<close>

section \<open>State\<close>

datatype cblock = BNull | BDangling | BMem "byte list"

record ucb_str =
  s_blk :: cblock
  s_size :: nat
  s_alloc :: nat

datatype cptr = CNull | CExt "byte list" | COwn nat

text \<open>The interned empty string, and a zeroed structure.\<close>

definition str_empty :: ucb_str where
  "str_empty = \<lparr>s_blk = BMem [0], s_size = 0, s_alloc = 0\<rparr>"

definition str_zero :: ucb_str where
  "str_zero = \<lparr>s_blk = BNull, s_size = 0, s_alloc = 0\<rparr>"

definition mem_of :: "ucb_str \<Rightarrow> byte list result" where
  "mem_of s = (case s_blk s of BMem m \<Rightarrow> Ret m | _ \<Rightarrow> Undef)"

text \<open>The readable memory from a pointer.\<close>

definition deref :: "ucb_str \<Rightarrow> cptr \<Rightarrow> byte list result" where
  "deref s p =
     (case p of
        CNull \<Rightarrow> Undef
      | CExt mem \<Rightarrow> Ret mem
      | COwn off \<Rightarrow> rbind (mem_of s) (\<lambda>m. if off \<le> length m then Ret (drop off m) else Undef))"

definition ucb_str_aliases :: "ucb_str \<Rightarrow> cptr \<Rightarrow> bool" where
  "ucb_str_aliases s p = (s_alloc s > 0 \<and> (case p of COwn off \<Rightarrow> off < s_alloc s | _ \<Rightarrow> False))"

section \<open>Checks\<close>

definition ucb_str_contains_nul :: "byte list \<Rightarrow> nat \<Rightarrow> bool result" where
  "ucb_str_contains_nul mem len =
     (if len = 0 then Ret False else rbind (mem_read mem len) (\<lambda>bs. Ret (0 \<in> set bs)))"

datatype ucb_str_cstr_error = CSTR_OK | CSTR_EMBEDDED_NUL | CSTR_INVALID_UTF8

definition ucb_str_cstr_validate :: "byte list option \<Rightarrow> nat \<Rightarrow> ucb_str_cstr_error result" where
  "ucb_str_cstr_validate cstr len =
     (case cstr of
        None \<Rightarrow> Ret CSTR_OK
      | Some mem \<Rightarrow>
          rbind (if len = 0 then c_strlen mem else Ret len) (\<lambda>n.
          rbind (if len = 0 then Ret False else ucb_str_contains_nul mem len) (\<lambda>has_nul.
          if has_nul then Ret CSTR_EMBEDDED_NUL
          else rbind (ucb_uc_validate mem n) (\<lambda>err.
            Ret (if err \<noteq> None then CSTR_INVALID_UTF8 else CSTR_OK)))))"

definition ucb_str_verify_cstr :: "byte list option \<Rightarrow> nat \<Rightarrow> unit result" where
  "ucb_str_verify_cstr cstr len =
     rbind (ucb_str_cstr_validate cstr len) (\<lambda>etype.
     verify (etype = CSTR_OK) UCB_ERROR_INVALID_ARG (Ret ()))"

text \<open>The returned bool and \<^verbatim>\<open>*etype\<close>.\<close>

definition ucb_str_is_valid :: "byte list option \<Rightarrow> nat \<Rightarrow> (bool \<times> ucb_str_cstr_error) result" where
  "ucb_str_is_valid cstr len =
     rbind (ucb_str_cstr_validate cstr len) (\<lambda>etype. Ret (etype = CSTR_OK, etype))"

text \<open>\<open>Inl oob\<close> is the return value false.\<close>

definition ucb_str_map_char_pos :: "uc_tables \<Rightarrow> ucb_str \<Rightarrow> nat \<Rightarrow> (bool + nat) result" where
  "ucb_str_map_char_pos T s index =
     rbind (mem_of s) (\<lambda>m.
     rbind (ucb_uc_validate m (s_size s)) (\<lambda>err.
     if err \<noteq> None then Ret (Inl False)
     else rbind (ucb_uc_num_char T (Some m) (s_size s)) (\<lambda>num.
       if index > num then Ret (Inl True)
       else if index = 0 then Ret (Inr 0)
       else rbind (ucb_uc_char_index T (Some m) (s_size s) index) (\<lambda>pos. Ret (Inr pos)))))"

section \<open>Construction and destruction\<close>

text \<open>\<open>s\<close> is the structure before the call, whose fields a failed allocation leaves in place.\<close>

definition ucb_str_init_common :: "mem_env \<Rightarrow> ucb_str \<Rightarrow> byte list option \<Rightarrow> nat \<Rightarrow> (bool \<times> ucb_str) result" where
  "ucb_str_init_common me s cstr len =
     (case cstr of
        None \<Rightarrow> Ret (True, str_empty)
      | Some mem \<Rightarrow>
          rbind (if len = 0 then c_strlen mem else Ret len) (\<lambda>len.
          rbind (ucb_str_verify_cstr (Some mem) len) (\<lambda>_.
          rbind (ucb_malloc me (usize (len + 1))) (\<lambda>ok.
          if ok then
            rbind (mem_read mem len) (\<lambda>bs.
            rbind (mem_put 0 (bs @ [0]) (new_block me (usize (len + 1)))) (\<lambda>blk.
            Ret (True, \<lparr>s_blk = BMem blk, s_size = len, s_alloc = usize (len + 1)\<rparr>)))
          else Ret (False, s\<lparr>s_blk := BNull\<rparr>)))))"

definition sizeof_ucb_str :: nat where
  "sizeof_ucb_str = 24"

definition ucb_str_new :: "mem_env \<Rightarrow> byte list option \<Rightarrow> nat \<Rightarrow> ucb_str option result" where
  "ucb_str_new me cstr len =
     rbind (ucb_malloc me sizeof_ucb_str) (\<lambda>ok.
     if \<not> ok then Ret None
     else rbind (ucb_str_init_common me str_zero cstr len) (\<lambda>(ok, s). Ret (if ok then Some s else None)))"

definition ucb_str_init :: "mem_env \<Rightarrow> ucb_str \<Rightarrow> byte list option \<Rightarrow> nat \<Rightarrow> (bool \<times> ucb_str) result" where
  "ucb_str_init me s cstr len = ucb_str_init_common me s cstr len"

definition ucb_str_clone :: "mem_env \<Rightarrow> ucb_str \<Rightarrow> ucb_str option result" where
  "ucb_str_clone me src = rbind (mem_of src) (\<lambda>m. ucb_str_new me (Some m) (s_size src))"

text \<open>Freeing the block of an owned string; freeing it twice is undefined.\<close>

definition ucb_str_release_common :: "ucb_str \<Rightarrow> ucb_str result" where
  "ucb_str_release_common s =
     (if s_alloc s > 0 then
        (case s_blk s of BNull \<Rightarrow> Ret s | BDangling \<Rightarrow> Undef | BMem _ \<Rightarrow> Ret (s\<lparr>s_blk := BDangling\<rparr>))
      else Ret s)"

definition ucb_str_release :: "ucb_str \<Rightarrow> ucb_str result" where
  "ucb_str_release s = rbind (ucb_str_release_common s) (\<lambda>_. Ret str_zero)"

definition ucb_str_free :: "ucb_str option \<Rightarrow> unit result" where
  "ucb_str_free str =
     (case str of
        None \<Rightarrow> Abort UCB_ERROR_INVALID_ARG
      | Some s \<Rightarrow> rbind (ucb_str_release_common s) (\<lambda>_. Ret ()))"

section \<open>Assignment and capacity\<close>

text \<open>A string argument is the string itself or another one.\<close>

datatype str_arg = SelfArg | OtherArg ucb_str

definition arg_str :: "ucb_str \<Rightarrow> str_arg \<Rightarrow> ucb_str" where
  "arg_str s a = (case a of SelfArg \<Rightarrow> s | OtherArg t \<Rightarrow> t)"

definition arg_ptr :: "str_arg \<Rightarrow> cptr result" where
  "arg_ptr a = (case a of SelfArg \<Rightarrow> Ret (COwn 0) | OtherArg t \<Rightarrow> rbind (mem_of t) (\<lambda>m. Ret (CExt m)))"

definition ucb_str_copy :: "mem_env \<Rightarrow> ucb_str \<Rightarrow> str_arg \<Rightarrow> (bool \<times> ucb_str) result" where
  "ucb_str_copy me dst src =
     (case src of
        SelfArg \<Rightarrow> Ret (True, dst)
      | OtherArg t \<Rightarrow>
          rbind (ucb_str_release_common dst) (\<lambda>dst.
          rbind (mem_of t) (\<lambda>m. ucb_str_init_common me dst (Some m) (s_size t))))"

definition ucb_str_assign :: "mem_env \<Rightarrow> ucb_str \<Rightarrow> cptr \<Rightarrow> nat \<Rightarrow> (bool \<times> ucb_str) result" where
  "ucb_str_assign me s cstr len =
     (if ucb_str_aliases s cstr then
        rbind (deref s cstr) (\<lambda>mem.
        rbind (if len \<noteq> 0 then Ret len else c_strlen mem) (\<lambda>real_len.
        if real_len \<noteq> 0 then
          rbind (ucb_malloc me real_len) (\<lambda>ok.
          if \<not> ok then Ret (False, s)
          else rbind (mem_read mem real_len) (\<lambda>tmp.
            rbind (ucb_str_release_common s) (\<lambda>s.
            ucb_str_init_common me s (Some tmp) real_len)))
        else rbind (ucb_str_release_common s) (\<lambda>s. ucb_str_init_common me s None real_len)))
      else
        rbind (case cstr of CNull \<Rightarrow> Ret None | p \<Rightarrow> rbind (deref s p) (\<lambda>m. Ret (Some m))) (\<lambda>mem.
        rbind (ucb_str_release_common s) (\<lambda>s. ucb_str_init_common me s mem len)))"

definition ucb_str_fit :: "mem_env \<Rightarrow> ucb_str \<Rightarrow> (bool \<times> ucb_str) result" where
  "ucb_str_fit me s =
     (if s_alloc s > 0 then
        verify (s_size s \<le> s_alloc s) UCB_ERROR_INVALID_STATE
          (if s_alloc s > s_size s + 1 then
             rbind (mem_of s) (\<lambda>m.
             rbind (ucb_realloc me True (s_size s + 1)) (\<lambda>r.
             if r = Moved then
               rbind (mem_put (s_size s) [0] (resize_block me m (s_size s + 1))) (\<lambda>blk.
               Ret (True, s\<lparr>s_blk := BMem blk, s_alloc := s_size s + 1\<rparr>))
             else Ret (False, s\<lparr>s_blk := BDangling\<rparr>)))
           else Ret (False, s))
      else Ret (False, s))"

definition ucb_str_reserve :: "mem_env \<Rightarrow> ucb_str \<Rightarrow> nat \<Rightarrow> (bool \<times> ucb_str) result" where
  "ucb_str_reserve me s sz =
     (if s_alloc s > 0 then
        (if sz = 0 then Ret (True, s)
         else verify (s_size s \<le> s_alloc s) UCB_ERROR_INVALID_STATE
           (let new_size = usize (sz + s_size s + 1) in
            if s_alloc s < new_size then
              rbind (mem_of s) (\<lambda>m.
              rbind (ucb_realloc me True new_size) (\<lambda>r.
              if r = Moved then
                rbind (mem_put (s_size s) [0] (resize_block me m new_size)) (\<lambda>blk.
                Ret (True, s\<lparr>s_blk := BMem blk, s_alloc := new_size\<rparr>))
              else Ret (False, s\<lparr>s_blk := BDangling\<rparr>)))
            else Ret (False, s)))
      else
        rbind (ucb_malloc me (usize (s_size s + sz + 1))) (\<lambda>ok.
        if ok then
          rbind (mem_of s) (\<lambda>m.
          rbind (mem_read m (s_size s)) (\<lambda>bs.
          rbind (mem_put 0 (bs @ [0]) (new_block me (usize (s_size s + sz + 1)))) (\<lambda>blk.
          Ret (True, s\<lparr>s_blk := BMem blk, s_alloc := usize (s_size s + sz + 1)\<rparr>))))
        else Ret (False, s)))"

text \<open>The adopted block is \<open>mem\<close>; it belongs to the string afterwards.\<close>

definition ucb_str_adopt :: "ucb_str \<Rightarrow> byte list \<Rightarrow> nat \<Rightarrow> nat \<Rightarrow> ucb_str result" where
  "ucb_str_adopt s mem len alloc =
     rbind (if len = 0 then c_strlen mem else Ret len) (\<lambda>len.
     rbind (ucb_str_verify_cstr (Some mem) len) (\<lambda>_.
     verify (alloc \<ge> usize (len + 1)) UCB_ERROR_INVALID_ARG (
     if len < length mem then
       verify (mem ! len = 0) UCB_ERROR_INVALID_ARG (
       rbind (ucb_str_release_common s) (\<lambda>_.
       Ret \<lparr>s_blk = BMem mem, s_size = len, s_alloc = alloc\<rparr>))
     else Undef)))"

definition ucb_str_adopt_c :: "ucb_str \<Rightarrow> byte list \<Rightarrow> ucb_str result" where
  "ucb_str_adopt_c s mem =
     rbind (c_strlen mem) (\<lambda>len. ucb_str_adopt s mem len (usize (len + 1)))"

text \<open>Whether the block was owned, then the block, its length and capacity.\<close>

definition ucb_str_abandon :: "ucb_str \<Rightarrow> (bool \<times> cblock \<times> nat \<times> nat) \<times> ucb_str" where
  "ucb_str_abandon s = ((s_alloc s > 0, s_blk s, s_size s, s_alloc s), str_zero)"

section \<open>Queries and comparisons\<close>

definition ucb_str_is_empty :: "ucb_str \<Rightarrow> bool" where
  "ucb_str_is_empty s = (s_size s = 0)"

definition ucb_str_used :: "ucb_str \<Rightarrow> nat result" where
  "ucb_str_used s =
     (if s_alloc s > 0 then
        verify (s_size s \<le> s_alloc s) UCB_ERROR_INVALID_STATE
          (if s_alloc s \<ge> s_size s + 1 then
             rbind (mem_of s) (\<lambda>m.
             if s_size s < length m then Ret (if m ! s_size s = 0 then s_size s + 1 else s_size s)
             else Undef)
           else Ret (s_size s))
      else Ret 0)"

definition ucb_str_avail :: "ucb_str \<Rightarrow> nat result" where
  "ucb_str_avail s = rbind (ucb_str_used s) (\<lambda>u. Ret (usub (s_alloc s) u))"

definition ucb_str_num_char :: "uc_tables \<Rightarrow> ucb_str \<Rightarrow> nat result" where
  "ucb_str_num_char T s = rbind (mem_of s) (\<lambda>m. ucb_uc_num_char T (Some m) (s_size s))"

definition ucb_str_next_char :: "uc_tables \<Rightarrow> ucb_str \<Rightarrow> nat \<Rightarrow> nat result" where
  "ucb_str_next_char T s from_byte = rbind (mem_of s) (\<lambda>m. ucb_uc_next_char T m (s_size s) from_byte)"

text \<open>
  \<^verbatim>\<open>memcmp\<close> of \<open>n\<close> bytes.  The C standard fixes only the sign of its result, the sign of the first
  difference as unsigned bytes.
\<close>

fun byte_cmp :: "byte list \<Rightarrow> byte list \<Rightarrow> int" where
  "byte_cmp (x # xs) (y # ys) = (if x < y then - 1 else if y < x then 1 else byte_cmp xs ys)"
| "byte_cmp _ _ = 0"

definition c_memcmp :: "byte list \<Rightarrow> byte list \<Rightarrow> nat \<Rightarrow> int result" where
  "c_memcmp m1 m2 n = rbind (mem_read m1 n) (\<lambda>a. rbind (mem_read m2 n) (\<lambda>b. Ret (byte_cmp a b)))"

definition ucb_str_equal :: "ucb_str \<Rightarrow> ucb_str \<Rightarrow> bool result" where
  "ucb_str_equal s1 s2 =
     (if s_size s1 \<noteq> s_size s2 then Ret False
      else rbind (mem_of s1) (\<lambda>m1. rbind (mem_of s2) (\<lambda>m2.
        rbind (c_memcmp m1 m2 (s_size s1)) (\<lambda>c. Ret (c = 0)))))"

text \<open>The cast to int keeps the low 32 bits of the difference of the sizes.\<close>

definition ucb_str_comp :: "ucb_str \<Rightarrow> ucb_str \<Rightarrow> int result" where
  "ucb_str_comp s1 s2 =
     (let min_len = (if s_size s1 < s_size s2 then s_size s1 else s_size s2) in
      rbind (mem_of s1) (\<lambda>m1. rbind (mem_of s2) (\<lambda>m2.
      rbind (c_memcmp m1 m2 min_len) (\<lambda>cmp.
      if cmp \<noteq> 0 then Ret cmp
      else Ret (sint (word_of_int (int (s_size s1) - int (s_size s2)) :: 32 word))))))"

definition ucb_str_startswith :: "ucb_str \<Rightarrow> ucb_str \<Rightarrow> bool result" where
  "ucb_str_startswith s prefix =
     (if s_size prefix > s_size s then Ret False
      else rbind (mem_of s) (\<lambda>m. rbind (mem_of prefix) (\<lambda>p.
        rbind (c_memcmp m p (s_size prefix)) (\<lambda>c. Ret (c = 0)))))"

definition ucb_str_endswith :: "ucb_str \<Rightarrow> ucb_str \<Rightarrow> bool result" where
  "ucb_str_endswith s suffix =
     (if s_size suffix > s_size s then Ret False
      else rbind (mem_of s) (\<lambda>m. rbind (mem_of suffix) (\<lambda>p.
        rbind (c_memcmp (drop (s_size s - s_size suffix) m) p (s_size suffix)) (\<lambda>c. Ret (c = 0)))))"

text \<open>The loop of \<^verbatim>\<open>ucb_str_find\<close>: \<open>p\<close> runs up to \<open>stop\<close>, both offsets into \<open>m\<close>.\<close>

function find_loop :: "byte list \<Rightarrow> byte list \<Rightarrow> nat \<Rightarrow> nat \<Rightarrow> nat \<Rightarrow> nat result" where
  "find_loop m sub n stop p =
     (if p \<le> stop then
        rbind (c_memcmp (drop p m) sub n) (\<lambda>c. if c = 0 then Ret p else find_loop m sub n stop (p + 1))
      else Ret UCB_NPOS)"
  by pat_completeness auto
termination
  by (relation "measure (\<lambda>(m, sub, n, stop, p). Suc stop - p)") auto

declare find_loop.simps [simp del]

definition ucb_str_find :: "ucb_str \<Rightarrow> ucb_str \<Rightarrow> nat \<Rightarrow> nat result" where
  "ucb_str_find s substr pos =
     (if s_size substr = 0 then Ret 0
      else if pos > s_size s \<or> s_size substr > s_size s - pos then Ret UCB_NPOS
      else rbind (mem_of s) (\<lambda>m. rbind (mem_of substr) (\<lambda>sub.
        find_loop m sub (s_size substr) (s_size s - s_size substr) pos)))"

section \<open>Modification\<close>

definition ucb_str_clear :: "ucb_str \<Rightarrow> ucb_str result" where
  "ucb_str_clear s = rbind (ucb_str_release_common s) (\<lambda>_. Ret str_empty)"

text \<open>The store of \<open>bs\<close> and a terminator at the end of the string.\<close>

definition str_store_end :: "ucb_str \<Rightarrow> byte list \<Rightarrow> ucb_str result" where
  "str_store_end s bs =
     rbind (mem_of s) (\<lambda>m.
     rbind (mem_put (s_size s) bs m) (\<lambda>m.
     rbind (mem_put (s_size s + length bs) [0] m) (\<lambda>m.
     Ret (s\<lparr>s_blk := BMem m, s_size := s_size s + length bs\<rparr>))))"

definition ucb_str_append_cstr :: "mem_env \<Rightarrow> ucb_str \<Rightarrow> cptr \<Rightarrow> nat \<Rightarrow> ucb_str result" where
  "ucb_str_append_cstr me s cstr len =
     verify (cstr \<noteq> CNull \<or> len = 0) UCB_ERROR_INVALID_ARG (
     if cstr = CNull then Ret s
     else rbind (deref s cstr) (\<lambda>mem.
       rbind (if len = 0 then c_strlen mem else Ret len) (\<lambda>n.
       if n = 0 then Ret s
       else rbind (ucb_str_verify_cstr (Some mem) n) (\<lambda>_.
         if ucb_str_aliases s cstr then
           rbind (ucb_malloc me n) (\<lambda>ok.
           if \<not> ok then Ret s
           else rbind (mem_read mem n) (\<lambda>tmp.
             rbind (ucb_str_reserve me s n) (\<lambda>(ok, s).
             if ok then str_store_end s tmp else Ret s)))
         else
           rbind (ucb_str_reserve me s n) (\<lambda>(ok, s).
           if ok then rbind (mem_read mem n) (\<lambda>bs. str_store_end s bs) else Ret s)))))"

definition ucb_str_append :: "mem_env \<Rightarrow> ucb_str \<Rightarrow> str_arg \<Rightarrow> ucb_str result" where
  "ucb_str_append me s a =
     rbind (arg_ptr a) (\<lambda>p. ucb_str_append_cstr me s p (s_size (arg_str s a)))"

text \<open>
  The returned bool of \<^verbatim>\<open>ucb_str_append_cp\<close>; \<open>M\<close> is \<^verbatim>\<open>UCB_UC_MAX_MULTI_LEN\<close>.  The static buffer is a
  window of the string's own block, so what the encoder pushed stays there when it fails.
\<close>

definition ucb_str_append_cp :: "mem_env \<Rightarrow> nat \<Rightarrow> ucb_str \<Rightarrow> ucb_cp list \<Rightarrow> (bool \<times> ucb_str) result" where
  "ucb_str_append_cp me M s cp =
     verify (list_all (\<lambda>c. c \<noteq> 0) cp) UCB_ERROR_INVALID_CODEPOINT (
     let max_size = usize (4 * length cp) in
     rbind (ucb_str_reserve me s max_size) (\<lambda>(ok, s).
     if \<not> ok then Ret (False, s)
     else rbind (mem_of s) (\<lambda>m.
       rbind (mem_read (drop (s_size s) m) max_size) (\<lambda>window.
       rbind (ucb_buffer_init_static (Some window)) (\<lambda>buf.
       rbind (ucb_uc_encode_codepoints me M buf cp) (\<lambda>(r, buf).
       rbind (mem_put (s_size s) (block buf) m) (\<lambda>m.
       if r = EncOk then
         rbind (mem_put (s_size s + b_size buf) [0] m) (\<lambda>m.
         Ret (True, s\<lparr>s_blk := BMem m, s_size := s_size s + b_size buf\<rparr>))
       else Ret (False, s\<lparr>s_blk := BMem m\<rparr>))))))))"

definition ucb_str_insert_at :: "mem_env \<Rightarrow> ucb_str \<Rightarrow> nat \<Rightarrow> cptr \<Rightarrow> nat \<Rightarrow> ucb_str result" where
  "ucb_str_insert_at me s pos cstr len =
     (if len = 0 then Ret s
      else rbind (deref s cstr) (\<lambda>mem.
        rbind (if ucb_str_aliases s cstr then ucb_malloc me len else Ret True) (\<lambda>ok.
        if \<not> ok then Ret s
        else rbind (mem_read mem len) (\<lambda>bs.
          rbind (ucb_str_reserve me s len) (\<lambda>(ok, s).
          if ok then
            rbind (mem_of s) (\<lambda>m.
            rbind (mem_read (drop pos m) (usub (s_size s) pos)) (\<lambda>tail.
            rbind (mem_put (pos + len) tail m) (\<lambda>m.
            rbind (mem_put pos bs m) (\<lambda>m.
            rbind (mem_put (s_size s + len) [0] m) (\<lambda>m.
            Ret (s\<lparr>s_blk := BMem m, s_size := s_size s + len\<rparr>))))))
          else Ret s)))))"

datatype insert_error = InsertOutOfRange | InsertInvalidStr | InsertInvalidCp ucb_cp | InsertNoMem

text \<open>\<open>None\<close> is the return value true.\<close>

definition ucb_str_insert_cp ::
    "mem_env \<Rightarrow> uc_tables \<Rightarrow> nat \<Rightarrow> ucb_str \<Rightarrow> nat \<Rightarrow> ucb_cp list \<Rightarrow> (insert_error option \<times> ucb_str) result" where
  "ucb_str_insert_cp me T M s index cp =
     verify (list_all (\<lambda>c. c \<noteq> 0) cp) UCB_ERROR_INVALID_CODEPOINT (
     if length cp = 0 then Ret (None, s)
     else rbind (ucb_str_map_char_pos T s index) (\<lambda>r.
       case r of
         Inl oob \<Rightarrow> Ret (Some (if oob then InsertOutOfRange else InsertInvalidStr), s)
       | Inr pos \<Rightarrow>
           rbind (ucb_buffer_init_heap me (usize (4 * length cp))) (\<lambda>(_, buf).
           rbind (ucb_uc_encode_codepoints me M buf cp) (\<lambda>(r, buf).
           case r of
             EncOk \<Rightarrow>
               rbind (ucb_str_insert_at me s pos (CExt (block buf)) (b_size buf)) (\<lambda>s. Ret (None, s))
           | EncInvalid c \<Rightarrow> Ret (Some (InsertInvalidCp c), s)
           | EncPushFailed \<Rightarrow> Ret (Some InsertNoMem, s)))))"

definition ucb_str_insert_cstr :: "mem_env \<Rightarrow> uc_tables \<Rightarrow> ucb_str \<Rightarrow> nat \<Rightarrow> cptr \<Rightarrow> nat \<Rightarrow> ucb_str result" where
  "ucb_str_insert_cstr me T s index cstr len =
     verify (cstr \<noteq> CNull \<or> len = 0) UCB_ERROR_INVALID_ARG (
     if cstr = CNull then Ret s
     else rbind (deref s cstr) (\<lambda>mem.
       rbind (if len = 0 then c_strlen mem else Ret len) (\<lambda>n.
       if n = 0 then Ret s
       else rbind (ucb_str_verify_cstr (Some mem) n) (\<lambda>_.
         rbind (ucb_str_map_char_pos T s index) (\<lambda>r.
         case r of
           Inl oob \<Rightarrow> if oob then Abort UCB_ERROR_INVALID_ARG else Ret s
         | Inr pos \<Rightarrow> ucb_str_insert_at me s pos cstr n)))))"

definition ucb_str_insert :: "mem_env \<Rightarrow> uc_tables \<Rightarrow> ucb_str \<Rightarrow> nat \<Rightarrow> str_arg \<Rightarrow> ucb_str result" where
  "ucb_str_insert me T s pos a =
     rbind (arg_ptr a) (\<lambda>p. ucb_str_insert_cstr me T s pos p (s_size (arg_str s a)))"

section \<open>New strings from old ones\<close>

primrec concat_sizes :: "nat \<Rightarrow> ucb_str list \<Rightarrow> nat" where
  "concat_sizes sz [] = sz"
| "concat_sizes sz (a # as) = concat_sizes (usize (sz + s_size a)) as"

primrec concat_copy :: "byte list \<Rightarrow> nat \<Rightarrow> ucb_str list \<Rightarrow> byte list result" where
  "concat_copy dst off [] = Ret dst"
| "concat_copy dst off (a # as) =
     rbind (mem_of a) (\<lambda>m. rbind (mem_read m (s_size a)) (\<lambda>bs.
     rbind (mem_put off bs dst) (\<lambda>dst. concat_copy dst (off + s_size a) as)))"

definition ucb_str_concatv :: "mem_env \<Rightarrow> ucb_str \<Rightarrow> ucb_str list \<Rightarrow> ucb_str option result" where
  "ucb_str_concatv me s args =
     (let sz = concat_sizes (s_size s) args in
      if sz = 0 then ucb_str_new me None 0
      else
        rbind (ucb_malloc me sizeof_ucb_str) (\<lambda>ok.
        if \<not> ok then Ret None
        else rbind (ucb_malloc me (usize (sz + 1))) (\<lambda>ok.
          if \<not> ok then Ret None
          else rbind (mem_of s) (\<lambda>m. rbind (mem_read m (s_size s)) (\<lambda>bs.
            rbind (mem_put 0 bs (new_block me (usize (sz + 1)))) (\<lambda>dst.
            rbind (concat_copy dst (s_size s) args) (\<lambda>dst.
            rbind (mem_put sz [0] dst) (\<lambda>dst.
            Ret (Some \<lparr>s_blk = BMem dst, s_size = sz, s_alloc = usize (sz + 1)\<rparr>)))))))))"

definition ucb_str_substr :: "mem_env \<Rightarrow> ucb_str \<Rightarrow> nat \<Rightarrow> nat \<Rightarrow> ucb_str option result" where
  "ucb_str_substr me s start stop =
     verify (start \<le> stop \<and> (stop \<le> s_size s \<or> stop = UCB_NPOS)) UCB_ERROR_INVALID_ARG (
     let stop = (if stop = UCB_NPOS then s_size s else stop) in
     if start > stop then ucb_str_new me None 0
     else rbind (mem_of s) (\<lambda>m.
       if start \<le> length m then ucb_str_new me (Some (drop start m)) (stop - start) else Undef))"

text \<open>The mapped text with its terminator, or \<open>None\<close> when the mapping failed.\<close>

definition ucb_str_adopt_uc_result :: "ucb_str \<Rightarrow> byte list option \<Rightarrow> nat \<Rightarrow> (bool \<times> ucb_str) result" where
  "ucb_str_adopt_uc_result s res sz =
     (case res of
        None \<Rightarrow> Ret (False, s)
      | Some dat \<Rightarrow> rbind (ucb_str_adopt s dat sz (usize (sz + 1))) (\<lambda>s. Ret (True, s)))"

section \<open>Invariant\<close>

text \<open>The texts a string may hold: well-formed UTF-8 without a null character.\<close>

definition valid_text :: "byte list \<Rightarrow> bool" where
  "valid_text t \<longleftrightarrow> 0 \<notin> set t \<and> wf_utf8 t"

definition str_ok :: "ucb_str \<Rightarrow> bool" where
  "str_ok s \<longleftrightarrow>
     (case s_blk s of
        BMem m \<Rightarrow>
          (if s_alloc s = 0 then m = [0] else length m = s_alloc s)
          \<and> length m \<le> PTRDIFF_MAX \<and> s_size s < length m \<and> m ! s_size s = 0
          \<and> valid_text (take (s_size s) m)
      | _ \<Rightarrow> False)"

definition str_text :: "ucb_str \<Rightarrow> byte list" where
  "str_text s = (case s_blk s of BMem m \<Rightarrow> take (s_size s) m | _ \<Rightarrow> [])"

lemma str_okE:
  assumes "str_ok s"
  obtains m where "s_blk s = BMem m" "mem_of s = Ret m" "str_text s = take (s_size s) m"
    "length (str_text s) = s_size s" "s_size s < length m" "m ! s_size s = 0" "length m \<le> PTRDIFF_MAX"
    "s_alloc s = 0 \<Longrightarrow> m = [0] \<and> s_size s = 0" "s_alloc s > 0 \<Longrightarrow> length m = s_alloc s"
    "valid_text (str_text s)" "s_size s \<le> PTRDIFF_MAX"
  using assms by (cases "s_blk s") (auto simp: str_ok_def str_text_def mem_of_def split: if_splits)

lemma wf_utf8_Nil [simp]: "wf_utf8 []"
  by (auto simp: wf_utf8_def intro: exI [of _ "[]"])

lemma wf_utf8_append: "wf_utf8 a \<Longrightarrow> wf_utf8 b \<Longrightarrow> wf_utf8 (a @ b)"
  unfolding wf_utf8_def by (metis list_all_append utf8s_simps(3))

lemma valid_text_Nil [simp]: "valid_text []"
  by (simp add: valid_text_def)

lemma valid_text_append: "valid_text a \<Longrightarrow> valid_text b \<Longrightarrow> valid_text (a @ b)"
  by (auto simp: valid_text_def wf_utf8_append)

lemma str_empty_ok [simp]: "str_ok str_empty" "str_text str_empty = []" "s_size str_empty = 0"
  by (simp_all add: str_ok_def str_empty_def str_text_def PTRDIFF_MAX_def)

lemma NPOS_bound: "n \<le> PTRDIFF_MAX \<Longrightarrow> n \<noteq> UCB_NPOS \<and> n < UCB_NPOS"
  by (simp add: PTRDIFF_MAX_def UCB_NPOS_eq)

lemma usize_PTRDIFF [simp]: "n \<le> PTRDIFF_MAX \<Longrightarrow> usize n = n" "n \<le> PTRDIFF_MAX \<Longrightarrow> usize (Suc n) = Suc n"
  by (rule usize_id, simp add: PTRDIFF_MAX_def SIZE_MAX_def)+

lemma usize_two: "n \<le> PTRDIFF_MAX \<Longrightarrow> m \<le> PTRDIFF_MAX \<Longrightarrow> usize (Suc (n + m)) = Suc (n + m)"
  by (rule usize_id) (simp add: PTRDIFF_MAX_def SIZE_MAX_def)

text \<open>A fresh block with a text and its terminator is a well-formed owned string.\<close>

lemma str_ok_owned:
  assumes "valid_text t" "length m \<le> PTRDIFF_MAX" "length t < length m" "take (length t) m = t" "m ! length t = 0"
  shows "str_ok \<lparr>s_blk = BMem m, s_size = length t, s_alloc = length m\<rparr>"
    "str_text \<lparr>s_blk = BMem m, s_size = length t, s_alloc = length m\<rparr> = t"
  using assms by (auto simp: str_ok_def str_text_def)

section \<open>Sources\<close>

text \<open>
  A readable source argument: \<open>t\<close> is its text, the bytes up to the terminator when \<open>len\<close> is 0.
\<close>

definition src_text :: "byte list \<Rightarrow> nat \<Rightarrow> byte list \<Rightarrow> bool" where
  "src_text mem len t \<longleftrightarrow>
     length mem \<le> PTRDIFF_MAX \<and> length t \<le> length mem \<and> take (length t) mem = t
     \<and> (if len = 0 then c_strlen mem = Ret (length t) else len = length t)"

lemma src_textD:
  assumes "src_text mem len t"
  shows "length mem \<le> PTRDIFF_MAX" "length t \<le> length mem" "take (length t) mem = t"
    "(if len = 0 then c_strlen mem else Ret len) = Ret (length t)" "length t \<le> PTRDIFF_MAX"
    "mem_read mem (length t) = Ret t" "len = 0 \<Longrightarrow> 0 \<notin> set t"
  using assms by (auto simp: src_text_def mem_read_def dest: c_strlen_Ret)

lemma src_text_again:
  assumes "src_text mem len t" shows "t \<noteq> [] \<Longrightarrow> src_text mem (length t) t" "t = [] \<Longrightarrow> len = 0"
  using assms by (auto simp: src_text_def split: if_splits)

lemma validate_src:
  assumes "src_text mem len t"
  shows "ucb_str_cstr_validate (Some mem) len =
    Ret (if 0 \<in> set t then CSTR_EMBEDDED_NUL else if wf_utf8 t then CSTR_OK else CSTR_INVALID_UTF8)"
proof -
  note d = src_textD [OF assms]
  have at: "arg_text mem (length t) = Ret t" using d(6) NPOS_bound [OF d(5)] by (simp add: arg_text_def)
  have "ucb_uc_validate mem (length t) = Ret None \<longleftrightarrow> wf_utf8 t" by (rule ucb_uc_validate_correct_aux [OF at])
  moreover obtain r where "ucb_uc_validate mem (length t) = Ret r" using ucb_uc_validate_cases [OF at] by blast
  ultimately have v: "\<exists>r. ucb_uc_validate mem (length t) = Ret r \<and> (r = None \<longleftrightarrow> wf_utf8 t)" by auto
  show ?thesis
  proof (cases "len = 0")
    case True
    then show ?thesis using v d(4,7) by (auto simp: ucb_str_cstr_validate_def)
  next
    case False
    then have "len = length t" using d(4) by simp
    then show ?thesis using v False d(6) by (auto simp: ucb_str_cstr_validate_def ucb_str_contains_nul_def)
  qed
qed

lemma verify_src:
  "src_text mem len t \<Longrightarrow> ucb_str_verify_cstr (Some mem) len = verify (valid_text t) UCB_ERROR_INVALID_ARG (Ret ())"
  by (auto simp: ucb_str_verify_cstr_def validate_src valid_text_def verify_def)

lemma verify_src_len:
  assumes "src_text mem len t"
  shows "ucb_str_verify_cstr (Some mem) (length t) = verify (valid_text t) UCB_ERROR_INVALID_ARG (Ret ())"
proof (cases "t = []")
  case True
  then show ?thesis using verify_src [OF assms] src_text_again(2) [OF assms] by simp
qed (rule verify_src [OF src_text_again(1) [OF assms]])

section \<open>Operations preserve the invariant\<close>

lemma init_common_spec:
  assumes f: "\<not> fatal_returns me" and src: "case cstr of None \<Rightarrow> t = [] | Some mem \<Rightarrow> src_text mem len t"
  shows "always (ucb_str_init_common me s cstr len)
     (\<lambda>(ok, s'). ok \<and> valid_text t \<and> str_ok s' \<and> str_text s' = t \<and> (cstr \<noteq> None \<longrightarrow> s_alloc s' = length t + 1))"
proof (cases cstr)
  case None
  then show ?thesis using src by (simp add: ucb_str_init_common_def)
next
  case (Some mem)
  then have st: "src_text mem len t" using src by simp
  note d = src_textD [OF st]
  let ?n = "length t + 1"
  have u: "usize ?n = ?n" using d(5) by simp
  have "always (ucb_malloc me ?n) (\<lambda>ok. ok \<and> ?n \<le> PTRDIFF_MAX)" using always_malloc [OF f] by simp
  moreover have "str_ok \<lparr>s_blk = BMem (mem_write 0 (t @ [0]) (new_block me ?n)), s_size = length t, s_alloc = ?n\<rparr>
      \<and> str_text \<lparr>s_blk = BMem (mem_write 0 (t @ [0]) (new_block me ?n)), s_size = length t, s_alloc = ?n\<rparr> = t"
    if "?n \<le> PTRDIFF_MAX" "valid_text t"
    using str_ok_owned [of t "t @ [0]"] that by (simp add: mem_write_def)
  ultimately show ?thesis
    using Some d(4,6) u verify_src_len [OF st]
    by (simp add: ucb_str_init_common_def always_rbind) (auto simp: always_def split: result.splits)
qed

lemma release_common_ok: "str_ok s \<Longrightarrow> \<exists>s'. ucb_str_release_common s = Ret s'"
  by (erule str_okE) (simp add: ucb_str_release_common_def)

lemma str_fields_text:
  assumes "str_ok s" "s_blk s = BMem m"
  shows "take (s_size s) m = str_text s" "s_size s < length m" "length (str_text s) = s_size s"
  using assms by (auto elim!: str_okE)

text \<open>
  A grown block: the text and its terminator at the front of a block of \<open>n\<close> bytes.
\<close>

lemma grown_block:
  assumes "str_ok s" "s_blk s = BMem m" "s_size s < n" "n \<le> PTRDIFF_MAX"
    and "m' = mem_write (s_size s) [0] (resize_block me m n) \<or> m' = mem_write 0 (str_text s @ [0]) (new_block me n)"
  shows "str_ok (s\<lparr>s_blk := BMem m', s_alloc := n\<rparr>)" "str_text (s\<lparr>s_blk := BMem m', s_alloc := n\<rparr>) = str_text s"
proof -
  note t = str_fields_text [OF assms(1,2)]
  have "length m' = n" "take (s_size s) m' = str_text s" "m' ! s_size s = 0"
    using assms(3,5) t by (auto simp: length_mem_write mem_write_def take_resize_block nth_append)
  moreover have "valid_text (str_text s)" using assms(1) by (auto elim: str_okE)
  ultimately show "str_ok (s\<lparr>s_blk := BMem m', s_alloc := n\<rparr>)" "str_text (s\<lparr>s_blk := BMem m', s_alloc := n\<rparr>) = str_text s"
    using assms(3,4) by (simp_all add: str_ok_def str_text_def)
qed

text \<open>When \<^verbatim>\<open>ucb_str_reserve\<close> returns true.\<close>

definition reserves :: "ucb_str \<Rightarrow> nat \<Rightarrow> bool" where
  "reserves s n \<longleftrightarrow> s_alloc s = 0 \<or> n = 0 \<or> s_alloc s < n + s_size s + 1"

lemma reserve_spec:
  assumes f: "\<not> fatal_returns me" and ok: "str_ok s" and n: "n \<le> PTRDIFF_MAX"
  shows "always (ucb_str_reserve me s n) (\<lambda>(ok, s').
     ok = reserves s n \<and> str_ok s' \<and> str_text s' = str_text s
     \<and> (if ok then s_alloc s' > 0 \<and> (n > 0 \<or> s_alloc s = 0 \<longrightarrow> s_alloc s' = s_size s + n + 1) else s' = s))"
proof -
  obtain m where m: "s_blk s = BMem m" "mem_of s = Ret m" "s_size s < length m" "length m \<le> PTRDIFF_MAX"
    "s_alloc s = 0 \<Longrightarrow> m = [0] \<and> s_size s = 0" "s_alloc s > 0 \<Longrightarrow> length m = s_alloc s"
    "s_size s \<le> PTRDIFF_MAX" using ok by (auto elim: str_okE)
  note t = str_fields_text [OF ok m(1)]
  let ?n = "s_size s + n + 1"
  have u: "usize (n + s_size s + 1) = ?n" "usize ?n = ?n"
    using usize_two [OF n m(7)] usize_two [OF m(7) n] by (simp_all add: ac_simps)
  have gr: "str_ok (s\<lparr>s_blk := BMem m', s_alloc := ?n\<rparr>) \<and> str_text (s\<lparr>s_blk := BMem m', s_alloc := ?n\<rparr>) = str_text s"
    if "?n \<le> PTRDIFF_MAX" "m' = mem_write (s_size s) [0] (resize_block me m ?n) \<or>
      m' = mem_write 0 (str_text s @ [0]) (new_block me ?n)" for m'
    using grown_block [OF ok m(1) _ that] by simp
  consider "s_alloc s = 0" | "s_alloc s > 0" "n = 0" | "s_alloc s > 0" "n > 0" "s_alloc s < ?n"
    | "s_alloc s > 0" "n > 0" "\<not> s_alloc s < ?n" by auto
  then show ?thesis
  proof cases
    case 1
    have "always (ucb_malloc me ?n) (\<lambda>ok. ok \<and> ?n \<le> PTRDIFF_MAX)" using always_malloc [OF f] by simp
    then show ?thesis using 1 u m(2,3) t gr
      by (simp add: ucb_str_reserve_def reserves_def always_rbind) (erule always_mono, simp)
  next
    case 3
    have "always (ucb_realloc me True ?n) (\<lambda>r. r = Moved \<and> ?n \<le> PTRDIFF_MAX)"
      using always_realloc [OF f] by simp
    then show ?thesis using 3 u m(2,3,6) t gr
      by (simp add: ucb_str_reserve_def reserves_def always_rbind Let_def ac_simps)
        (erule always_mono, simp add: ac_simps)
  qed (use ok u in \<open>auto simp: ucb_str_reserve_def reserves_def Let_def ac_simps verify_def\<close>)
qed

lemma write_terminated:
  assumes "off + length xs < length m"
  defines "m' \<equiv> mem_write (off + length xs) [0] (mem_write off xs m)"
  shows "take (off + length xs) m' = take off m @ xs" "m' ! (off + length xs) = (0::byte)" "length m' = length m"
proof -
  have l: "length (mem_write off xs m) = length m" using assms(1) by (simp add: length_mem_write)
  have t: "take (off + length xs) (mem_write off xs m) = take off m @ xs"
    using assms(1) by (simp add: take_mem_write)
  have e: "m' = (take off m @ xs) @ [0] @ drop (off + length xs + 1) (mem_write off xs m)"
    unfolding m'_def mem_write_def [of "off + length xs"] t by simp
  have k: "length (take off m @ xs) = off + length xs" using assms(1) by simp
  show "take (off + length xs) m' = take off m @ xs" unfolding e using k by simp
  show "m' ! (off + length xs) = (0::byte)" unfolding e using k by (metis append_Cons nth_append_length)
  show "length m' = length m" using assms(1) l unfolding m'_def by (simp add: length_mem_write)
qed

lemma store_end_spec:
  assumes ok: "str_ok s" and bs: "valid_text bs" and room: "s_size s + length bs < s_alloc s"
  shows "always (str_store_end s bs) (\<lambda>s'. str_ok s' \<and> str_text s' = str_text s @ bs \<and> s_alloc s' = s_alloc s)"
proof -
  obtain m where m: "s_blk s = BMem m" "mem_of s = Ret m" "length m \<le> PTRDIFF_MAX" "length m = s_alloc s"
    "valid_text (str_text s)" using ok room by (auto elim!: str_okE)
  note t = str_fields_text [OF ok m(1)]
  have r: "s_size s + length bs < length m" using room m(4) by simp
  define m' where "m' = mem_write (s_size s + length bs) [0] (mem_write (s_size s) bs m)"
  note w = write_terminated [OF r, folded m'_def]
  have "str_store_end s bs = Ret (s\<lparr>s_blk := BMem m', s_size := s_size s + length bs\<rparr>)"
    using m(2) r by (simp add: str_store_end_def length_mem_write m'_def)
  moreover have "str_text (s\<lparr>s_blk := BMem m', s_size := s_size s + length bs\<rparr>) = str_text s @ bs"
    using w(1) t(1) by (simp add: str_text_def)
  moreover have "str_ok (s\<lparr>s_blk := BMem m', s_size := s_size s + length bs\<rparr>)"
    unfolding str_ok_def using w t(1) valid_text_append [OF m(5) bs] m(3,4) room by simp
  ultimately show ?thesis by simp
qed

text \<open>
  A block without spare room. Creation, copying and appending make blocks of this kind, and
  appending to one never finds room.
\<close>

definition tight :: "ucb_str \<Rightarrow> bool" where
  "tight s \<longleftrightarrow> s_alloc s = 0 \<or> s_alloc s = s_size s + 1"

lemma tight_reserves: "tight s \<Longrightarrow> reserves s n"
  by (auto simp: tight_def reserves_def)

lemma tightI: "str_ok s \<Longrightarrow> s_alloc s = length (str_text s) + 1 \<Longrightarrow> tight s"
  by (auto simp: tight_def elim: str_okE)

lemma str_fits: "str_ok s \<Longrightarrow> s_size s = length (str_text s)"
  by (auto elim: str_okE)

lemma reserve_store_spec:
  assumes f: "\<not> fatal_returns me" and ok: "str_ok s" and bs: "valid_text bs" "bs \<noteq> []" "length bs \<le> PTRDIFF_MAX"
  shows "always (rbind (ucb_str_reserve me s (length bs)) (\<lambda>(ok, s). if ok then str_store_end s bs else Ret s))
    (\<lambda>s'. str_ok s' \<and> (if reserves s (length bs) then str_text s' = str_text s @ bs \<and> tight s' else s' = s))"
proof (rule always_bind [OF reserve_spec [OF f ok bs(3)]], clarify)
  fix r s1
  assume a: "str_ok s1" "str_text s1 = str_text s"
    "if reserves s (length bs) then s_alloc s1 > 0 \<and> (length bs > 0 \<or> s_alloc s = 0 \<longrightarrow> s_alloc s1 = s_size s + length bs + 1)
     else s1 = s"
  have "s_size s1 = s_size s" using a(1,2) ok by (auto elim!: str_okE)
  note z = this
  show "always (if reserves s (length bs) then str_store_end s1 bs else Ret s1)
      (\<lambda>s'. str_ok s' \<and> (if reserves s (length bs) then str_text s' = str_text s @ bs \<and> tight s' else s' = s))"
  proof (cases "reserves s (length bs)")
    case True
    have al: "s_alloc s1 = length (str_text s @ bs) + 1" using a(3) True bs(2) str_fits [OF ok] by simp
    then have "s_size s1 + length bs < s_alloc s1" using z str_fits [OF ok] by simp
    from store_end_spec [OF a(1) bs(1) this] show ?thesis
      unfolding if_P [OF True] by (rule always_mono) (use a(2) al in \<open>simp add: tightI\<close>)
  qed (use a in simp)
qed

lemma append_cstr_spec:
  assumes f: "\<not> fatal_returns me" and ok: "str_ok s" and p: "p \<noteq> CNull"
    and d: "deref s p = Ret mem" and st: "src_text mem len t"
  shows "always (ucb_str_append_cstr me s p len) (\<lambda>s'. str_ok s'
     \<and> (if t = [] then s' = s
        else valid_text t \<and> (if reserves s (length t) then str_text s' = str_text s @ t \<and> tight s' else s' = s)))"
proof -
  note sd = src_textD [OF st]
  show ?thesis
  proof (cases "t = []")
    case True
    then show ?thesis using p d ok sd(4) by (simp add: ucb_str_append_cstr_def)
  next
    case False
    let ?Q = "\<lambda>s'. str_ok s' \<and> (if reserves s (length t) then str_text s' = str_text s @ t \<and> tight s' else s' = s)"
    let ?R = "rbind (ucb_str_reserve me s (length t)) (\<lambda>(ok, s). if ok then str_store_end s t else Ret s)"
    have R: "always ?R ?Q" if "valid_text t" by (rule reserve_store_spec [OF f ok that False sd(5)])
    have e: "ucb_str_append_cstr me s p len =
        rbind (ucb_str_verify_cstr (Some mem) (length t)) (\<lambda>_.
          if ucb_str_aliases s p then
            rbind (ucb_malloc me (length t)) (\<lambda>ok. if \<not> ok then Ret s else ?R)
          else ?R)"
      using p d False sd(4,6) by (simp add: ucb_str_append_cstr_def cong: if_cong)
    have al: "always (ucb_malloc me (length t)) (\<lambda>ok. ok \<and> length t \<le> PTRDIFF_MAX)"
      using always_malloc [OF f] False by simp
    have m: "always (rbind (ucb_malloc me (length t)) (\<lambda>ok. if \<not> ok then Ret s else ?R)) ?Q"
      if "valid_text t" by (rule always_bind [OF al]) (use R [OF that] in simp)
    show ?thesis
    proof (cases "valid_text t")
      case True
      then have "always (ucb_str_append_cstr me s p len) ?Q"
        unfolding e verify_src_len [OF st] using R m by (cases "ucb_str_aliases s p") simp_all
      then show ?thesis using True False by (auto intro: always_mono)
    qed (simp add: e verify_src_len [OF st])
  qed
qed

lemma assign_spec:
  assumes f: "\<not> fatal_returns me" and ok: "str_ok s"
    and d: "if p = CNull then t = [] else deref s p = Ret mem \<and> src_text mem len t"
  shows "always (ucb_str_assign me s p len) (\<lambda>(r, s'). r \<and> str_ok s' \<and> str_text s' = t)"
proof -
  obtain s1 where rel: "ucb_str_release_common s = Ret s1" using release_common_ok [OF ok] by blast
  show ?thesis
  proof (cases "ucb_str_aliases s p")
    case al: True
    then have p: "p \<noteq> CNull" by (auto simp: ucb_str_aliases_def)
    then have d1: "deref s p = Ret mem" and st: "src_text mem len t" using d by simp_all
    note sd = src_textD [OF st]
    have len: "(if len \<noteq> 0 then Ret len else c_strlen mem) = Ret (length t)" using sd(4) by (cases "len = 0") simp_all
    show ?thesis
    proof (cases "t = []")
      case True
      then show ?thesis using al d1 len rel by (simp add: ucb_str_assign_def ucb_str_init_common_def)
    next
      case False
      have "src_text t (length t) t" using sd(5) False by (simp add: src_text_def)
      then have "always (ucb_str_init_common me s1 (Some t) (length t))
          (\<lambda>(ok, s'). ok \<and> valid_text t \<and> str_ok s' \<and> str_text s' = t \<and> (Some t \<noteq> None \<longrightarrow> s_alloc s' = length t + 1))"
        by (intro init_common_spec [OF f]) simp
      then have i: "always (ucb_str_init_common me s1 (Some t) (length t)) (\<lambda>(r, s'). r \<and> str_ok s' \<and> str_text s' = t)"
        by (rule always_mono) auto
      have e: "ucb_str_assign me s p len = rbind (ucb_malloc me (length t)) (\<lambda>ok.
          if \<not> ok then Ret (False, s) else ucb_str_init_common me s1 (Some t) (length t))"
        using al d1 len False rel sd(6) by (simp add: ucb_str_assign_def cong: if_cong)
      have "always (ucb_malloc me (length t)) (\<lambda>ok. ok \<and> length t \<le> PTRDIFF_MAX)"
        using always_malloc [OF f] False by simp
      then show ?thesis unfolding e by (rule always_bind) (use i in auto)
    qed
  next
    case al: False
    define src where "src = (if p = CNull then None else Some mem)"
    have e: "ucb_str_assign me s p len = ucb_str_init_common me s1 src len"
      using al d rel by (cases p) (simp_all add: ucb_str_assign_def src_def)
    have "case src of None \<Rightarrow> t = [] | Some mem \<Rightarrow> src_text mem len t"
      using d by (cases "p = CNull") (simp_all add: src_def)
    from init_common_spec [OF f this, of s1] show ?thesis unfolding e by (rule always_mono) auto
  qed
qed

lemma fit_spec:
  assumes f: "\<not> fatal_returns me" and ok: "str_ok s"
  shows "always (ucb_str_fit me s) (\<lambda>(r, s'). str_ok s' \<and> str_text s' = str_text s
     \<and> r = (s_alloc s > s_size s + 1) \<and> s_alloc s' = (if s_alloc s = 0 then 0 else s_size s + 1))"
proof -
  obtain m where m: "s_blk s = BMem m" "mem_of s = Ret m" "s_size s < length m" "length m \<le> PTRDIFF_MAX"
    "s_alloc s > 0 \<Longrightarrow> length m = s_alloc s" using ok by (auto elim: str_okE)
  let ?n = "s_size s + 1"
  show ?thesis
  proof (cases "s_alloc s > ?n")
    case True
    let ?m = "mem_write (s_size s) [0] (resize_block me m ?n)"
    have "str_ok (s\<lparr>s_blk := BMem ?m, s_alloc := ?n\<rparr>) \<and> str_text (s\<lparr>s_blk := BMem ?m, s_alloc := ?n\<rparr>) = str_text s"
      using grown_block [OF ok m(1), of ?n ?m me] m(3,4) by simp
    moreover have "always (ucb_realloc me True ?n) (\<lambda>r. r = Moved \<and> ?n \<le> PTRDIFF_MAX)"
      using always_realloc [OF f] by simp
    ultimately show ?thesis using True m by (simp add: ucb_str_fit_def always_rbind always_mono)
  next
    case False
    then show ?thesis using ok m by (auto simp: ucb_str_fit_def verify_def)
  qed
qed

lemma clear_spec: "str_ok s \<Longrightarrow> ucb_str_clear s = Ret str_empty"
  using release_common_ok [of s] by (auto simp: ucb_str_clear_def)

lemma adopt_spec:
  assumes ok: "str_ok s" and st: "src_text mem len t" and al: "alloc = length mem"
  shows "always (ucb_str_adopt s mem len alloc)
    (\<lambda>s'. str_ok s' \<and> str_text s' = t \<and> s_alloc s' = alloc)"
proof -
  obtain s1 where rel: "ucb_str_release_common s = Ret s1" using release_common_ok [OF ok] by blast
  note sd = src_textD [OF st]
  have "str_ok \<lparr>s_blk = BMem mem, s_size = length t, s_alloc = alloc\<rparr>
      \<and> str_text \<lparr>s_blk = BMem mem, s_size = length t, s_alloc = alloc\<rparr> = t"
    if "valid_text t" "mem ! length t = 0" "length t < length mem"
    using str_ok_owned [OF that(1) sd(1) that(3) sd(3) that(2)] al by simp
  then show ?thesis using sd(1,4,5) rel al verify_src_len [OF st]
    by (simp add: ucb_str_adopt_def always_rbind verify_def)
qed

lemma take_append_len: "length xs = n \<Longrightarrow> take n (xs @ ys) = xs"
  by simp

text \<open>The three stores of \<^verbatim>\<open>ucb_str_insert_at\<close>: the tail is moved, then the bytes and the terminator.\<close>

lemma write_insert:
  fixes m :: "byte list"
  assumes "pos \<le> n" "n + length bs < length m"
  defines "m2 \<equiv> mem_write pos bs (mem_write (pos + length bs) (take (n - pos) (drop pos m)) m)"
  defines "m3 \<equiv> mem_write (n + length bs) [0] m2"
  shows "take (n + length bs) m3 = take pos (take n m) @ bs @ drop pos (take n m)"
    "m3 ! (n + length bs) = 0" "length m3 = length m" "length m2 = length m"
proof -
  let ?l = "length bs" and ?tail = "take (n - pos) (drop pos m)"
  have tl: "length ?tail = n - pos" using assms(1,2) by simp
  have m1: "mem_write (pos + ?l) ?tail m = (take pos m @ take ?l (drop pos m)) @ ?tail @ drop (n + ?l) m"
    using assms(1) tl by (simp add: mem_write_def take_add add.commute)
  have k: "length (take pos m) = pos" "length (take ?l (drop pos m)) = ?l" using assms(1,2) by simp_all
  have m2: "m2 = (take pos m @ bs @ ?tail) @ drop (n + ?l) m"
    unfolding m2_def m1 mem_write_def [of pos] using k by simp
  have l: "length (take pos m @ bs @ ?tail) = n + ?l" using k(1) tl assms(1) by simp
  show "length m2 = length m" unfolding m2 using l assms(2) by simp
  have t: "take (n + ?l) m2 = take pos m @ bs @ ?tail" unfolding m2 by (rule take_append_len [OF l])
  have m3: "m3 = (take pos m @ bs @ ?tail) @ [0] @ drop (n + ?l + 1) m2"
    unfolding m3_def mem_write_def [of "n + ?l"] t by simp
  have p: "take pos (take n m) = take pos m" "drop pos (take n m) = ?tail"
    using assms(1) by (simp_all add: min_def drop_take)
  show "take (n + ?l) m3 = take pos (take n m) @ bs @ drop pos (take n m)"
    unfolding m3 p by (rule take_append_len [OF l])
  show "m3 ! (n + ?l) = 0" unfolding m3 using l by (metis append_Cons nth_append_length)
  show "length m3 = length m"
    using \<open>length m2 = length m\<close> assms(2) unfolding m3_def by (simp add: length_mem_write)
qed

definition insert_text :: "nat \<Rightarrow> byte list \<Rightarrow> byte list \<Rightarrow> byte list" where
  "insert_text pos bs t = take pos t @ bs @ drop pos t"

lemma insert_at_spec:
  assumes f: "\<not> fatal_returns me" and ok: "str_ok s" and pos: "pos \<le> s_size s"
    and d: "deref s p = Ret mem" and st: "src_text mem (length t) t" "t \<noteq> []" "valid_text t"
    and sp: "valid_text (insert_text pos t (str_text s))"
  shows "always (ucb_str_insert_at me s pos p (length t)) (\<lambda>s'. str_ok s'
     \<and> (if reserves s (length t) then str_text s' = insert_text pos t (str_text s) else s' = s))"
proof -
  note sd = src_textD [OF st(1)]
  let ?Q = "\<lambda>s'. str_ok s' \<and> (if reserves s (length t) then str_text s' = insert_text pos t (str_text s) else s' = s)"
  define store where "store = (\<lambda>s. rbind (mem_of s) (\<lambda>m.
      rbind (mem_read (drop pos m) (usub (s_size s) pos)) (\<lambda>tail.
      rbind (mem_put (pos + length t) tail m) (\<lambda>m.
      rbind (mem_put pos t m) (\<lambda>m.
      rbind (mem_put (s_size s + length t) [0] m) (\<lambda>m.
      Ret (s\<lparr>s_blk := BMem m, s_size := s_size s + length t\<rparr>)))))))"
  have store_ok: "always (store s1) (\<lambda>s'. str_ok s' \<and> str_text s' = insert_text pos t (str_text s))"
    if s1: "str_ok s1" "str_text s1 = str_text s" "s_alloc s1 = s_size s + length t + 1" for s1
  proof -
    obtain m where m: "s_blk s1 = BMem m" "mem_of s1 = Ret m" "length m \<le> PTRDIFF_MAX" "length m = s_alloc s1"
      "take (s_size s1) m = str_text s1" using s1(1,3) by (auto elim!: str_okE)
    have sz: "s_size s1 = s_size s" using s1(1,2) ok by (auto elim!: str_okE)
    have r: "s_size s + length t < length m" using m(4) s1(3) by simp
    define m2 where "m2 = mem_write pos t (mem_write (pos + length t) (take (s_size s - pos) (drop pos m)) m)"
    define m3 where "m3 = mem_write (s_size s + length t) [0] m2"
    note w = write_insert [OF pos r, folded m2_def, folded m3_def]
    have u: "usub (s_size s1) pos = s_size s - pos"
      using pos m(3) r PTRDIFF_MAX_less(1) [of "s_size s"] by (simp add: sz)
    have l1: "length (mem_write (pos + length t) (take (s_size s - pos) (drop pos m)) m) = length m"
      using r pos by (simp add: length_mem_write)
    have "store s1 = Ret (s1\<lparr>s_blk := BMem m3, s_size := s_size s + length t\<rparr>)"
      using m(2) r pos u l1 w(4) unfolding store_def m3_def m2_def by (simp add: sz)
    moreover have "str_text (s1\<lparr>s_blk := BMem m3, s_size := s_size s + length t\<rparr>) = insert_text pos t (str_text s)"
    proof -
      have "take (s_size s + length t) m3 = insert_text pos t (str_text s)"
        unfolding w(1) insert_text_def using m(5) s1(2) by (simp only: sz)
      then show ?thesis by (simp add: str_text_def [of "s1\<lparr>s_blk := _, s_size := _\<rparr>"])
    qed
    moreover have "str_ok (s1\<lparr>s_blk := BMem m3, s_size := s_size s + length t\<rparr>)"
    proof -
      have "valid_text (take (s_size s + length t) m3)"
        unfolding w(1) using sp m(5) s1(2) by (simp only: insert_text_def sz)
      then show ?thesis unfolding str_ok_def using w(2,3) m(3,4) r s1(3) by simp
    qed
    ultimately show ?thesis by simp
  qed
  have R: "always (rbind (ucb_str_reserve me s (length t)) (\<lambda>(ok, s). if ok then store s else Ret s)) ?Q"
  proof (rule always_bind [OF reserve_spec [OF f ok sd(5)]], clarify)
    fix r s1
    assume a: "str_ok s1" "str_text s1 = str_text s"
      "if reserves s (length t) then s_alloc s1 > 0 \<and> (length t > 0 \<or> s_alloc s = 0 \<longrightarrow> s_alloc s1 = s_size s + length t + 1)
       else s1 = s"
    then show "always (if reserves s (length t) then store s1 else Ret s1) ?Q"
      using st(2) store_ok [OF a(1,2)] by (cases "reserves s (length t)") (auto intro: always_mono)
  qed
  have e: "ucb_str_insert_at me s pos p (length t) =
      rbind (if ucb_str_aliases s p then ucb_malloc me (length t) else Ret True) (\<lambda>ok.
      if \<not> ok then Ret s
      else rbind (ucb_str_reserve me s (length t)) (\<lambda>(ok, s). if ok then store s else Ret s))"
    using d st(2) sd(6) by (simp add: ucb_str_insert_at_def store_def cong: if_cong)
  have al: "always (if ucb_str_aliases s p then ucb_malloc me (length t) else Ret True) (\<lambda>ok. ok)"
    using always_malloc [OF f, of "length t"] st(2) by (auto intro: always_mono)
  show ?thesis unfolding e by (rule always_bind [OF al]) (use R in simp)
qed

section \<open>Insertion at a character\<close>

lemma str_scalars:
  assumes "str_ok s"
  obtains cps m rest where "list_all is_scalar cps" "str_text s = utf8s cps" "mem_of s = Ret m"
    "m = utf8s cps @ rest" "s_size s = length (utf8s cps)" "s_size s \<le> PTRDIFF_MAX"
proof -
  obtain m where m: "mem_of s = Ret m" "str_text s = take (s_size s) m" "length (str_text s) = s_size s"
    "s_size s \<le> PTRDIFF_MAX" "valid_text (str_text s)"
    using assms by (auto elim: str_okE)
  obtain cps where "list_all is_scalar cps" "str_text s = utf8s cps"
    using m(5) by (auto simp: valid_text_def wf_utf8_def)
  then show ?thesis using that [of cps m "drop (s_size s) m"] m by (metis append_take_drop_id)
qed

lemma utf8s_concat_split: "utf8s (concat (take k xs)) @ utf8s (concat (drop k xs)) = utf8s (concat xs)"
  by (metis append_take_drop_id concat_append utf8s_simps(3))

lemma map_char_pos_spec:
  assumes T: "uc_tables_ok T" and c: "list_all is_scalar cps" and m: "mem_of s = Ret (utf8s cps @ rest)"
    and sz: "s_size s = length (utf8s cps)" "s_size s \<le> PTRDIFF_MAX"
  shows "ucb_str_map_char_pos T s index =
    Ret (if index > length (clusters T cps) then Inl True
         else Inr (length (utf8s (concat (take index (clusters T cps))))))"
proof -
  have np: "length (utf8s cps) \<noteq> UCB_NPOS" using sz NPOS_bound by simp
  have "arg_text (utf8s cps @ rest) (length (utf8s cps)) = Ret (utf8s cps)" using np by (simp add: arg_text_def)
  moreover have "wf_utf8 (utf8s cps)" using c by (auto simp: wf_utf8_def)
  ultimately have v: "ucb_uc_validate (utf8s cps @ rest) (length (utf8s cps)) = Ret None"
    using ucb_uc_validate_correct_aux by blast
  have i: "index \<noteq> 0 \<Longrightarrow> ucb_uc_char_index T (Some (utf8s cps @ rest)) (length (utf8s cps)) index =
      Ret (length (utf8s (concat (take index (clusters T cps)))))"
    using char_index_text [OF T c] by simp
  show ?thesis using v i num_char_text [OF T c np] m sz(1)
    by (simp add: ucb_str_map_char_pos_def)
qed

text \<open>The text with \<open>bs\<close> inserted before the character \<open>index\<close>.\<close>

definition insert_before :: "uc_tables \<Rightarrow> ucb_cp list \<Rightarrow> nat \<Rightarrow> byte list \<Rightarrow> byte list" where
  "insert_before T cps index bs =
     utf8s (concat (take index (clusters T cps))) @ bs @ utf8s (concat (drop index (clusters T cps)))"

lemma insert_before_eq:
  "insert_text (length (utf8s (concat (take index (clusters T cps))))) bs (utf8s cps) = insert_before T cps index bs"
proof -
  have "utf8s cps = utf8s (concat (take index (clusters T cps))) @ utf8s (concat (drop index (clusters T cps)))"
    by (simp add: utf8s_concat_split)
  then show ?thesis unfolding insert_text_def insert_before_def by (metis append_eq_conv_conj)
qed

lemma insert_before_valid:
  assumes "valid_text (utf8s cps)" "list_all is_scalar cps" "valid_text bs"
  shows "valid_text (insert_before T cps index bs)"
proof -
  have e: "utf8s (concat (take index (clusters T cps))) @ utf8s (concat (drop index (clusters T cps))) = utf8s cps"
    by (simp add: utf8s_concat_split)
  have "concat (take index (clusters T cps)) @ concat (drop index (clusters T cps)) = cps"
    by (metis append_take_drop_id concat_append concat_clusters)
  then have "list_all is_scalar (concat (take index (clusters T cps)))"
    "list_all is_scalar (concat (drop index (clusters T cps)))" using assms(2) by (metis list_all_append)+
  then have "wf_utf8 (utf8s (concat (take index (clusters T cps))))"
    "wf_utf8 (utf8s (concat (drop index (clusters T cps))))" by (auto simp: wf_utf8_def)
  moreover have "0 \<notin> set (utf8s (concat (take index (clusters T cps))))"
    "0 \<notin> set (utf8s (concat (drop index (clusters T cps))))"
    using assms(1) unfolding valid_text_def e [symmetric] by auto
  ultimately show ?thesis using assms(3) valid_text_append
    unfolding insert_before_def by (simp add: valid_text_def wf_utf8_append)
qed

text \<open>Inserting valid bytes at the position of a character.\<close>

lemma insert_at_char:
  assumes f: "\<not> fatal_returns me" and ok: "str_ok s" and c: "list_all is_scalar cps" "str_text s = utf8s cps"
    and d: "deref s p = Ret mem" and st: "src_text mem (length t) t" "t \<noteq> []" "valid_text t"
  shows "always (ucb_str_insert_at me s (length (utf8s (concat (take index (clusters T cps))))) p (length t))
    (\<lambda>s'. str_ok s' \<and> (if reserves s (length t) then str_text s' = insert_before T cps index t else s' = s))"
proof -
  have v: "valid_text (utf8s cps)" and n: "s_size s = length (utf8s cps)" using ok c(2) by (auto elim: str_okE)
  have "length (utf8s (concat (take index (clusters T cps)))) \<le> length (utf8s cps)"
    using arg_cong [OF utf8s_concat_split [of index "clusters T cps"], of length] by simp
  then show ?thesis
    using insert_at_spec [OF f ok _ d st, of "length (utf8s (concat (take index (clusters T cps))))",
        unfolded c(2) insert_before_eq] insert_before_valid [OF v c(1) st(3), of T index] n by simp
qed

lemma insert_cstr_spec:
  assumes f: "\<not> fatal_returns me" and T: "uc_tables_ok T" and ok: "str_ok s"
    and c: "list_all is_scalar cps" "str_text s = utf8s cps"
    and p: "p \<noteq> CNull" "deref s p = Ret mem" and st: "src_text mem len t"
  shows "always (ucb_str_insert_cstr me T s index p len) (\<lambda>s'. str_ok s'
    \<and> (if t = [] then s' = s
       else valid_text t \<and> index \<le> length (clusters T cps)
         \<and> (if reserves s (length t) then str_text s' = insert_before T cps index t else s' = s)))"
proof -
  note sd = src_textD [OF st]
  obtain m rest where m: "mem_of s = Ret m" "m = utf8s cps @ rest" "s_size s = length (utf8s cps)"
    "s_size s \<le> PTRDIFF_MAX"
    using str_scalars [OF ok] c utf8s_inject by metis
  note pos = map_char_pos_spec [OF T c(1) m(1)[unfolded m(2)] m(3,4), of index]
  show ?thesis
  proof (cases "t = []")
    case True
    then show ?thesis using p ok sd(4) by (simp add: ucb_str_insert_cstr_def)
  next
    case False
    show ?thesis
    proof (cases "valid_text t \<and> index \<le> length (clusters T cps)")
      case True
      then have v: "valid_text t" by simp
      have "ucb_str_insert_cstr me T s index p len =
          ucb_str_insert_at me s (length (utf8s (concat (take index (clusters T cps))))) p (length t)"
        using p False True sd(4) verify_src_len [OF st] pos by (simp add: ucb_str_insert_cstr_def)
      then show ?thesis
        using insert_at_char [OF f ok c p(2) src_text_again(1) [OF st False] False v, of index T] True False
        by simp
    next
      case no: False
      then show ?thesis using p False sd(4) verify_src_len [OF st] pos
        by (auto simp: ucb_str_insert_cstr_def verify_def)
    qed
  qed
qed

section \<open>Appending code points\<close>

lemma utf8_no_nul: "is_scalar c \<Longrightarrow> c \<noteq> 0 \<Longrightarrow> 0 \<notin> set (utf8 c)"
proof -
  assume s: "is_scalar c" and z: "c \<noteq> 0"
  have u0: "(b::byte) \<noteq> 0" if "0 < unat b" for b using that by auto
  have uc: "0 < unat c" using z by (simp add: unat_gt_0)
  consider "unat c < 128" | "128 \<le> unat c" "unat c < 2048" | "2048 \<le> unat c" "unat c < 65536"
    | "65536 \<le> unat c" "unat c \<le> 1114111" using s by (fastforce simp: is_scalar_unat)
  then show ?thesis
  proof cases
    case 1
    then show ?thesis using utf8_1 [of c] u0 uc by fastforce
  next
    case 2
    then show ?thesis using utf8_2 [of c] by fastforce
  next
    case 3
    then show ?thesis using utf8_3 [of c] by fastforce
  next
    case 4
    then show ?thesis using utf8_4 [of c] by fastforce
  qed
qed

lemma valid_text_utf8s:
  assumes "list_all is_scalar cps" "list_all (\<lambda>c. c \<noteq> 0) cps" shows "valid_text (utf8s cps)"
proof -
  have "0 \<notin> set (utf8s cps)" using assms by (induction cps) (auto simp: utf8_no_nul)
  then show ?thesis using assms(1) by (auto simp: valid_text_def wf_utf8_def)
qed

lemma utf8s_length_le: "length (utf8s cps) \<le> 4 * length cps"
  using utf8_length(2) by (induction cps) (auto intro: add_mono)

text \<open>The part of \<^verbatim>\<open>ucb_str_append_cp\<close> that writes into the reserved room of \<open>n\<close> bytes.\<close>

definition append_cp_room :: "mem_env \<Rightarrow> nat \<Rightarrow> ucb_cp list \<Rightarrow> nat \<Rightarrow> ucb_str \<Rightarrow> (bool \<times> ucb_str) result" where
  "append_cp_room me M cps n s = rbind (mem_of s) (\<lambda>m.
       rbind (mem_read (drop (s_size s) m) n) (\<lambda>window.
       rbind (ucb_buffer_init_static (Some window)) (\<lambda>buf.
       rbind (ucb_uc_encode_codepoints me M buf cps) (\<lambda>(r, buf).
       rbind (mem_put (s_size s) (block buf) m) (\<lambda>m.
       if r = EncOk then
         rbind (mem_put (s_size s + b_size buf) [0] m) (\<lambda>m.
         Ret (True, s\<lparr>s_blk := BMem m, s_size := s_size s + b_size buf\<rparr>))
       else Ret (False, s\<lparr>s_blk := BMem m\<rparr>))))))"

lemma append_cp_reserves:
  assumes "list_all (\<lambda>c. c \<noteq> 0) cps" "4 * length cps \<le> PTRDIFF_MAX"
  shows "ucb_str_append_cp me M s cps = rbind (ucb_str_reserve me s (4 * length cps)) (\<lambda>(ok, s).
    if \<not> ok then Ret (False, s) else append_cp_room me M cps (4 * length cps) s)"
  unfolding ucb_str_append_cp_def append_cp_room_def Let_def usize_PTRDIFF(1) [OF assms(2)] using assms(1) by simp

lemma append_cp_spec:
  assumes f: "\<not> fatal_returns me" and ok: "str_ok s" and M: "3 \<le> M"
    and cp: "list_all is_scalar cps" "cps \<noteq> []" "4 * length cps \<le> PTRDIFF_MAX"
  shows "always (ucb_str_append_cp me M s cps) (\<lambda>(r, s'). r = reserves s (4 * length cps) \<and> str_ok s'
    \<and> str_text s' = (if r then str_text s @ utf8s cps else str_text s))"
proof (cases "list_all (\<lambda>c. c \<noteq> 0) cps")
  case True
  let ?n = "4 * length cps"
  have vt: "valid_text (utf8s cps)" by (rule valid_text_utf8s [OF cp(1) True])
  define tl where "tl = append_cp_room me M cps ?n"
  have enc: "\<exists>m3. tl s1 = Ret (True, s1\<lparr>s_blk := BMem m3, s_size := s_size s1 + length (utf8s cps)\<rparr>)
      \<and> take (s_size s1 + length (utf8s cps)) m3 = str_text s1 @ utf8s cps
      \<and> m3 ! (s_size s1 + length (utf8s cps)) = 0 \<and> length m3 = s_alloc s1"
    if s1: "str_ok s1" "s_alloc s1 = s_size s1 + ?n + 1" for s1
  proof -
    obtain m where m: "s_blk s1 = BMem m" "mem_of s1 = Ret m" "length m \<le> PTRDIFF_MAX" "length m = s_alloc s1"
      "take (s_size s1) m = str_text s1" using s1 by (auto elim!: str_okE)
    define w where "w = take ?n (drop (s_size s1) m)"
    have w: "length w = ?n" "w \<noteq> []" using m(4) s1(2) cp(2) by (auto simp: w_def)
    define b0 where "b0 = zero_buffer\<lparr>b_data := Some w, b_alloc := length w\<rparr>"
    have i: "ucb_buffer_init_static (Some w) = Ret b0" using w(2) by (simp add: ucb_buffer_init_static_def b0_def)
    have b0: "buffer_ok b0" "b_size b0 = 0" "b_alloc b0 = ?n" "buffer_bytes b0 = []"
      using w(1) cp(3) by (simp_all add: b0_def zero_buffer_def buffer_ok_def buffer_bytes_def)
    obtain b where b: "ucb_uc_encode_codepoints me M b0 cps = Ret (EncOk, b)" "buffer_ok b" "b_alloc b = ?n"
      "buffer_bytes b = utf8s cps"
      using encode_loop_room [OF b0(1), of "[]" cps M me] b0 cp(1) M utf8s_length_le [of cps]
      by (auto simp: ucb_uc_encode_codepoints_def)
    have lb: "length (block b) = ?n" "b_size b = length (utf8s cps)" "take (b_size b) (block b) = utf8s cps"
      using buffer_okD(1) [OF b(2)] buffer_okD(6) [OF b(2)] b(3,4) by (simp, simp, simp add: buffer_bytes_def)
    define m2 where "m2 = mem_write (s_size s1) (block b) m"
    define m3 where "m3 = mem_write (s_size s1 + b_size b) [0] m2"
    have l2: "length m2 = length m" using m(4) s1(2) lb(1) by (simp add: m2_def length_mem_write)
    have k: "length (take (s_size s1) m) = s_size s1" using m(4) s1(2) by simp
    have t2: "take (s_size s1 + b_size b) m2 = str_text s1 @ utf8s cps"
    proof -
      have "take (s_size s1 + b_size b) m2 = take (s_size s1) m @ take (b_size b) (block b @ drop (s_size s1 + ?n) m)"
        using k lb(1) by (simp add: m2_def mem_write_def)
      also have "take (b_size b) (block b @ drop (s_size s1 + ?n) m) = take (b_size b) (block b)"
        using lb(1,2) utf8s_length_le [of cps] by simp
      finally show ?thesis using lb(3) m(5) by simp
    qed
    have kl: "length (str_text s1 @ utf8s cps) = s_size s1 + b_size b" using s1(1) lb(2) by (auto elim: str_okE)
    have m3: "m3 = (str_text s1 @ utf8s cps) @ [0] @ drop (s_size s1 + b_size b + 1) m2"
      unfolding m3_def mem_write_def [of "s_size s1 + b_size b"] t2 by simp
    have le: "s_size s1 + b_size b < length m2" using l2 m(4) s1(2) lb(2) utf8s_length_le [of cps] by simp
    have "take (s_size s1 + b_size b) m3 = str_text s1 @ utf8s cps"
      unfolding m3 by (rule take_append_len [OF kl])
    moreover have "m3 ! (s_size s1 + b_size b) = 0" unfolding m3 using kl by (metis append_Cons nth_append_length)
    moreover have "length m3 = s_alloc s1" using le l2 m(4) by (simp add: m3_def length_mem_write)
    moreover have "mem_read (drop (s_size s1) m) ?n = Ret w" using m(4) s1(2) by (simp add: w_def)
    ultimately show ?thesis using m(2,4) s1(2) i b(1) lb(1) le l2
      by (intro exI [of _ m3]) (simp add: tl_def append_cp_room_def m2_def [symmetric] m3_def [symmetric] flip: lb(2))
  qed
  have e: "ucb_str_append_cp me M s cps = rbind (ucb_str_reserve me s ?n) (\<lambda>(ok, s).
      if \<not> ok then Ret (False, s) else tl s)"
    unfolding tl_def by (rule append_cp_reserves [OF True cp(3)])
  show ?thesis unfolding e
  proof (rule always_bind [OF reserve_spec [OF f ok cp(3)]], clarify)
    fix r s1
    assume a: "str_ok s1" "str_text s1 = str_text s"
      "if reserves s ?n then s_alloc s1 > 0 \<and> (?n > 0 \<or> s_alloc s = 0 \<longrightarrow> s_alloc s1 = s_size s + ?n + 1)
       else s1 = s"
    show "always (if \<not> reserves s ?n then Ret (False, s1) else tl s1) (\<lambda>(r, s'). r = reserves s ?n \<and> str_ok s'
        \<and> str_text s' = (if r then str_text s @ utf8s cps else str_text s))"
    proof (cases "reserves s ?n")
      case True
      have sz: "s_size s1 = s_size s" using a(1,2) ok by (auto elim!: str_okE)
      then have al: "s_alloc s1 = s_size s1 + ?n + 1" using a(3) True cp(2) by simp
      obtain m3 where m3: "tl s1 = Ret (True, s1\<lparr>s_blk := BMem m3, s_size := s_size s1 + length (utf8s cps)\<rparr>)"
        "take (s_size s1 + length (utf8s cps)) m3 = str_text s1 @ utf8s cps"
        "m3 ! (s_size s1 + length (utf8s cps)) = 0" "length m3 = s_alloc s1"
        using enc [OF a(1) al] by blast
      have "s_alloc s1 \<le> PTRDIFF_MAX" "valid_text (str_text s1)" using a(1) al by (auto elim!: str_okE)
      then show ?thesis using m3 True al a(2) utf8s_length_le [of cps] valid_text_append [OF _ vt]
        by (simp add: str_ok_def str_text_def)
    qed (use a in simp)
  qed
qed (simp add: ucb_str_append_cp_def)

lemma insert_cp_spec:
  assumes f: "\<not> fatal_returns me" and T: "uc_tables_ok T" and ok: "str_ok s" and M: "3 \<le> M"
    and c: "list_all is_scalar cps" "str_text s = utf8s cps"
    and cp: "list_all is_scalar ins" "4 * length ins \<le> PTRDIFF_MAX"
  shows "always (ucb_str_insert_cp me T M s index ins) (\<lambda>(r, s'). str_ok s'
     \<and> (if ins = [] then r = None \<and> s' = s
        else if index > length (clusters T cps) then r = Some InsertOutOfRange \<and> s' = s
        else r = None \<and> (if reserves s (length (utf8s ins)) then str_text s' = insert_before T cps index (utf8s ins)
                         else s' = s)))"
proof (cases "list_all (\<lambda>c. c \<noteq> 0) ins \<and> ins \<noteq> [] \<and> index \<le> length (clusters T cps)")
  case True
  then have nz: "list_all (\<lambda>c. c \<noteq> 0) ins" and ne: "ins \<noteq> []" and le: "index \<le> length (clusters T cps)" by simp_all
  let ?pos = "length (utf8s (concat (take index (clusters T cps))))" and ?n = "4 * length ins"
  obtain m rest where m: "mem_of s = Ret m" "m = utf8s cps @ rest" "s_size s = length (utf8s cps)"
    "s_size s \<le> PTRDIFF_MAX" using str_scalars [OF ok] c utf8s_inject by metis
  note pos = map_char_pos_spec [OF T c(1) m(1)[unfolded m(2)] m(3,4), of index]
  have vt: "valid_text (utf8s ins)" by (rule valid_text_utf8s [OF cp(1) nz])
  have une: "utf8s ins \<noteq> []" using ne by (cases ins) simp_all
  define b0 where "b0 = zero_buffer\<lparr>b_data := Some (replicate ?n 0), b_alloc := ?n, b_impl := ImplHeap\<rparr>"
  have b0: "buffer_ok b0" "b_size b0 = 0" "b_alloc b0 = ?n" "buffer_bytes b0 = []"
    using cp(2) by (simp_all add: b0_def zero_buffer_def buffer_ok_def buffer_bytes_def)
  obtain b where b: "ucb_uc_encode_codepoints me M b0 ins = Ret (EncOk, b)" "buffer_ok b" "b_alloc b = ?n"
    "buffer_bytes b = utf8s ins"
    using encode_loop_room [OF b0(1), of "[]" ins M me] b0 cp(1) M utf8s_length_le [of ins]
    by (auto simp: ucb_uc_encode_codepoints_def)
  have bs: "b_size b = length (utf8s ins)" using buffer_okD(6) [OF b(2)] b(4) by simp
  have st: "src_text (block b) (length (utf8s ins)) (utf8s ins)"
    using buffer_okD(1,2,3) [OF b(2)] b(4) bs une by (simp add: src_text_def buffer_bytes_def)
  have d: "deref s (CExt (block b)) = Ret (block b)" by (simp add: deref_def)
  have h: "ucb_buffer_init_heap me ?n = Ret (True, b0) \<or> (\<exists>e. ucb_buffer_init_heap me ?n = Abort e)"
    using f ne by (auto simp: ucb_buffer_init_heap_def ucb_calloc_def ucb_fatal_oom_def b0_def)
  let ?R = "rbind (ucb_str_insert_at me s ?pos (CExt (block b)) (length (utf8s ins))) (\<lambda>s. Ret (None, s))"
  have e: "ucb_buffer_init_heap me ?n = Ret (True, b0) \<Longrightarrow> ucb_str_insert_cp me T M s index ins = ?R"
    "ucb_buffer_init_heap me ?n = Abort x \<Longrightarrow> ucb_str_insert_cp me T M s index ins = Abort x" for x
    using nz ne le pos b(1) bs cp(2) by (simp_all add: ucb_str_insert_cp_def)
  have "always ?R (\<lambda>(r, s'). str_ok s' \<and> r = None
      \<and> (if reserves s (length (utf8s ins)) then str_text s' = insert_before T cps index (utf8s ins) else s' = s))"
    by (rule always_bind [OF insert_at_char [OF f ok c d st une vt]]) simp
  then have R: "always ?R (\<lambda>(r, s'). str_ok s'
     \<and> (if ins = [] then r = None \<and> s' = s
        else if index > length (clusters T cps) then r = Some InsertOutOfRange \<and> s' = s
        else r = None \<and> (if reserves s (length (utf8s ins)) then str_text s' = insert_before T cps index (utf8s ins)
                         else s' = s)))"
    by (rule always_mono) (use ne le in auto)
  from h show ?thesis
  proof (elim disjE exE)
    assume hb: "ucb_buffer_init_heap me ?n = Ret (True, b0)"
    show ?thesis unfolding e(1) [OF hb] by (rule R)
  next
    fix x
    assume "ucb_buffer_init_heap me ?n = Abort x"
    then show ?thesis using e(2) by simp
  qed
next
  case False
  obtain m rest where m: "mem_of s = Ret m" "m = utf8s cps @ rest" "s_size s = length (utf8s cps)"
    "s_size s \<le> PTRDIFF_MAX" using str_scalars [OF ok] c utf8s_inject by metis
  note pos = map_char_pos_spec [OF T c(1) m(1)[unfolded m(2)] m(3,4), of index]
  show ?thesis
  proof (cases "list_all (\<lambda>c. c \<noteq> 0) ins \<and> ins \<noteq> []")
    case True
    then have "index > length (clusters T cps)" using False by simp
    then show ?thesis using True ok pos by (simp add: ucb_str_insert_cp_def)
  next
    case no: False
    then show ?thesis using ok by (cases "ins = []") (simp_all add: ucb_str_insert_cp_def verify_def)
  qed
qed

text \<open>
  Arbitrary code points.  A failed \<^verbatim>\<open>ucb_str_append_cp\<close> may have written encodings into the block
  behind the text, over the terminator: the block, the length and the text are still those of the
  string.  A failed \<^verbatim>\<open>ucb_str_insert_cp\<close> has not touched the string.
\<close>

definition str_whole :: "ucb_str \<Rightarrow> ucb_str \<Rightarrow> bool" where
  "str_whole s s' \<longleftrightarrow> (\<exists>m. s_blk s' = BMem m \<and> s_size s' = s_size s \<and> s_size s' < length m
     \<and> length m = (if s_alloc s' = 0 then 1 else s_alloc s') \<and> take (s_size s') m = str_text s)"

lemma str_whole_ok: "str_ok s' \<Longrightarrow> str_text s' = str_text s \<Longrightarrow> str_ok s \<Longrightarrow> str_whole s s'"
  by (auto simp: str_whole_def str_ok_def str_text_def split: cblock.splits if_splits dest: arg_cong [of _ _ length])

lemma append_no_cp: "str_ok s \<Longrightarrow> always (append_cp_room me M [] 0 s) P"
  by (auto simp: append_cp_room_def ucb_buffer_init_static_def elim!: str_okE)

lemma append_cp_any:
  assumes f: "\<not> fatal_returns me" and ok: "str_ok s" and M: "3 \<le> M" and n: "4 * length cps \<le> PTRDIFF_MAX"
  shows "always (ucb_str_append_cp me M s cps) (\<lambda>(r, s'). if r then str_ok s' else str_whole s s')"
proof (cases "list_all is_scalar cps \<and> cps \<noteq> []")
  case True
  then show ?thesis
    by (intro always_mono [OF append_cp_spec [OF f ok M _ _ n]]) (auto intro: str_whole_ok [OF _ _ ok])
next
  case False
  let ?n = "4 * length cps"
  show ?thesis
  proof (cases "list_all (\<lambda>c. c \<noteq> 0) cps")
    case False
    then show ?thesis by (simp add: ucb_str_append_cp_def)
  next
    case nz: True
    have step: "always (append_cp_room me M cps ?n s1) (\<lambda>(r, s'). if r then str_ok s' else str_whole s s')"
      if s1: "str_ok s1" "str_text s1 = str_text s" "s_alloc s1 = s_size s + ?n + 1" and ne: "cps \<noteq> []" for s1
    proof -
      obtain m where m: "mem_of s1 = Ret m" "length m = s_alloc s1" "take (s_size s1) m = str_text s1"
        using s1 by (auto elim!: str_okE)
      have sz: "s_size s1 = s_size s" using s1(1,2) ok by (auto elim!: str_okE)
      define w where "w = take ?n (drop (s_size s1) m)"
      have w: "length w = ?n" "w \<noteq> []" "mem_read (drop (s_size s1) m) ?n = Ret w"
        using m(2) s1(3) sz ne by (auto simp: w_def)
      define b0 where "b0 = zero_buffer\<lparr>b_data := Some w, b_alloc := length w\<rparr>"
      have i: "ucb_buffer_init_static (Some w) = Ret b0" using w(2) by (simp add: ucb_buffer_init_static_def b0_def)
      have b0: "buffer_ok b0" "b_size b0 = 0" "b_alloc b0 = ?n"
        using w(1) n by (simp_all add: b0_def zero_buffer_def buffer_ok_def)
      obtain r b where b: "ucb_uc_encode_codepoints me M b0 cps = Ret (r, b)" "r \<noteq> EncOk" "length (block b) = ?n"
        using encode_loop_room_any [OF b0(1), of "[]" cps M me] b0 M False ne nz buffer_okD(1)
        by (auto simp: ucb_uc_encode_codepoints_def)
      have "take (s_size s1) (mem_write (s_size s1) (block b) m) = take (s_size s1) m"
        using m(2) s1(3) sz by (simp add: mem_write_def)
      then show ?thesis using m s1 sz i b w(3)
        by (auto simp: append_cp_room_def str_whole_def length_mem_write)
    qed
    show ?thesis unfolding append_cp_reserves [OF nz n]
    proof (rule always_bind [OF reserve_spec [OF f ok n]], clarify)
      fix r s1
      assume a: "str_ok s1" "str_text s1 = str_text s"
        "if reserves s ?n then s_alloc s1 > 0 \<and> (?n > 0 \<or> s_alloc s = 0 \<longrightarrow> s_alloc s1 = s_size s + ?n + 1)
         else s1 = s"
      show "always (if \<not> reserves s ?n then Ret (False, s1) else append_cp_room me M cps ?n s1)
         (\<lambda>(r, s'). if r then str_ok s' else str_whole s s')"
        using step [of s1] a append_no_cp [OF a(1)] str_whole_ok [OF a(1,2) ok]
        by (cases "cps = []"; cases "reserves s ?n") simp_all
    qed
  qed
qed

lemma insert_cp_any:
  assumes f: "\<not> fatal_returns me" and T: "uc_tables_ok T" and ok: "str_ok s" and M: "3 \<le> M"
    and n: "4 * length ins \<le> PTRDIFF_MAX"
  shows "always (ucb_str_insert_cp me T M s index ins) (\<lambda>(r, s'). str_ok s' \<and> (r \<noteq> None \<longrightarrow> s' = s))"
proof -
  obtain cps m rest where c: "list_all is_scalar cps" "str_text s = utf8s cps" and m: "mem_of s = Ret m"
    "m = utf8s cps @ rest" "s_size s = length (utf8s cps)" "s_size s \<le> PTRDIFF_MAX"
    using str_scalars [OF ok] by metis
  show ?thesis
  proof (cases "list_all is_scalar ins")
    case True
    show ?thesis
      by (rule always_mono [OF insert_cp_spec [OF f T ok M c True n]]) (auto split: if_splits)
  next
    case False
    let ?n = "4 * length ins"
    note pos = map_char_pos_spec [OF T c(1) m(1)[unfolded m(2)] m(3,4), of index]
    define b0 where "b0 = zero_buffer\<lparr>b_data := Some (replicate ?n 0), b_alloc := ?n, b_impl := ImplHeap\<rparr>"
    have b0: "buffer_ok b0" "b_size b0 = 0" "b_alloc b0 = ?n"
      using n by (simp_all add: b0_def zero_buffer_def buffer_ok_def)
    have ne: "ins \<noteq> []" using False by auto
    have h: "ucb_buffer_init_heap me ?n = Ret (True, b0) \<or> (\<exists>e. ucb_buffer_init_heap me ?n = Abort e)"
      using f ne by (auto simp: ucb_buffer_init_heap_def ucb_calloc_def ucb_fatal_oom_def b0_def)
    obtain c b where b: "ucb_uc_encode_codepoints me M b0 ins = Ret (EncInvalid c, b)"
      using encode_loop_room_any [OF b0(1), of "[]" ins M me] b0 M False
      by (auto simp: ucb_uc_encode_codepoints_def)
    show ?thesis using h b ok pos n ne by (auto simp: ucb_str_insert_cp_def verify_def)
  qed
qed

section \<open>Concatenation and substrings\<close>

lemma concat_sizes_eq:
  "z + sum_list (map s_size as) \<le> SIZE_MAX \<Longrightarrow> concat_sizes z as = z + sum_list (map s_size as)"
  by (induction as arbitrary: z) (simp_all add: usize_id add.assoc)

lemma concat_copy_spec:
  assumes "list_all str_ok as" "off + sum_list (map s_size as) \<le> length dst"
  shows "\<exists>dst'. concat_copy dst off as = Ret dst' \<and> length dst' = length dst
    \<and> take (off + sum_list (map s_size as)) dst' = take off dst @ concat (map str_text as)"
  using assms
proof (induction as arbitrary: dst off)
  case (Cons a as)
  obtain m where m: "mem_of a = Ret m" "str_text a = take (s_size a) m" "s_size a < length m"
    "length (str_text a) = s_size a" using Cons.prems(1) by (auto elim: str_okE)
  have p: "off + length (str_text a) \<le> length dst" using Cons.prems(2) m(4) by simp
  define d1 where "d1 = mem_write off (str_text a) dst"
  have l: "length d1 = length dst" using p by (simp add: d1_def length_mem_write)
  have t: "take (off + s_size a) d1 = take off dst @ str_text a"
    using take_mem_write [of off dst "str_text a"] p m(4) by (simp add: d1_def)
  have "concat_copy dst off (a # as) = concat_copy d1 (off + s_size a) as"
    using m p by (simp add: d1_def)
  then show ?case using Cons.IH [of "off + s_size a" d1] Cons.prems l t by (simp add: add.assoc)
qed simp

lemma new_tight:
  assumes f: "\<not> fatal_returns me" and src: "case cstr of None \<Rightarrow> t = [] | Some mem \<Rightarrow> src_text mem len t"
  shows "always (ucb_str_new me cstr len) (\<lambda>r. \<exists>s. r = Some s \<and> valid_text t \<and> str_ok s \<and> str_text s = t
    \<and> (cstr \<noteq> None \<longrightarrow> tight s))"
proof -
  have m: "always (ucb_malloc me sizeof_ucb_str) (\<lambda>ok. ok \<and> sizeof_ucb_str \<le> PTRDIFF_MAX)"
    using always_malloc [OF f] by (simp add: sizeof_ucb_str_def)
  have i: "always (rbind (ucb_str_init_common me str_zero cstr len) (\<lambda>(ok, s). Ret (if ok then Some s else None)))
      (\<lambda>r. \<exists>s. r = Some s \<and> valid_text t \<and> str_ok s \<and> str_text s = t \<and> (cstr \<noteq> None \<longrightarrow> tight s))"
    by (rule always_bind [OF init_common_spec [OF f src]]) (auto simp: tight_def elim: str_okE)
  show ?thesis unfolding ucb_str_new_def by (rule always_bind [OF m]) (use i in simp)
qed

lemma new_spec:
  assumes "\<not> fatal_returns me" "case cstr of None \<Rightarrow> t = [] | Some mem \<Rightarrow> src_text mem len t"
  shows "always (ucb_str_new me cstr len) (\<lambda>r. \<exists>s. r = Some s \<and> valid_text t \<and> str_ok s \<and> str_text s = t)"
  by (rule always_mono [OF new_tight [OF assms]]) auto

lemma concatv_spec:
  assumes f: "\<not> fatal_returns me" and ok: "str_ok s" "list_all str_ok as"
    and sz: "s_size s + sum_list (map s_size as) < SIZE_MAX"
  shows "always (ucb_str_concatv me s as) (\<lambda>r. \<exists>s'. r = Some s' \<and> str_ok s'
    \<and> str_text s' = str_text s @ concat (map str_text as))"
proof -
  let ?n = "s_size s + sum_list (map s_size as)" and ?t = "str_text s @ concat (map str_text as)"
  obtain m where m: "mem_of s = Ret m" "str_text s = take (s_size s) m" "s_size s < length m"
    "length (str_text s) = s_size s" "valid_text (str_text s)" using ok(1) by (auto elim: str_okE)
  have cs: "concat_sizes (s_size s) as = ?n" using sz by (intro concat_sizes_eq) simp
  have u: "usize (?n + 1) = ?n + 1" using sz by (intro usize_id) simp
  have lt: "length ?t = ?n" using ok m(4)
    by (induction as arbitrary: s) (auto elim: str_okE simp: length_concat)
  have vt: "valid_text ?t"
  proof -
    have "valid_text (concat (map str_text as))" using ok(2)
      by (induction as) (auto intro!: valid_text_append elim: str_okE)
    then show ?thesis using m(5) valid_text_append by blast
  qed
  show ?thesis
  proof (cases "?n = 0")
    case True
    then have "?t = []" using lt by (metis length_0_conv)
    moreover have "always (ucb_str_new me None 0) (\<lambda>r. \<exists>s. r = Some s \<and> valid_text [] \<and> str_ok s \<and> str_text s = [])"
      by (rule new_spec [OF f]) simp
    ultimately show ?thesis using True cs unfolding ucb_str_concatv_def Let_def by (auto intro: always_mono)
  next
    case False
    have a1: "always (ucb_malloc me sizeof_ucb_str) (\<lambda>ok. ok)"
      using always_malloc [OF f, of sizeof_ucb_str] by (auto simp: sizeof_ucb_str_def intro: always_mono)
    have a2: "always (ucb_malloc me (?n + 1)) (\<lambda>ok. ok \<and> ?n + 1 \<le> PTRDIFF_MAX)"
      using always_malloc [OF f, of "?n + 1"] by simp
    define d0 where "d0 = mem_write 0 (str_text s) (new_block me (?n + 1))"
    have d0: "length d0 = ?n + 1" "take (s_size s) d0 = str_text s"
      using m(4) take_mem_write [of 0 "new_block me (?n + 1)" "str_text s"]
      by (simp_all add: d0_def length_mem_write)
    obtain d1 where d1: "concat_copy d0 (s_size s) as = Ret d1" "length d1 = ?n + 1" "take ?n d1 = ?t"
      using concat_copy_spec [OF ok(2), of "s_size s" d0] d0 by auto
    define d2 where "d2 = mem_write ?n [0] d1"
    have d2e: "d2 = ?t @ [0] @ drop (?n + 1) d1" unfolding d2_def mem_write_def d1(3) by simp
    have d2: "take (length ?t) d2 = ?t" "d2 ! length ?t = 0" "length d2 = ?n + 1"
    proof -
      show "take (length ?t) d2 = ?t" unfolding d2e by (rule take_append_len [OF refl])
      show "d2 ! length ?t = 0" unfolding d2e by (metis append_Cons nth_append_length)
      show "length d2 = ?n + 1" using d1(2) by (simp add: d2_def length_mem_write)
    qed
    have fin: "str_ok \<lparr>s_blk = BMem d2, s_size = ?n, s_alloc = ?n + 1\<rparr>
        \<and> str_text \<lparr>s_blk = BMem d2, s_size = ?n, s_alloc = ?n + 1\<rparr> = ?t" if "?n + 1 \<le> PTRDIFF_MAX"
      using str_ok_owned [OF vt, of d2] d2 that lt by simp
    have e: "ucb_str_concatv me s as =
        rbind (ucb_malloc me sizeof_ucb_str) (\<lambda>ok. if \<not> ok then Ret None else
        rbind (ucb_malloc me (?n + 1)) (\<lambda>ok. if \<not> ok then Ret None else
        Ret (Some \<lparr>s_blk = BMem d2, s_size = ?n, s_alloc = ?n + 1\<rparr>)))"
    proof -
      have r: "mem_read m (s_size s) = Ret (str_text s)" "mem_put 0 (str_text s) (new_block me (?n + 1)) = Ret d0"
        "mem_put ?n [0] d1 = Ret d2" using m(2,3,4) d1(2) by (simp_all add: d0_def d2_def)
      show ?thesis unfolding ucb_str_concatv_def Let_def cs u m(1) rbind.simps r d1(1) using False by (simp only: if_False)
    qed
    have "always (rbind (ucb_malloc me (?n + 1)) (\<lambda>ok. if \<not> ok then Ret None else
        Ret (Some \<lparr>s_blk = BMem d2, s_size = ?n, s_alloc = ?n + 1\<rparr>)))
        (\<lambda>r. \<exists>s'. r = Some s' \<and> str_ok s' \<and> str_text s' = ?t)"
      by (rule always_bind [OF a2]) (use fin in simp)
    then show ?thesis unfolding e by (intro always_bind [OF a1]) simp
  qed
qed

text \<open>
  The text \<^verbatim>\<open>ucb_str_substr\<close> copies: the range, except that an empty range reaches to the end of
  the string, because a length of 0 makes \<^verbatim>\<open>ucb_str_new\<close> measure its source with \<^verbatim>\<open>strlen\<close>.
\<close>

definition substr_text :: "byte list \<Rightarrow> nat \<Rightarrow> nat \<Rightarrow> byte list" where
  "substr_text t start stop = (if start = stop then drop start t else take (stop - start) (drop start t))"

lemma substr_spec:
  assumes f: "\<not> fatal_returns me" and ok: "str_ok s" and r: "start \<le> stop" "stop \<le> s_size s"
  shows "always (ucb_str_substr me s start stop) (\<lambda>r. \<exists>s'. r = Some s' \<and> str_ok s'
    \<and> str_text s' = substr_text (str_text s) start stop)"
proof -
  obtain m where m: "mem_of s = Ret m" "str_text s = take (s_size s) m" "s_size s < length m"
    "length (str_text s) = s_size s" "m ! s_size s = 0" "length m \<le> PTRDIFF_MAX" "valid_text (str_text s)"
    "s_size s \<le> PTRDIFF_MAX" using ok by (auto elim: str_okE)
  let ?t = "substr_text (str_text s) start stop"
  have np: "stop \<noteq> UCB_NPOS" using r m(8) NPOS_bound [of stop] by simp
  have "drop start m = drop start (str_text s) @ 0 # drop (Suc (s_size s)) m"
  proof -
    have "m = str_text s @ 0 # drop (Suc (s_size s)) m"
      using m(2,3,5) by (metis id_take_nth_drop)
    then have "drop start m = drop start (str_text s @ 0 # drop (Suc (s_size s)) m)" by simp
    also have "\<dots> = drop start (str_text s) @ 0 # drop (Suc (s_size s)) m" using r m(4) by simp
    finally show ?thesis .
  qed
  note dm = this
  have z: "0 \<notin> set (drop start (str_text s))" using m(7) by (auto simp: valid_text_def dest: in_set_dropD)
  have st: "src_text (drop start m) (stop - start) ?t"
  proof (cases "start = stop")
    case True
    have "c_strlen (drop start m) = Ret (length ?t)" unfolding dm using c_strlen_term [OF z] True by (simp add: substr_text_def)
    moreover have "take (length ?t) (drop start m) = ?t" unfolding dm using True by (simp add: substr_text_def)
    ultimately show ?thesis using True m(3,4,6) by (auto simp: src_text_def substr_text_def)
  next
    case False
    then have "length ?t = stop - start" using r m(4) by (simp add: substr_text_def)
    moreover have "take (stop - start) (drop start m) = ?t"
      unfolding dm using False r m(4) by (simp add: substr_text_def)
    ultimately show ?thesis using False r m(3,6) by (auto simp: src_text_def)
  qed
  have "ucb_str_substr me s start stop = ucb_str_new me (Some (drop start m)) (stop - start)"
    using r np m(1,3) by (simp add: ucb_str_substr_def)
  moreover have "always (ucb_str_new me (Some (drop start m)) (stop - start))
      (\<lambda>r. \<exists>s. r = Some s \<and> valid_text ?t \<and> str_ok s \<and> str_text s = ?t)"
    by (rule new_spec [OF f]) (use st in simp)
  ultimately show ?thesis by (auto intro: always_mono)
qed

section \<open>Comparison and search\<close>

lemma byte_cmp_take:
  "byte_cmp (take (min (length a) (length b)) a) (take (min (length a) (length b)) b) = byte_cmp a b"
  by (induction a b rule: byte_cmp.induct) auto

lemma Nil_less_iff: "[] < (xs :: byte list) \<longleftrightarrow> xs \<noteq> []"
  by (cases xs) auto

lemma byte_cmp_less:
  "(byte_cmp a b < 0 \<or> byte_cmp a b = 0 \<and> length a < length b) \<longleftrightarrow> a < b"
  by (induction a b rule: byte_cmp.induct) (auto simp: not_less_iff_gr_or_eq Nil_less_iff)

lemma byte_cmp_eq: "length a = length b \<Longrightarrow> byte_cmp a b = 0 \<longleftrightarrow> a = b"
  by (induction a b rule: byte_cmp.induct) auto

lemma byte_cmp_prefix: "byte_cmp a b = 0 \<Longrightarrow> length a \<le> length b \<Longrightarrow> take (length a) b = a"
  by (induction a b rule: byte_cmp.induct) (auto split: if_splits)

lemma c_memcmp_eq:
  assumes "n \<le> length m1" "n \<le> length m2"
  shows "c_memcmp m1 m2 n = Ret (byte_cmp (take n m1) (take n m2))"
  using assms by (simp add: c_memcmp_def)

lemma str_mem:
  assumes "str_ok s"
  obtains m where "mem_of s = Ret m" "take (s_size s) m = str_text s" "s_size s \<le> length m"
    "length (str_text s) = s_size s" "s_size s \<le> PTRDIFF_MAX"
  using assms by (auto elim!: str_okE)

lemma equal_spec:
  assumes "str_ok s1" "str_ok s2"
  shows "ucb_str_equal s1 s2 = Ret (str_text s1 = str_text s2)"
proof -
  obtain m1 where m1: "mem_of s1 = Ret m1" "take (s_size s1) m1 = str_text s1" "s_size s1 \<le> length m1"
    "length (str_text s1) = s_size s1" using str_mem [OF assms(1)] .
  obtain m2 where m2: "mem_of s2 = Ret m2" "take (s_size s2) m2 = str_text s2" "s_size s2 \<le> length m2"
    "length (str_text s2) = s_size s2" using str_mem [OF assms(2)] .
  show ?thesis
  proof (cases "s_size s1 = s_size s2")
    case True
    then show ?thesis using m1 m2 byte_cmp_eq [of "str_text s1" "str_text s2"]
      by (simp add: ucb_str_equal_def c_memcmp_eq)
  next
    case False
    then show ?thesis using m1(4) m2(4) by (auto simp: ucb_str_equal_def)
  qed
qed

lemma sint_small: "- (2 ^ 31) \<le> d \<Longrightarrow> d < 2 ^ 31 \<Longrightarrow> sint (word_of_int d :: 32 word) = d"
  by (simp add: signed_of_int signed_take_bit_int_eq_self)

lemma comp_spec:
  assumes "str_ok s1" "str_ok s2" "s_size s1 < 2 ^ 31" "s_size s2 < 2 ^ 31"
  shows "\<exists>c. ucb_str_comp s1 s2 = Ret c \<and> (c < 0 \<longleftrightarrow> str_text s1 < str_text s2)
    \<and> (c = 0 \<longleftrightarrow> str_text s1 = str_text s2)"
proof -
  obtain m1 where m1: "mem_of s1 = Ret m1" "take (s_size s1) m1 = str_text s1" "s_size s1 \<le> length m1"
    "length (str_text s1) = s_size s1" using str_mem [OF assms(1)] .
  obtain m2 where m2: "mem_of s2 = Ret m2" "take (s_size s2) m2 = str_text s2" "s_size s2 \<le> length m2"
    "length (str_text s2) = s_size s2" using str_mem [OF assms(2)] .
  let ?n = "min (s_size s1) (s_size s2)" and ?b = "byte_cmp (str_text s1) (str_text s2)"
  have t: "take ?n m1 = take ?n (str_text s1)" "take ?n m2 = take ?n (str_text s2)"
    by (simp_all flip: m1(2) m2(2) add: min_def)
  have cm: "c_memcmp m1 m2 ?n = Ret ?b"
    using c_memcmp_eq [of ?n m1 m2] byte_cmp_take [of "str_text s1" "str_text s2"] m1(3,4) m2(3,4) t by simp
  let ?d = "int (s_size s1) - int (s_size s2)"
  have "sint (word_of_int ?d :: 32 word) = ?d" using assms(3,4) by (intro sint_small) auto
  then have "ucb_str_comp s1 s2 = Ret (if ?b \<noteq> 0 then ?b else ?d)"
  proof -
    have "(if s_size s1 < s_size s2 then s_size s1 else s_size s2) = ?n" by simp
    then show ?thesis using m1(1) m2(1) cm \<open>sint _ = ?d\<close> unfolding ucb_str_comp_def Let_def by simp
  qed
  moreover have "str_text s1 < str_text s2 \<longleftrightarrow> ?b < 0 \<or> ?b = 0 \<and> s_size s1 < s_size s2"
    using byte_cmp_less [of "str_text s1" "str_text s2"] m1(4) m2(4) by simp
  moreover have "str_text s1 = str_text s2 \<longleftrightarrow> ?b = 0 \<and> s_size s1 = s_size s2"
    using byte_cmp_eq [of "str_text s1" "str_text s2"] m1(4) m2(4) by auto
  ultimately show ?thesis by (intro exI [of _ "if ?b \<noteq> 0 then ?b else ?d"]) auto
qed

lemma startswith_spec:
  assumes "str_ok s" "str_ok p"
  shows "ucb_str_startswith s p = Ret (take (length (str_text p)) (str_text s) = str_text p)"
proof -
  obtain m1 where m1: "mem_of s = Ret m1" "take (s_size s) m1 = str_text s" "s_size s \<le> length m1"
    "length (str_text s) = s_size s" using str_mem [OF assms(1)] .
  obtain m2 where m2: "mem_of p = Ret m2" "take (s_size p) m2 = str_text p" "s_size p \<le> length m2"
    "length (str_text p) = s_size p" using str_mem [OF assms(2)] .
  show ?thesis
  proof (cases "s_size p \<le> s_size s")
    case True
    then have "take (s_size p) m1 = take (s_size p) (str_text s)" by (simp flip: m1(2) add: min_def)
    then show ?thesis using True m1 m2 byte_cmp_eq [of "take (s_size p) (str_text s)" "str_text p"]
      by (simp add: ucb_str_startswith_def c_memcmp_eq)
  next
    case False
    then have "take (length (str_text p)) (str_text s) \<noteq> str_text p"
      using m1(4) m2(4) by (metis length_take min.cobounded1)
    then show ?thesis using False by (simp add: ucb_str_startswith_def)
  qed
qed

lemma endswith_spec:
  assumes "str_ok s" "str_ok p"
  shows "ucb_str_endswith s p = Ret (\<exists>front. str_text s = front @ str_text p)"
proof -
  obtain m1 where m1: "mem_of s = Ret m1" "take (s_size s) m1 = str_text s" "s_size s \<le> length m1"
    "length (str_text s) = s_size s" using str_mem [OF assms(1)] .
  obtain m2 where m2: "mem_of p = Ret m2" "take (s_size p) m2 = str_text p" "s_size p \<le> length m2"
    "length (str_text p) = s_size p" using str_mem [OF assms(2)] .
  show ?thesis
  proof (cases "s_size p \<le> s_size s")
    case True
    let ?k = "s_size s - s_size p"
    have "take (s_size p) (drop ?k m1) = drop ?k (str_text s)"
      using True by (simp flip: m1(2) add: drop_take)
    moreover have "drop ?k (str_text s) = str_text p \<longleftrightarrow> (\<exists>front. str_text s = front @ str_text p)"
      using True m1(4) m2(4) by (metis append_take_drop_id append_eq_conv_conj length_append
          add_diff_cancel_right')
    ultimately show ?thesis using True m1 m2 byte_cmp_eq [of "drop ?k (str_text s)" "str_text p"]
      by (simp add: ucb_str_endswith_def c_memcmp_eq)
  next
    case False
    then have "\<not> (\<exists>front. str_text s = front @ str_text p)" using m1(4) m2(4) by auto
    then show ?thesis using False by (simp add: ucb_str_endswith_def)
  qed
qed

definition occurs_at :: "byte list \<Rightarrow> byte list \<Rightarrow> nat \<Rightarrow> bool" where
  "occurs_at t sub p \<longleftrightarrow> p + length sub \<le> length t \<and> take (length sub) (drop p t) = sub"

definition first_at :: "byte list \<Rightarrow> byte list \<Rightarrow> nat \<Rightarrow> nat" where
  "first_at t sub p =
     (if \<exists>q. p \<le> q \<and> occurs_at t sub q then LEAST q. p \<le> q \<and> occurs_at t sub q else UCB_NPOS)"

lemma first_at_here: "occurs_at t sub p \<Longrightarrow> first_at t sub p = p"
  unfolding first_at_def by (auto intro!: Least_equality)

lemma first_at_later:
  assumes "\<not> occurs_at t sub p" shows "first_at t sub p = first_at t sub (p + 1)"
proof -
  have "(p \<le> q \<and> occurs_at t sub q) = (p + 1 \<le> q \<and> occurs_at t sub q)" for q
    using assms by (metis Suc_eq_plus1 le_SucI not_less_eq_eq order_antisym)
  then show ?thesis by (simp only: first_at_def)
qed

lemma first_at_none: "(\<And>q. p \<le> q \<Longrightarrow> \<not> occurs_at t sub q) \<Longrightarrow> first_at t sub p = UCB_NPOS"
  by (auto simp: first_at_def)

lemma find_loop_spec:
  assumes "length sub = n" "n \<le> length m2" "take n m2 = sub" "take (length t) m = t" "length t \<le> length m"
    "n \<le> length t"
  shows "find_loop m m2 n (length t - n) p = Ret (first_at t sub p)"
proof (induction "Suc (length t) - p" arbitrary: p)
  case 0
  then have "\<not> occurs_at t sub q" if "p \<le> q" for q using that by (auto simp: occurs_at_def)
  then show ?case using 0 assms(6) by (subst find_loop.simps) (auto simp: first_at_none)
next
  case (Suc k)
  show ?case
  proof (cases "p \<le> length t - n")
    case False
    then have "\<not> occurs_at t sub q" if "p \<le> q" for q using that assms(1,6) by (auto simp: occurs_at_def)
    then show ?thesis using False by (subst find_loop.simps) (auto simp: first_at_none)
  next
    case True
    then have pn: "p + n \<le> length t" using assms(6) by simp
    have "take n (drop p m) = take n (drop p t)"
      using pn by (subst assms(4) [symmetric]) (simp add: drop_take min_def)
    then have c: "c_memcmp (drop p m) m2 n = Ret (byte_cmp (take n (drop p t)) sub)"
      using assms(2,3,5) pn by (simp add: c_memcmp_eq)
    have z: "byte_cmp (take n (drop p t)) sub = 0 \<longleftrightarrow> occurs_at t sub p"
      using byte_cmp_eq [of "take n (drop p t)" sub] assms(1) pn by (auto simp: occurs_at_def)
    show ?thesis
    proof (cases "occurs_at t sub p")
      case True
      then show ?thesis using \<open>p \<le> length t - n\<close> c z by (subst find_loop.simps) (simp add: first_at_here)
    next
      case no: False
      have "k = Suc (length t) - (p + 1)" using Suc.hyps(2) by simp
      from Suc.hyps(1) [OF this] show ?thesis
        using True c z no by (subst find_loop.simps) (simp add: first_at_later)
    qed
  qed
qed

lemma find_spec:
  assumes "str_ok s" "str_ok sub" "str_text sub \<noteq> []"
  shows "ucb_str_find s sub pos = Ret (first_at (str_text s) (str_text sub) pos)"
proof -
  obtain m1 where m1: "mem_of s = Ret m1" "take (s_size s) m1 = str_text s" "s_size s \<le> length m1"
    "length (str_text s) = s_size s" using str_mem [OF assms(1)] .
  obtain m2 where m2: "mem_of sub = Ret m2" "take (s_size sub) m2 = str_text sub" "s_size sub \<le> length m2"
    "length (str_text sub) = s_size sub" using str_mem [OF assms(2)] .
  have n: "s_size sub \<noteq> 0" using assms(3) m2(4) by (metis length_0_conv)
  show ?thesis
  proof (cases "pos > s_size s \<or> s_size sub > s_size s - pos")
    case True
    then have "first_at (str_text s) (str_text sub) pos = UCB_NPOS"
      using m1(4) m2(4) n by (intro first_at_none) (auto simp: occurs_at_def)
    then show ?thesis using True n by (simp add: ucb_str_find_def)
  next
    case False
    then have "s_size sub \<le> s_size s" by arith
    then show ?thesis
      using find_loop_spec [of "str_text sub" "s_size sub" m2 "str_text s" m1 pos] False n m1 m2
      by (simp add: ucb_str_find_def)
  qed
qed

section \<open>Sequences of calls\<close>

definition arg_ok :: "str_arg \<Rightarrow> bool" where
  "arg_ok a \<longleftrightarrow> (case a of SelfArg \<Rightarrow> True | OtherArg t \<Rightarrow> str_ok t)"

text \<open>
  One call on a string.  The arguments are what a caller can pass without breaking C: a source is
  readable for its length (or up to its terminator), a string argument is well formed, an array
  of code points is in memory.  Nothing is asked of the contents: sources need not be UTF-8 and
  code points, of which there may be none, need not be scalar values.  The outcome is the string
  after the call; its flag is false exactly when \<^verbatim>\<open>ucb_str_append_cp\<close> returned false, which is the
  one failure that may leave something behind (\<open>append_cp_failure_loses_terminator\<close>).
\<close>

inductive str_call ::
    "mem_env \<Rightarrow> uc_tables \<Rightarrow> nat \<Rightarrow> ucb_str \<Rightarrow> (bool \<times> ucb_str) result \<Rightarrow> bool"
  for me T M where
  call_append_cstr: "p \<noteq> CNull \<Longrightarrow> deref s p = Ret mem \<Longrightarrow> src_text mem len t \<Longrightarrow>
     str_call me T M s (rbind (ucb_str_append_cstr me s p len) (\<lambda>s. Ret (True, s)))"
| call_append: "arg_ok a \<Longrightarrow> str_call me T M s (rbind (ucb_str_append me s a) (\<lambda>s. Ret (True, s)))"
| call_append_cp: "4 * length cps \<le> PTRDIFF_MAX \<Longrightarrow> str_call me T M s (ucb_str_append_cp me M s cps)"
| call_insert_cstr: "p \<noteq> CNull \<Longrightarrow> deref s p = Ret mem \<Longrightarrow> src_text mem len t \<Longrightarrow>
     str_call me T M s (rbind (ucb_str_insert_cstr me T s index p len) (\<lambda>s. Ret (True, s)))"
| call_insert: "arg_ok a \<Longrightarrow> str_call me T M s (rbind (ucb_str_insert me T s index a) (\<lambda>s. Ret (True, s)))"
| call_insert_cp: "4 * length cps \<le> PTRDIFF_MAX \<Longrightarrow>
     str_call me T M s (rbind (ucb_str_insert_cp me T M s index cps) (\<lambda>(_, s). Ret (True, s)))"
| call_assign: "p \<noteq> CNull \<Longrightarrow> deref s p = Ret mem \<Longrightarrow> src_text mem len t \<Longrightarrow>
     str_call me T M s (rbind (ucb_str_assign me s p len) (\<lambda>(_, s). Ret (True, s)))"
| call_copy: "arg_ok a \<Longrightarrow> str_call me T M s (rbind (ucb_str_copy me s a) (\<lambda>(_, s). Ret (True, s)))"
| call_reserve: "n \<le> PTRDIFF_MAX \<Longrightarrow>
     str_call me T M s (rbind (ucb_str_reserve me s n) (\<lambda>(_, s). Ret (True, s)))"
| call_fit: "str_call me T M s (rbind (ucb_str_fit me s) (\<lambda>(_, s). Ret (True, s)))"
| call_adopt: "src_text mem len t \<Longrightarrow>
     str_call me T M s (rbind (ucb_str_adopt s mem len (length mem)) (\<lambda>s. Ret (True, s)))"
| call_clear: "str_call me T M s (rbind (ucb_str_clear s) (\<lambda>s. Ret (True, s)))"

text \<open>The strings that calls reach, up to the first \<^verbatim>\<open>ucb_str_append_cp\<close> that returned false.\<close>

inductive str_reach :: "mem_env \<Rightarrow> uc_tables \<Rightarrow> nat \<Rightarrow> ucb_str \<Rightarrow> ucb_str \<Rightarrow> bool"
  for me T M where
  reach_refl: "str_reach me T M s s"
| reach_call: "str_reach me T M s s' \<Longrightarrow> str_call me T M s' (Ret (True, s'')) \<Longrightarrow> str_reach me T M s s''"

lemma str_src:
  assumes "str_ok s" "mem_of s = Ret m" shows "src_text m (s_size s) (str_text s)"
proof -
  obtain m' where m: "mem_of s = Ret m'" "str_text s = take (s_size s) m'" "s_size s < length m'"
    "length (str_text s) = s_size s" "m' ! s_size s = 0" "length m' \<le> PTRDIFF_MAX"
    using assms(1) by (auto elim: str_okE)
  have [simp]: "m' = m" using m(1) assms(2) by simp
  have "c_strlen m = Ret 0" if "s_size s = 0"
    using c_strlen_term [of "[]" "tl m"] m(3,5) that by (cases m) simp_all
  then show ?thesis using m by (simp add: src_text_def)
qed

lemma arg_src:
  assumes "str_ok s" "arg_ok a"
  obtains p mem t where "arg_ptr a = Ret p" "p \<noteq> CNull" "deref s p = Ret mem"
    "src_text mem (s_size (arg_str s a)) t" "t = str_text (arg_str s a)" "str_ok (arg_str s a)"
    "mem_of (arg_str s a) = Ret mem"
proof (cases a)
  case SelfArg
  obtain m where m: "mem_of s = Ret m" using str_mem [OF assms(1)] by metis
  show ?thesis by (rule that [of "COwn 0" m "str_text s"])
      (use SelfArg m str_src [OF assms(1) m] assms(1) in \<open>simp_all add: arg_ptr_def arg_str_def deref_def\<close>)
next
  case (OtherArg b)
  have ok: "str_ok b" using assms(2) OtherArg by (simp add: arg_ok_def)
  obtain m where m: "mem_of b = Ret m" using str_mem [OF ok] by metis
  show ?thesis by (rule that [of "CExt m" m "str_text b"])
      (use OtherArg m str_src [OF ok m] ok in \<open>simp_all add: arg_ptr_def arg_str_def deref_def\<close>)
qed

lemma append_spec:
  assumes f: "\<not> fatal_returns me" and ok: "str_ok s" "arg_ok a"
  defines "t \<equiv> str_text (arg_str s a)"
  shows "always (ucb_str_append me s a) (\<lambda>s'. str_ok s'
     \<and> (if t = [] then s' = s
        else valid_text t \<and> (if reserves s (length t) then str_text s' = str_text s @ t \<and> tight s' else s' = s)))"
proof -
  obtain p mem where p: "arg_ptr a = Ret p" "p \<noteq> CNull" "deref s p = Ret mem"
    "src_text mem (s_size (arg_str s a)) t" using arg_src [OF ok] unfolding t_def by metis
  then show ?thesis using append_cstr_spec [OF f ok(1) p(2,3,4)] by (simp add: ucb_str_append_def)
qed

lemma copy_spec:
  assumes f: "\<not> fatal_returns me" and ok: "str_ok s" "arg_ok a"
  shows "always (ucb_str_copy me s a) (\<lambda>(r, s'). r \<and> str_ok s' \<and> str_text s' = str_text (arg_str s a)
    \<and> (tight s \<longrightarrow> tight s'))"
proof (cases a)
  case SelfArg
  then show ?thesis using ok(1) by (simp add: ucb_str_copy_def arg_str_def)
next
  case (OtherArg b)
  have okb: "str_ok b" using ok(2) OtherArg by (simp add: arg_ok_def)
  obtain m where m: "mem_of b = Ret m" using str_mem [OF okb] by metis
  obtain s1 where s1: "ucb_str_release_common s = Ret s1" using release_common_ok [OF ok(1)] by blast
  have "always (ucb_str_init_common me s1 (Some m) (s_size b))
      (\<lambda>(r, s'). r \<and> valid_text (str_text b) \<and> str_ok s' \<and> str_text s' = str_text b
        \<and> (Some m \<noteq> None \<longrightarrow> s_alloc s' = length (str_text b) + 1))"
    by (rule init_common_spec [OF f]) (use str_src [OF okb m] in simp)
  then have "always (ucb_str_init_common me s1 (Some m) (s_size b))
      (\<lambda>(r, s'). r \<and> str_ok s' \<and> str_text s' = str_text b \<and> tight s')"
    by (rule always_mono) (auto simp: tightI)
  then show ?thesis using OtherArg s1 m by (auto simp: ucb_str_copy_def arg_str_def elim: always_mono)
qed

lemma always_conj1: "always m (\<lambda>x. P x \<and> Q x) \<Longrightarrow> always m P"
  by (cases m) auto

lemma always_okI:
  "always m (\<lambda>s. str_ok s \<and> P s) \<Longrightarrow>
     always (rbind m (\<lambda>s. Ret (True, s))) (\<lambda>(ok, s'). if ok then str_ok s' else Q s')"
  by (cases m) auto

lemma always_snd_okI:
  "always m P \<Longrightarrow> (\<And>r s. P (r, s) \<Longrightarrow> str_ok s) \<Longrightarrow>
     always (rbind m (\<lambda>(_, s). Ret (True, s))) (\<lambda>(ok, s'). if ok then str_ok s' else Q s')"
  by (cases m) auto

lemma str_call_ok:
  assumes f: "\<not> fatal_returns me" and T: "uc_tables_ok T" and M: "3 \<le> M"
    and c: "str_call me T M s r" and ok: "str_ok s"
  shows "always r (\<lambda>(ok, s'). if ok then str_ok s' else str_whole s s')"
  using c
proof cases
  case (call_append_cstr p mem len t)
  show ?thesis unfolding call_append_cstr(1)
    by (rule always_okI [OF append_cstr_spec [OF f ok call_append_cstr(2-4)]])
next
  case (call_append a)
  show ?thesis unfolding call_append(1) by (rule always_okI [OF append_spec [OF f ok call_append(2)]])
next
  case (call_append_cp cps)
  show ?thesis unfolding call_append_cp(1) by (rule append_cp_any [OF f ok M call_append_cp(2)])
next
  case (call_insert_cstr p mem len t index)
  obtain cps where cps: "list_all is_scalar cps" "str_text s = utf8s cps" using str_scalars [OF ok] by metis
  show ?thesis unfolding call_insert_cstr(1)
    by (rule always_okI [OF insert_cstr_spec [OF f T ok cps call_insert_cstr(2-4)]])
next
  case (call_insert a index)
  obtain cps where cps: "list_all is_scalar cps" "str_text s = utf8s cps" using str_scalars [OF ok] by metis
  obtain p mem t where p: "arg_ptr a = Ret p" "p \<noteq> CNull" "deref s p = Ret mem"
    "src_text mem (s_size (arg_str s a)) t" using arg_src [OF ok call_insert(2)] by metis
  show ?thesis unfolding call_insert(1) ucb_str_insert_def p(1) rbind.simps
    by (rule always_okI [OF insert_cstr_spec [OF f T ok cps p(2-4)]])
next
  case (call_insert_cp cps index)
  show ?thesis unfolding call_insert_cp(1)
    by (rule always_snd_okI [OF insert_cp_any [OF f T ok M call_insert_cp(2)]]) simp
next
  case (call_assign p mem len t)
  have "if p = CNull then t = [] else deref s p = Ret mem \<and> src_text mem len t" using call_assign(2-4) by simp
  from assign_spec [OF f ok this] show ?thesis unfolding call_assign(1) by (rule always_snd_okI) simp
next
  case (call_copy a)
  show ?thesis unfolding call_copy(1) by (rule always_snd_okI [OF copy_spec [OF f ok call_copy(2)]]) simp
next
  case (call_reserve n)
  show ?thesis unfolding call_reserve(1) by (rule always_snd_okI [OF reserve_spec [OF f ok call_reserve(2)]]) simp
next
  case call_fit
  show ?thesis unfolding call_fit by (rule always_snd_okI [OF fit_spec [OF f ok]]) simp
next
  case (call_adopt mem len t)
  show ?thesis unfolding call_adopt(1) by (rule always_okI [OF adopt_spec [OF ok call_adopt(2) refl]])
next
  case call_clear
  then show ?thesis using clear_spec [OF ok] by simp
qed

lemma str_reach_ok:
  assumes "\<not> fatal_returns me" "uc_tables_ok T" "3 \<le> M" "str_reach me T M s s'" "str_ok s"
  shows "str_ok s'"
  using assms(4,5) by induction (use str_call_ok [OF assms(1-3)] in fastforce)+

section \<open>Properties\<close>

text \<open>Strings for the witnesses: \<open>ab\<close>, owned with an exact and with a larger allocation.\<close>

definition demo_str :: ucb_str where
  "demo_str = \<lparr>s_blk = BMem [97, 98, 0], s_size = 2, s_alloc = 3\<rparr>"

definition roomy_str :: ucb_str where
  "roomy_str = \<lparr>s_blk = BMem [97, 98, 0, 0, 0, 0, 0, 0], s_size = 2, s_alloc = 8\<rparr>"

lemma ascii_utf8s: "list_all (\<lambda>b. unat b < 128) bs \<Longrightarrow> utf8s (map ucast bs) = (bs :: byte list)"
  by (induction bs) (simp_all add: ascii_scalar)

lemma ascii_valid: "list_all (\<lambda>b. 0 < unat b \<and> unat b < 128) (bs :: byte list) \<Longrightarrow> valid_text bs"
proof -
  assume a: "list_all (\<lambda>b. 0 < unat b \<and> unat b < 128) bs"
  have "list_all is_scalar (map ucast bs :: ucb_cp list)" using a by (auto simp: list_all_iff ascii_scalar)
  moreover have "utf8s (map ucast bs) = bs" using a by (intro ascii_utf8s) (auto simp: list_all_iff)
  ultimately have "wf_utf8 bs" unfolding wf_utf8_def by metis
  then show ?thesis using a by (auto simp: valid_text_def list_all_iff)
qed

lemma demo_str_ok: "str_ok demo_str" "str_text demo_str = [97, 98]" "s_size demo_str = 2"
  "mem_of demo_str = Ret [97, 98, 0]" "reserves demo_str n"
  using ascii_valid [of "[97, 98]"]
  by (auto simp: demo_str_def str_ok_def str_text_def mem_of_def PTRDIFF_MAX_def reserves_def)

lemma roomy_str_ok: "str_ok roomy_str" "str_text roomy_str = [97, 98]"
  using ascii_valid [of "[97, 98]"]
  by (simp_all add: roomy_str_def str_ok_def str_text_def PTRDIFF_MAX_def)

lemma demo_cps: "list_all is_scalar [97, 98]" "utf8s [97, 98] = [97, 98]"
  by (simp_all add: is_scalar_def utf8_def)

text \<open>
  C7: Sequences of calls on a string - appends, insertions, assignments (also of slices of the
  string itself), code points valid or not, copies, reservations, fits, adoptions - with the
  default handler of allocation failures and no tracked memory: no call reads or writes outside
  the string's block or uses freed memory, whatever the text and the code points passed.  After
  every call the string is well formed (valid UTF-8 without a null inside, null terminated within
  its allocation), until a \<^verbatim>\<open>ucb_str_append_cp\<close> returns false, where the sequences considered
  stop: then block, length and text are those from before, but the terminator may be overwritten.
\<close>

theorem str_calls_safe:
  assumes "\<not> fatal_returns me" "uc_tables_ok T" "3 \<le> M" "str_ok s"
    and "str_reach me T M s s'" "str_call me T M s' r"
  shows "str_ok s' \<and> (case r of
       Undef \<Rightarrow> False
     | Abort _ \<Rightarrow> True
     | Ret (ok, s'') \<Rightarrow> if ok then str_ok s'' else str_whole s' s'')"
  using str_reach_ok [OF assms(1-3,5,4)] str_call_ok [OF assms(1-3,6)]
  unfolding always_def by (cases r) auto

theorem str_calls_safe_witness:
  "str_ok demo_str \<and> ucb_str_append_cp me_ok 3 demo_str [0x10000, 0xD800, 0] \<noteq> Undef"
  using str_calls_safe [OF _ flags_tables _ demo_str_ok(1) reach_refl
      call_append_cp [of "[0x10000, 0xD800, 0]"], of me_ok 3]
  by (auto simp: PTRDIFF_MAX_def)

text \<open>
  C10: \<^verbatim>\<open>ucb_str_append_cstr\<close> with a readable source and a string that has no block yet or too little
  room in it (\<open>reserves\<close>): an invalid source aborts, a valid one is appended whole, also when it is
  a slice of the string itself and the block moves.  (With room left in the block the text is
  dropped, against the documentation: lemma \<open>append_with_room_is_lost\<close>.)
\<close>

theorem ucb_str_append_cstr_effect:
  assumes "\<not> fatal_returns me" "str_ok s" "p \<noteq> CNull" "deref s p = Ret mem" "src_text mem len t"
    and "s_alloc s = 0 \<or> s_alloc s < s_size s + length t + 1"
  shows "always (ucb_str_append_cstr me s p len)
    (\<lambda>s'. valid_text t \<and> str_ok s' \<and> str_text s' = str_text s @ t)"
proof -
  have v: "valid_text []" by (simp add: valid_text_def)
  have r: "t \<noteq> [] \<Longrightarrow> reserves s (length t)" using assms(6) by (auto simp: reserves_def)
  show ?thesis
    by (rule always_mono [OF append_cstr_spec [OF assms(1-5)]]) (use v r in \<open>auto split: if_splits\<close>)
qed

theorem ucb_str_append_cstr_effect_witness:
  "always (ucb_str_append_cstr me_ok demo_str (COwn 0) 2) (\<lambda>s'. str_text s' = [97, 98, 97, 98])"
proof -
  have st: "src_text [97, 98, 0] 2 [97, 98]" by (simp add: src_text_def PTRDIFF_MAX_def)
  have d: "deref demo_str (COwn 0) = Ret [97, 98, 0]" by (simp add: deref_def demo_str_ok)
  have l: "s_alloc demo_str < s_size demo_str + length [97, 98 :: byte] + 1" by (simp add: demo_str_def)
  from ucb_str_append_cstr_effect [OF _ demo_str_ok(1) _ d st, of me_ok] l show ?thesis
    by (auto simp: demo_str_ok elim: always_mono)
qed

text \<open>
  C11: \<^verbatim>\<open>ucb_str_insert_cstr\<close> inserts before a character (an extended grapheme cluster), never inside
  one: the new text is the characters before the index, the inserted text, and the rest; an
  index past the last character aborts.
\<close>

theorem ucb_str_insert_cstr_at_character:
  assumes "\<not> fatal_returns me" "uc_tables_ok T" "str_ok s" "list_all is_scalar cps" "str_text s = utf8s cps"
    and "p \<noteq> CNull" "deref s p = Ret mem" "src_text mem len t" "t \<noteq> []" "reserves s (length t)"
  shows "always (ucb_str_insert_cstr me T s index p len) (\<lambda>s'. str_ok s' \<and> index \<le> length (clusters T cps)
    \<and> str_text s' = utf8s (concat (take index (clusters T cps))) @ t @ utf8s (concat (drop index (clusters T cps))))"
  using insert_cstr_spec [OF assms(1-8), of index] assms(9,10)
  by (auto simp: insert_before_def elim: always_mono)

theorem ucb_str_insert_cstr_at_character_witness:
  "always (ucb_str_insert_cstr me_ok (one_row_tables ri_row) demo_str 0 (CExt [120, 0]) 0)
     (\<lambda>s'. str_text s' = [120, 97, 98])"
proof -
  have st: "src_text [120, 0] 0 [120]"
    using c_strlen_term [of "[120]" "[]"] by (simp add: src_text_def PTRDIFF_MAX_def)
  from ucb_str_insert_cstr_at_character [OF _ flags_tables demo_str_ok(1) demo_cps(1) _ _ _ st,
      of me_ok "CExt [120, 0]" 0] show ?thesis
    by (simp add: demo_str_ok demo_cps(2) deref_def del: clusters.simps utf8s_simps(2))
      (erule always_mono, simp)
qed

text \<open>
  C12: \<^verbatim>\<open>ucb_str_comp\<close> orders strings shorter than 2 GiB as their byte sequences: negative exactly
  for the lexicographically smaller text, zero exactly for equal texts.
\<close>

theorem ucb_str_comp_lexicographic:
  assumes "str_ok s1" "str_ok s2" "s_size s1 < 2 ^ 31" "s_size s2 < 2 ^ 31"
  shows "\<exists>c. ucb_str_comp s1 s2 = Ret c \<and> (c < 0 \<longleftrightarrow> str_text s1 < str_text s2)
    \<and> (c = 0 \<longleftrightarrow> str_text s1 = str_text s2)"
  by (rule comp_spec [OF assms])

theorem ucb_str_comp_lexicographic_witness:
  "\<exists>c. ucb_str_comp demo_str str_empty = Ret c \<and> \<not> c < 0 \<and> c \<noteq> 0"
  using ucb_str_comp_lexicographic [of demo_str str_empty] by (simp add: demo_str_ok)

text \<open>
  \<^verbatim>\<open>ucb_str_find\<close> of a non-empty substring returns the least offset at or after the start
  where it occurs, and \<open>UCB_NPOS\<close> when it occurs nowhere.
\<close>

theorem ucb_str_find_first:
  assumes "str_ok s" "str_ok sub" "str_text sub \<noteq> []"
  shows "ucb_str_find s sub pos = Ret (if \<exists>q. pos \<le> q \<and> occurs_at (str_text s) (str_text sub) q
    then LEAST q. pos \<le> q \<and> occurs_at (str_text s) (str_text sub) q else UCB_NPOS)"
  using find_spec [OF assms] by (simp only: first_at_def)

theorem ucb_str_find_first_witness: "ucb_str_find demo_str demo_str 0 = Ret 0"
proof -
  have o: "occurs_at [97, 98] [97, 98] 0" by (simp add: occurs_at_def)
  then have "(LEAST q. 0 \<le> q \<and> occurs_at [97, 98] [97, 98] q) = 0" by (intro Least_equality) auto
  then show ?thesis using ucb_str_find_first [OF demo_str_ok(1,1), of 0] o by (auto simp: demo_str_ok)
qed

text \<open>
  \<^verbatim>\<open>ucb_str_concatv\<close> returns a new string holding the texts of all its arguments in order.
\<close>

theorem ucb_str_concatv_concatenates:
  assumes "\<not> fatal_returns me" "str_ok s" "list_all str_ok as" "s_size s + sum_list (map s_size as) < SIZE_MAX"
  shows "always (ucb_str_concatv me s as) (\<lambda>r. \<exists>s'. r = Some s' \<and> str_ok s'
    \<and> str_text s' = str_text s @ concat (map str_text as))"
  by (rule concatv_spec [OF assms])

theorem ucb_str_concatv_concatenates_witness:
  "always (ucb_str_concatv me_ok demo_str [str_empty, demo_str]) (\<lambda>r. \<exists>s'. r = Some s' \<and> str_text s' = [97, 98, 97, 98])"
  using ucb_str_concatv_concatenates [of me_ok demo_str "[str_empty, demo_str]"]
  by (simp add: demo_str_ok SIZE_MAX_def) (auto elim!: always_mono)

text \<open>
  \<^verbatim>\<open>ucb_str_assign\<close> makes the text of any readable source the text of the string, also when the
  source points into the string's own block, which the call frees.
\<close>

theorem ucb_str_assign_takes_source:
  assumes "\<not> fatal_returns me" "str_ok s" "p \<noteq> CNull" "deref s p = Ret mem" "src_text mem len t"
  shows "always (ucb_str_assign me s p len) (\<lambda>(r, s'). r \<and> str_ok s' \<and> str_text s' = t)"
  using assms by (intro assign_spec) auto

theorem ucb_str_assign_takes_source_witness:
  "always (ucb_str_assign me_ok demo_str (COwn 1) 0) (\<lambda>(r, s'). r \<and> str_text s' = [98])"
proof -
  have st: "src_text [98, 0] 0 [98]"
    using c_strlen_term [of "[98]" "[]"] by (simp add: src_text_def PTRDIFF_MAX_def)
  have d: "deref demo_str (COwn 1) = Ret [98, 0]" by (simp add: deref_def demo_str_ok)
  from ucb_str_assign_takes_source [OF _ demo_str_ok(1) _ d st, of me_ok] show ?thesis
    by (auto elim: always_mono)
qed

text \<open>
  \<^verbatim>\<open>ucb_str_substr\<close> of a non-empty byte range returns a new string with exactly those bytes; an
  empty range returns the rest of the string instead of an empty one; a range that cuts a
  character aborts.
\<close>

theorem ucb_str_substr_effect:
  assumes "\<not> fatal_returns me" "str_ok s" "start \<le> stop" "stop \<le> s_size s"
  shows "always (ucb_str_substr me s start stop) (\<lambda>r. \<exists>s'. r = Some s' \<and> str_ok s'
    \<and> str_text s' = (if start = stop then drop start (str_text s)
                     else take (stop - start) (drop start (str_text s))))"
  using substr_spec [OF assms] by (simp add: substr_text_def)

theorem ucb_str_substr_effect_witness:
  "always (ucb_str_substr me_ok demo_str 1 2) (\<lambda>r. \<exists>s'. r = Some s' \<and> str_text s' = [98])"
  using ucb_str_substr_effect [of me_ok demo_str 1 2] by (auto simp: demo_str_ok elim: always_mono)

section \<open>Divergences from the documentation\<close>

text \<open>
  \<^verbatim>\<open>string.h\<close> says \<^verbatim>\<open>ucb_str_reserve\<close> returns true if the string has enough space; it returns false
  when the space is already there, and an append is then lost.
\<close>

lemma reserve_with_room_fails: "ucb_str_reserve me_ok roomy_str 3 = Ret (False, roomy_str)"
  by (simp add: ucb_str_reserve_def roomy_str_def usize_def)

lemma append_with_room_is_lost: "ucb_str_append me_ok roomy_str (OtherArg demo_str) = Ret roomy_str"
proof -
  have st: "src_text [97, 98, 0] 2 [97, 98]" by (simp add: src_text_def PTRDIFF_MAX_def)
  have v: "ucb_str_verify_cstr (Some [97, 98, 0]) 2 = Ret ()"
    using verify_src [OF st] ascii_valid [of "[97, 98]"] by simp
  have r: "ucb_str_reserve me_ok roomy_str 2 = Ret (False, roomy_str)"
    by (simp add: ucb_str_reserve_def roomy_str_def usize_def)
  show ?thesis
    by (simp add: ucb_str_append_def arg_ptr_def arg_str_def demo_str_ok ucb_str_append_cstr_def deref_def v
        ucb_str_aliases_def r del: rbind_Ret_iff)
qed

text \<open>The bytes in [start, end) of an empty range are none; the result is the rest of the string.\<close>

lemma substr_empty_range_not_empty:
  "always (ucb_str_substr me_ok demo_str 1 1) (\<lambda>r. \<exists>s'. r = Some s' \<and> str_text s' = [98])"
  using substr_spec [of me_ok demo_str 1 1] by (auto simp: demo_str_ok substr_text_def elim: always_mono)

text \<open>An empty substring is found at 0, not at or after \<open>pos\<close>.\<close>

lemma find_empty_ignores_pos: "ucb_str_find demo_str str_empty 2 = Ret 0"
  by (simp add: ucb_str_find_def)

text \<open>Appending no code points to an owned string aborts instead of succeeding.\<close>

lemma append_no_code_points_aborts: "ucb_str_append_cp me_ok M demo_str [] = Abort UCB_ERROR_INVALID_ARG"
  by (simp add: ucb_str_append_cp_def ucb_str_reserve_def demo_str_def usize_def mem_of_def
      ucb_buffer_init_static_def)

text \<open>The difference of the sizes is cut to an int: a longer string can compare as smaller.\<close>

lemma comp_truncates_size:
  assumes "s_size s1 = 2 ^ 31" "mem_of s1 = Ret m"
  shows "ucb_str_comp s1 str_empty = Ret (- (2 ^ 31))"
  using assms by (simp add: ucb_str_comp_def str_empty_def mem_of_def [of "\<lparr>s_blk = _, s_size = _, s_alloc = _\<rparr>"]
      c_memcmp_def mem_read_def)

text \<open>
  An invalid code point after a flushed chunk: "nothing is appended" says \<^verbatim>\<open>string.h\<close>, but the
  chunk has overwritten the terminator and the string is no longer well formed.
\<close>

lemma append_cp_failure_loses_terminator:
  "\<exists>s'. ucb_str_append_cp me_ok 3 demo_str [0x10000, 0x10000, 0x10000, 0xD800] = Ret (False, s') \<and> \<not> str_ok s'"
proof -
  let ?cps = "[0x10000, 0x10000, 0x10000, 0xD800] :: ucb_cp list"
  define s1 where "s1 = \<lparr>s_blk = BMem (mem_write 2 [0] (resize_block me_ok [97, 98, 0] 19)), s_size = 2, s_alloc = 19\<rparr>"
  have r: "ucb_str_reserve me_ok demo_str 16 = Ret (True, s1)"
    by (simp add: ucb_str_reserve_def demo_str_def usize_def mem_of_def ucb_realloc_def ucb_realloc2_def
        PTRDIFF_MAX_def s1_def)
  define m where "m = mem_write 2 [0] (resize_block me_ok [97, 98, 0] 19)"
  have lm: "length m = 19" by (simp add: m_def length_mem_write)
  define b0 where "b0 = zero_buffer\<lparr>b_data := Some (take 16 (drop 2 m)), b_alloc := 16\<rparr>"
  have i: "ucb_buffer_init_static (Some (take 16 (drop 2 m))) = Ret b0"
    using lm by (simp add: ucb_buffer_init_static_def b0_def)
  have sc: "is_scalar 0x10000" "\<not> is_scalar 0xD800" by (simp_all add: is_scalar_def)
  have u: "utf8 0x10000 = [0xF0, 0x90, 0x80, 0x80]" by (simp add: utf8_def)
  have b0: "buffer_ok b0" "b_size b0 = 0" "b_alloc b0 = 16" "buffer_bytes b0 = []"
    using lm by (simp_all add: b0_def zero_buffer_def buffer_ok_def buffer_bytes_def PTRDIFF_MAX_def)
  let ?p = "[0xF0, 0x90, 0x80, 0x80, 0xF0, 0x90, 0x80, 0x80, 0xF0, 0x90, 0x80, 0x80] :: byte list"
  obtain b where b: "ucb_buffer_push me_ok b0 ?p = Ret (True, b)" "buffer_ok b" "b_alloc b = 16" "buffer_bytes b = ?p"
    using push_room [OF b0(1), of ?p me_ok] b0 by auto
  have e: "ucb_uc_encode_codepoints me_ok 3 b0 ?cps = Ret (EncInvalid 0xD800, b)"
    using b(1) by (simp add: ucb_uc_encode_codepoints_def ucb_uc_encode_codepoint_eq sc u)
  have lb: "length (block b) = 16" "take (b_size b) (block b) = ?p"
    using buffer_okD(1) [OF b(2)] b(3,4) by (simp_all add: buffer_bytes_def)
  have h: "block b ! 0 = 0xF0" using lb by (cases "block b"; cases "b_size b") auto
  have mo: "mem_of s1 = Ret m" by (simp add: s1_def m_def mem_of_def)
  let ?s = "s1\<lparr>s_blk := BMem (mem_write 2 (block b) m)\<rparr>"
  have "ucb_str_append_cp me_ok 3 demo_str ?cps = Ret (False, ?s)"
    using r mo lm i e lb(1) by (simp add: ucb_str_append_cp_def usize_def s1_def [THEN arg_cong, of s_size] del: rbind_Ret_iff)
  moreover have "mem_write 2 (block b) m ! 2 = 0xF0"
    using h lb(1) lm by (simp add: mem_write_def nth_append)
  then have "\<not> str_ok ?s" by (simp add: str_ok_def s1_def)
  ultimately show ?thesis by blast
qed

end
