(* ===== verification/Buffer_Heap.thy ===== *)
theory Buffer_Heap
  imports Utf8_Encode
begin

text \<open>
  A heap buffer with one of the two growth policies of the library, as the Unicode code uses it: with
  the default error handler every operation succeeds or the process ends for want of memory.
\<close>

lemma succeeds_mono2:
  "succeeds m (\<lambda>(a, b). P a b) \<Longrightarrow> (\<And>a b. m = Ret (a, b) \<Longrightarrow> P a b \<Longrightarrow> Q (a, b)) \<Longrightarrow> succeeds m Q"
  by (cases m) auto

lemma succeeds_bind2:
  "succeeds m (\<lambda>(a, b). P a b) \<Longrightarrow> (\<And>a b. P a b \<Longrightarrow> succeeds (k (a, b)) Q) \<Longrightarrow> succeeds (rbind m k) Q"
  by (cases m) auto

definition heap_buffer :: "ucb_buffer \<Rightarrow> bool" where
  "heap_buffer b \<longleftrightarrow> buffer_ok b \<and> b_impl b = ImplHeap \<and> (b_grow b = GrowExact \<or> b_grow b = GrowDouble)"

lemma heap_bufferD:
  "heap_buffer b \<Longrightarrow> buffer_ok b" "heap_buffer b \<Longrightarrow> grow_sound (b_grow b)" "heap_buffer b \<Longrightarrow> buffer_safe b"
  by (auto simp: heap_buffer_def buffer_safe_def)

lemma resize_succeeds:
  assumes f: "\<not> fatal_returns me" and b: "heap_buffer b" and n: "0 < n"
  shows "succeeds (ucb_buffer_resize me b n) (\<lambda>(ok, b'). ok)"
  using assms unfolding ucb_buffer_resize_def ucb_buffer_resize_heap_def
  by (auto simp: ucb_buffer_can_resize_def heap_buffer_def ucb_realloc2_def ucb_fatal_oom_def)

lemma grow_succeeds:
  assumes f: "\<not> fatal_returns me" and b: "heap_buffer b" and n: "0 < n" "n \<le> PTRDIFF_MAX"
  shows "succeeds (ucb_buffer_grow me b n) (\<lambda>(ok, b'). ok)"
proof -
  note o = buffer_okD [OF heap_bufferD(1) [OF b]]
  have sm: "b_alloc b + n \<le> SIZE_MAX" using o(3) n(2) by (rule PTRDIFF_MAX_less)
  show ?thesis
  proof (cases "b_grow b")
    case GrowExact
    then show ?thesis using resize_succeeds [OF f b, of "b_alloc b + n"] n(1) sm o(4) by (simp add: ucb_buffer_grow_def)
  next
    case GrowDouble
    obtain c where "ucb_buffer_grow_double (b_alloc b) n = Some c" "b_alloc b + n \<le> c"
      using ucb_buffer_grow_double_spec [OF o(4), of n] sm by auto
    then show ?thesis using GrowDouble resize_succeeds [OF f b, of c] n(1) by (simp add: ucb_buffer_grow_def)
  qed (use b in \<open>simp add: heap_buffer_def\<close>)
qed

lemma ensure_succeeds:
  assumes f: "\<not> fatal_returns me" and b: "heap_buffer b" and n: "n \<le> PTRDIFF_MAX"
  shows "succeeds (ucb_buffer_ensure me b n)
    (\<lambda>(ok, b'). ok \<and> heap_buffer b' \<and> buffer_bytes b' = buffer_bytes b \<and> b_size b + n \<le> b_alloc b')"
proof -
  note o = buffer_okD [OF heap_bufferD(1) [OF b]]
  have g: "succeeds (ucb_buffer_ensure me b n) (\<lambda>(ok, b'). ok)"
    using grow_succeeds [OF f b] n o(5) by (simp add: ucb_buffer_ensure_def Let_def)
  then show ?thesis
  proof (rule succeeds_mono2)
    fix ok b' assume r: "ucb_buffer_ensure me b n = Ret (ok, b')" "ok"
    from ucb_buffer_ensure_spec [OF heap_bufferD(1,2) [OF b] n this(1)] b r(2)
    show "case (ok, b') of (ok, b') \<Rightarrow> ok \<and> heap_buffer b' \<and> buffer_bytes b' = buffer_bytes b \<and> b_size b + n \<le> b_alloc b'"
      by (auto simp: heap_buffer_def)
  qed
qed

lemma push_succeeds:
  assumes f: "\<not> fatal_returns me" and b: "heap_buffer b" and n: "length dat \<le> PTRDIFF_MAX"
  shows "succeeds (ucb_buffer_push me b dat) (\<lambda>(ok, b'). ok \<and> heap_buffer b' \<and> buffer_bytes b' = buffer_bytes b @ dat)"
proof (cases "dat = []")
  case False
  have p: "ucb_buffer_push me b dat \<noteq> Undef"
    "\<And>ok b'. ucb_buffer_push me b dat = Ret (ok, b') \<Longrightarrow> b_impl b' = b_impl b \<and> b_grow b' = b_grow b \<and> buffer_ok b'"
    using ucb_buffer_push_spec [OF heap_bufferD(1,2) [OF b] n] by metis+
  have e: "succeeds (ucb_buffer_push me b dat) (\<lambda>(ok, b'). ok)"
    unfolding ucb_buffer_push_eq_ensure [OF False]
  proof (rule succeeds_bind2 [OF ensure_succeeds [OF f b n]])
    fix ok b'
    assume h0: "ok \<and> heap_buffer b' \<and> buffer_bytes b' = buffer_bytes b \<and> b_size b + length dat \<le> b_alloc b'"
    then have h: "heap_buffer b'" "buffer_bytes b' = buffer_bytes b" "b_size b + length dat \<le> b_alloc b'" by simp_all
    then have "b_size b' = b_size b" using buffer_okD(6) [OF heap_bufferD(1)] b by metis
    then obtain b2 where "ucb_buffer_put b' dat = Ret b2"
      using ucb_buffer_put_spec [OF heap_bufferD(1) [OF h(1)], of dat] h(3) by metis
    then show "succeeds (case (ok, b') of (ok, buf) \<Rightarrow> if \<not> ok then Ret (False, buf)
        else rbind (ucb_buffer_put buf dat) (\<lambda>buf. Ret (True, buf))) (\<lambda>(ok, b'). ok)"
      using h0 by simp
  qed
  then show ?thesis
  proof (rule succeeds_mono2)
    fix ok b' assume r: "ucb_buffer_push me b dat = Ret (ok, b')" "ok"
    show "case (ok, b') of (ok, b') \<Rightarrow> ok \<and> heap_buffer b' \<and> buffer_bytes b' = buffer_bytes b @ dat"
      using ucb_buffer_push_spec(2) [OF heap_bufferD(1,2) [OF b] n r(1)] b r(2) by (auto simp: heap_buffer_def)
  qed
qed (use b in \<open>simp add: ucb_buffer_push_def\<close>)

lemma encode_loop_succeeds:
  assumes "\<not> fatal_returns me" "heap_buffer b" "list_all is_scalar cps" "3 \<le> M" "5 * M \<le> PTRDIFF_MAX" "length pending < 4 * M"
  shows "succeeds (encode_loop M (ucb_buffer_push me) b pending cps)
    (\<lambda>(r, b'). r = EncOk \<and> heap_buffer b' \<and> buffer_bytes b' = buffer_bytes b @ pending @ utf8s cps)"
  using assms(2,3,6)
proof (induction cps arbitrary: b pending)
  case Nil
  have "length pending \<le> PTRDIFF_MAX" using Nil.prems(3) assms(5) by simp
  from push_succeeds [OF assms(1) Nil.prems(1) this] show ?case
    using Nil.prems(1) by (cases "pending = []") (auto elim!: succeeds_bind)
next
  case (Cons cp cps)
  let ?p = "pending @ utf8 cp"
  have s: "is_scalar cp" "list_all is_scalar cps" using Cons.prems(2) by simp_all
  have fits: "length ?p \<le> 5 * M" using Cons.prems(3) assms(4) utf8_length(2) [of cp] by simp
  then have l: "length ?p \<le> PTRDIFF_MAX" using assms(5) by simp
  show ?case
  proof (cases "length ?p < 4 * M")
    case True
    then show ?thesis using Cons.IH [OF Cons.prems(1) s(2) True] s(1) fits
      by (simp add: ucb_uc_encode_codepoint_eq)
  next
    case False
    have e: "encode_loop M (ucb_buffer_push me) b pending (cp # cps) = rbind (ucb_buffer_push me b ?p) (\<lambda>(ok, buf).
        if \<not> ok then Ret (EncPushFailed, buf) else encode_loop M (ucb_buffer_push me) buf [] cps)"
      using False s(1) fits by (simp add: ucb_uc_encode_codepoint_eq)
    have M: "length [] < 4 * M" using assms(4) by simp
    show ?thesis unfolding e
    proof (rule succeeds_bind2 [OF push_succeeds [OF assms(1) Cons.prems(1) l]])
      fix ok b1
      assume h0: "ok \<and> heap_buffer b1 \<and> buffer_bytes b1 = buffer_bytes b @ ?p"
      then have h: "heap_buffer b1" "buffer_bytes b1 = buffer_bytes b @ ?p" by simp_all
      from Cons.IH [OF h(1) s(2) M] h0
      show "succeeds (case (ok, b1) of (ok, buf) \<Rightarrow> if \<not> ok then Ret (EncPushFailed, buf)
          else encode_loop M (ucb_buffer_push me) buf [] cps)
        (\<lambda>(r, b'). r = EncOk \<and> heap_buffer b' \<and> buffer_bytes b' = buffer_bytes b @ pending @ utf8s (cp # cps))"
        by (simp add: h(2))
    qed
  qed
qed

lemma encode_succeeds:
  assumes "\<not> fatal_returns me" "heap_buffer b" "list_all is_scalar cps" "3 \<le> M" "5 * M \<le> PTRDIFF_MAX"
  shows "succeeds (ucb_uc_encode_codepoints me M b cps)
    (\<lambda>(r, b'). r = EncOk \<and> heap_buffer b' \<and> buffer_bytes b' = buffer_bytes b @ utf8s cps)"
  using encode_loop_succeeds [OF assms, of "[]"] assms(4) by (simp add: ucb_uc_encode_codepoints_def)

lemma new_heap_succeeds:
  assumes "\<not> fatal_returns me" "0 < n"
  shows "succeeds (ucb_buffer_init_heap me n) (\<lambda>(ok, b). ok \<and> heap_buffer b \<and> buffer_bytes b = [] \<and> b_alloc b = n)"
    "succeeds (ucb_buffer_new_heap me n) (\<lambda>r. \<exists>b. r = Some b \<and> heap_buffer b \<and> buffer_bytes b = [] \<and> b_alloc b = n)"
proof -
  show i: "succeeds (ucb_buffer_init_heap me n) (\<lambda>(ok, b). ok \<and> heap_buffer b \<and> buffer_bytes b = [] \<and> b_alloc b = n)"
    using assms by (simp add: ucb_buffer_init_heap_def ucb_calloc_def ucb_fatal_oom_def granted_def heap_buffer_def
        buffer_ok_def buffer_bytes_def zero_buffer_def)
  have "succeeds (ucb_calloc me 1 sizeof_ucb_buffer) (\<lambda>ok. ok)"
    using assms(1) by (simp add: ucb_calloc_def ucb_fatal_oom_def sizeof_ucb_buffer_def)
  then show "succeeds (ucb_buffer_new_heap me n) (\<lambda>r. \<exists>b. r = Some b \<and> heap_buffer b \<and> buffer_bytes b = [] \<and> b_alloc b = n)"
    unfolding ucb_buffer_new_heap_def by (rule succeeds_bind) (simp, rule succeeds_bind [OF i], auto)
qed

text \<open>Trimming a buffer and taking its block gives exactly the bytes pushed.\<close>

lemma fit_transfer_succeeds:
  assumes f: "\<not> fatal_returns me" and b: "heap_buffer b" and n: "buffer_bytes b = bs" "bs \<noteq> []"
  shows "succeeds (rbind (ucb_buffer_fit me b) (\<lambda>(_, b). ucb_buffer_transfer b))
    (\<lambda>((dat, size, _), _). dat = Some bs \<and> size = length bs)"
proof -
  note ok = heap_bufferD(1) [OF b]
  have sz: "b_size b = length bs" "0 < b_size b" using buffer_okD(6) [OF ok] n by (auto simp flip: length_greater_0_conv)
  have blk: "succeeds (ucb_buffer_transfer b') (\<lambda>((dat, size, _), _). dat = Some bs \<and> size = length bs)"
    if "heap_buffer b'" "buffer_bytes b' = bs" "b_alloc b' = length bs" for b'
  proof -
    have k: "length (block b') = b_alloc b'" "length (buffer_bytes b') = b_size b'"
      using buffer_okD(1,6) [OF heap_bufferD(1) [OF that(1)]] by simp_all
    then have "block b' = bs" "b_size b' = length bs" using that(2,3) by (auto simp: buffer_bytes_def)
    moreover have "b_data b' \<noteq> None" using calculation(1) n(2) by (cases "b_data b'") auto
    ultimately show ?thesis using that(1)
      by (auto simp: ucb_buffer_transfer_def ucb_buffer_can_transfer_def heap_buffer_def)
  qed
  show ?thesis
  proof (cases "b_size b = b_alloc b")
    case True
    then show ?thesis using blk [OF b n(1)] sz by (simp add: ucb_buffer_fit_def)
  next
    case False
    have "succeeds (ucb_buffer_resize me b (b_size b)) (\<lambda>(_, b'). heap_buffer b' \<and> buffer_bytes b' = bs \<and> b_alloc b' = length bs)"
    proof (rule succeeds_mono2 [OF resize_succeeds [OF f b sz(2)]])
      fix r b' assume r: "ucb_buffer_resize me b (b_size b) = Ret (r, b')" "r"
      from ucb_buffer_resize_spec [OF ok this(1)] b r(2) n sz(1)
      show "case (r, b') of (_, b') \<Rightarrow> heap_buffer b' \<and> buffer_bytes b' = bs \<and> b_alloc b' = length bs" by (auto simp: heap_buffer_def)
    qed
    then show ?thesis using False blk by (auto simp: ucb_buffer_fit_def elim!: succeeds_bind)
  qed
qed

end
