(* ===== verification/Uc_Case.thy ===== *)
theory Uc_Case
  imports Uc_Tables Buffer_Heap
begin

text \<open>
  Case mapping and case-insensitive comparison of \<^verbatim>\<open>src/ucb/unicode.c\<close>. The mapping tables are a
  parameter (\<open>uc_tables\<close>). The internal assertions are those of a release build, that is, nothing;
  an index outside a table is undefined.
\<close>

section \<open>Mapping one code point\<close>

datatype ucb_uc_case_op = UCB_UC_CASE_UPPER | UCB_UC_CASE_LOWER | UCB_UC_CASE_TITLE | UCB_UC_CASE_FOLD

definition ucb_uc_is_word_separator :: "ucb_cp \<Rightarrow> uc_prop \<Rightarrow> bool" where
  "ucb_uc_is_word_separator cp prop =
     (if cp = 0x27 then False
      else p_category prop \<in> {GC_ZS, GC_ZL, GC_ZP, GC_PO, GC_PS, GC_PE, GC_CC})"

text \<open>\<open>c_buf\<close> has \<^verbatim>\<open>UCB_UC_MAX_MULTI_LEN\<close> places.\<close>

record casemap_ctx =
  c_out_len :: nat
  c_buf :: "ucb_cp list"
  c_op :: ucb_uc_case_op
  c_last_prop :: "uc_prop option"
  c_last_cp :: ucb_cp

definition case_ref :: "casemap_ctx \<Rightarrow> ucb_uc_mapping \<Rightarrow> nat" where
  "case_ref ctx m =
     (case c_op ctx of
        UCB_UC_CASE_UPPER \<Rightarrow> m_to_upper m
      | UCB_UC_CASE_LOWER \<Rightarrow> m_to_lower m
      | UCB_UC_CASE_TITLE \<Rightarrow>
          (if (case c_last_prop ctx of None \<Rightarrow> True | Some p \<Rightarrow> ucb_uc_is_word_separator (c_last_cp ctx) p)
           then m_to_title m else m_to_lower m)
      | UCB_UC_CASE_FOLD \<Rightarrow> m_to_casefold m)"

text \<open>The loop that copies a sequence from place \<open>len\<close> on; the length reached.\<close>

function copy_multi :: "uc_tables \<Rightarrow> ucb_cp list \<Rightarrow> ucb_cp list \<Rightarrow> nat \<Rightarrow> (nat \<times> ucb_cp list) result" where
  "copy_multi T entry buf len =
     (if len < tab_max_multi T then
        rbind (tab_nth entry len) (\<lambda>v.
        if v = tab_no_value T then Ret (len, buf)
        else if len < length buf then copy_multi T entry (buf[len := v]) (len + 1)
        else Undef)
      else Ret (len, buf))"
  by pat_completeness auto
termination by (relation "measure (\<lambda>(T, entry, buf, len). tab_max_multi T - len)") auto

declare copy_multi.simps [simp del]

definition case_apply :: "uc_tables \<Rightarrow> nat \<Rightarrow> casemap_ctx \<Rightarrow> casemap_ctx result" where
  "case_apply T ref ctx =
     (if ref = 0 then Ret ctx
      else if ref \<le> length (tab_smap T) then
        rbind (tab_nth (tab_smap T) (ref - 1)) (\<lambda>v. Ret (ctx\<lparr>c_buf := (c_buf ctx)[0 := v]\<rparr>))
      else
        rbind (tab_nth (tab_mmap T) (ref - length (tab_smap T) - 1)) (\<lambda>entry.
        rbind (copy_multi T entry (c_buf ctx) 0) (\<lambda>(len, buf). Ret (ctx\<lparr>c_buf := buf, c_out_len := len\<rparr>))))"

definition ucb_uc_case_map_cp :: "uc_tables \<Rightarrow> casemap_ctx \<Rightarrow> casemap_ctx result" where
  "ucb_uc_case_map_cp T ctx =
     (let ctx = ctx\<lparr>c_out_len := 1\<rparr> in
      rbind (tab_nth (c_buf ctx) 0) (\<lambda>cp.
      if cp = 0 then Ret ctx
      else
        rbind (ucb_uc_get_prop T cp) (\<lambda>prop.
        rbind (ucb_uc_get_mapping T prop) (\<lambda>mapping.
        case mapping of
          None \<Rightarrow> Ret (ctx\<lparr>c_last_cp := cp, c_last_prop := Some prop\<rparr>)
        | Some m \<Rightarrow>
            let ref = case_ref ctx m in
            case_apply T ref (ctx\<lparr>c_last_prop := Some prop, c_last_cp := cp\<rparr>)))))"

section \<open>Mapping a text\<close>

text \<open>The string and its size; \<open>None\<close> is null. The errors that are thrown.\<close>

record ucb_uc_result =
  r_data :: "byte list option"
  r_size :: nat

definition uc_null :: ucb_uc_result where
  "uc_null = \<lparr>r_data = None, r_size = 0\<rparr>"

datatype uc_error = UcOutOfMemory | UcInvalidCodepoint ucb_cp

text \<open>
  The context before the first code point; its array is not initialised (\<open>fresh\<close>). A failed encoding
  throws only when a code point is invalid.
\<close>

definition case_ctx_init :: "uc_tables \<Rightarrow> ucb_cp list \<Rightarrow> ucb_uc_case_op \<Rightarrow> casemap_ctx" where
  "case_ctx_init T fresh op = \<lparr>c_out_len = 0, c_buf = fresh, c_op = op, c_last_prop = None, c_last_cp = tab_no_value T\<rparr>"

definition encode_error :: "encode_outcome \<Rightarrow> uc_error option" where
  "encode_error r = (case r of EncInvalid cp \<Rightarrow> Some (UcInvalidCodepoint cp) | _ \<Rightarrow> None)"

function case_loop ::
    "uc_tables \<Rightarrow> mem_env \<Rightarrow> byte list \<Rightarrow> nat \<Rightarrow> nat \<Rightarrow> casemap_ctx \<Rightarrow> ucb_buffer \<Rightarrow> (encode_outcome \<times> ucb_buffer) result" where
  "case_loop T me mem iter stop ctx dst =
     (case ucb_uc_iter_next mem iter stop of
        Ret None \<Rightarrow> Ret (EncOk, dst)
      | Ret (Some (cp, iter')) \<Rightarrow>
          if c_buf ctx = [] then Undef
          else
            rbind (ucb_uc_case_map_cp T (ctx\<lparr>c_buf := (c_buf ctx)[0 := cp]\<rparr>)) (\<lambda>ctx.
            rbind (ucb_uc_encode_codepoints me (tab_max_multi T) dst (take (c_out_len ctx) (c_buf ctx))) (\<lambda>(r, dst).
            if r \<noteq> EncOk then Ret (r, dst) else case_loop T me mem iter' stop ctx dst))
      | Abort c \<Rightarrow> Abort c
      | Undef \<Rightarrow> Undef)"
  by pat_completeness auto
termination
  by (relation "measure (\<lambda>(T, me, mem, iter, stop, ctx, dst). stop - iter)") (auto dest!: ucb_uc_iter_next_less)

declare case_loop.simps [simp del]

text \<open>The end of the mapping: the block of an own buffer is handed over, that of another is copied.\<close>

definition case_finish ::
    "mem_env \<Rightarrow> bool \<Rightarrow> ucb_buffer \<Rightarrow> (ucb_uc_result \<times> uc_error option \<times> ucb_buffer) result" where
  "case_finish me own dst =
     rbind (ucb_buffer_push me dst [0]) (\<lambda>(ok, dst).
     if \<not> ok then Ret (uc_null, Some UcOutOfMemory, dst)
     else if own then
       rbind (rbind (ucb_buffer_fit me dst) (\<lambda>(_, dst). ucb_buffer_transfer dst)) (\<lambda>((dat, sz, _), dst).
       Ret (\<lparr>r_data = dat, r_size = usub sz 1\<rparr>, None, dst))
     else
       rbind (ucb_malloc me (b_size dst)) (\<lambda>ok.
       if \<not> ok then Undef
       else rbind (mem_read (block dst) (b_size dst)) (\<lambda>bs.
         Ret (\<lparr>r_data = Some bs, r_size = usub (b_size dst) 1\<rparr>, None, dst))))"

definition ucb_uc_case_map ::
    "uc_tables \<Rightarrow> mem_env \<Rightarrow> ucb_cp list \<Rightarrow> byte list option \<Rightarrow> nat \<Rightarrow> ucb_uc_case_op \<Rightarrow> ucb_buffer option
     \<Rightarrow> (ucb_uc_result \<times> uc_error option \<times> ucb_buffer) result" where
  "ucb_uc_case_map T me fresh str n op dstbuf =
     (case str of
        None \<Rightarrow> Abort UCB_ERROR_INVALID_ARG
      | Some mem \<Rightarrow>
          rbind (case dstbuf of
                   Some b \<Rightarrow> Ret (Some b)
                 | None \<Rightarrow> rbind (ucb_buffer_new_heap me (usize (n + 1))) (\<lambda>b.
                     Ret (map_option (\<lambda>b. b\<lparr>b_grow := GrowDouble\<rparr>) b))) (\<lambda>dst.
          case dst of
            None \<Rightarrow> Ret (uc_null, None, zero_buffer)
          | Some dst \<Rightarrow>
              rbind (ucb_buffer_ensure me dst (usize (n + 1))) (\<lambda>(ok, dst).
              if \<not> ok then Ret (uc_null, Some UcOutOfMemory, dst)
              else
                rbind (case_loop T me mem 0 n (case_ctx_init T fresh op) dst) (\<lambda>(r, dst).
                if r \<noteq> EncOk then Ret (uc_null, encode_error r, dst)
                else case_finish me (dstbuf = None) dst))))"

definition case_call ::
    "uc_tables \<Rightarrow> mem_env \<Rightarrow> ucb_cp list \<Rightarrow> byte list option \<Rightarrow> nat \<Rightarrow> ucb_uc_case_op \<Rightarrow> (ucb_uc_result \<times> uc_error option) result" where
  "case_call T me fresh str n op =
     rbind (ucb_uc_case_map T me fresh str n op None) (\<lambda>(res, err, _). Ret (res, err))"

definition ucb_uc_to_upper where
  "ucb_uc_to_upper T me fresh str n = case_call T me fresh str n UCB_UC_CASE_UPPER"

definition ucb_uc_to_lower where
  "ucb_uc_to_lower T me fresh str n = case_call T me fresh str n UCB_UC_CASE_LOWER"

definition ucb_uc_to_title where
  "ucb_uc_to_title T me fresh str n = case_call T me fresh str n UCB_UC_CASE_TITLE"

definition ucb_uc_casefold where
  "ucb_uc_casefold T me fresh str n = case_call T me fresh str n UCB_UC_CASE_FOLD"

section \<open>Comparison\<close>

text \<open>The iterator over the folded code points: position, context, and the code points still to be given out.\<close>

record ucb_uc_fold_iter =
  f_pos :: nat
  f_end :: nat
  f_ctx :: casemap_ctx
  f_pending :: "ucb_cp list"
  f_pending_pos :: nat
  f_pending_len :: nat

definition ucb_uc_fold_iter_init :: "uc_tables \<Rightarrow> ucb_cp list \<Rightarrow> nat \<Rightarrow> ucb_uc_fold_iter" where
  "ucb_uc_fold_iter_init T fresh len =
     \<lparr>f_pos = 0, f_end = len, f_ctx = case_ctx_init T fresh UCB_UC_CASE_FOLD, f_pending = fresh,
      f_pending_pos = 0, f_pending_len = 0\<rparr>"

definition ucb_uc_fold_iter_next ::
    "uc_tables \<Rightarrow> byte list \<Rightarrow> ucb_uc_fold_iter \<Rightarrow> (ucb_cp option \<times> ucb_uc_fold_iter) result" where
  "ucb_uc_fold_iter_next T mem it =
     (if f_pending_pos it < f_pending_len it then
        rbind (tab_nth (f_pending it) (f_pending_pos it)) (\<lambda>cp.
        Ret (Some cp, it\<lparr>f_pending_pos := f_pending_pos it + 1\<rparr>))
      else if f_pos it \<ge> f_end it then Ret (None, it)
      else
        rbind (ucb_uc_next_valid (drop (f_pos it) mem)) (\<lambda>(cp, n).
        if c_buf (f_ctx it) = [] then Undef
        else
          rbind (ucb_uc_case_map_cp T ((f_ctx it)\<lparr>c_buf := (c_buf (f_ctx it))[0 := cp]\<rparr>)) (\<lambda>ctx.
          if length (f_pending it) < c_out_len ctx then Undef
          else
            let pending = take (c_out_len ctx) (c_buf ctx) @ drop (c_out_len ctx) (f_pending it) in
            rbind (tab_nth pending 0) (\<lambda>cp.
            Ret (Some cp, it\<lparr>f_pos := f_pos it + n, f_ctx := ctx, f_pending := pending,
                             f_pending_pos := 1, f_pending_len := c_out_len ctx\<rparr>)))))"

text \<open>
  The loop of the comparison. Each round gives out a pending code point of the first text, moves on in it,
  or ends; \<open>fold_work\<close> bounds the rounds.
\<close>

definition fold_work :: "ucb_uc_fold_iter \<Rightarrow> nat \<times> nat" where
  "fold_work it = (f_end it - f_pos it, f_pending_len it - f_pending_pos it)"

lemma fold_iter_next_less:
  assumes "ucb_uc_fold_iter_next T mem it = Ret (Some c, it')"
  shows "(fold_work it', fold_work it) \<in> less_than <*lex*> less_than"
  using assms
  by (auto simp: ucb_uc_fold_iter_next_def fold_work_def Let_def split: if_splits dest!: ucb_uc_next_valid_pos)

function icomp_loop :: "uc_tables \<Rightarrow> byte list \<Rightarrow> byte list \<Rightarrow> ucb_uc_fold_iter \<Rightarrow> ucb_uc_fold_iter \<Rightarrow> int result" where
  "icomp_loop T m1 m2 it1 it2 =
     (case ucb_uc_fold_iter_next T m1 it1 of
        Ret (r1, it1') \<Rightarrow>
          (case ucb_uc_fold_iter_next T m2 it2 of
             Ret (r2, it2') \<Rightarrow>
               (case (r1, r2) of
                  (None, None) \<Rightarrow> Ret 0
                | (None, Some _) \<Rightarrow> Ret (- 1)
                | (Some _, None) \<Rightarrow> Ret 1
                | (Some c1, Some c2) \<Rightarrow>
                    if c1 \<noteq> c2 then Ret (if c1 > c2 then 1 else if c1 < c2 then - 1 else 0)
                    else icomp_loop T m1 m2 it1' it2')
           | Abort c \<Rightarrow> Abort c
           | Undef \<Rightarrow> Undef)
      | Abort c \<Rightarrow> Abort c
      | Undef \<Rightarrow> Undef)"
  by pat_completeness auto
termination
  by (relation "inv_image (less_than <*lex*> less_than) (\<lambda>(T, m1, m2, it1, it2). fold_work it1)")
    (auto simp: wf_lex_prod dest: fold_iter_next_less)

declare icomp_loop.simps [simp del]

text \<open>Whether both arguments are the same pointer is given by \<open>same\<close>.\<close>

definition ucb_uc_icomp ::
    "uc_tables \<Rightarrow> ucb_cp list \<Rightarrow> bool \<Rightarrow> byte list option \<Rightarrow> nat \<Rightarrow> byte list option \<Rightarrow> nat \<Rightarrow> int result" where
  "ucb_uc_icomp T fresh same str1 len1 str2 len2 =
     (case (str1, str2) of
        (Some m1, Some m2) \<Rightarrow>
          if same then verify (len1 = len2) UCB_ERROR_INVALID_ARG (Ret 0)
          else icomp_loop T m1 m2 (ucb_uc_fold_iter_init T fresh len1) (ucb_uc_fold_iter_init T fresh len2)
      | _ \<Rightarrow> Abort UCB_ERROR_INVALID_ARG)"

end
