(* ===== verification/Uc_Case_Spec.thy ===== *)
theory Uc_Case_Spec
  imports Uc_Case
begin

text \<open>
  What case mapping gives: the mappings of the code points, one after the other, where a title mapping
  depends on the character before; and what a case-insensitive comparison decides.
\<close>

section \<open>Specification\<close>

definition ref_text :: "uc_tables \<Rightarrow> nat \<Rightarrow> ucb_cp \<Rightarrow> ucb_cp list" where
  "ref_text T ref cp =
     (if ref = 0 then [cp]
      else if ref \<le> length (tab_smap T) then [tab_smap T ! (ref - 1)]
      else takeWhile (\<lambda>v. v \<noteq> tab_no_value T) (tab_mmap T ! (ref - length (tab_smap T) - 1)))"

definition mapping_at :: "uc_tables \<Rightarrow> ucb_cp \<Rightarrow> ucb_uc_mapping option" where
  "mapping_at T cp =
     (let i = p_mapping_idx (prop_of T cp) in if i = 0 then None else Some (tab_mapping T ! (i - 1)))"

text \<open>
  A word starts at the beginning and after a space, line or paragraph separator, an opening,
  closing or other punctuation character, or a control character - but not after an apostrophe.
\<close>

definition word_start :: "uc_tables \<Rightarrow> ucb_cp option \<Rightarrow> bool" where
  "word_start T prev =
     (case prev of
        None \<Rightarrow> True
      | Some cp \<Rightarrow> cp \<noteq> 0x27
          \<and> (let c = p_category (prop_of T cp) in
             c = GC_ZS \<or> c = GC_ZL \<or> c = GC_ZP \<or> c = GC_PS \<or> c = GC_PE \<or> c = GC_PO \<or> c = GC_CC))"

definition mapped :: "uc_tables \<Rightarrow> ucb_uc_case_op \<Rightarrow> ucb_cp option \<Rightarrow> ucb_cp \<Rightarrow> ucb_cp list" where
  "mapped T op prev cp =
     (if cp = 0 then [0]
      else case mapping_at T cp of
        None \<Rightarrow> [cp]
      | Some m \<Rightarrow>
          ref_text T
            (case op of
               UCB_UC_CASE_UPPER \<Rightarrow> m_to_upper m
             | UCB_UC_CASE_LOWER \<Rightarrow> m_to_lower m
             | UCB_UC_CASE_TITLE \<Rightarrow> if word_start T prev then m_to_title m else m_to_lower m
             | UCB_UC_CASE_FOLD \<Rightarrow> m_to_casefold m) cp)"

fun case_text :: "uc_tables \<Rightarrow> ucb_uc_case_op \<Rightarrow> ucb_cp option \<Rightarrow> ucb_cp list \<Rightarrow> ucb_cp list" where
  "case_text T op prev [] = []"
| "case_text T op prev (cp # cps) = mapped T op prev cp @ case_text T op (if cp = 0 then prev else Some cp) cps"

text \<open>What the generated tables provide.\<close>

definition case_tables_ok :: "uc_tables \<Rightarrow> bool" where
  "case_tables_ok T \<longleftrightarrow>
     uc_tables_ok T
     \<and> list_all (\<lambda>p. p_mapping_idx p \<le> length (tab_mapping T)) (tab_props T)
     \<and> list_all (\<lambda>m. m_to_upper m \<le> length (tab_smap T) + length (tab_mmap T)
         \<and> m_to_lower m \<le> length (tab_smap T) + length (tab_mmap T)
         \<and> m_to_title m \<le> length (tab_smap T) + length (tab_mmap T)
         \<and> m_to_casefold m \<le> length (tab_smap T) + length (tab_mmap T)) (tab_mapping T)
     \<and> list_all (\<lambda>c. is_scalar c \<and> c \<noteq> 0) (tab_smap T)
     \<and> list_all (\<lambda>e. length e = tab_max_multi T \<and> takeWhile (\<lambda>v. v \<noteq> tab_no_value T) e \<noteq> []
         \<and> list_all (\<lambda>c. is_scalar c \<and> c \<noteq> 0) (takeWhile (\<lambda>v. v \<noteq> tab_no_value T) e)) (tab_mmap T)
     \<and> 3 \<le> tab_max_multi T \<and> 5 * tab_max_multi T \<le> PTRDIFF_MAX"

lemma prop_of_row:
  assumes "uc_tables_ok T" "is_scalar cp" shows "prop_of T cp \<in> set (tab_props T)"
  using ucb_uc_get_prop_scalar [OF assms]
  by (auto simp: ucb_uc_get_prop_def tab_nth_def prop_of_def split: if_splits)

section \<open>One code point\<close>

text \<open>The context after the code points before, of which \<open>prev\<close> is the last that is not null.\<close>

definition ctx_at :: "uc_tables \<Rightarrow> ucb_uc_case_op \<Rightarrow> ucb_cp option \<Rightarrow> casemap_ctx \<Rightarrow> bool" where
  "ctx_at T op prev ctx \<longleftrightarrow> c_op ctx = op \<and> length (c_buf ctx) = tab_max_multi T
     \<and> (case prev of None \<Rightarrow> c_last_prop ctx = None | Some cp \<Rightarrow> c_last_prop ctx = Some (prop_of T cp) \<and> c_last_cp ctx = cp)"

lemma ctx_word_start:
  "ctx_at T op prev ctx \<Longrightarrow>
     (case c_last_prop ctx of None \<Rightarrow> True | Some p \<Rightarrow> ucb_uc_is_word_separator (c_last_cp ctx) p) = word_start T prev"
  by (cases prev) (auto simp: ctx_at_def word_start_def ucb_uc_is_word_separator_def)

lemma ctx_at_put:
  assumes "ctx_at T op prev ctx" "c_buf ctx \<noteq> []"
  shows "ctx_at T op prev (ctx\<lparr>c_buf := (c_buf ctx)[0 := cp]\<rparr>)" "c_buf (ctx\<lparr>c_buf := (c_buf ctx)[0 := cp]\<rparr>) ! 0 = cp"
  subgoal using assms by (cases prev) (simp_all add: ctx_at_def)
  subgoal using assms(2) by (cases "c_buf ctx") simp_all
  done

lemma copy_multi_spec:
  assumes "length e = tab_max_multi T" "length buf = tab_max_multi T" "k \<le> tab_max_multi T"
  shows "\<exists>buf'. copy_multi T e buf k = Ret (k + length (takeWhile (\<lambda>v. v \<noteq> tab_no_value T) (drop k e)), buf')
    \<and> length buf' = tab_max_multi T
    \<and> take (k + length (takeWhile (\<lambda>v. v \<noteq> tab_no_value T) (drop k e))) buf'
        = take k buf @ takeWhile (\<lambda>v. v \<noteq> tab_no_value T) (drop k e)"
  using assms
proof (induction T e buf k rule: copy_multi.induct)
  case (1 T e buf k)
  let ?P = "\<lambda>v. v \<noteq> tab_no_value T"
  show ?case
  proof (cases "k < tab_max_multi T")
    case False
    then show ?thesis using "1.prems" by (simp add: copy_multi.simps)
  next
    case True
    then have d: "drop k e = e ! k # drop (Suc k) e" using "1.prems"(1) by (simp add: Cons_nth_drop_Suc)
    have n: "tab_nth e k = Ret (e ! k)" using True "1.prems"(1) by (simp add: tab_nth_def)
    show ?thesis
    proof (cases "e ! k = tab_no_value T")
      case nv: True
      then show ?thesis using True n d "1.prems" by (simp add: copy_multi.simps [of T e buf k])
    next
      case nv: False
      have e: "copy_multi T e buf k = copy_multi T e (buf[k := e ! k]) (k + 1)"
        using True nv n "1.prems" by (simp add: copy_multi.simps [of T e buf k])
      have t: "take (k + 1) (buf[k := e ! k]) = take k buf @ [e ! k]"
        using True "1.prems"(2) by (simp add: take_Suc_conv_app_nth)
      show ?thesis unfolding e
        using "1.IH" [OF True n nv] True "1.prems" nv t d by simp
    qed
  qed
qed

lemma mapped_scalars:
  assumes T: "case_tables_ok T" and cp: "is_scalar cp"
  shows "list_all is_scalar (mapped T op prev cp)" "mapped T op prev cp \<noteq> []" "length (mapped T op prev cp) \<le> tab_max_multi T"
    "cp \<noteq> 0 \<Longrightarrow> 0 \<notin> set (mapped T op prev cp)"
proof -
  have M: "1 \<le> tab_max_multi T" using T by (simp add: case_tables_ok_def)
  have r: "list_all is_scalar (ref_text T ref cp) \<and> ref_text T ref cp \<noteq> [] \<and> length (ref_text T ref cp) \<le> tab_max_multi T
      \<and> (cp \<noteq> 0 \<longrightarrow> 0 \<notin> set (ref_text T ref cp))"
    if "ref \<le> length (tab_smap T) + length (tab_mmap T)" for ref
  proof (cases "ref \<le> length (tab_smap T)")
    case True
    then show ?thesis using T cp M by (auto simp: ref_text_def case_tables_ok_def list_all_length)
  next
    case False
    let ?e = "tab_mmap T ! (ref - length (tab_smap T) - 1)"
    have "?e \<in> set (tab_mmap T)" using that False by (intro nth_mem) simp
    then have "length ?e = tab_max_multi T \<and> takeWhile (\<lambda>v. v \<noteq> tab_no_value T) ?e \<noteq> []
        \<and> list_all (\<lambda>c. is_scalar c \<and> c \<noteq> 0) (takeWhile (\<lambda>v. v \<noteq> tab_no_value T) ?e)"
      using T by (simp add: case_tables_ok_def list_all_iff)
    then show ?thesis using False length_takeWhile_le [of "\<lambda>v. v \<noteq> tab_no_value T" ?e]
      by (auto simp: ref_text_def list_all_iff)
  qed
  have m: "\<forall>ref \<in> {m_to_upper m, m_to_lower m, m_to_title m, m_to_casefold m}. ref \<le> length (tab_smap T) + length (tab_mmap T)"
    if "mapping_at T cp = Some m" for m
  proof -
    have "p_mapping_idx (prop_of T cp) \<le> length (tab_mapping T)"
      using T prop_of_row [OF _ cp] by (auto simp: case_tables_ok_def list_all_iff)
    then have "m \<in> set (tab_mapping T)" using that by (auto simp: mapping_at_def Let_def split: if_splits)
    then show ?thesis using T by (auto simp: case_tables_ok_def list_all_iff)
  qed
  have z: "is_scalar 0" by (simp add: is_scalar_def)
  have "list_all is_scalar (mapped T op prev cp) \<and> mapped T op prev cp \<noteq> [] \<and> length (mapped T op prev cp) \<le> tab_max_multi T
      \<and> (cp \<noteq> 0 \<longrightarrow> 0 \<notin> set (mapped T op prev cp))"
  proof (cases "mapping_at T cp")
    case None
    then show ?thesis using cp M z by (simp add: mapped_def)
  next
    case (Some mp)
    then show ?thesis using m [OF Some] r z M by (cases op) (simp_all add: mapped_def)
  qed
  then show "list_all is_scalar (mapped T op prev cp)" "mapped T op prev cp \<noteq> []" "length (mapped T op prev cp) \<le> tab_max_multi T"
    "cp \<noteq> 0 \<Longrightarrow> 0 \<notin> set (mapped T op prev cp)" by simp_all
qed

lemma case_apply_spec:
  assumes T: "case_tables_ok T" and l: "length (c_buf ctx) = tab_max_multi T" and o: "c_out_len ctx = 1" "c_buf ctx ! 0 = cp"
    and r: "ref \<le> length (tab_smap T) + length (tab_mmap T)"
  shows "\<exists>b n. case_apply T ref ctx = Ret (ctx\<lparr>c_buf := b, c_out_len := n\<rparr>) \<and> length b = tab_max_multi T
    \<and> take n b = ref_text T ref cp \<and> n = length (ref_text T ref cp)"
proof -
  have M: "0 < tab_max_multi T" using T by (simp add: case_tables_ok_def)
  have h: "take (Suc 0) xs = [xs ! 0]" if "0 < length xs" for xs :: "ucb_cp list" using that by (cases xs) auto
  consider "ref = 0" | "ref \<noteq> 0" "ref \<le> length (tab_smap T)" | "ref > length (tab_smap T)" by linarith
  then show ?thesis
  proof cases
    case 1
    then have "case_apply T ref ctx = Ret (ctx\<lparr>c_buf := c_buf ctx, c_out_len := 1\<rparr>)" using o by (simp add: case_apply_def)
    then show ?thesis using 1 o l M h [of "c_buf ctx"] by (intro exI [of _ "c_buf ctx"] exI [of _ 1]) (simp add: ref_text_def)
  next
    case 2
    let ?b = "(c_buf ctx)[0 := tab_smap T ! (ref - 1)]"
    have "case_apply T ref ctx = Ret (ctx\<lparr>c_buf := ?b, c_out_len := 1\<rparr>)" using 2 o by (simp add: case_apply_def tab_nth_def)
    then show ?thesis using 2 l M h [of ?b] by (intro exI [of _ ?b] exI [of _ 1]) (simp add: ref_text_def)
  next
    case 3
    let ?i = "ref - length (tab_smap T) - 1" and ?P = "\<lambda>v. v \<noteq> tab_no_value T"
    have i: "?i < length (tab_mmap T)" using 3 r by simp
    then have e: "length (tab_mmap T ! ?i) = tab_max_multi T" using T by (simp add: case_tables_ok_def list_all_length)
    obtain b where b: "copy_multi T (tab_mmap T ! ?i) (c_buf ctx) 0 = Ret (length (takeWhile ?P (tab_mmap T ! ?i)), b)"
      "length b = tab_max_multi T" "take (length (takeWhile ?P (tab_mmap T ! ?i))) b = takeWhile ?P (tab_mmap T ! ?i)"
      using copy_multi_spec [OF e l, of 0] by auto
    have "case_apply T ref ctx = Ret (ctx\<lparr>c_buf := b, c_out_len := length (takeWhile ?P (tab_mmap T ! ?i))\<rparr>)"
      using 3 i b(1) by (simp add: case_apply_def tab_nth_def)
    then show ?thesis using 3 b by (intro exI [of _ b] exI [of _ "length (takeWhile ?P (tab_mmap T ! ?i))"]) (simp add: ref_text_def)
  qed
qed

lemma case_map_cp_spec:
  assumes T: "case_tables_ok T" and c: "ctx_at T op prev ctx" and cp: "is_scalar cp" "c_buf ctx ! 0 = cp"
  shows "\<exists>ctx'. ucb_uc_case_map_cp T ctx = Ret ctx' \<and> ctx_at T op (if cp = 0 then prev else Some cp) ctx'
    \<and> take (c_out_len ctx') (c_buf ctx') = mapped T op prev cp \<and> c_out_len ctx' = length (mapped T op prev cp)"
proof -
  have M: "0 < tab_max_multi T" and uT: "uc_tables_ok T" using T by (simp_all add: case_tables_ok_def)
  have l: "length (c_buf ctx) = tab_max_multi T" using c by (simp add: ctx_at_def)
  have t1: "take (Suc 0) (c_buf ctx) = [cp]" using l M cp(2) by (cases "c_buf ctx") auto
  have n0: "tab_nth (c_buf ctx) 0 = Ret cp" using l M cp(2) by (simp add: tab_nth_def)
  show ?thesis
  proof (cases "cp = 0")
    case True
    then show ?thesis using n0 t1 c by (cases prev) (simp_all add: ucb_uc_case_map_cp_def mapped_def ctx_at_def)
  next
    case False
    let ?p = "prop_of T cp"
    have gp: "ucb_uc_get_prop T cp = Ret ?p" using ucb_uc_get_prop_scalar [OF uT cp(1)] by simp
    have mi: "p_mapping_idx ?p \<le> length (tab_mapping T)"
      using T prop_of_row [OF uT cp(1)] by (auto simp: case_tables_ok_def list_all_iff)
    have gm: "ucb_uc_get_mapping T ?p = Ret (mapping_at T cp)"
      using mi by (auto simp: ucb_uc_get_mapping_def tab_ref_def tab_nth_def mapping_at_def Let_def)
    show ?thesis
    proof (cases "mapping_at T cp")
      case None
      then show ?thesis using False n0 gp gm t1 c by (simp add: ucb_uc_case_map_cp_def mapped_def ctx_at_def Let_def)
    next
      case (Some m)
      let ?ctx = "ctx\<lparr>c_out_len := 1, c_last_prop := Some ?p, c_last_cp := cp\<rparr>"
      let ?ref = "case_ref (ctx\<lparr>c_out_len := 1\<rparr>) m"
      have "m \<in> set (tab_mapping T)" using Some mi by (auto simp: mapping_at_def Let_def split: if_splits)
      then have r: "?ref \<le> length (tab_smap T) + length (tab_mmap T)"
        using T by (auto simp: case_ref_def case_tables_ok_def list_all_iff split: ucb_uc_case_op.split)
      have ref: "ref_text T ?ref cp = mapped T op prev cp"
        using ctx_word_start [OF c] c False Some
        by (cases "c_last_prop ctx") (auto simp: mapped_def case_ref_def ctx_at_def split: ucb_uc_case_op.split)
      obtain b n where b: "case_apply T ?ref ?ctx = Ret (?ctx\<lparr>c_buf := b, c_out_len := n\<rparr>)" "length b = tab_max_multi T"
        "take n b = mapped T op prev cp" "n = length (mapped T op prev cp)"
        using case_apply_spec [OF T _ _ _ r, of ?ctx cp] l cp(2) ref by auto
      have "ucb_uc_case_map_cp T ctx = case_apply T ?ref ?ctx"
        using False n0 gp gm Some by (simp add: ucb_uc_case_map_cp_def Let_def)
      then show ?thesis using b c False by (simp add: ctx_at_def)
    qed
  qed
qed

section \<open>A text\<close>

lemma case_loop_spec:
  assumes f: "\<not> fatal_returns me" and T: "case_tables_ok T"
  shows "text_at mem i n cps \<Longrightarrow> ctx_at T op prev ctx \<Longrightarrow> heap_buffer dst \<Longrightarrow>
    succeeds (case_loop T me mem i n ctx dst)
      (\<lambda>(r, b). r = EncOk \<and> heap_buffer b \<and> buffer_bytes b = buffer_bytes dst @ utf8s (case_text T op prev cps))"
proof (induction cps arbitrary: i prev ctx dst)
  case Nil
  then show ?case by (simp add: case_loop.simps text_at_Nil ucb_uc_iter_next_def)
next
  case (Cons cp cps)
  note t = text_at_Cons [OF Cons.prems(1)]
  have M: "3 \<le> tab_max_multi T" "5 * tab_max_multi T \<le> PTRDIFF_MAX" using T by (simp_all add: case_tables_ok_def)
  have it: "ucb_uc_iter_next mem i n = Ret (Some (cp, i + length (utf8 cp)))" using t by (simp add: ucb_uc_iter_next_def)
  let ?ctx = "ctx\<lparr>c_buf := (c_buf ctx)[0 := cp]\<rparr>"
  have l: "length (c_buf ctx) = tab_max_multi T" using Cons.prems(2) by (simp add: ctx_at_def)
  then have ne: "c_buf ctx \<noteq> []" using M(1) by auto
  have c: "ctx_at T op prev ?ctx" "c_buf ?ctx ! 0 = cp" by (rule ctx_at_put [OF Cons.prems(2) ne])+
  obtain ctx' where ctx': "ucb_uc_case_map_cp T ?ctx = Ret ctx'" "ctx_at T op (if cp = 0 then prev else Some cp) ctx'"
    "take (c_out_len ctx') (c_buf ctx') = mapped T op prev cp"
    using case_map_cp_spec [OF T c(1) t(1) c(2)] by auto
  have e: "case_loop T me mem i n ctx dst = rbind (ucb_uc_encode_codepoints me (tab_max_multi T) dst (mapped T op prev cp))
      (\<lambda>(r, dst). if r \<noteq> EncOk then Ret (r, dst) else case_loop T me mem (i + length (utf8 cp)) n ctx' dst)"
    using it ne ctx' by (simp add: case_loop.simps [of T me mem i])
  show ?case unfolding e
  proof (rule succeeds_bind2 [OF encode_succeeds [OF f Cons.prems(3) mapped_scalars(1) [OF T t(1)] M]])
    fix r b
    assume h: "r = EncOk \<and> heap_buffer b \<and> buffer_bytes b = buffer_bytes dst @ utf8s (mapped T op prev cp)"
    then have "heap_buffer b" by simp
    from Cons.IH [OF t(2) ctx'(2) this]
    show "succeeds (case (r, b) of (r, dst) \<Rightarrow> if r \<noteq> EncOk then Ret (r, dst)
        else case_loop T me mem (i + length (utf8 cp)) n ctx' dst)
      (\<lambda>(r, b). r = EncOk \<and> heap_buffer b \<and> buffer_bytes b = buffer_bytes dst @ utf8s (case_text T op prev (cp # cps)))"
      using h by simp
  qed
qed

lemma ctx_at_init: "length fresh = tab_max_multi T \<Longrightarrow> ctx_at T op None (case_ctx_init T fresh op)"
  by (simp add: ctx_at_def case_ctx_init_def)

lemma case_finish_own:
  assumes f: "\<not> fatal_returns me" and b: "heap_buffer dst"
  shows "succeeds (case_finish me True dst) (\<lambda>(res, err, _). err = None
    \<and> r_data res = Some (buffer_bytes dst @ [0]) \<and> r_size res = length (buffer_bytes dst)
    \<and> length (buffer_bytes dst) < PTRDIFF_MAX)"
  unfolding case_finish_def
proof (rule succeeds_bind2 [OF push_succeeds [OF f b, of "[0]"]])
  fix ok b1
  assume h: "ok \<and> heap_buffer b1 \<and> buffer_bytes b1 = buffer_bytes dst @ [0]"
  have s: "Suc (length (buffer_bytes dst)) \<le> SIZE_MAX"
    using h buffer_okD(2-4,6) [OF heap_bufferD(1), of b1] by simp
  have p: "length (buffer_bytes dst) < PTRDIFF_MAX"
    using h buffer_okD(2,3,6) [OF heap_bufferD(1), of b1] by simp
  have u: "usub (Suc (length (buffer_bytes dst))) 1 = length (buffer_bytes dst)" using s by simp
  have "succeeds (rbind (ucb_buffer_fit me b1) (\<lambda>(_, dst). ucb_buffer_transfer dst))
      (\<lambda>((dat, size, _), _). dat = Some (buffer_bytes dst @ [0]) \<and> size = length (buffer_bytes dst @ [0]))"
    using h by (intro fit_transfer_succeeds [OF f]) auto
  then show "succeeds (case (ok, b1) of (ok, dst) \<Rightarrow> if \<not> ok then Ret (uc_null, Some UcOutOfMemory, dst)
      else if True then rbind (rbind (ucb_buffer_fit me dst) (\<lambda>(_, dst). ucb_buffer_transfer dst))
          (\<lambda>((dat, sz, _), dst). Ret (\<lparr>r_data = dat, r_size = usub sz 1\<rparr>, None, dst))
        else rbind (ucb_malloc me (b_size dst)) (\<lambda>ok. if \<not> ok then Undef
          else rbind (mem_read (block dst) (b_size dst)) (\<lambda>bs. Ret (\<lparr>r_data = Some bs, r_size = usub (b_size dst) 1\<rparr>, None, dst))))
    (\<lambda>(res, err, _). err = None \<and> r_data res = Some (buffer_bytes dst @ [0]) \<and> r_size res = length (buffer_bytes dst)
      \<and> length (buffer_bytes dst) < PTRDIFF_MAX)"
    using h u p by (auto elim!: succeeds_bind)
qed (simp add: PTRDIFF_MAX_def)

lemma case_call_spec:
  assumes f: "\<not> fatal_returns me" and T: "case_tables_ok T" and t: "text_at mem 0 n cps" "n < SIZE_MAX"
    and fr: "length fresh = tab_max_multi T"
  shows "succeeds (case_call T me fresh (Some mem) n op) (\<lambda>(res, err). err = None
    \<and> r_data res = Some (utf8s (case_text T op None cps) @ [0]) \<and> r_size res = length (utf8s (case_text T op None cps))
    \<and> length (utf8s (case_text T op None cps)) < PTRDIFF_MAX)"
proof -
  have u: "usize (n + 1) = n + 1" using t(2) by (intro usize_id) simp
  let ?Q = "\<lambda>(res, err, _ :: ucb_buffer). err = (None :: uc_error option)
    \<and> r_data res = Some (utf8s (case_text T op None cps) @ [0]) \<and> r_size res = length (utf8s (case_text T op None cps))
    \<and> length (utf8s (case_text T op None cps)) < PTRDIFF_MAX"
  have fin: "succeeds (rbind (case_loop T me mem 0 n (case_ctx_init T fresh op) b) (\<lambda>(r, dst).
      if r \<noteq> EncOk then Ret (uc_null, encode_error r, dst) else case_finish me True dst)) ?Q"
    if "heap_buffer b" "buffer_bytes b = []" for b
  proof (rule succeeds_bind2 [OF case_loop_spec [OF f T t(1) ctx_at_init [OF fr] that(1)]])
    fix r dst
    assume h: "r = EncOk \<and> heap_buffer dst \<and> buffer_bytes dst = buffer_bytes b @ utf8s (case_text T op None cps)"
    then have "succeeds (case_finish me True dst) ?Q" using case_finish_own [OF f, of dst] that(2) by simp
    then show "succeeds (case (r, dst) of (r, dst) \<Rightarrow>
        if r \<noteq> EncOk then Ret (uc_null, encode_error r, dst) else case_finish me True dst) ?Q" using h by simp
  qed
  have en: "succeeds (rbind (ucb_buffer_ensure me b (n + 1)) (\<lambda>(ok, dst). if \<not> ok then Ret (uc_null, Some UcOutOfMemory, dst)
      else rbind (case_loop T me mem 0 n (case_ctx_init T fresh op) dst) (\<lambda>(r, dst).
      if r \<noteq> EncOk then Ret (uc_null, encode_error r, dst) else case_finish me True dst))) ?Q"
    if "heap_buffer b" "buffer_bytes b = []" "b_alloc b = n + 1" for b
  proof -
    have k: "b_size b = 0" using that(2) buffer_okD(6) [OF heap_bufferD(1) [OF that(1)]] by simp
    have "ucb_buffer_ensure me b (n + 1) = Ret (True, b)"
      using k that(3) buffer_okD(5) [OF heap_bufferD(1) [OF that(1)]] by (simp add: ucb_buffer_ensure_def)
    then show ?thesis using fin [OF that(1,2)] by simp
  qed
  have "succeeds (ucb_uc_case_map T me fresh (Some mem) n op None) ?Q"
    unfolding ucb_uc_case_map_def option.case rbind_assoc u simp_thms(6)
  proof (rule succeeds_bind [OF new_heap_succeeds(2) [OF f, of "n + 1"]], simp, clarify)
    fix b
    assume h: "heap_buffer b" "buffer_bytes b = []" "b_alloc b = n + 1"
    let ?b = "b\<lparr>b_grow := GrowDouble\<rparr>"
    have "heap_buffer ?b" "buffer_bytes ?b = []" "b_alloc ?b = n + 1"
      using h by (simp_all add: heap_buffer_def buffer_ok_def buffer_bytes_def)
    from en [OF this] show "succeeds (rbind (Ret (map_option (\<lambda>b. b\<lparr>b_grow := GrowDouble\<rparr>) (Some b))) (\<lambda>dst.
          case dst of
            None \<Rightarrow> Ret (uc_null, None, zero_buffer)
          | Some dst \<Rightarrow>
              rbind (ucb_buffer_ensure me dst (n + 1)) (\<lambda>(ok, dst).
              if \<not> ok then Ret (uc_null, Some UcOutOfMemory, dst)
              else
                rbind (case_loop T me mem 0 n (case_ctx_init T fresh op) dst) (\<lambda>(r, dst).
                if r \<noteq> EncOk then Ret (uc_null, encode_error r, dst)
                else case_finish me True dst)))) ?Q" by simp
  qed
  then show ?thesis unfolding case_call_def by (rule succeeds_bind) auto
qed

lemma case_text_scalars:
  assumes T: "case_tables_ok T" and c: "list_all is_scalar cps"
  shows "list_all is_scalar (case_text T op prev cps)"
    "0 \<notin> set cps \<Longrightarrow> 0 \<notin> set (case_text T op prev cps)"
  subgoal using c by (induction cps arbitrary: prev) (auto simp: mapped_scalars(1) [OF T])
  subgoal using c by (induction cps arbitrary: prev) (auto dest: mapped_scalars(4) [OF T])
  done

section \<open>Comparison\<close>

text \<open>The order of two lists of code points, as minus one, zero or one.\<close>

fun cp_comp :: "ucb_cp list \<Rightarrow> ucb_cp list \<Rightarrow> int" where
  "cp_comp [] [] = 0"
| "cp_comp [] (_ # _) = - 1"
| "cp_comp (_ # _) [] = 1"
| "cp_comp (x # xs) (y # ys) = (if x > y then 1 else if x < y then - 1 else cp_comp xs ys)"

lemma cp_comp_0: "cp_comp xs ys = 0 \<longleftrightarrow> xs = ys"
  by (induction xs ys rule: cp_comp.induct) auto

lemma cp_comp_swap: "cp_comp ys xs = - cp_comp xs ys"
  by (induction xs ys rule: cp_comp.induct) auto

definition fold_text :: "uc_tables \<Rightarrow> ucb_cp list \<Rightarrow> ucb_cp list" where
  "fold_text T cps = concat (map (mapped T UCB_UC_CASE_FOLD None) cps)"

lemma case_text_fold: "case_text T UCB_UC_CASE_FOLD prev cps = fold_text T cps"
proof -
  have m: "mapped T UCB_UC_CASE_FOLD prev cp = mapped T UCB_UC_CASE_FOLD None cp" for prev cp
    by (simp add: mapped_def split: option.split)
  show ?thesis by (induction cps arbitrary: prev) (simp_all add: fold_text_def, metis m)
qed

text \<open>What an iterator over the rest of a text still gives out.\<close>

definition fold_rest :: "uc_tables \<Rightarrow> byte list \<Rightarrow> ucb_uc_fold_iter \<Rightarrow> ucb_cp list \<Rightarrow> bool" where
  "fold_rest T mem it out \<longleftrightarrow>
     (\<exists>cps prev. text_at mem (f_pos it) (f_end it) cps \<and> ctx_at T UCB_UC_CASE_FOLD prev (f_ctx it)
        \<and> length (f_pending it) = tab_max_multi T \<and> f_pending_len it \<le> tab_max_multi T
        \<and> out = drop (f_pending_pos it) (take (f_pending_len it) (f_pending it)) @ fold_text T cps)"

lemma fold_rest_init:
  assumes "text_at mem 0 n cps" "length fresh = tab_max_multi T"
  shows "fold_rest T mem (ucb_uc_fold_iter_init T fresh n) (fold_text T cps)"
  using assms ctx_at_init [OF assms(2)] unfolding fold_rest_def ucb_uc_fold_iter_init_def by fastforce

lemma fold_iter_next_spec:
  assumes T: "case_tables_ok T" and r: "fold_rest T mem it out"
  shows "\<exists>it'. ucb_uc_fold_iter_next T mem it = Ret (case out of [] \<Rightarrow> None | c # _ \<Rightarrow> Some c, it') \<and> fold_rest T mem it' (tl out)"
proof -
  obtain cps prev where t: "text_at mem (f_pos it) (f_end it) cps" and c: "ctx_at T UCB_UC_CASE_FOLD prev (f_ctx it)"
    and l: "length (f_pending it) = tab_max_multi T" "f_pending_len it \<le> tab_max_multi T"
    and o: "out = drop (f_pending_pos it) (take (f_pending_len it) (f_pending it)) @ fold_text T cps"
    using r by (auto simp: fold_rest_def)
  have M: "3 \<le> tab_max_multi T" using T by (simp add: case_tables_ok_def)
  show ?thesis
  proof (cases "f_pending_pos it < f_pending_len it")
    case True
    let ?it = "it\<lparr>f_pending_pos := f_pending_pos it + 1\<rparr>" and ?k = "f_pending_pos it"
    let ?p = "take (f_pending_len it) (f_pending it)"
    have d: "drop ?k ?p = f_pending it ! ?k # drop (?k + 1) ?p"
      using True l by (simp add: Cons_nth_drop_Suc [of ?k ?p, symmetric])
    have "ucb_uc_fold_iter_next T mem it = Ret (Some (f_pending it ! ?k), ?it)"
      using True l by (simp add: ucb_uc_fold_iter_next_def tab_nth_def)
    moreover have "fold_rest T mem ?it (tl out)" using t c l o d unfolding fold_rest_def by auto
    ultimately show ?thesis using o d by simp
  next
    case False
    then have o': "out = fold_text T cps" using o by simp
    show ?thesis
    proof (cases cps)
      case Nil
      then have "f_pos it \<ge> f_end it" using t by (simp add: text_at_Nil)
      then show ?thesis using False o' Nil r by (simp add: ucb_uc_fold_iter_next_def fold_text_def)
    next
      case (Cons cp cps')
      note tc = text_at_Cons [OF t [unfolded Cons]]
      have ne: "c_buf (f_ctx it) \<noteq> []" using c M by (auto simp: ctx_at_def)
      let ?ctx = "(f_ctx it)\<lparr>c_buf := (c_buf (f_ctx it))[0 := cp]\<rparr>" and ?m = "mapped T UCB_UC_CASE_FOLD prev cp"
      have c1: "ctx_at T UCB_UC_CASE_FOLD prev ?ctx" "c_buf ?ctx ! 0 = cp" by (rule ctx_at_put [OF c ne])+
      obtain ctx' where ctx': "ucb_uc_case_map_cp T ?ctx = Ret ctx'"
        "ctx_at T UCB_UC_CASE_FOLD (if cp = 0 then prev else Some cp) ctx'"
        "take (c_out_len ctx') (c_buf ctx') = ?m" "c_out_len ctx' = length ?m"
        using case_map_cp_spec [OF T c1(1) tc(1) c1(2)] by auto
      note ms = mapped_scalars(2,3) [OF T tc(1), of UCB_UC_CASE_FOLD prev]
      let ?p = "?m @ drop (length ?m) (f_pending it)"
      let ?it = "it\<lparr>f_pos := f_pos it + length (utf8 cp), f_ctx := ctx', f_pending := ?p,
                   f_pending_pos := 1, f_pending_len := length ?m\<rparr>"
      have p0: "tab_nth ?p 0 = Ret (hd ?m)" using ms(1) by (cases ?m) (simp_all add: tab_nth_def)
      have e: "ucb_uc_fold_iter_next T mem it = Ret (Some (hd ?m), ?it)"
        using False tc ne ctx' ms l p0 by (simp add: ucb_uc_fold_iter_next_def not_le)
      have mm: "mapped T UCB_UC_CASE_FOLD None cp = ?m" by (simp add: mapped_def split: option.split)
      have out: "out = ?m @ fold_text T cps'" using o' Cons mm by (simp add: fold_text_def)
      have "fold_rest T mem ?it (tl out)" using tc(2) ctx'(2) l ms out unfolding fold_rest_def
        by (cases ?m) auto
      then show ?thesis using e out ms(1) by (cases ?m) auto
    qed
  qed
qed

lemma icomp_loop_spec:
  assumes T: "case_tables_ok T"
  shows "fold_rest T m1 it1 o1 \<Longrightarrow> fold_rest T m2 it2 o2 \<Longrightarrow> icomp_loop T m1 m2 it1 it2 = Ret (cp_comp o1 o2)"
proof (induction o1 o2 arbitrary: it1 it2 rule: cp_comp.induct)
  case 1
  then show ?case using fold_iter_next_spec [OF T "1.prems"(1)] fold_iter_next_spec [OF T "1.prems"(2)]
    by (auto simp: icomp_loop.simps [of T m1 m2 it1 it2])
next
  case (2 y ys)
  then show ?case using fold_iter_next_spec [OF T "2.prems"(1)] fold_iter_next_spec [OF T "2.prems"(2)]
    by (auto simp: icomp_loop.simps [of T m1 m2 it1 it2])
next
  case (3 x xs)
  then show ?case using fold_iter_next_spec [OF T "3.prems"(1)] fold_iter_next_spec [OF T "3.prems"(2)]
    by (auto simp: icomp_loop.simps [of T m1 m2 it1 it2])
next
  case (4 x xs y ys)
  obtain it1' where "ucb_uc_fold_iter_next T m1 it1 = Ret (Some x, it1')" "fold_rest T m1 it1' xs"
    using fold_iter_next_spec [OF T "4.prems"(1)] by auto
  moreover obtain it2' where "ucb_uc_fold_iter_next T m2 it2 = Ret (Some y, it2')" "fold_rest T m2 it2' ys"
    using fold_iter_next_spec [OF T "4.prems"(2)] by auto
  ultimately show ?case using "4.IH" by (auto simp: icomp_loop.simps [of T m1 m2 it1 it2])
qed

end
