(* ===== verification/Uc_Case_Props.thy ===== *)
theory Uc_Case_Props
  imports Uc_Case_Spec Ucb_Str
begin

text \<open>
  Case mapping and comparison of strings (\<^verbatim>\<open>src/ucb/string.c\<close>), and the properties of case mapping.
\<close>

section \<open>Strings\<close>





definition ucb_str_icomp :: "uc_tables \<Rightarrow> ucb_cp list \<Rightarrow> bool \<Rightarrow> ucb_str \<Rightarrow> ucb_str \<Rightarrow> int result" where
  "ucb_str_icomp T fresh same s1 s2 =
     rbind (mem_of s1) (\<lambda>m1. rbind (mem_of s2) (\<lambda>m2.
     ucb_uc_icomp T fresh same (Some m1) (s_size s1) (Some m2) (s_size s2)))"

section \<open>Lemmas\<close>

lemma str_text_at:
  assumes "str_ok s" "str_text s = utf8s cps" "list_all is_scalar cps"
  obtains m where "mem_of s = Ret m" "text_at m 0 (s_size s) cps" "s_size s < SIZE_MAX" "0 \<notin> set cps"
proof -
  obtain m where m: "mem_of s = Ret m" "str_text s = take (s_size s) m" "s_size s < length m" "s_size s \<le> PTRDIFF_MAX"
    "valid_text (str_text s)" "length (str_text s) = s_size s" using str_okE [OF assms(1)] by metis
  have z: "0 \<notin> set cps"
  proof
    assume "0 \<in> set cps"
    then have "0 \<in> set (utf8s cps)" by (induction cps) (auto simp: utf8_def)
    then show False using m(5) assms(2) by (simp add: valid_text_def)
  qed
  have "text_at m 0 (s_size s) cps" using m assms(2,3) by (auto simp: text_at_def)
  moreover have "s_size s < SIZE_MAX" using m(4) by (simp add: PTRDIFF_MAX_def SIZE_MAX_def)
  ultimately show ?thesis using that m(1) z by blast
qed



lemma cp_comp_less: "cp_comp xs ys < 0 \<longleftrightarrow> xs < ys"
  by (induction xs ys rule: cp_comp.induct) (auto simp: not_less_iff_gr_or_eq)

text \<open>
  A table for the examples: the small letter a has an upper and a title mapping and folds to two code
  points; every other code point is a separator of the table's only other row.
\<close>

definition other_row :: uc_prop where
  "other_row = \<lparr>p_compexcl = False, p_compmaybe = False, p_nfkcno = False, p_gcb = GCB_OTHER, p_incb = INCB_NONE,
     p_extpict = False, p_category = GC_ZS, p_ccc = 0, p_mapping_idx = 0, p_decomp_idx = 0, p_combiner_idx = 0\<rparr>"

definition case_tables :: uc_tables where
  "case_tables = (one_row_tables other_row)\<lparr>
     tab_stage2 := replicate 97 0 @ 1 # replicate 1114014 0,
     tab_props := [other_row, other_row\<lparr>p_category := GC_LL, p_mapping_idx := 1\<rparr>],
     tab_mapping := [\<lparr>m_to_upper = 1, m_to_lower = 0, m_to_title = 1, m_to_casefold = 2\<rparr>],
     tab_smap := [0x41], tab_mmap := [[0x62, 0x63, 0x110000]]\<rparr>"

lemma case_tables_ok: "case_tables_ok case_tables"
  by (simp add: case_tables_ok_def uc_tables_ok_def case_tables_def one_row_tables_def other_row_def uc_row_ok_def
      is_scalar_def PTRDIFF_MAX_def list_all_iff set_replicate_conv_if)

lemma case_tables_max [simp]: "tab_max_multi case_tables = 3"
  by (simp add: case_tables_def one_row_tables_def)

lemma case_tables_prop_of:
  assumes "is_scalar cp"
  shows "prop_of case_tables cp = (if cp = 0x61 then other_row\<lparr>p_category := GC_LL, p_mapping_idx := 1\<rparr> else other_row)"
proof -
  have u: "unat cp < 1114112" using assms by (simp add: is_scalar_unat)
  have e: "cp = 0x61 \<longleftrightarrow> unat cp = 97" by (simp add: word_unat_eq_iff)
  show ?thesis using u e
    by (auto simp: prop_of_def case_tables_def one_row_tables_def nth_append nth_Cons' not_less)
qed

lemma case_tables_mapped:
  assumes "is_scalar cp"
  shows "mapped case_tables op prev cp = (if cp = 0x61 then
      (case op of UCB_UC_CASE_UPPER \<Rightarrow> [0x41] | UCB_UC_CASE_LOWER \<Rightarrow> [0x61] | UCB_UC_CASE_FOLD \<Rightarrow> [0x62, 0x63]
       | UCB_UC_CASE_TITLE \<Rightarrow> if word_start case_tables prev then [0x41] else [0x61]) else [cp])"
  using case_tables_prop_of [OF assms]
  by (auto simp: mapped_def mapping_at_def other_row_def ref_text_def case_tables_def one_row_tables_def Let_def
      split: ucb_uc_case_op.split)

section \<open>Properties\<close>



text \<open>
  C9: \<^verbatim>\<open>ucb_str_icomp\<close> compares two different well-formed strings as the code points of their full case
  foldings: the two iterators, each handing out the expansion of one code point before it reads the next, run
  to the first difference. The result is 0 exactly when the two foldings are equal, negative exactly when the
  folding of the first comes first, and comparing the other way round gives the opposite sign. A string
  compared with itself gives 0.
\<close>

theorem ucb_str_icomp_orders_foldings:
  assumes "case_tables_ok T" "length fresh = tab_max_multi T" "str_ok s1" "str_ok s2"
    "str_text s1 = utf8s cps1" "list_all is_scalar cps1" "str_text s2 = utf8s cps2" "list_all is_scalar cps2"
  shows "\<exists>c. ucb_str_icomp T fresh False s1 s2 = Ret c \<and> ucb_str_icomp T fresh False s2 s1 = Ret (- c)
    \<and> (c = 0 \<longleftrightarrow> fold_text T cps1 = fold_text T cps2) \<and> (c < 0 \<longleftrightarrow> fold_text T cps1 < fold_text T cps2)
    \<and> ucb_str_icomp T fresh True s1 s1 = Ret 0"
proof -
  obtain m1 where m1: "mem_of s1 = Ret m1" "text_at m1 0 (s_size s1) cps1" by (rule str_text_at [OF assms(3,5,6)])
  obtain m2 where m2: "mem_of s2 = Ret m2" "text_at m2 0 (s_size s2) cps2" by (rule str_text_at [OF assms(4,7,8)])
  note it1 = fold_rest_init [OF m1(2) assms(2)] and it2 = fold_rest_init [OF m2(2) assms(2)]
  have "ucb_str_icomp T fresh False s1 s2 = Ret (cp_comp (fold_text T cps1) (fold_text T cps2))"
    "ucb_str_icomp T fresh False s2 s1 = Ret (cp_comp (fold_text T cps2) (fold_text T cps1))"
    using m1(1) m2(1) icomp_loop_spec [OF assms(1) it1 it2] icomp_loop_spec [OF assms(1) it2 it1]
    by (simp_all add: ucb_str_icomp_def ucb_uc_icomp_def)
  moreover have "ucb_str_icomp T fresh True s1 s1 = Ret 0" using m1(1) by (simp add: ucb_str_icomp_def ucb_uc_icomp_def verify_def)
  ultimately show ?thesis using cp_comp_swap [of "fold_text T cps2" "fold_text T cps1"] by (simp add: cp_comp_0 cp_comp_less)
qed

lemma ucb_str_icomp_orders_foldings_witness:
  "ucb_str_icomp case_tables [1, 2, 3] False \<lparr>s_blk = BMem [0x61, 0], s_size = 1, s_alloc = 2\<rparr>
      \<lparr>s_blk = BMem [0x62, 0x63, 0], s_size = 2, s_alloc = 3\<rparr> = Ret 0"
proof -
  let ?s1 = "\<lparr>s_blk = BMem [0x61, 0], s_size = 1, s_alloc = 2\<rparr>" and ?s2 = "\<lparr>s_blk = BMem [0x62, 0x63, 0], s_size = 2, s_alloc = 3\<rparr>"
  have c: "list_all is_scalar [0x61 :: ucb_cp]" "list_all is_scalar [0x62 :: ucb_cp, 0x63]"
    "utf8s [0x61 :: ucb_cp] = [0x61]" "utf8s [0x62 :: ucb_cp, 0x63] = [0x62, 0x63]" by (simp_all add: is_scalar_def utf8_def)
  have "valid_text (utf8s [0x61 :: ucb_cp])" "valid_text (utf8s [0x62 :: ucb_cp, 0x63])"
    by (intro valid_text_utf8s; simp add: is_scalar_def)+
  then have ok: "str_ok ?s1" "str_ok ?s2" unfolding c(3,4) by (simp_all add: str_ok_def PTRDIFF_MAX_def)
  have t: "str_text ?s1 = utf8s [0x61 :: ucb_cp]" "str_text ?s2 = utf8s [0x62 :: ucb_cp, 0x63]"
    unfolding c(3,4) by (simp_all add: str_text_def)
  have "fold_text case_tables [0x61] = fold_text case_tables [0x62, 0x63]"
    by (simp add: fold_text_def case_tables_mapped is_scalar_def)
  then show ?thesis
    using ucb_str_icomp_orders_foldings [OF case_tables_ok _ ok t(1) c(1) t(2) c(2), of "[1, 2, 3]"]
    by auto
qed

end
