(* ===== verification/Pqueue.thy ===== *)
theory Pqueue
  imports Prelude "HOL-Library.Multiset"
begin

text \<open>
  The priority queue of \<^verbatim>\<open>src/ucb/container/pqueue.c\<close>: an array of buckets, one per priority
  in use, highest priority first, each with a singly linked list of nodes in arrival order.

  \<^item> The nodes live in a store (\<open>node_store\<close>): a map from addresses to nodes. A node that was
    freed is gone from the map, so reading through a dangling pointer is undefined.
  \<^item> The bucket array is the whole allocated block, stale entries behind \<open>num_buckets\<close>
    included; \<^verbatim>\<open>memmove\<close> inside it is checked against its bounds.
  \<^item> \<open>mutex\<close> is the queue's standard (not recursive) mutex as the calling thread sees it.
    Locking it twice from one thread is reported and aborts, as in \<^verbatim>\<open>ucb_mutex_lock\<close>.
  \<^item> \<open>freed_data\<close> collects the data handed to the \<^verbatim>\<open>data_free\<close> callback, in order.

  The abstract queue is the list of pairs (priority, data) in the order they leave. Push is
  the insertion behind every entry of the same or a higher priority, pop takes the head; the
  contract is the locale \<open>prio_queue\<close>, whose client lemma says that pushing a sequence and
  draining the queue is a stable sort.
\<close>

section \<open>Data\<close>

record 'd ucb_fwdlist_node =
  nd_data :: 'd
  nd_next :: "nat option"

record 'd node_store =
  cells :: "nat \<Rightarrow> 'd ucb_fwdlist_node option"
  next_addr :: nat
  freed_data :: "'d list"

record ucb_pqueue_bucket =
  bk_priority :: int
  bk_first :: "nat option"
  bk_last :: "nat option"
  num_items :: nat

datatype bucket_block = NoBuckets | FreedBuckets | Buckets "ucb_pqueue_bucket list"

datatype pq_mutex = NoMutex | Unlocked | Locked

record 'd ucb_pqueue =
  buckets :: bucket_block
  num_buckets :: nat
  alloc_buckets :: nat
  data_clone :: "('d \<Rightarrow> 'd option) option"
  data_free :: bool
  pq_mutex :: pq_mutex

record 'd ucb_pqueue_args =
  arg_clone :: "('d \<Rightarrow> 'd option) option"
  arg_free :: bool

definition sizeof_bucket :: nat where
  "sizeof_bucket = 32"

definition sizeof_node :: nat where
  "sizeof_node = 16"

definition sizeof_pqueue :: nat where
  "sizeof_pqueue = 48"

definition PQUEUE_INITIAL_NUM_BUCKETS_INITIAL :: nat where
  "PQUEUE_INITIAL_NUM_BUCKETS_INITIAL = 16"

definition PQUEUE_BUCKETS_GROW_FACTOR :: nat where
  "PQUEUE_BUCKETS_GROW_FACTOR = 2"

text \<open>Pointer accesses.\<close>

definition node_at :: "'d node_store \<Rightarrow> nat option \<Rightarrow> 'd ucb_fwdlist_node result" where
  "node_at st p =
     (case p of None \<Rightarrow> Undef
      | Some a \<Rightarrow> (case cells st a of None \<Rightarrow> Undef | Some n \<Rightarrow> Ret n))"

definition node_put :: "'d node_store \<Rightarrow> nat \<Rightarrow> 'd ucb_fwdlist_node \<Rightarrow> 'd node_store" where
  "node_put st a n = st\<lparr>cells := (cells st)(a \<mapsto> n)\<rparr>"

definition set_next :: "'d node_store \<Rightarrow> nat option \<Rightarrow> nat option \<Rightarrow> 'd node_store result" where
  "set_next st p nx =
     rbind (node_at st p) (\<lambda>n. case p of None \<Rightarrow> Undef
       | Some a \<Rightarrow> Ret (node_put st a (n\<lparr>nd_next := nx\<rparr>)))"

definition node_free :: "'d node_store \<Rightarrow> nat \<Rightarrow> 'd node_store result" where
  "node_free st a =
     (case cells st a of None \<Rightarrow> Undef
      | Some _ \<Rightarrow> Ret (st\<lparr>cells := (\<lambda>b. if b = a then None else cells st b)\<rparr>))"

definition call_free :: "'d node_store \<Rightarrow> 'd \<Rightarrow> 'd node_store" where
  "call_free st d = st\<lparr>freed_data := freed_data st @ [d]\<rparr>"

definition bucket_at :: "'d ucb_pqueue \<Rightarrow> int \<Rightarrow> ucb_pqueue_bucket result" where
  "bucket_at pq i =
     (case buckets pq of
        Buckets bs \<Rightarrow> (if 0 \<le> i \<and> i < int (length bs) then Ret (bs ! nat i) else Undef)
      | _ \<Rightarrow> Undef)"

definition set_bucket :: "'d ucb_pqueue \<Rightarrow> int \<Rightarrow> ucb_pqueue_bucket \<Rightarrow> 'd ucb_pqueue result" where
  "set_bucket pq i b =
     (case buckets pq of
        Buckets bs \<Rightarrow> (if 0 \<le> i \<and> i < int (length bs)
                       then Ret (pq\<lparr>buckets := Buckets (bs[nat i := b])\<rparr>) else Undef)
      | _ \<Rightarrow> Undef)"

text \<open>\<^verbatim>\<open>memmove(&buckets[dst], &buckets[src], n * sizeof(ucb_pqueue_bucket))\<close>.\<close>

definition move_buckets :: "'d ucb_pqueue \<Rightarrow> nat \<Rightarrow> nat \<Rightarrow> nat \<Rightarrow> 'd ucb_pqueue result" where
  "move_buckets pq dst src n =
     (case buckets pq of
        Buckets bs \<Rightarrow> (if src + n \<le> length bs \<and> dst + n \<le> length bs
                       then Ret (pq\<lparr>buckets := Buckets (mem_write dst (take n (drop src bs)) bs)\<rparr>)
                       else Undef)
      | _ \<Rightarrow> Undef)"

definition LOCK_MUTEX :: "'d ucb_pqueue \<Rightarrow> 'd ucb_pqueue result" where
  "LOCK_MUTEX pq =
     (case pq_mutex pq of
        NoMutex \<Rightarrow> Ret pq
      | Unlocked \<Rightarrow> Ret (pq\<lparr>pq_mutex := Locked\<rparr>)
      | Locked \<Rightarrow> Abort UCB_ERROR_MUTEX_LOCKED)"

definition UNLOCK_MUTEX :: "'d ucb_pqueue \<Rightarrow> 'd ucb_pqueue result" where
  "UNLOCK_MUTEX pq =
     (case pq_mutex pq of
        NoMutex \<Rightarrow> Ret pq
      | Unlocked \<Rightarrow> Abort UCB_ERROR_MUTEX_LOCKED
      | Locked \<Rightarrow> Ret (pq\<lparr>pq_mutex := Unlocked\<rparr>))"

text \<open>A \<^verbatim>\<open>size_t\<close> or \<^verbatim>\<open>int\<close> value converted to \<^verbatim>\<open>int\<close>.\<close>

definition c_int :: "int \<Rightarrow> int" where
  "c_int n = (n + 2 ^ 31) mod 2 ^ 32 - 2 ^ 31"

text \<open>The content of a bucket slot that nothing has written yet.\<close>

definition junk_bucket :: "mem_env \<Rightarrow> nat \<Rightarrow> ucb_pqueue_bucket" where
  "junk_bucket me i =
     \<lparr>bk_priority = uint (junk me (sizeof_bucket * i)), bk_first = None, bk_last = None,
      num_items = unat (junk me (sizeof_bucket * i + 24))\<rparr>"

section \<open>Life cycle\<close>

definition ucb_pqueue_init_common ::
  "mem_env \<Rightarrow> bool \<Rightarrow> 'd ucb_pqueue \<Rightarrow> 'd ucb_pqueue_args \<Rightarrow> bool \<Rightarrow> (bool \<times> 'd ucb_pqueue) result" where
  "ucb_pqueue_init_common me mutex_ok pq args mt =
     verify (\<not> (arg_clone args \<noteq> None \<and> \<not> arg_free args)) UCB_ERROR_INVALID_ARG
       (rbind (ucb_malloc me (PQUEUE_INITIAL_NUM_BUCKETS_INITIAL * sizeof_bucket)) (\<lambda>ok.
          if ok
          then Ret (True, \<lparr>
                 buckets = Buckets (map (junk_bucket me) [0..<PQUEUE_INITIAL_NUM_BUCKETS_INITIAL]),
                 num_buckets = 0,
                 alloc_buckets = PQUEUE_INITIAL_NUM_BUCKETS_INITIAL,
                 data_clone = arg_clone args,
                 data_free = arg_free args,
                 pq_mutex = (if mt \<and> mutex_ok then Unlocked else NoMutex)\<rparr>)
          else Ret (False, pq\<lparr>buckets := NoBuckets\<rparr>)))"


definition ucb_pqueue_new ::
  "mem_env \<Rightarrow> bool \<Rightarrow> 'd ucb_pqueue \<Rightarrow> 'd ucb_pqueue_args \<Rightarrow> 'd ucb_pqueue option result" where
  "ucb_pqueue_new me mutex_ok fresh args =
     rbind (ucb_malloc me sizeof_pqueue) (\<lambda>ok.
       if \<not> ok then Ret None
       else rbind (ucb_pqueue_init_common me mutex_ok fresh args False) (\<lambda>(ok, pq).
              Ret (if ok then Some pq else None)))"

definition ucb_pqueue_new_mt ::
  "mem_env \<Rightarrow> bool \<Rightarrow> 'd ucb_pqueue \<Rightarrow> 'd ucb_pqueue_args \<Rightarrow> 'd ucb_pqueue option result" where
  "ucb_pqueue_new_mt me mutex_ok fresh args =
     rbind (ucb_malloc me sizeof_pqueue) (\<lambda>ok.
       if \<not> ok then Ret None
       else rbind (ucb_pqueue_init_common me mutex_ok fresh args True) (\<lambda>(ok, pq).
              Ret (if ok then Some pq else None)))"

definition ucb_pqueue_init :: "mem_env \<Rightarrow> bool \<Rightarrow> 'd ucb_pqueue \<Rightarrow> 'd ucb_pqueue_args \<Rightarrow> (bool \<times> 'd ucb_pqueue) result" where
  "ucb_pqueue_init me mutex_ok pq args = ucb_pqueue_init_common me mutex_ok pq args False"

definition ucb_pqueue_init_mt :: "mem_env \<Rightarrow> bool \<Rightarrow> 'd ucb_pqueue \<Rightarrow> 'd ucb_pqueue_args \<Rightarrow> (bool \<times> 'd ucb_pqueue) result" where
  "ucb_pqueue_init_mt me mutex_ok pq args = ucb_pqueue_init_common me mutex_ok pq args True"

section \<open>Push\<close>

text \<open>The binary search; \<open>low\<close>, \<open>high\<close> and \<open>mid\<close> are \<^verbatim>\<open>int\<close> and the division truncates.\<close>

function search_loop :: "'d ucb_pqueue \<Rightarrow> int \<Rightarrow> int \<Rightarrow> int \<Rightarrow> int result" where
  "search_loop pq prio low high =
     (if low \<le> high
      then let mid = low + (high - low) div 2 in
        rbind (bucket_at pq mid) (\<lambda>b.
          if bk_priority b = prio then Ret mid
          else if bk_priority b \<ge> prio then search_loop pq prio (mid + 1) high
          else search_loop pq prio low (mid - 1))
      else Ret (- (low + 1)))"
  by pat_completeness auto
termination by (relation "measure (\<lambda>(pq, prio, low, high). nat (high + 1 - low))") auto

declare search_loop.simps [simp del]

definition ucb_pqueue_search_bucket :: "'d ucb_pqueue \<Rightarrow> int \<Rightarrow> int result" where
  "ucb_pqueue_search_bucket pq prio = search_loop pq prio 0 (c_int (int (num_buckets pq)) - 1)"

text \<open>The loop that adds up the items in front, from index \<open>i - 1\<close> down to 0.\<close>

fun ins_pos_loop :: "'d ucb_pqueue \<Rightarrow> nat \<Rightarrow> nat \<Rightarrow> nat result" where
  "ins_pos_loop pq 0 acc = Ret acc"
| "ins_pos_loop pq (Suc i) acc =
     rbind (bucket_at pq (int i)) (\<lambda>b. ins_pos_loop pq i (usize (acc + num_items b)))"

text \<open>Lines 93--99: the node becomes the last one of bucket \<open>idx\<close>.\<close>

definition push_existing ::
  "'d node_store \<Rightarrow> 'd ucb_pqueue \<Rightarrow> int \<Rightarrow> nat \<Rightarrow> ('d node_store \<times> 'd ucb_pqueue) result" where
  "push_existing st pq idx node =
     rbind (bucket_at pq idx) (\<lambda>bucket.
     rbind (set_next st (bk_last bucket) (Some node)) (\<lambda>st.
     rbind (set_bucket pq idx (bucket\<lparr>bk_last := Some node,
                                      num_items := usize (num_items bucket + 1)\<rparr>)) (\<lambda>pq.
     Ret (st, pq))))"

text \<open>
  Lines 104--114: more room in the bucket array. \<^verbatim>\<open>ucb_realloc\<close> frees the array when it fails;
  \<open>False\<close> is the early return.
\<close>

definition grow_buckets :: "mem_env \<Rightarrow> 'd ucb_pqueue \<Rightarrow> (bool \<times> 'd ucb_pqueue) result" where
  "grow_buckets me pq =
     (if num_buckets pq = alloc_buckets pq
      then let new_size = usize (alloc_buckets pq * PQUEUE_BUCKETS_GROW_FACTOR);
               bytes = usize (new_size * sizeof_bucket) in
        (case buckets pq of
           FreedBuckets \<Rightarrow> Undef
         | NoBuckets \<Rightarrow>
             rbind (ucb_realloc me False bytes) (\<lambda>r.
               if r = Moved
               then Ret (True, pq\<lparr>alloc_buckets := new_size,
                                  buckets := Buckets (map (junk_bucket me) [0..<new_size])\<rparr>)
               else Ret (False, pq))
         | Buckets bs \<Rightarrow>
             rbind (ucb_realloc me True bytes) (\<lambda>r.
               if r = Moved
               then Ret (True, pq\<lparr>alloc_buckets := new_size,
                                  buckets := Buckets (take new_size bs
                                    @ map (junk_bucket me) [length bs..<new_size])\<rparr>)
               else Ret (False, pq\<lparr>buckets := FreedBuckets\<rparr>)))
      else Ret (True, pq))"

text \<open>Lines 116--135: a new bucket at \<open>idx\<close>, the later ones shifted.\<close>

definition new_bucket ::
  "'d node_store \<Rightarrow> 'd ucb_pqueue \<Rightarrow> int \<Rightarrow> int \<Rightarrow> nat \<Rightarrow> ('d node_store \<times> 'd ucb_pqueue) result" where
  "new_bucket st pq idx prio node =
     rbind (if nat idx = num_buckets pq then Ret pq
            else move_buckets pq (nat idx + 1) (nat idx) (usub (num_buckets pq) (nat idx))) (\<lambda>pq.
     rbind (set_bucket pq idx \<lparr>bk_priority = prio, bk_first = Some node,
                              bk_last = Some node, num_items = 1\<rparr>) (\<lambda>pq.
     rbind (set_next st (Some node) None) (\<lambda>st.
     Ret (st, pq\<lparr>num_buckets := usize (num_buckets pq + 1)\<rparr>))))"

text \<open>Lines 138--148: the position of the last item of bucket \<open>idx\<close>, and the unlock.\<close>

definition push_finish ::
  "'d node_store \<Rightarrow> 'd ucb_pqueue \<Rightarrow> int \<Rightarrow> ('d node_store \<times> 'd ucb_pqueue \<times> nat) result" where
  "push_finish st pq idx =
     rbind (bucket_at pq idx) (\<lambda>b.
     rbind (ins_pos_loop pq (nat idx) (usub (num_items b) 1)) (\<lambda>ins_pos.
     rbind (UNLOCK_MUTEX pq) (\<lambda>pq.
     Ret (st, pq, ins_pos))))"

text \<open>
  The result is the store, the queue and the position; \<open>SIZE_MAX\<close> when the bucket array
  cannot grow. That return leaves the mutex locked.
\<close>

definition ucb_pqueue_push_node ::
  "mem_env \<Rightarrow> 'd node_store \<Rightarrow> 'd ucb_pqueue \<Rightarrow> int \<Rightarrow> nat
     \<Rightarrow> ('d node_store \<times> 'd ucb_pqueue \<times> nat) result" where
  "ucb_pqueue_push_node me st pq prio node =
     rbind (LOCK_MUTEX pq) (\<lambda>pq.
     rbind (ucb_pqueue_search_bucket pq prio) (\<lambda>idx.
     if idx \<ge> 0
     then rbind (push_existing st pq idx node) (\<lambda>(st, pq). push_finish st pq idx)
     else
       let idx = - idx - 1 in
       rbind (grow_buckets me pq) (\<lambda>(ok, pq).
       if \<not> ok then Ret (st, pq, SIZE_MAX)
       else rbind (new_bucket st pq idx prio node) (\<lambda>(st, pq). push_finish st pq idx))))"

text \<open>
  \<^verbatim>\<open>node->next = UCB_NULL\<close> and \<^verbatim>\<open>node->data\<close> are both written before the node is linked; a node
  whose clone fails is freed again.
\<close>

definition ucb_pqueue_push ::
  "mem_env \<Rightarrow> 'd node_store \<Rightarrow> 'd ucb_pqueue \<Rightarrow> 'd \<Rightarrow> int
     \<Rightarrow> ('d node_store \<times> 'd ucb_pqueue \<times> nat) result" where
  "ucb_pqueue_push me st pq data prio =
     rbind (ucb_malloc me sizeof_node) (\<lambda>ok.
     if \<not> ok then Ret (st, pq, SIZE_MAX)
     else
       let node = next_addr st;
           st = st\<lparr>next_addr := node + 1\<rparr>;
           copy = (case data_clone pq of None \<Rightarrow> Some data | Some clone \<Rightarrow> clone data);
           cloned = (data_clone pq \<noteq> None)
       in case copy of
            None \<Rightarrow> Ret (st, pq, SIZE_MAX)
          | Some d \<Rightarrow>
              rbind (ucb_pqueue_push_node me (node_put st node \<lparr>nd_data = d, nd_next = None\<rparr>)
                       pq prio node) (\<lambda>(st, pq, ins_pos).
              if ins_pos = SIZE_MAX
              then rbind (node_free (if cloned then call_free st d else st) node) (\<lambda>st.
                     Ret (st, pq, ins_pos))
              else Ret (st, pq, ins_pos)))"

section \<open>Pop, peek and queries\<close>

text \<open>Lines 165--175: the first bucket, with \<open>n\<close> items left, is removed when it is empty.\<close>

definition drop_empty_bucket :: "'d ucb_pqueue \<Rightarrow> nat \<Rightarrow> 'd ucb_pqueue result" where
  "drop_empty_bucket pq n =
     (if n = 0
      then rbind (if num_buckets pq > 1
                  then move_buckets pq 0 1 (usub (num_buckets pq) 1) else Ret pq) (\<lambda>pq.
           Ret (pq\<lparr>num_buckets := usub (num_buckets pq) 1\<rparr>))
      else Ret pq)"

definition ucb_pqueue_pop_node ::
  "'d node_store \<Rightarrow> 'd ucb_pqueue \<Rightarrow> ('d node_store \<times> 'd ucb_pqueue \<times> nat option) result" where
  "ucb_pqueue_pop_node st pq =
     rbind (LOCK_MUTEX pq) (\<lambda>pq.
     if num_buckets pq \<noteq> 0
     then
       rbind (bucket_at pq 0) (\<lambda>b.
       rbind (node_at st (bk_first b)) (\<lambda>n.
       rbind (set_next st (bk_first b) None) (\<lambda>st.
       let b' = b\<lparr>bk_first := nd_next n, num_items := usub (num_items b) 1\<rparr> in
       rbind (set_bucket pq 0 b') (\<lambda>pq.
       rbind (drop_empty_bucket pq (num_items b')) (\<lambda>pq.
       rbind (UNLOCK_MUTEX pq) (\<lambda>pq.
       Ret (st, pq, bk_first b)))))))
     else rbind (UNLOCK_MUTEX pq) (\<lambda>pq. Ret (st, pq, None)))"

definition ucb_pqueue_pop ::
  "'d node_store \<Rightarrow> 'd ucb_pqueue \<Rightarrow> ('d node_store \<times> 'd ucb_pqueue \<times> 'd option) result" where
  "ucb_pqueue_pop st pq =
     rbind (ucb_pqueue_pop_node st pq) (\<lambda>(st, pq, node).
     case node of
       None \<Rightarrow> Ret (st, pq, None)
     | Some a \<Rightarrow>
         rbind (node_at st node) (\<lambda>n.
         rbind (node_free st a) (\<lambda>st.
         Ret (st, pq, Some (nd_data n)))))"

definition ucb_pqueue_peek ::
  "'d node_store \<Rightarrow> 'd ucb_pqueue \<Rightarrow> ('d ucb_pqueue \<times> 'd option) result" where
  "ucb_pqueue_peek st pq =
     rbind (LOCK_MUTEX pq) (\<lambda>pq.
     rbind (if num_buckets pq \<noteq> 0
            then rbind (bucket_at pq 0) (\<lambda>b.
                 rbind (node_at st (bk_first b)) (\<lambda>n. Ret (Some (nd_data n))))
            else Ret None) (\<lambda>data.
     rbind (UNLOCK_MUTEX pq) (\<lambda>pq.
     Ret (pq, data))))"

function size_loop :: "'d ucb_pqueue \<Rightarrow> nat \<Rightarrow> nat \<Rightarrow> nat result" where
  "size_loop pq i ret =
     (if i < num_buckets pq
      then rbind (bucket_at pq (int i)) (\<lambda>b. size_loop pq (i + 1) (usize (ret + num_items b)))
      else Ret ret)"
  by pat_completeness auto
termination by (relation "measure (\<lambda>(pq, i, ret). num_buckets pq - i)") auto

declare size_loop.simps [simp del]

definition ucb_pqueue_size :: "'d ucb_pqueue \<Rightarrow> ('d ucb_pqueue \<times> nat) result" where
  "ucb_pqueue_size pq =
     rbind (LOCK_MUTEX pq) (\<lambda>pq.
     rbind (size_loop pq 0 0) (\<lambda>ret.
     rbind (UNLOCK_MUTEX pq) (\<lambda>pq.
     Ret (pq, ret))))"

definition ucb_pqueue_empty :: "'d ucb_pqueue \<Rightarrow> ('d ucb_pqueue \<times> bool) result" where
  "ucb_pqueue_empty pq =
     rbind (LOCK_MUTEX pq) (\<lambda>pq.
     rbind (UNLOCK_MUTEX pq) (\<lambda>pq'.
     Ret (pq', num_buckets pq = 0)))"

section \<open>Clear, fit and release\<close>

text \<open>
  The walk that frees a bucket's list. Every round frees a node, so a number of rounds that
  is no smaller than the number of nodes in the store is enough; running out of fuel shows
  as \<open>Undef\<close>, which the lemmas rule out.
\<close>

fun free_list :: "nat \<Rightarrow> bool \<Rightarrow> 'd node_store \<Rightarrow> nat option \<Rightarrow> 'd node_store result" where
  "free_list _ fr st None = Ret st"
| "free_list 0 fr st (Some a) = Undef"
| "free_list (Suc fuel) fr st (Some a) =
     rbind (node_at st (Some a)) (\<lambda>n.
     rbind (node_free (if fr then call_free st (nd_data n) else st) a) (\<lambda>st.
     free_list fuel fr st (nd_next n)))"

function clear_loop :: "'d ucb_pqueue \<Rightarrow> nat \<Rightarrow> 'd node_store \<Rightarrow> 'd node_store result" where
  "clear_loop pq bi st =
     (if bi < num_buckets pq
      then rbind (bucket_at pq (int bi)) (\<lambda>b.
           rbind (free_list (next_addr st) (data_free pq) st (bk_first b)) (\<lambda>st.
           clear_loop pq (bi + 1) st))
      else Ret st)"
  by pat_completeness auto
termination by (relation "measure (\<lambda>(pq, bi, st). num_buckets pq - bi)") auto

declare clear_loop.simps [simp del]

definition ucb_pqueue_clear ::
  "'d node_store \<Rightarrow> 'd ucb_pqueue \<Rightarrow> ('d node_store \<times> 'd ucb_pqueue) result" where
  "ucb_pqueue_clear st pq =
     rbind (LOCK_MUTEX pq) (\<lambda>pq.
     rbind (clear_loop pq 0 st) (\<lambda>st.
     rbind (UNLOCK_MUTEX (pq\<lparr>num_buckets := 0\<rparr>)) (\<lambda>pq.
     Ret (st, pq))))"

text \<open>\<open>fit\<close> stores the result of \<^verbatim>\<open>ucb_realloc\<close> unchecked.\<close>

definition ucb_pqueue_fit :: "mem_env \<Rightarrow> 'd ucb_pqueue \<Rightarrow> 'd ucb_pqueue result" where
  "ucb_pqueue_fit me pq =
     rbind (LOCK_MUTEX pq) (\<lambda>pq.
     rbind (if num_buckets pq > PQUEUE_INITIAL_NUM_BUCKETS_INITIAL \<and> num_buckets pq < alloc_buckets pq
            then case buckets pq of
                FreedBuckets \<Rightarrow> Undef
              | NoBuckets \<Rightarrow>
                  rbind (ucb_realloc me False (usize (num_buckets pq * sizeof_bucket))) (\<lambda>r.
                  Ret (pq\<lparr>alloc_buckets := num_buckets pq,
                          buckets := (if r = Moved
                            then Buckets (map (junk_bucket me) [0..<num_buckets pq]) else NoBuckets)\<rparr>))
              | Buckets bs \<Rightarrow>
                  rbind (ucb_realloc me True (usize (num_buckets pq * sizeof_bucket))) (\<lambda>r.
                  Ret (pq\<lparr>alloc_buckets := num_buckets pq,
                          buckets := (if r = Moved then Buckets (take (num_buckets pq) bs) else NoBuckets)\<rparr>))
            else Ret pq) UNLOCK_MUTEX)"

text \<open>\<open>release\<close> destroys the mutex, which is unlocked after \<open>clear\<close>; \<^verbatim>\<open>ucb_pqueue_free\<close> also
  frees the queue object itself.\<close>

definition ucb_pqueue_release ::
  "'d node_store \<Rightarrow> 'd ucb_pqueue \<Rightarrow> ('d node_store \<times> 'd ucb_pqueue) result" where
  "ucb_pqueue_release st pq =
     rbind (ucb_pqueue_clear st pq) (\<lambda>(st, pq).
     verify (pq_mutex pq \<noteq> Locked) UCB_ERROR_MUTEX_LOCKED
       (if buckets pq = FreedBuckets then Undef
        else Ret (st, pq\<lparr>buckets := FreedBuckets, alloc_buckets := 0, data_clone := None,
                         data_free := False, pq_mutex := NoMutex\<rparr>)))"

definition ucb_pqueue_free :: "'d node_store \<Rightarrow> 'd ucb_pqueue \<Rightarrow> 'd node_store result" where
  "ucb_pqueue_free st pq = rbind (ucb_pqueue_release st pq) (\<lambda>(st, _). Ret st)"


section \<open>Representation\<close>

text \<open>
  \<open>chain c p xs\<close>: from pointer \<open>p\<close> the store \<open>c\<close> holds exactly the nodes \<open>xs\<close> (address and
  data), ended by a null pointer. A bucket is represented by its priority and its nodes, a
  queue by the list of its buckets.
\<close>

type_synonym 'd bucket_nodes = "int \<times> (nat \<times> 'd) list"

primrec chain :: "(nat \<Rightarrow> 'd ucb_fwdlist_node option) \<Rightarrow> nat option \<Rightarrow> (nat \<times> 'd) list \<Rightarrow> bool" where
  "chain c p [] = (p = None)"
| "chain c p (x # xs) = (p = Some (fst x)
     \<and> (\<exists>nx. c (fst x) = Some \<lparr>nd_data = snd x, nd_next = nx\<rparr> \<and> chain c nx xs))"

definition bucket_rep ::
  "(nat \<Rightarrow> 'd ucb_fwdlist_node option) \<Rightarrow> ucb_pqueue_bucket \<Rightarrow> 'd bucket_nodes \<Rightarrow> bool" where
  "bucket_rep c b g = (bk_priority b = fst g \<and> snd g \<noteq> [] \<and> chain c (bk_first b) (snd g)
     \<and> bk_last b = Some (fst (last (snd g))) \<and> num_items b = length (snd g))"

definition node_addrs :: "'d bucket_nodes list \<Rightarrow> nat list" where
  "node_addrs gs = concat (map (\<lambda>g. map fst (snd g)) gs)"

definition flat :: "'d bucket_nodes list \<Rightarrow> (int \<times> 'd) list" where
  "flat gs = concat (map (\<lambda>g. map (\<lambda>x. (fst g, snd x)) (snd g)) gs)"

definition block_len :: "'d ucb_pqueue \<Rightarrow> nat" where
  "block_len pq = (case buckets pq of Buckets bs \<Rightarrow> length bs | _ \<Rightarrow> 0)"

definition live_buckets :: "'d ucb_pqueue \<Rightarrow> ucb_pqueue_bucket list" where
  "live_buckets pq = (case buckets pq of Buckets bs \<Rightarrow> take (num_buckets pq) bs | _ \<Rightarrow> [])"

definition store_ok :: "'d node_store \<Rightarrow> 'd bucket_nodes list \<Rightarrow> bool" where
  "store_ok st gs = (distinct (node_addrs gs) \<and> (\<forall>a\<in>set (node_addrs gs). a < next_addr st)
     \<and> dom (cells st) = set (node_addrs gs))"

definition array_rep ::
  "(nat \<Rightarrow> 'd ucb_fwdlist_node option) \<Rightarrow> 'd ucb_pqueue \<Rightarrow> 'd bucket_nodes list \<Rightarrow> bool" where
  "array_rep c pq gs = (
     (\<exists>bs. buckets pq = Buckets bs \<and> length bs = alloc_buckets pq)
     \<and> num_buckets pq = length gs \<and> length gs \<le> alloc_buckets pq
     \<and> 0 < alloc_buckets pq \<and> alloc_buckets pq * sizeof_bucket \<le> PTRDIFF_MAX
     \<and> list_all2 (bucket_rep c) (live_buckets pq) gs
     \<and> sorted_wrt (\<lambda>g h. fst g > fst h) gs)"

definition pq_rep :: "'d node_store \<Rightarrow> 'd ucb_pqueue \<Rightarrow> 'd bucket_nodes list \<Rightarrow> bool" where
  "pq_rep st pq gs = (array_rep (cells st) pq gs
     \<and> store_ok st gs \<and> length (flat gs) < 2 ^ 63
     \<and> (data_clone pq \<noteq> None \<longrightarrow> data_free pq))"

text \<open>The abstract queue, and the queue object holding it between two calls.\<close>

type_synonym 'd pq_model = "(int \<times> 'd) list"

definition pq_holds :: "'d node_store \<times> 'd ucb_pqueue \<Rightarrow> 'd pq_model \<Rightarrow> bool" where
  "pq_holds s q = (pq_mutex (snd s) \<noteq> Locked \<and> (\<exists>gs. pq_rep (fst s) (snd s) gs \<and> q = flat gs))"

definition model_push :: "'d \<Rightarrow> int \<Rightarrow> 'd pq_model \<Rightarrow> 'd pq_model" where
  "model_push d p q = takeWhile (\<lambda>x. fst x \<ge> p) q @ (p, d) # dropWhile (\<lambda>x. fst x \<ge> p) q"

definition model_pos :: "int \<Rightarrow> 'd pq_model \<Rightarrow> nat" where
  "model_pos p q = length (takeWhile (\<lambda>x. fst x \<ge> p) q)"

subsection \<open>Chains\<close>

lemma chain_cong: "(\<And>a. a \<in> fst ` set xs \<Longrightarrow> c a = c' a) \<Longrightarrow> chain c p xs = chain c' p xs"
  by (induction xs arbitrary: p) auto

lemma chain_at: "chain c p xs \<Longrightarrow> a \<in> fst ` set xs \<Longrightarrow> \<exists>n. c a = Some n"
  by (induction xs arbitrary: p) auto

lemma chain_last:
  "chain c p xs \<Longrightarrow> xs \<noteq> [] \<Longrightarrow>
     c (fst (last xs)) = Some \<lparr>nd_data = snd (last xs), nd_next = None\<rparr>"
  by (induction xs arbitrary: p) (auto split: if_splits)

lemma chain_snoc:
  assumes "chain c p xs" "xs \<noteq> []" "distinct (map fst xs)" "a \<notin> fst ` set xs"
    "c a = Some \<lparr>nd_data = d, nd_next = None\<rparr>"
  shows "chain (c(fst (last xs) \<mapsto> \<lparr>nd_data = snd (last xs), nd_next = Some a\<rparr>)) p (xs @ [(a, d)])"
  using assms
proof (induction xs arbitrary: p)
  case Nil
  then show ?case by simp
next
  case (Cons x xs)
  show ?case
  proof (cases "xs = []")
    case True
    then show ?thesis using Cons.prems by auto
  next
    case False
    then obtain nx where nx: "p = Some (fst x)" "c (fst x) = Some \<lparr>nd_data = snd x, nd_next = nx\<rparr>"
      "chain c nx xs" using Cons.prems(1) by auto
    have "fst (last xs) \<noteq> fst x" using Cons.prems(3) False by (metis distinct.simps(2) last_in_set list.simps(9) image_eqI list.set_map)
    then show ?thesis using Cons.IH [OF nx(3) False] Cons.prems nx False by auto
  qed
qed


subsection \<open>The bucket array\<close>

lemma array_repE:
  assumes "array_rep c pq gs"
  obtains bs where "buckets pq = Buckets bs" "length bs = alloc_buckets pq"
    "num_buckets pq = length gs" "length gs \<le> length bs"
    "list_all2 (bucket_rep c) (take (length gs) bs) gs"
  using assms by (auto simp: array_rep_def live_buckets_def)

lemma bucket_at_rep:
  assumes "array_rep c pq gs" "i < length gs"
  obtains b where "bucket_at pq (int i) = Ret b" "bucket_rep c b (gs ! i)"
proof -
  obtain bs where bs: "buckets pq = Buckets bs" "length gs \<le> length bs"
      "list_all2 (bucket_rep c) (take (length gs) bs) gs"
    using array_repE [OF assms(1)] by metis
  then have "bucket_rep c (bs ! i) (gs ! i)"
    using assms(2) list_all2_nthD2 [OF bs(3) assms(2)] by simp
  then show ?thesis using that [of "bs ! i"] bs assms(2) by (simp add: bucket_at_def)
qed

text \<open>What the search returns for the priorities \<open>ps\<close>: an index holding \<open>prio\<close>, or the
  insertion point encoded as \<open>- (k + 1)\<close>.\<close>

definition search_result :: "int list \<Rightarrow> int \<Rightarrow> int \<Rightarrow> bool" where
  "search_result ps prio r =
     (if r \<ge> 0 then nat r < length ps \<and> ps ! nat r = prio
      else nat (- r - 1) \<le> length ps
         \<and> (\<forall>i < nat (- r - 1). prio < ps ! i)
         \<and> (\<forall>i < length ps. nat (- r - 1) \<le> i \<longrightarrow> ps ! i < prio))"

lemma search_loop_result:
  assumes "\<And>i. i < length ps \<Longrightarrow> \<exists>b. bucket_at pq (int i) = Ret b \<and> bk_priority b = ps ! i"
    "sorted_wrt (>) ps"
    "0 \<le> low" "low \<le> high + 1" "high < int (length ps)"
    "\<forall>i < length ps. int i < low \<longrightarrow> prio < ps ! i"
    "\<forall>i < length ps. high < int i \<longrightarrow> ps ! i < prio"
  shows "\<exists>r. search_loop pq prio low high = Ret r \<and> search_result ps prio r"
  using assms
proof (induction "nat (high + 1 - low)" arbitrary: low high rule: less_induct)
  case less
  show ?case
  proof (cases "low \<le> high")
    case False
    then have "low = high + 1" using less.prems(4) by simp
    then show ?thesis using less.prems
      by (subst search_loop.simps) (auto simp: search_result_def)
  next
    case True
    define mid where "mid = low + (high - low) div 2"
    have m: "low \<le> mid" "mid \<le> high" using True by (auto simp: mid_def)
    define k where "k = nat mid"
    have k: "mid = int k" "k < length ps" using m less.prems(3,5) by (auto simp: k_def)
    obtain b where b: "bucket_at pq mid = Ret b" "bk_priority b = ps ! k"
      using less.prems(1) [OF k(2)] k(1) by auto
    have gt: "ps ! i > ps ! k" if "i < k" for i
      using sorted_wrt_nth_less [OF less.prems(2) that k(2)] by simp
    have lt: "ps ! i < ps ! k" if "k < i" "i < length ps" for i
      using sorted_wrt_nth_less [OF less.prems(2) that] by simp
    have step: "search_loop pq prio low high =
        (if ps ! k = prio then Ret mid
         else if ps ! k \<ge> prio then search_loop pq prio (mid + 1) high
         else search_loop pq prio low (mid - 1))"
      by (subst search_loop.simps) (use True b in \<open>simp add: Let_def flip: mid_def\<close>)
    consider "ps ! k = prio" | "prio < ps ! k" | "ps ! k < prio" by linarith
    then show ?thesis
    proof cases
      case 1
      then show ?thesis using step k by (auto simp: search_result_def)
    next
      case 2
      have "\<exists>r. search_loop pq prio (mid + 1) high = Ret r \<and> search_result ps prio r"
      proof (rule less.hyps [OF _ less.prems(1,2)])
        show "\<forall>i<length ps. int i < mid + 1 \<longrightarrow> prio < ps ! i"
          using 2 gt k by (metis less_trans linorder_cases of_nat_less_iff zle_add1_eq_le leD)
      qed (use m less.prems in auto)
      then show ?thesis using step 2 by auto
    next
      case 3
      have "\<exists>r. search_loop pq prio low (mid - 1) = Ret r \<and> search_result ps prio r"
      proof (rule less.hyps [OF _ less.prems(1,2)])
        show "\<forall>i<length ps. mid - 1 < int i \<longrightarrow> ps ! i < prio"
        proof (intro allI impI)
          fix i assume i: "i < length ps" "mid - 1 < int i"
          then have "k \<le> i" using k by simp
          then show "ps ! i < prio" using 3 lt [of i] i(1) by (cases "i = k") auto
        qed
      qed (use m less.prems in auto)
      then show ?thesis using step 3 by auto
    qed
  qed
qed

lemma c_int_id: "0 \<le> n \<Longrightarrow> n < 2 ^ 31 \<Longrightarrow> c_int n = n"
  by (simp add: c_int_def)

lemma search_bucket_result:
  assumes "array_rep c pq gs" "length gs < 2 ^ 31"
  shows "\<exists>r. ucb_pqueue_search_bucket pq prio = Ret r \<and> search_result (map fst gs) prio r"
proof -
  have c: "c_int (int (num_buckets pq)) = int (length gs)"
    using assms by (subst c_int_id) (auto simp: array_rep_def)
  have s: "sorted_wrt (>) (map fst gs)" using assms(1) by (simp add: array_rep_def sorted_wrt_map)
  show ?thesis unfolding ucb_pqueue_search_bucket_def c
  proof (rule search_loop_result)
    fix i assume "i < length (map fst gs)"
    then show "\<exists>b. bucket_at pq (int i) = Ret b \<and> bk_priority b = map fst gs ! i"
      using bucket_at_rep [OF assms(1), of i] by (auto simp: bucket_rep_def)
  qed (use s in auto)
qed


lemma flat_simps [simp]:
  "flat [] = []" "flat (g # gs) = map (\<lambda>x. (fst g, snd x)) (snd g) @ flat gs"
  "flat (gs @ hs) = flat gs @ flat hs"
  by (simp_all add: flat_def)

lemma node_addrs_simps [simp]:
  "node_addrs [] = []" "node_addrs (g # gs) = map fst (snd g) @ node_addrs gs"
  "node_addrs (gs @ hs) = node_addrs gs @ node_addrs hs"
  by (simp_all add: node_addrs_def)

lemma flat_take_le: "length (flat (take i gs)) \<le> length (flat gs)"
  by (metis append_take_drop_id flat_simps(3) le_add1 length_append)

lemma ins_pos_loop_sum:
  assumes "array_rep c pq gs"
  shows "i \<le> length gs \<Longrightarrow> acc + length (flat (take i gs)) \<le> SIZE_MAX \<Longrightarrow>
    ins_pos_loop pq i acc = Ret (acc + length (flat (take i gs)))"
proof (induction i arbitrary: acc)
  case 0
  then show ?case by simp
next
  case (Suc i)
  obtain b where b: "bucket_at pq (int i) = Ret b" "bucket_rep c b (gs ! i)"
    using bucket_at_rep [OF assms, of i] Suc.prems(1) by auto
  have t: "take (Suc i) gs = take i gs @ [gs ! i]" using Suc.prems(1) by (simp add: take_Suc_conv_app_nth)
  have n: "num_items b = length (snd (gs ! i))" using b(2) by (simp add: bucket_rep_def)
  have "usize (acc + num_items b) = acc + num_items b"
    using Suc.prems(2) t n by (intro usize_id) simp
  then show ?case using Suc.IH [of "acc + num_items b"] Suc.prems b(1) n t by simp
qed

lemma size_loop_sum:
  assumes "array_rep c pq gs"
  shows "i \<le> length gs \<Longrightarrow> acc + length (flat (drop i gs)) \<le> SIZE_MAX \<Longrightarrow>
    size_loop pq i acc = Ret (acc + length (flat (drop i gs)))"
proof (induction "length gs - i" arbitrary: i acc)
  case 0
  then show ?case using assms by (subst size_loop.simps) (simp add: array_rep_def)
next
  case (Suc k)
  then have i: "i < length gs" by simp
  obtain b where b: "bucket_at pq (int i) = Ret b" "bucket_rep c b (gs ! i)"
    using bucket_at_rep [OF assms i] .
  have t: "drop i gs = gs ! i # drop (Suc i) gs" using i by (simp add: Cons_nth_drop_Suc)
  have n: "num_items b = length (snd (gs ! i))" using b(2) by (simp add: bucket_rep_def)
  have u: "usize (acc + num_items b) = acc + num_items b"
    using Suc.prems(2) t n by (intro usize_id) simp
  have "size_loop pq (Suc i) (acc + num_items b)
      = Ret (acc + num_items b + length (flat (drop (Suc i) gs)))"
    using Suc.prems Suc.hyps(2) i t n by (intro Suc.hyps(1)) auto
  then show ?case using i b(1) u t n assms
    by (subst size_loop.simps) (simp add: array_rep_def)
qed

subsection \<open>The two ways to push\<close>

text \<open>A node that was allocated and filled but not linked yet.\<close>

definition node_ready :: "'d node_store \<Rightarrow> 'd bucket_nodes list \<Rightarrow> nat \<Rightarrow> 'd \<Rightarrow> bool" where
  "node_ready st gs node d = (distinct (node_addrs gs) \<and> node \<notin> set (node_addrs gs)
     \<and> (\<forall>a\<in>insert node (set (node_addrs gs)). a < next_addr st)
     \<and> dom (cells st) = insert node (set (node_addrs gs))
     \<and> cells st node = Some \<lparr>nd_data = d, nd_next = None\<rparr>)"

lemma bucket_rep_cong:
  "(\<And>a. a \<in> fst ` set (snd g) \<Longrightarrow> c a = c' a) \<Longrightarrow> bucket_rep c b g = bucket_rep c' b g"
  unfolding bucket_rep_def using chain_cong [of "snd g" c c'] by auto

lemma node_addrs_split: "k < length gs \<Longrightarrow>
  node_addrs gs = node_addrs (take k gs) @ map fst (snd (gs ! k)) @ node_addrs (drop (Suc k) gs)"
  by (metis append_take_drop_id Cons_nth_drop_Suc node_addrs_simps(2) node_addrs_simps(3))

lemma flat_split: "k < length gs \<Longrightarrow>
  flat gs = flat (take k gs) @ map (\<lambda>x. (fst (gs ! k), snd x)) (snd (gs ! k)) @ flat (drop (Suc k) gs)"
  by (metis append_take_drop_id Cons_nth_drop_Suc flat_simps(2) flat_simps(3))

lemma nth_addrs_subset: "i < length gs \<Longrightarrow> a \<in> fst ` set (snd (gs ! i)) \<Longrightarrow> a \<in> set (node_addrs gs)"
  unfolding node_addrs_def by (auto intro!: bexI [of _ "gs ! i"])

lemma other_bucket_disjoint:
  assumes "distinct (node_addrs gs)" "i < length gs" "k < length gs" "i \<noteq> k"
    "a \<in> fst ` set (snd (gs ! i))"
  shows "a \<notin> fst ` set (snd (gs ! k))"
proof -
  have d: "distinct (node_addrs (take k gs) @ map fst (snd (gs ! k)) @ node_addrs (drop (Suc k) gs))"
    using node_addrs_split [OF assms(3)] assms(1) by simp
  consider "i < k" | "k < i" using assms(4) by linarith
  then have "a \<in> set (node_addrs (take k gs)) \<or> a \<in> set (node_addrs (drop (Suc k) gs))"
  proof cases
    case 1
    then show ?thesis using assms(2,3,5) nth_addrs_subset [of i "take k gs" a] by simp
  next
    case 2
    then show ?thesis using assms(2,3,5) nth_addrs_subset [of "i - Suc k" "drop (Suc k) gs" a] by simp
  qed
  then show ?thesis using d by auto
qed


text \<open>Storing a bucket and extending the represented list.\<close>

lemma array_rep_update:
  assumes a: "array_rep c pq gs" and k: "k < length gs"
    and p: "fst g = fst (gs ! k)" and b: "bucket_rep c' b g"
    and frame: "\<And>i. i < length gs \<Longrightarrow> i \<noteq> k \<Longrightarrow>
      \<forall>a \<in> fst ` set (snd (gs ! i)). c' a = c a"
  shows "\<exists>pq'. set_bucket pq (int k) b = Ret pq' \<and> array_rep c' pq' (gs[k := g])
    \<and> pq' = pq\<lparr>buckets := buckets pq'\<rparr>"
proof -
  obtain bs where bs: "buckets pq = Buckets bs" "length bs = alloc_buckets pq"
    "num_buckets pq = length gs" "length gs \<le> length bs"
    "list_all2 (bucket_rep c) (take (length gs) bs) gs" using array_repE [OF a] .
  have "list_all2 (bucket_rep c') (take (length gs) (bs[k := b])) (gs[k := g])"
  proof (rule list_all2_all_nthI)
    show "length (take (length gs) (bs[k := b])) = length (gs[k := g])" using bs(4) by simp
    fix i assume "i < length (take (length gs) (bs[k := b]))"
    then have i: "i < length gs" "i < length bs" by auto
    show "bucket_rep c' (take (length gs) (bs[k := b]) ! i) (gs[k := g] ! i)"
    proof (cases "i = k")
      case True
      then show ?thesis using b i by simp
    next
      case False
      have "bucket_rep c (bs ! i) (gs ! i)" using list_all2_nthD2 [OF bs(5) i(1)] i by simp
      then have "bucket_rep c' (bs ! i) (gs ! i)"
        using bucket_rep_cong [of "gs ! i" c' c] frame [OF i(1) False] by auto
      then show ?thesis using False i by simp
    qed
  qed
  moreover have "sorted_wrt (\<lambda>g h. fst g > fst h) (gs[k := g])"
  proof -
    have "map fst (gs[k := g]) = map fst gs" using p k by (simp add: map_update list_update_same_conv)
    moreover have "sorted_wrt (>) (map fst gs)" using a by (simp add: array_rep_def sorted_wrt_map)
    ultimately have "sorted_wrt (>) (map fst (gs[k := g]))" by (simp only:)
    then show ?thesis unfolding sorted_wrt_map .
  qed
  ultimately have "array_rep c' (pq\<lparr>buckets := Buckets (bs[k := b])\<rparr>) (gs[k := g])"
    using bs a unfolding array_rep_def live_buckets_def by simp
  moreover have "set_bucket pq (int k) b = Ret (pq\<lparr>buckets := Buckets (bs[k := b])\<rparr>)"
    using bs k by (simp add: set_bucket_def)
  ultimately show ?thesis by simp
qed

lemma list_all2_insert:
  "list_all2 P xs ys \<Longrightarrow> P x y \<Longrightarrow> list_all2 P (take k xs @ x # drop k xs) (take k ys @ y # drop k ys)"
  by (simp add: list_all2_append list_all2_lengthD)


definition add_last :: "nat \<Rightarrow> nat \<Rightarrow> 'd \<Rightarrow> 'd bucket_nodes list \<Rightarrow> 'd bucket_nodes list" where
  "add_last k node d gs = gs[k := (fst (gs ! k), snd (gs ! k) @ [(node, d)])]"

definition add_bucket :: "nat \<Rightarrow> int \<Rightarrow> nat \<Rightarrow> 'd \<Rightarrow> 'd bucket_nodes list \<Rightarrow> 'd bucket_nodes list" where
  "add_bucket k p node d gs = take k gs @ (p, [(node, d)]) # drop k gs"

lemma add_last_split: "k < length gs \<Longrightarrow> add_last k node d gs
    = take k gs @ (fst (gs ! k), snd (gs ! k) @ [(node, d)]) # drop (Suc k) gs"
  by (simp add: add_last_def upd_conv_take_nth_drop)

lemma store_ok_add_last:
  assumes "node_ready st gs node d" "k < length gs" "dom (cells st') = dom (cells st)"
    "next_addr st' = next_addr st"
  shows "store_ok st' (add_last k node d gs)"
  using assms(1,3,4) node_addrs_split [OF assms(2)]
  unfolding store_ok_def node_ready_def add_last_split [OF assms(2)] by auto

lemma store_ok_add_bucket:
  assumes "node_ready st gs node d" "dom (cells st') = dom (cells st)"
    "next_addr st' = next_addr st"
  shows "store_ok st' (add_bucket k p node d gs)"
proof -
  have "node_addrs gs = node_addrs (take k gs) @ node_addrs (drop k gs)"
    by (metis append_take_drop_id node_addrs_simps(3))
  then show ?thesis using assms unfolding store_ok_def node_ready_def add_bucket_def by auto
qed

lemma set_next_ok:
  assumes "cells st a = Some n"
  shows "set_next st (Some a) nx = Ret (node_put st a (n\<lparr>nd_next := nx\<rparr>))"
  using assms by (simp add: set_next_def node_at_def)

lemma node_put_simps [simp]:
  "cells (node_put st a n) = (cells st)(a \<mapsto> n)" "next_addr (node_put st a n) = next_addr st"
  "freed_data (node_put st a n) = freed_data st"
  by (simp_all add: node_put_def)

lemma push_existing_rep:
  assumes a: "array_rep (cells st) pq gs" and r: "node_ready st gs node d" and k: "k < length gs"
    and n: "length (flat gs) < 2 ^ 63"
  shows "\<exists>st' pq'. push_existing st pq (int k) node = Ret (st', pq')
    \<and> array_rep (cells st') pq' (add_last k node d gs) \<and> pq' = pq\<lparr>buckets := buckets pq'\<rparr>
    \<and> store_ok st' (add_last k node d gs) \<and> freed_data st' = freed_data st"
proof -
  define xs where "xs = snd (gs ! k)"
  obtain b where b: "bucket_at pq (int k) = Ret b" "bucket_rep (cells st) b (gs ! k)"
    using bucket_at_rep [OF a k] .
  have xs: "xs \<noteq> []" "chain (cells st) (bk_first b) xs" "bk_last b = Some (fst (last xs))"
    "num_items b = length xs" using b(2) by (simp_all add: bucket_rep_def xs_def)
  let ?l = "\<lparr>nd_data = snd (last xs), nd_next = Some node\<rparr>"
  let ?st = "node_put st (fst (last xs)) ?l"
  have l: "cells st (fst (last xs)) = Some \<lparr>nd_data = snd (last xs), nd_next = None\<rparr>"
    using chain_last [OF xs(2,1)] .
  have s: "set_next st (bk_last b) (Some node) = Ret ?st"
    using set_next_ok [OF l] xs(3) by simp
  have lin: "fst (last xs) \<in> fst ` set xs" using xs(1) by simp
  have dist: "distinct (map fst xs)" "node \<notin> fst ` set xs"
    using r node_addrs_split [OF k] by (auto simp: node_ready_def xs_def)
  have "length xs \<le> length (flat gs)" using flat_split [OF k] by (simp add: xs_def)
  then have u: "usize (num_items b + 1) = length xs + 1"
    using n xs(4) by (simp add: usize_id SIZE_MAX_def)
  let ?g = "(fst (gs ! k), xs @ [(node, d)])"
  let ?b = "b\<lparr>bk_last := Some node, num_items := length xs + 1\<rparr>"
  have "chain (cells ?st) (bk_first b) (xs @ [(node, d)])"
    using chain_snoc [OF xs(2,1) dist, of d] r by (simp add: node_ready_def)
  then have br: "bucket_rep (cells ?st) ?b ?g" using b(2) by (simp add: bucket_rep_def)
  have fr: "\<forall>a \<in> fst ` set (snd (gs ! i)). cells ?st a = cells st a"
    if "i < length gs" "i \<noteq> k" for i
  proof
    fix a assume "a \<in> fst ` set (snd (gs ! i))"
    then have "a \<notin> fst ` set xs"
      using other_bucket_disjoint [OF _ that(1) k that(2)] r by (simp add: node_ready_def xs_def)
    then have "a \<noteq> fst (last xs)" using lin by blast
    then show "cells ?st a = cells st a" by simp
  qed
  obtain pq' where pq': "set_bucket pq (int k) ?b = Ret pq'"
      "array_rep (cells ?st) pq' (gs[k := ?g])" "pq' = pq\<lparr>buckets := buckets pq'\<rparr>"
    using array_rep_update [OF a k fst_conv br fr] by blast
  have so: "store_ok ?st (add_last k node d gs)"
    using store_ok_add_last [OF r k, of ?st] l by auto
  show ?thesis
    using b(1) s u pq' so unfolding push_existing_def
    by (auto simp: add_last_def xs_def)
qed

definition grown_alloc :: "'d ucb_pqueue \<Rightarrow> nat" where
  "grown_alloc pq = (if num_buckets pq = alloc_buckets pq then 2 * alloc_buckets pq else alloc_buckets pq)"

lemma grow_buckets_rep:
  assumes a: "array_rep c pq gs"
    and g: "length gs = alloc_buckets pq \<Longrightarrow> granted me (2 * alloc_buckets pq * sizeof_bucket)"
  shows "\<exists>pq'. grow_buckets me pq = Ret (True, pq') \<and> array_rep c pq' gs
    \<and> length gs < alloc_buckets pq' \<and> alloc_buckets pq' \<le> grown_alloc pq
    \<and> pq' = pq\<lparr>buckets := buckets pq', alloc_buckets := alloc_buckets pq'\<rparr>"
proof (cases "length gs = alloc_buckets pq")
  case False
  then show ?thesis using a by (auto simp: grow_buckets_def array_rep_def grown_alloc_def)
next
  case True
  let ?n = "alloc_buckets pq"
  obtain bs where bs: "buckets pq = Buckets bs" "length bs = ?n"
    "num_buckets pq = length gs" "length gs \<le> length bs"
    "list_all2 (bucket_rep c) (take (length gs) bs) gs" using array_repE [OF a] .
  have pos: "0 < ?n" "?n * sizeof_bucket \<le> PTRDIFF_MAX" using a by (simp_all add: array_rep_def)
  have gr: "2 * ?n * sizeof_bucket \<le> PTRDIFF_MAX" using g [OF True] by (simp add: granted_def)
  have "usize (?n * PQUEUE_BUCKETS_GROW_FACTOR) = 2 * ?n"
    "usize (2 * ?n * sizeof_bucket) = 2 * ?n * sizeof_bucket"
    using gr by (auto simp: PQUEUE_BUCKETS_GROW_FACTOR_def sizeof_bucket_def usize_id SIZE_MAX_def PTRDIFF_MAX_def)
  moreover have "ucb_realloc me True (2 * ?n * sizeof_bucket) = Ret Moved"
    using pos g [OF True] by (intro ucb_realloc_ok) (auto simp: sizeof_bucket_def)
  ultimately have "grow_buckets me pq = Ret (True, pq\<lparr>alloc_buckets := 2 * ?n,
      buckets := Buckets (bs @ map (junk_bucket me) [?n..<2 * ?n])\<rparr>)"
    using True bs by (simp add: grow_buckets_def Let_def)
  moreover have "array_rep c (pq\<lparr>alloc_buckets := 2 * ?n,
      buckets := Buckets (bs @ map (junk_bucket me) [?n..<2 * ?n])\<rparr>) gs"
    using a bs True gr by (simp add: array_rep_def live_buckets_def)
  ultimately show ?thesis using True pos bs(3) by (simp add: grown_alloc_def)
qed


lemma sorted_add_bucket:
  assumes "sorted_wrt (\<lambda>g h. fst g > fst h) gs"
    "\<forall>i<k. p < fst (gs ! i)" "\<forall>i<length gs. k \<le> i \<longrightarrow> fst (gs ! i) < p" "k \<le> length gs"
  shows "sorted_wrt (\<lambda>g h. fst g > fst h) (add_bucket k p node d gs)"
proof -
  have "sorted_wrt (\<lambda>g h. fst g > fst h) (take k gs @ drop k gs)" using assms(1) by simp
  moreover have "\<forall>g \<in> set (take k gs). p < fst g"
    using assms(2,4) by (simp add: all_set_conv_all_nth)
  moreover have "\<forall>g \<in> set (drop k gs). fst g < p"
    using assms(3,4) by (simp add: all_set_conv_all_nth)
  ultimately show ?thesis unfolding add_bucket_def sorted_wrt_append by auto
qed

lemma new_bucket_rep:
  assumes a: "array_rep (cells st) pq gs" and r: "node_ready st gs node d"
    and k: "k \<le> length gs" and room: "length gs < alloc_buckets pq"
    and before: "\<forall>i<k. p < fst (gs ! i)"
    and after: "\<forall>i<length gs. k \<le> i \<longrightarrow> fst (gs ! i) < p"
  shows "\<exists>pq'. new_bucket st pq (int k) p node = Ret (st, pq')
    \<and> array_rep (cells st) pq' (add_bucket k p node d gs)
    \<and> pq' = pq\<lparr>buckets := buckets pq', num_buckets := length gs + 1\<rparr>"
proof -
  let ?n = "length gs"
  let ?b = "\<lparr>bk_priority = p, bk_first = Some node, bk_last = Some node, num_items = 1\<rparr>"
  obtain bs where bs: "buckets pq = Buckets bs" "length bs = alloc_buckets pq"
    "num_buckets pq = ?n" "?n \<le> length bs"
    "list_all2 (bucket_rep (cells st)) (take ?n bs) gs" using array_repE [OF a] .
  have nb: "?n < length bs" using room bs(2) by simp
  have bound: "?n + 1 \<le> SIZE_MAX"
    using a room by (simp add: array_rep_def sizeof_bucket_def PTRDIFF_MAX_def SIZE_MAX_def)
  define bs1 where "bs1 = (if k = ?n then bs else mem_write (k + 1) (take (?n - k) (drop k bs)) bs)"
  define bs2 where "bs2 = bs1[k := ?b]"
  have len: "length bs1 = length bs" "length bs2 = length bs"
    using length_mem_write_shift [OF k nb] by (simp_all add: bs1_def bs2_def)
  have tk: "take (?n + 1) bs2 = take k (take ?n bs) @ ?b # drop k (take ?n bs)"
  proof (cases "k = ?n")
    case True
    then show ?thesis using nb
      by (simp add: bs1_def bs2_def take_Suc_conv_app_nth list_update_beyond)
  next
    case False
    then show ?thesis using mem_write_shift [OF k nb, of ?b] k
      by (simp add: bs1_def bs2_def min_def)
  qed
  have st: "set_next st (Some node) None = Ret st"
    using r by (simp add: set_next_def node_at_def node_ready_def node_put_def fun_upd_idem)
  have "new_bucket st pq (int k) p node
      = Ret (st, pq\<lparr>buckets := Buckets bs2, num_buckets := ?n + 1\<rparr>)"
    using bs nb k bound st len length_mem_write_shift [OF k nb]
    by (auto simp: new_bucket_def move_buckets_def set_bucket_def usize_id bs1_def bs2_def)
  moreover have "bucket_rep (cells st) ?b (p, [(node, d)])"
    using r by (simp add: bucket_rep_def node_ready_def)
  then have "list_all2 (bucket_rep (cells st)) (take (?n + 1) bs2) (add_bucket k p node d gs)"
    unfolding tk add_bucket_def using bs(5) by (intro list_all2_insert)
  then have "array_rep (cells st) (pq\<lparr>buckets := Buckets bs2, num_buckets := ?n + 1\<rparr>)
      (add_bucket k p node d gs)"
    using a sorted_add_bucket [OF _ before after k, of node d] bs len room k
    by (simp add: array_rep_def live_buckets_def add_bucket_def)
  ultimately show ?thesis by simp
qed

lemma push_finish_rep:
  assumes a: "array_rep (cells st) pq gs" and k: "k < length gs"
    and n: "length (flat gs) < 2 ^ 63" and m: "pq_mutex pq \<noteq> Unlocked"
  shows "push_finish st pq (int k) =
    Ret (st, pq\<lparr>pq_mutex := (if pq_mutex pq = NoMutex then NoMutex else Unlocked)\<rparr>,
         length (flat (take (k + 1) gs)) - 1)"
proof -
  obtain b where b: "bucket_at pq (int k) = Ret b" "bucket_rep (cells st) b (gs ! k)"
    using bucket_at_rep [OF a k] .
  have ni: "num_items b = length (snd (gs ! k))" "snd (gs ! k) \<noteq> []"
    using b(2) by (simp_all add: bucket_rep_def)
  have t: "flat (take (k + 1) gs) = flat (take k gs) @ map (\<lambda>x. (fst (gs ! k), snd x)) (snd (gs ! k))"
    using k by (simp add: take_Suc_conv_app_nth)
  have le: "length (flat (take (k + 1) gs)) \<le> length (flat gs)" by (rule flat_take_le)
  then have "num_items b \<le> SIZE_MAX" using n t ni by (simp add: SIZE_MAX_def)
  moreover have "1 \<le> num_items b" using ni by (cases "snd (gs ! k)") auto
  ultimately have u: "usub (num_items b) 1 = num_items b - 1" by simp
  have "ins_pos_loop pq k (num_items b - 1) = Ret (num_items b - 1 + length (flat (take k gs)))"
    using le n t ni by (intro ins_pos_loop_sum [OF a]) (use k in \<open>auto simp: SIZE_MAX_def\<close>)
  moreover have "num_items b - 1 + length (flat (take k gs)) = length (flat (take (k + 1) gs)) - 1"
    using t ni \<open>1 \<le> num_items b\<close> by simp
  ultimately show ?thesis using b(1) u m
    by (cases "pq_mutex pq") (auto simp: push_finish_def UNLOCK_MUTEX_def)
qed


lemma flat_prio: "(\<forall>g \<in> set gs. P (fst g)) \<Longrightarrow> \<forall>x \<in> set (flat gs). P (fst x)"
  by (induction gs) auto

lemma model_split:
  assumes "\<forall>x \<in> set A. fst x \<ge> p" "\<forall>x \<in> set B. fst x < p"
  shows "model_push d p (A @ B) = A @ (p, d) # B" "model_pos p (A @ B) = length A"
proof -
  have "takeWhile (\<lambda>x. fst x \<ge> p) B = []" "dropWhile (\<lambda>x. fst x \<ge> p) B = B"
    using assms(2) by (cases B; auto)+
  then have "takeWhile (\<lambda>x. fst x \<ge> p) (A @ B) = A" "dropWhile (\<lambda>x. fst x \<ge> p) (A @ B) = B"
    using assms(1) by (simp_all add: takeWhile_append2 dropWhile_append2)
  then show "model_push d p (A @ B) = A @ (p, d) # B" "model_pos p (A @ B) = length A"
    by (simp_all add: model_push_def model_pos_def)
qed

lemma sorted_around:
  assumes "sorted_wrt (\<lambda>g h. fst g > fst h) (gs :: 'd bucket_nodes list)" "k < length gs"
  shows "\<forall>g \<in> set (take k gs). fst (gs ! k) < fst g"
    "\<forall>g \<in> set (drop (Suc k) gs). fst g < fst (gs ! k)"
proof -
  have "sorted_wrt (\<lambda>g h. fst g > fst h) (take k gs @ gs ! k # drop (Suc k) gs)"
    using assms by (simp add: id_take_nth_drop [symmetric])
  then show "\<forall>g \<in> set (take k gs). fst (gs ! k) < fst g"
    "\<forall>g \<in> set (drop (Suc k) gs). fst g < fst (gs ! k)"
    by (auto simp: sorted_wrt_append)
qed

lemma flat_add_last:
  assumes s: "sorted_wrt (\<lambda>g h. fst g > fst h) gs" and k: "k < length gs" and p: "fst (gs ! k) = p"
  shows "flat (add_last k node d gs) = model_push d p (flat gs)"
    "length (flat (take (k + 1) (add_last k node d gs))) - 1 = model_pos p (flat gs)"
proof -
  let ?A = "flat (take k gs) @ map (\<lambda>x. (p, snd x)) (snd (gs ! k))"
  let ?B = "flat (drop (Suc k) gs)"
  have f: "flat gs = ?A @ ?B" using flat_split [OF k] p by simp
  have "\<forall>g \<in> set (take k gs). fst g \<ge> p" using sorted_around(1) [OF s k] p by fastforce
  from flat_prio [OF this] have A: "\<forall>x \<in> set ?A. fst x \<ge> p" by auto
  have "\<forall>g \<in> set (drop (Suc k) gs). fst g < p" using sorted_around(2) [OF s k] p by simp
  from flat_prio [OF this] have B: "\<forall>x \<in> set ?B. fst x < p" .
  show "flat (add_last k node d gs) = model_push d p (flat gs)"
    unfolding f model_split(1) [OF A B] add_last_split [OF k] using p by simp
  have "take (k + 1) (add_last k node d gs) = take k gs @ [(p, snd (gs ! k) @ [(node, d)])]"
    unfolding add_last_split [OF k] using k p by simp
  then show "length (flat (take (k + 1) (add_last k node d gs))) - 1 = model_pos p (flat gs)"
    unfolding f model_split(2) [OF A B] by simp
qed

lemma flat_add_bucket:
  assumes k: "k \<le> length gs" and before: "\<forall>i<k. p < fst (gs ! i)"
    and after: "\<forall>i<length gs. k \<le> i \<longrightarrow> fst (gs ! i) < p"
  shows "flat (add_bucket k p node d gs) = model_push d p (flat gs)"
    "length (flat (take (k + 1) (add_bucket k p node d gs))) - 1 = model_pos p (flat gs)"
proof -
  have f: "flat gs = flat (take k gs) @ flat (drop k gs)"
    by (metis append_take_drop_id flat_simps(3))
  have "\<forall>g \<in> set (take k gs). fst g \<ge> p"
    using before k by (simp add: all_set_conv_all_nth less_imp_le)
  from flat_prio [OF this] have A: "\<forall>x \<in> set (flat (take k gs)). fst x \<ge> p" .
  have "\<forall>g \<in> set (drop k gs). fst g < p" using after k by (simp add: all_set_conv_all_nth)
  from flat_prio [OF this] have B: "\<forall>x \<in> set (flat (drop k gs)). fst x < p" .
  show "flat (add_bucket k p node d gs) = model_push d p (flat gs)"
    unfolding f model_split(1) [OF A B] by (simp add: add_bucket_def)
  show "length (flat (take (k + 1) (add_bucket k p node d gs))) - 1 = model_pos p (flat gs)"
    unfolding f model_split(2) [OF A B] using k by (simp add: add_bucket_def)
qed

lemma lock_unlocked:
  assumes "pq_mutex pq \<noteq> Locked"
  shows "LOCK_MUTEX pq = Ret (pq\<lparr>pq_mutex := (if pq_mutex pq = NoMutex then NoMutex else Locked)\<rparr>)"
  using assms by (cases "pq_mutex pq") (auto simp: LOCK_MUTEX_def)

lemma array_rep_mutex [simp]: "array_rep c (pq\<lparr>pq_mutex := m\<rparr>) gs = array_rep c pq gs"
  by (cases "buckets pq") (simp_all add: array_rep_def live_buckets_def)

lemma length_model_push: "length (model_push d p q) = length q + 1"
  unfolding model_push_def by (metis (no_types) Suc_eq_plus1 add_Suc_right length_Cons length_append takeWhile_dropWhile_id)

lemma push_node_rep:
  assumes a: "array_rep (cells st) pq gs" and r: "node_ready st gs node d"
    and m: "pq_mutex pq \<noteq> Locked" and small: "length gs < 2 ^ 31"
    and n: "length (flat gs) + 1 < 2 ^ 63"
    and g: "length gs = alloc_buckets pq \<Longrightarrow> granted me (2 * alloc_buckets pq * sizeof_bucket)"
  shows "\<exists>st' pq' gs'. ucb_pqueue_push_node me st pq p node = Ret (st', pq', model_pos p (flat gs))
    \<and> array_rep (cells st') pq' gs' \<and> store_ok st' gs' \<and> flat gs' = model_push d p (flat gs)
    \<and> freed_data st' = freed_data st \<and> pq_mutex pq' = pq_mutex pq
    \<and> data_clone pq' = data_clone pq \<and> data_free pq' = data_free pq
    \<and> alloc_buckets pq' \<le> grown_alloc pq"
proof -
  define pq1 where "pq1 = pq\<lparr>pq_mutex := (if pq_mutex pq = NoMutex then NoMutex else Locked)\<rparr>"
  have l: "LOCK_MUTEX pq = Ret pq1" unfolding pq1_def by (rule lock_unlocked [OF m])
  have a1: "array_rep (cells st) pq1 gs" using a by (simp add: pq1_def)
  have m1: "pq_mutex pq1 \<noteq> Unlocked" by (simp add: pq1_def)
  have mu: "(if pq_mutex pq1 = NoMutex then NoMutex else Unlocked) = pq_mutex pq"
    using m by (cases "pq_mutex pq") (simp_all add: pq1_def)
  have srt: "sorted_wrt (\<lambda>g h. fst g > fst h) gs" using a by (simp add: array_rep_def)
  obtain f where f: "ucb_pqueue_search_bucket pq1 p = Ret f" "search_result (map fst gs) p f"
    using search_bucket_result [OF a1 small] by blast
  show ?thesis
  proof (cases "f \<ge> 0")
    case True
    define k where "k = nat f"
    have k: "f = int k" "k < length gs" "fst (gs ! k) = p"
      using True f(2) by (auto simp: k_def search_result_def)
    have n': "length (flat gs) < 2 ^ 63" using n by simp
    obtain st' pq2 where e: "push_existing st pq1 (int k) node = Ret (st', pq2)"
      "array_rep (cells st') pq2 (add_last k node d gs)" "pq2 = pq1\<lparr>buckets := buckets pq2\<rparr>"
      "store_ok st' (add_last k node d gs)" "freed_data st' = freed_data st"
      using push_existing_rep [OF a1 r k(2) n'] by blast
    note fl = flat_add_last [OF srt k(2,3), of node d]
    note fields = arg_cong [OF e(3), of pq_mutex] arg_cong [OF e(3), of data_clone]
      arg_cong [OF e(3), of data_free] arg_cong [OF e(3), of alloc_buckets]
    have m2: "pq_mutex pq2 \<noteq> Unlocked" using m1 fields(1) by simp
    have k2: "k < length (add_last k node d gs)" using k(2) by (simp add: add_last_def)
    have n2: "length (flat (add_last k node d gs)) < 2 ^ 63"
      unfolding fl(1) using n by (simp add: length_model_push)
    note fin = push_finish_rep [OF e(2) k2 n2 m2]
    have "ucb_pqueue_push_node me st pq p node = Ret (st', pq2\<lparr>pq_mutex := pq_mutex pq\<rparr>, model_pos p (flat gs))"
      using fin fl(2) l f(1) True e(1) mu fields(1) k(1) by (simp add: ucb_pqueue_push_node_def)
    then show ?thesis using e(2,4,5) fl(1) fields by (auto simp: pq1_def grown_alloc_def)
  next
    case False
    define k where "k = nat (- f - 1)"
    have k: "- f - 1 = int k" "k \<le> length gs" "\<forall>i<k. p < fst (gs ! i)"
      "\<forall>i<length gs. k \<le> i \<longrightarrow> fst (gs ! i) < p"
      using False f(2) by (auto simp: k_def search_result_def)
    have g1: "length gs = alloc_buckets pq1 \<Longrightarrow> granted me (2 * alloc_buckets pq1 * sizeof_bucket)"
      using g by (simp add: pq1_def)
    obtain pq2 where gr: "grow_buckets me pq1 = Ret (True, pq2)" "array_rep (cells st) pq2 gs"
      "length gs < alloc_buckets pq2" "alloc_buckets pq2 \<le> grown_alloc pq1"
      "pq2 = pq1\<lparr>buckets := buckets pq2, alloc_buckets := alloc_buckets pq2\<rparr>"
      using grow_buckets_rep [OF a1 g1] by blast
    note fields2 = arg_cong [OF gr(5), of pq_mutex] arg_cong [OF gr(5), of data_clone]
      arg_cong [OF gr(5), of data_free]
    obtain pq3 where e: "new_bucket st pq2 (int k) p node = Ret (st, pq3)"
      "array_rep (cells st) pq3 (add_bucket k p node d gs)"
      "pq3 = pq2\<lparr>buckets := buckets pq3, num_buckets := length gs + 1\<rparr>"
      using new_bucket_rep [OF gr(2) r k(2) gr(3) k(3,4)] by blast
    note fields = arg_cong [OF e(3), of pq_mutex] arg_cong [OF e(3), of data_clone]
      arg_cong [OF e(3), of data_free] arg_cong [OF e(3), of alloc_buckets]
    note fl = flat_add_bucket [OF k(2,3,4), of node d]
    have m2: "pq_mutex pq3 \<noteq> Unlocked" using m1 fields(1) fields2(1) by simp
    have k2: "k < length (add_bucket k p node d gs)" using k(2) by (simp add: add_bucket_def)
    have n2: "length (flat (add_bucket k p node d gs)) < 2 ^ 63"
      unfolding fl(1) using n by (simp add: length_model_push)
    have so: "store_ok st (add_bucket k p node d gs)" by (rule store_ok_add_bucket [OF r refl refl])
    note fin = push_finish_rep [OF e(2) k2 n2 m2]
    have "ucb_pqueue_push_node me st pq p node = Ret (st, pq3\<lparr>pq_mutex := pq_mutex pq\<rparr>, model_pos p (flat gs))"
      using fin fl(2) l f(1) False e(1) gr(1) mu fields(1) fields2(1) k(1)
      by (simp add: ucb_pqueue_push_node_def)
    then show ?thesis using e(2) so fl(1) fields fields2 gr(4) by (auto simp: pq1_def grown_alloc_def)
  qed
qed


definition pushed_data :: "'d ucb_pqueue \<Rightarrow> 'd \<Rightarrow> 'd option" where
  "pushed_data pq data = (case data_clone pq of None \<Rightarrow> Some data | Some clone \<Rightarrow> clone data)"

text \<open>The memory a push may need: the node, and a doubled bucket array when it is full.\<close>

definition push_memory :: "mem_env \<Rightarrow> 'd ucb_pqueue \<Rightarrow> bool" where
  "push_memory me pq = (granted me sizeof_node \<and>
     (num_buckets pq = alloc_buckets pq \<longrightarrow> granted me (2 * alloc_buckets pq * sizeof_bucket)))"

lemma node_ready_fresh:
  assumes "store_ok st gs"
  shows "node_ready (node_put (st\<lparr>next_addr := next_addr st + 1\<rparr>) (next_addr st)
    \<lparr>nd_data = d, nd_next = None\<rparr>) gs (next_addr st) d"
  using assms by (auto simp: node_ready_def store_ok_def node_put_def)

lemma array_rep_fresh:
  assumes "array_rep (cells st) pq gs" "store_ok st gs"
  shows "array_rep ((cells st)(next_addr st \<mapsto> n)) pq gs"
proof -
  have "bucket_rep ((cells st)(next_addr st \<mapsto> n)) b g = bucket_rep (cells st) b g" if "g \<in> set gs" for b g
  proof (rule bucket_rep_cong)
    fix a assume "a \<in> fst ` set (snd g)"
    then have "a \<in> set (node_addrs gs)" using that by (auto simp: node_addrs_def)
    then show "((cells st)(next_addr st \<mapsto> n)) a = cells st a"
      using assms(2) by (auto simp: store_ok_def)
  qed
  then have "list_all2 (bucket_rep ((cells st)(next_addr st \<mapsto> n))) (live_buckets pq) gs"
    using assms(1) unfolding array_rep_def by (metis (no_types, lifting) list_all2_conv_all_nth nth_mem)
  then show ?thesis using assms(1) by (simp add: array_rep_def)
qed

lemma model_pos_le: "model_pos p q \<le> length q"
  by (simp add: model_pos_def length_takeWhile_le)

lemma pq_push_spec:
  assumes h: "pq_holds (st, pq) q" and small: "num_buckets pq < 2 ^ 31"
    and n: "length q + 1 < 2 ^ 63" and g: "push_memory me pq"
    and d: "pushed_data pq data = Some d"
  shows "\<exists>st' pq'. ucb_pqueue_push me st pq data p = Ret (st', pq', model_pos p q)
    \<and> pq_holds (st', pq') (model_push d p q) \<and> freed_data st' = freed_data st
    \<and> data_clone pq' = data_clone pq \<and> data_free pq' = data_free pq
    \<and> alloc_buckets pq' \<le> grown_alloc pq"
proof -
  obtain gs where m: "pq_mutex pq \<noteq> Locked" and r: "pq_rep st pq gs" and q: "q = flat gs"
    using h by (auto simp: pq_holds_def)
  have a: "array_rep (cells st) pq gs" and so: "store_ok st gs" using r by (simp_all add: pq_rep_def)
  have ng: "num_buckets pq = length gs" using a by (simp add: array_rep_def)
  let ?n = "next_addr st"
  let ?st = "node_put (st\<lparr>next_addr := ?n + 1\<rparr>) ?n \<lparr>nd_data = d, nd_next = None\<rparr>"
  have rd: "node_ready ?st gs ?n d" by (rule node_ready_fresh [OF so])
  have a1: "array_rep (cells ?st) pq gs" using array_rep_fresh [OF a so] by simp
  have n1: "length (flat gs) + 1 < 2 ^ 63" using n q by simp
  have s1: "length gs < 2 ^ 31" using small ng by simp
  have g1: "length gs = alloc_buckets pq \<Longrightarrow> granted me (2 * alloc_buckets pq * sizeof_bucket)"
    using g ng by (simp add: push_memory_def)
  obtain st' pq' gs' where e: "ucb_pqueue_push_node me ?st pq p ?n = Ret (st', pq', model_pos p (flat gs))"
    "array_rep (cells st') pq' gs'" "store_ok st' gs'" "flat gs' = model_push d p (flat gs)"
    "freed_data st' = freed_data ?st" "pq_mutex pq' = pq_mutex pq"
    "data_clone pq' = data_clone pq" "data_free pq' = data_free pq"
    "alloc_buckets pq' \<le> grown_alloc pq"
    using push_node_rep [OF a1 rd m s1 n1 g1] by blast
  have mal: "ucb_malloc me sizeof_node = Ret True"
    using g by (intro ucb_malloc_ok) (simp_all add: push_memory_def sizeof_node_def)
  have "model_pos p (flat gs) \<noteq> SIZE_MAX"
    using model_pos_le [of p "flat gs"] n1 by (simp add: SIZE_MAX_def)
  then have "ucb_pqueue_push me st pq data p = Ret (st', pq', model_pos p (flat gs))"
    using mal d e(1) by (simp add: ucb_pqueue_push_def pushed_data_def Let_def split: option.splits)
  moreover have "pq_rep st' pq' gs'"
    using e n1 r by (simp add: pq_rep_def length_model_push)
  ultimately show ?thesis using e q m by (auto simp: pq_holds_def)
qed

lemma store_ok_next: "store_ok st gs \<Longrightarrow> store_ok (st\<lparr>next_addr := next_addr st + 1\<rparr>) gs"
  by (auto simp: store_ok_def)

lemma push_clone_fails:
  assumes h: "pq_holds (st, pq) q" and d: "pushed_data pq data = None" and g: "granted me sizeof_node"
  shows "ucb_pqueue_push me st pq data p = Ret (st\<lparr>next_addr := next_addr st + 1\<rparr>, pq, SIZE_MAX)"
    "pq_holds (st\<lparr>next_addr := next_addr st + 1\<rparr>, pq) q"
proof -
  have "ucb_malloc me sizeof_node = Ret True"
    using g by (intro ucb_malloc_ok) (simp_all add: sizeof_node_def)
  then show "ucb_pqueue_push me st pq data p = Ret (st\<lparr>next_addr := next_addr st + 1\<rparr>, pq, SIZE_MAX)"
    using d by (simp add: ucb_pqueue_push_def pushed_data_def Let_def split: option.splits)
  show "pq_holds (st\<lparr>next_addr := next_addr st + 1\<rparr>, pq) q"
    using h store_ok_next by (auto simp: pq_holds_def pq_rep_def)
qed


subsection \<open>Pop\<close>

definition drop_first :: "'d bucket_nodes list \<Rightarrow> 'd bucket_nodes list" where
  "drop_first gs = (case gs of [] \<Rightarrow> []
     | g # r \<Rightarrow> if length (snd g) = 1 then r else (fst g, tl (snd g)) # r)"

lemma flat_drop_first:
  "gs \<noteq> [] \<Longrightarrow> snd (hd gs) \<noteq> [] \<Longrightarrow> flat (drop_first gs) = tl (flat gs)"
  by (cases gs) (auto simp: drop_first_def neq_Nil_conv)

lemma addrs_drop_first:
  "gs \<noteq> [] \<Longrightarrow> snd (hd gs) \<noteq> [] \<Longrightarrow> node_addrs (drop_first gs) = tl (node_addrs gs)"
  by (cases gs) (auto simp: drop_first_def neq_Nil_conv)

lemma array_rep_frame:
  assumes "array_rep c pq gs" "\<And>a. a \<in> set (node_addrs gs) \<Longrightarrow> c' a = c a"
  shows "array_rep c' pq gs"
proof -
  have "bucket_rep c' b g = bucket_rep c b g" if "g \<in> set gs" for b g
    by (rule bucket_rep_cong, rule assms(2)) (use that in \<open>auto simp: node_addrs_def\<close>)
  then have "list_all2 (bucket_rep c') (live_buckets pq) gs"
    using assms(1) unfolding array_rep_def by (metis (no_types, lifting) list_all2_conv_all_nth nth_mem)
  then show ?thesis using assms(1) by (simp add: array_rep_def)
qed

text \<open>Lines 165--175: an emptied first bucket is removed, the others move one place left.\<close>

lemma array_rep_tl:
  assumes a: "array_rep c pq gs" and g: "gs = g # r"
    and other: "bs' = bs[0 := b']" "buckets pq = Buckets bs"
  shows "array_rep c (pq\<lparr>buckets := Buckets (if length gs > 1
      then mem_write 0 (take (length gs - 1) (drop 1 bs')) bs' else bs'), num_buckets := length gs - 1\<rparr>) r"
proof -
  have l: "length bs = alloc_buckets pq" "length gs \<le> length bs"
    "list_all2 (bucket_rep c) (take (length gs) bs) gs"
    using a other(2) by (auto simp: array_rep_def live_buckets_def)
  have t: "take (length gs) bs = hd bs # take (length r) (drop 1 bs)"
    using l(2) g by (cases bs) auto
  then have br: "list_all2 (bucket_rep c) (take (length r) (drop 1 bs)) r"
    using l(3) g by simp
  have d: "drop 1 bs' = drop 1 bs" "length bs' = length bs" using other(1) by simp_all
  have tw: "take (length r) (mem_write 0 (take (length r) (drop 1 bs')) bs') = take (length r) (drop 1 bs)"
    using l(2) g unfolding mem_write_def d by simp
  define ys where "ys = (if length gs > 1 then mem_write 0 (take (length gs - 1) (drop 1 bs')) bs' else bs')"
  have ys: "length ys = alloc_buckets pq" "list_all2 (bucket_rep c) (take (length r) ys) r"
  proof -
    show "length ys = alloc_buckets pq" using l d(2) by (simp add: ys_def mem_write_def)
    show "list_all2 (bucket_rep c) (take (length r) ys) r"
    proof (cases "r = []")
      case True
      then show ?thesis by simp
    next
      case False
      then have "ys = mem_write 0 (take (length r) (drop 1 bs')) bs'" using g by (simp add: ys_def)
      then show ?thesis using br tw by simp
    qed
  qed
  have "sorted_wrt (\<lambda>g h. fst g > fst h) r" "length r \<le> alloc_buckets pq"
    "0 < alloc_buckets pq" "alloc_buckets pq * sizeof_bucket \<le> PTRDIFF_MAX"
    using a g by (simp_all add: array_rep_def)
  then show ?thesis using ys g unfolding ys_def [symmetric] array_rep_def live_buckets_def by simp
qed

lemma pq_pop_spec:
  assumes h: "pq_holds (st, pq) ((p, d) # q)"
  shows "\<exists>st' pq'. ucb_pqueue_pop st pq = Ret (st', pq', Some d) \<and> pq_holds (st', pq') q
    \<and> freed_data st' = freed_data st \<and> data_clone pq' = data_clone pq \<and> data_free pq' = data_free pq
    \<and> alloc_buckets pq' = alloc_buckets pq"
proof -
  obtain gs where m: "pq_mutex pq \<noteq> Locked" and rep: "pq_rep st pq gs" and q: "(p, d) # q = flat gs"
    using h by (auto simp: pq_holds_def)
  define pq1 where "pq1 = pq\<lparr>pq_mutex := (if pq_mutex pq = NoMutex then NoMutex else Locked)\<rparr>"
  have l: "LOCK_MUTEX pq = Ret pq1" unfolding pq1_def by (rule lock_unlocked [OF m])
  have a: "array_rep (cells st) pq1 gs" and so: "store_ok st gs"
    using rep by (simp_all add: pq_rep_def pq1_def)
  obtain g r where gs: "gs = g # r" using q by (cases gs) auto
  obtain bs where bs: "buckets pq1 = Buckets bs" "num_buckets pq1 = length gs" "length gs \<le> length bs"
    "list_all2 (bucket_rep (cells st)) (take (length gs) bs) gs" using array_repE [OF a] .
  have nbs: "0 < length bs" using bs(3) gs by (cases bs) auto
  define b where "b = bs ! 0"
  have b0: "bucket_at pq1 0 = Ret b" using bs(1) nbs by (simp add: bucket_at_def b_def)
  have br: "bucket_rep (cells st) b g"
    using list_all2_nthD2 [OF bs(4), of 0] gs by (simp add: b_def)
  obtain x xs where g: "snd g = x # xs" using br by (cases "snd g") (auto simp: bucket_rep_def)
  obtain nx where x: "bk_first b = Some (fst x)" "chain (cells st) nx xs"
    "cells st (fst x) = Some \<lparr>nd_data = snd x, nd_next = nx\<rparr>"
    using br g by (auto simp: bucket_rep_def)
  have dq: "d = snd x" "q = tl (flat gs)" using q g gs by auto
  let ?a = "fst x"
  let ?st = "node_put st ?a \<lparr>nd_data = snd x, nd_next = None\<rparr>"
  let ?b = "b\<lparr>bk_first := nx, num_items := num_items b - 1\<rparr>"
  define pq2 where "pq2 = pq1\<lparr>buckets := Buckets (bs[0 := ?b])\<rparr>"
  have ni: "num_items b = Suc (length xs)" using br g by (simp add: bucket_rep_def)
  have lx: "Suc (length xs) \<le> SIZE_MAX"
    using rep gs g by (simp add: pq_rep_def SIZE_MAX_def)
  have u1: "usub (num_items b) 1 = length xs" using ni lx by simp
  have sb: "set_bucket pq1 0 ?b = Ret pq2" using bs(1) nbs by (simp add: set_bucket_def pq2_def)
  have sn: "set_next st (bk_first b) None = Ret ?st" using set_next_ok [OF x(3)] x(1) by simp
  have na: "node_at st (bk_first b) = Ret \<lparr>nd_data = snd x, nd_next = nx\<rparr>"
    using x by (simp add: node_at_def)
  define c where "c = (\<lambda>y. if y = ?a then None else cells st y)"
  have dist: "distinct (?a # map fst xs @ node_addrs r)"
    using so gs g by (simp add: store_ok_def)
  have frame: "c y = cells st y" if "y \<in> set (map fst xs @ node_addrs r)" for y
    using that dist by (auto simp: c_def)
  define pq3 where "pq3 = (if xs = [] then pq2\<lparr>buckets := Buckets (if length gs > 1
      then mem_write 0 (take (length gs - 1) (drop 1 (bs[0 := ?b]))) (bs[0 := ?b]) else bs[0 := ?b]),
      num_buckets := length gs - 1\<rparr> else pq2)"
  have a3: "array_rep c pq3 (drop_first gs)"
  proof (cases "xs = []")
    case True
    have "array_rep (cells st) pq3 r"
      using array_rep_tl [OF a gs refl bs(1), of ?b] True by (simp add: pq3_def pq2_def)
    then show ?thesis using array_rep_frame [of "cells st" pq3 r c] frame True gs g
      by (simp add: drop_first_def)
  next
    case False
    have "chain c nx xs" using x(2) chain_cong [of xs c "cells st" nx] frame by auto
    then have br': "bucket_rep c ?b (fst g, xs)"
      using br g False ni by (simp add: bucket_rep_def)
    have fr: "\<forall>y \<in> fst ` set (snd (gs ! i)). c y = cells st y" if "i < length gs" "i \<noteq> 0" for i
    proof
      fix y assume "y \<in> fst ` set (snd (gs ! i))"
      then have "y \<in> set (node_addrs r)" using nth_addrs_subset [of "i - 1" r y] that gs by simp
      then show "c y = cells st y" using frame by simp
    qed
    have z: "0 < length gs" "fst (fst g, xs) = fst (gs ! 0)" using gs by simp_all
    obtain pq' where "set_bucket pq1 (int 0) ?b = Ret pq'" "array_rep c pq' (gs[0 := (fst g, xs)])"
      using array_rep_update [OF a z br' fr] by blast
    then show ?thesis using sb False gs g by (auto simp: pq3_def drop_first_def)
  qed
  have lg: "length gs \<le> SIZE_MAX"
    using a by (simp add: array_rep_def sizeof_bucket_def PTRDIFF_MAX_def SIZE_MAX_def)
  have mv: "drop_empty_bucket pq2 (length xs) = Ret pq3"
  proof (cases "xs = []")
    case True
    then show ?thesis using bs lg gs
      by (cases r) (auto simp: drop_empty_bucket_def pq3_def pq2_def move_buckets_def)
  next
    case False
    then show ?thesis by (simp add: drop_empty_bucket_def pq3_def)
  qed
  define pq4 where "pq4 = pq3\<lparr>pq_mutex := pq_mutex pq\<rparr>"
  have un: "UNLOCK_MUTEX pq3 = Ret pq4"
    using m by (cases "pq_mutex pq") (auto simp: UNLOCK_MUTEX_def pq4_def pq3_def pq2_def pq1_def)
  have "ucb_pqueue_pop_node st pq = Ret (?st, pq4, Some ?a)"
    using l bs(2) gs b0 na sn u1 sb mv un ni x(1)
    by (simp add: ucb_pqueue_pop_node_def Let_def)
  moreover have "node_free ?st ?a = Ret (st\<lparr>cells := c\<rparr>)"
    by (simp add: node_free_def node_put_def c_def fun_eq_iff)
  ultimately have pop: "ucb_pqueue_pop st pq = Ret (st\<lparr>cells := c\<rparr>, pq4, Some d)"
    by (simp add: ucb_pqueue_pop_def node_at_def dq)
  have ne: "gs \<noteq> []" "snd (hd gs) \<noteq> []" using gs g by auto
  have fl: "flat (drop_first gs) = q" using flat_drop_first [OF ne] dq by simp
  have na': "node_addrs (drop_first gs) = map fst xs @ node_addrs r"
    using addrs_drop_first [OF ne] gs g by simp
  have "dom c = dom (cells st) - {?a}" by (auto simp: c_def split: if_splits)
  also have "\<dots> = set (?a # map fst xs @ node_addrs r) - {?a}"
    using so gs g by (simp add: store_ok_def)
  also have "\<dots> = set (map fst xs @ node_addrs r)" using dist by auto
  finally have "dom c = set (node_addrs (drop_first gs))" using na' by simp
  then have "store_ok (st\<lparr>cells := c\<rparr>) (drop_first gs)"
    using so addrs_drop_first [OF ne] gs g by (simp add: store_ok_def)
  moreover have "array_rep c pq4 (drop_first gs)" using a3 by (simp add: pq4_def)
  moreover have "data_clone pq4 = data_clone pq" "data_free pq4 = data_free pq" "pq_mutex pq4 = pq_mutex pq"
    "alloc_buckets pq4 = alloc_buckets pq"
    by (simp_all add: pq4_def pq3_def pq2_def pq1_def)
  moreover have "length q < 2 ^ 63" using rep arg_cong [OF q, of length] by (simp add: pq_rep_def)
  ultimately have "pq_holds (st\<lparr>cells := c\<rparr>, pq4) q"
    using rep m fl unfolding pq_holds_def pq_rep_def by auto
  then show ?thesis using pop \<open>data_clone pq4 = _\<close> \<open>data_free pq4 = _\<close> \<open>alloc_buckets pq4 = _\<close> by auto
qed

lemma pq_pop_empty:
  assumes h: "pq_holds (st, pq) []"
  shows "ucb_pqueue_pop st pq = Ret (st, pq, None)"
proof -
  have m: "pq_mutex pq \<noteq> Locked" using h by (simp add: pq_holds_def)
  obtain gs where r: "array_rep (cells st) pq gs" "flat gs = []"
    using h by (auto simp: pq_holds_def pq_rep_def)
  have "gs = []"
  proof (rule ccontr)
    assume "gs \<noteq> []"
    then obtain b where "bucket_rep (cells st) b (gs ! 0)" using bucket_at_rep [OF r(1), of 0] by auto
    then show False using r(2) \<open>gs \<noteq> []\<close> by (cases gs) (auto simp: bucket_rep_def)
  qed
  then have "num_buckets pq = 0" using r(1) by (simp add: array_rep_def)
  then show ?thesis using m lock_unlocked [OF m]
    by (cases "pq_mutex pq") (auto simp: ucb_pqueue_pop_def ucb_pqueue_pop_node_def UNLOCK_MUTEX_def)
qed


subsection \<open>Queries\<close>

lemma relock:
  assumes "pq_mutex pq \<noteq> Locked"
  shows "UNLOCK_MUTEX (pq\<lparr>pq_mutex := (if pq_mutex pq = NoMutex then NoMutex else Locked)\<rparr>) = Ret pq"
  using assms by (cases "pq_mutex pq") (auto simp: UNLOCK_MUTEX_def)

lemma pq_holdsE:
  assumes "pq_holds (st, pq) q"
  obtains gs where "pq_mutex pq \<noteq> Locked" "array_rep (cells st) pq gs" "store_ok st gs"
    "q = flat gs" "length (flat gs) < 2 ^ 63" "num_buckets pq = length gs"
    "data_clone pq \<noteq> None \<longrightarrow> data_free pq"
  using assms by (auto simp: pq_holds_def pq_rep_def array_rep_def)

lemma flat_empty_iff:
  assumes "array_rep c pq gs"
  shows "flat gs = [] \<longleftrightarrow> gs = []"
proof (cases gs)
  case (Cons g r)
  then obtain b where "bucket_rep c b g" using bucket_at_rep [OF assms, of 0] by auto
  then show ?thesis using Cons by (auto simp: bucket_rep_def)
qed simp

lemma pq_peek_spec:
  assumes "pq_holds (st, pq) q"
  shows "ucb_pqueue_peek st pq = Ret (pq, case q of [] \<Rightarrow> None | x # _ \<Rightarrow> Some (snd x))"
proof -
  obtain gs where h: "pq_mutex pq \<noteq> Locked" "array_rep (cells st) pq gs" "q = flat gs"
    "num_buckets pq = length gs" using pq_holdsE [OF assms] by metis
  let ?pq = "pq\<lparr>pq_mutex := (if pq_mutex pq = NoMutex then NoMutex else Locked)\<rparr>"
  note lk = lock_unlocked [OF h(1)] relock [OF h(1)]
  show ?thesis
  proof (cases gs)
    case Nil
    then show ?thesis using h(3,4) lk by (simp add: ucb_pqueue_peek_def)
  next
    case (Cons g r)
    have a: "array_rep (cells st) ?pq gs" using h(2) by simp
    obtain b where b: "bucket_at ?pq 0 = Ret b" "bucket_rep (cells st) b g"
      using bucket_at_rep [OF a, of 0] Cons by auto
    obtain x xs where "snd g = x # xs" using b(2) by (cases "snd g") (auto simp: bucket_rep_def)
    then have "node_at st (bk_first b) = Ret n \<Longrightarrow> nd_data n = snd x"
      and "\<exists>n. node_at st (bk_first b) = Ret n" and "q = (fst g, snd x) # tl q" for n
      using b(2) h(3) Cons by (auto simp: bucket_rep_def node_at_def)
    then show ?thesis using lk b(1) h(4) Cons
      by (auto simp: ucb_pqueue_peek_def split: list.splits)
  qed
qed

lemma pq_size_spec:
  assumes "pq_holds (st, pq) q"
  shows "ucb_pqueue_size pq = Ret (pq, length q)"
proof -
  obtain gs where h: "pq_mutex pq \<noteq> Locked" "array_rep (cells st) pq gs" "q = flat gs"
    "length (flat gs) < 2 ^ 63" using pq_holdsE [OF assms] by metis
  let ?pq = "pq\<lparr>pq_mutex := (if pq_mutex pq = NoMutex then NoMutex else Locked)\<rparr>"
  have "array_rep (cells st) ?pq gs" using h(2) by simp
  from size_loop_sum [OF this, of 0 0] have "size_loop ?pq 0 0 = Ret (length q)"
    using h(3,4) by (simp add: SIZE_MAX_def)
  then show ?thesis using lock_unlocked [OF h(1)] relock [OF h(1)] by (simp add: ucb_pqueue_size_def)
qed

lemma pq_empty_spec:
  assumes "pq_holds (st, pq) q"
  shows "ucb_pqueue_empty pq = Ret (pq, q = [])"
proof -
  obtain gs where h: "pq_mutex pq \<noteq> Locked" "array_rep (cells st) pq gs" "q = flat gs"
    "num_buckets pq = length gs" using pq_holdsE [OF assms] by metis
  then show ?thesis using lock_unlocked [OF h(1)] relock [OF h(1)] flat_empty_iff [OF h(2)]
    by (simp add: ucb_pqueue_empty_def)
qed

subsection \<open>Clear\<close>

definition without :: "'d node_store \<Rightarrow> nat set \<Rightarrow> 'd list \<Rightarrow> 'd node_store" where
  "without st A ds = st\<lparr>cells := (\<lambda>a. if a \<in> A then None else cells st a),
                       freed_data := freed_data st @ ds\<rparr>"

lemma without_simps [simp]:
  "cells (without st A ds) a = (if a \<in> A then None else cells st a)"
  "next_addr (without st A ds) = next_addr st"
  "freed_data (without st A ds) = freed_data st @ ds"
  by (simp_all add: without_def)

lemma without_without: "without (without st A ds) B es = without st (A \<union> B) (ds @ es)"
  by (simp add: without_def fun_eq_iff)

lemma free_list_chain:
  "chain (cells st) p xs \<Longrightarrow> distinct (map fst xs) \<Longrightarrow> length xs \<le> fuel \<Longrightarrow>
   free_list fuel fr st p = Ret (without st (fst ` set xs) (if fr then map snd xs else []))"
proof (induction xs arbitrary: p st fuel)
  case Nil
  then show ?case by (simp add: without_def)
next
  case (Cons x xs)
  obtain n where n: "fuel = Suc n" "length xs \<le> n" using Cons.prems(3) by (cases fuel) auto
  obtain nx where p: "p = Some (fst x)" "cells st (fst x) = Some \<lparr>nd_data = snd x, nd_next = nx\<rparr>"
    "chain (cells st) nx xs" using Cons.prems(1) by auto
  define st' where "st' = without st {fst x} (if fr then [snd x] else [])"
  have "cells st' a = cells st a" if "a \<in> fst ` set xs" for a
  proof -
    have "fst x \<notin> fst ` set xs" using Cons.prems(2) by simp
    then have "a \<noteq> fst x" using that by blast
    then show ?thesis by (simp add: st'_def)
  qed
  then have "chain (cells st') nx xs" using p(3) chain_cong [of xs "cells st'" "cells st" nx] by simp
  from Cons.IH [OF this _ n(2)] Cons.prems(2)
  have "free_list n fr st' nx = Ret (without st' (fst ` set xs) (if fr then map snd xs else []))"
    by simp
  moreover have "node_free (if fr then call_free st (snd x) else st) (fst x) = Ret st'"
    using p(2) by (simp add: node_free_def call_free_def st'_def without_def fun_eq_iff)
  moreover have "node_at st (Some (fst x)) = Ret \<lparr>nd_data = snd x, nd_next = nx\<rparr>"
    using p(2) by (simp add: node_at_def)
  ultimately show ?case unfolding n(1) p(1) by (cases fr) (simp_all add: st'_def without_without)
qed

lemma clear_loop_rep:
  assumes a: "array_rep c pq gs"
  shows "i \<le> length gs \<Longrightarrow> (\<forall>x \<in> set (node_addrs (drop i gs)). cells st x = c x \<and> x < next_addr st)
    \<Longrightarrow> distinct (node_addrs (drop i gs)) \<Longrightarrow>
    clear_loop pq i st = Ret (without st (set (node_addrs (drop i gs)))
      (if data_free pq then map snd (flat (drop i gs)) else []))"
proof (induction "length gs - i" arbitrary: i st)
  case 0
  then show ?case using a by (subst clear_loop.simps) (simp add: array_rep_def without_def)
next
  case (Suc k)
  then have i: "i < length gs" by simp
  obtain b where b: "bucket_at pq (int i) = Ret b" "bucket_rep c b (gs ! i)"
    using bucket_at_rep [OF a i] .
  let ?xs = "snd (gs ! i)"
  have t: "drop i gs = gs ! i # drop (Suc i) gs" using i by (simp add: Cons_nth_drop_Suc)
  have ch: "chain (cells st) (bk_first b) ?xs"
    using b(2) Suc.prems(2) t chain_cong [of ?xs "cells st" c "bk_first b"]
    by (simp add: bucket_rep_def)
  have d: "distinct (map fst ?xs)" using Suc.prems(3) t by simp
  have "set (map fst ?xs) \<subseteq> {..<next_addr st}" using Suc.prems(2) t by auto
  from card_mono [OF _ this] have len: "length ?xs \<le> next_addr st"
    using distinct_card [OF d] by simp
  define st' where "st' = without st (fst ` set ?xs) (if data_free pq then map snd ?xs else [])"
  have f: "free_list (next_addr st) (data_free pq) st (bk_first b) = Ret st'"
    unfolding st'_def by (rule free_list_chain [OF ch d len])
  have "clear_loop pq (Suc i) st' = Ret (without st' (set (node_addrs (drop (Suc i) gs)))
      (if data_free pq then map snd (flat (drop (Suc i) gs)) else []))"
  proof (rule Suc.hyps(1))
    show "\<forall>x \<in> set (node_addrs (drop (Suc i) gs)). cells st' x = c x \<and> x < next_addr st'"
      using Suc.prems(2,3) t by (auto simp: st'_def)
  qed (use Suc.hyps(2) Suc.prems(3) i t in auto)
  then show ?case using b(1) f i a
    by (subst clear_loop.simps) (auto simp: array_rep_def st'_def without_without t comp_def)
qed


lemma pq_clear_spec:
  assumes "pq_holds (st, pq) q"
  shows "\<exists>st' pq'. ucb_pqueue_clear st pq = Ret (st', pq') \<and> pq_holds (st', pq') []
    \<and> cells st' = (\<lambda>a. None) \<and> pq' = pq\<lparr>num_buckets := 0\<rparr>
    \<and> freed_data st' = freed_data st @ (if data_free pq then map snd q else [])"
proof -
  obtain gs where h: "pq_mutex pq \<noteq> Locked" "array_rep (cells st) pq gs" "store_ok st gs" "q = flat gs"
    "data_clone pq \<noteq> None \<longrightarrow> data_free pq" using pq_holdsE [OF assms] by metis
  let ?pq = "pq\<lparr>pq_mutex := (if pq_mutex pq = NoMutex then NoMutex else Locked)\<rparr>"
  let ?st = "without st (set (node_addrs gs)) (if data_free pq then map snd (flat gs) else [])"
  have a: "array_rep (cells st) ?pq gs" using h(2) by simp
  have "clear_loop ?pq 0 st = Ret ?st"
    using clear_loop_rep [OF a, of 0 st] h(3) by (simp add: store_ok_def)
  moreover have "UNLOCK_MUTEX (?pq\<lparr>num_buckets := 0\<rparr>) = Ret (pq\<lparr>num_buckets := 0\<rparr>)"
    using h(1) by (cases "pq_mutex pq") (auto simp: UNLOCK_MUTEX_def)
  ultimately have c: "ucb_pqueue_clear st pq = Ret (?st, pq\<lparr>num_buckets := 0\<rparr>)"
    using lock_unlocked [OF h(1)] by (simp add: ucb_pqueue_clear_def)
  have e: "cells ?st = (\<lambda>a. None)"
    using h(3) by (auto simp: store_ok_def fun_eq_iff)
  have "array_rep (cells ?st) (pq\<lparr>num_buckets := 0\<rparr>) []"
    using h(2) by (cases "buckets pq") (simp_all add: array_rep_def live_buckets_def)
  then have "pq_rep ?st (pq\<lparr>num_buckets := 0\<rparr>) []"
    using h(5) e by (simp add: pq_rep_def store_ok_def)
  then show ?thesis using c e h(1,4) by (auto simp: pq_holds_def)
qed

lemma pq_fit_spec:
  assumes p: "pq_holds (st, pq) q" and g: "granted me (num_buckets pq * sizeof_bucket)"
  shows "\<exists>pq'. ucb_pqueue_fit me pq = Ret pq' \<and> pq_holds (st, pq') q
    \<and> (num_buckets pq > PQUEUE_INITIAL_NUM_BUCKETS_INITIAL \<longrightarrow> alloc_buckets pq' = num_buckets pq)"
proof -
  obtain gs where h: "pq_mutex pq \<noteq> Locked" "array_rep (cells st) pq gs" "store_ok st gs" "q = flat gs"
    "length (flat gs) < 2 ^ 63" "data_clone pq \<noteq> None \<longrightarrow> data_free pq" using pq_holdsE [OF p] by metis
  let ?pq = "pq\<lparr>pq_mutex := (if pq_mutex pq = NoMutex then NoMutex else Locked)\<rparr>"
  obtain bs where bs: "buckets pq = Buckets bs" "length bs = alloc_buckets pq"
    "num_buckets pq = length gs" "length gs \<le> length bs"
    "list_all2 (bucket_rep (cells st)) (take (length gs) bs) gs" using array_repE [OF h(2)] .
  show ?thesis
  proof (cases "num_buckets pq > PQUEUE_INITIAL_NUM_BUCKETS_INITIAL \<and> num_buckets pq < alloc_buckets pq")
    case False
    then have "ucb_pqueue_fit me pq = Ret pq"
      using lock_unlocked [OF h(1)] relock [OF h(1)] by (auto simp: ucb_pqueue_fit_def)
    moreover have "num_buckets pq \<le> alloc_buckets pq" using bs by simp
    ultimately show ?thesis using p False by auto
  next
    case True
    let ?pq' = "pq\<lparr>alloc_buckets := length gs, buckets := Buckets (take (length gs) bs)\<rparr>"
    have n: "length gs * sizeof_bucket \<le> PTRDIFF_MAX" "0 < length gs"
      using g True bs(3) unfolding granted_def by (auto simp del: length_greater_0_conv)
    have u: "usize (length gs * sizeof_bucket) = length gs * sizeof_bucket"
      using n(1) by (simp add: usize_id PTRDIFF_MAX_less)
    have "ucb_realloc me True (length gs * sizeof_bucket) = Ret Moved"
      using n(2) g bs(3) by (intro ucb_realloc_ok) (simp_all add: sizeof_bucket_def)
    moreover have "UNLOCK_MUTEX (?pq\<lparr>alloc_buckets := length gs, buckets := Buckets (take (length gs) bs)\<rparr>) = Ret ?pq'"
      using h(1) by (cases "pq_mutex pq") (auto simp: UNLOCK_MUTEX_def)
    ultimately have "ucb_pqueue_fit me pq = Ret ?pq'"
      using lock_unlocked [OF h(1)] True u bs by (simp add: ucb_pqueue_fit_def)
    moreover have "array_rep (cells st) ?pq' gs"
      using h(2) n bs by (simp add: array_rep_def live_buckets_def)
    ultimately show ?thesis using h bs(3) by (auto simp: pq_holds_def pq_rep_def)
  qed
qed

lemma pq_init_spec:
  assumes "arg_clone args \<noteq> None \<longrightarrow> arg_free args"
    "granted me (PQUEUE_INITIAL_NUM_BUCKETS_INITIAL * sizeof_bucket)" "cells st = (\<lambda>a. None)"
  shows "\<exists>pq'. ucb_pqueue_init_common me mutex_ok pq args mt = Ret (True, pq') \<and> pq_holds (st, pq') []
    \<and> data_clone pq' = arg_clone args \<and> data_free pq' = arg_free args \<and> num_buckets pq' = 0"
proof -
  have "ucb_malloc me (PQUEUE_INITIAL_NUM_BUCKETS_INITIAL * sizeof_bucket) = Ret True"
    using assms(2) by (intro ucb_malloc_ok) (simp_all add: PQUEUE_INITIAL_NUM_BUCKETS_INITIAL_def sizeof_bucket_def)
  then show ?thesis using assms
    by (auto simp: ucb_pqueue_init_common_def pq_holds_def pq_rep_def array_rep_def live_buckets_def
        store_ok_def granted_def PQUEUE_INITIAL_NUM_BUCKETS_INITIAL_def)
qed

lemma init_clone_without_free:
  "arg_clone args \<noteq> None \<Longrightarrow> \<not> arg_free args \<Longrightarrow>
   ucb_pqueue_init_common me mutex_ok pq args mt = Abort UCB_ERROR_INVALID_ARG"
  by (simp add: ucb_pqueue_init_common_def)


section \<open>The contract and its client\<close>

fun push_all :: "('s \<Rightarrow> 'd \<Rightarrow> int \<Rightarrow> ('s \<times> nat) result) \<Rightarrow> 's \<Rightarrow> (int \<times> 'd) list \<Rightarrow> 's result" where
  "push_all push s [] = Ret s"
| "push_all push s (x # xs) = rbind (push s (snd x) (fst x)) (\<lambda>(s, _). push_all push s xs)"

fun pop_all :: "('s \<Rightarrow> ('s \<times> 'd option) result) \<Rightarrow> 's \<Rightarrow> nat \<Rightarrow> ('s \<times> 'd option list) result" where
  "pop_all pop s 0 = Ret (s, [])"
| "pop_all pop s (Suc n) =
     rbind (pop s) (\<lambda>(s, d). rbind (pop_all pop s n) (\<lambda>(s, ds). Ret (s, d # ds)))"

text \<open>Pushing one after the other onto the empty model is a stable sort by descending priority.\<close>

abbreviation "desc_key \<equiv> (\<lambda>x. - fst x)"

lemma model_push_set: "set (model_push d p q) = insert (p, d) (set q)"
  unfolding model_push_def by (metis Un_insert_right list.simps(15) set_append takeWhile_dropWhile_id)

lemma dropWhile_sorted_less:
  "sorted (map desc_key q) \<Longrightarrow> x \<in> set (dropWhile (\<lambda>x. fst x \<ge> p) q) \<Longrightarrow> fst x < (p :: int)"
  by (induction q) (auto split: if_splits)

lemma model_push_sorted:
  assumes "sorted (map desc_key q)"
  shows "sorted (map desc_key (model_push d p q))"
proof -
  let ?A = "takeWhile (\<lambda>x. fst x \<ge> p) q" and ?B = "dropWhile (\<lambda>x. fst x \<ge> p) q"
  have "sorted (map desc_key ?A @ map desc_key ?B)" using assms by (metis map_append takeWhile_dropWhile_id)
  moreover have "\<forall>x \<in> set ?A. p \<le> fst x" by (auto dest: set_takeWhileD)
  moreover have "\<forall>x \<in> set ?B. fst x < p" using dropWhile_sorted_less [OF assms] by auto
  ultimately show ?thesis by (auto simp: model_push_def sorted_append)
qed

lemma model_push_filter:
  assumes "sorted (map desc_key q)"
  shows "filter (\<lambda>x. k = fst x) (model_push d p q)
    = filter (\<lambda>x. k = fst x) (q @ [(p, d)])"
proof -
  let ?A = "takeWhile (\<lambda>x. fst x \<ge> p) q" and ?B = "dropWhile (\<lambda>x. fst x \<ge> p) q"
  let ?f = "filter (\<lambda>x. k = fst x)"
  have q: "?f q = ?f ?A @ ?f ?B" by (metis filter_append takeWhile_dropWhile_id)
  have "?f ?B = []" if "k = p"
    using dropWhile_sorted_less [OF assms, of _ p] that by (fastforce simp: filter_empty_conv)
  then show ?thesis using q by (auto simp: model_push_def)
qed

lemma model_push_mset: "mset (model_push d p q) = add_mset (p, d) (mset q)"
proof -
  have "mset q = mset (takeWhile (\<lambda>x. fst x \<ge> p) q) + mset (dropWhile (\<lambda>x. fst x \<ge> p) q)"
    by (metis mset_append takeWhile_dropWhile_id)
  then show ?thesis by (simp add: model_push_def)
qed

lemma model_sorts: "foldl (\<lambda>q x. model_push (snd x) (fst x) q) [] xs = sort_key desc_key xs"
proof -
  let ?F = "foldl (\<lambda>q x. model_push (snd x) (fst x) q) []"
  have "sorted (map desc_key (?F xs)) \<and> mset (?F xs) = mset xs
      \<and> (\<forall>k. filter (\<lambda>x. k = fst x) (?F xs) = filter (\<lambda>x. k = fst x) xs)"
    by (induction xs rule: rev_induct) (auto simp: model_push_sorted model_push_mset model_push_filter)
  then show ?thesis by (intro properties_for_sort_key [symmetric]) auto
qed


text \<open>What a client of a priority queue relies on, below \<open>bound\<close> items.\<close>

locale prio_queue =
  fixes holds :: "'s \<Rightarrow> (int \<times> 'd) list \<Rightarrow> bool"
    and push :: "'s \<Rightarrow> 'd \<Rightarrow> int \<Rightarrow> ('s \<times> nat) result"
    and pop :: "'s \<Rightarrow> ('s \<times> 'd option) result"
    and bound :: nat
  assumes push_law: "holds s q \<Longrightarrow> length q < bound \<Longrightarrow>
      \<exists>s'. push s d p = Ret (s', model_pos p q) \<and> holds s' (model_push d p q)"
    and pop_law: "holds s (x # q) \<Longrightarrow> \<exists>s'. pop s = Ret (s', Some (snd x)) \<and> holds s' q"
    and pop_empty_law: "holds s [] \<Longrightarrow> \<exists>s'. pop s = Ret (s', None) \<and> holds s' []"
begin

lemma push_all_holds:
  "holds s q \<Longrightarrow> length q + length xs \<le> bound \<Longrightarrow>
   \<exists>s'. push_all push s xs = Ret s' \<and> holds s' (foldl (\<lambda>q x. model_push (snd x) (fst x) q) q xs)"
proof (induction xs arbitrary: s q)
  case Nil
  then show ?case by simp
next
  case (Cons x xs)
  obtain s' where s': "push s (snd x) (fst x) = Ret (s', model_pos (fst x) q)"
    "holds s' (model_push (snd x) (fst x) q)" using push_law [OF Cons.prems(1)] Cons.prems(2) by fastforce
  have "length (model_push (snd x) (fst x) q) + length xs \<le> bound"
    using Cons.prems(2) by (simp add: length_model_push)
  from Cons.IH [OF s'(2) this] s'(1) show ?case by auto
qed

lemma pop_all_holds:
  "holds s q \<Longrightarrow> \<exists>s'. pop_all pop s (length q + k) = Ret (s', map (\<lambda>x. Some (snd x)) q @ replicate k None)
     \<and> holds s' []"
proof (induction q arbitrary: s)
  case Nil
  then show ?case
  proof (induction k arbitrary: s)
    case (Suc k)
    obtain s' where "pop s = Ret (s', None)" "holds s' []" using pop_empty_law [OF Suc.prems] by blast
    then show ?case using Suc.IH [of s'] by auto
  qed simp
next
  case (Cons x q)
  obtain s' where "pop s = Ret (s', Some (snd x))" "holds s' q" using pop_law [OF Cons.prems] by blast
  then show ?case using Cons.IH [of s'] by auto
qed

lemma push_then_drain:
  assumes "holds s []" "length xs \<le> bound"
  shows "\<exists>s' s''. push_all push s xs = Ret s'
    \<and> pop_all pop s' (length xs + k)
        = Ret (s'', map (\<lambda>x. Some (snd x)) (sort_key desc_key xs) @ replicate k None)
    \<and> holds s'' []"
proof -
  obtain s' where s': "push_all push s xs = Ret s'" "holds s' (sort_key desc_key xs)"
    using push_all_holds [OF assms(1), of xs] assms(2) model_sorts [of xs] by auto
  from pop_all_holds [OF s'(2), of k] s'(1) show ?thesis by simp
qed

end

text \<open>
  The queue of the code provides the contract as long as every request of up to \<open>2 ^ 40\<close> bytes
  is granted, with fewer than \<open>2 ^ 31\<close> items, and without a clone callback. The environment is
  part of the client's state.
\<close>

type_synonym 'd pq_world = "mem_env \<times> 'd node_store \<times> 'd ucb_pqueue"

definition world_holds :: "'d pq_world \<Rightarrow> 'd pq_model \<Rightarrow> bool" where
  "world_holds = (\<lambda>(me, st, pq) q. grants_upto me (2 ^ 40) \<and> pq_holds (st, pq) q
     \<and> data_clone pq = None \<and> alloc_buckets pq \<le> 2 ^ 32)"

definition world_push :: "'d pq_world \<Rightarrow> 'd \<Rightarrow> int \<Rightarrow> ('d pq_world \<times> nat) result" where
  "world_push = (\<lambda>(me, st, pq) d p.
     rbind (ucb_pqueue_push me st pq d p) (\<lambda>(st, pq, i). Ret ((me, st, pq), i)))"

definition world_pop :: "'d pq_world \<Rightarrow> ('d pq_world \<times> 'd option) result" where
  "world_pop = (\<lambda>(me, st, pq).
     rbind (ucb_pqueue_pop st pq) (\<lambda>(st, pq, d). Ret ((me, st, pq), d)))"

lemma groups_le_items:
  assumes "array_rep c pq gs"
  shows "length gs \<le> length (flat gs)"
proof -
  have "\<forall>g \<in> set gs. snd g \<noteq> []"
    using bucket_at_rep [OF assms] unfolding all_set_conv_all_nth bucket_rep_def by metis
  then show ?thesis
  proof (induction gs)
    case (Cons g gs)
    then show ?case by (cases "snd g") auto
  qed simp
qed

lemma holds_num_buckets: "pq_holds (st, pq) q \<Longrightarrow> num_buckets pq \<le> length q"
  using groups_le_items pq_holdsE by metis

interpretation world: prio_queue world_holds world_push world_pop "2 ^ 31 - 1"
proof (unfold_locales, goal_cases)
  case (1 s q d p)
  obtain me st pq where s: "s = (me, st, pq)" by (cases s)
  have h: "pq_holds (st, pq) q" "grants_upto me (2 ^ 40)" "data_clone pq = None" "alloc_buckets pq \<le> 2 ^ 32"
    using 1(1) by (auto simp: s world_holds_def)
  have nb: "num_buckets pq < 2 ^ 31" using holds_num_buckets [OF h(1)] 1(2) by simp
  have gr: "n \<le> 2 ^ 40 \<Longrightarrow> granted me n" for n
    using h(2) by (simp add: grants_upto_def granted_def PTRDIFF_MAX_def)
  have mem: "push_memory me pq"
    unfolding push_memory_def using gr h(4) by (simp add: sizeof_node_def sizeof_bucket_def)
  have al: "grown_alloc pq \<le> 2 ^ 32" using nb h(4) by (auto simp: grown_alloc_def)
  have d: "pushed_data pq d = Some d" using h(3) by (simp add: pushed_data_def)
  have n: "length q + 1 < 2 ^ 63" using 1(2) by simp
  from pq_push_spec [OF h(1) nb n mem d, of p] show ?case
    using h al by (auto simp: s world_push_def world_holds_def)
next
  case (2 s x q)
  obtain me st pq where s: "s = (me, st, pq)" by (cases s)
  have "pq_holds (st, pq) ((fst x, snd x) # q)" using 2 by (simp add: s world_holds_def)
  from pq_pop_spec [OF this] 2 show ?case by (auto simp: s world_pop_def world_holds_def)
next
  case (3 s)
  obtain me st pq where s: "s = (me, st, pq)" by (cases s)
  have "pq_holds (st, pq) []" using 3 by (simp add: s world_holds_def)
  from pq_pop_empty [OF this] 3 show ?case by (auto simp: s world_pop_def)
qed


section \<open>Properties\<close>

lemma model_sorted:
  assumes "pq_holds s q"
  shows "sorted (map desc_key q)"
proof -
  have "sorted (map desc_key (flat gs))" if "sorted_wrt (\<lambda>g h. fst g > fst h) gs" for gs :: "'a bucket_nodes list"
    using that
  proof (induction gs)
    case (Cons g gs)
    then have "\<forall>h \<in> set gs. fst h \<le> fst g" by auto
    from flat_prio [OF this] show ?case
      using Cons by (auto simp: sorted_append comp_def map_replicate_const)
  qed simp
  then show ?thesis using assms by (auto simp: pq_holds_def pq_rep_def array_rep_def)
qed

text \<open>A queue in the middle of its life, for the witnesses: two items of priority 5, one of 2.\<close>

definition demo_store :: "nat node_store" where
  "demo_store = \<lparr>cells = [0 \<mapsto> \<lparr>nd_data = 10, nd_next = Some 2\<rparr>, 1 \<mapsto> \<lparr>nd_data = 11, nd_next = None\<rparr>,
      2 \<mapsto> \<lparr>nd_data = 12, nd_next = None\<rparr>], next_addr = 3, freed_data = []\<rparr>"

definition demo_queue :: "nat ucb_pqueue" where
  "demo_queue = \<lparr>buckets = Buckets
      [\<lparr>bk_priority = 5, bk_first = Some 0, bk_last = Some 2, num_items = 2\<rparr>,
       \<lparr>bk_priority = 2, bk_first = Some 1, bk_last = Some 1, num_items = 1\<rparr>],
     num_buckets = 2, alloc_buckets = 2, data_clone = None, data_free = True, pq_mutex = Unlocked\<rparr>"

lemma demo_holds: "pq_holds (demo_store, demo_queue) [(5, 10), (5, 12), (2, 11)]"
proof -
  have "pq_rep demo_store demo_queue [(5, [(0, 10), (2, 12)]), (2, [(1, 11)])]"
    by (auto simp: pq_rep_def array_rep_def live_buckets_def bucket_rep_def store_ok_def
        demo_store_def demo_queue_def sizeof_bucket_def PTRDIFF_MAX_def split: if_splits)
  then show ?thesis by (auto simp: pq_holds_def demo_queue_def)
qed

text \<open>
  C13: \<open>ucb_pqueue_push\<close> on a queue holding \<open>q\<close> returns, whenever the node and (if the bucket
  array is full) the doubled array are granted; the item is placed behind every item of the
  same or a higher priority and before all others, the returned position is its index, and
  no other item moves or is freed.
\<close>

theorem ucb_pqueue_push_stable:
  assumes "pq_holds (st, pq) q" "num_buckets pq < 2 ^ 31" "length q + 1 < 2 ^ 63"
    "push_memory me pq" "pushed_data pq data = Some d"
  shows "\<exists>st' pq'. ucb_pqueue_push me st pq data p
        = Ret (st', pq', length (takeWhile (\<lambda>x. fst x \<ge> p) q))
    \<and> pq_holds (st', pq') (takeWhile (\<lambda>x. fst x \<ge> p) q @ (p, d) # dropWhile (\<lambda>x. fst x \<ge> p) q)
    \<and> freed_data st' = freed_data st"
  using pq_push_spec [OF assms, of p] unfolding model_pos_def model_push_def by blast

theorem ucb_pqueue_push_stable_witness:
  "\<exists>st' pq'. ucb_pqueue_push me_ok demo_store demo_queue 13 3 = Ret (st', pq', 2)
    \<and> pq_holds (st', pq') [(5, 10), (5, 12), (3, 13), (2, 11)]"
proof -
  have "num_buckets demo_queue < 2 ^ 31" "push_memory me_ok demo_queue"
    "pushed_data demo_queue 13 = Some 13"
    by (simp_all add: demo_queue_def push_memory_def pushed_data_def sizeof_node_def sizeof_bucket_def
        PTRDIFF_MAX_def)
  from ucb_pqueue_push_stable [OF demo_holds this(1) _ this(2,3), of 3] show ?thesis by auto
qed

text \<open>
  C14: \<open>ucb_pqueue_pop\<close> on a queue that is not empty returns the data of the item that
  has the highest priority and, among those, came first; it removes that item only, and its
  node is released while the data is not freed.
\<close>

theorem ucb_pqueue_pop_highest:
  assumes "pq_holds (st, pq) ((p, d) # q)"
  shows "\<exists>st' pq'. ucb_pqueue_pop st pq = Ret (st', pq', Some d) \<and> pq_holds (st', pq') q
    \<and> freed_data st' = freed_data st \<and> (\<forall>x \<in> set q. fst x \<le> p)"
  using pq_pop_spec [OF assms] model_sorted [OF assms] by auto

theorem ucb_pqueue_pop_highest_witness:
  "\<exists>st' pq'. ucb_pqueue_pop demo_store demo_queue = Ret (st', pq', Some 10)
    \<and> pq_holds (st', pq') [(5, 12), (2, 11)]"
  using ucb_pqueue_pop_highest [OF demo_holds] by blast

text \<open>
  C15: a new queue that is given \<open>xs\<close> one item after the other and then popped \<open>length xs + k\<close>
  times hands out the data in the order of the stable sort of \<open>xs\<close> by descending priority,
  and then reports \<open>k\<close> times that it is empty.
\<close>

theorem pqueue_drain_is_stable_sort:
  assumes "grants_upto me (2 ^ 40)" "length xs < 2 ^ 31" "arg_clone args = None" "cells st = (\<lambda>a. None)"
  shows "\<exists>pq s s'. ucb_pqueue_init_common me mutex_ok junk_pq args mt = Ret (True, pq)
    \<and> push_all world_push (me, st, pq) xs = Ret s
    \<and> pop_all world_pop s (length xs + k)
        = Ret (s', map (\<lambda>x. Some (snd x)) (sort_key (\<lambda>x. - fst x) xs) @ replicate k None)"
proof -
  have "granted me (PQUEUE_INITIAL_NUM_BUCKETS_INITIAL * sizeof_bucket)"
    using assms(1) by (simp add: grants_upto_def granted_def PTRDIFF_MAX_def
        PQUEUE_INITIAL_NUM_BUCKETS_INITIAL_def sizeof_bucket_def)
  from pq_init_spec [OF _ this assms(4), of args mutex_ok junk_pq mt] assms(3)
  obtain pq where pq: "ucb_pqueue_init_common me mutex_ok junk_pq args mt = Ret (True, pq)"
    "pq_holds (st, pq) []" "data_clone pq = None" "num_buckets pq = 0" by auto
  have "alloc_buckets pq = PQUEUE_INITIAL_NUM_BUCKETS_INITIAL"
    using pq(1) by (auto simp: ucb_pqueue_init_common_def verify_def split: if_splits)
  then have "world_holds (me, st, pq) []"
    using pq assms(1) by (simp add: world_holds_def PQUEUE_INITIAL_NUM_BUCKETS_INITIAL_def)
  from world.push_then_drain [OF this, of xs k] assms(2) pq(1) show ?thesis by auto
qed

theorem pqueue_drain_is_stable_sort_witness:
  "\<exists>pq s s'. ucb_pqueue_init_common me_ok True demo_queue \<lparr>arg_clone = None, arg_free = False\<rparr> True = Ret (True, pq)
    \<and> push_all world_push (me_ok, \<lparr>cells = \<lambda>a. None, next_addr = 0, freed_data = []\<rparr>, pq) [(1, 7), (9, 8), (1, 9)] = Ret s
    \<and> pop_all world_pop s 4 = Ret (s', [Some 8, Some 7, Some 9, None])"
proof -
  have "grants_upto me_ok (2 ^ 40)" by (simp add: grants_upto_def PTRDIFF_MAX_def)
  from pqueue_drain_is_stable_sort [OF this, of "[(1, 7), (9, 8), (1, 9)]"
      "\<lparr>arg_clone = None, arg_free = False\<rparr>" "\<lparr>cells = \<lambda>a. None, next_addr = 0, freed_data = []\<rparr>" True demo_queue True 1]
  moreover have "length [(1::int, 7::nat), (9, 8), (1, 9)] + 1 = 4" by simp
  ultimately show ?thesis by (simp only: ) (simp add: sort_key_def del: push_all.simps pop_all.simps)
qed

text \<open>
  C16: \<open>ucb_pqueue_clear\<close> leaves an empty queue and no node in the store, keeps the bucket
  array, and hands every remaining item exactly once to the free callback, in queue order.
\<close>

theorem ucb_pqueue_clear_frees_all:
  assumes "pq_holds (st, pq) q"
  shows "\<exists>st'. ucb_pqueue_clear st pq = Ret (st', pq\<lparr>num_buckets := 0\<rparr>)
    \<and> pq_holds (st', pq\<lparr>num_buckets := 0\<rparr>) [] \<and> cells st' = (\<lambda>a. None)
    \<and> freed_data st' = freed_data st @ (if data_free pq then map snd q else [])"
  using pq_clear_spec [OF assms] by auto

theorem ucb_pqueue_clear_frees_all_witness:
  "\<exists>st'. ucb_pqueue_clear demo_store demo_queue = Ret (st', demo_queue\<lparr>num_buckets := 0\<rparr>)
    \<and> freed_data st' = [10, 12, 11]"
  using ucb_pqueue_clear_frees_all [OF demo_holds] by (auto simp: demo_store_def demo_queue_def)

text \<open>
  When the bucket array of a queue with a mutex is full, holds no bucket of the priority,
  and cannot be enlarged, \<open>push\<close> returns SIZE_MAX with the mutex still locked: every later
  call on the queue from this thread is reported as a lock error and aborts.
\<close>

theorem push_failure_keeps_lock:
  assumes "pq_holds (st, pq) q" "pq_mutex pq = Unlocked" "num_buckets pq < 2 ^ 31"
    "p \<notin> fst ` set q" "num_buckets pq = alloc_buckets pq"
    "granted me sizeof_node" "\<not> granted me (2 * alloc_buckets pq * sizeof_bucket)" "fatal_returns me"
    "pushed_data pq data = Some d"
  shows "\<exists>st' pq'. ucb_pqueue_push me st pq data p = Ret (st', pq', SIZE_MAX)
    \<and> ucb_pqueue_push_node me st' pq' p' node = Abort UCB_ERROR_MUTEX_LOCKED
    \<and> ucb_pqueue_pop st' pq' = Abort UCB_ERROR_MUTEX_LOCKED
    \<and> ucb_pqueue_size pq' = Abort UCB_ERROR_MUTEX_LOCKED
    \<and> ucb_pqueue_clear st' pq' = Abort UCB_ERROR_MUTEX_LOCKED"
proof -
  obtain gs where h: "array_rep (cells st) pq gs" "q = flat gs" "num_buckets pq = length gs"
    using pq_holdsE [OF assms(1)] by metis
  define pq1 where "pq1 = pq\<lparr>pq_mutex := Locked\<rparr>"
  have l: "LOCK_MUTEX pq = Ret pq1" using assms(2) by (simp add: LOCK_MUTEX_def pq1_def)
  have a: "array_rep (cells st) pq1 gs" using h(1) by (simp add: pq1_def)
  obtain f where f: "ucb_pqueue_search_bucket pq1 p = Ret f" "search_result (map fst gs) p f"
    using search_bucket_result [OF a] assms(3) h(3) by auto
  have "\<not> f \<ge> 0"
  proof
    assume "f \<ge> 0"
    then have k: "nat f < length gs" "fst (gs ! nat f) = p" using f(2) by (auto simp: search_result_def)
    obtain b where "bucket_rep (cells st) b (gs ! nat f)" using bucket_at_rep [OF a k(1)] .
    then have "snd (gs ! nat f) \<noteq> []" by (simp add: bucket_rep_def)
    then have "p \<in> fst ` set (flat gs)" using flat_split [OF k(1)] k(2) by (cases "snd (gs ! nat f)") auto
    then show False using assms(4) h(2) by simp
  qed
  moreover have "grow_buckets me pq1 = Ret (False, pq1\<lparr>buckets := FreedBuckets\<rparr>)"
  proof -
    obtain bs where bs: "buckets pq1 = Buckets bs" using array_repE [OF a] by metis
    have b: "alloc_buckets pq * sizeof_bucket \<le> PTRDIFF_MAX" "0 < alloc_buckets pq"
      using h(1) by (simp_all add: array_rep_def)
    have "usize (alloc_buckets pq * PQUEUE_BUCKETS_GROW_FACTOR) = 2 * alloc_buckets pq"
      "usize (2 * alloc_buckets pq * sizeof_bucket) = 2 * alloc_buckets pq * sizeof_bucket"
      using b by (auto simp: PQUEUE_BUCKETS_GROW_FACTOR_def sizeof_bucket_def usize_id SIZE_MAX_def PTRDIFF_MAX_def)
    moreover have "ucb_realloc me True (2 * alloc_buckets pq * sizeof_bucket) = Ret FailFreed"
      using assms(7,8) b by (simp add: ucb_realloc_def ucb_realloc2_Ret_iff)
    ultimately show ?thesis using bs assms(5) by (simp add: grow_buckets_def Let_def pq1_def)
  qed
  ultimately have pn: "ucb_pqueue_push_node me st1 pq p node' = Ret (st1, pq1\<lparr>buckets := FreedBuckets\<rparr>, SIZE_MAX)" for st1 node'
    using l f(1) by (simp add: ucb_pqueue_push_node_def)
  have "ucb_malloc me sizeof_node = Ret True"
    using assms(6) by (intro ucb_malloc_ok) (simp_all add: sizeof_node_def)
  then have "\<exists>st'. ucb_pqueue_push me st pq data p = Ret (st', pq1\<lparr>buckets := FreedBuckets\<rparr>, SIZE_MAX)"
    using assms(9) pn
    by (auto simp: ucb_pqueue_push_def pushed_data_def Let_def node_free_def call_free_def split: option.splits)
  then show ?thesis
    by (auto simp: LOCK_MUTEX_def pq1_def ucb_pqueue_push_node_def ucb_pqueue_pop_def
        ucb_pqueue_pop_node_def ucb_pqueue_size_def ucb_pqueue_clear_def)
qed

theorem push_failure_keeps_lock_witness:
  "\<exists>st' pq'. ucb_pqueue_push (me_ok\<lparr>alloc_ok := \<lambda>n. n \<le> 64, fatal_returns := True\<rparr>)
      demo_store demo_queue 13 3 = Ret (st', pq', SIZE_MAX)
    \<and> ucb_pqueue_pop st' pq' = Abort UCB_ERROR_MUTEX_LOCKED"
proof -
  let ?me = "me_ok\<lparr>alloc_ok := \<lambda>n. n \<le> 64, fatal_returns := True\<rparr>"
  have "pq_mutex demo_queue = Unlocked" "num_buckets demo_queue < 2 ^ 31"
    "(3::int) \<notin> fst ` set [(5, 10), (5, 12), (2::int, 11::nat)]" "num_buckets demo_queue = alloc_buckets demo_queue"
    "granted ?me sizeof_node" "\<not> granted ?me (2 * alloc_buckets demo_queue * sizeof_bucket)"
    "fatal_returns ?me" "pushed_data demo_queue 13 = Some 13"
    by (simp_all add: demo_queue_def granted_def pushed_data_def sizeof_node_def sizeof_bucket_def PTRDIFF_MAX_def)
  from push_failure_keeps_lock [OF demo_holds this] show ?thesis by blast
qed

end
