(* ===== verification/Vector.thy ===== *)
theory Vector
  imports Prelude "HOL-Library.Multiset"
begin

text \<open>
  The typed growable arrays: \<^verbatim>\<open>include/ucb/container/templates/vector_template.h\<close>, which is expanded
  once per element type into \<^verbatim>\<open>src/ucb/container/impl/vector_*.c\<close>.

  \<^item> The operations \<open>vec_*\<close> are those of the template; \<open>w\<close> is \<^verbatim>\<open>sizeof(T)\<close>. The definitions
    \<open>ucb_vector_int_*\<close> are the expansion for \<^verbatim>\<open>int\<close>.
  \<^item> The data block is a list of cells; a cell nobody wrote is \<open>None\<close> and reading it is undefined,
    as is every access to a null or freed block.
  \<^item> A comparison callback returns its result or is undefined (the \<^verbatim>\<open>int\<close> comparison subtracts
    and may overflow). \<^verbatim>\<open>qsort\<close> is a parameter.
  \<^item> The locale \<open>vec_order\<close> states what searching needs of a comparison: it orders the elements by
    a key. It is interpreted on the comparisons of \<^verbatim>\<open>common.h\<close>.
\<close>

section \<open>State\<close>

datatype 'a vblock = VNull | VDangling | VMem "'a option list"

record 'a ucb_vector =
  v_data :: "'a vblock"
  v_size :: nat
  v_capacity :: nat

definition UCB_VECTOR_T_DEFAULT_CAPACITY :: nat where
  "UCB_VECTOR_T_DEFAULT_CAPACITY = 8"

definition vec_zero :: "'a ucb_vector" where
  "vec_zero = \<lparr>v_data = VNull, v_size = 0, v_capacity = 0\<rparr>"

definition vec_get_cell :: "'a ucb_vector \<Rightarrow> nat \<Rightarrow> 'a result" where
  "vec_get_cell v i =
     (case v_data v of
        VMem m \<Rightarrow> (if i < length m then (case m ! i of Some x \<Rightarrow> Ret x | None \<Rightarrow> Undef) else Undef)
      | _ \<Rightarrow> Undef)"

definition vec_set_cell :: "'a ucb_vector \<Rightarrow> nat \<Rightarrow> 'a \<Rightarrow> 'a ucb_vector result" where
  "vec_set_cell v i x =
     (case v_data v of
        VMem m \<Rightarrow> (if i < length m then Ret (v\<lparr>v_data := VMem (m[i := Some x])\<rparr>) else Undef)
      | _ \<Rightarrow> Undef)"

text \<open>\<^verbatim>\<open>memmove(data + dst, data + src, n * sizeof(T))\<close> inside one block.\<close>

definition vec_move_cells :: "'a ucb_vector \<Rightarrow> nat \<Rightarrow> nat \<Rightarrow> nat \<Rightarrow> 'a ucb_vector result" where
  "vec_move_cells v dst src n =
     (case v_data v of
        VMem m \<Rightarrow> (if src + n \<le> length m \<and> dst + n \<le> length m
                   then Ret (v\<lparr>v_data := VMem (mem_write dst (take n (drop src m)) m)\<rparr>) else Undef)
      | _ \<Rightarrow> Undef)"

section \<open>Capacity\<close>

definition vec_size :: "'a ucb_vector \<Rightarrow> nat" where
  "vec_size v = v_size v"

definition vec_capacity :: "'a ucb_vector \<Rightarrow> nat" where
  "vec_capacity v = v_capacity v"

definition vec_is_empty :: "'a ucb_vector \<Rightarrow> bool" where
  "vec_is_empty v = (v_size v = 0)"

definition vec_clear :: "'a ucb_vector \<Rightarrow> 'a ucb_vector" where
  "vec_clear v = v\<lparr>v_size := 0\<rparr>"

text \<open>
  The block after \<^verbatim>\<open>ucb_realloc\<close> to \<open>n\<close> cells; a failing call frees it (\<open>None\<close>), a freed block
  cannot be passed.
\<close>

definition vec_realloc :: "mem_env \<Rightarrow> nat \<Rightarrow> 'a vblock \<Rightarrow> nat \<Rightarrow> 'a option list option result" where
  "vec_realloc me w blk n =
     (case blk of
        VDangling \<Rightarrow> Undef
      | VNull \<Rightarrow>
          rbind (ucb_realloc me False (usize (n * w))) (\<lambda>r.
          Ret (if r = Moved then Some (replicate n None) else None))
      | VMem m \<Rightarrow>
          rbind (ucb_realloc me True (usize (n * w))) (\<lambda>r.
          Ret (if r = Moved then Some (take n m @ replicate (n - length m) None) else None)))"

text \<open>What is left of a block whose reallocation failed.\<close>

definition vec_lost :: "'a vblock \<Rightarrow> 'a vblock" where
  "vec_lost blk = (if blk = VNull then VNull else VDangling)"

definition vec_reserve :: "mem_env \<Rightarrow> nat \<Rightarrow> 'a ucb_vector \<Rightarrow> nat \<Rightarrow> (bool \<times> 'a ucb_vector) result" where
  "vec_reserve me w v new_capacity =
     (let new_capacity = (if new_capacity = 0 then UCB_VECTOR_T_DEFAULT_CAPACITY else new_capacity) in
      if new_capacity \<le> v_capacity v then Ret (True, v)
      else rbind (vec_realloc me w (v_data v) new_capacity) (\<lambda>r.
        case r of
          None \<Rightarrow> Ret (False, v\<lparr>v_data := vec_lost (v_data v)\<rparr>)
        | Some m \<Rightarrow> Ret (True, v\<lparr>v_data := VMem m, v_capacity := new_capacity\<rparr>)))"

definition vec_fit :: "mem_env \<Rightarrow> nat \<Rightarrow> 'a ucb_vector \<Rightarrow> 'a ucb_vector result" where
  "vec_fit me w v =
     (if v_capacity v > v_size v
      then rbind (vec_realloc me w (v_data v) (v_size v)) (\<lambda>r.
        case r of
          None \<Rightarrow> Ret (v\<lparr>v_data := vec_lost (v_data v)\<rparr>)
        | Some m \<Rightarrow> Ret (v\<lparr>v_data := VMem m, v_capacity := v_size v\<rparr>))
      else Ret v)"

section \<open>Elements\<close>

text \<open>The first part of an insertion makes room, the second shifts the tail and stores.\<close>

definition vec_make_room :: "mem_env \<Rightarrow> nat \<Rightarrow> 'a ucb_vector \<Rightarrow> (bool \<times> 'a ucb_vector) result" where
  "vec_make_room me w v =
     (if v_size v = v_capacity v then vec_reserve me w v (usize (v_capacity v * 2)) else Ret (True, v))"

definition vec_insert_store :: "'a ucb_vector \<Rightarrow> nat \<Rightarrow> 'a \<Rightarrow> 'a ucb_vector result" where
  "vec_insert_store v index x =
     rbind (if index < v_size v
            then vec_move_cells v (index + 1) index (v_size v - index) else Ret v) (\<lambda>v.
     rbind (vec_set_cell v index x) (\<lambda>v.
     Ret (v\<lparr>v_size := usize (v_size v + 1)\<rparr>)))"

definition vec_insert :: "mem_env \<Rightarrow> nat \<Rightarrow> 'a ucb_vector \<Rightarrow> nat \<Rightarrow> 'a \<Rightarrow> 'a ucb_vector result" where
  "vec_insert me w v index x =
     verify (index \<le> v_size v) UCB_ERROR_INVALID_ARG (
     rbind (vec_make_room me w v) (\<lambda>(ok, v). if ok then vec_insert_store v index x else Ret v))"

definition vec_remove :: "'a ucb_vector \<Rightarrow> nat \<Rightarrow> ('a \<times> 'a ucb_vector) result" where
  "vec_remove v index =
     verify (index < v_size v) UCB_ERROR_INVALID_ARG (
     verify (v_size v > 0) UCB_ERROR_INVALID_ARG (
     rbind (vec_get_cell v index) (\<lambda>x.
     rbind (if index < usub (v_size v) 1
            then vec_move_cells v index (index + 1) (v_size v - index - 1) else Ret v) (\<lambda>v.
     Ret (x, v\<lparr>v_size := usub (v_size v) 1\<rparr>)))))"

definition vec_push_back :: "mem_env \<Rightarrow> nat \<Rightarrow> 'a ucb_vector \<Rightarrow> 'a \<Rightarrow> 'a ucb_vector result" where
  "vec_push_back me w v x =
     (if v_size v < v_capacity v
      then rbind (vec_set_cell v (v_size v) x) (\<lambda>v. Ret (v\<lparr>v_size := usize (v_size v + 1)\<rparr>))
      else vec_insert me w v (v_size v) x)"

definition vec_push_front :: "mem_env \<Rightarrow> nat \<Rightarrow> 'a ucb_vector \<Rightarrow> 'a \<Rightarrow> 'a ucb_vector result" where
  "vec_push_front me w v x =
     (if v_size v = 0 \<and> v_capacity v > 0
      then rbind (vec_set_cell v 0 x) (\<lambda>v. Ret (v\<lparr>v_size := usize (v_size v + 1)\<rparr>))
      else vec_insert me w v 0 x)"

definition vec_pop_back :: "'a ucb_vector \<Rightarrow> ('a \<times> 'a ucb_vector) result" where
  "vec_pop_back v =
     verify (v_size v \<noteq> 0) UCB_ERROR_INVALID_ARG (
     verify (v_size v > 0) UCB_ERROR_INVALID_ARG (
     let v = v\<lparr>v_size := usub (v_size v) 1\<rparr> in
     rbind (vec_get_cell v (v_size v)) (\<lambda>x. Ret (x, v))))"

definition vec_pop_front :: "'a ucb_vector \<Rightarrow> ('a \<times> 'a ucb_vector) result" where
  "vec_pop_front v =
     verify (v_size v \<noteq> 0) UCB_ERROR_INVALID_ARG (
     verify (v_size v > 0) UCB_ERROR_INVALID_ARG (
     let v = v\<lparr>v_size := usub (v_size v) 1\<rparr> in
     rbind (vec_get_cell v 0) (\<lambda>x.
     rbind (if v_size v > 0 then vec_move_cells v 0 1 (v_size v) else Ret v) (\<lambda>v.
     Ret (x, v)))))"

definition vec_peek_back :: "'a ucb_vector \<Rightarrow> 'a result" where
  "vec_peek_back v = verify (v_size v \<noteq> 0) UCB_ERROR_INVALID_ARG (vec_get_cell v (usub (v_size v) 1))"

definition vec_peek_front :: "'a ucb_vector \<Rightarrow> 'a result" where
  "vec_peek_front v = verify (v_size v \<noteq> 0) UCB_ERROR_INVALID_ARG (vec_get_cell v 0)"

definition vec_get :: "'a ucb_vector \<Rightarrow> nat \<Rightarrow> 'a result" where
  "vec_get v index = verify (index < v_size v) UCB_ERROR_INVALID_ARG (vec_get_cell v index)"

definition vec_set :: "'a ucb_vector \<Rightarrow> nat \<Rightarrow> 'a \<Rightarrow> 'a ucb_vector result" where
  "vec_set v index x = verify (index < v_size v) UCB_ERROR_INVALID_ARG (vec_set_cell v index x)"

definition vec_swap :: "'a ucb_vector \<Rightarrow> nat \<Rightarrow> nat \<Rightarrow> 'a ucb_vector result" where
  "vec_swap v idx1 idx2 =
     verify (idx1 < v_size v \<and> idx2 < v_size v \<and> idx1 \<noteq> idx2) UCB_ERROR_INVALID_ARG (
     rbind (vec_get_cell v idx1) (\<lambda>tmp.
     rbind (vec_get_cell v idx2) (\<lambda>y.
     rbind (vec_set_cell v idx1 y) (\<lambda>v.
     vec_set_cell v idx2 tmp))))"

text \<open>The callback of \<^verbatim>\<open>foreach\<close>, with its user data as state \<open>s\<close>; the loop stops at the first \<open>False\<close>.\<close>

function vec_foreach_loop :: "'a ucb_vector \<Rightarrow> ('a \<Rightarrow> nat \<Rightarrow> 's \<Rightarrow> bool \<times> 's) \<Rightarrow> nat \<Rightarrow> 's \<Rightarrow> (nat \<times> 's) result" where
  "vec_foreach_loop v f i s =
     (if i < v_size v
      then rbind (vec_get_cell v i) (\<lambda>x.
           case f x i s of (go, s) \<Rightarrow> if go then vec_foreach_loop v f (i + 1) s else Ret (i, s))
      else Ret (i, s))"
  by pat_completeness auto
termination by (relation "measure (\<lambda>(v, f, i, s). v_size v - i)") auto

declare vec_foreach_loop.simps [simp del]

definition vec_foreach :: "'a ucb_vector \<Rightarrow> ('a \<Rightarrow> nat \<Rightarrow> 's \<Rightarrow> bool \<times> 's) \<Rightarrow> 's \<Rightarrow> (nat \<times> 's) result" where
  "vec_foreach v f s = vec_foreach_loop v f 0 s"

section \<open>Life cycle\<close>

definition sizeof_vector :: nat where
  "sizeof_vector = 24"

definition vec_new :: "mem_env \<Rightarrow> 'a ucb_vector option result" where
  "vec_new me = rbind (ucb_calloc me 1 sizeof_vector) (\<lambda>ok. Ret (if ok then Some vec_zero else None))"

text \<open>The block is released; freeing a block that already was is undefined.\<close>

definition vec_free :: "'a ucb_vector option \<Rightarrow> unit result" where
  "vec_free vec =
     (case vec of None \<Rightarrow> Ret () | Some v \<Rightarrow> if v_data v = VDangling then Undef else Ret ())"

definition vec_copy :: "mem_env \<Rightarrow> nat \<Rightarrow> 'a ucb_vector \<Rightarrow> 'a ucb_vector \<Rightarrow> (bool \<times> 'a ucb_vector) result" where
  "vec_copy me w dst src =
     rbind (vec_reserve me w (vec_clear dst) (v_capacity src)) (\<lambda>(ok, dst).
     if \<not> ok then Ret (False, vec_clear dst)
     else
       let dst = dst\<lparr>v_size := v_size src\<rparr> in
       if v_size src = 0 then Ret (True, dst)
       else case (v_data dst, v_data src) of
         (VMem d, VMem s) \<Rightarrow>
           (if v_size src \<le> length d \<and> v_size src \<le> length s
            then Ret (True, dst\<lparr>v_data := VMem (mem_write 0 (take (v_size src) s) d)\<rparr>) else Undef)
       | _ \<Rightarrow> Undef)"

definition vec_clone :: "mem_env \<Rightarrow> nat \<Rightarrow> 'a ucb_vector \<Rightarrow> 'a ucb_vector option result" where
  "vec_clone me w src =
     rbind (ucb_calloc me 1 sizeof_vector) (\<lambda>ok.
     if \<not> ok then Ret None
     else rbind (vec_copy me w vec_zero src) (\<lambda>(ok, dst). Ret (if ok then Some dst else None)))"

text \<open>The result is \<open>(dst, src)\<close>.\<close>

definition vec_move :: "'a ucb_vector \<Rightarrow> 'a ucb_vector \<Rightarrow> ('a ucb_vector \<times> 'a ucb_vector) result" where
  "vec_move dst src =
     (if v_data dst = VDangling then Undef
      else Ret (\<lparr>v_data = v_data src, v_size = v_size src, v_capacity = v_capacity src\<rparr>, vec_zero))"

section \<open>Search and sort\<close>

type_synonym 'a cmp = "'a \<Rightarrow> 'a \<Rightarrow> int result"

function find_right :: "'a ucb_vector \<Rightarrow> 'a cmp \<Rightarrow> 'a \<Rightarrow> int \<Rightarrow> int \<Rightarrow> int result" where
  "find_right v cmp val mid high =
     (if mid < high
      then rbind (vec_get_cell v (nat (mid + 1))) (\<lambda>x.
           rbind (cmp val x) (\<lambda>c.
           if c = 0 then find_right v cmp val (mid + 1) high else Ret mid))
      else Ret mid)"
  by pat_completeness auto
termination by (relation "measure (\<lambda>(v, cmp, val, mid, high). nat (high - mid))") auto

function find_search :: "'a ucb_vector \<Rightarrow> 'a cmp \<Rightarrow> 'a \<Rightarrow> int \<Rightarrow> int \<Rightarrow> int result" where
  "find_search v cmp val low high =
     (if low \<le> high
      then let mid = low + (high - low) div 2 in
        rbind (vec_get_cell v (nat mid)) (\<lambda>x.
        rbind (cmp val x) (\<lambda>c.
        if c = 0 then find_right v cmp val mid high
        else if c < 0 then find_search v cmp val low (mid - 1)
        else find_search v cmp val (mid + 1) high))
      else Ret (- (low + 1)))"
  by pat_completeness auto
termination by (relation "measure (\<lambda>(v, cmp, val, low, high). nat (high + 1 - low))") auto

declare find_right.simps [simp del] find_search.simps [simp del]

definition vec_find_with :: "'a ucb_vector \<Rightarrow> 'a \<Rightarrow> 'a cmp \<Rightarrow> int result" where
  "vec_find_with v val cmp = find_search v cmp val 0 (int (v_size v) - 1)"

definition vec_insert_sorted_with ::
  "mem_env \<Rightarrow> nat \<Rightarrow> 'a ucb_vector \<Rightarrow> 'a \<Rightarrow> 'a cmp \<Rightarrow> (nat \<times> 'a ucb_vector) result" where
  "vec_insert_sorted_with me w v val cmp =
     rbind (vec_find_with v val cmp) (\<lambda>pos.
     let ins_pos = (if pos \<ge> 0 then nat (pos + 1) else nat (- pos - 1)) in
     rbind (vec_insert me w v ins_pos val) (\<lambda>v. Ret (ins_pos, v)))"

text \<open>\<^verbatim>\<open>qsort\<close> rearranges the first \<open>size\<close> cells; \<open>qs\<close> is its result on the elements.\<close>

definition vec_elems :: "'a ucb_vector \<Rightarrow> 'a list result" where
  "vec_elems v =
     (if v_size v = 0 then Ret []
      else case v_data v of
        VMem m \<Rightarrow> (if v_size v \<le> length m \<and> None \<notin> set (take (v_size v) m)
                   then Ret (map the (take (v_size v) m)) else Undef)
      | _ \<Rightarrow> Undef)"

definition vec_sort_with :: "('a cmp \<Rightarrow> 'a list \<Rightarrow> 'a list result) \<Rightarrow> 'a ucb_vector \<Rightarrow> 'a cmp \<Rightarrow> 'a ucb_vector result" where
  "vec_sort_with qs v cmp =
     rbind (vec_elems v) (\<lambda>xs.
     rbind (qs cmp xs) (\<lambda>ys.
     case v_data v of
       VMem m \<Rightarrow> Ret (v\<lparr>v_data := VMem (mem_write 0 (map Some ys) m)\<rparr>)
     | _ \<Rightarrow> Ret v))"


section \<open>Invariant and abstraction\<close>

definition vec_holds :: "nat \<Rightarrow> 'a ucb_vector \<Rightarrow> 'a list \<Rightarrow> bool" where
  "vec_holds w v xs =
     (v_size v = length xs \<and>
      (case v_data v of
         VNull \<Rightarrow> xs = [] \<and> v_capacity v = 0
       | VDangling \<Rightarrow> False
       | VMem m \<Rightarrow> length m = v_capacity v \<and> 0 < v_capacity v \<and> v_capacity v * w \<le> PTRDIFF_MAX
           \<and> length xs \<le> v_capacity v \<and> take (length xs) m = map Some xs))"

lemma vec_holds_memI:
  "v_data v = VMem m \<Longrightarrow> length m = v_capacity v \<Longrightarrow> 0 < v_capacity v \<Longrightarrow> v_capacity v * w \<le> PTRDIFF_MAX
   \<Longrightarrow> v_size v = length xs \<Longrightarrow> length xs \<le> v_capacity v \<Longrightarrow> take (length xs) m = map Some xs \<Longrightarrow> vec_holds w v xs"
  by (simp add: vec_holds_def)

lemma vec_holds_cases:
  assumes "vec_holds w v xs"
  obtains (null) "v_data v = VNull" "xs = []" "v_size v = 0" "v_capacity v = 0"
    | (mem) m where "v_data v = VMem m" "length m = v_capacity v" "0 < v_capacity v"
      "v_capacity v * w \<le> PTRDIFF_MAX" "v_size v = length xs" "length xs \<le> v_capacity v"
      "take (length xs) m = map Some xs"
  using assms by (cases "v_data v") (auto simp: vec_holds_def)

lemma vec_holds_size: "vec_holds w v xs \<Longrightarrow> v_size v = length xs"
  by (simp add: vec_holds_def)

lemma vec_holds_le: "vec_holds w v xs \<Longrightarrow> length xs \<le> v_capacity v"
  by (erule vec_holds_cases) auto

lemma vec_capacity_bound:
  assumes "vec_holds w v xs" "0 < w"
  shows "v_capacity v \<le> PTRDIFF_MAX" "usize (v_capacity v * 2) = v_capacity v * 2"
proof -
  have "v_capacity v * w \<le> PTRDIFF_MAX" using assms(1) by (cases rule: vec_holds_cases) auto
  then show b: "v_capacity v \<le> PTRDIFF_MAX" using assms(2) by (cases w) auto
  then show "usize (v_capacity v * 2) = v_capacity v * 2"
    by (intro usize_id) (simp add: PTRDIFF_MAX_def SIZE_MAX_def)
qed

lemma vec_nonempty_mem:
  assumes "vec_holds w v xs" "i < length xs"
  obtains m where "v_data v = VMem m" "length m = v_capacity v" "0 < v_capacity v"
      "v_capacity v * w \<le> PTRDIFF_MAX" "v_size v = length xs" "length xs \<le> v_capacity v"
      "take (length xs) m = map Some xs"
  using assms by (cases rule: vec_holds_cases) auto

lemma vec_get_cell_ok:
  assumes "vec_holds w v xs" "i < length xs"
  shows "vec_get_cell v i = Ret (xs ! i)"
proof -
  obtain m where m: "v_data v = VMem m" "length xs \<le> length m" "take (length xs) m = map Some xs"
    using vec_nonempty_mem [OF assms] by metis
  have "m ! i = take (length xs) m ! i" using assms(2) by simp
  then have "m ! i = Some (xs ! i)" using m(3) assms(2) by simp
  then show ?thesis using m assms(2) by (simp add: vec_get_cell_def)
qed

lemma vec_zero_holds: "vec_holds w vec_zero []"
  by (simp add: vec_holds_def vec_zero_def)

lemma vec_clear_holds: "vec_holds w v xs \<Longrightarrow> vec_holds w (vec_clear v) []"
  by (auto simp: vec_holds_def vec_clear_def split: vblock.splits)

subsection \<open>Capacity\<close>

text \<open>The block a reserve to \<open>n\<close> cells needs.\<close>

definition reserve_cap :: "nat \<Rightarrow> nat" where
  "reserve_cap n = (if n = 0 then UCB_VECTOR_T_DEFAULT_CAPACITY else n)"

lemma vec_realloc_ok:
  assumes "blk \<noteq> VDangling" "0 < n" "0 < w" "granted me (n * w)"
  shows "vec_realloc me w blk n = Ret (Some (case blk of
    VMem m \<Rightarrow> take n m @ replicate (n - length m) None | _ \<Rightarrow> replicate n None))"
proof -
  have "usize (n * w) = n * w"
    using assms(4) by (intro usize_id) (simp add: granted_def PTRDIFF_MAX_def SIZE_MAX_def)
  moreover have "ucb_realloc me p (n * w) = Ret Moved" for p
    using assms by (intro ucb_realloc_ok) auto
  ultimately show ?thesis using assms(1) by (cases blk) (auto simp: vec_realloc_def)
qed

lemma vec_holds_grown:
  assumes "vec_holds w v xs" "v_capacity v \<le> n" "0 < n" "n * w \<le> PTRDIFF_MAX"
  shows "vec_holds w (v\<lparr>v_data := VMem (case v_data v of
    VMem m \<Rightarrow> take n m @ replicate (n - length m) None | _ \<Rightarrow> replicate n None), v_capacity := n\<rparr>) xs"
  using assms(1)
proof (cases rule: vec_holds_cases)
  case null
  then show ?thesis using assms by (simp add: vec_holds_def)
next
  case (mem m)
  then show ?thesis using assms by (simp add: vec_holds_def)
qed

lemma vec_reserve_spec:
  assumes h: "vec_holds w v xs" and w: "0 < w"
    and g: "v_capacity v < reserve_cap n \<Longrightarrow> granted me (reserve_cap n * w)"
  shows "\<exists>v'. vec_reserve me w v n = Ret (True, v') \<and> vec_holds w v' xs
    \<and> v_capacity v' = max (v_capacity v) (reserve_cap n)"
proof (cases "reserve_cap n \<le> v_capacity v")
  case True
  then show ?thesis using h by (auto simp: vec_reserve_def reserve_cap_def Let_def)
next
  case False
  have nd: "v_data v \<noteq> VDangling" using h by (auto simp: vec_holds_def)
  have pos: "0 < reserve_cap n" by (simp add: reserve_cap_def UCB_VECTOR_T_DEFAULT_CAPACITY_def)
  have gr: "granted me (reserve_cap n * w)" using g False by simp
  have "vec_reserve me w v n = Ret (True, v\<lparr>v_data := VMem (case v_data v of
      VMem m \<Rightarrow> take (reserve_cap n) m @ replicate (reserve_cap n - length m) None
      | _ \<Rightarrow> replicate (reserve_cap n) None), v_capacity := reserve_cap n\<rparr>)"
    using vec_realloc_ok [OF nd pos w gr] False
    unfolding vec_reserve_def reserve_cap_def Let_def by simp
  moreover have "vec_holds w (v\<lparr>v_data := VMem (case v_data v of
      VMem m \<Rightarrow> take (reserve_cap n) m @ replicate (reserve_cap n - length m) None
      | _ \<Rightarrow> replicate (reserve_cap n) None), v_capacity := reserve_cap n\<rparr>) xs"
    using vec_holds_grown [OF h _ pos] False gr by (simp add: granted_def)
  ultimately show ?thesis using False by simp
qed

lemma vec_fit_spec:
  assumes h: "vec_holds w v xs" and w: "0 < w" and ne: "xs \<noteq> []" and g: "granted me (length xs * w)"
  shows "\<exists>v'. vec_fit me w v = Ret v' \<and> vec_holds w v' xs \<and> v_capacity v' = length xs"
proof -
  obtain m where m: "v_data v = VMem m" "length m = v_capacity v" "length xs \<le> v_capacity v"
    "take (length xs) m = map Some xs" using vec_nonempty_mem [OF h, of 0] ne by auto
  have pos: "0 < length xs" using ne by simp
  have "vec_realloc me w (v_data v) (length xs) = Ret (Some (take (length xs) m))"
    using vec_realloc_ok [OF _ pos w g, of "v_data v"] m by simp
  moreover have "length xs * w \<le> PTRDIFF_MAX" "0 < v_capacity v"
    using g m(3) pos by (auto simp: granted_def simp del: length_greater_0_conv)
  ultimately show ?thesis using vec_holds_size [OF h] m pos h
    by (auto simp: vec_fit_def vec_holds_def simp del: length_greater_0_conv)
qed

text \<open>Fitting an empty vector releases its block and keeps the capacity.\<close>

lemma fit_empty_dangles:
  assumes "vec_holds w v []" "0 < v_capacity v"
  shows "vec_fit me w v = Ret (v\<lparr>v_data := VDangling\<rparr>)"
proof -
  obtain m where m: "v_data v = VMem m" using assms by (cases rule: vec_holds_cases) auto
  have "ucb_realloc me True (usize (0 * w)) = Ret FailFreed"
    by (simp add: ucb_realloc_def ucb_realloc2_def usize_def)
  then show ?thesis using assms(2) vec_holds_size [OF assms(1)] m
    by (simp add: vec_fit_def vec_realloc_def vec_lost_def)
qed

lemma push_back_after_fit_empty:
  assumes "vec_holds w v []" "0 < v_capacity v"
  shows "rbind (vec_fit me w v) (\<lambda>v. vec_push_back me w v x) = Undef"
  using fit_empty_dangles [OF assms, of me] assms(2) vec_holds_size [OF assms(1)]
  by (simp add: vec_push_back_def vec_set_cell_def)


subsection \<open>Insertion and removal\<close>

lemma take_Some_shift:
  assumes "take n m = map Some xs" "n = length xs" "k \<le> n" "n < length m"
  shows "take (n + 1) ((mem_write (k + 1) (take (n - k) (drop k m)) m)[k := Some x])
    = map Some (take k xs @ x # drop k xs)"
proof -
  have "take k m = take k (take n m)" using assms(3) by (simp add: min_def)
  also have "\<dots> = map Some (take k xs)" unfolding assms(1) by (simp add: take_map)
  finally have "take k m = map Some (take k xs)" .
  moreover have "drop k (take n m) = map Some (drop k xs)" unfolding assms(1) by (simp add: drop_map)
  ultimately show ?thesis using mem_write_shift [OF assms(3,4), of "Some x"] by simp
qed

text \<open>Lines 116--121 of the expansion: the shift, the store and the new size.\<close>

lemma vec_insert_store_spec:
  assumes h: "vec_holds w v xs" and w: "0 < w" and i: "i \<le> length xs" and room: "length xs < v_capacity v"
  shows "\<exists>v'. vec_insert_store v i x = Ret v' \<and> vec_holds w v' (take i xs @ x # drop i xs)
    \<and> v_capacity v' = v_capacity v"
proof -
  let ?n = "length xs"
  obtain m where m: "v_data v = VMem m" "length m = v_capacity v" "v_capacity v * w \<le> PTRDIFF_MAX"
    "v_size v = ?n" "take ?n m = map Some xs"
    using h room by (cases rule: vec_holds_cases) auto
  have nl: "?n < length m" using room m(2) by simp
  define m1 where "m1 = (if i < ?n then mem_write (i + 1) (take (?n - i) (drop i m)) m else m)"
  define m2 where "m2 = m1[i := Some x]"
  have len: "length m1 = length m" "length m2 = length m"
    using length_mem_write_shift [OF i nl] by (simp_all add: m1_def m2_def)
  have m1': "m1[i := Some x] = (mem_write (i + 1) (take (?n - i) (drop i m)) m)[i := Some x]"
    using i by (auto simp: m1_def mem_write_def)
  have t: "take (?n + 1) m2 = map Some (take i xs @ x # drop i xs)"
    unfolding m2_def m1' by (rule take_Some_shift [OF m(5) refl i nl])
  have u: "usize (?n + 1) = ?n + 1"
    using vec_capacity_bound [OF h w] room by (intro usize_id) (simp add: PTRDIFF_MAX_def SIZE_MAX_def)
  have "vec_insert_store v i x = Ret (v\<lparr>v_data := VMem m2, v_size := ?n + 1\<rparr>)"
    using m(1,4) i nl u len
    by (auto simp: vec_insert_store_def vec_move_cells_def vec_set_cell_def m1_def m2_def split: if_splits)
  moreover have "vec_holds w (v\<lparr>v_data := VMem m2, v_size := ?n + 1\<rparr>) (take i xs @ x # drop i xs)"
    using t len m room i by (intro vec_holds_memI [of _ m2]) auto
  ultimately show ?thesis by simp
qed

text \<open>The capacity after an insertion, and the memory it needs.\<close>

definition grow_cap :: "'a ucb_vector \<Rightarrow> nat" where
  "grow_cap v = (if v_size v = v_capacity v then reserve_cap (v_capacity v * 2) else v_capacity v)"

definition vec_memory :: "mem_env \<Rightarrow> nat \<Rightarrow> 'a ucb_vector \<Rightarrow> bool" where
  "vec_memory me w v = (v_size v = v_capacity v \<longrightarrow> granted me (grow_cap v * w))"

lemma vec_make_room_spec:
  assumes h: "vec_holds w v xs" and w: "0 < w" and g: "vec_memory me w v"
  shows "\<exists>v1. vec_make_room me w v = Ret (True, v1) \<and> vec_holds w v1 xs \<and> v_capacity v1 = grow_cap v
    \<and> length xs < v_capacity v1"
proof (cases "v_size v = v_capacity v")
  case True
  have c: "v_capacity v < reserve_cap (v_capacity v * 2)"
    by (auto simp: reserve_cap_def UCB_VECTOR_T_DEFAULT_CAPACITY_def)
  have "granted me (reserve_cap (v_capacity v * 2) * w)"
    using g True by (simp add: vec_memory_def grow_cap_def)
  from vec_reserve_spec [OF h w this] show ?thesis
    using True c vec_capacity_bound(2) [OF h w] vec_holds_size [OF h]
    by (auto simp: vec_make_room_def grow_cap_def max_def)
next
  case False
  then show ?thesis using h vec_holds_size [OF h] vec_holds_le [OF h]
    by (simp add: vec_make_room_def grow_cap_def)
qed

lemma vec_insert_spec:
  assumes h: "vec_holds w v xs" and w: "0 < w" and i: "i \<le> length xs" and g: "vec_memory me w v"
  shows "\<exists>v'. vec_insert me w v i x = Ret v' \<and> vec_holds w v' (take i xs @ x # drop i xs)
    \<and> v_capacity v' = grow_cap v"
proof -
  obtain v1 where v1: "vec_make_room me w v = Ret (True, v1)" "vec_holds w v1 xs"
    "v_capacity v1 = grow_cap v" "length xs < v_capacity v1" using vec_make_room_spec [OF h w g] by blast
  have "vec_insert me w v i x = vec_insert_store v1 i x"
    using i vec_holds_size [OF h] v1(1) by (simp add: vec_insert_def)
  then show ?thesis using vec_insert_store_spec [OF v1(2) w i v1(4), of x] v1(3) by simp
qed

lemma insert_out_of_bounds:
  "vec_holds w v xs \<Longrightarrow> length xs < i \<Longrightarrow> vec_insert me w v i x = Abort UCB_ERROR_INVALID_ARG"
  using vec_holds_size [of w v xs] by (simp add: vec_insert_def)

text \<open>
  When the block cannot grow and an error handler returns, the insertion silently does nothing
  but the old block is gone: the vector keeps its size and every access is undefined.
\<close>

lemma insert_failure_dangles:
  assumes h: "vec_holds w v xs" and w: "0 < w" and i: "i \<le> length xs" and full: "length xs = v_capacity v" "xs \<noteq> []"
    and g: "\<not> granted me (usize (grow_cap v * w))" "fatal_returns me"
  shows "vec_insert me w v i x = Ret (v\<lparr>v_data := VDangling\<rparr>)"
proof -
  obtain m where m: "v_data v = VMem m" "v_size v = length xs"
    using h full by (cases rule: vec_holds_cases) auto
  have "ucb_realloc me True (usize (grow_cap v * w)) = Ret FailFreed"
    using g by (simp add: ucb_realloc_def ucb_realloc2_def ucb_fatal_oom_def)
  moreover have pos: "0 < v_capacity v" using full by (cases xs) auto
  moreover have "grow_cap v = v_capacity v * 2" using pos m(2) full(1) by (simp add: grow_cap_def reserve_cap_def)
  ultimately have "vec_make_room me w v = Ret (False, v\<lparr>v_data := VDangling\<rparr>)"
    using m full(1) vec_capacity_bound(2) [OF h w]
    by (simp add: vec_make_room_def vec_reserve_def vec_realloc_def vec_lost_def)
  then show ?thesis using m i by (simp add: vec_insert_def)
qed

lemma vec_push_back_spec:
  assumes h: "vec_holds w v xs" and w: "0 < w" and g: "vec_memory me w v"
  shows "\<exists>v'. vec_push_back me w v x = Ret v' \<and> vec_holds w v' (xs @ [x]) \<and> v_capacity v' = grow_cap v"
proof (cases "v_size v < v_capacity v")
  case True
  have sz: "v_size v = length xs" using vec_holds_size [OF h] .
  from vec_insert_store_spec [OF h w le_refl, of x] True sz show ?thesis
    by (simp add: vec_push_back_def grow_cap_def vec_insert_store_def)
next
  case False
  then show ?thesis using vec_insert_spec [OF h w le_refl g, of x] vec_holds_size [OF h]
    by (simp add: vec_push_back_def)
qed

lemma vec_push_front_spec:
  assumes h: "vec_holds w v xs" and w: "0 < w" and g: "vec_memory me w v"
  shows "\<exists>v'. vec_push_front me w v x = Ret v' \<and> vec_holds w v' (x # xs) \<and> v_capacity v' = grow_cap v"
proof (cases "v_size v = 0 \<and> v_capacity v > 0")
  case True
  have sz: "v_size v = length xs" using vec_holds_size [OF h] .
  from vec_insert_store_spec [OF h w le0, of x] True sz show ?thesis
    by (simp add: vec_push_front_def grow_cap_def vec_insert_store_def)
next
  case False
  then show ?thesis using vec_insert_spec [OF h w le0 g, of x] by (auto simp: vec_push_front_def)
qed


lemma size_le_SIZE_MAX:
  assumes "vec_holds w v xs" "0 < w"
  shows "length xs \<le> SIZE_MAX"
  using vec_holds_le [OF assms(1)] vec_capacity_bound(1) [OF assms] by (simp add: PTRDIFF_MAX_def SIZE_MAX_def)

text \<open>Cutting the first \<open>n - 1\<close> cells after those behind \<open>i\<close> moved one place down.\<close>

lemma take_Some_cut:
  assumes "take (length xs) m = map Some xs" "i < length xs" "length xs \<le> length m"
  shows "take (length xs - 1) (mem_write i (take (length xs - i - 1) (drop (i + 1) m)) m)
    = map Some (take i xs @ drop (i + 1) xs)"
proof -
  let ?n = "length xs"
  have "take i m = take i (take ?n m)" using assms(2) by (simp add: min_def)
  also have "\<dots> = map Some (take i xs)" unfolding assms(1) by (simp add: take_map)
  finally have a: "take i m = map Some (take i xs)" .
  have "take (?n - i - 1) (drop (i + 1) m) = drop (i + 1) (take ?n m)" by (simp add: drop_take)
  also have "\<dots> = map Some (drop (i + 1) xs)" unfolding assms(1) by (simp add: drop_map)
  finally have b: "take (?n - i - 1) (drop (i + 1) m) = map Some (drop (i + 1) xs)" .
  have "mem_write i (take (?n - i - 1) (drop (i + 1) m)) m
      = (map Some (take i xs) @ map Some (drop (i + 1) xs)) @ drop (?n - 1) m"
    unfolding b using a assms(2) by (simp add: mem_write_def)
  moreover have "length (map Some (take i xs) @ map Some (drop (i + 1) xs)) = ?n - 1" using assms(2) by simp
  ultimately show ?thesis by (metis append_eq_conv_conj map_append)
qed

lemma vec_cut_holds:
  assumes h: "vec_holds w v xs" and i: "i < length xs"
  shows "\<exists>v'. vec_move_cells v i (i + 1) (length xs - i - 1) = Ret v'
    \<and> vec_holds w (v'\<lparr>v_size := length xs - 1\<rparr>) (take i xs @ drop (i + 1) xs)
    \<and> v_capacity v' = v_capacity v \<and> v_size v' = v_size v"
proof -
  obtain m where m: "v_data v = VMem m" "length m = v_capacity v" "0 < v_capacity v"
      "v_capacity v * w \<le> PTRDIFF_MAX" "v_size v = length xs" "length xs \<le> v_capacity v"
      "take (length xs) m = map Some xs" using vec_nonempty_mem [OF h i] .
  let ?m = "mem_write i (take (length xs - i - 1) (drop (i + 1) m)) m"
  have l: "length ?m = length m" using i m(2,6) by (simp add: mem_write_def)
  have t: "take (length xs - 1) ?m = map Some (take i xs @ drop (i + 1) xs)"
    using take_Some_cut [OF m(7) i] m(2,6) by simp
  have "vec_holds w (v\<lparr>v_data := VMem ?m, v_size := length xs - 1\<rparr>) (take i xs @ drop (i + 1) xs)"
    using t l m i by (intro vec_holds_memI [of _ ?m]) auto
  then show ?thesis using m i by (simp add: vec_move_cells_def)
qed

lemma vec_drop_last_holds:
  assumes h: "vec_holds w v xs" and ne: "xs \<noteq> []"
  shows "vec_holds w (v\<lparr>v_size := length xs - 1\<rparr>) (butlast xs)"
proof -
  obtain m where m: "v_data v = VMem m" "length m = v_capacity v" "0 < v_capacity v"
      "v_capacity v * w \<le> PTRDIFF_MAX" "v_size v = length xs" "length xs \<le> v_capacity v"
      "take (length xs) m = map Some xs" using vec_nonempty_mem [OF h, of 0] ne by auto
  have "take (length xs - 1) m = take (length xs - 1) (take (length xs) m)" by (simp add: min_def)
  also have "\<dots> = map Some (butlast xs)" unfolding m(7) by (simp add: take_map butlast_conv_take)
  finally show ?thesis using m by (intro vec_holds_memI [of _ m]) auto
qed

lemma vec_remove_spec:
  assumes h: "vec_holds w v xs" and w: "0 < w" and i: "i < length xs"
  shows "\<exists>v'. vec_remove v i = Ret (xs ! i, v') \<and> vec_holds w v' (take i xs @ drop (i + 1) xs)
    \<and> v_capacity v' = v_capacity v"
proof -
  have sz: "v_size v = length xs" "usub (length xs) 1 = length xs - 1"
    using vec_holds_size [OF h] size_le_SIZE_MAX [OF h w] i by auto
  note g = vec_get_cell_ok [OF h i]
  show ?thesis
  proof (cases "i < length xs - 1")
    case True
    then show ?thesis using vec_cut_holds [OF h i] sz g i by (auto simp: vec_remove_def)
  next
    case False
    then have "i = length xs - 1" using i by simp
    then have "take i xs @ drop (i + 1) xs = butlast xs" by (simp add: butlast_conv_take)
    moreover have "vec_holds w (v\<lparr>v_size := length xs - 1\<rparr>) (butlast xs)"
      using vec_drop_last_holds [OF h] i by (cases xs) simp_all
    ultimately show ?thesis using False sz g i by (auto simp: vec_remove_def)
  qed
qed

lemma vec_pop_back_spec:
  assumes h: "vec_holds w v (xs @ [x])" and w: "0 < w"
  shows "\<exists>v'. vec_pop_back v = Ret (x, v') \<and> vec_holds w v' xs \<and> v_capacity v' = v_capacity v"
proof -
  have sz: "v_size v = Suc (length xs)" "usub (Suc (length xs)) 1 = length xs"
    using vec_holds_size [OF h] size_le_SIZE_MAX [OF h w] by auto
  have "vec_get_cell v (length xs) = Ret x" using vec_get_cell_ok [OF h, of "length xs"] by simp
  then have "vec_get_cell (v\<lparr>v_size := length xs\<rparr>) (length xs) = Ret x"
    by (simp add: vec_get_cell_def)
  then show ?thesis using vec_drop_last_holds [OF h] sz by (simp add: vec_pop_back_def)
qed

lemma vec_pop_front_spec:
  assumes h: "vec_holds w v (x # xs)" and w: "0 < w"
  shows "\<exists>v'. vec_pop_front v = Ret (x, v') \<and> vec_holds w v' xs \<and> v_capacity v' = v_capacity v"
proof -
  have sz: "v_size v = Suc (length xs)" "usub (Suc (length xs)) 1 = length xs"
    using vec_holds_size [OF h] size_le_SIZE_MAX [OF h w] by auto
  have g: "vec_get_cell (v\<lparr>v_size := length xs\<rparr>) 0 = Ret x"
    using vec_get_cell_ok [OF h, of 0] by (simp add: vec_get_cell_def)
  show ?thesis
  proof (cases "xs = []")
    case True
    then show ?thesis using vec_drop_last_holds [OF h] sz g by (simp add: vec_pop_front_def)
  next
    case False
    obtain v' where v': "vec_move_cells v 0 1 (length xs) = Ret v'" "vec_holds w (v'\<lparr>v_size := length xs\<rparr>) xs"
      "v_capacity v' = v_capacity v" using vec_cut_holds [OF h, of 0] by auto
    then have "vec_move_cells (v\<lparr>v_size := length xs\<rparr>) 0 1 (length xs) = Ret (v'\<lparr>v_size := length xs\<rparr>)"
      by (auto simp: vec_move_cells_def split: vblock.splits if_splits)
    then show ?thesis using v' sz g False by (simp add: vec_pop_front_def)
  qed
qed

lemma vec_pop_empty: "vec_holds w v [] \<Longrightarrow> vec_pop_back v = Abort UCB_ERROR_INVALID_ARG"
  "vec_holds w v [] \<Longrightarrow> vec_pop_front v = Abort UCB_ERROR_INVALID_ARG"
  using vec_holds_size [of w v "[]"] by (simp_all add: vec_pop_back_def vec_pop_front_def)

lemma vec_get_spec:
  assumes "vec_holds w v xs"
  shows "vec_get v i = (if i < length xs then Ret (xs ! i) else Abort UCB_ERROR_INVALID_ARG)"
  using vec_holds_size [OF assms] vec_get_cell_ok [OF assms, of i] by (simp add: vec_get_def verify_def)

lemma vec_peek_spec:
  assumes "vec_holds w v xs" "0 < w" "xs \<noteq> []"
  shows "vec_peek_front v = Ret (hd xs)" "vec_peek_back v = Ret (last xs)"
proof -
  have sz: "v_size v = length xs" "usub (length xs) 1 = length xs - 1"
    using vec_holds_size [OF assms(1)] size_le_SIZE_MAX [OF assms(1,2)] assms(3)
    by (auto simp: Suc_le_eq)
  show "vec_peek_front v = Ret (hd xs)" "vec_peek_back v = Ret (last xs)"
    using vec_get_cell_ok [OF assms(1), of 0] vec_get_cell_ok [OF assms(1), of "length xs - 1"] sz assms(3)
    by (simp_all add: vec_peek_front_def vec_peek_back_def hd_conv_nth last_conv_nth)
qed

lemma vec_set_cell_spec:
  assumes h: "vec_holds w v xs" and i: "i < length xs"
  shows "\<exists>v'. vec_set_cell v i x = Ret v' \<and> vec_holds w v' (xs[i := x])"
proof -
  obtain m where m: "v_data v = VMem m" "length m = v_capacity v" "0 < v_capacity v"
      "v_capacity v * w \<le> PTRDIFF_MAX" "v_size v = length xs" "length xs \<le> v_capacity v"
      "take (length xs) m = map Some xs" using vec_nonempty_mem [OF h i] .
  have "vec_holds w (v\<lparr>v_data := VMem (m[i := Some x])\<rparr>) (xs[i := x])"
    using m i by (intro vec_holds_memI [of _ "m[i := Some x]"]) (auto simp: take_update_swap map_update)
  then show ?thesis using m i by (simp add: vec_set_cell_def)
qed

lemma vec_swap_spec:
  assumes h: "vec_holds w v xs" and i: "i < length xs" "j < length xs" "i \<noteq> j"
  shows "\<exists>v'. vec_swap v i j = Ret v' \<and> vec_holds w v' (xs[i := xs ! j, j := xs ! i])"
proof -
  obtain v1 where v1: "vec_set_cell v i (xs ! j) = Ret v1" "vec_holds w v1 (xs[i := xs ! j])"
    using vec_set_cell_spec [OF h i(1)] by blast
  have "j < length (xs[i := xs ! j])" using i by simp
  from vec_set_cell_spec [OF v1(2) this, of "xs ! i"] show ?thesis
    using vec_holds_size [OF h] i v1(1) vec_get_cell_ok [OF h i(1)] vec_get_cell_ok [OF h i(2)]
    by (simp add: vec_swap_def)
qed

lemma vec_copy_spec:
  assumes d: "vec_holds w dst ys" and h: "vec_holds w src xs" and w: "0 < w"
    and g: "granted me (reserve_cap (v_capacity src) * w)"
  shows "\<exists>dst'. vec_copy me w dst src = Ret (True, dst') \<and> vec_holds w dst' xs"
proof -
  obtain d1 where d1: "vec_reserve me w (vec_clear dst) (v_capacity src) = Ret (True, d1)"
    "vec_holds w d1 []" "v_capacity d1 = max (v_capacity (vec_clear dst)) (reserve_cap (v_capacity src))"
    using vec_reserve_spec [OF vec_clear_holds [OF d] w g] by blast
  show ?thesis
  proof (cases "xs = []")
    case True
    then have "d1\<lparr>v_size := v_size src\<rparr> = d1" "v_size src = 0"
      using vec_holds_size [OF h] vec_holds_size [OF d1(2)] by simp_all
    then show ?thesis using True d1 by (auto simp: vec_copy_def Let_def)
  next
    case False
    obtain m where m: "v_data src = VMem m" "length m = v_capacity src" "length xs \<le> v_capacity src"
      "take (length xs) m = map Some xs" "v_size src = length xs"
      using vec_nonempty_mem [OF h, of 0] False by auto
    have c: "v_capacity src \<le> v_capacity d1" "0 < v_capacity d1"
      using d1(3) m(3) False by (auto simp: reserve_cap_def UCB_VECTOR_T_DEFAULT_CAPACITY_def)
    then obtain e where e: "v_data d1 = VMem e" "length e = v_capacity d1" "v_capacity d1 * w \<le> PTRDIFF_MAX"
      using d1(2) by (auto simp: vec_holds_def split: vblock.splits)
    let ?d = "d1\<lparr>v_size := length xs, v_data := VMem (mem_write 0 (map Some xs) e)\<rparr>"
    have "vec_copy me w dst src = Ret (True, ?d)"
      using d1(1) m e c False by (simp add: vec_copy_def Let_def)
    moreover have "vec_holds w ?d xs"
      using m e c by (intro vec_holds_memI [of _ "mem_write 0 (map Some xs) e"]) (auto simp: mem_write_def)
    ultimately show ?thesis by blast
  qed
qed

lemma vec_clone_spec:
  assumes h: "vec_holds w src xs" and w: "0 < w" and g: "granted me (reserve_cap (v_capacity src) * w)"
    "granted me sizeof_vector"
  shows "\<exists>dst. vec_clone me w src = Ret (Some dst) \<and> vec_holds w dst xs"
proof -
  have "ucb_calloc me 1 sizeof_vector = Ret True"
    using g(2) by (simp add: ucb_calloc_Ret_iff sizeof_vector_def)
  then show ?thesis using vec_copy_spec [OF vec_zero_holds h w g(1)] by (auto simp: vec_clone_def)
qed

lemma vec_move_spec:
  "vec_holds w dst ys \<Longrightarrow> vec_holds w src xs \<Longrightarrow>
   vec_move dst src = Ret (src, vec_zero) \<and> vec_holds w vec_zero []"
  using vec_zero_holds by (auto simp: vec_move_def vec_holds_def)


lemma vec_push_succeeds:
  assumes f: "\<not> fatal_returns me" and h: "vec_holds w v xs" and w: "0 < w" "w \<le> 8"
  shows "succeeds (vec_push_back me w v x) (\<lambda>v'. vec_holds w v' (xs @ [x]))"
proof (cases "vec_memory me w v")
  case True
  then show ?thesis using vec_push_back_spec [OF h w(1) True, of x] by auto
next
  case False
  let ?n = "reserve_cap (v_capacity v * 2)"
  have c: "v_size v = v_capacity v" "\<not> granted me (?n * w)" using False by (auto simp: vec_memory_def grow_cap_def)
  have cw: "v_capacity v * w \<le> PTRDIFF_MAX" using h by (cases rule: vec_holds_cases) auto
  have "v_capacity v * 2 * w = 2 * (v_capacity v * w)" by simp
  then have "v_capacity v * 2 * w \<le> 2 * PTRDIFF_MAX" using cw by linarith
  moreover have "8 * w \<le> 2 * PTRDIFF_MAX" using w(2) by (simp add: PTRDIFF_MAX_def)
  ultimately have "?n * w \<le> 2 * PTRDIFF_MAX"
    by (simp add: reserve_cap_def UCB_VECTOR_T_DEFAULT_CAPACITY_def)
  then have u: "usize (?n * w) = ?n * w" by (intro usize_id) (simp add: PTRDIFF_MAX_def SIZE_MAX_def)
  have n: "0 < ?n * w" "\<not> ?n \<le> v_capacity v"
    using w(1) by (auto simp: reserve_cap_def UCB_VECTOR_T_DEFAULT_CAPACITY_def)
  have ra: "ucb_realloc me b (?n * w) = Abort UCB_ERROR_OUT_OF_MEMORY" for b
    using c(2) n(1) f by (simp add: ucb_realloc_def ucb_realloc2_def ucb_fatal_oom_def)
  have "v_data v \<noteq> VDangling" using h by (auto simp: vec_holds_def)
  then have "vec_realloc me w (v_data v) ?n = Abort UCB_ERROR_OUT_OF_MEMORY"
    by (cases "v_data v") (simp_all add: vec_realloc_def u ra)
  then have "vec_reserve me w v (v_capacity v * 2) = Abort UCB_ERROR_OUT_OF_MEMORY"
    using n(2) unfolding vec_reserve_def Let_def reserve_cap_def by simp
  then have "vec_push_back me w v x = Abort UCB_ERROR_OUT_OF_MEMORY"
    using c(1) vec_capacity_bound(2) [OF h w(1)] by (simp add: vec_push_back_def vec_insert_def vec_make_room_def)
  then show ?thesis by simp
qed

lemma vec_new_succeeds: "\<not> fatal_returns me \<Longrightarrow> succeeds (vec_new me) (\<lambda>r. \<exists>v. r = Some v \<and> vec_holds w v [])"
  by (simp add: vec_new_def ucb_calloc_def ucb_fatal_oom_def sizeof_vector_def vec_zero_holds)

subsection \<open>Iteration\<close>

text \<open>The reference: fold the callback over the list until it asks to stop.\<close>

fun foreach_spec :: "('a \<Rightarrow> nat \<Rightarrow> 's \<Rightarrow> bool \<times> 's) \<Rightarrow> nat \<Rightarrow> 'a list \<Rightarrow> 's \<Rightarrow> nat \<times> 's" where
  "foreach_spec f i [] s = (i, s)"
| "foreach_spec f i (x # xs) s = (case f x i s of (go, s) \<Rightarrow> if go then foreach_spec f (i + 1) xs s else (i, s))"

lemma vec_foreach_loop_spec:
  assumes h: "vec_holds w v xs"
  shows "i \<le> length xs \<Longrightarrow> vec_foreach_loop v f i s = Ret (foreach_spec f i (drop i xs) s)"
proof (induction "length xs - i" arbitrary: i s)
  case 0
  then show ?case using vec_holds_size [OF h] by (subst vec_foreach_loop.simps) simp
next
  case (Suc k)
  then have i: "i < length xs" by simp
  have d: "drop i xs = xs ! i # drop (Suc i) xs" using i by (simp add: Cons_nth_drop_Suc)
  show ?case
    using Suc i d vec_get_cell_ok [OF h i] vec_holds_size [OF h]
    by (subst vec_foreach_loop.simps) (auto split: prod.splits)
qed

section \<open>Ordered vectors\<close>

text \<open>
  What searching relies on: on the elements that satisfy \<open>P\<close>, the comparison is defined and
  orders them by \<open>key\<close>.
\<close>

locale vec_order =
  fixes cmp :: "'a cmp" and key :: "'a \<Rightarrow> 'k::linorder" and P :: "'a \<Rightarrow> bool"
  assumes cmp_law: "P a \<Longrightarrow> P b \<Longrightarrow>
    \<exists>c. cmp a b = Ret c \<and> (c < 0 \<longleftrightarrow> key a < key b) \<and> (c = 0 \<longleftrightarrow> key a = key b)"
begin

lemma cmp_cases:
  assumes "P a" "P b"
  obtains (lt) c where "cmp a b = Ret c" "c < 0" "key a < key b"
    | (eq) "cmp a b = Ret 0" "key a = key b"
    | (gt) c where "cmp a b = Ret c" "0 < c" "key b < key a"
proof -
  obtain c where c: "cmp a b = Ret c" "c < 0 \<longleftrightarrow> key a < key b" "c = 0 \<longleftrightarrow> key a = key b"
    using cmp_law [OF assms] by blast
  consider "c < 0" | "c = 0" | "0 < c" by linarith
  then show thesis using that c by cases (auto simp: not_less_iff_gr_or_eq)
qed

text \<open>The rightmost element with the key, or the insertion point as \<open>- (k + 1)\<close>.\<close>

definition find_result :: "'a list \<Rightarrow> 'a \<Rightarrow> int \<Rightarrow> bool" where
  "find_result xs val r =
     (if r \<ge> 0 then nat r < length xs \<and> key (xs ! nat r) = key val
        \<and> (\<forall>i < length xs. nat r < i \<longrightarrow> key val < key (xs ! i))
      else nat (- r - 1) \<le> length xs
        \<and> (\<forall>i < nat (- r - 1). key (xs ! i) < key val)
        \<and> (\<forall>i < length xs. nat (- r - 1) \<le> i \<longrightarrow> key val < key (xs ! i)))"

lemma sorted_key_nth:
  "sorted (map key xs) \<Longrightarrow> i \<le> j \<Longrightarrow> j < length xs \<Longrightarrow> key (xs ! i) \<le> key (xs ! j)"
  using sorted_nth_mono [of "map key xs" i j] by simp

lemma find_right_result:
  assumes h: "vec_holds w v xs" and P: "\<forall>x \<in> set xs. P x" "P val" and s: "sorted (map key xs)"
  shows "0 \<le> mid \<Longrightarrow> mid \<le> high \<Longrightarrow> high < int (length xs) \<Longrightarrow> key (xs ! nat mid) = key val
    \<Longrightarrow> (\<forall>i < length xs. high < int i \<longrightarrow> key val < key (xs ! i))
    \<Longrightarrow> \<exists>r. find_right v cmp val mid high = Ret r \<and> 0 \<le> r \<and> find_result xs val r"
proof (induction "nat (high - mid)" arbitrary: mid rule: less_induct)
  case less
  show ?case
  proof (cases "mid < high")
    case False
    then have e: "find_right v cmp val mid high = Ret mid" by (subst find_right.simps) simp
    moreover have "mid = high" using less.prems(2) False by simp
    ultimately show ?thesis using less.prems by (auto simp: find_result_def)
  next
    case True
    define k where "k = nat (mid + 1)"
    have k: "k < length xs" "mid + 1 = int k" using True less.prems by (auto simp: k_def)
    have Pk: "P (xs ! k)" using P(1) k(1) by simp
    have g: "vec_get_cell v k = Ret (xs ! k)" using vec_get_cell_ok [OF h k(1)] .
    have ge: "key val \<le> key (xs ! k)"
      using sorted_key_nth [OF s, of "nat mid" k] less.prems(1,4) k by simp
    show ?thesis
    proof (cases rule: cmp_cases [OF P(2) Pk, case_names lt eq gt])
      case (lt c)
      have "find_right v cmp val mid high = Ret mid"
        using True g lt(1,2) by (subst find_right.simps) (simp add: k_def [symmetric])
      moreover have "key val < key (xs ! i)" if "i < length xs" "nat mid < i" for i
        using sorted_key_nth [OF s, of k i] that k lt(3) by (simp add: order.strict_trans2)
      ultimately show ?thesis using less.prems by (auto simp: find_result_def)
    next
      case eq
      have "find_right v cmp val mid high = find_right v cmp val (mid + 1) high"
        using True g eq(1) by (subst find_right.simps) (simp add: k_def [symmetric])
      moreover have "\<exists>r. find_right v cmp val (mid + 1) high = Ret r \<and> 0 \<le> r \<and> find_result xs val r"
        by (rule less.hyps) (use True less.prems k eq(2) in auto)
      ultimately show ?thesis by simp
    next
      case (gt c)
      then show ?thesis using ge by simp
    qed
  qed
qed

lemma find_search_result:
  assumes h: "vec_holds w v xs" and P: "\<forall>x \<in> set xs. P x" "P val" and s: "sorted (map key xs)"
  shows "0 \<le> low \<Longrightarrow> low \<le> high + 1 \<Longrightarrow> high < int (length xs)
    \<Longrightarrow> (\<forall>i < length xs. int i < low \<longrightarrow> key (xs ! i) < key val)
    \<Longrightarrow> (\<forall>i < length xs. high < int i \<longrightarrow> key val < key (xs ! i))
    \<Longrightarrow> \<exists>r. find_search v cmp val low high = Ret r \<and> find_result xs val r"
proof (induction "nat (high + 1 - low)" arbitrary: low high rule: less_induct)
  case less
  show ?case
  proof (cases "low \<le> high")
    case False
    then have "find_search v cmp val low high = Ret (- (low + 1))" by (subst find_search.simps) simp
    moreover have "low = high + 1" using False less.prems(2) by simp
    ultimately show ?thesis using less.prems by (auto simp: find_result_def)
  next
    case True
    define mid where "mid = low + (high - low) div 2"
    define k where "k = nat mid"
    have m: "low \<le> mid" "mid \<le> high" using True by (auto simp: mid_def)
    have k: "k < length xs" "mid = int k" using m less.prems(1,3) by (auto simp: k_def)
    have Pk: "P (xs ! k)" using P(1) k(1) by simp
    have g: "vec_get_cell v k = Ret (xs ! k)" using vec_get_cell_ok [OF h k(1)] .
    have step: "find_search v cmp val low high = rbind (cmp val (xs ! k)) (\<lambda>c.
        if c = 0 then find_right v cmp val mid high
        else if c < 0 then find_search v cmp val low (mid - 1)
        else find_search v cmp val (mid + 1) high)"
      using True g by (subst find_search.simps) (simp add: Let_def k_def flip: mid_def)
    show ?thesis
    proof (cases rule: cmp_cases [OF P(2) Pk, case_names lt eq gt])
      case (lt c)
      have "\<exists>r. find_search v cmp val low (mid - 1) = Ret r \<and> find_result xs val r"
      proof (rule less.hyps)
        show "\<forall>i<length xs. mid - 1 < int i \<longrightarrow> key val < key (xs ! i)"
        proof (intro allI impI)
          fix i assume i: "i < length xs" "mid - 1 < int i"
          then have "key (xs ! k) \<le> key (xs ! i)" using k by (intro sorted_key_nth [OF s]) auto
          then show "key val < key (xs ! i)" using lt(3) by (rule less_le_trans [rotated])
        qed
      qed (use m less.prems in auto)
      then show ?thesis using step lt by simp
    next
      case eq
      then show ?thesis using step find_right_result [OF h P s, of mid high] m less.prems k by auto
    next
      case (gt c)
      have "\<exists>r. find_search v cmp val (mid + 1) high = Ret r \<and> find_result xs val r"
      proof (rule less.hyps)
        show "\<forall>i<length xs. int i < mid + 1 \<longrightarrow> key (xs ! i) < key val"
        proof (intro allI impI)
          fix i assume i: "i < length xs" "int i < mid + 1"
          then have "key (xs ! i) \<le> key (xs ! k)" using k by (intro sorted_key_nth [OF s]) auto
          then show "key (xs ! i) < key val" using gt(3) by (rule le_less_trans)
        qed
      qed (use m less.prems in auto)
      then show ?thesis using step gt by simp
    qed
  qed
qed

lemma find_with_result:
  assumes "vec_holds w v xs" "\<forall>x \<in> set xs. P x" "P val" "sorted (map key xs)"
  shows "\<exists>r. vec_find_with v val cmp = Ret r \<and> find_result xs val r"
  unfolding vec_find_with_def vec_holds_size [OF assms(1)]
  by (rule find_search_result [OF assms]) auto

lemma find_with_value:
  assumes h: "vec_holds w v xs" and P: "\<forall>x \<in> set xs. P x" "P val" and s: "sorted (map key xs)"
  shows "vec_find_with v val cmp = Ret (if key val \<in> key ` set xs
    then int (length (takeWhile (\<lambda>x. key x \<le> key val) xs)) - 1
    else - int (length (takeWhile (\<lambda>x. key x \<le> key val) xs)) - 1)"
proof -
  obtain r where r: "vec_find_with v val cmp = Ret r" "find_result xs val r"
    using find_with_result [OF h P s] by blast
  show ?thesis
  proof (cases "r \<ge> 0")
    case True
    define n where "n = nat r"
    have n: "n < length xs" "key (xs ! n) = key val" "\<forall>i < length xs. n < i \<longrightarrow> key val < key (xs ! i)" "r = int n"
      using True r(2) by (auto simp: n_def find_result_def)
    have "takeWhile (\<lambda>x. key x \<le> key val) xs = take (n + 1) xs"
    proof (rule takeWhile_eq_take_P_nth)
      fix i assume "i < n + 1" "i < length xs"
      then show "key (xs ! i) \<le> key val" using sorted_key_nth [OF s, of i n] n(1,2) by simp
    qed (use n(3) in \<open>auto simp: not_le\<close>)
    moreover have "key val \<in> key ` set xs" using n(1,2) by (metis image_eqI nth_mem)
    ultimately show ?thesis using r(1) n(1,4) by simp
  next
    case False
    define n where "n = nat (- r - 1)"
    have n: "n \<le> length xs" "\<forall>i < n. key (xs ! i) < key val"
      "\<forall>i < length xs. n \<le> i \<longrightarrow> key val < key (xs ! i)" "r = - int n - 1"
      using False r(2) by (auto simp: n_def find_result_def)
    have "takeWhile (\<lambda>x. key x \<le> key val) xs = take n xs"
      by (rule takeWhile_eq_take_P_nth) (use n(2,3) in \<open>auto simp: not_le less_imp_le\<close>)
    moreover have "key (xs ! i) \<noteq> key val" if "i < length xs" for i
      using n(2,3) that by (cases "i < n") auto
    then have "key val \<notin> key ` set xs" by (metis imageE in_set_conv_nth)
    ultimately show ?thesis using r(1) n(1,4) by simp
  qed
qed

text \<open>The insertion is behind every element with the same key.\<close>

lemma vec_insert_sorted_spec:
  assumes h: "vec_holds w v xs" and w: "0 < w" and g: "vec_memory me w v"
    and P: "\<forall>x \<in> set xs. P x" "P val" and s: "sorted (map key xs)"
  shows "\<exists>v'. vec_insert_sorted_with me w v val cmp = Ret (length (takeWhile (\<lambda>x. key x \<le> key val) xs), v')
    \<and> vec_holds w v' (takeWhile (\<lambda>x. key x \<le> key val) xs @ val # dropWhile (\<lambda>x. key x \<le> key val) xs)
    \<and> sorted (map key (takeWhile (\<lambda>x. key x \<le> key val) xs @ val # dropWhile (\<lambda>x. key x \<le> key val) xs))"
proof -
  obtain r where r: "vec_find_with v val cmp = Ret r" "find_result xs val r"
    using find_with_result [OF h P s] by blast
  define k where "k = (if r \<ge> 0 then nat (r + 1) else nat (- r - 1))"
  have k: "k \<le> length xs" "\<forall>i < k. key (xs ! i) \<le> key val" "\<forall>i < length xs. k \<le> i \<longrightarrow> key val < key (xs ! i)"
  proof -
    show "k \<le> length xs" using r(2) by (auto simp: k_def find_result_def split: if_splits)
    show "\<forall>i < k. key (xs ! i) \<le> key val"
    proof (cases "r \<ge> 0")
      case True
      then have "key (xs ! i) \<le> key (xs ! nat r)" if "i < k" for i
        using that r(2) by (intro sorted_key_nth [OF s]) (auto simp: k_def find_result_def)
      then show ?thesis using True r(2) by (auto simp: find_result_def)
    next
      case False
      then show ?thesis using r(2) by (auto simp: k_def find_result_def less_imp_le)
    qed
    show "\<forall>i < length xs. k \<le> i \<longrightarrow> key val < key (xs ! i)"
      using r(2) by (auto simp: k_def find_result_def split: if_splits)
  qed
  have A: "\<forall>x \<in> set (take k xs). key x \<le> key val" using k(1,2) by (simp add: all_set_conv_all_nth)
  have B: "\<forall>x \<in> set (drop k xs). key val < key x" using k(1,3) by (simp add: all_set_conv_all_nth)
  have "takeWhile (\<lambda>x. key x \<le> key val) (take k xs @ drop k xs) = take k xs @ takeWhile (\<lambda>x. key x \<le> key val) (drop k xs)"
    using A by (intro takeWhile_append2) auto
  moreover have "takeWhile (\<lambda>x. key x \<le> key val) (drop k xs) = []"
    using B by (cases "drop k xs") auto
  ultimately have tw: "takeWhile (\<lambda>x. key x \<le> key val) xs = take k xs" by simp
  then have dw: "dropWhile (\<lambda>x. key x \<le> key val) xs = drop k xs"
    using k(1) by (metis append_take_drop_id same_append_eq takeWhile_dropWhile_id)
  have "sorted (map key (take k xs) @ map key (drop k xs))" using s by (simp flip: map_append)
  then have "sorted (map key (take k xs @ val # drop k xs))"
    using A B by (auto simp: sorted_append less_imp_le)
  moreover obtain v' where "vec_insert me w v k val = Ret v'" "vec_holds w v' (take k xs @ val # drop k xs)"
    using vec_insert_spec [OF h w k(1) g] by blast
  ultimately show ?thesis unfolding tw dw using r(1) k(1)
    by (auto simp: vec_insert_sorted_with_def k_def Let_def split: if_splits)
qed

end


subsection \<open>The comparisons of \<^verbatim>\<open>common.h\<close>\<close>

text \<open>The \<^verbatim>\<open>int\<close> comparison subtracts; signed overflow is undefined.\<close>

definition ucb_comp_func_int :: "int cmp" where
  "ucb_comp_func_int a b = (if - (2 ^ 31) \<le> a - b \<and> a - b < 2 ^ 31 then Ret (a - b) else Undef)"

definition ucb_comp_func_ptr :: "nat cmp" where
  "ucb_comp_func_ptr ua ub = Ret (if ua > ub then 1 else if ua < ub then - 1 else 0)"

text \<open>No difference of two values overflows when they lie in the middle half of the type.\<close>

definition int_half :: "int \<Rightarrow> bool" where
  "int_half x = (- (2 ^ 30) \<le> x \<and> x < 2 ^ 30)"

interpretation int_order: vec_order ucb_comp_func_int "\<lambda>x. x" int_half
  by unfold_locales (auto simp: ucb_comp_func_int_def int_half_def)

interpretation ptr_order: vec_order ucb_comp_func_ptr "\<lambda>x. x" "\<lambda>_. True"
  by unfold_locales (auto simp: ucb_comp_func_ptr_def)

section \<open>The expansion for int\<close>

definition sizeof_int :: nat where
  "sizeof_int = 4"

type_synonym ucb_vector_int = "int ucb_vector"

definition ucb_vector_int_new :: "mem_env \<Rightarrow> ucb_vector_int option result" where
  "ucb_vector_int_new = vec_new"

definition ucb_vector_int_free :: "ucb_vector_int option \<Rightarrow> unit result" where
  "ucb_vector_int_free = vec_free"

definition ucb_vector_int_copy :: "mem_env \<Rightarrow> ucb_vector_int \<Rightarrow> ucb_vector_int \<Rightarrow> (bool \<times> ucb_vector_int) result" where
  "ucb_vector_int_copy me dst src = vec_copy me sizeof_int dst src"

definition ucb_vector_int_clone :: "mem_env \<Rightarrow> ucb_vector_int \<Rightarrow> ucb_vector_int option result" where
  "ucb_vector_int_clone me src = vec_clone me sizeof_int src"

definition ucb_vector_int_move :: "ucb_vector_int \<Rightarrow> ucb_vector_int \<Rightarrow> (ucb_vector_int \<times> ucb_vector_int) result" where
  "ucb_vector_int_move dst src = vec_move dst src"

definition ucb_vector_int_reserve :: "mem_env \<Rightarrow> ucb_vector_int \<Rightarrow> nat \<Rightarrow> (bool \<times> ucb_vector_int) result" where
  "ucb_vector_int_reserve me vec new_capacity = vec_reserve me sizeof_int vec new_capacity"

definition ucb_vector_int_fit :: "mem_env \<Rightarrow> ucb_vector_int \<Rightarrow> ucb_vector_int result" where
  "ucb_vector_int_fit me vec = vec_fit me sizeof_int vec"

definition ucb_vector_int_insert :: "mem_env \<Rightarrow> ucb_vector_int \<Rightarrow> nat \<Rightarrow> int \<Rightarrow> ucb_vector_int result" where
  "ucb_vector_int_insert me vec index data = vec_insert me sizeof_int vec index data"

definition ucb_vector_int_remove :: "ucb_vector_int \<Rightarrow> nat \<Rightarrow> (int \<times> ucb_vector_int) result" where
  "ucb_vector_int_remove vec index = vec_remove vec index"

definition ucb_vector_int_push_back :: "mem_env \<Rightarrow> ucb_vector_int \<Rightarrow> int \<Rightarrow> ucb_vector_int result" where
  "ucb_vector_int_push_back me vec data = vec_push_back me sizeof_int vec data"

definition ucb_vector_int_push_front :: "mem_env \<Rightarrow> ucb_vector_int \<Rightarrow> int \<Rightarrow> ucb_vector_int result" where
  "ucb_vector_int_push_front me vec data = vec_push_front me sizeof_int vec data"

definition ucb_vector_int_pop_back :: "ucb_vector_int \<Rightarrow> (int \<times> ucb_vector_int) result" where
  "ucb_vector_int_pop_back vec = vec_pop_back vec"

definition ucb_vector_int_pop_front :: "ucb_vector_int \<Rightarrow> (int \<times> ucb_vector_int) result" where
  "ucb_vector_int_pop_front vec = vec_pop_front vec"

definition ucb_vector_int_foreach :: "ucb_vector_int \<Rightarrow> (int \<Rightarrow> nat \<Rightarrow> 's \<Rightarrow> bool \<times> 's) \<Rightarrow> 's \<Rightarrow> (nat \<times> 's) result" where
  "ucb_vector_int_foreach vec func s = vec_foreach vec func s"

definition ucb_vector_int_sort_with :: "(int cmp \<Rightarrow> int list \<Rightarrow> int list result) \<Rightarrow> ucb_vector_int \<Rightarrow> int cmp \<Rightarrow> ucb_vector_int result" where
  "ucb_vector_int_sort_with qs vec func = vec_sort_with qs vec func"

definition ucb_vector_int_sort :: "(int cmp \<Rightarrow> int list \<Rightarrow> int list result) \<Rightarrow> ucb_vector_int \<Rightarrow> ucb_vector_int result" where
  "ucb_vector_int_sort qs vec = ucb_vector_int_sort_with qs vec ucb_comp_func_int"

definition ucb_vector_int_find_with :: "ucb_vector_int \<Rightarrow> int \<Rightarrow> int cmp \<Rightarrow> int result" where
  "ucb_vector_int_find_with vec val func = vec_find_with vec val func"

definition ucb_vector_int_find :: "ucb_vector_int \<Rightarrow> int \<Rightarrow> int result" where
  "ucb_vector_int_find vec val = ucb_vector_int_find_with vec val ucb_comp_func_int"

definition ucb_vector_int_insert_sorted_with ::
  "mem_env \<Rightarrow> ucb_vector_int \<Rightarrow> int \<Rightarrow> int cmp \<Rightarrow> (nat \<times> ucb_vector_int) result" where
  "ucb_vector_int_insert_sorted_with me vec val func = vec_insert_sorted_with me sizeof_int vec val func"

definition ucb_vector_int_insert_sorted :: "mem_env \<Rightarrow> ucb_vector_int \<Rightarrow> int \<Rightarrow> (nat \<times> ucb_vector_int) result" where
  "ucb_vector_int_insert_sorted me vec val = ucb_vector_int_insert_sorted_with me vec val ucb_comp_func_int"

section \<open>Sequences\<close>

text \<open>What a client relies on that uses a vector as a queue or a stack of at most \<open>bound\<close> elements.\<close>

locale sequence_ops =
  fixes holds :: "'s \<Rightarrow> 'a list \<Rightarrow> bool"
    and push_back :: "'s \<Rightarrow> 'a \<Rightarrow> 's result"
    and pop_front :: "'s \<Rightarrow> ('a \<times> 's) result"
    and pop_back :: "'s \<Rightarrow> ('a \<times> 's) result"
    and bound :: nat
  assumes push_back_law: "holds s xs \<Longrightarrow> length xs < bound \<Longrightarrow> \<exists>s'. push_back s x = Ret s' \<and> holds s' (xs @ [x])"
    and pop_front_law: "holds s (x # xs) \<Longrightarrow> \<exists>s'. pop_front s = Ret (x, s') \<and> holds s' xs"
    and pop_back_law: "holds s (xs @ [x]) \<Longrightarrow> \<exists>s'. pop_back s = Ret (x, s') \<and> holds s' xs"

fun push_list :: "('s \<Rightarrow> 'a \<Rightarrow> 's result) \<Rightarrow> 's \<Rightarrow> 'a list \<Rightarrow> 's result" where
  "push_list push s [] = Ret s"
| "push_list push s (x # xs) = rbind (push s x) (\<lambda>s. push_list push s xs)"

fun pop_list :: "('s \<Rightarrow> ('a \<times> 's) result) \<Rightarrow> 's \<Rightarrow> nat \<Rightarrow> ('a list \<times> 's) result" where
  "pop_list pop s 0 = Ret ([], s)"
| "pop_list pop s (Suc n) = rbind (pop s) (\<lambda>(x, s). rbind (pop_list pop s n) (\<lambda>(xs, s). Ret (x # xs, s)))"

context sequence_ops begin

lemma push_list_holds:
  "holds s ys \<Longrightarrow> length ys + length xs \<le> bound \<Longrightarrow> \<exists>s'. push_list push_back s xs = Ret s' \<and> holds s' (ys @ xs)"
proof (induction xs arbitrary: s ys)
  case (Cons x xs)
  obtain s1 where "push_back s x = Ret s1" "holds s1 (ys @ [x])"
    using push_back_law [OF Cons.prems(1)] Cons.prems(2) by fastforce
  then show ?case using Cons.IH [of s1 "ys @ [x]"] Cons.prems(2) by simp
qed simp

lemma pop_front_list: "holds s xs \<Longrightarrow> \<exists>s'. pop_list pop_front s (length xs) = Ret (xs, s') \<and> holds s' []"
proof (induction xs arbitrary: s)
  case (Cons x xs)
  obtain s1 where "pop_front s = Ret (x, s1)" "holds s1 xs" using pop_front_law [OF Cons.prems] by blast
  then show ?case using Cons.IH [of s1] by auto
qed simp

lemma pop_back_list: "holds s xs \<Longrightarrow> \<exists>s'. pop_list pop_back s (length xs) = Ret (rev xs, s') \<and> holds s' []"
proof (induction xs arbitrary: s rule: rev_induct)
  case (snoc x xs)
  obtain s1 where "pop_back s = Ret (x, s1)" "holds s1 xs" using pop_back_law [OF snoc.prems] by blast
  then show ?case using snoc.IH [of s1] by auto
qed simp

lemma fifo_lifo:
  assumes "holds s []" "length xs \<le> bound"
  shows "\<exists>s1. push_list push_back s xs = Ret s1
    \<and> (\<exists>s2. pop_list pop_front s1 (length xs) = Ret (xs, s2) \<and> holds s2 [])
    \<and> (\<exists>s2. pop_list pop_back s1 (length xs) = Ret (rev xs, s2) \<and> holds s2 [])"
  using push_list_holds [OF assms(1), of xs] assms(2) pop_front_list pop_back_list by fastforce

end

text \<open>The \<^verbatim>\<open>int\<close> vector provides the contract in an environment that grants up to \<open>2 ^ 40\<close> bytes.\<close>

type_synonym vec_world = "mem_env \<times> ucb_vector_int"

definition vec_world_holds :: "vec_world \<Rightarrow> int list \<Rightarrow> bool" where
  "vec_world_holds = (\<lambda>(me, v) xs. grants_upto me (2 ^ 40) \<and> vec_holds sizeof_int v xs \<and> v_capacity v \<le> 2 ^ 33)"

definition vec_world_push :: "vec_world \<Rightarrow> int \<Rightarrow> vec_world result" where
  "vec_world_push = (\<lambda>(me, v) x. rbind (ucb_vector_int_push_back me v x) (\<lambda>v. Ret (me, v)))"

definition vec_world_pop_front :: "vec_world \<Rightarrow> (int \<times> vec_world) result" where
  "vec_world_pop_front = (\<lambda>(me, v). rbind (ucb_vector_int_pop_front v) (\<lambda>(x, v). Ret (x, me, v)))"

definition vec_world_pop_back :: "vec_world \<Rightarrow> (int \<times> vec_world) result" where
  "vec_world_pop_back = (\<lambda>(me, v). rbind (ucb_vector_int_pop_back v) (\<lambda>(x, v). Ret (x, me, v)))"

interpretation int_seq: sequence_ops vec_world_holds vec_world_push vec_world_pop_front vec_world_pop_back "2 ^ 32"
proof (unfold_locales, goal_cases)
  case (1 s xs x)
  obtain me v where s: "s = (me, v)" by (cases s)
  have h: "vec_holds sizeof_int v xs" "grants_upto me (2 ^ 40)" "v_capacity v \<le> 2 ^ 33"
    using 1(1) by (auto simp: s vec_world_holds_def)
  have w: "0 < sizeof_int" by (simp add: sizeof_int_def)
  have c: "grow_cap v \<le> 2 ^ 33"
    using h(3) 1(2) vec_holds_size [OF h(1)]
    by (auto simp: grow_cap_def reserve_cap_def UCB_VECTOR_T_DEFAULT_CAPACITY_def)
  have "vec_memory me sizeof_int v"
    unfolding vec_memory_def using c by (auto intro!: granted_upto [OF h(2)] simp: sizeof_int_def)
  from vec_push_back_spec [OF h(1) w this, of x] show ?case
    using h(2) c by (auto simp: s vec_world_push_def vec_world_holds_def ucb_vector_int_push_back_def)
next
  case (2 s x xs)
  then show ?case using vec_pop_front_spec [of sizeof_int "snd s" x xs]
    by (cases s) (auto simp: vec_world_holds_def vec_world_pop_front_def ucb_vector_int_pop_front_def sizeof_int_def)
next
  case (3 s xs x)
  then show ?case using vec_pop_back_spec [of sizeof_int "snd s" xs x]
    by (cases s) (auto simp: vec_world_holds_def vec_world_pop_back_def ucb_vector_int_pop_back_def sizeof_int_def)
qed


section \<open>Properties\<close>

definition demo_vec :: ucb_vector_int where
  "demo_vec = \<lparr>v_data = VMem [Some 3, Some 7, Some 7, None], v_size = 3, v_capacity = 4\<rparr>"

definition full_vec :: ucb_vector_int where
  "full_vec = \<lparr>v_data = VMem [Some 3, Some 7], v_size = 2, v_capacity = 2\<rparr>"

lemma demo_vec_holds: "vec_holds sizeof_int demo_vec [3, 7, 7]" "vec_holds sizeof_int full_vec [3, 7]"
  "0 < sizeof_int" "vec_memory me_ok sizeof_int demo_vec" "vec_memory me_ok sizeof_int full_vec"
  by (simp_all add: vec_holds_def demo_vec_def full_vec_def sizeof_int_def PTRDIFF_MAX_def vec_memory_def
      grow_cap_def reserve_cap_def)

text \<open>
  C17: for every element type of size \<open>w\<close>: inserting at an index up to the size returns when
  the block can grow if it is full; the element is at the index, everything else keeps its
  order, and the capacity is unchanged, doubled, or 8 for the first element.
\<close>

theorem vec_insert_effect:
  assumes "vec_holds w v xs" "0 < w" "i \<le> length xs" "vec_memory me w v"
  shows "\<exists>v'. vec_insert me w v i x = Ret v' \<and> vec_holds w v' (take i xs @ x # drop i xs)
    \<and> v_capacity v' = (if length xs < v_capacity v then v_capacity v
        else if v_capacity v = 0 then 8 else 2 * v_capacity v)"
proof -
  have "grow_cap v = (if length xs < v_capacity v then v_capacity v
        else if v_capacity v = 0 then 8 else 2 * v_capacity v)"
    using vec_holds_size [OF assms(1)] vec_holds_le [OF assms(1)]
    by (auto simp: grow_cap_def reserve_cap_def UCB_VECTOR_T_DEFAULT_CAPACITY_def)
  then show ?thesis using vec_insert_spec [OF assms] by simp
qed

theorem vec_insert_effect_witness:
  "\<exists>v'. vec_insert me_ok sizeof_int full_vec 1 5 = Ret v' \<and> vec_holds sizeof_int v' [3, 5, 7] \<and> v_capacity v' = 4"
  using vec_insert_effect [OF demo_vec_holds(2,3) _ demo_vec_holds(5), of 1 5] by (simp add: full_vec_def)

text \<open>
  Removing at an index below the size returns that element, closes the gap, and keeps the
  order of the others and the capacity.
\<close>

theorem vec_remove_effect:
  assumes "vec_holds w v xs" "0 < w" "i < length xs"
  shows "\<exists>v'. vec_remove v i = Ret (xs ! i, v') \<and> vec_holds w v' (take i xs @ drop (i + 1) xs)
    \<and> v_capacity v' = v_capacity v"
  by (rule vec_remove_spec [OF assms])

theorem vec_remove_effect_witness:
  "\<exists>v'. vec_remove demo_vec 0 = Ret (3, v') \<and> vec_holds sizeof_int v' [7, 7]"
  using vec_remove_effect [OF demo_vec_holds(1,3), of 0] by auto

text \<open>
  C18: inserting into a sorted \<^verbatim>\<open>int\<close> vector keeps it sorted, puts the value behind every equal
  one and returns its index, provided no two values differ by \<open>2 ^ 31\<close> or more, which is
  guaranteed here by the range of the values.
\<close>

theorem ucb_vector_int_insert_sorted_sorted:
  assumes "vec_holds sizeof_int v xs" "vec_memory me sizeof_int v"
    "\<forall>x \<in> set xs. - (2 ^ 30) \<le> x \<and> x < 2 ^ 30" "- (2 ^ 30) \<le> val \<and> val < 2 ^ 30" "sorted xs"
  shows "\<exists>v'. ucb_vector_int_insert_sorted me v val = Ret (length (takeWhile (\<lambda>x. x \<le> val) xs), v')
    \<and> vec_holds sizeof_int v' (takeWhile (\<lambda>x. x \<le> val) xs @ val # dropWhile (\<lambda>x. x \<le> val) xs)
    \<and> sorted (takeWhile (\<lambda>x. x \<le> val) xs @ val # dropWhile (\<lambda>x. x \<le> val) xs)"
  using int_order.vec_insert_sorted_spec [OF assms(1) _ assms(2), of val] assms(3-5)
  unfolding int_half_def ucb_vector_int_insert_sorted_def ucb_vector_int_insert_sorted_with_def sizeof_int_def
  by simp

theorem ucb_vector_int_insert_sorted_sorted_witness:
  "\<exists>v'. ucb_vector_int_insert_sorted me_ok demo_vec 7 = Ret (3, v') \<and> vec_holds sizeof_int v' [3, 7, 7, 7]"
  using ucb_vector_int_insert_sorted_sorted [OF demo_vec_holds(1,4), of 7] by auto

text \<open>
  C19: \<open>find\<close> on a sorted \<^verbatim>\<open>int\<close> vector returns the rightmost index of the value, or, when it does
  not occur, minus one minus the index at which it would have to be inserted.
\<close>

theorem ucb_vector_int_find_rightmost:
  assumes "vec_holds sizeof_int v xs" "\<forall>x \<in> set xs. - (2 ^ 30) \<le> x \<and> x < 2 ^ 30"
    "- (2 ^ 30) \<le> val \<and> val < 2 ^ 30" "sorted xs"
  shows "ucb_vector_int_find v val = Ret (if val \<in> set xs then int (length (takeWhile (\<lambda>x. x \<le> val) xs)) - 1
    else - int (length (takeWhile (\<lambda>x. x \<le> val) xs)) - 1)"
  using int_order.find_with_value [OF assms(1), of val] assms(2-4)
  by (simp add: ucb_vector_int_find_def ucb_vector_int_find_with_def int_half_def)

theorem ucb_vector_int_find_rightmost_witness:
  "ucb_vector_int_find demo_vec 7 = Ret 2 \<and> ucb_vector_int_find demo_vec 5 = Ret (- 2)"
  using ucb_vector_int_find_rightmost [OF demo_vec_holds(1), of 7]
    ucb_vector_int_find_rightmost [OF demo_vec_holds(1), of 5] by simp

text \<open>
  When the block of a full vector cannot be enlarged and the error handler returns, an
  insertion reports nothing: the vector keeps its size but its block was released, so reading
  any element afterwards is undefined.
\<close>

theorem vec_insert_failure_loses_block:
  assumes "vec_holds w v xs" "0 < w" "i \<le> length xs" "length xs = v_capacity v" "xs \<noteq> []"
    "\<not> granted me (usize (2 * v_capacity v * w))" "fatal_returns me"
  shows "\<exists>v'. vec_insert me w v i x = Ret v' \<and> v_size v' = length xs \<and> (\<forall>j. vec_get_cell v' j = Undef)"
proof -
  have "0 < v_capacity v" using assms(4,5) by (cases xs) auto
  then have "grow_cap v = 2 * v_capacity v"
    using vec_holds_size [OF assms(1)] assms(4) by (simp add: grow_cap_def reserve_cap_def)
  then show ?thesis using insert_failure_dangles [OF assms(1-5) _ assms(7), of x] assms(6) vec_holds_size [OF assms(1)]
    by (simp add: vec_get_cell_def)
qed

theorem vec_insert_failure_loses_block_witness:
  "\<exists>v'. vec_insert (me_ok\<lparr>alloc_ok := \<lambda>_. False, fatal_returns := True\<rparr>) sizeof_int full_vec 0 5 = Ret v'
    \<and> v_size v' = 2 \<and> (\<forall>j. vec_get_cell v' j = Undef)"
  using vec_insert_failure_loses_block [OF demo_vec_holds(2,3), of 0 "me_ok\<lparr>alloc_ok := \<lambda>_. False, fatal_returns := True\<rparr>" 5]
  by (simp add: full_vec_def granted_def numeral_2_eq_2)

text \<open>
  A new \<^verbatim>\<open>int\<close> vector given \<open>xs\<close> element by element at the back returns them in order when
  popped at the front and in reverse when popped at the back, and is empty then.
\<close>

theorem vector_int_fifo_lifo:
  assumes "grants_upto me (2 ^ 40)" "length xs \<le> 2 ^ 32"
  shows "\<exists>v s1. ucb_vector_int_new me = Ret (Some v) \<and> push_list vec_world_push (me, v) xs = Ret s1
    \<and> (\<exists>s2. pop_list vec_world_pop_front s1 (length xs) = Ret (xs, s2) \<and> vec_world_holds s2 [])
    \<and> (\<exists>s2. pop_list vec_world_pop_back s1 (length xs) = Ret (rev xs, s2) \<and> vec_world_holds s2 [])"
proof -
  have "granted me sizeof_vector" using granted_upto [OF assms(1)] by (simp add: sizeof_vector_def)
  then have "ucb_calloc me 1 sizeof_vector = Ret True" by (simp add: ucb_calloc_Ret_iff sizeof_vector_def)
  then have n: "ucb_vector_int_new me = Ret (Some vec_zero)"
    by (simp add: ucb_vector_int_new_def vec_new_def)
  have "vec_world_holds (me, vec_zero) []"
    using assms(1) vec_zero_holds by (simp add: vec_world_holds_def vec_zero_def)
  from int_seq.fifo_lifo [OF this assms(2)] n show ?thesis by blast
qed

theorem vector_int_fifo_lifo_witness:
  "\<exists>v s1. ucb_vector_int_new me_ok = Ret (Some v) \<and> push_list vec_world_push (me_ok, v) [4, 5, 6] = Ret s1
    \<and> (\<exists>s2. pop_list vec_world_pop_front s1 3 = Ret ([4, 5, 6], s2) \<and> vec_world_holds s2 [])"
proof -
  have "grants_upto me_ok (2 ^ 40)" by (simp add: grants_upto_def PTRDIFF_MAX_def)
  moreover have "length [4, 5, 6::int] = 3" "(3::nat) \<le> 2 ^ 32" by simp_all
  ultimately show ?thesis using vector_int_fifo_lifo [of me_ok "[4, 5, 6]"] by (metis (no_types))
qed

text \<open>The subtraction in \<^verbatim>\<open>ucb_comp_func_int\<close> overflows for values far apart.\<close>

lemma comp_func_int_overflows: "ucb_comp_func_int 2000000000 (- 2000000000) = Undef"
  by (simp add: ucb_comp_func_int_def)

end
