(* ===== verification/Path_Base.thy ===== *)
theory Path_Base
  imports Ucb_Str
begin

text \<open>
  The string helpers at the front of \<^verbatim>\<open>src/ucb/path.c\<close>: \<open>path_reserve\<close>, \<open>path_append_cstr\<close> and
  \<open>path_append_segment\<close>, with what they need of \<^verbatim>\<open>string.c\<close>.

  The helpers copy single bytes, so that a string may hold half a character for a while:
  \<open>raw_ok\<close> is the invariant of strings without its part on UTF-8.
\<close>

section \<open>Raw strings\<close>

definition raw_ok :: "ucb_str \<Rightarrow> bool" where
  "raw_ok s =
     (case s_blk s of
        BMem m \<Rightarrow> (if s_alloc s = 0 then m = [0] else length m = s_alloc s)
          \<and> length m \<le> PTRDIFF_MAX \<and> s_size s < length m \<and> m ! s_size s = 0
      | _ \<Rightarrow> False)"

lemma str_ok_raw: "str_ok s \<longleftrightarrow> raw_ok s \<and> valid_text (str_text s)"
  by (cases "s_blk s") (auto simp: str_ok_def raw_ok_def str_text_def)

lemma raw_okE:
  assumes "raw_ok s"
  obtains m where "s_blk s = BMem m" "mem_of s = Ret m" "str_text s = take (s_size s) m"
    "length (str_text s) = s_size s" "s_size s < length m" "length m \<le> PTRDIFF_MAX"
    "s_alloc s = 0 \<Longrightarrow> m = [0] \<and> s_size s = 0" "s_alloc s > 0 \<Longrightarrow> length m = s_alloc s"
    "s_size s \<le> PTRDIFF_MAX" "m ! s_size s = 0"
  using assms by (cases "s_blk s") (auto simp: raw_ok_def str_text_def mem_of_def split: if_splits)

lemma raw_length: "raw_ok s \<Longrightarrow> s_size s = length (str_text s)"
  by (erule raw_okE) simp

lemma raw_bound: "raw_ok s \<Longrightarrow> length (str_text s) < PTRDIFF_MAX"
  by (erule raw_okE) simp

text \<open>The bytes \<^verbatim>\<open>data[0, n)\<close> of a string; no byte is read when \<open>n\<close> is 0.\<close>

definition str_region :: "ucb_str \<Rightarrow> nat \<Rightarrow> byte list result" where
  "str_region s n = (if n = 0 then Ret [] else rbind (mem_of s) (\<lambda>m. mem_read m n))"

definition str_bytes :: "ucb_str \<Rightarrow> byte list result" where
  "str_bytes s = str_region s (s_size s)"

lemma str_region_ok: "raw_ok s \<Longrightarrow> n \<le> s_size s \<Longrightarrow> str_region s n = Ret (take n (str_text s))"
  by (erule raw_okE) (simp add: str_region_def min_def)

lemma str_bytes_ok: "raw_ok s \<Longrightarrow> str_bytes s = Ret (str_text s)"
  by (frule raw_length) (simp add: str_bytes_def str_region_ok)

lemma raw_block:
  assumes "raw_ok s" "s_blk s = BMem m" "s_size s < n" "n \<le> PTRDIFF_MAX"
    and "m' = mem_write (s_size s) [0] (resize_block me m n) \<or> m' = mem_write 0 (str_text s @ [0]) (new_block me n)"
  shows "raw_ok (s\<lparr>s_blk := BMem m', s_alloc := n\<rparr>)" "str_text (s\<lparr>s_blk := BMem m', s_alloc := n\<rparr>) = str_text s"
proof -
  have t: "take (s_size s) m = str_text s" "s_size s < length m" "length (str_text s) = s_size s"
    using assms(1,2) by (auto elim!: raw_okE)
  have "length m' = n" "take (s_size s) m' = str_text s" "m' ! s_size s = 0"
    using assms(3,5) t by (auto simp: length_mem_write mem_write_def take_resize_block nth_append)
  then show "raw_ok (s\<lparr>s_blk := BMem m', s_alloc := n\<rparr>)" "str_text (s\<lparr>s_blk := BMem m', s_alloc := n\<rparr>) = str_text s"
    using assms(3,4) by (simp_all add: raw_ok_def str_text_def)
qed

text \<open>\<^verbatim>\<open>ucb_str_reserve\<close> where it has to reallocate.\<close>

lemma raw_reserve:
  assumes f: "\<not> fatal_returns me" and ok: "raw_ok s" and n: "s_size s + n + 1 \<le> SIZE_MAX"
    and grow: "s_alloc s = 0 \<or> 0 < n \<and> s_alloc s < s_size s + n + 1"
  shows "succeeds (ucb_str_reserve me s n) (\<lambda>(r, s'). r \<and> raw_ok s' \<and> str_text s' = str_text s
    \<and> s_alloc s' = s_size s + n + 1 \<and> s_size s' = s_size s)"
proof -
  obtain m where m: "s_blk s = BMem m" "mem_of s = Ret m" "str_text s = take (s_size s) m"
    "s_size s < length m" "s_alloc s > 0 \<Longrightarrow> length m = s_alloc s" using raw_okE [OF ok] by metis
  let ?n = "s_size s + n + 1"
  have u: "usize (n + s_size s + 1) = ?n" "usize ?n = ?n" using n by (simp_all add: usize_id add.commute)
  have gr: "raw_ok (s\<lparr>s_blk := BMem m', s_alloc := ?n\<rparr>) \<and> str_text (s\<lparr>s_blk := BMem m', s_alloc := ?n\<rparr>) = str_text s"
    if "?n \<le> PTRDIFF_MAX" "m' = mem_write (s_size s) [0] (resize_block me m ?n) \<or>
      m' = mem_write 0 (str_text s @ [0]) (new_block me ?n)" for m'
    using raw_block [OF ok m(1) _ that] by simp
  show ?thesis
  proof (cases "s_alloc s = 0")
    case True
    have "succeeds (ucb_malloc me ?n) (\<lambda>ok. ok \<and> ?n \<le> PTRDIFF_MAX)" using succeeds_malloc [OF f] by simp
    then show ?thesis using True u m gr
      by (simp add: ucb_str_reserve_def succeeds_rbind) (erule succeeds_mono, simp)
  next
    case False
    then have 3: "s_alloc s > 0" "n > 0" "s_alloc s < ?n" "s_size s \<le> s_alloc s"
      using grow m(4,5) by auto
    have "succeeds (ucb_realloc me True ?n) (\<lambda>r. r = Moved \<and> ?n \<le> PTRDIFF_MAX)"
      using succeeds_realloc [OF f] by simp
    then show ?thesis using 3 u m gr
      by (simp add: ucb_str_reserve_def succeeds_rbind Let_def) (erule succeeds_mono, simp)
  qed
qed

lemma raw_store_end:
  assumes ok: "raw_ok s" and room: "s_size s + length bs < s_alloc s"
  shows "\<exists>s'. str_store_end s bs = Ret s' \<and> raw_ok s' \<and> str_text s' = str_text s @ bs \<and> s_alloc s' = s_alloc s"
proof -
  obtain m where m: "s_blk s = BMem m" "mem_of s = Ret m" "length m \<le> PTRDIFF_MAX" "length m = s_alloc s"
    "str_text s = take (s_size s) m" using ok room by (auto elim!: raw_okE)
  have r: "s_size s + length bs < length m" using room m(4) by simp
  define m' where "m' = mem_write (s_size s + length bs) [0] (mem_write (s_size s) bs m)"
  note w = write_terminated [OF r, folded m'_def]
  have "str_store_end s bs = Ret (s\<lparr>s_blk := BMem m', s_size := s_size s + length bs\<rparr>)"
    using m(2) r by (simp add: str_store_end_def length_mem_write m'_def)
  moreover have "str_text (s\<lparr>s_blk := BMem m', s_size := s_size s + length bs\<rparr>) = str_text s @ bs"
    using w(1) m(5) by (simp add: str_text_def)
  moreover have "raw_ok (s\<lparr>s_blk := BMem m', s_size := s_size s + length bs\<rparr>)"
    unfolding raw_ok_def using w m(3,4) room by simp
  ultimately show ?thesis by simp
qed


text \<open>Emptying, copying and allocating a string.\<close>

lemma raw_release: "raw_ok s \<Longrightarrow> \<exists>s'. ucb_str_release_common s = Ret s'"
  by (erule raw_okE) (simp add: ucb_str_release_common_def)

lemma raw_released: "raw_ok s \<Longrightarrow> ucb_str_release s = Ret str_zero"
  using raw_release [of s] by (auto simp: ucb_str_release_def)

lemma raw_clear: "raw_ok s \<Longrightarrow> ucb_str_clear s = Ret str_empty"
  using raw_release [of s] by (auto simp: ucb_str_clear_def)

lemma raw_empty [simp]: "raw_ok str_empty"
  using str_empty_ok(1) str_ok_raw by blast

lemma init_common_succeeds:
  assumes f: "\<not> fatal_returns me" and src: "case cstr of None \<Rightarrow> t = [] | Some mem \<Rightarrow> src_text mem len t"
    and v: "valid_text t"
  shows "succeeds (ucb_str_init_common me s cstr len) (\<lambda>(ok, s'). ok \<and> str_ok s' \<and> str_text s' = t)"
proof (rule always_succeeds)
  show "always (ucb_str_init_common me s cstr len) (\<lambda>(ok, s'). ok \<and> str_ok s' \<and> str_text s' = t)"
    by (rule always_mono [OF init_common_spec [OF f src]]) auto
  fix c assume a: "ucb_str_init_common me s cstr len = Abort c"
  show "c = UCB_ERROR_OUT_OF_MEMORY"
  proof (cases cstr)
    case None
    then show ?thesis using a by (simp add: ucb_str_init_common_def)
  next
    case (Some mem)
    then have st: "src_text mem len t" using src by simp
    note d = src_textD [OF st]
    show ?thesis using a Some d(4,6) verify_src_len [OF st] v f
      by (auto simp: ucb_str_init_common_def rbind_Abort_iff ucb_malloc_def ucb_fatal_oom_def mem_put_def
          split: if_splits)
  qed
qed

lemma str_copy_succeeds:
  assumes f: "\<not> fatal_returns me" and d: "raw_ok dst" and s: "str_ok src"
  shows "succeeds (ucb_str_copy me dst (OtherArg src)) (\<lambda>(ok, s'). ok \<and> str_ok s' \<and> str_text s' = str_text src)"
proof -
  obtain d1 where d1: "ucb_str_release_common dst = Ret d1" using raw_release [OF d] by blast
  obtain m where m: "mem_of src = Ret m" using str_mem [OF s] by metis
  have "valid_text (str_text src)" using s by (simp add: str_ok_raw)
  from init_common_succeeds [where cstr = "Some m" and len = "s_size src" and s = d1, OF f _ this] str_src [OF s m] d1 m
  show ?thesis by (simp add: ucb_str_copy_def)
qed

lemma str_assign_succeeds:
  assumes f: "\<not> fatal_returns me" and d: "raw_ok s" and v: "valid_text t" and st: "src_text mem len t"
  shows "succeeds (ucb_str_assign me s (CExt mem) len) (\<lambda>(ok, s'). ok \<and> str_ok s' \<and> str_text s' = t)"
proof -
  obtain d1 where d1: "ucb_str_release_common s = Ret d1" using raw_release [OF d] by blast
  have "ucb_str_assign me s (CExt mem) len = ucb_str_init_common me d1 (Some mem) len"
    using d1 by (simp add: ucb_str_assign_def ucb_str_aliases_def deref_def)
  then show ?thesis using init_common_succeeds [where cstr = "Some mem" and len = len and s = d1, OF f _ v] st by simp
qed

lemma str_assign_null:
  assumes "raw_ok s"
  shows "ucb_str_assign me s CNull 0 = Ret (True, str_empty)"
  using raw_release [OF assms] by (auto simp: ucb_str_assign_def ucb_str_aliases_def ucb_str_init_common_def)

lemma str_new_succeeds:
  assumes f: "\<not> fatal_returns me" and src: "case cstr of None \<Rightarrow> t = [] | Some mem \<Rightarrow> src_text mem len t"
    and v: "valid_text t"
  shows "succeeds (ucb_str_new me cstr len) (\<lambda>r. \<exists>s. r = Some s \<and> str_ok s \<and> str_text s = t)"
  unfolding ucb_str_new_def
  apply (rule succeeds_bind [OF succeeds_malloc [OF f]])
  subgoal by (simp add: sizeof_ucb_str_def)
  subgoal for ok
    apply simp
    apply (rule succeeds_bind [OF init_common_succeeds [OF f src v]])
    apply auto
    done
  done

section \<open>The helpers of path.c\<close>

text \<open>
  \<^verbatim>\<open>path_reserve\<close> asks for twice the block and looks at \<open>alloc\<close> afterwards, since
  \<^verbatim>\<open>ucb_str_reserve\<close> also returns false when there is room already.
\<close>

definition path_reserve :: "mem_env \<Rightarrow> ucb_str \<Rightarrow> nat \<Rightarrow> (bool \<times> ucb_str) result" where
  "path_reserve me s extra =
     (let need = usize (s_size s + extra + 1) in
      if need \<le> s_alloc s then Ret (True, s)
      else
        let grow = (if s_alloc s \<noteq> 0 then usize (s_alloc s * 2) else need);
            extra = (if grow > need then usub (usub grow (s_size s)) 1 else extra)
        in rbind (ucb_str_reserve me s extra) (\<lambda>(_, s). Ret (s_alloc s \<ge> need, s)))"

definition path_append_cstr :: "mem_env \<Rightarrow> ucb_str \<Rightarrow> byte list \<Rightarrow> nat \<Rightarrow> (bool \<times> ucb_str) result" where
  "path_append_cstr me s cstr len =
     (if len = 0 then Ret (True, s)
      else and_then (path_reserve me s len) (\<lambda>s.
        rbind (mem_read cstr len) (\<lambda>bs.
        rbind (str_store_end s bs) (\<lambda>s. Ret (True, s)))))"

definition path_append_segment :: "mem_env \<Rightarrow> ucb_str \<Rightarrow> byte list \<Rightarrow> nat \<Rightarrow> byte \<Rightarrow> (bool \<times> ucb_str) result" where
  "path_append_segment me dir seg len sep =
     (if len = 0 then Ret (True, dir)
      else rbind (str_bytes dir) (\<lambda>d.
        let need_sep = (s_size dir > 0 \<and> last d \<noteq> sep) in
        and_then (path_reserve me dir ((if need_sep then 1 else 0) + len)) (\<lambda>dir.
          rbind (mem_read seg len) (\<lambda>bs.
          rbind (str_store_end dir ((if need_sep then [sep] else []) @ bs)) (\<lambda>dir. Ret (True, dir))))))"

lemma path_reserve_spec:
  assumes f: "\<not> fatal_returns me" and ok: "raw_ok s" and n: "n \<le> PTRDIFF_MAX"
  shows "succeeds (path_reserve me s n) (\<lambda>(r, s'). r \<and> raw_ok s' \<and> str_text s' = str_text s
    \<and> s_size s' = s_size s \<and> s_size s' + n < s_alloc s')"
proof -
  have sz: "s_size s < PTRDIFF_MAX" using raw_bound [OF ok] raw_length [OF ok] by simp
  have al: "s_alloc s \<le> PTRDIFF_MAX" using ok by (cases "s_alloc s = 0") (auto elim!: raw_okE)
  have need: "usize (s_size s + n + 1) = s_size s + n + 1"
    using sz n by (intro usize_id) (simp add: SIZE_MAX_def PTRDIFF_MAX_def)
  have dbl: "usize (s_alloc s * 2) = s_alloc s * 2"
    using al by (intro usize_id) (simp add: SIZE_MAX_def PTRDIFF_MAX_def)
  show ?thesis
  proof (cases "s_size s + n + 1 \<le> s_alloc s")
    case True
    then show ?thesis using ok need by (simp add: path_reserve_def Let_def)
  next
    case False
    define grow where "grow = (if s_alloc s \<noteq> 0 then s_alloc s * 2 else s_size s + n + 1)"
    define e where "e = (if grow > s_size s + n + 1 then grow - s_size s - 1 else n)"
    have gr: "grow \<le> SIZE_MAX" "usub (usub grow (s_size s)) 1 = grow - s_size s - 1" if "grow > s_size s + n + 1"
    proof -
      show "grow \<le> SIZE_MAX" using al sz n by (auto simp: grow_def SIZE_MAX_def PTRDIFF_MAX_def)
      then show "usub (usub grow (s_size s)) 1 = grow - s_size s - 1" using that by simp
    qed
    have pr: "path_reserve me s n = rbind (ucb_str_reserve me s e) (\<lambda>(_, s'). Ret (s_size s + n + 1 \<le> s_alloc s', s'))"
      using False need dbl gr unfolding path_reserve_def Let_def e_def grow_def by (auto simp: cong: if_cong)
    have e: "n \<le> e" "s_size s + e + 1 \<le> SIZE_MAX"
      using gr(1) sz n by (auto simp: e_def SIZE_MAX_def PTRDIFF_MAX_def)
    have g: "s_alloc s = 0 \<or> 0 < e \<and> s_alloc s < s_size s + e + 1"
      using False e(1) ok by (auto elim!: raw_okE)
    show ?thesis unfolding pr
      by (rule succeeds_bind [OF raw_reserve [OF f ok e(2) g]]) (use e(1) in auto)
  qed
qed

lemma path_append_cstr_spec:
  assumes f: "\<not> fatal_returns me" and ok: "raw_ok s" and r: "mem_read mem n = Ret bs" and n: "n \<le> PTRDIFF_MAX"
  shows "succeeds (path_append_cstr me s mem n) (\<lambda>(r, s'). r \<and> raw_ok s' \<and> str_text s' = str_text s @ bs)"
proof (cases "n = 0")
  case True
  then show ?thesis using ok r by (auto simp: path_append_cstr_def mem_read_def split: if_splits)
next
  case False
  have l: "length bs = n" using r by (auto simp: mem_read_def split: if_splits)
  have "succeeds (and_then (path_reserve me s n) (\<lambda>s. rbind (mem_read mem n) (\<lambda>bs.
        rbind (str_store_end s bs) (\<lambda>s. Ret (True, s))))) (\<lambda>(r, s'). r \<and> raw_ok s' \<and> str_text s' = str_text s @ bs)"
  proof (rule succeeds_and_then [OF path_reserve_spec [OF f ok n]])
    fix s' assume a: "raw_ok s' \<and> str_text s' = str_text s \<and> s_size s' = s_size s \<and> s_size s' + n < s_alloc s'"
    then obtain s2 where "str_store_end s' bs = Ret s2" "raw_ok s2" "str_text s2 = str_text s' @ bs"
      using raw_store_end [of s' bs] l by auto
    then show "succeeds (rbind (mem_read mem n) (\<lambda>bs. rbind (str_store_end s' bs) (\<lambda>s. Ret (True, s))))
        (\<lambda>(r, s'). r \<and> raw_ok s' \<and> str_text s' = str_text s @ bs)" using r a by simp
  qed
  then show ?thesis using False by (simp add: path_append_cstr_def)
qed

lemma path_append_one:
  assumes "\<not> fatal_returns me" "raw_ok s"
  shows "succeeds (path_append_cstr me s [c] 1) (\<lambda>(r, s'). r \<and> raw_ok s' \<and> str_text s' = str_text s @ [c])"
  by (rule path_append_cstr_spec [OF assms]) (simp_all add: mem_read_def PTRDIFF_MAX_def)

text \<open>The separator in front of a segment, from the text before it.\<close>

definition junction :: "byte \<Rightarrow> byte list \<Rightarrow> byte list" where
  "junction sep d = (if d \<noteq> [] \<and> last d \<noteq> sep then [sep] else [])"

lemma path_append_segment_spec:
  assumes f: "\<not> fatal_returns me" and ok: "raw_ok s" and r: "mem_read mem n = Ret bs" and n: "n < PTRDIFF_MAX" "0 < n"
  shows "succeeds (path_append_segment me s mem n sep)
    (\<lambda>(r, s'). r \<and> raw_ok s' \<and> str_text s' = str_text s @ junction sep (str_text s) @ bs)"
proof -
  let ?j = "junction sep (str_text s)"
  have l: "length bs = n" using r by (auto simp: mem_read_def split: if_splits)
  have jn: "length ?j + n \<le> PTRDIFF_MAX" using n by (simp add: junction_def)
  have e: "path_append_segment me s mem n sep = and_then (path_reserve me s (length ?j + n)) (\<lambda>s.
      rbind (mem_read mem n) (\<lambda>bs. rbind (str_store_end s (?j @ bs)) (\<lambda>s. Ret (True, s))))"
    using n(2) raw_length [OF ok] by (simp add: path_append_segment_def str_bytes_ok [OF ok] junction_def)
  show ?thesis unfolding e
  proof (rule succeeds_and_then [OF path_reserve_spec [OF f ok jn]])
    fix s' assume a: "raw_ok s' \<and> str_text s' = str_text s \<and> s_size s' = s_size s \<and> s_size s' + (length ?j + n) < s_alloc s'"
    then obtain s2 where "str_store_end s' (?j @ bs) = Ret s2" "raw_ok s2" "str_text s2 = str_text s' @ ?j @ bs"
      using raw_store_end [of s' "?j @ bs"] l by auto
    then show "succeeds (rbind (mem_read mem n) (\<lambda>bs. rbind (str_store_end s' (?j @ bs)) (\<lambda>s. Ret (True, s))))
        (\<lambda>(r, s'). r \<and> raw_ok s' \<and> str_text s' = str_text s @ ?j @ bs)" using r a by simp
  qed
qed

end
