(* ===== verification/Path.thy ===== *)
theory Path
  imports Path_Base Vector
begin

text \<open>
  The path type of \<^verbatim>\<open>include/ucb/path.h\<close> and \<^verbatim>\<open>src/ucb/path.c\<close>: parsing, composing, joining and
  normalizing, with the vector of strings its listings return.

  \<^item> \<open>path_conf\<close> holds what the code takes from its surroundings: whether \<^verbatim>\<open>_WIN32\<close> is defined,
    and the default style of the thread's configuration. Both builds are modelled.
  \<^item> A string argument may be one of the path's own strings (\<open>path_str_arg\<close>), and a path argument
    the path itself (\<open>path_arg\<close>).
  \<^item> \<^verbatim>\<open>isalpha\<close> is that of the C locale; the library never calls \<^verbatim>\<open>setlocale\<close>.
\<close>

section \<open>State\<close>

datatype ucb_path_style =
  UCB_PATH_STYLE_DEFAULT | UCB_PATH_STYLE_NATIVE | UCB_PATH_STYLE_POSIX | UCB_PATH_STYLE_WINDOWS

datatype path_anchor_kind = PATH_ANCHOR_NONE | PATH_ANCHOR_ROOT | PATH_ANCHOR_DRIVE | PATH_ANCHOR_UNC

record path_conf =
  win32 :: bool
  default_path_style :: ucb_path_style

record ucb_path =
  p_dir :: ucb_str
  p_stem :: ucb_str
  p_ext :: ucb_str
  p_style :: ucb_path_style
  p_name :: ucb_str
  p_cache :: ucb_str
  p_dirty :: bool

abbreviation SLASH :: byte where "SLASH \<equiv> 0x2F"
abbreviation BACKSLASH :: byte where "BACKSLASH \<equiv> 0x5C"
abbreviation DOT :: byte where "DOT \<equiv> 0x2E"
abbreviation COLON :: byte where "COLON \<equiv> 0x3A"

definition ucb_path_make :: ucb_path where
  "ucb_path_make =
     \<lparr>p_dir = str_empty, p_stem = str_empty, p_ext = str_empty, p_style = UCB_PATH_STYLE_DEFAULT,
      p_name = str_empty, p_cache = str_empty, p_dirty = True\<rparr>"

text \<open>The structure after \<^verbatim>\<open>memset(path, 0, sizeof(ucb_path))\<close>.\<close>

definition path_zero :: ucb_path where
  "path_zero =
     \<lparr>p_dir = str_zero, p_stem = str_zero, p_ext = str_zero, p_style = UCB_PATH_STYLE_DEFAULT,
      p_name = str_zero, p_cache = str_zero, p_dirty = False\<rparr>"

definition sizeof_ucb_path :: nat where
  "sizeof_ucb_path = 136"

datatype path_arg = SelfPath | OtherPath ucb_path

datatype path_str_arg = PDir | PStem | PExt | PName | PCache | PStr ucb_str

definition path_field :: "ucb_path \<Rightarrow> path_str_arg \<Rightarrow> ucb_str" where
  "path_field p a = (case a of PDir \<Rightarrow> p_dir p | PStem \<Rightarrow> p_stem p | PExt \<Rightarrow> p_ext p
     | PName \<Rightarrow> p_name p | PCache \<Rightarrow> p_cache p | PStr s \<Rightarrow> s)"

section \<open>Separators and anchors\<close>

definition path_is_sep :: "path_conf \<Rightarrow> byte \<Rightarrow> bool" where
  "path_is_sep cf c = (c = SLASH \<or> (win32 cf \<and> c = BACKSLASH))"

definition path_sep_match :: "path_conf \<Rightarrow> byte \<Rightarrow> byte \<Rightarrow> bool" where
  "path_sep_match cf extra_sep c = (path_is_sep cf c \<or> (extra_sep \<noteq> 0 \<and> c = extra_sep))"

definition path_resolve_style :: "path_conf \<Rightarrow> ucb_path_style \<Rightarrow> ucb_path_style" where
  "path_resolve_style cf style =
     (if style = UCB_PATH_STYLE_DEFAULT then
        (if default_path_style cf = UCB_PATH_STYLE_DEFAULT then UCB_PATH_STYLE_NATIVE else default_path_style cf)
      else style)"

definition path_sep_of :: "path_conf \<Rightarrow> ucb_path_style \<Rightarrow> byte" where
  "path_sep_of cf style =
     (case path_resolve_style cf style of
        UCB_PATH_STYLE_POSIX \<Rightarrow> SLASH
      | UCB_PATH_STYLE_WINDOWS \<Rightarrow> BACKSLASH
      | _ \<Rightarrow> (if win32 cf then BACKSLASH else SLASH))"

definition c_isalpha :: "byte \<Rightarrow> bool" where
  "c_isalpha c = ((0x41 \<le> c \<and> c \<le> 0x5A) \<or> (0x61 \<le> c \<and> c \<le> 0x7A))"

text \<open>\<^verbatim>\<open>while (i < len && P(cstr[i])) i++;\<close>, and the downward loop that looks for the last match.\<close>

definition path_scan :: "(byte \<Rightarrow> bool) \<Rightarrow> byte list \<Rightarrow> nat \<Rightarrow> nat" where
  "path_scan P bs i = i + length (takeWhile P (drop i bs))"

fun last_match :: "(byte \<Rightarrow> bool) \<Rightarrow> byte list \<Rightarrow> nat \<Rightarrow> nat \<Rightarrow> nat" where
  "last_match P bs low 0 = UCB_NPOS"
| "last_match P bs low (Suc i) =
     (if low < Suc i then (if P (bs ! i) then i else last_match P bs low i) else UCB_NPOS)"

text \<open>The \<^verbatim>\<open>_WIN32\<close> branch for a UNC anchor: its length, when there is one.\<close>

definition path_unc_anchor :: "path_conf \<Rightarrow> byte list \<Rightarrow> byte \<Rightarrow> nat option" where
  "path_unc_anchor cf cstr extra_sep =
     (let len = length cstr; sep = path_sep_match cf extra_sep in
      if len \<ge> 2 \<and> sep (cstr ! 0) \<and> sep (cstr ! 1) then
        let i = path_scan (\<lambda>c. \<not> sep c) cstr 2 in
        if i < len then
          let share_start = i + 1; i = path_scan (\<lambda>c. \<not> sep c) cstr share_start in
          if i > share_start then Some i else None
        else None
      else None)"

definition path_detect_anchor :: "path_conf \<Rightarrow> byte list \<Rightarrow> byte \<Rightarrow> path_anchor_kind \<times> nat" where
  "path_detect_anchor cf cstr extra_sep =
     (let len = length cstr; sep = path_sep_match cf extra_sep in
      if len = 0 then (PATH_ANCHOR_NONE, 0)
      else if win32 cf then
        (case path_unc_anchor cf cstr extra_sep of
           Some i \<Rightarrow> (PATH_ANCHOR_UNC, i)
         | None \<Rightarrow>
             if len \<ge> 2 \<and> cstr ! 1 = COLON \<and> c_isalpha (cstr ! 0) \<and> (len = 2 \<or> sep (cstr ! 2))
             then (PATH_ANCHOR_DRIVE, 2)
             else if sep (cstr ! 0) then (PATH_ANCHOR_ROOT, 1)
             else (PATH_ANCHOR_NONE, 0))
      else if sep (cstr ! 0) then
        (if len \<ge> 2 \<and> sep (cstr ! 1) \<and> (len < 3 \<or> \<not> sep (cstr ! 2))
         then (PATH_ANCHOR_ROOT, 2) else (PATH_ANCHOR_ROOT, 1))
      else (PATH_ANCHOR_NONE, 0))"

definition path_str_aliases :: "ucb_path \<Rightarrow> path_str_arg \<Rightarrow> bool" where
  "path_str_aliases p a = (case a of PStr _ \<Rightarrow> False | _ \<Rightarrow> s_alloc (path_field p a) > 0)"

section \<open>Parsing\<close>

text \<open>The copy loops of \<^verbatim>\<open>path_build_dir\<close>: the anchor with its separators replaced, then the rest.\<close>

fun copy_anchor :: "mem_env \<Rightarrow> (byte \<Rightarrow> bool) \<Rightarrow> byte \<Rightarrow> byte list \<Rightarrow> ucb_str \<Rightarrow> (bool \<times> ucb_str) result" where
  "copy_anchor me is_sep sep [] out = Ret (True, out)"
| "copy_anchor me is_sep sep (c # cs) out =
     and_then (path_append_cstr me out [if is_sep c then sep else c] 1) (copy_anchor me is_sep sep cs)"

text \<open>The result is \<open>(ok, has_content, tmp)\<close>.\<close>

fun build_dir_loop ::
    "mem_env \<Rightarrow> path_conf \<Rightarrow> byte \<Rightarrow> byte list \<Rightarrow> bool \<Rightarrow> bool \<Rightarrow> ucb_str \<Rightarrow> (bool \<times> bool \<times> ucb_str) result" where
  "build_dir_loop me cf sep [] pending_sep has_content tmp = Ret (True, has_content, tmp)"
| "build_dir_loop me cf sep (c # cs) pending_sep has_content tmp =
     (if path_is_sep cf c then build_dir_loop me cf sep cs True has_content tmp
      else
        rbind (if pending_sep \<and> s_size tmp > 0 then path_append_cstr me tmp [sep] 1 else Ret (True, tmp))
          (\<lambda>(ok, tmp).
        rbind (if ok then path_append_cstr me tmp [c] 1 else Ret (False, tmp)) (\<lambda>(ok, tmp).
        if ok then build_dir_loop me cf sep cs False True tmp else Ret (False, True, tmp))))"

definition build_dir_root :: "mem_env \<Rightarrow> byte \<Rightarrow> path_anchor_kind \<Rightarrow> nat \<Rightarrow> bool \<Rightarrow> ucb_str \<Rightarrow> (bool \<times> ucb_str) result" where
  "build_dir_root me sep ak anchor_len has_content tmp =
     (if anchor_len > 0 \<and> \<not> has_content \<and> ak \<noteq> PATH_ANCHOR_UNC then
        rbind (str_bytes tmp) (\<lambda>t.
        if s_size tmp = 0 \<or> last t \<noteq> sep then path_append_cstr me tmp [sep] 1 else Ret (True, tmp))
      else Ret (True, tmp))"

definition path_build_dir ::
    "mem_env \<Rightarrow> path_conf \<Rightarrow> ucb_str \<Rightarrow> ucb_str \<Rightarrow> nat \<Rightarrow> byte \<Rightarrow> (bool \<times> ucb_str) result" where
  "path_build_dir me cf out str len sep =
     rbind (str_region str len) (\<lambda>region.
     let (ak, anchor_len) = path_detect_anchor cf region 0 in
     rbind (copy_anchor me (path_is_sep cf) sep (take anchor_len region) str_empty) (\<lambda>(ok, tmp).
     rbind (if ok then build_dir_loop me cf sep (drop anchor_len region) False False tmp
            else Ret (False, False, tmp)) (\<lambda>(ok, has_content, tmp).
     rbind (if ok then build_dir_root me sep ak anchor_len has_content tmp else Ret (False, tmp)) (\<lambda>(ok, tmp).
     rbind (if ok then ucb_str_copy me out (OtherArg tmp) else Ret (False, out)) (\<lambda>(ok, out).
     rbind (ucb_str_release tmp) (\<lambda>_. Ret (ok, out)))))))"

text \<open>The extension starts at the last dot that is neither among the leading dots nor the last byte.\<close>

fun dot_loop :: "byte list \<Rightarrow> nat \<Rightarrow> nat \<Rightarrow> nat" where
  "dot_loop cstr start 0 = UCB_NPOS"
| "dot_loop cstr start (Suc i) =
     (if i < start then UCB_NPOS
      else if i = 0 then UCB_NPOS
      else if cstr ! i = DOT then i
      else dot_loop cstr start i)"

definition path_find_dot :: "byte list \<Rightarrow> nat" where
  "path_find_dot cstr =
     (let start = path_scan (\<lambda>c. c = DOT) cstr 0 in
      if length cstr \<ge> 2 then dot_loop cstr start (length cstr - 1) else UCB_NPOS)"

definition path_parse_filename :: "mem_env \<Rightarrow> ucb_path \<Rightarrow> byte list \<Rightarrow> nat \<Rightarrow> (bool \<times> ucb_path) result" where
  "path_parse_filename me path cstr len =
     rbind (mem_read cstr len) (\<lambda>bs.
     let dot = path_find_dot bs in
     if dot = UCB_NPOS then
       rbind (if len = 0 then ucb_str_assign me (p_stem path) CNull 0
              else ucb_str_assign me (p_stem path) (CExt cstr) len) (\<lambda>(ok, stem).
       rbind (ucb_str_assign me (p_ext path) CNull 0) (\<lambda>(ok2, ext).
       Ret (ok2 \<and> ok, path\<lparr>p_stem := stem, p_ext := ext\<rparr>)))
     else
       rbind (if dot = 0 then ucb_str_assign me (p_stem path) CNull 0
              else ucb_str_assign me (p_stem path) (CExt cstr) dot) (\<lambda>(ok, stem).
       rbind (ucb_str_assign me (p_ext path) (CExt (drop dot cstr)) (len - dot)) (\<lambda>(ok2, ext).
       Ret (ok2 \<and> ok, path\<lparr>p_stem := stem, p_ext := ext\<rparr>))))"

definition path_parse_empty :: "mem_env \<Rightarrow> ucb_path \<Rightarrow> (bool \<times> ucb_path) result" where
  "path_parse_empty me path =
     rbind (ucb_str_assign me (p_dir path) CNull 0) (\<lambda>(ok, dir).
     rbind (ucb_str_assign me (p_stem path) CNull 0) (\<lambda>(ok2, stem).
     rbind (ucb_str_assign me (p_ext path) CNull 0) (\<lambda>(ok3, ext).
     Ret (ok3 \<and> ok2 \<and> ok, path\<lparr>p_dir := dir, p_stem := stem, p_ext := ext, p_dirty := True\<rparr>))))"

definition path_parse ::
    "mem_env \<Rightarrow> path_conf \<Rightarrow> ucb_path \<Rightarrow> ucb_str \<Rightarrow> ucb_path_style \<Rightarrow> (bool \<times> ucb_path) result" where
  "path_parse me cf path str style =
     (let sep = path_sep_of cf style; path = path\<lparr>p_style := path_resolve_style cf style\<rparr>; len = s_size str in
      if len = 0 then path_parse_empty me path
      else rbind (mem_of str) (\<lambda>m. rbind (mem_read m len) (\<lambda>cstr.
        let last_sep = last_match (path_is_sep cf) cstr 0 len;
            raw_dir_len = (if last_sep = UCB_NPOS then 0 else last_sep + 1) in
        rbind (path_build_dir me cf (p_dir path) str raw_dir_len sep) (\<lambda>(ok, dir).
        let path = path\<lparr>p_dir := dir\<rparr> in
        rbind (if ok then path_parse_filename me path (drop raw_dir_len m) (len - raw_dir_len)
               else Ret (False, path)) (\<lambda>(ok, path).
        Ret (ok, path\<lparr>p_dirty := True\<rparr>))))))"

definition path_init_ex :: "mem_env \<Rightarrow> path_conf \<Rightarrow> ucb_str \<Rightarrow> ucb_path_style \<Rightarrow> (bool \<times> ucb_path) result" where
  "path_init_ex me cf str style = path_parse me cf ucb_path_make str style"

section \<open>Composing\<close>

definition path_build_name :: "mem_env \<Rightarrow> ucb_path \<Rightarrow> ucb_str \<Rightarrow> (bool \<times> ucb_str) result" where
  "path_build_name me path out =
     rbind (ucb_str_clear out) (\<lambda>out.
     rbind (str_bytes (p_stem path)) (\<lambda>stem.
     and_then (path_append_cstr me out stem (s_size (p_stem path))) (\<lambda>out.
     rbind (str_bytes (p_ext path)) (\<lambda>ext.
     path_append_cstr me out ext (s_size (p_ext path))))))"

definition path_has_name :: "ucb_path \<Rightarrow> bool" where
  "path_has_name path = (s_size (p_stem path) > 0 \<or> s_size (p_ext path) > 0)"

text \<open>The result is \<open>(total, sep, need_sep)\<close>.\<close>

definition path_compose_info :: "path_conf \<Rightarrow> ucb_path \<Rightarrow> (nat \<times> byte \<times> bool) result" where
  "path_compose_info cf path =
     (let sep = path_sep_of cf (p_style path); dir_len = s_size (p_dir path) in
      rbind (str_bytes (p_dir path)) (\<lambda>d.
      let need_sep = (dir_len > 0 \<and> path_has_name path \<and> last d \<noteq> sep) in
      Ret (usize (dir_len + (if need_sep then 1 else 0) + s_size (p_stem path) + s_size (p_ext path)),
           sep, need_sep)))"

definition path_compose_to :: "mem_env \<Rightarrow> path_conf \<Rightarrow> ucb_path \<Rightarrow> ucb_str \<Rightarrow> (bool \<times> ucb_str) result" where
  "path_compose_to me cf path out =
     rbind (path_compose_info cf path) (\<lambda>(total, sep, need_sep).
     rbind (ucb_str_clear out) (\<lambda>out.
     if total = 0 then Ret (True, out)
     else and_then (path_reserve me out total) (\<lambda>out.
       rbind (str_bytes (p_dir path)) (\<lambda>d.
       rbind (str_bytes (p_stem path)) (\<lambda>stem.
       rbind (str_bytes (p_ext path)) (\<lambda>ext.
       rbind (str_store_end out (d @ (if need_sep then [sep] else []) @ stem @ ext)) (\<lambda>out.
       Ret (True, out))))))))"

definition path_update :: "mem_env \<Rightarrow> path_conf \<Rightarrow> ucb_path \<Rightarrow> ucb_path result" where
  "path_update me cf path =
     (if \<not> p_dirty path then Ret path
      else
        rbind (path_build_name me path (p_name path)) (\<lambda>(ok, name).
        let path = path\<lparr>p_name := name\<rparr> in
        rbind (if ok then path_compose_to me cf path (p_cache path) else Ret (False, p_cache path)) (\<lambda>(ok, cache).
        Ret (path\<lparr>p_cache := cache, p_dirty := \<not> ok\<rparr>))))"

definition path_length :: "path_conf \<Rightarrow> ucb_path \<Rightarrow> nat result" where
  "path_length cf path = rbind (path_compose_info cf path) (\<lambda>(total, _, _). Ret total)"

definition path_build_anchor ::
    "mem_env \<Rightarrow> path_conf \<Rightarrow> byte list \<Rightarrow> path_anchor_kind \<Rightarrow> nat \<Rightarrow> byte \<Rightarrow> ucb_str \<Rightarrow> (bool \<times> ucb_str) result" where
  "path_build_anchor me cf dir ak anchor_len sep out =
     rbind (ucb_str_clear out) (\<lambda>out.
     and_then (copy_anchor me (path_sep_match cf sep) sep (take anchor_len dir) out) (\<lambda>out.
     if ak = PATH_ANCHOR_DRIVE then path_append_cstr me out [sep] 1 else Ret (True, out)))"

section \<open>Normalization\<close>

text \<open>
  \<^verbatim>\<open>starts\<close> is a block of \<open>plen + 1\<close> cells nobody has written; \<open>starts[d]\<close> is the length of the output
  in front of segment \<open>d\<close>.
\<close>

record norm_state =
  n_out :: ucb_str
  n_starts :: "nat option list"
  n_depth :: nat
  n_base :: nat

text \<open>\<^verbatim>\<open>out->size = n; out->data[n] = '\0';\<close> in an owned block.\<close>

definition str_truncate :: "ucb_str \<Rightarrow> nat \<Rightarrow> ucb_str result" where
  "str_truncate s n =
     rbind (mem_of s) (\<lambda>m.
     if s_alloc s = 0 then Undef
     else rbind (mem_put n [0] m) (\<lambda>m. Ret (s\<lparr>s_blk := BMem m, s_size := n\<rparr>)))"

text \<open>The separator in front of a further segment, and the segment.\<close>

definition norm_append :: "mem_env \<Rightarrow> byte \<Rightarrow> byte list \<Rightarrow> ucb_str \<Rightarrow> (bool \<times> ucb_str) result" where
  "norm_append me sep seg out =
     rbind (str_bytes out) (\<lambda>o'.
     and_then (if s_size out > 0 \<and> last o' \<noteq> sep then path_append_cstr me out [sep] 1 else Ret (True, out))
       (\<lambda>out. path_append_cstr me out seg (length seg)))"

definition norm_push :: "mem_env \<Rightarrow> byte \<Rightarrow> byte list \<Rightarrow> norm_state \<Rightarrow> (bool \<times> norm_state) result" where
  "norm_push me sep seg st =
     (if n_depth st < length (n_starts st) then
        rbind (norm_append me sep seg (n_out st)) (\<lambda>(ok, out).
        let st = st\<lparr>n_starts := (n_starts st)[n_depth st := Some (s_size (n_out st))], n_out := out\<rparr> in
        if ok then Ret (True, st\<lparr>n_depth := n_depth st + 1\<rparr>) else Ret (False, st))
      else Undef)"

definition norm_pop :: "norm_state \<Rightarrow> norm_state result" where
  "norm_pop st =
     (let depth = n_depth st - 1 in
      if depth < length (n_starts st) then
        (case n_starts st ! depth of
           None \<Rightarrow> Undef
         | Some n \<Rightarrow> rbind (str_truncate (n_out st) n) (\<lambda>out. Ret (st\<lparr>n_out := out, n_depth := depth\<rparr>)))
      else Undef)"

text \<open>One segment of the input.\<close>

definition norm_segment ::
    "mem_env \<Rightarrow> byte \<Rightarrow> path_anchor_kind \<Rightarrow> byte list \<Rightarrow> norm_state \<Rightarrow> (bool \<times> norm_state) result" where
  "norm_segment me sep ak seg st =
     (if seg = [DOT] then Ret (True, st)
      else if seg = [DOT, DOT] then
        (if n_depth st > n_base st then rbind (norm_pop st) (\<lambda>st. Ret (True, st))
         else if ak = PATH_ANCHOR_NONE then
           and_then (norm_push me sep seg st) (\<lambda>st. Ret (True, st\<lparr>n_base := n_base st + 1\<rparr>))
         else Ret (True, st))
      else norm_push me sep seg st)"

lemma scan_le: "i \<le> length bs \<Longrightarrow> path_scan P bs i \<le> length bs"
  using length_takeWhile_le [of P "drop i bs"] by (simp add: path_scan_def)

lemma scan_ge: "i \<le> path_scan P bs i"
  by (simp add: path_scan_def)

lemma scan_hit: "i < length bs \<Longrightarrow> P (bs ! i) \<Longrightarrow> i < path_scan P bs i"
  by (simp add: path_scan_def flip: Cons_nth_drop_Suc)

lemma scan_stop: "path_scan P bs i < length bs \<Longrightarrow> \<not> P (bs ! path_scan P bs i)"
  using nth_length_takeWhile [of P "drop i bs"] by (simp add: path_scan_def)

text \<open>The loops over the segments of a text advance: this is their measure.\<close>

lemma segment_advance:
  assumes "path_scan P bs i < length bs"
  shows "length bs - path_scan (\<lambda>c. \<not> P c) bs (path_scan P bs i) < length bs - i"
proof -
  have "path_scan P bs i < path_scan (\<lambda>c. \<not> P c) bs (path_scan P bs i)"
    by (rule scan_hit [OF assms]) (use scan_stop [OF assms] in simp)
  then show ?thesis using assms scan_ge [of i P bs] by linarith
qed

function norm_loop ::
    "mem_env \<Rightarrow> (byte \<Rightarrow> bool) \<Rightarrow> byte \<Rightarrow> path_anchor_kind \<Rightarrow> byte list \<Rightarrow> nat \<Rightarrow> norm_state \<Rightarrow> (bool \<times> norm_state) result" where
  "norm_loop me is_sep sep ak pcstr i st =
     (let s = path_scan is_sep pcstr i in
      if s \<ge> length pcstr then Ret (True, st)
      else let e = path_scan (\<lambda>c. \<not> is_sep c) pcstr s in
        and_then (norm_segment me sep ak (take (e - s) (drop s pcstr)) st)
          (norm_loop me is_sep sep ak pcstr e))"
  by pat_completeness auto
termination
  by (relation "measure (\<lambda>(me, is_sep, sep, ak, pcstr, i, st). length pcstr - i)")
    (auto simp: not_le intro: segment_advance)

declare norm_loop.simps [simp del]

definition path_normalize_lexical :: "mem_env \<Rightarrow> path_conf \<Rightarrow> ucb_str \<Rightarrow> ucb_str \<Rightarrow> byte \<Rightarrow> (bool \<times> ucb_str) result" where
  "path_normalize_lexical me cf out path sep =
     rbind (ucb_str_clear out) (\<lambda>out.
     rbind (str_bytes path) (\<lambda>pcstr.
     let (ak, anchor_len) = path_detect_anchor cf pcstr sep; plen = s_size path in
     and_then (copy_anchor me (path_sep_match cf sep) sep (take anchor_len pcstr) out) (\<lambda>out.
     rbind (ucb_malloc me (usize ((plen + 1) * 8))) (\<lambda>ok.
     if \<not> ok then Ret (False, out)
     else
       rbind (norm_loop me (path_sep_match cf sep) sep ak pcstr anchor_len
         \<lparr>n_out = out, n_starts = replicate (plen + 1) None, n_depth = 0, n_base = 0\<rparr>) (\<lambda>(ok, st).
       let out = n_out st in
       if \<not> ok then Ret (False, out)
       else rbind (str_bytes out) (\<lambda>o'.
         and_then (if ak = PATH_ANCHOR_DRIVE \<and> n_depth st = 0 \<and> s_size out > 0 \<and> last o' \<noteq> sep
                   then path_append_cstr me out [sep] 1 else Ret (True, out)) (\<lambda>out.
         if s_size out = 0 \<and> plen > 0 \<and> ak = PATH_ANCHOR_NONE
         then path_append_cstr me out [DOT] 1 else Ret (True, out))))))))"


section \<open>Life cycle\<close>

definition ucb_path_init_style :: "mem_env \<Rightarrow> path_conf \<Rightarrow> ucb_str \<Rightarrow> ucb_path_style \<Rightarrow> (bool \<times> ucb_path) result" where
  "ucb_path_init_style me cf str style = path_init_ex me cf str style"

definition ucb_path_init :: "mem_env \<Rightarrow> path_conf \<Rightarrow> ucb_str \<Rightarrow> (bool \<times> ucb_path) result" where
  "ucb_path_init me cf str = ucb_path_init_style me cf str UCB_PATH_STYLE_DEFAULT"

definition ucb_path_release :: "ucb_path \<Rightarrow> ucb_path result" where
  "ucb_path_release path =
     rbind (ucb_str_release (p_dir path)) (\<lambda>_.
     rbind (ucb_str_release (p_stem path)) (\<lambda>_.
     rbind (ucb_str_release (p_ext path)) (\<lambda>_.
     rbind (ucb_str_release (p_name path)) (\<lambda>_.
     rbind (ucb_str_release (p_cache path)) (\<lambda>_. Ret path_zero)))))"

definition ucb_path_free :: "ucb_path \<Rightarrow> unit result" where
  "ucb_path_free path = rbind (ucb_path_release path) (\<lambda>_. Ret ())"

text \<open>A path the caller gets when the initialization succeeded; otherwise it is freed again.\<close>

definition keep_path :: "bool \<times> ucb_path \<Rightarrow> ucb_path option result" where
  "keep_path r = (case r of (ok, path) \<Rightarrow> if ok then Ret (Some path) else rbind (ucb_path_free path) (\<lambda>_. Ret None))"

definition ucb_path_new_style :: "mem_env \<Rightarrow> path_conf \<Rightarrow> ucb_str \<Rightarrow> ucb_path_style \<Rightarrow> ucb_path option result" where
  "ucb_path_new_style me cf str style =
     rbind (ucb_malloc me sizeof_ucb_path) (\<lambda>ok.
     if \<not> ok then Ret None else rbind (ucb_path_init_style me cf str style) keep_path)"

definition ucb_path_new :: "mem_env \<Rightarrow> path_conf \<Rightarrow> ucb_str \<Rightarrow> ucb_path option result" where
  "ucb_path_new me cf str =
     rbind (ucb_malloc me sizeof_ucb_path) (\<lambda>ok.
     if \<not> ok then Ret None else rbind (ucb_path_init me cf str) keep_path)"

definition ucb_path_copy :: "mem_env \<Rightarrow> ucb_path \<Rightarrow> path_arg \<Rightarrow> (bool \<times> ucb_path) result" where
  "ucb_path_copy me dst src =
     (case src of
        SelfPath \<Rightarrow> Ret (True, dst)
      | OtherPath src \<Rightarrow>
          rbind (ucb_str_copy me (p_dir dst) (OtherArg (p_dir src))) (\<lambda>(ok, dir).
          rbind (ucb_str_copy me (p_stem dst) (OtherArg (p_stem src))) (\<lambda>(ok2, stem).
          rbind (ucb_str_copy me (p_ext dst) (OtherArg (p_ext src))) (\<lambda>(ok3, ext).
          Ret (ok3 \<and> ok2 \<and> ok, dst\<lparr>p_dir := dir, p_stem := stem, p_ext := ext,
            p_style := p_style src, p_dirty := True\<rparr>)))))"

definition ucb_path_clone :: "mem_env \<Rightarrow> ucb_path \<Rightarrow> ucb_path option result" where
  "ucb_path_clone me src =
     rbind (ucb_malloc me sizeof_ucb_path) (\<lambda>ok.
     if \<not> ok then Ret None else rbind (ucb_path_copy me ucb_path_make (OtherPath src)) keep_path)"

text \<open>A failed clone is a null pointer, which \<^verbatim>\<open>path_parse\<close> then reads.\<close>

definition ucb_path_assign :: "mem_env \<Rightarrow> path_conf \<Rightarrow> ucb_path \<Rightarrow> path_str_arg \<Rightarrow> (bool \<times> ucb_path) result" where
  "ucb_path_assign me cf path a =
     (if path_str_aliases path a then
        rbind (ucb_str_clone me (path_field path a)) (\<lambda>clone.
        case clone of
          None \<Rightarrow> Undef
        | Some str \<Rightarrow>
            rbind (path_parse me cf path str (p_style path)) (\<lambda>r.
            rbind (ucb_str_free (Some str)) (\<lambda>_. Ret r)))
      else path_parse me cf path (path_field path a) (p_style path))"

definition ucb_path_clear :: "ucb_path \<Rightarrow> ucb_path result" where
  "ucb_path_clear path =
     rbind (ucb_str_clear (p_dir path)) (\<lambda>dir.
     rbind (ucb_str_clear (p_stem path)) (\<lambda>stem.
     rbind (ucb_str_clear (p_ext path)) (\<lambda>ext.
     rbind (ucb_str_clear (p_name path)) (\<lambda>name.
     rbind (ucb_str_clear (p_cache path)) (\<lambda>cache.
     Ret (path\<lparr>p_dir := dir, p_stem := stem, p_ext := ext, p_name := name, p_cache := cache,
       p_dirty := True\<rparr>))))))"

section \<open>Queries\<close>

text \<open>The returned pointer is the cache's data.\<close>

definition ucb_path_cstr :: "mem_env \<Rightarrow> path_conf \<Rightarrow> ucb_path \<Rightarrow> (cblock \<times> ucb_path) result" where
  "ucb_path_cstr me cf path =
     rbind (path_update me cf path) (\<lambda>path. Ret (s_blk (p_cache path), path))"

definition ucb_path_str :: "mem_env \<Rightarrow> path_conf \<Rightarrow> ucb_path \<Rightarrow> (ucb_str \<times> ucb_path) result" where
  "ucb_path_str me cf path =
     rbind (path_update me cf path) (\<lambda>path. Ret (p_cache path, path))"

definition ucb_path_filename :: "mem_env \<Rightarrow> path_conf \<Rightarrow> ucb_path \<Rightarrow> (ucb_str \<times> ucb_path) result" where
  "ucb_path_filename me cf path =
     rbind (path_update me cf path) (\<lambda>path. Ret (p_name path, path))"

text \<open>A string the caller gets when it was filled; otherwise it is freed again.\<close>

definition keep_str :: "bool \<times> ucb_str \<Rightarrow> ucb_str option result" where
  "keep_str r = (case r of (ok, s) \<Rightarrow> if ok then Ret (Some s) else rbind (ucb_str_free (Some s)) (\<lambda>_. Ret None))"

definition ucb_path_to_str :: "mem_env \<Rightarrow> path_conf \<Rightarrow> ucb_path \<Rightarrow> ucb_str option result" where
  "ucb_path_to_str me cf path =
     rbind (ucb_str_new me None 0) (\<lambda>out.
     case out of
       None \<Rightarrow> Ret None
     | Some out \<Rightarrow> rbind (path_compose_to me cf path out) keep_str)"

definition ucb_path_len :: "path_conf \<Rightarrow> ucb_path \<Rightarrow> nat result" where
  "ucb_path_len cf path = path_length cf path"

definition ucb_path_is_empty :: "ucb_path \<Rightarrow> bool" where
  "ucb_path_is_empty path = (s_size (p_dir path) = 0 \<and> s_size (p_stem path) = 0 \<and> s_size (p_ext path) = 0)"

definition ucb_path_is_absolute :: "path_conf \<Rightarrow> ucb_path \<Rightarrow> bool result" where
  "ucb_path_is_absolute cf path =
     rbind (str_bytes (p_dir path)) (\<lambda>d.
     let n = s_size (p_dir path); sep = path_sep_of cf (p_style path) in
     if n = 0 then Ret False
     else if path_sep_match cf sep (d ! 0) then Ret True
     else if win32 cf then Ret (n \<ge> 2 \<and> d ! 1 = COLON \<and> c_isalpha (d ! 0))
     else Ret False)"

definition ucb_path_is_relative :: "path_conf \<Rightarrow> ucb_path \<Rightarrow> bool result" where
  "ucb_path_is_relative cf path = rbind (ucb_path_is_absolute cf path) (\<lambda>b. Ret (\<not> b))"

text \<open>The loop replaces the separators in the block of the directory.\<close>

definition ucb_path_set_style :: "path_conf \<Rightarrow> ucb_path \<Rightarrow> ucb_path_style \<Rightarrow> ucb_path result" where
  "ucb_path_set_style cf path style =
     (let ns = path_resolve_style cf style;
          old_sep = path_sep_of cf (p_style path);
          new_sep = path_sep_of cf ns;
          dir = p_dir path in
      rbind (if old_sep \<noteq> new_sep \<and> s_size dir > 0 then
               rbind (mem_of dir) (\<lambda>m.
               rbind (mem_read m (s_size dir)) (\<lambda>d.
               if s_alloc dir = 0 then Undef
               else rbind (mem_put 0 (map (\<lambda>c. if path_sep_match cf old_sep c then new_sep else c) d) m) (\<lambda>m.
               Ret (dir\<lparr>s_blk := BMem m\<rparr>))))
             else Ret dir) (\<lambda>dir.
      Ret (path\<lparr>p_dir := dir, p_style := ns, p_dirty := True\<rparr>)))"

definition ucb_path_get_style :: "ucb_path \<Rightarrow> ucb_path_style" where
  "ucb_path_get_style path = p_style path"

definition ucb_path_sep :: "path_conf \<Rightarrow> byte" where
  "ucb_path_sep cf = path_sep_of cf UCB_PATH_STYLE_DEFAULT"

definition ucb_path_sep_cstr :: "path_conf \<Rightarrow> byte list" where
  "ucb_path_sep_cstr cf = (if ucb_path_sep cf = SLASH then [SLASH, 0] else [BACKSLASH, 0])"

definition ucb_path_dir :: "ucb_path \<Rightarrow> ucb_str" where
  "ucb_path_dir path = p_dir path"

definition ucb_path_stem :: "ucb_path \<Rightarrow> ucb_str" where
  "ucb_path_stem path = p_stem path"

definition ucb_path_ext :: "ucb_path \<Rightarrow> ucb_str" where
  "ucb_path_ext path = p_ext path"

section \<open>Setters\<close>

definition ucb_path_set_dir :: "mem_env \<Rightarrow> path_conf \<Rightarrow> ucb_path \<Rightarrow> path_str_arg \<Rightarrow> (bool \<times> ucb_path) result" where
  "ucb_path_set_dir me cf path a =
     (let dir = path_field path a in
      rbind (path_build_dir me cf (p_dir path) dir (s_size dir) (path_sep_of cf (p_style path))) (\<lambda>(ok, dir).
      Ret (ok, path\<lparr>p_dir := dir, p_dirty := True\<rparr>)))"

definition ucb_path_set_stem :: "mem_env \<Rightarrow> ucb_path \<Rightarrow> path_str_arg \<Rightarrow> (bool \<times> ucb_path) result" where
  "ucb_path_set_stem me path a =
     rbind (ucb_str_copy me (p_stem path) (if a = PStem then SelfArg else OtherArg (path_field path a)))
       (\<lambda>(ok, stem). Ret (ok, path\<lparr>p_stem := stem, p_dirty := True\<rparr>))"

definition ucb_path_set_ext :: "mem_env \<Rightarrow> ucb_path \<Rightarrow> path_str_arg \<Rightarrow> (bool \<times> ucb_path) result" where
  "ucb_path_set_ext me path a =
     (let ext = path_field path a; n = s_size ext in
      rbind (str_bytes ext) (\<lambda>s.
      let i = path_scan (\<lambda>c. c = DOT) s 0 in
      rbind (if i \<ge> n then ucb_str_assign me (p_ext path) CNull 0
             else
               rbind (path_reserve me str_empty (usize (n - i + 1))) (\<lambda>(ok, tmp).
               rbind (if ok then rbind (str_store_end tmp (DOT # drop i s)) (\<lambda>tmp.
                        rbind (ucb_str_copy me (p_ext path) (OtherArg tmp)) (\<lambda>(ok, ext). Ret (ok, ext, tmp)))
                      else Ret (False, p_ext path, tmp)) (\<lambda>(ok, ext, tmp).
               rbind (ucb_str_release tmp) (\<lambda>_. Ret (ok, ext))))) (\<lambda>(ok, ext).
      Ret (ok, path\<lparr>p_ext := ext, p_dirty := True\<rparr>))))"

definition ucb_path_replace_ext :: "mem_env \<Rightarrow> ucb_path \<Rightarrow> path_str_arg \<Rightarrow> (bool \<times> ucb_path) result" where
  "ucb_path_replace_ext me path a = ucb_path_set_ext me path a"

definition ucb_path_set_filename :: "mem_env \<Rightarrow> ucb_path \<Rightarrow> path_str_arg \<Rightarrow> (bool \<times> ucb_path) result" where
  "ucb_path_set_filename me path a =
     rbind (ucb_str_copy me str_empty (OtherArg (path_field path a))) (\<lambda>(ok, tmp).
     rbind (if ok then rbind (mem_of tmp) (\<lambda>m. path_parse_filename me path m (s_size tmp))
            else Ret (False, path)) (\<lambda>(ok, path).
     rbind (ucb_str_release tmp) (\<lambda>_.
     Ret (ok, path\<lparr>p_dirty := True\<rparr>))))"

section \<open>Joining and comparing\<close>

text \<open>The base filename becomes a directory segment when joining.\<close>

definition path_append_name :: "mem_env \<Rightarrow> ucb_path \<Rightarrow> byte \<Rightarrow> (bool \<times> ucb_str) result" where
  "path_append_name me path sep =
     (if path_has_name path then
        rbind (str_bytes (p_dir path)) (\<lambda>d.
        let need_sep = (s_size (p_dir path) > 0 \<and> last d \<noteq> sep) in
        and_then (path_reserve me (p_dir path)
            (usize ((if need_sep then 1 else 0) + s_size (p_stem path) + s_size (p_ext path)))) (\<lambda>dir.
          rbind (str_bytes (p_stem path)) (\<lambda>stem.
          rbind (str_bytes (p_ext path)) (\<lambda>ext.
          rbind (str_store_end dir ((if need_sep then [sep] else []) @ stem @ ext)) (\<lambda>dir.
          Ret (True, dir))))))
      else Ret (True, p_dir path))"

definition path_append_other :: "mem_env \<Rightarrow> path_conf \<Rightarrow> ucb_path \<Rightarrow> ucb_path \<Rightarrow> (bool \<times> ucb_path) result" where
  "path_append_other me cf path other =
     rbind (ucb_path_is_absolute cf other) (\<lambda>abs.
     if abs then ucb_path_copy me path (OtherPath other)
     else
       let sep = path_sep_of cf (p_style path) in
       rbind (path_append_name me path sep) (\<lambda>(ok, dir).
       let path = path\<lparr>p_dir := dir\<rparr> in
       if \<not> ok then Ret (False, path)
       else
         rbind (if s_size (p_dir other) > 0 then
                  rbind (mem_of (p_dir other)) (\<lambda>m. path_append_segment me dir m (s_size (p_dir other)) sep)
                else Ret (True, dir)) (\<lambda>(ok, dir).
         rbind (ucb_str_copy me (p_stem path) (OtherArg (p_stem other))) (\<lambda>(ok2, stem).
         rbind (ucb_str_copy me (p_ext path) (OtherArg (p_ext other))) (\<lambda>(ok3, ext).
         Ret (ok3 \<and> ok2 \<and> ok, path\<lparr>p_dir := dir, p_stem := stem, p_ext := ext, p_dirty := True\<rparr>))))))"

definition ucb_path_append :: "mem_env \<Rightarrow> path_conf \<Rightarrow> ucb_path \<Rightarrow> path_arg \<Rightarrow> (bool \<times> ucb_path) result" where
  "ucb_path_append me cf path other =
     (case other of
        OtherPath other \<Rightarrow> path_append_other me cf path other
      | SelfPath \<Rightarrow>
          rbind (ucb_path_clone me path) (\<lambda>copy.
          case copy of
            None \<Rightarrow> Ret (False, path)
          | Some copy \<Rightarrow>
              rbind (path_append_other me cf path copy) (\<lambda>r.
              rbind (ucb_path_free copy) (\<lambda>_. Ret r))))"

definition ucb_path_join :: "mem_env \<Rightarrow> path_conf \<Rightarrow> ucb_path \<Rightarrow> ucb_path \<Rightarrow> ucb_path option result" where
  "ucb_path_join me cf base other =
     rbind (ucb_path_clone me base) (\<lambda>result.
     case result of
       None \<Rightarrow> Ret None
     | Some result \<Rightarrow> rbind (ucb_path_append me cf result (OtherPath other)) keep_path)"

definition ucb_path_append_str :: "mem_env \<Rightarrow> path_conf \<Rightarrow> ucb_path \<Rightarrow> path_str_arg \<Rightarrow> (bool \<times> ucb_path) result" where
  "ucb_path_append_str me cf path a =
     rbind (ucb_path_init_style me cf (path_field path a) (p_style path)) (\<lambda>(ok, tmp).
     if \<not> ok then rbind (ucb_path_release tmp) (\<lambda>_. Ret (False, path))
     else
       rbind (ucb_path_append me cf path (OtherPath tmp)) (\<lambda>r.
       rbind (ucb_path_release tmp) (\<lambda>_. Ret r)))"

definition ucb_path_join_str :: "mem_env \<Rightarrow> path_conf \<Rightarrow> ucb_str \<Rightarrow> ucb_str \<Rightarrow> ucb_path option result" where
  "ucb_path_join_str me cf base other =
     rbind (ucb_path_new me cf base) (\<lambda>result.
     case result of
       None \<Rightarrow> Ret None
     | Some result \<Rightarrow> rbind (ucb_path_append_str me cf result (PStr other)) keep_path)"

definition ucb_path_normalize :: "mem_env \<Rightarrow> path_conf \<Rightarrow> ucb_path \<Rightarrow> (bool \<times> ucb_path) result" where
  "ucb_path_normalize me cf path =
     (let sep = path_sep_of cf (p_style path) in
      rbind (path_compose_to me cf path str_empty) (\<lambda>(ok, cur).
      rbind (if ok then
               rbind (path_normalize_lexical me cf str_empty cur sep) (\<lambda>(ok, norm).
               rbind (if ok then path_parse me cf path norm (p_style path) else Ret (False, path)) (\<lambda>r.
               rbind (ucb_str_release norm) (\<lambda>_. Ret r)))
             else Ret (False, path)) (\<lambda>(ok, path).
      rbind (ucb_str_release cur) (\<lambda>_. Ret (ok, path\<lparr>p_dirty := True\<rparr>)))))"

text \<open>Both composed strings, when composing succeeded, handed to a comparison.\<close>

definition path_compare_with ::
    "mem_env \<Rightarrow> path_conf \<Rightarrow> ucb_path \<Rightarrow> ucb_path \<Rightarrow> (ucb_str \<Rightarrow> ucb_str \<Rightarrow> 'a result) \<Rightarrow> 'a \<Rightarrow> 'a result" where
  "path_compare_with me cf a b f failed =
     rbind (path_compose_to me cf a str_empty) (\<lambda>(ok, sa).
     rbind (if ok then path_compose_to me cf b str_empty else Ret (False, str_empty)) (\<lambda>(ok, sb).
     rbind (if ok then f sa sb else Ret failed) (\<lambda>r.
     rbind (ucb_str_release sa) (\<lambda>_.
     rbind (ucb_str_release sb) (\<lambda>_. Ret r)))))"

definition ucb_path_equals :: "mem_env \<Rightarrow> path_conf \<Rightarrow> ucb_path \<Rightarrow> ucb_path \<Rightarrow> bool result" where
  "ucb_path_equals me cf a b = path_compare_with me cf a b ucb_str_equal False"

definition ucb_path_comp :: "mem_env \<Rightarrow> path_conf \<Rightarrow> ucb_path \<Rightarrow> ucb_path \<Rightarrow> int result" where
  "ucb_path_comp me cf a b = path_compare_with me cf a b ucb_str_comp 0"

section \<open>Parts and parents\<close>

text \<open>The loop of \<^verbatim>\<open>ucb_path_num_parts\<close>.\<close>

function count_loop :: "(byte \<Rightarrow> bool) \<Rightarrow> byte list \<Rightarrow> nat \<Rightarrow> nat \<Rightarrow> nat" where
  "count_loop is_sep d i cnt =
     (let s = path_scan is_sep d i in
      if s \<ge> length d then cnt
      else count_loop is_sep d (path_scan (\<lambda>c. \<not> is_sep c) d s) (cnt + 1))"
  by pat_completeness auto
termination
  by (relation "measure (\<lambda>(is_sep, d, i, cnt). length d - i)") (auto simp: not_le intro: segment_advance)

text \<open>The loop of \<^verbatim>\<open>ucb_path_part\<close>: the segment \<open>[s, e)\<close> it looks for, or \<open>pos\<close> after the loop.\<close>

function part_loop :: "(byte \<Rightarrow> bool) \<Rightarrow> byte list \<Rightarrow> nat \<Rightarrow> nat \<Rightarrow> nat \<Rightarrow> nat + nat \<times> nat" where
  "part_loop is_sep d index i pos =
     (let s = path_scan is_sep d i in
      if s \<ge> length d then Inl pos
      else let e = path_scan (\<lambda>c. \<not> is_sep c) d s in
        if index = pos then Inr (s, e) else part_loop is_sep d index e (pos + 1))"
  by pat_completeness auto
termination
  by (relation "measure (\<lambda>(is_sep, d, index, i, pos). length d - i)") (auto simp: not_le intro: segment_advance)

declare count_loop.simps [simp del] part_loop.simps [simp del]

definition ucb_path_num_parts :: "path_conf \<Rightarrow> ucb_path \<Rightarrow> nat result" where
  "ucb_path_num_parts cf path =
     (let sep = path_sep_of cf (p_style path) in
      rbind (str_bytes (p_dir path)) (\<lambda>d.
      let (ak, anchor_len) = path_detect_anchor cf d sep;
          cnt = count_loop (path_sep_match cf sep) d anchor_len (if ak \<noteq> PATH_ANCHOR_NONE then 1 else 0)
      in Ret (if path_has_name path then cnt + 1 else cnt)))"

text \<open>The last part is the file name.\<close>

definition path_name_part :: "mem_env \<Rightarrow> ucb_path \<Rightarrow> ucb_str option result" where
  "path_name_part me path =
     rbind (ucb_str_new me None 0) (\<lambda>result.
     case result of
       None \<Rightarrow> Ret None
     | Some result \<Rightarrow>
         rbind (str_bytes (p_stem path)) (\<lambda>stem.
         rbind (str_bytes (p_ext path)) (\<lambda>ext.
         rbind (and_then (path_append_cstr me result stem (s_size (p_stem path))) (\<lambda>result.
                path_append_cstr me result ext (s_size (p_ext path)))) keep_str)))"

definition path_anchor_part ::
    "mem_env \<Rightarrow> path_conf \<Rightarrow> byte list \<Rightarrow> path_anchor_kind \<Rightarrow> nat \<Rightarrow> byte \<Rightarrow> ucb_str option result" where
  "path_anchor_part me cf d ak anchor_len sep =
     rbind (ucb_str_new me None 0) (\<lambda>result.
     case result of
       None \<Rightarrow> Ret None
     | Some result \<Rightarrow> rbind (path_build_anchor me cf d ak anchor_len sep result) keep_str)"

definition ucb_path_part :: "mem_env \<Rightarrow> path_conf \<Rightarrow> ucb_path \<Rightarrow> nat \<Rightarrow> ucb_str option result" where
  "ucb_path_part me cf path index =
     (let sep = path_sep_of cf (p_style path) in
      rbind (str_bytes (p_dir path)) (\<lambda>d.
      let (ak, anchor_len) = path_detect_anchor cf d sep in
      if ak \<noteq> PATH_ANCHOR_NONE \<and> index = 0 then path_anchor_part me cf d ak anchor_len sep
      else
        case part_loop (path_sep_match cf sep) d index anchor_len (if ak \<noteq> PATH_ANCHOR_NONE then 1 else 0) of
          Inr (s, e) \<Rightarrow> rbind (mem_of (p_dir path)) (\<lambda>m. ucb_str_new me (Some (drop s m)) (e - s))
        | Inl pos \<Rightarrow>
            if path_has_name path \<and> index = pos then path_name_part me path
            else Abort UCB_ERROR_OUT_OF_BOUNDS))"

text \<open>The loop of \<^verbatim>\<open>path_inside_one\<close>; freeing a null part is an argument error.\<close>

fun inside_loop :: "mem_env \<Rightarrow> path_conf \<Rightarrow> ucb_path \<Rightarrow> ucb_path \<Rightarrow> nat list \<Rightarrow> bool result" where
  "inside_loop me cf inner outer [] = Ret True"
| "inside_loop me cf inner outer (i # is) =
     rbind (ucb_path_part me cf inner i) (\<lambda>pi.
     rbind (ucb_path_part me cf outer i) (\<lambda>po.
     rbind (case (pi, po) of (Some a, Some b) \<Rightarrow> ucb_str_equal a b | _ \<Rightarrow> Ret False) (\<lambda>same.
     rbind (ucb_str_free pi) (\<lambda>_.
     rbind (ucb_str_free po) (\<lambda>_.
     if \<not> same then Ret False else inside_loop me cf inner outer is)))))"

definition path_inside_one :: "mem_env \<Rightarrow> path_conf \<Rightarrow> ucb_path \<Rightarrow> ucb_path \<Rightarrow> bool result" where
  "path_inside_one me cf inner outer =
     rbind (ucb_path_num_parts cf inner) (\<lambda>ni.
     rbind (ucb_path_num_parts cf outer) (\<lambda>no.
     if ni = 0 \<or> no = 0 \<or> ni \<le> no then Ret False
     else inside_loop me cf inner outer [0..<no]))"

definition ucb_path_is_inside :: "mem_env \<Rightarrow> path_conf \<Rightarrow> ucb_path \<Rightarrow> ucb_path \<Rightarrow> bool result" where
  "ucb_path_is_inside me cf a b =
     rbind (path_inside_one me cf a b) (\<lambda>r. if r then Ret True else path_inside_one me cf b a)"

text \<open>The vector of owned strings, \<^verbatim>\<open>src/ucb/container/impl/vector_str.c\<close>.\<close>

definition ucb_vector_str_new :: "mem_env \<Rightarrow> ucb_str ucb_vector option result" where
  "ucb_vector_str_new me = vec_new me"

definition ucb_vector_str_push_back :: "mem_env \<Rightarrow> ucb_str ucb_vector \<Rightarrow> ucb_str \<Rightarrow> ucb_str ucb_vector result" where
  "ucb_vector_str_push_back me vec data = vec_push_back me 8 vec data"

definition ucb_vector_str_free :: "ucb_str ucb_vector option \<Rightarrow> unit result" where
  "ucb_vector_str_free vec = vec_free vec"

fun free_strs :: "ucb_str list \<Rightarrow> unit result" where
  "free_strs [] = Ret ()"
| "free_strs (s # ss) = rbind (ucb_str_free (Some s)) (\<lambda>_. free_strs ss)"

definition ucb_vector_str_clear_deep :: "ucb_str ucb_vector \<Rightarrow> ucb_str ucb_vector result" where
  "ucb_vector_str_clear_deep vec =
     rbind (vec_elems vec) (\<lambda>ss. rbind (free_strs ss) (\<lambda>_. Ret (vec\<lparr>v_size := 0\<rparr>)))"

definition ucb_vector_str_free_full :: "ucb_str ucb_vector option \<Rightarrow> unit result" where
  "ucb_vector_str_free_full vec =
     (case vec of
        None \<Rightarrow> Ret ()
      | Some v \<Rightarrow> rbind (ucb_vector_str_clear_deep v) (\<lambda>v. vec_free (Some v)))"

fun parts_loop ::
    "mem_env \<Rightarrow> path_conf \<Rightarrow> ucb_path \<Rightarrow> nat list \<Rightarrow> ucb_str ucb_vector \<Rightarrow> ucb_str ucb_vector option result" where
  "parts_loop me cf path [] vec = Ret (Some vec)"
| "parts_loop me cf path (i # is) vec =
     rbind (ucb_path_part me cf path i) (\<lambda>part.
     case part of
       None \<Rightarrow> rbind (ucb_vector_str_free_full (Some vec)) (\<lambda>_. Ret None)
     | Some part \<Rightarrow> rbind (ucb_vector_str_push_back me vec part) (parts_loop me cf path is))"

definition ucb_path_parts :: "mem_env \<Rightarrow> path_conf \<Rightarrow> ucb_path \<Rightarrow> ucb_str ucb_vector option result" where
  "ucb_path_parts me cf path =
     rbind (ucb_vector_str_new me) (\<lambda>vec.
     case vec of
       None \<Rightarrow> Ret None
     | Some vec \<Rightarrow> rbind (ucb_path_num_parts cf path) (\<lambda>n. parts_loop me cf path [0..<n] vec))"

text \<open>The directory of the parent of a path without a file name, as \<open>(ok, dir)\<close>.\<close>

definition path_parent_dir :: "mem_env \<Rightarrow> path_conf \<Rightarrow> ucb_path \<Rightarrow> (bool \<times> ucb_str) result" where
  "path_parent_dir me cf path =
     (let sep = path_sep_of cf (p_style path); dir = p_dir path in
      rbind (str_bytes dir) (\<lambda>d.
      let (ak, anchor_len) = path_detect_anchor cf d sep;
          cut = last_match (path_sep_match cf sep) d anchor_len (s_size dir) in
      if cut = UCB_NPOS \<or> cut \<le> anchor_len then
        (if ak \<noteq> PATH_ANCHOR_NONE then
           rbind (path_build_anchor me cf d ak anchor_len sep str_empty) (\<lambda>(ok, tmp).
           rbind (if ok then ucb_str_copy me dir (OtherArg tmp) else Ret (False, dir)) (\<lambda>(ok, dir).
           rbind (ucb_str_release tmp) (\<lambda>_. Ret (ok, dir))))
         else rbind (ucb_str_clear dir) (\<lambda>dir. Ret (True, dir)))
      else rbind (str_truncate dir cut) (\<lambda>dir. Ret (True, dir))))"

definition ucb_path_parent :: "mem_env \<Rightarrow> path_conf \<Rightarrow> ucb_path \<Rightarrow> ucb_path option result" where
  "ucb_path_parent me cf path =
     rbind (ucb_path_clone me path) (\<lambda>result.
     case result of
       None \<Rightarrow> Ret None
     | Some result \<Rightarrow>
         if path_has_name result then
           rbind (ucb_str_clear (p_stem result)) (\<lambda>stem.
           rbind (ucb_str_clear (p_ext result)) (\<lambda>ext.
           Ret (Some (result\<lparr>p_stem := stem, p_ext := ext, p_dirty := True\<rparr>))))
         else
           rbind (path_parent_dir me cf result) (\<lambda>(ok, dir).
           let result = result\<lparr>p_dir := dir\<rparr> in
           if ok then Ret (Some (result\<lparr>p_dirty := True\<rparr>))
           else rbind (ucb_path_free result) (\<lambda>_. Ret None)))"

text \<open>
  One round of the loop of \<^verbatim>\<open>ucb_path_parents\<close>: \<open>Inl\<close> is the result of the call, \<open>Inr\<close> the path to
  go on with. The path it ends with is freed.
\<close>

definition parents_step ::
    "mem_env \<Rightarrow> path_conf \<Rightarrow> ucb_path \<Rightarrow> ucb_str ucb_vector
     \<Rightarrow> (ucb_str ucb_vector option + ucb_path \<times> ucb_str ucb_vector) result" where
  "parents_step me cf cur vec =
     (if ucb_path_is_empty cur then rbind (ucb_path_free cur) (\<lambda>_. Ret (Inl (Some vec)))
      else
        rbind (ucb_path_parent me cf cur) (\<lambda>parent.
        case parent of
          None \<Rightarrow>
            rbind (ucb_vector_str_free_full (Some vec)) (\<lambda>_.
            rbind (ucb_path_free cur) (\<lambda>_. Ret (Inl None)))
        | Some parent \<Rightarrow>
            rbind (if ucb_path_is_empty parent then Ret True else ucb_path_equals me cf cur parent) (\<lambda>stop.
            if stop then
              rbind (ucb_path_free parent) (\<lambda>_.
              rbind (ucb_path_free cur) (\<lambda>_. Ret (Inl (Some vec))))
            else
              rbind (ucb_path_to_str me cf parent) (\<lambda>str.
              case str of
                None \<Rightarrow>
                  rbind (ucb_path_free parent) (\<lambda>_.
                  rbind (ucb_vector_str_free_full (Some vec)) (\<lambda>_.
                  rbind (ucb_path_free cur) (\<lambda>_. Ret (Inl None))))
              | Some str \<Rightarrow>
                  rbind (ucb_vector_str_push_back me vec str) (\<lambda>vec.
                  rbind (ucb_path_free cur) (\<lambda>_. Ret (Inr (parent, vec))))))))"

text \<open>The loop with at most \<open>fuel\<close> rounds; \<open>None\<close> means that it needs more.\<close>

fun parents_loop ::
    "mem_env \<Rightarrow> path_conf \<Rightarrow> nat \<Rightarrow> ucb_path \<Rightarrow> ucb_str ucb_vector \<Rightarrow> ucb_str ucb_vector option result option" where
  "parents_loop me cf 0 cur vec = None"
| "parents_loop me cf (Suc fuel) cur vec =
     (case parents_step me cf cur vec of
        Ret (Inr (parent, vec)) \<Rightarrow> parents_loop me cf fuel parent vec
      | Ret (Inl r) \<Rightarrow> Some (Ret r)
      | Abort c \<Rightarrow> Some (Abort c)
      | Undef \<Rightarrow> Some Undef)"

definition ucb_path_parents ::
    "mem_env \<Rightarrow> path_conf \<Rightarrow> nat \<Rightarrow> ucb_path \<Rightarrow> ucb_str ucb_vector option result option" where
  "ucb_path_parents me cf fuel path =
     (case rbind (ucb_vector_str_new me) (\<lambda>vec.
           case vec of
             None \<Rightarrow> Ret (Inl ())
           | Some vec \<Rightarrow>
               rbind (ucb_path_clone me path) (\<lambda>cur.
               case cur of
                 None \<Rightarrow> rbind (ucb_vector_str_free (Some vec)) (\<lambda>_. Ret (Inl ()))
               | Some cur \<Rightarrow> Ret (Inr (cur, vec)))) of
        Ret (Inr (cur, vec)) \<Rightarrow> parents_loop me cf fuel cur vec
      | Ret (Inl _) \<Rightarrow> Some (Ret None)
      | Abort c \<Rightarrow> Some (Abort c)
      | Undef \<Rightarrow> Some Undef)"

end
