(* ===== verification/Path_Text.thy ===== *)
theory Path_Text
  imports Path
begin

text \<open>
  What the path operations compute, on texts: the segments of a text and their composition, the
  directory, file name and composed form as functions on byte lists, with the facts on UTF-8 that
  cutting and joining a text at ASCII bytes rests on.
\<close>

section \<open>Segments\<close>

text \<open>The maximal nonempty runs of bytes that are no separators, and their composition.\<close>

lemma rest_shorter:
  assumes "x \<in> set xs" "\<not> P x"
  shows "length (dropWhile (\<lambda>x. \<not> P x) (dropWhile P xs)) < length xs"
proof -
  have "dropWhile P xs \<noteq> []" using assms by auto
  then obtain y ys where y: "dropWhile P xs = y # ys" "\<not> P y"
    by (metis hd_dropWhile list.exhaust list.sel(1))
  have "length (dropWhile (\<lambda>x. \<not> P x) ys) \<le> length ys" "Suc (length ys) \<le> length xs"
    using y length_dropWhile_le [of "\<lambda>x. \<not> P x" ys] length_dropWhile_le [of P xs] by simp_all
  then show ?thesis using y by simp
qed

function segs :: "('a \<Rightarrow> bool) \<Rightarrow> 'a list \<Rightarrow> 'a list list" where
  "segs P xs =
     (let ys = dropWhile P xs in
      if ys = [] then [] else takeWhile (\<lambda>x. \<not> P x) ys # segs P (dropWhile (\<lambda>x. \<not> P x) ys))"
  by pat_completeness auto
termination by (relation "measure (\<lambda>(P, xs). length xs)") (auto intro: rest_shorter)

declare segs.simps [simp del]

fun join_segs :: "'a \<Rightarrow> 'a list list \<Rightarrow> 'a list" where
  "join_segs sep [] = []"
| "join_segs sep [x] = x"
| "join_segs sep (x # y # ys) = x @ sep # join_segs sep (y # ys)"

lemma segs_Nil [simp]: "segs P [] = []"
  by (simp add: segs.simps)

lemma segs_sep [simp]: "P c \<Longrightarrow> segs P (c # xs) = segs P xs"
  by (simp add: segs.simps [of P "c # xs"] segs.simps [of P xs])

lemma segs_seg: "\<not> P c \<Longrightarrow> segs P (c # xs) = (c # takeWhile (\<lambda>x. \<not> P x) xs) # segs P (dropWhile (\<lambda>x. \<not> P x) xs)"
  by (simp add: segs.simps [of P "c # xs"])

lemma segs_seg_end [simp]: "\<not> P c \<Longrightarrow> xs = [] \<or> P (hd xs) \<Longrightarrow> segs P (c # xs) = [c] # segs P xs"
  by (cases xs) (auto simp: segs_seg)

lemma segs_seg_more: "\<not> P c \<Longrightarrow> \<not> P d \<Longrightarrow> segs P (c # d # xs) = (c # hd (segs P (d # xs))) # tl (segs P (d # xs))"
  by (simp add: segs_seg)

lemma segs_Cons:
  "segs P (c # xs) =
     (if P c then segs P xs
      else if xs = [] \<or> P (hd xs) then [c] # segs P xs
      else (c # hd (segs P xs)) # tl (segs P xs))"
  by (cases xs) (simp_all add: segs_seg_more)

lemma segs_eq_Nil_iff: "segs P xs = [] \<longleftrightarrow> (\<forall>x \<in> set xs. P x)"
  by (induction xs) (simp_all add: segs_Cons)

lemma segs_ne: "xs \<noteq> [] \<Longrightarrow> \<not> P (hd xs) \<Longrightarrow> segs P xs \<noteq> []"
  by (cases xs) (simp_all add: segs_Cons)

lemma segs_elem: "s \<in> set (segs P xs) \<Longrightarrow> s \<noteq> [] \<and> (\<forall>x \<in> set s. \<not> P x)"
proof (induction xs arbitrary: s)
  case (Cons c xs)
  show ?case
  proof (cases "P c \<or> xs = [] \<or> P (hd xs)")
    case True
    then show ?thesis using Cons by (auto simp: segs_Cons split: if_splits)
  next
    case False
    then have "segs P xs \<noteq> []" using segs_ne by blast
    then have "hd (segs P xs) \<in> set (segs P xs)" "set (tl (segs P xs)) \<subseteq> set (segs P xs)"
      by (auto dest: list.set_sel(2))
    then show ?thesis using False Cons.prems Cons.IH by (auto simp: segs_Cons)
  qed
qed simp

lemma segs_append_sep: "P c \<Longrightarrow> segs P (xs @ c # ys) = segs P xs @ segs P ys"
proof (induction xs)
  case (Cons x xs)
  then have ih: "segs P (xs @ c # ys) = segs P xs @ segs P ys" by simp
  show ?case
  proof (cases "xs = []")
    case True
    then show ?thesis using Cons.prems by (simp add: segs_Cons)
  next
    case False
    then have "\<not> P (hd xs) \<Longrightarrow> segs P xs \<noteq> []" using segs_ne by blast
    then show ?thesis using ih False by (simp add: segs_Cons)
  qed
qed simp

lemma segs_single: "s \<noteq> [] \<Longrightarrow> (\<And>x. x \<in> set s \<Longrightarrow> \<not> P x) \<Longrightarrow> segs P s = [s]"
  by (cases s) (simp_all add: segs_seg takeWhile_eq_all_conv [THEN iffD2] dropWhile_eq_Nil_conv [THEN iffD2])

lemma join_segs_Cons: "join_segs sep (x # xs) = x @ (if xs = [] then [] else sep # join_segs sep xs)"
  by (cases xs) auto

lemma join_segs_append:
  "xs \<noteq> [] \<Longrightarrow> ys \<noteq> [] \<Longrightarrow> join_segs sep (xs @ ys) = join_segs sep xs @ sep # join_segs sep ys"
  by (induction sep xs rule: join_segs.induct) (auto simp: join_segs_Cons)

text \<open>Cutting a composed text into segments gives the segments.\<close>

lemma segs_join: "P sep \<Longrightarrow> (\<And>s. s \<in> set ss \<Longrightarrow> s \<noteq> [] \<and> (\<forall>x \<in> set s. \<not> P x)) \<Longrightarrow> segs P (join_segs sep ss) = ss"
proof (induction sep ss rule: join_segs.induct)
  case (3 sep x y ys)
  then have "segs P x = [x]" by (intro segs_single) auto
  moreover have "segs P (join_segs sep (y # ys)) = y # ys" using 3 by fastforce
  ultimately show ?case using 3 by (simp add: segs_append_sep)
qed (auto simp: segs_single)

lemma join_segs_eq_Nil: "(\<And>s. s \<in> set ss \<Longrightarrow> s \<noteq> []) \<Longrightarrow> join_segs sep ss = [] \<longleftrightarrow> ss = []"
  by (cases ss) (auto simp: join_segs_Cons)

lemma join_segs_last:
  "ss \<noteq> [] \<Longrightarrow> last ss \<noteq> [] \<Longrightarrow> last (join_segs sep ss) = last (last ss)"
  by (induction sep ss rule: join_segs.induct) (auto simp: join_segs_Cons)

lemma join_segs_set: "set (join_segs sep ss) \<subseteq> insert sep (\<Union> (set ` set ss))"
  by (induction sep ss rule: join_segs.induct) auto

lemma join_segs_step:
  assumes "\<not> P c"
  shows "join_segs sep (segs P (c # cs))
    = c # (if segs P cs \<noteq> [] \<and> cs \<noteq> [] \<and> P (hd cs) then [sep] else []) @ join_segs sep (segs P cs)"
proof (cases "cs = [] \<or> P (hd cs)")
  case True
  then show ?thesis using assms by (auto simp: join_segs_Cons)
next
  case False
  then obtain d ds where d: "cs = d # ds" "\<not> P d" by (cases cs) auto
  then have ne: "segs P (d # ds) \<noteq> []" by (simp add: segs_seg)
  have "join_segs sep (segs P (d # ds)) = join_segs sep (hd (segs P (d # ds)) # tl (segs P (d # ds)))" using ne by simp
  then show ?thesis using assms d ne by (simp add: segs_seg_more join_segs_Cons del: list.collapse)
qed

section \<open>Cutting UTF-8 at ASCII bytes\<close>

definition ascii :: "byte \<Rightarrow> bool" where
  "ascii b \<longleftrightarrow> unat b < 128 \<and> b \<noteq> 0"

lemma utf8_multi_byte: "\<not> unat cp < 128 \<Longrightarrow> is_scalar cp \<Longrightarrow> b \<in> set (utf8 cp) \<Longrightarrow> 128 \<le> unat b"
proof -
  assume a: "\<not> unat cp < 128" "is_scalar cp" "b \<in> set (utf8 cp)"
  have h: "128 \<le> unat (word_of_nat n :: byte)" if "128 \<le> n" "n < 256" for n
    using that by (simp add: unat_byte_of_nat)
  have m: "n mod 64 < 64" "n div 64 mod 64 < 64" "n div 4096 mod 64 < 64" for n :: nat by simp_all
  have c: "unat cp \<le> 1114111" using a(2) by (simp add: is_scalar_unat)
  consider (2) "unat cp < 2048" | (3) "\<not> unat cp < 2048" "unat cp < 65536" | (4) "\<not> unat cp < 65536" by linarith
  then show "128 \<le> unat b"
  proof cases
    case 2
    then have "b = word_of_nat (192 + unat cp div 64) \<or> b = word_of_nat (128 + unat cp mod 64)"
      using a(1,3) by (simp add: utf8_def Let_def del: of_nat_add)
    then show ?thesis using 2 m(1) [of "unat cp"] by (elim disjE) (simp_all only:, (intro h; linarith)+)
  next
    case 3
    then have "b = word_of_nat (224 + unat cp div 4096) \<or> b = word_of_nat (128 + unat cp div 64 mod 64)
        \<or> b = word_of_nat (128 + unat cp mod 64)"
      using a(1,3) by (simp add: utf8_def Let_def del: of_nat_add)
    then show ?thesis using 3 m [of "unat cp"] by (elim disjE) (simp_all only:, (intro h; linarith)+)
  next
    case 4
    then have "b = word_of_nat (240 + unat cp div 262144) \<or> b = word_of_nat (128 + unat cp div 4096 mod 64)
        \<or> b = word_of_nat (128 + unat cp div 64 mod 64) \<or> b = word_of_nat (128 + unat cp mod 64)"
      using a(1,3) by (simp add: utf8_def Let_def del: of_nat_add)
    then show ?thesis using 4 c m [of "unat cp"] by (elim disjE) (simp_all only:, (intro h; linarith)+)
  qed
qed

lemma utf8_ascii_byte: "is_scalar cp \<Longrightarrow> b \<in> set (utf8 cp) \<Longrightarrow> unat b < 128 \<Longrightarrow> utf8 cp = [b]"
  using utf8_multi_byte [of cp b] by (cases "unat cp < 128") (auto simp: utf8_def Let_def)

lemma wf_utf8_split:
  assumes "wf_utf8 (xs @ c # ys)" "unat c < 128"
  shows "wf_utf8 xs \<and> wf_utf8 ys"
proof -
  obtain cps where "list_all is_scalar cps" "xs @ c # ys = utf8s cps" using assms(1) by (auto simp: wf_utf8_def)
  then show ?thesis
  proof (induction cps arbitrary: xs)
    case Nil
    then show ?case by simp
  next
    case (Cons cp cps)
    from Cons.prems(2) have e: "xs @ c # ys = utf8 cp @ utf8s cps" by simp
    show ?case
    proof (cases "length (utf8 cp) \<le> length xs")
      case True
      define zs where "zs = drop (length (utf8 cp)) xs"
      have "take (length (utf8 cp)) (xs @ c # ys) = utf8 cp" unfolding e by simp
      then have z: "xs = utf8 cp @ zs" using True append_take_drop_id [of "length (utf8 cp)" xs] by (simp add: zs_def)
      then have "zs @ c # ys = utf8s cps" using e by simp
      then have "wf_utf8 zs \<and> wf_utf8 ys" using Cons.IH Cons.prems(1) by simp
      moreover have "wf_utf8 (utf8 cp)"
        using Cons.prems(1) by (auto simp: wf_utf8_def intro!: exI [of _ "[cp]"])
      ultimately show ?thesis using z(1) wf_utf8_append by simp
    next
      case False
      then obtain zs where z: "utf8 cp = xs @ c # zs" "ys = zs @ utf8s cps"
        using e by (auto simp: append_eq_append_conv2 Cons_eq_append_conv) metis
      then have "utf8 cp = [c]" using utf8_ascii_byte [of cp c] Cons.prems(1) assms(2) by simp
      then have x: "xs = []" "ys = utf8s cps" using z by (cases xs; simp)+
      then have "wf_utf8 ys" using Cons.prems(1) by (auto simp: wf_utf8_def)
      then show ?thesis using x(1) by simp
    qed
  qed
qed

lemma valid_split:
  assumes "valid_text (xs @ c # ys)" "ascii c"
  shows "valid_text xs" "valid_text ys"
  using assms wf_utf8_split [of xs c ys] by (auto simp: valid_text_def ascii_def)

lemma valid_ascii: "ascii c \<Longrightarrow> valid_text [c]"
  by (rule ascii_valid) (simp add: ascii_def unat_gt_0)

lemma valid_Cons: "ascii c \<Longrightarrow> valid_text (c # xs) \<longleftrightarrow> valid_text xs"
  using valid_text_append [OF valid_ascii, of c xs] valid_split(2) [of "[]" c xs] by auto

lemma valid_join: "ascii c \<Longrightarrow> valid_text (xs @ c # ys) \<longleftrightarrow> valid_text xs \<and> valid_text ys"
  using valid_split [of xs c ys] valid_text_append [of xs "c # ys"] by (auto simp: valid_Cons)

lemma valid_at_cut:
  assumes "valid_text xs" "k = length xs \<or> k < length xs \<and> ascii (xs ! k)"
  shows "valid_text (take k xs)" "valid_text (drop k xs)"
proof -
  show "valid_text (take k xs)" "valid_text (drop k xs)"
    using assms valid_join [of "xs ! k" "take k xs" "drop (Suc k) xs"] valid_Cons [of "xs ! k" "drop (Suc k) xs"]
    by (auto simp: id_take_nth_drop [symmetric] Cons_nth_drop_Suc)
qed

lemma valid_after_cut:
  assumes "valid_text xs" "k = 0 \<or> k \<le> length xs \<and> ascii (xs ! (k - 1))"
  shows "valid_text (take k xs)" "valid_text (drop k xs)"
proof -
  have "valid_text (take k xs) \<and> valid_text (drop k xs)"
  proof (cases k)
    case (Suc j)
    then have j: "j < length xs" "ascii (xs ! j)" using assms(2) by auto
    then have "valid_text (take j xs)" "valid_text (drop (Suc j) xs)"
      using assms(1) valid_join [of "xs ! j" "take j xs" "drop (Suc j) xs"] by (auto simp: id_take_nth_drop [symmetric])
    then show ?thesis using j Suc valid_text_append [OF _ valid_ascii] by (simp add: take_Suc_conv_app_nth)
  qed (use assms in simp)
  then show "valid_text (take k xs)" "valid_text (drop k xs)" by blast+
qed

lemma valid_segs:
  assumes "\<And>b. P b \<Longrightarrow> ascii b" "valid_text xs" "s \<in> set (segs P xs)"
  shows "valid_text s"
  using assms(2,3)
proof (induction "length xs" arbitrary: xs rule: less_induct)
  case less
  show ?case
  proof (cases "\<exists>c \<in> set xs. P c")
    case True
    then obtain as c bs where x: "xs = as @ c # bs" "P c" by (meson split_list)
    then have "valid_text as" "valid_text bs" using less.prems valid_join [of c as bs] assms(1) by auto
    then show ?thesis using less.hyps [of as] less.hyps [of bs] less.prems(2) x by (auto simp: segs_append_sep)
  next
    case False
    then have "xs \<noteq> [] \<Longrightarrow> segs P xs = [xs]" by (intro segs_single) auto
    then show ?thesis using less.prems by (cases "xs = []") auto
  qed
qed

lemma valid_join_segs: "ascii sep \<Longrightarrow> (\<And>s. s \<in> set ss \<Longrightarrow> valid_text s) \<Longrightarrow> valid_text (join_segs sep ss)"
  by (induction sep ss rule: join_segs.induct) (auto simp: valid_join)

lemma valid_map_ascii:
  assumes "\<And>b. P b \<Longrightarrow> ascii b" "ascii sep" "valid_text xs"
  shows "valid_text (map (\<lambda>c. if P c then sep else c) xs)"
  using assms(3)
proof (induction "length xs" arbitrary: xs rule: less_induct)
  case less
  show ?case
  proof (cases "\<exists>c \<in> set xs. P c")
    case False
    then have "map (\<lambda>c. if P c then sep else c) xs = xs" by (auto intro: map_idI)
    then show ?thesis using less.prems by simp
  next
    case True
    then obtain as c bs where x: "xs = as @ c # bs" "P c" by (meson split_list)
    then have "valid_text as" "valid_text bs" using less.prems valid_join [of c as bs] assms(1) by auto
    then show ?thesis using less.hyps [of as] less.hyps [of bs] x assms(2) by (simp add: valid_join)
  qed
qed

section \<open>Directories, names and composed paths as texts\<close>

text \<open>The directory \<^verbatim>\<open>path_build_dir\<close> stores for the region \<open>d\<close>.\<close>

definition dir_body :: "(byte \<Rightarrow> bool) \<Rightarrow> byte \<Rightarrow> byte list \<Rightarrow> bool \<Rightarrow> byte list \<Rightarrow> byte list" where
  "dir_body P sep t pending cs =
     t @ (if segs P cs \<noteq> [] \<and> t \<noteq> [] \<and> (pending \<or> cs \<noteq> [] \<and> P (hd cs)) then [sep] else [])
       @ join_segs sep (segs P cs)"

definition dir_text :: "path_conf \<Rightarrow> byte \<Rightarrow> byte list \<Rightarrow> byte list" where
  "dir_text cf sep d =
     (let (ak, n) = path_detect_anchor cf d 0; P = path_is_sep cf;
          body = dir_body P sep (map (\<lambda>c. if P c then sep else c) (take n d)) False (drop n d) in
      if n > 0 \<and> segs P (drop n d) = [] \<and> ak \<noteq> PATH_ANCHOR_UNC \<and> (body = [] \<or> last body \<noteq> sep)
      then body @ [sep] else body)"

definition split_name :: "byte list \<Rightarrow> byte list \<times> byte list" where
  "split_name f = (let dot = path_find_dot f in if dot = UCB_NPOS then (f, []) else (take dot f, drop dot f))"

text \<open>The directory region ends behind the last separator.\<close>

definition raw_dir_len :: "path_conf \<Rightarrow> byte list \<Rightarrow> nat" where
  "raw_dir_len cf t =
     (let k = last_match (path_is_sep cf) t 0 (length t) in if k = UCB_NPOS then 0 else k + 1)"

text \<open>A path as three texts: directory, stem and extension.\<close>

type_synonym path_text = "byte list \<times> byte list \<times> byte list"

definition parse_text :: "path_conf \<Rightarrow> byte \<Rightarrow> byte list \<Rightarrow> path_text" where
  "parse_text cf sep t =
     (let n = raw_dir_len cf t in (dir_text cf sep (take n t), split_name (drop n t)))"

definition compose_text :: "byte \<Rightarrow> path_text \<Rightarrow> byte list" where
  "compose_text sep p =
     (case p of (d, s, e) \<Rightarrow> d @ (if d \<noteq> [] \<and> s @ e \<noteq> [] \<and> last d \<noteq> sep then [sep] else []) @ s @ e)"

lemma scan0: "path_scan P bs 0 = length (takeWhile P bs)"
  by (simp add: path_scan_def)

lemma sep_ascii [simp]: "ascii SLASH" "ascii BACKSLASH" "ascii DOT" "ascii COLON"
  by (simp_all add: ascii_def)

lemma path_is_sep_ascii: "path_is_sep cf c \<Longrightarrow> ascii c"
  by (auto simp: path_is_sep_def)

lemma path_sep_of_cases: "path_sep_of cf style = SLASH \<or> path_sep_of cf style = BACKSLASH"
  by (simp add: path_sep_of_def split: ucb_path_style.split)

lemma path_sep_of_ascii [simp]: "ascii (path_sep_of cf style)"
  using path_sep_of_cases [of cf style] by auto

lemma path_sep_match_ascii: "ascii sep \<Longrightarrow> path_sep_match cf sep c \<Longrightarrow> ascii c"
  by (auto simp: path_sep_match_def dest: path_is_sep_ascii)

lemma path_sep_match_0 [simp]: "path_sep_match cf 0 = path_is_sep cf"
  by (simp add: path_sep_match_def fun_eq_iff)

lemma path_sep_match_self [simp]: "ascii sep \<Longrightarrow> path_sep_match cf sep sep"
  by (simp add: path_sep_match_def ascii_def)

subsection \<open>Anchors\<close>

text \<open>The anchor ends inside the text, at its end, before an ASCII byte or behind one.\<close>

lemma scan_between: "i \<le> j \<Longrightarrow> j < path_scan P bs i \<Longrightarrow> P (bs ! j)"
proof -
  assume a: "i \<le> j" "j < path_scan P bs i"
  let ?k = "j - i"
  have k: "?k < length (takeWhile P (drop i bs))" using a by (simp add: path_scan_def)
  then have "P (takeWhile P (drop i bs) ! ?k)" using nth_mem [OF k] set_takeWhileD by fast
  moreover have "takeWhile P (drop i bs) ! ?k = drop i bs ! ?k" using k by (rule takeWhile_nth)
  moreover have "i \<le> length bs" using k by (cases "i \<le> length bs") auto
  ultimately show ?thesis using a by simp
qed

lemma unc_anchorD:
  assumes "path_unc_anchor cf d extra = Some n"
  shows "2 < n \<and> n \<le> length d \<and> (n < length d \<longrightarrow> path_sep_match cf extra (d ! n))
    \<and> \<not> path_sep_match cf extra (d ! (n - 1)) \<and> path_sep_match cf extra (d ! 0)"
proof -
  let ?s = "path_sep_match cf extra"
  let ?i = "path_scan (\<lambda>c. \<not> ?s c) d 2"
  have a: "?s (d ! 0)" "?i < length d" "n = path_scan (\<lambda>c. \<not> ?s c) d (?i + 1)" "?i + 1 < n"
    using assms by (auto simp: path_unc_anchor_def Let_def split: if_splits)
  have "2 \<le> ?i" by (rule scan_ge)
  moreover have "n \<le> length d" using a(2,3) scan_le [of "?i + 1" d] by simp
  moreover have "n < length d \<Longrightarrow> ?s (d ! n)" using scan_stop [of "\<lambda>c. \<not> ?s c" d "?i + 1"] a(3) by simp
  moreover have "\<not> ?s (d ! (n - 1))"
    using scan_between [of "?i + 1" "n - 1" "\<lambda>c. \<not> ?s c" d] a(3,4) by simp
  ultimately show ?thesis using a by simp
qed

lemma anchor_cases:
  assumes "path_detect_anchor cf d extra = (ak, n)"
  obtains (none) "ak = PATH_ANCHOR_NONE" "n = 0" "d = [] \<or> \<not> path_sep_match cf extra (d ! 0)"
  | (unc) "win32 cf" "ak = PATH_ANCHOR_UNC" "path_unc_anchor cf d extra = Some n"
  | (drive) "win32 cf" "ak = PATH_ANCHOR_DRIVE" "n = 2" "2 \<le> length d" "d ! 1 = COLON" "c_isalpha (d ! 0)"
  | (root) "ak = PATH_ANCHOR_ROOT" "n = 1" "d \<noteq> []" "path_sep_match cf extra (d ! 0)"
  | (root2) "\<not> win32 cf" "ak = PATH_ANCHOR_ROOT" "n = 2" "2 \<le> length d" "path_sep_match cf extra (d ! 0)"
    "path_sep_match cf extra (d ! 1)"
  using assms by (auto simp: path_detect_anchor_def Let_def split: if_splits option.splits)

lemma anchor_le: "path_detect_anchor cf d extra = (ak, n) \<Longrightarrow> n \<le> length d"
  by (erule anchor_cases) (use unc_anchorD in \<open>auto simp: Suc_le_eq\<close>)

lemma anchor_none: "path_detect_anchor cf d extra = (ak, n) \<Longrightarrow> ak = PATH_ANCHOR_NONE \<longleftrightarrow> n = 0"
  by (erule anchor_cases) (use unc_anchorD [of cf d extra n] in auto)

lemma anchor_cut:
  assumes "path_detect_anchor cf d extra = (ak, n)" "extra = 0 \<or> ascii extra"
  shows "n = length d \<or> n < length d \<and> ascii (d ! n) \<or> n = 0 \<or> n \<le> length d \<and> ascii (d ! (n - 1))"
proof -
  have s: "path_sep_match cf extra c \<Longrightarrow> ascii c" for c
    using assms(2) path_sep_match_ascii path_is_sep_ascii by auto
  show ?thesis using assms(1)
  proof (cases rule: anchor_cases)
    case unc
    then show ?thesis using unc_anchorD [of cf d extra n] s [of "d ! n"] by auto
  next
    case root
    then show ?thesis using s by (auto simp: Suc_le_eq)
  next
    case root2
    then show ?thesis using s by auto
  qed auto
qed

lemma anchor_valid:
  assumes "path_detect_anchor cf d extra = (ak, n)" "extra = 0 \<or> ascii extra" "valid_text d"
  shows "valid_text (take n d)" "valid_text (drop n d)"
  using anchor_cut [OF assms(1,2)] valid_at_cut [OF assms(3)] valid_after_cut [OF assms(3)] by blast+

lemma dir_body_valid:
  assumes "\<And>b. P b \<Longrightarrow> ascii b" "ascii sep" "valid_text t" "valid_text cs"
  shows "valid_text (dir_body P sep t b cs)"
proof -
  have "valid_text (join_segs sep (segs P cs))"
    by (rule valid_join_segs [OF assms(2)]) (rule valid_segs [OF assms(1,4)])
  then show ?thesis using assms(2,3) by (auto simp: dir_body_def valid_Cons intro: valid_text_append)
qed

lemma dir_text_valid:
  assumes "ascii sep" "valid_text d"
  shows "valid_text (dir_text cf sep d)"
proof -
  obtain ak n where a: "path_detect_anchor cf d 0 = (ak, n)" by fastforce
  note v = anchor_valid [OF a _ assms(2), simplified]
  have "valid_text (map (\<lambda>c. if path_is_sep cf c then sep else c) (take n d))"
    by (rule valid_map_ascii [OF _ assms(1) v(1)]) (rule path_is_sep_ascii)
  from dir_body_valid [OF _ assms(1) this v(2), of "path_is_sep cf" False] path_is_sep_ascii [of cf]
  show ?thesis using assms(1) by (auto simp: dir_text_def a Let_def intro: valid_text_append valid_ascii)
qed

subsection \<open>File names\<close>

lemma dot_loop_cases:
  "dot_loop cs start n = UCB_NPOS \<or>
   (start \<le> dot_loop cs start n \<and> 0 < dot_loop cs start n \<and> dot_loop cs start n < n \<and> cs ! dot_loop cs start n = DOT
     \<and> (\<forall>j. dot_loop cs start n < j \<and> j < n \<longrightarrow> cs ! j \<noteq> DOT))"
  by (induction cs start n rule: dot_loop.induct) (auto simp: less_Suc_eq)

lemma path_find_dot_cases:
  "path_find_dot f = UCB_NPOS \<or> (0 < path_find_dot f \<and> path_find_dot f < length f - 1 \<and> f ! path_find_dot f = DOT
    \<and> length (takeWhile (\<lambda>c. c = DOT) f) \<le> path_find_dot f
    \<and> (\<forall>j. path_find_dot f < j \<and> j < length f - 1 \<longrightarrow> f ! j \<noteq> DOT))"
  using dot_loop_cases [of f "length (takeWhile (\<lambda>c. c = DOT) f)" "length f - 1"]
  by (auto simp: path_find_dot_def Let_def scan0)

lemma split_name_append [simp]: "fst (split_name f) @ snd (split_name f) = f"
  by (simp add: split_name_def Let_def)

lemma split_name_valid:
  assumes "valid_text f" shows "valid_text (fst (split_name f))" "valid_text (snd (split_name f))"
proof -
  have "path_find_dot f \<noteq> UCB_NPOS \<Longrightarrow> path_find_dot f < length f \<and> ascii (f ! path_find_dot f)"
    using path_find_dot_cases [of f] by auto
  then show "valid_text (fst (split_name f))" "valid_text (snd (split_name f))"
    using assms valid_at_cut [OF assms, of "path_find_dot f"] by (auto simp: split_name_def Let_def)
qed

subsection \<open>The last separator\<close>

lemma last_match_cases:
  assumes "n \<le> PTRDIFF_MAX"
  shows "(last_match P bs low n = UCB_NPOS \<and> (\<forall>j. low \<le> j \<and> j < n \<longrightarrow> \<not> P (bs ! j))) \<or>
    (last_match P bs low n \<noteq> UCB_NPOS \<and> low \<le> last_match P bs low n \<and> last_match P bs low n < n
      \<and> P (bs ! last_match P bs low n)
      \<and> (\<forall>j. last_match P bs low n < j \<and> j < n \<longrightarrow> \<not> P (bs ! j)))"
  using assms
proof (induction P bs low n rule: last_match.induct)
  case (2 P bs low i)
  have "i \<noteq> UCB_NPOS" using 2(2) NPOS_bound [of i] by simp
  then show ?case using 2 by (auto simp: less_Suc_eq)
qed simp

lemma raw_dir_len_cases:
  assumes "length t \<le> PTRDIFF_MAX"
  shows "raw_dir_len cf t \<le> length t" "raw_dir_len cf t = 0 \<or> path_is_sep cf (t ! (raw_dir_len cf t - 1))"
    "c \<in> set (drop (raw_dir_len cf t) t) \<Longrightarrow> \<not> path_is_sep cf c"
  using last_match_cases [OF assms, of "path_is_sep cf" t 0]
  by (auto simp: raw_dir_len_def Let_def in_set_conv_nth)

lemma raw_dir_len_valid:
  assumes "length t \<le> PTRDIFF_MAX" "valid_text t"
  shows "valid_text (take (raw_dir_len cf t) t)" "valid_text (drop (raw_dir_len cf t) t)"
  using raw_dir_len_cases [OF assms(1)] valid_after_cut [OF assms(2)] path_is_sep_ascii by blast+

end
