(* ===== verification/Path_Spec.thy ===== *)
theory Path_Spec
  imports Path_Text
begin

text \<open>
  The refinement of the path operations: each of them computes the text function of \<open>Path_Text\<close> on the
  texts of the path's strings, keeps the path well formed, and fails only for want of memory.
\<close>

section \<open>The invariant and the abstraction\<close>

definition path_ok :: "ucb_path \<Rightarrow> bool" where
  "path_ok p \<longleftrightarrow> str_ok (p_dir p) \<and> str_ok (p_stem p) \<and> str_ok (p_ext p) \<and> str_ok (p_name p) \<and> str_ok (p_cache p)"

definition path_text :: "ucb_path \<Rightarrow> path_text" where
  "path_text p = (str_text (p_dir p), str_text (p_stem p), str_text (p_ext p))"

text \<open>A path that is not marked dirty has its caches up to date.\<close>

definition path_fresh :: "path_conf \<Rightarrow> ucb_path \<Rightarrow> bool" where
  "path_fresh cf p \<longleftrightarrow> \<not> p_dirty p \<longrightarrow>
     str_text (p_name p) = str_text (p_stem p) @ str_text (p_ext p)
     \<and> str_text (p_cache p) = compose_text (path_sep_of cf (p_style p)) (path_text p)"

definition path_inv :: "path_conf \<Rightarrow> ucb_path \<Rightarrow> bool" where
  "path_inv cf p \<longleftrightarrow> path_ok p \<and> path_fresh cf p"

lemma path_make_ok: "path_ok ucb_path_make" "path_text ucb_path_make = ([], [], [])" "path_inv cf ucb_path_make"
  by (simp_all add: path_inv_def path_fresh_def path_ok_def path_text_def ucb_path_make_def)

lemma str_raw [simp]: "str_ok s \<Longrightarrow> raw_ok s"
  by (simp add: str_ok_raw)

lemma str_valid: "str_ok s \<Longrightarrow> valid_text (str_text s)"
  by (simp add: str_ok_raw)

text \<open>A step that returned the flag true.\<close>

lemma succeeds_step:
  "succeeds m (\<lambda>(ok, s). ok \<and> P s) \<Longrightarrow> (\<And>s. P s \<Longrightarrow> succeeds (k (True, s)) Q) \<Longrightarrow> succeeds (rbind m k) Q"
  by (cases m) auto

section \<open>Parsing\<close>

lemma copy_anchor_spec:
  assumes "\<not> fatal_returns me"
  shows "raw_ok out \<Longrightarrow> succeeds (copy_anchor me P sep cs out)
    (\<lambda>(ok, s). ok \<and> raw_ok s \<and> str_text s = str_text out @ map (\<lambda>c. if P c then sep else c) cs)"
proof (induction cs arbitrary: out)
  case (Cons c cs)
  show ?case unfolding copy_anchor.simps
    by (rule succeeds_and_then [OF path_append_one [OF assms Cons.prems]], elim conjE,
        drule Cons.IH, erule succeeds_mono) auto
qed simp

lemma build_dir_loop_spec:
  assumes "\<not> fatal_returns me"
  shows "raw_ok tmp \<Longrightarrow> succeeds (build_dir_loop me cf sep cs pending has tmp)
    (\<lambda>(ok, has', s). ok \<and> has' = (has \<or> segs (path_is_sep cf) cs \<noteq> []) \<and> raw_ok s
      \<and> str_text s = dir_body (path_is_sep cf) sep (str_text tmp) pending cs)"
proof (induction cs arbitrary: pending has tmp)
  case Nil
  then show ?case by (simp add: dir_body_def)
next
  case (Cons c cs)
  show ?case
  proof (cases "path_is_sep cf c")
    case True
    have "dir_body (path_is_sep cf) sep (str_text tmp) pending (c # cs)
        = dir_body (path_is_sep cf) sep (str_text tmp) True cs"
      using True by (simp add: dir_body_def)
    then show ?thesis using True Cons.IH [OF Cons.prems, of True has] by simp
  next
    case False
    let ?j = "if pending \<and> str_text tmp \<noteq> [] then [sep] else []"
    have 1: "succeeds (if pending \<and> s_size tmp > 0 then path_append_cstr me tmp [sep] 1 else Ret (True, tmp))
        (\<lambda>(ok, s). ok \<and> raw_ok s \<and> str_text s = str_text tmp @ ?j)"
      using path_append_one [OF assms Cons.prems, of sep] Cons.prems raw_length [OF Cons.prems] by simp
    have e: "dir_body (path_is_sep cf) sep (str_text tmp) pending (c # cs)
        = dir_body (path_is_sep cf) sep (str_text tmp @ ?j @ [c]) False cs"
      using False by (simp add: dir_body_def join_segs_step) (simp add: segs_Cons)
    have h: "segs (path_is_sep cf) (c # cs) \<noteq> []" using False by (simp add: segs_Cons)
    have step: "succeeds (build_dir_loop me cf sep cs False True s2)
        (\<lambda>(ok, has', s). ok \<and> has' = (has \<or> segs (path_is_sep cf) (c # cs) \<noteq> []) \<and> raw_ok s
          \<and> str_text s = dir_body (path_is_sep cf) sep (str_text tmp) pending (c # cs))"
      if "raw_ok s2" "str_text s2 = str_text tmp @ ?j @ [c]" for s2
      using Cons.IH [OF that(1), of False True] that(2) h by (simp add: e)
    show ?thesis unfolding build_dir_loop.simps if_not_P [OF False]
      by (rule succeeds_bind [OF 1], clarify, simp only: if_True,
          rule succeeds_bind [OF path_append_one [OF assms]], assumption, clarify, simp only: if_True, rule step)
        simp_all
  qed
qed

lemma build_dir_loop_step:
  assumes "\<not> fatal_returns me" "raw_ok tmp"
  shows "succeeds (build_dir_loop me cf sep cs pending has tmp)
    (\<lambda>(ok, hs). ok \<and> fst hs = (has \<or> segs (path_is_sep cf) cs \<noteq> []) \<and> raw_ok (snd hs)
      \<and> str_text (snd hs) = dir_body (path_is_sep cf) sep (str_text tmp) pending cs)"
  by (rule succeeds_mono [OF build_dir_loop_spec [OF assms]]) auto

lemma build_dir_root_spec:
  assumes "\<not> fatal_returns me" "raw_ok tmp"
  shows "succeeds (build_dir_root me sep ak n has tmp) (\<lambda>(ok, s). ok \<and> raw_ok s \<and> str_text s =
    (if n > 0 \<and> \<not> has \<and> ak \<noteq> PATH_ANCHOR_UNC \<and> (str_text tmp = [] \<or> last (str_text tmp) \<noteq> sep)
     then str_text tmp @ [sep] else str_text tmp))"
  using path_append_one [OF assms, of sep] raw_length [OF assms(2)] assms(2)
  by (simp add: build_dir_root_def str_bytes_ok)

lemma path_build_dir_spec:
  assumes f: "\<not> fatal_returns me" and out: "raw_ok out" and d: "str_region str len = Ret d"
    and v: "valid_text d" and sep: "ascii sep"
  shows "succeeds (path_build_dir me cf out str len sep) (\<lambda>(ok, s). ok \<and> str_ok s \<and> str_text s = dir_text cf sep d)"
proof -
  obtain ak n where a: "path_detect_anchor cf d 0 = (ak, n)" by fastforce
  let ?P = "path_is_sep cf" let ?t = "map (\<lambda>c. if ?P c then sep else c) (take n d)"
  have dt: "dir_text cf sep d = (let body = dir_body ?P sep ?t False (drop n d) in
      if n > 0 \<and> \<not> (segs ?P (drop n d) \<noteq> []) \<and> ak \<noteq> PATH_ANCHOR_UNC \<and> (body = [] \<or> last body \<noteq> sep)
      then body @ [sep] else body)"
    by (simp add: dir_text_def a Let_def)
  have vd: "valid_text (dir_text cf sep d)" by (rule dir_text_valid [OF sep v])
  show ?thesis unfolding path_build_dir_def
    apply (simp only: d a Let_def rbind.simps prod.case)
    apply (rule succeeds_step [OF copy_anchor_spec [OF f raw_empty]], elim conjE, simp only: prod.case if_True)
    apply (rule succeeds_step [OF build_dir_loop_step [OF f]], assumption)
    apply (simp only: prod.case if_True split_paired_all fst_conv snd_conv, elim conjE)
    apply (rule succeeds_step [OF build_dir_root_spec [OF f]], assumption, elim conjE, simp only: prod.case if_True)
    subgoal premises p for s1 has s2 s3
    proof -
      have t: "str_text s3 = dir_text cf sep d" using p unfolding dt Let_def by simp
      then have s3: "str_ok s3" using p vd by (simp add: str_ok_raw)
      show ?thesis
        by (rule succeeds_step [OF str_copy_succeeds [OF f out s3]])
          (use raw_released [OF str_raw [OF s3]] t in auto)
    qed
    done
qed

lemma assign_piece:
  assumes f: "\<not> fatal_returns me" and d: "raw_ok s" and m: "length m \<le> PTRDIFF_MAX" "0 < n" "n \<le> length m"
    and v: "valid_text (take n m)"
  shows "succeeds (ucb_str_assign me s (CExt m) n) (\<lambda>(ok, s'). ok \<and> str_ok s' \<and> str_text s' = take n m)"
  by (rule str_assign_succeeds [OF f d v]) (use m in \<open>simp add: src_text_def min_def\<close>)

text \<open>A path with new stem and extension.\<close>

definition named :: "ucb_path \<Rightarrow> byte list \<times> byte list \<Rightarrow> ucb_path \<Rightarrow> bool" where
  "named p se p' \<longleftrightarrow> (\<exists>stem ext. p' = p\<lparr>p_stem := stem, p_ext := ext\<rparr> \<and> str_ok stem \<and> str_ok ext
     \<and> (str_text stem, str_text ext) = se)"

lemma namedI [intro]: "str_ok stem \<Longrightarrow> str_ok ext \<Longrightarrow> (str_text stem, str_text ext) = se
    \<Longrightarrow> named p se (p\<lparr>p_stem := stem, p_ext := ext\<rparr>)"
  by (auto simp: named_def)

lemma namedE:
  assumes "named p se p'"
  obtains stem ext where "p' = p\<lparr>p_stem := stem, p_ext := ext\<rparr>" "str_ok stem" "str_ok ext"
    "str_text stem = fst se" "str_text ext = snd se"
  using assms by (auto simp: named_def)

lemma path_parse_filename_spec:
  assumes f: "\<not> fatal_returns me" and p: "raw_ok (p_stem p)" "raw_ok (p_ext p)"
    and m: "length m \<le> PTRDIFF_MAX" "n \<le> length m" and v: "valid_text (take n m)"
  shows "succeeds (path_parse_filename me p m n) (\<lambda>(ok, p'). ok \<and> named p (split_name (take n m)) p')"
proof -
  let ?f = "take n m" let ?dot = "path_find_dot ?f"
  note sv = split_name_valid [OF v]
  show ?thesis
  proof (cases "?dot = UCB_NPOS")
    case True
    then have sn: "split_name ?f = (?f, [])" by (simp add: split_name_def)
    have 1: "succeeds (if n = 0 then ucb_str_assign me (p_stem p) CNull 0 else ucb_str_assign me (p_stem p) (CExt m) n)
        (\<lambda>(ok, s'). ok \<and> str_ok s' \<and> str_text s' = ?f)"
      using assign_piece [OF f p(1) m(1) _ m(2) v] by (simp add: str_assign_null [OF p(1)])
    show ?thesis
      unfolding path_parse_filename_def mem_read_ok [OF m(2)] rbind.simps Let_def if_P [OF True] sn
      by (rule succeeds_step [OF 1]) (auto simp: str_assign_null [OF p(2)])
  next
    case False
    let ?e = "drop ?dot m"
    have d: "0 < ?dot" "?dot < n" using path_find_dot_cases [of ?f] False m(2) by auto
    have sn: "split_name ?f = (take ?dot m, take (n - ?dot) ?e)"
      using False d by (simp add: split_name_def Let_def drop_take min_def)
    have 1: "succeeds (ucb_str_assign me (p_stem p) (CExt m) ?dot)
        (\<lambda>(ok, s'). ok \<and> str_ok s' \<and> str_text s' = take ?dot m)"
      by (rule assign_piece [OF f p(1) m(1)]) (use d m sv sn in auto)
    have 2: "succeeds (ucb_str_assign me (p_ext p) (CExt ?e) (n - ?dot))
        (\<lambda>(ok, s'). ok \<and> str_ok s' \<and> str_text s' = take (n - ?dot) ?e)"
      by (rule assign_piece [OF f p(2)]) (use d m sv sn in auto)
    show ?thesis
      unfolding path_parse_filename_def mem_read_ok [OF m(2)] rbind.simps Let_def if_not_P [OF False] sn
        if_not_P [OF less_imp_neq [OF d(1), symmetric]]
      by (rule succeeds_step [OF 1], simp only: prod.case, rule succeeds_step [OF 2]) auto
  qed
qed

text \<open>What the operations leave: a well formed path, marked dirty, with the given texts and style.\<close>

definition path_is :: "path_text \<Rightarrow> ucb_path_style \<Rightarrow> ucb_path \<Rightarrow> bool" where
  "path_is t style p \<longleftrightarrow> path_ok p \<and> path_text p = t \<and> p_style p = style \<and> p_dirty p"

lemma path_is_inv: "path_is t style p \<Longrightarrow> path_inv cf p"
  by (simp add: path_is_def path_inv_def path_fresh_def)

lemma dir_text_Nil [simp]: "dir_text cf sep [] = []"
  by (simp add: dir_text_def path_detect_anchor_def dir_body_def)

lemma parse_text_Nil: "parse_text cf sep [] = ([], [], [])"
  by (simp add: parse_text_def raw_dir_len_def split_name_def path_find_dot_def)

lemma path_parse_spec:
  assumes f: "\<not> fatal_returns me" and p: "path_ok p" and s: "str_ok s"
  shows "succeeds (path_parse me cf p s style) (\<lambda>(ok, p'). ok \<and>
    path_is (parse_text cf (path_sep_of cf style) (str_text s)) (path_resolve_style cf style) p')"
proof -
  let ?sep = "path_sep_of cf style" let ?t = "str_text s" let ?n = "raw_dir_len cf ?t"
  let ?p = "p\<lparr>p_style := path_resolve_style cf style\<rparr>"
  have sz: "s_size s = length ?t" "length ?t \<le> PTRDIFF_MAX" using raw_length raw_bound [of s] s by auto
  obtain m where m: "mem_of s = Ret m" "length m \<le> PTRDIFF_MAX" "length ?t < length m" "take (length ?t) m = ?t"
    using str_okE [OF s] by metis
  have o: "str_ok (p_dir p)" "str_ok (p_stem p)" "str_ok (p_ext p)" "str_ok (p_name p)" "str_ok (p_cache p)"
    using p by (auto simp: path_ok_def)
  show ?thesis
  proof (cases "?t = []")
    case True
    have "path_parse_empty me ?p = Ret (True, ?p\<lparr>p_dir := str_empty, p_stem := str_empty, p_ext := str_empty, p_dirty := True\<rparr>)"
      using o by (simp add: path_parse_empty_def str_assign_null)
    then show ?thesis using True o sz(1)
      by (simp add: path_parse_def Let_def path_is_def path_ok_def path_text_def parse_text_Nil)
  next
    case False
    then have ne: "length ?t \<noteq> 0" by simp
    note v = raw_dir_len_valid [OF sz(2) str_valid [OF s], of cf]
    note n = raw_dir_len_cases(1) [OF sz(2), of cf]
    have 1: "succeeds (path_build_dir me cf (p_dir p) s ?n ?sep)
        (\<lambda>(ok, d). ok \<and> str_ok d \<and> str_text d = dir_text cf ?sep (take ?n ?t))"
      by (rule path_build_dir_spec [OF f _ _ v(1)]) (use o n sz(1) str_region_ok [of s ?n] s in auto)
    have e: "take (length ?t - ?n) (drop ?n m) = drop ?n ?t" using m(4) by (metis drop_take)
    have 2: "succeeds (path_parse_filename me (?p\<lparr>p_dir := d\<rparr>) (drop ?n m) (length ?t - ?n))
        (\<lambda>(ok, p'). ok \<and> named (?p\<lparr>p_dir := d\<rparr>) (split_name (drop ?n ?t)) p')" for d
      using path_parse_filename_spec [OF f, of "?p\<lparr>p_dir := d\<rparr>" "drop ?n m" "length ?t - ?n"] o m n v(2)
      by (simp add: e)
    have pp: "path_parse me cf p s style =
        rbind (path_build_dir me cf (p_dir p) s ?n ?sep) (\<lambda>(ok, d).
        rbind (if ok then path_parse_filename me (?p\<lparr>p_dir := d\<rparr>) (drop ?n m) (length ?t - ?n)
               else Ret (False, ?p\<lparr>p_dir := d\<rparr>)) (\<lambda>(ok, p). Ret (ok, p\<lparr>p_dirty := True\<rparr>)))"
      unfolding path_parse_def Let_def sz(1) m(1) rbind.simps raw_dir_len_def
        mem_read_ok [OF less_imp_le [OF m(3)]] m(4) if_not_P [OF ne] by simp
    show ?thesis unfolding pp
      by (rule succeeds_step [OF 1], simp only: prod.case if_True, rule succeeds_step [OF 2])
        (use o in \<open>auto elim!: namedE simp: path_is_def path_ok_def path_text_def parse_text_def Let_def\<close>)
  qed
qed

lemma path_make_parse:
  assumes f: "\<not> fatal_returns me" and s: "str_ok s"
  shows "succeeds (ucb_path_init_style me cf s style) (\<lambda>(ok, p'). ok \<and>
    path_is (parse_text cf (path_sep_of cf style) (str_text s)) (path_resolve_style cf style) p')"
  unfolding ucb_path_init_style_def path_init_ex_def by (rule path_parse_spec [OF f path_make_ok(1) s])

section \<open>Composing\<close>

text \<open>The composed path and its length; a path fits when that is the size of an object.\<close>

definition path_composed :: "path_conf \<Rightarrow> ucb_path \<Rightarrow> byte list" where
  "path_composed cf p = compose_text (path_sep_of cf (p_style p)) (path_text p)"

definition path_fits :: "path_conf \<Rightarrow> ucb_path \<Rightarrow> bool" where
  "path_fits cf p \<longleftrightarrow> length (path_composed cf p) \<le> PTRDIFF_MAX"

definition sep_needed :: "path_conf \<Rightarrow> ucb_path \<Rightarrow> bool" where
  "sep_needed cf p \<longleftrightarrow> (case path_text p of (d, s, e) \<Rightarrow>
     d \<noteq> [] \<and> s @ e \<noteq> [] \<and> last d \<noteq> path_sep_of cf (p_style p))"

lemma path_composed_eq:
  "path_composed cf p = str_text (p_dir p) @ (if sep_needed cf p then [path_sep_of cf (p_style p)] else [])
     @ str_text (p_stem p) @ str_text (p_ext p)"
  by (simp add: path_composed_def compose_text_def sep_needed_def path_text_def)

lemma path_okD:
  assumes "path_ok p"
  shows "str_ok (p_dir p)" "str_ok (p_stem p)" "str_ok (p_ext p)" "str_ok (p_name p)" "str_ok (p_cache p)"
    "str_bytes (p_dir p) = Ret (str_text (p_dir p))" "str_bytes (p_stem p) = Ret (str_text (p_stem p))"
    "str_bytes (p_ext p) = Ret (str_text (p_ext p))"
    "s_size (p_dir p) = length (str_text (p_dir p))" "s_size (p_stem p) = length (str_text (p_stem p))"
    "s_size (p_ext p) = length (str_text (p_ext p))"
  using assms by (auto simp: path_ok_def str_bytes_ok raw_length)

lemma path_has_name_iff: "path_ok p \<Longrightarrow> path_has_name p \<longleftrightarrow> str_text (p_stem p) @ str_text (p_ext p) \<noteq> []"
  by (auto simp: path_has_name_def path_okD)

lemma compose_info_spec:
  assumes "path_ok p" "path_fits cf p"
  shows "path_compose_info cf p = Ret (length (path_composed cf p), path_sep_of cf (p_style p), sep_needed cf p)"
proof -
  have n: "sep_needed cf p = (0 < length (str_text (p_dir p)) \<and> path_has_name p
      \<and> last (str_text (p_dir p)) \<noteq> path_sep_of cf (p_style p))"
    using path_has_name_iff [OF assms(1)] by (simp add: sep_needed_def path_text_def)
  have "usize (length (path_composed cf p)) = length (path_composed cf p)"
    using assms(2) by (simp add: path_fits_def)
  moreover have "length (str_text (p_dir p)) + (if sep_needed cf p then 1 else 0) + length (str_text (p_stem p))
      + length (str_text (p_ext p)) = length (path_composed cf p)" by (simp add: path_composed_eq)
  ultimately show ?thesis
    unfolding path_compose_info_def Let_def path_okD [OF assms(1)] rbind.simps n [symmetric] by simp
qed

lemma composed_valid: "path_ok p \<Longrightarrow> valid_text (path_composed cf p)"
  unfolding path_composed_eq
  by (auto simp: path_okD valid_Cons str_valid intro!: valid_text_append)

lemma composed_Nil_iff: "path_composed cf p = [] \<longleftrightarrow> path_text p = ([], [], [])"
  by (auto simp: path_composed_eq path_text_def sep_needed_def)

lemma path_compose_to_spec:
  assumes f: "\<not> fatal_returns me" and p: "path_ok p" "path_fits cf p" and out: "raw_ok out"
  shows "succeeds (path_compose_to me cf p out) (\<lambda>(ok, s). ok \<and> str_ok s \<and> str_text s = path_composed cf p)"
proof (cases "path_composed cf p = []")
  case True
  then show ?thesis by (simp add: path_compose_to_def compose_info_spec [OF p] raw_clear [OF out])
next
  case False
  have n: "length (path_composed cf p) \<le> PTRDIFF_MAX" using p(2) by (simp add: path_fits_def)
  have e: "path_compose_to me cf p out = and_then (path_reserve me str_empty (length (path_composed cf p))) (\<lambda>out.
      rbind (str_store_end out (path_composed cf p)) (\<lambda>out. Ret (True, out)))"
    using False unfolding path_compose_to_def compose_info_spec [OF p] raw_clear [OF out] path_okD [OF p(1)]
    by (simp flip: path_composed_eq)
  show ?thesis unfolding e
  proof (rule succeeds_and_then [OF path_reserve_spec [OF f raw_empty n]])
    fix s assume a: "raw_ok s \<and> str_text s = str_text str_empty \<and> s_size s = s_size str_empty
      \<and> s_size s + length (path_composed cf p) < s_alloc s"
    then obtain s' where "str_store_end s (path_composed cf p) = Ret s'" "raw_ok s'" "str_text s' = path_composed cf p"
      using raw_store_end [of s "path_composed cf p"] by auto
    then show "succeeds (rbind (str_store_end s (path_composed cf p)) (\<lambda>out. Ret (True, out)))
        (\<lambda>(ok, s). ok \<and> str_ok s \<and> str_text s = path_composed cf p)"
      using composed_valid [OF p(1)] by (simp add: str_ok_raw)
  qed
qed

lemma append_piece:
  assumes "\<not> fatal_returns me" "raw_ok s" "str_ok t"
  shows "succeeds (path_append_cstr me s (str_text t) (length (str_text t)))
    (\<lambda>(r, s'). r \<and> raw_ok s' \<and> str_text s' = str_text s @ str_text t)"
  by (rule path_append_cstr_spec [OF assms(1,2)]) (use raw_bound [of t] assms(3) in auto)

lemma path_build_name_spec:
  assumes f: "\<not> fatal_returns me" and p: "path_ok p" and out: "raw_ok out"
  shows "succeeds (path_build_name me p out)
    (\<lambda>(ok, s). ok \<and> str_ok s \<and> str_text s = str_text (p_stem p) @ str_text (p_ext p))"
  unfolding path_build_name_def raw_clear [OF out] rbind.simps path_okD [OF p]
proof (rule succeeds_and_then [OF append_piece [OF f raw_empty path_okD(2) [OF p]]], elim conjE)
  fix s assume a: "raw_ok s" "str_text s = str_text str_empty @ str_text (p_stem p)"
  show "succeeds (path_append_cstr me s (str_text (p_ext p)) (length (str_text (p_ext p))))
      (\<lambda>(ok, s). ok \<and> str_ok s \<and> str_text s = str_text (p_stem p) @ str_text (p_ext p))"
    by (rule succeeds_mono [OF append_piece [OF f a(1) path_okD(3) [OF p]]])
      (use a(2) valid_text_append [OF str_valid [OF path_okD(2) [OF p]] str_valid [OF path_okD(3) [OF p]]]
        in \<open>auto simp: str_ok_raw\<close>)
qed

lemma path_update_spec:
  assumes f: "\<not> fatal_returns me" and p: "path_inv cf p" "path_fits cf p"
  shows "succeeds (path_update me cf p) (\<lambda>p'. path_inv cf p' \<and> \<not> p_dirty p' \<and> path_text p' = path_text p
    \<and> p_style p' = p_style p \<and> str_text (p_name p') = str_text (p_stem p) @ str_text (p_ext p)
    \<and> str_text (p_cache p') = path_composed cf p)"
proof (cases "p_dirty p")
  case False
  then show ?thesis using p by (simp add: path_update_def path_inv_def path_fresh_def path_composed_def)
next
  case True
  have o: "path_ok p" using p(1) by (simp add: path_inv_def)
  show ?thesis unfolding path_update_def Let_def if_not_P [OF not_not [THEN iffD2, OF True]]
  proof (rule succeeds_step [OF path_build_name_spec [OF f o]])
    show "raw_ok (p_name p)" using path_okD [OF o] by simp
    fix s assume s: "str_ok s \<and> str_text s = str_text (p_stem p) @ str_text (p_ext p)"
    let ?p = "p\<lparr>p_name := s\<rparr>"
    have pc: "p_cache ?p = p_cache p" by simp
    have c: "path_composed cf ?p = path_composed cf p" by (simp add: path_composed_def path_text_def)
    have "path_ok ?p" "path_fits cf ?p" using o s p(2) by (simp_all add: path_ok_def path_fits_def c)
    note spec = path_compose_to_spec [OF f this str_raw [OF path_okD(5) [OF o]], unfolded c]
    show "succeeds (case (True, s) of (ok, name) \<Rightarrow>
        rbind (if ok then path_compose_to me cf (p\<lparr>p_name := name\<rparr>) (p_cache (p\<lparr>p_name := name\<rparr>))
               else Ret (False, p_cache (p\<lparr>p_name := name\<rparr>)))
          (\<lambda>(ok, cache). Ret (p\<lparr>p_name := name, p_cache := cache, p_dirty := \<not> ok\<rparr>)))
      (\<lambda>p'. path_inv cf p' \<and> \<not> p_dirty p' \<and> path_text p' = path_text p
        \<and> p_style p' = p_style p \<and> str_text (p_name p') = str_text (p_stem p) @ str_text (p_ext p)
        \<and> str_text (p_cache p') = path_composed cf p)"
      unfolding prod.case if_True pc by (rule succeeds_step [OF spec])
        (use o s path_okD [OF o] in \<open>auto simp: path_inv_def path_ok_def path_fresh_def path_text_def
          path_composed_def\<close>)
  qed
qed

section \<open>Life cycle\<close>

lemma path_release_ok: "path_ok p \<Longrightarrow> ucb_path_release p = Ret path_zero"
  by (simp add: ucb_path_release_def raw_released path_okD)

lemma path_free_ok: "path_ok p \<Longrightarrow> ucb_path_free p = Ret ()"
  by (simp add: ucb_path_free_def path_release_ok)

lemma succeeds_new: "\<not> fatal_returns me \<Longrightarrow> 0 < n \<Longrightarrow> succeeds k Q
    \<Longrightarrow> succeeds (rbind (ucb_malloc me n) (\<lambda>ok. if \<not> ok then r else k)) Q"
  by (rule succeeds_bind [OF succeeds_malloc]) auto

lemma keep_path_spec:
  "succeeds m (\<lambda>(ok, p). ok \<and> P p) \<Longrightarrow> succeeds (rbind m keep_path) (\<lambda>r. \<exists>p. r = Some p \<and> P p)"
  by (erule succeeds_step) (simp add: keep_path_def)

lemma keep_str_spec:
  "succeeds m (\<lambda>(ok, s). ok \<and> P s) \<Longrightarrow> succeeds (rbind m keep_str) (\<lambda>r. \<exists>s. r = Some s \<and> P s)"
  by (erule succeeds_step) (simp add: keep_str_def)

lemma succeeds_some:
  "succeeds m (\<lambda>r. \<exists>x. r = Some x \<and> P x) \<Longrightarrow> (\<And>x. P x \<Longrightarrow> succeeds (k (Some x)) Q) \<Longrightarrow> succeeds (rbind m k) Q"
  by (cases m) auto

lemma path_new_style_spec:
  assumes f: "\<not> fatal_returns me" and s: "str_ok s"
  shows "succeeds (ucb_path_new_style me cf s style) (\<lambda>r. \<exists>p. r = Some p \<and>
    path_is (parse_text cf (path_sep_of cf style) (str_text s)) (path_resolve_style cf style) p)"
  unfolding ucb_path_new_style_def
  by (rule succeeds_new [OF f _ keep_path_spec [OF path_make_parse [OF f s]]]) (simp add: sizeof_ucb_path_def)

lemma path_new_spec:
  assumes "\<not> fatal_returns me" "str_ok s"
  shows "succeeds (ucb_path_new me cf s) (\<lambda>r. \<exists>p. r = Some p \<and>
    path_is (parse_text cf (path_sep_of cf UCB_PATH_STYLE_DEFAULT) (str_text s))
      (path_resolve_style cf UCB_PATH_STYLE_DEFAULT) p)"
  using path_new_style_spec [OF assms, of cf UCB_PATH_STYLE_DEFAULT]
  unfolding ucb_path_new_def ucb_path_init_def ucb_path_new_style_def .

lemma path_copy_spec:
  assumes f: "\<not> fatal_returns me" and d: "path_ok dst" and s: "path_ok src"
  shows "succeeds (ucb_path_copy me dst (OtherPath src)) (\<lambda>(ok, p). ok \<and> path_is (path_text src) (p_style src) p)"
  unfolding ucb_path_copy_def path_arg.case
  by (rule succeeds_step [OF str_copy_succeeds [OF f str_raw [OF path_okD(1) [OF d]] path_okD(1) [OF s]]], simp only: prod.case,
      rule succeeds_step [OF str_copy_succeeds [OF f str_raw [OF path_okD(2) [OF d]] path_okD(2) [OF s]]], simp only: prod.case,
      rule succeeds_step [OF str_copy_succeeds [OF f str_raw [OF path_okD(3) [OF d]] path_okD(3) [OF s]]])
    (use d in \<open>auto simp: path_is_def path_ok_def path_text_def\<close>)

lemma path_clone_spec:
  assumes f: "\<not> fatal_returns me" and s: "path_ok src"
  shows "succeeds (ucb_path_clone me src) (\<lambda>r. \<exists>p. r = Some p \<and> path_is (path_text src) (p_style src) p)"
  unfolding ucb_path_clone_def
  by (rule succeeds_new [OF f _ keep_path_spec [OF path_copy_spec [OF f path_make_ok(1) s]]]) (simp add: sizeof_ucb_path_def)

definition path_str_ok :: "path_str_arg \<Rightarrow> bool" where
  "path_str_ok a = (case a of PStr s \<Rightarrow> str_ok s | _ \<Rightarrow> True)"

lemma path_field_ok: "path_ok p \<Longrightarrow> path_str_ok a \<Longrightarrow> str_ok (path_field p a)"
  by (cases a) (simp_all add: path_field_def path_str_ok_def path_okD)

lemma str_clone_spec:
  assumes f: "\<not> fatal_returns me" and s: "str_ok s" and ne: "0 < s_alloc s"
  shows "succeeds (ucb_str_clone me s) (\<lambda>r. \<exists>c. r = Some c \<and> str_ok c \<and> str_text c = str_text s)"
proof -
  obtain m where m: "mem_of s = Ret m" using str_mem [OF s] by metis
  show ?thesis unfolding ucb_str_clone_def m rbind.simps
    by (rule str_new_succeeds [OF f _ str_valid [OF s]]) (use str_src [OF s m] in simp)
qed

lemma path_assign_spec:
  assumes f: "\<not> fatal_returns me" and p: "path_ok p" and a: "path_str_ok a"
  shows "succeeds (ucb_path_assign me cf p a) (\<lambda>(ok, p'). ok \<and>
    path_is (parse_text cf (path_sep_of cf (p_style p)) (str_text (path_field p a))) (path_resolve_style cf (p_style p)) p')"
proof (cases "path_str_aliases p a")
  case False
  then show ?thesis using path_parse_spec [OF f p path_field_ok [OF p a]] by (simp add: ucb_path_assign_def)
next
  case True
  then have "0 < s_alloc (path_field p a)" by (cases a) (simp_all add: path_str_aliases_def)
  note c = str_clone_spec [OF f path_field_ok [OF p a] this]
  show ?thesis unfolding ucb_path_assign_def if_P [OF True]
  proof (rule succeeds_some [OF c], elim conjE)
    fix c assume c: "str_ok c" "str_text c = str_text (path_field p a)"
    have "ucb_str_free (Some c) = Ret ()" using raw_release [OF str_raw [OF c(1)]] by (auto simp: ucb_str_free_def)
    then show "succeeds (case Some c of None \<Rightarrow> Undef | Some str \<Rightarrow>
          rbind (path_parse me cf p str (p_style p)) (\<lambda>r. rbind (ucb_str_free (Some str)) (\<lambda>_. Ret r)))
        (\<lambda>(ok, p'). ok \<and> path_is (parse_text cf (path_sep_of cf (p_style p)) (str_text (path_field p a)))
          (path_resolve_style cf (p_style p)) p')"
      using path_parse_spec [OF f p c(1), of cf "p_style p"] c(2) by (simp add: succeeds_rbind)
  qed
qed

lemma path_clear_spec:
  assumes "path_ok p"
  shows "\<exists>p'. ucb_path_clear p = Ret p' \<and> path_is ([], [], []) (p_style p) p'"
  using path_okD(1-5) [OF assms] by (simp add: ucb_path_clear_def raw_clear path_is_def path_ok_def path_text_def)

lemma path_to_str_spec:
  assumes f: "\<not> fatal_returns me" and p: "path_ok p" "path_fits cf p"
  shows "succeeds (ucb_path_to_str me cf p) (\<lambda>r. \<exists>s. r = Some s \<and> str_ok s \<and> str_text s = path_composed cf p)"
  unfolding ucb_path_to_str_def
  by (rule succeeds_some [OF str_new_succeeds [where cstr = None and t = "[]", OF f]])
    (simp_all add: keep_str_spec path_compose_to_spec [OF f p])

lemma path_len_spec: "path_ok p \<Longrightarrow> path_fits cf p \<Longrightarrow> ucb_path_len cf p = Ret (length (path_composed cf p))"
  by (simp add: ucb_path_len_def path_length_def compose_info_spec)

lemma path_is_empty_spec: "path_ok p \<Longrightarrow> ucb_path_is_empty p \<longleftrightarrow> path_text p = ([], [], [])"
  by (simp add: ucb_path_is_empty_def path_okD path_text_def)

definition absolute_text :: "path_conf \<Rightarrow> byte \<Rightarrow> byte list \<Rightarrow> bool" where
  "absolute_text cf sep d \<longleftrightarrow> d \<noteq> [] \<and> (path_sep_match cf sep (d ! 0)
     \<or> win32 cf \<and> 2 \<le> length d \<and> d ! 1 = COLON \<and> c_isalpha (d ! 0))"

lemma path_is_absolute_spec:
  "path_ok p \<Longrightarrow> ucb_path_is_absolute cf p = Ret (absolute_text cf (path_sep_of cf (p_style p)) (str_text (p_dir p)))"
  by (auto simp: ucb_path_is_absolute_def path_okD absolute_text_def Let_def)

section \<open>Setters\<close>

lemma path_set_dir_spec:
  assumes f: "\<not> fatal_returns me" and p: "path_ok p" and a: "path_str_ok a"
  shows "succeeds (ucb_path_set_dir me cf p a) (\<lambda>(ok, p'). ok \<and>
    path_is (dir_text cf (path_sep_of cf (p_style p)) (str_text (path_field p a)),
      str_text (p_stem p), str_text (p_ext p)) (p_style p) p')"
proof -
  let ?s = "path_field p a"
  have s: "str_ok ?s" by (rule path_field_ok [OF p a])
  have r: "str_region ?s (s_size ?s) = Ret (str_text ?s)"
    using str_region_ok [of ?s "s_size ?s"] s raw_length [of ?s] by simp
  show ?thesis unfolding ucb_path_set_dir_def Let_def
    by (rule succeeds_step [OF path_build_dir_spec [OF f _ r str_valid [OF s]]])
      (use p in \<open>auto simp: path_is_def path_ok_def path_text_def\<close>)
qed

lemma path_set_stem_spec:
  assumes f: "\<not> fatal_returns me" and p: "path_ok p" and a: "path_str_ok a"
  shows "succeeds (ucb_path_set_stem me p a) (\<lambda>(ok, p'). ok \<and>
    path_is (str_text (p_dir p), str_text (path_field p a), str_text (p_ext p)) (p_style p) p')"
proof (cases "a = PStem")
  case True
  then show ?thesis using p
    by (simp add: ucb_path_set_stem_def ucb_str_copy_def path_is_def path_ok_def path_text_def path_field_def)
next
  case False
  show ?thesis unfolding ucb_path_set_stem_def if_not_P [OF False]
    by (rule succeeds_step [OF str_copy_succeeds [OF f str_raw [OF path_okD(2) [OF p]] path_field_ok [OF p a]]])
      (use p in \<open>auto simp: path_is_def path_ok_def path_text_def\<close>)
qed

text \<open>Leading dots of an extension are replaced by one; nothing but dots means no extension.\<close>

definition ext_text :: "byte list \<Rightarrow> byte list" where
  "ext_text e = (let r = dropWhile (\<lambda>c. c = DOT) e in if r = [] then [] else DOT # r)"

lemma ext_text_valid: "valid_text e \<Longrightarrow> valid_text (ext_text e)"
proof (induction e)
  case (Cons c e)
  then show ?case by (auto simp: ext_text_def Let_def valid_Cons split: if_splits)
qed (simp add: ext_text_def)

lemma path_set_ext_spec:
  assumes f: "\<not> fatal_returns me" and p: "path_ok p" and a: "path_str_ok a"
  shows "succeeds (ucb_path_set_ext me p a) (\<lambda>(ok, p'). ok \<and>
    path_is (str_text (p_dir p), str_text (p_stem p), ext_text (str_text (path_field p a))) (p_style p) p')"
proof -
  let ?s = "path_field p a" let ?e = "str_text ?s" let ?i = "length (takeWhile (\<lambda>c. c = DOT) ?e)"
  have s: "str_ok ?s" by (rule path_field_ok [OF p a])
  note sz = raw_length [OF str_raw [OF s]] raw_bound [OF str_raw [OF s]] str_bytes_ok [OF str_raw [OF s]]
  note x = raw_released path_okD [OF p]
  have dw: "dropWhile (\<lambda>c. c = DOT) ?e = drop ?i ?e" by (rule dropWhile_eq_drop)
  show ?thesis
  proof (cases "?i \<ge> length ?e")
    case True
    then show ?thesis using p
      by (simp add: ucb_path_set_ext_def Let_def sz scan0 str_assign_null path_okD(3) [OF p] ext_text_def dw
          path_is_def path_ok_def path_text_def)
  next
    case False
    have u: "usize (length ?e - ?i + 1) = length (DOT # drop ?i ?e)" using sz(2) by simp
    have n: "length (DOT # drop ?i ?e) \<le> PTRDIFF_MAX" using sz(2) by simp
    have et: "ext_text ?e = DOT # drop ?i ?e" using False by (simp add: ext_text_def dw)
    have e: "ucb_path_set_ext me p a =
      rbind (path_reserve me str_empty (length (DOT # drop ?i ?e))) (\<lambda>(ok, tmp).
      rbind (if ok then rbind (str_store_end tmp (DOT # drop ?i ?e)) (\<lambda>tmp.
               rbind (ucb_str_copy me (p_ext p) (OtherArg tmp)) (\<lambda>(ok, ext). Ret (ok, ext, tmp)))
             else Ret (False, p_ext p, tmp)) (\<lambda>(ok, ext, tmp).
      rbind (ucb_str_release tmp) (\<lambda>_. Ret (ok, p\<lparr>p_ext := ext, p_dirty := True\<rparr>))))"
      unfolding ucb_path_set_ext_def Let_def sz rbind.simps scan0 if_not_P [OF False] u
      by (simp add: rbind_assoc split_def)
    show ?thesis unfolding e
      apply (rule succeeds_step [OF path_reserve_spec [OF f raw_empty n]], elim conjE, simp only: prod.case if_True)
      subgoal premises t for t
    proof -
      obtain t' where t': "str_store_end t (DOT # drop ?i ?e) = Ret t'" "raw_ok t'" "str_text t' = ext_text ?e"
        using raw_store_end [of t "DOT # drop ?i ?e"] t et by auto
      then have ok: "str_ok t'" using ext_text_valid [OF str_valid [OF s]] by (simp add: str_ok_raw)
      note cp = str_copy_succeeds [OF f str_raw [OF path_okD(3) [OF p]] ok]
      have 1: "succeeds (rbind (ucb_str_copy me (p_ext p) (OtherArg t')) (\<lambda>(ok, ext). Ret (ok, ext, t')))
        (\<lambda>(ok, es). ok \<and> str_ok (fst es) \<and> str_text (fst es) = ext_text ?e \<and> snd es = t')"
        by (rule succeeds_step [OF cp]) (use t'(3) in auto)
      show ?thesis unfolding t'(1) rbind.simps
        by (rule succeeds_step [OF 1])
          (use p raw_released [OF t'(2)] in \<open>auto simp: path_is_def path_ok_def path_text_def\<close>)
    qed
    done
  qed
qed

end
