(* ===== verification/Path_Ops.thy ===== *)
theory Path_Ops
  imports Path_Spec
begin

text \<open>
  The remaining operations of \<^verbatim>\<open>path.c\<close> on texts: file names and styles, joining, comparing, the parts
  of a path and its parents.
\<close>

section \<open>File name and style\<close>

lemma path_set_filename_spec:
  assumes f: "\<not> fatal_returns me" and p: "path_ok p" and a: "path_str_ok a"
  shows "succeeds (ucb_path_set_filename me p a) (\<lambda>(ok, p'). ok \<and>
    path_is (str_text (p_dir p), split_name (str_text (path_field p a))) (p_style p) p')"
  unfolding ucb_path_set_filename_def
proof (rule succeeds_step [OF str_copy_succeeds [OF f raw_empty path_field_ok [OF p a]]], simp only: prod.case if_True, elim conjE)
  fix t assume t: "str_ok t" "str_text t = str_text (path_field p a)"
  note sz = raw_length [OF str_raw [OF t(1)]]
  obtain m where m: "mem_of t = Ret m" "length m \<le> PTRDIFF_MAX" "length (str_text t) < length m"
    "take (length (str_text t)) m = str_text t"
    using str_okE [OF t(1)] by metis
  have 1: "succeeds (path_parse_filename me p m (length (str_text t)))
      (\<lambda>(ok, p'). ok \<and> named p (split_name (str_text t)) p')"
    using path_parse_filename_spec [OF f, of p m "length (str_text t)"] m str_valid [OF t(1)] path_okD [OF p] by simp
  show "succeeds (rbind (rbind (mem_of t) (\<lambda>m. path_parse_filename me p m (s_size t))) (\<lambda>(ok, path).
        rbind (ucb_str_release t) (\<lambda>_. Ret (ok, path\<lparr>p_dirty := True\<rparr>))))
      (\<lambda>(ok, p'). ok \<and> path_is (str_text (p_dir p), split_name (str_text (path_field p a))) (p_style p) p')"
    unfolding m(1) rbind.simps sz
    by (rule succeeds_step [OF 1])
      (use p raw_released [OF str_raw [OF t(1)]] t(2) in \<open>auto elim!: namedE simp: path_is_def path_ok_def path_text_def\<close>)
qed

definition restyle_text :: "path_conf \<Rightarrow> byte \<Rightarrow> byte \<Rightarrow> byte list \<Rightarrow> byte list" where
  "restyle_text cf old_sep new_sep d =
     (if old_sep = new_sep then d else map (\<lambda>c. if path_sep_match cf old_sep c then new_sep else c) d)"

lemma overwrite_text:
  assumes s: "str_ok s" "0 < s_alloc s" and m: "s_blk s = BMem m"
    and t: "length t = length (str_text s)" "valid_text t"
  shows "str_ok (s\<lparr>s_blk := BMem (mem_write 0 t m)\<rparr>)" "str_text (s\<lparr>s_blk := BMem (mem_write 0 t m)\<rparr>) = t"
proof -
  obtain m' where m': "s_blk s = BMem m'" "length (str_text s) = s_size s" "s_size s < length m'"
    "length m' \<le> PTRDIFF_MAX" "length m' = s_alloc s" "m' ! s_size s = 0"
    using str_okE [OF s(1)] s(2) by metis
  have l: "length t = s_size s" "s_size s < length m" "length m = s_alloc s" "m ! s_size s = 0" "length m \<le> PTRDIFF_MAX"
    using m m' t(1) by auto
  have w: "take (s_size s) (mem_write 0 t m) = t" "length (mem_write 0 t m) = length m" "mem_write 0 t m ! s_size s = 0"
    using l by (simp_all add: mem_write_def nth_append)
  then show "str_text (s\<lparr>s_blk := BMem (mem_write 0 t m)\<rparr>) = t" by (simp add: str_text_def)
  then show "str_ok (s\<lparr>s_blk := BMem (mem_write 0 t m)\<rparr>)"
    using w l s(2) t(2) by (simp add: str_ok_raw raw_ok_def)
qed

lemma path_set_style_spec:
  assumes p: "path_ok p"
  shows "\<exists>p'. ucb_path_set_style cf p style = Ret p' \<and> path_is
    (restyle_text cf (path_sep_of cf (p_style p)) (path_sep_of cf style) (str_text (p_dir p)),
     str_text (p_stem p), str_text (p_ext p)) (path_resolve_style cf style) p'"
proof -
  let ?o = "path_sep_of cf (p_style p)" and ?n = "path_sep_of cf style" and ?d = "p_dir p"
  have rr: "path_resolve_style cf (path_resolve_style cf style) = path_resolve_style cf style"
    by (simp add: path_resolve_style_def)
  then have nn: "path_sep_of cf (path_resolve_style cf style) = ?n" by (simp add: path_sep_of_def)
  have d: "str_ok ?d" and sz: "s_size ?d = length (str_text ?d)" using path_okD [OF p] by auto
  obtain m where m: "s_blk ?d = BMem m" "mem_of ?d = Ret m" "str_text ?d = take (s_size ?d) m"
    "s_size ?d < length m" "s_alloc ?d = 0 \<Longrightarrow> s_size ?d = 0" using str_okE [OF d] by metis
  show ?thesis
  proof (cases "?o \<noteq> ?n \<and> s_size ?d > 0")
    case False
    then have "restyle_text cf ?o ?n (str_text ?d) = str_text ?d" using sz by (auto simp: restyle_text_def)
    then have "path_is (restyle_text cf ?o ?n (str_text ?d), str_text (p_stem p), str_text (p_ext p))
        (path_resolve_style cf style) (p\<lparr>p_style := path_resolve_style cf style, p_dirty := True\<rparr>)"
      using p by (simp add: path_is_def path_ok_def path_text_def)
    moreover have "ucb_path_set_style cf p style = Ret (p\<lparr>p_style := path_resolve_style cf style, p_dirty := True\<rparr>)"
      unfolding ucb_path_set_style_def Let_def nn if_not_P [OF False] by simp
    ultimately show ?thesis by simp
  next
    case True
    let ?t = "map (\<lambda>c. if path_sep_match cf ?o c then ?n else c) (str_text ?d)"
    have v: "valid_text ?t"
      by (rule valid_map_ascii [OF _ _ str_valid [OF d]]) (auto intro: path_sep_match_ascii [of ?o])
    have rd: "mem_read m (s_size ?d) = Ret (str_text ?d)" using m(3,4) by simp
    have al: "0 < s_alloc ?d" using True m(5) by fastforce
    note w = overwrite_text [OF d al m(1), of ?t, OF _ v]
    have "ucb_path_set_style cf p style = Ret (p\<lparr>p_dir := ?d\<lparr>s_blk := BMem (mem_write 0 ?t m)\<rparr>,
        p_style := path_resolve_style cf style, p_dirty := True\<rparr>)"
      using al m(4) sz unfolding ucb_path_set_style_def Let_def nn if_P [OF True] m(2) rbind.simps rd by simp
    then show ?thesis using True w p by (simp add: restyle_text_def path_is_def path_ok_def path_text_def)
  qed
qed

section \<open>Joining\<close>

text \<open>Two texts with a separator between them where one is needed.\<close>

definition slash_join :: "byte \<Rightarrow> byte list \<Rightarrow> byte list \<Rightarrow> byte list" where
  "slash_join sep a b = a @ (if a \<noteq> [] \<and> b \<noteq> [] \<and> last a \<noteq> sep then [sep] else []) @ b"

lemma compose_slash_join: "compose_text sep (d, s, e) = slash_join sep d (s @ e)"
  by (simp add: compose_text_def slash_join_def)

lemma slash_join_Nil [simp]: "slash_join sep a [] = a" "slash_join sep [] b = b"
  by (simp_all add: slash_join_def)

lemma slash_join_eq_Nil [simp]: "slash_join sep a b = [] \<longleftrightarrow> a = [] \<and> b = []"
  by (auto simp: slash_join_def)

lemma slash_join_assoc: "b \<noteq> [] \<Longrightarrow> slash_join sep (slash_join sep a b) c = slash_join sep a (slash_join sep b c)"
  by (auto simp: slash_join_def)

lemma slash_join_valid: "ascii sep \<Longrightarrow> valid_text a \<Longrightarrow> valid_text b \<Longrightarrow> valid_text (slash_join sep a b)"
  by (auto simp: slash_join_def valid_Cons intro!: valid_text_append)

definition append_text :: "byte \<Rightarrow> path_text \<Rightarrow> path_text \<Rightarrow> path_text" where
  "append_text sep base other = (case other of (d, se) \<Rightarrow> (slash_join sep (compose_text sep base) d, se))"

lemma path_append_name_spec:
  assumes f: "\<not> fatal_returns me" and p: "path_ok p" "path_fits cf p"
  shows "succeeds (path_append_name me p (path_sep_of cf (p_style p)))
    (\<lambda>(ok, s). ok \<and> raw_ok s \<and> str_text s = path_composed cf p)"
proof (cases "path_has_name p")
  case False
  then show ?thesis using path_has_name_iff [OF p(1)] path_okD(1) [OF p(1)]
    by (simp add: path_append_name_def path_composed_eq sep_needed_def path_text_def)
next
  case True
  let ?bs = "(if sep_needed cf p then [path_sep_of cf (p_style p)] else []) @ str_text (p_stem p) @ str_text (p_ext p)"
  have c: "path_composed cf p = str_text (p_dir p) @ ?bs" by (simp add: path_composed_eq)
  have n: "sep_needed cf p = (0 < length (str_text (p_dir p)) \<and> last (str_text (p_dir p)) \<noteq> path_sep_of cf (p_style p))"
    using True path_has_name_iff [OF p(1)] by (simp add: sep_needed_def path_text_def)
  have l: "length ?bs \<le> PTRDIFF_MAX" using p(2) unfolding path_fits_def c by simp
  have lb: "(if sep_needed cf p then 1 else 0) + length (str_text (p_stem p)) + length (str_text (p_ext p)) = length ?bs"
    by simp
  have e: "path_append_name me p (path_sep_of cf (p_style p)) = and_then (path_reserve me (p_dir p) (length ?bs))
      (\<lambda>dir. rbind (str_store_end dir ?bs) (\<lambda>dir. Ret (True, dir)))"
    unfolding path_append_name_def if_P [OF True] path_okD [OF p(1)] rbind.simps Let_def n [symmetric] lb
      usize_PTRDIFF(1) [OF l] ..
  show ?thesis unfolding e
  proof (rule succeeds_and_then [OF path_reserve_spec [OF f str_raw [OF path_okD(1) [OF p(1)]] l]], elim conjE)
    fix s assume s: "raw_ok s" "str_text s = str_text (p_dir p)" "s_size s + length ?bs < s_alloc s"
    obtain s' where "str_store_end s ?bs = Ret s'" "raw_ok s'" "str_text s' = str_text s @ ?bs"
      using raw_store_end [OF s(1,3)] by auto
    then show "succeeds (rbind (str_store_end s ?bs) (\<lambda>dir. Ret (True, dir)))
        (\<lambda>(ok, s). ok \<and> raw_ok s \<and> str_text s = path_composed cf p)"
      using s(2) by (simp add: c)
  qed
qed

lemma path_append_other_spec:
  assumes f: "\<not> fatal_returns me" and p: "path_ok p" "path_fits cf p" and q: "path_ok q"
    and isabs: "isabs = absolute_text cf (path_sep_of cf (p_style q)) (str_text (p_dir q))"
  shows "succeeds (path_append_other me cf p q) (\<lambda>(ok, r). ok \<and>
    (if isabs then path_is (path_text q) (p_style q) r
     else path_is (append_text (path_sep_of cf (p_style p)) (path_text p) (path_text q)) (p_style p) r))"
proof (cases isabs)
  case True
  then show ?thesis using path_copy_spec [OF f p(1) q] isabs
    by (simp add: path_append_other_def path_is_absolute_spec [OF q])
next
  case False
  let ?sep = "path_sep_of cf (p_style p)" and ?od = "str_text (p_dir q)" and ?c = "path_composed cf p"
  have oq: "str_ok (p_dir q)" "s_size (p_dir q) = length ?od" using path_okD [OF q] by auto
  obtain m where m: "mem_of (p_dir q) = Ret m" "mem_read m (length ?od) = Ret ?od"
    using str_okE [OF oq(1)] by (metis mem_read_ok less_imp_le)
  have j: "junction ?sep ?c @ ?od = (if ?c \<noteq> [] \<and> ?od \<noteq> [] \<and> last ?c \<noteq> ?sep then [?sep] else []) @ ?od" if "?od \<noteq> []"
    using that by (simp add: junction_def)
  have 2: "succeeds (if s_size (p_dir q) > 0 then
                  rbind (mem_of (p_dir q)) (\<lambda>m. path_append_segment me d m (s_size (p_dir q)) ?sep)
                else Ret (True, d)) (\<lambda>(ok, s). ok \<and> str_ok s \<and> str_text s = slash_join ?sep ?c ?od)"
    if d: "raw_ok d" "str_text d = ?c" for d
  proof (cases "?od = []")
    case True
    then show ?thesis using d oq composed_valid [OF p(1)] by (simp add: str_ok_raw)
  next
    case ne: False
    have n: "length ?od < PTRDIFF_MAX" "0 < length ?od" using raw_bound [of "p_dir q"] oq ne by auto
    have sj: "slash_join ?sep ?c ?od = ?c @ junction ?sep ?c @ ?od" using j [OF ne] by (simp add: slash_join_def)
    have v: "valid_text (slash_join ?sep ?c ?od)"
      by (rule slash_join_valid) (simp_all add: composed_valid [OF p(1)] str_valid [OF oq(1)])
    have "succeeds (path_append_segment me d m (length ?od) ?sep)
        (\<lambda>(ok, s). ok \<and> str_ok s \<and> str_text s = slash_join ?sep ?c ?od)"
      by (rule succeeds_mono [OF path_append_segment_spec [OF f d(1) m(2) n]])
        (use d(2) sj v in \<open>auto simp: str_ok_raw\<close>)
    then show ?thesis using oq(2) m(1) n(2) by simp
  qed
  have at: "append_text ?sep (path_text p) (path_text q) = (slash_join ?sep ?c ?od, str_text (p_stem q), str_text (p_ext q))"
    by (simp add: append_text_def path_text_def path_composed_def)
  show ?thesis
    using False isabs unfolding path_append_other_def path_is_absolute_spec [OF q] rbind.simps Let_def at
    apply (simp only: if_False)
    apply (rule succeeds_step [OF path_append_name_spec [OF f p]], elim conjE)
    apply (simp only: prod.case if_False not_True_eq_False)
    apply (rule succeeds_step [OF 2], assumption, assumption, simp only: prod.case, elim conjE)
    apply (rule succeeds_step [OF str_copy_succeeds [OF f _ path_okD(2) [OF q]]])
    subgoal using path_okD(2) [OF p(1)] by simp
    apply (simp only: prod.case, elim conjE)
    apply (rule succeeds_step [OF str_copy_succeeds [OF f _ path_okD(3) [OF q]]])
    subgoal using path_okD(3) [OF p(1)] by simp
    using p(1) apply (auto simp: path_is_def path_ok_def path_text_def)
    done
qed

lemma compose_append:
  "compose_text sep (append_text sep base other) = slash_join sep (compose_text sep base) (compose_text sep other)"
proof -
  obtain d s e where o: "other = (d, s, e)" by (cases other)
  show ?thesis by (cases "d = []") (auto simp: o append_text_def compose_slash_join slash_join_assoc)
qed

definition path_arg_ok :: "path_arg \<Rightarrow> bool" where
  "path_arg_ok a = (case a of SelfPath \<Rightarrow> True | OtherPath q \<Rightarrow> path_ok q)"

definition arg_path :: "ucb_path \<Rightarrow> path_arg \<Rightarrow> ucb_path" where
  "arg_path p a = (case a of SelfPath \<Rightarrow> p | OtherPath q \<Rightarrow> q)"

definition path_absolute :: "path_conf \<Rightarrow> ucb_path \<Rightarrow> bool" where
  "path_absolute cf p = absolute_text cf (path_sep_of cf (p_style p)) (str_text (p_dir p))"

text \<open>What joining \<open>q\<close> to \<open>p\<close> leaves: an absolute path replaces the base.\<close>

definition joined :: "path_conf \<Rightarrow> ucb_path \<Rightarrow> ucb_path \<Rightarrow> ucb_path \<Rightarrow> bool" where
  "joined cf p q r \<longleftrightarrow>
     (if path_absolute cf q then path_is (path_text q) (p_style q) r
      else path_is (append_text (path_sep_of cf (p_style p)) (path_text p) (path_text q)) (p_style p) r)"

lemma joined_ok: "joined cf p q r \<Longrightarrow> path_ok r"
  by (simp add: joined_def path_is_def split: if_splits)

lemma joined_composed:
  assumes "joined cf p q r"
  shows "path_composed cf r =
    (if path_absolute cf q then path_composed cf q
     else slash_join (path_sep_of cf (p_style p)) (path_composed cf p)
       (compose_text (path_sep_of cf (p_style p)) (path_text q)))"
  using assms by (simp add: joined_def path_is_def path_composed_def compose_append split: if_splits)

lemma path_append_joined:
  assumes "\<not> fatal_returns me" "path_ok p" "path_fits cf p" "path_ok q"
  shows "succeeds (path_append_other me cf p q) (\<lambda>(ok, r). ok \<and> joined cf p q r)"
  using path_append_other_spec [OF assms refl] unfolding joined_def path_absolute_def .

lemma path_append_spec:
  assumes f: "\<not> fatal_returns me" and p: "path_ok p" "path_fits cf p" and a: "path_arg_ok a"
  shows "succeeds (ucb_path_append me cf p a) (\<lambda>(ok, r). ok \<and> joined cf p (arg_path p a) r)"
proof (cases a)
  case (OtherPath q)
  then show ?thesis using path_append_joined [OF f p, of q] a
    by (simp add: ucb_path_append_def path_arg_ok_def arg_path_def)
next
  case SelfPath
  show ?thesis unfolding ucb_path_append_def SelfPath path_arg.case
  proof (rule succeeds_some [OF path_clone_spec [OF f p(1)]], simp only: option.case)
    fix c assume c: "path_is (path_text p) (p_style p) c"
    then have ok: "path_ok c" and j: "joined cf p c = joined cf p p"
      by (simp_all add: path_is_def joined_def path_absolute_def path_text_def fun_eq_iff)
    from path_append_joined [OF f p ok, unfolded j] show "succeeds (rbind (path_append_other me cf p c) (\<lambda>r. rbind (ucb_path_free c) (\<lambda>_. Ret r)))
        (\<lambda>(ok, r). ok \<and> joined cf p (arg_path p SelfPath) r)"
      by (simp add: path_free_ok [OF ok] succeeds_rbind arg_path_def)
  qed
qed

lemma path_is_fits: "path_is t style p \<Longrightarrow> path_fits cf p \<longleftrightarrow> length (compose_text (path_sep_of cf style) t) \<le> PTRDIFF_MAX"
  by (simp add: path_is_def path_fits_def path_composed_def)

lemma path_join_spec:
  assumes f: "\<not> fatal_returns me" and p: "path_ok p" "path_fits cf p" and q: "path_ok q"
  shows "succeeds (ucb_path_join me cf p q) (\<lambda>r. \<exists>r'. r = Some r' \<and> joined cf p q r')"
  unfolding ucb_path_join_def
proof (rule succeeds_some [OF path_clone_spec [OF f p(1)]], simp only: option.case, rule keep_path_spec)
  fix c assume c: "path_is (path_text p) (p_style p) c"
  then have ok: "path_ok c" "path_fits cf c" and j: "joined cf c q r \<longleftrightarrow> joined cf p q r" for r
    using p(2) by (simp_all add: path_is_def joined_def path_fits_def path_composed_def)
  show "succeeds (ucb_path_append me cf c (OtherPath q)) (\<lambda>(ok, r). ok \<and> joined cf p q r)"
    using path_append_spec [OF f ok, of "OtherPath q"] q by (simp add: path_arg_ok_def arg_path_def j)
qed

lemma path_append_str_spec:
  assumes f: "\<not> fatal_returns me" and p: "path_ok p" "path_fits cf p" and a: "path_str_ok a"
  shows "succeeds (ucb_path_append_str me cf p a) (\<lambda>(ok, r). ok \<and> (\<exists>q.
    path_is (parse_text cf (path_sep_of cf (p_style p)) (str_text (path_field p a))) (path_resolve_style cf (p_style p)) q
    \<and> joined cf p q r))"
  unfolding ucb_path_append_str_def
proof (rule succeeds_step [OF path_make_parse [OF f path_field_ok [OF p(1) a]]], simp only: prod.case if_False not_True_eq_False)
  fix q assume q: "path_is (parse_text cf (path_sep_of cf (p_style p)) (str_text (path_field p a)))
    (path_resolve_style cf (p_style p)) q"
  then have ok: "path_ok q" by (simp add: path_is_def)
  have "succeeds (ucb_path_append me cf p (OtherPath q)) (\<lambda>(ok, r). ok \<and> joined cf p q r)"
    using path_append_spec [OF f p, of "OtherPath q"] ok by (simp add: path_arg_ok_def arg_path_def)
  then show "succeeds (rbind (ucb_path_append me cf p (OtherPath q)) (\<lambda>r. rbind (ucb_path_release q) (\<lambda>_. Ret r)))
      (\<lambda>(ok, r). ok \<and> (\<exists>q. path_is (parse_text cf (path_sep_of cf (p_style p)) (str_text (path_field p a)))
        (path_resolve_style cf (p_style p)) q \<and> joined cf p q r))"
    unfolding path_release_ok [OF ok] rbind.simps succeeds_rbind succeeds_simps
    by (rule succeeds_mono) (use q in auto)
qed

section \<open>Comparing\<close>

lemma path_compare_spec:
  assumes f: "\<not> fatal_returns me" and a: "path_ok a" "path_fits cf a" and b: "path_ok b" "path_fits cf b"
    and g: "\<And>s t. str_ok s \<Longrightarrow> str_ok t \<Longrightarrow> str_text s = path_composed cf a \<Longrightarrow> str_text t = path_composed cf b
      \<Longrightarrow> succeeds (cmp s t) P"
  shows "succeeds (path_compare_with me cf a b cmp failed) P"
  unfolding path_compare_with_def
  apply (rule succeeds_step [OF path_compose_to_spec [OF f a raw_empty]], elim conjE, simp only: prod.case if_True)
  apply (rule succeeds_step [OF path_compose_to_spec [OF f b raw_empty]], elim conjE, simp only: prod.case if_True)
  apply (simp add: raw_released succeeds_rbind)
  apply (rule g; assumption)
  done

lemma path_equals_spec:
  assumes "\<not> fatal_returns me" "path_ok a" "path_fits cf a" "path_ok b" "path_fits cf b"
  shows "succeeds (ucb_path_equals me cf a b) (\<lambda>r. r = (path_composed cf a = path_composed cf b))"
  unfolding ucb_path_equals_def
  by (rule path_compare_spec [OF assms]) (auto simp: equal_spec)

section \<open>The vector of strings\<close>

text \<open>A vector of strings holds a list of texts.\<close>

definition strs_hold :: "ucb_str ucb_vector \<Rightarrow> byte list list \<Rightarrow> bool" where
  "strs_hold v ts \<longleftrightarrow> (\<exists>ss. vec_holds 8 v ss \<and> list_all str_ok ss \<and> map str_text ss = ts)"

lemma strs_push:
  assumes f: "\<not> fatal_returns me" and h: "strs_hold v ts" and s: "str_ok s"
  shows "succeeds (ucb_vector_str_push_back me v s) (\<lambda>v'. strs_hold v' (ts @ [str_text s]))"
proof -
  obtain ss where ss: "vec_holds 8 v ss" "list_all str_ok ss" "map str_text ss = ts" using h by (auto simp: strs_hold_def)
  show ?thesis unfolding ucb_vector_str_push_back_def
    by (rule succeeds_mono [OF vec_push_succeeds [OF f ss(1)]])
      (use ss s in \<open>auto simp: strs_hold_def intro!: exI [of _ "ss @ [s]"]\<close>)
qed

section \<open>Parts\<close>

text \<open>The parts of a path: its anchor, the segments of its directory and its file name.\<close>

definition anchor_text :: "path_conf \<Rightarrow> byte \<Rightarrow> path_anchor_kind \<Rightarrow> byte list \<Rightarrow> byte list" where
  "anchor_text cf sep ak a =
     map (\<lambda>c. if path_sep_match cf sep c then sep else c) a @ (if ak = PATH_ANCHOR_DRIVE then [sep] else [])"

definition parts_text :: "path_conf \<Rightarrow> byte \<Rightarrow> path_text \<Rightarrow> byte list list" where
  "parts_text cf sep p =
     (case p of (d, s, e) \<Rightarrow>
        let (ak, n) = path_detect_anchor cf d sep in
        (if ak \<noteq> PATH_ANCHOR_NONE then [anchor_text cf sep ak (take n d)] else [])
        @ segs (path_sep_match cf sep) (drop n d) @ (if s @ e \<noteq> [] then [s @ e] else []))"

lemma segs_scan:
  "segs P (drop i d) = (let s = path_scan P d i in
     if s \<ge> length d then [] else let e = path_scan (\<lambda>c. \<not> P c) d s in take (e - s) (drop s d) # segs P (drop e d))"
proof -
  have dw: "dropWhile Q (drop j d) = drop (path_scan Q d j) d" for Q j
    by (simp add: path_scan_def dropWhile_eq_drop add.commute)
  have tw: "takeWhile Q (drop j d) = take (path_scan Q d j - j) (drop j d)" for Q j
    by (simp add: path_scan_def) (metis takeWhile_eq_take)
  show ?thesis by (simp add: segs.simps [of P "drop i d"] Let_def dw tw)
qed

lemma count_loop_eq: "count_loop P d i n = n + length (segs P (drop i d))"
proof (induction P d i n rule: count_loop.induct)
  case (1 P d i n)
  show ?case
  proof (cases "path_scan P d i \<ge> length d")
    case True
    then show ?thesis by (subst count_loop.simps, subst segs_scan) simp
  next
    case False
    then show ?thesis using "1.IH" [OF refl False] by (subst count_loop.simps, subst segs_scan) (simp add: Let_def)
  qed
qed

lemma part_loop_step:
  "part_loop P d index i pos = (let s = path_scan P d i in
     if s \<ge> length d then Inl pos
     else let e = path_scan (\<lambda>c. \<not> P c) d s in if index = pos then Inr (s, e) else part_loop P d index e (pos + 1))"
  by (rule part_loop.simps)

lemma part_loop_found:
  "pos \<le> index \<Longrightarrow> index - pos < length (segs P (drop i d)) \<Longrightarrow>
   \<exists>s e. part_loop P d index i pos = Inr (s, e) \<and> s < e \<and> e \<le> length d
     \<and> take (e - s) (drop s d) = segs P (drop i d) ! (index - pos)"
proof (induction P d index i pos rule: part_loop.induct)
  case (1 P d index i pos)
  let ?s = "path_scan P d i" let ?e = "path_scan (\<lambda>c. \<not> P c) d ?s"
  have s: "\<not> length d \<le> ?s" using "1.prems"(2) by (subst (asm) segs_scan) (simp add: Let_def split: if_splits)
  then have e: "?s < ?e" "?e \<le> length d"
    using scan_hit [of ?s d "\<lambda>c. \<not> P c"] scan_stop [of P d i] scan_le [of ?s d] by auto
  have sg: "segs P (drop i d) = take (?e - ?s) (drop ?s d) # segs P (drop ?e d)"
    using s by (subst segs_scan) (simp add: Let_def)
  show ?case
  proof (cases "index = pos")
    case True
    then show ?thesis using s e sg by (subst part_loop_step) (simp add: Let_def)
  next
    case False
    then have "index - pos = Suc (index - Suc pos)" using "1.prems"(1) by simp
    then show ?thesis using "1.IH" [OF refl s refl False] "1.prems" False s sg
      by (subst part_loop_step) (simp add: Let_def)
  qed
qed

lemma part_loop_none:
  "pos \<le> index \<Longrightarrow> length (segs P (drop i d)) \<le> index - pos \<Longrightarrow>
   part_loop P d index i pos = Inl (pos + length (segs P (drop i d)))"
proof (induction P d index i pos rule: part_loop.induct)
  case (1 P d index i pos)
  let ?s = "path_scan P d i" let ?e = "path_scan (\<lambda>c. \<not> P c) d ?s"
  show ?case
  proof (cases "length d \<le> ?s")
    case True
    then show ?thesis by (subst part_loop_step, subst segs_scan) simp
  next
    case s: False
    have sg: "segs P (drop i d) = take (?e - ?s) (drop ?s d) # segs P (drop ?e d)"
      using s by (subst segs_scan) (simp add: Let_def)
    have ne: "index \<noteq> pos" using "1.prems"(2) sg by auto
    then have "part_loop P d index ?e (pos + 1) = Inl (pos + 1 + length (segs P (drop ?e d)))"
      using "1.IH" [OF refl s refl ne] "1.prems" sg by simp
    then show ?thesis using s ne sg by (subst part_loop_step) (simp add: Let_def)
  qed
qed

lemma path_num_parts_spec:
  assumes "path_ok p"
  shows "ucb_path_num_parts cf p = Ret (length (parts_text cf (path_sep_of cf (p_style p)) (path_text p)))"
proof -
  obtain ak n where a: "path_detect_anchor cf (str_text (p_dir p)) (path_sep_of cf (p_style p)) = (ak, n)" by fastforce
  show ?thesis using path_has_name_iff [OF assms]
    by (simp add: ucb_path_num_parts_def Let_def path_okD(6) [OF assms] a count_loop_eq parts_text_def path_text_def)
qed

lemma anchor_text_valid: "ascii sep \<Longrightarrow> valid_text a \<Longrightarrow> valid_text (anchor_text cf sep ak a)"
  unfolding anchor_text_def
  by (auto intro!: valid_text_append valid_map_ascii valid_ascii intro: path_sep_match_ascii)

lemma path_build_anchor_spec:
  assumes f: "\<not> fatal_returns me" and out: "raw_ok out" and n: "valid_text (take n d)" and sep: "ascii sep"
  shows "succeeds (path_build_anchor me cf d ak n sep out)
    (\<lambda>(ok, s). ok \<and> str_ok s \<and> str_text s = anchor_text cf sep ak (take n d))"
  unfolding path_build_anchor_def raw_clear [OF out] rbind.simps
proof (rule succeeds_and_then [OF copy_anchor_spec [OF f raw_empty]], elim conjE)
  fix s assume s: "raw_ok s" "str_text s = str_text str_empty
    @ map (\<lambda>c. if path_sep_match cf sep c then sep else c) (take n d)"
  have v: "valid_text (anchor_text cf sep ak (take n d))" by (rule anchor_text_valid [OF sep n])
  have 1: "succeeds (if ak = PATH_ANCHOR_DRIVE then path_append_cstr me s [sep] 1 else Ret (True, s))
      (\<lambda>(ok, s). ok \<and> raw_ok s \<and> str_text s = anchor_text cf sep ak (take n d))"
    using path_append_one [OF f s(1), of sep] s by (simp add: anchor_text_def)
  show "succeeds (if ak = PATH_ANCHOR_DRIVE then path_append_cstr me s [sep] 1 else Ret (True, s))
      (\<lambda>(ok, s). ok \<and> str_ok s \<and> str_text s = anchor_text cf sep ak (take n d))"
    by (rule succeeds_mono [OF 1]) (use v in \<open>auto simp: str_ok_raw\<close>)
qed

lemma new_str_filled:
  assumes f: "\<not> fatal_returns me"
    and k: "\<And>s. raw_ok s \<Longrightarrow> str_text s = [] \<Longrightarrow> succeeds (k s) (\<lambda>(ok, s'). ok \<and> P s')"
  shows "succeeds (rbind (ucb_str_new me None 0) (\<lambda>r. case r of None \<Rightarrow> Ret None | Some s \<Rightarrow> rbind (k s) keep_str))
    (\<lambda>r. \<exists>s. r = Some s \<and> P s)"
  by (rule succeeds_some [OF str_new_succeeds [where cstr = None and t = "[]", OF f]])
    (simp_all add: keep_str_spec k)

lemma path_name_part_spec:
  assumes f: "\<not> fatal_returns me" and p: "path_ok p"
  shows "succeeds (path_name_part me p)
    (\<lambda>r. \<exists>s. r = Some s \<and> str_ok s \<and> str_text s = str_text (p_stem p) @ str_text (p_ext p))"
  unfolding path_name_part_def path_okD [OF p] rbind.simps
proof (rule new_str_filled [OF f], rule succeeds_and_then [OF append_piece [OF f _ path_okD(2) [OF p]]], assumption, elim conjE)
  fix s0 s assume a: "str_text s0 = []" "raw_ok s" "str_text s = str_text s0 @ str_text (p_stem p)"
  show "succeeds (path_append_cstr me s (str_text (p_ext p)) (length (str_text (p_ext p))))
      (\<lambda>(ok, s). ok \<and> str_ok s \<and> str_text s = str_text (p_stem p) @ str_text (p_ext p))"
    by (rule succeeds_mono [OF append_piece [OF f a(2) path_okD(3) [OF p]]])
      (use a valid_text_append [OF str_valid [OF path_okD(2) [OF p]] str_valid [OF path_okD(3) [OF p]]]
        in \<open>auto simp: str_ok_raw\<close>)
qed

lemma path_part_spec:
  assumes f: "\<not> fatal_returns me" and p: "path_ok p"
    and ts: "ts = parts_text cf (path_sep_of cf (p_style p)) (path_text p)"
  shows "i < length ts \<Longrightarrow> succeeds (ucb_path_part me cf p i) (\<lambda>r. \<exists>s. r = Some s \<and> str_ok s \<and> str_text s = ts ! i)"
    "length ts \<le> i \<Longrightarrow> ucb_path_part me cf p i = Abort UCB_ERROR_OUT_OF_BOUNDS"
proof -
  let ?sep = "path_sep_of cf (p_style p)" and ?d = "str_text (p_dir p)"
  let ?P = "path_sep_match cf ?sep"
  obtain ak n where a: "path_detect_anchor cf ?d ?sep = (ak, n)" by fastforce
  let ?b = "if ak \<noteq> PATH_ANCHOR_NONE then 1 else 0 :: nat" let ?ss = "segs ?P (drop n ?d)"
  have d: "str_ok (p_dir p)" "valid_text ?d" using path_okD [OF p] str_valid by auto
  note v = anchor_valid [OF a _ d(2), simplified]
  have ts': "ts = (if ak \<noteq> PATH_ANCHOR_NONE then [anchor_text cf ?sep ak (take n ?d)] else [])
      @ ?ss @ (if path_has_name p then [str_text (p_stem p) @ str_text (p_ext p)] else [])"
    using path_has_name_iff [OF p] by (simp add: ts parts_text_def path_text_def a)
  have part: "ucb_path_part me cf p i =
      (if ak \<noteq> PATH_ANCHOR_NONE \<and> i = 0 then path_anchor_part me cf ?d ak n ?sep
       else case part_loop ?P ?d i n ?b of
         Inr (s, e) \<Rightarrow> rbind (mem_of (p_dir p)) (\<lambda>m. ucb_str_new me (Some (drop s m)) (e - s))
       | Inl pos \<Rightarrow> if path_has_name p \<and> i = pos then path_name_part me p else Abort UCB_ERROR_OUT_OF_BOUNDS)"
    by (simp add: ucb_path_part_def Let_def path_okD(6) [OF p] a)
  consider (anchor) "ak \<noteq> PATH_ANCHOR_NONE" "i = 0" | (seg) "?b \<le> i" "i - ?b < length ?ss"
    | (later) "?b \<le> i" "length ?ss \<le> i - ?b" by (cases "?b \<le> i") (force split: if_splits)+
  note c = this
  show "succeeds (ucb_path_part me cf p i) (\<lambda>r. \<exists>s. r = Some s \<and> str_ok s \<and> str_text s = ts ! i)" if i: "i < length ts"
  proof (cases rule: c)
    case anchor
    then have e: "ts ! i = anchor_text cf ?sep ak (take n ?d)" by (simp add: ts')
    show ?thesis unfolding part if_P [OF conjI [OF anchor]] path_anchor_part_def e
      by (rule new_str_filled [OF f]) (rule path_build_anchor_spec [OF f _ v(1) path_sep_of_ascii], assumption)
  next
    case seg
    obtain s e where se: "part_loop ?P ?d i n ?b = Inr (s, e)" "s < e" "e \<le> length ?d"
      "take (e - s) (drop s ?d) = ?ss ! (i - ?b)" using part_loop_found [OF seg] by blast
    have na: "\<not> (ak \<noteq> PATH_ANCHOR_NONE \<and> i = 0)" using seg(1) by (simp split: if_splits)
    have tsi: "ts ! i = ?ss ! (i - ?b)" using seg by (cases i) (auto simp: ts' nth_append split: if_splits)
    have vt: "valid_text (ts ! i)" unfolding tsi
      by (rule valid_segs [OF _ v(2) nth_mem [OF seg(2)]]) (rule path_sep_match_ascii [OF path_sep_of_ascii])
    obtain m where m: "mem_of (p_dir p) = Ret m" "length m \<le> PTRDIFF_MAX" "length ?d < length m" "take (length ?d) m = ?d"
      using str_okE [OF d(1)] by metis
    have l: "length (ts ! i) = e - s" using se(3) unfolding tsi se(4) [symmetric] by simp
    have "take (e - s) (drop s (take (length ?d) m)) = take (e - s) (drop s m)"
      using se(3) by (simp add: drop_take min_def)
    then have "take (e - s) (drop s m) = ts ! i" unfolding m(4) tsi se(4) by simp
    then have "src_text (drop s m) (e - s) (ts ! i)" using m(2,3) se(2,3) l by (simp add: src_text_def) linarith
    from str_new_succeeds [where cstr = "Some (drop s m)", OF f _ vt] this
    show ?thesis unfolding part if_not_P [OF na] se(1) sum.case prod.case m(1) rbind.simps by simp
  next
    case later
    have nm: "path_has_name p" "i = ?b + length ?ss" using later i by (auto simp: ts' split: if_splits)
    have na: "\<not> (ak \<noteq> PATH_ANCHOR_NONE \<and> i = 0)" using later(1) by (simp split: if_splits)
    have "ts ! i = str_text (p_stem p) @ str_text (p_ext p)" using nm by (auto simp: ts' nth_append)
    then show ?thesis using path_name_part_spec [OF f p] nm
      unfolding part if_not_P [OF na] part_loop_none [OF later] by simp
  qed
  show "ucb_path_part me cf p i = Abort UCB_ERROR_OUT_OF_BOUNDS" if i: "length ts \<le> i"
  proof -
    have later: "?b \<le> i" "length ?ss \<le> i - ?b" using i by (auto simp: ts' split: if_splits)
    have na: "\<not> (ak \<noteq> PATH_ANCHOR_NONE \<and> i = 0)" using later(1) by (simp split: if_splits)
    have nn: "\<not> (path_has_name p \<and> i = ?b + length ?ss)" using i by (auto simp: ts' split: if_splits)
    show ?thesis unfolding part if_not_P [OF na] part_loop_none [OF later] sum.case if_not_P [OF nn] ..
  qed
qed

lemma parts_loop_spec:
  assumes f: "\<not> fatal_returns me" and p: "path_ok p"
    and ts: "ts = parts_text cf (path_sep_of cf (p_style p)) (path_text p)"
  shows "k \<le> length ts \<Longrightarrow> strs_hold v (take k ts)
    \<Longrightarrow> succeeds (parts_loop me cf p [k..<length ts] v) (\<lambda>r. \<exists>v. r = Some v \<and> strs_hold v ts)"
proof (induction "length ts - k" arbitrary: k v)
  case 0
  then show ?case by simp
next
  case (Suc n)
  then have k: "k < length ts" by simp
  then have u: "[k..<length ts] = k # [Suc k..<length ts]" by (rule upt_conv_Cons)
  show ?case unfolding u parts_loop.simps
  proof (rule succeeds_some [OF path_part_spec(1) [OF f p ts k]], simp only: option.case, elim conjE)
    fix s assume s: "str_ok s" "str_text s = ts ! k"
    show "succeeds (rbind (ucb_vector_str_push_back me v s) (parts_loop me cf p [Suc k..<length ts]))
        (\<lambda>r. \<exists>v. r = Some v \<and> strs_hold v ts)"
    proof (rule succeeds_bind [OF strs_push [OF f Suc.prems(2) s(1)]])
      fix v' assume "strs_hold v' (take k ts @ [str_text s])"
      then have "strs_hold v' (take (Suc k) ts)" using k s(2) by (simp add: take_Suc_conv_app_nth)
      then show "succeeds (parts_loop me cf p [Suc k..<length ts] v') (\<lambda>r. \<exists>v. r = Some v \<and> strs_hold v ts)"
        using Suc.hyps k by simp
    qed
  qed
qed

lemma path_parts_spec:
  assumes f: "\<not> fatal_returns me" and p: "path_ok p"
  shows "succeeds (ucb_path_parts me cf p)
    (\<lambda>r. \<exists>v. r = Some v \<and> strs_hold v (parts_text cf (path_sep_of cf (p_style p)) (path_text p)))"
  unfolding ucb_path_parts_def ucb_vector_str_new_def path_num_parts_spec [OF p]
proof (rule succeeds_some [OF vec_new_succeeds [OF f]], simp only: option.case rbind.simps)
  fix v :: "ucb_str ucb_vector" assume "vec_holds 8 v []"
  then have "strs_hold v (take 0 (parts_text cf (path_sep_of cf (p_style p)) (path_text p)))"
    by (simp add: strs_hold_def)
  from parts_loop_spec [OF f p refl _ this]
  show "succeeds (parts_loop me cf p [0..<length (parts_text cf (path_sep_of cf (p_style p)) (path_text p))] v)
      (\<lambda>r. \<exists>v. r = Some v \<and> strs_hold v (parts_text cf (path_sep_of cf (p_style p)) (path_text p)))" by simp
qed

text \<open>One path is inside another when the parts of one are a proper prefix of the parts of the other.\<close>

lemma inside_loop_spec:
  assumes f: "\<not> fatal_returns me" and p: "path_ok p" "path_ok q"
    and ts: "ts = parts_text cf (path_sep_of cf (p_style p)) (path_text p)"
    and us: "us = parts_text cf (path_sep_of cf (p_style q)) (path_text q)"
  shows "\<forall>i \<in> set is. i < length ts \<and> i < length us
    \<Longrightarrow> succeeds (inside_loop me cf p q is) (\<lambda>r. r = (\<forall>i \<in> set is. ts ! i = us ! i))"
proof (induction "is")
  case (Cons i "is")
  then have i: "i < length ts" "i < length us" by auto
  show ?case unfolding inside_loop.simps
  proof (rule succeeds_some [OF path_part_spec(1) [OF f p(1) ts i(1)]],
      rule succeeds_some [OF path_part_spec(1) [OF f p(2) us i(2)]], elim conjE)
    fix s t assume a: "str_ok s" "str_text s = ts ! i" "str_ok t" "str_text t = us ! i"
    have fr: "ucb_str_free (Some s) = Ret ()" "ucb_str_free (Some t) = Ret ()"
      using raw_release [OF str_raw [OF a(1)]] raw_release [OF str_raw [OF a(3)]] by (auto simp: ucb_str_free_def)
    show "succeeds (rbind (case (Some s, Some t) of (Some a, Some b) \<Rightarrow> ucb_str_equal a b | _ \<Rightarrow> Ret False) (\<lambda>same.
        rbind (ucb_str_free (Some s)) (\<lambda>_. rbind (ucb_str_free (Some t)) (\<lambda>_.
        if \<not> same then Ret False else inside_loop me cf p q is)))) (\<lambda>r. r = (\<forall>i \<in> set (i # is). ts ! i = us ! i))"
      using Cons a by (simp add: equal_spec fr)
  qed
qed simp

definition inside :: "'a list \<Rightarrow> 'a list \<Rightarrow> bool" where
  "inside ts us \<longleftrightarrow> us \<noteq> [] \<and> length us < length ts \<and> take (length us) ts = us"

lemma inside_iff:
  assumes "us \<noteq> []" "length us < length ts"
  shows "inside ts us = (\<forall>i \<in> set [0..<length us]. ts ! i = us ! i)"
proof
  assume "inside ts us"
  then have "take (length us) ts = us" by (simp add: inside_def)
  then show "\<forall>i \<in> set [0..<length us]. ts ! i = us ! i" by (metis atLeastLessThan_iff nth_take set_upt)
next
  assume a: "\<forall>i \<in> set [0..<length us]. ts ! i = us ! i"
  have "take (length us) ts = us" by (rule nth_equalityI) (use a assms in auto)
  then show "inside ts us" using assms by (simp add: inside_def)
qed

lemma path_inside_one_spec:
  assumes f: "\<not> fatal_returns me" and p: "path_ok p" "path_ok q"
  shows "succeeds (path_inside_one me cf p q) (\<lambda>r. r = inside (parts_text cf (path_sep_of cf (p_style p)) (path_text p))
    (parts_text cf (path_sep_of cf (p_style q)) (path_text q)))"
proof -
  let ?ts = "parts_text cf (path_sep_of cf (p_style p)) (path_text p)"
  let ?us = "parts_text cf (path_sep_of cf (p_style q)) (path_text q)"
  show ?thesis
  proof (cases "length ?ts = 0 \<or> length ?us = 0 \<or> length ?ts \<le> length ?us")
    case True
    then show ?thesis unfolding path_inside_one_def path_num_parts_spec [OF p(1)] path_num_parts_spec [OF p(2)] rbind.simps
      by (auto simp: inside_def)
  next
    case False
    then have "inside ?ts ?us = (\<forall>i \<in> set [0..<length ?us]. ?ts ! i = ?us ! i)"
      by (intro inside_iff) auto
    moreover have "succeeds (inside_loop me cf p q [0..<length ?us]) (\<lambda>r. r = (\<forall>i \<in> set [0..<length ?us]. ?ts ! i = ?us ! i))"
      by (rule inside_loop_spec [OF f p refl refl]) (use False in auto)
    ultimately show ?thesis using False
      unfolding path_inside_one_def path_num_parts_spec [OF p(1)] path_num_parts_spec [OF p(2)] rbind.simps by simp
  qed
qed

lemma path_is_inside_spec:
  assumes f: "\<not> fatal_returns me" and p: "path_ok p" "path_ok q"
    and ts: "ts = parts_text cf (path_sep_of cf (p_style p)) (path_text p)"
    and us: "us = parts_text cf (path_sep_of cf (p_style q)) (path_text q)"
  shows "succeeds (ucb_path_is_inside me cf p q) (\<lambda>r. r = (inside ts us \<or> inside us ts))"
  unfolding ucb_path_is_inside_def
  by (rule succeeds_bind [OF path_inside_one_spec [OF f p]])
    (use path_inside_one_spec [OF f p(2,1), of cf] ts us in auto)

end
