(* ===== verification/Path_Norm.thy ===== *)
theory Path_Norm
  imports Path_Ops
begin

text \<open>
  Lexical normalization: the segments \<open>path_normalize_lexical\<close> keeps, as a fold over the segments of
  the input, and the proof that the code's stack of output lengths implements it.
\<close>

section \<open>The reference\<close>

text \<open>
  One segment: \<open>.\<close> is dropped, \<open>..\<close> removes the segment before it or, at the start of a relative path,
  is kept.
\<close>

definition norm_step :: "bool \<Rightarrow> byte list list \<Rightarrow> byte list \<Rightarrow> byte list list" where
  "norm_step rel ss seg =
     (if seg = [DOT] then ss
      else if seg = [DOT, DOT] then
        (if ss \<noteq> [] \<and> last ss \<noteq> [DOT, DOT] then butlast ss else if rel then ss @ [seg] else ss)
      else ss @ [seg])"

definition norm_segs :: "bool \<Rightarrow> byte list list \<Rightarrow> byte list list" where
  "norm_segs rel segments = foldl (norm_step rel) [] segments"

text \<open>The text of an anchor followed by segments.\<close>

definition out_text :: "byte \<Rightarrow> byte list \<Rightarrow> byte list list \<Rightarrow> byte list" where
  "out_text sep a ss = foldl (slash_join sep) a ss"

definition norm_text :: "path_conf \<Rightarrow> byte \<Rightarrow> byte list \<Rightarrow> byte list" where
  "norm_text cf sep t =
     (let (ak, n) = path_detect_anchor cf t sep; P = path_sep_match cf sep;
          ss = norm_segs (ak = PATH_ANCHOR_NONE) (segs P (drop n t));
          out = out_text sep (map (\<lambda>c. if P c then sep else c) (take n t)) ss;
          out = (if ak = PATH_ANCHOR_DRIVE \<and> ss = [] \<and> out \<noteq> [] \<and> last out \<noteq> sep then out @ [sep] else out) in
      if out = [] \<and> t \<noteq> [] \<and> ak = PATH_ANCHOR_NONE then [DOT] else out)"

text \<open>The segments that are left: no \<open>.\<close>, and \<open>..\<close> only in front of a relative path.\<close>

definition norm_form :: "bool \<Rightarrow> nat \<Rightarrow> byte list list \<Rightarrow> bool" where
  "norm_form rel b ss \<longleftrightarrow> b \<le> length ss \<and> (b > 0 \<longrightarrow> rel) \<and> (\<forall>s \<in> set (take b ss). s = [DOT, DOT])
     \<and> (\<forall>s \<in> set (drop b ss). s \<noteq> [DOT] \<and> s \<noteq> [DOT, DOT])"

lemma out_text_snoc: "out_text sep a (ss @ [s]) = slash_join sep (out_text sep a ss) s"
  by (simp add: out_text_def)

lemma norm_form_top:
  assumes "norm_form rel b ss" shows "b < length ss \<longleftrightarrow> ss \<noteq> [] \<and> last ss \<noteq> [DOT, DOT]"
proof (cases "b < length ss")
  case True
  then have "last ss \<in> set (drop b ss)" by (metis drop_eq_Nil last_drop last_in_set not_less)
  then show ?thesis using assms True by (auto simp: norm_form_def)
next
  case False
  then have "take b ss = ss" using assms by (simp add: norm_form_def)
  then show ?thesis using assms False by (cases ss rule: rev_cases) (auto simp: norm_form_def)
qed

text \<open>The base the code keeps after a segment.\<close>

definition norm_base :: "bool \<Rightarrow> nat \<Rightarrow> byte list list \<Rightarrow> byte list \<Rightarrow> nat" where
  "norm_base rel b ss seg = (if seg = [DOT, DOT] \<and> \<not> b < length ss \<and> rel then b + 1 else b)"

lemma norm_form_step:
  assumes "norm_form rel b ss"
  shows "norm_form rel (norm_base rel b ss seg) (norm_step rel ss seg)"
proof -
  note t = norm_form_top [OF assms]
  have f: "b \<le> length ss" "b > 0 \<longrightarrow> rel" "\<forall>s \<in> set (take b ss). s = [DOT, DOT]"
    "\<forall>s \<in> set (drop b ss). s \<noteq> [DOT] \<and> s \<noteq> [DOT, DOT]" using assms by (auto simp: norm_form_def)
  consider "seg = [DOT]" | "seg = [DOT, DOT]" "b < length ss" | "seg = [DOT, DOT]" "b = length ss"
    | "seg \<noteq> [DOT]" "seg \<noteq> [DOT, DOT]" using f(1) by linarith
  then show ?thesis
  proof cases
    case 1
    then show ?thesis using assms by (simp add: norm_step_def norm_base_def)
  next
    case 2
    then have s: "norm_step rel ss seg = butlast ss" "norm_base rel b ss seg = b"
      using t by (simp_all add: norm_step_def norm_base_def)
    have "set (drop b (butlast ss)) \<subseteq> set (drop b ss)" by (metis butlast_drop in_set_butlastD subsetI)
    moreover have "take b (butlast ss) = take b ss" using 2(2) by (simp add: butlast_conv_take)
    ultimately show ?thesis using 2 f unfolding s by (auto simp: norm_form_def)
  next
    case 3
    then have n: "\<not> (ss \<noteq> [] \<and> last ss \<noteq> [DOT, DOT])" using t by simp
    have s: "norm_step rel ss seg = (if rel then ss @ [seg] else ss)"
      using 3 unfolding norm_step_def if_not_P [OF n] by simp
    show ?thesis using 3 f unfolding s by (auto simp: norm_base_def norm_form_def)
  next
    case 4
    then show ?thesis using f by (simp add: norm_step_def norm_base_def norm_form_def)
  qed
qed

lemma norm_form_fold: "norm_form rel b ss \<Longrightarrow> \<exists>b'. norm_form rel b' (foldl (norm_step rel) ss segments)"
  by (induction segments arbitrary: b ss) (auto dest: norm_form_step)

lemma norm_segs_form: "\<exists>b. norm_form rel b (norm_segs rel segments)"
  unfolding norm_segs_def by (rule norm_form_fold [of _ 0]) (simp add: norm_form_def)

lemma norm_step_set: "set (norm_step rel ss seg) \<subseteq> insert seg (set ss)"
  by (auto simp: norm_step_def dest: in_set_butlastD)

lemma norm_step_length: "length (norm_step rel ss seg) \<le> Suc (length ss)"
  by (simp add: norm_step_def le_diff_conv)

lemma norm_fold_set: "set (foldl (norm_step rel) ss segments) \<subseteq> set ss \<union> set segments"
  using norm_step_set by (induction segments arbitrary: ss) fastforce+

lemma length_segs: "length (segs P xs) \<le> length xs"
  by (induction xs) (simp_all add: segs_Cons le_SucI le_diff_conv)

section \<open>The code's stack\<close>

definition norm_inv :: "byte \<Rightarrow> byte list \<Rightarrow> bool \<Rightarrow> byte list list \<Rightarrow> norm_state \<Rightarrow> bool" where
  "norm_inv sep a rel ss st \<longleftrightarrow>
     raw_ok (n_out st) \<and> str_text (n_out st) = out_text sep a ss \<and> n_depth st = length ss
     \<and> norm_form rel (n_base st) ss \<and> (\<forall>s \<in> set ss. s \<noteq> [])
     \<and> (\<forall>k < length ss. k < length (n_starts st) \<and> n_starts st ! k = Some (length (out_text sep a (take k ss))))"

lemma out_text_prefix: "\<exists>r. out_text sep a (ss @ us) = out_text sep a ss @ r"
proof (induction us rule: rev_induct)
  case (snoc u us)
  then obtain r where "out_text sep a (ss @ us) = out_text sep a ss @ r" by blast
  then show ?case using out_text_snoc [of sep a "ss @ us" u] by (auto simp: slash_join_def)
qed simp

lemma out_text_take: "out_text sep a (take k ss) = take (length (out_text sep a (take k ss))) (out_text sep a ss)"
  using out_text_prefix [of sep a "take k ss" "drop k ss"] by auto

lemma str_truncate_spec:
  assumes ok: "raw_ok s" and n: "n < length (str_text s)"
  shows "\<exists>s'. str_truncate s n = Ret s' \<and> raw_ok s' \<and> str_text s' = take n (str_text s)"
proof -
  obtain m where m: "s_blk s = BMem m" "mem_of s = Ret m" "str_text s = take (s_size s) m" "length (str_text s) = s_size s"
    "s_size s < length m" "length m \<le> PTRDIFF_MAX" "s_alloc s > 0" "length m = s_alloc s"
    using ok n by (metis raw_okE gr0I not_less_zero)
  let ?m = "mem_write n [0] m"
  have w: "take n ?m = take n m" "?m ! n = 0" "length ?m = length m"
    using m n by (simp_all add: mem_write_def nth_append)
  have "str_truncate s n = Ret (s\<lparr>s_blk := BMem ?m, s_size := n\<rparr>)"
    using m(2,4,5,7) n by (simp add: str_truncate_def)
  moreover have "str_text (s\<lparr>s_blk := BMem ?m, s_size := n\<rparr>) = take n (str_text s)"
    using m(4) n unfolding m(3) by (simp add: str_text_def w min_def)
  moreover have "raw_ok (s\<lparr>s_blk := BMem ?m, s_size := n\<rparr>)" using w m n by (simp add: raw_ok_def)
  ultimately show ?thesis by simp
qed

lemma norm_append_spec:
  assumes f: "\<not> fatal_returns me" and ok: "raw_ok s" and seg: "seg \<noteq> []" "length seg \<le> PTRDIFF_MAX"
  shows "succeeds (norm_append me sep seg s) (\<lambda>(ok, s'). ok \<and> raw_ok s' \<and> str_text s' = slash_join sep (str_text s) seg)"
proof -
  let ?j = "if str_text s \<noteq> [] \<and> last (str_text s) \<noteq> sep then [sep] else []"
  have 1: "succeeds (if s_size s > 0 \<and> last (str_text s) \<noteq> sep then path_append_cstr me s [sep] 1 else Ret (True, s))
      (\<lambda>(ok, s'). ok \<and> raw_ok s' \<and> str_text s' = str_text s @ ?j)"
    using path_append_one [OF f ok, of sep] ok raw_length [OF ok] by simp
  show ?thesis unfolding norm_append_def str_bytes_ok [OF ok] rbind.simps
  proof (rule succeeds_and_then [OF 1], elim conjE)
    fix s1 assume s1: "raw_ok s1" "str_text s1 = str_text s @ ?j"
    show "succeeds (path_append_cstr me s1 seg (length seg))
        (\<lambda>(ok, s'). ok \<and> raw_ok s' \<and> str_text s' = slash_join sep (str_text s) seg)"
      by (rule succeeds_mono [OF path_append_cstr_spec [OF f s1(1) mem_read_ok seg(2)]])
        (use s1(2) seg(1) in \<open>auto simp: slash_join_def\<close>)
  qed
qed

lemma norm_push_spec:
  assumes f: "\<not> fatal_returns me" and i: "norm_inv sep a rel ss st" and seg: "seg \<noteq> []" "length seg \<le> PTRDIFF_MAX"
    and room: "length ss < length (n_starts st)"
    and b: "norm_form rel b (ss @ [seg])"
  shows "succeeds (norm_push me sep seg st) (\<lambda>(ok, st'). ok \<and> norm_inv sep a rel (ss @ [seg]) (st'\<lparr>n_base := b\<rparr>)
    \<and> n_base st' = n_base st \<and> length (n_starts st') = length (n_starts st))"
proof -
  have st: "raw_ok (n_out st)" "str_text (n_out st) = out_text sep a ss" "n_depth st = length ss" "\<forall>s \<in> set ss. s \<noteq> []"
    "\<And>k. k < length ss \<Longrightarrow> n_starts st ! k = Some (length (out_text sep a (take k ss)))"
    using i by (auto simp: norm_inv_def)
  have sz: "s_size (n_out st) = length (out_text sep a ss)" using raw_length [OF st(1)] st(2) by simp
  have d: "n_depth st < length (n_starts st)" using room st(3) by simp
  show ?thesis unfolding norm_push_def if_P [OF d] Let_def
  proof (rule succeeds_step [OF norm_append_spec [OF f st(1) seg]], elim conjE, simp only: prod.case if_True)
    fix s assume s: "raw_ok s" "str_text s = slash_join sep (str_text (n_out st)) seg"
    show "succeeds (Ret (True, st\<lparr>n_starts := (n_starts st)[n_depth st := Some (s_size (n_out st))], n_out := s\<rparr>
          \<lparr>n_depth := n_depth (st\<lparr>n_starts := (n_starts st)[n_depth st := Some (s_size (n_out st))], n_out := s\<rparr>) + 1\<rparr>))
        (\<lambda>(ok, st'). ok \<and> norm_inv sep a rel (ss @ [seg]) (st'\<lparr>n_base := b\<rparr>)
          \<and> n_base st' = n_base st \<and> length (n_starts st') = length (n_starts st))"
      using s st seg(1) room b by (auto simp: norm_inv_def sz out_text_snoc nth_list_update less_Suc_eq)
  qed
qed

lemma norm_pop_spec:
  assumes i: "norm_inv sep a rel ss st" and top: "n_base st < length ss" and room: "length ss \<le> length (n_starts st)"
  shows "\<exists>st'. norm_pop st = Ret st' \<and> norm_inv sep a rel (butlast ss) st' \<and> n_base st' = n_base st
    \<and> length (n_starts st') = length (n_starts st)"
proof -
  let ?k = "length ss - 1"
  have k: "?k < length ss" using top by simp
  have bl: "butlast ss = take ?k ss" by (rule butlast_conv_take)
  have st: "raw_ok (n_out st)" "str_text (n_out st) = out_text sep a ss" "n_depth st = length ss" "\<forall>s \<in> set ss. s \<noteq> []"
    "\<forall>k < length ss. k < length (n_starts st) \<and> n_starts st ! k = Some (length (out_text sep a (take k ss)))"
    "norm_form rel (n_base st) ss" using i by (auto simp: norm_inv_def)
  have ss: "ss = take ?k ss @ [ss ! ?k]" using take_Suc_conv_app_nth [OF k] top by simp
  have "ss ! ?k \<noteq> []" using st(4) k by simp
  then have "length (out_text sep a (take ?k ss)) < length (slash_join sep (out_text sep a (take ?k ss)) (ss ! ?k))"
    by (simp add: slash_join_def)
  then have l: "length (out_text sep a (take ?k ss)) < length (str_text (n_out st))"
    using out_text_snoc [of sep a "take ?k ss" "ss ! ?k"] ss st(2) by simp
  obtain s' where s': "str_truncate (n_out st) (length (out_text sep a (take ?k ss))) = Ret s'" "raw_ok s'"
    "str_text s' = out_text sep a (take ?k ss)"
    using str_truncate_spec [OF st(1) l] st(2) out_text_take [of sep a ?k ss] by metis
  have p: "norm_pop st = Ret (st\<lparr>n_out := s', n_depth := ?k\<rparr>)"
    using st(5) k s'(1) by (simp add: norm_pop_def Let_def st(3))
  have nf: "norm_form rel (n_base st) (butlast ss)"
  proof -
    have "last ss \<noteq> [DOT, DOT]" "ss \<noteq> []" using norm_form_top [OF st(6)] top by auto
    then show ?thesis using norm_form_step [OF st(6), of "[DOT, DOT]"] top by (simp add: norm_step_def norm_base_def)
  qed
  have "norm_inv sep a rel (butlast ss) (st\<lparr>n_out := s', n_depth := ?k\<rparr>)"
    using s'(2,3) st(4,5) nf k by (auto simp: norm_inv_def bl min_def dest: in_set_takeD)
  then show ?thesis using p by auto
qed

lemma norm_segment_spec:
  assumes f: "\<not> fatal_returns me" and i: "norm_inv sep a (ak = PATH_ANCHOR_NONE) ss st"
    and seg: "seg \<noteq> []" "length seg \<le> PTRDIFF_MAX" and room: "length ss < length (n_starts st)"
  shows "succeeds (norm_segment me sep ak seg st) (\<lambda>(ok, st'). ok
    \<and> norm_inv sep a (ak = PATH_ANCHOR_NONE) (norm_step (ak = PATH_ANCHOR_NONE) ss seg) st'
    \<and> length (n_starts st') = length (n_starts st))"
proof -
  let ?rel = "ak = PATH_ANCHOR_NONE"
  have nf: "norm_form ?rel (n_base st) ss" and d: "n_depth st = length ss" using i by (auto simp: norm_inv_def)
  note t = norm_form_top [OF nf]
  note nfs = norm_form_step [OF nf, of seg]
  have same: "st'\<lparr>n_base := n_base st\<rparr> = st'" if "n_base st' = n_base st" for st' :: norm_state
    using that by simp
  consider (dot) "seg = [DOT]" | (pop) "seg = [DOT, DOT]" "n_base st < length ss"
    | (keep) "seg = [DOT, DOT]" "\<not> n_base st < length ss" ?rel | (drop) "seg = [DOT, DOT]" "\<not> n_base st < length ss" "\<not> ?rel"
    | (push) "seg \<noteq> [DOT]" "seg \<noteq> [DOT, DOT]" by blast
  then show ?thesis
  proof cases
    case dot
    then show ?thesis using i by (simp add: norm_segment_def norm_step_def)
  next
    case pop
    then show ?thesis using norm_pop_spec [OF i pop(2)] room t d by (auto simp: norm_segment_def norm_step_def)
  next
    case drop
    then show ?thesis using i t d by (auto simp: norm_segment_def norm_step_def)
  next
    case keep
    have n: "\<not> (ss \<noteq> [] \<and> last ss \<noteq> [DOT, DOT])" using keep t by simp
    have ns: "norm_step ?rel ss seg = ss @ [seg]" using keep unfolding norm_step_def if_not_P [OF n] by simp
    have "norm_form ?rel (n_base st + 1) (ss @ [seg])" using nfs [unfolded ns] keep by (simp add: norm_base_def)
    note p = norm_push_spec [OF f i seg room this]
    have e: "norm_segment me sep ak seg st
        = and_then (norm_push me sep seg st) (\<lambda>st. Ret (True, st\<lparr>n_base := n_base st + 1\<rparr>))"
      using keep d by (simp add: norm_segment_def)
    show ?thesis unfolding e ns by (rule succeeds_and_then [OF p]) auto
  next
    case push
    have ns: "norm_step ?rel ss seg = ss @ [seg]" using push by (simp add: norm_step_def)
    have "norm_form ?rel (n_base st) (ss @ [seg])" using nfs [unfolded ns] push by (simp add: norm_base_def)
    note p = norm_push_spec [OF f i seg room this]
    have e: "norm_segment me sep ak seg st = norm_push me sep seg st" using push by (simp add: norm_segment_def)
    show ?thesis unfolding e ns by (rule succeeds_mono [OF p]) (auto simp: same)
  qed
qed

lemma succeeds_and_then_eq:
  "succeeds m (\<lambda>(ok, s). ok \<and> P s) \<Longrightarrow> (\<And>s. m = Ret (True, s) \<Longrightarrow> P s \<Longrightarrow> succeeds (k s) Q)
   \<Longrightarrow> succeeds (and_then m k) Q"
  unfolding and_then_def by (cases m) auto

lemma norm_loop_spec:
  assumes "norm_inv sep a (ak = PATH_ANCHOR_NONE) ss st" "length ss + length (segs P (drop i t)) < length (n_starts st)"
    and "length t \<le> PTRDIFF_MAX" "\<not> fatal_returns me"
  shows "succeeds (norm_loop me P sep ak t i st) (\<lambda>(ok, st'). ok \<and> norm_inv sep a (ak = PATH_ANCHOR_NONE)
      (foldl (norm_step (ak = PATH_ANCHOR_NONE)) ss (segs P (drop i t))) st')"
  using assms
proof (induction me P sep ak t i st arbitrary: ss rule: norm_loop.induct)
  case (1 me P sep ak t i st)
  let ?s = "path_scan P t i" let ?e = "path_scan (\<lambda>c. \<not> P c) t ?s" let ?rel = "ak = PATH_ANCHOR_NONE"
  show ?case
  proof (cases "length t \<le> ?s")
    case True
    have e: "norm_loop me P sep ak t i st = Ret (True, st)" by (subst norm_loop.simps) (simp add: True)
    have "segs P (drop i t) = []" by (subst segs_scan) (simp add: True)
    then show ?thesis unfolding e using "1.prems"(1) by simp
  next
    case s: False
    let ?seg = "take (?e - ?s) (drop ?s t)"
    have sg: "segs P (drop i t) = ?seg # segs P (drop ?e t)"
      using s by (subst segs_scan) (simp add: Let_def)
    have ne: "?seg \<noteq> []" using segs_elem [of ?seg P "drop i t"] by (simp only: sg list.set_intros(1) simp_thms)
    have l: "length ?seg \<le> PTRDIFF_MAX" using "1.prems"(3) by simp
    have room: "length ss < length (n_starts st)" "length ss + Suc (length (segs P (drop ?e t))) < length (n_starts st)"
      using "1.prems"(2) unfolding sg by simp_all
    have e: "norm_loop me P sep ak t i st
        = and_then (norm_segment me sep ak ?seg st) (norm_loop me P sep ak t ?e)"
      using s by (subst norm_loop.simps) (simp add: Let_def)
    have step: "succeeds (norm_loop me P sep ak t ?e st') (\<lambda>(ok, st'). ok \<and> norm_inv sep a ?rel
        (foldl (norm_step ?rel) ss (segs P (drop i t))) st')"
      if st': "norm_inv sep a ?rel (norm_step ?rel ss ?seg) st'" "length (n_starts st') = length (n_starts st)"
        "norm_segment me sep ak ?seg st = Ret (True, st')" for st'
    proof -
      have "length (norm_step ?rel ss ?seg) + length (segs P (drop ?e t)) < length (n_starts st')"
        using norm_step_length [of ?rel ss ?seg] room(2) st'(2) by linarith
      from "1.IH" [OF refl s refl st'(3,1) this "1.prems"(3,4)] show ?thesis unfolding sg foldl.simps .
    qed
    show ?thesis unfolding e
      by (rule succeeds_and_then_eq [OF norm_segment_spec [OF "1.prems"(4,1) ne l room(1)]], elim conjE, rule step)
  qed
qed

section \<open>Normalizing a path\<close>

lemma norm_segs_valid:
  assumes "ascii sep" "valid_text t" "s \<in> set (norm_segs rel (segs (path_sep_match cf sep) t))"
  shows "valid_text s \<and> s \<noteq> [] \<and> (\<forall>c \<in> set s. \<not> path_sep_match cf sep c)"
proof -
  have m: "s \<in> set (segs (path_sep_match cf sep) t)"
    using norm_fold_set [of rel "[]" "segs (path_sep_match cf sep) t"] assms(3) unfolding norm_segs_def by auto
  have "valid_text s" by (rule valid_segs [OF path_sep_match_ascii [OF assms(1)] assms(2) m])
  then show ?thesis using segs_elem [OF m] by simp
qed

lemma out_text_valid: "ascii sep \<Longrightarrow> valid_text a \<Longrightarrow> (\<And>s. s \<in> set ss \<Longrightarrow> valid_text s) \<Longrightarrow> valid_text (out_text sep a ss)"
  by (induction ss rule: rev_induct) (simp_all add: out_text_def slash_join_valid)

lemma norm_finish_spec:
  assumes f: "\<not> fatal_returns me" and ok: "raw_ok s"
  shows "succeeds (and_then (if drive \<and> s_size s > 0 \<and> last (str_text s) \<noteq> sep
            then path_append_cstr me s [sep] 1 else Ret (True, s))
        (\<lambda>s. if s_size s = 0 \<and> cur then path_append_cstr me s [DOT] 1 else Ret (True, s)))
     (\<lambda>(ok, s'). ok \<and> raw_ok s' \<and> str_text s' =
       (let t = (if drive \<and> str_text s \<noteq> [] \<and> last (str_text s) \<noteq> sep then str_text s @ [sep] else str_text s) in
        if t = [] \<and> cur then [DOT] else t))"
proof -
  let ?t = "if drive \<and> str_text s \<noteq> [] \<and> last (str_text s) \<noteq> sep then str_text s @ [sep] else str_text s"
  have 1: "succeeds (if drive \<and> s_size s > 0 \<and> last (str_text s) \<noteq> sep
      then path_append_cstr me s [sep] 1 else Ret (True, s)) (\<lambda>(ok, s'). ok \<and> raw_ok s' \<and> str_text s' = ?t)"
    using path_append_one [OF f ok, of sep] ok raw_length [OF ok] by simp
  show ?thesis unfolding Let_def
  proof (rule succeeds_and_then [OF 1], elim conjE)
    fix s' assume s': "raw_ok s'" "str_text s' = ?t"
    show "succeeds (if s_size s' = 0 \<and> cur then path_append_cstr me s' [DOT] 1 else Ret (True, s'))
        (\<lambda>(ok, s'). ok \<and> raw_ok s' \<and> str_text s' = (if ?t = [] \<and> cur then [DOT] else ?t))"
      using path_append_one [OF f s'(1), of DOT] s'(1) raw_length [OF s'(1)]
      unfolding s'(2) [symmetric] by (cases "str_text s' = []") simp_all
  qed
qed

lemma norm_text_valid:
  assumes sep: "ascii sep" and t: "valid_text t"
  shows "valid_text (norm_text cf sep t)"
proof -
  obtain ak n where an: "path_detect_anchor cf t sep = (ak, n)" by fastforce
  note v = anchor_valid [OF an disjI2 [OF sep] t]
  let ?o = "out_text sep (map (\<lambda>c. if path_sep_match cf sep c then sep else c) (take n t))
      (norm_segs (ak = PATH_ANCHOR_NONE) (segs (path_sep_match cf sep) (drop n t)))"
  have o: "valid_text ?o"
  proof (rule out_text_valid [OF sep])
    show "valid_text (map (\<lambda>c. if path_sep_match cf sep c then sep else c) (take n t))"
      by (rule valid_map_ascii [OF path_sep_match_ascii [OF sep] sep v(1)])
    show "valid_text s" if "s \<in> set (norm_segs (ak = PATH_ANCHOR_NONE) (segs (path_sep_match cf sep) (drop n t)))" for s
      using norm_segs_valid [OF sep v(2) that] by blast
  qed
  have os: "valid_text (?o @ [sep])" by (rule valid_text_append [OF o valid_ascii [OF sep]])
  show ?thesis unfolding norm_text_def an Let_def prod.case
    by (simp only: o os valid_ascii [OF sep_ascii(3)] split: if_split) simp
qed

lemma normalize_lexical_spec:
  assumes f: "\<not> fatal_returns me" and out: "raw_ok out" and p: "str_ok p" and sep: "ascii sep"
    and len: "(length (str_text p) + 1) * 8 \<le> PTRDIFF_MAX"
  shows "succeeds (path_normalize_lexical me cf out p sep)
    (\<lambda>(ok, s). ok \<and> str_ok s \<and> str_text s = norm_text cf sep (str_text p))"
proof -
  let ?t = "str_text p" let ?P = "path_sep_match cf sep"
  obtain ak n where an: "path_detect_anchor cf ?t sep = (ak, n)" by fastforce
  let ?a = "map (\<lambda>c. if ?P c then sep else c) (take n ?t)" let ?rel = "ak = PATH_ANCHOR_NONE"
  let ?ss = "norm_segs ?rel (segs ?P (drop n ?t))"
  have sz: "s_size p = length ?t" "length ?t \<le> PTRDIFF_MAX" using raw_length [of p] p len by auto
  have u: "usize ((length ?t + 1) * 8) = (length ?t + 1) * 8" using len by simp
  have vn: "valid_text (norm_text cf sep ?t)" by (rule norm_text_valid [OF sep str_valid [OF p]])
  let ?st = "\<lambda>o'. \<lparr>n_out = o', n_starts = replicate (length ?t + 1) None, n_depth = 0, n_base = 0\<rparr>"
  have loop: "succeeds (norm_loop me ?P sep ak ?t n (?st s)) (\<lambda>(ok, st'). ok \<and> norm_inv sep ?a ?rel ?ss st')"
    if s: "raw_ok s" "str_text s = ?a" for s
    unfolding norm_segs_def
  proof (rule norm_loop_spec [OF _ _ sz(2) f])
    show "norm_inv sep ?a ?rel [] (?st s)" using s by (simp add: norm_inv_def out_text_def norm_form_def)
    show "length [] + length (segs ?P (drop n ?t)) < length (n_starts (?st s))"
      using length_segs [of ?P "drop n ?t"] by simp
  qed
  have fin: "succeeds (and_then (if (ak = PATH_ANCHOR_DRIVE \<and> n_depth st = 0) \<and> s_size (n_out st) > 0
              \<and> last (str_text (n_out st)) \<noteq> sep then path_append_cstr me (n_out st) [sep] 1 else Ret (True, n_out st))
        (\<lambda>out. if s_size out = 0 \<and> length ?t > 0 \<and> ?rel then path_append_cstr me out [DOT] 1 else Ret (True, out)))
      (\<lambda>(ok, s). ok \<and> str_ok s \<and> str_text s = norm_text cf sep ?t)"
    if i: "norm_inv sep ?a ?rel ?ss st" for st
  proof -
    have st: "raw_ok (n_out st)" "str_text (n_out st) = out_text sep ?a ?ss" "n_depth st = length ?ss"
      using i by (auto simp: norm_inv_def)
    have nt: "norm_text cf sep ?t = (let t = (if (ak = PATH_ANCHOR_DRIVE \<and> n_depth st = 0) \<and> str_text (n_out st) \<noteq> []
          \<and> last (str_text (n_out st)) \<noteq> sep then str_text (n_out st) @ [sep] else str_text (n_out st)) in
        if t = [] \<and> length ?t > 0 \<and> ?rel then [DOT] else t)"
      unfolding norm_text_def an Let_def prod.case st(2,3) length_0_conv length_greater_0_conv conj_assoc ..
    show ?thesis
      by (rule succeeds_mono [OF norm_finish_spec [OF f st(1)]]) (use vn in \<open>auto simp only: nt str_ok_raw\<close>)
  qed
  show ?thesis
    unfolding path_normalize_lexical_def raw_clear [OF out] rbind.simps str_bytes_ok [OF str_raw [OF p]] an Let_def prod.case
      sz(1) u
    apply (rule succeeds_and_then [OF copy_anchor_spec [OF f raw_empty]], elim conjE)
    apply (rule succeeds_bind [OF succeeds_malloc [OF f]])
    subgoal by simp
    subgoal premises pr for s ok
    proof -
      have s: "raw_ok s" "str_text s = ?a" using pr(1,2) by simp_all
      show ?thesis using pr(3)
        apply (simp only: not_True_eq_False if_False simp_thms)
        apply (rule succeeds_step [OF loop [OF s]])
        apply (simp only: prod.case if_False not_True_eq_False)
        subgoal premises q for st
        proof -
          have b: "str_bytes (n_out st) = Ret (str_text (n_out st))" using q by (simp add: norm_inv_def str_bytes_ok)
          show ?thesis unfolding b rbind.simps using fin [of st] q unfolding conj_assoc by blast
        qed
        done
    qed
    done
qed

lemma path_normalize_spec:
  assumes f: "\<not> fatal_returns me" and p: "path_ok p"
    and len: "(length (path_composed cf p) + 1) * 8 \<le> PTRDIFF_MAX"
  shows "succeeds (ucb_path_normalize me cf p) (\<lambda>(ok, p'). ok \<and>
    path_is (parse_text cf (path_sep_of cf (p_style p)) (norm_text cf (path_sep_of cf (p_style p)) (path_composed cf p)))
      (path_resolve_style cf (p_style p)) p')"
proof -
  let ?sep = "path_sep_of cf (p_style p)"
  have fit: "path_fits cf p" using len by (simp add: path_fits_def)
  show ?thesis unfolding ucb_path_normalize_def Let_def
  proof (rule succeeds_step [OF path_compose_to_spec [OF f p fit raw_empty]], elim conjE)
    fix c assume c: "str_ok c" "str_text c = path_composed cf p"
    have 1: "succeeds (rbind (path_normalize_lexical me cf str_empty c ?sep) (\<lambda>(ok, norm).
          rbind (if ok then path_parse me cf p norm (p_style p) else Ret (False, p)) (\<lambda>r.
          rbind (ucb_str_release norm) (\<lambda>_. Ret r))))
        (\<lambda>(ok, p'). ok \<and> path_is (parse_text cf ?sep (norm_text cf ?sep (path_composed cf p)))
          (path_resolve_style cf (p_style p)) p')"
    proof (rule succeeds_step [OF normalize_lexical_spec [OF f raw_empty c(1) path_sep_of_ascii]])
      show "(length (str_text c) + 1) * 8 \<le> PTRDIFF_MAX" using len c(2) by simp
      fix n assume n: "str_ok n \<and> str_text n = norm_text cf ?sep (str_text c)"
      have fr: "ucb_str_release n = Ret str_zero" using raw_released [of n] n by simp
      show "succeeds (case (True, n) of (ok, norm) \<Rightarrow>
          rbind (if ok then path_parse me cf p norm (p_style p) else Ret (False, p)) (\<lambda>r.
          rbind (ucb_str_release norm) (\<lambda>_. Ret r)))
        (\<lambda>(ok, p'). ok \<and> path_is (parse_text cf ?sep (norm_text cf ?sep (path_composed cf p)))
          (path_resolve_style cf (p_style p)) p')"
        unfolding prod.case if_True fr rbind.simps succeeds_rbind succeeds_simps
        by (rule succeeds_mono [OF path_parse_spec [OF f p]]) (use n c(2) in auto)
    qed
    have fr: "ucb_str_release c = Ret str_zero" using raw_released [of c] c by simp
    show "succeeds (case (True, c) of (ok, cur) \<Rightarrow>
        rbind (if ok then rbind (path_normalize_lexical me cf str_empty cur ?sep) (\<lambda>(ok, norm).
            rbind (if ok then path_parse me cf p norm (p_style p) else Ret (False, p)) (\<lambda>r.
            rbind (ucb_str_release norm) (\<lambda>_. Ret r))) else Ret (False, p)) (\<lambda>(ok, path).
          rbind (ucb_str_release cur) (\<lambda>_. Ret (ok, path\<lparr>p_dirty := True\<rparr>))))
      (\<lambda>(ok, p'). ok \<and> path_is (parse_text cf ?sep (norm_text cf ?sep (path_composed cf p)))
          (path_resolve_style cf (p_style p)) p')"
      unfolding prod.case if_True fr rbind.simps
      by (rule succeeds_step [OF 1]) (auto simp: path_is_def path_ok_def path_text_def)
  qed
qed

section \<open>Canonical texts\<close>

text \<open>
  On POSIX, with the separator \<^verbatim>\<open>/\<close>: a text is canonical when it is an anchor (none, \<^verbatim>\<open>/\<close> or \<^verbatim>\<open>//\<close>)
  followed by nonempty segments with one separator between them.
\<close>

definition posix_anchor :: "byte list \<Rightarrow> bool" where
  "posix_anchor a \<longleftrightarrow> a = [] \<or> a = [SLASH] \<or> a = [SLASH, SLASH]"

definition good_segs :: "byte list list \<Rightarrow> bool" where
  "good_segs ss \<longleftrightarrow> (\<forall>s \<in> set ss. s \<noteq> [] \<and> SLASH \<notin> set s)"

definition canonical :: "byte list \<Rightarrow> bool" where
  "canonical t \<longleftrightarrow> (\<exists>a ss. t = a @ join_segs SLASH ss \<and> posix_anchor a \<and> good_segs ss)"

lemma canonicalI: "posix_anchor a \<Longrightarrow> good_segs ss \<Longrightarrow> canonical (a @ join_segs SLASH ss)"
  by (auto simp: canonical_def)

lemma posix_sep: "\<not> win32 cf \<Longrightarrow> path_is_sep cf = (\<lambda>c. c = SLASH)"
  by (simp add: path_is_sep_def fun_eq_iff)

lemma posix_match: "\<not> win32 cf \<Longrightarrow> path_sep_match cf SLASH = (\<lambda>c. c = SLASH)"
  by (auto simp: path_sep_match_def path_is_sep_def fun_eq_iff)

lemma good_segs_simps [simp]:
  "good_segs []" "good_segs (s # ss) \<longleftrightarrow> s \<noteq> [] \<and> SLASH \<notin> set s \<and> good_segs ss"
  "good_segs (ss @ us) \<longleftrightarrow> good_segs ss \<and> good_segs us"
  by (auto simp: good_segs_def)

lemma good_segs_segs: "good_segs (segs (\<lambda>c. c = SLASH) xs)"
  using segs_elem [of _ "\<lambda>c. c = SLASH" xs] by (auto simp: good_segs_def)

lemma segs_good: "good_segs ss \<Longrightarrow> segs (\<lambda>c. c = SLASH) (join_segs SLASH ss) = ss"
  by (rule segs_join) (auto simp: good_segs_def)

lemma join_hd: "good_segs ss \<Longrightarrow> ss \<noteq> [] \<Longrightarrow> \<exists>c cs. join_segs SLASH ss = c # cs \<and> c \<noteq> SLASH"
  by (cases ss) (force simp: join_segs_Cons neq_Nil_conv)+

lemma join_last: "good_segs ss \<Longrightarrow> ss \<noteq> [] \<Longrightarrow> join_segs SLASH ss \<noteq> [] \<and> last (join_segs SLASH ss) \<noteq> SLASH"
proof -
  assume a: "good_segs ss" "ss \<noteq> []"
  then have l: "last ss \<in> set ss" by simp
  then have "last ss \<noteq> []" "SLASH \<notin> set (last ss)" using a(1) by (auto simp: good_segs_def)
  then show ?thesis using join_segs_last [OF a(2)] join_hd [OF a] by (metis last_in_set list.distinct(1))
qed

lemma out_text_join: "posix_anchor a \<Longrightarrow> good_segs ss \<Longrightarrow> out_text SLASH a ss = a @ join_segs SLASH ss"
proof (induction ss rule: rev_induct)
  case (snoc s ss)
  show ?case
  proof (cases "ss = []")
    case True
    then show ?thesis using snoc.prems by (auto simp: out_text_def slash_join_def posix_anchor_def)
  next
    case False
    then have "slash_join SLASH (a @ join_segs SLASH ss) s = a @ join_segs SLASH ss @ SLASH # s"
      using join_last [of ss] snoc.prems by (simp add: slash_join_def)
    then show ?thesis using snoc False by (simp add: out_text_snoc join_segs_append)
  qed
qed (simp add: out_text_def)

text \<open>The anchor of a canonical text, also when a separator follows.\<close>

lemma posix_detect:
  assumes w: "\<not> win32 cf" and a: "posix_anchor a" and e: "e = 0 \<or> e = SLASH" and r: "r = [] \<or> hd r \<noteq> SLASH"
  shows "path_detect_anchor cf (a @ r) e = (if a = [] then PATH_ANCHOR_NONE else PATH_ANCHOR_ROOT, length a)"
proof -
  have m: "path_sep_match cf e c \<longleftrightarrow> c = SLASH" for c
    using e posix_match [OF w] posix_sep [OF w] by auto
  show ?thesis using a r w
    by (cases r) (auto simp: posix_anchor_def path_detect_anchor_def Let_def m)
qed

lemma anchor_is_posix:
  assumes "\<not> win32 cf" "path_detect_anchor cf t e = (ak, n)" "e = 0 \<or> e = SLASH"
  shows "posix_anchor (take n t)" "ak \<noteq> PATH_ANCHOR_DRIVE" "ak \<noteq> PATH_ANCHOR_UNC" "ak = PATH_ANCHOR_NONE \<longleftrightarrow> take n t = []"
    "n = 0 \<Longrightarrow> t = [] \<or> hd t \<noteq> SLASH"
proof -
  have m: "path_sep_match cf e c \<longleftrightarrow> c = SLASH" for c
    using assms(3) posix_match [OF assms(1)] posix_sep [OF assms(1)] by auto
  have n: "(n = 0 \<and> ak = PATH_ANCHOR_NONE \<and> (t = [] \<or> t ! 0 \<noteq> SLASH)) \<or> (n = 1 \<and> ak = PATH_ANCHOR_ROOT \<and> t \<noteq> [] \<and> t ! 0 = SLASH)
      \<or> (n = 2 \<and> ak = PATH_ANCHOR_ROOT \<and> 2 \<le> length t \<and> t ! 0 = SLASH \<and> t ! 1 = SLASH)"
    using assms(2) by (rule anchor_cases) (use assms(1) in \<open>auto simp: m\<close>)
  moreover have "take 1 t = [t ! 0]" if "t \<noteq> []" using that by (cases t) auto
  ultimately show "posix_anchor (take n t)" "ak \<noteq> PATH_ANCHOR_DRIVE" "ak \<noteq> PATH_ANCHOR_UNC" "ak = PATH_ANCHOR_NONE \<longleftrightarrow> take n t = []"
    "n = 0 \<Longrightarrow> t = [] \<or> hd t \<noteq> SLASH"
    by (auto simp: posix_anchor_def take2 hd_conv_nth)
qed

lemma posix_anchor_map [simp]: "posix_anchor a \<Longrightarrow> map (\<lambda>c. if c = SLASH then SLASH else c) a = a"
  by (rule map_idI) simp

lemma slash_join_canonical:
  assumes "posix_anchor a" "good_segs ss" "f \<noteq> []" "SLASH \<notin> set f"
  shows "slash_join SLASH (a @ join_segs SLASH ss) f = a @ join_segs SLASH (ss @ [f])"
  using assms out_text_join [of a "ss @ [f]"] out_text_join [of a ss] by (simp add: out_text_snoc)

lemma segs_skip: "\<forall>x \<in> set a. P x \<Longrightarrow> segs P (a @ xs) = segs P xs"
  by (induction a) auto

lemma dir_text_canonical:
  assumes "\<not> win32 cf"
  shows "\<exists>a. posix_anchor a \<and> dir_text cf SLASH d = a @ join_segs SLASH (segs (\<lambda>c. c = SLASH) d)"
proof -
  let ?P = "\<lambda>c. c = SLASH"
  obtain ak n where an: "path_detect_anchor cf d 0 = (ak, n)" by fastforce
  note p = anchor_is_posix [OF assms an, simplified]
  let ?r = "drop n d" let ?ss = "segs ?P d"
  have nn: "n = 0 \<longleftrightarrow> take n d = []" using anchor_none [OF an] p(4) by simp
  have two: "?r = [] \<or> hd ?r \<noteq> SLASH" if "take n d = [SLASH, SLASH]"
  proof -
    have "length (take n d) = 2" using that by simp
    then have "n = 2" using anchor_le [OF an] by simp
    then show ?thesis using an assms
      by (auto simp: path_detect_anchor_def Let_def posix_sep hd_drop_conv_nth split: if_splits)
  qed
  have sd: "segs ?P ?r = ?ss"
  proof -
    have "\<forall>x \<in> set (take n d). x = SLASH" using p(1) by (auto simp: posix_anchor_def)
    from segs_skip [OF this, of ?r] show ?thesis by simp
  qed
  let ?j = "if ?ss \<noteq> [] \<and> take n d \<noteq> [] \<and> ?r \<noteq> [] \<and> hd ?r = SLASH then [SLASH] else []"
  have e: "dir_text cf SLASH d = take n d @ ?j @ join_segs SLASH ?ss"
  proof -
    have "n > 0 \<Longrightarrow> ?ss = [] \<Longrightarrow> last (take n d) = SLASH" using nn p(1) by (auto simp: posix_anchor_def)
    then show ?thesis using p(1) nn by (auto simp: dir_text_def an Let_def dir_body_def posix_sep [OF assms] sd)
  qed
  have "posix_anchor (take n d @ ?j)" using p(1) two by (auto simp: posix_anchor_def)
  then show ?thesis using e by (metis append_assoc)
qed

lemma parse_name_no_sep:
  assumes "\<not> win32 cf" "length t \<le> PTRDIFF_MAX"
  shows "SLASH \<notin> set (drop (raw_dir_len cf t) t)"
  using raw_dir_len_cases(3) [OF assms(2), of SLASH cf] posix_sep [OF assms(1)] by auto

lemma compose_parse_canonical:
  assumes "\<not> win32 cf" "length t \<le> PTRDIFF_MAX"
  shows "canonical (compose_text SLASH (parse_text cf SLASH t))"
proof -
  let ?n = "raw_dir_len cf t" let ?f = "drop ?n t"
  obtain a where a: "posix_anchor a" "dir_text cf SLASH (take ?n t) = a @ join_segs SLASH (segs (\<lambda>c. c = SLASH) (take ?n t))"
    using dir_text_canonical [OF assms(1)] by blast
  have c: "compose_text SLASH (parse_text cf SLASH t) = slash_join SLASH (dir_text cf SLASH (take ?n t)) ?f"
    by (metis (no_types, lifting) compose_slash_join parse_text_def prod.collapse split_name_append)
  show ?thesis
  proof (cases "?f = []")
    case True
    show ?thesis unfolding c a(2) True slash_join_Nil by (rule canonicalI [OF a(1) good_segs_segs])
  next
    case False
    show ?thesis unfolding c a(2)
      slash_join_canonical [OF a(1) good_segs_segs False parse_name_no_sep [OF assms]]
      by (rule canonicalI [OF a(1)]) (use False parse_name_no_sep [OF assms] good_segs_segs in auto)
  qed
qed

lemma raw_dir_len_eq:
  assumes w: "\<not> win32 cf" and len: "length (x @ f) \<le> PTRDIFF_MAX" and f: "SLASH \<notin> set f"
    and x: "x = [] \<or> last x = SLASH"
  shows "raw_dir_len cf (x @ f) = length x"
proof -
  let ?r = "raw_dir_len cf (x @ f)"
  note c = raw_dir_len_cases(1,2) [OF len, of cf]
  have "\<not> ?r < length x"
  proof
    assume a: "?r < length x"
    then have "last x = (drop ?r x @ f) ! (length x - 1 - ?r)" by (cases x rule: rev_cases) (auto simp: nth_append)
    then have "last x \<in> set (drop ?r (x @ f))" using a by (cases x rule: rev_cases) auto
    then show False using parse_name_no_sep [OF w len] x a by auto
  qed
  moreover have "\<not> length x < ?r"
  proof
    assume a: "length x < ?r"
    then have "path_is_sep cf ((x @ f) ! (?r - 1))" using c(2) by auto
    moreover have "(x @ f) ! (?r - 1) \<in> set f" using a c(1) by (auto simp: nth_append)
    ultimately show False using f posix_sep [OF w] by auto
  qed
  ultimately show ?thesis by simp
qed

lemma parse_canonical:
  assumes w: "\<not> win32 cf" and a: "posix_anchor a" and g: "good_segs (ss @ [f])"
    and len: "length (a @ join_segs SLASH (ss @ [f])) \<le> PTRDIFF_MAX"
  shows "parse_text cf SLASH (a @ join_segs SLASH (ss @ [f])) = (a @ join_segs SLASH ss, split_name f)"
proof -
  let ?P = "\<lambda>c. c = SLASH"
  let ?r = "join_segs SLASH ss @ (if ss = [] then [] else [SLASH])"
  have t: "a @ join_segs SLASH (ss @ [f]) = (a @ ?r) @ f" by (cases "ss = []") (simp_all add: join_segs_append)
  have r: "?r = [] \<or> hd ?r \<noteq> SLASH" using join_hd [of ss] g by (cases "ss = []") auto
  have n: "raw_dir_len cf ((a @ ?r) @ f) = length (a @ ?r)"
    by (rule raw_dir_len_eq [OF w]) (use len t g a in \<open>auto simp: posix_anchor_def\<close>)
  have s: "segs ?P ?r = ss" using g segs_append_sep [of ?P SLASH "join_segs SLASH ss" "[]"] by (simp add: segs_good)
  have d: "path_detect_anchor cf (a @ ?r) 0 = (if a = [] then PATH_ANCHOR_NONE else PATH_ANCHOR_ROOT, length a)"
    by (rule posix_detect [OF w a _ r]) simp
  have "dir_text cf SLASH (a @ ?r) = a @ join_segs SLASH ss"
  proof -
    have "a \<noteq> [] \<Longrightarrow> last a = SLASH" using a by (auto simp: posix_anchor_def)
    moreover have "?r \<noteq> [] \<Longrightarrow> hd ?r \<noteq> SLASH" using r by blast
    ultimately show ?thesis using d s a w
      by (auto simp: dir_text_def Let_def dir_body_def posix_sep)
  qed
  then show ?thesis unfolding t parse_text_def Let_def n by simp
qed

lemma parse_anchor:
  assumes "\<not> win32 cf" "posix_anchor a"
  shows "parse_text cf SLASH a = (a, [], [])"
proof -
  have n: "raw_dir_len cf a = length a"
    using raw_dir_len_eq [OF assms(1), of a "[]"] assms(2) by (auto simp: posix_anchor_def PTRDIFF_MAX_def)
  have "dir_text cf SLASH a = a"
    using posix_detect [OF assms, of 0 "[]"] assms by (auto simp: dir_text_def Let_def dir_body_def posix_sep posix_anchor_def)
  then show ?thesis by (simp add: parse_text_def n split_name_def path_find_dot_def)
qed

text \<open>Parsing and composing leave a canonical text as it is.\<close>

lemma compose_parse_id:
  assumes w: "\<not> win32 cf" and c: "canonical t" and len: "length t \<le> PTRDIFF_MAX"
  shows "compose_text SLASH (parse_text cf SLASH t) = t"
proof -
  obtain a ss where t: "t = a @ join_segs SLASH ss" "posix_anchor a" "good_segs ss" using c by (auto simp: canonical_def)
  show ?thesis
  proof (cases ss rule: rev_cases)
    case Nil
    then show ?thesis using parse_anchor [OF w t(2)] t by (simp add: compose_slash_join)
  next
    case (snoc us f)
    have g: "good_segs (us @ [f])" "good_segs us" "f \<noteq> []" "SLASH \<notin> set f" using t(3) snoc by simp_all
    have "compose_text SLASH (parse_text cf SLASH t) = slash_join SLASH (a @ join_segs SLASH us) f"
      using parse_canonical [OF w t(2) g(1)] len unfolding t(1) snoc
      by (metis compose_slash_join prod.collapse split_name_append)
    then show ?thesis using slash_join_canonical [OF t(2) g(2-4)] t(1) snoc by simp
  qed
qed

text \<open>What is left of a canonical text.\<close>

definition norm_parts :: "byte list \<Rightarrow> byte list list \<Rightarrow> byte list list" where
  "norm_parts a ss = norm_segs (a = []) ss"

lemma norm_segs_good: "good_segs ss \<Longrightarrow> good_segs (norm_segs rel ss)"
  using norm_fold_set [of rel "[]" ss] by (auto simp: good_segs_def norm_segs_def)

lemma norm_fold_id:
  "norm_form rel b (ss @ us) \<Longrightarrow> foldl (norm_step rel) ss us = ss @ us"
proof (induction us arbitrary: ss)
  case (Cons u us)
  have f: "b \<le> length (ss @ u # us)" "b > 0 \<longrightarrow> rel" "\<forall>s \<in> set (take b (ss @ u # us)). s = [DOT, DOT]"
    "\<forall>s \<in> set (drop b (ss @ u # us)). s \<noteq> [DOT] \<and> s \<noteq> [DOT, DOT]" using Cons.prems by (auto simp: norm_form_def)
  have "norm_step rel ss u = ss @ [u]"
  proof (cases "length ss < b")
    case True
    then have t: "take b (ss @ u # us) = ss @ u # take (b - length ss - 1) us" by (simp add: take_Cons')
    then have "u = [DOT, DOT]" "\<forall>s \<in> set ss. s = [DOT, DOT]" rel using f(2,3) True by auto
    moreover from this have n: "\<not> (ss \<noteq> [] \<and> last ss \<noteq> [DOT, DOT])" by (metis last_in_set)
    ultimately show ?thesis unfolding norm_step_def if_not_P [OF n] by simp
  next
    case False
    then have "u \<noteq> [DOT]" "u \<noteq> [DOT, DOT]" using f(4) by auto
    then show ?thesis by (simp add: norm_step_def)
  qed
  then show ?case using Cons.IH [of "ss @ [u]"] Cons.prems by simp
qed simp

lemma norm_segs_id: "norm_form rel b ss \<Longrightarrow> norm_segs rel ss = ss"
  using norm_fold_id [of rel b "[]" ss] by (simp add: norm_segs_def)

lemma norm_text_posix:
  assumes w: "\<not> win32 cf" and a: "posix_anchor a" and g: "good_segs ss"
  shows "norm_text cf SLASH (a @ join_segs SLASH ss) =
    (let us = norm_segs (a = []) ss in if a = [] \<and> us = [] \<and> ss \<noteq> [] then [DOT] else a @ join_segs SLASH us)"
proof -
  let ?t = "a @ join_segs SLASH ss" let ?us = "norm_segs (a = []) ss"
  have r: "join_segs SLASH ss = [] \<or> hd (join_segs SLASH ss) \<noteq> SLASH"
    using join_hd [OF g] by (cases "ss = []") auto
  have d: "path_detect_anchor cf ?t SLASH = (if a = [] then PATH_ANCHOR_NONE else PATH_ANCHOR_ROOT, length a)"
    by (rule posix_detect [OF w a _ r]) simp
  have gu: "good_segs ?us" by (rule norm_segs_good [OF g])
  have z: "join_segs SLASH ?us = [] \<longleftrightarrow> ?us = []" "join_segs SLASH ss = [] \<longleftrightarrow> ss = []"
    using join_hd [OF gu] join_hd [OF g] by (metis join_segs.simps(1) list.distinct(1))+
  show ?thesis
  proof (cases "a = []")
    case True
    then show ?thesis using z out_text_join [OF a gu] d
      by (simp add: norm_text_def Let_def posix_match [OF w] segs_good [OF g])
  next
    case False
    then show ?thesis using z out_text_join [OF a gu] a
      by (simp add: norm_text_def d Let_def posix_match [OF w] segs_good [OF g])
  qed
qed

lemma norm_text_canonical:
  assumes w: "\<not> win32 cf" and c: "canonical t"
  shows "canonical (norm_text cf SLASH t)" "norm_text cf SLASH (norm_text cf SLASH t) = norm_text cf SLASH t"
proof -
  obtain a ss where t: "t = a @ join_segs SLASH ss" "posix_anchor a" "good_segs ss" using c by (auto simp: canonical_def)
  let ?us = "norm_segs (a = []) ss"
  have gu: "good_segs ?us" by (rule norm_segs_good [OF t(3)])
  have cd: "canonical [DOT]" using canonicalI [of "[]" "[[DOT]]"] by (simp add: posix_anchor_def)
  show "canonical (norm_text cf SLASH t)"
    using cd canonicalI [OF t(2) gu] by (simp add: t(1) norm_text_posix [OF w t(2,3)] Let_def)
  have nd: "norm_text cf SLASH [DOT] = [DOT]"
    using norm_text_posix [OF w, of "[]" "[[DOT]]"] by (simp add: posix_anchor_def norm_segs_def norm_step_def)
  have "norm_segs (a = []) ?us = ?us" using norm_segs_form [of "a = []" ss] norm_segs_id by blast
  then have "norm_text cf SLASH (a @ join_segs SLASH ?us) = a @ join_segs SLASH ?us"
    using norm_text_posix [OF w t(2) gu] by (simp add: Let_def)
  then show "norm_text cf SLASH (norm_text cf SLASH t) = norm_text cf SLASH t"
    using nd unfolding t(1) norm_text_posix [OF w t(2,3)] Let_def by simp
qed

end
