(* ===== verification/Path_Parents.thy ===== *)
theory Path_Parents
  imports Path_Norm
begin

text \<open>
  The parent of a path and the loop of \<^verbatim>\<open>ucb_path_parents\<close>: what they compute, and that on a POSIX build
  the loop ends.
\<close>

section \<open>The parent\<close>

definition parent_dir :: "path_conf \<Rightarrow> byte \<Rightarrow> byte list \<Rightarrow> byte list" where
  "parent_dir cf sep d =
     (let (ak, n) = path_detect_anchor cf d sep; cut = last_match (path_sep_match cf sep) d n (length d) in
      if cut = UCB_NPOS \<or> cut \<le> n then (if ak \<noteq> PATH_ANCHOR_NONE then anchor_text cf sep ak (take n d) else [])
      else take cut d)"

definition parent_text :: "path_conf \<Rightarrow> byte \<Rightarrow> path_text \<Rightarrow> path_text" where
  "parent_text cf sep p = (case p of (d, s, e) \<Rightarrow> (if s @ e \<noteq> [] then d else parent_dir cf sep d, [], []))"

lemma path_parent_dir_spec:
  assumes f: "\<not> fatal_returns me" and p: "path_ok p"
  shows "succeeds (path_parent_dir me cf p)
    (\<lambda>(ok, s). ok \<and> str_ok s \<and> str_text s = parent_dir cf (path_sep_of cf (p_style p)) (str_text (p_dir p)))"
proof -
  let ?sep = "path_sep_of cf (p_style p)" and ?d = "str_text (p_dir p)"
  obtain ak n where an: "path_detect_anchor cf ?d ?sep = (ak, n)" by fastforce
  let ?cut = "last_match (path_sep_match cf ?sep) ?d n (length ?d)"
  have d: "str_ok (p_dir p)" "raw_ok (p_dir p)" "valid_text ?d" using path_okD(1) [OF p] str_valid by auto
  have v: "valid_text (take n ?d)" by (rule anchor_valid(1) [OF an _ d(3)]) simp
  have e: "path_parent_dir me cf p =
      (if ?cut = UCB_NPOS \<or> ?cut \<le> n then
        (if ak \<noteq> PATH_ANCHOR_NONE then
           rbind (path_build_anchor me cf ?d ak n ?sep str_empty) (\<lambda>(ok, tmp).
           rbind (if ok then ucb_str_copy me (p_dir p) (OtherArg tmp) else Ret (False, p_dir p)) (\<lambda>(ok, dir).
           rbind (ucb_str_release tmp) (\<lambda>_. Ret (ok, dir))))
         else rbind (ucb_str_clear (p_dir p)) (\<lambda>dir. Ret (True, dir)))
      else rbind (str_truncate (p_dir p) ?cut) (\<lambda>dir. Ret (True, dir)))"
    by (simp add: path_parent_dir_def Let_def path_okD(6,9) [OF p] an)
  consider (anchor) "?cut = UCB_NPOS \<or> ?cut \<le> n" "ak \<noteq> PATH_ANCHOR_NONE"
    | (none) "?cut = UCB_NPOS \<or> ?cut \<le> n" "ak = PATH_ANCHOR_NONE" | (cut) "\<not> (?cut = UCB_NPOS \<or> ?cut \<le> n)" by blast
  then show ?thesis
  proof cases
    case anchor
    then have pd: "parent_dir cf ?sep ?d = anchor_text cf ?sep ak (take n ?d)" by (simp add: parent_dir_def an Let_def)
    show ?thesis unfolding e if_P [OF anchor(1)] if_P [OF anchor(2)] pd
    proof (rule succeeds_step [OF path_build_anchor_spec [OF f raw_empty v path_sep_of_ascii]], elim conjE,
        simp only: prod.case if_True)
      fix t assume t: "str_ok t" "str_text t = anchor_text cf ?sep ak (take n ?d)"
      show "succeeds (rbind (ucb_str_copy me (p_dir p) (OtherArg t)) (\<lambda>(ok, dir).
          rbind (ucb_str_release t) (\<lambda>_. Ret (ok, dir))))
        (\<lambda>(ok, s). ok \<and> str_ok s \<and> str_text s = anchor_text cf ?sep ak (take n ?d))"
        by (rule succeeds_step [OF str_copy_succeeds [OF f d(2) t(1)]])
          (use t raw_released [OF str_raw [OF t(1)]] in auto)
    qed
  next
    case none
    then have "parent_dir cf ?sep ?d = []" by (simp add: parent_dir_def an)
    then show ?thesis unfolding e if_P [OF none(1)] using none(2) by (simp add: raw_clear [OF d(2)])
  next
    case cut
    have l: "length ?d \<le> PTRDIFF_MAX" using raw_bound [OF d(2)] by simp
    from last_match_cases [OF l, of "path_sep_match cf ?sep" ?d n]
    have c: "?cut < length ?d" "path_sep_match cf ?sep (?d ! ?cut)" using cut by auto
    have vc: "valid_text (take ?cut ?d)"
      by (rule valid_at_cut(1) [OF d(3)]) (use c path_sep_match_ascii [OF path_sep_of_ascii c(2)] in auto)
    have "parent_dir cf ?sep ?d = take ?cut ?d" using cut by (simp add: parent_dir_def an Let_def)
    then show ?thesis unfolding e if_not_P [OF cut] using str_truncate_spec [OF d(2) c(1)] vc
      by (auto simp: str_ok_raw)
  qed
qed

lemma path_parent_spec:
  assumes f: "\<not> fatal_returns me" and p: "path_ok p"
  shows "succeeds (ucb_path_parent me cf p) (\<lambda>r. \<exists>q. r = Some q
    \<and> path_is (parent_text cf (path_sep_of cf (p_style p)) (path_text p)) (p_style p) q)"
  unfolding ucb_path_parent_def
proof (rule succeeds_some [OF path_clone_spec [OF f p]], simp only: option.case)
  fix c assume c: "path_is (path_text p) (p_style p) c"
  have ok: "path_ok c" and st: "p_style c = p_style p" and tx: "path_text c = path_text p"
    using c by (simp_all add: path_is_def)
  have eq: "str_text (p_dir c) = str_text (p_dir p)" "str_text (p_stem c) = str_text (p_stem p)"
    "str_text (p_ext c) = str_text (p_ext p)" using tx by (simp_all add: path_text_def)
  show "succeeds (if path_has_name c then
           rbind (ucb_str_clear (p_stem c)) (\<lambda>stem. rbind (ucb_str_clear (p_ext c)) (\<lambda>ext.
           Ret (Some (c\<lparr>p_stem := stem, p_ext := ext, p_dirty := True\<rparr>))))
         else rbind (path_parent_dir me cf c) (\<lambda>(ok, dir). let result = c\<lparr>p_dir := dir\<rparr> in
           if ok then Ret (Some (result\<lparr>p_dirty := True\<rparr>)) else rbind (ucb_path_free result) (\<lambda>_. Ret None)))
      (\<lambda>r. \<exists>q. r = Some q \<and> path_is (parent_text cf (path_sep_of cf (p_style p)) (path_text p)) (p_style p) q)"
  proof (cases "path_has_name c")
    case True
    then have "str_text (p_stem p) @ str_text (p_ext p) \<noteq> []" using path_has_name_iff [OF ok] eq by simp
    then show ?thesis using True ok st path_okD(2,3) [OF ok]
      by (simp add: raw_clear path_is_def path_ok_def path_text_def parent_text_def eq)
  next
    case False
    then have nn: "str_text (p_stem p) @ str_text (p_ext p) = []" using path_has_name_iff [OF ok] eq by simp
    show ?thesis unfolding if_not_P [OF False]
      by (rule succeeds_step [OF path_parent_dir_spec [OF f ok]])
        (use ok st nn in \<open>simp add: path_is_def path_ok_def path_text_def parent_text_def eq\<close>)
  qed
qed

section \<open>All parents\<close>

text \<open>The composed parents, from the nearest one on.\<close>

fun parents_text :: "path_conf \<Rightarrow> byte \<Rightarrow> nat \<Rightarrow> path_text \<Rightarrow> byte list list" where
  "parents_text cf sep 0 t = []"
| "parents_text cf sep (Suc n) t =
     (let q = parent_text cf sep t in
      if t = ([], [], []) \<or> q = ([], [], []) \<or> compose_text sep t = compose_text sep q then []
      else compose_text sep q # parents_text cf sep n q)"

definition ended :: "path_conf \<Rightarrow> byte \<Rightarrow> path_text \<Rightarrow> bool" where
  "ended cf sep t \<longleftrightarrow> (let q = parent_text cf sep t in
     t = ([], [], []) \<or> q = ([], [], []) \<or> compose_text sep t = compose_text sep q)"

lemma parents_step_spec:
  assumes f: "\<not> fatal_returns me" and p: "path_is t style p" and v: "strs_hold v ts"
    and fit: "length (compose_text sep t) \<le> PTRDIFF_MAX" "length (compose_text sep (parent_text cf sep t)) \<le> PTRDIFF_MAX"
    and sep: "sep = path_sep_of cf style"
  shows "succeeds (parents_step me cf p v) (\<lambda>r.
    if ended cf sep t then r = Inl (Some v)
    else \<exists>q v'. r = Inr (q, v') \<and> path_is (parent_text cf sep t) style q
      \<and> strs_hold v' (ts @ [compose_text sep (parent_text cf sep t)]))"
proof -
  have ok: "path_ok p" "path_text p = t" "p_style p = style" using p by (simp_all add: path_is_def)
  have fp: "path_fits cf p" and cp: "path_composed cf p = compose_text sep t"
    using fit(1) ok sep by (simp_all add: path_fits_def path_composed_def)
  note fr = path_free_ok [OF ok(1)]
  show ?thesis
  proof (cases "t = ([], [], [])")
    case True
    then show ?thesis using fr path_is_empty_spec [OF ok(1)] ok(2) by (simp add: parents_step_def ended_def)
  next
    case ne: False
    then have nemp: "\<not> ucb_path_is_empty p" using path_is_empty_spec [OF ok(1)] ok(2) by simp
    show ?thesis unfolding parents_step_def if_not_P [OF nemp]
    proof (rule succeeds_some [OF path_parent_spec [OF f ok(1)]], unfold option.case ok(2,3) sep [symmetric])
      fix q assume q: "path_is (parent_text cf sep t) style q"
      have oq: "path_ok q" "path_text q = parent_text cf sep t" "p_style q = style" using q by (simp_all add: path_is_def)
      have fq: "path_fits cf q" and cq: "path_composed cf q = compose_text sep (parent_text cf sep t)"
        using fit(2) oq sep by (simp_all add: path_fits_def path_composed_def)
      note frq = path_free_ok [OF oq(1)]
      have stop: "succeeds (if ucb_path_is_empty q then Ret True else ucb_path_equals me cf p q) (\<lambda>b. b = ended cf sep t)"
        using path_equals_spec [OF f ok(1) fp oq(1) fq] path_is_empty_spec [OF oq(1)] ne
        by (simp add: ended_def Let_def oq(2) cp cq)
      show "succeeds (rbind (if ucb_path_is_empty q then Ret True else ucb_path_equals me cf p q) (\<lambda>stop.
            if stop then rbind (ucb_path_free q) (\<lambda>_. rbind (ucb_path_free p) (\<lambda>_. Ret (Inl (Some v))))
            else rbind (ucb_path_to_str me cf q) (\<lambda>str. case str of
                None \<Rightarrow> rbind (ucb_path_free q) (\<lambda>_. rbind (ucb_vector_str_free_full (Some v)) (\<lambda>_.
                  rbind (ucb_path_free p) (\<lambda>_. Ret (Inl None))))
              | Some str \<Rightarrow> rbind (ucb_vector_str_push_back me v str) (\<lambda>vec.
                  rbind (ucb_path_free p) (\<lambda>_. Ret (Inr (q, vec)))))))
          (\<lambda>r. if ended cf sep t then r = Inl (Some v)
            else \<exists>q v'. r = Inr (q, v') \<and> path_is (parent_text cf sep t) style q
              \<and> strs_hold v' (ts @ [compose_text sep (parent_text cf sep t)]))"
      proof (rule succeeds_bind [OF stop])
        fix b assume b: "b = ended cf sep t"
        show "succeeds (if b then rbind (ucb_path_free q) (\<lambda>_. rbind (ucb_path_free p) (\<lambda>_. Ret (Inl (Some v))))
            else rbind (ucb_path_to_str me cf q) (\<lambda>str. case str of
                None \<Rightarrow> rbind (ucb_path_free q) (\<lambda>_. rbind (ucb_vector_str_free_full (Some v)) (\<lambda>_.
                  rbind (ucb_path_free p) (\<lambda>_. Ret (Inl None))))
              | Some str \<Rightarrow> rbind (ucb_vector_str_push_back me v str) (\<lambda>vec.
                  rbind (ucb_path_free p) (\<lambda>_. Ret (Inr (q, vec))))))
          (\<lambda>r. if ended cf sep t then r = Inl (Some v)
            else \<exists>q v'. r = Inr (q, v') \<and> path_is (parent_text cf sep t) style q
              \<and> strs_hold v' (ts @ [compose_text sep (parent_text cf sep t)]))"
        proof (cases "ended cf sep t")
          case True
          then show ?thesis by (simp add: b fr frq)
        next
          case False
          show ?thesis unfolding b if_not_P [OF False]
          proof (rule succeeds_some [OF path_to_str_spec [OF f oq(1) fq]], unfold option.case, elim conjE)
            fix s assume s: "str_ok s" "str_text s = path_composed cf q"
            show "succeeds (rbind (ucb_vector_str_push_back me v s) (\<lambda>vec. rbind (ucb_path_free p) (\<lambda>_. Ret (Inr (q, vec)))))
              (\<lambda>r. \<exists>q v'. r = Inr (q, v') \<and> path_is (parent_text cf sep t) style q
                \<and> strs_hold v' (ts @ [compose_text sep (parent_text cf sep t)]))"
              by (rule succeeds_bind [OF strs_push [OF f v s(1)]]) (use q s(2) cq in \<open>simp add: fr\<close>)
          qed
        qed
      qed
    qed
  qed
qed

section \<open>The loop ends\<close>

text \<open>
  On POSIX a parent has a shorter directory, or loses its file name, or has its anchor rewritten to
  the separator of its style; the last happens once.
\<close>

definition alien_seps :: "path_conf \<Rightarrow> byte \<Rightarrow> byte list \<Rightarrow> bool" where
  "alien_seps cf sep d \<longleftrightarrow> (\<exists>c \<in> set d. path_sep_match cf sep c \<and> c \<noteq> sep)"

definition parents_measure :: "path_conf \<Rightarrow> byte \<Rightarrow> path_text \<Rightarrow> nat" where
  "parents_measure cf sep t =
     (case t of (d, s, e) \<Rightarrow> 2 * length d + (if alien_seps cf sep d then 1 else 0) + (if s @ e \<noteq> [] then 1 else 0))"

lemma posix_anchor_kind:
  assumes "\<not> win32 cf" "path_detect_anchor cf d sep = (ak, n)"
  shows "ak = PATH_ANCHOR_NONE \<or> ak = PATH_ANCHOR_ROOT" "\<forall>c \<in> set (take n d). path_sep_match cf sep c" "n \<le> length d"
proof -
  have tk: "take 1 d = [d ! 0]" if "d \<noteq> []" using that by (cases d) auto
  have "(ak = PATH_ANCHOR_NONE \<or> ak = PATH_ANCHOR_ROOT) \<and> (\<forall>c \<in> set (take n d). path_sep_match cf sep c)"
    using assms(2) by (cases rule: anchor_cases) (use assms(1) tk in \<open>auto simp: take2\<close>)
  then show "ak = PATH_ANCHOR_NONE \<or> ak = PATH_ANCHOR_ROOT" "\<forall>c \<in> set (take n d). path_sep_match cf sep c" by auto
qed (rule anchor_le [OF assms(2)])

lemma alien_take: "\<not> alien_seps cf sep d \<Longrightarrow> \<not> alien_seps cf sep (take k d)"
  by (auto simp: alien_seps_def dest: in_set_takeD)

lemma posix_anchor_text:
  assumes "\<not> win32 cf" "path_detect_anchor cf d sep = (ak, n)"
  shows "anchor_text cf sep ak (take n d) = replicate n sep" "\<not> alien_seps cf sep d \<Longrightarrow> replicate n sep = take n d"
proof -
  note k = posix_anchor_kind [OF assms]
  have "map (\<lambda>c. if path_sep_match cf sep c then sep else c) (take n d) = map (\<lambda>_. sep) (take n d)"
    using k(2) by (intro map_cong) auto
  then show "anchor_text cf sep ak (take n d) = replicate n sep"
    using k(1,3) by (auto simp: anchor_text_def map_replicate_const)
  show "replicate n sep = take n d" if "\<not> alien_seps cf sep d"
  proof -
    have "\<forall>c \<in> set (take n d). c = sep" using k(2) that by (auto simp: alien_seps_def dest: in_set_takeD)
    then show ?thesis using k(3) by (intro replicate_eqI [symmetric]) auto
  qed
qed

lemma parent_dir_cases:
  assumes w: "\<not> win32 cf" and l: "length d \<le> PTRDIFF_MAX"
  shows "parent_dir cf sep d = [] \<or> parent_dir cf sep d = d
    \<or> length (parent_dir cf sep d) < length d \<and> (alien_seps cf sep (parent_dir cf sep d) \<longrightarrow> alien_seps cf sep d)
    \<or> length (parent_dir cf sep d) = length d \<and> alien_seps cf sep d \<and> \<not> alien_seps cf sep (parent_dir cf sep d)"
proof -
  obtain ak n where an: "path_detect_anchor cf d sep = (ak, n)" by fastforce
  let ?cut = "last_match (path_sep_match cf sep) d n (length d)"
  note k = posix_anchor_kind [OF w an] and t = posix_anchor_text [OF w an]
  consider (anchor) "?cut = UCB_NPOS \<or> ?cut \<le> n" "ak \<noteq> PATH_ANCHOR_NONE"
    | (none) "?cut = UCB_NPOS \<or> ?cut \<le> n" "ak = PATH_ANCHOR_NONE" | (cut) "\<not> (?cut = UCB_NPOS \<or> ?cut \<le> n)" by blast
  then show ?thesis
  proof cases
    case anchor
    have na: "\<not> alien_seps cf sep (replicate n sep)" by (auto simp: alien_seps_def)
    have pd: "parent_dir cf sep d = replicate n sep" using anchor t(1) by (simp add: parent_dir_def an Let_def)
    show ?thesis
    proof (cases "n < length d")
      case True
      then show ?thesis using na by (simp add: pd)
    next
      case False
      then have "take n d = d" using k(3) by simp
      then show ?thesis using t(2) na False k(3) unfolding pd by fastforce
    qed
  next
    case none
    then show ?thesis by (simp add: parent_dir_def an)
  next
    case cut
    then have "?cut < length d" using last_match_cases [OF l, of "path_sep_match cf sep" d n] by auto
    moreover have "parent_dir cf sep d = take ?cut d" using cut by (simp add: parent_dir_def an Let_def)
    ultimately show ?thesis using alien_take [of cf sep d ?cut] by auto
  qed
qed

lemma parent_measure:
  assumes w: "\<not> win32 cf" and l: "length (compose_text sep t) \<le> PTRDIFF_MAX" and e: "\<not> ended cf sep t"
  shows "parents_measure cf sep (parent_text cf sep t) < parents_measure cf sep t"
    "length (compose_text sep (parent_text cf sep t)) \<le> length (compose_text sep t)"
proof -
  obtain d s x where t: "t = (d, s, x)" by (cases t)
  have ld: "length d \<le> PTRDIFF_MAX" using l by (simp add: t compose_slash_join slash_join_def split: if_splits)
  show "parents_measure cf sep (parent_text cf sep t) < parents_measure cf sep t"
    "length (compose_text sep (parent_text cf sep t)) \<le> length (compose_text sep t)"
    using parent_dir_cases [OF w ld, of sep] e
    by (auto simp: t parent_text_def parents_measure_def ended_def compose_slash_join slash_join_def Let_def)
qed

lemma parent_text_length:
  assumes w: "\<not> win32 cf" and l: "length (compose_text sep t) \<le> PTRDIFF_MAX"
  shows "length (compose_text sep (parent_text cf sep t)) \<le> length (compose_text sep t)"
proof -
  obtain d s x where t: "t = (d, s, x)" by (cases t)
  have ld: "length d \<le> PTRDIFF_MAX" using l by (simp add: t compose_slash_join slash_join_def split: if_splits)
  show ?thesis using parent_dir_cases [OF w ld, of sep]
    by (auto simp: t parent_text_def compose_slash_join slash_join_def)
qed

definition ends_with :: "'a result option \<Rightarrow> ('a \<Rightarrow> bool) \<Rightarrow> bool" where
  "ends_with x P \<longleftrightarrow> (\<exists>r. x = Some r \<and> succeeds r P)"

lemma parents_text_ended: "ended cf sep t \<Longrightarrow> parents_text cf sep n t = []"
  by (cases n) (auto simp: ended_def Let_def)

lemma parents_loop_spec:
  assumes f: "\<not> fatal_returns me" and w: "\<not> win32 cf" and sep: "sep = path_sep_of cf style"
  shows "parents_measure cf sep t < fuel \<Longrightarrow> path_is t style p \<Longrightarrow> strs_hold v ts
    \<Longrightarrow> length (compose_text sep t) \<le> PTRDIFF_MAX
    \<Longrightarrow> ends_with (parents_loop me cf fuel p v) (\<lambda>r. \<exists>v'. r = Some v' \<and> strs_hold v' (ts @ parents_text cf sep fuel t))"
proof (induction fuel arbitrary: t p v ts)
  case 0
  then show ?case by simp
next
  case (Suc fuel)
  note step = parents_step_spec [OF f Suc.prems(2,3,4) le_trans [OF parent_text_length [OF w Suc.prems(4)] Suc.prems(4)] sep]
  show ?case
  proof (cases "ended cf sep t")
    case True
    then show ?thesis using step Suc.prems(3) parents_text_ended [OF True, of "Suc fuel"]
      by (cases "parents_step me cf p v") (auto simp: ends_with_def simp del: parents_text.simps)
  next
    case False
    note m = parent_measure [OF w Suc.prems(4) False]
    have pt: "parents_text cf sep (Suc fuel) t = compose_text sep (parent_text cf sep t)
        # parents_text cf sep fuel (parent_text cf sep t)"
      using False by (simp add: ended_def Let_def)
    show ?thesis
    proof (cases "parents_step me cf p v")
      case (Ret r)
      then obtain q v' where q: "r = Inr (q, v')" "path_is (parent_text cf sep t) style q"
        "strs_hold v' (ts @ [compose_text sep (parent_text cf sep t)])" using step False by auto
      show ?thesis using Suc.IH [OF _ q(2,3)] m Suc.prems(1,4) Ret q(1) unfolding pt by simp
    next
      case (Abort c)
      then show ?thesis using step by (simp add: ends_with_def)
    next
      case Undef
      then show ?thesis using step by simp
    qed
  qed
qed

lemma path_parents_spec:
  assumes f: "\<not> fatal_returns me" and w: "\<not> win32 cf" and p: "path_ok p" "path_fits cf p"
    and fuel: "2 * length (path_composed cf p) + 2 < fuel"
  shows "ends_with (ucb_path_parents me cf fuel p) (\<lambda>r. \<exists>v. r = Some v \<and>
    strs_hold v (parents_text cf (path_sep_of cf (p_style p)) fuel (path_text p)))"
proof -
  let ?sep = "path_sep_of cf (p_style p)" and ?t = "path_text p"
  let ?init = "rbind (ucb_vector_str_new me) (\<lambda>vec. case vec of None \<Rightarrow> Ret (Inl ())
      | Some vec \<Rightarrow> rbind (ucb_path_clone me p) (\<lambda>cur. case cur of
          None \<Rightarrow> rbind (ucb_vector_str_free (Some vec)) (\<lambda>_. Ret (Inl ())) | Some cur \<Rightarrow> Ret (Inr (cur, vec))))"
  have l: "length (compose_text ?sep ?t) \<le> PTRDIFF_MAX" using p(2) by (simp add: path_fits_def path_composed_def)
  have m: "parents_measure cf ?sep ?t < fuel"
    using fuel by (auto simp: path_composed_def path_text_def parents_measure_def compose_slash_join slash_join_def split: if_splits)
  have i: "succeeds ?init (\<lambda>r. \<exists>c v. r = Inr (c, v) \<and> path_is ?t (p_style p) c \<and> strs_hold v [])"
    unfolding ucb_vector_str_new_def
    by (rule succeeds_some [OF vec_new_succeeds [OF f]], unfold option.case,
        rule succeeds_some [OF path_clone_spec [OF f p(1)]]) (simp add: strs_hold_def)
  show ?thesis
  proof (cases ?init)
    case (Ret r)
    then obtain c v where c: "r = Inr (c, v)" "path_is ?t (p_style p) c" "strs_hold v []" using i by auto
    show ?thesis unfolding ucb_path_parents_def Ret c(1)
      using parents_loop_spec [OF f w refl m c(2,3) l] by simp
  next
    case (Abort e)
    then show ?thesis using i unfolding ucb_path_parents_def by (simp add: ends_with_def)
  next
    case Undef
    then show ?thesis using i by simp
  qed
qed

end
