(* ===== verification/Path_Parse.thy ===== *)
theory Path_Parse
  imports Path_Parents
begin

text \<open>
  What parsing a path means, stated without the functions of the model: the separators and styles of
  \<^verbatim>\<open>include/ucb/path.h\<close>, the directory of a text, and the proof that the directory the model computes
  is this one.
\<close>

section \<open>The reference\<close>

text \<open>Parsing accepts a slash everywhere and a backslash on Windows; the style only chooses the separator that is written.\<close>

definition sep_byte :: "bool \<Rightarrow> byte \<Rightarrow> bool" where
  "sep_byte win c \<longleftrightarrow> c = SLASH \<or> win \<and> c = BACKSLASH"

definition doc_style :: "ucb_path_style \<Rightarrow> ucb_path_style \<Rightarrow> ucb_path_style" where
  "doc_style configured style =
     (if style \<noteq> UCB_PATH_STYLE_DEFAULT then style
      else if configured \<noteq> UCB_PATH_STYLE_DEFAULT then configured else UCB_PATH_STYLE_NATIVE)"

definition doc_sep :: "bool \<Rightarrow> ucb_path_style \<Rightarrow> byte" where
  "doc_sep win style =
     (if style = UCB_PATH_STYLE_POSIX \<or> style \<noteq> UCB_PATH_STYLE_WINDOWS \<and> \<not> win then SLASH else BACKSLASH)"

text \<open>The number of separators in front of a text, and the two forms that only Windows has.\<close>

definition lead :: "bool \<Rightarrow> byte list \<Rightarrow> nat" where
  "lead win r = length (takeWhile (sep_byte win) r)"

definition letter :: "byte \<Rightarrow> bool" where
  "letter c \<longleftrightarrow> unat c \<in> {65..90} \<or> unat c \<in> {97..122}"

definition drive_root :: "bool \<Rightarrow> byte list \<Rightarrow> bool" where
  "drive_root win r \<longleftrightarrow> win \<and> (\<exists>l c r'. r = l # COLON # c # r' \<and> letter l \<and> sep_byte win c)"

definition unc_root :: "bool \<Rightarrow> byte list \<Rightarrow> bool" where
  "unc_root win r \<longleftrightarrow> win \<and> (\<exists>a b server c share r'. r = a # b # server @ c # share @ r'
     \<and> sep_byte win a \<and> sep_byte win b \<and> sep_byte win c \<and> server \<noteq> [] \<and> share \<noteq> []
     \<and> (\<forall>x \<in> set (server @ share). \<not> sep_byte win x) \<and> (r' = [] \<or> sep_byte win (hd r')))"

text \<open>
  The root of a directory text: none, \<^verbatim>\<open>/\<close>, \<^verbatim>\<open>//\<close> (two separators are a root of their own on POSIX, and start
  the server and share of Windows) or \<^verbatim>\<open>C:\\<close>; then the segments, one separator between two.  Three or
  more separators are the same as one.
\<close>

definition parsed_root :: "bool \<Rightarrow> byte \<Rightarrow> byte list \<Rightarrow> byte list" where
  "parsed_root win sep r =
     (if drive_root win r then [r ! 0, COLON, sep]
      else if lead win r = 0 then []
      else if lead win r = 2 \<and> (win \<longrightarrow> unc_root win r) then [sep, sep]
      else [sep])"

definition parsed_dir :: "bool \<Rightarrow> byte \<Rightarrow> byte list \<Rightarrow> byte list" where
  "parsed_dir win sep r =
     parsed_root win sep r @ join_segs sep (segs (sep_byte win) (if drive_root win r then drop 3 r else r))"

text \<open>
  The texts for which code and documentation agree: all but those with surplus separators in front of
  a name, \<^verbatim>\<open>///a/b\<close>, of which the code keeps two.
\<close>

definition plain_lead :: "bool \<Rightarrow> byte list \<Rightarrow> bool" where
  "plain_lead win r \<longleftrightarrow> segs (sep_byte win) r = [] \<or> lead win r \<le> 1 \<or> lead win r = 2 \<and> (win \<longrightarrow> unc_root win r)"

section \<open>The model's directory\<close>

lemma path_is_sep_eq: "path_is_sep cf = sep_byte (win32 cf)"
  by (auto simp: path_is_sep_def sep_byte_def fun_eq_iff)

lemma path_sep_match_eq: "path_sep_match cf 0 = sep_byte (win32 cf)"
  by (auto simp: path_sep_match_def path_is_sep_eq fun_eq_iff)

lemma path_resolve_style_eq: "path_resolve_style cf style = doc_style (default_path_style cf) style"
  by (simp add: path_resolve_style_def doc_style_def)

lemma path_sep_of_eq: "path_sep_of cf style = doc_sep (win32 cf) (doc_style (default_path_style cf) style)"
  by (cases "doc_style (default_path_style cf) style") (simp_all add: path_sep_of_def path_resolve_style_eq doc_sep_def)

lemma letter_eq: "c_isalpha c = letter c"
  by (simp add: c_isalpha_def letter_def word_le_nat_alt)

lemma letter_no_sep: "letter c \<Longrightarrow> \<not> sep_byte win c"
  by (auto simp: letter_def sep_byte_def)

lemma colon_no_sep [simp]: "\<not> sep_byte win COLON"
  by (simp add: sep_byte_def)

lemma lead_split:
  obtains r' where "r = takeWhile (sep_byte win) r @ r'" "r' = [] \<or> \<not> sep_byte win (hd r')"
    "segs (sep_byte win) r = segs (sep_byte win) r'" "r' = [] \<longleftrightarrow> segs (sep_byte win) r = []"
proof -
  let ?P = "sep_byte win" and ?r' = "dropWhile (sep_byte win) r"
  have a: "r = takeWhile ?P r @ ?r'" by simp
  have b: "?r' = [] \<or> \<not> ?P (hd ?r')" using hd_dropWhile [of ?P r] by blast
  have "\<forall>x \<in> set (takeWhile ?P r). ?P x" by (auto dest: set_takeWhileD)
  from segs_skip [OF this, of ?r'] have c: "segs ?P r = segs ?P ?r'" by (simp only: takeWhile_dropWhile_id)
  have "segs ?P ys = [] \<longleftrightarrow> ys = []" if "ys = [] \<or> \<not> ?P (hd ys)" for ys
    using that by (cases ys) (simp_all add: segs_Cons)
  from this [OF b] show ?thesis using that [of ?r'] a b c by metis
qed

lemma takeWhile_lead: "lead win r = n \<Longrightarrow> i < n \<Longrightarrow> sep_byte win (r ! i)"
  by (metis lead_def nth_mem set_takeWhileD takeWhile_nth)

text \<open>The directory behind an anchor \<open>t\<close>.\<close>

lemma dir_after_anchor:
  assumes "path_detect_anchor cf (t @ r) 0 = (ak, length t)"
  defines "P \<equiv> sep_byte (win32 cf)"
  shows "dir_text cf sep (t @ r) = (let m = map (\<lambda>c. if P c then sep else c) t in
    if segs P r = [] then (if t = [] \<or> ak = PATH_ANCHOR_UNC \<or> last m = sep then m else m @ [sep])
    else m @ (if t \<noteq> [] \<and> r \<noteq> [] \<and> P (hd r) then [sep] else []) @ join_segs sep (segs P r))"
  by (cases "segs P r = []") (auto simp: dir_text_def assms(1) Let_def dir_body_def path_is_sep_eq P_def [symmetric])

lemma dir_root_1:
  assumes "path_detect_anchor cf (c # r) 0 = (PATH_ANCHOR_ROOT, 1)" "sep_byte (win32 cf) c"
    and "segs (sep_byte (win32 cf)) r = [] \<or> r = [] \<or> \<not> sep_byte (win32 cf) (hd r)"
  shows "dir_text cf sep (c # r) = sep # join_segs sep (segs (sep_byte (win32 cf)) r)"
  using dir_after_anchor [of cf "[c]" r PATH_ANCHOR_ROOT sep] assms by (auto simp: Let_def)

lemma detect_posix:
  assumes "\<not> win32 cf"
  shows "path_detect_anchor cf r 0 =
    (if lead False r = 0 then (PATH_ANCHOR_NONE, 0) else (PATH_ANCHOR_ROOT, if lead False r = 2 then 2 else 1))"
proof -
  consider "r = []" | a where "r = [a]" | a b where "r = [a, b]" | a b c r' where "r = a # b # c # r'"
    by (metis list.exhaust)
  then show ?thesis
    using assms(1) by cases (simp_all add: path_detect_anchor_def path_sep_match_eq path_is_sep_eq lead_def Let_def)
qed

lemma no_unc: "lead (win32 cf) r < 2 \<Longrightarrow> path_unc_anchor cf r 0 = None"
  by (cases r; cases "tl r") (auto simp: path_unc_anchor_def path_sep_match_eq path_is_sep_eq lead_def Let_def split: if_splits)

lemma all_seps: "segs P r = [] \<Longrightarrow> x \<in> set r \<Longrightarrow> P x"
  by (induction r) (auto simp: segs_Cons split: if_splits)

lemma no_unc_all:
  assumes "segs (sep_byte (win32 cf)) r = []" shows "path_unc_anchor cf r 0 = None"
proof -
  have "\<forall>x \<in> set r. sep_byte (win32 cf) x" using all_seps [OF assms] by blast
  then have "\<forall>x \<in> set (drop i r). sep_byte (win32 cf) x" for i by (meson in_set_dropD)
  then have "takeWhile (\<lambda>c. \<not> sep_byte (win32 cf) c) (drop i r) = []" for i
    by (cases "drop i r") (metis list.set_intros(1) takeWhile.simps(1), metis list.set_intros(1) takeWhile.simps(2))
  then show ?thesis by (simp add: path_unc_anchor_def path_sep_match_eq path_is_sep_eq path_scan_def Let_def)
qed

lemma detect_win:
  assumes "win32 cf"
  shows "unc_root True r \<Longrightarrow> \<exists>t r'. r = t @ r' \<and> path_detect_anchor cf r 0 = (PATH_ANCHOR_UNC, length t)
      \<and> (\<forall>sep. map (\<lambda>c. if sep_byte True c then sep else c) t @ (if segs (sep_byte True) r' = [] then [] else [sep])
             @ join_segs sep (segs (sep_byte True) r') = [sep, sep] @ join_segs sep (segs (sep_byte True) r))
      \<and> (r' = [] \<or> sep_byte True (hd r'))" (is "_ \<Longrightarrow> ?unc")
    and "drive_root True r \<Longrightarrow> path_detect_anchor cf r 0 = (PATH_ANCHOR_DRIVE, 2)"
    and "path_unc_anchor cf r 0 = None \<Longrightarrow> 0 < lead True r \<Longrightarrow> path_detect_anchor cf r 0 = (PATH_ANCHOR_ROOT, 1)"
    and "lead True r = 0 \<Longrightarrow> \<not> drive_root True r \<Longrightarrow> r = [] \<or> sep_byte True (last r) \<Longrightarrow>
      path_detect_anchor cf r 0 = (PATH_ANCHOR_NONE, 0)"
proof -
  let ?P = "sep_byte True" and ?N = "\<lambda>c. \<not> sep_byte True c"
  note eqs = path_detect_anchor_def path_is_sep_eq assms Let_def
  show ?unc if u: "unc_root True r"
  proof -
    obtain a b server c share r' where r: "r = a # b # server @ c # share @ r'" and
      P: "?P a" "?P b" "?P c" "server \<noteq> []" "share \<noteq> []" "\<forall>x \<in> set server. ?N x" "\<forall>x \<in> set share. ?N x"
        "r' = [] \<or> ?P (hd r')"
      using u unfolding unc_root_def set_append ball_Un by (elim conjE exE)
    have t1: "takeWhile ?N (server @ c # share @ r') = server" using P by (simp add: takeWhile_append2)
    have t2: "takeWhile ?N (share @ r') = share" using P by (cases r') (simp_all add: takeWhile_append2)
    have s1: "path_scan ?N r 2 = 2 + length server" by (simp add: path_scan_def r t1)
    have s2: "path_scan ?N r (Suc (Suc (Suc (length server)))) = length (a # b # server @ c # share)"
      by (simp add: path_scan_def r t2)
    have unc: "path_unc_anchor cf r 0 = Some (length (a # b # server @ c # share))"
      using P s2 by (simp add: path_unc_anchor_def path_is_sep_eq assms Let_def s1) (simp add: r)
    have m: "map (\<lambda>c. if ?P c then sep else c) (a # b # server @ c # share) = sep # sep # server @ sep # share" for sep
      using P by (simp add: map_idI)
    have sg: "segs ?P r = server # share # segs ?P r'"
    proof -
      have "segs ?P server = [server]" "segs ?P share = [share]" using P by (auto intro: segs_single)
      moreover have "segs ?P (share @ r') = segs ?P share @ segs ?P r'"
        using P(8) segs_append_sep [of ?P "hd r'" share "tl r'"] by (cases r') simp_all
      ultimately show ?thesis using P(1-3) by (simp add: r segs_append_sep)
    qed
    have "r \<noteq> []" by (simp add: r)
    then have d: "path_detect_anchor cf r 0 = (PATH_ANCHOR_UNC, length (a # b # server @ c # share))"
      unfolding path_detect_anchor_def Let_def unc by (simp add: assms)
    have e: "\<forall>sep. map (\<lambda>c. if ?P c then sep else c) (a # b # server @ c # share)
          @ (if segs ?P r' = [] then [] else [sep]) @ join_segs sep (segs ?P r') = [sep, sep] @ join_segs sep (segs ?P r)"
      unfolding m sg by (simp add: join_segs_Cons)
    have "r = (a # b # server @ c # share) @ r'" by (simp add: r)
    then show ?thesis using d e P(8) by blast
  qed
  show "path_detect_anchor cf r 0 = (PATH_ANCHOR_DRIVE, 2)" if d: "drive_root True r"
  proof -
    obtain l c r' where r: "r = l # COLON # c # r'" "letter l" "?P c" using d by (auto simp: drive_root_def)
    then have "lead True r = 0" using letter_no_sep by (simp add: lead_def)
    then show ?thesis using no_unc [of cf r] r by (simp add: eqs letter_eq)
  qed
  show "path_detect_anchor cf r 0 = (PATH_ANCHOR_ROOT, 1)" if "path_unc_anchor cf r 0 = None" "0 < lead True r"
    using that letter_no_sep [of "r ! 0" True] by (cases r) (auto simp: eqs letter_eq lead_def split: if_splits)
  show "path_detect_anchor cf r 0 = (PATH_ANCHOR_NONE, 0)"
    if "lead True r = 0" "\<not> drive_root True r" "r = [] \<or> ?P (last r)"
  proof -
    consider "r = []" | l where "r = [l]" | l d where "r = [l, d]" | l d c r' where "r = l # d # c # r'"
      by (metis list.exhaust)
    then show ?thesis
      using that no_unc [of cf r] by cases (auto simp: eqs letter_eq lead_def drive_root_def split: if_splits)
  qed
qed

lemma unc_lead: "unc_root win r \<Longrightarrow> lead win r = 2 \<and> \<not> drive_root win r"
  by (auto simp: unc_root_def drive_root_def lead_def neq_Nil_conv)

text \<open>The three shapes: no anchor, one separator in front, and two that stay.\<close>

lemma dir_relative:
  "path_detect_anchor cf r 0 = (PATH_ANCHOR_NONE, 0) \<Longrightarrow> dir_text cf sep r = join_segs sep (segs (sep_byte (win32 cf)) r)"
  using dir_after_anchor [of cf "[]" r PATH_ANCHOR_NONE sep] by (simp add: Let_def)

lemma dir_rooted:
  assumes "path_detect_anchor cf r 0 = (PATH_ANCHOR_ROOT, 1)" "0 < lead (win32 cf) r"
    and "lead (win32 cf) r = 1 \<or> segs (sep_byte (win32 cf)) r = []"
  shows "dir_text cf sep r = sep # join_segs sep (segs (sep_byte (win32 cf)) r)"
proof -
  obtain c r' where r: "r = c # r'" "sep_byte (win32 cf) c"
    using assms(2) by (cases r) (auto simp: lead_def split: if_splits)
  have "segs (sep_byte (win32 cf)) r' = [] \<or> r' = [] \<or> \<not> sep_byte (win32 cf) (hd r')"
    using assms(3) r by (cases r') (auto simp: lead_def)
  then show ?thesis using dir_root_1 [where sep = sep] assms(1) r by simp
qed

lemma dir_two_slashes:
  assumes "\<not> win32 cf" "lead False r = 2"
  shows "dir_text cf sep r = [sep, sep] @ join_segs sep (segs (sep_byte False) r)"
proof -
  obtain a b r' where r: "r = [a, b] @ r'" "sep_byte False a" "sep_byte False b" "r' = [] \<or> \<not> sep_byte False (hd r')"
    using assms(2) by (cases r; cases "tl r"; cases "tl (tl r)") (auto simp: lead_def split: if_splits)
  have "path_detect_anchor cf ([a, b] @ r') 0 = (PATH_ANCHOR_ROOT, length [a, b])"
    using detect_posix [OF assms(1), of r] assms(2) r(1) by simp
  from dir_after_anchor [OF this, of sep] show ?thesis using assms(1) r by (auto simp: Let_def)
qed

text \<open>The directory of a text that ends with a separator, or is empty.\<close>

lemma dir_text_parsed:
  assumes tail: "r = [] \<or> sep_byte (win32 cf) (last r)" and pl: "plain_lead (win32 cf) r" and sep: "sep = SLASH \<or> sep = BACKSLASH"
  shows "dir_text cf sep r = parsed_dir (win32 cf) sep r"
proof (cases "win32 cf")
  case False
  have nd: "\<not> drive_root False r" "\<not> unc_root False r" by (simp_all add: drive_root_def unc_root_def)
  note d = detect_posix [OF False, of r]
  consider "lead False r = 0" | "lead False r = 2" | "lead False r \<noteq> 2" "0 < lead False r" "lead False r = 1 \<or> segs (sep_byte False) r = []"
    using pl False by (fastforce simp: plain_lead_def)
  then show ?thesis
    by cases (use d nd False dir_relative [of cf r sep] dir_two_slashes [of cf r sep] dir_rooted [where sep = sep] in
      \<open>simp_all add: parsed_dir_def parsed_root_def\<close>)
next
  case win: True
  note d = detect_win [OF win, of r]
  consider (drive) "drive_root True r" | (rel) "\<not> drive_root True r" "lead True r = 0" | (unc) "unc_root True r"
    | (root) "\<not> drive_root True r" "\<not> unc_root True r" "0 < lead True r" "lead True r = 1 \<or> segs (sep_byte True) r = []"
    using pl win by (fastforce simp: plain_lead_def)
  then show ?thesis
  proof cases
    case drive
    then obtain l c r' where r: "r = [l, COLON] @ c # r'" "letter l" "sep_byte True c" by (auto simp: drive_root_def)
    have "path_detect_anchor cf ([l, COLON] @ c # r') 0 = (PATH_ANCHOR_DRIVE, length [l, COLON])" using d(2) [OF drive] r(1) by simp
    from dir_after_anchor [OF this, of sep] show ?thesis
      using r drive win sep letter_no_sep [OF r(2)] by (auto simp: Let_def parsed_dir_def parsed_root_def)
  next
    case rel
    then show ?thesis using d(4) tail win dir_relative [of cf r sep] by (simp add: parsed_dir_def parsed_root_def)
  next
    case unc
    from d(1) [OF unc] obtain t r' where r: "r = t @ r'" "path_detect_anchor cf (t @ r') 0 = (PATH_ANCHOR_UNC, length t)"
      "map (\<lambda>c. if sep_byte True c then sep else c) t @ (if segs (sep_byte True) r' = [] then [] else [sep])
         @ join_segs sep (segs (sep_byte True) r') = [sep, sep] @ join_segs sep (segs (sep_byte True) r)"
      "r' = [] \<or> sep_byte True (hd r')" by blast
    have "t \<noteq> []" using anchor_none [OF r(2)] by auto
    then have "dir_text cf sep (t @ r') = [sep, sep] @ join_segs sep (segs (sep_byte True) r)"
      using dir_after_anchor [OF r(2), of sep] r(3,4) win by (cases "segs (sep_byte True) r' = []") (auto simp: Let_def)
    then show ?thesis using r(1) unc unc_lead [OF unc] win by (simp add: parsed_dir_def parsed_root_def)
  next
    case root
    have "path_unc_anchor cf r 0 = None" using root(3,4) no_unc [of cf r] no_unc_all [of cf r] win by auto
    then show ?thesis using root d(3) dir_rooted [where sep = sep] win by (auto simp: parsed_dir_def parsed_root_def)
  qed
qed

text \<open>The directory region of a text is the part up to its last separator.\<close>

lemma raw_dir_region:
  assumes len: "length (r @ f) \<le> PTRDIFF_MAX" and f: "\<forall>c \<in> set f. \<not> sep_byte (win32 cf) c"
    and r: "r = [] \<or> sep_byte (win32 cf) (last r)"
  shows "raw_dir_len cf (r @ f) = length r"
proof -
  let ?n = "raw_dir_len cf (r @ f)"
  note c = raw_dir_len_cases [OF len, where cf = cf, unfolded path_is_sep_eq]
  have "\<not> ?n < length r"
  proof
    assume a: "?n < length r"
    then have "last (drop ?n r) = last r" "drop ?n r \<noteq> []" by simp_all
    then have "last r \<in> set (drop ?n (r @ f))" using a by (metis UnCI drop_append last_in_set set_append)
    then show False using c(3) r a by auto
  qed
  moreover have "\<not> length r < ?n"
  proof
    assume a: "length r < ?n"
    then have "sep_byte (win32 cf) ((r @ f) ! (?n - 1))" using c(2) by auto
    moreover have "(r @ f) ! (?n - 1) \<in> set f" using a c(1) by (auto simp: nth_append)
    ultimately show False using f by blast
  qed
  ultimately show ?thesis by simp
qed

end
