(* ===== verification/Path_Props.thy ===== *)
theory Path_Props
  imports Path_Parse
begin

text \<open>
  The properties of paths, and the divergences of \<^verbatim>\<open>path.c\<close> that the model shows. Memory is as
  elsewhere: with the default handler a call returns the stated result or the process ends for want
  of memory (\<open>succeeds\<close>).
\<close>

section \<open>Paths for the witnesses\<close>

text \<open>A POSIX build with the default configuration; the strings \<open>a/b.c\<close> and \<open>/x/../y\<close>.\<close>

definition posix_conf :: path_conf where
  "posix_conf = \<lparr>win32 = False, default_path_style = UCB_PATH_STYLE_DEFAULT\<rparr>"

definition win_conf :: path_conf where
  "win_conf = \<lparr>win32 = True, default_path_style = UCB_PATH_STYLE_DEFAULT\<rparr>"

definition text_str :: "byte list \<Rightarrow> ucb_str" where
  "text_str t = \<lparr>s_blk = BMem (t @ [0]), s_size = length t, s_alloc = length t + 1\<rparr>"

lemma text_str_ok:
  assumes "list_all (\<lambda>b. 0 < unat b \<and> unat b < 128) t" "length t < PTRDIFF_MAX"
  shows "str_ok (text_str t)" "str_text (text_str t) = t"
  using ascii_valid [OF assms(1)] assms(2) by (simp_all add: text_str_def str_ok_raw raw_ok_def str_text_def)

definition text_path :: "path_text \<Rightarrow> ucb_path" where
  "text_path t = (case t of (d, s, e) \<Rightarrow>
     ucb_path_make\<lparr>p_dir := text_str d, p_stem := text_str s, p_ext := text_str e, p_style := UCB_PATH_STYLE_POSIX\<rparr>)"

definition path_ab :: ucb_path where
  "path_ab = text_path ([0x61], [0x62], [])"

definition path_dots :: ucb_path where
  "path_dots = text_path ([SLASH, 0x78, SLASH, DOT, DOT], [0x79], [])"

lemma conf_simps [simp]: "\<not> win32 posix_conf" "win32 win_conf"
  "path_sep_of posix_conf UCB_PATH_STYLE_POSIX = SLASH" "path_sep_of posix_conf UCB_PATH_STYLE_DEFAULT = SLASH"
  by (simp_all add: posix_conf_def win_conf_def path_sep_of_def path_resolve_style_def)

lemma text_path_is:
  assumes "list_all (\<lambda>b. 0 < unat b \<and> unat b < 128) (d @ s @ e)" "length (d @ s @ e) < PTRDIFF_MAX"
  shows "path_is (d, s, e) UCB_PATH_STYLE_POSIX (text_path (d, s, e))"
  using assms by (simp add: path_is_def path_ok_def path_text_def text_path_def ucb_path_make_def text_str_ok)

lemma path_ab_is: "path_is ([0x61], [0x62], []) UCB_PATH_STYLE_POSIX path_ab"
  unfolding path_ab_def by (rule text_path_is) (simp_all add: PTRDIFF_MAX_def)

lemma path_dots_is: "path_is ([SLASH, 0x78, SLASH, DOT, DOT], [0x79], []) UCB_PATH_STYLE_POSIX path_dots"
  unfolding path_dots_def by (rule text_path_is) (simp_all add: PTRDIFF_MAX_def)

lemma path_is_composed: "path_is t style p \<Longrightarrow> path_composed cf p = compose_text (path_sep_of cf style) t"
  by (simp add: path_is_def path_composed_def)

lemma path_ab_simps: "path_inv cf path_ab" "p_style path_ab = UCB_PATH_STYLE_POSIX"
  "path_composed posix_conf path_ab = [0x61, SLASH, 0x62]" "path_text path_ab = ([0x61], [0x62], [])"
  using path_is_inv [OF path_ab_is] path_is_composed [OF path_ab_is, of posix_conf] path_ab_is
  by (simp_all add: path_is_def compose_text_def)

lemma path_dots_simps: "path_inv cf path_dots" "p_style path_dots = UCB_PATH_STYLE_POSIX"
  "path_composed posix_conf path_dots = [SLASH, 0x78, SLASH, DOT, DOT, SLASH, 0x79]"
  using path_is_inv [OF path_dots_is] path_is_composed [OF path_dots_is, of posix_conf] path_dots_is
  by (simp_all add: path_is_def compose_text_def)

lemma path_dots_canonical: "canonical [SLASH, 0x78, SLASH, DOT, DOT, SLASH, 0x79]"
  using canonicalI [of "[SLASH]" "[[0x78], [DOT, DOT], [0x79]]"] by (simp add: posix_anchor_def)

lemma split_name_plain: "DOT \<notin> set f \<Longrightarrow> split_name f = (f, [])"
  using path_find_dot_cases [of f] nth_mem [of "path_find_dot f" f] by (fastforce simp: split_name_def Let_def)

text \<open>Normalizing makes a text longer by at most the one byte of \<^verbatim>\<open>.\<close> for the empty path.\<close>

definition segs_weight :: "'a list list \<Rightarrow> nat" where
  "segs_weight ss = sum_list (map (\<lambda>s. length s + 1) ss)"

lemma segs_weight_simps [simp]:
  "segs_weight [] = 0" "segs_weight (s # ss) = length s + 1 + segs_weight ss"
  "segs_weight (ss @ us) = segs_weight ss + segs_weight us"
  by (simp_all add: segs_weight_def)

lemma join_length: "length (join_segs sep ss) = segs_weight ss - 1"
  by (induction sep ss rule: join_segs.induct) simp_all

lemma norm_step_weight: "segs_weight (norm_step rel ss seg) \<le> segs_weight ss + length seg + 1"
  by (cases ss rule: rev_cases) (auto simp: norm_step_def)

lemma norm_fold_weight: "segs_weight (foldl (norm_step rel) ss us) \<le> segs_weight ss + segs_weight us"
proof (induction us arbitrary: ss)
  case (Cons u us)
  then show ?case using norm_step_weight [of rel ss u] by (simp add: le_trans [OF Cons])
qed simp

lemma norm_text_length:
  assumes w: "\<not> win32 cf" and c: "canonical t"
  shows "length (norm_text cf SLASH t) \<le> length t + 1"
proof -
  obtain a ss where t: "t = a @ join_segs SLASH ss" "posix_anchor a" "good_segs ss" using c by (auto simp: canonical_def)
  have "segs_weight (norm_segs (a = []) ss) \<le> segs_weight ss"
    using norm_fold_weight [of "a = []" "[]" ss] by (simp add: norm_segs_def)
  then have "segs_weight (norm_segs (a = []) ss) - 1 \<le> Suc (segs_weight ss - 1)" by linarith
  then show ?thesis unfolding t(1) norm_text_posix [OF w t(2,3)] by (simp add: Let_def join_length)
qed

section \<open>Properties\<close>

text \<open>
  C21: On POSIX, making a path from a string and composing it again gives the same text, for every
  canonical text: an anchor (none, \<^verbatim>\<open>/\<close> or \<^verbatim>\<open>//\<close>) followed by nonempty segments separated by
  single slashes.
\<close>

theorem ucb_path_new_to_str_roundtrip:
  assumes "\<not> fatal_returns me" "str_ok s" "\<not> win32 cf" "canonical (str_text s)"
  shows "succeeds (rbind (ucb_path_new_style me cf s UCB_PATH_STYLE_POSIX)
      (\<lambda>r. case r of None \<Rightarrow> Ret None | Some p \<Rightarrow> ucb_path_to_str me cf p))
    (\<lambda>r. \<exists>c. r = Some c \<and> str_ok c \<and> str_text c = str_text s)"
proof (rule succeeds_some [OF path_new_style_spec [OF assms(1,2)]], simp only: option.case)
  fix p assume p: "path_is (parse_text cf (path_sep_of cf UCB_PATH_STYLE_POSIX) (str_text s))
    (path_resolve_style cf UCB_PATH_STYLE_POSIX) p"
  have sep: "path_sep_of cf UCB_PATH_STYLE_POSIX = SLASH" "path_resolve_style cf UCB_PATH_STYLE_POSIX = UCB_PATH_STYLE_POSIX"
    by (simp_all add: path_sep_of_def path_resolve_style_def)
  have l: "length (str_text s) \<le> PTRDIFF_MAX" using raw_bound [of s] assms(2) by simp
  have c: "path_composed cf p = str_text s"
    using path_is_composed [OF p, of cf] compose_parse_id [OF assms(3,4) l] by (simp add: sep)
  have ok: "path_ok p" "path_fits cf p" using p l by (simp_all add: path_is_def path_fits_def c)
  show "succeeds (ucb_path_to_str me cf p) (\<lambda>r. \<exists>c. r = Some c \<and> str_ok c \<and> str_text c = str_text s)"
    using path_to_str_spec [OF assms(1) ok] by (simp add: c)
qed

theorem ucb_path_new_to_str_roundtrip_witness:
  "succeeds (rbind (ucb_path_new_style me_ok posix_conf (text_str [SLASH, 0x78, SLASH, DOT, DOT, SLASH, 0x79]) UCB_PATH_STYLE_POSIX)
      (\<lambda>r. case r of None \<Rightarrow> Ret None | Some p \<Rightarrow> ucb_path_to_str me_ok posix_conf p))
    (\<lambda>r. \<exists>c. r = Some c \<and> str_text c = [SLASH, 0x78, SLASH, DOT, DOT, SLASH, 0x79])"
proof -
  note t = text_str_ok [of "[SLASH, 0x78, SLASH, DOT, DOT, SLASH, 0x79]", simplified, unfolded PTRDIFF_MAX_def, simplified]
  have c: "canonical (str_text (text_str [SLASH, 0x78, SLASH, DOT, DOT, SLASH, 0x79]))"
    unfolding t(2) by (rule path_dots_canonical)
  show ?thesis
    by (rule succeeds_mono [OF ucb_path_new_to_str_roundtrip [OF _ t(1) _ c]]) (auto simp: t(2))
qed

lemma split_name_ext:
  assumes "split_name f = (s, e)"
  shows "s @ e = f" "e \<noteq> [] \<Longrightarrow> hd e = DOT \<and> tl e \<noteq> [] \<and> DOT \<notin> set (butlast (tl e)) \<and> (\<exists>c \<in> set s. c \<noteq> DOT)"
proof -
  let ?k = "path_find_dot f" let ?n = "length (takeWhile (\<lambda>c. c = DOT) f)"
  show "s @ e = f" using split_name_append [of f] assms by simp
  assume "e \<noteq> []"
  then have k: "?k \<noteq> UCB_NPOS" "s = take ?k f" "e = drop ?k f" using assms by (auto simp: split_name_def Let_def split: if_splits)
  then have c: "0 < ?k" "?k < length f - 1" "f ! ?k = DOT" "?n \<le> ?k" "\<forall>j. ?k < j \<and> j < length f - 1 \<longrightarrow> f ! j \<noteq> DOT"
    using path_find_dot_cases [of f] by auto
  have "?n < length f" using c(2,4) by simp
  then have nd: "f ! ?n \<noteq> DOT" using nth_length_takeWhile by fastforce
  then have "?n < ?k" using c(3,4) by (metis le_neq_implies_less)
  then have "f ! ?n \<in> set s" using k(2) c(2) by (auto simp: in_set_conv_nth intro!: exI [of _ ?n])
  moreover have "e = DOT # drop (Suc ?k) f" using k(3) c(2,3) Cons_nth_drop_Suc [of ?k f] by simp
  moreover have "DOT \<notin> set (butlast (drop (Suc ?k) f))"
  proof
    assume "DOT \<in> set (butlast (drop (Suc ?k) f))"
    then obtain i where "i < length f - Suc ?k - 1" "butlast (drop (Suc ?k) f) ! i = DOT" by (auto simp: in_set_conv_nth)
    then have "f ! (Suc ?k + i) = DOT" "Suc ?k + i < length f - 1" by (simp_all add: nth_butlast)
    then show False using c(5) by auto
  qed
  ultimately show "hd e = DOT \<and> tl e \<noteq> [] \<and> DOT \<notin> set (butlast (tl e)) \<and> (\<exists>c \<in> set s. c \<noteq> DOT)"
    using c(2) nd by auto
qed

lemma dot_loop_none: "dot_loop cs start n = UCB_NPOS \<Longrightarrow> n \<le> PTRDIFF_MAX \<Longrightarrow> start \<le> j \<Longrightarrow> 0 < j \<Longrightarrow> j < n \<Longrightarrow> cs ! j \<noteq> DOT"
proof (induction cs start n rule: dot_loop.induct)
  case (2 cs start i)
  then show ?case using NPOS_bound [of i] by (cases "j = i") (auto split: if_splits)
qed simp

lemma split_name_no_ext:
  assumes "split_name f = (s, [])" "length f \<le> PTRDIFF_MAX"
  shows "DOT \<notin> set (butlast (dropWhile (\<lambda>c. c = DOT) f))"
proof
  let ?n = "length (takeWhile (\<lambda>c. c = DOT) f)"
  have "path_find_dot f = UCB_NPOS"
    using assms(1) path_find_dot_cases [of f] by (auto simp: split_name_def Let_def split: if_splits)
  then have n: "2 \<le> length f \<Longrightarrow> dot_loop f ?n (length f - 1) = UCB_NPOS" by (simp add: path_find_dot_def scan0)
  assume "DOT \<in> set (butlast (dropWhile (\<lambda>c. c = DOT) f))"
  then obtain i where i: "i < length f - ?n - 1" "drop ?n f ! i = DOT"
    by (auto simp: in_set_conv_nth dropWhile_eq_drop nth_butlast)
  then have j: "f ! (?n + i) = DOT" "?n + i < length f - 1" by simp_all
  have "f ! ?n \<noteq> DOT" using i(1) nth_length_takeWhile [of "\<lambda>c. c = DOT" f] by simp
  then have "0 < ?n + i" using j(1) by (cases i) auto
  moreover have "2 \<le> length f" "length f - 1 \<le> PTRDIFF_MAX" using \<open>0 < ?n + i\<close> j(2) assms(2) by linarith+
  ultimately show False using dot_loop_none [OF n _ _ _ j(2)] j(1) by simp
qed

text \<open>Stem and extension of a name.\<close>

definition name_split :: "byte list \<Rightarrow> byte list \<Rightarrow> byte list \<Rightarrow> bool" where
  "name_split f s e \<longleftrightarrow> s @ e = f \<and>
     (if e \<noteq> [] then hd e = DOT \<and> tl e \<noteq> [] \<and> DOT \<notin> set (butlast (tl e)) \<and> (\<exists>c \<in> set s. c \<noteq> DOT)
      else DOT \<notin> set (butlast (dropWhile (\<lambda>c. c = DOT) f)))"

lemma split_name_split: "(s, e) = split_name f \<Longrightarrow> length f \<le> PTRDIFF_MAX \<Longrightarrow> name_split f s e"
  using split_name_ext [of f s e] split_name_no_ext [of f s] by (cases "e = []") (simp_all add: name_split_def)

text \<open>
  C20: What \<^verbatim>\<open>ucb_path_init_style\<close> makes of a well-formed string \<open>r @ f\<close> whose last separator ends \<open>r\<close>, on both
  builds: a path whose strings are well formed (also where a separator is replaced or dropped inside
  UTF-8 text), in the given style or the configured one; stem and extension split \<open>f\<close>; the directory
  is the root of \<open>r\<close> and its segments, repeated separators collapsed to one of the style and no
  separator at the end except that of a root.  The root is none, one separator (for one, or three and
  more), two separators (exactly two on POSIX, server and share on Windows) or a drive root.  Nothing is said of the
  directory when surplus separators precede a name (\<^verbatim>\<open>///a/b\<close>), where the code keeps two against its
  documentation (\<open>three_slashes_keep_two\<close>).
\<close>

theorem ucb_path_init_style_parses:
  assumes "\<not> fatal_returns me" "str_ok s"
    and "str_text s = r @ f" "\<forall>c \<in> set f. \<not> sep_byte (win32 cf) c" "r = [] \<or> sep_byte (win32 cf) (last r)"
  shows "succeeds (ucb_path_init_style me cf s style) (\<lambda>(ok, p). ok \<and> path_inv cf p
    \<and> p_style p = doc_style (default_path_style cf) style
    \<and> name_split f (str_text (p_stem p)) (str_text (p_ext p))
    \<and> (plain_lead (win32 cf) r \<longrightarrow> str_text (p_dir p)
         = parsed_dir (win32 cf) (doc_sep (win32 cf) (doc_style (default_path_style cf) style)) r))"
proof -
  have l: "length (r @ f) \<le> PTRDIFF_MAX" using raw_bound [of s] assms(2,3) by simp
  note n = raw_dir_region [OF l assms(4,5)]
  have t: "parse_text cf (path_sep_of cf style) (str_text s) = (dir_text cf (path_sep_of cf style) r, split_name f)"
    by (simp add: assms(3) parse_text_def n)
  show ?thesis
    by (rule succeeds_mono [OF path_make_parse [OF assms(1,2)]])
      (use split_name_split [of _ _ f] l dir_text_parsed [OF assms(5) _ path_sep_of_cases] in
        \<open>auto simp: t [unfolded path_sep_of_eq] path_is_inv path_is_def path_text_def path_resolve_style_eq path_sep_of_eq\<close>)
qed

theorem ucb_path_init_style_parses_witness:
  "succeeds (ucb_path_init_style me_ok posix_conf (text_str [SLASH, SLASH, SLASH, 0x79, DOT, 0x63]) UCB_PATH_STYLE_DEFAULT)
    (\<lambda>(ok, p). ok \<and> str_text (p_dir p) = [SLASH] \<and> str_text (p_stem p) @ str_text (p_ext p) = [0x79, DOT, 0x63]
       \<and> p_style p = UCB_PATH_STYLE_NATIVE)"
proof -
  let ?t = "[SLASH, SLASH, SLASH, 0x79, DOT, 0x63] :: byte list"
  have s: "str_ok (text_str ?t)" "str_text (text_str ?t) = [SLASH, SLASH, SLASH] @ [0x79, DOT, 0x63]"
    using text_str_ok [of ?t] by (simp_all add: PTRDIFF_MAX_def)
  have d: "plain_lead False [SLASH, SLASH, SLASH]" "parsed_dir False SLASH [SLASH, SLASH, SLASH] = [SLASH]"
    by (simp_all add: plain_lead_def parsed_dir_def parsed_root_def drive_root_def lead_def sep_byte_def)
  have c: "win32 posix_conf = False" "doc_style (default_path_style posix_conf) UCB_PATH_STYLE_DEFAULT = UCB_PATH_STYLE_NATIVE"
    "doc_sep False UCB_PATH_STYLE_NATIVE = SLASH" by (simp_all add: posix_conf_def doc_style_def doc_sep_def)
  show ?thesis
    using ucb_path_init_style_parses [OF _ s, of me_ok posix_conf UCB_PATH_STYLE_DEFAULT]
    unfolding c by (simp add: sep_byte_def d) (erule succeeds_mono, auto simp: name_split_def)
qed

text \<open>
  C22: \<^verbatim>\<open>ucb_path_set_filename\<close> splits a name without losing a byte. An extension is a dot and at
  least one further byte, with no other dot before its last byte, and the stem in front of it is not
  made of dots alone (a hidden file has no extension); without an extension no dot is left that could
  have started one. The directory stays as it is.
\<close>

theorem ucb_path_set_filename_splits:
  assumes "\<not> fatal_returns me" "path_inv cf p" "str_ok name"
  shows "succeeds (ucb_path_set_filename me p (PStr name)) (\<lambda>(ok, p'). ok \<and> path_inv cf p'
    \<and> str_text (p_dir p') = str_text (p_dir p)
    \<and> name_split (str_text name) (str_text (p_stem p')) (str_text (p_ext p')))"
proof -
  have ok: "path_ok p" using assms(2) by (simp add: path_inv_def)
  have l: "length (str_text name) \<le> PTRDIFF_MAX" using raw_bound [of name] assms(3) by simp
  show ?thesis
    by (rule succeeds_mono [OF path_set_filename_spec [OF assms(1) ok, of "PStr name"]])
      (use assms(3) split_name_split [OF _ l] in
        \<open>auto simp: path_str_ok_def path_field_def path_is_inv path_is_def path_text_def path_inv_def path_fresh_def\<close>)
qed

theorem ucb_path_set_filename_splits_witness:
  "succeeds (ucb_path_set_filename me_ok path_ab (PStr demo_str)) (\<lambda>(ok, p'). ok \<and>
     str_text (p_stem p') @ str_text (p_ext p') = [0x61, 0x62])"
  by (rule succeeds_mono [OF ucb_path_set_filename_splits [of me_ok posix_conf path_ab demo_str]])
    (auto simp: path_ab_simps demo_str_ok name_split_def)

lemma joined_inv: "joined cf p q r \<Longrightarrow> path_inv cf r"
  by (auto simp: joined_def intro: path_is_inv split: if_splits)

text \<open>
  C23: \<^verbatim>\<open>ucb_path_join\<close>: the composed result is the second path when that is absolute, otherwise the
  first one, one separator of the base's style where the two need one, and the second.
\<close>

theorem ucb_path_join_composes:
  assumes "\<not> fatal_returns me" "path_inv cf p" "path_fits cf p" "path_inv cf q"
  shows "succeeds (ucb_path_join me cf p q) (\<lambda>r. \<exists>r'. r = Some r' \<and> path_inv cf r' \<and>
    path_composed cf r' =
      (if path_absolute cf q then path_composed cf q
       else slash_join (path_sep_of cf (p_style p)) (path_composed cf p)
         (compose_text (path_sep_of cf (p_style p)) (path_text q))))"
proof -
  have ok: "path_ok p" "path_ok q" using assms(2,4) by (simp_all add: path_inv_def)
  show ?thesis
    by (rule succeeds_mono [OF path_join_spec [OF assms(1) ok(1) assms(3) ok(2)]])
      (use joined_composed [of cf p q] joined_inv [of cf p q] in auto)
qed

theorem ucb_path_join_composes_witness:
  "succeeds (ucb_path_join me_ok posix_conf path_ab path_ab) (\<lambda>r. \<exists>r'. r = Some r' \<and>
    path_composed posix_conf r' = [0x61, SLASH, 0x62, SLASH, 0x61, SLASH, 0x62])"
proof -
  have d: "str_text (p_dir path_ab) = [0x61]" using path_ab_simps(4) by (simp add: path_text_def)
  have a: "\<not> path_absolute posix_conf path_ab"
    by (simp add: path_absolute_def absolute_text_def d path_ab_simps posix_match)
  have fit: "path_fits posix_conf path_ab" by (simp add: path_fits_def path_ab_simps PTRDIFF_MAX_def)
  show ?thesis
    by (rule succeeds_mono [OF ucb_path_join_composes [OF _ path_ab_simps(1) fit path_ab_simps(1)]])
      (auto simp: a path_ab_simps slash_join_def compose_text_def)
qed

text \<open>
  C24: On POSIX \<^verbatim>\<open>ucb_path_normalize\<close>, a loop over a stack of output lengths, computes the segments of
  the reference fold: no \<^verbatim>\<open>.\<close> is left, each \<^verbatim>\<open>..\<close> has removed the segment in front of it, those that
  are left are at the start of a relative path, and a relative path with nothing left is \<^verbatim>\<open>.\<close>.
\<close>

theorem ucb_path_normalize_segments:
  assumes "\<not> fatal_returns me" "\<not> win32 cf" "path_inv cf p" "p_style p = UCB_PATH_STYLE_POSIX"
    and "path_composed cf p = a @ join_segs SLASH ss" "posix_anchor a" "good_segs ss"
    and "(length (path_composed cf p) + 1) * 8 \<le> PTRDIFF_MAX"
  shows "succeeds (ucb_path_normalize me cf p) (\<lambda>(ok, p'). ok \<and> path_inv cf p' \<and>
    (\<exists>us b. us = norm_segs (a = []) ss \<and> norm_form (a = []) b us \<and>
      path_composed cf p' = (if a = [] \<and> us = [] \<and> ss \<noteq> [] then [DOT] else a @ join_segs SLASH us)))"
proof -
  have sep: "path_sep_of cf UCB_PATH_STYLE_POSIX = SLASH" "path_resolve_style cf UCB_PATH_STYLE_POSIX = UCB_PATH_STYLE_POSIX"
    by (simp_all add: path_sep_of_def path_resolve_style_def)
  have ok: "path_ok p" using assms(3) by (simp add: path_inv_def)
  let ?c = "path_composed cf p"
  have can: "canonical ?c" unfolding assms(5) by (rule canonicalI [OF assms(6,7)])
  have n: "length (norm_text cf SLASH ?c) \<le> length ?c + 1" by (rule norm_text_length [OF assms(2) can])
  have l: "length (norm_text cf SLASH ?c) \<le> PTRDIFF_MAX" using n assms(8) by simp
  have c': "compose_text SLASH (parse_text cf SLASH (norm_text cf SLASH ?c)) = norm_text cf SLASH ?c"
    by (rule compose_parse_id [OF assms(2) norm_text_canonical(1) [OF assms(2) can] l])
  obtain b where b: "norm_form (a = []) b (norm_segs (a = []) ss)" using norm_segs_form by blast
  have nt: "norm_text cf SLASH ?c = (if a = [] \<and> norm_segs (a = []) ss = [] \<and> ss \<noteq> [] then [DOT]
      else a @ join_segs SLASH (norm_segs (a = []) ss))"
    unfolding assms(5) norm_text_posix [OF assms(2,6,7)] Let_def ..
  have q: "path_inv cf q \<and> path_composed cf q = norm_text cf SLASH ?c"
    if "path_is (parse_text cf SLASH (norm_text cf SLASH ?c)) UCB_PATH_STYLE_POSIX q" for q
    using path_is_composed [OF that, of cf] path_is_inv [OF that, of cf] c' by (simp add: sep)
  show ?thesis
  proof (rule succeeds_mono [OF path_normalize_spec [OF assms(1) ok assms(8)]], unfold assms(4) sep, elim case_prodE conjE)
    fix r okf q'
    assume "r = (okf, q')" "okf" "path_is (parse_text cf SLASH (norm_text cf SLASH ?c)) UCB_PATH_STYLE_POSIX q'"
    then show "case r of (ok, p') \<Rightarrow> ok \<and> path_inv cf p' \<and>
      (\<exists>us b. us = norm_segs (a = []) ss \<and> norm_form (a = []) b us \<and>
        path_composed cf p' = (if a = [] \<and> us = [] \<and> ss \<noteq> [] then [DOT] else a @ join_segs SLASH us))"
      using q [of q'] b unfolding nt by blast
  qed
qed

theorem ucb_path_normalize_segments_witness:
  "succeeds (ucb_path_normalize me_ok posix_conf path_dots) (\<lambda>(ok, p'). ok \<and>
    path_composed posix_conf p' = [SLASH, 0x79])"
proof -
  have c: "path_composed posix_conf path_dots = [SLASH] @ join_segs SLASH [[0x78], [DOT, DOT], [0x79]]"
    by (simp add: path_dots_simps)
  have l: "(length (path_composed posix_conf path_dots) + 1) * 8 \<le> PTRDIFF_MAX"
    by (simp add: path_dots_simps PTRDIFF_MAX_def)
  have n: "norm_segs ([SLASH] = []) [[0x78], [DOT, DOT], [0x79]] = [[0x79]]"
    by (simp add: norm_segs_def norm_step_def)
  show ?thesis
    by (rule succeeds_mono [OF ucb_path_normalize_segments [OF _ _ path_dots_simps(1,2) c _ _ l]])
      (auto simp: n [simplified] posix_anchor_def)
qed

text \<open>
  Normalizing is idempotent: on POSIX a second \<^verbatim>\<open>ucb_path_normalize\<close> leaves the path as the first
  one made it.
\<close>

theorem ucb_path_normalize_idempotent:
  assumes "\<not> fatal_returns me" "\<not> win32 cf" "path_inv cf p" "p_style p = UCB_PATH_STYLE_POSIX"
    and "canonical (path_composed cf p)" "(length (path_composed cf p) + 2) * 8 \<le> PTRDIFF_MAX"
  shows "succeeds (rbind (ucb_path_normalize me cf p) (\<lambda>(ok, p'). rbind (ucb_path_normalize me cf p') (\<lambda>(ok2, p2).
    Ret (ok \<and> ok2, p', p2)))) (\<lambda>(ok, p', p2). ok \<and> path_inv cf p2 \<and> path_text p2 = path_text p')"
proof -
  have sep: "path_sep_of cf UCB_PATH_STYLE_POSIX = SLASH" "path_resolve_style cf UCB_PATH_STYLE_POSIX = UCB_PATH_STYLE_POSIX"
    by (simp_all add: path_sep_of_def path_resolve_style_def)
  have ok: "path_ok p" using assms(3) by (simp add: path_inv_def)
  let ?c = "path_composed cf p" let ?n = "norm_text cf SLASH ?c"
  have l: "(length ?c + 1) * 8 \<le> PTRDIFF_MAX" "(length ?n + 1) * 8 \<le> PTRDIFF_MAX" "length ?n \<le> PTRDIFF_MAX"
    using assms(6) norm_text_length [OF assms(2,5)] by simp_all
  note nc = norm_text_canonical [OF assms(2,5)]
  show ?thesis
  proof (rule succeeds_step [OF path_normalize_spec [OF assms(1) ok l(1)]], unfold prod.case assms(4) sep)
    fix p' assume p': "path_is (parse_text cf SLASH ?n) UCB_PATH_STYLE_POSIX p'"
    then have p2: "path_ok p'" "p_style p' = UCB_PATH_STYLE_POSIX" "path_text p' = parse_text cf SLASH ?n"
      by (simp_all add: path_is_def)
    have c: "path_composed cf p' = ?n"
      using path_is_composed [OF p', of cf] compose_parse_id [OF assms(2) nc(1) l(3)] by (simp add: sep)
    have 2: "succeeds (ucb_path_normalize me cf p')
        (\<lambda>(ok, p2). ok \<and> path_is (parse_text cf SLASH ?n) UCB_PATH_STYLE_POSIX p2)"
      using path_normalize_spec [OF assms(1) p2(1), of cf] l(2) by (simp add: p2(2) sep c nc(2))
    show "succeeds (rbind (ucb_path_normalize me cf p') (\<lambda>(ok2, p2). Ret (True \<and> ok2, p', p2)))
        (\<lambda>(ok, p', p2). ok \<and> path_inv cf p2 \<and> path_text p2 = path_text p')"
      by (rule succeeds_step [OF 2]) (use p2(3) path_is_inv in \<open>auto simp: path_is_def\<close>)
  qed
qed

theorem ucb_path_normalize_idempotent_witness:
  "succeeds (rbind (ucb_path_normalize me_ok posix_conf path_dots) (\<lambda>(ok, p').
      rbind (ucb_path_normalize me_ok posix_conf p') (\<lambda>(ok2, p2). Ret (ok \<and> ok2, p', p2))))
    (\<lambda>(ok, p', p2). ok \<and> path_inv posix_conf p2 \<and> path_text p2 = path_text p')"
  by (rule ucb_path_normalize_idempotent)
    (simp_all add: path_dots_simps path_dots_canonical PTRDIFF_MAX_def)

text \<open>
  \<^verbatim>\<open>ucb_path_parts\<close> lists the anchor, the segments of the directory and the file name, in this
  order, and \<^verbatim>\<open>ucb_path_num_parts\<close> is their number.
\<close>

theorem ucb_path_parts_lists:
  assumes "\<not> fatal_returns me" "path_inv cf p"
  shows "ucb_path_num_parts cf p = Ret (length (parts_text cf (path_sep_of cf (p_style p)) (path_text p)))
    \<and> succeeds (ucb_path_parts me cf p)
        (\<lambda>r. \<exists>v. r = Some v \<and> strs_hold v (parts_text cf (path_sep_of cf (p_style p)) (path_text p)))"
proof -
  have ok: "path_ok p" using assms(2) by (simp add: path_inv_def)
  show ?thesis using path_num_parts_spec [OF ok] path_parts_spec [OF assms(1) ok] by blast
qed

theorem ucb_path_parts_lists_witness:
  "ucb_path_num_parts posix_conf path_ab = Ret 2
    \<and> succeeds (ucb_path_parts me_ok posix_conf path_ab) (\<lambda>r. \<exists>v. r = Some v \<and> strs_hold v [[0x61], [0x62]])"
proof -
  have "parts_text posix_conf SLASH ([0x61], [0x62], []) = [[0x61], [0x62]]"
    using posix_detect [of posix_conf "[]" SLASH "[0x61]"]
    by (simp add: parts_text_def posix_anchor_def posix_match segs_Cons)
  then show ?thesis using ucb_path_parts_lists [of me_ok posix_conf path_ab]
    by (simp add: path_ab_simps)
qed

text \<open>
  C25: On a POSIX build the loop of \<^verbatim>\<open>ucb_path_parents\<close> ends, for every well-formed path and style: after
  at most \<open>2n + 3\<close> rounds, \<open>n\<close> the length of the composed path, it returns the vector of the composed
  parents, nearest first.
\<close>

theorem ucb_path_parents_terminates:
  assumes "\<not> fatal_returns me" "\<not> win32 cf" "path_inv cf p" "path_fits cf p"
    and "2 * length (path_composed cf p) + 2 < fuel"
  shows "\<exists>r. ucb_path_parents me cf fuel p = Some r \<and> succeeds r (\<lambda>v. \<exists>v'. v = Some v' \<and>
    strs_hold v' (parents_text cf (path_sep_of cf (p_style p)) fuel (path_text p)))"
  using path_parents_spec [OF assms(1,2) _ assms(4,5)] assms(3) by (simp add: path_inv_def ends_with_def)

theorem ucb_path_parents_terminates_witness:
  "\<exists>r. ucb_path_parents me_ok posix_conf 9 path_ab = Some r \<and> succeeds r (\<lambda>v. \<exists>v'. v = Some v' \<and>
    strs_hold v' [[0x61]])"
proof -
  have d: "path_detect_anchor posix_conf [0x61] SLASH = (PATH_ANCHOR_NONE, 0)"
    using posix_detect [of posix_conf "[]" SLASH "[0x61]"] by (simp add: posix_anchor_def)
  have p1: "parent_text posix_conf SLASH ([0x61], [0x62], []) = ([0x61], [], [])" by (simp add: parent_text_def)
  have "last_match (path_sep_match posix_conf SLASH) [0x61] 0 (Suc 0) = UCB_NPOS" by (simp add: posix_match)
  then have p2: "parent_text posix_conf SLASH ([0x61], [], []) = ([], [], [])"
    by (simp add: parent_text_def parent_dir_def d)
  have e1: "\<not> ended posix_conf SLASH ([0x61], [0x62], [])" by (simp add: ended_def p1 compose_text_def)
  have e2: "ended posix_conf SLASH ([0x61], [], [])" by (simp add: ended_def p2 Let_def)
  have "parents_text posix_conf SLASH (Suc n) ([0x61], [0x62], []) = [[0x61]]" for n
    using parents_text_ended [OF e2, of n] e1 by (simp add: p1 ended_def compose_text_def)
  from this [of 8] have t: "parents_text posix_conf SLASH 9 ([0x61], [0x62], []) = [[0x61]]" by (simp add: numeral_eq_Suc)
  have fit: "path_fits posix_conf path_ab" by (simp add: path_fits_def path_ab_simps PTRDIFF_MAX_def)
  show ?thesis using ucb_path_parents_terminates [OF _ _ path_ab_simps(1) fit, of me_ok 9]
    by (simp add: path_ab_simps t)
qed

section \<open>What the model shows of the code\<close>

text \<open>
  \<^verbatim>\<open>///a/b\<close> is stored as \<^verbatim>\<open>//a/b\<close>: the repeated separators behind the one-byte anchor leave a second one,
  so that a path below the root turns into one below the distinct root \<^verbatim>\<open>//\<close>. \<^verbatim>\<open>///a\<close> is stored as \<^verbatim>\<open>/a\<close>.
\<close>

lemma three_slashes_keep_two:
  "dir_text posix_conf SLASH [SLASH, SLASH, SLASH, 0x61, SLASH] = [SLASH, SLASH, 0x61]"
  "dir_text posix_conf SLASH [SLASH, SLASH, SLASH] = [SLASH]"
  by (simp_all add: dir_text_def path_detect_anchor_def posix_sep dir_body_def segs_Cons)

text \<open>
  The style \<^verbatim>\<open>UCB_PATH_STYLE_WINDOWS\<close> on a POSIX build: composing writes backslashes, which parsing does
  not accept, so that normalizing \<^verbatim>\<open>a\b\<close> moves the whole path into the stem.
\<close>

lemma windows_style_on_posix_loses_dir:
  "norm_text posix_conf BACKSLASH [0x61, BACKSLASH, 0x62] = [0x61, BACKSLASH, 0x62]"
  "parse_text posix_conf BACKSLASH [0x61, BACKSLASH, 0x62] = ([], [0x61, BACKSLASH, 0x62], [])"
proof -
  have m: "path_sep_match posix_conf BACKSLASH = (\<lambda>c. c = SLASH \<or> c = BACKSLASH)"
    by (auto simp: path_sep_match_def path_is_sep_def fun_eq_iff)
  show "norm_text posix_conf BACKSLASH [0x61, BACKSLASH, 0x62] = [0x61, BACKSLASH, 0x62]"
    by (simp add: norm_text_def path_detect_anchor_def m segs_Cons norm_segs_def norm_step_def out_text_def slash_join_def)
  show "parse_text posix_conf BACKSLASH [0x61, BACKSLASH, 0x62] = ([], [0x61, BACKSLASH, 0x62], [])"
    by (simp add: parse_text_def raw_dir_len_def posix_sep split_name_plain)
qed

text \<open>
  The style of a path is fixed when it is parsed: a path made with \<^verbatim>\<open>UCB_PATH_STYLE_DEFAULT\<close> never has
  that style afterwards, so a later change of the configuration does not reach it.
\<close>

lemma parse_fixes_style: "path_resolve_style cf style \<noteq> UCB_PATH_STYLE_DEFAULT"
  by (simp add: path_resolve_style_def)

text \<open>
  A growing append whose reallocation fails, with a handler that returns: \<^verbatim>\<open>path_build_dir\<close> then
  releases the temporary string, whose block \<^verbatim>\<open>ucb_realloc\<close> has freed already.
\<close>

lemma failed_append_then_release:
  assumes "fatal_returns me" "\<not> granted me n" "0 < s_alloc s" "s_blk s = BMem m" "s_size s \<le> s_alloc s"
    and "n = s_size s + k + 1" "s_alloc s < n" "n \<le> SIZE_MAX" "0 < k"
  shows "rbind (ucb_str_reserve me s k) (\<lambda>(_, s). ucb_str_release s) = Undef"
proof -
  have "usize (k + s_size s + 1) = n" using assms(6,8) by (simp add: usize_id add.commute)
  moreover have "ucb_realloc me True n = Ret FailFreed"
    using assms(1,2,6) by (simp add: ucb_realloc_def ucb_realloc2_def ucb_fatal_oom_def)
  ultimately show ?thesis using assms
    by (simp add: ucb_str_reserve_def mem_of_def Let_def ucb_str_release_def ucb_str_release_common_def)
qed

end
