(* ===== verification/Env.thy ===== *)
theory Env
  imports Vector Ucb_Str "HOL-Library.AList"
begin

text \<open>
  Environment variables, \<^verbatim>\<open>src/ucb/env.c\<close> (POSIX branch). The environment of the process is the
  list of its strings \<^verbatim>\<open>NAME=VALUE\<close>, without their terminators; \<open>c_getenv\<close>, \<open>c_setenv\<close> and
  \<open>c_unsetenv\<close> are the functions of the C library on it.
\<close>

section \<open>The environment of the process\<close>

type_synonym environ = "byte list list"

definition EQ_SIGN :: byte where "EQ_SIGN = 61"

definition names_var :: "byte list \<Rightarrow> byte list \<Rightarrow> bool" where
  "names_var name nv = (take (length name + 1) nv = name @ [EQ_SIGN])"

definition env_string :: "byte list \<Rightarrow> byte list \<Rightarrow> byte list" where
  "env_string name value = name @ EQ_SIGN # value"

definition c_getenv :: "environ \<Rightarrow> byte list \<Rightarrow> byte list option" where
  "c_getenv env name =
     (if name = [] then None
      else map_option (drop (length name + 1)) (find (names_var name) env))"

definition bad_name :: "byte list \<Rightarrow> bool" where
  "bad_name name = (name = [] \<or> EQ_SIGN \<in> set name)"

fun replace_var :: "byte list \<Rightarrow> byte list \<Rightarrow> environ \<Rightarrow> environ" where
  "replace_var name nv [] = [nv]"
| "replace_var name nv (x # xs) = (if names_var name x then nv # xs else x # replace_var name nv xs)"

text \<open>\<^verbatim>\<open>setenv\<close> refuses an empty name and one with an equals sign, and fails without memory.\<close>

definition c_setenv :: "mem_env \<Rightarrow> environ \<Rightarrow> byte list \<Rightarrow> byte list \<Rightarrow> bool \<Rightarrow> bool \<times> environ" where
  "c_setenv me env name value overwrite =
     (if bad_name name then (False, env)
      else if \<not> overwrite \<and> (\<exists>nv \<in> set env. names_var name nv) then (True, env)
      else if \<not> granted me (length name + length value + 2) then (False, env)
      else (True, replace_var name (env_string name value) env))"

definition c_unsetenv :: "environ \<Rightarrow> byte list \<Rightarrow> bool \<times> environ" where
  "c_unsetenv env name =
     (if bad_name name then (False, env) else (True, filter (\<lambda>nv. \<not> names_var name nv) env))"

section \<open>The wrappers\<close>

text \<open>What a C function reads through \<^verbatim>\<open>ucb_str_cstr\<close>.\<close>

definition cstr_text :: "ucb_str \<Rightarrow> byte list result" where
  "cstr_text s = rbind (mem_of s) (\<lambda>m. rbind (c_strlen m) (\<lambda>n. Ret (take n m)))"

definition ucb_env_has :: "environ \<Rightarrow> ucb_str \<Rightarrow> bool result" where
  "ucb_env_has env name = rbind (cstr_text name) (\<lambda>n. Ret (c_getenv env n \<noteq> None))"

definition ucb_env_get :: "mem_env \<Rightarrow> environ \<Rightarrow> ucb_str \<Rightarrow> ucb_str option result" where
  "ucb_env_get me env name =
     rbind (cstr_text name) (\<lambda>n.
     case c_getenv env n of
       None \<Rightarrow> Ret None
     | Some cur \<Rightarrow> ucb_str_new me (Some (cur @ [0])) 0)"

definition ucb_env_set ::
    "mem_env \<Rightarrow> environ \<Rightarrow> ucb_str \<Rightarrow> ucb_str \<Rightarrow> bool \<Rightarrow> (bool \<times> environ) result" where
  "ucb_env_set me env name value overwrite =
     rbind (cstr_text name) (\<lambda>n. rbind (cstr_text value) (\<lambda>v. Ret (c_setenv me env n v overwrite)))"

definition ucb_env_unset :: "environ \<Rightarrow> ucb_str \<Rightarrow> (bool \<times> environ) result" where
  "ucb_env_unset env name = rbind (cstr_text name) (\<lambda>n. Ret (c_unsetenv env n))"

definition append_opt :: "mem_env \<Rightarrow> ucb_str \<Rightarrow> ucb_str option \<Rightarrow> ucb_str result" where
  "append_opt me s sep = (case sep of None \<Rightarrow> Ret s | Some sep \<Rightarrow> ucb_str_append me s (OtherArg sep))"

definition ucb_env_append ::
    "mem_env \<Rightarrow> environ \<Rightarrow> ucb_str \<Rightarrow> ucb_str \<Rightarrow> ucb_str option \<Rightarrow> (bool \<times> environ) result" where
  "ucb_env_append me env name value sep =
     rbind (ucb_env_get me env name) (\<lambda>cur.
     case cur of
       None \<Rightarrow> ucb_env_set me env name value True
     | Some cur \<Rightarrow>
         rbind (mem_of cur) (\<lambda>m.
         rbind (ucb_str_init me str_empty (Some m) (s_size cur)) (\<lambda>(ok, updated).
         rbind (if ok then
                  rbind (append_opt me updated sep) (\<lambda>updated.
                  rbind (ucb_str_append me updated (OtherArg value)) (\<lambda>updated.
                  rbind (ucb_env_set me env name updated True) (\<lambda>(ok, env). Ret (ok, env, updated))))
                else Ret (False, env, updated)) (\<lambda>(ok, env, updated).
         rbind (ucb_str_release updated) (\<lambda>_.
         rbind (ucb_str_free (Some cur)) (\<lambda>_. Ret (ok, env)))))))"

definition ucb_env_prepend ::
    "mem_env \<Rightarrow> environ \<Rightarrow> ucb_str \<Rightarrow> ucb_str \<Rightarrow> ucb_str option \<Rightarrow> (bool \<times> environ) result" where
  "ucb_env_prepend me env name value sep =
     rbind (ucb_env_get me env name) (\<lambda>cur.
     case cur of
       None \<Rightarrow> ucb_env_set me env name value True
     | Some cur \<Rightarrow>
         rbind (mem_of value) (\<lambda>m.
         rbind (ucb_str_init me str_empty (Some m) (s_size value)) (\<lambda>(ok, updated).
         rbind (if ok then
                  rbind (append_opt me updated sep) (\<lambda>updated.
                  rbind (ucb_str_append me updated (OtherArg cur)) (\<lambda>updated.
                  rbind (ucb_env_set me env name updated True) (\<lambda>(ok, env). Ret (ok, env, updated))))
                else Ret (False, env, updated)) (\<lambda>(ok, env, updated).
         rbind (ucb_str_release updated) (\<lambda>_.
         rbind (ucb_str_free (Some cur)) (\<lambda>_. Ret (ok, env)))))))"

section \<open>Lookup after update\<close>

lemma env_string_names: "names_var name (env_string name value)"
  by (simp add: names_var_def env_string_def)

lemma env_string_value: "drop (Suc (length name)) (env_string name value) = value"
  by (simp add: env_string_def)

text \<open>Two names without an equals sign that name the same string are the same.\<close>

lemma takeWhile_eq_sign: "EQ_SIGN \<notin> set n \<Longrightarrow> takeWhile (\<lambda>b. b \<noteq> EQ_SIGN) (n @ EQ_SIGN # r) = n"
  by (subst takeWhile_append2) auto

lemma names_var_iff: "names_var n nv \<longleftrightarrow> (\<exists>r. nv = n @ EQ_SIGN # r)"
proof
  assume a: "names_var n nv"
  have "nv = take (length n + 1) nv @ drop (length n + 1) nv" by simp
  then show "\<exists>r. nv = n @ EQ_SIGN # r" using a unfolding names_var_def by (metis append.assoc append_Cons append_Nil)
qed (auto simp: names_var_def)

lemma names_var_unique:
  assumes "names_var n nv" "names_var k nv" "EQ_SIGN \<notin> set n" "EQ_SIGN \<notin> set k" shows "n = k"
  using assms takeWhile_eq_sign unfolding names_var_iff by metis

lemma find_replace_var:
  assumes "names_var n nv" "EQ_SIGN \<notin> set n" "EQ_SIGN \<notin> set k"
  shows "find (names_var k) (replace_var n nv env) = (if k = n then Some nv else find (names_var k) env)"
  using assms by (induction env) (auto dest: names_var_unique)

lemma find_filter_var:
  assumes "EQ_SIGN \<notin> set n" "EQ_SIGN \<notin> set k"
  shows "find (names_var k) (filter (\<lambda>nv. \<not> names_var n nv) env) = (if k = n then None else find (names_var k) env)"
  using assms by (induction env) (auto dest: names_var_unique)

lemma getenv_setenv:
  assumes "c_setenv me env n v True = (True, env')" "EQ_SIGN \<notin> set k"
  shows "c_getenv env' k = (if k = n then Some v else c_getenv env k)"
  using assms find_replace_var [OF env_string_names, of n k v env]
  by (auto simp: c_setenv_def c_getenv_def bad_name_def env_string_value split: if_splits)

lemma getenv_unsetenv:
  assumes "c_unsetenv env n = (True, env')" "EQ_SIGN \<notin> set k"
  shows "c_getenv env' k = (if k = n then None else c_getenv env k)"
  using assms find_filter_var [of n k env] by (auto simp: c_unsetenv_def c_getenv_def bad_name_def split: if_splits)

lemma setenv_failed: "c_setenv me env n v w = (False, env') \<Longrightarrow> env' = env"
  by (auto simp: c_setenv_def split: if_splits)

lemma setenv_granted:
  "\<not> bad_name n \<Longrightarrow> granted me (length n + length v + 2) \<Longrightarrow>
   c_setenv me env n v True = (True, replace_var n (env_string n v) env)"
  by (simp add: c_setenv_def)

text \<open>No variable of the environment contains a null byte or more than one object can hold.\<close>

definition environ_ok :: "environ \<Rightarrow> bool" where
  "environ_ok env \<longleftrightarrow> (\<forall>nv \<in> set env. 0 \<notin> set nv \<and> length nv < PTRDIFF_MAX)"

lemma getenv_ok:
  assumes "environ_ok env" "c_getenv env n = Some v" shows "0 \<notin> set v" "length v < PTRDIFF_MAX"
proof -
  obtain i where "i < length env" "v = drop (length n + 1) (env ! i)"
    using assms(2) by (auto simp: c_getenv_def find_Some_iff split: if_splits intro: nth_mem)
  moreover have "0 \<notin> set (env ! i)" "length (env ! i) < PTRDIFF_MAX"
    using calculation(1) assms(1) by (simp_all add: environ_ok_def)
  ultimately show "0 \<notin> set v" "length v < PTRDIFF_MAX" by (auto dest: in_set_dropD)
qed

section \<open>Strings as arguments of the C library\<close>

lemma src_cstring: "0 \<notin> set t \<Longrightarrow> length t < PTRDIFF_MAX \<Longrightarrow> src_text (t @ [0]) 0 t"
  by (simp add: src_text_def c_strlen_term)

lemma cstr_text_ok:
  assumes "str_ok s" shows "cstr_text s = Ret (str_text s)"
proof -
  obtain m where m: "mem_of s = Ret m" "str_text s = take (s_size s) m" "s_size s < length m" "m ! s_size s = 0"
    "valid_text (str_text s)" using assms by (auto elim: str_okE)
  then have "m = str_text s @ 0 # drop (Suc (s_size s)) m" by (metis id_take_nth_drop)
  moreover have "0 \<notin> set (str_text s)" using m(5) by (simp add: valid_text_def)
  ultimately have "c_strlen m = Ret (length (str_text s))" by (metis c_strlen_term)
  then show ?thesis using m by (simp add: cstr_text_def)
qed

lemma str_release_ok: "str_ok s \<Longrightarrow> ucb_str_free (Some s) = Ret ()" "str_ok s \<Longrightarrow> ucb_str_release s = Ret str_zero"
  using release_common_ok [of s] by (auto simp: ucb_str_free_def ucb_str_release_def)

lemma append_tight:
  assumes f: "\<not> fatal_returns me" and ok: "str_ok s" "tight s" "arg_ok a"
  shows "always (ucb_str_append me s a) (\<lambda>s'. str_ok s' \<and> tight s' \<and> str_text s' = str_text s @ str_text (arg_str s a))"
  by (rule always_mono [OF append_spec [OF f ok(1,3)]])
    (use ok(2) tight_reserves [OF ok(2)] in \<open>auto split: if_splits\<close>)

definition opt_text :: "ucb_str option \<Rightarrow> byte list" where
  "opt_text sep = (case sep of None \<Rightarrow> [] | Some s \<Rightarrow> str_text s)"

lemma append_opt_tight:
  assumes f: "\<not> fatal_returns me" and ok: "str_ok s" "tight s" "pred_option str_ok sep"
  shows "always (append_opt me s sep) (\<lambda>s'. str_ok s' \<and> tight s' \<and> str_text s' = str_text s @ opt_text sep)"
proof (cases sep)
  case None
  then show ?thesis using ok by (simp add: append_opt_def opt_text_def)
next
  case (Some t)
  then show ?thesis using append_tight [OF f ok(1,2), of "OtherArg t"] ok(3)
    by (simp add: append_opt_def opt_text_def arg_ok_def arg_str_def)
qed

lemma init_tight:
  assumes f: "\<not> fatal_returns me" and ok: "str_ok s" and m: "mem_of s = Ret m"
  shows "always (ucb_str_init me s0 (Some m) (s_size s)) (\<lambda>(ok, s'). ok \<and> str_ok s' \<and> tight s' \<and> str_text s' = str_text s)"
  unfolding ucb_str_init_def
  by (rule always_mono [OF init_common_spec [OF f, of "str_text s" "s_size s" "Some m"]])
    (use str_src [OF ok m] in \<open>auto intro: tightI\<close>)

section \<open>The wrappers keep the environment\<close>

lemma env_set_spec: "str_ok n \<Longrightarrow> str_ok v \<Longrightarrow> ucb_env_set me env n v w = Ret (c_setenv me env (str_text n) (str_text v) w)"
  by (simp add: ucb_env_set_def cstr_text_ok)

lemma env_unset_spec: "str_ok n \<Longrightarrow> ucb_env_unset env n = Ret (c_unsetenv env (str_text n))"
  by (simp add: ucb_env_unset_def cstr_text_ok)

lemma env_has_spec: "str_ok n \<Longrightarrow> ucb_env_has env n = Ret (c_getenv env (str_text n) \<noteq> None)"
  by (simp add: ucb_env_has_def cstr_text_ok)

lemma env_get_spec:
  assumes f: "\<not> fatal_returns me" and n: "str_ok n" and e: "environ_ok env"
  shows "always (ucb_env_get me env n) (\<lambda>r. case c_getenv env (str_text n) of None \<Rightarrow> r = None
    | Some v \<Rightarrow> \<exists>s. r = Some s \<and> str_ok s \<and> str_text s = v)"
proof (cases "c_getenv env (str_text n)")
  case (Some v)
  then have "src_text (v @ [0]) 0 v" using getenv_ok [OF e] src_cstring by blast
  then have "always (ucb_str_new me (Some (v @ [0])) 0) (\<lambda>r. \<exists>s. r = Some s \<and> str_ok s \<and> str_text s = v)"
    by (intro always_mono [OF new_spec [OF f, of v 0 "Some (v @ [0])"]]) auto
  then show ?thesis using Some by (simp add: ucb_env_get_def cstr_text_ok [OF n])
qed (simp add: ucb_env_get_def cstr_text_ok [OF n])

text \<open>Building the new value \<open>a\<close>, separator, \<open>b\<close>, and storing it.\<close>

lemma env_compose_spec:
  assumes f: "\<not> fatal_returns me" and ok: "str_ok n" "str_ok a" "str_ok b" "pred_option str_ok sep" "str_ok c"
    and m: "mem_of a = Ret m"
  shows "always (rbind (ucb_str_init me str_empty (Some m) (s_size a)) (\<lambda>(ok, updated).
         rbind (if ok then
                  rbind (append_opt me updated sep) (\<lambda>updated.
                  rbind (ucb_str_append me updated (OtherArg b)) (\<lambda>updated.
                  rbind (ucb_env_set me env n updated True) (\<lambda>(ok, env). Ret (ok, env, updated))))
                else Ret (False, env, updated)) (\<lambda>(ok, env, updated).
         rbind (ucb_str_release updated) (\<lambda>_.
         rbind (ucb_str_free (Some c)) (\<lambda>_. Ret (ok, env))))))
      (\<lambda>r. r = c_setenv me env (str_text n) (str_text a @ opt_text sep @ str_text b) True)"
proof (rule always_bind_ok [OF init_tight [OF f ok(2) m]], unfold prod.case if_True, elim conjE)
  fix u
  assume u: "str_ok u" "tight u" "str_text u = str_text a"
  let ?P = "\<lambda>(r, env', u'). str_ok u' \<and> (r, env') = c_setenv me env (str_text n) (str_text a @ opt_text sep @ str_text b) True"
  have "always (rbind (append_opt me u sep) (\<lambda>updated. rbind (ucb_str_append me updated (OtherArg b)) (\<lambda>updated.
        rbind (ucb_env_set me env n updated True) (\<lambda>(ok, env). Ret (ok, env, updated))))) ?P"
  proof (rule always_bind [OF append_opt_tight [OF f u(1,2) ok(4)]])
    fix u2
    assume u2: "str_ok u2 \<and> tight u2 \<and> str_text u2 = str_text u @ opt_text sep"
    then have ap: "always (ucb_str_append me u2 (OtherArg b)) (\<lambda>s'. str_ok s' \<and> tight s' \<and> str_text s' = str_text u2 @ str_text b)"
      using append_tight [OF f, of u2 "OtherArg b"] ok(3) by (simp add: arg_ok_def arg_str_def)
    show "always (rbind (ucb_str_append me u2 (OtherArg b)) (\<lambda>updated.
        rbind (ucb_env_set me env n updated True) (\<lambda>(ok, env). Ret (ok, env, updated)))) ?P"
      by (rule always_bind [OF ap]) (use u u2 in \<open>simp add: env_set_spec [OF ok(1)] split: prod.splits\<close>)
  qed
  then show "always (rbind (rbind (append_opt me u sep) (\<lambda>updated. rbind (ucb_str_append me updated (OtherArg b)) (\<lambda>updated.
        rbind (ucb_env_set me env n updated True) (\<lambda>(ok, env). Ret (ok, env, updated)))))
      (\<lambda>(ok, env, updated). rbind (ucb_str_release updated) (\<lambda>_. rbind (ucb_str_free (Some c)) (\<lambda>_. Ret (ok, env)))))
      (\<lambda>r. r = c_setenv me env (str_text n) (str_text a @ opt_text sep @ str_text b) True)"
    by (rule always_bind) (auto simp: str_release_ok ok(5))
qed

lemma env_append_spec:
  assumes f: "\<not> fatal_returns me" and ok: "str_ok n" "str_ok v" "pred_option str_ok sep" and e: "environ_ok env"
  shows "always (ucb_env_append me env n v sep) (\<lambda>r. r = c_setenv me env (str_text n)
    (case c_getenv env (str_text n) of None \<Rightarrow> str_text v | Some cur \<Rightarrow> cur @ opt_text sep @ str_text v) True)"
  unfolding ucb_env_append_def
proof (rule always_bind [OF env_get_spec [OF f ok(1) e]])
  fix r
  assume r: "case c_getenv env (str_text n) of None \<Rightarrow> r = None | Some v \<Rightarrow> \<exists>s. r = Some s \<and> str_ok s \<and> str_text s = v"
  show "always (case r of None \<Rightarrow> ucb_env_set me env n v True | Some cur \<Rightarrow>
         rbind (mem_of cur) (\<lambda>m.
         rbind (ucb_str_init me str_empty (Some m) (s_size cur)) (\<lambda>(ok, updated).
         rbind (if ok then
                  rbind (append_opt me updated sep) (\<lambda>updated.
                  rbind (ucb_str_append me updated (OtherArg v)) (\<lambda>updated.
                  rbind (ucb_env_set me env n updated True) (\<lambda>(ok, env). Ret (ok, env, updated))))
                else Ret (False, env, updated)) (\<lambda>(ok, env, updated).
         rbind (ucb_str_release updated) (\<lambda>_.
         rbind (ucb_str_free (Some cur)) (\<lambda>_. Ret (ok, env)))))))
      (\<lambda>r. r = c_setenv me env (str_text n)
        (case c_getenv env (str_text n) of None \<Rightarrow> str_text v | Some cur \<Rightarrow> cur @ opt_text sep @ str_text v) True)"
  proof (cases "c_getenv env (str_text n)")
    case (Some cur)
    then obtain s where s: "r = Some s" "str_ok s" "str_text s = cur" using r by auto
    obtain m where m: "mem_of s = Ret m" using str_mem [OF s(2)] by metis
    show ?thesis using env_compose_spec [OF f ok(1) s(2) ok(2,3) s(2) m, of env] by (simp add: s m Some)
  qed (use r in \<open>simp add: env_set_spec ok\<close>)
qed

lemma env_prepend_spec:
  assumes f: "\<not> fatal_returns me" and ok: "str_ok n" "str_ok v" "pred_option str_ok sep" and e: "environ_ok env"
  shows "always (ucb_env_prepend me env n v sep) (\<lambda>r. r = c_setenv me env (str_text n)
    (case c_getenv env (str_text n) of None \<Rightarrow> str_text v | Some cur \<Rightarrow> str_text v @ opt_text sep @ cur) True)"
proof -
  obtain m where m: "mem_of v = Ret m" using str_mem [OF ok(2)] by metis
  show ?thesis unfolding ucb_env_prepend_def
  proof (rule always_bind [OF env_get_spec [OF f ok(1) e]])
    fix r
    assume r: "case c_getenv env (str_text n) of None \<Rightarrow> r = None | Some v \<Rightarrow> \<exists>s. r = Some s \<and> str_ok s \<and> str_text s = v"
    show "always (case r of None \<Rightarrow> ucb_env_set me env n v True | Some cur \<Rightarrow>
         rbind (mem_of v) (\<lambda>m.
         rbind (ucb_str_init me str_empty (Some m) (s_size v)) (\<lambda>(ok, updated).
         rbind (if ok then
                  rbind (append_opt me updated sep) (\<lambda>updated.
                  rbind (ucb_str_append me updated (OtherArg cur)) (\<lambda>updated.
                  rbind (ucb_env_set me env n updated True) (\<lambda>(ok, env). Ret (ok, env, updated))))
                else Ret (False, env, updated)) (\<lambda>(ok, env, updated).
         rbind (ucb_str_release updated) (\<lambda>_.
         rbind (ucb_str_free (Some cur)) (\<lambda>_. Ret (ok, env)))))))
      (\<lambda>r. r = c_setenv me env (str_text n)
        (case c_getenv env (str_text n) of None \<Rightarrow> str_text v | Some cur \<Rightarrow> str_text v @ opt_text sep @ cur) True)"
    proof (cases "c_getenv env (str_text n)")
      case (Some cur)
      then obtain s where s: "r = Some s" "str_ok s" "str_text s = cur" using r by auto
      show ?thesis using env_compose_spec [OF f ok(1,2) s(2) ok(3) s(2) m, of env] by (simp add: s m Some)
    qed (use r in \<open>simp add: env_set_spec ok\<close>)
  qed
qed

end
