(* ===== verification/Envmap.thy ===== *)
theory Envmap
  imports Env
begin

text \<open>
  The environment map, \<^verbatim>\<open>src/ucb/envmap.c\<close>: a vector of owned entries, searched from the front.
  A null map is answered at once by every function; the definitions start behind that check.
  An entry is owned by exactly one map, so that a vector of pointers to entries is a vector of
  entries. A string argument may be the value of an entry, which \<^verbatim>\<open>ucb_envmap_get\<close> hands out;
  \<open>ValueOf i\<close> is that pointer.
\<close>

section \<open>The map\<close>

record ucb_envmap_entry =
  e_name :: ucb_str
  e_value :: ucb_str

record ucb_envmap =
  em_entries :: "ucb_envmap_entry ucb_vector option"

datatype str_ref = ValueOf nat | Text ucb_str

definition sizeof_entry :: nat where "sizeof_entry = 16"
definition sizeof_envmap :: nat where "sizeof_envmap = 8"

definition deref_str :: "ucb_envmap_entry ucb_vector \<Rightarrow> str_ref \<Rightarrow> ucb_str result" where
  "deref_str v r = (case r of Text s \<Rightarrow> Ret s | ValueOf i \<Rightarrow> rbind (vec_get_cell v i) (\<lambda>e. Ret (e_value e)))"

text \<open>The argument \<open>r\<close> of a call on the value of entry \<open>idx\<close>: that value itself or another string.\<close>

definition value_arg :: "ucb_envmap_entry ucb_vector \<Rightarrow> nat \<Rightarrow> str_ref \<Rightarrow> str_arg result" where
  "value_arg v idx r =
     (if r = ValueOf idx then Ret SelfArg else rbind (deref_str v r) (\<lambda>s. Ret (OtherArg s)))"

function find_entry :: "ucb_envmap_entry ucb_vector \<Rightarrow> ucb_str \<Rightarrow> nat \<Rightarrow> nat result" where
  "find_entry v name i =
     (if i < v_size v
      then rbind (vec_get v i) (\<lambda>entry.
           rbind (ucb_str_equal (e_name entry) name) (\<lambda>eq.
           if eq then Ret i else find_entry v name (i + 1)))
      else Ret UCB_NPOS)"
  by pat_completeness auto
termination by (relation "measure (\<lambda>(v, name, i). v_size v - i)") auto

declare find_entry.simps [simp del]

definition envmap_find :: "ucb_envmap \<Rightarrow> str_ref option \<Rightarrow> nat result" where
  "envmap_find em name =
     (case (em_entries em, name) of
        (Some v, Some name) \<Rightarrow> rbind (deref_str v name) (\<lambda>name. find_entry v name 0)
      | _ \<Rightarrow> Ret UCB_NPOS)"

definition envmap_entry_free :: "ucb_envmap_entry \<Rightarrow> unit result" where
  "envmap_entry_free entry =
     rbind (ucb_str_free (Some (e_name entry))) (\<lambda>_. ucb_str_free (Some (e_value entry)))"

function free_entries :: "ucb_envmap_entry ucb_vector \<Rightarrow> nat \<Rightarrow> unit result" where
  "free_entries v i =
     (if i < v_size v
      then rbind (vec_get v i) (\<lambda>entry. rbind (envmap_entry_free entry) (\<lambda>_. free_entries v (i + 1)))
      else Ret ())"
  by pat_completeness auto
termination by (relation "measure (\<lambda>(v, i). v_size v - i)") auto

declare free_entries.simps [simp del]

definition envmap_entries_free :: "ucb_envmap \<Rightarrow> ucb_envmap result" where
  "envmap_entries_free em =
     (case em_entries em of None \<Rightarrow> Ret em
      | Some v \<Rightarrow>
          rbind (free_entries v 0) (\<lambda>_.
          rbind (vec_free (Some v)) (\<lambda>_. Ret (em\<lparr>em_entries := None\<rparr>))))"

text \<open>\<^verbatim>\<open>strchr(nv, '=')\<close> on readable memory, as an offset.\<close>

definition strchr_eq :: "byte list \<Rightarrow> nat option result" where
  "strchr_eq mem =
     rbind (c_strlen mem) (\<lambda>n.
     let k = length (takeWhile (\<lambda>b. b \<noteq> EQ_SIGN) (take n mem)) in Ret (if k < n then Some k else None))"

definition envmap_entry_from_nv :: "mem_env \<Rightarrow> byte list \<Rightarrow> ucb_envmap_entry option result" where
  "envmap_entry_from_nv me nv =
     rbind (strchr_eq nv) (\<lambda>eq.
     case eq of
       None \<Rightarrow> Ret None
     | Some name_len \<Rightarrow>
         if name_len = 0 then Ret None
         else if \<not> granted me sizeof_entry then Ret None
         else
           rbind (ucb_str_new me (Some nv) name_len) (\<lambda>name.
           case name of
             None \<Rightarrow> Ret None
           | Some name \<Rightarrow>
               rbind (c_strlen nv) (\<lambda>len.
               let val_len = usub (usub len name_len) 1 in
               rbind (ucb_str_new me (Some (drop (name_len + 1) nv)) val_len) (\<lambda>val.
               case val of
                 None \<Rightarrow> rbind (ucb_str_free (Some name)) (\<lambda>_. Ret None)
               | Some val \<Rightarrow> Ret (Some \<lparr>e_name = name, e_value = val\<rparr>)))))"

text \<open>The entry made of copies of two strings; an entry is cloned in the same way.\<close>

definition envmap_entry_new :: "mem_env \<Rightarrow> ucb_str \<Rightarrow> ucb_str \<Rightarrow> ucb_envmap_entry option result" where
  "envmap_entry_new me name val =
     (if \<not> granted me sizeof_entry then Ret None
      else
        rbind (ucb_str_clone me name) (\<lambda>name.
        case name of
          None \<Rightarrow> Ret None
        | Some name \<Rightarrow>
            rbind (ucb_str_clone me val) (\<lambda>val.
            case val of
              None \<Rightarrow> rbind (ucb_str_free (Some name)) (\<lambda>_. Ret None)
            | Some val \<Rightarrow> Ret (Some \<lparr>e_name = name, e_value = val\<rparr>))))"

definition envmap_entry_clone :: "mem_env \<Rightarrow> ucb_envmap_entry \<Rightarrow> ucb_envmap_entry option result" where
  "envmap_entry_clone me src = envmap_entry_new me (e_name src) (e_value src)"

section \<open>Operations\<close>

definition ucb_envmap_new :: "mem_env \<Rightarrow> ucb_envmap option result" where
  "ucb_envmap_new me =
     (if \<not> granted me sizeof_envmap then Ret None
      else rbind (vec_new me) (\<lambda>v. Ret (case v of None \<Rightarrow> None | Some v \<Rightarrow> Some \<lparr>em_entries = Some v\<rparr>)))"

definition ucb_envmap_free :: "ucb_envmap option \<Rightarrow> unit result" where
  "ucb_envmap_free em =
     (case em of None \<Rightarrow> Ret () | Some em \<Rightarrow> rbind (envmap_entries_free em) (\<lambda>_. Ret ()))"

text \<open>Reading the environment of the process, POSIX branch.\<close>

fun push_environ :: "mem_env \<Rightarrow> ucb_envmap_entry ucb_vector \<Rightarrow> environ \<Rightarrow> ucb_envmap_entry ucb_vector result" where
  "push_environ me v [] = Ret v"
| "push_environ me v (nv # env) =
     rbind (envmap_entry_from_nv me (nv @ [0])) (\<lambda>entry.
     rbind (case entry of None \<Rightarrow> Ret v | Some entry \<Rightarrow> vec_push_back me 8 v entry) (\<lambda>v.
     push_environ me v env))"

definition ucb_envmap_init_from_current :: "mem_env \<Rightarrow> environ \<Rightarrow> ucb_envmap \<Rightarrow> ucb_envmap result" where
  "ucb_envmap_init_from_current me env em =
     (case em_entries em of None \<Rightarrow> Ret em
      | Some v \<Rightarrow> rbind (push_environ me v env) (\<lambda>v. Ret (em\<lparr>em_entries := Some v\<rparr>)))"

definition ucb_envmap_reserve :: "mem_env \<Rightarrow> ucb_envmap \<Rightarrow> nat \<Rightarrow> ucb_envmap result" where
  "ucb_envmap_reserve me em cnt =
     (case em_entries em of None \<Rightarrow> Ret em
      | Some v \<Rightarrow> rbind (vec_reserve me 8 v cnt) (\<lambda>(_, v). Ret (em\<lparr>em_entries := Some v\<rparr>)))"

text \<open>Copying; the source may be the destination itself.\<close>

datatype map_arg = SelfMap | OtherMap ucb_envmap

function copy_entries ::
    "mem_env \<Rightarrow> ucb_envmap_entry ucb_vector \<Rightarrow> ucb_envmap_entry ucb_vector \<Rightarrow> nat \<Rightarrow> ucb_envmap_entry ucb_vector result" where
  "copy_entries me dst src i =
     (if i < v_size src
      then rbind (vec_get src i) (\<lambda>entry.
           rbind (envmap_entry_clone me entry) (\<lambda>cloned.
           rbind (case cloned of None \<Rightarrow> Ret dst | Some c \<Rightarrow> vec_push_back me 8 dst c) (\<lambda>dst.
           copy_entries me dst src (i + 1))))
      else Ret dst)"
  by pat_completeness auto
termination by (relation "measure (\<lambda>(me, dst, src, i). v_size src - i)") auto

declare copy_entries.simps [simp del]

text \<open>When the source is the destination, the loop reads the vector that was just made.\<close>

definition ucb_envmap_copy :: "mem_env \<Rightarrow> ucb_envmap \<Rightarrow> map_arg \<Rightarrow> ucb_envmap result" where
  "ucb_envmap_copy me dst src =
     (case (case src of SelfMap \<Rightarrow> em_entries dst | OtherMap s \<Rightarrow> em_entries s) of
        None \<Rightarrow> Ret dst
      | Some sv \<Rightarrow>
          rbind (envmap_entries_free dst) (\<lambda>dst.
          rbind (vec_new me) (\<lambda>v.
          case v of
            None \<Rightarrow> Ret (dst\<lparr>em_entries := None\<rparr>)
          | Some v \<Rightarrow>
              rbind (copy_entries me v (case src of SelfMap \<Rightarrow> v | OtherMap _ \<Rightarrow> sv) 0) (\<lambda>v.
              Ret (dst\<lparr>em_entries := Some v\<rparr>)))))"

definition ucb_envmap_clone :: "mem_env \<Rightarrow> ucb_envmap \<Rightarrow> ucb_envmap option result" where
  "ucb_envmap_clone me src =
     rbind (ucb_envmap_new me) (\<lambda>dst.
     case dst of
       None \<Rightarrow> Ret None
     | Some dst \<Rightarrow> rbind (ucb_envmap_copy me dst (OtherMap src)) (\<lambda>dst. Ret (Some dst)))"

definition ucb_envmap_has :: "ucb_envmap \<Rightarrow> str_ref option \<Rightarrow> bool result" where
  "ucb_envmap_has em name = rbind (envmap_find em name) (\<lambda>idx. Ret (idx \<noteq> UCB_NPOS))"

definition ucb_envmap_get :: "ucb_envmap \<Rightarrow> str_ref option \<Rightarrow> str_ref option result" where
  "ucb_envmap_get em name =
     rbind (envmap_find em name) (\<lambda>idx.
     if idx = UCB_NPOS then Ret None
     else case em_entries em of
       None \<Rightarrow> Undef
     | Some v \<Rightarrow> rbind (vec_get v idx) (\<lambda>_. Ret (Some (ValueOf idx))))"

text \<open>Storing a new value into entry \<open>idx\<close>.\<close>

definition put_value :: "ucb_envmap \<Rightarrow> ucb_envmap_entry ucb_vector \<Rightarrow> nat \<Rightarrow> ucb_str \<Rightarrow> ucb_envmap result" where
  "put_value em v idx s =
     rbind (vec_get v idx) (\<lambda>entry.
     rbind (vec_set_cell v idx (entry\<lparr>e_value := s\<rparr>)) (\<lambda>v. Ret (em\<lparr>em_entries := Some v\<rparr>)))"

definition ucb_envmap_set ::
    "mem_env \<Rightarrow> ucb_envmap \<Rightarrow> str_ref option \<Rightarrow> str_ref option \<Rightarrow> (bool \<times> ucb_envmap) result" where
  "ucb_envmap_set me em name val =
     (case (em_entries em, name, val) of
        (Some v, Some name, Some val) \<Rightarrow>
          rbind (envmap_find em (Some name)) (\<lambda>idx.
          if idx \<noteq> UCB_NPOS then
            rbind (vec_get v idx) (\<lambda>entry.
            rbind (value_arg v idx val) (\<lambda>arg.
            rbind (ucb_str_copy me (e_value entry) arg) (\<lambda>(ok, s).
            rbind (put_value em v idx s) (\<lambda>em. Ret (ok, em)))))
          else
            rbind (deref_str v name) (\<lambda>name.
            rbind (deref_str v val) (\<lambda>val.
            rbind (envmap_entry_new me name val) (\<lambda>entry.
            case entry of
              None \<Rightarrow> Ret (False, em)
            | Some entry \<Rightarrow>
                rbind (vec_push_back me 8 v entry) (\<lambda>v. Ret (True, em\<lparr>em_entries := Some v\<rparr>))))))
      | _ \<Rightarrow> Ret (False, em))"

definition ucb_envmap_unset :: "ucb_envmap \<Rightarrow> str_ref option \<Rightarrow> (bool \<times> ucb_envmap) result" where
  "ucb_envmap_unset em name =
     (case (em_entries em, name) of
        (Some v, Some name) \<Rightarrow>
          rbind (envmap_find em (Some name)) (\<lambda>idx.
          if idx = UCB_NPOS then Ret (False, em)
          else
            rbind (vec_remove v idx) (\<lambda>(removed, v).
            rbind (envmap_entry_free removed) (\<lambda>_. Ret (True, em\<lparr>em_entries := Some v\<rparr>))))
      | _ \<Rightarrow> Ret (False, em))"

text \<open>
  Appending works in place: the separator is appended to the value of the entry, and then the
  new text, which is read only then.
\<close>

definition ucb_envmap_append ::
    "mem_env \<Rightarrow> ucb_envmap \<Rightarrow> str_ref option \<Rightarrow> str_ref option \<Rightarrow> str_ref option \<Rightarrow> (bool \<times> ucb_envmap) result" where
  "ucb_envmap_append me em name val sep =
     (case (em_entries em, name, val) of
        (Some v, Some name, Some val) \<Rightarrow>
          rbind (envmap_find em (Some name)) (\<lambda>idx.
          if idx \<noteq> UCB_NPOS then
            rbind (vec_get v idx) (\<lambda>entry.
            rbind (case sep of
                     Some sep \<Rightarrow>
                       if \<not> ucb_str_is_empty (e_value entry)
                       then rbind (value_arg v idx sep) (\<lambda>arg. ucb_str_append me (e_value entry) arg)
                       else Ret (e_value entry)
                   | None \<Rightarrow> Ret (e_value entry)) (\<lambda>s.
            rbind (value_arg v idx val) (\<lambda>arg.
            rbind (ucb_str_append me s arg) (\<lambda>s.
            rbind (put_value em v idx s) (\<lambda>em. Ret (True, em))))))
          else ucb_envmap_set me em (Some name) (Some val))
      | _ \<Rightarrow> Ret (False, em))"

definition ucb_envmap_prepend ::
    "mem_env \<Rightarrow> ucb_envmap \<Rightarrow> str_ref option \<Rightarrow> str_ref option \<Rightarrow> str_ref option \<Rightarrow> (bool \<times> ucb_envmap) result" where
  "ucb_envmap_prepend me em name val sep =
     (case (em_entries em, name, val) of
        (Some v, Some name, Some val) \<Rightarrow>
          rbind (envmap_find em (Some name)) (\<lambda>idx.
          if idx \<noteq> UCB_NPOS then
            rbind (vec_get v idx) (\<lambda>entry.
            rbind (deref_str v val) (\<lambda>val.
            rbind (mem_of val) (\<lambda>m.
            rbind (ucb_str_init me str_empty (Some m) (s_size val)) (\<lambda>(ok, new_val).
            if \<not> ok then Ret (False, em)
            else
              rbind (case sep of
                       Some sep \<Rightarrow>
                         if \<not> ucb_str_is_empty (e_value entry)
                         then rbind (deref_str v sep) (\<lambda>sep. ucb_str_append me new_val (OtherArg sep))
                         else Ret new_val
                     | None \<Rightarrow> Ret new_val) (\<lambda>new_val.
              rbind (ucb_str_append me new_val (OtherArg (e_value entry))) (\<lambda>new_val.
              rbind (ucb_str_copy me (e_value entry) (OtherArg new_val)) (\<lambda>(ok, s).
              rbind (ucb_str_release new_val) (\<lambda>_.
              rbind (put_value em v idx s) (\<lambda>em. Ret (ok, em))))))))))
          else ucb_envmap_set me em (Some name) (Some val))
      | _ \<Rightarrow> Ret (False, em))"

section \<open>The environment of the process and of a child\<close>

function apply_entries ::
    "mem_env \<Rightarrow> ucb_envmap_entry ucb_vector \<Rightarrow> nat \<Rightarrow> environ \<Rightarrow> environ result" where
  "apply_entries me v i env =
     (if i < v_size v
      then rbind (vec_get v i) (\<lambda>entry.
           rbind (if ucb_str_is_empty (e_value entry) then ucb_env_unset env (e_name entry)
                  else ucb_env_set me env (e_name entry) (e_value entry) True) (\<lambda>(_, env).
           apply_entries me v (i + 1) env))
      else Ret env)"
  by pat_completeness auto
termination by (relation "measure (\<lambda>(me, v, i, env). v_size v - i)") auto

declare apply_entries.simps [simp del]

definition ucb_envmap_apply :: "mem_env \<Rightarrow> ucb_envmap \<Rightarrow> environ \<Rightarrow> environ result" where
  "ucb_envmap_apply me em env =
     (case em_entries em of None \<Rightarrow> Ret env | Some v \<Rightarrow> apply_entries me v 0 env)"

text \<open>The block of one string: the name, an equals sign, the value and the terminator.\<close>

definition envp_block :: "mem_env \<Rightarrow> byte list \<Rightarrow> byte list \<Rightarrow> byte list option result" where
  "envp_block me name val =
     (let name_len = length name; value_len = length val;
          total = usize (name_len + 1 + value_len + 1) in
      rbind (ucb_malloc me total) (\<lambda>ok.
      if \<not> ok then Ret None
      else
        rbind (mem_put 0 name (new_block me total)) (\<lambda>nv.
        rbind (mem_put name_len [EQ_SIGN] nv) (\<lambda>nv.
        rbind (mem_put (name_len + 1) val nv) (\<lambda>nv.
        rbind (mem_put (name_len + 1 + value_len) [0] nv) (\<lambda>nv. Ret (Some nv)))))))"

function envp_loop :: "mem_env \<Rightarrow> ucb_envmap_entry ucb_vector \<Rightarrow> nat \<Rightarrow> byte list list option result" where
  "envp_loop me v i =
     (if i < v_size v
      then rbind (vec_get v i) (\<lambda>entry.
           rbind (cstr_text (e_name entry)) (\<lambda>name.
           rbind (cstr_text (e_value entry)) (\<lambda>val.
           rbind (envp_block me name val) (\<lambda>nv.
           case nv of
             None \<Rightarrow> Ret None
           | Some nv \<Rightarrow> rbind (envp_loop me v (i + 1)) (\<lambda>r. Ret (map_option (\<lambda>nvs. nv # nvs) r))))))
      else Ret (Some []))"
  by pat_completeness auto
termination by (relation "measure (\<lambda>(me, v, i). v_size v - i)") auto

declare envp_loop.simps [simp del]

text \<open>The strings of the array; \<open>None\<close> is null with the error \<^verbatim>\<open>UCB_ERROR_OUT_OF_MEMORY\<close> thrown.\<close>

definition ucb_envmap_to_envp :: "mem_env \<Rightarrow> ucb_envmap \<Rightarrow> byte list list option result" where
  "ucb_envmap_to_envp me em =
     (let cnt = (case em_entries em of None \<Rightarrow> 0 | Some v \<Rightarrow> v_size v) in
      rbind (ucb_calloc me (usize (cnt + 1)) 8) (\<lambda>ok.
      if \<not> ok then Ret None
      else case em_entries em of None \<Rightarrow> Ret (Some []) | Some v \<Rightarrow> envp_loop me v 0))"

end
