(* ===== verification/Envmap_Spec.thy ===== *)
theory Envmap_Spec
  imports Envmap
begin

text \<open>
  The environment map implements an association list of texts: \<open>em_holds em xs\<close> says that the
  entries of the map are well formed and hold the pairs \<open>xs\<close>. The values never have spare room,
  so that appending to one always takes effect.
\<close>

section \<open>Abstraction\<close>

type_synonym pairs = "(byte list \<times> byte list) list"

definition entry_ok :: "ucb_envmap_entry \<Rightarrow> bool" where
  "entry_ok e \<longleftrightarrow> str_ok (e_name e) \<and> str_ok (e_value e) \<and> tight (e_value e)"

definition entry_pair :: "ucb_envmap_entry \<Rightarrow> byte list \<times> byte list" where
  "entry_pair e = (str_text (e_name e), str_text (e_value e))"

definition entries_hold :: "ucb_envmap_entry ucb_vector \<Rightarrow> pairs \<Rightarrow> bool" where
  "entries_hold v xs \<longleftrightarrow> (\<exists>es. vec_holds 8 v es \<and> list_all entry_ok es \<and> map entry_pair es = xs)"

definition em_holds :: "ucb_envmap \<Rightarrow> pairs \<Rightarrow> bool" where
  "em_holds em xs \<longleftrightarrow> (\<exists>v. em_entries em = Some v \<and> entries_hold v xs)"

fun ref_ok :: "pairs \<Rightarrow> str_ref \<Rightarrow> bool" where
  "ref_ok xs (ValueOf i) = (i < length xs)"
| "ref_ok xs (Text s) = str_ok s"

fun ref_text :: "pairs \<Rightarrow> str_ref \<Rightarrow> byte list" where
  "ref_text xs (ValueOf i) = snd (xs ! i)"
| "ref_text xs (Text s) = str_text s"

definition has_key :: "byte list \<Rightarrow> pairs \<Rightarrow> bool" where
  "has_key k xs = (k \<in> fst ` set xs)"

definition key_index :: "byte list \<Rightarrow> pairs \<Rightarrow> nat" where
  "key_index k xs = length (takeWhile (\<lambda>p. fst p \<noteq> k) xs)"

definition delete_first :: "byte list \<Rightarrow> pairs \<Rightarrow> pairs" where
  "delete_first k xs = take (key_index k xs) xs @ drop (key_index k xs + 1) xs"

lemma key_index_Cons [simp]: "key_index k (p # xs) = (if fst p = k then 0 else key_index k xs + 1)"
  by (simp add: key_index_def)

lemma has_key_Cons [simp]: "has_key k (p # xs) \<longleftrightarrow> fst p = k \<or> has_key k xs" "\<not> has_key k []"
  by (auto simp: has_key_def)

lemma has_key_map_of: "has_key k xs \<longleftrightarrow> map_of xs k \<noteq> None"
  by (induction xs) auto

lemma key_index_less: "has_key k xs \<Longrightarrow> key_index k xs < length xs"
  by (induction xs) auto

lemma key_index_nth: "has_key k xs \<Longrightarrow> fst (xs ! key_index k xs) = k \<and> map_of xs k = Some (snd (xs ! key_index k xs))"
  by (induction xs) (auto simp: nth_Cons)

lemma update_eq: "AList.update k v xs = (if has_key k xs then xs[key_index k xs := (k, v)] else xs @ [(k, v)])"
  by (induction xs) auto

lemma delete_first_Cons [simp]: "delete_first k (p # xs) = (if fst p = k then xs else p # delete_first k xs)"
  by (simp add: delete_first_def)

lemma delete_first_Nil [simp]: "delete_first k [] = []"
  by (simp add: delete_first_def)

lemma delete_first_absent: "\<not> has_key k xs \<Longrightarrow> delete_first k xs = xs"
  by (induction xs) auto

lemma map_of_delete_first:
  "distinct (map fst xs) \<Longrightarrow> map_of (delete_first k xs) = (map_of xs)(k := None)"
proof (induction xs)
  case (Cons p xs)
  then show ?case by (cases p) (auto simp: fun_eq_iff map_of_eq_None_iff)
qed simp

lemma distinct_delete_first: "distinct (map fst xs) \<Longrightarrow> distinct (map fst (delete_first k xs))"
proof (induction xs)
  case (Cons p xs)
  have "fst ` set (delete_first k xs) \<subseteq> fst ` set xs" by (induction xs) auto
  then show ?case using Cons by auto
qed simp

section \<open>Vectors of entries\<close>

lemma entries_holdE:
  assumes "entries_hold v xs"
  obtains es where "vec_holds 8 v es" "list_all entry_ok es" "map entry_pair es = xs" "v_size v = length xs"
    "length es = length xs" "length xs < UCB_NPOS"
proof -
  obtain es where es: "vec_holds 8 v es" "list_all entry_ok es" "map entry_pair es = xs"
    using assms by (auto simp: entries_hold_def)
  have "length es \<le> PTRDIFF_MAX" using vec_capacity_bound(1) [OF es(1)] vec_holds_le [OF es(1)] by simp
  then have "length xs < UCB_NPOS" using NPOS_bound es(3) by auto
  then show ?thesis using that es vec_holds_size [OF es(1)] by auto
qed

lemma entries_size: "entries_hold v xs \<Longrightarrow> v_size v = length xs"
  by (erule entries_holdE)

lemma entries_get:
  assumes "entries_hold v xs" "i < length xs"
  obtains e where "vec_get v i = Ret e" "vec_get_cell v i = Ret e" "str_ok (e_name e)" "str_ok (e_value e)"
    "tight (e_value e)" "str_text (e_name e) = fst (xs ! i)" "str_text (e_value e) = snd (xs ! i)" "entry_ok e"
proof -
  obtain es where es: "vec_holds 8 v es" "list_all entry_ok es" "map entry_pair es = xs" "length es = length xs"
    using entries_holdE [OF assms(1)] by metis
  have "entry_ok (es ! i)" using es(2,4) assms(2) by (simp add: list_all_length)
  moreover have "xs ! i = entry_pair (es ! i)" using es(3,4) assms(2) by (metis nth_map)
  moreover have "vec_get v i = Ret (es ! i)" using vec_get_spec [OF es(1)] es(4) assms(2) by simp
  moreover have "vec_get_cell v i = Ret (es ! i)" using vec_get_cell_ok [OF es(1)] es(4) assms(2) by simp
  ultimately show ?thesis by (intro that [of "es ! i"]) (auto simp: entry_ok_def entry_pair_def)
qed

lemma entries_push:
  assumes f: "\<not> fatal_returns me" and h: "entries_hold v xs" and e: "entry_ok e"
  shows "always (vec_push_back me 8 v e) (\<lambda>v'. entries_hold v' (xs @ [entry_pair e]))"
proof -
  obtain es where es: "vec_holds 8 v es" "list_all entry_ok es" "map entry_pair es = xs" using entries_holdE [OF h] by metis
  from vec_push_succeeds [OF f es(1), of e] have "always (vec_push_back me 8 v e) (\<lambda>v'. vec_holds 8 v' (es @ [e]))"
    by (simp add: succeeds_always)
  then show ?thesis by (rule always_mono) (use es e in \<open>auto simp: entries_hold_def intro!: exI [of _ "es @ [e]"]\<close>)
qed

lemma deref_spec:
  assumes "entries_hold v xs" "ref_ok xs r"
  shows "\<exists>s. deref_str v r = Ret s \<and> str_ok s \<and> str_text s = ref_text xs r"
proof (cases r)
  case (ValueOf i)
  then obtain e where "vec_get_cell v i = Ret e" "str_ok (e_value e)" "str_text (e_value e) = snd (xs ! i)"
    using entries_get [OF assms(1), of i] assms(2) by auto
  then show ?thesis using ValueOf by (simp add: deref_str_def)
qed (use assms in \<open>simp add: deref_str_def\<close>)

text \<open>The argument of a call on the value \<open>s\<close> of entry \<open>i\<close>: it is \<open>s\<close> itself or another text.\<close>

definition value_text :: "pairs \<Rightarrow> nat \<Rightarrow> byte list \<Rightarrow> str_ref \<Rightarrow> byte list" where
  "value_text xs i t r = (if r = ValueOf i then t else ref_text xs r)"

lemma value_arg_spec:
  assumes "entries_hold v xs" "ref_ok xs r" "str_ok s"
  shows "\<exists>a. value_arg v i r = Ret a \<and> arg_ok a \<and> str_text (arg_str s a) = value_text xs i (str_text s) r"
  using deref_spec [OF assms(1,2)] by (auto simp: value_arg_def arg_ok_def arg_str_def value_text_def)

lemma find_entry_spec:
  assumes "entries_hold v xs" "str_ok n"
  shows "i \<le> length xs \<Longrightarrow> find_entry v n i = Ret (if has_key (str_text n) (drop i xs)
    then i + key_index (str_text n) (drop i xs) else UCB_NPOS)"
proof (induction "length xs - i" arbitrary: i)
  case 0
  then have "drop i xs = []" "\<not> i < v_size v" by (simp_all add: entries_size [OF assms(1)])
  then show ?case by (subst find_entry.simps) simp
next
  case (Suc k)
  then have i: "i < length xs" "i < v_size v" by (simp_all add: entries_size [OF assms(1)])
  obtain e where e: "vec_get v i = Ret e" "str_ok (e_name e)" "str_text (e_name e) = fst (xs ! i)"
    using entries_get [OF assms(1) i(1)] by metis
  have "drop i xs = xs ! i # drop (i + 1) xs" using i(1) by (simp add: Cons_nth_drop_Suc)
  moreover have "find_entry v n (i + 1) = Ret (if has_key (str_text n) (drop (i + 1) xs)
      then i + 1 + key_index (str_text n) (drop (i + 1) xs) else UCB_NPOS)"
    using Suc by simp
  ultimately show ?case using i e equal_spec [OF e(2) assms(2)]
    by (subst find_entry.simps) simp
qed

lemma find_spec_em:
  assumes "em_holds em xs" "ref_ok xs n"
  shows "envmap_find em (Some n) = Ret (if has_key (ref_text xs n) xs then key_index (ref_text xs n) xs else UCB_NPOS)"
proof -
  obtain v where v: "em_entries em = Some v" "entries_hold v xs" using assms(1) by (auto simp: em_holds_def)
  obtain s where "deref_str v n = Ret s" "str_ok s" "str_text s = ref_text xs n" using deref_spec [OF v(2) assms(2)] by blast
  then show ?thesis using v find_entry_spec [OF v(2), of s 0] by (simp add: envmap_find_def)
qed

lemma find_hit:
  assumes "em_holds em xs" "has_key k xs" shows "key_index k xs < length xs" "key_index k xs \<noteq> UCB_NPOS"
proof -
  have "length xs < UCB_NPOS" using assms(1) by (auto simp: em_holds_def elim: entries_holdE)
  then show "key_index k xs < length xs" "key_index k xs \<noteq> UCB_NPOS" using key_index_less [OF assms(2)] by auto
qed

lemma put_value_spec:
  assumes h: "em_entries em = Some v" "entries_hold v xs" and i: "i < length xs" and s: "str_ok s" "tight s"
  shows "\<exists>em'. put_value em v i s = Ret em' \<and> em_holds em' (xs[i := (fst (xs ! i), str_text s)])"
proof -
  obtain es where es: "vec_holds 8 v es" "list_all entry_ok es" "map entry_pair es = xs" "length es = length xs"
    using entries_holdE [OF h(2)] by metis
  let ?e = "(es ! i)\<lparr>e_value := s\<rparr>"
  obtain v' where v': "vec_set_cell v i ?e = Ret v'" "vec_holds 8 v' (es[i := ?e])"
    using vec_set_cell_spec [OF es(1), of i ?e] i es(4) by auto
  have "entry_ok (es ! i)" using es(2,4) i by (simp add: list_all_length)
  then have "entry_ok ?e" using s by (simp add: entry_ok_def)
  then have "list_all entry_ok (es[i := ?e])" using es(2,4) i
    by (simp add: list_all_length nth_list_update)
  moreover have "xs ! i = entry_pair (es ! i)" using es(3,4) i by (metis nth_map)
  then have "map entry_pair (es[i := ?e]) = xs[i := (fst (xs ! i), str_text s)]"
    using es(3) by (simp add: map_update entry_pair_def)
  moreover have "vec_get v i = Ret (es ! i)" using vec_get_spec [OF es(1)] es(4) i by simp
  ultimately show ?thesis using v' by (auto simp: put_value_def em_holds_def entries_hold_def)
qed

section \<open>The operations\<close>

lemma clone_tight:
  assumes f: "\<not> fatal_returns me" and ok: "str_ok s"
  shows "always (ucb_str_clone me s) (\<lambda>r. \<exists>s'. r = Some s' \<and> str_ok s' \<and> tight s' \<and> str_text s' = str_text s)"
proof -
  obtain m where m: "mem_of s = Ret m" using str_mem [OF ok] by metis
  have "always (ucb_str_new me (Some m) (s_size s)) (\<lambda>r. \<exists>s'. r = Some s' \<and> str_ok s' \<and> tight s' \<and> str_text s' = str_text s)"
    by (rule always_mono [OF new_tight [OF f, of "str_text s" "s_size s" "Some m"]]) (use str_src [OF ok m] in auto)
  then show ?thesis by (simp add: ucb_str_clone_def m)
qed

lemma entry_new_spec:
  assumes f: "\<not> fatal_returns me" and ok: "str_ok n" "str_ok v"
  shows "always (envmap_entry_new me n v) (\<lambda>r. case r of None \<Rightarrow> \<not> granted me sizeof_entry
    | Some e \<Rightarrow> entry_ok e \<and> entry_pair e = (str_text n, str_text v))"
proof (cases "granted me sizeof_entry")
  case True
  show ?thesis unfolding envmap_entry_new_def using True
    by (simp add: always_rbind) (rule always_mono [OF clone_tight [OF f ok(1)]], clarsimp simp: always_rbind,
      rule always_mono [OF clone_tight [OF f ok(2)]], clarsimp simp: entry_ok_def entry_pair_def)
qed (simp add: envmap_entry_new_def)

lemma em_holds_push:
  assumes f: "\<not> fatal_returns me" and h: "entries_hold v xs" and e: "entry_ok e" "entry_pair e = (k, t)"
  shows "always (rbind (vec_push_back me 8 v e) (\<lambda>v. Ret (True, em\<lparr>em_entries := Some v\<rparr>)))
    (\<lambda>(ok, em'). ok \<and> em_holds em' (xs @ [(k, t)]))"
  by (rule always_bind [OF entries_push [OF f h e(1)]]) (use e(2) in \<open>auto simp: em_holds_def\<close>)

text \<open>Setting: the first entry of the name is overwritten, else a new one is put at the end.\<close>

lemma em_set_spec:
  assumes f: "\<not> fatal_returns me" and h: "em_holds em xs" and r: "ref_ok xs n" "ref_ok xs val"
  shows "always (ucb_envmap_set me em (Some n) (Some val)) (\<lambda>(ok, em').
    (ok \<longrightarrow> em_holds em' (AList.update (ref_text xs n) (ref_text xs val) xs))
    \<and> (\<not> ok \<longrightarrow> em' = em \<and> \<not> granted me sizeof_entry))"
proof -
  let ?k = "ref_text xs n"
  obtain v where v: "em_entries em = Some v" "entries_hold v xs" using h by (auto simp: em_holds_def)
  obtain sn where sn: "deref_str v n = Ret sn" "str_ok sn" "str_text sn = ?k" using deref_spec [OF v(2) r(1)] by blast
  obtain sv where sv: "deref_str v val = Ret sv" "str_ok sv" "str_text sv = ref_text xs val" using deref_spec [OF v(2) r(2)] by blast
  show ?thesis
  proof (cases "has_key ?k xs")
    case True
    let ?i = "key_index ?k xs"
    note i = find_hit [OF h True]
    obtain e where e: "vec_get v ?i = Ret e" "str_ok (e_value e)" "tight (e_value e)" "str_text (e_value e) = snd (xs ! ?i)"
      using entries_get [OF v(2) i(1)] by metis
    obtain a where a: "value_arg v ?i val = Ret a" "arg_ok a"
        "str_text (arg_str (e_value e) a) = value_text xs ?i (snd (xs ! ?i)) val"
      using value_arg_spec [OF v(2) r(2) e(2)] e(4) by metis
    have t: "value_text xs ?i (snd (xs ! ?i)) val = ref_text xs val" by (auto simp: value_text_def)
    have "always (rbind (ucb_str_copy me (e_value e) a) (\<lambda>(ok, s). rbind (put_value em v ?i s) (\<lambda>em. Ret (ok, em))))
        (\<lambda>(ok, em'). ok \<and> em_holds em' (AList.update ?k (ref_text xs val) xs))"
    proof (rule always_bind_ok [OF copy_spec [OF f e(2) a(2)]])
      fix s
      assume s: "str_ok s \<and> str_text s = str_text (arg_str (e_value e) a) \<and> (tight (e_value e) \<longrightarrow> tight s)"
      obtain em' where "put_value em v ?i s = Ret em'" "em_holds em' (xs[?i := (fst (xs ! ?i), str_text s)])"
        using put_value_spec [OF v i(1)] s e(3) by blast
      then show "always (case (True, s) of (ok, s) \<Rightarrow> rbind (put_value em v ?i s) (\<lambda>em. Ret (ok, em)))
          (\<lambda>(ok, em'). ok \<and> em_holds em' (AList.update ?k (ref_text xs val) xs))"
        using s a(3) t True key_index_nth [OF True] by (simp add: update_eq)
    qed
    then show ?thesis using v find_spec_em [OF h r(1)] True i(2) e(1) a(1)
      by (simp add: ucb_envmap_set_def) (erule always_mono, auto)
  next
    case False
    have "always (rbind (envmap_entry_new me sn sv) (\<lambda>entry. case entry of
              None \<Rightarrow> Ret (False, em)
            | Some entry \<Rightarrow> rbind (vec_push_back me 8 v entry) (\<lambda>v. Ret (True, em\<lparr>em_entries := Some v\<rparr>))))
        (\<lambda>(ok, em'). (ok \<longrightarrow> em_holds em' (xs @ [(?k, ref_text xs val)])) \<and> (\<not> ok \<longrightarrow> em' = em \<and> \<not> granted me sizeof_entry))"
    proof (rule always_bind [OF entry_new_spec [OF f sn(2) sv(2)]])
      fix r
      assume r: "case r of None \<Rightarrow> \<not> granted me sizeof_entry
        | Some e \<Rightarrow> entry_ok e \<and> entry_pair e = (str_text sn, str_text sv)"
      show "always (case r of None \<Rightarrow> Ret (False, em)
            | Some entry \<Rightarrow> rbind (vec_push_back me 8 v entry) (\<lambda>v. Ret (True, em\<lparr>em_entries := Some v\<rparr>)))
        (\<lambda>(ok, em'). (ok \<longrightarrow> em_holds em' (xs @ [(?k, ref_text xs val)])) \<and> (\<not> ok \<longrightarrow> em' = em \<and> \<not> granted me sizeof_entry))"
      proof (cases r)
        case (Some e)
        then show ?thesis using em_holds_push [OF f v(2), of e "str_text sn" "str_text sv" em] r sn(3) sv(3)
          by simp (erule always_mono, auto)
      qed (use r in simp)
    qed
    then show ?thesis using v find_spec_em [OF h r(1)] False sn(1) sv(1) by (simp add: ucb_envmap_set_def update_eq)
  qed
qed

lemma entry_free_ok: "entry_ok e \<Longrightarrow> envmap_entry_free e = Ret ()"
  by (simp add: envmap_entry_free_def entry_ok_def str_release_ok)

lemma em_unset_spec:
  assumes h: "em_holds em xs" and r: "ref_ok xs n"
  shows "\<exists>em'. ucb_envmap_unset em (Some n) = Ret (has_key (ref_text xs n) xs, em')
    \<and> em_holds em' (delete_first (ref_text xs n) xs)"
proof -
  let ?k = "ref_text xs n"
  obtain v where v: "em_entries em = Some v" "entries_hold v xs" using h by (auto simp: em_holds_def)
  show ?thesis
  proof (cases "has_key ?k xs")
    case True
    let ?i = "key_index ?k xs"
    note i = find_hit [OF h True]
    obtain es where es: "vec_holds 8 v es" "list_all entry_ok es" "map entry_pair es = xs" "length es = length xs"
      using entries_holdE [OF v(2)] by metis
    obtain v' where v': "vec_remove v ?i = Ret (es ! ?i, v')" "vec_holds 8 v' (take ?i es @ drop (?i + 1) es)"
      using vec_remove_spec [OF es(1), of ?i] i(1) es(4) by auto
    have "entry_ok (es ! ?i)" using es(2,4) i(1) by (simp add: list_all_length)
    moreover have "list_all entry_ok (take ?i es @ drop (?i + 1) es)"
      using es(2) by (auto simp: list_all_iff dest: in_set_takeD in_set_dropD)
    then have "entries_hold v' (delete_first ?k xs)"
      using v'(2) es(3) by (auto simp: entries_hold_def delete_first_def take_map drop_map)
    ultimately show ?thesis using v v'(1) True find_spec_em [OF h r] i(2)
      by (auto simp: ucb_envmap_unset_def entry_free_ok em_holds_def)
  next
    case False
    then have "delete_first ?k xs = xs" by (rule delete_first_absent)
    then show ?thesis using v h False find_spec_em [OF h r] by (simp add: ucb_envmap_unset_def)
  qed
qed

lemma em_get_spec:
  assumes h: "em_holds em xs" and r: "ref_ok xs n"
  shows "ucb_envmap_get em (Some n) = Ret (if has_key (ref_text xs n) xs
      then Some (ValueOf (key_index (ref_text xs n) xs)) else None)"
    "ucb_envmap_has em (Some n) = Ret (has_key (ref_text xs n) xs)"
proof -
  obtain v where v: "em_entries em = Some v" "entries_hold v xs" using h by (auto simp: em_holds_def)
  show "ucb_envmap_has em (Some n) = Ret (has_key (ref_text xs n) xs)"
    using find_spec_em [OF h r] find_hit(2) [OF h, of "ref_text xs n"] by (simp add: ucb_envmap_has_def)
  show "ucb_envmap_get em (Some n) = Ret (if has_key (ref_text xs n) xs
      then Some (ValueOf (key_index (ref_text xs n) xs)) else None)"
  proof (cases "has_key (ref_text xs n) xs")
    case True
    then show ?thesis using v find_spec_em [OF h r] find_hit [OF h True] entries_get [OF v(2), of "key_index (ref_text xs n) xs"]
      by (auto simp: ucb_envmap_get_def)
  qed (use find_spec_em [OF h r] in \<open>simp add: ucb_envmap_get_def\<close>)
qed

text \<open>
  Appending. The separator is skipped when there is no text before it; an argument that is the
  value of the entry itself is read when its turn comes.
\<close>

definition append_sep :: "pairs \<Rightarrow> nat \<Rightarrow> byte list \<Rightarrow> str_ref option \<Rightarrow> byte list" where
  "append_sep xs i old sep =
     (case sep of None \<Rightarrow> old | Some r \<Rightarrow> if old = [] then old else old @ value_text xs i old r)"

definition appended :: "pairs \<Rightarrow> byte list \<Rightarrow> str_ref \<Rightarrow> str_ref option \<Rightarrow> byte list" where
  "appended xs k val sep =
     (case map_of xs k of None \<Rightarrow> ref_text xs val
      | Some old \<Rightarrow> let i = key_index k xs; s = append_sep xs i old sep in s @ value_text xs i s val)"

definition prepended :: "pairs \<Rightarrow> byte list \<Rightarrow> str_ref \<Rightarrow> str_ref option \<Rightarrow> byte list" where
  "prepended xs k val sep =
     (case map_of xs k of None \<Rightarrow> ref_text xs val
      | Some old \<Rightarrow> ref_text xs val
          @ (case sep of None \<Rightarrow> [] | Some r \<Rightarrow> if old = [] then [] else ref_text xs r) @ old)"

lemma is_empty_text: "str_ok s \<Longrightarrow> ucb_str_is_empty s \<longleftrightarrow> str_text s = []"
  using str_fits [of s] by (auto simp: ucb_str_is_empty_def)

lemma append_arg_spec:
  assumes f: "\<not> fatal_returns me" and v: "entries_hold v xs" "ref_ok xs r" and s: "str_ok s" "tight s"
  shows "always (rbind (value_arg v i r) (\<lambda>arg. ucb_str_append me s arg))
    (\<lambda>s'. str_ok s' \<and> tight s' \<and> str_text s' = str_text s @ value_text xs i (str_text s) r)"
proof -
  obtain a where "value_arg v i r = Ret a" "arg_ok a" "str_text (arg_str s a) = value_text xs i (str_text s) r"
    using value_arg_spec [OF v s(1)] by blast
  then show ?thesis using append_tight [OF f s, of a] by simp
qed

lemma em_append_spec:
  assumes f: "\<not> fatal_returns me" and h: "em_holds em xs" and r: "ref_ok xs n" "ref_ok xs val" "pred_option (ref_ok xs) sep"
  shows "always (ucb_envmap_append me em (Some n) (Some val) sep) (\<lambda>(ok, em').
    (ok \<longrightarrow> em_holds em' (AList.update (ref_text xs n) (appended xs (ref_text xs n) val sep) xs))
    \<and> (\<not> ok \<longrightarrow> em' = em \<and> \<not> granted me sizeof_entry))"
proof -
  let ?k = "ref_text xs n"
  obtain v where v: "em_entries em = Some v" "entries_hold v xs" using h by (auto simp: em_holds_def)
  show ?thesis
  proof (cases "has_key ?k xs")
    case True
    let ?i = "key_index ?k xs" and ?old = "snd (xs ! key_index ?k xs)"
    note i = find_hit [OF h True]
    note k = key_index_nth [OF True]
    obtain e where e: "vec_get v ?i = Ret e" "str_ok (e_value e)" "tight (e_value e)" "str_text (e_value e) = ?old"
      using entries_get [OF v(2) i(1)] by metis
    let ?m = "case sep of
                     Some sep \<Rightarrow>
                       if \<not> ucb_str_is_empty (e_value e)
                       then rbind (value_arg v ?i sep) (\<lambda>arg. ucb_str_append me (e_value e) arg)
                       else Ret (e_value e)
                   | None \<Rightarrow> Ret (e_value e)"
    let ?rest = "\<lambda>s. rbind (value_arg v ?i val) (\<lambda>arg. rbind (ucb_str_append me s arg) (\<lambda>s.
            rbind (put_value em v ?i s) (\<lambda>em. Ret (True, em))))"
    have m: "always ?m (\<lambda>s. str_ok s \<and> tight s \<and> str_text s = append_sep xs ?i ?old sep)"
    proof (cases sep)
      case (Some q)
      then show ?thesis
        using append_arg_spec [OF f v(2) _ e(2,3), of q ?i] r(3) e is_empty_text [OF e(2)]
        by (simp add: append_sep_def)
    qed (use e in \<open>simp add: append_sep_def\<close>)
    have "always (rbind ?m ?rest) (\<lambda>(ok, em'). ok \<and> em_holds em' (AList.update ?k (appended xs ?k val sep) xs))"
    proof (rule always_bind [OF m], elim conjE)
      fix s
      assume s: "str_ok s" "tight s" "str_text s = append_sep xs ?i ?old sep"
      have "always (rbind (rbind (value_arg v ?i val) (\<lambda>arg. ucb_str_append me s arg))
          (\<lambda>s. rbind (put_value em v ?i s) (\<lambda>em. Ret (True, em))))
        (\<lambda>(ok, em'). ok \<and> em_holds em' (AList.update ?k (appended xs ?k val sep) xs))"
      proof (rule always_bind [OF append_arg_spec [OF f v(2) r(2) s(1,2)]], elim conjE)
        fix s'
        assume s': "str_ok s'" "tight s'" "str_text s' = str_text s @ value_text xs ?i (str_text s) val"
        obtain em' where "put_value em v ?i s' = Ret em'" "em_holds em' (xs[?i := (fst (xs ! ?i), str_text s')])"
          using put_value_spec [OF v i(1) s'(1,2)] by blast
        then show "always (rbind (put_value em v ?i s') (\<lambda>em. Ret (True, em)))
            (\<lambda>(ok, em'). ok \<and> em_holds em' (AList.update ?k (appended xs ?k val sep) xs))"
          using s(3) s'(3) True k by (simp add: update_eq appended_def Let_def)
      qed
      then show "always (?rest s) (\<lambda>(ok, em'). ok \<and> em_holds em' (AList.update ?k (appended xs ?k val sep) xs))"
        by (simp add: rbind_assoc)
    qed
    then show ?thesis using v find_spec_em [OF h r(1)] True i(2) e(1)
      by (simp add: ucb_envmap_append_def) (erule always_mono, auto)
  next
    case False
    then have "appended xs ?k val sep = ref_text xs val" by (simp add: appended_def has_key_map_of)
    then show ?thesis using v find_spec_em [OF h r(1)] False em_set_spec [OF f h r(1,2)]
      by (simp add: ucb_envmap_append_def)
  qed
qed

lemma em_prepend_spec:
  assumes f: "\<not> fatal_returns me" and h: "em_holds em xs" and r: "ref_ok xs n" "ref_ok xs val" "pred_option (ref_ok xs) sep"
  shows "always (ucb_envmap_prepend me em (Some n) (Some val) sep) (\<lambda>(ok, em').
    (ok \<longrightarrow> em_holds em' (AList.update (ref_text xs n) (prepended xs (ref_text xs n) val sep) xs))
    \<and> (\<not> ok \<longrightarrow> em' = em \<and> \<not> granted me sizeof_entry))"
proof -
  let ?k = "ref_text xs n"
  obtain v where v: "em_entries em = Some v" "entries_hold v xs" using h by (auto simp: em_holds_def)
  show ?thesis
  proof (cases "has_key ?k xs")
    case True
    let ?i = "key_index ?k xs" and ?old = "snd (xs ! key_index ?k xs)"
    let ?Q = "\<lambda>(ok, em'). ok \<and> em_holds em' (AList.update ?k (prepended xs ?k val sep) xs)"
    note i = find_hit [OF h True]
    note k = key_index_nth [OF True]
    obtain e where e: "vec_get v ?i = Ret e" "str_ok (e_value e)" "tight (e_value e)" "str_text (e_value e) = ?old"
      using entries_get [OF v(2) i(1)] by metis
    obtain sv where sv: "deref_str v val = Ret sv" "str_ok sv" "str_text sv = ref_text xs val"
      using deref_spec [OF v(2) r(2)] by blast
    obtain m where m: "mem_of sv = Ret m" using str_mem [OF sv(2)] by metis
    let ?sep = "\<lambda>new_val. case sep of
                       Some sep \<Rightarrow>
                         if \<not> ucb_str_is_empty (e_value e)
                         then rbind (deref_str v sep) (\<lambda>sep. ucb_str_append me new_val (OtherArg sep))
                         else Ret new_val
                     | None \<Rightarrow> Ret new_val"
    let ?rest = "\<lambda>new_val. rbind (ucb_str_append me new_val (OtherArg (e_value e))) (\<lambda>new_val.
              rbind (ucb_str_copy me (e_value e) (OtherArg new_val)) (\<lambda>(ok, s).
              rbind (ucb_str_release new_val) (\<lambda>_.
              rbind (put_value em v ?i s) (\<lambda>em. Ret (ok, em)))))"
    let ?st = "case sep of None \<Rightarrow> [] | Some r \<Rightarrow> if ?old = [] then [] else ref_text xs r"
    have sep: "always (?sep s) (\<lambda>s'. str_ok s' \<and> tight s' \<and> str_text s' = str_text s @ ?st)"
      if s: "str_ok s" "tight s" for s
    proof (cases sep)
      case (Some q)
      then obtain t where t: "deref_str v q = Ret t" "str_ok t" "str_text t = ref_text xs q"
        using deref_spec [OF v(2), of q] r(3) by auto
      then show ?thesis
        using Some append_tight [OF f s, of "OtherArg t"] is_empty_text [OF e(2)] e(4) s
        by (simp add: arg_ok_def arg_str_def)
    qed (use s in simp)
    have rest: "always (?rest s) ?Q" if s: "str_ok s" "tight s" "str_text s = ref_text xs val @ ?st" for s
    proof (rule always_bind [OF append_tight [OF f s(1,2), of "OtherArg (e_value e)"]], use e(2) in \<open>simp add: arg_ok_def\<close>, elim conjE)
      fix s'
      assume s': "str_ok s'" "tight s'" "str_text s' = str_text s @ str_text (arg_str s (OtherArg (e_value e)))"
      then have t: "str_text s' = prepended xs ?k val sep" using s(3) e(4) k by (simp add: arg_str_def prepended_def)
      show "always (rbind (ucb_str_copy me (e_value e) (OtherArg s')) (\<lambda>(ok, s).
              rbind (ucb_str_release s') (\<lambda>_. rbind (put_value em v ?i s) (\<lambda>em. Ret (ok, em))))) ?Q"
      proof (rule always_bind_ok [OF copy_spec [OF f e(2), of "OtherArg s'"]], use s'(1) in \<open>simp add: arg_ok_def\<close>, elim conjE)
        fix u
        assume u: "str_ok u" "str_text u = str_text (arg_str (e_value e) (OtherArg s'))" "tight (e_value e) \<longrightarrow> tight u"
        obtain em' where "put_value em v ?i u = Ret em'" "em_holds em' (xs[?i := (fst (xs ! ?i), str_text u)])"
          using put_value_spec [OF v i(1) u(1)] u(3) e(3) by blast
        then show "always (case (True, u) of (ok, s) \<Rightarrow>
            rbind (ucb_str_release s') (\<lambda>_. rbind (put_value em v ?i s) (\<lambda>em. Ret (ok, em)))) ?Q"
          using u(2) t k True str_release_ok(2) [OF s'(1)] by (simp add: arg_str_def update_eq)
      qed
    qed
    have "always (rbind (ucb_str_init me str_empty (Some m) (s_size sv)) (\<lambda>(ok, new_val).
            if \<not> ok then Ret (False, em) else rbind (?sep new_val) ?rest)) ?Q"
    proof (rule always_bind_ok [OF init_tight [OF f sv(2) m]], elim conjE)
      fix s
      assume s: "str_ok s" "tight s" "str_text s = str_text sv"
      have "always (rbind (?sep s) ?rest) ?Q"
        by (rule always_bind [OF sep [OF s(1,2)]]) (rule rest, use s(3) sv(3) in auto)
      then show "always (case (True, s) of (ok, new_val) \<Rightarrow> if \<not> ok then Ret (False, em) else rbind (?sep new_val) ?rest) ?Q"
        by simp
    qed
    then show ?thesis using v find_spec_em [OF h r(1)] True i(2) e(1) sv(1) m
      by (simp add: ucb_envmap_prepend_def) (erule always_mono, auto)
  next
    case False
    then have "prepended xs ?k val sep = ref_text xs val" by (simp add: prepended_def has_key_map_of)
    then show ?thesis using v find_spec_em [OF h r(1)] False em_set_spec [OF f h r(1,2)]
      by (simp add: ucb_envmap_prepend_def)
  qed
qed

end
