(* ===== verification/Envmap_Props.thy ===== *)
theory Envmap_Props
  imports Envmap_Spec
begin

text \<open>
  What the environment map promises: it is a finite map from names to values under any sequence of
  updates, its array for a child process reads back as the same map, and applying it changes
  exactly its variables. Copying a map to itself empties it, and names that occur twice in the
  environment are not removed at once.
\<close>

section \<open>Life cycle\<close>

lemma em_new_spec:
  assumes "\<not> fatal_returns me"
  shows "always (ucb_envmap_new me) (\<lambda>r. case r of None \<Rightarrow> \<not> granted me sizeof_envmap | Some em \<Rightarrow> em_holds em [])"
  using assms vec_zero_holds [of 8]
  by (auto simp: ucb_envmap_new_def vec_new_def ucb_calloc_def ucb_fatal_oom_def sizeof_vector_def em_holds_def entries_hold_def)

lemma free_entries_ok:
  assumes h: "entries_hold v xs" shows "free_entries v i = Ret ()"
proof (induction "length xs - i" arbitrary: i)
  case 0
  then show ?case by (subst free_entries.simps) (simp add: entries_size [OF h])
next
  case (Suc k)
  then have "i < length xs" by simp
  from entries_get [OF h this] obtain e where "vec_get v i = Ret e" "entry_ok e" by metis
  then show ?case using Suc by (subst free_entries.simps) (simp add: entry_free_ok)
qed

lemma entries_not_dangling: "entries_hold v xs \<Longrightarrow> v_data v \<noteq> VDangling"
  by (auto simp: entries_hold_def vec_holds_def)

lemma em_entries_free_ok: "em_holds em xs \<Longrightarrow> envmap_entries_free em = Ret (em\<lparr>em_entries := None\<rparr>)"
  by (auto simp: em_holds_def envmap_entries_free_def free_entries_ok vec_free_def dest: entries_not_dangling)

lemma new_entries:
  "\<not> fatal_returns me \<Longrightarrow> always (vec_new me) (\<lambda>r. \<exists>v. r = Some v \<and> entries_hold v [])"
  using vec_zero_holds [of 8]
  by (auto simp: vec_new_def ucb_calloc_def ucb_fatal_oom_def sizeof_vector_def entries_hold_def)

lemma entry_clone_spec:
  assumes "\<not> fatal_returns me" "entry_ok e" "granted me sizeof_entry"
  shows "always (envmap_entry_clone me e) (\<lambda>r. \<exists>c. r = Some c \<and> entry_ok c \<and> entry_pair c = entry_pair e)"
  unfolding envmap_entry_clone_def
  by (rule always_mono [OF entry_new_spec [OF assms(1)]])
    (use assms(2,3) in \<open>auto simp: entry_ok_def entry_pair_def split: option.splits\<close>)

lemma copy_entries_spec:
  assumes f: "\<not> fatal_returns me" and g: "granted me sizeof_entry" and h: "entries_hold src xs"
  shows "i \<le> length xs \<Longrightarrow> entries_hold dst (take i xs) \<Longrightarrow> always (copy_entries me dst src i) (\<lambda>v. entries_hold v xs)"
proof (induction "length xs - i" arbitrary: i dst)
  case 0
  then show ?case by (subst copy_entries.simps) (simp add: entries_size [OF h])
next
  case (Suc k)
  then have i: "i < length xs" by simp
  then obtain e where e: "vec_get src i = Ret e" "entry_ok e" "xs ! i = entry_pair e"
    using entries_get [OF h, of i] by (metis entry_pair_def prod.collapse)
  have t: "take (i + 1) xs = take i xs @ [entry_pair e]" using i e(3) by (simp add: take_Suc_conv_app_nth)
  have "always (rbind (envmap_entry_clone me e) (\<lambda>cloned.
           rbind (case cloned of None \<Rightarrow> Ret dst | Some c \<Rightarrow> vec_push_back me 8 dst c) (\<lambda>dst.
           copy_entries me dst src (i + 1)))) (\<lambda>v. entries_hold v xs)"
  proof (rule always_bind [OF entry_clone_spec [OF f e(2) g]], elim exE conjE)
    fix r c
    assume c: "r = Some c" "entry_ok c" "entry_pair c = entry_pair e"
    show "always (rbind (case r of None \<Rightarrow> Ret dst | Some c \<Rightarrow> vec_push_back me 8 dst c) (\<lambda>dst.
           copy_entries me dst src (i + 1))) (\<lambda>v. entries_hold v xs)"
      using always_bind [OF entries_push [OF f Suc.prems(2) c(2)], of "\<lambda>dst. copy_entries me dst src (i + 1)"]
        Suc.hyps(1) [of "i + 1"] Suc.hyps(2) i c t by simp
  qed
  then show ?case using i e(1) by (subst copy_entries.simps) (simp add: entries_size [OF h])
qed

lemma em_copy_spec:
  assumes f: "\<not> fatal_returns me" and g: "granted me sizeof_entry" and d: "em_holds dst ys" and s: "em_holds src xs"
  shows "always (ucb_envmap_copy me dst (OtherMap src)) (\<lambda>em. em_holds em xs)"
proof -
  obtain sv where sv: "em_entries src = Some sv" "entries_hold sv xs" using s by (auto simp: em_holds_def)
  have "always (rbind (vec_new me) (\<lambda>v. case v of
            None \<Rightarrow> Ret (dst\<lparr>em_entries := None\<rparr>)
          | Some v \<Rightarrow> rbind (copy_entries me v sv 0) (\<lambda>v. Ret (dst\<lparr>em_entries := Some v\<rparr>))))
      (\<lambda>em. em_holds em xs)"
  proof (rule always_bind [OF new_entries [OF f]], elim exE conjE)
    fix r v
    assume v: "r = Some v" "entries_hold v []"
    show "always (case r of None \<Rightarrow> Ret (dst\<lparr>em_entries := None\<rparr>)
          | Some v \<Rightarrow> rbind (copy_entries me v sv 0) (\<lambda>v. Ret (dst\<lparr>em_entries := Some v\<rparr>))) (\<lambda>em. em_holds em xs)"
      using always_bind [OF copy_entries_spec [OF f g sv(2), of 0 v], of "\<lambda>v. Ret (dst\<lparr>em_entries := Some v\<rparr>)"] v
      by (simp add: em_holds_def)
  qed
  then show ?thesis using sv(1) em_entries_free_ok [OF d] by (simp add: ucb_envmap_copy_def cong: option.case_cong)
qed

lemma copy_to_itself:
  assumes f: "\<not> fatal_returns me" and h: "em_holds em xs"
  shows "always (ucb_envmap_copy me em SelfMap) (\<lambda>em'. em_holds em' [])"
proof -
  obtain sv where sv: "em_entries em = Some sv" using h by (auto simp: em_holds_def)
  have "always (rbind (vec_new me) (\<lambda>v. case v of
            None \<Rightarrow> Ret (em\<lparr>em_entries := None\<rparr>)
          | Some v \<Rightarrow> rbind (copy_entries me v v 0) (\<lambda>v. Ret (em\<lparr>em_entries := Some v\<rparr>))))
      (\<lambda>em. em_holds em [])"
  proof (rule always_bind [OF new_entries [OF f]], elim exE conjE)
    fix r v
    assume v: "r = Some v" "entries_hold v []"
    have "copy_entries me v v 0 = Ret v" by (subst copy_entries.simps) (simp add: entries_size [OF v(2)])
    then show "always (case r of None \<Rightarrow> Ret (em\<lparr>em_entries := None\<rparr>)
          | Some v \<Rightarrow> rbind (copy_entries me v v 0) (\<lambda>v. Ret (em\<lparr>em_entries := Some v\<rparr>))) (\<lambda>em. em_holds em [])"
      using v by (simp add: em_holds_def)
  qed
  then show ?thesis using sv em_entries_free_ok [OF h] by (simp add: ucb_envmap_copy_def cong: option.case_cong)
qed

section \<open>The environment of the process\<close>

text \<open>The entry a string of the environment stands for: none without a name.\<close>

definition split_nv :: "byte list \<Rightarrow> (byte list \<times> byte list) option" where
  "split_nv nv =
     (let k = takeWhile (\<lambda>b. b \<noteq> EQ_SIGN) nv in
      if k = [] \<or> length k = length nv then None else Some (k, drop (length k + 1) nv))"

definition environ_pairs :: "environ \<Rightarrow> pairs" where
  "environ_pairs env = List.map_filter split_nv env"

lemma environ_pairs_Cons: "environ_pairs (nv # env) = (case split_nv nv of None \<Rightarrow> [] | Some p \<Rightarrow> [p]) @ environ_pairs env"
  by (simp add: environ_pairs_def map_filter_simps split: option.splits)

lemma split_env_string: "\<not> bad_name k \<Longrightarrow> split_nv (env_string k t) = Some (k, t)"
  by (simp add: split_nv_def env_string_def bad_name_def takeWhile_eq_sign)

lemma environ_pairs_strings: "(\<forall>(k, t) \<in> set xs. \<not> bad_name k) \<Longrightarrow> environ_pairs (map (\<lambda>(k, t). env_string k t) xs) = xs"
  by (induction xs) (auto simp: environ_pairs_Cons split_env_string environ_pairs_def map_filter_simps)

lemma make_entry_spec:
  assumes f: "\<not> fatal_returns me" and s: "src_text m1 l1 k" "src_text m2 l2 t"
  shows "always (rbind (ucb_str_new me (Some m1) l1) (\<lambda>name. case name of
             None \<Rightarrow> Ret None
           | Some name \<Rightarrow>
               rbind (ucb_str_new me (Some m2) l2) (\<lambda>val. case val of
                 None \<Rightarrow> rbind (ucb_str_free (Some name)) (\<lambda>_. Ret None)
               | Some val \<Rightarrow> Ret (Some \<lparr>e_name = name, e_value = val\<rparr>))))
        (\<lambda>r. \<exists>e. r = Some e \<and> entry_ok e \<and> entry_pair e = (k, t))"
proof -
  have n: "always (ucb_str_new me (Some m1) l1) (\<lambda>r. \<exists>s. r = Some s \<and> str_ok s \<and> str_text s = k)"
    by (rule always_mono [OF new_tight [OF f, of k l1 "Some m1"]]) (use s(1) in auto)
  have v: "always (ucb_str_new me (Some m2) l2) (\<lambda>r. \<exists>s. r = Some s \<and> str_ok s \<and> tight s \<and> str_text s = t)"
    by (rule always_mono [OF new_tight [OF f, of t l2 "Some m2"]]) (use s(2) in auto)
  show ?thesis
  proof (rule always_bind [OF n], elim exE conjE)
    fix r n
    assume n: "r = Some n" "str_ok n" "str_text n = k"
    show "always (case r of None \<Rightarrow> Ret None | Some name \<Rightarrow>
               rbind (ucb_str_new me (Some m2) l2) (\<lambda>val. case val of
                 None \<Rightarrow> rbind (ucb_str_free (Some name)) (\<lambda>_. Ret None)
               | Some val \<Rightarrow> Ret (Some \<lparr>e_name = name, e_value = val\<rparr>)))
        (\<lambda>r. \<exists>e. r = Some e \<and> entry_ok e \<and> entry_pair e = (k, t))"
      unfolding n(1) option.case
      by (rule always_bind [OF v]) (use n in \<open>auto simp: entry_ok_def entry_pair_def\<close>)
  qed
qed

lemma from_nv_spec:
  assumes f: "\<not> fatal_returns me" and g: "granted me sizeof_entry" and z: "0 \<notin> set nv" "length nv < PTRDIFF_MAX"
  shows "always (envmap_entry_from_nv me (nv @ [0])) (\<lambda>r. case r of None \<Rightarrow> split_nv nv = None
    | Some e \<Rightarrow> entry_ok e \<and> split_nv nv = Some (entry_pair e))"
proof -
  let ?k = "takeWhile (\<lambda>b. b \<noteq> EQ_SIGN) nv"
  let ?t = "drop (length ?k + 1) nv"
  have le: "length ?k \<le> length nv" by (rule length_takeWhile_le)
  have n: "c_strlen (nv @ [0]) = Ret (length nv)" using z(1) by (rule c_strlen_term)
  then have eq: "strchr_eq (nv @ [0]) = Ret (if length ?k < length nv then Some (length ?k) else None)"
    by (simp add: strchr_eq_def Let_def)
  show ?thesis
  proof (cases "?k = [] \<or> length ?k = length nv")
    case True
    then have "split_nv nv = None" by (simp add: split_nv_def Let_def)
    moreover have "length ?k = 0 \<or> \<not> length ?k < length nv" using True by auto
    ultimately show ?thesis unfolding envmap_entry_from_nv_def eq by auto
  next
    case False
    then have k: "length ?k \<noteq> 0" "length ?k < length nv" using le by auto
    have sp: "split_nv nv = Some (?k, ?t)" using False by (simp add: split_nv_def Let_def)
    have tk: "take (length ?k) nv = ?k" by (rule takeWhile_eq_take [symmetric])
    have s1: "src_text (nv @ [0]) (length ?k) ?k" using k z(2) tk by (simp add: src_text_def)
    have d: "drop (length ?k + 1) (nv @ [0]) = ?t @ [0]" using k by simp
    have zt: "0 \<notin> set ?t" "length ?t < PTRDIFF_MAX" using z by (auto dest: in_set_dropD)
    have vl: "usub (usub (length nv) (length ?k)) 1 = length ?t"
      using k z(2) by (simp add: PTRDIFF_MAX_def SIZE_MAX_def)
    have s2: "src_text (?t @ [0]) (length ?t) ?t"
      using src_cstring [OF zt] zt by (cases "?t = []") (simp_all add: src_text_def)
    have "always (rbind (ucb_str_new me (Some (nv @ [0])) (length ?k)) (\<lambda>name. case name of
             None \<Rightarrow> Ret None
           | Some name \<Rightarrow>
               rbind (ucb_str_new me (Some (?t @ [0])) (length ?t)) (\<lambda>val. case val of
                 None \<Rightarrow> rbind (ucb_str_free (Some name)) (\<lambda>_. Ret None)
               | Some val \<Rightarrow> Ret (Some \<lparr>e_name = name, e_value = val\<rparr>))))
        (\<lambda>r. \<exists>e. r = Some e \<and> entry_ok e \<and> entry_pair e = (?k, ?t))"
      by (rule make_entry_spec [OF f s1 s2])
    then have "always (envmap_entry_from_nv me (nv @ [0])) (\<lambda>r. \<exists>e. r = Some e \<and> entry_ok e \<and> entry_pair e = (?k, ?t))"
      unfolding envmap_entry_from_nv_def eq using k g n vl d by (simp add: Let_def cong: option.case_cong)
    then show ?thesis by (rule always_mono) (auto simp: sp)
  qed
qed

lemma push_environ_spec:
  assumes f: "\<not> fatal_returns me" and g: "granted me sizeof_entry"
  shows "environ_ok env \<Longrightarrow> entries_hold v xs \<Longrightarrow> always (push_environ me v env) (\<lambda>v'. entries_hold v' (xs @ environ_pairs env))"
proof (induction env arbitrary: v xs)
  case Nil
  then show ?case by (simp add: environ_pairs_def map_filter_simps)
next
  case (Cons nv env)
  then have z: "0 \<notin> set nv" "length nv < PTRDIFF_MAX" "environ_ok env" by (auto simp: environ_ok_def)
  have "always (rbind (envmap_entry_from_nv me (nv @ [0])) (\<lambda>entry.
     rbind (case entry of None \<Rightarrow> Ret v | Some entry \<Rightarrow> vec_push_back me 8 v entry) (\<lambda>v.
     push_environ me v env))) (\<lambda>v'. entries_hold v' (xs @ environ_pairs (nv # env)))"
  proof (rule always_bind [OF from_nv_spec [OF f g z(1,2)]])
    fix r
    assume r: "case r of None \<Rightarrow> split_nv nv = None | Some e \<Rightarrow> entry_ok e \<and> split_nv nv = Some (entry_pair e)"
    show "always (rbind (case r of None \<Rightarrow> Ret v | Some entry \<Rightarrow> vec_push_back me 8 v entry) (\<lambda>v.
       push_environ me v env)) (\<lambda>v'. entries_hold v' (xs @ environ_pairs (nv # env)))"
    proof (cases r)
      case None
      then show ?thesis using r Cons.IH [OF z(3) Cons.prems(2)] by (simp add: environ_pairs_Cons)
    next
      case (Some e)
      then have e: "entry_ok e" "split_nv nv = Some (entry_pair e)" using r by auto
      have "always (rbind (vec_push_back me 8 v e) (\<lambda>v. push_environ me v env))
          (\<lambda>v'. entries_hold v' ((xs @ [entry_pair e]) @ environ_pairs env))"
        by (rule always_bind [OF entries_push [OF f Cons.prems(2) e(1)]]) (rule Cons.IH [OF z(3)])
      then show ?thesis using Some e(2) by (simp add: environ_pairs_Cons)
    qed
  qed
  then show ?case by simp
qed

lemma em_init_spec:
  assumes "\<not> fatal_returns me" "granted me sizeof_entry" "environ_ok env" "em_holds em xs"
  shows "always (ucb_envmap_init_from_current me env em) (\<lambda>em'. em_holds em' (xs @ environ_pairs env))"
proof -
  obtain v where v: "em_entries em = Some v" "entries_hold v xs" using assms(4) by (auto simp: em_holds_def)
  have "always (rbind (push_environ me v env) (\<lambda>v. Ret (em\<lparr>em_entries := Some v\<rparr>))) (\<lambda>em'. em_holds em' (xs @ environ_pairs env))"
    by (rule always_bind [OF push_environ_spec [OF assms(1-3) v(2)]]) (simp add: em_holds_def)
  then show ?thesis using v(1) by (simp add: ucb_envmap_init_from_current_def)
qed

section \<open>The array for a child process\<close>

lemma envp_block_spec:
  assumes "\<not> fatal_returns me" "length k + length t + 2 \<le> 2 * PTRDIFF_MAX"
  shows "always (envp_block me k t) (\<lambda>r. r = Some (env_string k t @ [0]) \<and> length (env_string k t) < PTRDIFF_MAX)"
proof -
  let ?n = "length k + 1 + length t + 1"
  have u: "usize ?n = ?n" using assms(2) by (intro usize_id) (simp add: PTRDIFF_MAX_def SIZE_MAX_def)
  have "always (ucb_malloc me ?n) (\<lambda>ok. ok \<and> ?n \<le> PTRDIFF_MAX)" by (rule always_malloc [OF assms(1)]) simp
  then show ?thesis unfolding envp_block_def Let_def u
    by (rule always_bind) (simp add: mem_write_def env_string_def)
qed

lemma entries_nth:
  assumes "entries_hold v xs" "i < length xs"
  shows "\<exists>e. vec_get v i = Ret e \<and> entry_ok e \<and> xs ! i = entry_pair e"
  using entries_get [OF assms] by (metis entry_pair_def prod.collapse)

lemma pair_length:
  assumes "entries_hold v xs" "i < length xs" shows "length (fst (xs ! i)) + length (snd (xs ! i)) + 2 \<le> 2 * PTRDIFF_MAX"
proof -
  have "str_ok s \<Longrightarrow> length (str_text s) + 1 \<le> PTRDIFF_MAX" for s by (erule str_okE) simp
  note l = this
  obtain e where "entry_ok e" "xs ! i = entry_pair e" using entries_nth [OF assms] by blast
  then show ?thesis using l [of "e_name e"] l [of "e_value e"] by (simp add: entry_ok_def entry_pair_def)
qed

lemma envp_loop_spec:
  assumes f: "\<not> fatal_returns me" and h: "entries_hold v xs"
  shows "i \<le> length xs \<Longrightarrow> always (envp_loop me v i) (\<lambda>r. r = Some (map (\<lambda>(k, t). env_string k t @ [0]) (drop i xs))
    \<and> (\<forall>(k, t) \<in> set (drop i xs). length (env_string k t) < PTRDIFF_MAX))"
proof (induction "length xs - i" arbitrary: i)
  case 0
  then show ?case by (subst envp_loop.simps) (simp add: entries_size [OF h])
next
  case (Suc j)
  then have i: "i < length xs" by simp
  obtain k t where x: "xs ! i = (k, t)" by fastforce
  obtain e where e: "vec_get v i = Ret e" "cstr_text (e_name e) = Ret k" "cstr_text (e_value e) = Ret t"
    using entries_get [OF h i] x by (metis cstr_text_ok fst_conv snd_conv)
  have d: "drop i xs = (k, t) # drop (i + 1) xs" using i x by (metis Cons_nth_drop_Suc Suc_eq_plus1)
  have b: "length k + length t + 2 \<le> 2 * PTRDIFF_MAX" using pair_length [OF h i] x by simp
  let ?P = "\<lambda>i r. r = Some (map (\<lambda>(k, t). env_string k t @ [0]) (drop i xs))
    \<and> (\<forall>(k, t) \<in> set (drop i xs). length (env_string k t) < PTRDIFF_MAX)"
  have "always (rbind (envp_block me k t) (\<lambda>nv. case nv of None \<Rightarrow> Ret None
       | Some nv \<Rightarrow> rbind (envp_loop me v (i + 1)) (\<lambda>r. Ret (map_option (\<lambda>nvs. nv # nvs) r)))) (?P i)"
  proof (rule always_bind [OF envp_block_spec [OF f b]], elim conjE)
    fix r
    assume r: "r = Some (env_string k t @ [0])" "length (env_string k t) < PTRDIFF_MAX"
    have "always (envp_loop me v (i + 1)) (?P (i + 1))" using Suc.hyps(1) [of "i + 1"] Suc.hyps(2) i by simp
    then show "always (case r of None \<Rightarrow> Ret None
       | Some nv \<Rightarrow> rbind (envp_loop me v (i + 1)) (\<lambda>r. Ret (map_option (\<lambda>nvs. nv # nvs) r))) (?P i)"
      unfolding r(1) option.case by (rule always_bind) (use r(2) d in auto)
  qed
  then show ?case using i e by (subst envp_loop.simps) (simp add: entries_size [OF h] cong: option.case_cong)
qed

lemma em_to_envp_spec:
  assumes f: "\<not> fatal_returns me" and h: "em_holds em xs"
  shows "always (ucb_envmap_to_envp me em) (\<lambda>r. r = Some (map (\<lambda>(k, t). env_string k t @ [0]) xs)
    \<and> (\<forall>(k, t) \<in> set xs. length (env_string k t) < PTRDIFF_MAX))"
proof -
  obtain v where v: "em_entries em = Some v" "entries_hold v xs" using h by (auto simp: em_holds_def)
  have "length xs < UCB_NPOS" using v(2) by (rule entries_holdE)
  then have "0 < usize (length xs + 1)" by (simp add: usize_id UCB_NPOS_def SIZE_MAX_def)
  then have c: "always (ucb_calloc me (usize (length xs + 1)) 8) (\<lambda>ok. ok)"
    using f by (simp add: ucb_calloc_def ucb_fatal_oom_def)
  have "always (rbind (ucb_calloc me (usize (length xs + 1)) 8) (\<lambda>ok. if \<not> ok then Ret None else envp_loop me v 0))
     (\<lambda>r. r = Some (map (\<lambda>(k, t). env_string k t @ [0]) xs) \<and> (\<forall>(k, t) \<in> set xs. length (env_string k t) < PTRDIFF_MAX))"
    by (rule always_bind [OF c]) (use envp_loop_spec [OF f v(2), of 0] in simp)
  then show ?thesis using v(1) by (simp add: ucb_envmap_to_envp_def Let_def entries_size [OF v(2)] cong: if_cong)
qed

section \<open>Applying a map\<close>

definition apply_pair :: "mem_env \<Rightarrow> byte list \<times> byte list \<Rightarrow> environ \<Rightarrow> environ" where
  "apply_pair me p env = snd (if snd p = [] then c_unsetenv env (fst p) else c_setenv me env (fst p) (snd p) True)"

lemma apply_entries_spec:
  assumes h: "entries_hold v xs"
  shows "i \<le> length xs \<Longrightarrow> apply_entries me v i env = Ret (fold (apply_pair me) (drop i xs) env)"
proof (induction "length xs - i" arbitrary: i env)
  case 0
  then show ?case by (subst apply_entries.simps) (simp add: entries_size [OF h])
next
  case (Suc j)
  then have i: "i < length xs" by simp
  obtain e where e: "vec_get v i = Ret e" "str_ok (e_name e)" "str_ok (e_value e)"
    "str_text (e_name e) = fst (xs ! i)" "str_text (e_value e) = snd (xs ! i)"
    using entries_get [OF h i] by metis
  have d: "drop i xs = xs ! i # drop (i + 1) xs" using i by (metis Cons_nth_drop_Suc Suc_eq_plus1)
  have "(if ucb_str_is_empty (e_value e) then ucb_env_unset env (e_name e)
      else ucb_env_set me env (e_name e) (e_value e) True) =
      Ret (if snd (xs ! i) = [] then c_unsetenv env (fst (xs ! i)) else c_setenv me env (fst (xs ! i)) (snd (xs ! i)) True)"
    using e by (simp add: is_empty_text env_unset_spec env_set_spec)
  then show ?case using i e(1) d Suc.hyps(1) [of "i + 1"] Suc.hyps(2)
    by (subst apply_entries.simps) (simp add: entries_size [OF h] apply_pair_def split: prod.splits)
qed

lemma apply_pair_get:
  assumes "\<not> bad_name (fst p)" "granted me (length (fst p) + length (snd p) + 2)" "EQ_SIGN \<notin> set n"
  shows "c_getenv (apply_pair me p env) n = (if n = fst p then if snd p = [] then None else Some (snd p) else c_getenv env n)"
  using assms setenv_granted [OF assms(1,2), of env] getenv_setenv [OF setenv_granted [OF assms(1,2)] assms(3)]
    getenv_unsetenv [of env "fst p" _ n]
  by (cases "n = fst p") (simp_all add: apply_pair_def c_unsetenv_def)

lemma apply_pairs_get:
  assumes "\<forall>p \<in> set xs. \<not> bad_name (fst p) \<and> granted me (length (fst p) + length (snd p) + 2)"
    "distinct (map fst xs)" "EQ_SIGN \<notin> set n"
  shows "c_getenv (fold (apply_pair me) xs env) n =
    (case map_of xs n of None \<Rightarrow> c_getenv env n | Some t \<Rightarrow> if t = [] then None else Some t)"
  using assms
proof (induction xs arbitrary: env)
  case (Cons p xs)
  then have "c_getenv (fold (apply_pair me) (p # xs) env) n =
      (case map_of xs n of None \<Rightarrow> c_getenv (apply_pair me p env) n | Some t \<Rightarrow> if t = [] then None else Some t)"
    by simp
  moreover have "n = fst p \<Longrightarrow> map_of xs n = None" using Cons.prems(2) by (simp add: map_of_eq_None_iff)
  ultimately show ?case using apply_pair_get [of p me n env] Cons.prems by (cases p) (auto split: option.splits)
qed simp

section \<open>A finite map of texts\<close>

text \<open>
  The contract a caller relies on: updates and lookups by text, and what any sequence of updates
  amounts to.
\<close>

datatype 'a map_op = Put 'a 'a | Del 'a | App 'a 'a "'a option" | Pre 'a 'a "'a option"

fun map_effect :: "('a \<Rightarrow> byte list) \<Rightarrow> 'a map_op \<Rightarrow> (byte list \<rightharpoonup> byte list) \<Rightarrow> (byte list \<rightharpoonup> byte list)" where
  "map_effect textof (Put k v) M = M(textof k \<mapsto> textof v)"
| "map_effect textof (Del k) M = M(textof k := None)"
| "map_effect textof (App k v sep) M = M(textof k \<mapsto> (case M (textof k) of None \<Rightarrow> textof v
     | Some old \<Rightarrow> old @ (if old = [] then [] else case sep of None \<Rightarrow> [] | Some s \<Rightarrow> textof s) @ textof v))"
| "map_effect textof (Pre k v sep) M = M(textof k \<mapsto> (case M (textof k) of None \<Rightarrow> textof v
     | Some old \<Rightarrow> textof v @ (if old = [] then [] else case sep of None \<Rightarrow> [] | Some s \<Rightarrow> textof s) @ old))"

fun op_args :: "'a map_op \<Rightarrow> 'a set" where
  "op_args (Put k v) = {k, v}"
| "op_args (Del k) = {k}"
| "op_args (App k v sep) = {k, v} \<union> set_option sep"
| "op_args (Pre k v sep) = {k, v} \<union> set_option sep"

fun run_ops :: "('s \<Rightarrow> 'a map_op \<Rightarrow> (bool \<times> 's) result) \<Rightarrow> 's \<Rightarrow> 'a map_op list \<Rightarrow> 's result" where
  "run_ops step s [] = Ret s"
| "run_ops step s (x # xs) = rbind (step s x) (\<lambda>(_, s). run_ops step s xs)"

locale text_map =
  fixes holds :: "'s \<Rightarrow> (byte list \<rightharpoonup> byte list) \<Rightarrow> bool"
    and textof :: "'a \<Rightarrow> byte list" and valid :: "'a \<Rightarrow> bool"
    and step :: "'s \<Rightarrow> 'a map_op \<Rightarrow> (bool \<times> 's) result"
    and has :: "'s \<Rightarrow> 'a \<Rightarrow> bool result"
  assumes step_law: "holds s M \<Longrightarrow> \<forall>a \<in> op_args x. valid a \<Longrightarrow>
      always (step s x) (\<lambda>(_, s'). holds s' (map_effect textof x M))"
    and has_law: "holds s M \<Longrightarrow> valid k \<Longrightarrow> has s k = Ret (M (textof k) \<noteq> None)"
begin

lemma run_refines:
  assumes "holds s M" "\<forall>x \<in> set xs. \<forall>a \<in> op_args x. valid a"
  shows "always (run_ops step s xs) (\<lambda>s'. holds s' (fold (map_effect textof) xs M))"
  using assms
proof (induction xs arbitrary: s M)
  case (Cons x xs)
  have "always (step s x) (\<lambda>(_, s'). holds s' (map_effect textof x M))" using step_law Cons.prems by simp
  then have "always (rbind (step s x) (\<lambda>(_, s). run_ops step s xs)) (\<lambda>s'. holds s' (fold (map_effect textof) xs (map_effect textof x M)))"
    by (rule always_bind) (use Cons in auto)
  then show ?case by simp
qed simp

lemma run_then_has:
  assumes "holds s M" "\<forall>x \<in> set xs. \<forall>a \<in> op_args x. valid a" "valid k"
  shows "always (rbind (run_ops step s xs) (\<lambda>s'. has s' k)) (\<lambda>r. r = (fold (map_effect textof) xs M (textof k) \<noteq> None))"
  by (rule always_bind [OF run_refines [OF assms(1,2)]]) (simp add: has_law assms(3))

end

text \<open>The environment map provides it.\<close>

definition em_map :: "mem_env \<Rightarrow> ucb_envmap \<Rightarrow> (byte list \<rightharpoonup> byte list) \<Rightarrow> bool" where
  "em_map me em M \<longleftrightarrow> \<not> fatal_returns me \<and> granted me sizeof_entry
     \<and> (\<exists>xs. em_holds em xs \<and> distinct (map fst xs) \<and> map_of xs = M)"

fun em_step :: "mem_env \<Rightarrow> ucb_envmap \<Rightarrow> ucb_str map_op \<Rightarrow> (bool \<times> ucb_envmap) result" where
  "em_step me em (Put k v) = ucb_envmap_set me em (Some (Text k)) (Some (Text v))"
| "em_step me em (Del k) = ucb_envmap_unset em (Some (Text k))"
| "em_step me em (App k v sep) = ucb_envmap_append me em (Some (Text k)) (Some (Text v)) (map_option Text sep)"
| "em_step me em (Pre k v sep) = ucb_envmap_prepend me em (Some (Text k)) (Some (Text v)) (map_option Text sep)"

lemma appended_text:
  "(map_of xs)(k \<mapsto> appended xs k (Text v) (map_option Text sep)) = (map_of xs)(k \<mapsto> (case map_of xs k of None \<Rightarrow> str_text v
     | Some old \<Rightarrow> old @ (if old = [] then [] else case sep of None \<Rightarrow> [] | Some s \<Rightarrow> str_text s) @ str_text v))"
  by (cases sep) (auto simp: appended_def append_sep_def value_text_def Let_def split: option.splits)

lemma prepended_text:
  "(map_of xs)(k \<mapsto> prepended xs k (Text v) (map_option Text sep)) = (map_of xs)(k \<mapsto> (case map_of xs k of None \<Rightarrow> str_text v
     | Some old \<Rightarrow> str_text v @ (if old = [] then [] else case sep of None \<Rightarrow> [] | Some s \<Rightarrow> str_text s) @ old))"
  by (cases sep) (auto simp: prepended_def split: option.splits)

lemma em_map_updated:
  assumes "\<not> fatal_returns me" "granted me sizeof_entry" "distinct (map fst xs)"
    "always m (\<lambda>(ok, em'). (ok \<longrightarrow> em_holds em' (AList.update k t xs)) \<and> (\<not> ok \<longrightarrow> em' = em \<and> \<not> granted me sizeof_entry))"
  shows "always m (\<lambda>(_, em'). em_map me em' ((map_of xs)(k \<mapsto> t)))"
  by (rule always_mono [OF assms(4)])
    (use assms(1-3) distinct_update [of xs k t] in \<open>auto simp: em_map_def update_conv'\<close>)

interpretation env: text_map "em_map me" str_text str_ok "em_step me" "\<lambda>em k. ucb_envmap_has em (Some (Text k))" for me
proof
  fix s :: ucb_envmap and M x
  assume h: "em_map me s M" and ok: "\<forall>a \<in> op_args x. str_ok a"
  then obtain xs where xs: "em_holds s xs" "distinct (map fst xs)" "map_of xs = M" and me: "\<not> fatal_returns me" "granted me sizeof_entry"
    by (auto simp: em_map_def)
  show "always (em_step me s x) (\<lambda>(_, s'). em_map me s' (map_effect str_text x M))"
  proof (cases x)
    case (Put k v)
    then show ?thesis using em_map_updated [OF me xs(2) em_set_spec [OF me(1) xs(1), of "Text k" "Text v"]] ok xs(3) by simp
  next
    case (Del k)
    then obtain em' where "ucb_envmap_unset s (Some (Text k)) = Ret (has_key (str_text k) xs, em')"
        "em_holds em' (delete_first (str_text k) xs)"
      using em_unset_spec [OF xs(1), of "Text k"] ok by auto
    then show ?thesis using Del me xs(2,3) map_of_delete_first [OF xs(2)] distinct_delete_first [OF xs(2)]
      by (auto simp: em_map_def)
  next
    case (App k v sep)
    have "pred_option (ref_ok xs) (map_option Text sep)" using ok App by (cases sep) auto
    then show ?thesis
      using App em_map_updated [OF me xs(2) em_append_spec [OF me(1) xs(1), of "Text k" "Text v" "map_option Text sep"]] ok
      by (simp add: appended_text flip: xs(3))
  next
    case (Pre k v sep)
    have "pred_option (ref_ok xs) (map_option Text sep)" using ok Pre by (cases sep) auto
    then show ?thesis
      using Pre em_map_updated [OF me xs(2) em_prepend_spec [OF me(1) xs(1), of "Text k" "Text v" "map_option Text sep"]] ok
      by (simp add: prepended_text flip: xs(3))
  qed
next
  fix s :: ucb_envmap and M k
  assume "em_map me s M" "str_ok k"
  then show "ucb_envmap_has s (Some (Text k)) = Ret (M (str_text k) \<noteq> None)"
    using em_get_spec(2) [of s _ "Text k"] by (auto simp: em_map_def has_key_map_of)
qed

section \<open>Properties\<close>

definition demo_map :: ucb_envmap where
  "demo_map = \<lparr>em_entries = Some \<lparr>v_data = VMem [Some \<lparr>e_name = demo_str, e_value = demo_str\<rparr>], v_size = 1, v_capacity = 1\<rparr>\<rparr>"

lemma demo_map_holds: "em_holds demo_map [([97, 98], [97, 98])]"
proof -
  have "entry_ok \<lparr>e_name = demo_str, e_value = demo_str\<rparr>" "entry_pair \<lparr>e_name = demo_str, e_value = demo_str\<rparr> = ([97, 98], [97, 98])"
    using demo_str_ok(1,2) by (simp_all add: entry_ok_def entry_pair_def tight_def) (simp add: demo_str_def)
  then show ?thesis
    by (auto simp: em_holds_def entries_hold_def demo_map_def vec_holds_def PTRDIFF_MAX_def
      intro!: exI [of _ "[\<lparr>e_name = demo_str, e_value = demo_str\<rparr>]"])
qed

text \<open>
  C31: under any sequence of \<^verbatim>\<open>ucb_envmap_set\<close>, \<^verbatim>\<open>unset\<close>, \<^verbatim>\<open>append\<close> and \<^verbatim>\<open>prepend\<close> with strings of
  the caller the map behaves as a finite map from names to values: the separator appears only
  between two texts the first of which was not empty, appending never loses text, and
  \<^verbatim>\<open>ucb_envmap_has\<close> answers accordingly. The process can only end for want of memory or an invalid
  text.
\<close>

theorem envmap_refines_finite_map:
  assumes "em_map me em M" "\<forall>x \<in> set ops. \<forall>s \<in> op_args x. str_ok s" "str_ok k"
  shows "always (run_ops (em_step me) em ops) (\<lambda>em'. em_map me em' (fold (map_effect str_text) ops M)
    \<and> ucb_envmap_has em' (Some (Text k)) = Ret (fold (map_effect str_text) ops M (str_text k) \<noteq> None))"
  by (rule always_mono [OF env.run_refines [OF assms(1,2)]]) (simp add: env.has_law [OF _ assms(3)])

theorem envmap_refines_finite_map_witness:
  "always (run_ops (em_step me_ok) demo_map [App demo_str demo_str (Some demo_str), Del str_empty])
    (\<lambda>em'. em_map me_ok em' [[97, 98] \<mapsto> [97, 98, 97, 98, 97, 98]] \<and> ucb_envmap_has em' (Some (Text demo_str)) = Ret True)"
proof -
  have m: "em_map me_ok demo_map [[97, 98] \<mapsto> [97, 98]]"
    using demo_map_holds by (auto simp: em_map_def sizeof_entry_def PTRDIFF_MAX_def intro!: exI [of _ "[([97, 98], [97, 98])]"])
  have "(\<lambda>x. if x = [] then None else if x = [97 :: byte, 98] then Some [97 :: byte, 98, 97, 98, 97, 98] else None)
      = [[97, 98] \<mapsto> [97, 98, 97, 98, 97, 98]]" by auto
  then show ?thesis
    using envmap_refines_finite_map [OF m, of "[App demo_str demo_str (Some demo_str), Del str_empty]" demo_str]
    by (simp add: demo_str_ok fun_upd_def cong: if_cong)
qed

text \<open>
  C32: the array \<^verbatim>\<open>ucb_envmap_to_envp\<close> makes for a child process, read back by
  \<^verbatim>\<open>ucb_envmap_init_from_current\<close> in that process, gives the same names and values in the same
  order, provided no name is empty or contains an equals sign. Each string of the array ends in a
  null byte inside its block.
\<close>

theorem envp_roundtrip:
  assumes "\<not> fatal_returns me" "granted me sizeof_entry" "em_holds em xs" "em_holds em0 []"
    and "\<forall>(k, t) \<in> set xs. \<not> bad_name k"
  shows "always (ucb_envmap_to_envp me em) (\<lambda>r. \<exists>nvs. r = Some nvs \<and> (\<forall>nv \<in> set nvs. c_strlen nv = Ret (length nv - 1))
    \<and> always (ucb_envmap_init_from_current me (map butlast nvs) em0) (\<lambda>em'. em_holds em' xs))"
proof (rule always_mono [OF em_to_envp_spec [OF assms(1,3)]], elim conjE)
  fix r
  let ?nvs = "map (\<lambda>(k, t). env_string k t @ [0]) xs"
  assume r: "r = Some ?nvs" "\<forall>(k, t) \<in> set xs. length (env_string k t) < PTRDIFF_MAX"
  obtain v es where es: "list_all entry_ok es" "map entry_pair es = xs" using assms(3) by (auto simp: em_holds_def entries_hold_def)
  have z: "0 \<notin> set (env_string k t)" if "(k, t) \<in> set xs" for k t
  proof -
    have "(k, t) \<in> entry_pair ` set es" using that unfolding es(2) [symmetric] by simp
    then obtain e where "entry_ok e" "(k, t) = entry_pair e" using es(1) by (auto simp: list_all_iff)
    then have "str_ok (e_name e)" "str_ok (e_value e)" "k = str_text (e_name e)" "t = str_text (e_value e)"
      by (auto simp: entry_ok_def entry_pair_def)
    moreover have "str_ok s \<Longrightarrow> 0 \<notin> set (str_text s)" for s by (erule str_okE) (simp add: valid_text_def)
    ultimately show ?thesis by (auto simp: env_string_def EQ_SIGN_def)
  qed
  have b: "map butlast ?nvs = map (\<lambda>(k, t). env_string k t) xs" by (induction xs) auto
  have "environ_ok (map butlast ?nvs)" unfolding b environ_ok_def using z r(2) by auto
  from em_init_spec [OF assms(1,2) this assms(4)]
  have "always (ucb_envmap_init_from_current me (map butlast ?nvs) em0) (\<lambda>em'. em_holds em' xs)"
    unfolding b environ_pairs_strings [OF assms(5)] by simp
  moreover have "\<forall>nv \<in> set ?nvs. c_strlen nv = Ret (length nv - 1)" using z by (auto simp: c_strlen_term)
  ultimately show "\<exists>nvs. r = Some nvs \<and> (\<forall>nv \<in> set nvs. c_strlen nv = Ret (length nv - 1))
    \<and> always (ucb_envmap_init_from_current me (map butlast nvs) em0) (\<lambda>em'. em_holds em' xs)" using r(1) by blast
qed

theorem envp_roundtrip_witness:
  "always (ucb_envmap_to_envp me_ok demo_map) (\<lambda>r. \<exists>nvs. r = Some nvs
    \<and> always (ucb_envmap_init_from_current me_ok (map butlast nvs) \<lparr>em_entries = Some vec_zero\<rparr>)
        (\<lambda>em'. em_holds em' [([97, 98], [97, 98])]))"
proof -
  have "em_holds \<lparr>em_entries = Some vec_zero\<rparr> []"
    using vec_zero_holds [of 8] by (auto simp: em_holds_def entries_hold_def)
  note rt = envp_roundtrip [OF _ _ demo_map_holds this, of me_ok]
  show ?thesis by (rule always_mono [OF rt]) (auto simp: sizeof_entry_def PTRDIFF_MAX_def bad_name_def EQ_SIGN_def)
qed

text \<open>
  C33: applying a map to the environment of the process sets every variable of the map with a
  non-empty value, removes those with an empty value and leaves all others alone, whatever their
  number and order, when names are proper and the system has memory.
\<close>

theorem envmap_apply_effect:
  assumes "em_holds em xs" "distinct (map fst xs)" "EQ_SIGN \<notin> set n"
    and "\<forall>p \<in> set xs. \<not> bad_name (fst p) \<and> granted me (length (fst p) + length (snd p) + 2)"
  shows "\<exists>env'. ucb_envmap_apply me em env = Ret env'
    \<and> c_getenv env' n = (case map_of xs n of None \<Rightarrow> c_getenv env n | Some t \<Rightarrow> if t = [] then None else Some t)"
proof -
  obtain v where "em_entries em = Some v" "entries_hold v xs" using assms(1) by (auto simp: em_holds_def)
  then show ?thesis using apply_entries_spec [of v xs 0 me env] apply_pairs_get [OF assms(4,2,3)]
    by (simp add: ucb_envmap_apply_def)
qed

theorem envmap_apply_effect_witness:
  "\<exists>env'. ucb_envmap_apply me_ok demo_map [[97, 61], [98, 61, 99]] = Ret env'
    \<and> c_getenv env' [97, 98] = Some [97, 98]"
  using envmap_apply_effect [OF demo_map_holds, of "[97, 98]" me_ok "[[97, 61], [98, 61, 99]]"]
  by (simp add: bad_name_def EQ_SIGN_def PTRDIFF_MAX_def)

text \<open>
  Copying an environment map to itself empties it: the entries are released before they are
  read.
\<close>

theorem envmap_self_copy_empties:
  assumes "\<not> fatal_returns me" "em_holds em xs"
  shows "always (ucb_envmap_copy me em SelfMap) (\<lambda>em'. em_holds em' []
    \<and> (\<forall>s. str_ok s \<longrightarrow> ucb_envmap_has em' (Some (Text s)) = Ret False))"
  by (rule always_mono [OF copy_to_itself [OF assms(1,2)]]) (auto simp: em_get_spec(2))

theorem envmap_self_copy_empties_witness:
  "always (ucb_envmap_copy me_ok demo_map SelfMap) (\<lambda>em'. ucb_envmap_has em' (Some (Text demo_str)) = Ret False)"
  using envmap_self_copy_empties [OF _ demo_map_holds, of me_ok]
  by (simp, elim always_mono) (simp add: demo_str_ok)

text \<open>
  A name that occurs twice in the environment has two entries; unsetting it removes the first
  and uncovers the second.
\<close>

lemma unset_uncovers_duplicate:
  assumes "em_holds em ((k, a) # (k, b) # xs)" "str_ok s" "str_text s = k"
  shows "\<exists>em'. ucb_envmap_unset em (Some (Text s)) = Ret (True, em') \<and> ucb_envmap_has em' (Some (Text s)) = Ret True"
proof -
  obtain em' where "ucb_envmap_unset em (Some (Text s)) = Ret (True, em')" "em_holds em' ((k, b) # xs)"
    using em_unset_spec [OF assms(1), of "Text s"] assms(2,3) by auto
  then show ?thesis using em_get_spec(2) [of em' _ "Text s"] assms(2,3) by auto
qed

text \<open>Appending the value of a variable to itself repeats the separator as well.\<close>

lemma append_own_value:
  "map_of xs k = Some old \<Longrightarrow> old \<noteq> [] \<Longrightarrow>
   appended xs k (ValueOf (key_index k xs)) (Some (Text s)) = old @ str_text s @ old @ str_text s"
  by (simp add: appended_def append_sep_def value_text_def Let_def)

end
