(* ===== verification/Thread.thy ===== *)
theory Thread
  imports Pqueue
begin

text \<open>
  Tasks (\<^verbatim>\<open>src/ucb/threads/task.c\<close>) and the bookkeeping of thread objects
  (\<^verbatim>\<open>src/ucb/threads/thread.c\<close>, POSIX branch). A function or callback pointer is a number, and
  what calling it returns is the parameter \<open>exec\<close>. The thread itself runs in \<open>Threadpool\<close>; here
  a start says whether the operating system created the thread, and a join is the part of
  \<^verbatim>\<open>ucb_thread_join\<close> after the thread has ended.
\<close>

section \<open>Tasks\<close>

record ucb_task =
  t_func :: "nat option"
  t_arg :: nat
  t_callback :: "nat option"
  t_prio :: int

definition UCB_TASK_PRIO_LOWEST :: int where "UCB_TASK_PRIO_LOWEST = - 10"
definition UCB_TASK_PRIO_NORMAL :: int where "UCB_TASK_PRIO_NORMAL = 0"
definition UCB_TASK_PRIO_HIGHEST :: int where "UCB_TASK_PRIO_HIGHEST = 10"

definition sizeof_task :: nat where
  "sizeof_task = 32"

definition ucb_task_init :: "nat option \<Rightarrow> nat \<Rightarrow> ucb_task" where
  "ucb_task_init func arg =
     \<lparr>t_func = func, t_arg = arg, t_callback = None, t_prio = UCB_TASK_PRIO_NORMAL\<rparr>"

definition ucb_task_make :: "nat option \<Rightarrow> ucb_task" where
  "ucb_task_make func = \<lparr>t_func = func, t_arg = 0, t_callback = None, t_prio = 0\<rparr>"

definition ucb_task_new :: "mem_env \<Rightarrow> nat option \<Rightarrow> nat \<Rightarrow> ucb_task option result" where
  "ucb_task_new me func arg =
     rbind (ucb_malloc me sizeof_task) (\<lambda>ok. Ret (if ok then Some (ucb_task_init func arg) else None))"

definition ucb_task_release :: "ucb_task \<Rightarrow> ucb_task" where
  "ucb_task_release task =
     task\<lparr>t_func := None, t_arg := 0, t_callback := None, t_prio := UCB_TASK_PRIO_NORMAL\<rparr>"

definition ucb_task_validate :: "ucb_task \<Rightarrow> bool result" where
  "ucb_task_validate task =
     verify (t_prio task \<ge> UCB_TASK_PRIO_LOWEST \<and> t_prio task \<le> UCB_TASK_PRIO_HIGHEST)
       UCB_ERROR_INVALID_ARG (Ret True)"

definition ucb_task_copy :: "ucb_task \<Rightarrow> ucb_task \<Rightarrow> ucb_task" where
  "ucb_task_copy dst src =
     dst\<lparr>t_func := t_func src, t_arg := t_arg src, t_callback := t_callback src, t_prio := t_prio src\<rparr>"

text \<open>Fresh memory holds some task; every field of it is overwritten.\<close>

definition junk_task :: "mem_env \<Rightarrow> ucb_task" where
  "junk_task me = \<lparr>t_func = Some (unat (junk me 0)), t_arg = unat (junk me 8),
     t_callback = Some (unat (junk me 16)), t_prio = uint (junk me 24)\<rparr>"

definition ucb_task_clone :: "mem_env \<Rightarrow> ucb_task option \<Rightarrow> ucb_task option result" where
  "ucb_task_clone me src =
     (case src of None \<Rightarrow> Ret None
      | Some src \<Rightarrow>
          rbind (ucb_malloc me sizeof_task) (\<lambda>ok.
          Ret (if ok then Some (ucb_task_copy (junk_task me) src) else None)))"

text \<open>The difference of the two priorities, undefined when it does not fit an \<^verbatim>\<open>int\<close>.\<close>

definition ucb_task_cmp_prio :: "ucb_task \<Rightarrow> ucb_task \<Rightarrow> int result" where
  "ucb_task_cmp_prio a b =
     (let d = t_prio a - t_prio b in if - (2 ^ 31) \<le> d \<and> d < 2 ^ 31 then Ret d else Undef)"

definition ucb_task_set_func :: "ucb_task \<Rightarrow> nat option \<Rightarrow> nat \<Rightarrow> ucb_task result" where
  "ucb_task_set_func task func arg =
     verify (func \<noteq> None) UCB_ERROR_INVALID_ARG (Ret (task\<lparr>t_func := func, t_arg := arg\<rparr>))"

definition ucb_task_set_callback :: "ucb_task \<Rightarrow> nat option \<Rightarrow> ucb_task" where
  "ucb_task_set_callback task callback = task\<lparr>t_callback := callback\<rparr>"

definition ucb_task_set_priority :: "ucb_task \<Rightarrow> int \<Rightarrow> ucb_task result" where
  "ucb_task_set_priority task priority =
     verify (priority \<ge> UCB_TASK_PRIO_LOWEST \<and> priority \<le> UCB_TASK_PRIO_HIGHEST)
       UCB_ERROR_INVALID_ARG (Ret (task\<lparr>t_prio := priority\<rparr>))"

text \<open>The calls a task makes, with their arguments.\<close>

datatype task_event = Called nat nat | Called_back nat nat int

definition ucb_task_run :: "(nat \<Rightarrow> nat \<Rightarrow> int) \<Rightarrow> ucb_task \<Rightarrow> (task_event list \<times> int) result" where
  "ucb_task_run exec task =
     (case t_func task of None \<Rightarrow> Abort UCB_ERROR_INVALID_ARG
      | Some f \<Rightarrow>
          let status = exec f (t_arg task) in
          (case t_callback task of
             None \<Rightarrow> Ret ([Called f (t_arg task)], status)
           | Some cb \<Rightarrow> Ret ([Called f (t_arg task), Called_back cb (t_arg task) status], status)))"

lemma ucb_task_copy_id [simp]: "ucb_task_copy dst src = src"
  by (cases src; cases dst) (simp add: ucb_task_copy_def)

lemma ucb_task_clone_granted:
  "granted me sizeof_task \<Longrightarrow> ucb_task_clone me (Some t) = Ret (Some t)"
  by (simp add: ucb_task_clone_def ucb_malloc_ok sizeof_task_def)

section \<open>Thread objects\<close>

record ucb_thread =
  th_handle :: bool
  th_detached :: bool
  th_running :: bool
  th_stack :: nat
  th_prio :: int
  th_status :: "int option"

record thread_env =
  te_alignment :: nat
  te_stack_min :: nat
  te_current_stack :: nat

definition sizeof_thread :: nat where
  "sizeof_thread = 96"

definition ucb_thread_new_flags :: "mem_env \<Rightarrow> bool \<Rightarrow> ucb_thread option result" where
  "ucb_thread_new_flags me detached =
     rbind (ucb_calloc me 1 sizeof_thread) (\<lambda>ok.
     Ret (if ok then Some \<lparr>th_handle = False, th_detached = detached, th_running = False,
                           th_stack = 0, th_prio = 0, th_status = None\<rparr>
          else None))"

definition ucb_thread_new :: "mem_env \<Rightarrow> ucb_thread option result" where
  "ucb_thread_new me = ucb_thread_new_flags me False"

definition ucb_thread_new_detached :: "mem_env \<Rightarrow> ucb_thread option result" where
  "ucb_thread_new_detached me = ucb_thread_new_flags me True"

text \<open>\<^verbatim>\<open>(stack_size + align - 1) & ~(align - 1)\<close> on 64 bits.\<close>

definition align_up :: "nat \<Rightarrow> nat \<Rightarrow> nat" where
  "align_up a n = unat ((of_nat (usize (n + a - 1)) :: 64 word) AND NOT (of_nat (a - 1)))"

definition ucb_thread_set_stack_size :: "thread_env \<Rightarrow> ucb_thread \<Rightarrow> nat \<Rightarrow> ucb_thread result" where
  "ucb_thread_set_stack_size te th stack_size =
     verify (\<not> th_running th) UCB_ERROR_INVALID_ARG (
     let stack_size = (if stack_size > 0 \<and> stack_size < te_stack_min te then te_stack_min te else stack_size);
         stack_size = (if stack_size > 0 then align_up (te_alignment te) stack_size else stack_size)
     in Ret (th\<lparr>th_stack := stack_size\<rparr>))"

definition ucb_thread_get_stack_size :: "ucb_thread option \<Rightarrow> nat" where
  "ucb_thread_get_stack_size th = (case th of None \<Rightarrow> 0 | Some th \<Rightarrow> th_stack th)"

definition ucb_thread_set_priority :: "ucb_thread \<Rightarrow> int \<Rightarrow> ucb_thread result" where
  "ucb_thread_set_priority th priority =
     verify (\<not> th_running th \<and> priority \<ge> UCB_TASK_PRIO_LOWEST \<and> priority \<le> UCB_TASK_PRIO_HIGHEST)
       UCB_ERROR_INVALID_ARG (Ret (th\<lparr>th_prio := priority\<rparr>))"

definition ucb_thread_get_priority :: "ucb_thread option \<Rightarrow> int" where
  "ucb_thread_get_priority th = (case th of None \<Rightarrow> UCB_TASK_PRIO_NORMAL | Some th \<Rightarrow> th_prio th)"

definition ucb_thread_is_joinable :: "ucb_thread option \<Rightarrow> bool" where
  "ucb_thread_is_joinable th = (case th of None \<Rightarrow> False | Some th \<Rightarrow> \<not> th_detached th)"

definition ucb_thread_is_running :: "ucb_thread option \<Rightarrow> bool" where
  "ucb_thread_is_running th = (case th of None \<Rightarrow> False | Some th \<Rightarrow> th_running th)"

text \<open>
  Start: \<open>created\<close> says whether the operating system created the thread. A failure is
  reported through the error handler, which the caller survives only if it returns.
\<close>

definition ucb_thread_start ::
    "thread_env \<Rightarrow> bool \<Rightarrow> ucb_thread \<Rightarrow> ucb_task \<Rightarrow> (bool \<times> ucb_thread) result" where
  "ucb_thread_start te created th task =
     verify (t_func task \<noteq> None) UCB_ERROR_INVALID_ARG (
     verify (\<not> th_running th) UCB_ERROR_THREAD_BUSY (
     rbind (ucb_task_validate task) (\<lambda>_.
     let th = (if th_stack th = 0 then th\<lparr>th_stack := te_current_stack te\<rparr> else th);
         th = th\<lparr>th_running := True, th_status := None\<rparr>
     in if created then Ret (True, if th_detached th then th else th\<lparr>th_handle := True\<rparr>)
        else Ret (False, th\<lparr>th_running := False\<rparr>))))"

text \<open>What the wrapper around the task stores when the task has returned.\<close>

definition posix_thread_wrapper_end :: "ucb_thread \<Rightarrow> int \<Rightarrow> ucb_thread" where
  "posix_thread_wrapper_end th status = th\<lparr>th_status := Some status, th_running := False\<rparr>"

definition ucb_thread_join :: "ucb_thread \<Rightarrow> ucb_thread result" where
  "ucb_thread_join th =
     verify (\<not> th_detached th) UCB_ERROR_INVALID_ARG (
     Ret ((if th_handle th then th\<lparr>th_handle := False\<rparr> else th)\<lparr>th_running := False\<rparr>))"

definition ucb_thread_free :: "ucb_thread option \<Rightarrow> unit result" where
  "ucb_thread_free th =
     (case th of None \<Rightarrow> Ret ()
      | Some th \<Rightarrow>
          verify (\<not> th_running th \<or> \<not> th_detached th) UCB_ERROR_INVALID_ARG (
          if \<not> th_detached th then rbind (ucb_thread_join th) (\<lambda>_. Ret ()) else Ret ()))"

definition ucb_thread_get_task_status :: "ucb_thread \<Rightarrow> int option result" where
  "ucb_thread_get_task_status th = verify (\<not> th_detached th) UCB_ERROR_INVALID_ARG (Ret (th_status th))"

lemma thread_start_fields:
  assumes "ucb_thread_start te created th task = Ret (ok, th')"
  shows "ok = created" "\<not> th_running th" "th_running th' = created" "th_detached th' = th_detached th"
    "th_handle th' = (th_handle th \<or> (created \<and> \<not> th_detached th))"
  using assms by (auto simp: ucb_thread_start_def Let_def split: if_splits)

end
