(* ===== verification/Threadpool.thy ===== *)
theory Threadpool
  imports Thread
begin

text \<open>
  The thread pool of \<^verbatim>\<open>src/ucb/threads/threadpool.c\<close>. The first part holds the pool object and
  what the code does to it between taking and leaving the pool's mutex, one definition per
  section of code; the second part puts the sections together as the steps of any number of
  workers and callers that interleave.

  A thread is described by a program counter. A thread that asks for the mutex is in a state of
  its own and moves on when the mutex is free; a section then runs to the point where it
  leaves the mutex or waits on a condition variable, which is one step, because no other
  thread can look at the pool meanwhile. A signal wakes one of the threads that wait on the
  condition variable, whichever the system picks, or none if there is none; a broadcast wakes
  all of them. A waiting thread may also wake up without a signal. A section that ends in
  \<open>Abort\<close> or \<open>Undef\<close> has no step: the process is gone.
\<close>

section \<open>The pool object\<close>

record ucb_threadpool =
  threads :: "ucb_thread list"
  tasks :: "ucb_task ucb_pqueue"
  nodes :: "ucb_task node_store"
  num_threads :: nat
  num_running :: nat
  running :: bool
  stop :: bool
  dflt_callback :: "nat option"

subsection \<open>A worker\<close>

datatype worker_next = Sleep | Leave | Take "ucb_task option"

text \<open>With the mutex held: the loop condition, the exit on \<open>stop\<close>, and taking a task.\<close>

definition worker_test :: "ucb_threadpool \<Rightarrow> (worker_next \<times> ucb_threadpool) result" where
  "worker_test p =
     rbind (ucb_pqueue_empty (tasks p)) (\<lambda>(q, empty).
     let p = p\<lparr>tasks := q\<rparr> in
     if empty \<and> \<not> stop p then Ret (Sleep, p)
     else if stop p then Ret (Leave, p)
     else rbind (ucb_pqueue_pop (nodes p) (tasks p)) (\<lambda>(st, q, task).
          Ret (Take task, p\<lparr>tasks := q, nodes := st, num_running := usize (num_running p + 1)\<rparr>)))"

definition worker_run :: "(nat \<Rightarrow> nat \<Rightarrow> int) \<Rightarrow> ucb_task option \<Rightarrow> task_event list result" where
  "worker_run exec task =
     (case task of None \<Rightarrow> Ret [] | Some task \<Rightarrow> rbind (ucb_task_run exec task) (\<lambda>(evs, _). Ret evs))"

definition worker_done :: "ucb_threadpool \<Rightarrow> ucb_threadpool" where
  "worker_done p = p\<lparr>num_running := usub (num_running p) 1\<rparr>"

subsection \<open>The callers\<close>

text \<open>The copy of a task that is queued: it gets the default callback if it has none.\<close>

definition queued_task :: "ucb_threadpool \<Rightarrow> ucb_task \<Rightarrow> ucb_task" where
  "queued_task p t = (if t_callback t = None \<and> dflt_callback p \<noteq> None
     then t\<lparr>t_callback := dflt_callback p\<rparr> else t)"

text \<open>
  Adding a task: whether it was accepted, the copy that was queued, and whether a worker is to
  be signalled.
\<close>

definition ucb_threadpool_add_task ::
    "mem_env \<Rightarrow> ucb_threadpool \<Rightarrow> ucb_task \<Rightarrow> (ucb_task option \<times> bool \<times> ucb_threadpool) result" where
  "ucb_threadpool_add_task me p task =
     verify (t_func task \<noteq> None) UCB_ERROR_INVALID_ARG (
     rbind (ucb_task_clone me (Some task)) (\<lambda>ctask.
     case ctask of
       None \<Rightarrow> Ret (None, False, p)
     | Some ctask \<Rightarrow>
         let ctask = queued_task p ctask in
         rbind (ucb_pqueue_push me (nodes p) (tasks p) ctask (t_prio ctask)) (\<lambda>(st, q, i).
         let p = p\<lparr>tasks := q, nodes := st\<rparr> in
         if i \<noteq> SIZE_MAX then Ret (Some ctask, running p, p) else Ret (None, False, p))))"

text \<open>
  The loop that starts the worker threads; the system creates the first \<open>k\<close> of them. The
  result is the number of threads started.
\<close>

definition worker_task :: ucb_task where
  "worker_task = \<lparr>t_func = Some 0, t_arg = 0, t_callback = None, t_prio = 0\<rparr>"

fun start_threads ::
    "thread_env \<Rightarrow> nat \<Rightarrow> ucb_thread list \<Rightarrow> (nat \<times> ucb_thread list) result" where
  "start_threads te k [] = Ret (0, [])"
| "start_threads te k (th # ths) =
     rbind (ucb_thread_start te (k > 0) th worker_task) (\<lambda>(ok, th).
     if \<not> ok then Ret (0, th # ths)
     else rbind (start_threads te (k - 1) ths) (\<lambda>(n, ths). Ret (n + 1, th # ths)))"

definition ucb_threadpool_start_impl ::
    "thread_env \<Rightarrow> nat \<Rightarrow> ucb_threadpool \<Rightarrow> (nat \<times> ucb_threadpool) result" where
  "ucb_threadpool_start_impl te k p =
     (if running p then Ret (num_threads p, p)
      else
        rbind (start_threads te k (threads p)) (\<lambda>(started, ths).
        let p = p\<lparr>stop := False, running := True, threads := ths\<rparr> in
        Ret (started, if started \<noteq> num_threads p then p\<lparr>stop := True\<rparr> else p)))"

text \<open>The end of \<^verbatim>\<open>ucb_threadpool_reap_partial\<close>, after the started threads are joined.\<close>

definition reap_end :: "ucb_threadpool \<Rightarrow> ucb_threadpool" where
  "reap_end p = p\<lparr>running := False, stop := False\<rparr>"

text \<open>Joining the thread of one worker.\<close>

definition join_thread :: "ucb_threadpool \<Rightarrow> nat \<Rightarrow> ucb_threadpool result" where
  "join_thread p i =
     rbind (ucb_thread_join (threads p ! i)) (\<lambda>th. Ret (p\<lparr>threads := (threads p)[i := th]\<rparr>))"

definition ucb_threadpool_num_running :: "ucb_threadpool \<Rightarrow> nat" where
  "ucb_threadpool_num_running p = num_running p"

definition ucb_threadpool_num_queued :: "ucb_threadpool \<Rightarrow> (ucb_threadpool \<times> nat) result" where
  "ucb_threadpool_num_queued p =
     rbind (ucb_pqueue_size (tasks p)) (\<lambda>(q, n). Ret (p\<lparr>tasks := q\<rparr>, n))"

text \<open>\<^verbatim>\<open>wait_all\<close>: whether it starts the pool first, and the condition of its loop.\<close>

definition wait_all_starts :: "ucb_threadpool \<Rightarrow> (ucb_threadpool \<times> bool) result" where
  "wait_all_starts p =
     (if \<not> running p
      then rbind (ucb_pqueue_empty (tasks p)) (\<lambda>(q, empty). Ret (p\<lparr>tasks := q\<rparr>, \<not> empty))
      else Ret (p, False))"

definition wait_all_test :: "ucb_threadpool \<Rightarrow> (ucb_threadpool \<times> bool) result" where
  "wait_all_test p =
     (if num_running p > 0 then Ret (p, True)
      else rbind (ucb_pqueue_empty (tasks p)) (\<lambda>(q, empty). Ret (p\<lparr>tasks := q\<rparr>, \<not> empty)))"

definition clear_tasks :: "ucb_threadpool \<Rightarrow> ucb_threadpool result" where
  "clear_tasks p =
     rbind (ucb_pqueue_clear (nodes p) (tasks p)) (\<lambda>(st, q). Ret (p\<lparr>tasks := q, nodes := st\<rparr>))"

text \<open>\<^verbatim>\<open>join\<close>: the end, once all threads are joined.\<close>

definition join_end :: "ucb_threadpool \<Rightarrow> ucb_threadpool result" where
  "join_end p = clear_tasks (p\<lparr>running := False, stop := False\<rparr>)"

subsection \<open>Life cycle and settings\<close>

text \<open>
  The creation of a pool. The results of the system calls behind the mutex and the two
  condition variables are parameters; \<open>fresh\<close> is the queue inside the zeroed memory.
\<close>

definition sizeof_threadpool :: nat where
  "sizeof_threadpool = 320"

fun new_threads :: "mem_env \<Rightarrow> nat \<Rightarrow> ucb_thread list option result" where
  "new_threads me 0 = Ret (Some [])"
| "new_threads me (Suc n) =
     rbind (ucb_thread_new me) (\<lambda>th.
     case th of None \<Rightarrow> Ret None
     | Some th \<Rightarrow> rbind (new_threads me n) (\<lambda>ths. Ret (map_option (\<lambda>ths. th # ths) ths)))"

definition pool_args :: "ucb_task ucb_pqueue_args" where
  "pool_args = \<lparr>arg_clone = None, arg_free = True\<rparr>"

definition ucb_threadpool_new ::
    "mem_env \<Rightarrow> bool \<Rightarrow> bool \<Rightarrow> bool \<Rightarrow> ucb_task ucb_pqueue \<Rightarrow> nat \<Rightarrow> ucb_threadpool option result" where
  "ucb_threadpool_new me mutex_ok cond1_ok cond2_ok fresh n =
     verify (n > 0) UCB_ERROR_INVALID_ARG (
     rbind (ucb_calloc me 1 sizeof_threadpool) (\<lambda>ok.
     if \<not> ok then Ret None
     else
       rbind (ucb_pqueue_init me True fresh pool_args) (\<lambda>(ok, q).
       let st = \<lparr>cells = (\<lambda>_. None), next_addr = 0, freed_data = []\<rparr> in
       if \<not> ok then Ret None
       else if \<not> (mutex_ok \<and> cond1_ok \<and> cond2_ok) then rbind (ucb_pqueue_release st q) (\<lambda>_. Ret None)
       else
         rbind (ucb_calloc me n 8) (\<lambda>ok.
         if \<not> ok then rbind (ucb_pqueue_release st q) (\<lambda>_. Ret None)
         else
           rbind (new_threads me n) (\<lambda>ths.
           case ths of
             None \<Rightarrow> rbind (ucb_pqueue_release st q) (\<lambda>_. Ret None)
           | Some ths \<Rightarrow>
               Ret (Some \<lparr>threads = ths, tasks = q, nodes = st, num_threads = n, num_running = 0,
                          running = False, stop = False, dflt_callback = None\<rparr>))))))"

text \<open>Releasing the members, once nobody uses the pool any more.\<close>

fun free_threads :: "ucb_thread list \<Rightarrow> unit result" where
  "free_threads [] = Ret ()"
| "free_threads (th # ths) = rbind (ucb_thread_free (Some th)) (\<lambda>_. free_threads ths)"

definition ucb_threadpool_destroy :: "ucb_threadpool \<Rightarrow> ucb_task node_store result" where
  "ucb_threadpool_destroy p =
     rbind (free_threads (threads p)) (\<lambda>_.
     rbind (ucb_pqueue_release (nodes p) (tasks p)) (\<lambda>(st, _). Ret st))"

fun set_all_stack_size ::
    "thread_env \<Rightarrow> nat \<Rightarrow> ucb_thread list \<Rightarrow> ucb_thread list result" where
  "set_all_stack_size te n [] = Ret []"
| "set_all_stack_size te n (th # ths) =
     rbind (ucb_thread_set_stack_size te th n) (\<lambda>th.
     rbind (set_all_stack_size te n ths) (\<lambda>ths. Ret (th # ths)))"

definition ucb_threadpool_set_thread_stack_size ::
    "thread_env \<Rightarrow> ucb_threadpool \<Rightarrow> nat \<Rightarrow> ucb_threadpool result" where
  "ucb_threadpool_set_thread_stack_size te p n =
     verify (\<not> running p) UCB_ERROR_INVALID_STATE (
     rbind (set_all_stack_size te n (threads p)) (\<lambda>ths. Ret (p\<lparr>threads := ths\<rparr>)))"

fun set_all_priority :: "int \<Rightarrow> ucb_thread list \<Rightarrow> ucb_thread list result" where
  "set_all_priority prio [] = Ret []"
| "set_all_priority prio (th # ths) =
     rbind (ucb_thread_set_priority th prio) (\<lambda>th.
     rbind (set_all_priority prio ths) (\<lambda>ths. Ret (th # ths)))"

definition ucb_threadpool_set_thread_priority :: "ucb_threadpool \<Rightarrow> int \<Rightarrow> ucb_threadpool result" where
  "ucb_threadpool_set_thread_priority p prio =
     verify (\<not> running p) UCB_ERROR_INVALID_STATE (
     rbind (set_all_priority prio (threads p)) (\<lambda>ths. Ret (p\<lparr>threads := ths\<rparr>)))"

definition ucb_threadpool_set_default_callback :: "ucb_threadpool \<Rightarrow> nat option \<Rightarrow> ucb_threadpool" where
  "ucb_threadpool_set_default_callback p callback = p\<lparr>dflt_callback := callback\<rparr>"

section \<open>The threads\<close>

datatype worker_pc =
    W_Off
  | W_Lock
  | W_Test
  | W_Sleep
  | W_Woken
  | W_Run "ucb_task option"
  | W_Relock
  | W_Finish
  | W_Leaving
  | W_Exit

datatype call = Add ucb_task | Start | Num_running | Num_queued | Wait_all | Join

datatype wait_for = For_all | For_join

text \<open>
  \<open>C_Reap n i\<close>: joining thread \<open>i\<close> of the \<open>n\<close> that were started; \<open>C_Joining i\<close>: joining thread
  \<open>i\<close> in \<^verbatim>\<open>ucb_threadpool_join\<close>.
\<close>

datatype caller_pc =
    C_Idle
  | C_Lock call
  | C_In call
  | C_Test wait_for
  | C_Sleep wait_for
  | C_Woken wait_for
  | C_Reap nat nat
  | C_Reap_lock
  | C_Reap_end
  | C_Joining nat
  | C_Join_lock
  | C_Join_end

datatype thr = Worker nat | Caller nat

text \<open>
  The state. \<open>added\<close>, \<open>finished\<close> and \<open>calls\<close> are history: the tasks that were accepted, those
  that a worker has run to the end, and the calls the tasks made.
\<close>

record pool_sys =
  pool :: ucb_threadpool
  holder :: "thr option"
  workers :: "nat \<Rightarrow> worker_pc"
  callers :: "nat \<Rightarrow> caller_pc"
  added :: "ucb_task list"
  finished :: "ucb_task list"
  calls :: "task_event list"

text \<open>The waiting threads that a signal can wake, with the state they wake up in.\<close>

definition woken_worker :: "worker_pc \<Rightarrow> worker_pc option" where
  "woken_worker w = (if w = W_Sleep then Some W_Woken else None)"

definition woken_caller :: "caller_pc \<Rightarrow> caller_pc option" where
  "woken_caller c = (case c of C_Sleep b \<Rightarrow> Some (C_Woken b) | _ \<Rightarrow> None)"

inductive ucb_cond_signal :: "('p \<Rightarrow> 'p option) \<Rightarrow> (nat \<Rightarrow> 'p) \<Rightarrow> (nat \<Rightarrow> 'p) \<Rightarrow> bool" for wake pcs where
  wake_one: "wake (pcs i) = Some p \<Longrightarrow> ucb_cond_signal wake pcs (pcs(i := p))"
| nobody: "(\<forall>i. wake (pcs i) = None) \<Longrightarrow> ucb_cond_signal wake pcs pcs"

definition ucb_cond_broadcast :: "('p \<Rightarrow> 'p option) \<Rightarrow> (nat \<Rightarrow> 'p) \<Rightarrow> (nat \<Rightarrow> 'p)" where
  "ucb_cond_broadcast wake pcs = (\<lambda>i. case wake (pcs i) of None \<Rightarrow> pcs i | Some p \<Rightarrow> p)"

text \<open>The threads that a start created begin at the top of the worker's loop.\<close>

definition launch :: "nat \<Rightarrow> (nat \<Rightarrow> worker_pc) \<Rightarrow> (nat \<Rightarrow> worker_pc)" where
  "launch k ws = (\<lambda>i. if i < k then W_Lock else ws i)"

datatype label =
    Worker_step nat
  | Caller_step nat
  | Start_failed nat
  | New_call nat call
  | Set_callback "nat option"
  | Spurious thr

inductive pool_step ::
    "mem_env \<Rightarrow> thread_env \<Rightarrow> (nat \<Rightarrow> nat \<Rightarrow> int) \<Rightarrow> pool_sys \<Rightarrow> label \<Rightarrow> pool_sys \<Rightarrow> bool"
  for me te exec where
  w_lock: "workers s i \<in> {W_Lock, W_Woken} \<Longrightarrow> holder s = None \<Longrightarrow>
    pool_step me te exec s (Worker_step i)
      (s\<lparr>workers := (workers s)(i := W_Test), holder := Some (Worker i)\<rparr>)"
| w_sleep: "workers s i = W_Test \<Longrightarrow> worker_test (pool s) = Ret (Sleep, p) \<Longrightarrow>
    pool_step me te exec s (Worker_step i)
      (s\<lparr>pool := p, workers := (workers s)(i := W_Sleep), holder := None\<rparr>)"
| w_leave: "workers s i = W_Test \<Longrightarrow> worker_test (pool s) = Ret (Leave, p) \<Longrightarrow>
    pool_step me te exec s (Worker_step i)
      (s\<lparr>pool := p, workers := (workers s)(i := W_Leaving), holder := None\<rparr>)"
| w_take: "workers s i = W_Test \<Longrightarrow> worker_test (pool s) = Ret (Take t, p) \<Longrightarrow>
    pool_step me te exec s (Worker_step i)
      (s\<lparr>pool := p, workers := (workers s)(i := W_Run t), holder := None\<rparr>)"
| w_run: "workers s i = W_Run t \<Longrightarrow> worker_run exec t = Ret evs \<Longrightarrow>
    pool_step me te exec s (Worker_step i)
      (s\<lparr>workers := (workers s)(i := W_Relock), calls := calls s @ evs,
         finished := finished s @ (case t of None \<Rightarrow> [] | Some t \<Rightarrow> [t])\<rparr>)"
| w_relock: "workers s i = W_Relock \<Longrightarrow> holder s = None \<Longrightarrow>
    pool_step me te exec s (Worker_step i)
      (s\<lparr>workers := (workers s)(i := W_Finish), holder := Some (Worker i)\<rparr>)"
| w_finish: "workers s i = W_Finish \<Longrightarrow> ucb_cond_signal woken_caller (callers s) cs \<Longrightarrow>
    pool_step me te exec s (Worker_step i)
      (s\<lparr>pool := worker_done (pool s), workers := (workers s)(i := W_Lock), callers := cs,
         holder := None\<rparr>)"
| w_exit: "workers s i = W_Leaving \<Longrightarrow> i < length (threads (pool s)) \<Longrightarrow>
    pool_step me te exec s (Worker_step i)
      (s\<lparr>pool := (pool s)\<lparr>threads := (threads (pool s))[i := posix_thread_wrapper_end (threads (pool s) ! i) 1]\<rparr>,
         workers := (workers s)(i := W_Exit)\<rparr>)"
| w_spurious: "workers s i = W_Sleep \<Longrightarrow>
    pool_step me te exec s (Spurious (Worker i)) (s\<lparr>workers := (workers s)(i := W_Woken)\<rparr>)"
| c_call: "callers s c = C_Idle \<Longrightarrow> (\<And>t. call = Add t \<Longrightarrow> t_func t \<noteq> None) \<Longrightarrow>
    pool_step me te exec s (New_call c call) (s\<lparr>callers := (callers s)(c := C_Lock call)\<rparr>)"
| c_set_callback:
    "pool_step me te exec s (Set_callback cb)
      (s\<lparr>pool := ucb_threadpool_set_default_callback (pool s) cb\<rparr>)"
| c_lock: "callers s c = C_Lock call \<Longrightarrow> holder s = None \<Longrightarrow>
    pool_step me te exec s (Caller_step c)
      (s\<lparr>callers := (callers s)(c := C_In call), holder := Some (Caller c)\<rparr>)"
| c_add: "callers s c = C_In (Add t) \<Longrightarrow>
    ucb_threadpool_add_task me (pool s) t = Ret (ct, notify, p) \<Longrightarrow>
    (if notify then ucb_cond_signal woken_worker (workers s) ws else ws = workers s) \<Longrightarrow>
    pool_step me te exec s (Caller_step c)
      (s\<lparr>pool := p, workers := ws, callers := (callers s)(c := C_Idle), holder := None,
         added := added s @ (case ct of None \<Rightarrow> [] | Some ct \<Rightarrow> [ct])\<rparr>)"
| c_num_running: "callers s c = C_In Num_running \<Longrightarrow>
    pool_step me te exec s (Caller_step c)
      (s\<lparr>callers := (callers s)(c := C_Idle), holder := None\<rparr>)"
| c_num_queued: "callers s c = C_In Num_queued \<Longrightarrow>
    ucb_threadpool_num_queued (pool s) = Ret (p, n) \<Longrightarrow>
    pool_step me te exec s (Caller_step c)
      (s\<lparr>pool := p, callers := (callers s)(c := C_Idle), holder := None\<rparr>)"
| c_start_running: "callers s c = C_In Start \<Longrightarrow> running (pool s) \<Longrightarrow>
    pool_step me te exec s (Caller_step c)
      (s\<lparr>callers := (callers s)(c := C_Idle), holder := None\<rparr>)"
| c_start: "callers s c = C_In Start \<Longrightarrow> \<not> running (pool s) \<Longrightarrow>
    ucb_threadpool_start_impl te k (pool s) = Ret (n, p) \<Longrightarrow> n = num_threads p \<Longrightarrow>
    pool_step me te exec s (Caller_step c)
      (s\<lparr>pool := p, workers := launch n (workers s), callers := (callers s)(c := C_Idle),
         holder := None\<rparr>)"
| c_start_fails: "callers s c = C_In Start \<Longrightarrow> \<not> running (pool s) \<Longrightarrow>
    ucb_threadpool_start_impl te k (pool s) = Ret (n, p) \<Longrightarrow> n \<noteq> num_threads p \<Longrightarrow>
    pool_step me te exec s (Start_failed c)
      (s\<lparr>pool := p, workers := ucb_cond_broadcast woken_worker (launch n (workers s)),
         callers := (callers s)(c := C_Reap n 0), holder := None\<rparr>)"
| c_wait_starts: "callers s c = C_In Wait_all \<Longrightarrow> wait_all_starts (pool s) = Ret (p, True) \<Longrightarrow>
    ucb_threadpool_start_impl te k p = Ret (n, p') \<Longrightarrow> n = num_threads p' \<Longrightarrow>
    pool_step me te exec s (Caller_step c)
      (s\<lparr>pool := p', workers := launch n (workers s), callers := (callers s)(c := C_Test For_all)\<rparr>)"
| c_wait_start_fails: "callers s c = C_In Wait_all \<Longrightarrow> wait_all_starts (pool s) = Ret (p, True) \<Longrightarrow>
    ucb_threadpool_start_impl te k p = Ret (n, p') \<Longrightarrow> n \<noteq> num_threads p' \<Longrightarrow>
    pool_step me te exec s (Start_failed c)
      (s\<lparr>pool := p', workers := ucb_cond_broadcast woken_worker (launch n (workers s)),
         callers := (callers s)(c := C_Reap n 0), holder := None\<rparr>)"
| c_wait_enters: "callers s c = C_In Wait_all \<Longrightarrow> wait_all_starts (pool s) = Ret (p, False) \<Longrightarrow>
    pool_step me te exec s (Caller_step c)
      (s\<lparr>pool := p, callers := (callers s)(c := C_Test For_all)\<rparr>)"
| c_wait_sleeps: "callers s c = C_Test For_all \<Longrightarrow> wait_all_test (pool s) = Ret (p, True) \<Longrightarrow>
    pool_step me te exec s (Caller_step c)
      (s\<lparr>pool := p, callers := (callers s)(c := C_Sleep For_all), holder := None\<rparr>)"
| c_wait_returns: "callers s c = C_Test For_all \<Longrightarrow> wait_all_test (pool s) = Ret (p, False) \<Longrightarrow>
    pool_step me te exec s (Caller_step c)
      (s\<lparr>pool := p, callers := (callers s)(c := C_Idle), holder := None\<rparr>)"
| c_woken: "callers s c = C_Woken b \<Longrightarrow> holder s = None \<Longrightarrow>
    pool_step me te exec s (Caller_step c)
      (s\<lparr>callers := (callers s)(c := C_Test b), holder := Some (Caller c)\<rparr>)"
| c_join_idle: "callers s c = C_In Join \<Longrightarrow> \<not> running (pool s) \<Longrightarrow> clear_tasks (pool s) = Ret p \<Longrightarrow>
    pool_step me te exec s (Caller_step c)
      (s\<lparr>pool := p, callers := (callers s)(c := C_Idle), holder := None\<rparr>)"
| c_join_stops: "callers s c = C_In Join \<Longrightarrow> running (pool s) \<Longrightarrow>
    pool_step me te exec s (Caller_step c)
      (s\<lparr>pool := (pool s)\<lparr>stop := True\<rparr>, workers := ucb_cond_broadcast woken_worker (workers s),
         callers := (callers s)(c := C_Test For_join)\<rparr>)"
| c_join_sleeps: "callers s c = C_Test For_join \<Longrightarrow> num_running (pool s) > 0 \<Longrightarrow>
    pool_step me te exec s (Caller_step c)
      (s\<lparr>callers := (callers s)(c := C_Sleep For_join), holder := None\<rparr>)"
| c_join_threads: "callers s c = C_Test For_join \<Longrightarrow> num_running (pool s) = 0 \<Longrightarrow>
    pool_step me te exec s (Caller_step c)
      (s\<lparr>callers := (callers s)(c := C_Joining 0), holder := None\<rparr>)"
| c_joining: "callers s c = C_Joining i \<Longrightarrow> i < num_threads (pool s) \<Longrightarrow>
    (th_handle (threads (pool s) ! i) \<longrightarrow> workers s i = W_Exit) \<Longrightarrow> join_thread (pool s) i = Ret p \<Longrightarrow>
    pool_step me te exec s (Caller_step c)
      (s\<lparr>pool := p, workers := (if th_handle (threads (pool s) ! i) then (workers s)(i := W_Off) else workers s),
         callers := (callers s)(c := C_Joining (i + 1))\<rparr>)"
| c_joined: "callers s c = C_Joining i \<Longrightarrow> i \<ge> num_threads (pool s) \<Longrightarrow>
    pool_step me te exec s (Caller_step c) (s\<lparr>callers := (callers s)(c := C_Join_lock)\<rparr>)"
| c_join_lock: "callers s c = C_Join_lock \<Longrightarrow> holder s = None \<Longrightarrow>
    pool_step me te exec s (Caller_step c)
      (s\<lparr>callers := (callers s)(c := C_Join_end), holder := Some (Caller c)\<rparr>)"
| c_join_end: "callers s c = C_Join_end \<Longrightarrow> join_end (pool s) = Ret p \<Longrightarrow>
    pool_step me te exec s (Caller_step c)
      (s\<lparr>pool := p, callers := (callers s)(c := C_Idle), holder := None\<rparr>)"
| c_reaping: "callers s c = C_Reap n i \<Longrightarrow> i < n \<Longrightarrow>
    (th_handle (threads (pool s) ! i) \<longrightarrow> workers s i = W_Exit) \<Longrightarrow> join_thread (pool s) i = Ret p \<Longrightarrow>
    pool_step me te exec s (Caller_step c)
      (s\<lparr>pool := p, workers := (if th_handle (threads (pool s) ! i) then (workers s)(i := W_Off) else workers s),
         callers := (callers s)(c := C_Reap n (i + 1))\<rparr>)"
| c_reaped: "callers s c = C_Reap n i \<Longrightarrow> i \<ge> n \<Longrightarrow>
    pool_step me te exec s (Caller_step c) (s\<lparr>callers := (callers s)(c := C_Reap_lock)\<rparr>)"
| c_reap_lock: "callers s c = C_Reap_lock \<Longrightarrow> holder s = None \<Longrightarrow>
    pool_step me te exec s (Caller_step c)
      (s\<lparr>callers := (callers s)(c := C_Reap_end), holder := Some (Caller c)\<rparr>)"
| c_reap_end: "callers s c = C_Reap_end \<Longrightarrow>
    pool_step me te exec s (Caller_step c)
      (s\<lparr>pool := reap_end (pool s), callers := (callers s)(c := C_Idle), holder := None\<rparr>)"
| c_spurious: "callers s c = C_Sleep b \<Longrightarrow>
    pool_step me te exec s (Spurious (Caller c)) (s\<lparr>callers := (callers s)(c := C_Woken b)\<rparr>)"

text \<open>The states that a new pool can get into.\<close>

definition pool_start :: "ucb_threadpool \<Rightarrow> pool_sys" where
  "pool_start p = \<lparr>pool = p, holder = None, workers = (\<lambda>_. W_Off), callers = (\<lambda>_. C_Idle),
     added = [], finished = [], calls = []\<rparr>"

inductive pool_reach :: "mem_env \<Rightarrow> thread_env \<Rightarrow> (nat \<Rightarrow> nat \<Rightarrow> int) \<Rightarrow> pool_sys \<Rightarrow> bool"
  for me te exec where
  begin_new: "ucb_threadpool_new me True True True fresh n = Ret (Some p) \<Longrightarrow>
    pool_reach me te exec (pool_start p)"
| one_step: "pool_reach me te exec s \<Longrightarrow> pool_step me te exec s l s' \<Longrightarrow> pool_reach me te exec s'"

end
