(* ===== verification/Threadpool_Inv.thy ===== *)
theory Threadpool_Inv
  imports Threadpool
begin

text \<open>
  Invariants of the thread pool. The pool relies on its task queue through the contract
  \<open>task_queue\<close>, which extends the contract of a priority queue and is interpreted on the queue
  inside the pool object. Then: what each section of code does to a well-formed pool, and the
  invariant of all reachable states.
\<close>

section \<open>The task queue inside the pool\<close>

locale task_queue = prio_queue holds push pop bound
  for holds :: "'s \<Rightarrow> (int \<times> 'd) list \<Rightarrow> bool"
    and push :: "'s \<Rightarrow> 'd \<Rightarrow> int \<Rightarrow> ('s \<times> nat) result"
    and pop :: "'s \<Rightarrow> ('s \<times> 'd option) result"
    and bound :: nat +
  fixes empty :: "'s \<Rightarrow> ('s \<times> bool) result"
    and clear :: "'s \<Rightarrow> 's result"
    and dropped :: "'s \<Rightarrow> 'd list"
    and rest :: "'s \<Rightarrow> 'r"
  assumes push_frame: "holds s q \<Longrightarrow> length q < bound \<Longrightarrow> push s d p = Ret (s', i) \<Longrightarrow>
      dropped s' = dropped s \<and> rest s' = rest s"
    and pop_frame: "holds s (x # q) \<Longrightarrow> pop s = Ret (s', y) \<Longrightarrow>
      dropped s' = dropped s \<and> rest s' = rest s"
    and empty_law: "holds s q \<Longrightarrow> empty s = Ret (s, q = [])"
    and clear_law: "holds s q \<Longrightarrow> \<exists>s'. clear s = Ret s' \<and> holds s' []
      \<and> dropped s' = dropped s @ map snd q \<and> rest s' = rest s"
begin

text \<open>The items a queue is answerable for: those in it and those it dropped.\<close>

definition content :: "'s \<Rightarrow> (int \<times> 'd) list \<Rightarrow> 'd multiset" where
  "content s q = mset (map snd q) + mset (dropped s)"

lemma push_content:
  assumes "holds s q" "length q < bound"
  shows "\<exists>s'. push s d p = Ret (s', model_pos p q) \<and> holds s' (model_push d p q)
    \<and> content s' (model_push d p q) = add_mset d (content s q) \<and> rest s' = rest s"
proof -
  obtain s' where s': "push s d p = Ret (s', model_pos p q)" "holds s' (model_push d p q)"
    using push_law [OF assms] by blast
  have "mset (map snd (model_push d p q)) = add_mset d (mset (map snd q))"
    by (simp add: model_push_mset)
  then show ?thesis using s' push_frame [OF assms s'(1)] by (simp add: content_def)
qed

lemma pop_content:
  assumes "holds s (x # q)"
  shows "\<exists>s'. pop s = Ret (s', Some (snd x)) \<and> holds s' q
    \<and> content s (x # q) = add_mset (snd x) (content s' q) \<and> rest s' = rest s"
proof -
  obtain s' where s': "pop s = Ret (s', Some (snd x))" "holds s' q" using pop_law [OF assms] by blast
  then show ?thesis using pop_frame [OF assms s'(1)] by (simp add: content_def)
qed

lemma clear_content:
  assumes "holds s q"
  shows "\<exists>s'. clear s = Ret s' \<and> holds s' [] \<and> content s' [] = content s q \<and> rest s' = rest s"
  using clear_law [OF assms] by (auto simp: content_def)

end

definition task_push :: "mem_env \<Rightarrow> ucb_threadpool \<Rightarrow> ucb_task \<Rightarrow> int \<Rightarrow> (ucb_threadpool \<times> nat) result" where
  "task_push me p t prio =
     rbind (ucb_pqueue_push me (nodes p) (tasks p) t prio) (\<lambda>(st, q, i). Ret (p\<lparr>tasks := q, nodes := st\<rparr>, i))"

definition task_pop :: "ucb_threadpool \<Rightarrow> (ucb_threadpool \<times> ucb_task option) result" where
  "task_pop p =
     rbind (ucb_pqueue_pop (nodes p) (tasks p)) (\<lambda>(st, q, t). Ret (p\<lparr>tasks := q, nodes := st\<rparr>, t))"

definition task_empty :: "ucb_threadpool \<Rightarrow> (ucb_threadpool \<times> bool) result" where
  "task_empty p = rbind (ucb_pqueue_empty (tasks p)) (\<lambda>(q, e). Ret (p\<lparr>tasks := q\<rparr>, e))"

definition discarded :: "ucb_threadpool \<Rightarrow> ucb_task list" where
  "discarded p = freed_data (nodes p)"

definition pool_rest :: "ucb_threadpool \<Rightarrow> ucb_thread list \<times> nat \<times> nat \<times> bool \<times> bool \<times> nat option" where
  "pool_rest p = (threads p, num_threads p, num_running p, running p, stop p, dflt_callback p)"

definition pool_holds :: "mem_env \<Rightarrow> ucb_threadpool \<Rightarrow> ucb_task pq_model \<Rightarrow> bool" where
  "pool_holds me p q = (grants_upto me (2 ^ 40) \<and> pq_holds (nodes p, tasks p) q
     \<and> data_clone (tasks p) = None \<and> data_free (tasks p) \<and> alloc_buckets (tasks p) \<le> 2 ^ 32)"

lemma world_of_pool:
  "pool_holds me p q \<Longrightarrow> world_holds (me, nodes p, tasks p) q"
  by (simp add: pool_holds_def world_holds_def)

lemma task_push_pq:
  assumes h: "pool_holds me p q" and n: "length q < 2 ^ 31 - 1"
  shows "\<exists>st' pq'. ucb_pqueue_push me (nodes p) (tasks p) t prio = Ret (st', pq', model_pos prio q)
    \<and> pool_holds me (p\<lparr>tasks := pq', nodes := st'\<rparr>) (model_push t prio q)
    \<and> freed_data st' = freed_data (nodes p)"
proof -
  have h': "pq_holds (nodes p, tasks p) q" "grants_upto me (2 ^ 40)" "data_clone (tasks p) = None"
    "data_free (tasks p)" "alloc_buckets (tasks p) \<le> 2 ^ 32" using h by (auto simp: pool_holds_def)
  have nb: "num_buckets (tasks p) < 2 ^ 31" using holds_num_buckets [OF h'(1)] n by simp
  have gr: "m \<le> 2 ^ 40 \<Longrightarrow> granted me m" for m using granted_upto [OF h'(2)] .
  have mem: "push_memory me (tasks p)"
    unfolding push_memory_def using gr h'(5) by (simp add: sizeof_node_def sizeof_bucket_def)
  have al: "grown_alloc (tasks p) \<le> 2 ^ 32" using nb h'(5) by (auto simp: grown_alloc_def)
  have d: "pushed_data (tasks p) t = Some t" using h'(3) by (simp add: pushed_data_def)
  have "length q + 1 < 2 ^ 63" using n by simp
  from pq_push_spec [OF h'(1) nb this mem d, of prio] show ?thesis
    using h' al by (auto simp: pool_holds_def)
qed

lemma task_pop_pq:
  assumes h: "pool_holds me p (x # q)"
  shows "\<exists>st' pq'. ucb_pqueue_pop (nodes p) (tasks p) = Ret (st', pq', Some (snd x))
    \<and> pool_holds me (p\<lparr>tasks := pq', nodes := st'\<rparr>) q \<and> freed_data st' = freed_data (nodes p)"
proof -
  have "pq_holds (nodes p, tasks p) ((fst x, snd x) # q)" using h by (simp add: pool_holds_def)
  from pq_pop_spec [OF this] h show ?thesis by (auto simp: pool_holds_def)
qed

interpretation queue: task_queue "pool_holds me" "task_push me" task_pop "2 ^ 31 - 1"
    task_empty clear_tasks discarded pool_rest for me
proof (unfold_locales, goal_cases)
  case (1 s q d p)
  from task_push_pq [OF this, of d p] show ?case by (auto simp: task_push_def)
next
  case (2 s x q)
  from task_pop_pq [OF this] show ?case by (auto simp: task_pop_def)
next
  case (3 s)
  then have "pq_holds (nodes s, tasks s) []" by (simp add: pool_holds_def)
  from pq_pop_empty [OF this] 3 show ?case by (auto simp: task_pop_def)
next
  case (4 s q d p s' i)
  from task_push_pq [OF 4(1,2), of d p] 4(3) show ?case
    by (auto simp: task_push_def discarded_def pool_rest_def)
next
  case (5 s x q s' y)
  from task_pop_pq [OF 5(1)] 5(2) show ?case
    by (auto simp: task_pop_def discarded_def pool_rest_def)
next
  case (6 s q)
  then have "pq_holds (nodes s, tasks s) q" by (simp add: pool_holds_def)
  from pq_empty_spec [OF this] show ?case by (simp add: task_empty_def)
next
  case (7 s q)
  then have "pq_holds (nodes s, tasks s) q" "data_free (tasks s)" by (simp_all add: pool_holds_def)
  from pq_clear_spec [OF this(1)] this(2) 7 show ?case
    by (auto simp: clear_tasks_def pool_holds_def discarded_def pool_rest_def)
qed

section \<open>What the sections do to a well-formed pool\<close>

lemma pool_rest_eq:
  "pool_rest p' = pool_rest p \<longleftrightarrow> threads p' = threads p \<and> num_threads p' = num_threads p
     \<and> num_running p' = num_running p \<and> running p' = running p \<and> stop p' = stop p
     \<and> dflt_callback p' = dflt_callback p"
  by (auto simp: pool_rest_def)

lemma worker_test_eq:
  "worker_test p =
     rbind (task_empty p) (\<lambda>(p, e).
     if e \<and> \<not> stop p then Ret (Sleep, p) else if stop p then Ret (Leave, p)
     else rbind (task_pop p) (\<lambda>(p, t). Ret (Take t, p\<lparr>num_running := usize (num_running p + 1)\<rparr>)))"
  unfolding worker_test_def task_empty_def
  by (cases "ucb_pqueue_empty (tasks p)")
    (auto simp: task_pop_def rbind_assoc case_prod_beta intro!: rbind_cong)

lemma pool_holds_num_running [simp]: "pool_holds me (p\<lparr>num_running := k\<rparr>) q = pool_holds me p q"
  "pool_holds me (p\<lparr>running := b\<rparr>) q = pool_holds me p q"
  "pool_holds me (p\<lparr>stop := b\<rparr>) q = pool_holds me p q"
  "pool_holds me (p\<lparr>threads := ths\<rparr>) q = pool_holds me p q"
  "pool_holds me (p\<lparr>dflt_callback := cb\<rparr>) q = pool_holds me p q"
  by (simp_all add: pool_holds_def)

lemma discarded_simps [simp]: "discarded (p\<lparr>num_running := k\<rparr>) = discarded p"
  "discarded (p\<lparr>running := b\<rparr>) = discarded p" "discarded (p\<lparr>stop := b\<rparr>) = discarded p"
  "discarded (p\<lparr>threads := ths\<rparr>) = discarded p" "discarded (p\<lparr>dflt_callback := cb\<rparr>) = discarded p"
  by (simp_all add: discarded_def)

lemma worker_test_stop: "pool_holds me p q \<Longrightarrow> stop p \<Longrightarrow> worker_test p = Ret (Leave, p)"
  by (simp add: worker_test_eq queue.empty_law)

lemma worker_test_sleep: "pool_holds me p [] \<Longrightarrow> \<not> stop p \<Longrightarrow> worker_test p = Ret (Sleep, p)"
  by (simp add: worker_test_eq queue.empty_law)

lemma worker_test_take:
  assumes "pool_holds me p (x # q)" "\<not> stop p"
  shows "\<exists>p'. worker_test p = Ret (Take (Some (snd x)), p') \<and> pool_holds me p' q
    \<and> discarded p' = discarded p \<and> num_running p' = usize (num_running p + 1)
    \<and> threads p' = threads p \<and> num_threads p' = num_threads p \<and> running p' = running p \<and> \<not> stop p'
    \<and> dflt_callback p' = dflt_callback p"
proof -
  obtain p' where p': "task_pop p = Ret (p', Some (snd x))" "pool_holds me p' q"
    using queue.pop_law [OF assms(1)] by blast
  have "discarded p' = discarded p" "pool_rest p' = pool_rest p"
    using queue.pop_frame [OF assms(1) p'(1)] by simp_all
  then show ?thesis using p' assms
    by (simp add: worker_test_eq queue.empty_law pool_rest_eq)
qed

lemma queued_task_fields [simp]:
  "t_func (queued_task p t) = t_func t" "t_prio (queued_task p t) = t_prio t" "t_arg (queued_task p t) = t_arg t"
  by (simp_all add: queued_task_def)

lemma add_task_spec:
  assumes h: "pool_holds me p q" and n: "length q < 2 ^ 31 - 1" and f: "t_func t \<noteq> None"
  shows "\<exists>p'. ucb_threadpool_add_task me p t = Ret (Some (queued_task p t), running p, p')
    \<and> pool_holds me p' (model_push (queued_task p t) (t_prio t) q)
    \<and> discarded p' = discarded p \<and> pool_rest p' = pool_rest p"
proof -
  have g: "granted me sizeof_task"
    using h granted_upto [of me "2 ^ 40" 32] by (simp add: pool_holds_def sizeof_task_def)
  obtain p' where p': "task_push me p (queued_task p t) (t_prio t) = Ret (p', model_pos (t_prio t) q)"
    "pool_holds me p' (model_push (queued_task p t) (t_prio t) q)"
    using queue.push_law [OF h n] by blast
  have fr: "discarded p' = discarded p" "pool_rest p' = pool_rest p"
    using queue.push_frame [OF h n p'(1)] by simp_all
  have "model_pos (t_prio t) q \<le> length q" by (simp add: model_pos_def length_takeWhile_le)
  then have i: "model_pos (t_prio t) q \<noteq> SIZE_MAX" using n by (simp add: SIZE_MAX_def)
  obtain st' pq' where r: "ucb_pqueue_push me (nodes p) (tasks p) (queued_task p t) (t_prio t)
      = Ret (st', pq', model_pos (t_prio t) q)" "p' = p\<lparr>tasks := pq', nodes := st'\<rparr>"
    using p'(1) by (auto simp: task_push_def)
  have "ucb_threadpool_add_task me p t = Ret (Some (queued_task p t), running p, p')"
    using f r i ucb_task_clone_granted [OF g, of t]
    by (simp add: ucb_threadpool_add_task_def Let_def)
  then show ?thesis using p'(2) fr by blast
qed

lemma num_queued_spec:
  "pool_holds me p q \<Longrightarrow> ucb_threadpool_num_queued p = Ret (p, length q)"
  using pq_size_spec [of "nodes p" "tasks p" q] by (simp add: pool_holds_def ucb_threadpool_num_queued_def)

lemma wait_all_starts_spec:
  "pool_holds me p q \<Longrightarrow> wait_all_starts p = Ret (p, \<not> running p \<and> q \<noteq> [])"
  using pq_empty_spec [of "nodes p" "tasks p" q] by (simp add: pool_holds_def wait_all_starts_def)

lemma wait_all_test_spec:
  "pool_holds me p q \<Longrightarrow> wait_all_test p = Ret (p, num_running p > 0 \<or> q \<noteq> [])"
  using pq_empty_spec [of "nodes p" "tasks p" q] by (simp add: pool_holds_def wait_all_test_def)

lemma clear_tasks_spec:
  assumes "pool_holds me p q"
  shows "\<exists>p'. clear_tasks p = Ret p' \<and> pool_holds me p' [] \<and> discarded p' = discarded p @ map snd q
    \<and> pool_rest p' = pool_rest p"
  using queue.clear_law [OF assms] by blast

text \<open>The loop that starts the threads.\<close>

lemma start_threads_spec:
  "start_threads te k ths = Ret (n, ths') \<Longrightarrow>
   n \<le> k \<and> n \<le> length ths \<and> length ths' = length ths
   \<and> (\<forall>i < n. \<not> th_running (ths ! i) \<and> th_running (ths' ! i)
        \<and> (\<not> th_detached (ths ! i) \<longrightarrow> th_handle (ths' ! i)))
   \<and> (\<forall>i < length ths. th_detached (ths' ! i) = th_detached (ths ! i)
        \<and> (n \<le> i \<longrightarrow> th_handle (ths' ! i) = th_handle (ths ! i)
                     \<and> th_running (ths' ! i) = th_running (ths ! i)))"
proof (induction ths arbitrary: k n ths')
  case (Cons th ths)
  obtain ok th1 where st: "ucb_thread_start te (k > 0) th worker_task = Ret (ok, th1)"
    using Cons.prems by auto
  note f = thread_start_fields [OF st]
  show ?case
  proof (cases ok)
    case False
    then have "n = 0" "ths' = th1 # ths" using Cons.prems st by auto
    then show ?thesis using f False by (auto simp: nth_Cons split: nat.splits)
  next
    case True
    then obtain m ths1 where r: "start_threads te (k - 1) ths = Ret (m, ths1)" "n = m + 1" "ths' = th1 # ths1"
      using Cons.prems st by auto
    show ?thesis using Cons.IH [OF r(1)] f True r(2,3)
      by (auto simp: nth_Cons split: nat.splits)
  qed
qed simp

lemma start_threads_total:
  "\<forall>th \<in> set ths. \<not> th_running th \<Longrightarrow> length ths \<le> k \<Longrightarrow>
   \<exists>ths'. start_threads te k ths = Ret (length ths, ths')"
proof (induction ths arbitrary: k)
  case (Cons th ths)
  obtain th1 where "ucb_thread_start te (k > 0) th worker_task = Ret (True, th1)"
    using Cons.prems by (auto simp: ucb_thread_start_def ucb_task_validate_def worker_task_def
        UCB_TASK_PRIO_LOWEST_def UCB_TASK_PRIO_HIGHEST_def Let_def)
  moreover obtain ths1 where "start_threads te (k - 1) ths = Ret (length ths, ths1)"
    using Cons.IH [of "k - 1"] Cons.prems by (cases k) auto
  ultimately show ?case by simp
qed simp

lemma start_impl_spec:
  assumes "ucb_threadpool_start_impl te k p = Ret (n, p')" "\<not> running p"
  shows "start_threads te k (threads p) = Ret (n, threads p')" "running p'"
    "stop p' = (n \<noteq> num_threads p)" "num_threads p' = num_threads p" "num_running p' = num_running p"
    "tasks p' = tasks p" "nodes p' = nodes p" "dflt_callback p' = dflt_callback p"
  using assms by (auto simp: ucb_threadpool_start_impl_def Let_def)

lemma join_thread_spec:
  assumes "join_thread p i = Ret p'"
  shows "p' = p\<lparr>threads := (threads p)[i := (threads p ! i)\<lparr>th_handle := False, th_running := False\<rparr>]\<rparr>"
  using assms by (cases "threads p ! i") (auto simp: join_thread_def ucb_thread_join_def split: if_splits)

section \<open>The mutex\<close>

definition in_section :: "worker_pc \<Rightarrow> bool" where
  "in_section w \<longleftrightarrow> w = W_Test \<or> w = W_Finish"

definition caller_in_section :: "caller_pc \<Rightarrow> bool" where
  "caller_in_section c = (case c of C_In _ \<Rightarrow> True | C_Test _ \<Rightarrow> True | C_Reap_end \<Rightarrow> True
     | C_Join_end \<Rightarrow> True | _ \<Rightarrow> False)"

lemma in_section_simps [simp]:
  "in_section W_Test" "in_section W_Finish" "\<not> in_section W_Off" "\<not> in_section W_Lock"
  "\<not> in_section W_Sleep" "\<not> in_section W_Woken" "\<not> in_section (W_Run t)" "\<not> in_section W_Relock"
  "\<not> in_section W_Leaving" "\<not> in_section W_Exit"
  by (simp_all add: in_section_def)

lemma caller_in_section_simps [simp]:
  "caller_in_section (C_In k)" "caller_in_section (C_Test b)" "caller_in_section C_Reap_end"
  "caller_in_section C_Join_end" "\<not> caller_in_section C_Idle" "\<not> caller_in_section (C_Lock k)"
  "\<not> caller_in_section (C_Sleep b)" "\<not> caller_in_section (C_Woken b)" "\<not> caller_in_section (C_Reap n i)"
  "\<not> caller_in_section C_Reap_lock" "\<not> caller_in_section (C_Joining i)" "\<not> caller_in_section C_Join_lock"
  by (simp_all add: caller_in_section_def)

definition lock_ok :: "thr option \<Rightarrow> (nat \<Rightarrow> worker_pc) \<Rightarrow> (nat \<Rightarrow> caller_pc) \<Rightarrow> bool" where
  "lock_ok h ws cs \<longleftrightarrow> (\<forall>i. h = Some (Worker i) \<longleftrightarrow> in_section (ws i))
     \<and> (\<forall>c. h = Some (Caller c) \<longleftrightarrow> caller_in_section (cs c))"

abbreviation lock_inv :: "pool_sys \<Rightarrow> bool" where
  "lock_inv s \<equiv> lock_ok (holder s) (workers s) (callers s)"

lemma lock_worker_holds: "lock_ok h ws cs \<Longrightarrow> in_section (ws i) \<Longrightarrow> h = Some (Worker i)"
  by (simp add: lock_ok_def)

lemma lock_caller_holds: "lock_ok h ws cs \<Longrightarrow> caller_in_section (cs c) \<Longrightarrow> h = Some (Caller c)"
  by (simp add: lock_ok_def)

lemma worker_takes: "lock_ok None ws cs \<Longrightarrow> in_section w \<Longrightarrow> lock_ok (Some (Worker i)) (ws(i := w)) cs"
  by (auto simp: lock_ok_def)

lemma worker_leaves:
  assumes "lock_ok h ws cs" "in_section (ws i)" "\<not> in_section w"
    "\<forall>c. caller_in_section (cs' c) = caller_in_section (cs c)"
  shows "lock_ok None (ws(i := w)) cs'"
  using assms lock_worker_holds [OF assms(1,2)] by (auto simp: lock_ok_def)

lemma worker_moves: "lock_ok h ws cs \<Longrightarrow> in_section w = in_section (ws i) \<Longrightarrow> lock_ok h (ws(i := w)) cs"
  by (auto simp: lock_ok_def)

lemma caller_takes:
  "lock_ok None ws cs \<Longrightarrow> caller_in_section w \<Longrightarrow> lock_ok (Some (Caller c)) ws (cs(c := w))"
  by (auto simp: lock_ok_def)

lemma caller_leaves:
  assumes "lock_ok h ws cs" "caller_in_section (cs c)" "\<not> caller_in_section w"
    "\<forall>i. in_section (ws' i) = in_section (ws i)"
  shows "lock_ok None ws' (cs(c := w))"
  using assms lock_caller_holds [OF assms(1,2)] by (auto simp: lock_ok_def)

lemma caller_moves:
  "lock_ok h ws cs \<Longrightarrow> caller_in_section w = caller_in_section (cs c) \<Longrightarrow>
   \<forall>i. in_section (ws' i) = in_section (ws i) \<Longrightarrow> lock_ok h ws' (cs(c := w))"
  by (auto simp: lock_ok_def)

lemmas lock_moves = worker_takes worker_leaves worker_moves caller_takes caller_leaves caller_moves

lemma signal_in_section:
  "ucb_cond_signal woken_caller cs cs' \<Longrightarrow> caller_in_section (cs' c) = caller_in_section (cs c)"
  by (elim ucb_cond_signal.cases) (auto simp: woken_caller_def split: caller_pc.splits)

lemma signal_worker_in_section:
  "ucb_cond_signal woken_worker ws ws' \<Longrightarrow> in_section (ws' i) = in_section (ws i)"
  by (elim ucb_cond_signal.cases) (auto simp: woken_worker_def split: if_splits)

lemma broadcast_in_section [simp]:
  "in_section (ucb_cond_broadcast woken_worker ws i) = in_section (ws i)"
  by (auto simp: ucb_cond_broadcast_def woken_worker_def)

text \<open>While a caller is in a section no worker is, so starting threads disturbs none.\<close>

lemma caller_launches:
  assumes "lock_ok h ws cs" "caller_in_section (cs c)"
  shows "in_section (launch k ws i) = in_section (ws i)"
  using assms lock_caller_holds [OF assms] by (auto simp: lock_ok_def launch_def)

lemma lock_inv_step:
  assumes "pool_step me te exec s l s'" "lock_inv s"
  shows "lock_inv s'"
  using assms(1)
proof cases
  case (w_finish i cs)
  then show ?thesis using assms(2) signal_in_section [OF w_finish(4)]
    by (auto intro!: worker_leaves)
next
  case (c_add c t ct notify p ws)
  then have "\<forall>i. in_section (ws i) = in_section (workers s i)"
    by (auto simp: signal_worker_in_section split: if_splits)
  then show ?thesis using c_add assms(2) by (auto intro!: caller_leaves)
next
  case (c_joining c i p)
  have "\<forall>j. in_section ((if h then (workers s)(i := W_Off) else workers s) j) = in_section (workers s j)"
    if "h \<longrightarrow> workers s i = W_Exit" for h using that by simp
  from this [OF c_joining(5)] show ?thesis unfolding c_joining(2)
    using assms(2) c_joining(3) by (simp add: caller_moves)
next
  case (c_reaping c n i p)
  have "\<forall>j. in_section ((if h then (workers s)(i := W_Off) else workers s) j) = in_section (workers s j)"
    if "h \<longrightarrow> workers s i = W_Exit" for h using that by simp
  from this [OF c_reaping(5)] show ?thesis unfolding c_reaping(2)
    using assms(2) c_reaping(3) by (simp add: caller_moves)
next
  case (w_lock i)
  then show ?thesis using assms(2) by (auto intro!: worker_takes)
next
  case (w_relock i)
  then show ?thesis using assms(2) by (auto intro!: worker_takes)
next
  case (w_sleep i p)
  then show ?thesis using assms(2) worker_leaves [of _ _ _ i] by auto
next
  case (w_leave i p)
  then show ?thesis using assms(2) worker_leaves [of _ _ _ i] by auto
next
  case (w_take i t p)
  then show ?thesis using assms(2) worker_leaves [of _ _ _ i] by auto
next
  case (c_start c k n p)
  then show ?thesis using assms(2) caller_launches [OF assms(2), of c]
    by (auto intro!: caller_leaves)
next
  case (c_start_fails c k n p)
  then show ?thesis using assms(2) caller_launches [OF assms(2), of c]
    by (auto intro!: caller_leaves)
next
  case (c_wait_starts c p k n p')
  then show ?thesis using assms(2) caller_launches [OF assms(2), of c]
    by (auto intro!: caller_moves)
next
  case (c_wait_start_fails c p k n p')
  then show ?thesis using assms(2) caller_launches [OF assms(2), of c]
    by (auto intro!: caller_leaves)
qed (use assms(2) in \<open>simp_all add: worker_moves caller_takes caller_leaves caller_moves
    ucb_threadpool_set_default_callback_def\<close>)

section \<open>The threads behind the workers\<close>

text \<open>A worker that has started and not yet returned has a thread that is marked as running.\<close>

definition alive :: "worker_pc \<Rightarrow> bool" where
  "alive w \<longleftrightarrow> w \<noteq> W_Off \<and> w \<noteq> W_Exit"

lemma alive_simps [simp]:
  "\<not> alive W_Off" "\<not> alive W_Exit" "alive W_Lock" "alive W_Test" "alive W_Sleep" "alive W_Woken"
  "alive (W_Run t)" "alive W_Relock" "alive W_Finish" "alive W_Leaving"
  by (simp_all add: alive_def)

definition threads_ok :: "ucb_thread list \<Rightarrow> nat \<Rightarrow> (nat \<Rightarrow> worker_pc) \<Rightarrow> bool" where
  "threads_ok ths n ws \<longleftrightarrow> length ths = n \<and> (\<forall>th \<in> set ths. \<not> th_detached th)
     \<and> (\<forall>i < n. alive (ws i) \<longrightarrow> th_running (ths ! i) \<and> th_handle (ths ! i))
     \<and> (\<forall>i \<ge> n. ws i = W_Off)"

fun reap_le :: "nat \<Rightarrow> caller_pc \<Rightarrow> bool" where
  "reap_le n (C_Reap m i) = (m \<le> n)"
| "reap_le n _ = True"

definition reaps_ok :: "nat \<Rightarrow> (nat \<Rightarrow> caller_pc) \<Rightarrow> bool" where
  "reaps_ok n cs \<longleftrightarrow> (\<forall>c. reap_le n (cs c))"

abbreviation thread_inv :: "pool_sys \<Rightarrow> bool" where
  "thread_inv s \<equiv> threads_ok (threads (pool s)) (num_threads (pool s)) (workers s)
     \<and> reaps_ok (num_threads (pool s)) (callers s)"

definition pool_threads :: "ucb_threadpool \<Rightarrow> ucb_thread list \<times> nat" where
  "pool_threads p = (threads p, num_threads p)"

lemma section_threads:
  "worker_test p = Ret (x, p') \<Longrightarrow> pool_threads p' = pool_threads p"
  "ucb_threadpool_add_task me p t = Ret (ct, b, p') \<Longrightarrow> pool_threads p' = pool_threads p"
  "ucb_threadpool_num_queued p = Ret (p', m) \<Longrightarrow> pool_threads p' = pool_threads p"
  "wait_all_starts p = Ret (p', b) \<Longrightarrow> pool_threads p' = pool_threads p"
  "wait_all_test p = Ret (p', b) \<Longrightarrow> pool_threads p' = pool_threads p"
  "clear_tasks p = Ret p' \<Longrightarrow> pool_threads p' = pool_threads p"
  "join_end p = Ret p' \<Longrightarrow> pool_threads p' = pool_threads p"
  by (auto simp: pool_threads_def worker_test_def ucb_threadpool_add_task_def
      ucb_threadpool_num_queued_def wait_all_starts_def wait_all_test_def clear_tasks_def join_end_def
      Let_def split: if_splits option.splits)

lemma thread_moves:
  assumes "threads_ok ths n ws" "alive (ws i)"
  shows "threads_ok ths n (ws(i := w))"
  using assms by (fastforce simp: threads_ok_def)

lemma thread_moves_all:
  assumes "threads_ok ths n ws" "\<forall>i. ws' i = ws i \<or> alive (ws i)"
  shows "threads_ok ths n ws'"
  using assms unfolding threads_ok_def by (metis alive_simps(1) leI)

lemma signal_alive:
  "ucb_cond_signal woken_worker ws ws' \<Longrightarrow> \<forall>i. ws' i = ws i \<or> alive (ws i)"
  by (elim ucb_cond_signal.cases) (auto simp: woken_worker_def split: if_splits)

lemma broadcast_alive: "\<forall>i. ucb_cond_broadcast woken_worker ws i = ws i \<or> alive (ws i)"
  by (auto simp: ucb_cond_broadcast_def woken_worker_def)

lemma thread_launch:
  assumes "threads_ok ths n ws" "start_threads te k ths = Ret (m, ths')"
  shows "threads_ok ths' n (launch m ws)" "m \<le> n"
proof -
  note sp = start_threads_spec [OF assms(2)]
  show "m \<le> n" using sp assms(1) by (simp add: threads_ok_def)
  then show "threads_ok ths' n (launch m ws)"
    using sp assms(1) unfolding threads_ok_def launch_def all_set_conv_all_nth
    by (auto simp: not_less)
qed

lemma thread_exits:
  assumes "threads_ok ths n ws" "i < length ths"
  shows "threads_ok (ths[i := posix_thread_wrapper_end (ths ! i) r]) n (ws(i := W_Exit))"
  using assms unfolding threads_ok_def all_set_conv_all_nth
  by (auto simp: nth_list_update posix_thread_wrapper_end_def)

lemma thread_joins:
  assumes "threads_ok ths n ws" "i < n" "th_handle (ths ! i) \<longrightarrow> ws i = W_Exit"
  shows "threads_ok (ths[i := (ths ! i)\<lparr>th_handle := False, th_running := False\<rparr>]) n
    (if th_handle (ths ! i) then ws(i := W_Off) else ws)"
proof -
  have "\<not> alive (ws i)" using assms by (auto simp: threads_ok_def)
  then show ?thesis using assms(1,2) unfolding threads_ok_def all_set_conv_all_nth
    by (auto simp: nth_list_update)
qed

lemma reaps_moves:
  "reaps_ok n cs \<Longrightarrow> reap_le n w \<Longrightarrow> reaps_ok n (cs(c := w))"
  by (auto simp: reaps_ok_def)

lemma reaps_signal: "reaps_ok n cs \<Longrightarrow> ucb_cond_signal woken_caller cs cs' \<Longrightarrow> reaps_ok n cs'"
  by (elim ucb_cond_signal.cases) (auto simp: reaps_ok_def woken_caller_def split: caller_pc.splits)

lemma thread_inv_step:
  assumes "pool_step me te exec s l s'" "thread_inv s"
  shows "thread_inv s'"
  using assms(1)
proof cases
  case (w_finish i cs)
  then show ?thesis using assms(2) reaps_signal [OF _ w_finish(4)]
    by (simp add: worker_done_def thread_moves)
next
  case (c_add c t ct notify p ws)
  then have "\<forall>i. ws i = workers s i \<or> alive (workers s i)"
    using signal_alive by (auto split: if_splits)
  with assms(2) have "threads_ok (threads (pool s)) (num_threads (pool s)) ws"
    by (auto intro: thread_moves_all)
  moreover have "reaps_ok (num_threads (pool s)) ((callers s)(c := C_Idle))"
    using assms(2) by (auto intro: reaps_moves)
  ultimately show ?thesis
    using c_add(2) section_threads(2) [OF c_add(4)] by (simp add: pool_threads_def)
next
  case (c_start c k n p)
  note st = start_impl_spec [OF c_start(5,4)]
  show ?thesis using c_start assms(2) st(4) thread_launch [OF _ st(1)] by (auto simp: reaps_moves)
next
  case (c_start_fails c k n p)
  note st = start_impl_spec [OF c_start_fails(5,4)]
  have t: "threads_ok (threads p) (num_threads (pool s)) (launch n (workers s))" "n \<le> num_threads (pool s)"
    using thread_launch [OF _ st(1)] assms(2) by auto
  show ?thesis using c_start_fails(2) assms(2) st(4) thread_moves_all [OF t(1) broadcast_alive] t(2)
    by (auto simp: reaps_moves)
next
  case (c_wait_starts c p k n p')
  have "\<not> running p" using c_wait_starts(4) by (auto simp: wait_all_starts_def split: if_splits)
  note st = start_impl_spec [OF c_wait_starts(5) this]
  show ?thesis using c_wait_starts(2) assms(2) st(4) thread_launch [OF _ st(1)]
      section_threads(4) [OF c_wait_starts(4)] by (auto simp: pool_threads_def reaps_moves)
next
  case (c_wait_start_fails c p k n p')
  have "\<not> running p" using c_wait_start_fails(4) by (auto simp: wait_all_starts_def split: if_splits)
  note st = start_impl_spec [OF c_wait_start_fails(5) this]
  have p: "threads p = threads (pool s)" "num_threads p = num_threads (pool s)"
    using section_threads(4) [OF c_wait_start_fails(4)] by (simp_all add: pool_threads_def)
  have t: "threads_ok (threads p') (num_threads (pool s)) (launch n (workers s))" "n \<le> num_threads (pool s)"
    using thread_launch [OF _ st(1)] assms(2) p by auto
  show ?thesis using c_wait_start_fails(2) assms(2) st(4) p thread_moves_all [OF t(1) broadcast_alive] t(2)
    by (auto simp: reaps_moves)
next
  case (w_exit i)
  then show ?thesis using assms(2) thread_exits by simp
next
  case (c_joining c i p)
  then show ?thesis using assms(2) thread_joins [of "threads (pool s)" "num_threads (pool s)" "workers s" i] join_thread_spec [OF c_joining(6)]
    by (simp add: reaps_moves)
next
  case (c_reaping c n i p)
  then have n: "n \<le> num_threads (pool s)" using assms(2) reap_le.simps(1) by (metis reaps_ok_def)
  then show ?thesis using c_reaping assms(2) thread_joins [of "threads (pool s)" "num_threads (pool s)" "workers s" i] join_thread_spec [OF c_reaping(6)]
    by (simp add: reaps_moves)
next
  case (c_join_stops c)
  then show ?thesis using assms(2) thread_moves_all [OF _ broadcast_alive] by (simp add: reaps_moves)
next
  case (w_lock i)
  then show ?thesis using assms(2) by (auto intro!: thread_moves)
next
  case (w_sleep i p)
  then show ?thesis using assms(2) section_threads(1) [OF w_sleep(4)]
    by (simp add: pool_threads_def reaps_moves thread_moves)
next
  case (w_leave i p)
  then show ?thesis using assms(2) section_threads(1) [OF w_leave(4)]
    by (simp add: pool_threads_def reaps_moves thread_moves)
next
  case (w_take i t p)
  then show ?thesis using assms(2) section_threads(1) [OF w_take(4)]
    by (simp add: pool_threads_def reaps_moves thread_moves)
next
  case (c_num_queued c p n)
  then show ?thesis using assms(2) section_threads(3) [OF c_num_queued(4)]
    by (simp add: pool_threads_def reaps_moves thread_moves)
next
  case (c_wait_enters c p)
  then show ?thesis using assms(2) section_threads(4) [OF c_wait_enters(4)]
    by (simp add: pool_threads_def reaps_moves thread_moves)
next
  case (c_wait_sleeps c p)
  then show ?thesis using assms(2) section_threads(5) [OF c_wait_sleeps(4)]
    by (simp add: pool_threads_def reaps_moves thread_moves)
next
  case (c_wait_returns c p)
  then show ?thesis using assms(2) section_threads(5) [OF c_wait_returns(4)]
    by (simp add: pool_threads_def reaps_moves thread_moves)
next
  case (c_join_idle c p)
  then show ?thesis using assms(2) section_threads(6) [OF c_join_idle(5)]
    by (simp add: pool_threads_def reaps_moves thread_moves)
next
  case (c_join_end c p)
  then show ?thesis using assms(2) section_threads(7) [OF c_join_end(4)]
    by (simp add: pool_threads_def reaps_moves thread_moves)
qed (use assms(2) in \<open>simp_all add: reap_end_def reaps_moves thread_moves
    ucb_threadpool_set_default_callback_def\<close>)

section \<open>The tasks\<close>

text \<open>A worker that counts as running, and the task it still has to run.\<close>

fun carries :: "worker_pc \<Rightarrow> bool" where
  "carries (W_Run t) = True"
| "carries W_Relock = True"
| "carries W_Finish = True"
| "carries _ = False"

fun held :: "worker_pc \<Rightarrow> ucb_task multiset" where
  "held (W_Run (Some t)) = {#t#}"
| "held _ = {#}"

definition busy_workers :: "nat \<Rightarrow> (nat \<Rightarrow> worker_pc) \<Rightarrow> nat" where
  "busy_workers n ws = (\<Sum>i<n. if carries (ws i) then 1 else 0)"

definition held_tasks :: "nat \<Rightarrow> (nat \<Rightarrow> worker_pc) \<Rightarrow> ucb_task multiset" where
  "held_tasks n ws = (\<Sum>i<n. held (ws i))"

lemma sum_update:
  fixes f :: "'a \<Rightarrow> 'b :: comm_monoid_add"
  assumes "i < (n::nat)"
  shows "(\<Sum>j<n. f ((w(i := x)) j)) + f (w i) = (\<Sum>j<n. f (w j)) + f x"
proof -
  have "(\<Sum>j<n. f ((w(i := x)) j)) = f x + (\<Sum>j\<in>{..<n} - {i}. f (w j))"
    using assms by (subst sum.remove [of _ i]) (auto intro: sum.cong)
  moreover have "(\<Sum>j<n. f (w j)) = f (w i) + (\<Sum>j\<in>{..<n} - {i}. f (w j))"
    using assms by (subst sum.remove [of _ i]) auto
  ultimately show ?thesis by (simp add: ac_simps)
qed

lemma busy_update:
  assumes "i < n"
  shows "busy_workers n (w(i := x)) + (if carries (w i) then 1 else 0) = busy_workers n w + (if carries x then 1 else 0)"
  using sum_update [OF assms, of "\<lambda>w. if carries w then 1 else 0" w x] by (simp add: busy_workers_def)

lemma held_update:
  assumes "i < n"
  shows "held_tasks n (w(i := x)) + held (w i) = held_tasks n w + held x"
  using sum_update [OF assms, of held w x] by (simp add: held_tasks_def)

lemma busy_le: "busy_workers n ws \<le> n"
  unfolding busy_workers_def by (rule order_trans [OF sum_bounded_above [where K = 1]]) auto

lemma not_carries_held: "\<not> carries w \<Longrightarrow> held w = {#}"
  by (cases w) auto

text \<open>Changes of program counters in which no task moves.\<close>

definition no_task_moves :: "(nat \<Rightarrow> worker_pc) \<Rightarrow> (nat \<Rightarrow> worker_pc) \<Rightarrow> bool" where
  "no_task_moves ws ws' \<longleftrightarrow> (\<forall>i. ws' i = ws i \<or> \<not> carries (ws i) \<and> \<not> carries (ws' i))"

lemma no_task_moves_sums:
  assumes "no_task_moves ws ws'"
  shows "busy_workers n ws' = busy_workers n ws" "held_tasks n ws' = held_tasks n ws"
proof -
  have "held (ws' i) = held (ws i)" "carries (ws' i) = carries (ws i)" for i
    using assms not_carries_held unfolding no_task_moves_def by metis+
  then show "busy_workers n ws' = busy_workers n ws" "held_tasks n ws' = held_tasks n ws"
    by (simp_all add: busy_workers_def held_tasks_def)
qed

lemma no_task_moves_intros:
  "no_task_moves ws ws"
  "\<not> carries (ws i) \<Longrightarrow> \<not> carries w \<Longrightarrow> no_task_moves ws (ws(i := w))"
  by (auto simp: no_task_moves_def)

lemma no_task_moves_trans: "no_task_moves ws ws' \<Longrightarrow> no_task_moves ws' ws'' \<Longrightarrow> no_task_moves ws ws''"
  unfolding no_task_moves_def by metis

lemma signal_moves_no_task: "ucb_cond_signal woken_worker ws ws' \<Longrightarrow> no_task_moves ws ws'"
  by (elim ucb_cond_signal.cases) (auto simp: woken_worker_def no_task_moves_def split: if_splits)

lemma broadcast_moves_no_task: "no_task_moves ws (ucb_cond_broadcast woken_worker ws)"
  by (auto simp: ucb_cond_broadcast_def woken_worker_def no_task_moves_def)

lemma launch_moves_no_task:
  assumes "threads_ok ths n ws" "start_threads te k ths = Ret (m, ths')"
  shows "no_task_moves ws (launch m ws)"
proof -
  have "\<not> carries (ws i)" if "i < m" for i
    using start_threads_spec [OF assms(2)] assms(1) that by (cases "ws i") (auto simp: threads_ok_def)
  then show ?thesis by (auto simp: no_task_moves_def launch_def)
qed

text \<open>
  The invariant: the queue holds \<open>q\<close>; every task that was accepted is in exactly one place (queued,
  discarded, held by a worker, finished); the count of running tasks is the number of workers
  that carry one; and a task that is to run has a function.
\<close>

definition runs_ok :: "(nat \<Rightarrow> worker_pc) \<Rightarrow> bool" where
  "runs_ok ws \<longleftrightarrow> (\<forall>i t. ws i = W_Run t \<longrightarrow> (\<exists>t'. t = Some t' \<and> t_func t' \<noteq> None))"

fun call_ok :: "caller_pc \<Rightarrow> bool" where
  "call_ok (C_Lock (Add t)) = (t_func t \<noteq> None)"
| "call_ok (C_In (Add t)) = (t_func t \<noteq> None)"
| "call_ok _ = True"

definition queue_ok :: "ucb_task pq_model \<Rightarrow> bool" where
  "queue_ok q \<longleftrightarrow> (\<forall>x \<in> set q. fst x = t_prio (snd x) \<and> t_func (snd x) \<noteq> None)"

definition task_inv :: "mem_env \<Rightarrow> pool_sys \<Rightarrow> ucb_task pq_model \<Rightarrow> bool" where
  "task_inv me s q \<longleftrightarrow> pool_holds me (pool s) q \<and> queue_ok q \<and> runs_ok (workers s)
     \<and> (\<forall>c. call_ok (callers s c)) \<and> num_threads (pool s) < 2 ^ 63
     \<and> num_running (pool s) = busy_workers (num_threads (pool s)) (workers s)
     \<and> mset (added s) = mset (map snd q) + mset (discarded (pool s))
          + held_tasks (num_threads (pool s)) (workers s) + mset (finished s)"

lemma runs_ok_moves: "runs_ok ws \<Longrightarrow> no_task_moves ws ws' \<Longrightarrow> runs_ok ws'"
  unfolding runs_ok_def no_task_moves_def by (metis carries.simps(1))

lemma call_ok_signal:
  "ucb_cond_signal woken_caller cs cs' \<Longrightarrow> \<forall>c. call_ok (cs c) \<Longrightarrow> call_ok (cs' c)"
  by (elim ucb_cond_signal.cases) (auto simp: woken_caller_def split: caller_pc.splits)

text \<open>Steps that leave the pool's queue and counters alone and move no task.\<close>

lemma task_inv_quiet:
  assumes "task_inv me s q" "no_task_moves (workers s) (workers s')" "pool_holds me (pool s') q"
    "discarded (pool s') = discarded (pool s)" "num_threads (pool s') = num_threads (pool s)"
    "num_running (pool s') = num_running (pool s)" "\<forall>c. call_ok (callers s' c)"
    "added s' = added s" "finished s' = finished s"
  shows "task_inv me s' q"
  using assms runs_ok_moves [OF _ assms(2)] no_task_moves_sums [OF assms(2)]
  by (simp add: task_inv_def)

lemma pool_holds_cong:
  "tasks p' = tasks p \<Longrightarrow> nodes p' = nodes p \<Longrightarrow> pool_holds me p' q = pool_holds me p q"
  "nodes p' = nodes p \<Longrightarrow> discarded p' = discarded p"
  by (simp_all add: pool_holds_def discarded_def)

lemma task_inv_worker:
  assumes "task_inv me s q" "\<not> carries (workers s i)" "\<not> carries w"
    "workers s' = (workers s)(i := w)" "pool s' = pool s" "callers s' = callers s"
    "added s' = added s" "finished s' = finished s"
  shows "task_inv me s' q"
  by (rule task_inv_quiet [OF assms(1)]) (use assms in \<open>simp_all add: task_inv_def no_task_moves_intros\<close>)

lemma task_inv_caller:
  assumes "task_inv me s q" "call_ok w"
    "callers s' = (callers s)(c := w)" "pool s' = pool s" "workers s' = workers s"
    "added s' = added s" "finished s' = finished s"
  shows "task_inv me s' q"
  by (rule task_inv_quiet [OF assms(1)]) (use assms in \<open>simp_all add: task_inv_def no_task_moves_intros\<close>)

lemma task_inv_take:
  assumes inv: "task_inv me s q" and th: "i < num_threads (pool s)" and i: "workers s i = W_Test"
    and t: "worker_test (pool s) = Ret (Take t, p)"
  obtains x q' where "q = x # q'" "t = Some (snd x)"
    "task_inv me (s\<lparr>pool := p, workers := (workers s)(i := W_Run t), holder := None\<rparr>) q'"
proof -
  have h: "pool_holds me (pool s) q" using inv by (simp add: task_inv_def)
  have ns: "\<not> stop (pool s)" using t worker_test_stop [OF h] by auto
  obtain x q' where q: "q = x # q'" using t h ns worker_test_sleep by (cases q) auto
  obtain p' where p': "worker_test (pool s) = Ret (Take (Some (snd x)), p')" "pool_holds me p' q'"
    "discarded p' = discarded (pool s)" "num_running p' = usize (num_running (pool s) + 1)"
    "num_threads p' = num_threads (pool s)"
    using worker_test_take [of me "pool s" x q'] h ns q by auto
  have pp: "p' = p" "t = Some (snd x)" using p'(1) t by simp_all
  let ?n = "num_threads (pool s)" and ?ws = "(workers s)(i := W_Run t)"
  have b: "busy_workers ?n ?ws = busy_workers ?n (workers s) + 1"
    using busy_update [OF th, of "workers s" "W_Run t"] i by simp
  have "busy_workers ?n ?ws \<le> ?n" by (rule busy_le)
  then have u: "usize (num_running (pool s) + 1) = num_running (pool s) + 1"
    using inv b by (simp add: task_inv_def usize_id SIZE_MAX_def)
  have hd: "held_tasks ?n ?ws = add_mset (snd x) (held_tasks ?n (workers s))"
    using held_update [OF th, of "workers s" "W_Run t"] i pp(2) by simp
  have "task_inv me (s\<lparr>pool := p, workers := ?ws, holder := None\<rparr>) q'"
    using inv p' pp q b u hd by (simp add: task_inv_def queue_ok_def runs_ok_def)
  then show thesis using that q pp(2) by blast
qed

lemma task_inv_finish:
  assumes inv: "task_inv me s q" and th: "i < num_threads (pool s)" and i: "workers s i = W_Finish"
    and cs: "\<forall>c. call_ok (cs c)"
  shows "task_inv me (s\<lparr>pool := worker_done (pool s), workers := (workers s)(i := W_Lock),
    callers := cs, holder := None\<rparr>) q"
proof -
  let ?n = "num_threads (pool s)" and ?ws = "(workers s)(i := W_Lock)"
  have b: "busy_workers ?n ?ws + 1 = busy_workers ?n (workers s)"
    using busy_update [OF th, of "workers s" W_Lock] i by simp
  have "num_running (pool s) \<le> ?n" using inv busy_le by (simp add: task_inv_def)
  then have "num_running (pool s) < 2 ^ 64" using inv by (simp add: task_inv_def)
  then have "usub (num_running (pool s)) 1 = num_running (pool s) - 1"
    using inv b by (simp add: task_inv_def SIZE_MAX_def)
  moreover have "held_tasks ?n ?ws = held_tasks ?n (workers s)"
    using held_update [OF th, of "workers s" W_Lock] i by simp
  ultimately show ?thesis using inv b cs
    by (simp add: task_inv_def worker_done_def runs_ok_def)
qed

lemma task_inv_run:
  assumes inv: "task_inv me s q" and th: "i < num_threads (pool s)" and i: "workers s i = W_Run t"
  shows "task_inv me (s\<lparr>workers := (workers s)(i := W_Relock), calls := evs,
         finished := finished s @ (case t of None \<Rightarrow> [] | Some t \<Rightarrow> [t])\<rparr>) q"
proof -
  let ?n = "num_threads (pool s)" and ?ws = "(workers s)(i := W_Relock)"
  have "busy_workers ?n ?ws = busy_workers ?n (workers s)"
    using busy_update [OF th, of "workers s" W_Relock] i by simp
  moreover have "held_tasks ?n ?ws + held (W_Run t) = held_tasks ?n (workers s)"
    using held_update [OF th, of "workers s" W_Relock] i by simp
  ultimately show ?thesis using inv i
    by (cases t) (auto simp: task_inv_def runs_ok_def ac_simps)
qed

lemma task_inv_add:
  assumes inv: "task_inv me s q" and few: "length (added s) < 2 ^ 31 - 1" and c: "callers s c = C_In (Add t)"
    and a: "ucb_threadpool_add_task me (pool s) t = Ret (ct, notify, p)"
    and ws: "if notify then ucb_cond_signal woken_worker (workers s) ws else ws = workers s"
  shows "ct = Some (queued_task (pool s) t)" "pool_rest p = pool_rest (pool s)" "notify = running (pool s)"
    "task_inv me (s\<lparr>pool := p, workers := ws, callers := (callers s)(c := C_Idle), holder := None,
         added := added s @ (case ct of None \<Rightarrow> [] | Some ct \<Rightarrow> [ct])\<rparr>)
       (model_push (queued_task (pool s) t) (t_prio t) q)"
proof -
  have h: "pool_holds me (pool s) q" using inv by (simp add: task_inv_def)
  have "size (mset (map snd q)) \<le> size (mset (added s))"
    using inv unfolding task_inv_def by (metis (no_types, lifting) add.assoc le_add1 size_union)
  then have n: "length q < 2 ^ 31 - 1" using few by simp
  have f: "t_func t \<noteq> None" using inv c call_ok.simps(2) by (metis task_inv_def)
  obtain p' where p': "ucb_threadpool_add_task me (pool s) t = Ret (Some (queued_task (pool s) t), running (pool s), p')"
    "pool_holds me p' (model_push (queued_task (pool s) t) (t_prio t) q)"
    "discarded p' = discarded (pool s)" "pool_rest p' = pool_rest (pool s)"
    using add_task_spec [OF h n f] by blast
  show eq: "ct = Some (queued_task (pool s) t)" "pool_rest p = pool_rest (pool s)" "notify = running (pool s)"
    using a p' by simp_all
  have mv: "no_task_moves (workers s) ws"
    using ws signal_moves_no_task no_task_moves_intros(1) by (auto split: if_splits)
  have "mset (map snd (model_push (queued_task (pool s) t) (t_prio t) q))
      = add_mset (queued_task (pool s) t) (mset (map snd q))" by (simp add: model_push_mset)
  moreover have "queue_ok (model_push (queued_task (pool s) t) (t_prio t) q)"
    using inv f by (simp add: task_inv_def queue_ok_def model_push_set)
  moreover have "runs_ok ws" using inv runs_ok_moves [OF _ mv] by (simp add: task_inv_def)
  moreover have "p' = p" using a p'(1) by simp
  ultimately show "task_inv me (s\<lparr>pool := p, workers := ws, callers := (callers s)(c := C_Idle), holder := None,
         added := added s @ (case ct of None \<Rightarrow> [] | Some ct \<Rightarrow> [ct])\<rparr>)
       (model_push (queued_task (pool s) t) (t_prio t) q)"
    using inv p' eq no_task_moves_sums [OF mv] by (simp add: task_inv_def pool_rest_eq ac_simps)
qed

lemma task_inv_clear:
  assumes inv: "task_inv me s q" and c: "clear_tasks (pool s) = Ret p"
  shows "task_inv me (s\<lparr>pool := p\<rparr>) []" "pool_rest p = pool_rest (pool s)"
proof -
  have "pool_holds me (pool s) q" using inv by (simp add: task_inv_def)
  from clear_tasks_spec [OF this] c have p: "pool_holds me p []"
    "discarded p = discarded (pool s) @ map snd q" "pool_rest p = pool_rest (pool s)" by auto
  then show "task_inv me (s\<lparr>pool := p\<rparr>) []" "pool_rest p = pool_rest (pool s)"
    using inv by (simp_all add: task_inv_def pool_rest_eq queue_ok_def ac_simps)
qed

lemma worker_index: "threads_ok ths n ws \<Longrightarrow> ws i \<noteq> W_Off \<Longrightarrow> i < n"
  unfolding threads_ok_def by (metis leI)

lemma task_inv_start:
  assumes inv: "task_inv me s q" and th: "thread_inv s" and nr: "\<not> running (pool s)"
    and st: "ucb_threadpool_start_impl te k (pool s) = Ret (n, p)" and c: "call_ok w"
  shows "task_inv me (s\<lparr>pool := p, workers := launch n (workers s), callers := (callers s)(c := w), holder := h\<rparr>) q"
    "task_inv me (s\<lparr>pool := p, workers := ucb_cond_broadcast woken_worker (launch n (workers s)),
       callers := (callers s)(c := w), holder := h\<rparr>) q"
proof -
  note sp = start_impl_spec [OF st nr]
  have mv: "no_task_moves (workers s) (launch n (workers s))"
    using th sp(1) launch_moves_no_task by blast
  note mv2 = no_task_moves_trans [OF mv broadcast_moves_no_task]
  have q: "pool_holds me p q" "discarded p = discarded (pool s)"
    using inv pool_holds_cong(1) [OF sp(6,7)] pool_holds_cong(2) [OF sp(7)] by (simp_all add: task_inv_def)
  have cs: "\<forall>d. call_ok (((callers s)(c := w)) d)" using inv c by (simp add: task_inv_def)
  show "task_inv me (s\<lparr>pool := p, workers := launch n (workers s), callers := (callers s)(c := w), holder := h\<rparr>) q"
    by (rule task_inv_quiet [OF inv]) (use mv q cs sp in simp_all)
  show "task_inv me (s\<lparr>pool := p, workers := ucb_cond_broadcast woken_worker (launch n (workers s)),
       callers := (callers s)(c := w), holder := h\<rparr>) q"
    by (rule task_inv_quiet [OF inv]) (use mv2 q cs sp in simp_all)
qed

lemma task_inv_step:
  assumes step: "pool_step me te exec s l s'" and th: "thread_inv s" and inv: "task_inv me s q"
    and few: "length (added s) < 2 ^ 31 - 1"
  shows "\<exists>q'. task_inv me s' q'"
proof -
  have h: "pool_holds me (pool s) q" and ck: "\<forall>c. call_ok (callers s c)" using inv by (simp_all add: task_inv_def)
  have idx: "workers s i \<noteq> W_Off \<Longrightarrow> i < num_threads (pool s)" for i using th worker_index by blast
  show ?thesis using step
  proof cases
    case (w_lock i)
    then show ?thesis using task_inv_worker [OF inv, of i W_Test s'] by auto
  next
    case (w_sleep i p)
    then have "p = pool s"
      using h worker_test_stop [OF h] worker_test_sleep [of me "pool s"] worker_test_take [of me "pool s"]
      by (cases "stop (pool s)"; cases q) auto
    then show ?thesis using w_sleep task_inv_worker [OF inv, of i W_Sleep s'] by auto
  next
    case (w_leave i p)
    then have "p = pool s"
      using h worker_test_stop [OF h] worker_test_sleep [of me "pool s"] worker_test_take [of me "pool s"]
      by (cases "stop (pool s)"; cases q) auto
    then show ?thesis using w_leave task_inv_worker [OF inv, of i W_Leaving s'] by auto
  next
    case (w_take i t p)
    then show ?thesis using task_inv_take [OF inv idx w_take(3,4)] by auto
  next
    case (w_run i t evs)
    then show ?thesis using task_inv_run [OF inv idx w_run(3)] by auto
  next
    case (w_relock i)
    let ?ws = "(workers s)(i := W_Finish)"
    have i: "i < num_threads (pool s)" using idx w_relock by simp
    have "busy_workers (num_threads (pool s)) ?ws = busy_workers (num_threads (pool s)) (workers s)"
      "held_tasks (num_threads (pool s)) ?ws = held_tasks (num_threads (pool s)) (workers s)"
      using busy_update [OF i, of "workers s" W_Finish] held_update [OF i, of "workers s" W_Finish] w_relock(3)
      by simp_all
    then have "task_inv me s' q" using inv w_relock(2) by (simp add: task_inv_def runs_ok_def)
    then show ?thesis by blast
  next
    case (w_finish i cs)
    have "\<forall>c. call_ok (cs c)" using call_ok_signal [OF w_finish(4) ck] by blast
    then show ?thesis using w_finish task_inv_finish [OF inv idx w_finish(3)] by auto
  next
    case (w_exit i)
    have "task_inv me s' q" unfolding w_exit(2)
      by (rule task_inv_quiet [OF inv]) (use h ck w_exit(3) in \<open>simp_all add: no_task_moves_intros\<close>)
    then show ?thesis by blast
  next
    case (c_call c call)
    then have "call_ok (C_Lock call)" by (cases call) auto
    then show ?thesis using c_call task_inv_caller [OF inv, of "C_Lock call" s' c] by auto
  next
    case (c_set_callback cb)
    have "task_inv me s' q" unfolding c_set_callback(2)
      by (rule task_inv_quiet [OF inv])
        (use h ck in \<open>simp_all add: no_task_moves_intros ucb_threadpool_set_default_callback_def\<close>)
    then show ?thesis by blast
  next
    case (c_lock c call)
    then have "call_ok (C_Lock call)" using ck by metis
    then have "call_ok (C_In call)" by (cases call) auto
    then show ?thesis using c_lock task_inv_caller [OF inv, of "C_In call" s' c] by auto
  next
    case (c_add c t ct notify p ws)
    show ?thesis unfolding c_add(2) using task_inv_add(4) [OF inv few c_add(3,4,5)] by blast
  next
    case (c_start c k n p)
    show ?thesis unfolding c_start(2) using task_inv_start(1) [OF inv th c_start(4,5), where w = C_Idle] by auto
  next
    case (c_start_fails c k n p)
    show ?thesis unfolding c_start_fails(2)
      using task_inv_start(2) [OF inv th c_start_fails(4,5), where w = "C_Reap n 0"] by auto
  next
    case (c_wait_starts c p k n p')
    have p: "p = pool s" "\<not> running (pool s)" using wait_all_starts_spec [OF h] c_wait_starts(4) by auto
    have "s' = s\<lparr>pool := p', workers := launch n (workers s), callers := (callers s)(c := C_Test For_all),
        holder := holder s\<rparr>" using c_wait_starts(2) by simp
    then show ?thesis
      using task_inv_start(1) [OF inv th p(2) c_wait_starts(5) [unfolded p(1)],
          where w = "C_Test For_all" and h = "holder s" and c = c] by auto
  next
    case (c_wait_start_fails c p k n p')
    have p: "p = pool s" "\<not> running (pool s)" using wait_all_starts_spec [OF h] c_wait_start_fails(4) by auto
    show ?thesis unfolding c_wait_start_fails(2)
      using task_inv_start(2) [OF inv th p(2) c_wait_start_fails(5) [unfolded p(1)],
          where w = "C_Reap n 0"] by auto
  next
    case (c_num_queued c p n)
    have "p = pool s" using c_num_queued num_queued_spec [OF h] by simp
    then show ?thesis using c_num_queued task_inv_caller [OF inv, of C_Idle s' c] by auto
  next
    case (c_wait_enters c p)
    have "p = pool s" using c_wait_enters wait_all_starts_spec [OF h] by simp
    then show ?thesis using c_wait_enters task_inv_caller [OF inv, of "C_Test For_all" s' c] by auto
  next
    case (c_wait_sleeps c p)
    have "p = pool s" using c_wait_sleeps wait_all_test_spec [OF h] by simp
    then show ?thesis using c_wait_sleeps task_inv_caller [OF inv, of "C_Sleep For_all" s' c] by auto
  next
    case (c_wait_returns c p)
    have "p = pool s" using c_wait_returns wait_all_test_spec [OF h] by simp
    then show ?thesis using c_wait_returns task_inv_caller [OF inv, of C_Idle s' c] by auto
  next
    case (c_join_idle c p)
    have "task_inv me (s\<lparr>pool := p\<rparr>) []" using task_inv_clear [OF inv] c_join_idle by auto
    then show ?thesis using c_join_idle(2) task_inv_caller [of me "s\<lparr>pool := p\<rparr>" "[]" C_Idle s' c] by auto
  next
    case (c_join_stops c)
    have "task_inv me s' q" unfolding c_join_stops(2)
      by (rule task_inv_quiet [OF inv]) (use h ck broadcast_moves_no_task in simp_all)
    then show ?thesis by blast
  next
    case (c_joining c i p)
    have mv: "no_task_moves (workers s) (if th_handle (threads (pool s) ! i) then (workers s)(i := W_Off) else workers s)"
      using c_joining(5) by (auto intro: no_task_moves_intros)
    have "task_inv me s' q" unfolding c_joining(2)
      by (rule task_inv_quiet [OF inv]) (use h ck mv join_thread_spec [OF c_joining(6)] in simp_all)
    then show ?thesis by blast
  next
    case (c_reaping c n i p)
    have mv: "no_task_moves (workers s) (if th_handle (threads (pool s) ! i) then (workers s)(i := W_Off) else workers s)"
      using c_reaping(5) by (auto intro: no_task_moves_intros)
    have "task_inv me s' q" unfolding c_reaping(2)
      by (rule task_inv_quiet [OF inv]) (use h ck mv join_thread_spec [OF c_reaping(6)] in simp_all)
    then show ?thesis by blast
  next
    case (c_join_end c p)
    let ?s = "s\<lparr>pool := (pool s)\<lparr>running := False, stop := False\<rparr>\<rparr>"
    have "task_inv me ?s q"
      by (rule task_inv_quiet [OF inv]) (use h ck in \<open>simp_all add: no_task_moves_intros\<close>)
    then have "task_inv me (s\<lparr>pool := p\<rparr>) []"
      using task_inv_clear(1) [of me ?s q p] c_join_end(4) by (simp add: join_end_def)
    then show ?thesis using c_join_end(2) task_inv_caller [of me "s\<lparr>pool := p\<rparr>" "[]" C_Idle s' c] by auto
  next
    case (c_reap_end c)
    have "task_inv me s' q" unfolding c_reap_end(2)
      by (rule task_inv_quiet [OF inv]) (use h ck in \<open>simp_all add: no_task_moves_intros reap_end_def\<close>)
    then show ?thesis by blast
  next
    case (w_spurious i)
    then show ?thesis using task_inv_worker [OF inv, of i W_Woken s'] by auto
  next
    case (c_num_running c)
    then show ?thesis using task_inv_caller [OF inv, of C_Idle s' c] by auto
  next
    case (c_start_running c)
    then show ?thesis using task_inv_caller [OF inv, of C_Idle s' c] by auto
  next
    case (c_woken c b)
    then show ?thesis using task_inv_caller [OF inv, of "C_Test b" s' c] by auto
  next
    case (c_join_sleeps c)
    then show ?thesis using task_inv_caller [OF inv, of "C_Sleep For_join" s' c] by auto
  next
    case (c_join_threads c)
    then show ?thesis using task_inv_caller [OF inv, of "C_Joining 0" s' c] by auto
  next
    case (c_joined c i)
    then show ?thesis using task_inv_caller [OF inv, of C_Join_lock s' c] by auto
  next
    case (c_join_lock c)
    then show ?thesis using task_inv_caller [OF inv, of C_Join_end s' c] by auto
  next
    case (c_reaped c n i)
    then show ?thesis using task_inv_caller [OF inv, of C_Reap_lock s' c] by auto
  next
    case (c_reap_lock c)
    then show ?thesis using task_inv_caller [OF inv, of C_Reap_end s' c] by auto
  next
    case (c_spurious c b)
    then show ?thesis using task_inv_caller [OF inv, of "C_Woken b" s' c] by auto
  qed
qed

section \<open>Reachable states\<close>

lemma new_threads_spec:
  "new_threads me n = Ret (Some ths) \<Longrightarrow> length ths = n \<and> (\<forall>th \<in> set ths. \<not> th_detached th \<and> \<not> th_running th)"
proof (induction n arbitrary: ths)
  case (Suc n)
  obtain th where th: "ucb_thread_new me = Ret (Some th)" "new_threads me (Suc n) = Ret (Some ths)"
    using Suc.prems by (auto split: option.splits)
  then obtain ths' where ths': "new_threads me n = Ret (Some ths')" "ths = th # ths'" by auto
  have "\<not> th_detached th \<and> \<not> th_running th"
    using th(1) by (auto simp: ucb_thread_new_def ucb_thread_new_flags_def split: if_splits)
  then show ?case using Suc.IH [OF ths'(1)] ths'(2) by auto
qed simp

lemma new_pool_spec:
  assumes "ucb_threadpool_new me True True True fresh n = Ret (Some p)" "grants_upto me (2 ^ 40)"
  shows "pool_holds me p []" "discarded p = []" "num_threads p = n" "length (threads p) = n" "0 < n" "n < 2 ^ 63"
    "\<forall>th \<in> set (threads p). \<not> th_detached th \<and> \<not> th_running th"
    "num_running p = 0" "\<not> running p" "\<not> stop p" "dflt_callback p = None"
proof -
  let ?st = "\<lparr>cells = (\<lambda>_. None), next_addr = 0, freed_data = []\<rparr> :: ucb_task node_store"
  have "granted me (PQUEUE_INITIAL_NUM_BUCKETS_INITIAL * sizeof_bucket)"
    using granted_upto [OF assms(2)] by (simp add: PQUEUE_INITIAL_NUM_BUCKETS_INITIAL_def sizeof_bucket_def)
  from pq_init_spec [OF _ this, of pool_args ?st True fresh False]
  obtain q where q: "ucb_pqueue_init me True fresh pool_args = Ret (True, q)" "pq_holds (?st, q) []"
    "data_clone q = None" "data_free q" by (auto simp: ucb_pqueue_init_def pool_args_def)
  have al: "alloc_buckets q = PQUEUE_INITIAL_NUM_BUCKETS_INITIAL"
    using q(1) by (auto simp: ucb_pqueue_init_def ucb_pqueue_init_common_def verify_def split: if_splits)
  obtain ths where r: "n > 0" "ucb_calloc me n 8 = Ret True" "new_threads me n = Ret (Some ths)"
    "p = \<lparr>threads = ths, tasks = q, nodes = ?st, num_threads = n, num_running = 0,
          running = False, stop = False, dflt_callback = None\<rparr>"
    using assms(1) q(1) by (auto simp: ucb_threadpool_new_def Let_def split: if_splits option.splits)
  have "n * 8 \<le> PTRDIFF_MAX" using r(1,2) by (auto simp: ucb_calloc_def ucb_fatal_oom_def granted_def split: if_splits)
  then show "n < 2 ^ 63" by (simp add: PTRDIFF_MAX_def)
  show "pool_holds me p []" "discarded p = []" "num_threads p = n" "length (threads p) = n" "0 < n"
    "\<forall>th \<in> set (threads p). \<not> th_detached th \<and> \<not> th_running th"
    "num_running p = 0" "\<not> running p" "\<not> stop p" "dflt_callback p = None"
    using r q al assms(2) new_threads_spec [OF r(3)]
    by (simp_all add: pool_holds_def discarded_def PQUEUE_INITIAL_NUM_BUCKETS_INITIAL_def)
qed

lemma start_invariants:
  assumes "ucb_threadpool_new me True True True fresh n = Ret (Some p)" "grants_upto me (2 ^ 40)"
  shows "lock_inv (pool_start p)" "thread_inv (pool_start p)" "task_inv me (pool_start p) []"
  using new_pool_spec [OF assms]
  by (simp_all add: pool_start_def lock_ok_def threads_ok_def reaps_ok_def task_inv_def queue_ok_def
      runs_ok_def busy_workers_def held_tasks_def)

lemma added_grows: "pool_step me te exec s l s' \<Longrightarrow> length (added s) \<le> length (added s')"
  by (induction rule: pool_step.induct) simp_all

lemma reach_invariants:
  assumes "pool_reach me te exec s" "grants_upto me (2 ^ 40)" "length (added s) < 2 ^ 31 - 1"
  shows "lock_inv s \<and> thread_inv s \<and> (\<exists>q. task_inv me s q)"
  using assms(1,3)
proof (induction rule: pool_reach.induct)
  case (begin_new fresh n p)
  then show ?case using start_invariants [OF begin_new(1) assms(2)] by blast
next
  case (one_step s l s')
  have n: "length (added s) < 2 ^ 31 - 1" using added_grows [OF one_step.hyps(2)] one_step.prems by linarith
  from one_step.IH [OF this] obtain q where "lock_inv s" "thread_inv s" "task_inv me s q" by blast
  then show ?case
    using lock_inv_step [OF one_step.hyps(2)] thread_inv_step [OF one_step.hyps(2)]
      task_inv_step [OF one_step.hyps(2) _ _ n] by blast
qed

end
