(* ===== verification/Threadpool_Live.thy ===== *)
theory Threadpool_Live
  imports Threadpool_Inv
begin

text \<open>
  Progress of the thread pool when one thread, the controller, makes the calls that start, stop
  and wait, and any number of other threads add tasks or ask for the counts. Every call then
  returns: a measure bounds the number of steps that can be taken without a new call or a
  spurious wake-up, and a state in which no such step is left has no call in progress.
\<close>

section \<open>One controlling thread\<close>

definition plain_call :: "call \<Rightarrow> bool" where
  "plain_call k = (case k of Add _ \<Rightarrow> True | Num_running \<Rightarrow> True | Num_queued \<Rightarrow> True | _ \<Rightarrow> False)"

definition controlled :: "nat \<Rightarrow> label \<Rightarrow> bool" where
  "controlled c l = (case l of New_call d k \<Rightarrow> d = c \<or> plain_call k | _ \<Rightarrow> True)"

inductive ctl_reach :: "mem_env \<Rightarrow> thread_env \<Rightarrow> (nat \<Rightarrow> nat \<Rightarrow> int) \<Rightarrow> nat \<Rightarrow> pool_sys \<Rightarrow> bool"
  for me te exec c where
  ctl_begin: "ucb_threadpool_new me True True True fresh n = Ret (Some p) \<Longrightarrow>
    ctl_reach me te exec c (pool_start p)"
| ctl_step: "ctl_reach me te exec c s \<Longrightarrow> pool_step me te exec s l s' \<Longrightarrow> controlled c l \<Longrightarrow>
    ctl_reach me te exec c s'"

lemma ctl_reach_reach: "ctl_reach me te exec c s \<Longrightarrow> pool_reach me te exec s"
  by (induction rule: ctl_reach.induct) (auto intro: pool_reach.intros)

definition no_tasks :: "ucb_threadpool \<Rightarrow> bool" where
  "no_tasks p \<longleftrightarrow> num_buckets (tasks p) = 0"

lemma no_tasks_iff: "pool_holds me p q \<Longrightarrow> no_tasks p \<longleftrightarrow> q = []"
proof -
  assume "pool_holds me p q"
  then have h: "pq_holds (nodes p, tasks p) q" by (simp add: pool_holds_def)
  then have "pq_mutex (tasks p) \<noteq> Locked" by (simp add: pq_holds_def)
  from pq_empty_spec [OF h] lock_unlocked [OF this] relock [OF this] show ?thesis
    by (simp add: ucb_pqueue_empty_def no_tasks_def)
qed

text \<open>A worker in its loop, not asked to stop.\<close>

definition looping :: "worker_pc \<Rightarrow> bool" where
  "looping w \<longleftrightarrow> alive w \<and> w \<noteq> W_Leaving"

definition settled :: "ucb_threadpool \<Rightarrow> (nat \<Rightarrow> worker_pc) \<Rightarrow> bool" where
  "settled p ws \<longleftrightarrow> \<not> stop p \<and>
     (if running p then (\<forall>i < num_threads p. looping (ws i))
        \<and> (no_tasks p \<or> (\<exists>i < num_threads p. ws i \<noteq> W_Sleep))
      else (\<forall>i < num_threads p. ws i = W_Off \<and> \<not> th_running (threads p ! i)))"

text \<open>The pool is being stopped; the threads from \<open>lo\<close> to \<open>hi\<close> are not joined yet.\<close>

definition closing :: "ucb_threadpool \<Rightarrow> (nat \<Rightarrow> worker_pc) \<Rightarrow> nat \<Rightarrow> nat \<Rightarrow> bool" where
  "closing p ws lo hi \<longleftrightarrow> stop p \<and> running p \<and>
     (\<forall>i < num_threads p. if lo \<le> i \<and> i < hi then ws i \<noteq> W_Off \<and> ws i \<noteq> W_Sleep \<and> th_handle (threads p ! i)
        else ws i = W_Off \<and> \<not> th_running (threads p ! i))"

text \<open>What holds while the controller is at a given point.\<close>

fun phase :: "caller_pc \<Rightarrow> ucb_threadpool \<Rightarrow> (nat \<Rightarrow> worker_pc) \<Rightarrow> bool" where
  "phase (C_Test For_all) p ws = (settled p ws \<and> (running p \<or> no_tasks p \<and> num_running p = 0))"
| "phase (C_Sleep For_all) p ws = (settled p ws \<and> running p \<and> (\<not> no_tasks p \<or> num_running p > 0))"
| "phase (C_Woken For_all) p ws = (settled p ws \<and> running p)"
| "phase (C_Test For_join) p ws = closing p ws 0 (num_threads p)"
| "phase (C_Sleep For_join) p ws = (closing p ws 0 (num_threads p) \<and> num_running p > 0)"
| "phase (C_Woken For_join) p ws = closing p ws 0 (num_threads p)"
| "phase (C_Joining i) p ws = closing p ws i (num_threads p)"
| "phase C_Join_lock p ws = closing p ws 0 0"
| "phase C_Join_end p ws = closing p ws 0 0"
| "phase (C_Reap m i) p ws = closing p ws i m"
| "phase C_Reap_lock p ws = closing p ws 0 0"
| "phase C_Reap_end p ws = closing p ws 0 0"
| "phase _ p ws = settled p ws"

fun other_ok :: "caller_pc \<Rightarrow> bool" where
  "other_ok C_Idle = True"
| "other_ok (C_Lock k) = plain_call k"
| "other_ok (C_In k) = plain_call k"
| "other_ok _ = False"

definition ctl_inv :: "nat \<Rightarrow> pool_sys \<Rightarrow> bool" where
  "ctl_inv c s \<longleftrightarrow> phase (callers s c) (pool s) (workers s) \<and> (\<forall>d. d \<noteq> c \<longrightarrow> other_ok (callers s d))
     \<and> num_threads (pool s) > 0 \<and> finite {d. callers s d \<noteq> C_Idle}"

section \<open>Steps of the workers\<close>

text \<open>Two pools with the same threads and flags, but for the running mark of some threads.\<close>

definition same_state :: "ucb_threadpool \<Rightarrow> ucb_threadpool \<Rightarrow> bool" where
  "same_state p p' \<longleftrightarrow> num_threads p' = num_threads p \<and> running p' = running p \<and> stop p' = stop p
     \<and> (\<forall>i. th_handle (threads p' ! i) = th_handle (threads p ! i)
            \<and> (th_running (threads p' ! i) \<longrightarrow> th_running (threads p ! i)))"

lemma settled_worker:
  assumes "settled p ws" "i < num_threads p" "ws i \<noteq> W_Off" "looping w" "w = W_Sleep \<longrightarrow> no_tasks p'"
    "same_state p p'"
  shows "settled p' (ws(i := w))"
  using assms by (auto simp: settled_def same_state_def split: if_splits)

lemma closing_worker:
  assumes "closing p ws lo hi" "ws i \<noteq> W_Off" "w \<noteq> W_Off" "w \<noteq> W_Sleep" "same_state p p'"
  shows "closing p' (ws(i := w)) lo hi"
  using assms unfolding closing_def same_state_def by auto

lemma phase_worker:
  assumes ph: "phase pc p ws" and i: "i < num_threads p" "ws i \<noteq> W_Off"
    and w: "w \<noteq> W_Off" "stop p \<longrightarrow> w \<noteq> W_Sleep" "\<not> stop p \<longrightarrow> looping w \<and> (w = W_Sleep \<longrightarrow> no_tasks p')"
    and same: "same_state p p'" and nr: "num_running p' > 0 \<or> num_running p' = num_running p \<and> no_tasks p' = no_tasks p"
  shows "phase pc p' (ws(i := w))"
proof -
  have S: "settled p ws \<Longrightarrow> settled p' (ws(i := w)) \<and> running p"
    using settled_worker [of p ws i w p'] w i same by (auto simp: settled_def split: if_splits)
  have C: "closing p' (ws(i := w)) lo hi" if "closing p ws lo hi" for lo hi
  proof -
    have "stop p" using that by (simp add: closing_def)
    then show ?thesis using closing_worker [of p ws lo hi i w p'] that i(2) same w by blast
  qed
  have n: "num_threads p' = num_threads p" "running p' = running p" using same by (simp_all add: same_state_def)
  show ?thesis
    using ph S C nr n by (cases "(pc, p, ws)" rule: phase.cases) auto
qed

text \<open>A finishing worker wakes the controller if it sleeps: nobody else can be waiting.\<close>

lemma signal_controller:
  assumes "ucb_cond_signal woken_caller cs cs'" "\<forall>d. d \<noteq> c \<longrightarrow> other_ok (cs d)"
  shows "cs' = (case cs c of C_Sleep b \<Rightarrow> cs(c := C_Woken b) | _ \<Rightarrow> cs)"
  using assms(1)
proof cases
  case (wake_one i p)
  have "i = c" using assms(2) wake_one by (cases "cs i") (auto simp: woken_caller_def)
  then show ?thesis using wake_one by (cases "cs i") (auto simp: woken_caller_def)
next
  case nobody
  then show ?thesis by (cases "cs c") (auto simp: woken_caller_def split: caller_pc.splits dest: spec [of _ c])
qed

lemma phase_finish:
  assumes "phase pc p ws" "i < num_threads p" "ws i = W_Finish" "same_state p p'" "no_tasks p' = no_tasks p"
    "num_running p = 0 \<longrightarrow> num_running p' = 0"
  shows "phase (case pc of C_Sleep b \<Rightarrow> C_Woken b | _ \<Rightarrow> pc) p' (ws(i := W_Lock))"
proof -
  have i: "ws i \<noteq> W_Off" using assms(3) by simp
  have S: "settled p ws \<Longrightarrow> settled p' (ws(i := W_Lock)) \<and> running p"
    using settled_worker [of p ws i W_Lock p'] i assms(2,3,4)
    by (auto simp: settled_def looping_def split: if_splits)
  have C: "closing p ws lo hi \<Longrightarrow> closing p' (ws(i := W_Lock)) lo hi" for lo hi
    using closing_worker [of p ws lo hi i W_Lock p'] i assms(4) by simp
  have n: "num_threads p' = num_threads p" "running p' = running p" using assms(4) by (simp_all add: same_state_def)
  show ?thesis
    using assms(1) S C n by (cases "(pc, p, ws)" rule: phase.cases) auto
qed

section \<open>Steps of the callers\<close>

lemma same_state_refl [simp]: "same_state p p"
  by (simp add: same_state_def)

lemma same_state_rest: "pool_rest p' = pool_rest p \<Longrightarrow> same_state p p'"
  by (simp add: same_state_def pool_rest_eq)

text \<open>Waking a sleeping worker, as an addition does, keeps both modes.\<close>

lemma settled_signal:
  assumes st: "settled p ws" and ws: "if running p then ucb_cond_signal woken_worker ws ws' else ws' = ws"
    and off: "\<forall>i \<ge> num_threads p. ws i = W_Off" and n: "num_threads p > 0" and same: "same_state p p'"
  shows "settled p' ws'"
proof (cases "running p")
  case False
  then show ?thesis using assms by (auto simp: settled_def same_state_def)
next
  case True
  then have "ucb_cond_signal woken_worker ws ws'" using ws by simp
  then show ?thesis
  proof cases
    case (wake_one i w)
    then have i: "ws i = W_Sleep" "w = W_Woken" by (auto simp: woken_worker_def split: if_splits)
    then have "i < num_threads p" using off by (intro ccontr [of "i < num_threads p"]) (simp add: not_less)
    then show ?thesis using True st i wake_one(1) same
      by (auto simp: settled_def same_state_def looping_def)
  next
    case nobody
    then have "\<forall>i. ws i \<noteq> W_Sleep" by (metis option.distinct(1) woken_worker_def)
    then show ?thesis using True st nobody(1) same n by (auto simp: settled_def same_state_def)
  qed
qed

lemma closing_signal:
  assumes "closing p ws lo hi" "ucb_cond_signal woken_worker ws ws'"
    "\<forall>i \<ge> num_threads p. ws i = W_Off" "same_state p p'"
  shows "closing p' ws' lo hi"
proof -
  have ns: "ws i \<noteq> W_Sleep" for i
    using assms(1,3) by (cases "i < num_threads p") (auto simp: closing_def split: if_splits)
  have "ws' = ws" using assms(2) by cases (use ns in \<open>auto simp: woken_worker_def split: if_splits\<close>)
  then show ?thesis using assms(1,4) by (auto simp: closing_def same_state_def)
qed

lemma phase_add:
  assumes ph: "phase pc p ws" and ws: "if running p then ucb_cond_signal woken_worker ws ws' else ws' = ws"
    and off: "\<forall>i \<ge> num_threads p. ws i = W_Off" and n: "num_threads p > 0"
    and rest: "pool_rest p' = pool_rest p" and full: "\<not> no_tasks p'" and pc: "pc \<noteq> C_Test For_all"
  shows "phase pc p' ws'"
proof -
  have same: "same_state p p'" using rest by (rule same_state_rest)
  have S: "settled p ws \<Longrightarrow> settled p' ws'" using settled_signal [OF _ ws off n same] .
  have C: "closing p' ws' lo hi" if "closing p ws lo hi" for lo hi
  proof -
    have "running p" using that by (simp add: closing_def)
    then show ?thesis using closing_signal [OF that _ off same] ws by simp
  qed
  show ?thesis using ph S C full pc rest by (cases "(pc, p, ws)" rule: phase.cases) (auto simp: pool_rest_eq)
qed

text \<open>The controller's own steps.\<close>

lemma settled_launch:
  assumes "settled p ws" "\<not> running p" "ucb_threadpool_start_impl te k p = Ret (n, p')"
    "length (threads p) = num_threads p" "num_threads p > 0" "\<forall>th \<in> set (threads p). \<not> th_detached th"
  shows "n = num_threads p' \<Longrightarrow> settled p' (launch n ws)"
    "n \<noteq> num_threads p' \<Longrightarrow> closing p' (ucb_cond_broadcast woken_worker (launch n ws)) 0 n \<and> n \<le> num_threads p'"
proof -
  note sp = start_impl_spec [OF assms(3,2)]
  note th = start_threads_spec [OF sp(1)]
  have off: "\<forall>i < num_threads p. ws i = W_Off \<and> \<not> th_running (threads p ! i)" "\<not> stop p"
    using assms(1,2) by (simp_all add: settled_def)
  show "settled p' (launch n ws)" if "n = num_threads p'"
    using that sp off assms(5) by (auto simp: settled_def launch_def looping_def)
  have nd: "i < num_threads p \<Longrightarrow> \<not> th_detached (threads p ! i)" for i
    using assms(4,6) by (metis nth_mem)
  show "closing p' (ucb_cond_broadcast woken_worker (launch n ws)) 0 n \<and> n \<le> num_threads p'"
    if "n \<noteq> num_threads p'"
    using that sp off th nd assms(4)
    by (auto simp: closing_def launch_def ucb_cond_broadcast_def woken_worker_def)
qed

lemma closing_join:
  assumes "closing p ws i hi" "i < hi" "i < num_threads p" "length (threads p) = num_threads p"
    "th_handle (threads p ! i) \<longrightarrow> ws i = W_Exit" "join_thread p i = Ret p'"
  shows "closing p' (if th_handle (threads p ! i) then ws(i := W_Off) else ws) (i + 1) hi"
proof -
  have h: "th_handle (threads p ! i)" using assms(1,2,3) by (auto simp: closing_def)
  have "Suc i \<le> j \<longleftrightarrow> i \<le> j \<and> j \<noteq> i" for j by auto
  then show ?thesis using assms h join_thread_spec [OF assms(6)]
    by (auto simp: closing_def nth_list_update)
qed

lemma closing_done: "closing p ws lo hi \<Longrightarrow> lo \<ge> hi \<or> lo \<ge> num_threads p \<Longrightarrow> closing p ws 0 0"
  by (auto simp: closing_def split: if_splits)

lemma closing_starts:
  assumes "settled p ws" "running p" "threads_ok (threads p) (num_threads p) ws"
  shows "closing (p\<lparr>stop := True\<rparr>) (ucb_cond_broadcast woken_worker ws) 0 (num_threads p)"
  using assms by (auto simp: closing_def settled_def threads_ok_def looping_def alive_def
      ucb_cond_broadcast_def woken_worker_def)

lemma settled_ends: "closing p ws 0 0 \<Longrightarrow> settled (p\<lparr>running := False, stop := False\<rparr>) ws"
  by (auto simp: closing_def settled_def)

lemma settled_no_tasks: "settled p ws \<Longrightarrow> no_tasks p' \<Longrightarrow> pool_rest p' = pool_rest p \<Longrightarrow> settled p' ws"
  by (auto simp: settled_def pool_rest_eq)

section \<open>The invariant holds along every controlled run\<close>

lemma worker_test_outcome:
  assumes "pool_holds me p q" "worker_test p = Ret (x, p')"
  obtains "x = Leave" "p' = p" "stop p"
    | "x = Sleep" "p' = p" "no_tasks p" "\<not> stop p"
    | y r where "q = y # r" "x = Take (Some (snd y))" "\<not> stop p" "same_state p p'"
        "num_running p' = usize (num_running p + 1)"
proof (cases "stop p")
  case True
  then show thesis using that(1) worker_test_stop [OF assms(1)] assms(2) by simp
next
  case False
  show thesis
  proof (cases q)
    case Nil
    then show thesis using that(2) False assms worker_test_sleep no_tasks_iff by auto
  next
    case (Cons y r)
    then obtain p1 where p1: "worker_test p = Ret (Take (Some (snd y)), p1)"
      "num_running p1 = usize (num_running p + 1)" "threads p1 = threads p" "num_threads p1 = num_threads p"
      "running p1 = running p" "\<not> stop p1"
      using worker_test_take [of me p y r] assms(1) False by auto
    then have "p1 = p'" "x = Take (Some (snd y))" using assms(2) by simp_all
    then show thesis using that(3) [OF Cons] p1 False by (simp add: same_state_def)
  qed
qed

lemma ctl_inv_worker:
  assumes inv: "ctl_inv c s" and th: "thread_inv s" and w: "workers s i \<noteq> W_Off" "w \<noteq> W_Off"
      "stop (pool s) \<longrightarrow> w \<noteq> W_Sleep" "\<not> stop (pool s) \<longrightarrow> looping w \<and> (w = W_Sleep \<longrightarrow> no_tasks p')"
    and same: "same_state (pool s) p'"
    and nr: "num_running p' > 0 \<or> num_running p' = num_running (pool s) \<and> no_tasks p' = no_tasks (pool s)"
    and s': "workers s' = (workers s)(i := w)" "callers s' = callers s" "pool s' = p'"
  shows "ctl_inv c s'"
proof -
  have "i < num_threads (pool s)" using th w(1) worker_index by blast
  then have "phase (callers s c) p' ((workers s)(i := w))"
    using inv w same nr by (intro phase_worker [where p = "pool s"]) (simp_all add: ctl_inv_def)
  then show ?thesis using inv s' same by (simp add: ctl_inv_def same_state_def)
qed

lemma ctl_inv_caller:
  assumes inv: "ctl_inv c s" and s': "callers s' = (callers s)(d := w)"
    and ph: "d = c \<Longrightarrow> phase w (pool s') (workers s')"
    and other: "d \<noteq> c \<Longrightarrow> other_ok w \<and> phase (callers s c) (pool s') (workers s')"
    and n: "num_threads (pool s') = num_threads (pool s)"
  shows "ctl_inv c s'"
proof -
  have "{e. callers s' e \<noteq> C_Idle} \<subseteq> insert d {e. callers s e \<noteq> C_Idle}" using s' by auto
  then have "finite {e. callers s' e \<noteq> C_Idle}"
    using inv finite_subset by (auto simp: ctl_inv_def)
  then show ?thesis using inv s' ph other n by (cases "d = c") (simp_all add: ctl_inv_def)
qed

lemma model_push_not_empty [simp]: "model_push d p q \<noteq> []"
  by (simp add: model_push_def)

lemma ctl_inv_step:
  assumes step: "pool_step me te exec s l s'" and ctl: "controlled c l" and inv: "ctl_inv c s"
    and lk: "lock_inv s" and th: "thread_inv s" and ti: "task_inv me s q"
    and few: "length (added s) < 2 ^ 31 - 1"
  shows "ctl_inv c s'"
proof -
  have h: "pool_holds me (pool s) q" using ti by (simp add: task_inv_def)
  have ph: "phase (callers s c) (pool s) (workers s)" and oth: "\<And>d. d \<noteq> c \<Longrightarrow> other_ok (callers s d)"
    and npos: "num_threads (pool s) > 0" using inv by (simp_all add: ctl_inv_def)
  have len: "length (threads (pool s)) = num_threads (pool s)"
    "\<forall>x \<in> set (threads (pool s)). \<not> th_detached x" using th by (simp_all add: threads_ok_def)
  have idx: "workers s i \<noteq> W_Off \<Longrightarrow> i < num_threads (pool s)" for i using th worker_index by blast
  have mine: "d = c" if "\<not> other_ok (callers s d)" for d using oth that by blast
  show ?thesis using step
  proof cases
    case (w_lock i)
    then show ?thesis
      by (intro ctl_inv_worker [OF inv th, of i W_Test "pool s"]) (auto simp: looping_def)
  next
    case (w_sleep i p)
    then have "p = pool s" "no_tasks (pool s)" "\<not> stop (pool s)"
      using worker_test_outcome [OF h w_sleep(4)] by auto
    then show ?thesis using w_sleep
      by (intro ctl_inv_worker [OF inv th, of i W_Sleep "pool s"]) (auto simp: looping_def)
  next
    case (w_leave i p)
    then have "p = pool s" "stop (pool s)" using worker_test_outcome [OF h w_leave(4)] by auto
    then show ?thesis using w_leave
      by (intro ctl_inv_worker [OF inv th, of i W_Leaving "pool s"]) auto
  next
    case (w_take i t p)
    have i: "i < num_threads (pool s)" using idx w_take(3) by simp
    obtain x q' where "task_inv me s' q'" using task_inv_take [OF ti i w_take(3,4)] w_take(2) by metis
    then have "num_running p = busy_workers (num_threads p) (workers s')"
      using w_take(2) by (simp add: task_inv_def)
    moreover have same: "same_state (pool s) p" using worker_test_outcome [OF h w_take(4)] by auto
    ultimately have "num_running p > 0"
      using busy_update [OF i, of "workers s" "W_Run t"] w_take(2,3) by (simp add: same_state_def)
    then show ?thesis using w_take same
      by (intro ctl_inv_worker [OF inv th, of i "W_Run t" p]) (auto simp: looping_def)
  next
    case (w_run i t evs)
    then show ?thesis
      by (intro ctl_inv_worker [OF inv th, of i W_Relock "pool s"]) (auto simp: looping_def)
  next
    case (w_relock i)
    then show ?thesis
      by (intro ctl_inv_worker [OF inv th, of i W_Finish "pool s"]) (auto simp: looping_def)
  next
    case (w_finish i cs)
    have i: "i < num_threads (pool s)" using idx w_finish(3) by simp
    have cs: "cs = (case callers s c of C_Sleep b \<Rightarrow> (callers s)(c := C_Woken b) | _ \<Rightarrow> callers s)"
      using signal_controller [OF w_finish(4)] oth by blast
    have fin: "finite {d. cs d \<noteq> C_Idle}"
      using inv cs by (auto simp: ctl_inv_def split: caller_pc.splits elim: rev_finite_subset)
    have csc: "cs c = (case callers s c of C_Sleep b \<Rightarrow> C_Woken b | _ \<Rightarrow> callers s c)"
      "d \<noteq> c \<Longrightarrow> cs d = callers s d" for d using cs by (simp_all split: caller_pc.splits)
    have "busy_workers (num_threads (pool s)) (workers s) > 0"
      using busy_update [OF i, of "workers s" W_Lock] w_finish(3) by simp
    then have "num_running (pool s) > 0" using ti by (simp add: task_inv_def)
    then have "phase (cs c) (worker_done (pool s)) ((workers s)(i := W_Lock))"
      unfolding csc(1)
      by (intro phase_finish [OF ph i w_finish(3)]) (simp_all add: same_state_def worker_done_def no_tasks_def)
    then show ?thesis using w_finish(2) oth csc(2) fin npos by (simp add: ctl_inv_def worker_done_def)
  next
    case (w_exit i)
    let ?p = "(pool s)\<lparr>threads := (threads (pool s))[i := posix_thread_wrapper_end (threads (pool s) ! i) 1]\<rparr>"
    have "threads ?p ! j = (if j = i then posix_thread_wrapper_end (threads (pool s) ! i) 1 else threads (pool s) ! j)" for j
      using w_exit(4) by simp
    then have "same_state (pool s) ?p" by (simp add: same_state_def posix_thread_wrapper_end_def)
    moreover have "stop (pool s)"
    proof (rule ccontr)
      assume ns: "\<not> stop (pool s)"
      have i: "i < num_threads (pool s)" using w_exit(4) len by simp
      have "settled (pool s) (workers s)"
        using ph ns by (cases "(callers s c, pool s, workers s)" rule: phase.cases) (auto simp: closing_def)
      then show False using i w_exit(3) by (auto simp: settled_def looping_def split: if_splits)
    qed
    ultimately show ?thesis using w_exit
      by (intro ctl_inv_worker [OF inv th, of i W_Exit ?p]) (auto simp: no_tasks_def)
  next
    case (w_spurious i)
    then show ?thesis
      by (intro ctl_inv_worker [OF inv th, of i W_Woken "pool s"]) (auto simp: looping_def)
  next
    case (c_call d call)
    show ?thesis
    proof (rule ctl_inv_caller [OF inv, of s' d "C_Lock call"])
      show "phase (C_Lock call) (pool s') (workers s')" if "d = c" using ph c_call that by simp
      show "other_ok (C_Lock call) \<and> phase (callers s c) (pool s') (workers s')" if "d \<noteq> c"
        using c_call ctl that ph by (simp add: controlled_def)
    qed (use c_call in simp_all)
  next
    case (c_set_callback cb)
    have "phase (callers s c) (pool s\<lparr>dflt_callback := cb\<rparr>) (workers s)"
      using ph by (cases "(callers s c, pool s, workers s)" rule: phase.cases)
        (auto simp: settled_def closing_def no_tasks_def)
    then show ?thesis
      using inv c_set_callback(2) by (simp add: ctl_inv_def ucb_threadpool_set_default_callback_def)
  next
    case (c_lock d call)
    show ?thesis
    proof (rule ctl_inv_caller [OF inv, of s' d "C_In call"])
      show "phase (C_In call) (pool s') (workers s')" if "d = c" using ph c_lock that by simp
      show "other_ok (C_In call) \<and> phase (callers s c) (pool s') (workers s')" if "d \<noteq> c"
        using c_lock oth [OF that] ph by simp
    qed (use c_lock in simp_all)
  next
    case (c_add d t ct notify p ws)
    note a = task_inv_add [OF ti few c_add(3,4,5)]
    have ws: "if running (pool s) then ucb_cond_signal woken_worker (workers s) ws else ws = workers s"
      using c_add(5) a(3) by simp
    have off: "\<forall>i \<ge> num_threads (pool s). workers s i = W_Off" using th by (simp add: threads_ok_def)
    have full: "\<not> no_tasks p" using a(4) no_tasks_iff by (fastforce simp: task_inv_def)
    have hold: "holder s = Some (Caller d)" using lock_caller_holds [OF lk] c_add(3) by simp
    show ?thesis
    proof (rule ctl_inv_caller [OF inv, of s' d C_Idle])
      show "phase C_Idle (pool s') (workers s')" if "d = c"
        using phase_add [OF ph ws off npos a(2) full] c_add(2,3) that by simp
      show "other_ok C_Idle \<and> phase (callers s c) (pool s') (workers s')" if "d \<noteq> c"
      proof -
        have "callers s c \<noteq> C_Test For_all"
          using hold that lk unfolding lock_ok_def
          by (metis caller_in_section_simps(2) option.inject thr.inject(2))
        then show ?thesis using phase_add [OF ph ws off npos a(2) full] c_add(2) by simp
      qed
    qed (use c_add(2) a(2) in \<open>simp_all add: pool_rest_eq\<close>)
  next
    case (c_num_running d)
    show ?thesis by (rule ctl_inv_caller [OF inv, of s' d C_Idle]) (use c_num_running ph in auto)
  next
    case (c_num_queued d p n)
    have "p = pool s" using c_num_queued num_queued_spec [OF h] by simp
    then show ?thesis by (intro ctl_inv_caller [OF inv, of s' d C_Idle]) (use c_num_queued ph in auto)
  next
    case (c_start_running d)
    then have "d = c" using mine [of d] by (simp add: plain_call_def)
    then show ?thesis by (intro ctl_inv_caller [OF inv, of s' d C_Idle]) (use c_start_running ph in auto)
  next
    case (c_start d k n p)
    then have d: "d = c" using mine [of d] by (simp add: plain_call_def)
    have "settled (pool s) (workers s)" using ph c_start(3) d by simp
    from settled_launch(1) [OF this c_start(4,5) len(1) npos len(2) c_start(6)]
      start_impl_spec(4) [OF c_start(5,4)] d
    show ?thesis by (intro ctl_inv_caller [OF inv, of s' d C_Idle]) (use c_start(2) in auto)
  next
    case (c_start_fails d k n p)
    then have d: "d = c" using mine [of d] by (simp add: plain_call_def)
    have "settled (pool s) (workers s)" using ph c_start_fails(3) d by simp
    from settled_launch(2) [OF this c_start_fails(4,5) len(1) npos len(2) c_start_fails(6)]
      start_impl_spec(4) [OF c_start_fails(5,4)] d
    show ?thesis by (intro ctl_inv_caller [OF inv, of s' d "C_Reap n 0"]) (use c_start_fails(2) in auto)
  next
    case (c_wait_starts d p k n p')
    then have d: "d = c" using mine [of d] by (simp add: plain_call_def)
    have p: "p = pool s" "\<not> running (pool s)" using wait_all_starts_spec [OF h] c_wait_starts(4) by auto
    have "settled (pool s) (workers s)" using ph c_wait_starts(3) d by simp
    from settled_launch(1) [OF this p(2) c_wait_starts(5) [unfolded p(1)] len(1) npos len(2) c_wait_starts(6)]
      start_impl_spec(2,4) [OF c_wait_starts(5) [unfolded p(1)] p(2)] d
    show ?thesis by (intro ctl_inv_caller [OF inv, of s' d "C_Test For_all"]) (use c_wait_starts(2) in auto)
  next
    case (c_wait_start_fails d p k n p')
    then have d: "d = c" using mine [of d] by (simp add: plain_call_def)
    have p: "p = pool s" "\<not> running (pool s)" using wait_all_starts_spec [OF h] c_wait_start_fails(4) by auto
    have "settled (pool s) (workers s)" using ph c_wait_start_fails(3) d by simp
    from settled_launch(2) [OF this p(2) c_wait_start_fails(5) [unfolded p(1)] len(1) npos len(2)
        c_wait_start_fails(6)] start_impl_spec(4) [OF c_wait_start_fails(5) [unfolded p(1)] p(2)] d
    show ?thesis by (intro ctl_inv_caller [OF inv, of s' d "C_Reap n 0"]) (use c_wait_start_fails(2) in auto)
  next
    case (c_wait_enters d p)
    then have d: "d = c" using mine [of d] by (simp add: plain_call_def)
    have p: "p = pool s" "running (pool s) \<or> q = []" using wait_all_starts_spec [OF h] c_wait_enters(4) by auto
    have st: "settled (pool s) (workers s)" using ph c_wait_enters(3) d by simp
    have "num_running (pool s) = 0" if "\<not> running (pool s)"
    proof -
      have "busy_workers (num_threads (pool s)) (workers s) = 0"
        using st that by (simp add: busy_workers_def settled_def)
      then show ?thesis using ti by (simp add: task_inv_def)
    qed
    then have "phase (C_Test For_all) (pool s) (workers s)" using st p(2) no_tasks_iff [OF h] by auto
    then show ?thesis using p(1) d
      by (intro ctl_inv_caller [OF inv, of s' d "C_Test For_all"]) (use c_wait_enters(2) in auto)
  next
    case (c_wait_sleeps d p)
    then have d: "d = c" using mine [of d] by simp
    have p: "p = pool s" "num_running (pool s) > 0 \<or> q \<noteq> []" using wait_all_test_spec [OF h] c_wait_sleeps(4) by auto
    then have "phase (C_Sleep For_all) (pool s) (workers s)"
      using ph c_wait_sleeps(3) d no_tasks_iff [OF h] by auto
    then show ?thesis using p(1) d
      by (intro ctl_inv_caller [OF inv, of s' d "C_Sleep For_all"]) (use c_wait_sleeps(2) in auto)
  next
    case (c_wait_returns d p)
    then have d: "d = c" using mine [of d] by simp
    have p: "p = pool s" using wait_all_test_spec [OF h] c_wait_returns(4) by auto
    then show ?thesis using d ph c_wait_returns(3)
      by (intro ctl_inv_caller [OF inv, of s' d C_Idle]) (use c_wait_returns(2) in auto)
  next
    case (c_woken d b)
    then have d: "d = c" using mine [of d] by simp
    have "phase (C_Test b) (pool s) (workers s)" using ph c_woken(3) d by (cases b) auto
    then show ?thesis using d
      by (intro ctl_inv_caller [OF inv, of s' d "C_Test b"]) (use c_woken(2) in auto)
  next
    case (c_join_idle d p)
    then have d: "d = c" using mine [of d] by (simp add: plain_call_def)
    have p: "task_inv me (s\<lparr>pool := p\<rparr>) []" "pool_rest p = pool_rest (pool s)"
      using task_inv_clear [OF ti c_join_idle(5)] by simp_all
    have "no_tasks p" using p(1) no_tasks_iff by (fastforce simp: task_inv_def)
    then have "settled p (workers s)" using settled_no_tasks [of "pool s"] ph c_join_idle(3) d p(2) by simp
    then show ?thesis using d p(2)
      by (intro ctl_inv_caller [OF inv, of s' d C_Idle]) (use c_join_idle(2) in \<open>auto simp: pool_rest_eq\<close>)
  next
    case (c_join_stops d)
    then have d: "d = c" using mine [of d] by (simp add: plain_call_def)
    have "settled (pool s) (workers s)" using ph c_join_stops(3) d by simp
    from closing_starts [OF this c_join_stops(4)] th d show ?thesis
      by (intro ctl_inv_caller [OF inv, of s' d "C_Test For_join"]) (use c_join_stops(2) in auto)
  next
    case (c_join_sleeps d)
    then have d: "d = c" using mine [of d] by simp
    then show ?thesis using ph c_join_sleeps(3,4)
      by (intro ctl_inv_caller [OF inv, of s' d "C_Sleep For_join"]) (use c_join_sleeps(2) in auto)
  next
    case (c_join_threads d)
    then have d: "d = c" using mine [of d] by simp
    then show ?thesis using ph c_join_threads(3)
      by (intro ctl_inv_caller [OF inv, of s' d "C_Joining 0"]) (use c_join_threads(2) in auto)
  next
    case (c_joining d i p)
    then have d: "d = c" using mine [of d] by simp
    have "closing (pool s) (workers s) i (num_threads (pool s))" using ph c_joining(3) d by simp
    from closing_join [OF this c_joining(4,4) len(1) c_joining(5,6)] join_thread_spec [OF c_joining(6)] d
    show ?thesis by (intro ctl_inv_caller [OF inv, of s' d "C_Joining (i + 1)"]) (use c_joining(2) in auto)
  next
    case (c_joined d i)
    then have d: "d = c" using mine [of d] by simp
    have "closing (pool s) (workers s) i (num_threads (pool s))" using ph c_joined(3) d by simp
    from closing_done [OF this] c_joined(4) d
    show ?thesis by (intro ctl_inv_caller [OF inv, of s' d C_Join_lock]) (use c_joined(2) in auto)
  next
    case (c_join_lock d)
    then have d: "d = c" using mine [of d] by simp
    then show ?thesis using ph c_join_lock(3)
      by (intro ctl_inv_caller [OF inv, of s' d C_Join_end]) (use c_join_lock(2) in auto)
  next
    case (c_join_end d p)
    then have d: "d = c" using mine [of d] by simp
    let ?p = "(pool s)\<lparr>running := False, stop := False\<rparr>"
    have st: "settled ?p (workers s)" using ph c_join_end(3) d settled_ends by simp
    obtain p1 where p1: "clear_tasks ?p = Ret p1" "pool_holds me p1 []" "pool_rest p1 = pool_rest ?p"
      using clear_tasks_spec [of me ?p q] h by auto
    then have "p = p1" using c_join_end(4) by (simp add: join_end_def)
    then have "settled p (workers s)" "num_threads p = num_threads (pool s)"
      using settled_no_tasks [OF st] p1 no_tasks_iff by (auto simp: pool_rest_eq)
    then show ?thesis using d by (intro ctl_inv_caller [OF inv, of s' d C_Idle]) (use c_join_end(2) in auto)
  next
    case (c_reaping d n i p)
    then have d: "d = c" using mine [of d] by simp
    have cl: "closing (pool s) (workers s) i n" using ph c_reaping(3) d by simp
    have "reap_le (num_threads (pool s)) (callers s d)" using th by (simp add: reaps_ok_def)
    then have "i < num_threads (pool s)" using c_reaping(3,4) by simp
    from closing_join [OF cl c_reaping(4) this len(1) c_reaping(5,6)] join_thread_spec [OF c_reaping(6)] d
    show ?thesis by (intro ctl_inv_caller [OF inv, of s' d "C_Reap n (i + 1)"]) (use c_reaping(2) in auto)
  next
    case (c_reaped d n i)
    then have d: "d = c" using mine [of d] by simp
    have "closing (pool s) (workers s) i n" using ph c_reaped(3) d by simp
    from closing_done [OF this] c_reaped(4) d
    show ?thesis by (intro ctl_inv_caller [OF inv, of s' d C_Reap_lock]) (use c_reaped(2) in auto)
  next
    case (c_reap_lock d)
    then have d: "d = c" using mine [of d] by simp
    then show ?thesis using ph c_reap_lock(3)
      by (intro ctl_inv_caller [OF inv, of s' d C_Reap_end]) (use c_reap_lock(2) in auto)
  next
    case (c_reap_end d)
    then have d: "d = c" using mine [of d] by simp
    then have "settled (reap_end (pool s)) (workers s)" using ph c_reap_end(3) settled_ends by (simp add: reap_end_def)
    then show ?thesis using d
      by (intro ctl_inv_caller [OF inv, of s' d C_Idle]) (use c_reap_end(2) in \<open>auto simp: reap_end_def\<close>)
  next
    case (c_spurious d b)
    then have d: "d = c" using mine [of d] by simp
    have "phase (C_Woken b) (pool s) (workers s)" using ph c_spurious(3) d by (cases b) auto
    then show ?thesis using d
      by (intro ctl_inv_caller [OF inv, of s' d "C_Woken b"]) (use c_spurious(2) in auto)
  qed
qed

section \<open>A measure of the work left\<close>

text \<open>
  Steps a thread can still take before it is idle, asleep or gone, with room for the threads that
  it wakes: finishing a task may wake the controller, adding a task may wake a worker, and
  taking a task from the queue turns the 7 steps booked for it there into those of the worker.
\<close>

fun worker_work :: "worker_pc \<Rightarrow> nat" where
  "worker_work (W_Run t) = 8"
| "worker_work W_Relock = 7"
| "worker_work W_Finish = 6"
| "worker_work W_Lock = 3"
| "worker_work W_Woken = 3"
| "worker_work W_Test = 2"
| "worker_work W_Leaving = 1"
| "worker_work _ = 0"

fun call_work :: "nat \<Rightarrow> call \<Rightarrow> nat" where
  "call_work n (Add t) = 11"
| "call_work n Num_running = 1"
| "call_work n Num_queued = 1"
| "call_work n _ = 4 * n + 20"

fun caller_work :: "nat \<Rightarrow> caller_pc \<Rightarrow> nat" where
  "caller_work n C_Idle = 0"
| "caller_work n (C_Lock k) = call_work n k + 1"
| "caller_work n (C_In k) = call_work n k"
| "caller_work n (C_Sleep For_all) = 0"
| "caller_work n (C_Test For_all) = 1"
| "caller_work n (C_Woken For_all) = 2"
| "caller_work n (C_Sleep For_join) = n + 4"
| "caller_work n (C_Test For_join) = n + 5"
| "caller_work n (C_Woken For_join) = n + 6"
| "caller_work n (C_Joining i) = (n - i) + 3"
| "caller_work n C_Join_lock = 2"
| "caller_work n C_Join_end = 1"
| "caller_work n (C_Reap m i) = (m - i) + 3"
| "caller_work n C_Reap_lock = 2"
| "caller_work n C_Reap_end = 1"

definition workers_work :: "nat \<Rightarrow> (nat \<Rightarrow> worker_pc) \<Rightarrow> nat" where
  "workers_work n ws = (\<Sum>i<n. worker_work (ws i))"

definition callers_work :: "nat \<Rightarrow> nat set \<Rightarrow> (nat \<Rightarrow> caller_pc) \<Rightarrow> nat" where
  "callers_work n D cs = (\<Sum>d\<in>D. caller_work n (cs d))"

definition queued :: "ucb_threadpool \<Rightarrow> nat" where
  "queued p = (case ucb_threadpool_num_queued p of Ret (_, k) \<Rightarrow> k | _ \<Rightarrow> 0)"

definition pool_work :: "nat set \<Rightarrow> pool_sys \<Rightarrow> nat" where
  "pool_work D s = 7 * queued (pool s) + workers_work (num_threads (pool s)) (workers s)
     + callers_work (num_threads (pool s)) D (callers s)"

lemma queued_eq: "pool_holds me p q \<Longrightarrow> queued p = length q"
  using num_queued_spec by (simp add: queued_def)

lemma queued_cong: "tasks p' = tasks p \<Longrightarrow> queued p' = queued p"
  by (cases "ucb_pqueue_size (tasks p)") (auto simp: queued_def ucb_threadpool_num_queued_def)

lemma workers_update: "i < n \<Longrightarrow> workers_work n (w(i := x)) + worker_work (w i) = workers_work n w + worker_work x"
  using sum_update [of i n worker_work w x] by (simp add: workers_work_def)

lemma callers_update:
  assumes "finite D" "d \<in> D"
  shows "callers_work n D (cs(d := x)) + caller_work n (cs d) = callers_work n D cs + caller_work n x"
proof -
  have "(\<Sum>e\<in>D. caller_work n ((cs(d := x)) e)) = caller_work n x + (\<Sum>e\<in>D - {d}. caller_work n (cs e))"
    using assms by (subst sum.remove [of _ d]) (auto intro: sum.cong)
  moreover have "(\<Sum>e\<in>D. caller_work n (cs e)) = caller_work n (cs d) + (\<Sum>e\<in>D - {d}. caller_work n (cs e))"
    using assms by (subst sum.remove [of _ d]) auto
  ultimately show ?thesis by (simp add: callers_work_def)
qed

lemma workers_signal:
  assumes "ucb_cond_signal woken_worker ws ws'"
  shows "workers_work n ws' \<le> workers_work n ws + 3"
  using assms
proof cases
  case (wake_one i w)
  then have w: "ws i = W_Sleep" "w = W_Woken" by (auto simp: woken_worker_def split: if_splits)
  show ?thesis
  proof (cases "i < n")
    case True
    then show ?thesis using workers_update [OF True, of ws w] w wake_one(1) by simp
  next
    case False
    then have "workers_work n ws' = workers_work n ws" using wake_one(1) by (simp add: workers_work_def)
    then show ?thesis by simp
  qed
qed simp

lemma workers_broadcast: "workers_work n (ucb_cond_broadcast woken_worker ws) \<le> workers_work n ws + 3 * n"
proof -
  have "worker_work (ucb_cond_broadcast woken_worker ws i) \<le> worker_work (ws i) + 3" for i
    by (simp add: ucb_cond_broadcast_def woken_worker_def)
  then have "workers_work n (ucb_cond_broadcast woken_worker ws) \<le> (\<Sum>i<n. worker_work (ws i) + 3)"
    unfolding workers_work_def by (rule sum_mono)
  then show ?thesis by (simp add: workers_work_def sum.distrib)
qed

lemma workers_all_off:
  assumes "settled p ws" "\<not> running p"
  shows "workers_work (num_threads p) (launch n ws) \<le> 3 * num_threads p"
    "workers_work (num_threads p) (ucb_cond_broadcast woken_worker (launch n ws)) \<le> 3 * num_threads p"
proof -
  have "worker_work (launch n ws i) \<le> 3" "worker_work (ucb_cond_broadcast woken_worker (launch n ws) i) \<le> 3"
    if "i < num_threads p" for i
    using assms that by (auto simp: settled_def launch_def ucb_cond_broadcast_def woken_worker_def)
  then show "workers_work (num_threads p) (launch n ws) \<le> 3 * num_threads p"
    "workers_work (num_threads p) (ucb_cond_broadcast woken_worker (launch n ws)) \<le> 3 * num_threads p"
    unfolding workers_work_def
    by (metis (no_types, lifting) card_lessThan lessThan_iff mult.commute of_nat_id sum_bounded_above)+
qed

definition progress :: "label \<Rightarrow> bool" where
  "progress l = (case l of Worker_step _ \<Rightarrow> True | Caller_step _ \<Rightarrow> True | Start_failed _ \<Rightarrow> True | _ \<Rightarrow> False)"

lemma work_worker:
  assumes "i < num_threads (pool s)" "worker_work w < worker_work (workers s i)"
    "workers s' = (workers s)(i := w)" "callers s' = callers s" "queued (pool s') = queued (pool s)"
    "num_threads (pool s') = num_threads (pool s)"
  shows "pool_work D s' < pool_work D s"
  using workers_update [OF assms(1), of "workers s" w] assms(2-) by (simp add: pool_work_def)

lemma work_caller:
  assumes "finite D" "d \<in> D" "callers s' = (callers s)(d := w)"
    "num_threads (pool s') = num_threads (pool s)"
    "7 * queued (pool s') + workers_work (num_threads (pool s)) (workers s') + caller_work (num_threads (pool s)) w
      < 7 * queued (pool s) + workers_work (num_threads (pool s)) (workers s)
        + caller_work (num_threads (pool s)) (callers s d)"
  shows "pool_work D s' < pool_work D s"
  using callers_update [OF assms(1,2), of "num_threads (pool s)" "callers s" w] assms(3-)
  by (simp add: pool_work_def)

lemma work_decreases:
  assumes step: "pool_step me te exec s l s'" and pr: "progress l" and inv: "ctl_inv c s"
    and th: "thread_inv s" and ti: "task_inv me s q"
    and few: "length (added s) < 2 ^ 31 - 1" and D: "finite D" "{d. callers s d \<noteq> C_Idle} \<subseteq> D"
  shows "pool_work D s' < pool_work D s"
proof -
  let ?n = "num_threads (pool s)"
  have h: "pool_holds me (pool s) q" using ti by (simp add: task_inv_def)
  have ph: "phase (callers s c) (pool s) (workers s)" and oth: "\<And>d. d \<noteq> c \<Longrightarrow> other_ok (callers s d)"
    using inv by (simp_all add: ctl_inv_def)
  have idx: "workers s i \<noteq> W_Off \<Longrightarrow> i < ?n" for i using th worker_index by blast
  have mine: "d = c" if "\<not> other_ok (callers s d)" for d using oth that by blast
  have dD: "callers s d \<noteq> C_Idle \<Longrightarrow> d \<in> D" for d using D(2) by blast
  note wc = work_caller [OF D(1) dD]
  show ?thesis using step
  proof cases
    case (w_lock i)
    then show ?thesis by (intro work_worker [OF idx [of i]]) auto
  next
    case (w_sleep i p)
    then have "p = pool s" using worker_test_outcome [OF h w_sleep(4)] by auto
    then show ?thesis using w_sleep by (intro work_worker [OF idx [of i]]) auto
  next
    case (w_leave i p)
    then have "p = pool s" using worker_test_outcome [OF h w_leave(4)] by auto
    then show ?thesis using w_leave by (intro work_worker [OF idx [of i]]) auto
  next
    case (w_take i t p)
    have i: "i < ?n" using idx w_take(3) by simp
    obtain x q' where q: "q = x # q'" "task_inv me s' q'"
      using task_inv_take [OF ti i w_take(3,4)] w_take(2) by metis
    have "queued (pool s) = length q' + 1" "queued (pool s') = length q'"
      using queued_eq h q by (fastforce simp: task_inv_def)+
    moreover have "num_threads p = ?n"
      using worker_test_outcome [OF h w_take(4)] by (auto simp: same_state_def)
    ultimately show ?thesis using workers_update [OF i, of "workers s" "W_Run t"] w_take(2,3)
      by (simp add: pool_work_def)
  next
    case (w_run i t evs)
    then show ?thesis by (intro work_worker [OF idx [of i]]) auto
  next
    case (w_relock i)
    then show ?thesis by (intro work_worker [OF idx [of i]]) auto
  next
    case (w_finish i cs)
    have i: "i < ?n" using idx w_finish(3) by simp
    have cs: "cs = (case callers s c of C_Sleep b \<Rightarrow> (callers s)(c := C_Woken b) | _ \<Rightarrow> callers s)"
      using signal_controller [OF w_finish(4)] oth by blast
    have "callers_work ?n D cs \<le> callers_work ?n D (callers s) + 2"
    proof (cases "callers s c")
      case (C_Sleep b)
      then show ?thesis using callers_update [OF D(1) dD [of c], of ?n "callers s" "C_Woken b"] cs
        by (cases b) auto
    qed (use cs in auto)
    moreover have "queued (worker_done (pool s)) = queued (pool s)"
      by (rule queued_cong) (simp add: worker_done_def)
    ultimately show ?thesis using workers_update [OF i, of "workers s" W_Lock] w_finish(2,3)
      by (simp add: pool_work_def worker_done_def)
  next
    case (w_exit i)
    have "queued (pool s') = queued (pool s)" by (rule queued_cong) (simp add: w_exit(2))
    then show ?thesis using w_exit by (intro work_worker [OF idx [of i]]) auto
  next
    case (c_lock d call)
    then show ?thesis by (intro wc [of d]) auto
  next
    case (c_add d t ct notify p ws)
    note a = task_inv_add [OF ti few c_add(3,4,5)]
    have n: "num_threads p = ?n" using a(2) by (simp add: pool_rest_eq)
    have "queued p = length q + 1" using a(4) queued_eq by (fastforce simp: task_inv_def length_model_push)
    moreover have "queued (pool s) = length q" using queued_eq [OF h] .
    moreover have "workers_work ?n ws \<le> workers_work ?n (workers s) + 3"
      using c_add(5) workers_signal by (auto split: if_splits)
    ultimately show ?thesis using c_add(2,3) n by (intro wc [of d s' s C_Idle]) auto
  next
    case (c_num_running d)
    then show ?thesis by (intro wc [of d]) auto
  next
    case (c_num_queued d p n)
    have "p = pool s" using c_num_queued num_queued_spec [OF h] by simp
    then show ?thesis using c_num_queued by (intro wc [of d]) auto
  next
    case (c_start_running d)
    then show ?thesis by (intro wc [of d]) auto
  next
    case (c_start d k n p)
    have "settled (pool s) (workers s)" using ph c_start(3) mine [of d] by (auto simp: plain_call_def)
    note w = workers_all_off [OF this c_start(4), of n]
    note sp = start_impl_spec [OF c_start(5,4)]
    note qn = queued_cong [OF sp(6)] sp(4)
    show ?thesis using c_start(2,3) w qn by (intro wc [of d s' s C_Idle]) auto
  next
    case (c_start_fails d k n p)
    have "settled (pool s) (workers s)" using ph c_start_fails(3) mine [of d] by (auto simp: plain_call_def)
    note w = workers_all_off [OF this c_start_fails(4), of n]
    note sp = start_impl_spec [OF c_start_fails(5,4)]
    note qn = queued_cong [OF sp(6)] sp(4)
    have "n \<le> ?n" using thread_launch(2) [OF _ sp(1)] th by blast
    then show ?thesis using c_start_fails(2,3) w qn by (intro wc [of d s' s "C_Reap n 0"]) auto
  next
    case (c_wait_starts d p k n p')
    have p: "p = pool s" "\<not> running (pool s)" using wait_all_starts_spec [OF h] c_wait_starts(4) by auto
    have "settled (pool s) (workers s)" using ph c_wait_starts(3) mine [of d] by (auto simp: plain_call_def)
    note w = workers_all_off [OF this p(2), of n]
    note sp = start_impl_spec [OF c_wait_starts(5) [unfolded p(1)] p(2)]
    note qn = queued_cong [OF sp(6)] sp(4)
    show ?thesis using c_wait_starts(2,3) w qn by (intro wc [of d s' s "C_Test For_all"]) auto
  next
    case (c_wait_start_fails d p k n p')
    have p: "p = pool s" "\<not> running (pool s)" using wait_all_starts_spec [OF h] c_wait_start_fails(4) by auto
    have "settled (pool s) (workers s)" using ph c_wait_start_fails(3) mine [of d] by (auto simp: plain_call_def)
    note w = workers_all_off [OF this p(2), of n]
    note sp = start_impl_spec [OF c_wait_start_fails(5) [unfolded p(1)] p(2)]
    note qn = queued_cong [OF sp(6)] sp(4)
    have "n \<le> ?n" using thread_launch(2) [OF _ sp(1)] th by blast
    then show ?thesis using c_wait_start_fails(2,3) w qn by (intro wc [of d s' s "C_Reap n 0"]) auto
  next
    case (c_wait_enters d p)
    have "p = pool s" using wait_all_starts_spec [OF h] c_wait_enters(4) by auto
    then show ?thesis using c_wait_enters by (intro wc [of d]) auto
  next
    case (c_wait_sleeps d p)
    have "p = pool s" using wait_all_test_spec [OF h] c_wait_sleeps(4) by auto
    then show ?thesis using c_wait_sleeps by (intro wc [of d]) auto
  next
    case (c_wait_returns d p)
    have "p = pool s" using wait_all_test_spec [OF h] c_wait_returns(4) by auto
    then show ?thesis using c_wait_returns by (intro wc [of d]) auto
  next
    case (c_woken d b)
    have "caller_work ?n (C_Test b) < caller_work ?n (C_Woken b)" by (cases b) simp_all
    then show ?thesis using c_woken by (intro wc [of d s' s "C_Test b"]) simp_all
  next
    case (c_join_idle d p)
    have p: "task_inv me (s\<lparr>pool := p\<rparr>) []" "pool_rest p = pool_rest (pool s)"
      using task_inv_clear [OF ti c_join_idle(5)] by simp_all
    have "queued p = 0" using p(1) queued_eq by (fastforce simp: task_inv_def)
    then show ?thesis using c_join_idle p(2) by (intro wc [of d]) (auto simp: pool_rest_eq)
  next
    case (c_join_stops d)
    have "queued (pool s') = queued (pool s)" by (rule queued_cong) (simp add: c_join_stops(2))
    then show ?thesis using c_join_stops workers_broadcast [of ?n "workers s"]
      by (intro wc [of d s' s "C_Test For_join"]) auto
  next
    case (c_join_sleeps d)
    then show ?thesis by (intro wc [of d]) auto
  next
    case (c_join_threads d)
    then show ?thesis by (intro wc [of d]) auto
  next
    case (c_joining d i p)
    have "queued (pool s') = queued (pool s)"
      by (rule queued_cong) (simp add: c_joining(2) join_thread_spec [OF c_joining(6)])
    moreover have "workers_work ?n (workers s') = workers_work ?n (workers s)"
      using workers_update [OF c_joining(4), of "workers s" W_Off] c_joining(2,5) by auto
    ultimately show ?thesis using c_joining join_thread_spec [OF c_joining(6)]
      by (intro wc [of d s' s "C_Joining (i + 1)"]) auto
  next
    case (c_joined d i)
    then show ?thesis by (intro wc [of d]) auto
  next
    case (c_join_lock d)
    then show ?thesis by (intro wc [of d]) auto
  next
    case (c_join_end d p)
    let ?p = "(pool s)\<lparr>running := False, stop := False\<rparr>"
    obtain p1 where p1: "clear_tasks ?p = Ret p1" "pool_holds me p1 []" "pool_rest p1 = pool_rest ?p"
      using clear_tasks_spec [of me ?p q] h by auto
    then have "p = p1" using c_join_end(4) by (simp add: join_end_def)
    then show ?thesis using c_join_end p1 queued_eq [OF p1(2)]
      by (intro wc [of d]) (auto simp: pool_rest_eq)
  next
    case (c_reaping d n i p)
    have "reap_le ?n (callers s d)" using th by (simp add: reaps_ok_def)
    then have i: "i < ?n" using c_reaping(3,4) by simp
    have "queued (pool s') = queued (pool s)"
      by (rule queued_cong) (simp add: c_reaping(2) join_thread_spec [OF c_reaping(6)])
    moreover have "workers_work ?n (workers s') = workers_work ?n (workers s)"
      using workers_update [OF i, of "workers s" W_Off] c_reaping(2,5) by auto
    ultimately show ?thesis using c_reaping join_thread_spec [OF c_reaping(6)]
      by (intro wc [of d s' s "C_Reap n (i + 1)"]) auto
  next
    case (c_reaped d n i)
    then show ?thesis by (intro wc [of d]) auto
  next
    case (c_reap_lock d)
    then show ?thesis by (intro wc [of d]) auto
  next
    case (c_reap_end d)
    have "queued (pool s') = queued (pool s)" by (rule queued_cong) (simp add: c_reap_end(2) reap_end_def)
    then show ?thesis using c_reap_end by (intro wc [of d]) (auto simp: reap_end_def)
  qed (use pr in \<open>simp_all add: progress_def\<close>)
qed

section \<open>No deadlock\<close>

lemma signal_total: "\<exists>ws'. ucb_cond_signal wake ws ws'"
  using ucb_cond_signal.intros by (metis option.exhaust)

definition can_step :: "mem_env \<Rightarrow> thread_env \<Rightarrow> (nat \<Rightarrow> nat \<Rightarrow> int) \<Rightarrow> pool_sys \<Rightarrow> bool" where
  "can_step me te exec s \<longleftrightarrow> (\<exists>l s'. progress l \<and> pool_step me te exec s l s')"

lemma progress_can: "pool_step me te exec s l s' \<Longrightarrow> progress l \<Longrightarrow> can_step me te exec s"
  unfolding can_step_def by blast

lemma worker_can: "pool_step me te exec s (Worker_step i) s' \<Longrightarrow> can_step me te exec s"
  by (erule progress_can) (simp add: progress_def)

lemma caller_can: "pool_step me te exec s (Caller_step c) s' \<Longrightarrow> can_step me te exec s"
  by (erule progress_can) (simp add: progress_def)

lemma worker_test_returns: "pool_holds me p q \<Longrightarrow> \<exists>x p'. worker_test p = Ret (x, p')"
  using worker_test_stop worker_test_sleep worker_test_take by (metis list.exhaust)

lemma worker_steps:
  assumes th: "thread_inv s" and ti: "task_inv me s q" and i: "i < num_threads (pool s)"
    and pc: "workers s i \<noteq> W_Off" "workers s i \<noteq> W_Exit" "workers s i \<noteq> W_Sleep"
    and lk: "holder s = None \<or> in_section (workers s i)"
  shows "can_step me te exec s"
proof (cases "workers s i")
  case W_Test
  have h: "pool_holds me (pool s) q" using ti by (simp add: task_inv_def)
  obtain x p' where x: "worker_test (pool s) = Ret (x, p')"
    using worker_test_returns [OF h] by blast
  show ?thesis using x W_Test by (cases x) (auto intro: w_sleep w_leave w_take worker_can)
next
  case W_Finish
  then show ?thesis using signal_total w_finish worker_can by metis
next
  case (W_Run t)
  then obtain t' where t': "t = Some t'" "t_func t' \<noteq> None"
    using ti unfolding task_inv_def runs_ok_def by metis
  obtain f where f: "t_func t' = Some f" using t'(2) by auto
  then obtain evs where "worker_run exec t = Ret evs"
    using t'(1) by (cases "t_callback t'") (auto simp: worker_run_def ucb_task_run_def Let_def)
  then show ?thesis using W_Run w_run worker_can by metis
next
  case W_Leaving
  moreover have "i < length (threads (pool s))" using th i by (simp add: threads_ok_def)
  ultimately show ?thesis using w_exit worker_can by metis
next
  case W_Lock
  then have "holder s = None" using lk by simp
  then show ?thesis using W_Lock w_lock worker_can by blast
next
  case W_Woken
  then have "holder s = None" using lk by simp
  then show ?thesis using W_Woken w_lock worker_can by blast
next
  case W_Relock
  then have "holder s = None" using lk by simp
  then show ?thesis using W_Relock w_relock worker_can by blast
qed (use pc in simp_all)

lemma start_can:
  assumes th: "thread_inv s" and st: "settled (pool s) (workers s)" and nr: "\<not> running (pool s)"
  shows "\<exists>p. ucb_threadpool_start_impl te (num_threads (pool s)) (pool s) = Ret (num_threads (pool s), p)
    \<and> num_threads p = num_threads (pool s)"
proof -
  have len: "length (threads (pool s)) = num_threads (pool s)" using th by (simp add: threads_ok_def)
  have "\<forall>x \<in> set (threads (pool s)). \<not> th_running x"
    using st nr len by (auto simp: settled_def in_set_conv_nth)
  from start_threads_total [OF this, of "num_threads (pool s)" te] len
  obtain ths where "start_threads te (num_threads (pool s)) (threads (pool s)) = Ret (num_threads (pool s), ths)"
    by auto
  then show ?thesis using nr by (simp add: ucb_threadpool_start_impl_def Let_def)
qed

lemma caller_section_steps:
  assumes inv: "ctl_inv c s" and th: "thread_inv s" and ti: "task_inv me s q"
    and few: "length (added s) < 2 ^ 31 - 1" and d: "caller_in_section (callers s d)"
  shows "can_step me te exec s"
proof -
  have h: "pool_holds me (pool s) q" and ck: "call_ok (callers s d)" using ti by (simp_all add: task_inv_def)
  have ph: "phase (callers s c) (pool s) (workers s)" and oth: "\<And>d. d \<noteq> c \<Longrightarrow> other_ok (callers s d)"
    using inv by (simp_all add: ctl_inv_def)
  have mine: "d = c" if "\<not> other_ok (callers s d)" for d using oth that by blast
  show ?thesis
  proof (cases "callers s d")
    case (C_In k)
    show ?thesis
    proof (cases k)
      case (Add t)
      have "size (mset (map snd q)) \<le> size (mset (added s))"
        using ti unfolding task_inv_def by (metis (no_types, lifting) add.assoc le_add1 size_union)
      then have n: "length q < 2 ^ 31 - 1" using few by simp
      have "t_func t \<noteq> None" using ck C_In Add by simp
      from add_task_spec [OF h n this] obtain ct b p' where a: "ucb_threadpool_add_task me (pool s) t = Ret (ct, b, p')"
        by blast
      obtain ws where "if b then ucb_cond_signal woken_worker (workers s) ws else ws = workers s"
        using signal_total by metis
      from c_add [OF _ a this] C_In Add show ?thesis by (blast intro: caller_can)
    next
      case Num_running
      then show ?thesis using C_In c_num_running caller_can by blast
    next
      case Num_queued
      then show ?thesis using C_In c_num_queued num_queued_spec [OF h] caller_can by blast
    next
      case Start
      show ?thesis
      proof (cases "running (pool s)")
        case True
        then show ?thesis using C_In Start c_start_running caller_can by blast
      next
        case False
        have "settled (pool s) (workers s)" using ph C_In Start mine [of d] by (auto simp: plain_call_def)
        with start_can [OF th, of te] False obtain p where
          p: "ucb_threadpool_start_impl te (num_threads (pool s)) (pool s) = Ret (num_threads (pool s), p)"
            "num_threads (pool s) = num_threads p" by metis
        from c_start [OF _ False p] C_In Start show ?thesis by (blast intro: caller_can)
      qed
    next
      case Wait_all
      show ?thesis
      proof (cases "\<not> running (pool s) \<and> q \<noteq> []")
        case True
        have "settled (pool s) (workers s)" using ph C_In Wait_all mine [of d] by (auto simp: plain_call_def)
        with start_can [OF th, of te] True obtain p where
          p: "ucb_threadpool_start_impl te (num_threads (pool s)) (pool s) = Ret (num_threads (pool s), p)"
            "num_threads (pool s) = num_threads p" by metis
        have "wait_all_starts (pool s) = Ret (pool s, True)" using wait_all_starts_spec [OF h] True by simp
        from c_wait_starts [OF _ this p] C_In Wait_all show ?thesis by (blast intro: caller_can)
      next
        case False
        then have "wait_all_starts (pool s) = Ret (pool s, False)" using wait_all_starts_spec [OF h] by auto
        from c_wait_enters [OF _ this] C_In Wait_all show ?thesis by (blast intro: caller_can)
      qed
    next
      case Join
      show ?thesis
      proof (cases "running (pool s)")
        case True
        then show ?thesis using C_In Join c_join_stops caller_can by blast
      next
        case False
        then show ?thesis using C_In Join c_join_idle clear_tasks_spec [OF h] caller_can by metis
      qed
    qed
  next
    case (C_Test b)
    show ?thesis
    proof (cases b)
      case For_all
      show ?thesis
      proof (cases "num_running (pool s) > 0 \<or> q \<noteq> []")
        case True
        then have "wait_all_test (pool s) = Ret (pool s, True)" using wait_all_test_spec [OF h] by simp
        from c_wait_sleeps [OF _ this] C_Test For_all show ?thesis by (blast intro: caller_can)
      next
        case False
        then have "wait_all_test (pool s) = Ret (pool s, False)" using wait_all_test_spec [OF h] by simp
        from c_wait_returns [OF _ this] C_Test For_all show ?thesis by (blast intro: caller_can)
      qed
    next
      case For_join
      show ?thesis
      proof (cases "num_running (pool s) > 0")
        case True
        from c_join_sleeps [OF _ this] C_Test For_join show ?thesis by (blast intro: caller_can)
      next
        case False
        then have "num_running (pool s) = 0" by simp
        from c_join_threads [OF _ this] C_Test For_join show ?thesis by (blast intro: caller_can)
      qed
    qed
  next
    case C_Reap_end
    then show ?thesis using c_reap_end caller_can by blast
  next
    case C_Join_end
    have "pool_holds me ((pool s)\<lparr>running := False, stop := False\<rparr>) q" using h by simp
    from clear_tasks_spec [OF this] obtain p where "join_end (pool s) = Ret p" unfolding join_end_def by blast
    from c_join_end [OF C_Join_end this] show ?thesis by (rule caller_can)
  qed (use d in simp_all)
qed

lemma joining_steps:
  assumes th: "thread_inv s" and ti: "task_inv me s q" and cl: "closing (pool s) (workers s) i hi"
    and i: "i < hi" "i < num_threads (pool s)" and h: "holder s = None"
  shows "can_step me te exec s \<or> workers s i = W_Exit \<and> (\<exists>p. join_thread (pool s) i = Ret p)"
proof -
  have "workers s i \<noteq> W_Off" "workers s i \<noteq> W_Sleep" using cl i by (auto simp: closing_def)
  moreover have "\<exists>p. join_thread (pool s) i = Ret p"
    using th i(2) by (simp add: join_thread_def ucb_thread_join_def threads_ok_def)
  ultimately show ?thesis using worker_steps [OF th ti i(2), of te exec] h by blast
qed

lemma no_deadlock:
  assumes inv: "ctl_inv c s" and lk: "lock_inv s" and th: "thread_inv s" and ti: "task_inv me s q"
    and few: "length (added s) < 2 ^ 31 - 1" and d: "callers s d \<noteq> C_Idle"
  shows "can_step me te exec s"
proof (cases "holder s")
  case (Some t)
  show ?thesis
  proof (cases t)
    case (Worker i)
    then have "in_section (workers s i)" using lk Some unfolding lock_ok_def by metis
    moreover from this have "i < num_threads (pool s)" using th worker_index by (metis in_section_simps(3))
    ultimately show ?thesis using worker_steps [OF th ti, of i] by (metis in_section_simps(3,5,10))
  next
    case (Caller e)
    then have "caller_in_section (callers s e)" using lk Some unfolding lock_ok_def by metis
    then show ?thesis by (rule caller_section_steps [OF inv th ti few])
  qed
next
  case None
  have ph: "phase (callers s c) (pool s) (workers s)" and oth: "\<And>d. d \<noteq> c \<Longrightarrow> other_ok (callers s d)"
    using inv by (simp_all add: ctl_inv_def)
  have mine: "d = c" if "\<not> other_ok (callers s d)" for d using oth that by blast
  have nsec: "\<not> caller_in_section (callers s d)" using lk None by (simp add: lock_ok_def)
  have busy: "can_step me te exec s" if "i < num_threads (pool s)" "workers s i \<notin> {W_Off, W_Exit, W_Sleep}" for i
    using worker_steps [OF th ti that(1)] that(2) None by blast
  show ?thesis
  proof (cases "callers s d")
    case (C_Lock k)
    then show ?thesis using None c_lock caller_can by blast
  next
    case (C_Woken b)
    then show ?thesis using None c_woken caller_can by blast
  next
    case C_Reap_lock
    then show ?thesis using None c_reap_lock caller_can by blast
  next
    case C_Join_lock
    then show ?thesis using None c_join_lock caller_can by blast
  next
    case (C_Sleep b)
    then have dc: "d = c" using mine [of d] by simp
    have "\<exists>i < num_threads (pool s). workers s i \<notin> {W_Off, W_Exit, W_Sleep}"
    proof (cases "num_running (pool s) > 0")
      case True
      then have "busy_workers (num_threads (pool s)) (workers s) \<noteq> 0" using ti by (simp add: task_inv_def)
      then obtain i where "i < num_threads (pool s)" "carries (workers s i)"
        by (auto simp: busy_workers_def split: if_splits)
      then show ?thesis by (intro exI [of _ i]) auto
    next
      case False
      then have "b = For_all" "settled (pool s) (workers s)" "running (pool s)" "\<not> no_tasks (pool s)"
        using ph C_Sleep dc by (cases b; simp)+
      then show ?thesis by (auto simp: settled_def looping_def alive_def)
    qed
    then show ?thesis using busy by blast
  next
    case (C_Joining i)
    then have dc: "d = c" using mine [of d] by simp
    show ?thesis
    proof (cases "i < num_threads (pool s)")
      case True
      have "closing (pool s) (workers s) i (num_threads (pool s))" using ph C_Joining dc by simp
      from joining_steps [OF th ti this True True None, of te exec] C_Joining True
      show ?thesis using c_joining caller_can by metis
    next
      case False
      then show ?thesis using C_Joining c_joined caller_can by (metis not_less)
    qed
  next
    case (C_Reap m i)
    then have dc: "d = c" using mine [of d] by simp
    show ?thesis
    proof (cases "i < m")
      case True
      have "reap_le (num_threads (pool s)) (callers s d)" using th by (simp add: reaps_ok_def)
      then have i: "i < num_threads (pool s)" using C_Reap True by simp
      have "closing (pool s) (workers s) i m" using ph C_Reap dc by simp
      from joining_steps [OF th ti this True i None, of te exec] C_Reap True
      show ?thesis using c_reaping caller_can by metis
    next
      case False
      then show ?thesis using C_Reap c_reaped caller_can by (metis not_less)
    qed
  qed (use d nsec in simp_all)
qed

text \<open>Runs without new calls and spurious wake-ups, by their length.\<close>

inductive progress_run :: "mem_env \<Rightarrow> thread_env \<Rightarrow> (nat \<Rightarrow> nat \<Rightarrow> int) \<Rightarrow> pool_sys \<Rightarrow> nat \<Rightarrow> pool_sys \<Rightarrow> bool"
  for me te exec s where
  run_none: "progress_run me te exec s 0 s"
| run_more: "progress_run me te exec s k s' \<Longrightarrow> progress l \<Longrightarrow> pool_step me te exec s' l s'' \<Longrightarrow>
    progress_run me te exec s (Suc k) s''"

lemma ctl_invariants:
  assumes "ctl_reach me te exec c s" "grants_upto me (2 ^ 40)" "length (added s) < 2 ^ 31 - 1"
  shows "ctl_inv c s"
  using assms(1,3)
proof (induction rule: ctl_reach.induct)
  case (ctl_begin fresh n p)
  then show ?case using new_pool_spec [OF ctl_begin(1) assms(2)]
    by (simp add: ctl_inv_def pool_start_def settled_def)
next
  case (ctl_step s l s')
  have n: "length (added s) < 2 ^ 31 - 1" using added_grows [OF ctl_step.hyps(2)] ctl_step.prems by linarith
  from reach_invariants [OF ctl_reach_reach [OF ctl_step.hyps(1)] assms(2) n]
  obtain q where "lock_inv s" "thread_inv s" "task_inv me s q" by blast
  then show ?case using ctl_inv_step [OF ctl_step.hyps(2,3) ctl_step.IH [OF n] _ _ _ n] by blast
qed

lemma progress_controlled: "progress l \<Longrightarrow> controlled c l"
  by (cases l) (auto simp: progress_def controlled_def)

lemma step_callers_shrink:
  "pool_step me te exec s l s' \<Longrightarrow> progress l \<Longrightarrow> {d. callers s' d \<noteq> C_Idle} \<subseteq> {d. callers s d \<noteq> C_Idle}"
proof (induction rule: pool_step.induct)
  case (w_finish s i cs)
  from w_finish(2) show ?case by cases (auto simp: woken_caller_def split: caller_pc.splits)
qed (auto simp: progress_def)

lemma run_bounded:
  assumes "progress_run me te exec s k s'" "ctl_reach me te exec c s" "grants_upto me (2 ^ 40)"
    "length (added s') < 2 ^ 31 - 1" "finite D" "{d. callers s d \<noteq> C_Idle} \<subseteq> D"
  shows "ctl_reach me te exec c s' \<and> k + pool_work D s' \<le> pool_work D s \<and> {d. callers s' d \<noteq> C_Idle} \<subseteq> D"
  using assms(1,4)
proof (induction rule: progress_run.induct)
  case run_none
  then show ?case using assms by simp
next
  case (run_more k s1 l s2)
  have n: "length (added s1) < 2 ^ 31 - 1" using added_grows [OF run_more.hyps(3)] run_more.prems by linarith
  from run_more.IH [OF this] have r: "ctl_reach me te exec c s1" "k + pool_work D s1 \<le> pool_work D s"
    "{d. callers s1 d \<noteq> C_Idle} \<subseteq> D" by simp_all
  obtain q where inv: "thread_inv s1" "task_inv me s1 q"
    using reach_invariants [OF ctl_reach_reach [OF r(1)] assms(3) n] by blast
  have "pool_work D s2 < pool_work D s1"
    using work_decreases [OF run_more.hyps(3,2) ctl_invariants [OF r(1) assms(3) n] inv n assms(5) r(3)] .
  moreover have "ctl_reach me te exec c s2"
    using ctl_reach.ctl_step [OF r(1) run_more.hyps(3) progress_controlled [OF run_more.hyps(2)]] .
  moreover have "{d. callers s2 d \<noteq> C_Idle} \<subseteq> D"
    using step_callers_shrink [OF run_more.hyps(3,2)] r(3) by blast
  ultimately show ?case using r(2) by simp
qed

end
