(* ===== verification/Threadpool_Props.thy ===== *)
theory Threadpool_Props
  imports Threadpool_Live
begin

text \<open>
  What the thread pool promises: no task is lost or run twice, the sections exclude each other,
  a worker takes the task of highest priority, \<^verbatim>\<open>wait_all\<close> returns when all tasks are done, and
  with one controlling thread every call returns. With two threads in \<^verbatim>\<open>wait_all\<close> one of them
  can sleep forever, because the end of the last task signals one waiter only.
\<close>

section \<open>Small pools for the witnesses\<close>

definition demo_env :: thread_env where
  "demo_env = \<lparr>te_alignment = 4096, te_stack_min = 16384, te_current_stack = 8388608\<rparr>"

definition demo_task :: "nat \<Rightarrow> int \<Rightarrow> ucb_task" where
  "demo_task a p = \<lparr>t_func = Some 1, t_arg = a, t_callback = None, t_prio = p\<rparr>"

definition demo_exec :: "nat \<Rightarrow> nat \<Rightarrow> int" where
  "demo_exec f a = int (f + a)"

definition fresh_queue :: "ucb_task ucb_pqueue" where
  "fresh_queue = \<lparr>buckets = NoBuckets, num_buckets = 0, alloc_buckets = 0, data_clone = None,
     data_free = False, pq_mutex = NoMutex\<rparr>"

lemma me_ok_grants: "grants_upto me_ok (2 ^ 40)"
  by (simp add: grants_upto_def PTRDIFF_MAX_def)

lemma new_threads_granted:
  "granted me sizeof_thread \<Longrightarrow> \<exists>ths. new_threads me n = Ret (Some ths)"
  by (induction n) (auto simp: ucb_thread_new_def ucb_thread_new_flags_def ucb_calloc_def sizeof_thread_def)

lemma new_pool_exists:
  assumes "0 < n" "n \<le> 1000"
  shows "\<exists>p. ucb_threadpool_new me_ok True True True fresh n = Ret (Some p)"
proof -
  have g: "granted me_ok k" if "k \<le> 2 ^ 40" for k using granted_upto [OF me_ok_grants that] .
  obtain ths where ths: "new_threads me_ok n = Ret (Some ths)"
    using new_threads_granted [of me_ok n] g [of sizeof_thread] by (auto simp: sizeof_thread_def)
  let ?st = "\<lparr>cells = (\<lambda>_. None), next_addr = 0, freed_data = []\<rparr> :: ucb_task node_store"
  obtain q where "ucb_pqueue_init me_ok True fresh pool_args = Ret (True, q)"
    using pq_init_spec [of pool_args me_ok ?st True fresh False] g
    by (auto simp: ucb_pqueue_init_def pool_args_def PQUEUE_INITIAL_NUM_BUCKETS_INITIAL_def sizeof_bucket_def)
  moreover have "ucb_calloc me_ok 1 sizeof_threadpool = Ret True" "ucb_calloc me_ok n 8 = Ret True"
    using g [of sizeof_threadpool] g [of "n * 8"] assms by (simp_all add: ucb_calloc_def sizeof_threadpool_def)
  ultimately show ?thesis using ths assms by (simp add: ucb_threadpool_new_def Let_def)
qed

section \<open>Two waiters\<close>

text \<open>States of a pool with one worker and two callers.\<close>

definition one_worker :: "worker_pc \<Rightarrow> nat \<Rightarrow> worker_pc" where
  "one_worker w = (\<lambda>_. W_Off)(0 := w)"

definition two_callers :: "caller_pc \<Rightarrow> caller_pc \<Rightarrow> nat \<Rightarrow> caller_pc" where
  "two_callers a b = (\<lambda>_. C_Idle)(0 := a, 1 := b)"

lemma one_worker_simps [simp]: "one_worker w 0 = w" "(one_worker w)(0 := v) = one_worker v"
  "i \<noteq> 0 \<Longrightarrow> one_worker w i = W_Off"
  by (auto simp: one_worker_def)

lemma two_callers_simps [simp]: "two_callers a b 0 = a" "two_callers a b (Suc 0) = b"
  "(two_callers a b)(0 := c) = two_callers c b" "(two_callers a b)(Suc 0 := c) = two_callers a c"
  "i \<noteq> 0 \<Longrightarrow> i \<noteq> 1 \<Longrightarrow> two_callers a b i = C_Idle"
  by (auto simp: two_callers_def)

definition small_sys ::
    "ucb_threadpool \<Rightarrow> thr option \<Rightarrow> worker_pc \<Rightarrow> caller_pc \<Rightarrow> caller_pc \<Rightarrow> ucb_task list \<Rightarrow> ucb_task list
     \<Rightarrow> task_event list \<Rightarrow> pool_sys" where
  "small_sys p h w a b ad fi ev = \<lparr>pool = p, holder = h, workers = one_worker w,
     callers = two_callers a b, added = ad, finished = fi, calls = ev\<rparr>"

lemma small_start: "pool_start p = small_sys p None W_Off C_Idle C_Idle [] [] []"
  by (simp add: pool_start_def small_sys_def one_worker_def two_callers_def fun_eq_iff)

lemma small_launch: "launch (Suc 0) (one_worker w) = one_worker W_Lock"
  by (auto simp: launch_def one_worker_def fun_eq_iff)

lemma small_sys_sel [simp]:
  "pool (small_sys p h w a b ad fi ev) = p" "holder (small_sys p h w a b ad fi ev) = h"
  "workers (small_sys p h w a b ad fi ev) = one_worker w" "callers (small_sys p h w a b ad fi ev) = two_callers a b"
  "added (small_sys p h w a b ad fi ev) = ad" "finished (small_sys p h w a b ad fi ev) = fi"
  "calls (small_sys p h w a b ad fi ev) = ev"
  by (simp_all add: small_sys_def)

lemma small_sys_upd [simp]:
  "(small_sys p h w a b ad fi ev)\<lparr>pool := p'\<rparr> = small_sys p' h w a b ad fi ev"
  "(small_sys p h w a b ad fi ev)\<lparr>holder := h'\<rparr> = small_sys p h' w a b ad fi ev"
  "(small_sys p h w a b ad fi ev)\<lparr>workers := one_worker w'\<rparr> = small_sys p h w' a b ad fi ev"
  "(small_sys p h w a b ad fi ev)\<lparr>callers := two_callers a' b'\<rparr> = small_sys p h w a' b' ad fi ev"
  "(small_sys p h w a b ad fi ev)\<lparr>added := ad'\<rparr> = small_sys p h w a b ad' fi ev"
  "(small_sys p h w a b ad fi ev)\<lparr>finished := fi'\<rparr> = small_sys p h w a b ad fi' ev"
  "(small_sys p h w a b ad fi ev)\<lparr>calls := ev'\<rparr> = small_sys p h w a b ad fi ev'"
  by (simp_all add: small_sys_def)

lemma first_caller_runs:
  assumes r: "pool_reach me te exec (small_sys p None w C_Idle b ad fi ev)" and ok: "\<And>t. k = Add t \<Longrightarrow> t_func t \<noteq> None"
  shows "pool_reach me te exec (small_sys p (Some (Caller 0)) w (C_In k) b ad fi ev)"
proof -
  have "pool_reach me te exec (small_sys p None w (C_Lock k) b ad fi ev)"
    using one_step [OF r c_call [of _ 0 k]] ok by simp
  from one_step [OF this c_lock [of _ 0 k]] show ?thesis by simp
qed

lemma second_caller_runs:
  assumes r: "pool_reach me te exec (small_sys p None w a C_Idle ad fi ev)" and ok: "\<And>t. k = Add t \<Longrightarrow> t_func t \<noteq> None"
  shows "pool_reach me te exec (small_sys p (Some (Caller 1)) w a (C_In k) ad fi ev)"
proof -
  have "pool_reach me te exec (small_sys p None w a (C_Lock k) ad fi ev)"
    using one_step [OF r c_call [of _ 1 k]] ok by simp
  from one_step [OF this c_lock [of _ 1 k]] show ?thesis by simp
qed

lemma one_task_started:
  assumes new: "ucb_threadpool_new me True True True fresh 1 = Ret (Some p0)" and g: "grants_upto me (2 ^ 40)"
    and f: "t_func t \<noteq> None"
  shows "\<exists>p. pool_reach me te exec (small_sys p (Some (Worker 0)) W_Test C_Idle C_Idle [t] [] [])
    \<and> pool_holds me p [(t_prio t, t)] \<and> \<not> stop p \<and> running p \<and> num_running p = 0 \<and> num_threads p = 1"
proof -
  note n = new_pool_spec [OF new g]
  have qt: "queued_task p0 t = t" using n(11) by (simp add: queued_task_def)
  obtain p1 where p1: "ucb_threadpool_add_task me p0 t = Ret (Some t, False, p1)"
      "pool_holds me p1 [(t_prio t, t)]" "pool_rest p1 = pool_rest p0"
    using add_task_spec [OF n(1) _ f] n(9) qt by (auto simp: model_push_def)
  have th1: "threads p1 = threads p0" "num_threads p1 = 1" "num_running p1 = 0" "\<not> running p1"
    using p1(3) n by (simp_all add: pool_rest_eq)
  obtain ths where "start_threads te 1 (threads p1) = Ret (1, ths)"
    using start_threads_total [of "threads p1" 1 te] n(4,7) th1(1) by auto
  then obtain p2 where p2: "ucb_threadpool_start_impl te 1 p1 = Ret (1, p2)"
    using th1 by (auto simp: ucb_threadpool_start_impl_def Let_def)
  note sp = start_impl_spec [OF p2 th1(4)]
  have h2: "pool_holds me p2 [(t_prio t, t)]" using p1(2) pool_holds_cong(1) [OF sp(6,7)] by simp
  have st2: "\<not> stop p2" "running p2" "num_running p2 = 0" "num_threads p2 = 1" using sp th1 by simp_all
  let ?S = "small_sys" and ?R = "pool_reach me te exec"
  have "?R (?S p0 None W_Off C_Idle C_Idle [] [] [])"
    using begin_new [OF new] by (simp flip: small_start)
  then have "?R (?S p0 (Some (Caller 0)) W_Off (C_In (Add t)) C_Idle [] [] [])"
    by (rule first_caller_runs) (use f in auto)
  from one_step [OF this c_add [of _ 0 t me "Some t" False p1 "one_worker W_Off"]] p1(1)
  have "?R (?S p1 None W_Off C_Idle C_Idle [t] [] [])" by simp
  then have "?R (?S p1 (Some (Caller 0)) W_Off (C_In Start) C_Idle [t] [] [])" by (rule first_caller_runs) simp
  from one_step [OF this c_start [of _ 0 te 1 1 p2]] th1(4) p2 st2(4)
  have "?R (?S p2 None W_Lock C_Idle C_Idle [t] [] [])" by (simp add: small_launch)
  from one_step [OF this w_lock [of _ 0]]
  have "?R (?S p2 (Some (Worker 0)) W_Test C_Idle C_Idle [t] [] [])" by simp
  then show ?thesis using h2 st2 by blast
qed

lemma two_waiters_run:
  assumes new: "ucb_threadpool_new me True True True fresh 1 = Ret (Some p0)" and g: "grants_upto me (2 ^ 40)"
    and f: "t_func t \<noteq> None"
  shows "\<exists>p evs. pool_reach me te exec (small_sys p None W_Sleep C_Idle (C_Sleep For_all) [t] [t] evs)
    \<and> pool_holds me p [] \<and> num_running p = 0"
proof -
  obtain p2 where r2: "pool_reach me te exec (small_sys p2 (Some (Worker 0)) W_Test C_Idle C_Idle [t] [] [])"
    and h2: "pool_holds me p2 [(t_prio t, t)]" and st2: "\<not> stop p2" "running p2" "num_running p2 = 0" "num_threads p2 = 1"
    using one_task_started [OF assms] by blast
  obtain p3 where p3: "worker_test p2 = Ret (Take (Some t), p3)" "pool_holds me p3 []"
      "num_running p3 = 1" "running p3" "\<not> stop p3"
    using worker_test_take [OF h2 st2(1)] st2 by (auto simp: usize_def)
  obtain evs where evs: "worker_run exec (Some t) = Ret evs"
    using f by (cases "t_callback t") (auto simp: worker_run_def ucb_task_run_def Let_def)
  let ?p4 = "worker_done p3"
  have h4: "pool_holds me ?p4 []" "num_running ?p4 = 0" "\<not> stop ?p4"
    using p3 by (simp_all add: worker_done_def SIZE_MAX_def)
  let ?S = "small_sys" and ?R = "pool_reach me te exec"
  from one_step [OF r2 w_take [of _ 0 "Some t" p3]] p3(1)
  have "?R (?S p3 None (W_Run (Some t)) C_Idle C_Idle [t] [] [])" by simp
  then have "?R (?S p3 (Some (Caller 0)) (W_Run (Some t)) (C_In Wait_all) C_Idle [t] [] [])"
    by (rule first_caller_runs) simp
  from one_step [OF this c_wait_enters [of _ 0 p3]] wait_all_starts_spec [OF p3(2)] p3(4)
  have "?R (?S p3 (Some (Caller 0)) (W_Run (Some t)) (C_Test For_all) C_Idle [t] [] [])" by simp
  from one_step [OF this c_wait_sleeps [of _ 0 p3]] wait_all_test_spec [OF p3(2)] p3(3)
  have "?R (?S p3 None (W_Run (Some t)) (C_Sleep For_all) C_Idle [t] [] [])" by simp
  then have "?R (?S p3 (Some (Caller 1)) (W_Run (Some t)) (C_Sleep For_all) (C_In Wait_all) [t] [] [])"
    by (rule second_caller_runs) simp
  from one_step [OF this c_wait_enters [of _ 1 p3]] wait_all_starts_spec [OF p3(2)] p3(4)
  have "?R (?S p3 (Some (Caller 1)) (W_Run (Some t)) (C_Sleep For_all) (C_Test For_all) [t] [] [])" by simp
  from one_step [OF this c_wait_sleeps [of _ 1 p3]] wait_all_test_spec [OF p3(2)] p3(3)
  have "?R (?S p3 None (W_Run (Some t)) (C_Sleep For_all) (C_Sleep For_all) [t] [] [])" by simp
  from one_step [OF this w_run [of _ 0 "Some t" exec evs]] evs
  have "?R (?S p3 None W_Relock (C_Sleep For_all) (C_Sleep For_all) [t] [t] evs)" by simp
  from one_step [OF this w_relock [of _ 0]]
  have r: "?R (?S p3 (Some (Worker 0)) W_Finish (C_Sleep For_all) (C_Sleep For_all) [t] [t] evs)" by simp
  have "ucb_cond_signal woken_caller (two_callers (C_Sleep For_all) (C_Sleep For_all))
      (two_callers (C_Woken For_all) (C_Sleep For_all))"
    using wake_one [of woken_caller "two_callers (C_Sleep For_all) (C_Sleep For_all)" 0 "C_Woken For_all"]
    by (simp add: woken_caller_def)
  with one_step [OF r w_finish [of _ 0 "two_callers (C_Woken For_all) (C_Sleep For_all)"]]
  have "?R (?S ?p4 None W_Lock (C_Woken For_all) (C_Sleep For_all) [t] [t] evs)" by simp
  from one_step [OF this c_woken [of _ 0 For_all]]
  have "?R (?S ?p4 (Some (Caller 0)) W_Lock (C_Test For_all) (C_Sleep For_all) [t] [t] evs)" by simp
  from one_step [OF this c_wait_returns [of _ 0 ?p4]] wait_all_test_spec [OF h4(1)] h4(2)
  have "?R (?S ?p4 None W_Lock C_Idle (C_Sleep For_all) [t] [t] evs)" by simp
  from one_step [OF this w_lock [of _ 0]]
  have "?R (?S ?p4 (Some (Worker 0)) W_Test C_Idle (C_Sleep For_all) [t] [t] evs)" by simp
  from one_step [OF this w_sleep [of _ 0 ?p4]] worker_test_sleep [OF h4(1,3)]
  have "?R (?S ?p4 None W_Sleep C_Idle (C_Sleep For_all) [t] [t] evs)" by simp
  then show ?thesis using h4 by blast
qed

text \<open>A step that is no new call needs a thread that is neither idle, asleep nor gone.\<close>

definition awake :: "worker_pc \<Rightarrow> bool" where
  "awake w \<longleftrightarrow> w \<noteq> W_Off \<and> w \<noteq> W_Sleep \<and> w \<noteq> W_Exit"

definition caller_awake :: "caller_pc \<Rightarrow> bool" where
  "caller_awake c \<longleftrightarrow> c \<noteq> C_Idle \<and> (\<forall>b. c \<noteq> C_Sleep b)"

lemma progress_needs_thread:
  assumes "pool_step me te exec s l s'" "progress l"
  shows "(\<exists>i. awake (workers s i)) \<or> (\<exists>d. caller_awake (callers s d))"
proof (rule ccontr)
  assume "\<not> ((\<exists>i. awake (workers s i)) \<or> (\<exists>d. caller_awake (callers s d)))"
  then have n: "workers s i = w \<Longrightarrow> \<not> awake w" "callers s d = c \<Longrightarrow> \<not> caller_awake c" for i w d c
    by auto
  from assms(1) show False
    by cases (use assms(2) in \<open>auto dest!: n simp: progress_def awake_def caller_awake_def\<close>)
qed

lemma all_asleep_no_step:
  assumes "pool_step me te exec (small_sys p None W_Sleep C_Idle (C_Sleep For_all) ad fi ev) l s'"
  shows "\<not> progress l"
proof
  assume "progress l"
  moreover have "\<not> awake (one_worker W_Sleep i)" for i by (cases "i = 0") (simp_all add: awake_def)
  moreover have "\<not> caller_awake (two_callers C_Idle (C_Sleep For_all) d)" for d
    by (cases "d = 0"; cases "d = 1") (simp_all add: caller_awake_def)
  ultimately show False using progress_needs_thread [OF assms] by simp
qed

section \<open>Properties\<close>

text \<open>
  C26: in every state that workers and callers can reach together, every task that
  \<^verbatim>\<open>ucb_threadpool_add_task\<close> accepted is in exactly one place: in the queue, discarded by a join, held
  by a worker that runs it, or finished; and \<^verbatim>\<open>num_running\<close> is the number of workers that have
  taken a task and not yet reported its end.
\<close>

theorem pool_tasks_accounted:
  assumes "pool_reach me te exec s" "grants_upto me (2 ^ 40)" "length (added s) < 2 ^ 31 - 1"
  shows "\<exists>q. pool_holds me (pool s) q
    \<and> mset (added s) = mset (map snd q) + mset (discarded (pool s))
        + (\<Sum>i<num_threads (pool s). held (workers s i)) + mset (finished s)
    \<and> num_running (pool s) = card {i. i < num_threads (pool s) \<and> carries (workers s i)}"
proof -
  obtain q where "task_inv me s q" using reach_invariants [OF assms] by blast
  moreover have "busy_workers n ws = card {i. i < n \<and> carries (ws i)}" for n ws
    by (simp add: busy_workers_def sum.If_cases Int_def)
  ultimately show ?thesis by (auto simp: task_inv_def held_tasks_def)
qed

theorem pool_tasks_accounted_witness:
  "\<exists>(s :: pool_sys) q. finished s = [demo_task 7 2] \<and> pool_holds me_ok (pool s) q
    \<and> mset (added s) = mset (map snd q) + mset (discarded (pool s))
        + (\<Sum>i<num_threads (pool s). held (workers s i)) + mset (finished s)"
proof -
  obtain p0 where p0: "ucb_threadpool_new me_ok True True True fresh_queue 1 = Ret (Some p0)"
    using new_pool_exists [of 1] by auto
  obtain p evs where r: "pool_reach me_ok demo_env demo_exec
      (small_sys p None W_Sleep C_Idle (C_Sleep For_all) [demo_task 7 2] [demo_task 7 2] evs)"
    using two_waiters_run [OF p0 me_ok_grants, of "demo_task 7 2" demo_env demo_exec] by (auto simp: demo_task_def)
  define s where "s = small_sys p None W_Sleep C_Idle (C_Sleep For_all) [demo_task 7 2] [demo_task 7 2] evs"
  have l: "length (added s) < 2 ^ 31 - 1" "finished s = [demo_task 7 2]" by (simp_all add: s_def)
  from pool_tasks_accounted [OF r [folded s_def] me_ok_grants l(1)] l(2) show ?thesis by blast
qed

text \<open>
  C27: while one thread controls the pool (starts it, waits, joins) and any number of threads add
  tasks or ask for the counts, every call returns. From any state of such a pool, the number
  of steps that can be taken without a new call or a spurious wake-up is at most the measure
  \<open>pool_work\<close>, whatever the order of the threads; and when no such step is left, no call is in
  progress.
\<close>

theorem pool_calls_return:
  assumes "ctl_reach me te exec c s" "grants_upto me (2 ^ 40)"
    "progress_run me te exec s k s'" "length (added s') < 2 ^ 31 - 1"
  shows "k \<le> pool_work {d. callers s d \<noteq> C_Idle} s
    \<and> ((\<forall>l s''. pool_step me te exec s' l s'' \<longrightarrow> \<not> progress l) \<longrightarrow> (\<forall>d. callers s' d = C_Idle))"
proof (intro conjI impI)
  have grow: "length (added s) \<le> length (added s')"
    using assms(3) by induction (use added_grows le_trans in blast)+
  then have "ctl_inv c s" using ctl_invariants [OF assms(1,2)] assms(4) by simp
  then have fin: "finite {d. callers s d \<noteq> C_Idle}" by (simp add: ctl_inv_def)
  note b = run_bounded [OF assms(3,1,2,4) fin order_refl]
  then show "k \<le> pool_work {d. callers s d \<noteq> C_Idle} s" by simp
  obtain q where i: "lock_inv s'" "thread_inv s'" "task_inv me s' q"
    using reach_invariants [OF ctl_reach_reach assms(2,4)] b by blast
  assume "\<forall>l s''. pool_step me te exec s' l s'' \<longrightarrow> \<not> progress l"
  then show "\<forall>d. callers s' d = C_Idle"
    using no_deadlock [OF ctl_invariants [OF _ assms(2,4)] i assms(4)] b unfolding can_step_def by blast
qed

theorem pool_calls_return_witness:
  "\<exists>s s' k. callers s 0 = C_Lock Start \<and> callers s' 0 = C_In Start \<and> k = Suc 0
    \<and> progress_run me_ok demo_env demo_exec s k s' \<and> k \<le> pool_work {d. callers s d \<noteq> C_Idle} s"
proof -
  obtain p where p: "ucb_threadpool_new me_ok True True True fresh_queue 1 = Ret (Some p)"
    using new_pool_exists [of 1] by auto
  define s where "s = small_sys p None W_Off (C_Lock Start) C_Idle [] [] []"
  define s' where "s' = small_sys p (Some (Caller 0)) W_Off (C_In Start) C_Idle [] [] []"
  have r0: "ctl_reach me_ok demo_env demo_exec 0 (small_sys p None W_Off C_Idle C_Idle [] [] [])"
    using ctl_begin [OF p] by (simp flip: small_start)
  have "pool_step me_ok demo_env demo_exec (small_sys p None W_Off C_Idle C_Idle [] [] []) (New_call 0 Start) s"
    using c_call [of "small_sys p None W_Off C_Idle C_Idle [] [] []" 0 Start] by (simp add: s_def)
  from ctl_step [OF r0 this] have r: "ctl_reach me_ok demo_env demo_exec 0 s" by (simp add: controlled_def)
  have "pool_step me_ok demo_env demo_exec s (Caller_step 0) s'"
    using c_lock [of s 0 Start] by (simp add: s_def s'_def)
  from run_more [OF run_none _ this] have run: "progress_run me_ok demo_env demo_exec s (Suc 0) s'"
    by (simp add: progress_def)
  have c: "callers s 0 = C_Lock Start" "callers s' 0 = C_In Start" "length (added s') < 2 ^ 31 - 1"
    by (simp_all add: s_def s'_def)
  from pool_calls_return [OF r me_ok_grants run c(3)] c run show ?thesis by blast
qed

text \<open>
  C28: when a call of \<^verbatim>\<open>ucb_threadpool_wait_all\<close> that found the pool running, or nothing to do,
  returns, then at that moment nothing is queued and no worker has a task: every task accepted so
  far has been run to its end or was discarded by a join.
\<close>

theorem wait_all_returns_when_done:
  assumes "pool_reach me te exec s" "grants_upto me (2 ^ 40)" "length (added s) < 2 ^ 31 - 1"
    "callers s c = C_Test For_all" "pool_step me te exec s (Caller_step c) s'" "callers s' c = C_Idle"
  shows "ucb_threadpool_num_queued (pool s') = Ret (pool s', 0) \<and> num_running (pool s') = 0
    \<and> mset (added s') = mset (finished s') + mset (discarded (pool s'))"
proof -
  obtain q where ti: "task_inv me s q" using reach_invariants [OF assms(1-3)] by blast
  then have h: "pool_holds me (pool s) q" by (simp add: task_inv_def)
  from assms(5) obtain p where "wait_all_test (pool s) = Ret (p, False)"
    "s' = s\<lparr>pool := p, callers := (callers s)(c := C_Idle), holder := None\<rparr>"
    by cases (use assms(4,6) in auto)
  then have s': "pool s' = pool s" "added s' = added s" "finished s' = finished s"
    "num_running (pool s) = 0" "q = []" using wait_all_test_spec [OF h] by auto
  let ?n = "num_threads (pool s)"
  have "busy_workers ?n (workers s) = 0" using ti s'(4) by (simp add: task_inv_def)
  then have "\<forall>i<?n. \<not> carries (workers s i)" by (simp add: busy_workers_def split: if_splits)
  then have "held_tasks ?n (workers s) = {#}"
    unfolding held_tasks_def using not_carries_held by (simp add: sum.neutral)
  then show ?thesis using ti s' num_queued_spec [OF h] by (simp add: task_inv_def)
qed

theorem wait_all_returns_when_done_witness:
  "\<exists>(s' :: pool_sys) p. ucb_threadpool_num_queued (pool s') = Ret (p, 0) \<and> num_running (pool s') = 0
    \<and> mset (added s') = mset (finished s') + mset (discarded (pool s')) \<and> callers s' 0 = C_Idle"
proof -
  obtain p where p: "ucb_threadpool_new me_ok True True True fresh_queue 1 = Ret (Some p)"
    using new_pool_exists [of 1] by auto
  note n = new_pool_spec [OF p me_ok_grants]
  have "pool_reach me_ok demo_env demo_exec (small_sys p None W_Off C_Idle C_Idle [] [] [])"
    using begin_new [OF p] by (simp flip: small_start)
  then have "pool_reach me_ok demo_env demo_exec (small_sys p (Some (Caller 0)) W_Off (C_In Wait_all) C_Idle [] [] [])"
    by (rule first_caller_runs) simp
  from one_step [OF this c_wait_enters [of _ 0 p]] wait_all_starts_spec [OF n(1)]
  have r: "pool_reach me_ok demo_env demo_exec (small_sys p (Some (Caller 0)) W_Off (C_Test For_all) C_Idle [] [] [])"
    by simp
  define s where "s = small_sys p (Some (Caller 0)) W_Off (C_Test For_all) C_Idle [] [] []"
  define s' where "s' = small_sys p None W_Off C_Idle C_Idle [] [] []"
  have st: "pool_step me_ok demo_env demo_exec s (Caller_step 0) s'"
    using c_wait_returns [of s 0 p] wait_all_test_spec [OF n(1)] n(8) by (simp add: s_def s'_def)
  have c: "length (added s) < 2 ^ 31 - 1" "callers s 0 = C_Test For_all" "callers s' 0 = C_Idle"
    by (simp_all add: s_def s'_def)
  from wait_all_returns_when_done [OF r [folded s_def] me_ok_grants c(1,2) st c(3)] c(3)
  show ?thesis by blast
qed

text \<open>
  C29: the task a worker takes is the first of the queue: none that is queued at that moment has
  a higher priority, and the others stay queued in their order.
\<close>

theorem worker_takes_highest:
  assumes "pool_reach me te exec s" "grants_upto me (2 ^ 40)" "length (added s) < 2 ^ 31 - 1"
    "pool_step me te exec s (Worker_step i) s'" "workers s i = W_Test" "workers s' i = W_Run (Some t)"
  shows "\<exists>q. pool_holds me (pool s) ((t_prio t, t) # q) \<and> (\<forall>x \<in> set q. t_prio (snd x) \<le> t_prio t)
    \<and> pool_holds me (pool s') q"
proof -
  obtain q where i: "thread_inv s" "task_inv me s q" using reach_invariants [OF assms(1-3)] by blast
  have n: "i < num_threads (pool s)" using worker_index i(1) assms(5) by (metis alive_simps(1,4))
  from assms(4) obtain p where p: "worker_test (pool s) = Ret (Take (Some t), p)"
    "s' = s\<lparr>pool := p, workers := (workers s)(i := W_Run (Some t)), holder := None\<rparr>"
    by cases (use assms(5,6) in auto)
  obtain x q' where q: "q = x # q'" "Some t = Some (snd x)" "task_inv me s' q'"
    using task_inv_take [OF i(2) n assms(5) p(1)] p(2) by metis
  have h: "pool_holds me (pool s) q" "queue_ok q" using i(2) by (simp_all add: task_inv_def)
  then have "pq_holds (nodes (pool s), tasks (pool s)) q" by (simp add: pool_holds_def)
  note le = model_sorted [OF this]
  moreover have "x = (t_prio t, t)" using h(2) q by (cases x) (simp add: queue_ok_def)
  moreover have "\<forall>y \<in> set q'. fst y = t_prio (snd y)" using h(2) q(1) by (simp add: queue_ok_def)
  ultimately show ?thesis using le h(1) q(1,3) by (fastforce simp: task_inv_def)
qed

theorem worker_takes_highest_witness:
  "\<exists>(s :: pool_sys) (s' :: pool_sys) q. pool_reach me_ok demo_env demo_exec s
    \<and> workers s' 0 = W_Run (Some (demo_task 7 2)) \<and> pool_holds me_ok (pool s) ((2, demo_task 7 2) # q)
    \<and> pool_holds me_ok (pool s') q"
proof -
  obtain p0 where p0: "ucb_threadpool_new me_ok True True True fresh_queue 1 = Ret (Some p0)"
    using new_pool_exists [of 1] by auto
  let ?t = "demo_task 7 2"
  have t: "t_func ?t \<noteq> None" "t_prio ?t = 2" by (simp_all add: demo_task_def)
  obtain p where r: "pool_reach me_ok demo_env demo_exec (small_sys p (Some (Worker 0)) W_Test C_Idle C_Idle [?t] [] [])"
    and h: "pool_holds me_ok p [(t_prio ?t, ?t)]" "\<not> stop p"
    using one_task_started [OF p0 me_ok_grants t(1)] by blast
  obtain p' where p': "worker_test p = Ret (Take (Some ?t), p')" using worker_test_take [OF h] by auto
  define s where "s = small_sys p (Some (Worker 0)) W_Test C_Idle C_Idle [?t] [] []"
  define s' where "s' = small_sys p' None (W_Run (Some ?t)) C_Idle C_Idle [?t] [] []"
  have st: "pool_step me_ok demo_env demo_exec s (Worker_step 0) s'"
    using w_take [of s 0 "Some ?t" p'] p' by (simp add: s_def s'_def)
  have c: "length (added s) < 2 ^ 31 - 1" "workers s 0 = W_Test" "workers s' 0 = W_Run (Some ?t)"
    by (simp_all add: s_def s'_def)
  from worker_takes_highest [OF r [folded s_def] me_ok_grants c(1) st c(2,3)] r [folded s_def] c(3) t(2)
  show ?thesis by auto
qed

text \<open>
  C30: two threads that wait for the same pool: after the only task has finished, one of them has
  returned, the other still sleeps, and no thread can take a step any more. \<^verbatim>\<open>ucb_cond_signal\<close> at the
  end of a task wakes one waiter, and nothing wakes the other although the pool is idle.
\<close>

theorem second_waiter_sleeps_forever:
  assumes "ucb_threadpool_new me True True True fresh 1 = Ret (Some p0)" "grants_upto me (2 ^ 40)"
    "t_func t \<noteq> None"
  shows "\<exists>s. pool_reach me te exec s \<and> callers s 1 = C_Sleep For_all \<and> callers s 0 = C_Idle
    \<and> added s = [t] \<and> finished s = [t] \<and> num_running (pool s) = 0
    \<and> (\<forall>l s'. pool_step me te exec s l s' \<longrightarrow> \<not> progress l)"
proof -
  obtain p evs where r: "pool_reach me te exec (small_sys p None W_Sleep C_Idle (C_Sleep For_all) [t] [t] evs)"
    "num_running p = 0" using two_waiters_run [OF assms] by blast
  show ?thesis
    by (rule exI [of _ "small_sys p None W_Sleep C_Idle (C_Sleep For_all) [t] [t] evs"])
      (use r all_asleep_no_step in auto)
qed

theorem second_waiter_sleeps_forever_witness:
  "\<exists>s. pool_reach me_ok demo_env demo_exec s \<and> callers s 1 = C_Sleep For_all \<and> finished s = [demo_task 7 2]"
proof -
  obtain p where p: "ucb_threadpool_new me_ok True True True fresh_queue 1 = Ret (Some p)"
    using new_pool_exists [of 1] by auto
  have "t_func (demo_task 7 2) \<noteq> None" by (simp add: demo_task_def)
  from second_waiter_sleeps_forever [OF p me_ok_grants this, of demo_env demo_exec] show ?thesis by blast
qed

end
