(* ===== verification/Argparse_Num.thy ===== *)
theory Argparse_Num
  imports Ucb_Str
begin

text \<open>
  The converters of \<^verbatim>\<open>src/ucb/argparse.c\<close>: from the text of an argument to a number or a truth
  value. \<open>c_strtoll\<close> and \<open>c_strtoull\<close> are the functions of the C library for base 10 in the C
  locale; those for floating point are parameters. A C string argument is its text, without the
  terminator.
\<close>

section \<open>Characters\<close>

definition lit :: "string \<Rightarrow> byte list" where
  "lit s = map of_char s"

definition is_space_char :: "byte \<Rightarrow> bool" where
  "is_space_char c = (c = 32 \<or> c = 9 \<or> c = 10 \<or> c = 13 \<or> c = 12 \<or> c = 11)"

definition is_digit_char :: "byte \<Rightarrow> bool" where
  "is_digit_char c = (48 \<le> c \<and> c \<le> 57)"

definition lower_char :: "byte \<Rightarrow> byte" where
  "lower_char c = (if 65 \<le> c \<and> c \<le> 90 then c - 65 + 97 else c)"

definition upper_char :: "byte \<Rightarrow> byte" where
  "upper_char c = (if 97 \<le> c \<and> c \<le> 122 then c - 97 + 65 else c)"

fun ieq :: "byte list \<Rightarrow> byte list \<Rightarrow> bool" where
  "ieq (a # as) (b # bs) = (if lower_char a \<noteq> lower_char b then False else ieq as bs)"
| "ieq as bs = (as = [] \<and> bs = [])"

lemma ieq_iff: "ieq as bs \<longleftrightarrow> map lower_char as = map lower_char bs"
  by (induction as bs rule: ieq.induct) auto

section \<open>Integers\<close>

definition dec_value :: "byte list \<Rightarrow> nat" where
  "dec_value ds = foldl (\<lambda>n d. 10 * n + (unat d - 48)) 0 ds"

text \<open>The subject sequence: sign, value of the digits, and where it ends; none without a digit.\<close>

definition MINUS :: byte where "MINUS = 45"
definition PLUS :: byte where "PLUS = 43"

definition c_subject :: "byte list \<Rightarrow> (bool \<times> nat \<times> nat) option" where
  "c_subject s =
     (let ws = length (takeWhile is_space_char s);
          r = drop ws s;
          sign = (r \<noteq> [] \<and> (hd r = MINUS \<or> hd r = PLUS));
          r' = (if sign then tl r else r);
          ds = takeWhile is_digit_char r' in
      if ds = [] then None
      else Some (sign \<and> hd r = MINUS, dec_value ds, ws + (if sign then 1 else 0) + length ds))"

text \<open>The value, the end and whether \<^verbatim>\<open>errno\<close> is \<^verbatim>\<open>ERANGE\<close>; the end is 0 when nothing was read.\<close>

definition LLONG_MIN :: int where "LLONG_MIN = - (2 ^ 63)"
definition LLONG_MAX :: int where "LLONG_MAX = 2 ^ 63 - 1"
definition ULLONG_MAX :: int where "ULLONG_MAX = 2 ^ 64 - 1"
definition INT_MIN :: int where "INT_MIN = - (2 ^ 31)"
definition INT_MAX :: int where "INT_MAX = 2 ^ 31 - 1"
definition UINT_MAX :: int where "UINT_MAX = 2 ^ 32 - 1"

definition c_strtoll :: "byte list \<Rightarrow> int \<times> nat \<times> bool" where
  "c_strtoll s =
     (case c_subject s of
        None \<Rightarrow> (0, 0, False)
      | Some (neg, n, e) \<Rightarrow>
          let v = (if neg then - int n else int n) in
          if v < LLONG_MIN then (LLONG_MIN, e, True)
          else if v > LLONG_MAX then (LLONG_MAX, e, True)
          else (v, e, False))"

definition c_strtoull :: "byte list \<Rightarrow> int \<times> nat \<times> bool" where
  "c_strtoull s =
     (case c_subject s of
        None \<Rightarrow> (0, 0, False)
      | Some (neg, n, e) \<Rightarrow>
          if int n > ULLONG_MAX then (ULLONG_MAX, e, True)
          else ((if neg then (- int n) mod 2 ^ 64 else int n), e, False))"

definition parse_ll :: "byte list \<Rightarrow> int option" where
  "parse_ll s =
     (if s = [] \<or> is_space_char (s ! 0) then None
      else case c_strtoll s of (v, e, erange) \<Rightarrow>
        if e = 0 \<or> e \<noteq> length s \<or> erange then None else Some v)"

definition parse_ull :: "byte list \<Rightarrow> int option" where
  "parse_ull s =
     (if s = [] \<or> is_space_char (s ! 0) \<or> s ! 0 = MINUS then None
      else case c_strtoull s of (v, e, erange) \<Rightarrow>
        if e = 0 \<or> e \<noteq> length s \<or> erange then None else Some v)"

section \<open>Floating point\<close>

text \<open>
  \<^verbatim>\<open>strtof\<close> and \<^verbatim>\<open>strtod\<close>: the bits of the value, the end of what was read, and whether it was out of
  range.
\<close>

record float_env =
  c_strtof :: "byte list \<Rightarrow> 32 word \<times> nat \<times> bool"
  c_strtod :: "byte list \<Rightarrow> 64 word \<times> nat \<times> bool"

definition parse_flt :: "float_env \<Rightarrow> byte list \<Rightarrow> 32 word option" where
  "parse_flt fe s =
     (if s = [] \<or> is_space_char (s ! 0) then None
      else case c_strtof fe s of (v, e, erange) \<Rightarrow>
        if e = 0 \<or> e \<noteq> length s \<or> erange then None else Some v)"

definition parse_dbl :: "float_env \<Rightarrow> byte list \<Rightarrow> 64 word option" where
  "parse_dbl fe s =
     (if s = [] \<or> is_space_char (s ! 0) then None
      else case c_strtod fe s of (v, e, erange) \<Rightarrow>
        if e = 0 \<or> e \<noteq> length s \<or> erange then None else Some v)"

section \<open>Truth values\<close>

definition parse_bool_lit :: "byte list \<Rightarrow> bool option" where
  "parse_bool_lit s =
     (if ieq s (lit ''true'') \<or> ieq s (lit ''1'') \<or> ieq s (lit ''yes'') \<or> ieq s (lit ''on'') then Some True
      else if ieq s (lit ''false'') \<or> ieq s (lit ''0'') \<or> ieq s (lit ''no'') \<or> ieq s (lit ''off'') then Some False
      else None)"

section \<open>What is accepted\<close>

text \<open>The numerals: an optional sign and at least one digit.\<close>

definition numeral_of :: "byte list \<Rightarrow> byte list \<Rightarrow> byte list \<Rightarrow> bool" where
  "numeral_of s sg ds \<longleftrightarrow> s = sg @ ds \<and> (sg = [] \<or> sg = [MINUS] \<or> sg = [PLUS]) \<and> ds \<noteq> [] \<and> list_all is_digit_char ds"

definition signed_value :: "byte list \<Rightarrow> byte list \<Rightarrow> int" where
  "signed_value sg ds = (if sg = [MINUS] then - int (dec_value ds) else int (dec_value ds))"

lemma char_classes:
  "is_digit_char c \<Longrightarrow> \<not> is_space_char c \<and> c \<noteq> MINUS \<and> c \<noteq> PLUS"
  "\<not> is_space_char MINUS" "\<not> is_space_char PLUS" "\<not> is_digit_char MINUS" "\<not> is_digit_char PLUS" "MINUS \<noteq> PLUS"
  by (auto simp: is_digit_char_def is_space_char_def MINUS_def PLUS_def word_le_nat_alt)

lemma numeral_start: "numeral_of s sg ds \<Longrightarrow> s \<noteq> [] \<and> \<not> is_space_char (s ! 0)"
  using char_classes by (cases ds) (auto simp: numeral_of_def)

lemma subject_plain:
  assumes "s \<noteq> []" "\<not> is_space_char (s ! 0)"
  shows "c_subject s = (let sign = (hd s = MINUS \<or> hd s = PLUS);
      ds = takeWhile is_digit_char (if sign then tl s else s) in
    if ds = [] then None else Some (hd s = MINUS, dec_value ds, (if sign then 1 else 0) + length ds))"
proof -
  have "takeWhile is_space_char s = []" using assms by (cases s) auto
  then show ?thesis using assms(1) by (auto simp: c_subject_def Let_def)
qed

lemma subject_numeral:
  assumes "numeral_of s sg ds"
  shows "c_subject s = Some (sg = [MINUS], dec_value ds, length s)"
proof -
  have d: "takeWhile is_digit_char ds = ds"
    using assms by (simp add: numeral_of_def list_all_iff takeWhile_eq_all_conv)
  have ne: "ds \<noteq> []" "s = sg @ ds" using assms by (auto simp: numeral_of_def)
  have h: "hd ds \<noteq> MINUS" "hd ds \<noteq> PLUS" using assms char_classes(1) by (cases ds; auto simp: numeral_of_def)+
  note p = subject_plain [OF conjunct1 [OF numeral_start [OF assms]] conjunct2 [OF numeral_start [OF assms]]]
  consider "sg = []" | "sg = [MINUS]" | "sg = [PLUS]" using assms by (auto simp: numeral_of_def)
  then show ?thesis
    unfolding p by cases (simp_all add: ne d h char_classes(6) not_sym [OF char_classes(6)])
qed

lemma numeral_subject:
  assumes c: "c_subject s = Some (neg, n, length s)" and s: "\<not> is_space_char (s ! 0)" "s \<noteq> []"
  shows "\<exists>sg ds. numeral_of s sg ds \<and> neg = (sg = [MINUS]) \<and> n = dec_value ds"
proof -
  have all: "list_all is_digit_char r" if "length (takeWhile is_digit_char r) = length r" for r
  proof -
    have "takeWhile is_digit_char r = r" using that by (metis takeWhile_eq_take take_all order_refl)
    then show ?thesis by (simp add: list_all_iff)
  qed
  have tw: "takeWhile is_digit_char r = r" if "length (takeWhile is_digit_char r) = length r" for r
    using that by (metis takeWhile_eq_take take_all order_refl)
  obtain h t where st: "s = h # t" using s(2) by (cases s) auto
  show ?thesis
  proof (cases "h = MINUS \<or> h = PLUS")
    case True
    then have e: "takeWhile is_digit_char t \<noteq> []" "neg = (h = MINUS)" "n = dec_value (takeWhile is_digit_char t)"
        "length (takeWhile is_digit_char t) = length t"
      using c unfolding subject_plain [OF s(2,1)] by (auto simp: st Let_def split: if_splits)
    then have "numeral_of s [h] t" using True all st by (auto simp: numeral_of_def)
    then show ?thesis using e(2,3) tw [OF e(4)] True by auto
  next
    case False
    then have e: "neg = False" "n = dec_value (takeWhile is_digit_char s)" "length (takeWhile is_digit_char s) = length s"
      using c unfolding subject_plain [OF s(2,1)] by (simp_all add: st Let_def split: if_splits)
    then have "numeral_of s [] s" using all s(2) by (simp add: numeral_of_def)
    then show ?thesis using e(1,2) tw [OF e(3)] by (intro exI [of _ "[]"] exI [of _ s]) simp
  qed
qed

lemma subject_end_pos: "c_subject s = Some (neg, n, e) \<Longrightarrow> 0 < e"
  by (auto simp: c_subject_def Let_def split: if_splits)

lemma parse_ll_iff:
  "parse_ll s = Some v \<longleftrightarrow> (\<exists>sg ds. numeral_of s sg ds \<and> v = signed_value sg ds \<and> LLONG_MIN \<le> v \<and> v \<le> LLONG_MAX)"
proof
  assume a: "parse_ll s = Some v"
  then have s: "s \<noteq> []" "\<not> is_space_char (s ! 0)" by (auto simp: parse_ll_def split: if_splits)
  obtain neg n where c: "c_subject s = Some (neg, n, length s)" "v = (if neg then - int n else int n)"
      "LLONG_MIN \<le> v" "v \<le> LLONG_MAX"
    using a s by (auto simp: parse_ll_def c_strtoll_def Let_def split: option.splits if_splits)
  obtain sg ds where "numeral_of s sg ds" "neg = (sg = [MINUS])" "n = dec_value ds" using numeral_subject [OF c(1) s(2,1)] by blast
  then show "\<exists>sg ds. numeral_of s sg ds \<and> v = signed_value sg ds \<and> LLONG_MIN \<le> v \<and> v \<le> LLONG_MAX"
    using c by (auto simp: signed_value_def)
next
  assume "\<exists>sg ds. numeral_of s sg ds \<and> v = signed_value sg ds \<and> LLONG_MIN \<le> v \<and> v \<le> LLONG_MAX"
  then obtain sg ds where n: "numeral_of s sg ds" "v = signed_value sg ds" "LLONG_MIN \<le> v" "v \<le> LLONG_MAX" by blast
  have "c_strtoll s = (v, length s, False)"
    using subject_numeral [OF n(1)] n(2-4) by (auto simp: c_strtoll_def signed_value_def Let_def)
  then show "parse_ll s = Some v" using numeral_start [OF n(1)] by (auto simp: parse_ll_def)
qed

lemma parse_ull_iff:
  "parse_ull s = Some v \<longleftrightarrow> (\<exists>sg ds. numeral_of s sg ds \<and> sg \<noteq> [MINUS] \<and> v = int (dec_value ds) \<and> v \<le> ULLONG_MAX)"
proof
  assume a: "parse_ull s = Some v"
  then have s: "s \<noteq> []" "\<not> is_space_char (s ! 0)" "s ! 0 \<noteq> MINUS" by (auto simp: parse_ull_def split: if_splits)
  obtain neg n where c: "c_subject s = Some (neg, n, length s)" "v = (if neg then (- int n) mod 2 ^ 64 else int n)" "int n \<le> ULLONG_MAX"
    using a s by (auto simp: parse_ull_def c_strtoull_def split: option.splits if_splits)
  obtain sg ds where n: "numeral_of s sg ds" "neg = (sg = [MINUS])" "n = dec_value ds" using numeral_subject [OF c(1) s(2,1)] by blast
  moreover have "sg \<noteq> [MINUS]" using n(1) s(3) by (auto simp: numeral_of_def)
  ultimately show "\<exists>sg ds. numeral_of s sg ds \<and> sg \<noteq> [MINUS] \<and> v = int (dec_value ds) \<and> v \<le> ULLONG_MAX" using c by auto
next
  assume "\<exists>sg ds. numeral_of s sg ds \<and> sg \<noteq> [MINUS] \<and> v = int (dec_value ds) \<and> v \<le> ULLONG_MAX"
  then obtain sg ds where n: "numeral_of s sg ds" "sg \<noteq> [MINUS]" "v = int (dec_value ds)" "v \<le> ULLONG_MAX" by blast
  have "c_strtoull s = (v, length s, False)" using subject_numeral [OF n(1)] n(2-4) by (auto simp: c_strtoull_def)
  moreover have "s ! 0 \<noteq> MINUS" using n(1,2) char_classes(1,6) by (cases ds) (auto simp: numeral_of_def)
  ultimately show "parse_ull s = Some v" using numeral_start [OF n(1)] by (auto simp: parse_ull_def)
qed

section \<open>Decimal numerals\<close>

fun nat_digits :: "nat \<Rightarrow> byte list" where
  "nat_digits n = (if n < 10 then [of_nat (48 + n)] else nat_digits (n div 10) @ [of_nat (48 + n mod 10)])"

declare nat_digits.simps [simp del]

definition int_digits :: "int \<Rightarrow> byte list" where
  "int_digits v = (if v < 0 then MINUS # nat_digits (nat (- v)) else nat_digits (nat v))"

lemma digit_byte: "n < 10 \<Longrightarrow> unat (of_nat (48 + n) :: byte) = 48 + n \<and> is_digit_char (of_nat (48 + n))"
proof -
  assume n: "n < 10"
  then have u: "unat (of_nat (48 + n) :: byte) = 48 + n" by (simp add: unat_of_nat del: of_nat_add)
  then show ?thesis using n by (simp only: is_digit_char_def word_le_nat_alt) simp
qed

lemma nat_digits_ok: "nat_digits n \<noteq> [] \<and> list_all is_digit_char (nat_digits n) \<and> dec_value (nat_digits n) = n"
proof (induction n rule: nat_digits.induct)
  case (1 n)
  show ?case
  proof (cases "n < 10")
    case True
    then show ?thesis using digit_byte [of n] by (subst (1 2 3) nat_digits.simps) (simp add: dec_value_def)
  next
    case False
    then show ?thesis using 1 digit_byte [of "n mod 10"]
      by (subst (1 2 3) nat_digits.simps) (simp add: dec_value_def)
  qed
qed

lemma parse_ll_digits:
  assumes "LLONG_MIN \<le> v" "v \<le> LLONG_MAX" shows "parse_ll (int_digits v) = Some v"
proof (cases "v < 0")
  case True
  then have "numeral_of (int_digits v) [MINUS] (nat_digits (nat (- v)))" "v = signed_value [MINUS] (nat_digits (nat (- v)))"
    using nat_digits_ok [of "nat (- v)"] by (auto simp: int_digits_def numeral_of_def signed_value_def)
  then show ?thesis unfolding parse_ll_iff using assms by blast
next
  case False
  then have "numeral_of (int_digits v) [] (nat_digits (nat v))" "v = signed_value [] (nat_digits (nat v))"
    using nat_digits_ok [of "nat v"] by (auto simp: int_digits_def numeral_of_def signed_value_def)
  then show ?thesis unfolding parse_ll_iff using assms by blast
qed

lemma parse_ull_digits:
  assumes "0 \<le> v" "v \<le> ULLONG_MAX" shows "parse_ull (int_digits v) = Some v"
proof -
  have "numeral_of (int_digits v) [] (nat_digits (nat v))" "v = int (dec_value (nat_digits (nat v)))"
    using nat_digits_ok [of "nat v"] assms(1) by (auto simp: int_digits_def numeral_of_def)
  then show ?thesis unfolding parse_ull_iff using assms by blast
qed

end
