(* ===== verification/Argparse_Opt.thy ===== *)
theory Argparse_Opt
  imports Argparse_Num Env
begin

text \<open>
  The options of \<^verbatim>\<open>src/ucb/argparse.c\<close>: descriptors, the parser object, declaration and lookup. The
  vector of options, which owns its elements, is a list; so is the array of choices. A destination
  is an address in the caller's memory, which \<open>Argparse\<close> models. A failing growth of these vectors
  ends the process, as it does with the default handler.
\<close>

section \<open>Types\<close>

datatype ucb_arg_type =
    UCB_ARG_TYPE_NONE | UCB_ARG_TYPE_BOOL | UCB_ARG_TYPE_STR | UCB_ARG_TYPE_INT | UCB_ARG_TYPE_UINT
  | UCB_ARG_TYPE_LONG | UCB_ARG_TYPE_ULONG | UCB_ARG_TYPE_LLONG | UCB_ARG_TYPE_ULLONG
  | UCB_ARG_TYPE_SIZE | UCB_ARG_TYPE_FLOAT | UCB_ARG_TYPE_DOUBLE

datatype ucb_arg_action =
    UCB_ARG_ACTION_STORE | UCB_ARG_ACTION_STORE_TRUE | UCB_ARG_ACTION_STORE_FALSE
  | UCB_ARG_ACTION_COUNT | UCB_ARG_ACTION_APPEND | UCB_ARG_ACTION_HELP | UCB_ARG_ACTION_VERSION

text \<open>The descriptor a caller passes; strings are texts, null is \<open>None\<close>.\<close>

record ucb_arg_opt =
  opt_name :: "byte list option"
  opt_short :: byte
  opt_long :: "byte list option"
  opt_type :: ucb_arg_type
  opt_action :: ucb_arg_action
  opt_dest :: "nat option"
  opt_def :: "byte list option"
  opt_metavar :: "byte list option"
  opt_help :: "byte list option"
  opt_choices :: "byte list list option"
  opt_num_choices :: nat
  opt_required :: bool

definition ucb_arg_opt_make :: ucb_arg_opt where
  "ucb_arg_opt_make = \<lparr>opt_name = None, opt_short = 0, opt_long = None, opt_type = UCB_ARG_TYPE_NONE,
     opt_action = UCB_ARG_ACTION_STORE, opt_dest = None, opt_def = None, opt_metavar = None,
     opt_help = None, opt_choices = None, opt_num_choices = 0, opt_required = False\<rparr>"

record ucb_arg_opt_impl =
  o_name :: ucb_str
  o_short :: byte
  o_long :: ucb_str
  o_canon :: ucb_str
  o_type :: ucb_arg_type
  o_action :: ucb_arg_action
  o_dest :: "nat option"
  o_def :: ucb_str
  o_has_def :: bool
  o_metavar :: ucb_str
  o_help :: ucb_str
  o_choices :: "ucb_str list option"
  o_required :: bool
  o_seen :: bool

record ucb_arg_parser =
  prog_base :: ucb_str
  usage :: ucb_str
  description :: ucb_str
  version :: ucb_str
  width :: int
  opts :: "ucb_arg_opt_impl list"

definition type_name :: "ucb_arg_type \<Rightarrow> byte list" where
  "type_name t = lit (case t of
     UCB_ARG_TYPE_NONE \<Rightarrow> ''none'' | UCB_ARG_TYPE_BOOL \<Rightarrow> ''bool'' | UCB_ARG_TYPE_STR \<Rightarrow> ''str''
   | UCB_ARG_TYPE_INT \<Rightarrow> ''int'' | UCB_ARG_TYPE_UINT \<Rightarrow> ''uint'' | UCB_ARG_TYPE_LONG \<Rightarrow> ''long''
   | UCB_ARG_TYPE_ULONG \<Rightarrow> ''ulong'' | UCB_ARG_TYPE_LLONG \<Rightarrow> ''llong'' | UCB_ARG_TYPE_ULLONG \<Rightarrow> ''ullong''
   | UCB_ARG_TYPE_SIZE \<Rightarrow> ''size'' | UCB_ARG_TYPE_FLOAT \<Rightarrow> ''float'' | UCB_ARG_TYPE_DOUBLE \<Rightarrow> ''double'')"

definition action_name :: "ucb_arg_action \<Rightarrow> byte list" where
  "action_name a = lit (case a of
     UCB_ARG_ACTION_STORE \<Rightarrow> ''store'' | UCB_ARG_ACTION_STORE_TRUE \<Rightarrow> ''store_true''
   | UCB_ARG_ACTION_STORE_FALSE \<Rightarrow> ''store_false'' | UCB_ARG_ACTION_COUNT \<Rightarrow> ''count''
   | UCB_ARG_ACTION_APPEND \<Rightarrow> ''append'' | _ \<Rightarrow> ''unknown'')"

definition opt_takes_value :: "ucb_arg_opt_impl \<Rightarrow> bool" where
  "opt_takes_value o' = (o_action o' = UCB_ARG_ACTION_STORE \<or> o_action o' = UCB_ARG_ACTION_APPEND)"

section \<open>Building texts\<close>

text \<open>
  Appending a C string, \<open>n\<close> bytes of memory, and another string. A string built in this way has no
  spare room, so nothing is lost.
\<close>

definition append_c :: "mem_env \<Rightarrow> ucb_str \<Rightarrow> byte list \<Rightarrow> ucb_str result" where
  "append_c me out t = ucb_str_append_cstr me out (CExt (t @ [0])) (length t)"

definition append_n :: "mem_env \<Rightarrow> ucb_str \<Rightarrow> byte list \<Rightarrow> nat \<Rightarrow> ucb_str result" where
  "append_n me out mem n = ucb_str_append_cstr me out (CExt mem) n"

definition append_s :: "mem_env \<Rightarrow> ucb_str \<Rightarrow> ucb_str \<Rightarrow> ucb_str result" where
  "append_s me out s = ucb_str_append me out (OtherArg s)"

definition assign_c :: "mem_env \<Rightarrow> ucb_str \<Rightarrow> byte list \<Rightarrow> (bool \<times> ucb_str) result" where
  "assign_c me s t = ucb_str_assign me s (CExt (t @ [0])) 0"

section \<open>Life cycle and metadata\<close>

definition SLASH_CHAR :: byte where "SLASH_CHAR = 47"
definition BACKSLASH_CHAR :: byte where "BACKSLASH_CHAR = 92"

fun base_from :: "byte list \<Rightarrow> byte list \<Rightarrow> byte list" where
  "base_from base [] = base"
| "base_from base (c # cs) = base_from (if c = SLASH_CHAR \<or> c = BACKSLASH_CHAR then cs else base) cs"

definition set_basename :: "mem_env \<Rightarrow> ucb_str \<Rightarrow> byte list \<Rightarrow> ucb_str result" where
  "set_basename me out path =
     (let base = base_from path path; base = (if base = [] then path else base) in
      rbind (assign_c me out base) (\<lambda>(_, s). Ret s))"

definition sizeof_parser :: nat where "sizeof_parser = 112"
definition sizeof_opt_impl :: nat where "sizeof_opt_impl = 192"

definition ucb_arg_parser_new :: "mem_env \<Rightarrow> byte list \<Rightarrow> ucb_arg_parser option result" where
  "ucb_arg_parser_new me prog =
     rbind (ucb_calloc me 1 sizeof_parser) (\<lambda>ok.
     if \<not> ok then Ret None
     else
       rbind (ucb_calloc me 1 sizeof_vector) (\<lambda>ok.
       if \<not> ok then Ret None
       else
         rbind (set_basename me str_empty prog) (\<lambda>base.
         Ret (Some \<lparr>prog_base = base, usage = str_empty, description = str_empty, version = str_empty,
                    width = 80, opts = []\<rparr>))))"

definition assign_opt :: "mem_env \<Rightarrow> ucb_str \<Rightarrow> byte list option \<Rightarrow> (bool \<times> ucb_str) result" where
  "assign_opt me s t =
     (case t of None \<Rightarrow> rbind (ucb_str_clear s) (\<lambda>s. Ret (True, s)) | Some t \<Rightarrow> assign_c me s t)"

definition ucb_arg_parser_set_usage ::
    "mem_env \<Rightarrow> ucb_arg_parser \<Rightarrow> byte list option \<Rightarrow> (bool \<times> ucb_arg_parser) result" where
  "ucb_arg_parser_set_usage me p t =
     rbind (assign_opt me (usage p) t) (\<lambda>(ok, s). Ret (ok, p\<lparr>usage := s\<rparr>))"

definition ucb_arg_parser_set_description ::
    "mem_env \<Rightarrow> ucb_arg_parser \<Rightarrow> byte list option \<Rightarrow> (bool \<times> ucb_arg_parser) result" where
  "ucb_arg_parser_set_description me p t =
     rbind (assign_opt me (description p) t) (\<lambda>(ok, s). Ret (ok, p\<lparr>description := s\<rparr>))"

definition ucb_arg_parser_set_version ::
    "mem_env \<Rightarrow> ucb_arg_parser \<Rightarrow> byte list option \<Rightarrow> (bool \<times> ucb_arg_parser) result" where
  "ucb_arg_parser_set_version me p t =
     rbind (assign_opt me (version p) t) (\<lambda>(ok, s). Ret (ok, p\<lparr>version := s\<rparr>))"

definition ucb_arg_parser_set_width :: "ucb_arg_parser \<Rightarrow> int \<Rightarrow> ucb_arg_parser" where
  "ucb_arg_parser_set_width p w = p\<lparr>width := (if w < 20 then 20 else w)\<rparr>"

text \<open>Releasing an option and a parser.\<close>

fun release_all :: "ucb_str list \<Rightarrow> unit result" where
  "release_all [] = Ret ()"
| "release_all (s # ss) = rbind (ucb_str_release s) (\<lambda>_. release_all ss)"

fun free_choices :: "ucb_str list \<Rightarrow> unit result" where
  "free_choices [] = Ret ()"
| "free_choices (s # ss) = rbind (ucb_str_free (Some s)) (\<lambda>_. free_choices ss)"

definition opt_impl_free :: "ucb_arg_opt_impl \<Rightarrow> unit result" where
  "opt_impl_free o' =
     rbind (release_all [o_name o', o_long o', o_canon o', o_def o', o_metavar o', o_help o']) (\<lambda>_.
     case o_choices o' of None \<Rightarrow> Ret () | Some cs \<Rightarrow> free_choices cs)"

fun free_opts :: "ucb_arg_opt_impl list \<Rightarrow> unit result" where
  "free_opts [] = Ret ()"
| "free_opts (o' # os) = rbind (opt_impl_free o') (\<lambda>_. free_opts os)"

definition ucb_arg_parser_free :: "ucb_arg_parser option \<Rightarrow> unit result" where
  "ucb_arg_parser_free p =
     (case p of None \<Rightarrow> Ret ()
      | Some p \<Rightarrow>
          rbind (release_all [prog_base p, usage p, description p, version p]) (\<lambda>_. free_opts (opts p)))"

section \<open>Lookup\<close>

text \<open>Both lookups give the index of the option.\<close>

fun find_short :: "ucb_arg_opt_impl list \<Rightarrow> byte \<Rightarrow> nat \<Rightarrow> nat option" where
  "find_short [] c i = None"
| "find_short (o' # os) c i = (if o_short o' = c then Some i else find_short os c (i + 1))"

fun find_long_loop :: "ucb_arg_opt_impl list \<Rightarrow> byte list \<Rightarrow> nat \<Rightarrow> nat option result" where
  "find_long_loop [] name i = Ret None"
| "find_long_loop (o' # os) name i =
     (if s_size (o_long o') = length name
      then rbind (cstr_text (o_long o')) (\<lambda>t. if t = name then Ret (Some i) else find_long_loop os name (i + 1))
      else find_long_loop os name (i + 1))"

definition find_long :: "ucb_arg_opt_impl list \<Rightarrow> byte list \<Rightarrow> nat option result" where
  "find_long os name = (if length name = 0 then Ret None else find_long_loop os name 0)"

section \<open>Declaration\<close>

text \<open>The checks, each of which ends the process when it fails.\<close>

definition check_names :: "ucb_arg_parser \<Rightarrow> ucb_arg_opt \<Rightarrow> unit result" where
  "check_names p opt =
     verify (case opt_name opt of None \<Rightarrow> False | Some n \<Rightarrow> n \<noteq> []) UCB_ERROR_INVALID_ARG (
     verify (\<not> (opt_short opt = 0 \<and> opt_long opt = None)) UCB_ERROR_INVALID_ARG (
     verify (\<not> (opt_short opt \<noteq> 0 \<and> find_short (opts p) (opt_short opt) 0 \<noteq> None)) UCB_ERROR_INVALID_ARG (
     case opt_long opt of
       None \<Rightarrow> Ret ()
     | Some l \<Rightarrow>
         rbind (find_long (opts p) l) (\<lambda>i. verify (i = None) UCB_ERROR_INVALID_ARG (Ret ())))))"

definition check_action :: "ucb_arg_opt \<Rightarrow> bool" where
  "check_action opt =
     (case opt_action opt of
        UCB_ARG_ACTION_STORE \<Rightarrow> opt_type opt \<noteq> UCB_ARG_TYPE_NONE \<and> opt_dest opt \<noteq> None
      | UCB_ARG_ACTION_APPEND \<Rightarrow> opt_dest opt \<noteq> None
          \<and> (opt_type opt = UCB_ARG_TYPE_NONE \<or> opt_type opt = UCB_ARG_TYPE_STR)
      | UCB_ARG_ACTION_HELP \<Rightarrow> opt_type opt = UCB_ARG_TYPE_NONE
      | UCB_ARG_ACTION_VERSION \<Rightarrow> opt_type opt = UCB_ARG_TYPE_NONE
      | _ \<Rightarrow> opt_dest opt \<noteq> None)"

definition check_num_choices :: "ucb_arg_opt \<Rightarrow> bool" where
  "check_num_choices opt =
     (opt_num_choices opt \<noteq> 0 \<longrightarrow>
        opt_choices opt \<noteq> None \<and> (opt_action opt = UCB_ARG_ACTION_STORE \<or> opt_action opt = UCB_ARG_ACTION_APPEND))"

definition assign_given :: "mem_env \<Rightarrow> byte list option \<Rightarrow> ucb_str result" where
  "assign_given me t =
     (case t of None \<Rightarrow> Ret str_empty | Some t \<Rightarrow> rbind (assign_c me str_empty t) (\<lambda>(_, s). Ret s))"

definition build_canon :: "mem_env \<Rightarrow> byte \<Rightarrow> ucb_str option \<Rightarrow> ucb_str result" where
  "build_canon me c long =
     rbind (if c \<noteq> 0 then rbind (append_c me str_empty (lit ''-'')) (\<lambda>s. append_n me s [c] 1)
            else Ret str_empty) (\<lambda>s.
     case long of
       None \<Rightarrow> Ret s
     | Some l \<Rightarrow>
         rbind (if c \<noteq> 0 then append_c me s (lit ''/'') else Ret s) (\<lambda>s.
         rbind (append_c me s (lit ''--'')) (\<lambda>s. append_s me s l)))"

text \<open>The copies of the first \<open>n\<close> choices; \<open>None\<close> when one could not be made.\<close>

fun copy_choices :: "mem_env \<Rightarrow> byte list list \<Rightarrow> nat \<Rightarrow> ucb_str list option result" where
  "copy_choices me cs 0 = Ret (Some [])"
| "copy_choices me [] (Suc n) = Undef"
| "copy_choices me (c # cs) (Suc n) =
     rbind (ucb_str_new me (Some (c @ [0])) 0) (\<lambda>s.
     case s of None \<Rightarrow> Ret None
     | Some s \<Rightarrow> rbind (copy_choices me cs n) (\<lambda>r. Ret (map_option (\<lambda>ss. s # ss) r)))"

text \<open>The end of \<^verbatim>\<open>ucb_arg_parser_add\<close>: the choices are copied and the option is pushed.\<close>

definition push_opt ::
    "mem_env \<Rightarrow> ucb_arg_parser \<Rightarrow> ucb_arg_opt \<Rightarrow> ucb_arg_opt_impl \<Rightarrow> (bool \<times> ucb_arg_parser) result" where
  "push_opt me p opt o' =
     (if opt_num_choices opt = 0 then Ret (True, p\<lparr>opts := opts p @ [o']\<rparr>)
      else
        rbind (ucb_calloc me 1 sizeof_vector) (\<lambda>ok.
        if \<not> ok then rbind (opt_impl_free o') (\<lambda>_. Ret (False, p))
        else
          rbind (copy_choices me (the (opt_choices opt)) (opt_num_choices opt)) (\<lambda>cs.
          case cs of
            None \<Rightarrow> rbind (opt_impl_free (o'\<lparr>o_choices := Some []\<rparr>)) (\<lambda>_. Ret (False, p))
          | Some cs \<Rightarrow> Ret (True, p\<lparr>opts := opts p @ [o'\<lparr>o_choices := Some cs\<rparr>]\<rparr>))))"

definition ucb_arg_parser_add ::
    "mem_env \<Rightarrow> ucb_arg_parser \<Rightarrow> ucb_arg_opt \<Rightarrow> (bool \<times> ucb_arg_parser) result" where
  "ucb_arg_parser_add me p opt =
     rbind (check_names p opt) (\<lambda>_.
     verify (check_action opt) UCB_ERROR_INVALID_ARG (
     verify (check_num_choices opt) UCB_ERROR_INVALID_ARG (
     rbind (ucb_calloc me 1 sizeof_opt_impl) (\<lambda>ok.
     if \<not> ok then Ret (False, p)
     else
       rbind (assign_given me (opt_name opt)) (\<lambda>name.
       rbind (assign_given me (opt_long opt)) (\<lambda>long.
       rbind (assign_given me (opt_def opt)) (\<lambda>def'.
       rbind (assign_given me (opt_metavar opt)) (\<lambda>metavar.
       rbind (assign_given me (opt_help opt)) (\<lambda>help.
       rbind (build_canon me (opt_short opt) (if opt_long opt = None then None else Some long)) (\<lambda>canon.
       let o' = \<lparr>o_name = name, o_short = opt_short opt, o_long = long, o_canon = canon,
                 o_type = opt_type opt, o_action = opt_action opt, o_dest = opt_dest opt,
                 o_def = def', o_has_def = (opt_def opt \<noteq> None), o_metavar = metavar, o_help = help,
                 o_choices = None, o_required = opt_required opt, o_seen = False\<rparr> in
       push_opt me p opt o'))))))))))"

fun ucb_arg_parser_add_options ::
    "mem_env \<Rightarrow> ucb_arg_parser \<Rightarrow> ucb_arg_opt list \<Rightarrow> (bool \<times> ucb_arg_parser) result" where
  "ucb_arg_parser_add_options me p [] = Ret (True, p)"
| "ucb_arg_parser_add_options me p (opt # os) =
     rbind (ucb_arg_parser_add me p opt) (\<lambda>(ok, p).
     if \<not> ok then Ret (False, p) else ucb_arg_parser_add_options me p os)"

end
