(* ===== verification/Argparse_Text.thy ===== *)
theory Argparse_Text
  imports Argparse_Opt
begin

text \<open>
  The texts that \<^verbatim>\<open>src/ucb/argparse.c\<close> renders: interpolation, wrapping, the help, usage and
  version texts. Loops over the bytes of a text recurse on what is left of it. Writing to a
  file is the caller's; the functions here make the string.
\<close>

section \<open>Interpolation\<close>

definition PERCENT :: byte where "PERCENT = 37"
definition SPACE :: byte where "SPACE = 32"
definition NEWLINE :: byte where "NEWLINE = 10"
definition OPEN_PAREN :: byte where "OPEN_PAREN = 40"
definition CLOSE_PAREN :: byte where "CLOSE_PAREN = 41"

definition str_content :: "ucb_str \<Rightarrow> byte list result" where
  "str_content s = rbind (mem_of s) (\<lambda>m. mem_read m (s_size s))"

fun append_upper :: "mem_env \<Rightarrow> ucb_str \<Rightarrow> byte list \<Rightarrow> ucb_str result" where
  "append_upper me out [] = Ret out"
| "append_upper me out (c # cs) = rbind (append_n me out [upper_char c] 1) (\<lambda>out. append_upper me out cs)"

definition append_metavar :: "mem_env \<Rightarrow> ucb_str \<Rightarrow> ucb_arg_opt_impl \<Rightarrow> ucb_str result" where
  "append_metavar me out o' =
     (if s_size (o_metavar o') \<noteq> 0 then append_s me out (o_metavar o')
      else rbind (str_content (o_name o')) (\<lambda>name. append_upper me out name))"

definition append_def_or :: "mem_env \<Rightarrow> ucb_str \<Rightarrow> ucb_arg_opt_impl \<Rightarrow> byte list \<Rightarrow> ucb_str result" where
  "append_def_or me out o' t =
     (if o_has_def o' then rbind (cstr_text (o_def o')) (\<lambda>d. append_c me out d) else append_c me out t)"

definition append_default :: "mem_env \<Rightarrow> ucb_str \<Rightarrow> ucb_arg_opt_impl \<Rightarrow> ucb_str result" where
  "append_default me out o' =
     (case o_action o' of
        UCB_ARG_ACTION_STORE_TRUE \<Rightarrow> append_def_or me out o' (lit ''false'')
      | UCB_ARG_ACTION_STORE_FALSE \<Rightarrow> append_def_or me out o' (lit ''true'')
      | UCB_ARG_ACTION_COUNT \<Rightarrow> append_def_or me out o' (lit ''0'')
      | _ \<Rightarrow> (if o_has_def o' then append_s me out (o_def o') else Ret out))"

fun append_joined :: "mem_env \<Rightarrow> ucb_str \<Rightarrow> bool \<Rightarrow> ucb_str list \<Rightarrow> ucb_str result" where
  "append_joined me out first [] = Ret out"
| "append_joined me out first (c # cs) =
     rbind (if first then Ret out else append_c me out (lit '', '')) (\<lambda>out.
     rbind (append_s me out c) (\<lambda>out. append_joined me out False cs))"

text \<open>A field that is not known is kept as it was written.\<close>

definition append_verbatim :: "mem_env \<Rightarrow> ucb_str \<Rightarrow> byte list \<Rightarrow> ucb_str result" where
  "append_verbatim me out field =
     rbind (append_c me out (lit ''%('')) (\<lambda>out.
     rbind (if field \<noteq> [] then append_n me out field (length field) else Ret out) (\<lambda>out.
     append_c me out (lit '')s'')))"

definition append_field ::
    "mem_env \<Rightarrow> ucb_str \<Rightarrow> ucb_arg_parser \<Rightarrow> ucb_arg_opt_impl option \<Rightarrow> byte list \<Rightarrow> ucb_str result" where
  "append_field me out p opt field =
     (if field = lit ''prog'' then append_s me out (prog_base p)
      else case opt of
        None \<Rightarrow> append_verbatim me out field
      | Some o' \<Rightarrow>
          if field = lit ''name'' then append_s me out (o_name o')
          else if field = lit ''type'' then append_c me out (type_name (o_type o'))
          else if field = lit ''metavar'' then append_metavar me out o'
          else if field = lit ''choices'' then
            (case o_choices o' of None \<Rightarrow> Ret out | Some cs \<Rightarrow> append_joined me out True cs)
          else if field = lit ''default'' then append_default me out o'
          else if field = lit ''action'' then append_c me out (action_name (o_action o'))
          else if field = lit ''short'' then
            (if o_short o' \<noteq> 0 then rbind (append_c me out (lit ''-'')) (\<lambda>out. append_n me out [o_short o'] 1)
             else Ret out)
          else if field = lit ''long'' then
            (if s_size (o_long o') \<noteq> 0
             then rbind (append_c me out (lit ''--'')) (\<lambda>out. append_s me out (o_long o'))
             else Ret out)
          else append_verbatim me out field)"

text \<open>The field of \<^verbatim>\<open>%(field)s\<close> at the front of a text.\<close>

definition paren_field :: "byte list \<Rightarrow> byte list option" where
  "paren_field s =
     (if length s > 1 \<and> s ! 1 = OPEN_PAREN then
        (let f = takeWhile (\<lambda>c. c \<noteq> CLOSE_PAREN) (drop 2 s); j = length f + 2 in
         if j < length s \<and> j + 1 < length s \<and> s ! (j + 1) = 115 then Some f else None)
      else None)"

function interp_loop ::
    "mem_env \<Rightarrow> ucb_arg_parser \<Rightarrow> ucb_arg_opt_impl option \<Rightarrow> ucb_str \<Rightarrow> byte list \<Rightarrow> ucb_str result" where
  "interp_loop me p opt out s =
     (if s = [] then Ret out
      else if hd s \<noteq> PERCENT then
        (let n = length (takeWhile (\<lambda>c. c \<noteq> PERCENT) s) in
         rbind (append_n me out (s @ [0]) n) (\<lambda>out. interp_loop me p opt out (drop n s)))
      else if length s > 1 \<and> s ! 1 = PERCENT then
        rbind (append_c me out (lit ''%'')) (\<lambda>out. interp_loop me p opt out (drop 2 s))
      else if take 5 s = lit ''%prog'' then
        rbind (append_s me out (prog_base p)) (\<lambda>out. interp_loop me p opt out (drop 5 s))
      else if take 8 s = lit ''%default'' then
        rbind (case opt of None \<Rightarrow> append_c me out (lit ''%default'') | Some o' \<Rightarrow> append_default me out o') (\<lambda>out.
        interp_loop me p opt out (drop 8 s))
      else case paren_field s of
        Some f \<Rightarrow> rbind (append_field me out p opt f) (\<lambda>out. interp_loop me p opt out (drop (length f + 4) s))
      | None \<Rightarrow> rbind (append_c me out (lit ''%'')) (\<lambda>out. interp_loop me p opt out (drop 1 s)))"
  by pat_completeness auto
termination by (relation "measure (\<lambda>(me, p, opt, out, s). length s)") (auto simp: length_greater_0_conv hd_conv_nth neq_Nil_conv)

declare interp_loop.simps [simp del]

definition interp_text ::
    "mem_env \<Rightarrow> ucb_arg_parser \<Rightarrow> ucb_arg_opt_impl option \<Rightarrow> ucb_str \<Rightarrow> ucb_str option result" where
  "interp_text me p opt src =
     rbind (ucb_str_new me None 0) (\<lambda>out.
     case out of
       None \<Rightarrow> Ret None
     | Some out \<Rightarrow>
         rbind (str_content src) (\<lambda>s.
         rbind (interp_loop me p opt out s) (\<lambda>out. Ret (Some out))))"

section \<open>Help\<close>

fun append_indent :: "mem_env \<Rightarrow> ucb_str \<Rightarrow> nat \<Rightarrow> ucb_str result" where
  "append_indent me out 0 = Ret out"
| "append_indent me out (Suc n) = rbind (append_c me out (lit '' '')) (\<lambda>out. append_indent me out n)"

text \<open>The words of a text are put into lines of at most \<open>w\<close> columns, the first from column \<open>col\<close>.\<close>

function wrap_loop :: "mem_env \<Rightarrow> ucb_str \<Rightarrow> nat \<Rightarrow> nat \<Rightarrow> nat \<Rightarrow> byte list \<Rightarrow> ucb_str result" where
  "wrap_loop me out indent w col p =
     (if p = [] then Ret out
      else if hd p = NEWLINE then
        rbind (append_c me out [NEWLINE]) (\<lambda>out.
        rbind (append_indent me out indent) (\<lambda>out. wrap_loop me out indent w indent (tl p)))
      else
        (let word = takeWhile (\<lambda>c. c \<noteq> SPACE \<and> c \<noteq> NEWLINE) p;
             rest = drop (length word) p; wlen = length word in
         rbind (if col > indent then
                  (if col + 1 + wlen > w
                   then rbind (append_c me out [NEWLINE]) (\<lambda>out.
                        rbind (append_indent me out indent) (\<lambda>out. Ret (out, indent)))
                   else rbind (append_c me out (lit '' '')) (\<lambda>out. Ret (out, col + 1)))
                else Ret (out, col)) (\<lambda>(out, col).
         rbind (if wlen \<noteq> 0 then append_n me out (p @ [0]) wlen else Ret out) (\<lambda>out.
         wrap_loop me out indent w (col + wlen) (dropWhile (\<lambda>c. c = SPACE) rest)))))"
  by pat_completeness auto
termination
proof (relation "measure (\<lambda>(me, out, indent, w, col, p). length p)", goal_cases)
  case (3 me out indent w col p word rest wlen)
  then obtain c cs where p: "p = c # cs" "c \<noteq> NEWLINE" by (cases p) auto
  have le: "length (dropWhile (\<lambda>c. c = SPACE) xs) \<le> length xs" for xs :: "byte list"
    by (rule length_dropWhile_le)
  have "length (dropWhile (\<lambda>c. c = SPACE) rest) < length p"
  proof (cases "c = SPACE")
    case True
    then have "rest = p" using 3(3,4) p by simp
    then show ?thesis using True p le [of cs] by simp
  next
    case False
    then have "length word > 0" using 3(3) p by simp
    then have "length rest < length p" using 3(4) p by simp
    then show ?thesis using le [of rest] by simp
  qed
  then show ?case by simp
qed (auto simp: neq_Nil_conv)

declare wrap_loop.simps [simp del]

definition append_wrapped :: "mem_env \<Rightarrow> ucb_str \<Rightarrow> byte list \<Rightarrow> nat \<Rightarrow> nat \<Rightarrow> ucb_str result" where
  "append_wrapped me out t indent w =
     rbind (wrap_loop me out indent w indent t) (\<lambda>out. append_c me out [NEWLINE])"

definition format_left :: "mem_env \<Rightarrow> ucb_str \<Rightarrow> ucb_arg_opt_impl \<Rightarrow> ucb_str result" where
  "format_left me out o' =
     (let has_short = (o_short o' \<noteq> 0); has_long = (s_size (o_long o') > 0) in
      rbind (if has_short then rbind (append_c me out (lit ''-'')) (\<lambda>out. append_n me out [o_short o'] 1)
             else append_c me out (lit ''    '')) (\<lambda>out.
      if has_long then
        rbind (if has_short then append_c me out (lit '', '') else Ret out) (\<lambda>out.
        rbind (append_c me out (lit ''--'')) (\<lambda>out.
        rbind (append_s me out (o_long o')) (\<lambda>out.
        if opt_takes_value o' then rbind (append_c me out (lit ''='')) (\<lambda>out. append_metavar me out o')
        else Ret out)))
      else if opt_takes_value o' then rbind (append_c me out (lit '' '')) (\<lambda>out. append_metavar me out o')
      else Ret out))"

text \<open>Appending an interpolated text; nothing is appended when it could not be made.\<close>

definition append_interp ::
    "mem_env \<Rightarrow> ucb_str \<Rightarrow> ucb_arg_parser \<Rightarrow> ucb_str \<Rightarrow> ucb_str result" where
  "append_interp me out p src =
     rbind (interp_text me p None src) (\<lambda>t.
     case t of
       None \<Rightarrow> Ret out
     | Some t \<Rightarrow> rbind (append_s me out t) (\<lambda>out. rbind (ucb_str_free (Some t)) (\<lambda>_. Ret out)))"

definition append_usage_line :: "mem_env \<Rightarrow> ucb_str \<Rightarrow> ucb_arg_parser \<Rightarrow> ucb_str result" where
  "append_usage_line me out p =
     rbind (append_c me out (lit ''Usage: '')) (\<lambda>out.
     rbind (if s_size (usage p) \<noteq> 0 then append_interp me out p (usage p)
            else rbind (append_s me out (prog_base p)) (\<lambda>out. append_c me out (lit '' [options]''))) (\<lambda>out.
     append_c me out [NEWLINE]))"

text \<open>The left column of every option, and the column where the descriptions start.\<close>

fun format_lefts :: "mem_env \<Rightarrow> ucb_arg_opt_impl list \<Rightarrow> ucb_str list result" where
  "format_lefts me [] = Ret []"
| "format_lefts me (o' # os) =
     rbind (format_left me str_empty o') (\<lambda>l. rbind (format_lefts me os) (\<lambda>ls. Ret (l # ls)))"

definition desc_column :: "nat \<Rightarrow> nat list \<Rightarrow> nat" where
  "desc_column w sizes =
     (let max_left = foldl (\<lambda>m n. if n > m then n else m) 0 sizes;
          desc_col = max_left + 2;
          limit = (if w > 20 then w - 20 else 1);
          desc_col = (if desc_col > limit then limit else desc_col)
      in if desc_col < 1 then 1 else desc_col)"

fun contains :: "byte list \<Rightarrow> byte list \<Rightarrow> bool" where
  "contains sub [] = (sub = [])"
| "contains sub (c # cs) = (take (length sub) (c # cs) = sub \<or> contains sub cs)"

text \<open>The help of an option, with its default appended unless the text mentions it.\<close>

definition option_help :: "mem_env \<Rightarrow> ucb_arg_parser \<Rightarrow> ucb_arg_opt_impl \<Rightarrow> ucb_str option result" where
  "option_help me p o' =
     rbind (interp_text me p (Some o') (o_help o')) (\<lambda>help.
     case help of
       None \<Rightarrow> Ret None
     | Some help \<Rightarrow>
         if o_has_def o' \<and> opt_takes_value o' then
           rbind (if s_size (o_help o') \<noteq> 0 then cstr_text (o_help o') else Ret []) (\<lambda>raw.
           if \<not> contains (lit ''%default'') raw \<and> \<not> contains (lit ''%(default)'') raw then
             rbind (append_c me help (lit '' (default: '')) (\<lambda>help.
             rbind (append_default me help o') (\<lambda>help.
             rbind (append_c me help (lit '')'')) (\<lambda>help. Ret (Some help))))
           else Ret (Some help))
         else Ret (Some help))"

fun append_options ::
    "mem_env \<Rightarrow> ucb_arg_parser \<Rightarrow> nat \<Rightarrow> nat \<Rightarrow> ucb_str \<Rightarrow> (ucb_str \<times> ucb_arg_opt_impl) list \<Rightarrow> ucb_str option result" where
  "append_options me p desc_col w out [] = Ret (Some out)"
| "append_options me p desc_col w out ((left, o') # es) =
     rbind (option_help me p o') (\<lambda>help.
     case help of
       None \<Rightarrow> Ret None
     | Some help \<Rightarrow>
         rbind (append_s me out left) (\<lambda>out.
         rbind (if s_size left + 2 > desc_col
                then rbind (append_c me out [NEWLINE]) (\<lambda>out. append_indent me out desc_col)
                else append_indent me out (desc_col - s_size left)) (\<lambda>out.
         rbind (cstr_text help) (\<lambda>t.
         rbind (append_wrapped me out t desc_col w) (\<lambda>out.
         rbind (ucb_str_free (Some help)) (\<lambda>_.
         append_options me p desc_col w out es))))))"

definition sizeof_help_entry :: nat where "sizeof_help_entry = 32"

definition append_description :: "mem_env \<Rightarrow> ucb_str \<Rightarrow> ucb_arg_parser \<Rightarrow> ucb_str result" where
  "append_description me out p =
     (if s_size (description p) \<noteq> 0 then
        rbind (interp_text me p None (description p)) (\<lambda>t.
        rbind (case t of
                 None \<Rightarrow> Ret out
               | Some t \<Rightarrow>
                   rbind (cstr_text t) (\<lambda>tx.
                   rbind (append_wrapped me out tx 0 (nat (width p))) (\<lambda>out.
                   rbind (ucb_str_free (Some t)) (\<lambda>_. Ret out)))) (\<lambda>out.
        append_c me out [NEWLINE]))
      else Ret out)"

text \<open>The part of \<^verbatim>\<open>build_help\<close> after the heading of the options.\<close>

definition help_options :: "mem_env \<Rightarrow> ucb_arg_parser \<Rightarrow> ucb_str \<Rightarrow> ucb_str option result" where
  "help_options me p out =
     (if opts p = [] then Ret (Some out)
      else
        rbind (ucb_calloc me (length (opts p)) sizeof_help_entry) (\<lambda>ok.
        if \<not> ok then rbind (ucb_str_free (Some out)) (\<lambda>_. Ret None)
        else
          rbind (format_lefts me (opts p)) (\<lambda>lefts.
          let w = nat (width p); desc_col = desc_column w (map s_size lefts) in
          rbind (append_options me p desc_col w out (zip lefts (opts p))) (\<lambda>r.
          rbind (release_all lefts) (\<lambda>_. Ret r)))))"

definition build_help :: "mem_env \<Rightarrow> ucb_arg_parser \<Rightarrow> ucb_str option result" where
  "build_help me p =
     rbind (ucb_str_new me None 0) (\<lambda>out.
     case out of
       None \<Rightarrow> Ret None
     | Some out \<Rightarrow>
         rbind (append_usage_line me out p) (\<lambda>out.
         rbind (append_c me out [NEWLINE]) (\<lambda>out.
         rbind (append_description me out p) (\<lambda>out.
         rbind (append_c me out (lit ''Options:'' @ [NEWLINE])) (\<lambda>out.
         help_options me p out)))))"

section \<open>Output\<close>

definition ucb_arg_parser_help_str :: "mem_env \<Rightarrow> ucb_arg_parser \<Rightarrow> ucb_str option result" where
  "ucb_arg_parser_help_str me p = build_help me p"

definition ucb_arg_parser_usage_str :: "mem_env \<Rightarrow> ucb_arg_parser \<Rightarrow> ucb_str option result" where
  "ucb_arg_parser_usage_str me p =
     rbind (ucb_str_new me None 0) (\<lambda>out.
     case out of None \<Rightarrow> Ret None | Some out \<Rightarrow> rbind (append_usage_line me out p) (\<lambda>out. Ret (Some out)))"

definition ucb_arg_parser_version_str :: "mem_env \<Rightarrow> ucb_arg_parser \<Rightarrow> ucb_str option result" where
  "ucb_arg_parser_version_str me p =
     rbind (ucb_str_new me None 0) (\<lambda>out.
     case out of
       None \<Rightarrow> Ret None
     | Some out \<Rightarrow>
         rbind (append_s me out (prog_base p)) (\<lambda>out.
         rbind (append_c me out (lit '' version'')) (\<lambda>out.
         rbind (if s_size (version p) \<noteq> 0
                then rbind (append_c me out (lit '' '')) (\<lambda>out. append_interp me out p (version p))
                else Ret out) (\<lambda>out.
         rbind (append_c me out [NEWLINE]) (\<lambda>out. Ret (Some out))))))"

text \<open>The text of a report: usage, program, and the message.\<close>

definition error_str :: "mem_env \<Rightarrow> ucb_arg_parser \<Rightarrow> byte list option \<Rightarrow> ucb_str option result" where
  "error_str me p msg =
     rbind (ucb_str_new me None 0) (\<lambda>out.
     case out of
       None \<Rightarrow> Ret None
     | Some out \<Rightarrow>
         rbind (append_usage_line me out p) (\<lambda>out.
         rbind (append_s me out (prog_base p)) (\<lambda>out.
         rbind (append_c me out (lit '': error: '')) (\<lambda>out.
         rbind (append_c me out (case msg of None \<Rightarrow> lit ''(no message)'' | Some m \<Rightarrow> m)) (\<lambda>out.
         rbind (append_c me out [NEWLINE]) (\<lambda>out. Ret (Some out)))))))"

text \<open>
  Printing: \<open>sink\<close> is the file, what was written to it so far; \<open>wr\<close> says whether it takes the
  text.
\<close>

definition write_str :: "(byte list \<Rightarrow> bool) \<Rightarrow> byte list \<Rightarrow> ucb_str \<Rightarrow> (bool \<times> byte list) result" where
  "write_str wr sink s =
     (if s_size s = 0 then Ret (True, sink)
      else rbind (str_content s) (\<lambda>t. Ret (if wr t then (True, sink @ t) else (False, sink))))"

definition print_made :: "(byte list \<Rightarrow> bool) \<Rightarrow> byte list \<Rightarrow> ucb_str option \<Rightarrow> (bool \<times> byte list) result" where
  "print_made wr sink s =
     (case s of None \<Rightarrow> Ret (False, sink)
      | Some s \<Rightarrow> rbind (write_str wr sink s) (\<lambda>r. rbind (ucb_str_free (Some s)) (\<lambda>_. Ret r)))"

definition ucb_arg_parser_print_help ::
    "mem_env \<Rightarrow> (byte list \<Rightarrow> bool) \<Rightarrow> ucb_arg_parser \<Rightarrow> byte list \<Rightarrow> (bool \<times> byte list) result" where
  "ucb_arg_parser_print_help me wr p sink = rbind (build_help me p) (print_made wr sink)"

definition ucb_arg_parser_print_usage ::
    "mem_env \<Rightarrow> (byte list \<Rightarrow> bool) \<Rightarrow> ucb_arg_parser \<Rightarrow> byte list \<Rightarrow> (bool \<times> byte list) result" where
  "ucb_arg_parser_print_usage me wr p sink = rbind (ucb_arg_parser_usage_str me p) (print_made wr sink)"

definition ucb_arg_parser_print_version ::
    "mem_env \<Rightarrow> (byte list \<Rightarrow> bool) \<Rightarrow> ucb_arg_parser \<Rightarrow> byte list \<Rightarrow> (bool \<times> byte list) result" where
  "ucb_arg_parser_print_version me wr p sink =
     verify (s_size (version p) > 0) UCB_ERROR_INVALID_ARG (
     rbind (ucb_arg_parser_version_str me p) (print_made wr sink))"

definition ucb_arg_parser_print_error ::
    "mem_env \<Rightarrow> (byte list \<Rightarrow> bool) \<Rightarrow> ucb_arg_parser \<Rightarrow> byte list option \<Rightarrow> byte list \<Rightarrow> (bool \<times> byte list) result" where
  "ucb_arg_parser_print_error me wr p msg sink = rbind (error_str me p msg) (print_made wr sink)"

end
