(* ===== verification/Argparse.thy ===== *)
theory Argparse
  imports Argparse_Text
begin

text \<open>
  Parsing in \<^verbatim>\<open>src/ucb/argparse.c\<close>: defaults, conversion into the caller's objects, choices, actions
  and the loop over the arguments. The caller's objects live at addresses; two options may share
  one. A store to an address that holds no object, or one of another type than the option's, is
  undefined. The loop over \<^verbatim>\<open>argv\<close> recurses on the arguments that are left.
\<close>

section \<open>State\<close>

datatype ucb_arg_status = UCB_ARG_OK | UCB_ARG_ERROR | UCB_ARG_HELP | UCB_ARG_VERSION

text \<open>The objects of the caller, and the vector of an \<^verbatim>\<open>APPEND\<close> option or of the positionals.\<close>

datatype arg_cell =
    CBool bool | CStr ucb_str | CInt int | CUint int | CLong int | CUlong int | CLlong int
  | CUllong int | CSize int | CFloat "32 word" | CDouble "64 word" | CVec "ucb_str list"

type_synonym arg_store = "nat \<Rightarrow> arg_cell option"

definition cell_type :: "arg_cell \<Rightarrow> ucb_arg_type" where
  "cell_type c = (case c of
     CBool _ \<Rightarrow> UCB_ARG_TYPE_BOOL | CStr _ \<Rightarrow> UCB_ARG_TYPE_STR | CInt _ \<Rightarrow> UCB_ARG_TYPE_INT
   | CUint _ \<Rightarrow> UCB_ARG_TYPE_UINT | CLong _ \<Rightarrow> UCB_ARG_TYPE_LONG | CUlong _ \<Rightarrow> UCB_ARG_TYPE_ULONG
   | CLlong _ \<Rightarrow> UCB_ARG_TYPE_LLONG | CUllong _ \<Rightarrow> UCB_ARG_TYPE_ULLONG | CSize _ \<Rightarrow> UCB_ARG_TYPE_SIZE
   | CFloat _ \<Rightarrow> UCB_ARG_TYPE_FLOAT | CDouble _ \<Rightarrow> UCB_ARG_TYPE_DOUBLE | CVec _ \<Rightarrow> UCB_ARG_TYPE_NONE)"

definition load_cell :: "arg_store \<Rightarrow> nat option \<Rightarrow> arg_cell result" where
  "load_cell m d = (case d of None \<Rightarrow> Undef | Some a \<Rightarrow> (case m a of None \<Rightarrow> Undef | Some c \<Rightarrow> Ret c))"

definition store_cell :: "arg_store \<Rightarrow> nat option \<Rightarrow> arg_cell \<Rightarrow> arg_store result" where
  "store_cell m d c =
     rbind (load_cell m d) (\<lambda>old. if cell_type old = cell_type c then Ret (m(the d \<mapsto> c)) else Undef)"

text \<open>Reading an object as a string, an \<^verbatim>\<open>int\<close> or a vector.\<close>

definition load_str :: "arg_store \<Rightarrow> nat option \<Rightarrow> ucb_str result" where
  "load_str m d = rbind (load_cell m d) (\<lambda>c. case c of CStr s \<Rightarrow> Ret s | _ \<Rightarrow> Undef)"

definition load_int :: "arg_store \<Rightarrow> nat option \<Rightarrow> int result" where
  "load_int m d = rbind (load_cell m d) (\<lambda>c. case c of CInt x \<Rightarrow> Ret x | _ \<Rightarrow> Undef)"

definition load_vec :: "arg_store \<Rightarrow> nat option \<Rightarrow> ucb_str list result" where
  "load_vec m d = rbind (load_cell m d) (\<lambda>c. case c of CVec ss \<Rightarrow> Ret ss | _ \<Rightarrow> Undef)"

text \<open>The errors that are thrown, with the arguments of their formatted message.\<close>

datatype arg_error =
    ArgOutOfMemory
  | InvalidValue "byte list" "byte list" "byte list"
  | InvalidBoolDefault "byte list" "byte list"
  | InvalidCountDefault "byte list" "byte list"
  | InvalidChoice "byte list" "byte list" "byte list"
  | UnrecognizedOption "byte list"
  | RequiresArgument "byte list"
  | TakesNoArgument "byte list"
  | InvalidOption byte
  | OptionRequired "byte list"

text \<open>What surrounds the parser: the allocator, \<^verbatim>\<open>strtof\<close> and \<^verbatim>\<open>strtod\<close>, and whether a write to standard output succeeds.\<close>

record arg_env =
  e_mem :: mem_env
  e_float :: float_env
  e_write :: "byte list \<Rightarrow> bool"

record arg_state =
  a_parser :: ucb_arg_parser
  a_mem :: arg_store
  a_out :: "byte list"
  a_err :: "arg_error option"

definition throw :: "arg_error \<Rightarrow> arg_state \<Rightarrow> (bool \<times> arg_state) result" where
  "throw e st = Ret (False, st\<lparr>a_err := Some e\<rparr>)"

definition store_dest :: "ucb_arg_opt_impl \<Rightarrow> arg_cell \<Rightarrow> arg_state \<Rightarrow> (bool \<times> arg_state) result" where
  "store_dest o' c st = rbind (store_cell (a_mem st) (o_dest o') c) (\<lambda>m. Ret (True, st\<lparr>a_mem := m\<rparr>))"

section \<open>Conversion\<close>

definition parse_int :: "byte list \<Rightarrow> int option" where
  "parse_int v = (case parse_ll v of None \<Rightarrow> None | Some x \<Rightarrow> if x < INT_MIN \<or> x > INT_MAX then None else Some x)"

text \<open>The value of a text as the type of an option other than a string.\<close>

definition convert_value :: "float_env \<Rightarrow> ucb_arg_type \<Rightarrow> byte list \<Rightarrow> arg_cell option" where
  "convert_value fe t v =
     (case t of
        UCB_ARG_TYPE_BOOL \<Rightarrow> map_option CBool (parse_bool_lit v)
      | UCB_ARG_TYPE_INT \<Rightarrow> map_option CInt (parse_int v)
      | UCB_ARG_TYPE_UINT \<Rightarrow>
          (case parse_ull v of None \<Rightarrow> None | Some x \<Rightarrow> if x > UINT_MAX then None else Some (CUint x))
      | UCB_ARG_TYPE_LONG \<Rightarrow> map_option CLong (parse_ll v)
      | UCB_ARG_TYPE_ULONG \<Rightarrow> map_option CUlong (parse_ull v)
      | UCB_ARG_TYPE_LLONG \<Rightarrow> map_option CLlong (parse_ll v)
      | UCB_ARG_TYPE_ULLONG \<Rightarrow> map_option CUllong (parse_ull v)
      | UCB_ARG_TYPE_SIZE \<Rightarrow> map_option CSize (parse_ull v)
      | UCB_ARG_TYPE_FLOAT \<Rightarrow> map_option CFloat (parse_flt fe v)
      | UCB_ARG_TYPE_DOUBLE \<Rightarrow> map_option CDouble (parse_dbl fe v)
      | _ \<Rightarrow> None)"

text \<open>\<^verbatim>\<open>ucb_str_assign_c\<close> to the string object at the destination.\<close>

definition assign_dest :: "arg_env \<Rightarrow> ucb_arg_opt_impl \<Rightarrow> byte list \<Rightarrow> arg_state \<Rightarrow> (bool \<times> arg_state) result" where
  "assign_dest ae o' v st =
     rbind (load_str (a_mem st) (o_dest o')) (\<lambda>s.
     rbind (assign_c (e_mem ae) s v) (\<lambda>(ok, s).
     rbind (store_dest o' (CStr s) st) (\<lambda>(_, st).
     if ok then Ret (True, st) else throw ArgOutOfMemory st)))"

definition convert_store :: "arg_env \<Rightarrow> ucb_arg_opt_impl \<Rightarrow> byte list \<Rightarrow> arg_state \<Rightarrow> (bool \<times> arg_state) result" where
  "convert_store ae o' v st =
     (if o_type o' = UCB_ARG_TYPE_NONE then Ret (False, st)
      else if o_type o' = UCB_ARG_TYPE_STR then assign_dest ae o' v st
      else case convert_value (e_float ae) (o_type o') v of
        Some c \<Rightarrow> store_dest o' c st
      | None \<Rightarrow> rbind (cstr_text (o_canon o')) (\<lambda>canon. throw (InvalidValue (type_name (o_type o')) canon v) st))"

section \<open>Defaults\<close>

definition zero_value :: "ucb_arg_type \<Rightarrow> arg_cell option" where
  "zero_value t =
     (case t of
        UCB_ARG_TYPE_BOOL \<Rightarrow> Some (CBool False) | UCB_ARG_TYPE_INT \<Rightarrow> Some (CInt 0)
      | UCB_ARG_TYPE_UINT \<Rightarrow> Some (CUint 0) | UCB_ARG_TYPE_LONG \<Rightarrow> Some (CLong 0)
      | UCB_ARG_TYPE_ULONG \<Rightarrow> Some (CUlong 0) | UCB_ARG_TYPE_LLONG \<Rightarrow> Some (CLlong 0)
      | UCB_ARG_TYPE_ULLONG \<Rightarrow> Some (CUllong 0) | UCB_ARG_TYPE_SIZE \<Rightarrow> Some (CSize 0)
      | UCB_ARG_TYPE_FLOAT \<Rightarrow> Some (CFloat 0) | UCB_ARG_TYPE_DOUBLE \<Rightarrow> Some (CDouble 0)
      | _ \<Rightarrow> None)"

definition zero_dest :: "ucb_arg_opt_impl \<Rightarrow> arg_state \<Rightarrow> arg_state result" where
  "zero_dest o' st =
     (case zero_value (o_type o') of None \<Rightarrow> Ret st | Some c \<Rightarrow> rbind (store_dest o' c st) (\<lambda>(_, st). Ret st))"

text \<open>The default of a flag: \<open>b\<close> unless a default is given, which must be a truth value.\<close>

definition init_flag :: "ucb_arg_opt_impl \<Rightarrow> bool \<Rightarrow> arg_state \<Rightarrow> (bool \<times> arg_state) result" where
  "init_flag o' b st =
     (if o_has_def o' then
        rbind (cstr_text (o_def o')) (\<lambda>d.
        case parse_bool_lit d of
          Some b \<Rightarrow> store_dest o' (CBool b) st
        | None \<Rightarrow> rbind (cstr_text (o_canon o')) (\<lambda>canon. throw (InvalidBoolDefault canon d) st))
      else store_dest o' (CBool b) st)"

definition init_count :: "ucb_arg_opt_impl \<Rightarrow> arg_state \<Rightarrow> (bool \<times> arg_state) result" where
  "init_count o' st =
     (if o_has_def o' then
        rbind (cstr_text (o_def o')) (\<lambda>d.
        case parse_int d of
          Some x \<Rightarrow> store_dest o' (CInt x) st
        | None \<Rightarrow> rbind (cstr_text (o_canon o')) (\<lambda>canon. throw (InvalidCountDefault canon d) st))
      else store_dest o' (CInt 0) st)"

text \<open>\<^verbatim>\<open>ucb_vector_str_clear_deep\<close> of the vector at the destination.\<close>

definition clear_deep_dest :: "ucb_arg_opt_impl \<Rightarrow> arg_state \<Rightarrow> (bool \<times> arg_state) result" where
  "clear_deep_dest o' st =
     rbind (load_vec (a_mem st) (o_dest o')) (\<lambda>ss.
     rbind (free_choices ss) (\<lambda>_. store_dest o' (CVec []) st))"

text \<open>The destination of the option at index \<open>i\<close> gets its default; the option is not seen yet.\<close>

definition set_seen :: "nat \<Rightarrow> bool \<Rightarrow> arg_state \<Rightarrow> arg_state" where
  "set_seen i b st =
     (let p = a_parser st in
      st\<lparr>a_parser := p\<lparr>opts := (opts p)[i := (opts p ! i)\<lparr>o_seen := b\<rparr>]\<rparr>\<rparr>)"

definition init_default :: "arg_env \<Rightarrow> nat \<Rightarrow> arg_state \<Rightarrow> (bool \<times> arg_state) result" where
  "init_default ae i st =
     (let st = set_seen i False st; o' = opts (a_parser st) ! i in
      case o_action o' of
        UCB_ARG_ACTION_STORE \<Rightarrow>
          (if o_type o' = UCB_ARG_TYPE_STR then
             rbind (load_str (a_mem st) (o_dest o')) (\<lambda>s.
             rbind (ucb_str_clear s) (\<lambda>s.
             rbind (store_dest o' (CStr s) st) (\<lambda>(_, st).
             rbind (if o_has_def o' then cstr_text (o_def o') else Ret []) (\<lambda>d.
             assign_dest ae o' d st))))
           else
             rbind (zero_dest o' st) (\<lambda>st.
             if o_has_def o' then rbind (cstr_text (o_def o')) (\<lambda>d. convert_store ae o' d st)
             else Ret (True, st)))
      | UCB_ARG_ACTION_STORE_TRUE \<Rightarrow> init_flag o' False st
      | UCB_ARG_ACTION_STORE_FALSE \<Rightarrow> init_flag o' True st
      | UCB_ARG_ACTION_COUNT \<Rightarrow> init_count o' st
      | UCB_ARG_ACTION_APPEND \<Rightarrow> clear_deep_dest o' st
      | _ \<Rightarrow> Ret (True, st))"

fun init_defaults :: "arg_env \<Rightarrow> nat list \<Rightarrow> arg_state \<Rightarrow> (bool \<times> arg_state) result" where
  "init_defaults ae [] st = Ret (True, st)"
| "init_defaults ae (i # is) st =
     rbind (init_default ae i st) (\<lambda>(ok, st). if \<not> ok then Ret (False, st) else init_defaults ae is st)"

section \<open>Actions\<close>

fun choice_matches :: "ucb_str list \<Rightarrow> byte list \<Rightarrow> bool result" where
  "choice_matches [] v = Ret False"
| "choice_matches (c # cs) v = rbind (cstr_text c) (\<lambda>t. if t = v then Ret True else choice_matches cs v)"

fun quote_choices :: "mem_env \<Rightarrow> ucb_str \<Rightarrow> bool \<Rightarrow> ucb_str list \<Rightarrow> ucb_str result" where
  "quote_choices me out first [] = Ret out"
| "quote_choices me out first (c # cs) =
     rbind (if first then Ret out else append_c me out (lit '', '')) (\<lambda>out.
     rbind (append_c me out [39]) (\<lambda>out.
     rbind (append_s me out c) (\<lambda>out.
     rbind (append_c me out [39]) (\<lambda>out. quote_choices me out False cs))))"

definition check_choices :: "arg_env \<Rightarrow> ucb_arg_opt_impl \<Rightarrow> byte list \<Rightarrow> arg_state \<Rightarrow> (bool \<times> arg_state) result" where
  "check_choices ae o' v st =
     (case o_choices o' of
        None \<Rightarrow> Ret (True, st)
      | Some cs \<Rightarrow>
          if cs = [] then Ret (True, st)
          else rbind (choice_matches cs v) (\<lambda>found.
            if found then Ret (True, st)
            else
              rbind (quote_choices (e_mem ae) str_empty True cs) (\<lambda>l.
              rbind (cstr_text (o_canon o')) (\<lambda>canon.
              rbind (cstr_text l) (\<lambda>lt.
              rbind (ucb_str_release l) (\<lambda>_. throw (InvalidChoice canon v lt) st))))))"

text \<open>A copy of an argument goes to the end of the vector at an address.\<close>

definition push_copy :: "arg_env \<Rightarrow> nat option \<Rightarrow> byte list \<Rightarrow> arg_state \<Rightarrow> (bool \<times> arg_state) result" where
  "push_copy ae d v st =
     rbind (ucb_str_new (e_mem ae) (Some (v @ [0])) 0) (\<lambda>s.
     case s of
       None \<Rightarrow> throw ArgOutOfMemory st
     | Some s \<Rightarrow>
         rbind (load_vec (a_mem st) d) (\<lambda>ss.
         rbind (store_cell (a_mem st) d (CVec (ss @ [s]))) (\<lambda>m. Ret (True, st\<lparr>a_mem := m\<rparr>))))"

definition count_dest :: "ucb_arg_opt_impl \<Rightarrow> arg_state \<Rightarrow> (bool \<times> arg_state) result" where
  "count_dest o' st =
     rbind (load_int (a_mem st) (o_dest o')) (\<lambda>x.
     if x = INT_MAX then Undef else store_dest o' (CInt (x + 1)) st)"

definition print_out ::
    "(byte list \<Rightarrow> (bool \<times> byte list) result) \<Rightarrow> arg_state \<Rightarrow> arg_state result" where
  "print_out pr st = rbind (pr (a_out st)) (\<lambda>(_, out). Ret (st\<lparr>a_out := out\<rparr>))"

text \<open>The end of the actions that store: the option is seen unless the store failed.\<close>

definition seen_if :: "nat \<Rightarrow> (bool \<times> arg_state) result \<Rightarrow> (ucb_arg_status \<times> arg_state) result" where
  "seen_if i r =
     rbind r (\<lambda>(ok, st). Ret (if ok then (UCB_ARG_OK, set_seen i True st) else (UCB_ARG_ERROR, st)))"

definition apply_option ::
    "arg_env \<Rightarrow> nat \<Rightarrow> byte list option \<Rightarrow> arg_state \<Rightarrow> (ucb_arg_status \<times> arg_state) result" where
  "apply_option ae i value st =
     (let o' = opts (a_parser st) ! i in
      case o_action o' of
        UCB_ARG_ACTION_STORE \<Rightarrow>
          (case value of
             None \<Rightarrow> Undef
           | Some v \<Rightarrow> seen_if i (and_then (check_choices ae o' v st) (convert_store ae o' v)))
      | UCB_ARG_ACTION_APPEND \<Rightarrow>
          (case value of
             None \<Rightarrow> Undef
           | Some v \<Rightarrow> seen_if i (and_then (check_choices ae o' v st) (push_copy ae (o_dest o') v)))
      | UCB_ARG_ACTION_STORE_TRUE \<Rightarrow> seen_if i (store_dest o' (CBool True) st)
      | UCB_ARG_ACTION_STORE_FALSE \<Rightarrow> seen_if i (store_dest o' (CBool False) st)
      | UCB_ARG_ACTION_COUNT \<Rightarrow> seen_if i (count_dest o' st)
      | UCB_ARG_ACTION_HELP \<Rightarrow>
          (let st = set_seen i True st in
           rbind (print_out (ucb_arg_parser_print_help (e_mem ae) (e_write ae) (a_parser st)) st) (\<lambda>st.
           Ret (UCB_ARG_HELP, st)))
      | UCB_ARG_ACTION_VERSION \<Rightarrow>
          (let st = set_seen i True st in
           rbind (print_out (ucb_arg_parser_print_version (e_mem ae) (e_write ae) (a_parser st)) st) (\<lambda>st.
           Ret (UCB_ARG_VERSION, st))))"

section \<open>The loop over the arguments\<close>

definition DASH :: byte where "DASH = 45"

definition is_negative_number :: "byte list \<Rightarrow> bool" where
  "is_negative_number arg = (is_digit_char (arg ! 1) \<or> arg ! 1 = 46)"

definition push_positional :: "arg_env \<Rightarrow> nat option \<Rightarrow> byte list \<Rightarrow> arg_state \<Rightarrow> (bool \<times> arg_state) result" where
  "push_positional ae positionals arg st =
     (case positionals of None \<Rightarrow> Ret (True, st) | Some a \<Rightarrow> push_copy ae (Some a) arg st)"

text \<open>The status of a step: go on after \<open>UCB_ARG_OK\<close>, else return.\<close>

definition go_on ::
    "(ucb_arg_status \<times> arg_state) result \<Rightarrow> (arg_state \<Rightarrow> (ucb_arg_status \<times> arg_state) result) \<Rightarrow>
     (ucb_arg_status \<times> arg_state) result" where
  "go_on r k = rbind r (\<lambda>(s, st). if s \<noteq> UCB_ARG_OK then Ret (s, st) else k st)"

definition fail :: "arg_error \<Rightarrow> arg_state \<Rightarrow> (ucb_arg_status \<times> arg_state) result" where
  "fail e st = rbind (throw e st) (\<lambda>(_, st). Ret (UCB_ARG_ERROR, st))"

text \<open>
  A long option \<^verbatim>\<open>--body\<close>; \<open>next\<close> is the argument after it. The first value says whether that argument
  was taken.
\<close>

definition long_option ::
    "arg_env \<Rightarrow> byte list \<Rightarrow> byte list option \<Rightarrow> arg_state \<Rightarrow> (bool \<times> (ucb_arg_status \<times> arg_state)) result" where
  "long_option ae body next st =
     (let name = takeWhile (\<lambda>c. c \<noteq> EQ_SIGN) body; eq = (length name < length body) in
      rbind (find_long (opts (a_parser st)) name) (\<lambda>i.
      case i of
        None \<Rightarrow> rbind (fail (UnrecognizedOption name) st) (\<lambda>r. Ret (False, r))
      | Some i \<Rightarrow>
          let o' = opts (a_parser st) ! i in
          if opt_takes_value o' then
            (if eq then rbind (apply_option ae i (Some (drop (length name + 1) body)) st) (\<lambda>r. Ret (False, r))
             else case next of
               Some v \<Rightarrow> rbind (apply_option ae i (Some v) st) (\<lambda>r. Ret (True, r))
             | None \<Rightarrow>
                 rbind (cstr_text (o_canon o')) (\<lambda>canon.
                 rbind (fail (RequiresArgument canon) st) (\<lambda>r. Ret (False, r))))
          else if eq then
            rbind (cstr_text (o_canon o')) (\<lambda>canon.
            rbind (fail (TakesNoArgument canon) st) (\<lambda>r. Ret (False, r)))
          else rbind (apply_option ae i None st) (\<lambda>r. Ret (False, r))))"

text \<open>The bundle of short options \<^verbatim>\<open>-body\<close>.\<close>

fun short_options ::
    "arg_env \<Rightarrow> byte list \<Rightarrow> byte list option \<Rightarrow> arg_state \<Rightarrow> (bool \<times> (ucb_arg_status \<times> arg_state)) result" where
  "short_options ae [] next st = Ret (False, (UCB_ARG_OK, st))"
| "short_options ae (c # cs) next st =
     (case find_short (opts (a_parser st)) c 0 of
        None \<Rightarrow> rbind (fail (InvalidOption c) st) (\<lambda>r. Ret (False, r))
      | Some i \<Rightarrow>
          let o' = opts (a_parser st) ! i in
          if opt_takes_value o' then
            (if cs \<noteq> [] then rbind (apply_option ae i (Some cs) st) (\<lambda>r. Ret (False, r))
             else case next of
               Some v \<Rightarrow> rbind (apply_option ae i (Some v) st) (\<lambda>r. Ret (True, r))
             | None \<Rightarrow>
                 rbind (cstr_text (o_canon o')) (\<lambda>canon.
                 rbind (fail (RequiresArgument canon) st) (\<lambda>r. Ret (False, r))))
          else rbind (apply_option ae i None st) (\<lambda>(s, st).
            if s \<noteq> UCB_ARG_OK then Ret (False, (s, st)) else short_options ae cs next st))"

definition next_arg :: "byte list list \<Rightarrow> byte list option" where
  "next_arg args = (case args of [] \<Rightarrow> None | a # _ \<Rightarrow> Some a)"

definition is_long :: "byte list \<Rightarrow> bool" where
  "is_long arg = (length arg > 2 \<and> arg ! 0 = DASH \<and> arg ! 1 = DASH)"

definition is_short :: "byte list \<Rightarrow> bool" where
  "is_short arg = (length arg > 1 \<and> arg ! 0 = DASH \<and> arg ! 1 \<noteq> DASH \<and> \<not> is_negative_number arg)"

function parse_args ::
    "arg_env \<Rightarrow> nat option \<Rightarrow> bool \<Rightarrow> byte list list \<Rightarrow> arg_state \<Rightarrow> (ucb_arg_status \<times> arg_state) result" where
  "parse_args ae positionals no_more [] st = Ret (UCB_ARG_OK, st)"
| "parse_args ae positionals no_more (arg # args) st =
     (if \<not> no_more \<and> arg = [DASH, DASH] then parse_args ae positionals True args st
      else if \<not> no_more \<and> is_long arg then
        rbind (long_option ae (drop 2 arg) (next_arg args) st) (\<lambda>(took, r).
        go_on (Ret r) (parse_args ae positionals no_more (if took then tl args else args)))
      else if \<not> no_more \<and> is_short arg then
        rbind (short_options ae (drop 1 arg) (next_arg args) st) (\<lambda>(took, r).
        go_on (Ret r) (parse_args ae positionals no_more (if took then tl args else args)))
      else
        rbind (push_positional ae positionals arg st) (\<lambda>(ok, st).
        if \<not> ok then Ret (UCB_ARG_ERROR, st) else parse_args ae positionals no_more args st))"
  by pat_completeness auto
termination by (relation "measure (\<lambda>(ae, ps, no_more, args, st). length args)") auto

fun check_required :: "ucb_arg_opt_impl list \<Rightarrow> arg_state \<Rightarrow> (ucb_arg_status \<times> arg_state) result" where
  "check_required [] st = Ret (UCB_ARG_OK, st)"
| "check_required (o' # os) st =
     (if o_required o' \<and> \<not> o_seen o'
      then rbind (cstr_text (o_canon o')) (\<lambda>canon. fail (OptionRequired canon) st)
      else check_required os st)"

definition ucb_arg_parser_parse ::
    "arg_env \<Rightarrow> int \<Rightarrow> byte list list \<Rightarrow> nat option \<Rightarrow> arg_state \<Rightarrow> (ucb_arg_status \<times> arg_state) result" where
  "ucb_arg_parser_parse ae argc argv positionals st =
     verify (argc \<ge> 0) UCB_ERROR_INVALID_ARG (
     if nat argc > length argv then Undef
     else
       rbind (init_defaults ae [0..<length (opts (a_parser st))] st) (\<lambda>(ok, st).
       if \<not> ok then Ret (UCB_ARG_ERROR, st)
       else
         go_on (parse_args ae positionals False (drop 1 (take (nat argc) argv)) st) (\<lambda>st.
         check_required (opts (a_parser st)) st)))"

end
