(* ===== verification/Argparse_Spec.thy ===== *)
theory Argparse_Spec
  imports Argparse_Text Path_Text
begin

text \<open>
  What the texts of \<^verbatim>\<open>src/ucb/argparse.c\<close> are, as functions on byte lists, and the proof that the
  functions that build them return these texts and do nothing else, short of running out of memory.
\<close>

section \<open>Appending\<close>

lemma rbind_Ret [simp]: "rbind m Ret = m"
  by (cases m) simp_all

text \<open>A string that is being built: it has no spare room, so that appending to it loses nothing.\<close>

definition holds :: "ucb_str \<Rightarrow> byte list \<Rightarrow> bool" where
  "holds s t \<longleftrightarrow> str_ok s \<and> tight s \<and> str_text s = t"

definition piece :: "byte list \<Rightarrow> bool" where
  "piece t \<longleftrightarrow> valid_text t \<and> length t < PTRDIFF_MAX"

text \<open>A step that appends the text \<open>t\<close> to a string, and does nothing else.\<close>

definition emits :: "(ucb_str \<Rightarrow> ucb_str result) \<Rightarrow> byte list \<Rightarrow> bool" where
  "emits f t \<longleftrightarrow> (\<forall>s a. holds s a \<longrightarrow> succeeds (f s) (\<lambda>s. holds s (a @ t)))"

named_theorems emits_intros \<open>the appended text, step by step\<close>

lemma emitsD: "emits f t \<Longrightarrow> holds s a \<Longrightarrow> succeeds (f s) (\<lambda>s. holds s (a @ t))"
  by (simp add: emits_def)

lemma emits_Ret [emits_intros]: "emits (\<lambda>s. Ret s) []"
  by (simp add: emits_def)

lemma emits_bind [emits_intros]: "emits f t \<Longrightarrow> emits g u \<Longrightarrow> emits (\<lambda>s. rbind (f s) (\<lambda>s. g s)) (t @ u)"
  unfolding emits_def by (auto intro!: succeeds_bind [of "f _"] simp flip: append_assoc)

lemma emits_if [emits_intros]:
  "(b \<Longrightarrow> emits f t) \<Longrightarrow> (\<not> b \<Longrightarrow> emits g u) \<Longrightarrow> emits (\<lambda>s. if b then f s else g s) (if b then t else u)"
  by (cases b) simp_all

lemma emits_eq: "emits f t \<Longrightarrow> t = u \<Longrightarrow> emits f u"
  by simp

lemma holds_empty [simp]: "holds str_empty []"
  by (simp add: holds_def tight_def str_empty_def [THEN arg_cong [of _ _ s_alloc]])

lemma reserve_abort:
  assumes "\<not> fatal_returns me" "str_ok s" "ucb_str_reserve me s n = Abort c" shows "c = UCB_ERROR_OUT_OF_MEMORY"
proof -
  obtain m where m: "mem_of s = Ret m" "s_size s < length m" "s_alloc s > 0 \<Longrightarrow> length m = s_alloc s"
    using assms(2) by (auto elim: str_okE)
  show ?thesis
    using assms(1,3) m
    by (auto simp: ucb_str_reserve_def verify_def Let_def rbind_Abort_iff mem_read_def mem_put_def ucb_malloc_def
        ucb_realloc_def ucb_realloc2_def ucb_fatal_oom_def split: if_splits)
qed

lemma store_end_abort: "str_store_end s t \<noteq> Abort c"
  by (auto simp: str_store_end_def mem_of_def mem_put_def rbind_Abort_iff split: cblock.splits)

lemma emits_append [emits_intros]:
  assumes f: "\<not> fatal_returns me" and t: "src_text mem len t" "valid_text t"
  shows "emits (\<lambda>s. ucb_str_append_cstr me s (CExt mem) len) t"
  unfolding emits_def
proof (intro allI impI)
  fix s a
  assume "holds s a"
  then have s: "str_ok s" "tight s" "str_text s = a" by (simp_all add: holds_def)
  note d = src_textD [OF t(1)]
  have "always (ucb_str_append_cstr me s (CExt mem) len) (\<lambda>s'. holds s' (a @ t))"
    by (rule always_mono [OF append_cstr_spec [OF f s(1) _ _ t(1)]])
      (use s tight_reserves [OF s(2)] in \<open>auto simp: deref_def holds_def split: if_splits\<close>)
  moreover have "c = UCB_ERROR_OUT_OF_MEMORY" if "ucb_str_append_cstr me s (CExt mem) len = Abort c" for c
    using that d(4,6) verify_src_len [OF t(1)] t(2) reserve_abort [OF f s(1)] store_end_abort
    by (auto simp: ucb_str_append_cstr_def deref_def ucb_str_aliases_def rbind_Abort_iff split: if_splits)
  ultimately show "succeeds (ucb_str_append_cstr me s (CExt mem) len) (\<lambda>s'. holds s' (a @ t))"
    by (rule always_succeeds)
qed

lemma emits_c [emits_intros]:
  assumes "\<not> fatal_returns me" "piece t" shows "emits (\<lambda>s. append_c me s t) t"
  unfolding append_c_def
proof (rule emits_append [OF assms(1)])
  have "0 \<notin> set t" "length t < PTRDIFF_MAX" using assms(2) by (simp_all add: piece_def valid_text_def)
  then show "src_text (t @ [0]) (length t) t" using c_strlen_term [of t "[]"] by (auto simp: src_text_def)
  show "valid_text t" using assms(2) by (simp add: piece_def)
qed

lemma emits_s [emits_intros]:
  assumes "\<not> fatal_returns me" "str_ok x" shows "emits (\<lambda>s. append_s me s x) (str_text x)"
proof -
  obtain m where m: "mem_of x = Ret m" "valid_text (str_text x)" using assms(2) by (auto elim: str_okE)
  then show ?thesis using emits_append [OF assms(1) str_src [OF assms(2) m(1)] m(2)]
    by (simp add: append_s_def ucb_str_append_def arg_ptr_def arg_str_def)
qed

lemma emits_n [emits_intros]:
  assumes "\<not> fatal_returns me" "0 < n" "n \<le> length mem" "length mem \<le> PTRDIFF_MAX" "valid_text (take n mem)"
  shows "emits (\<lambda>s. append_n me s mem n) (take n mem)"
  unfolding append_n_def by (rule emits_append [OF assms(1) _ assms(5)]) (use assms in \<open>simp add: src_text_def\<close>)

lemma piece_ascii: "list_all ascii t \<Longrightarrow> length t < PTRDIFF_MAX \<Longrightarrow> piece t"
  unfolding piece_def by (auto intro!: ascii_valid simp: ascii_def list_all_iff unat_gt_0)

text \<open>The literals of the source are ASCII texts.\<close>

lemma piece_lit: "list_all (\<lambda>c. ascii (of_char c)) l \<Longrightarrow> length l < 100 \<Longrightarrow> piece (lit l)"
  by (rule piece_ascii) (simp_all add: lit_def list.pred_map o_def PTRDIFF_MAX_def)

lemma piece_names [simp]: "piece (type_name t)" "piece (action_name a)"
  unfolding type_name_def action_name_def by (cases t; simp add: piece_lit ascii_def) (cases a; simp add: piece_lit ascii_def)

lemma emits_lit [emits_intros]:
  "\<not> fatal_returns me \<Longrightarrow> list_all (\<lambda>c. ascii (of_char c)) l \<Longrightarrow> length l < 100 \<Longrightarrow> emits (\<lambda>s. append_c me s (lit l)) (lit l)"
  by (simp add: emits_c piece_lit)

lemma emits_byte:
  assumes "\<not> fatal_returns me" "ascii c" shows "emits (\<lambda>s. append_n me s [c] 1) [c]"
  using emits_n [OF assms(1), of 1 "[c]"] valid_ascii [OF assms(2)] by (simp add: PTRDIFF_MAX_def)

section \<open>Interpolation\<close>

text \<open>
  The specification of the texts stands on its own: it has its own tables of names, its own upper
  case and its own reading of placeholders, and uses no function of the model; the lemmas after
  each of them say that the code's functions agree.
\<close>

definition upper_letter :: "byte \<Rightarrow> byte" where
  "upper_letter c = (if unat c \<in> {97..122} then of_nat (unat c - 32) else c)"

lemma upper_letter_eq: "upper_letter = upper_char"
proof
  fix c :: byte
  have "of_nat (unat c - 32) = c - 97 + 65" if "97 \<le> unat c"
  proof -
    have "of_nat (unat c - 32) = (of_nat (unat c) :: byte) - of_nat 32" using that by (simp only: of_nat_diff)
    also have "(of_nat (unat c) :: byte) = c" by (simp add: ucast_id)
    finally show ?thesis by simp
  qed
  then show "upper_letter c = upper_char c" by (auto simp: upper_letter_def upper_char_def word_le_nat_alt)
qed

fun type_text :: "ucb_arg_type \<Rightarrow> byte list" where
  "type_text UCB_ARG_TYPE_NONE = lit ''none''"
| "type_text UCB_ARG_TYPE_BOOL = lit ''bool''"
| "type_text UCB_ARG_TYPE_STR = lit ''str''"
| "type_text UCB_ARG_TYPE_INT = lit ''int''"
| "type_text UCB_ARG_TYPE_UINT = lit ''uint''"
| "type_text UCB_ARG_TYPE_LONG = lit ''long''"
| "type_text UCB_ARG_TYPE_ULONG = lit ''ulong''"
| "type_text UCB_ARG_TYPE_LLONG = lit ''llong''"
| "type_text UCB_ARG_TYPE_ULLONG = lit ''ullong''"
| "type_text UCB_ARG_TYPE_SIZE = lit ''size''"
| "type_text UCB_ARG_TYPE_FLOAT = lit ''float''"
| "type_text UCB_ARG_TYPE_DOUBLE = lit ''double''"

lemma type_text_eq: "type_text t = type_name t"
  by (cases t) (simp_all add: type_name_def)

fun action_text :: "ucb_arg_action \<Rightarrow> byte list" where
  "action_text UCB_ARG_ACTION_STORE = lit ''store''"
| "action_text UCB_ARG_ACTION_STORE_TRUE = lit ''store_true''"
| "action_text UCB_ARG_ACTION_STORE_FALSE = lit ''store_false''"
| "action_text UCB_ARG_ACTION_COUNT = lit ''count''"
| "action_text UCB_ARG_ACTION_APPEND = lit ''append''"
| "action_text _ = lit ''unknown''"

lemma action_text_eq: "action_text a = action_name a"
  by (cases a) (simp_all add: action_name_def)

text \<open>Options whose value is shown are those that store or append one.\<close>

definition valued :: "ucb_arg_opt_impl \<Rightarrow> bool" where
  "valued o' \<longleftrightarrow> o_action o' \<in> {UCB_ARG_ACTION_STORE, UCB_ARG_ACTION_APPEND}"

lemma valued_eq: "valued o' = opt_takes_value o'"
  by (simp add: valued_def opt_takes_value_def)

text \<open>The field of a placeholder: what stands between \<open>%(\<close> and the next \<open>)s\<close>.\<close>

fun after_field :: "byte list \<Rightarrow> bool" where
  "after_field (c # d # _) = (c = CLOSE_PAREN \<and> d = 115)"
| "after_field _ = False"

fun placeholder :: "byte list \<Rightarrow> byte list option" where
  "placeholder (_ # c # r) =
     (if c = OPEN_PAREN \<and> after_field (dropWhile (\<lambda>c. c \<noteq> CLOSE_PAREN) r)
      then Some (takeWhile (\<lambda>c. c \<noteq> CLOSE_PAREN) r) else None)"
| "placeholder _ = None"

lemma after_field_iff:
  "after_field (dropWhile (\<lambda>c. c \<noteq> CLOSE_PAREN) r) \<longleftrightarrow>
     (let f = takeWhile (\<lambda>c. c \<noteq> CLOSE_PAREN) r in length f + 1 < length r \<and> r ! (length f + 1) = 115)"
proof (induction r)
  case (Cons c r)
  then show ?case by (cases r) (auto simp: Let_def)
qed simp

lemma placeholder_eq: "placeholder s = paren_field s"
  by (cases s rule: placeholder.cases) (auto simp: paren_field_def after_field_iff Let_def)

definition metavar_text :: "ucb_arg_opt_impl \<Rightarrow> byte list" where
  "metavar_text o' = (if str_text (o_metavar o') \<noteq> [] then str_text (o_metavar o') else map upper_letter (str_text (o_name o')))"

definition default_text :: "ucb_arg_opt_impl \<Rightarrow> byte list" where
  "default_text o' =
     (if o_has_def o' then str_text (o_def o')
      else case o_action o' of
        UCB_ARG_ACTION_STORE_TRUE \<Rightarrow> lit ''false'' | UCB_ARG_ACTION_STORE_FALSE \<Rightarrow> lit ''true''
      | UCB_ARG_ACTION_COUNT \<Rightarrow> lit ''0'' | _ \<Rightarrow> [])"

fun joined_text :: "bool \<Rightarrow> ucb_str list \<Rightarrow> byte list" where
  "joined_text first [] = []"
| "joined_text first (c # cs) = (if first then [] else lit '', '') @ str_text c @ joined_text False cs"

definition verbatim_text :: "byte list \<Rightarrow> byte list" where
  "verbatim_text f = lit ''%('' @ f @ lit '')s''"

definition field_text :: "ucb_arg_parser \<Rightarrow> ucb_arg_opt_impl option \<Rightarrow> byte list \<Rightarrow> byte list" where
  "field_text p opt f =
     (if f = lit ''prog'' then str_text (prog_base p)
      else case opt of
        None \<Rightarrow> verbatim_text f
      | Some o' \<Rightarrow>
          if f = lit ''name'' then str_text (o_name o')
          else if f = lit ''type'' then type_text (o_type o')
          else if f = lit ''metavar'' then metavar_text o'
          else if f = lit ''choices'' then (case o_choices o' of None \<Rightarrow> [] | Some cs \<Rightarrow> joined_text True cs)
          else if f = lit ''default'' then default_text o'
          else if f = lit ''action'' then action_text (o_action o')
          else if f = lit ''short'' then (if o_short o' \<noteq> 0 then lit ''-'' @ [o_short o'] else [])
          else if f = lit ''long'' then (if str_text (o_long o') \<noteq> [] then lit ''--'' @ str_text (o_long o') else [])
          else verbatim_text f)"

text \<open>A text is cut into pieces, each a run without percent signs or one placeholder.\<close>

fun interp_token :: "ucb_arg_parser \<Rightarrow> ucb_arg_opt_impl option \<Rightarrow> byte list \<Rightarrow> nat \<times> byte list" where
  "interp_token p opt s =
     (if hd s \<noteq> PERCENT then (let r = takeWhile (\<lambda>c. c \<noteq> PERCENT) s in (length r, r))
      else if take 2 s = lit ''%%'' then (2, lit ''%'')
      else if take 5 s = lit ''%prog'' then (5, str_text (prog_base p))
      else if take 8 s = lit ''%default'' then (8, case opt of None \<Rightarrow> lit ''%default'' | Some o' \<Rightarrow> default_text o')
      else case placeholder s of
        Some f \<Rightarrow> (length f + 4, field_text p opt f)
      | None \<Rightarrow> (1, lit ''%''))"

lemma interp_token_pos: "s \<noteq> [] \<Longrightarrow> 0 < fst (interp_token p opt s)"
  by (cases s) (auto simp: Let_def split: option.split)

function interp_spec :: "ucb_arg_parser \<Rightarrow> ucb_arg_opt_impl option \<Rightarrow> byte list \<Rightarrow> byte list" where
  "interp_spec p opt s =
     (if s = [] then [] else case interp_token p opt s of (n, t) \<Rightarrow> t @ interp_spec p opt (drop n s))"
  by pat_completeness auto
termination
proof (relation "measure (\<lambda>(p, opt, s). length s)", goal_cases)
  case (2 p opt s n t)
  then have "0 < n" using interp_token_pos [of s p opt] by (metis fst_conv)
  then show ?case using 2 by simp
qed simp

declare interp_spec.simps [simp del] interp_token.simps [simp del]

section \<open>Well-formed parsers\<close>

definition opt_ok :: "ucb_arg_opt_impl \<Rightarrow> bool" where
  "opt_ok o' \<longleftrightarrow> str_ok (o_name o') \<and> str_ok (o_long o') \<and> str_ok (o_canon o') \<and> str_ok (o_def o')
     \<and> str_ok (o_metavar o') \<and> str_ok (o_help o') \<and> (\<forall>cs. o_choices o' = Some cs \<longrightarrow> list_all str_ok cs)
     \<and> (o_short o' \<noteq> 0 \<longrightarrow> ascii (o_short o'))"

definition parser_ok :: "ucb_arg_parser \<Rightarrow> bool" where
  "parser_ok p \<longleftrightarrow> str_ok (prog_base p) \<and> str_ok (usage p) \<and> str_ok (description p) \<and> str_ok (version p)
     \<and> 20 \<le> width p \<and> list_all opt_ok (opts p)"

text \<open>The name stands for the value in the help: it is ASCII, or a metavar is given.\<close>

definition shown_ok :: "ucb_arg_opt_impl \<Rightarrow> bool" where
  "shown_ok o' \<longleftrightarrow> opt_ok o' \<and> (str_text (o_metavar o') \<noteq> [] \<or> list_all ascii (str_text (o_name o')))"

lemma str_content_ok [simp]: "str_ok s \<Longrightarrow> str_content s = Ret (str_text s)"
  by (erule str_okE) (simp add: str_content_def mem_read_def)

lemma str_size_zero: "str_ok s \<Longrightarrow> s_size s = 0 \<longleftrightarrow> str_text s = []"
  by (simp add: str_fits)

section \<open>The texts are built\<close>

lemma upper_ascii: "ascii c \<Longrightarrow> ascii (upper_char c)"
  by (auto simp: upper_char_def ascii_def word_le_nat_alt unat_sub unat_arith_simps)

lemma emits_upper: "\<not> fatal_returns me \<Longrightarrow> list_all ascii t \<Longrightarrow> emits (\<lambda>s. append_upper me s t) (map upper_char t)"
proof (induction t)
  case (Cons c t)
  then show ?case
    using emits_bind [OF emits_byte [OF Cons.prems(1), of "upper_char c"] Cons.IH] by (simp add: upper_ascii)
qed (simp add: emits_Ret)

lemma emits_metavar:
  assumes f: "\<not> fatal_returns me" and ok: "shown_ok o'"
  shows "emits (\<lambda>s. append_metavar me s o') (metavar_text o')"
  using ok emits_s [OF f, of "o_metavar o'"] emits_upper [OF f, of "str_text (o_name o')"]
  by (auto simp: append_metavar_def metavar_text_def upper_letter_eq shown_ok_def opt_ok_def str_size_zero)

lemma str_piece: "str_ok s \<Longrightarrow> piece (str_text s)"
  by (auto simp: piece_def elim!: str_okE)

lemma emits_default:
  assumes f: "\<not> fatal_returns me" and ok: "opt_ok o'"
  shows "emits (\<lambda>s. append_default me s o') (default_text o')"
proof -
  have d: "str_ok (o_def o')" using ok by (simp add: opt_ok_def)
  have l: "emits (\<lambda>s. append_def_or me s o' (lit l)) (if o_has_def o' then str_text (o_def o') else lit l)"
    if "list_all (\<lambda>c. ascii (of_char c)) l" "length l < 100" for l
    using emits_c [OF f str_piece [OF d]] emits_lit [OF f that] by (simp add: append_def_or_def cstr_text_ok [OF d])
  show ?thesis
    using l [of "''false''"] l [of "''true''"] l [of "''0''"] emits_s [OF f d] emits_Ret
    by (cases "o_action o'") (auto simp: append_default_def default_text_def ascii_def split: if_splits)
qed

lemma emits_joined:
  "\<not> fatal_returns me \<Longrightarrow> list_all str_ok cs \<Longrightarrow> emits (\<lambda>s. append_joined me s b cs) (joined_text b cs)"
proof (induction cs arbitrary: b)
  case (Cons c cs)
  have "emits (\<lambda>s. if b then Ret s else append_c me s (lit '', '')) (if b then [] else lit '', '')"
    by (intro emits_intros) (use Cons.prems in \<open>simp_all add: ascii_def\<close>)
  moreover have "emits (\<lambda>s. append_s me s c) (str_text c)" using Cons.prems by (intro emits_s) simp_all
  ultimately show ?case using Cons.IH [of False] Cons.prems by (auto intro: emits_bind)
qed (simp add: emits_Ret)

lemma emits_verbatim:
  assumes f: "\<not> fatal_returns me" and t: "piece t"
  shows "emits (\<lambda>s. append_verbatim me s t) (verbatim_text t)"
proof -
  have "emits (\<lambda>s. if t \<noteq> [] then append_n me s t (length t) else Ret s) t"
    using emits_n [OF f, of "length t" t] t emits_Ret by (cases "t = []") (simp_all add: piece_def)
  then show ?thesis unfolding append_verbatim_def verbatim_text_def
    by (intro emits_bind emits_lit f) (simp_all add: ascii_def)
qed

lemma emits_field:
  assumes f: "\<not> fatal_returns me" and p: "parser_ok p" and o': "pred_option shown_ok opt" and t: "piece t"
  shows "emits (\<lambda>s. append_field me s p opt t) (field_text p opt t)"
proof -
  have pb: "str_ok (prog_base p)" using p by (simp add: parser_ok_def)
  note v = emits_verbatim [OF f t]
  show ?thesis
  proof (cases opt)
    case None
    then show ?thesis using v emits_s [OF f pb] by (simp add: append_field_def field_text_def)
  next
    case (Some o1)
    then have s: "shown_ok o1" "opt_ok o1" using o' by (simp_all add: shown_ok_def)
    have k: "str_ok (o_name o1)" "str_ok (o_long o1)" using s(2) by (simp_all add: opt_ok_def)
    have ch: "emits (\<lambda>s. case o_choices o1 of None \<Rightarrow> Ret s | Some cs \<Rightarrow> append_joined me s True cs)
        (case o_choices o1 of None \<Rightarrow> [] | Some cs \<Rightarrow> joined_text True cs)"
      using s(2) emits_Ret emits_joined [OF f] by (auto simp: opt_ok_def split: option.split)
    have sh: "emits (\<lambda>s. if o_short o1 \<noteq> 0 then rbind (append_c me s (lit ''-'')) (\<lambda>s. append_n me s [o_short o1] 1) else Ret s)
        (if o_short o1 \<noteq> 0 then lit ''-'' @ [o_short o1] else [])"
      using s(2) by (intro emits_if emits_bind emits_lit emits_byte emits_Ret f) (simp_all add: opt_ok_def ascii_def)
    have lo: "emits (\<lambda>s. if s_size (o_long o1) \<noteq> 0 then rbind (append_c me s (lit ''--'')) (\<lambda>s. append_s me s (o_long o1)) else Ret s)
        (if str_text (o_long o1) \<noteq> [] then lit ''--'' @ str_text (o_long o1) else [])"
      unfolding str_size_zero [OF k(2)] by (intro emits_if emits_bind emits_lit emits_s emits_Ret f k) (simp_all add: ascii_def)
    show ?thesis
      unfolding append_field_def field_text_def Some option.case type_text_eq action_text_eq
      by (intro emits_if emits_s f pb k v ch sh lo emits_c piece_names emits_metavar s emits_default)
  qed
qed

lemma paren_field_Some:
  assumes "paren_field s = Some t"
  shows "\<exists>r. s = s ! 0 # OPEN_PAREN # t @ CLOSE_PAREN # 115 # r"
proof -
  let ?f = "takeWhile (\<lambda>c. c \<noteq> CLOSE_PAREN) (drop 2 s)"
  have a: "length s > 1" "s ! 1 = OPEN_PAREN" "t = ?f" "length t + 3 < length s" "s ! (length t + 3) = 115"
    using assms by (auto simp: paren_field_def Let_def numeral_3_eq_3 split: if_splits)
  have s: "s = s ! 0 # s ! 1 # drop 2 s" using a(1) by (cases s; cases "tl s") auto
  have d: "drop 2 s = t @ dropWhile (\<lambda>c. c \<noteq> CLOSE_PAREN) (drop 2 s)" by (simp add: a(3))
  obtain c r where c: "dropWhile (\<lambda>c. c \<noteq> CLOSE_PAREN) (drop 2 s) = c # r" "length (drop 2 s) > length t + 1"
    using a(4) d by (cases "dropWhile (\<lambda>c. c \<noteq> CLOSE_PAREN) (drop 2 s)") (auto dest: arg_cong [of _ _ length])
  have "c = CLOSE_PAREN" using c(1) by (metis (mono_tags, lifting) hd_dropWhile list.sel(1) list.distinct(1))
  moreover obtain e r' where r: "r = e # r'" using c d by (cases r) (auto dest: arg_cong [of _ _ length])
  moreover have "s ! (length t + 3) = e"
  proof -
    have "s ! (length t + 3) = drop 2 s ! (length t + 1)" using a(1) by (simp add: numeral_3_eq_3)
    also have "\<dots> = e" by (subst d) (simp add: c(1) r nth_append)
    finally show ?thesis .
  qed
  ultimately show ?thesis using s d a(2,5) c(1) by metis
qed

lemma take_lit: "take n s = lit l \<Longrightarrow> s = lit l @ drop n s"
  by (metis append_take_drop_id)

lemma valid_lit: "list_all (\<lambda>c. ascii (of_char c)) l \<Longrightarrow> valid_text (lit l @ s) \<longleftrightarrow> valid_text s"
  by (induction l) (simp_all add: lit_def valid_Cons)

lemma ascii_chars [simp]: "ascii PERCENT" "ascii SPACE" "ascii NEWLINE" "ascii OPEN_PAREN" "ascii CLOSE_PAREN" "ascii 115"
  by (simp_all add: ascii_def PERCENT_def SPACE_def NEWLINE_def OPEN_PAREN_def CLOSE_PAREN_def)

lemma valid_run:
  assumes "valid_text s" "\<And>c. \<not> P c \<Longrightarrow> c \<in> set s \<Longrightarrow> ascii c"
  shows "valid_text (takeWhile P s)" "valid_text (dropWhile P s)"
proof -
  let ?k = "length (takeWhile P s)"
  have "?k = length s \<or> ?k < length s \<and> ascii (s ! ?k)"
    using assms(2) nth_length_takeWhile [of P s] length_takeWhile_le [of P s] by (auto simp: le_less)
  from valid_at_cut [OF assms(1) this] show "valid_text (takeWhile P s)" "valid_text (dropWhile P s)"
    by (simp_all add: takeWhile_eq_take [symmetric] dropWhile_eq_drop [symmetric])
qed

text \<open>The text after a token is well formed again.\<close>

lemma token_rest:
  assumes v: "valid_text s" and s: "s \<noteq> []" shows "valid_text (drop (fst (interp_token p opt s)) s)"
proof -
  have run: "valid_text (drop (length (takeWhile (\<lambda>c. c \<noteq> PERCENT) s)) s)"
    using valid_run(2) [OF v, of "\<lambda>c. c \<noteq> PERCENT"] by (simp add: dropWhile_eq_drop)
  have l: "valid_text (drop n s)" if "take n s = lit l" "list_all (\<lambda>c. ascii (of_char c)) l" for n l
    using valid_lit [OF that(2), of "drop n s"] take_lit [OF that(1)] v by simp
  have pf: "valid_text (drop (length t + 4) s)" if "paren_field s = Some t" "hd s = PERCENT" for t
  proof -
    from paren_field_Some [OF that(1)] obtain r where r: "s = s ! 0 # OPEN_PAREN # t @ CLOSE_PAREN # 115 # r" by blast
    have z: "s ! 0 = PERCENT" using that(2) s by (simp add: hd_conv_nth)
    have "valid_text (PERCENT # OPEN_PAREN # t @ CLOSE_PAREN # 115 # r)" using v r unfolding z by metis
    then have "valid_text r" by (simp add: valid_Cons valid_join)
    moreover have "drop (length t + 4) s = r" by (subst r) (simp add: eval_nat_numeral)
    ultimately show ?thesis by simp
  qed
  have one: "valid_text (drop 1 s)" if "hd s = PERCENT"
    using v s that by (cases s) (simp_all add: valid_Cons)
  show ?thesis
    using run l [of 2 "''%%''"] l [of 5 "''%prog''"] l [of 8 "''%default''"] pf one
    by (auto simp: interp_token.simps placeholder_eq Let_def ascii_def split: option.splits)
qed

lemma paren_piece:
  assumes v: "valid_text s" "length s < PTRDIFF_MAX" and t: "paren_field s = Some t" and h: "s ! 0 = PERCENT"
  shows "piece t"
proof -
  from paren_field_Some [OF t] obtain r where r: "s = s ! 0 # OPEN_PAREN # t @ CLOSE_PAREN # 115 # r" by blast
  then have "valid_text (PERCENT # OPEN_PAREN # t @ CLOSE_PAREN # 115 # r)" using v(1) unfolding h by metis
  moreover have "length t < length s" using arg_cong [OF r, of length] by simp
  ultimately show ?thesis using v(2) by (simp add: valid_Cons valid_join piece_def)
qed

lemma percent_two: "s \<noteq> [] \<Longrightarrow> hd s = PERCENT \<Longrightarrow> length s > 1 \<and> s ! 1 = PERCENT \<longleftrightarrow> take 2 s = lit ''%%''"
  by (cases s; cases "tl s") (auto simp: lit_def PERCENT_def numeral_2_eq_2)

lemma interp_loop_percent:
  assumes "s \<noteq> []" "hd s = PERCENT"
  shows "interp_loop me p opt out s =
     (if take 2 s = lit ''%%'' then rbind (append_c me out (lit ''%'')) (\<lambda>out. interp_loop me p opt out (drop 2 s))
      else if take 5 s = lit ''%prog'' then rbind (append_s me out (prog_base p)) (\<lambda>out. interp_loop me p opt out (drop 5 s))
      else if take 8 s = lit ''%default'' then
        rbind (case opt of None \<Rightarrow> append_c me out (lit ''%default'') | Some o' \<Rightarrow> append_default me out o')
          (\<lambda>out. interp_loop me p opt out (drop 8 s))
      else case paren_field s of
        Some f \<Rightarrow> rbind (append_field me out p opt f) (\<lambda>out. interp_loop me p opt out (drop (length f + 4) s))
      | None \<Rightarrow> rbind (append_c me out (lit ''%'')) (\<lambda>out. interp_loop me p opt out (drop 1 s)))"
  by (subst interp_loop.simps) (simp only: assms percent_two [OF assms] simp_thms if_False)

lemma interp_token_percent:
  "hd s = PERCENT \<Longrightarrow> interp_token p opt s =
     (if take 2 s = lit ''%%'' then (2, lit ''%'')
      else if take 5 s = lit ''%prog'' then (5, str_text (prog_base p))
      else if take 8 s = lit ''%default'' then (8, case opt of None \<Rightarrow> lit ''%default'' | Some o' \<Rightarrow> default_text o')
      else case paren_field s of Some f \<Rightarrow> (length f + 4, field_text p opt f) | None \<Rightarrow> (1, lit ''%''))"
  by (simp only: interp_token.simps placeholder_eq simp_thms if_False)

lemma emits_interp:
  assumes f: "\<not> fatal_returns me" and p: "parser_ok p" and o': "pred_option shown_ok opt"
  shows "valid_text s \<Longrightarrow> length s < PTRDIFF_MAX \<Longrightarrow> emits (\<lambda>out. interp_loop me p opt out s) (interp_spec p opt s)"
proof (induction "length s" arbitrary: s rule: less_induct)
  case less
  note v = less.prems
  show ?case
  proof (cases "s = []")
    case True
    then show ?thesis by (simp add: interp_loop.simps interp_spec.simps emits_Ret)
  next
    case s: False
    define n t where "n = fst (interp_token p opt s)" and "t = snd (interp_token p opt s)"
    have tok: "interp_token p opt s = (n, t)" by (simp add: n_def t_def)
    have "0 < n" using interp_token_pos [OF s] by (simp add: n_def)
    then have ih: "emits (\<lambda>out. interp_loop me p opt out (drop n s)) (interp_spec p opt (drop n s))"
      using less.hyps [of "drop n s"] token_rest [OF v(1) s] v(2) s by (simp add: n_def)
    have e: "emits (\<lambda>out. interp_loop me p opt out s) (t @ interp_spec p opt (drop n s))"
      if g: "emits g t" "\<And>out. interp_loop me p opt out s = rbind (g out) (\<lambda>out. interp_loop me p opt out (drop n s))" for g
      unfolding g(2) by (rule emits_bind [OF g(1) ih])
    have pb: "str_ok (prog_base p)" using p by (simp add: parser_ok_def)
    have l: "emits (\<lambda>out. append_c me out (lit ''%'')) (lit ''%'')" "emits (\<lambda>out. append_c me out (lit ''%default'')) (lit ''%default'')"
      using emits_lit [OF f] by (simp_all add: ascii_def)
    have "emits (\<lambda>out. interp_loop me p opt out s) (t @ interp_spec p opt (drop n s))"
    proof (cases "hd s = PERCENT")
      case False
      let ?r = "takeWhile (\<lambda>c. c \<noteq> PERCENT) s"
      have r: "n = length ?r" "t = ?r" "0 < length ?r" "valid_text ?r"
        using tok False s valid_run(1) [OF v(1), of "\<lambda>c. c \<noteq> PERCENT"] by (auto simp: interp_token.simps Let_def) (cases s; simp)
      have "take n (s @ [0]) = t" using r length_takeWhile_le [of "\<lambda>c. c \<noteq> PERCENT" s]
        by (simp add: takeWhile_eq_take [symmetric])
      then have "emits (\<lambda>out. append_n me out (s @ [0]) n) t"
        using emits_n [OF f, of n "s @ [0]"] r v(2) length_takeWhile_le [of "\<lambda>c. c \<noteq> PERCENT" s] by simp
      then show ?thesis by (rule e) (use False s r in \<open>simp add: interp_loop.simps [of _ _ _ _ s] Let_def\<close>)
    next
      case pc: True
      have z: "s ! 0 = PERCENT" using pc s by (simp add: hd_conv_nth)
      note unf = interp_loop_percent [OF s pc] and tk = interp_token_percent [OF pc]
      consider "take 2 s = lit ''%%''" | "take 2 s \<noteq> lit ''%%''" "take 5 s = lit ''%prog''"
        | "take 2 s \<noteq> lit ''%%''" "take 5 s \<noteq> lit ''%prog''" "take 8 s = lit ''%default''"
        | q where "take 2 s \<noteq> lit ''%%''" "take 5 s \<noteq> lit ''%prog''" "take 8 s \<noteq> lit ''%default''" "paren_field s = Some q"
        | "take 2 s \<noteq> lit ''%%''" "take 5 s \<noteq> lit ''%prog''" "take 8 s \<noteq> lit ''%default''" "paren_field s = None"
        by (cases "paren_field s") auto
      then show ?thesis
      proof cases
        case 1
        then have "n = 2" "t = lit ''%''" using tok tk by simp_all
        then show ?thesis using 1 l(1) e unf by simp
      next
        case 2
        then have "n = 5" "t = str_text (prog_base p)" using tok tk by simp_all
        then show ?thesis using 2 emits_s [OF f pb] e unf by simp
      next
        case 3
        then have "n = 8" "t = (case opt of None \<Rightarrow> lit ''%default'' | Some o' \<Rightarrow> default_text o')" using tok tk by simp_all
        moreover have "emits (\<lambda>out. case opt of None \<Rightarrow> append_c me out (lit ''%default'') | Some o' \<Rightarrow> append_default me out o')
            (case opt of None \<Rightarrow> lit ''%default'' | Some o' \<Rightarrow> default_text o')"
          using l(2) emits_default [OF f] o' by (auto simp: shown_ok_def split: option.split)
        ultimately show ?thesis using 3 e unf by simp
      next
        case (4 q)
        then have "n = length q + 4" "t = field_text p opt q" using tok tk by simp_all
        then show ?thesis using 4 emits_field [OF f p o' paren_piece [OF v 4(4) z]] e unf by simp
      next
        case 5
        then have "n = 1" "t = lit ''%''" using tok tk by simp_all
        then show ?thesis using 5 l(1) e unf by simp
      qed
    qed
    then show ?thesis using s tok by (simp add: interp_spec.simps [of p opt s])
  qed
qed

definition makes :: "ucb_str option result \<Rightarrow> byte list \<Rightarrow> bool" where
  "makes r t \<longleftrightarrow> succeeds r (\<lambda>r. \<exists>s. r = Some s \<and> holds s t)"

lemma holds_ok: "holds s t \<Longrightarrow> str_ok s" "holds s t \<Longrightarrow> str_text s = t"
  by (simp_all add: holds_def)

lemma makes_new:
  assumes f: "\<not> fatal_returns me" and e: "emits g t"
  shows "makes (rbind (ucb_str_new me None 0) (\<lambda>out. case out of None \<Rightarrow> Ret None | Some out \<Rightarrow> rbind (g out) (\<lambda>out. Ret (Some out)))) t"
proof -
  have "succeeds (ucb_str_new me None 0) (\<lambda>r. r = Some str_empty)"
    unfolding ucb_str_new_def
    by (rule succeeds_bind [OF succeeds_malloc [OF f]]) (simp_all add: sizeof_ucb_str_def ucb_str_init_common_def)
  moreover have "succeeds (g str_empty) (\<lambda>s. holds s t)" using emitsD [OF e holds_empty] by simp
  ultimately show ?thesis unfolding makes_def
    by (elim succeeds_bind) (auto elim!: succeeds_bind)
qed

lemma makes_interp:
  assumes "\<not> fatal_returns me" "parser_ok p" "pred_option shown_ok opt" "str_ok src"
  shows "makes (interp_text me p opt src) (interp_spec p opt (str_text src))"
proof -
  have "emits (\<lambda>out. rbind (str_content src) (interp_loop me p opt out)) (interp_spec p opt (str_text src))"
    using emits_interp [OF assms(1-3), of "str_text src"] str_piece [OF assms(4)] assms(4) by (simp add: piece_def)
  from makes_new [OF assms(1) this] show ?thesis by (simp add: interp_text_def rbind_assoc cong: option.case_cong)
qed

lemma holds_free: "holds s t \<Longrightarrow> ucb_str_free (Some s) = Ret ()" "holds s t \<Longrightarrow> ucb_str_release s = Ret str_zero"
  using str_release_ok by (auto simp: holds_def)

section \<open>Wrapping\<close>

definition blank :: "byte \<Rightarrow> bool" where
  "blank c \<longleftrightarrow> c = SPACE \<or> c = NEWLINE"

lemma blank_ascii: "blank c \<Longrightarrow> ascii c"
  by (auto simp: blank_def)

lemma valid_drop_spaces: "valid_text xs \<Longrightarrow> valid_text (dropWhile (\<lambda>c. c = SPACE) xs)"
  by (induction xs) (auto simp: valid_Cons)

lemma rest_after_word:
  assumes "p \<noteq> []" "hd p \<noteq> NEWLINE"
  shows "length (dropWhile (\<lambda>c. c = SPACE) (dropWhile (\<lambda>c. \<not> blank c) p)) < length p"
proof -
  have l: "length (dropWhile P xs) \<le> length xs" for P and xs :: "byte list" by (rule length_dropWhile_le)
  obtain c cs where p: "p = c # cs" using assms(1) by (cases p) auto
  show ?thesis
  proof (cases "c = SPACE")
    case True
    then show ?thesis using l [of "\<lambda>c. c = SPACE" cs] by (simp add: p blank_def le_imp_less_Suc)
  next
    case False
    then have "dropWhile (\<lambda>c. \<not> blank c) p = dropWhile (\<lambda>c. \<not> blank c) cs" using assms(2) by (simp add: p blank_def)
    then show ?thesis
      using l [of "\<lambda>c. c = SPACE" "dropWhile (\<lambda>c. \<not> blank c) cs"] l [of "\<lambda>c. \<not> blank c" cs] by (simp add: p)
  qed
qed

text \<open>The word at the front goes to the line, or to a new one when it does not fit.\<close>

function wrap_spec :: "nat \<Rightarrow> nat \<Rightarrow> nat \<Rightarrow> byte list \<Rightarrow> byte list" where
  "wrap_spec indent w col p =
     (if p = [] then []
      else if hd p = NEWLINE then NEWLINE # replicate indent SPACE @ wrap_spec indent w indent (tl p)
      else
        (let word = takeWhile (\<lambda>c. \<not> blank c) p;
             rest = dropWhile (\<lambda>c. c = SPACE) (dropWhile (\<lambda>c. \<not> blank c) p) in
         if col \<le> indent then word @ wrap_spec indent w (col + length word) rest
         else if col + 1 + length word > w then
           NEWLINE # replicate indent SPACE @ word @ wrap_spec indent w (indent + length word) rest
         else SPACE # word @ wrap_spec indent w (col + 1 + length word) rest))"
  by pat_completeness auto
termination by (relation "measure (\<lambda>(indent, w, col, p). length p)") (auto simp: rest_after_word)

declare wrap_spec.simps [simp del]

lemma emits_indent: "\<not> fatal_returns me \<Longrightarrow> emits (\<lambda>s. append_indent me s n) (replicate n SPACE)"
proof (induction n)
  case (Suc n)
  have "lit '' '' = [SPACE]" by (simp add: lit_def SPACE_def)
  then show ?case using emits_bind [OF emits_lit [OF Suc.prems, of "'' ''"] Suc.IH [OF Suc.prems]] by (simp add: ascii_def)
qed (simp add: emits_Ret)

lemma piece_newline: "piece [NEWLINE]"
  by (rule piece_ascii) (simp_all add: PTRDIFF_MAX_def)

lemma emits_word:
  assumes f: "\<not> fatal_returns me" and v: "valid_text p" "length p < PTRDIFF_MAX"
  defines "word \<equiv> takeWhile (\<lambda>c. \<not> blank c) p"
  shows "emits (\<lambda>out. if length word \<noteq> 0 then append_n me out (p @ [0]) (length word) else Ret out) word"
proof (cases "word = []")
  case False
  have "valid_text word" unfolding word_def by (rule valid_run(1) [OF v(1)]) (simp add: blank_ascii)
  moreover have "length word \<le> length p" "take (length word) (p @ [0]) = word"
    using length_takeWhile_le [of "\<lambda>c. \<not> blank c" p] by (simp_all add: word_def takeWhile_eq_take [symmetric])
  ultimately show ?thesis using emits_n [OF f, of "length word" "p @ [0]"] False v(2) by simp
qed (simp add: emits_Ret)

lemma emits_wrap:
  assumes f: "\<not> fatal_returns me"
  shows "valid_text p \<Longrightarrow> length p < PTRDIFF_MAX \<Longrightarrow> emits (\<lambda>out. wrap_loop me out indent w col p) (wrap_spec indent w col p)"
proof (induction "length p" arbitrary: p col rule: less_induct)
  case less
  note v = less.prems
  have nl: "emits (\<lambda>s. rbind (append_c me s [NEWLINE]) (\<lambda>s. append_indent me s indent)) (NEWLINE # replicate indent SPACE)"
    using emits_bind [OF emits_c [OF f piece_newline] emits_indent [OF f, of indent]] by simp
  consider "p = []" | "p \<noteq> []" "hd p = NEWLINE" | "p \<noteq> []" "hd p \<noteq> NEWLINE" by blast
  then show ?case
  proof cases
    case 1
    then show ?thesis by (simp add: wrap_loop.simps wrap_spec.simps emits_Ret)
  next
    case 2
    have "valid_text (tl p)" using v(1) 2 by (cases p) (simp_all add: valid_Cons)
    then have "emits (\<lambda>out. wrap_loop me out indent w indent (tl p)) (wrap_spec indent w indent (tl p))"
      using less.hyps [of "tl p" indent] v(2) 2 by (simp add: length_greater_0_conv)
    from emits_bind [OF nl this] show ?thesis
      using 2 by (simp add: wrap_loop.simps [of _ _ _ _ _ p] wrap_spec.simps [of _ _ _ p] rbind_assoc)
  next
    case 3
    let ?word = "takeWhile (\<lambda>c. \<not> blank c) p"
    let ?rest = "dropWhile (\<lambda>c. c = SPACE) (dropWhile (\<lambda>c. \<not> blank c) p)"
    have b: "(\<lambda>c. c \<noteq> SPACE \<and> c \<noteq> NEWLINE) = (\<lambda>c. \<not> blank c)" by (auto simp: blank_def)
    have d: "drop (length ?word) p = dropWhile (\<lambda>c. \<not> blank c) p" by (simp add: dropWhile_eq_drop)
    have vr: "valid_text ?rest"
      by (intro valid_drop_spaces valid_run(2) [OF v(1)]) (simp add: blank_ascii)
    have ih: "emits (\<lambda>out. wrap_loop me out indent w col ?rest) (wrap_spec indent w col ?rest)" for col
      using less.hyps [OF rest_after_word [OF 3] vr] rest_after_word [OF 3] v(2) by simp
    have step: "emits (\<lambda>out. rbind (if length ?word \<noteq> 0 then append_n me out (p @ [0]) (length ?word) else Ret out)
        (\<lambda>out. wrap_loop me out indent w col ?rest)) (?word @ wrap_spec indent w col ?rest)" for col
      by (rule emits_bind [OF emits_word [OF f v] ih])
    have sp: "emits (\<lambda>out. append_c me out (lit '' '')) [SPACE]"
      using emits_lit [OF f, of "'' ''"] by (simp add: ascii_def lit_def SPACE_def)
    note unf = wrap_loop.simps [of me _ indent w col p] wrap_spec.simps [of indent w col p]
    consider "col \<le> indent" | "col > indent" "col + 1 + length ?word > w" | "col > indent" "\<not> col + 1 + length ?word > w" by linarith
    then show ?thesis
    proof cases
      case 1
      then show ?thesis using step [of "col + length ?word"] 3 by (simp add: unf Let_def b d)
    next
      case 2
      then show ?thesis using emits_bind [OF nl step [of "indent + length ?word"]] 3 by (simp add: unf Let_def b d rbind_assoc)
    next
      case c: 3
      then show ?thesis using emits_bind [OF sp step [of "col + 1 + length ?word"]] 3 by (simp add: unf Let_def b d rbind_assoc)
    qed
  qed
qed

lemma emits_wrapped:
  assumes f: "\<not> fatal_returns me" and t: "piece t"
  shows "emits (\<lambda>out. append_wrapped me out t indent w) (wrap_spec indent w indent t @ [NEWLINE])"
  unfolding append_wrapped_def by (intro emits_bind emits_wrap emits_c piece_newline f) (use t in \<open>simp_all add: piece_def\<close>)

section \<open>Help\<close>

definition left_text :: "ucb_arg_opt_impl \<Rightarrow> byte list" where
  "left_text o' =
     (if o_short o' \<noteq> 0 then lit ''-'' @ [o_short o'] else lit ''    '') @
     (if str_text (o_long o') \<noteq> []
      then (if o_short o' \<noteq> 0 then lit '', '' else []) @ lit ''--'' @ str_text (o_long o') @
           (if valued o' then lit ''='' @ metavar_text o' else [])
      else if valued o' then lit '' '' @ metavar_text o' else [])"

definition usage_text :: "ucb_arg_parser \<Rightarrow> byte list" where
  "usage_text p =
     lit ''Usage: '' @
     (if str_text (usage p) \<noteq> [] then interp_spec p None (str_text (usage p))
      else str_text (prog_base p) @ lit '' [options]'') @ [NEWLINE]"

definition mentions_default :: "byte list \<Rightarrow> bool" where
  "mentions_default t \<longleftrightarrow> (\<exists>a b. t = a @ lit ''%default'' @ b) \<or> (\<exists>a b. t = a @ lit ''%(default)'' @ b)"

lemma contains_iff: "contains u t \<longleftrightarrow> (\<exists>a b. t = a @ u @ b)"
proof (induction t)
  case (Cons c t)
  have "take (length u) (c # t) = u \<longleftrightarrow> (\<exists>b. c # t = u @ b)"
    by (metis append_eq_conv_conj)
  then show ?case using Cons by (auto simp: Cons_eq_append_conv)
qed auto

definition option_help_text :: "ucb_arg_parser \<Rightarrow> ucb_arg_opt_impl \<Rightarrow> byte list" where
  "option_help_text p o' =
     interp_spec p (Some o') (str_text (o_help o')) @
     (if o_has_def o' \<and> valued o' \<and> \<not> mentions_default (str_text (o_help o'))
      then lit '' (default: '' @ default_text o' @ lit '')'' else [])"

definition option_text :: "ucb_arg_parser \<Rightarrow> nat \<Rightarrow> nat \<Rightarrow> ucb_arg_opt_impl \<Rightarrow> byte list" where
  "option_text p dc w o' =
     (let left = left_text o' in
      left @ (if length left + 2 > dc then NEWLINE # replicate dc SPACE else replicate (dc - length left) SPACE) @
      wrap_spec dc w dc (option_help_text p o') @ [NEWLINE])"

definition description_text :: "ucb_arg_parser \<Rightarrow> byte list" where
  "description_text p =
     (if str_text (description p) \<noteq> []
      then wrap_spec 0 (nat (width p)) 0 (interp_spec p None (str_text (description p))) @ [NEWLINE, NEWLINE]
      else [])"

text \<open>
  The descriptions start two columns behind the longest left part, but leave them 20 columns of
  the width when it has that many.
\<close>

definition help_column :: "nat \<Rightarrow> nat list \<Rightarrow> nat" where
  "help_column w lens = min (Max (insert 0 (set lens)) + 2) (max 1 (w - 20))"

lemma help_column_eq: "desc_column w lens = help_column w lens"
proof -
  have "foldl (\<lambda>m n. if n > m then n else m) k lens = Max (insert k (set lens))" for k
  proof (induction lens arbitrary: k)
    case (Cons n lens)
    have "Max (insert (max k n) (set lens)) = Max (insert k (insert n (set lens)))"
      by (cases "lens = []") (simp_all add: max.assoc)
    then show ?case by (simp add: Cons max_def split: if_splits)
  qed simp
  then show ?thesis by (auto simp: desc_column_def help_column_def Let_def min_def max_def)
qed

definition help_text :: "ucb_arg_parser \<Rightarrow> byte list" where
  "help_text p =
     (let w = nat (width p); dc = help_column w (map (length \<circ> left_text) (opts p)) in
      usage_text p @ [NEWLINE] @ description_text p @ lit ''Options:'' @ [NEWLINE] @
      concat (map (option_text p dc w) (opts p)))"

definition version_text :: "ucb_arg_parser \<Rightarrow> byte list" where
  "version_text p =
     str_text (prog_base p) @ lit '' version'' @
     (if str_text (version p) \<noteq> [] then lit '' '' @ interp_spec p None (str_text (version p)) else []) @ [NEWLINE]"

definition error_text :: "ucb_arg_parser \<Rightarrow> byte list \<Rightarrow> byte list" where
  "error_text p m = usage_text p @ str_text (prog_base p) @ lit '': error: '' @ m @ [NEWLINE]"

lemma parser_okD:
  assumes "parser_ok p"
  shows "str_ok (prog_base p)" "str_ok (usage p)" "str_ok (description p)" "str_ok (version p)" "20 \<le> width p"
  using assms by (auto simp: parser_ok_def)

lemma emits_left:
  assumes f: "\<not> fatal_returns me" and s: "shown_ok o'"
  shows "emits (\<lambda>out. format_left me out o') (left_text o')"
proof -
  have l: "str_ok (o_long o')" "o_short o' \<noteq> 0 \<Longrightarrow> ascii (o_short o')" using s by (auto simp: shown_ok_def opt_ok_def)
  show ?thesis
    unfolding format_left_def left_text_def valued_eq Let_def str_size_zero [OF l(1)] str_fits [OF l(1)] length_greater_0_conv
    by (intro emits_bind emits_if emits_lit emits_byte emits_s emits_metavar emits_Ret f l s) (simp_all add: ascii_def)
qed

lemma emits_interp_text:
  assumes "\<not> fatal_returns me" "parser_ok p" "str_ok src"
  shows "emits (\<lambda>out. append_interp me out p src) (interp_spec p None (str_text src))"
  unfolding emits_def
proof (intro allI impI)
  fix s a
  assume s: "holds s a"
  show "succeeds (append_interp me s p src) (\<lambda>s. holds s (a @ interp_spec p None (str_text src)))"
    unfolding append_interp_def
  proof (rule succeeds_bind [OF makes_interp [OF assms(1,2) _ assms(3), unfolded makes_def, of None]], simp)
    fix r
    assume "\<exists>s. r = Some s \<and> holds s (interp_spec p None (str_text src))"
    then obtain t where t: "r = Some t" "holds t (interp_spec p None (str_text src))" by blast
    show "succeeds (case r of None \<Rightarrow> Ret s | Some t \<Rightarrow> rbind (append_s me s t) (\<lambda>out. rbind (ucb_str_free (Some t)) (\<lambda>_. Ret out)))
        (\<lambda>s. holds s (a @ interp_spec p None (str_text src)))"
      using emitsD [OF emits_s [OF assms(1) holds_ok(1) [OF t(2)]] s] t by (simp add: holds_free holds_ok(2))
  qed
qed

lemma emits_usage:
  assumes f: "\<not> fatal_returns me" and p: "parser_ok p"
  shows "emits (\<lambda>out. append_usage_line me out p) (usage_text p)"
  unfolding append_usage_line_def usage_text_def str_size_zero [OF parser_okD(2) [OF p]]
  by (intro emits_bind emits_if emits_lit emits_s emits_interp_text emits_c piece_newline parser_okD [OF p] p f)
    (simp_all add: ascii_def)

lemma makes_option_help:
  assumes f: "\<not> fatal_returns me" and p: "parser_ok p" and s: "shown_ok o'"
  shows "makes (option_help me p o') (option_help_text p o')"
proof -
  have h: "str_ok (o_help o')" "opt_ok o'" using s by (auto simp: shown_ok_def opt_ok_def)
  let ?t = "interp_spec p (Some o') (str_text (o_help o'))"
  have raw: "(if s_size (o_help o') \<noteq> 0 then cstr_text (o_help o') else Ret []) = Ret (str_text (o_help o'))"
    using h(1) by (simp add: cstr_text_ok str_size_zero)
  have g: "emits (\<lambda>t. rbind (append_c me t (lit '' (default: '')) (\<lambda>t. rbind (append_default me t o') (\<lambda>t. append_c me t (lit '')''))))
      (lit '' (default: '' @ default_text o' @ lit '')'')"
    by (intro emits_bind emits_lit emits_default f h) (simp_all add: ascii_def)
  show ?thesis
    unfolding makes_def option_help_def raw rbind.simps
  proof (rule succeeds_bind [OF makes_interp [OF f p _ h(1), unfolded makes_def, of "Some o'"]], use s in simp, clarify)
    fix t
    assume "holds t ?t"
    then show "succeeds (case Some t of None \<Rightarrow> Ret None | Some help \<Rightarrow>
        if o_has_def o' \<and> opt_takes_value o' then
          if \<not> contains (lit ''%default'') (str_text (o_help o')) \<and> \<not> contains (lit ''%(default)'') (str_text (o_help o')) then
            rbind (append_c me help (lit '' (default: '')) (\<lambda>help. rbind (append_default me help o') (\<lambda>help.
            rbind (append_c me help (lit '')'')) (\<lambda>help. Ret (Some help))))
          else Ret (Some help)
        else Ret (Some help)) (\<lambda>r. \<exists>s. r = Some s \<and> holds s (option_help_text p o'))"
      using emitsD [OF g, of t ?t] by (auto simp: option_help_text_def mentions_default_def valued_eq contains_iff succeeds_rbind)
  qed
qed

lemma format_lefts_ok:
  "\<not> fatal_returns me \<Longrightarrow> list_all shown_ok os \<Longrightarrow>
   succeeds (format_lefts me os) (list_all2 (\<lambda>o' l. holds l (left_text o')) os)"
proof (induction os)
  case (Cons o' os)
  have "succeeds (format_left me str_empty o') (\<lambda>l. holds l (left_text o'))"
    using emitsD [OF emits_left [OF Cons.prems(1)] holds_empty, of o'] Cons.prems(2) by simp
  then show ?case using Cons by (auto intro!: succeeds_bind)
qed simp

lemma emits_gap:
  assumes f: "\<not> fatal_returns me" and l: "holds l left"
  shows "emits (\<lambda>out. if s_size l + 2 > dc then rbind (append_c me out [NEWLINE]) (\<lambda>out. append_indent me out dc)
      else append_indent me out (dc - s_size l))
    (if length left + 2 > dc then NEWLINE # replicate dc SPACE else replicate (dc - length left) SPACE)"
  using emits_bind [OF emits_c [OF f piece_newline] emits_indent [OF f, of dc]] emits_indent [OF f]
    str_fits [OF holds_ok(1) [OF l]] holds_ok(2) [OF l] by simp

lemma append_options_ok:
  assumes f: "\<not> fatal_returns me" and p: "parser_ok p"
  shows "list_all shown_ok os \<Longrightarrow> list_all2 (\<lambda>o' l. holds l (left_text o')) os ls \<Longrightarrow> holds out a \<Longrightarrow>
    makes (append_options me p dc w out (zip ls os)) (a @ concat (map (option_text p dc w) os))"
proof (induction os arbitrary: ls out a)
  case Nil
  then show ?case by (simp add: makes_def)
next
  case (Cons o' os)
  then obtain l ls' where l: "ls = l # ls'" "holds l (left_text o')" "list_all2 (\<lambda>o' l. holds l (left_text o')) os ls'"
    by (auto simp: list_all2_Cons1)
  have s: "shown_ok o'" using Cons.prems by simp
  have "emits (\<lambda>out. rbind (append_s me out l) (\<lambda>out. rbind
        (if s_size l + 2 > dc then rbind (append_c me out [NEWLINE]) (\<lambda>out. append_indent me out dc)
         else append_indent me out (dc - s_size l)) (\<lambda>out. append_wrapped me out (option_help_text p o') dc w)))
      (option_text p dc w o')" if "piece (option_help_text p o')"
    unfolding option_text_def Let_def
    by (rule emits_bind [OF emits_s [OF f holds_ok(1) [OF l(2)]]
        emits_bind [OF emits_gap [OF f l(2)] emits_wrapped [OF f that]], unfolded holds_ok(2) [OF l(2)]])
  note e = this
  show ?case
    unfolding l(1) zip_Cons_Cons append_options.simps makes_def
  proof (rule succeeds_bind [OF makes_option_help [OF f p s, unfolded makes_def]], clarify)
    fix h
    assume h: "holds h (option_help_text p o')"
    have pc: "piece (option_help_text p o')" using str_piece [OF holds_ok(1) [OF h]] holds_ok(2) [OF h] by simp
    note w' = emitsD [OF e [OF pc] Cons.prems(3)]
    have ct: "cstr_text h = Ret (option_help_text p o')" using cstr_text_ok [OF holds_ok(1) [OF h]] holds_ok(2) [OF h] by simp
    have ih: "succeeds (append_options me p dc w out' (zip ls' os))
        (\<lambda>r. \<exists>s. r = Some s \<and> holds s (a @ concat (map (option_text p dc w) (o' # os))))"
      if "holds out' (a @ option_text p dc w o')" for out'
      using Cons.IH [OF _ l(3) that] Cons.prems(1) by (simp add: makes_def)
    show "succeeds (case Some h of None \<Rightarrow> Ret None | Some help \<Rightarrow>
         rbind (append_s me out l) (\<lambda>out.
         rbind (if s_size l + 2 > dc
                then rbind (append_c me out [NEWLINE]) (\<lambda>out. append_indent me out dc)
                else append_indent me out (dc - s_size l)) (\<lambda>out.
         rbind (cstr_text help) (\<lambda>t.
         rbind (append_wrapped me out t dc w) (\<lambda>out.
         rbind (ucb_str_free (Some help)) (\<lambda>_.
         append_options me p dc w out (zip ls' os))))))) (\<lambda>r. \<exists>s. r = Some s \<and> holds s (a @ concat (map (option_text p dc w) (o' # os))))"
      using succeeds_bind [OF w' ih] by (simp add: ct holds_free [OF h] rbind_assoc del: concat.simps list.map)
  qed
qed

lemma makesD: "makes r t \<Longrightarrow> (\<And>s. holds s t \<Longrightarrow> succeeds (k (Some s)) P) \<Longrightarrow> succeeds (rbind r k) P"
  unfolding makes_def by (erule succeeds_bind) auto

lemma emits_description:
  assumes f: "\<not> fatal_returns me" and p: "parser_ok p"
  shows "emits (\<lambda>out. append_description me out p) (description_text p)"
  unfolding append_description_def description_text_def str_size_zero [OF parser_okD(3) [OF p]]
proof (rule emits_if [OF _ emits_Ret], unfold emits_def, intro allI impI)
  fix s a
  assume s: "holds s a"
  show "succeeds (rbind (interp_text me p None (description p)) (\<lambda>t.
        rbind (case t of
                 None \<Rightarrow> Ret s
               | Some t \<Rightarrow>
                   rbind (cstr_text t) (\<lambda>tx.
                   rbind (append_wrapped me s tx 0 (nat (width p))) (\<lambda>out.
                   rbind (ucb_str_free (Some t)) (\<lambda>_. Ret out)))) (\<lambda>out.
        append_c me out [NEWLINE])))
      (\<lambda>s. holds s (a @ wrap_spec 0 (nat (width p)) 0 (interp_spec p None (str_text (description p))) @ [NEWLINE, NEWLINE]))"
    (is "succeeds (rbind _ ?k) (\<lambda>s. holds s (a @ wrap_spec 0 _ 0 ?d @ _))")
  proof (rule makesD [OF makes_interp [OF f p _ parser_okD(3) [OF p]]], simp)
    fix t
    assume t: "holds t ?d"
    have pc: "piece ?d" using str_piece [OF holds_ok(1) [OF t]] holds_ok(2) [OF t] by simp
    have ct: "cstr_text t = Ret ?d" using cstr_text_ok [OF holds_ok(1) [OF t]] holds_ok(2) [OF t] by simp
    show "succeeds (?k (Some t)) (\<lambda>s. holds s (a @ wrap_spec 0 (nat (width p)) 0 ?d @ [NEWLINE, NEWLINE]))"
      using emitsD [OF emits_bind [OF emits_wrapped [OF f pc, of 0 "nat (width p)"] emits_c [OF f piece_newline]] s]
      by (simp add: ct holds_free [OF t])
  qed
qed

lemma release_all_ok: "list_all2 (\<lambda>o' l. holds l (t o')) os ls \<Longrightarrow> release_all ls = Ret ()"
  by (induction os arbitrary: ls) (auto simp: list_all2_Cons1 holds_free)

lemma help_options_ok:
  assumes f: "\<not> fatal_returns me" and p: "parser_ok p" and sh: "list_all shown_ok (opts p)" and out: "holds out a"
  shows "makes (help_options me p out)
    (a @ concat (map (option_text p (help_column (nat (width p)) (map (length \<circ> left_text) (opts p))) (nat (width p))) (opts p)))"
proof (cases "opts p = []")
  case True
  then show ?thesis using out by (simp add: help_options_def makes_def)
next
  case False
  have c: "succeeds (ucb_calloc me (length (opts p)) sizeof_help_entry) (\<lambda>ok. ok)"
    using False f by (simp add: ucb_calloc_def ucb_fatal_oom_def sizeof_help_entry_def)
  have sz: "map s_size ls = map (length \<circ> left_text) os" if "list_all2 (\<lambda>o' l. holds l (left_text o')) os ls" for os ls
    using that by (induction os arbitrary: ls) (auto simp: list_all2_Cons1 holds_def str_fits)
  show ?thesis
    unfolding makes_def help_options_def if_not_P [OF False]
  proof (rule succeeds_bind [OF c], simp only: simp_thms if_False, rule succeeds_bind [OF format_lefts_ok [OF f sh]])
    fix ls
    assume l: "list_all2 (\<lambda>o' l. holds l (left_text o')) (opts p) ls"
    show "succeeds (let w = nat (width p); desc_col = desc_column w (map s_size ls) in
          rbind (append_options me p desc_col w out (zip ls (opts p))) (\<lambda>r.
          rbind (release_all ls) (\<lambda>_. Ret r)))
        (\<lambda>r. \<exists>s. r = Some s \<and> holds s (a @
          concat (map (option_text p (help_column (nat (width p)) (map (length \<circ> left_text) (opts p))) (nat (width p))) (opts p))))"
      unfolding Let_def sz [OF l] help_column_eq
      by (rule makesD [OF append_options_ok [OF f p sh l out]]) (simp add: release_all_ok [OF l])
  qed
qed

lemma makes_help:
  assumes f: "\<not> fatal_returns me" and p: "parser_ok p" and sh: "list_all shown_ok (opts p)"
  shows "makes (build_help me p) (help_text p)"
proof -
  let ?head = "\<lambda>out. rbind (append_usage_line me out p) (\<lambda>out. rbind (append_c me out [NEWLINE]) (\<lambda>out.
      rbind (append_description me out p) (\<lambda>out. append_c me out (lit ''Options:'' @ [NEWLINE]))))"
  let ?h = "usage_text p @ [NEWLINE] @ description_text p @ lit ''Options:'' @ [NEWLINE]"
  have pc: "piece (lit ''Options:'' @ [NEWLINE])" by (rule piece_ascii) (simp_all add: lit_def ascii_def PTRDIFF_MAX_def NEWLINE_def)
  have head: "emits ?head ?h"
    by (rule emits_bind [OF emits_usage [OF f p] emits_bind [OF emits_c [OF f piece_newline]
        emits_bind [OF emits_description [OF f p] emits_c [OF f pc]]]])
  have eq: "build_help me p = rbind (rbind (ucb_str_new me None 0) (\<lambda>out. case out of None \<Rightarrow> Ret None
      | Some out \<Rightarrow> rbind (?head out) (\<lambda>out. Ret (Some out))))
      (\<lambda>out. case out of None \<Rightarrow> Ret None | Some out \<Rightarrow> help_options me p out)"
    unfolding build_help_def rbind_assoc by (rule arg_cong [of _ _ "rbind _"]) (auto simp: rbind_assoc split: option.split)
  have "makes (help_options me p s) (help_text p)" if "holds s ?h" for s
    using help_options_ok [OF f p sh that] by (simp add: help_text_def Let_def)
  then show ?thesis
    unfolding eq makes_def by (intro makesD [OF makes_new [OF f head]]) (simp add: makes_def)
qed

lemma makes_usage: "\<not> fatal_returns me \<Longrightarrow> parser_ok p \<Longrightarrow> makes (ucb_arg_parser_usage_str me p) (usage_text p)"
  unfolding ucb_arg_parser_usage_str_def by (rule makes_new [OF _ emits_usage])

lemma makes_version:
  assumes f: "\<not> fatal_returns me" and p: "parser_ok p"
  shows "makes (ucb_arg_parser_version_str me p) (version_text p)"
proof -
  have "emits (\<lambda>out. rbind (append_s me out (prog_base p)) (\<lambda>out. rbind (append_c me out (lit '' version'')) (\<lambda>out.
      rbind (if s_size (version p) \<noteq> 0 then rbind (append_c me out (lit '' '')) (\<lambda>out. append_interp me out p (version p)) else Ret out)
      (\<lambda>out. append_c me out [NEWLINE])))) (version_text p)"
    unfolding version_text_def str_size_zero [OF parser_okD(4) [OF p]]
    by (intro emits_bind emits_if emits_lit emits_s emits_interp_text emits_c piece_newline parser_okD [OF p] p f emits_Ret)
      (simp_all add: ascii_def)
  from makes_new [OF f this] show ?thesis by (simp add: ucb_arg_parser_version_str_def rbind_assoc cong: option.case_cong)
qed

lemma makes_error:
  assumes f: "\<not> fatal_returns me" and p: "parser_ok p" and m: "piece m"
  shows "makes (error_str me p (Some m)) (error_text p m)"
proof -
  have "emits (\<lambda>out. rbind (append_usage_line me out p) (\<lambda>out. rbind (append_s me out (prog_base p)) (\<lambda>out.
      rbind (append_c me out (lit '': error: '')) (\<lambda>out. rbind (append_c me out m) (\<lambda>out. append_c me out [NEWLINE])))))
      (error_text p m)"
    unfolding error_text_def
    by (intro emits_bind emits_lit emits_s emits_usage emits_c piece_newline m parser_okD [OF p] p f) (simp_all add: ascii_def)
  from makes_new [OF f this] show ?thesis by (simp add: error_str_def rbind_assoc cong: option.case_cong)
qed

end
