(* ===== verification/Argparse_Scan.thy ===== *)
theory Argparse_Scan
  imports Argparse Argparse_Spec
begin

text \<open>
  The syntax of a command line apart from its effects: the arguments are turned into a list of
  events, which depends on the declared names only, and parsing is running these events one after
  the other. The equivalences between spellings of the same options follow.
\<close>

section \<open>Lookup\<close>

definition unseen :: "ucb_arg_opt_impl \<Rightarrow> ucb_arg_opt_impl" where
  "unseen o' = o'\<lparr>o_seen := False\<rparr>"

lemma unseen_simps [simp]:
  "o_name (unseen o') = o_name o'" "o_short (unseen o') = o_short o'" "o_long (unseen o') = o_long o'"
  "o_canon (unseen o') = o_canon o'" "o_type (unseen o') = o_type o'" "o_action (unseen o') = o_action o'"
  "o_dest (unseen o') = o_dest o'" "o_def (unseen o') = o_def o'" "o_has_def (unseen o') = o_has_def o'"
  "o_metavar (unseen o') = o_metavar o'" "o_help (unseen o') = o_help o'" "o_choices (unseen o') = o_choices o'"
  "o_required (unseen o') = o_required o'" "\<not> o_seen (unseen o')"
  "opt_takes_value (unseen o') = opt_takes_value o'"
  "unseen (o'\<lparr>o_seen := b\<rparr>) = unseen o'" "opt_ok (unseen o') = opt_ok o'" "shown_ok (unseen o') = shown_ok o'"
  by (simp_all add: unseen_def opt_takes_value_def opt_ok_def shown_ok_def)

fun long_index :: "ucb_arg_opt_impl list \<Rightarrow> byte list \<Rightarrow> nat \<Rightarrow> nat option" where
  "long_index [] name i = None"
| "long_index (o' # os) name i = (if name \<noteq> [] \<and> str_text (o_long o') = name then Some i else long_index os name (i + 1))"

lemma find_long_loop_index:
  "list_all opt_ok os \<Longrightarrow> name \<noteq> [] \<Longrightarrow> find_long_loop os name i = Ret (long_index os name i)"
proof (induction os arbitrary: i)
  case (Cons o' os)
  then have "str_ok (o_long o')" by (simp add: opt_ok_def)
  then show ?case using Cons by (auto simp: str_fits cstr_text_ok)
qed simp

lemma long_index_Nil [simp]: "long_index os [] i = None"
  by (induction os arbitrary: i) simp_all

lemma find_long_index: "list_all opt_ok os \<Longrightarrow> find_long os name = Ret (long_index os name 0)"
  by (simp add: find_long_def find_long_loop_index)

lemma lookup_unseen [simp]:
  "find_short (map unseen os) c i = find_short os c i" "long_index (map unseen os) name i = long_index os name i"
  by (induction os arbitrary: i) simp_all

lemma find_short_less: "find_short os c k = Some i \<Longrightarrow> k \<le> i \<and> i < k + length os"
  by (induction os arbitrary: k) (fastforce split: if_splits)+

lemma long_index_less: "long_index os name k = Some i \<Longrightarrow> k \<le> i \<and> i < k + length os"
  by (induction os arbitrary: k) (fastforce split: if_splits)+

section \<open>Events\<close>

datatype arg_event = EOpt nat "byte list option" | EPos "byte list" | EBad arg_error

text \<open>An option that takes a value: the value attached to it, or the next argument.\<close>

definition value_event :: "ucb_arg_opt_impl list \<Rightarrow> nat \<Rightarrow> byte list option \<Rightarrow> byte list option \<Rightarrow> arg_event \<times> bool" where
  "value_event os i attached next =
     (case attached of
        Some v \<Rightarrow> (EOpt i (Some v), False)
      | None \<Rightarrow>
          (case next of
             Some v \<Rightarrow> (EOpt i (Some v), True)
           | None \<Rightarrow> (EBad (RequiresArgument (str_text (o_canon (os ! i)))), False)))"

definition scan_long :: "ucb_arg_opt_impl list \<Rightarrow> byte list \<Rightarrow> byte list option \<Rightarrow> arg_event \<times> bool" where
  "scan_long os body next =
     (let name = takeWhile (\<lambda>c. c \<noteq> EQ_SIGN) body;
          attached = (if name = body then None else Some (drop (length name + 1) body)) in
      case long_index os name 0 of
        None \<Rightarrow> (EBad (UnrecognizedOption name), False)
      | Some i \<Rightarrow>
          if opt_takes_value (os ! i) then value_event os i attached next
          else if attached = None then (EOpt i None, False)
          else (EBad (TakesNoArgument (str_text (o_canon (os ! i)))), False))"

fun scan_short :: "ucb_arg_opt_impl list \<Rightarrow> byte list \<Rightarrow> byte list option \<Rightarrow> arg_event list \<times> bool" where
  "scan_short os [] next = ([], False)"
| "scan_short os (c # cs) next =
     (case find_short os c 0 of
        None \<Rightarrow> ([EBad (InvalidOption c)], False)
      | Some i \<Rightarrow>
          if opt_takes_value (os ! i)
          then (case value_event os i (if cs = [] then None else Some cs) next of (e, took) \<Rightarrow> ([e], took))
          else (case scan_short os cs next of (es, took) \<Rightarrow> (EOpt i None # es, took)))"

function scan :: "ucb_arg_opt_impl list \<Rightarrow> bool \<Rightarrow> byte list list \<Rightarrow> arg_event list" where
  "scan os no_more [] = []"
| "scan os no_more (arg # args) =
     (if no_more then EPos arg # scan os no_more args
      else if arg = [DASH, DASH] then scan os True args
      else if is_long arg then
        (case scan_long os (drop 2 arg) (next_arg args) of
           (e, took) \<Rightarrow> e # scan os no_more (if took then tl args else args))
      else if is_short arg then
        (case scan_short os (drop 1 arg) (next_arg args) of
           (es, took) \<Rightarrow> es @ scan os no_more (if took then tl args else args))
      else EPos arg # scan os no_more args)"
  by pat_completeness auto
termination by (relation "measure (\<lambda>(os, no_more, args). length args)") auto

lemma value_event_unseen [simp]: "i < length os \<Longrightarrow> value_event (map unseen os) i a n = value_event os i a n"
  by (simp add: value_event_def split: option.split)

lemma scan_long_unseen [simp]: "scan_long (map unseen os) body n = scan_long os body n"
  using long_index_less [of os _ 0] by (auto simp: scan_long_def Let_def split: option.split)

lemma scan_short_unseen [simp]: "scan_short (map unseen os) cs n = scan_short os cs n"
  using find_short_less [of os _ 0] by (induction cs) (auto split: option.split)

lemma scan_unseen [simp]: "scan (map unseen os) nm args = scan os nm args"
  by (induction os nm args rule: scan.induct) (simp_all split: prod.split)

lemma scan_same: "map unseen os = map unseen os' \<Longrightarrow> scan os nm args = scan os' nm args"
  by (metis scan_unseen)

section \<open>Running the events\<close>

definition run_event :: "arg_env \<Rightarrow> nat option \<Rightarrow> arg_event \<Rightarrow> arg_state \<Rightarrow> (ucb_arg_status \<times> arg_state) result" where
  "run_event ae pos e st =
     (case e of
        EOpt i v \<Rightarrow> apply_option ae i v st
      | EPos a \<Rightarrow>
          rbind (push_positional ae pos a st) (\<lambda>(ok, st). Ret (if ok then UCB_ARG_OK else UCB_ARG_ERROR, st))
      | EBad e \<Rightarrow> fail e st)"

fun run_events :: "arg_env \<Rightarrow> nat option \<Rightarrow> arg_event list \<Rightarrow> arg_state \<Rightarrow> (ucb_arg_status \<times> arg_state) result" where
  "run_events ae pos [] st = Ret (UCB_ARG_OK, st)"
| "run_events ae pos (e # es) st = go_on (run_event ae pos e st) (run_events ae pos es)"

lemma go_on_simps [simp]:
  "go_on (Ret (UCB_ARG_OK, st)) k = k st" "s \<noteq> UCB_ARG_OK \<Longrightarrow> go_on (Ret (s, st)) k = Ret (s, st)"
  "go_on Undef k = Undef" "go_on (Abort c) k = Abort c"
  by (simp_all add: go_on_def)

lemma go_on_assoc: "go_on (go_on m f) g = go_on m (\<lambda>st. go_on (f st) g)"
  by (cases m) (auto simp: go_on_def)

lemma go_on_right [simp]: "go_on m (\<lambda>st. Ret (UCB_ARG_OK, st)) = m"
  by (cases m) (auto simp: go_on_def)

lemma go_on_no_events [simp]: "go_on m (run_events ae pos []) = m"
  by (cases m) (auto simp: go_on_def)

lemma run_events_append: "run_events ae pos (xs @ ys) st = go_on (run_events ae pos xs st) (run_events ae pos ys)"
  by (induction xs arbitrary: st) (auto simp: go_on_assoc intro!: arg_cong [of _ _ "go_on _"])

text \<open>No step changes the declaration of an option, only whether it was seen.\<close>

definition same_opts :: "arg_state \<Rightarrow> arg_state \<Rightarrow> bool" where
  "same_opts st st' \<longleftrightarrow> map unseen (opts (a_parser st')) = map unseen (opts (a_parser st))"

lemma same_opts_refl [simp]: "same_opts st st"
  by (simp add: same_opts_def)

lemma same_opts_trans: "same_opts st st' \<Longrightarrow> same_opts st' st'' \<Longrightarrow> same_opts st st''"
  by (simp add: same_opts_def)

lemma set_seen_same [simp]: "same_opts st (set_seen i b st)"
proof (cases "i < length (opts (a_parser st))")
  case True
  then have "(map unseen (opts (a_parser st)))[i := unseen (opts (a_parser st) ! i)] = map unseen (opts (a_parser st))"
    by (metis list_update_id nth_map)
  then show ?thesis by (simp add: same_opts_def set_seen_def Let_def map_update)
qed (simp add: same_opts_def set_seen_def Let_def not_less list_update_beyond)

lemma store_dest_parser: "store_dest o' c st = Ret (b, st') \<Longrightarrow> b \<and> a_parser st' = a_parser st"
  by (auto simp: store_dest_def)

lemma throw_parser: "throw e st = Ret (b, st') \<Longrightarrow> \<not> b \<and> a_parser st' = a_parser st"
  by (auto simp: throw_def)

lemma assign_dest_parser: "assign_dest ae o' v st = Ret (b, st') \<Longrightarrow> a_parser st' = a_parser st"
  by (auto simp: assign_dest_def split: if_splits dest!: store_dest_parser throw_parser)

lemma convert_store_parser: "convert_store ae o' v st = Ret (b, st') \<Longrightarrow> a_parser st' = a_parser st"
  by (auto simp: convert_store_def split: option.splits if_splits dest: store_dest_parser throw_parser assign_dest_parser)

lemma check_choices_parser: "check_choices ae o' v st = Ret (b, st') \<Longrightarrow> a_parser st' = a_parser st"
  by (auto simp: check_choices_def split: option.splits if_splits dest!: throw_parser)

lemma push_copy_parser: "push_copy ae d v st = Ret (b, st') \<Longrightarrow> a_parser st' = a_parser st"
  by (auto simp: push_copy_def split: option.splits dest!: throw_parser)

lemma push_positional_parser: "push_positional ae d v st = Ret (b, st') \<Longrightarrow> a_parser st' = a_parser st"
  by (auto simp: push_positional_def split: option.splits dest: push_copy_parser)

lemma count_dest_parser: "count_dest o' st = Ret (b, st') \<Longrightarrow> a_parser st' = a_parser st"
  by (auto simp: count_dest_def split: if_splits dest: store_dest_parser)

lemma and_then_Ret: "and_then m k = Ret (b, s') \<longleftrightarrow> m = Ret (False, s') \<and> \<not> b \<or> (\<exists>s. m = Ret (True, s) \<and> k s = Ret (b, s'))"
  by (cases m) (auto simp: and_then_def split: if_splits)

lemma seen_if_Ret:
  "seen_if i r = Ret (s, st') \<longleftrightarrow>
   (\<exists>st. r = Ret (True, st) \<and> s = UCB_ARG_OK \<and> st' = set_seen i True st) \<or> r = Ret (False, st') \<and> s = UCB_ARG_ERROR"
  by (cases r) (auto simp: seen_if_def split: if_splits)

lemma seen_if_same: "seen_if i r = Ret (s, st') \<Longrightarrow> (\<And>b st1. r = Ret (b, st1) \<Longrightarrow> a_parser st1 = a_parser st) \<Longrightarrow> same_opts st st'"
  using set_seen_same [of _ i True] by (fastforce simp: seen_if_Ret same_opts_def)

lemma print_out_parser: "print_out pr st = Ret st' \<Longrightarrow> a_parser st' = a_parser st"
  by (auto simp: print_out_def)

lemma print_same:
  assumes "rbind (print_out pr (set_seen i True st)) (\<lambda>st. Ret (x, st)) = Ret (s, st')" shows "same_opts st st'"
  using assms set_seen_same [of st i True] by (auto simp: same_opts_def dest!: print_out_parser)

lemma apply_option_same: "apply_option ae i v st = Ret (s, st') \<Longrightarrow> same_opts st st'"
proof -
  assume a: "apply_option ae i v st = Ret (s, st')"
  let ?o = "opts (a_parser st) ! i"
  have st: "a_parser st2 = a_parser st" if "and_then (check_choices ae ?o x st) k = Ret (b, st2)"
    "\<And>st1. k st1 = Ret (b, st2) \<Longrightarrow> a_parser st2 = a_parser st1" for x k b st2
    using that by (auto simp: and_then_Ret dest: check_choices_parser)
  show ?thesis
    using a unfolding apply_option_def Let_def
    by (cases "o_action ?o"; cases v; simp del: rbind_Ret_iff)
      (erule seen_if_same print_same,
       ((erule st, erule convert_store_parser push_copy_parser) | erule store_dest_parser [THEN conjunct2] count_dest_parser)?)+
qed

lemma same_opts_ok: "same_opts st st' \<Longrightarrow> list_all opt_ok (opts (a_parser st')) = list_all opt_ok (opts (a_parser st))"
proof -
  have "list_all opt_ok os = list_all opt_ok (map unseen os)" for os by (simp add: list.pred_map o_def)
  then show "same_opts st st' \<Longrightarrow> ?thesis" by (metis same_opts_def)
qed

lemma same_opts_scan:
  assumes "same_opts st st'"
  shows "scan (opts (a_parser st')) nm args = scan (opts (a_parser st)) nm args"
    "scan_short (opts (a_parser st')) cs n = scan_short (opts (a_parser st)) cs n"
  using assms scan_unseen scan_short_unseen unfolding same_opts_def by metis+

lemma push_positional_same: "push_positional ae d v st = Ret (b, st') \<Longrightarrow> same_opts st st'"
  using push_positional_parser by (metis same_opts_def)

lemma run_event_same: "run_event ae pos e st = Ret (s, st') \<Longrightarrow> same_opts st st'"
  by (cases e) (auto simp: run_event_def fail_def throw_def same_opts_def dest: push_positional_parser
      split: if_splits dest!: apply_option_same)

lemma run_events_same: "run_events ae pos es st = Ret (s, st') \<Longrightarrow> same_opts st st'"
proof (induction es arbitrary: st)
  case (Cons e es)
  then obtain s1 st1 where "run_event ae pos e st = Ret (s1, st1)"
    "(if s1 \<noteq> UCB_ARG_OK then Ret (s1, st1) else run_events ae pos es st1) = Ret (s, st')"
    by (auto simp: go_on_def)
  then show ?case using run_event_same Cons.IH same_opts_trans by (metis prod.inject result.inject(1))
qed simp

lemma canon_text: "list_all opt_ok os \<Longrightarrow> i < length os \<Longrightarrow> cstr_text (o_canon (os ! i)) = Ret (str_text (o_canon (os ! i)))"
  by (rule cstr_text_ok) (simp add: list_all_length opt_ok_def)

lemma fail_Ret: "fail e st = Ret (UCB_ARG_ERROR, st\<lparr>a_err := Some e\<rparr>)"
  by (simp add: fail_def throw_def)

text \<open>A step that takes the next argument or not, followed by the rest of the loop.\<close>

lemma value_step:
  assumes "list_all opt_ok (opts (a_parser st))" "i < length (opts (a_parser st))"
    "value_event (opts (a_parser st)) i attached next = (e, took)"
  shows "rbind (case attached of
        Some v \<Rightarrow> rbind (apply_option ae i (Some v) st) (\<lambda>r. Ret (False, r))
      | None \<Rightarrow> (case next of
          Some v \<Rightarrow> rbind (apply_option ae i (Some v) st) (\<lambda>r. Ret (True, r))
        | None \<Rightarrow>
            rbind (cstr_text (o_canon (opts (a_parser st) ! i))) (\<lambda>canon.
            rbind (fail (RequiresArgument canon) st) (\<lambda>r. Ret (False, r)))))
      (\<lambda>(t, r). go_on (Ret r) (k t)) = go_on (run_event ae pos e st) (k took)"
proof -
  have "rbind (rbind m (\<lambda>r. Ret (b, r))) (\<lambda>(t, r). go_on (Ret r) (k t)) = go_on m (k b)" for m b
    by (cases m) (auto simp: go_on_def)
  then show ?thesis using assms(3) canon_text [OF assms(1,2)]
    by (auto simp: value_event_def run_event_def split: option.splits)
qed

lemma long_step:
  assumes ok: "list_all opt_ok (opts (a_parser st))" and sc: "scan_long (opts (a_parser st)) body next = (e, took)"
  shows "rbind (long_option ae body next st) (\<lambda>(t, r). go_on (Ret r) (k t)) = go_on (run_event ae pos e st) (k took)"
proof -
  let ?os = "opts (a_parser st)" and ?name = "takeWhile (\<lambda>c. c \<noteq> EQ_SIGN) body"
  have eq: "length ?name < length body \<longleftrightarrow> ?name \<noteq> body"
    using length_takeWhile_le [of "\<lambda>c. c \<noteq> EQ_SIGN" body] by (metis le_neq_implies_less less_irrefl takeWhile_eq_take take_all order_refl)
  show ?thesis
  proof (cases "long_index ?os ?name 0")
    case None
    then show ?thesis using sc by (auto simp: long_option_def find_long_index [OF ok] scan_long_def Let_def fail_Ret run_event_def)
  next
    case (Some i)
    then have i: "i < length ?os" using long_index_less by fastforce
    define att where "att = (if ?name = body then None else Some (drop (length ?name + 1) body))"
    show ?thesis
    proof (cases "opt_takes_value (?os ! i)")
      case True
      then have "value_event ?os i att next = (e, took)" using sc Some by (simp add: scan_long_def att_def Let_def)
      from value_step [OF ok i this, of ae k pos] show ?thesis
        using True Some by (simp add: long_option_def find_long_index [OF ok] Let_def eq att_def split: if_splits del: takeWhile_eq_all_conv)
    next
      case False
      have "rbind (rbind m (\<lambda>r. Ret (b, r))) (\<lambda>(t, r). go_on (Ret r) (k t)) = go_on m (k b)" for m b
        by (cases m) (auto simp: go_on_def)
      then show ?thesis using False Some sc canon_text [OF ok i]
        by (auto simp: long_option_def find_long_index [OF ok] scan_long_def Let_def eq run_event_def
            split: if_splits simp del: takeWhile_eq_all_conv)
    qed
  qed
qed

lemma short_step:
  "list_all opt_ok (opts (a_parser st)) \<Longrightarrow> scan_short (opts (a_parser st)) cs next = (es, took) \<Longrightarrow>
   rbind (short_options ae cs next st) (\<lambda>(t, r). go_on (Ret r) (k t)) = go_on (run_events ae pos es st) (k took)"
proof (induction cs arbitrary: st es took)
  case Nil
  then show ?case by simp
next
  case (Cons c cs)
  let ?os = "opts (a_parser st)"
  note ok = Cons.prems(1)
  show ?case
  proof (cases "find_short ?os c 0")
    case None
    then show ?thesis using Cons.prems(2) by (auto simp: fail_Ret run_event_def)
  next
    case (Some i)
    then have i: "i < length ?os" using find_short_less by fastforce
    show ?thesis
    proof (cases "opt_takes_value (?os ! i)")
      case True
      then obtain e where e: "value_event ?os i (if cs = [] then None else Some cs) next = (e, took)" "es = [e]"
        using Cons.prems(2) Some by (auto split: prod.splits)
      from value_step [OF ok i e(1), of ae k pos] show ?thesis
        using True Some e(2) by (cases cs) (simp_all add: Let_def)
    next
      case False
      obtain es' where es: "scan_short ?os cs next = (es', took)" "es = EOpt i None # es'"
        using Cons.prems(2) Some False by (auto split: prod.splits)
      have ih: "rbind (short_options ae cs next st1) (\<lambda>(t, r). go_on (Ret r) (k t)) = go_on (run_events ae pos es' st1) (k took)"
        if "same_opts st st1" for st1
        using Cons.IH [of st1] same_opts_ok [OF that] ok same_opts_scan(2) [OF that] es(1) by simp
      show ?thesis
      proof (cases "apply_option ae i None st")
        case (Ret r)
        then have "same_opts st (snd r)" using apply_option_same by (metis prod.collapse)
        then show ?thesis using Ret ih False Some es(2)
          by (cases r; cases "fst r = UCB_ARG_OK") (auto simp: Let_def run_event_def)
      qed (use False Some es in \<open>simp_all add: Let_def run_event_def\<close>)
    qed
  qed
qed

text \<open>The loop over the arguments is the run of their events.\<close>

lemma parse_args_events:
  "list_all opt_ok (opts (a_parser st)) \<Longrightarrow>
   parse_args ae pos nm args st = run_events ae pos (scan (opts (a_parser st)) nm args) st"
proof (induction "length args" arbitrary: nm args st rule: less_induct)
  case less
  let ?os = "opts (a_parser st)"
  note ok = less.prems
  show ?case
  proof (cases args)
    case Nil
    then show ?thesis by simp
  next
    case (Cons arg rest)
    have tl: "length (if t then tl rest else rest) < length args" for t by (cases t) (auto simp: Cons)
    have go: "go_on (run_events ae pos es st) (parse_args ae pos nm (if t then tl rest else rest)) =
        run_events ae pos (es @ scan ?os nm (if t then tl rest else rest)) st" for es t
    proof (cases "run_events ae pos es st")
      case (Ret r)
      then have so: "same_opts st (snd r)" using run_events_same by (metis prod.collapse)
      have "parse_args ae pos nm (if t then tl rest else rest) (snd r) =
          run_events ae pos (scan (opts (a_parser (snd r))) nm (if t then tl rest else rest)) (snd r)"
        by (rule less.hyps [OF tl]) (use same_opts_ok [OF so] ok in simp)
      then show ?thesis unfolding same_opts_scan(1) [OF so] run_events_append Ret
        by (cases r; cases "fst r = UCB_ARG_OK") simp_all
    qed (simp_all add: run_events_append)
    have pos: "rbind (push_positional ae pos arg st) (\<lambda>(ok, st). if \<not> ok then Ret (UCB_ARG_ERROR, st) else parse_args ae pos nm rest st)
        = run_events ae pos (EPos arg # scan ?os nm rest) st"
    proof -
      have "rbind (push_positional ae pos arg st) (\<lambda>(ok, st). if \<not> ok then Ret (UCB_ARG_ERROR, st) else parse_args ae pos nm rest st)
          = go_on (run_event ae pos (EPos arg) st) (parse_args ae pos nm rest)"
        by (cases "push_positional ae pos arg st") (auto simp: run_event_def go_on_def)
      then show ?thesis using go [of "[EPos arg]" False] by simp
    qed
    consider "\<not> nm" "arg = [DASH, DASH]" | "\<not> nm" "arg \<noteq> [DASH, DASH]" "is_long arg"
      | "\<not> nm" "arg \<noteq> [DASH, DASH]" "\<not> is_long arg" "is_short arg"
      | "nm \<or> arg \<noteq> [DASH, DASH] \<and> \<not> is_long arg \<and> \<not> is_short arg" by blast
    then show ?thesis
    proof cases
      case 1
      then show ?thesis using less.hyps [OF tl [of False] ok, of True] by (simp add: Cons)
    next
      case 2
      obtain e took where e: "scan_long ?os (drop 2 arg) (next_arg rest) = (e, took)" by fastforce
      show ?thesis
        using long_step [OF ok e, of ae "\<lambda>t. parse_args ae pos nm (if t then tl rest else rest)" pos] go [of "[e]" took] 2
        unfolding Cons by (simp add: e)
    next
      case 3
      obtain es took where e: "scan_short ?os (drop 1 arg) (next_arg rest) = (es, took)" by fastforce
      show ?thesis
        using short_step [OF ok e, of ae "\<lambda>t. parse_args ae pos nm (if t then tl rest else rest)" pos] go [of es took] 3
        unfolding Cons by (simp add: e [unfolded One_nat_def])
    next
      case 4
      then have "parse_args ae pos nm args st = rbind (push_positional ae pos arg st)
          (\<lambda>(ok, st). if \<not> ok then Ret (UCB_ARG_ERROR, st) else parse_args ae pos nm rest st)"
        "scan ?os nm args = EPos arg # scan ?os nm rest"
        unfolding Cons by auto
      then show ?thesis using pos by simp
    qed
  qed
qed

section \<open>Spellings\<close>

lemma scan_positionals: "scan os True args = map EPos args"
  by (induction args) simp_all

lemma is_long_iff: "is_long arg \<longleftrightarrow> (\<exists>c cs. arg = DASH # DASH # c # cs)"
  by (cases arg; cases "tl arg"; cases "tl (tl arg)") (auto simp: is_long_def)

lemma is_short_not_long: "is_short arg \<Longrightarrow> \<not> is_long arg \<and> arg \<noteq> [DASH, DASH]"
  by (auto simp: is_short_def is_long_iff)

text \<open>The value of a long option may be attached or be the next argument.\<close>

lemma scan_attached:
  assumes "EQ_SIGN \<notin> set name" "name \<noteq> []" "long_index os name 0 = Some i" "opt_takes_value (os ! i)"
  shows "scan os False ((DASH # DASH # name @ EQ_SIGN # v) # args) = scan os False ((DASH # DASH # name) # v # args)"
proof -
  have "takeWhile (\<lambda>c. c \<noteq> EQ_SIGN) (name @ EQ_SIGN # v) = name" "takeWhile (\<lambda>c. c \<noteq> EQ_SIGN) name = name"
    using takeWhile_eq_sign [OF assms(1)] assms(1) by (auto simp: takeWhile_eq_all_conv)
  moreover obtain c cs where "name = c # cs" using assms(2) by (cases name) auto
  ultimately show ?thesis using assms(3,4)
    by (simp add: is_long_iff scan_long_def value_event_def next_arg_def)
qed

text \<open>A flag at the front of a bundle may stand alone.\<close>

lemma scan_is_short:
  assumes "is_short arg"
  shows "scan os False (arg # args) =
    (case scan_short os (drop 1 arg) (next_arg args) of (es, took) \<Rightarrow> es @ scan os False (if took then tl args else args))"
  using assms is_short_not_long [OF assms] by simp

lemma scan_bundle:
  assumes "find_short os c 0 = Some i" "\<not> opt_takes_value (os ! i)" "is_short (DASH # c # cs)" "is_short (DASH # cs)"
  shows "scan os False ((DASH # c # cs) # args) = scan os False ([DASH, c] # (DASH # cs) # args)"
proof -
  have "is_short [DASH, c]" using assms(3) by (simp add: is_short_def is_negative_number_def)
  from scan_is_short [OF this] scan_is_short [OF assms(3)] scan_is_short [OF assms(4)] assms(1,2)
  show ?thesis by (simp add: split_def del: scan.simps)
qed

end
