(* ===== verification/Argparse_Values.thy ===== *)
theory Argparse_Values
  imports Argparse_Scan
begin

text \<open>
  What a parsed command line stores: for every option a value computed from its declaration and the
  values given to it, in order, and the positional arguments. Objects are compared by what they
  hold: a string by its text, a vector by its texts.
\<close>

section \<open>Ends\<close>

text \<open>
  Nothing undefined happens, and a call that returns returns a value satisfying \<open>P\<close>. Under the
  condition \<open>sc\<close> it does return, unless memory runs out.
\<close>

definition ends :: "bool \<Rightarrow> 'a result \<Rightarrow> ('a \<Rightarrow> bool) \<Rightarrow> bool" where
  "ends sc r P = (case r of Ret x \<Rightarrow> P x | Abort c \<Rightarrow> sc \<longrightarrow> c = UCB_ERROR_OUT_OF_MEMORY | Undef \<Rightarrow> False)"

lemma ends_simps [simp]:
  "ends sc (Ret x) P = P x" "ends sc (Abort c) P = (sc \<longrightarrow> c = UCB_ERROR_OUT_OF_MEMORY)" "ends sc Undef P = False"
  by (simp_all add: ends_def)

lemma ends_split: "ends sc r P \<longleftrightarrow> always r P \<and> (sc \<longrightarrow> succeeds r P)"
  by (cases r) auto

lemma ends_True [simp]: "ends True m P = succeeds m P"
  by (cases m) simp_all

lemma ends_bind: "ends sc m P \<Longrightarrow> (\<And>x. P x \<Longrightarrow> ends sc (k x) Q) \<Longrightarrow> ends sc (rbind m k) Q"
  by (cases m) simp_all

lemma ends_bind_ok:
  "ends sc m (\<lambda>(ok, s). ok \<and> P s) \<Longrightarrow> (\<And>s. P s \<Longrightarrow> ends sc (k (True, s)) Q) \<Longrightarrow> ends sc (rbind m k) Q"
  by (cases m) auto

lemma ends_mono: "ends sc m P \<Longrightarrow> (\<And>x. m = Ret x \<Longrightarrow> P x \<Longrightarrow> Q x) \<Longrightarrow> ends sc m Q"
  by (cases m) simp_all

lemma ends_verify [simp]:
  "c \<noteq> UCB_ERROR_OUT_OF_MEMORY \<Longrightarrow> ends sc (verify b c k) P \<longleftrightarrow> (sc \<longrightarrow> b) \<and> (b \<longrightarrow> ends sc k P)"
  by (simp add: verify_def)

lemma succeeds_ends: "succeeds m P \<Longrightarrow> ends sc m P"
  by (cases m) simp_all

lemma ends_join: "always m P \<Longrightarrow> (sc \<Longrightarrow> succeeds m P) \<Longrightarrow> ends sc m P"
  by (auto simp: ends_split)

section \<open>Objects\<close>

datatype arg_view = VCell arg_cell | VText "byte list" | VTexts "byte list list"

definition view_cell :: "arg_cell \<Rightarrow> arg_view" where
  "view_cell c = (case c of CStr s \<Rightarrow> VText (str_text s) | CVec ss \<Rightarrow> VTexts (map str_text ss) | c \<Rightarrow> VCell c)"

definition cell_ok :: "arg_cell \<Rightarrow> bool" where
  "cell_ok c = (case c of CStr s \<Rightarrow> str_ok s | CVec ss \<Rightarrow> list_all str_ok ss | _ \<Rightarrow> True)"

definition well_typed :: "arg_store \<Rightarrow> nat \<Rightarrow> ucb_arg_type \<Rightarrow> bool" where
  "well_typed m a t \<longleftrightarrow> (\<exists>c. m a = Some c \<and> cell_type c = t \<and> cell_ok c)"

definition view :: "arg_store \<Rightarrow> nat \<Rightarrow> arg_view" where
  "view m a = (case m a of Some c \<Rightarrow> view_cell c | None \<Rightarrow> VTexts [])"

text \<open>The new state differs in the object at \<open>a\<close> only, which holds \<open>w\<close>.\<close>

definition stores :: "arg_state \<Rightarrow> nat \<Rightarrow> ucb_arg_type \<Rightarrow> arg_view \<Rightarrow> arg_state \<Rightarrow> bool" where
  "stores st a t w st' \<longleftrightarrow>
     (\<exists>c. st' = st\<lparr>a_mem := (a_mem st)(a \<mapsto> c)\<rparr> \<and> cell_type c = t \<and> cell_ok c \<and> view_cell c = w)"

definition throws :: "arg_state \<Rightarrow> arg_state \<Rightarrow> bool" where
  "throws st st' \<longleftrightarrow> (\<exists>e. st' = st\<lparr>a_err := Some e\<rparr>)"

lemma throw_throws: "ends sc (throw e st) (\<lambda>(ok, st'). \<not> ok \<and> throws st st')"
  by (auto simp: throw_def throws_def)

lemma stores_trans: "stores st a t w st1 \<Longrightarrow> stores st1 a t w' st2 \<Longrightarrow> stores st a t w' st2"
  by (auto simp: stores_def)

lemma stores_typed: "stores st a t w st' \<Longrightarrow> well_typed (a_mem st') a t"
  by (auto simp: stores_def well_typed_def)

lemma stores_view: "stores st a t w st' \<Longrightarrow> view (a_mem st') b = (if b = a then w else view (a_mem st) b)"
  by (auto simp: stores_def view_def)

lemma stores_well_typed:
  "stores st a t w st' \<Longrightarrow> (if b = a then u = t else well_typed (a_mem st) b u) \<Longrightarrow> well_typed (a_mem st') b u"
  by (auto simp: stores_def well_typed_def split: if_splits)

lemma stores_fields [simp]: "stores st a t w st' \<Longrightarrow> a_parser st' = a_parser st"
  by (auto simp: stores_def)

lemma throws_fields:
  "throws st st' \<Longrightarrow> a_parser st' = a_parser st" "throws st st' \<Longrightarrow> a_mem st' = a_mem st" "throws st st' \<Longrightarrow> a_err st' \<noteq> None"
  by (auto simp: throws_def)

lemmas throws_simps [simp] = throws_fields(1,2)

lemma storesI: "cell_type c = t \<Longrightarrow> cell_ok c \<Longrightarrow> view_cell c = w \<Longrightarrow> stores st a t w (st\<lparr>a_mem := (a_mem st)(a \<mapsto> c)\<rparr>)"
  unfolding stores_def by (intro exI [of _ c]) simp

lemma store_dest_ok:
  assumes "o_dest o' = Some a" "well_typed (a_mem st) a (cell_type c)"
  shows "store_dest o' c st = Ret (True, st\<lparr>a_mem := (a_mem st)(a \<mapsto> c)\<rparr>)"
  using assms by (auto simp: store_dest_def store_cell_def load_cell_def well_typed_def simp del: rbind_Ret_iff)

lemma store_dest_stores:
  assumes "o_dest o' = Some a" "well_typed (a_mem st) a (cell_type c)" "cell_ok c"
  shows "ends sc (store_dest o' c st) (\<lambda>(ok, st'). ok \<and> stores st a (cell_type c) (view_cell c) st')"
  unfolding store_dest_ok [OF assms(1,2)] using assms(3) by (simp add: storesI)

lemma well_typedE:
  assumes "well_typed m a t" obtains c where "m a = Some c" "cell_type c = t" "cell_ok c" "view m a = view_cell c"
  using assms by (auto simp: well_typed_def view_def)

lemma typed_cells:
  "cell_type c = UCB_ARG_TYPE_STR \<Longrightarrow> \<exists>s. c = CStr s" "cell_type c = UCB_ARG_TYPE_INT \<Longrightarrow> \<exists>x. c = CInt x"
  "cell_type c = UCB_ARG_TYPE_NONE \<Longrightarrow> \<exists>ss. c = CVec ss"
  by (cases c; simp add: cell_type_def)+

lemma load_typed:
  "well_typed m a UCB_ARG_TYPE_STR \<Longrightarrow> \<exists>s. load_str m (Some a) = Ret s \<and> str_ok s \<and> view m a = VText (str_text s)"
  "well_typed m a UCB_ARG_TYPE_INT \<Longrightarrow> \<exists>x. load_int m (Some a) = Ret x \<and> view m a = VCell (CInt x)"
  "well_typed m a UCB_ARG_TYPE_NONE \<Longrightarrow> \<exists>ss. load_vec m (Some a) = Ret ss \<and> list_all str_ok ss \<and> view m a = VTexts (map str_text ss)"
  by (erule well_typedE, drule typed_cells, clarify,
      simp add: load_str_def load_int_def load_vec_def load_cell_def cell_ok_def view_cell_def del: rbind_Ret_iff)+

section \<open>Conversion\<close>

text \<open>An argument of the command line, or a default; valid UTF-8 under the condition \<open>sc\<close>.\<close>

definition arg_text_ok :: "bool \<Rightarrow> byte list \<Rightarrow> bool" where
  "arg_text_ok sc v \<longleftrightarrow> 0 \<notin> set v \<and> length v < PTRDIFF_MAX \<and> (sc \<longrightarrow> valid_text v)"

lemma str_arg_text: "str_ok s \<Longrightarrow> arg_text_ok sc (str_text s)"
  using str_piece [of s] by (simp add: arg_text_ok_def piece_def valid_text_def)

definition value_view :: "float_env \<Rightarrow> ucb_arg_type \<Rightarrow> byte list \<Rightarrow> arg_view option" where
  "value_view fe t v = (if t = UCB_ARG_TYPE_STR then Some (VText v) else map_option VCell (convert_value fe t v))"

lemma convert_value_cell: "convert_value fe t v = Some c \<Longrightarrow> cell_type c = t \<and> cell_ok c \<and> view_cell c = VCell c"
  by (cases t) (auto simp: convert_value_def cell_type_def cell_ok_def view_cell_def split: option.splits if_splits)

lemma zero_value_cell: "zero_value t = Some c \<Longrightarrow> cell_type c = t \<and> cell_ok c \<and> view_cell c = VCell c"
  by (cases t) (auto simp: zero_value_def cell_type_def cell_ok_def view_cell_def)

lemma arg_text_src: "arg_text_ok sc v \<Longrightarrow> src_text (v @ [0]) 0 v"
  by (simp add: src_cstring arg_text_ok_def)

lemma assign_c_ends:
  assumes f: "\<not> fatal_returns me" and s: "str_ok s" and v: "arg_text_ok sc v"
  shows "ends sc (assign_c me s v) (\<lambda>(r, s'). r \<and> str_ok s' \<and> str_text s' = v)"
proof (rule ends_join)
  show "always (assign_c me s v) (\<lambda>(r, s'). r \<and> str_ok s' \<and> str_text s' = v)"
    unfolding assign_c_def by (rule assign_spec [OF f s, of _ _ "v @ [0]"]) (simp add: deref_def arg_text_src [OF v])
qed (use v str_assign_succeeds [OF f _ _ arg_text_src [OF v], of s] s in \<open>simp add: assign_c_def arg_text_ok_def str_ok_raw\<close>)

lemma str_new_ends:
  assumes f: "\<not> fatal_returns me" and v: "arg_text_ok sc v"
  shows "ends sc (ucb_str_new me (Some (v @ [0])) 0) (\<lambda>r. \<exists>s. r = Some s \<and> valid_text v \<and> str_ok s \<and> str_text s = v)"
proof (rule ends_join)
  show "always (ucb_str_new me (Some (v @ [0])) 0) (\<lambda>r. \<exists>s. r = Some s \<and> valid_text v \<and> str_ok s \<and> str_text s = v)"
    by (rule new_spec [OF f]) (simp add: arg_text_src [OF v])
qed (use v str_new_succeeds [OF f, where cstr = "Some (v @ [0])" and t = v and len = 0] arg_text_src [OF v] in \<open>simp add: arg_text_ok_def\<close>)

lemma assign_dest_stores:
  assumes f: "\<not> fatal_returns (e_mem ae)" and d: "o_dest o' = Some a" and t: "well_typed (a_mem st) a UCB_ARG_TYPE_STR"
    and v: "arg_text_ok sc v"
  shows "ends sc (assign_dest ae o' v st) (\<lambda>(ok, st'). ok \<and> stores st a UCB_ARG_TYPE_STR (VText v) st')"
proof -
  obtain s where s: "load_str (a_mem st) (Some a) = Ret s" "str_ok s" using load_typed(1) [OF t] by blast
  from assign_c_ends [OF f s(2) v]
  have "ends sc (assign_c (e_mem ae) s v) (\<lambda>(r, s'). r \<and> str_ok s' \<and> str_text s' = v)" .
  moreover have "store_dest o' (CStr s') st = Ret (True, st\<lparr>a_mem := (a_mem st)(a \<mapsto> CStr s')\<rparr>)" for s'
    using t by (intro store_dest_ok [OF d]) (simp add: cell_type_def)
  ultimately show ?thesis
    unfolding assign_dest_def d s(1) rbind.simps
    by (elim ends_bind_ok) (simp add: storesI cell_type_def cell_ok_def view_cell_def)
qed

lemma convert_store_stores:
  assumes f: "\<not> fatal_returns (e_mem ae)" and d: "o_dest o' = Some a" and t: "well_typed (a_mem st) a (o_type o')"
    and v: "o_type o' = UCB_ARG_TYPE_STR \<Longrightarrow> arg_text_ok sc v" and o': "opt_ok o'" "o_type o' \<noteq> UCB_ARG_TYPE_NONE"
  shows "ends sc (convert_store ae o' v st) (\<lambda>(ok, st'). case value_view (e_float ae) (o_type o') v of
      Some w \<Rightarrow> ok \<and> stores st a (o_type o') w st' | None \<Rightarrow> \<not> ok \<and> throws st st')"
proof (cases "o_type o' = UCB_ARG_TYPE_STR")
  case True
  then show ?thesis using assign_dest_stores [OF f d _ v [OF True]] t by (simp add: convert_store_def value_view_def)
next
  case False
  show ?thesis
  proof (cases "convert_value (e_float ae) (o_type o') v")
    case None
    have "str_ok (o_canon o')" using o'(1) by (simp add: opt_ok_def)
    then show ?thesis using None False o'(2) throw_throws
      by (simp add: convert_store_def value_view_def cstr_text_ok)
  next
    case (Some c)
    then show ?thesis using False o'(2) store_dest_stores [OF d, of st c] t convert_value_cell [OF Some]
      by (simp add: convert_store_def value_view_def)
  qed
qed

section \<open>Choices and vectors\<close>

definition choice_ok :: "ucb_arg_opt_impl \<Rightarrow> byte list \<Rightarrow> bool" where
  "choice_ok o' v \<longleftrightarrow> (case o_choices o' of None \<Rightarrow> True | Some cs \<Rightarrow> cs = [] \<or> v \<in> set (map str_text cs))"

lemma choice_matches_ok: "list_all str_ok cs \<Longrightarrow> choice_matches cs v = Ret (v \<in> set (map str_text cs))"
  by (induction cs) (auto simp: cstr_text_ok)

lemma emits_quoted:
  assumes f: "\<not> fatal_returns me"
  shows "list_all str_ok cs \<Longrightarrow> \<exists>t. emits (\<lambda>s. quote_choices me s b cs) t"
proof (induction cs arbitrary: b)
  case Nil
  then show ?case using emits_Ret by auto
next
  case (Cons c cs)
  then obtain t where t: "emits (\<lambda>s. quote_choices me s False cs) t" by auto
  have q: "piece [39]" by (rule piece_ascii) (simp_all add: ascii_def PTRDIFF_MAX_def)
  have "emits (\<lambda>s. if b then Ret s else append_c me s (lit '', '')) (if b then [] else lit '', '')"
    by (intro emits_intros f) (simp_all add: ascii_def)
  from emits_bind [OF this emits_bind [OF emits_c [OF f q] emits_bind [OF emits_s [OF f] emits_bind [OF emits_c [OF f q] t]]]]
  show ?case using Cons.prems by auto
qed

lemma check_choices_ok:
  assumes f: "\<not> fatal_returns (e_mem ae)" and o': "opt_ok o'"
  shows "ends sc (check_choices ae o' v st) (\<lambda>(ok, st'). if choice_ok o' v then ok \<and> st' = st else \<not> ok \<and> throws st st')"
proof (cases "o_choices o'")
  case None
  then show ?thesis by (simp add: check_choices_def choice_ok_def)
next
  case (Some cs)
  then have cs: "list_all str_ok cs" "str_ok (o_canon o')" using o' by (simp_all add: opt_ok_def)
  show ?thesis
  proof (cases "choice_ok o' v")
    case True
    then show ?thesis using Some by (auto simp: check_choices_def choice_ok_def choice_matches_ok [OF cs(1)])
  next
    case False
    obtain t where t: "emits (\<lambda>s. quote_choices (e_mem ae) s True cs) t" using emits_quoted [OF f cs(1)] by blast
    have "ends sc (quote_choices (e_mem ae) str_empty True cs) (\<lambda>s. str_ok s)"
      using emitsD [OF t holds_empty] by (rule ends_mono [OF succeeds_ends]) (simp add: holds_def)
    then have "ends sc (rbind (quote_choices (e_mem ae) str_empty True cs) (\<lambda>l.
              rbind (cstr_text (o_canon o')) (\<lambda>canon.
              rbind (cstr_text l) (\<lambda>lt.
              rbind (ucb_str_release l) (\<lambda>_. throw (InvalidChoice canon v lt) st))))) (\<lambda>(ok, st'). \<not> ok \<and> throws st st')"
      by (rule ends_bind) (simp add: cstr_text_ok cs(2) str_release_ok throw_throws)
    then show ?thesis using Some False by (auto simp: check_choices_def choice_ok_def choice_matches_ok [OF cs(1)])
  qed
qed

lemma free_choices_ok: "list_all str_ok ss \<Longrightarrow> free_choices ss = Ret ()"
  by (induction ss) (simp_all add: str_release_ok)

definition pushed :: "arg_view \<Rightarrow> byte list list \<Rightarrow> arg_view" where
  "pushed w vs = (case w of VTexts ts \<Rightarrow> VTexts (ts @ vs) | _ \<Rightarrow> w)"

lemma push_copy_stores:
  assumes f: "\<not> fatal_returns (e_mem ae)" and t: "well_typed (a_mem st) a UCB_ARG_TYPE_NONE" and v: "arg_text_ok sc v"
  shows "ends sc (push_copy ae (Some a) v st)
    (\<lambda>(ok, st'). ok \<and> stores st a UCB_ARG_TYPE_NONE (pushed (view (a_mem st) a) [v]) st')"
proof -
  obtain ss where ss: "load_vec (a_mem st) (Some a) = Ret ss" "list_all str_ok ss" "view (a_mem st) a = VTexts (map str_text ss)"
    using load_typed(3) [OF t] by blast
  note n = str_new_ends [OF f v]
  obtain c where c: "a_mem st a = Some c" "cell_type c = UCB_ARG_TYPE_NONE" using t by (auto simp: well_typed_def)
  show ?thesis
    unfolding push_copy_def
  proof (rule ends_bind [OF n], clarify)
    fix s
    assume s: "str_ok s" "v = str_text s"
    have "store_cell (a_mem st) (Some a) (CVec (ss @ [s])) = Ret ((a_mem st)(a \<mapsto> CVec (ss @ [s])))"
      using c by (simp add: store_cell_def load_cell_def cell_type_def del: rbind_Ret_iff)
    then show "ends sc (case Some s of None \<Rightarrow> throw ArgOutOfMemory st | Some s \<Rightarrow>
         rbind (load_vec (a_mem st) (Some a)) (\<lambda>ss.
         rbind (store_cell (a_mem st) (Some a) (CVec (ss @ [s]))) (\<lambda>m. Ret (True, st\<lparr>a_mem := m\<rparr>))))
        (\<lambda>(ok, st'). ok \<and> stores st a UCB_ARG_TYPE_NONE (pushed (view (a_mem st) a) [str_text s]) st')"
      using ss s by (simp add: storesI cell_type_def cell_ok_def view_cell_def pushed_def)
  qed
qed

section \<open>Declarations and states\<close>

definition needs_dest :: "ucb_arg_opt_impl \<Rightarrow> bool" where
  "needs_dest o' \<longleftrightarrow> o_action o' \<noteq> UCB_ARG_ACTION_HELP \<and> o_action o' \<noteq> UCB_ARG_ACTION_VERSION"

definition dest_type :: "ucb_arg_opt_impl \<Rightarrow> ucb_arg_type" where
  "dest_type o' = (case o_action o' of
     UCB_ARG_ACTION_STORE \<Rightarrow> o_type o' | UCB_ARG_ACTION_STORE_TRUE \<Rightarrow> UCB_ARG_TYPE_BOOL
   | UCB_ARG_ACTION_STORE_FALSE \<Rightarrow> UCB_ARG_TYPE_BOOL | UCB_ARG_ACTION_COUNT \<Rightarrow> UCB_ARG_TYPE_INT
   | _ \<Rightarrow> UCB_ARG_TYPE_NONE)"

text \<open>
  The declared options: well formed, a value type where one is stored, and no object shared
  between two options or an option and the positionals at \<open>pos\<close>.
\<close>

definition decl_ok :: "ucb_arg_opt_impl list \<Rightarrow> nat option \<Rightarrow> bool" where
  "decl_ok os pos \<longleftrightarrow> list_all shown_ok os
     \<and> (\<forall>o' \<in> set os. o_action o' = UCB_ARG_ACTION_STORE \<longrightarrow> o_type o' \<noteq> UCB_ARG_TYPE_NONE)
     \<and> (\<forall>o' \<in> set os. needs_dest o' \<longrightarrow> o_dest o' \<noteq> None \<and> o_dest o' \<noteq> pos)
     \<and> (\<forall>i < length os. \<forall>j < i. needs_dest (os ! i) \<and> needs_dest (os ! j) \<longrightarrow> o_dest (os ! i) \<noteq> o_dest (os ! j))"

text \<open>The caller's objects have the declared types.\<close>

definition objects_ok :: "ucb_arg_opt_impl list \<Rightarrow> nat option \<Rightarrow> arg_store \<Rightarrow> bool" where
  "objects_ok os pos m \<longleftrightarrow>
     (\<forall>o' \<in> set os. needs_dest o' \<longrightarrow> well_typed m (the (o_dest o')) (dest_type o'))
     \<and> (\<forall>a. pos = Some a \<longrightarrow> well_typed m a UCB_ARG_TYPE_NONE)"

definition version_given :: "ucb_arg_opt_impl list \<Rightarrow> ucb_arg_parser \<Rightarrow> bool" where
  "version_given os p \<longleftrightarrow> (\<exists>o' \<in> set os. o_action o' = UCB_ARG_ACTION_VERSION) \<longrightarrow> str_text (version p) \<noteq> []"

definition state_ok :: "bool \<Rightarrow> ucb_arg_opt_impl list \<Rightarrow> nat option \<Rightarrow> arg_state \<Rightarrow> bool" where
  "state_ok sc os pos st \<longleftrightarrow> (sc \<longrightarrow> version_given os (a_parser st)) \<and> map unseen (opts (a_parser st)) = map unseen os \<and> parser_ok (a_parser st)
     \<and> decl_ok os pos \<and> objects_ok os pos (a_mem st)"

definition opt_view :: "ucb_arg_opt_impl list \<Rightarrow> nat \<Rightarrow> arg_state \<Rightarrow> arg_view" where
  "opt_view os i st = view (a_mem st) (the (o_dest (os ! i)))"

definition was_seen :: "nat \<Rightarrow> arg_state \<Rightarrow> bool" where
  "was_seen i st = o_seen (opts (a_parser st) ! i)"

section \<open>Steps\<close>

lemma unseen_nth: "map unseen xs = map unseen ys \<Longrightarrow> i < length ys \<Longrightarrow> unseen (xs ! i) = unseen (ys ! i) \<and> length xs = length ys"
  by (metis length_map nth_map)

text \<open>Everything but \<open>o_seen\<close> of an option is as declared.\<close>

lemma unseen_eqD:
  assumes "unseen a = unseen b"
  shows "o_name a = o_name b" "o_short a = o_short b" "o_long a = o_long b" "o_canon a = o_canon b" "o_type a = o_type b"
    "o_action a = o_action b" "o_dest a = o_dest b" "o_def a = o_def b" "o_has_def a = o_has_def b"
    "o_metavar a = o_metavar b" "o_help a = o_help b" "o_choices a = o_choices b" "o_required a = o_required b"
    "opt_takes_value a = opt_takes_value b" "opt_ok a = opt_ok b" "shown_ok a = shown_ok b"
  using assms unseen_simps by metis+

lemma state_option:
  assumes "state_ok sc os pos st" "i < length os"
  shows "unseen (opts (a_parser st) ! i) = unseen (os ! i)" "length (opts (a_parser st)) = length os"
    "opt_ok (os ! i)" "opt_ok (opts (a_parser st) ! i)"
    "o_action (os ! i) = UCB_ARG_ACTION_STORE \<Longrightarrow> o_type (os ! i) \<noteq> UCB_ARG_TYPE_NONE"
    "needs_dest (os ! i) \<Longrightarrow> o_dest (os ! i) = Some (the (o_dest (os ! i)))"
    "needs_dest (os ! i) \<Longrightarrow> well_typed (a_mem st) (the (o_dest (os ! i))) (dest_type (os ! i))"
proof -
  have m: "os ! i \<in> set os" using assms(2) by simp
  show u: "unseen (opts (a_parser st) ! i) = unseen (os ! i)" "length (opts (a_parser st)) = length os"
    using assms unseen_nth [of "opts (a_parser st)" os i] by (auto simp: state_ok_def)
  show "opt_ok (os ! i)" using assms m by (auto simp: state_ok_def decl_ok_def list_all_iff shown_ok_def)
  then show "opt_ok (opts (a_parser st) ! i)" using unseen_eqD(15) [OF u(1)] by simp
  show "o_action (os ! i) = UCB_ARG_ACTION_STORE \<Longrightarrow> o_type (os ! i) \<noteq> UCB_ARG_TYPE_NONE"
    "needs_dest (os ! i) \<Longrightarrow> o_dest (os ! i) = Some (the (o_dest (os ! i)))"
    "needs_dest (os ! i) \<Longrightarrow> well_typed (a_mem st) (the (o_dest (os ! i))) (dest_type (os ! i))"
    using assms(1) m by (auto simp: state_ok_def decl_ok_def objects_ok_def)
qed

lemma decl_distinct:
  assumes "decl_ok os pos" "i < length os" "j < length os" "i \<noteq> j" "needs_dest (os ! i)" "needs_dest (os ! j)"
  shows "the (o_dest (os ! i)) \<noteq> the (o_dest (os ! j))"
proof -
  have "o_dest (os ! i) \<noteq> None" "o_dest (os ! j) \<noteq> None" using assms by (simp_all add: decl_ok_def)
  moreover have "o_dest (os ! i) \<noteq> o_dest (os ! j)"
    using assms unfolding decl_ok_def by (cases i j rule: linorder_cases) metis+
  ultimately show ?thesis by (metis option.expand)
qed

text \<open>The effect of a step on the object of option \<open>i\<close>, and on the positionals.\<close>

definition sets_opt :: "bool \<Rightarrow> ucb_arg_opt_impl list \<Rightarrow> nat option \<Rightarrow> nat \<Rightarrow> arg_view \<Rightarrow> arg_state \<Rightarrow> arg_state \<Rightarrow> bool" where
  "sets_opt sc os pos i w st st' \<longleftrightarrow> state_ok sc os pos st'
     \<and> (\<forall>j < length os. needs_dest (os ! j) \<longrightarrow> opt_view os j st' = (if j = i then w else opt_view os j st))
     \<and> (\<forall>a. pos = Some a \<longrightarrow> view (a_mem st') a = view (a_mem st) a)"

lemma stores_state:
  assumes ok: "state_ok sc os pos st" and i: "i < length os" "needs_dest (os ! i)"
    and s: "stores st (the (o_dest (os ! i))) (dest_type (os ! i)) w st'"
  shows "sets_opt sc os pos i w st st'"
proof -
  let ?a = "the (o_dest (os ! i))"
  have d: "decl_ok os pos" and obj: "objects_ok os pos (a_mem st)" using ok by (simp_all add: state_ok_def)
  have other: "the (o_dest (os ! j)) \<noteq> ?a" if "j < length os" "needs_dest (os ! j)" "j \<noteq> i" for j
    using decl_distinct [OF d that(1) i(1) that(3) that(2) i(2)] .
  have pos: "a \<noteq> ?a" if "pos = Some a" for a
    using d i that by (fastforce simp: decl_ok_def)
  have "well_typed (a_mem st') (the (o_dest o')) (dest_type o')" if o': "o' \<in> set os" "needs_dest o'" for o'
  proof -
    obtain j where j: "j < length os" "o' = os ! j" using o'(1) by (auto simp: in_set_conv_nth)
    have "well_typed (a_mem st) (the (o_dest o')) (dest_type o')" using obj o' by (simp add: objects_ok_def)
    then show ?thesis using other [OF j(1)] o'(2) j(2) by (intro stores_well_typed [OF s]) auto
  qed
  moreover have "well_typed (a_mem st') a UCB_ARG_TYPE_NONE" if "pos = Some a" for a
    using obj that pos [OF that] by (intro stores_well_typed [OF s]) (simp add: objects_ok_def)
  ultimately have "objects_ok os pos (a_mem st')" by (simp add: objects_ok_def)
  then show ?thesis using ok other pos stores_view [OF s] stores_fields [OF s]
    by (auto simp: sets_opt_def state_ok_def opt_view_def)
qed

lemma state_set_seen [simp]: "state_ok sc os pos (set_seen i b st) \<longleftrightarrow> state_ok sc os pos st"
proof -
  have "map unseen (opts (a_parser (set_seen i b st))) = map unseen (opts (a_parser st))"
    using set_seen_same [of st i b] by (simp add: same_opts_def)
  moreover have "parser_ok (a_parser (set_seen i b st)) = parser_ok (a_parser st)"
    using same_opts_ok [OF set_seen_same [of st i b]] by (simp add: parser_ok_def set_seen_def Let_def)
  ultimately show ?thesis by (simp add: state_ok_def) (simp add: set_seen_def Let_def version_given_def)
qed

lemma set_seen_fields [simp]:
  "a_mem (set_seen i b st) = a_mem st" "a_err (set_seen i b st) = a_err st" "a_out (set_seen i b st) = a_out st"
  "opt_view os j (set_seen i b st) = opt_view os j st"
  "i < length (opts (a_parser st)) \<Longrightarrow> was_seen j (set_seen i b st) = (if j = i then b else was_seen j st)"
  by (simp_all add: set_seen_def Let_def opt_view_def was_seen_def nth_list_update)

lemma throws_state [simp]:
  "throws st st' \<Longrightarrow> state_ok sc os pos st' = state_ok sc os pos st" "throws st st' \<Longrightarrow> opt_view os j st' = opt_view os j st"
  "throws st st' \<Longrightarrow> was_seen j st' = was_seen j st"
  by (simp_all add: state_ok_def opt_view_def was_seen_def)

lemma stores_seen [simp]: "stores st a t w st' \<Longrightarrow> was_seen j st' = was_seen j st"
  by (simp add: was_seen_def)

end
