(* ===== verification/Argparse_Run.thy ===== *)
theory Argparse_Run
  imports Argparse_Values
begin

text \<open>
  The specification of parsing on the events of a command line, and the proof that the model of
  \<^verbatim>\<open>ucb_arg_parser_parse\<close> meets it.
\<close>

section \<open>What an option does\<close>

definition accepts :: "float_env \<Rightarrow> ucb_arg_opt_impl \<Rightarrow> byte list \<Rightarrow> bool" where
  "accepts fe o' v \<longleftrightarrow> choice_ok o' v \<and> (o_action o' = UCB_ARG_ACTION_STORE \<longrightarrow> value_view fe (o_type o') v \<noteq> None)"

definition opt_status :: "float_env \<Rightarrow> ucb_arg_opt_impl \<Rightarrow> byte list option \<Rightarrow> ucb_arg_status" where
  "opt_status fe o' v =
     (case o_action o' of
        UCB_ARG_ACTION_HELP \<Rightarrow> UCB_ARG_HELP
      | UCB_ARG_ACTION_VERSION \<Rightarrow> UCB_ARG_VERSION
      | _ \<Rightarrow> if pred_option (accepts fe o') v then UCB_ARG_OK else UCB_ARG_ERROR)"

text \<open>The object after one more value, or one more flag, was given.\<close>

definition given :: "float_env \<Rightarrow> ucb_arg_opt_impl \<Rightarrow> arg_view \<Rightarrow> byte list option \<Rightarrow> arg_view" where
  "given fe o' w v =
     (case o_action o' of
        UCB_ARG_ACTION_STORE \<Rightarrow> the (value_view fe (o_type o') (the v))
      | UCB_ARG_ACTION_APPEND \<Rightarrow> pushed w [the v]
      | UCB_ARG_ACTION_STORE_TRUE \<Rightarrow> VCell (CBool True)
      | UCB_ARG_ACTION_STORE_FALSE \<Rightarrow> VCell (CBool False)
      | UCB_ARG_ACTION_COUNT \<Rightarrow> (case w of VCell (CInt x) \<Rightarrow> VCell (CInt (x + 1)) | _ \<Rightarrow> w)
      | _ \<Rightarrow> w)"

text \<open>What \<^verbatim>\<open>init_default\<close> leaves in the object of an option.\<close>

definition init_view :: "float_env \<Rightarrow> ucb_arg_opt_impl \<Rightarrow> arg_view option" where
  "init_view fe o' =
     (let d = str_text (o_def o') in
      case o_action o' of
        UCB_ARG_ACTION_STORE \<Rightarrow>
          (if o_type o' = UCB_ARG_TYPE_STR then Some (VText (if o_has_def o' then d else []))
           else if o_has_def o' then value_view fe (o_type o') d else map_option VCell (zero_value (o_type o')))
      | UCB_ARG_ACTION_STORE_TRUE \<Rightarrow> map_option (\<lambda>b. VCell (CBool b)) (if o_has_def o' then parse_bool_lit d else Some False)
      | UCB_ARG_ACTION_STORE_FALSE \<Rightarrow> map_option (\<lambda>b. VCell (CBool b)) (if o_has_def o' then parse_bool_lit d else Some True)
      | UCB_ARG_ACTION_COUNT \<Rightarrow> map_option (\<lambda>x. VCell (CInt x)) (if o_has_def o' then parse_int d else Some 0)
      | _ \<Rightarrow> Some (VTexts []))"

text \<open>A step either stores a value or throws.\<close>

definition outcome :: "arg_state \<Rightarrow> nat \<Rightarrow> ucb_arg_type \<Rightarrow> arg_view option \<Rightarrow> bool \<times> arg_state \<Rightarrow> bool" where
  "outcome st a t r = (\<lambda>(ok, st'). case r of Some w \<Rightarrow> ok \<and> stores st a t w st' | None \<Rightarrow> \<not> ok \<and> throws st st')"

lemma outcome_store:
  assumes "o_dest o' = Some a" "well_typed (a_mem st) a (cell_type c)" "cell_ok c"
  shows "ends sc (store_dest o' c st) (outcome st a (cell_type c) (Some (view_cell c)))"
  using store_dest_stores [OF assms] by (rule ends_mono) (auto simp: outcome_def)

lemma outcome_flag:
  assumes "o_dest o' = Some a" "well_typed (a_mem st) a UCB_ARG_TYPE_BOOL"
  shows "ends sc (store_dest o' (CBool b) st) (outcome st a UCB_ARG_TYPE_BOOL (Some (VCell (CBool b))))"
  using outcome_store [OF assms(1), of st "CBool b"] assms(2) by (simp add: cell_type_def cell_ok_def view_cell_def)

lemma outcome_int:
  assumes "o_dest o' = Some a" "well_typed (a_mem st) a UCB_ARG_TYPE_INT"
  shows "ends sc (store_dest o' (CInt x) st) (outcome st a UCB_ARG_TYPE_INT (Some (VCell (CInt x))))"
  using outcome_store [OF assms(1), of st "CInt x"] assms(2) by (simp add: cell_type_def cell_ok_def view_cell_def)

lemma outcome_throw: "ends sc (throw e st) (outcome st a t None)"
  using throw_throws by (rule ends_mono) (auto simp: outcome_def)

lemma outcome_convert:
  assumes "\<not> fatal_returns (e_mem ae)" "o_dest o' = Some a" "well_typed (a_mem st) a (o_type o')"
    "arg_text_ok sc v" "opt_ok o'" "o_type o' \<noteq> UCB_ARG_TYPE_NONE"
  shows "ends sc (convert_store ae o' v st) (outcome st a (o_type o') (value_view (e_float ae) (o_type o') v))"
  using convert_store_stores [OF assms(1-3) assms(4) assms(5,6)] by (rule ends_mono) (auto simp: outcome_def)

lemma outcome_checked:
  assumes f: "\<not> fatal_returns (e_mem ae)" and o': "opt_ok o'"
    and k: "ends sc (k st) (outcome st a t r)"
  shows "ends sc (and_then (check_choices ae o' v st) k) (outcome st a t (if choice_ok o' v then r else None))"
  unfolding and_then_def
  by (rule ends_bind [OF check_choices_ok [OF f o', where v = v and st = st]])
    (use k in \<open>auto simp: outcome_def split: if_splits\<close>)

lemma outcome_push:
  assumes "\<not> fatal_returns (e_mem ae)" "well_typed (a_mem st) a UCB_ARG_TYPE_NONE" "arg_text_ok sc v"
  shows "ends sc (push_copy ae (Some a) v st) (outcome st a UCB_ARG_TYPE_NONE (Some (pushed (view (a_mem st) a) [v])))"
  using push_copy_stores [OF assms] by (rule ends_mono) (auto simp: outcome_def)

section \<open>One option\<close>

text \<open>What is known after option \<open>i\<close> was applied.\<close>

definition applied :: "bool \<Rightarrow> ucb_arg_opt_impl list \<Rightarrow> nat option \<Rightarrow> nat \<Rightarrow> arg_view \<Rightarrow> ucb_arg_status \<Rightarrow> arg_state \<Rightarrow>
    ucb_arg_status \<times> arg_state \<Rightarrow> bool" where
  "applied sc os pos i w s0 st = (\<lambda>(s, st'). s = s0 \<and> state_ok sc os pos st' \<and> (s = UCB_ARG_ERROR \<longrightarrow> a_err st' \<noteq> None)
     \<and> (s = UCB_ARG_OK \<longrightarrow> sets_opt sc os pos i w st st' \<and> (\<forall>j < length os. was_seen j st' = (j = i \<or> was_seen j st))))"

lemma seen_if_applied:
  assumes ok: "state_ok sc os pos st" and i: "i < length os" "needs_dest (os ! i)"
    and r: "ends sc m (outcome st (the (o_dest (os ! i))) (dest_type (os ! i)) r)"
  shows "ends sc (seen_if i m) (applied sc os pos i (the r) (if r \<noteq> None then UCB_ARG_OK else UCB_ARG_ERROR) st)"
  unfolding seen_if_def
proof (rule ends_bind [OF r], clarify)
  fix b st'
  assume a: "outcome st (the (o_dest (os ! i))) (dest_type (os ! i)) r (b, st')"
  have l: "length (opts (a_parser st)) = length os" using state_option(2) [OF ok i(1)] .
  show "ends sc (Ret (if b then (UCB_ARG_OK, set_seen i True st') else (UCB_ARG_ERROR, st')))
      (applied sc os pos i (the r) (if r \<noteq> None then UCB_ARG_OK else UCB_ARG_ERROR) st)"
  proof (cases r)
    case None
    then show ?thesis using a ok throws_fields(3) [of st st'] by (auto simp: outcome_def applied_def)
  next
    case (Some w)
    then have s: "b" "stores st (the (o_dest (os ! i))) (dest_type (os ! i)) w st'" using a by (auto simp: outcome_def)
    have "sets_opt sc os pos i w st st'" by (rule stores_state [OF ok i s(2)])
    then show ?thesis using s Some i(1) l stores_fields [OF s(2)] stores_seen [OF s(2)]
      by (auto simp: applied_def sets_opt_def)
  qed
qed

lemma print_made_ok:
  assumes "makes m t" shows "ends sc (rbind m (print_made wr sink)) (\<lambda>_. True)"
  by (rule succeeds_ends, rule makesD [OF assms])
    (auto simp: print_made_def write_str_def holds_free succeeds_rbind dest: holds_ok)

lemma print_out_ok:
  "ends sc (pr (a_out st)) (\<lambda>_. True) \<Longrightarrow> ends sc (print_out pr st) (\<lambda>st'. \<exists>out. st' = st\<lparr>a_out := out\<rparr>)"
  unfolding print_out_def by (erule ends_bind) auto

lemma state_out [simp]: "state_ok sc os pos (st\<lparr>a_out := out\<rparr>) = state_ok sc os pos st"
  by (simp add: state_ok_def)

text \<open>The values an option is applied to.\<close>

definition value_ok :: "bool \<Rightarrow> ucb_arg_opt_impl \<Rightarrow> byte list option \<Rightarrow> bool" where
  "value_ok sc o' v \<longleftrightarrow> (if opt_takes_value o' then \<exists>x. v = Some x \<and> arg_text_ok sc x else v = None)"

text \<open>There is room to count one more.\<close>

definition room :: "ucb_arg_opt_impl \<Rightarrow> arg_view \<Rightarrow> bool" where
  "room o' w \<longleftrightarrow> (o_action o' = UCB_ARG_ACTION_COUNT \<longrightarrow> w \<noteq> VCell (CInt INT_MAX))"

lemma printed:
  assumes ok: "state_ok sc os pos st" and i: "i < length os"
    and pr: "ends sc (pr (a_out (set_seen i True st))) (\<lambda>_. True)" and s0: "s0 = UCB_ARG_HELP \<or> s0 = UCB_ARG_VERSION"
  shows "ends sc (rbind (print_out pr (set_seen i True st)) (\<lambda>st. Ret (s0, st))) (applied sc os pos i w s0 st)"
  using s0 by (intro ends_bind [OF print_out_ok [where pr = pr, OF pr]]) (auto simp: applied_def ok)

lemma apply_option_applied:
  assumes f: "\<not> fatal_returns (e_mem ae)" and ok: "state_ok sc os pos st" and i: "i < length os"
    and v: "value_ok sc (os ! i) v" and rm: "room (os ! i) (opt_view os i st)"
  shows "ends sc (apply_option ae i v st)
    (applied sc os pos i (given (e_float ae) (os ! i) (opt_view os i st) v) (opt_status (e_float ae) (os ! i) v) st)"
proof -
  let ?o = "opts (a_parser st) ! i" and ?a = "the (o_dest (os ! i))" and ?fe = "e_float ae"
  note so = state_option [OF ok i]
  note u = unseen_eqD [OF so(1)]
  have ch: "choice_ok ?o = choice_ok (os ! i)" by (simp add: choice_ok_def u fun_eq_iff)
  have d: "o_dest ?o = Some ?a" "well_typed (a_mem st) ?a (dest_type (os ! i))" if "needs_dest (os ! i)"
    using so(6,7) [OF that] u(7) by simp_all
  have vw: "view (a_mem st) ?a = opt_view os i st" by (simp add: opt_view_def)
  have pp: "parser_ok (a_parser (set_seen i True st))" "list_all shown_ok (opts (a_parser (set_seen i True st)))"
  proof -
    have st': "state_ok sc os pos (set_seen i True st)" using ok by simp
    then show "parser_ok (a_parser (set_seen i True st))" by (simp add: state_ok_def)
    have "list_all shown_ok (map unseen (opts (a_parser (set_seen i True st))))"
      using st' by (simp add: state_ok_def decl_ok_def list.pred_map o_def)
    then show "list_all shown_ok (opts (a_parser (set_seen i True st)))" by (simp add: list.pred_map o_def)
  qed
  have vg: "0 < s_size (version (a_parser (set_seen i True st)))" if "sc" "o_action (os ! i) = UCB_ARG_ACTION_VERSION"
  proof -
    have "state_ok sc os pos (set_seen i True st)" using ok by simp
    then have "str_text (version (a_parser (set_seen i True st))) \<noteq> []"
      using that i by (auto simp: state_ok_def version_given_def)
    then show ?thesis using pp(1) str_size_zero by (auto simp: parser_ok_def)
  qed
  show ?thesis
  proof (cases "o_action (os ! i)")
    case UCB_ARG_ACTION_STORE
    then have n: "needs_dest (os ! i)" "dest_type (os ! i) = o_type (os ! i)" "opt_takes_value (os ! i)"
      by (simp_all add: needs_dest_def dest_type_def opt_takes_value_def)
    obtain x where x: "v = Some x" "arg_text_ok sc x" using v n(3) by (auto simp: value_ok_def)
    have "ends sc (convert_store ae ?o x st) (outcome st ?a (o_type (os ! i)) (value_view ?fe (o_type (os ! i)) x))"
      using outcome_convert [OF f d(1) [OF n(1)] _ x(2) so(4)] d(2) [OF n(1)] n(2) so(5) [OF UCB_ARG_ACTION_STORE] u(5) by simp
    from seen_if_applied [OF ok i n(1), unfolded n(2), OF outcome_checked [where k = "convert_store ae ?o x", OF f so(4) this, of x]]
    show ?thesis using UCB_ARG_ACTION_STORE x(1)
      by (cases "accepts ?fe (os ! i) x") (auto simp: apply_option_def Let_def u given_def opt_status_def accepts_def ch applied_def
          elim!: ends_mono split: if_splits)
  next
    case UCB_ARG_ACTION_APPEND
    then have n: "needs_dest (os ! i)" "dest_type (os ! i) = UCB_ARG_TYPE_NONE" "opt_takes_value (os ! i)"
      by (simp_all add: needs_dest_def dest_type_def opt_takes_value_def)
    obtain x where x: "v = Some x" "arg_text_ok sc x" using v n(3) by (auto simp: value_ok_def)
    have "ends sc (push_copy ae (o_dest ?o) x st) (outcome st ?a UCB_ARG_TYPE_NONE (Some (pushed (opt_view os i st) [x])))"
      using outcome_push [OF f _ x(2), of st ?a] d [OF n(1)] n(2) vw by simp
    from seen_if_applied [OF ok i n(1), unfolded n(2), OF outcome_checked [where k = "push_copy ae (o_dest ?o) x", OF f so(4) this, of x]]
    show ?thesis using UCB_ARG_ACTION_APPEND x(1)
      by (cases "accepts ?fe (os ! i) x") (auto simp: apply_option_def Let_def u given_def opt_status_def accepts_def ch applied_def
          elim!: ends_mono split: if_splits)
  next
    case UCB_ARG_ACTION_STORE_TRUE
    then have n: "needs_dest (os ! i)" "dest_type (os ! i) = UCB_ARG_TYPE_BOOL" "\<not> opt_takes_value (os ! i)"
      by (simp_all add: needs_dest_def dest_type_def opt_takes_value_def)
    from seen_if_applied [OF ok i n(1), unfolded n(2), OF outcome_flag [OF d(1) [OF n(1)]]] d(2) [OF n(1)] n(2)
    show ?thesis using UCB_ARG_ACTION_STORE_TRUE v n(3)
      by (simp add: apply_option_def Let_def u given_def opt_status_def value_ok_def)
  next
    case UCB_ARG_ACTION_STORE_FALSE
    then have n: "needs_dest (os ! i)" "dest_type (os ! i) = UCB_ARG_TYPE_BOOL" "\<not> opt_takes_value (os ! i)"
      by (simp_all add: needs_dest_def dest_type_def opt_takes_value_def)
    from seen_if_applied [OF ok i n(1), unfolded n(2), OF outcome_flag [OF d(1) [OF n(1)]]] d(2) [OF n(1)] n(2)
    show ?thesis using UCB_ARG_ACTION_STORE_FALSE v n(3)
      by (simp add: apply_option_def Let_def u given_def opt_status_def value_ok_def)
  next
    case UCB_ARG_ACTION_COUNT
    then have n: "needs_dest (os ! i)" "dest_type (os ! i) = UCB_ARG_TYPE_INT" "\<not> opt_takes_value (os ! i)"
      by (simp_all add: needs_dest_def dest_type_def opt_takes_value_def)
    have t: "well_typed (a_mem st) ?a UCB_ARG_TYPE_INT" using d(2) [OF n(1)] n(2) by simp
    obtain x where x: "load_int (a_mem st) (Some ?a) = Ret x" "opt_view os i st = VCell (CInt x)"
      using load_typed(2) [OF t] vw by auto
    have "x \<noteq> INT_MAX" using rm x(2) UCB_ARG_ACTION_COUNT by (simp add: room_def)
    then have "count_dest ?o st = store_dest ?o (CInt (x + 1)) st" using x(1) d(1) [OF n(1)] by (simp add: count_dest_def)
    with seen_if_applied [OF ok i n(1), unfolded n(2), OF outcome_int [OF d(1) [OF n(1)] t]]
    show ?thesis using UCB_ARG_ACTION_COUNT v n(3) x(2)
      by (simp add: apply_option_def Let_def u given_def opt_status_def value_ok_def)
  next
    case UCB_ARG_ACTION_HELP
    have "ends sc (ucb_arg_parser_print_help (e_mem ae) (e_write ae) (a_parser (set_seen i True st)) out) (\<lambda>_. True)" for out
      unfolding ucb_arg_parser_print_help_def by (rule print_made_ok [OF makes_help [OF f pp]])
    from printed [where pr = "ucb_arg_parser_print_help (e_mem ae) (e_write ae) (a_parser (set_seen i True st))", OF ok i this] show ?thesis
      using UCB_ARG_ACTION_HELP by (simp add: apply_option_def Let_def u opt_status_def)
  next
    case UCB_ARG_ACTION_VERSION
    have "ends sc (ucb_arg_parser_print_version (e_mem ae) (e_write ae) (a_parser (set_seen i True st)) out) (\<lambda>_. True)" for out
      unfolding ucb_arg_parser_print_version_def using vg UCB_ARG_ACTION_VERSION by (simp add: print_made_ok [OF makes_version [OF f pp(1)]])
    from printed [where pr = "ucb_arg_parser_print_version (e_mem ae) (e_write ae) (a_parser (set_seen i True st))", OF ok i this] show ?thesis
      using UCB_ARG_ACTION_VERSION by (simp add: apply_option_def Let_def u opt_status_def)
  qed
qed

section \<open>Defaults\<close>

text \<open>A state in which only the object of option \<open>i\<close> may differ, and the option is not seen.\<close>

definition started :: "bool \<Rightarrow> ucb_arg_opt_impl list \<Rightarrow> nat option \<Rightarrow> nat \<Rightarrow> arg_state \<Rightarrow> arg_state \<Rightarrow> bool" where
  "started sc os pos i st st' \<longleftrightarrow> state_ok sc os pos st'
     \<and> (\<forall>j < length os. needs_dest (os ! j) \<and> j \<noteq> i \<longrightarrow> opt_view os j st' = opt_view os j st)
     \<and> (\<forall>a. pos = Some a \<longrightarrow> view (a_mem st') a = view (a_mem st) a)
     \<and> (\<forall>j < length os. was_seen j st' = (j \<noteq> i \<and> was_seen j st))"

definition initialised :: "bool \<Rightarrow> ucb_arg_opt_impl list \<Rightarrow> nat option \<Rightarrow> nat \<Rightarrow> arg_view option \<Rightarrow> arg_state \<Rightarrow> bool \<times> arg_state \<Rightarrow> bool" where
  "initialised sc os pos i r st = (\<lambda>(ok, st'). ok = (r \<noteq> None) \<and> state_ok sc os pos st' \<and> (\<not> ok \<longrightarrow> a_err st' \<noteq> None)
     \<and> (ok \<longrightarrow> started sc os pos i st st' \<and> (needs_dest (os ! i) \<longrightarrow> opt_view os i st' = the r)))"

lemma started_seen:
  "state_ok sc os pos st \<Longrightarrow> i < length os \<Longrightarrow> started sc os pos i st (set_seen i False st)"
  using state_option(2) [where os = os and pos = pos and st = st and i = i and sc = sc] by (auto simp: started_def)

lemma started_stores:
  assumes st: "started sc os pos i st st1" and i: "i < length os" "needs_dest (os ! i)"
    and s: "stores st1 (the (o_dest (os ! i))) (dest_type (os ! i)) w st2"
  shows "started sc os pos i st st2 \<and> opt_view os i st2 = w"
proof -
  have "state_ok sc os pos st1" using st by (simp add: started_def)
  from stores_state [OF this i s] st i show ?thesis by (auto simp: sets_opt_def started_def stores_seen [OF s])
qed

lemma initialisedI:
  assumes st: "started sc os pos i st st1" and i: "i < length os" "needs_dest (os ! i)"
    and m: "ends sc m (outcome st1 (the (o_dest (os ! i))) (dest_type (os ! i)) r)"
  shows "ends sc m (initialised sc os pos i r st)"
proof (rule ends_mono [OF m], clarify)
  fix ok st2
  assume a: "outcome st1 (the (o_dest (os ! i))) (dest_type (os ! i)) r (ok, st2)"
  have k: "state_ok sc os pos st1" using st by (simp add: started_def)
  show "initialised sc os pos i r st (ok, st2)"
  proof (cases r)
    case None
    then show ?thesis using a k throws_fields(3) [of st1 st2] by (auto simp: initialised_def outcome_def)
  next
    case (Some w)
    then have "ok" "stores st1 (the (o_dest (os ! i))) (dest_type (os ! i)) w st2" using a by (auto simp: outcome_def)
    then show ?thesis using started_stores [OF st i, of w st2] Some by (auto simp: initialised_def started_def)
  qed
qed

lemma init_flag_outcome:
  assumes "o_dest o' = Some a" "well_typed (a_mem st) a UCB_ARG_TYPE_BOOL" "opt_ok o'"
  shows "ends sc (init_flag o' b st) (outcome st a UCB_ARG_TYPE_BOOL
    (map_option (\<lambda>b. VCell (CBool b)) (if o_has_def o' then parse_bool_lit (str_text (o_def o')) else Some b)))"
  using assms(3) outcome_flag [OF assms(1,2)] outcome_throw
  by (auto simp: init_flag_def opt_ok_def cstr_text_ok split: option.split)

lemma init_count_outcome:
  assumes "o_dest o' = Some a" "well_typed (a_mem st) a UCB_ARG_TYPE_INT" "opt_ok o'"
  shows "ends sc (init_count o' st) (outcome st a UCB_ARG_TYPE_INT
    (map_option (\<lambda>x. VCell (CInt x)) (if o_has_def o' then parse_int (str_text (o_def o')) else Some 0)))"
  using assms(3) outcome_int [OF assms(1,2)] outcome_throw
  by (auto simp: init_count_def opt_ok_def cstr_text_ok split: option.split)

lemma clear_deep_outcome:
  assumes "o_dest o' = Some a" "well_typed (a_mem st) a UCB_ARG_TYPE_NONE"
  shows "ends sc (clear_deep_dest o' st) (outcome st a UCB_ARG_TYPE_NONE (Some (VTexts [])))"
proof -
  obtain ss where "load_vec (a_mem st) (Some a) = Ret ss" "list_all str_ok ss" using load_typed(3) [OF assms(2)] by blast
  moreover have "ends sc (store_dest o' (CVec []) st) (outcome st a UCB_ARG_TYPE_NONE (Some (VTexts [])))"
    using outcome_store [OF assms(1), of st "CVec []"] assms(2) by (simp add: cell_type_def cell_ok_def view_cell_def)
  ultimately show ?thesis by (simp add: clear_deep_dest_def assms(1) free_choices_ok)
qed

lemma init_string_outcome:
  assumes f: "\<not> fatal_returns (e_mem ae)" and d: "o_dest o' = Some a" and t: "well_typed (a_mem st) a UCB_ARG_TYPE_STR"
    and v: "arg_text_ok sc v"
  shows "ends sc (rbind (load_str (a_mem st) (o_dest o')) (\<lambda>s. rbind (ucb_str_clear s) (\<lambda>s.
      rbind (store_dest o' (CStr s) st) (\<lambda>(_, st). assign_dest ae o' v st))))
    (outcome st a UCB_ARG_TYPE_STR (Some (VText v)))"
proof -
  obtain s where s: "load_str (a_mem st) (Some a) = Ret s" "str_ok s" using load_typed(1) [OF t] by blast
  have "store_dest o' (CStr str_empty) st = Ret (True, st\<lparr>a_mem := (a_mem st)(a \<mapsto> CStr str_empty)\<rparr>)" (is "_ = Ret (True, ?st1)")
    using t by (intro store_dest_ok [OF d]) (simp add: cell_type_def)
  moreover have s1: "stores st a UCB_ARG_TYPE_STR (VText []) ?st1"
    by (rule storesI) (simp_all add: cell_type_def cell_ok_def view_cell_def)
  moreover have "ends sc (assign_dest ae o' v ?st1) (outcome st a UCB_ARG_TYPE_STR (Some (VText v)))"
    by (rule ends_mono [OF assign_dest_stores [OF f d stores_typed [OF s1] v]])
      (use stores_trans [OF s1] in \<open>auto simp: outcome_def\<close>)
  ultimately show ?thesis by (simp add: d s clear_spec)
qed

lemma init_default_ok:
  assumes f: "\<not> fatal_returns (e_mem ae)" and ok: "state_ok sc os pos st" and i: "i < length os"
  shows "ends sc (init_default ae i st) (initialised sc os pos i (init_view (e_float ae) (os ! i)) st)"
proof -
  let ?st = "set_seen i False st" and ?a = "the (o_dest (os ! i))" and ?fe = "e_float ae"
  let ?o = "opts (a_parser ?st) ! i"
  have ok1: "state_ok sc os pos ?st" using ok by simp
  note so = state_option [OF ok1 i] and stt = started_seen [OF ok i]
  note u = unseen_eqD [OF so(1)]
  have d: "o_dest ?o = Some ?a" "well_typed (a_mem ?st) ?a (dest_type (os ! i))" if "needs_dest (os ! i)"
    using so(6,7) [OF that] u(7) by simp_all
  have df: "str_ok (o_def (os ! i))" using so(3) by (simp add: opt_ok_def)
  note dt = str_arg_text [OF df]
  note defs = init_default_def Let_def u init_view_def
  show ?thesis
  proof (cases "o_action (os ! i)")
    case UCB_ARG_ACTION_STORE
    then have n: "needs_dest (os ! i)" "dest_type (os ! i) = o_type (os ! i)" by (simp_all add: needs_dest_def dest_type_def)
    show ?thesis
    proof (cases "o_type (os ! i) = UCB_ARG_TYPE_STR")
      case True
      let ?v = "if o_has_def (os ! i) then str_text (o_def (os ! i)) else []"
      have v: "arg_text_ok sc ?v" using dt by (simp add: arg_text_ok_def PTRDIFF_MAX_def)
      have e: "(if o_has_def (os ! i) then cstr_text (o_def (os ! i)) else Ret []) = Ret ?v" by (simp add: cstr_text_ok [OF df])
      have "ends sc (rbind (load_str (a_mem ?st) (o_dest ?o)) (\<lambda>s. rbind (ucb_str_clear s) (\<lambda>s.
          rbind (store_dest ?o (CStr s) ?st) (\<lambda>(_, st). assign_dest ae ?o ?v st))))
          (outcome ?st ?a UCB_ARG_TYPE_STR (Some (VText ?v)))"
        using d [OF n(1)] n(2) True by (intro init_string_outcome [OF f _ _ v]) simp_all
      from initialisedI [OF stt i n(1), unfolded n(2) True, OF this]
      have "ends sc (rbind (load_str (a_mem ?st) (o_dest ?o)) (\<lambda>s. rbind (ucb_str_clear s) (\<lambda>s.
          rbind (store_dest ?o (CStr s) ?st) (\<lambda>(_, st). rbind (Ret ?v) (\<lambda>d. assign_dest ae ?o d st)))))
          (initialised sc os pos i (Some (VText ?v)) st)" by simp
      then show ?thesis unfolding e [symmetric] using UCB_ARG_ACTION_STORE True
        by (cases "o_has_def (os ! i)") (simp_all add: defs)
    next
      case False
      have ty: "o_type (os ! i) \<noteq> UCB_ARG_TYPE_NONE" using so(5) [OF UCB_ARG_ACTION_STORE] .
      then obtain c where c: "zero_value (o_type (os ! i)) = Some c"
        using False by (cases "o_type (os ! i)") (simp_all add: zero_value_def)
      note zc = zero_value_cell [OF c]
      let ?st1 = "?st\<lparr>a_mem := (a_mem ?st)(?a \<mapsto> c)\<rparr>"
      have z: "store_dest ?o c ?st = Ret (True, ?st1)" using d [OF n(1)] n(2) zc by (intro store_dest_ok) simp_all
      have s1: "stores ?st ?a (dest_type (os ! i)) (VCell c) ?st1" using zc n(2) by (intro storesI) simp_all
      note st1 = started_stores [OF stt i n(1) s1]
      show ?thesis
      proof (cases "o_has_def (os ! i)")
        case True
        have "ends sc (convert_store ae ?o (str_text (o_def (os ! i))) ?st1)
            (outcome ?st1 ?a (dest_type (os ! i)) (value_view ?fe (o_type (os ! i)) (str_text (o_def (os ! i)))))"
          using outcome_convert [OF f d(1) [OF n(1)] _ dt so(4), of ?st1] stores_typed [OF s1] n(2) ty u(5) by simp
        from initialisedI [OF conjunct1 [OF st1] i n(1) this] True show ?thesis
          using UCB_ARG_ACTION_STORE False z c by (simp add: defs zero_dest_def cstr_text_ok [OF df])
      next
        case nd: False
        then show ?thesis
          using UCB_ARG_ACTION_STORE False z c zc st1 by (simp add: defs zero_dest_def initialised_def started_def)
      qed
    qed
  next
    case UCB_ARG_ACTION_STORE_TRUE
    then have n: "needs_dest (os ! i)" "dest_type (os ! i) = UCB_ARG_TYPE_BOOL" by (simp_all add: needs_dest_def dest_type_def)
    from initialisedI [OF stt i n(1), unfolded n(2), OF init_flag_outcome [OF d(1) [OF n(1)] d(2) [OF n(1), unfolded n(2)] so(4), where b = False]]
    show ?thesis using UCB_ARG_ACTION_STORE_TRUE by (cases "o_has_def (os ! i)") (simp_all add: defs)
  next
    case UCB_ARG_ACTION_STORE_FALSE
    then have n: "needs_dest (os ! i)" "dest_type (os ! i) = UCB_ARG_TYPE_BOOL" by (simp_all add: needs_dest_def dest_type_def)
    from initialisedI [OF stt i n(1), unfolded n(2), OF init_flag_outcome [OF d(1) [OF n(1)] d(2) [OF n(1), unfolded n(2)] so(4), where b = True]]
    show ?thesis using UCB_ARG_ACTION_STORE_FALSE by (cases "o_has_def (os ! i)") (simp_all add: defs)
  next
    case UCB_ARG_ACTION_COUNT
    then have n: "needs_dest (os ! i)" "dest_type (os ! i) = UCB_ARG_TYPE_INT" by (simp_all add: needs_dest_def dest_type_def)
    from initialisedI [OF stt i n(1), unfolded n(2), OF init_count_outcome [OF d(1) [OF n(1)] d(2) [OF n(1), unfolded n(2)] so(4)]]
    show ?thesis using UCB_ARG_ACTION_COUNT by (cases "o_has_def (os ! i)") (simp_all add: defs)
  next
    case UCB_ARG_ACTION_APPEND
    then have n: "needs_dest (os ! i)" "dest_type (os ! i) = UCB_ARG_TYPE_NONE" by (simp_all add: needs_dest_def dest_type_def)
    from initialisedI [OF stt i n(1), unfolded n(2), OF clear_deep_outcome [OF d(1) [OF n(1)] d(2) [OF n(1), unfolded n(2)]]]
    show ?thesis using UCB_ARG_ACTION_APPEND by (simp add: defs)
  next
    case UCB_ARG_ACTION_HELP
    then show ?thesis using stt ok1 by (simp add: defs initialised_def needs_dest_def)
  next
    case UCB_ARG_ACTION_VERSION
    then show ?thesis using stt ok1 by (simp add: defs initialised_def needs_dest_def)
  qed
qed

end
