(* ===== verification/Argparse_Text_Props.thy ===== *)
theory Argparse_Text_Props
  imports Argparse_Spec
begin

text \<open>
  Properties of the texts of \<^verbatim>\<open>src/ucb/argparse.c\<close>: wrapping keeps the words and the width, the percent
  signs of an escaped text come back, and the help is the specified text.
\<close>

section \<open>Words and lines\<close>

lemma segs_run:
  assumes "\<forall>x \<in> set v. \<not> P x" "r = [] \<or> P (hd r)"
  shows "segs P (v @ r) = (if v = [] then [] else [v]) @ segs P r"
proof (cases r)
  case Nil
  then show ?thesis using assms(1) by (auto intro: segs_single)
next
  case (Cons c r')
  then show ?thesis using assms segs_append_sep [of P c v r'] by (auto intro: segs_single)
qed

lemma segs_spaces [simp]: "segs blank (replicate n SPACE @ xs) = segs blank xs"
  by (induction n) (simp_all add: blank_def)

lemma segs_skip_spaces: "segs blank (dropWhile (\<lambda>c. c = SPACE) xs) = segs blank xs"
  by (induction xs) (auto simp: blank_def)

lemma first_word:
  defines "word p \<equiv> takeWhile (\<lambda>c. \<not> blank c) p"
  shows "segs blank p = (if word p = [] then [] else [word p]) @ segs blank (dropWhile (\<lambda>c. c = SPACE) (dropWhile (\<lambda>c. \<not> blank c) p))"
proof -
  have "dropWhile (\<lambda>c. \<not> blank c) p = [] \<or> blank (hd (dropWhile (\<lambda>c. \<not> blank c) p))"
    using hd_dropWhile [of "\<lambda>c. \<not> blank c" p] by blast
  moreover have "\<forall>x \<in> set (word p). \<not> blank x" by (auto simp: word_def dest: set_takeWhileD)
  ultimately show ?thesis using segs_run [where P = blank, of "word p" "dropWhile (\<lambda>c. \<not> blank c) p"]
    by (simp add: word_def segs_skip_spaces)
qed

lemma wrap_words:
  "indent \<le> col \<Longrightarrow> segs blank (wrap_spec indent w col p) = segs blank p
     \<and> (indent < col \<longrightarrow> wrap_spec indent w col p = [] \<or> blank (hd (wrap_spec indent w col p)))"
proof (induction indent w col p rule: wrap_spec.induct)
  case (1 indent w col p)
  let ?word = "takeWhile (\<lambda>c. \<not> blank c) p"
  let ?rest = "dropWhile (\<lambda>c. c = SPACE) (dropWhile (\<lambda>c. \<not> blank c) p)"
  have nb: "\<forall>x \<in> set ?word. \<not> blank x" by (auto dest: set_takeWhileD)
  have b: "blank NEWLINE" "blank SPACE" by (simp_all add: blank_def)
  note unf = wrap_spec.simps [of indent w _ p]
  consider "p = []" | "p \<noteq> []" "hd p = NEWLINE" | "p \<noteq> []" "hd p \<noteq> NEWLINE" by blast
  then show ?case
  proof cases
    case 1
    then show ?thesis by (simp add: wrap_spec.simps)
  next
    case 2
    then have "p = NEWLINE # tl p" by (cases p) auto
    then have "segs blank p = segs blank (tl p)" using b by (metis segs_sep)
    then show ?thesis using 1 2 b by (simp add: unf)
  next
    case 3
    have st: "segs blank (?word @ wrap_spec indent w c ?rest) = segs blank p"
      if "segs blank (wrap_spec indent w c ?rest) = segs blank ?rest \<and>
        (indent < c \<longrightarrow> wrap_spec indent w c ?rest = [] \<or> blank (hd (wrap_spec indent w c ?rest)))"
        "?word = [] \<or> indent < c" for c
    proof (cases "?word = []")
      case False
      then show ?thesis using segs_run [OF nb, of "wrap_spec indent w c ?rest"] that first_word [of p] by auto
    qed (use that first_word [of p] in simp)
    have ne: "?word = [] \<or> 0 < length ?word" by simp
    show ?thesis
      using "1.IH"(2) [OF 3 refl refl] "1.IH"(3) [OF 3 refl refl] "1.IH"(4) [OF 3 refl refl] "1.prems" 3 b ne st
      by (auto simp: unf Let_def)
  qed
qed

text \<open>The lines of a text, the first of which begins with \<open>cur\<close>.\<close>

fun lines_from :: "byte list \<Rightarrow> byte list \<Rightarrow> byte list list" where
  "lines_from cur [] = [cur]"
| "lines_from cur (c # cs) = (if c = NEWLINE then cur # lines_from [] cs else lines_from (cur @ [c]) cs)"

lemma lines_from_run: "NEWLINE \<notin> set v \<Longrightarrow> lines_from cur (v @ r) = lines_from (cur @ v) r"
  by (induction v arbitrary: cur) auto

lemma lines_from_indent: "lines_from cur (replicate k SPACE @ r) = lines_from (cur @ replicate k SPACE) r"
  by (rule lines_from_run) (simp add: SPACE_def NEWLINE_def)

text \<open>A line is the indentation and either fits the width or has at most one word.\<close>

definition line_fits :: "nat \<Rightarrow> nat \<Rightarrow> byte list \<Rightarrow> bool" where
  "line_fits indent w l \<longleftrightarrow>
     (\<exists>v. l = replicate indent SPACE @ v \<and> (length l \<le> w \<or> (\<forall>x \<in> set v. \<not> blank x)))"

lemma line_fits_word: "\<forall>x \<in> set v. \<not> blank x \<Longrightarrow> line_fits indent w (replicate indent SPACE @ v)"
  by (auto simp: line_fits_def)

lemma line_fits_indent: "line_fits indent w cur \<Longrightarrow> length cur \<le> indent \<Longrightarrow> cur = replicate indent SPACE"
  by (auto simp: line_fits_def)

lemma line_fits_more: "line_fits indent w cur \<Longrightarrow> length (cur @ v) \<le> w \<Longrightarrow> line_fits indent w (cur @ v)"
  by (auto simp: line_fits_def)

lemma wrap_lines:
  "line_fits indent w cur \<Longrightarrow> length cur = col \<Longrightarrow>
   list_all (line_fits indent w) (lines_from cur (wrap_spec indent w col p))"
proof (induction indent w col p arbitrary: cur rule: wrap_spec.induct)
  case (1 indent w col p)
  let ?word = "takeWhile (\<lambda>c. \<not> blank c) p"
  let ?rest = "dropWhile (\<lambda>c. c = SPACE) (dropWhile (\<lambda>c. \<not> blank c) p)"
  let ?ind = "replicate indent SPACE"
  have nb: "\<forall>x \<in> set ?word. \<not> blank x" by (auto dest: set_takeWhileD)
  have "blank NEWLINE" by (simp add: blank_def)
  then have nn: "NEWLINE \<notin> set ?word" using nb by blast
  note unf = wrap_spec.simps [of indent w _ p]
  have wd: "line_fits indent w (?ind @ ?word)" by (rule line_fits_word [OF nb])
  have ind: "line_fits indent w ?ind" using line_fits_word [of "[]" indent w] by simp
  consider "p = []" | "p \<noteq> []" "hd p = NEWLINE" | "p \<noteq> []" "hd p \<noteq> NEWLINE" by blast
  then show ?case
  proof cases
    case 1
    then show ?thesis using "1.prems"(1) by (simp add: wrap_spec.simps [of _ _ _ "[]"])
  next
    case 2
    have "list_all (line_fits indent w) (lines_from ?ind (wrap_spec indent w indent (tl p)))"
      by (rule "1.IH"(1) [OF 2 ind]) simp
    then show ?thesis using "1.prems"(1) 2 by (simp add: unf lines_from_indent)
  next
    case 3
    note ih = "1.IH"(2-4) [OF 3 refl refl]
    have sp: "SPACE \<noteq> NEWLINE" by (simp add: SPACE_def NEWLINE_def)
    consider "col \<le> indent" | "\<not> col \<le> indent" "col + 1 + length ?word > w" | "\<not> col \<le> indent" "\<not> col + 1 + length ?word > w" by linarith
    then show ?thesis
    proof cases
      case 1
      then have cur: "cur = ?ind" using line_fits_indent [OF "1.prems"(1)] "1.prems"(2) by simp
      have "list_all (line_fits indent w) (lines_from (cur @ ?word) (wrap_spec indent w (col + length ?word) ?rest))"
        by (rule ih(1) [OF 1]) (use wd cur "1.prems"(2) in simp_all)
      then show ?thesis using 1 3 by (simp add: unf Let_def lines_from_run [OF nn])
    next
      case 2
      have "list_all (line_fits indent w) (lines_from (?ind @ ?word) (wrap_spec indent w (indent + length ?word) ?rest))"
        by (rule ih(2) [OF 2 wd]) simp
      then show ?thesis using 2 3 "1.prems"(1) by (simp add: unf Let_def lines_from_indent lines_from_run [OF nn])
    next
      case c: 3
      have "line_fits indent w (cur @ SPACE # ?word)"
        using c(2) "1.prems"(2) by (intro line_fits_more [OF "1.prems"(1)]) simp
      then have "list_all (line_fits indent w) (lines_from (cur @ SPACE # ?word) (wrap_spec indent w (col + 1 + length ?word) ?rest))"
        by (rule ih(3) [OF c]) (use "1.prems"(2) in simp)
      then show ?thesis using c 3 sp by (simp add: unf Let_def lines_from_run [OF nn])
    qed
  qed
qed

section \<open>Escaped texts\<close>

fun escape :: "byte list \<Rightarrow> byte list" where
  "escape [] = []"
| "escape (c # cs) = (if c = PERCENT then [PERCENT, PERCENT] else [c]) @ escape cs"

lemma escape_run: "takeWhile (\<lambda>c. c \<noteq> PERCENT) (escape t) = takeWhile (\<lambda>c. c \<noteq> PERCENT) t"
  "dropWhile (\<lambda>c. c \<noteq> PERCENT) (escape t) = escape (dropWhile (\<lambda>c. c \<noteq> PERCENT) t)"
  by (induction t) simp_all

lemma interp_step:
  "s \<noteq> [] \<Longrightarrow> interp_token p opt s = (n, u) \<Longrightarrow> interp_spec p opt s = u @ interp_spec p opt (drop n s)"
  by (subst interp_spec.simps) simp

lemma interp_escape: "interp_spec p opt (escape t) = t"
proof (induction "length t" arbitrary: t rule: less_induct)
  case less
  show ?case
  proof (cases t)
    case Nil
    then show ?thesis by (simp add: interp_spec.simps)
  next
    case (Cons c cs)
    have ne: "escape t \<noteq> []" by (simp add: Cons)
    show ?thesis
    proof (cases "c = PERCENT")
      case True
      have "interp_token p opt (escape t) = (2, [PERCENT])"
        by (subst interp_token_percent) (simp_all add: Cons True lit_def PERCENT_def)
      from interp_step [OF ne this] less [of cs] show ?thesis by (simp add: Cons True)
    next
      case False
      let ?P = "\<lambda>c. c \<noteq> PERCENT"
      have h: "hd (escape t) \<noteq> PERCENT" using False by (simp add: Cons)
      have tok: "interp_token p opt (escape t) = (length (takeWhile ?P t), takeWhile ?P t)"
        by (simp add: interp_token.simps h escape_run Let_def)
      have d: "drop (length (takeWhile ?P t)) (escape t) = escape (dropWhile ?P t)"
        by (metis escape_run dropWhile_eq_drop)
      have "length (dropWhile ?P t) < length t"
        using length_dropWhile_le [of ?P cs] False by (simp add: Cons)
      from interp_step [OF ne tok] less [OF this] show ?thesis by (simp add: d)
    qed
  qed
qed

section \<open>Properties\<close>

definition mk_str :: "byte list \<Rightarrow> ucb_str" where
  "mk_str t = \<lparr>s_blk = BMem (t @ [0]), s_size = length t, s_alloc = length t + 1\<rparr>"

lemma mk_str_holds: "valid_text t \<Longrightarrow> length t < 1000 \<Longrightarrow> holds (mk_str t) t"
  by (simp add: holds_def mk_str_def str_ok_def tight_def str_text_def PTRDIFF_MAX_def)

lemma mk_str_lit: "list_all (\<lambda>c. ascii (of_char c)) l \<Longrightarrow> length l < 1000 \<Longrightarrow> holds (mk_str (lit l)) (lit l)"
  using valid_lit [of l "[]"] by (intro mk_str_holds) (simp_all add: lit_def)

text \<open>An option \<^verbatim>\<open>-n\<close>, \<^verbatim>\<open>--num\<close> with a default, and a parser that has it.\<close>

definition demo_opt :: ucb_arg_opt_impl where
  "demo_opt = \<lparr>o_name = mk_str (lit ''num''), o_short = 110, o_long = mk_str (lit ''num''),
     o_canon = mk_str (lit ''-n/--num''), o_type = UCB_ARG_TYPE_INT, o_action = UCB_ARG_ACTION_STORE,
     o_dest = Some 0, o_def = mk_str (lit ''7''), o_has_def = True, o_metavar = str_empty,
     o_help = mk_str (lit ''how many times''), o_choices = None, o_required = False, o_seen = False\<rparr>"

definition demo_parser :: ucb_arg_parser where
  "demo_parser = \<lparr>prog_base = mk_str (lit ''prog''), usage = str_empty, description = mk_str (lit ''%prog repeats''),
     version = mk_str (lit ''1''), width = 80, opts = [demo_opt]\<rparr>"

lemma demo_opt_ok: "shown_ok demo_opt" "opt_ok demo_opt"
  unfolding shown_ok_def opt_ok_def demo_opt_def
  by (simp_all add: mk_str_lit [THEN holds_ok(1)] mk_str_lit [THEN holds_ok(2)] ascii_def) (simp_all add: lit_def ascii_def)

lemma demo_parser_ok: "parser_ok demo_parser" "list_all shown_ok (opts demo_parser)"
  unfolding parser_ok_def demo_parser_def
  by (simp_all add: demo_opt_ok mk_str_lit [THEN holds_ok(1)] ascii_def)

text \<open>
  C36: \<^verbatim>\<open>ucb_arg_parser_help_str\<close> of a parser of width at least 20 whose options have an ASCII name or a
  metavar runs out of memory or returns the help text: usage, wrapped description, and for every
  option its names and its interpolated, wrapped help.  The helps begin in one column, two behind
  the longest names but at most \<open>width - 20\<close> (\<open>help_column\<close>); names that reach it get a line of
  their own.  \<open>help_text\<close> uses no function of the model.
\<close>

theorem ucb_arg_parser_help_str_text:
  assumes "\<not> fatal_returns me" "parser_ok p" "list_all shown_ok (opts p)"
  shows "succeeds (ucb_arg_parser_help_str me p) (\<lambda>r. \<exists>s. r = Some s \<and> str_ok s \<and> str_text s = help_text p)"
  using makes_help [OF assms] unfolding makes_def ucb_arg_parser_help_str_def
  by (rule succeeds_mono) (auto simp: holds_def)

theorem ucb_arg_parser_help_str_text_witness:
  "succeeds (ucb_arg_parser_help_str me_ok demo_parser) (\<lambda>r. \<exists>s. r = Some s \<and> str_ok s \<and> str_text s = help_text demo_parser)"
  by (rule ucb_arg_parser_help_str_text [OF _ demo_parser_ok]) (simp add: me_ok_def)

text \<open>
  C37: \<^verbatim>\<open>append_wrapped\<close> (short of running out of memory) appends the words of the text, all of them and in
  order, and ends with a newline.  Counting the indentation of the first line, which the caller has
  already written, every line begins with the indentation and has at most \<open>w\<close> bytes; only a line
  that is the indentation and a single word may be longer.
\<close>

theorem append_wrapped_words_and_width:
  assumes f: "\<not> fatal_returns me" and out: "str_ok out" "tight out" and t: "valid_text t" "length t < PTRDIFF_MAX"
  shows "succeeds (append_wrapped me out t indent w) (\<lambda>s. str_ok s \<and> (\<exists>ws. str_text s = str_text out @ ws @ [NEWLINE]
    \<and> segs blank ws = segs blank t
    \<and> (\<forall>l \<in> set (lines_from (replicate indent SPACE) ws).
          \<exists>v. l = replicate indent SPACE @ v \<and> (length l \<le> w \<or> (\<forall>x \<in> set v. \<not> blank x)))))"
proof -
  let ?ws = "wrap_spec indent w indent t"
  have "\<forall>l \<in> set (lines_from (replicate indent SPACE) ?ws). line_fits indent w l"
    using line_fits_word [of "[]" indent w] wrap_lines [of indent w "replicate indent SPACE" indent t]
    by (simp add: list_all_iff)
  moreover have "segs blank ?ws = segs blank t" using wrap_words [of indent indent w t] by simp
  moreover have "succeeds (append_wrapped me out t indent w) (\<lambda>s. holds s (str_text out @ ?ws @ [NEWLINE]))"
    using emitsD [OF emits_wrapped [OF f], of t out] out t by (simp add: holds_def piece_def)
  ultimately show ?thesis unfolding line_fits_def by (elim succeeds_mono) (auto simp: holds_def)
qed

theorem append_wrapped_words_and_width_witness:
  "succeeds (append_wrapped me_ok str_empty (lit ''how many times'') 2 10) (\<lambda>s. str_ok s \<and>
    (\<exists>ws. str_text s = str_text str_empty @ ws @ [NEWLINE] \<and> segs blank ws = segs blank (lit ''how many times'')
    \<and> (\<forall>l \<in> set (lines_from (replicate 2 SPACE) ws).
          \<exists>v. l = replicate 2 SPACE @ v \<and> (length l \<le> 10 \<or> (\<forall>x \<in> set v. \<not> blank x)))))"
proof (rule append_wrapped_words_and_width)
  show "valid_text (lit ''how many times'')" using valid_lit [of "''how many times''" "[]"] by (simp add: ascii_def)
qed (use holds_empty in \<open>simp_all add: holds_def PTRDIFF_MAX_def lit_def\<close>)

text \<open>A text whose percent signs are doubled comes back from \<^verbatim>\<open>interp_text\<close> as it was.\<close>

theorem interp_text_escape:
  assumes "\<not> fatal_returns me" "parser_ok p" "pred_option shown_ok opt" "str_ok src" "str_text src = escape t"
  shows "succeeds (interp_text me p opt src) (\<lambda>r. \<exists>s. r = Some s \<and> str_ok s \<and> str_text s = t)"
  using makes_interp [OF assms(1-4)] unfolding makes_def
  by (rule succeeds_mono) (auto simp: holds_def assms(5) interp_escape)

theorem interp_text_escape_witness:
  "succeeds (interp_text me_ok demo_parser (Some demo_opt) (mk_str (lit ''50%%''))) (\<lambda>r. \<exists>s. r = Some s \<and> str_ok s \<and> str_text s = lit ''50%'')"
  by (rule interp_text_escape [OF _ demo_parser_ok(1)])
    (simp_all add: me_ok_def demo_opt_ok mk_str_lit [THEN holds_ok(1)] mk_str_lit [THEN holds_ok(2)] ascii_def, simp add: lit_def PERCENT_def)

text \<open>A name that is not ASCII ends the process when it has to stand for the value.\<close>

lemma utf8_single: "utf8s cps = [c] \<Longrightarrow> list_all is_scalar cps \<Longrightarrow> unat c < 128"
  by (cases cps) (auto simp: utf8_def Let_def append_eq_Cons_conv unsigned_ucast_eq take_bit_eq_mod split: if_splits)

lemma append_lone_byte:
  assumes "128 \<le> unat c" shows "append_n me out [c] 1 = Abort UCB_ERROR_INVALID_ARG"
proof -
  have "\<not> valid_text [c]" using utf8_single [of _ c] assms by (auto simp: valid_text_def wf_utf8_def) (metis not_le)
  moreover have "src_text [c] 1 [c]" by (simp add: src_text_def PTRDIFF_MAX_def)
  ultimately show ?thesis by (simp add: append_n_def ucb_str_append_cstr_def deref_def verify_src)
qed

lemma metavar_non_ascii_aborts:
  "str_ok (mk_str [195, 165])"
  "append_metavar me str_empty (demo_opt\<lparr>o_name := mk_str [195, 165]\<rparr>) = Abort UCB_ERROR_INVALID_ARG"
proof -
  have "wf_utf8 [195, 165]" unfolding wf_utf8_def by (rule exI [of _ "[229]"]) (simp add: is_scalar_def utf8_def)
  then have h: "holds (mk_str [195, 165]) [195, 165]" by (intro mk_str_holds) (simp_all add: valid_text_def)
  then show "str_ok (mk_str [195, 165])" by (rule holds_ok)
  have "upper_char 195 = 195" by (simp add: upper_char_def)
  then show "append_metavar me str_empty (demo_opt\<lparr>o_name := mk_str [195, 165]\<rparr>) = Abort UCB_ERROR_INVALID_ARG"
    using append_lone_byte [of 195] by (simp add: append_metavar_def demo_opt_def holds_ok [OF h])
qed

end
