(* ===== verification/Argparse_Correct.thy ===== *)
theory Argparse_Correct
  imports Argparse_Run Argparse_Text_Props
begin

text \<open>
  Parsing as a whole: the defaults, the events of the arguments in order, and the required options.
  The status of the call is a function of the declaration and the arguments; when it is
  \<open>UCB_ARG_OK\<close>, every object holds its default changed by the values given to its option.
\<close>

section \<open>Events\<close>

text \<open>The values given to option \<open>i\<close>, and the positional arguments, in order.\<close>

fun vals :: "nat \<Rightarrow> arg_event list \<Rightarrow> byte list option list" where
  "vals i [] = []"
| "vals i (EOpt j v # es) = (if j = i then v # vals i es else vals i es)"
| "vals i (e # es) = vals i es"

fun posns :: "arg_event list \<Rightarrow> byte list list" where
  "posns [] = []"
| "posns (EPos a # es) = a # posns es"
| "posns (e # es) = posns es"

definition event_status :: "float_env \<Rightarrow> ucb_arg_opt_impl list \<Rightarrow> arg_event \<Rightarrow> ucb_arg_status" where
  "event_status fe os e =
     (case e of EOpt i v \<Rightarrow> opt_status fe (os ! i) v | EPos _ \<Rightarrow> UCB_ARG_OK | EBad _ \<Rightarrow> UCB_ARG_ERROR)"

fun events_status :: "float_env \<Rightarrow> ucb_arg_opt_impl list \<Rightarrow> arg_event list \<Rightarrow> ucb_arg_status" where
  "events_status fe os [] = UCB_ARG_OK"
| "events_status fe os (e # es) =
     (if event_status fe os e = UCB_ARG_OK then events_status fe os es else event_status fe os e)"

definition event_ok :: "bool \<Rightarrow> ucb_arg_opt_impl list \<Rightarrow> arg_event \<Rightarrow> bool" where
  "event_ok sc os e =
     (case e of EOpt i v \<Rightarrow> i < length os \<and> value_ok sc (os ! i) v | EPos a \<Rightarrow> arg_text_ok sc a | EBad _ \<Rightarrow> True)"

lemma arg_text_after: "arg_text_ok sc (xs @ c # ys) \<Longrightarrow> ascii c \<Longrightarrow> arg_text_ok sc ys"
  by (auto simp: arg_text_ok_def dest: valid_split(2))

lemma arg_text_drop:
  assumes "arg_text_ok sc v" "n < length v" "ascii (v ! n)" shows "arg_text_ok sc (drop (Suc n) v)"
  using arg_text_after [of sc "take n v" "v ! n" "drop (Suc n) v"] assms by (simp add: id_take_nth_drop [symmetric])

lemma find_short_char: "find_short os c k = Some i \<Longrightarrow> \<exists>o' \<in> set os. o_short o' = c"
  by (induction os arbitrary: k) (auto split: if_splits)

lemma value_event_ok:
  assumes "i < length os" "opt_takes_value (os ! i)" "pred_option (arg_text_ok sc) a" "pred_option (arg_text_ok sc) n"
  shows "event_ok sc os (fst (value_event os i a n))"
  using assms by (auto simp: value_event_def event_ok_def value_ok_def split: option.split)

lemma scan_long_ok:
  assumes "arg_text_ok sc body" "pred_option (arg_text_ok sc) n" shows "event_ok sc os (fst (scan_long os body n))"
proof (cases "long_index os (takeWhile (\<lambda>c. c \<noteq> EQ_SIGN) body) 0")
  case None
  then show ?thesis by (simp add: scan_long_def event_ok_def Let_def)
next
  case (Some i)
  then have "i < length os" using long_index_less by fastforce
  moreover have "arg_text_ok sc (drop (Suc (length name)) body)" if "name \<noteq> body" "name = takeWhile (\<lambda>c. c \<noteq> EQ_SIGN) body" for name
  proof -
    have "length name < length body" using that by (metis length_takeWhile_le le_neq_implies_less takeWhile_eq_take take_all order_refl)
    moreover have "body ! length name = EQ_SIGN" using that(2) calculation nth_length_takeWhile by blast
    ultimately show ?thesis using assms(1) by (intro arg_text_drop) (simp_all add: EQ_SIGN_def ascii_def)
  qed
  ultimately show ?thesis using Some assms
    by (auto simp: scan_long_def Let_def event_ok_def value_ok_def
        intro!: value_event_ok [unfolded event_ok_def])
qed

lemma scan_short_ok:
  "list_all opt_ok os \<Longrightarrow> arg_text_ok sc cs \<Longrightarrow> pred_option (arg_text_ok sc) n \<Longrightarrow>
   list_all (event_ok sc os) (fst (scan_short os cs n))"
proof (induction cs)
  case (Cons c cs)
  show ?case
  proof (cases "find_short os c 0")
    case None
    then show ?thesis by (simp add: event_ok_def)
  next
    case (Some i)
    then have i: "i < length os" using find_short_less by fastforce
    have "ascii c" using find_short_char [OF Some] Cons.prems(1,2) by (auto simp: list_all_iff opt_ok_def arg_text_ok_def)
    then have cs: "arg_text_ok sc cs" using arg_text_after [of sc "[]" c cs] Cons.prems(2) by simp
    show ?thesis
    proof (cases "opt_takes_value (os ! i)")
      case True
      then have "event_ok sc os (fst (value_event os i (if cs = [] then None else Some cs) n))"
        using cs Cons.prems(3) by (intro value_event_ok i) simp_all
      then show ?thesis using Some True by (simp add: split_def)
    next
      case False
      then have "event_ok sc os (EOpt i None)" using i by (simp add: event_ok_def value_ok_def)
      then show ?thesis using Some False Cons.IH [OF Cons.prems(1) cs Cons.prems(3)] by (simp add: split_def)
    qed
  qed
qed simp

lemma scan_events_ok: "list_all opt_ok os \<Longrightarrow> list_all (arg_text_ok sc) args \<Longrightarrow> list_all (event_ok sc os) (scan os nm args)"
proof (induction "length args" arbitrary: nm args rule: less_induct)
  case less
  show ?case
  proof (cases args)
    case (Cons arg rest)
    have n: "pred_option (arg_text_ok sc) (next_arg rest)" using less.prems Cons by (cases rest) (simp_all add: next_arg_def)
    have arg: "arg_text_ok sc arg" using less.prems Cons by simp
    have a: "arg_text_ok sc (drop 2 arg)" if "is_long arg"
    proof -
      have "ascii DASH" by (simp add: DASH_def ascii_def)
      then show ?thesis using that arg_text_drop [OF arg, of 1] by (simp add: is_long_def numeral_2_eq_2)
    qed
    have b: "arg_text_ok sc (drop 1 arg)" if "is_short arg"
      using that arg arg_text_drop [of sc arg 0] by (cases arg) (simp_all add: is_short_def DASH_def ascii_def)
    have ih: "list_all (event_ok sc os) (scan os b rest)" "list_all (event_ok sc os) (scan os b (tl rest))" for b
      using less.hyps [of rest b] less.hyps [of "tl rest" b] less.prems Cons by (cases rest; simp)+
    obtain e tk es tk' where "scan_long os (drop 2 arg) (next_arg rest) = (e, tk)" "scan_short os (drop 1 arg) (next_arg rest) = (es, tk')"
      by fastforce
    then show ?thesis
      using ih scan_long_ok [OF a n, of os] scan_short_ok [OF less.prems(1) b n] arg Cons by (auto simp: event_ok_def)
  qed simp
qed

lemma pushed_simps [simp]: "pushed w [] = w" "pushed (pushed w xs) ys = pushed w (xs @ ys)"
  by (simp_all add: pushed_def split: arg_view.split)

text \<open>There is room for all the counting.\<close>

definition counts_room :: "ucb_arg_opt_impl list \<Rightarrow> arg_state \<Rightarrow> arg_event list \<Rightarrow> bool" where
  "counts_room os st es \<longleftrightarrow>
     (\<forall>i < length os. o_action (os ! i) = UCB_ARG_ACTION_COUNT \<longrightarrow>
        (\<exists>x. opt_view os i st = VCell (CInt x) \<and> x + int (length (vals i es)) \<le> INT_MAX))"

text \<open>What is known after a run of events.\<close>

definition ran :: "bool \<Rightarrow> float_env \<Rightarrow> ucb_arg_opt_impl list \<Rightarrow> nat option \<Rightarrow> arg_event list \<Rightarrow> arg_state \<Rightarrow> ucb_arg_status \<times> arg_state \<Rightarrow> bool" where
  "ran sc fe os pos es st = (\<lambda>(s, st'). s = events_status fe os es \<and> state_ok sc os pos st' \<and> (s = UCB_ARG_ERROR \<longrightarrow> a_err st' \<noteq> None)
     \<and> (s = UCB_ARG_OK \<longrightarrow>
          (\<forall>i < length os. needs_dest (os ! i) \<longrightarrow> opt_view os i st' = foldl (given fe (os ! i)) (opt_view os i st) (vals i es))
        \<and> (\<forall>i < length os. was_seen i st' = (was_seen i st \<or> vals i es \<noteq> []))
        \<and> (\<forall>a. pos = Some a \<longrightarrow> view (a_mem st') a = pushed (view (a_mem st) a) (posns es))))"

lemma stores_pos:
  assumes ok: "state_ok sc os pos st" and p: "pos = Some a" and s: "stores st a UCB_ARG_TYPE_NONE w st'"
  shows "state_ok sc os pos st' \<and> (\<forall>j < length os. needs_dest (os ! j) \<longrightarrow> opt_view os j st' = opt_view os j st)"
proof -
  have d: "decl_ok os pos" and obj: "objects_ok os pos (a_mem st)" using ok by (simp_all add: state_ok_def)
  have ne: "the (o_dest o') \<noteq> a" if "o' \<in> set os" "needs_dest o'" for o'
    using d that p by (fastforce simp: decl_ok_def)
  have "objects_ok os pos (a_mem st')" unfolding objects_ok_def
    using obj ne p by (auto simp: objects_ok_def intro!: stores_well_typed [OF s])
  then show ?thesis using ok ne stores_view [OF s] stores_fields [OF s] by (auto simp: state_ok_def opt_view_def)
qed

lemma ran_event:
  assumes f: "\<not> fatal_returns (e_mem ae)" and ok: "state_ok sc os pos st" and e: "event_ok sc os e" and c: "counts_room os st (e # es)"
  shows "ends sc (run_event ae pos e st) (ran sc (e_float ae) os pos [e] st)"
proof (cases e)
  case (EOpt i v)
  then have i: "i < length os" "value_ok sc (os ! i) v" using e by (simp_all add: event_ok_def)
  have "room (os ! i) (opt_view os i st)" using c i(1) EOpt by (fastforce simp: counts_room_def room_def)
  from apply_option_applied [OF f ok i this] show ?thesis
    unfolding run_event_def EOpt arg_event.case
    by (rule ends_mono) (auto simp: applied_def ran_def event_status_def sets_opt_def)
next
  case (EPos a)
  show ?thesis
  proof (cases pos)
    case None
    then show ?thesis using ok by (simp add: EPos run_event_def push_positional_def ran_def event_status_def)
  next
    case (Some b)
    have t: "well_typed (a_mem st) b UCB_ARG_TYPE_NONE" using ok Some by (simp add: state_ok_def objects_ok_def)
    have "ends sc (push_copy ae (Some b) a st) (\<lambda>(ok, st'). ok \<and> stores st b UCB_ARG_TYPE_NONE (pushed (view (a_mem st) b) [a]) st')"
      using e by (intro push_copy_stores [OF f t]) (simp add: EPos event_ok_def)
    then show ?thesis
      unfolding run_event_def EPos arg_event.case push_positional_def Some option.case
      by (rule ends_bind)
        (use stores_pos [OF ok Some] in \<open>auto simp: ran_def event_status_def stores_view Some\<close>)
  qed
next
  case (EBad x)
  then show ?thesis using ok
    by (simp add: run_event_def fail_Ret ran_def event_status_def) (simp add: state_ok_def)
qed

lemma ran_bad:
  assumes "ran sc fe os pos [e] st (s, st1)" "s \<noteq> UCB_ARG_OK" shows "ran sc fe os pos (e # es) st (s, st1)"
  using assms by (auto simp: ran_def split: if_splits)

lemma ran_step:
  assumes a: "ran sc fe os pos [e] st (UCB_ARG_OK, st1)" and b: "ran sc fe os pos es st1 r" shows "ran sc fe os pos (e # es) st r"
proof -
  have v: "vals i (e # es) = vals i [e] @ vals i es" for i by (cases e) simp_all
  have p: "posns (e # es) = posns [e] @ posns es" by (cases e) simp_all
  have "event_status fe os e = UCB_ARG_OK" using a by (auto simp: ran_def split: if_splits)
  then show ?thesis using a b unfolding ran_def v p by (auto split: if_splits)
qed

lemma ran_room:
  assumes a: "ran sc fe os pos [e] st (UCB_ARG_OK, st1)" and c: "counts_room os st (e # es)" shows "counts_room os st1 es"
  unfolding counts_room_def
proof (intro allI impI)
  fix i
  assume i: "i < length os" "o_action (os ! i) = UCB_ARG_ACTION_COUNT"
  then have n: "needs_dest (os ! i)" by (simp add: needs_dest_def)
  obtain x where x: "opt_view os i st = VCell (CInt x)" "x + int (length (vals i (e # es))) \<le> INT_MAX"
    using c i by (auto simp: counts_room_def)
  have w: "opt_view os i st1 = foldl (given fe (os ! i)) (opt_view os i st) (vals i [e])" using a i n by (simp add: ran_def)
  have "\<exists>k. length (vals i (e # es)) = k + length (vals i es) \<and> opt_view os i st1 = VCell (CInt (x + int k))"
    using w x(1) i(2) by (cases e) (auto simp: given_def)
  then show "\<exists>x. opt_view os i st1 = VCell (CInt x) \<and> x + int (length (vals i es)) \<le> INT_MAX" using x(2) by auto
qed

lemma run_events_ran:
  "\<not> fatal_returns (e_mem ae) \<Longrightarrow> state_ok sc os pos st \<Longrightarrow> list_all (event_ok sc os) es \<Longrightarrow> counts_room os st es \<Longrightarrow>
   ends sc (run_events ae pos es st) (ran sc (e_float ae) os pos es st)"
proof (induction es arbitrary: st)
  case Nil
  then show ?case by (simp add: ran_def)
next
  case (Cons e es)
  note f = Cons.prems(1)
  have e: "event_ok sc os e" "list_all (event_ok sc os) es" using Cons.prems(3) by simp_all
  show ?case
    unfolding run_events.simps go_on_def
  proof (rule ends_bind [OF ran_event [OF f Cons.prems(2) e(1) Cons.prems(4)]], clarify)
    fix s st1
    assume r: "ran sc (e_float ae) os pos [e] st (s, st1)"
    show "ends sc (if s \<noteq> UCB_ARG_OK then Ret (s, st1) else run_events ae pos es st1) (ran sc (e_float ae) os pos (e # es) st)"
    proof (cases "s = UCB_ARG_OK")
      case True
      then have "state_ok sc os pos st1" "counts_room os st1 es"
        using r ran_room [OF _ Cons.prems(4)] by (auto simp: ran_def)
      from Cons.IH [OF f this(1) e(2) this(2)] show ?thesis
        using r True by (auto elim!: ends_mono ran_step)
    qed (use r in \<open>simp add: ran_bad\<close>)
  qed
qed

section \<open>Defaults and required options\<close>

definition defaulted :: "bool \<Rightarrow> float_env \<Rightarrow> ucb_arg_opt_impl list \<Rightarrow> nat option \<Rightarrow> nat list \<Rightarrow> arg_state \<Rightarrow> bool \<times> arg_state \<Rightarrow> bool" where
  "defaulted sc fe os pos is st = (\<lambda>(ok, st'). ok = (\<forall>i \<in> set is. init_view fe (os ! i) \<noteq> None) \<and> state_ok sc os pos st'
     \<and> (\<not> ok \<longrightarrow> a_err st' \<noteq> None)
     \<and> (ok \<longrightarrow>
          (\<forall>j < length os. needs_dest (os ! j) \<longrightarrow>
             opt_view os j st' = (if j \<in> set is then the (init_view fe (os ! j)) else opt_view os j st))
        \<and> (\<forall>a. pos = Some a \<longrightarrow> view (a_mem st') a = view (a_mem st) a)
        \<and> (\<forall>j < length os. was_seen j st' = (j \<notin> set is \<and> was_seen j st))))"

lemma init_defaults_ok:
  "\<not> fatal_returns (e_mem ae) \<Longrightarrow> state_ok sc os pos st \<Longrightarrow> set is \<subseteq> {..<length os} \<Longrightarrow>
   ends sc (init_defaults ae is st) (defaulted sc (e_float ae) os pos is st)"
proof (induction "is" arbitrary: st)
  case Nil
  then show ?case by (simp add: defaulted_def)
next
  case (Cons i "is")
  note f = Cons.prems(1)
  have i: "i < length os" "set is \<subseteq> {..<length os}" using Cons.prems(3) by simp_all
  show ?case
    unfolding init_defaults.simps
  proof (rule ends_bind [OF init_default_ok [OF f Cons.prems(2) i(1)]], clarify)
    fix ok st1
    assume r: "initialised sc os pos i (init_view (e_float ae) (os ! i)) st (ok, st1)"
    show "ends sc (if \<not> ok then Ret (False, st1) else init_defaults ae is st1) (defaulted sc (e_float ae) os pos (i # is) st)"
    proof (cases ok)
      case False
      then show ?thesis using r by (auto simp: initialised_def defaulted_def)
    next
      case True
      then have s: "started sc os pos i st st1" "init_view (e_float ae) (os ! i) \<noteq> None" "state_ok sc os pos st1"
        "needs_dest (os ! i) \<Longrightarrow> opt_view os i st1 = the (init_view (e_float ae) (os ! i))"
        using r by (auto simp: initialised_def)
      have "defaulted sc (e_float ae) os pos (i # is) st x" if "defaulted sc (e_float ae) os pos is st1 x" for x
        using that s i(1) unfolding defaulted_def started_def by (cases x) auto
      then show ?thesis using Cons.IH [OF f s(3) i(2)] True by (auto elim: ends_mono)
    qed
  qed
qed

lemma check_required_ok:
  "list_all opt_ok os' \<Longrightarrow>
   ends sc (check_required os' st) (\<lambda>(s, st'). if \<exists>o' \<in> set os'. o_required o' \<and> \<not> o_seen o'
     then s = UCB_ARG_ERROR \<and> throws st st' \<and> a_err st' \<noteq> None else s = UCB_ARG_OK \<and> st' = st)"
proof (induction os')
  case (Cons o' os')
  then have "opt_ok o'" and l: "list_all opt_ok os'" by simp_all
  then have "str_ok (o_canon o')" by (simp add: opt_ok_def)
  moreover have "throws st (st\<lparr>a_err := Some e\<rparr>)" for e unfolding throws_def by blast
  ultimately show ?case
    using Cons.IH [OF l] by (cases "o_required o' \<and> \<not> o_seen o'") (simp add: cstr_text_ok fail_Ret, auto elim!: ends_mono split: if_split_asm)
qed simp

section \<open>The whole call\<close>

definition parse_events :: "ucb_arg_opt_impl list \<Rightarrow> byte list list \<Rightarrow> arg_event list" where
  "parse_events os argv = scan os False (drop 1 argv)"

text \<open>
  The start of an object as \<^verbatim>\<open>argparse.h\<close> documents it: numbers, flags and counters are zero and texts
  and vectors empty, and a default that is given is parsed with the option's converter.
\<close>

definition zero_view :: "ucb_arg_opt_impl \<Rightarrow> arg_view" where
  "zero_view o' =
     (case o_action o' of
        UCB_ARG_ACTION_STORE_TRUE \<Rightarrow> VCell (CBool False)
      | UCB_ARG_ACTION_STORE_FALSE \<Rightarrow> VCell (CBool False)
      | UCB_ARG_ACTION_COUNT \<Rightarrow> VCell (CInt 0)
      | UCB_ARG_ACTION_STORE \<Rightarrow>
          (case o_type o' of
             UCB_ARG_TYPE_BOOL \<Rightarrow> VCell (CBool False) | UCB_ARG_TYPE_INT \<Rightarrow> VCell (CInt 0)
           | UCB_ARG_TYPE_UINT \<Rightarrow> VCell (CUint 0) | UCB_ARG_TYPE_LONG \<Rightarrow> VCell (CLong 0)
           | UCB_ARG_TYPE_ULONG \<Rightarrow> VCell (CUlong 0) | UCB_ARG_TYPE_LLONG \<Rightarrow> VCell (CLlong 0)
           | UCB_ARG_TYPE_ULLONG \<Rightarrow> VCell (CUllong 0) | UCB_ARG_TYPE_SIZE \<Rightarrow> VCell (CSize 0)
           | UCB_ARG_TYPE_FLOAT \<Rightarrow> VCell (CFloat 0) | UCB_ARG_TYPE_DOUBLE \<Rightarrow> VCell (CDouble 0)
           | _ \<Rightarrow> VText [])
      | _ \<Rightarrow> VTexts [])"

definition default_view :: "float_env \<Rightarrow> ucb_arg_opt_impl \<Rightarrow> arg_view option" where
  "default_view fe o' =
     (let d = str_text (o_def o') in
      if \<not> o_has_def o' then Some (zero_view o')
      else case o_action o' of
        UCB_ARG_ACTION_STORE \<Rightarrow> value_view fe (o_type o') d
      | UCB_ARG_ACTION_STORE_TRUE \<Rightarrow> map_option (\<lambda>b. VCell (CBool b)) (parse_bool_lit d)
      | UCB_ARG_ACTION_STORE_FALSE \<Rightarrow> map_option (\<lambda>b. VCell (CBool b)) (parse_bool_lit d)
      | UCB_ARG_ACTION_COUNT \<Rightarrow> map_option (\<lambda>x. VCell (CInt x)) (parse_int d)
      | UCB_ARG_ACTION_APPEND \<Rightarrow> Some (VTexts [d])
      | _ \<Rightarrow> Some (zero_view o'))"

text \<open>
  The code keeps to it, but for two cases: an option that stores false starts true unless a
  default is given, and the default of an option that appends is not used.
\<close>

definition plain_default :: "ucb_arg_opt_impl \<Rightarrow> bool" where
  "plain_default o' \<longleftrightarrow> (o_action o' = UCB_ARG_ACTION_STORE_FALSE \<longrightarrow> o_has_def o')
     \<and> (o_action o' = UCB_ARG_ACTION_APPEND \<longrightarrow> \<not> o_has_def o')"

lemma init_default_view:
  assumes "plain_default o'" "o_action o' = UCB_ARG_ACTION_STORE \<longrightarrow> o_type o' \<noteq> UCB_ARG_TYPE_NONE"
  shows "init_view fe o' = default_view fe o'"
  using assms
  by (cases "o_action o'"; cases "o_type o'")
    (simp_all add: Let_def init_view_def default_view_def zero_view_def plain_default_def zero_value_def value_view_def)

lemma init_count_view: "o_action o' = UCB_ARG_ACTION_COUNT \<Longrightarrow> init_view fe o' = default_view fe o'"
  by (simp add: Let_def init_view_def default_view_def zero_view_def)

lemma store_false_starts_true:
  "o_action o' = UCB_ARG_ACTION_STORE_FALSE \<Longrightarrow> \<not> o_has_def o' \<Longrightarrow>
     init_view fe o' = Some (VCell (CBool True)) \<and> default_view fe o' = Some (VCell (CBool False))"
  by (simp add: Let_def init_view_def default_view_def zero_view_def)

lemma append_default_is_ignored:
  "o_action o' = UCB_ARG_ACTION_APPEND \<Longrightarrow> init_view fe o' = Some (VTexts [])"
  by (simp add: Let_def init_view_def)

text \<open>The outcome of a command line for objects that start as \<open>dv\<close> says.\<close>

definition parse_status ::
    "(ucb_arg_opt_impl \<Rightarrow> arg_view option) \<Rightarrow> float_env \<Rightarrow> ucb_arg_opt_impl list \<Rightarrow> byte list list \<Rightarrow> ucb_arg_status" where
  "parse_status dv fe os argv =
     (let es = parse_events os argv in
      if \<exists>o' \<in> set os. dv o' = None then UCB_ARG_ERROR
      else if events_status fe os es \<noteq> UCB_ARG_OK then events_status fe os es
      else if \<exists>i < length os. o_required (os ! i) \<and> vals i es = [] then UCB_ARG_ERROR
      else UCB_ARG_OK)"

definition parsed_view ::
    "(ucb_arg_opt_impl \<Rightarrow> arg_view option) \<Rightarrow> float_env \<Rightarrow> ucb_arg_opt_impl list \<Rightarrow> byte list list \<Rightarrow> nat \<Rightarrow> arg_view" where
  "parsed_view dv fe os argv i = foldl (given fe (os ! i)) (the (dv (os ! i))) (vals i (parse_events os argv))"

lemma parse_outcome_cong:
  assumes "\<forall>o' \<in> set os. dv o' = dv' o'"
  shows "parse_status dv fe os argv = parse_status dv' fe os argv"
    "i < length os \<Longrightarrow> parsed_view dv fe os argv i = parsed_view dv' fe os argv i"
  using assms by (simp_all add: parse_status_def parsed_view_def)

text \<open>No counter passes the largest \<^verbatim>\<open>int\<close>.\<close>

definition counts_fit :: "float_env \<Rightarrow> ucb_arg_opt_impl list \<Rightarrow> byte list list \<Rightarrow> bool" where
  "counts_fit fe os argv \<longleftrightarrow>
     (\<forall>i < length os. o_action (os ! i) = UCB_ARG_ACTION_COUNT \<longrightarrow>
        (\<forall>x. default_view fe (os ! i) = Some (VCell (CInt x)) \<longrightarrow> x + int (length (vals i (parse_events os argv))) \<le> INT_MAX))"

text \<open>What a caller has to provide.\<close>

definition parse_pre :: "arg_env \<Rightarrow> byte list list \<Rightarrow> nat option \<Rightarrow> arg_state \<Rightarrow> bool" where
  "parse_pre ae argv pos st \<longleftrightarrow>
     \<not> fatal_returns (e_mem ae) \<and> parser_ok (a_parser st) \<and> decl_ok (opts (a_parser st)) pos
     \<and> objects_ok (opts (a_parser st)) pos (a_mem st) \<and> list_all (arg_text_ok False) argv
     \<and> counts_fit (e_float ae) (opts (a_parser st)) argv"

text \<open>
  When the arguments are valid UTF-8, and a version text is given if an option prints it, nothing but a
  lack of memory ends the process.
\<close>

definition parse_clean :: "byte list list \<Rightarrow> ucb_arg_parser \<Rightarrow> bool" where
  "parse_clean argv p \<longleftrightarrow> list_all valid_text argv \<and> version_given (opts p) p"

lemma parse_parsed:
  assumes pre: "parse_pre ae argv pos st"
  defines "os \<equiv> opts (a_parser st)" and "sc \<equiv> parse_clean argv (a_parser st)"
  shows "ends sc (ucb_arg_parser_parse ae (int (length argv)) argv pos st) (\<lambda>(s, st'). s = parse_status (init_view (e_float ae)) (e_float ae) os argv
     \<and> state_ok sc os pos st' \<and> (s = UCB_ARG_ERROR \<longrightarrow> a_err st' \<noteq> None)
     \<and> (s = UCB_ARG_OK \<longrightarrow>
          (\<forall>i < length os. needs_dest (os ! i) \<longrightarrow> view (a_mem st') (the (o_dest (os ! i))) = parsed_view (init_view (e_float ae)) (e_float ae) os argv i)
        \<and> (\<forall>a. pos = Some a \<longrightarrow> view (a_mem st') a = pushed (view (a_mem st) a) (posns (parse_events os argv)))))"
proof -
  let ?fe = "e_float ae" and ?es = "parse_events os argv"
  have f: "\<not> fatal_returns (e_mem ae)" and ok: "state_ok sc os pos st" and args: "list_all (arg_text_ok sc) argv"
    and cf: "counts_fit ?fe os argv" and oo: "list_all opt_ok os"
    using pre by (auto simp: parse_pre_def state_ok_def os_def sc_def parse_clean_def list_all_iff arg_text_ok_def parser_ok_def)
  have "list_all (arg_text_ok sc) (drop 1 argv)" using args by (auto simp: list_all_iff dest: in_set_dropD)
  then have eok: "list_all (event_ok sc os) ?es" unfolding parse_events_def by (rule scan_events_ok [OF oo])
  let ?Q = "\<lambda>(s, st'). s = parse_status (init_view ?fe) ?fe os argv \<and> state_ok sc os pos st' \<and> (s = UCB_ARG_ERROR \<longrightarrow> a_err st' \<noteq> None)
     \<and> (s = UCB_ARG_OK \<longrightarrow>
          (\<forall>i < length os. needs_dest (os ! i) \<longrightarrow> view (a_mem st') (the (o_dest (os ! i))) = parsed_view (init_view ?fe) ?fe os argv i)
        \<and> (\<forall>a. pos = Some a \<longrightarrow> view (a_mem st') a = pushed (view (a_mem st) a) (posns ?es)))"
  have rest: "ends sc (go_on (parse_args ae pos False (drop 1 argv) st1) (\<lambda>st. check_required (opts (a_parser st)) st)) ?Q"
    if d: "defaulted sc ?fe os pos [0..<length os] st (True, st1)" for st1
  proof -
    have ok1: "state_ok sc os pos st1" and dv: "\<forall>i < length os. init_view ?fe (os ! i) \<noteq> None"
      and w: "\<forall>i < length os. needs_dest (os ! i) \<longrightarrow> opt_view os i st1 = the (init_view ?fe (os ! i))"
      and ps: "\<forall>a. pos = Some a \<longrightarrow> view (a_mem st1) a = view (a_mem st) a"
      and sn: "\<forall>j < length os. \<not> was_seen j st1"
      using d by (auto simp: defaulted_def)
    have dn: "\<not> (\<exists>o' \<in> set os. init_view ?fe o' = None)" using dv by (auto simp: in_set_conv_nth)
    have u: "map unseen (opts (a_parser st1)) = map unseen os" using ok1 by (simp add: state_ok_def)
    have po: "list_all opt_ok (opts (a_parser st1))" using ok1 by (simp add: state_ok_def parser_ok_def)
    have pe: "parse_args ae pos False (drop 1 argv) st1 = run_events ae pos ?es st1"
      using parse_args_events [OF po] scan_same [OF u] by (simp add: parse_events_def)
    have "counts_room os st1 ?es" unfolding counts_room_def
    proof (intro allI impI)
      fix i
      assume i: "i < length os" "o_action (os ! i) = UCB_ARG_ACTION_COUNT"
      then have "opt_view os i st1 = the (init_view ?fe (os ! i))" using w by (simp add: needs_dest_def)
      moreover have "init_view ?fe (os ! i) \<noteq> None" using dv i(1) by blast
      then obtain x where "init_view ?fe (os ! i) = Some (VCell (CInt x))"
        using i(2) by (auto simp: init_view_def Let_def)
      ultimately show "\<exists>x. opt_view os i st1 = VCell (CInt x) \<and> x + int (length (vals i ?es)) \<le> INT_MAX"
        using cf i by (auto simp: counts_fit_def init_count_view)
    qed
    from run_events_ran [OF f ok1 eok this] show ?thesis
      unfolding pe go_on_def
    proof (rule ends_bind, clarify)
      fix s st2
      assume r: "ran sc ?fe os pos ?es st1 (s, st2)"
      show "ends sc (if s \<noteq> UCB_ARG_OK then Ret (s, st2) else check_required (opts (a_parser st2)) st2) ?Q"
      proof (cases "s = UCB_ARG_OK")
        case False
        then show ?thesis using r dn by (auto simp: ran_def parse_status_def Let_def)
      next
        case True
        have ok2: "state_ok sc os pos st2" and es: "events_status ?fe os ?es = UCB_ARG_OK" using r True by (auto simp: ran_def)
        have l2: "length (opts (a_parser st2)) = length os" "map unseen (opts (a_parser st2)) = map unseen os"
          using ok2 by (auto simp: state_ok_def dest: map_eq_imp_length_eq)
        have ro: "list_all opt_ok (opts (a_parser st2))" using ok2 by (simp add: state_ok_def parser_ok_def)
        have req: "(\<exists>o' \<in> set (opts (a_parser st2)). o_required o' \<and> \<not> o_seen o') \<longleftrightarrow>
            (\<exists>i < length os. o_required (os ! i) \<and> vals i ?es = [])"
        proof -
          have "o_required (opts (a_parser st2) ! i) = o_required (os ! i)" "o_seen (opts (a_parser st2) ! i) = (vals i ?es \<noteq> [])"
            if "i < length os" for i
            using unseen_eqD(13) [of "opts (a_parser st2) ! i" "os ! i"] unseen_nth [OF l2(2) that] r True sn that
            by (auto simp: ran_def was_seen_def)
          then show ?thesis using l2(1) by (auto simp: Bex_def in_set_conv_nth)
        qed
        have vw: "(\<forall>i < length os. needs_dest (os ! i) \<longrightarrow> view (a_mem st2) (the (o_dest (os ! i))) = parsed_view (init_view ?fe) ?fe os argv i)
            \<and> (\<forall>a. pos = Some a \<longrightarrow> view (a_mem st2) a = pushed (view (a_mem st) a) (posns ?es))"
          using r True w ps by (auto simp: ran_def parsed_view_def opt_view_def)
        have "ends sc (check_required (opts (a_parser st2)) st2) ?Q"
          by (rule ends_mono [OF check_required_ok [OF ro, where st = st2]])
            (use vw es dn ok2 in \<open>auto simp: req parse_status_def Let_def split: if_splits\<close>)
        then show ?thesis using True by simp
      qed
    qed
  qed
  have "ends sc (init_defaults ae [0..<length os] st) (defaulted sc ?fe os pos [0..<length os] st)"
    by (rule init_defaults_ok [OF f ok]) auto
  then have "ends sc (rbind (init_defaults ae [0..<length os] st) (\<lambda>(ok, st). if \<not> ok then Ret (UCB_ARG_ERROR, st)
      else go_on (parse_args ae pos False (drop 1 argv) st) (\<lambda>st. check_required (opts (a_parser st)) st))) ?Q"
  proof (rule ends_bind, clarify)
    fix ok st1
    assume d: "defaulted sc ?fe os pos [0..<length os] st (ok, st1)"
    show "ends sc (if \<not> ok then Ret (UCB_ARG_ERROR, st1)
      else go_on (parse_args ae pos False (drop 1 argv) st1) (\<lambda>st. check_required (opts (a_parser st)) st)) ?Q"
    proof (cases ok)
      case True
      then show ?thesis using rest d by simp
    next
      case False
      then have "\<exists>o' \<in> set os. init_view ?fe o' = None" "a_err st1 \<noteq> None" "state_ok sc os pos st1"
        using d by (auto simp: defaulted_def)
      then show ?thesis using False by (auto simp: parse_status_def Let_def)
    qed
  qed
  then show ?thesis unfolding ucb_arg_parser_parse_def nat_int take_all [OF order_refl] by (simp add: os_def)
qed

text \<open>With the documented defaults.\<close>

lemma parse_documented:
  assumes pre: "parse_pre ae argv pos st" and d: "list_all plain_default (opts (a_parser st))"
  defines "os \<equiv> opts (a_parser st)" and "dv \<equiv> default_view (e_float ae)"
  shows "ends (parse_clean argv (a_parser st)) (ucb_arg_parser_parse ae (int (length argv)) argv pos st) (\<lambda>(s, st').
     s = parse_status dv (e_float ae) os argv \<and> (s = UCB_ARG_ERROR \<longrightarrow> a_err st' \<noteq> None)
     \<and> (s = UCB_ARG_OK \<longrightarrow>
          (\<forall>i < length os. needs_dest (os ! i) \<longrightarrow> view (a_mem st') (the (o_dest (os ! i))) = parsed_view dv (e_float ae) os argv i)
        \<and> (\<forall>a. pos = Some a \<longrightarrow> view (a_mem st') a = pushed (view (a_mem st) a) (posns (parse_events os argv)))))"
proof -
  have "\<forall>o' \<in> set os. init_view (e_float ae) o' = dv o'"
    using pre d by (auto simp: os_def dv_def parse_pre_def decl_ok_def list_all_iff intro!: init_default_view)
  note e = parse_outcome_cong [OF this]
  show ?thesis
    using parse_parsed [OF pre] unfolding os_def [symmetric] e(1)
    by (rule ends_mono) (use e(2) in auto)
qed

end
