(* ===== verification/Argparse_Props.thy ===== *)
theory Argparse_Props
  imports Argparse_Correct
begin

text \<open>
  Properties of the argument parser: declaration keeps the names unique, an \<^verbatim>\<open>int\<close> option takes exactly
  the numerals in range, spellings of the same option agree, and the contract of parsing.
\<close>

section \<open>Declaration\<close>

lemma find_short_None: "find_short os c k = None \<longleftrightarrow> (\<forall>o' \<in> set os. o_short o' \<noteq> c)"
  by (induction os arbitrary: k) auto

lemma long_index_None: "long_index os name k = None \<longleftrightarrow> name = [] \<or> (\<forall>o' \<in> set os. str_text (o_long o') \<noteq> name)"
  by (induction os arbitrary: k) auto

text \<open>No short name and no long name is declared twice.\<close>

definition names_unique :: "ucb_arg_opt_impl list \<Rightarrow> bool" where
  "names_unique os \<longleftrightarrow>
     (\<forall>i < length os. \<forall>j < i.
        (o_short (os ! i) \<noteq> 0 \<longrightarrow> o_short (os ! j) \<noteq> o_short (os ! i))
      \<and> (str_text (o_long (os ! i)) \<noteq> [] \<longrightarrow> str_text (o_long (os ! j)) \<noteq> str_text (o_long (os ! i))))"

lemma names_unique_snoc:
  "names_unique (os @ [o']) \<longleftrightarrow> names_unique os
     \<and> (o_short o' \<noteq> 0 \<longrightarrow> (\<forall>x \<in> set os. o_short x \<noteq> o_short o'))
     \<and> (str_text (o_long o') \<noteq> [] \<longrightarrow> (\<forall>x \<in> set os. str_text (o_long x) \<noteq> str_text (o_long o')))"
  by (auto simp: names_unique_def nth_append less_Suc_eq all_set_conv_all_nth)

definition text_of :: "byte list option \<Rightarrow> byte list" where
  "text_of t = (case t of None \<Rightarrow> [] | Some t \<Rightarrow> t)"

definition canon_of :: "byte \<Rightarrow> byte list option \<Rightarrow> byte list" where
  "canon_of c long =
     (if c \<noteq> 0 then lit ''-'' @ [c] else []) @
     (case long of None \<Rightarrow> [] | Some l \<Rightarrow> (if c \<noteq> 0 then lit ''/'' else []) @ lit ''--'' @ l)"

text \<open>The descriptor's texts are C strings, and it has as many choices as it says.\<close>

definition descriptor_ok :: "ucb_arg_opt \<Rightarrow> bool" where
  "descriptor_ok opt \<longleftrightarrow> pred_option (arg_text_ok False) (opt_name opt) \<and> pred_option (arg_text_ok False) (opt_long opt)
     \<and> pred_option (arg_text_ok False) (opt_def opt) \<and> pred_option (arg_text_ok False) (opt_metavar opt)
     \<and> pred_option (arg_text_ok False) (opt_help opt)
     \<and> (\<forall>cs. opt_choices opt = Some cs \<longrightarrow> list_all (arg_text_ok False) cs \<and> opt_num_choices opt \<le> length cs)"

text \<open>
  What the documentation asks of a descriptor: a name, a short or a long name, both new, what the
  action needs, and texts in UTF-8.
\<close>

definition opt_texts :: "ucb_arg_opt \<Rightarrow> byte list list" where
  "opt_texts opt = concat (map (\<lambda>t. case t of None \<Rightarrow> [] | Some t \<Rightarrow> [t])
       [opt_name opt, opt_long opt, opt_def opt, opt_metavar opt, opt_help opt])
     @ (case opt_choices opt of None \<Rightarrow> [] | Some cs \<Rightarrow> cs)"

definition fresh_names :: "ucb_arg_opt_impl list \<Rightarrow> ucb_arg_opt \<Rightarrow> bool" where
  "fresh_names os opt \<longleftrightarrow> (opt_short opt \<noteq> 0 \<longrightarrow> (\<forall>x \<in> set os. o_short x \<noteq> opt_short opt))
     \<and> (text_of (opt_long opt) \<noteq> [] \<longrightarrow> (\<forall>x \<in> set os. str_text (o_long x) \<noteq> text_of (opt_long opt)))"

definition acceptable :: "ucb_arg_opt_impl list \<Rightarrow> ucb_arg_opt \<Rightarrow> bool" where
  "acceptable os opt \<longleftrightarrow> text_of (opt_name opt) \<noteq> [] \<and> (opt_short opt \<noteq> 0 \<or> opt_long opt \<noteq> None)
     \<and> fresh_names os opt \<and> check_action opt \<and> check_num_choices opt
     \<and> (opt_short opt \<noteq> 0 \<longrightarrow> ascii (opt_short opt)) \<and> list_all valid_text (opt_texts opt)"

text \<open>All fields but the choices are the descriptor's.\<close>

definition described :: "ucb_arg_opt_impl \<Rightarrow> ucb_arg_opt \<Rightarrow> bool" where
  "described o' opt \<longleftrightarrow> opt_ok o' \<and> str_text (o_name o') = text_of (opt_name opt) \<and> o_short o' = opt_short opt
     \<and> str_text (o_long o') = text_of (opt_long opt) \<and> str_text (o_canon o') = canon_of (opt_short opt) (opt_long opt)
     \<and> o_type o' = opt_type opt \<and> o_action o' = opt_action opt \<and> o_dest o' = opt_dest opt
     \<and> o_has_def o' = (opt_def opt \<noteq> None) \<and> str_text (o_def o') = text_of (opt_def opt)
     \<and> str_text (o_metavar o') = text_of (opt_metavar opt) \<and> str_text (o_help o') = text_of (opt_help opt)
     \<and> o_required o' = opt_required opt \<and> \<not> o_seen o'"

definition choices_text :: "ucb_arg_opt \<Rightarrow> byte list list option" where
  "choices_text opt = (if opt_num_choices opt = 0 then None else map_option (take (opt_num_choices opt)) (opt_choices opt))"

definition declares :: "ucb_arg_opt_impl \<Rightarrow> ucb_arg_opt \<Rightarrow> bool" where
  "declares o' opt \<longleftrightarrow> described o' opt \<and> map_option (map str_text) (o_choices o') = choices_text opt"

lemma assign_given_ok:
  assumes f: "\<not> fatal_returns me" and t: "pred_option (arg_text_ok sc) t"
  shows "ends sc (assign_given me t) (\<lambda>s. str_ok s \<and> str_text s = text_of t)"
proof (cases t)
  case None
  then show ?thesis by (simp add: assign_given_def text_of_def)
next
  case (Some x)
  then have "ends sc (assign_c me str_empty x) (\<lambda>(r, s'). r \<and> str_ok s' \<and> str_text s' = x)"
    using t by (intro assign_c_ends [OF f]) simp_all
  then show ?thesis using Some by (simp add: assign_given_def text_of_def) (erule ends_bind, auto)
qed

lemma build_canon_ok:
  assumes f: "\<not> fatal_returns me" and l: "pred_option str_ok long" and sc: "sc \<longrightarrow> c \<noteq> 0 \<longrightarrow> ascii c"
  shows "ends sc (build_canon me c long) (\<lambda>s. str_ok s \<and> (c \<noteq> 0 \<longrightarrow> ascii c) \<and> str_text s = canon_of c (map_option str_text long))"
proof (cases "c = 0 \<or> ascii c")
  case True
  have a: "emits (\<lambda>s. if c \<noteq> 0 then rbind (append_c me s (lit ''-'')) (\<lambda>s. append_n me s [c] 1) else Ret s)
      (if c \<noteq> 0 then lit ''-'' @ [c] else [])"
    using True by (intro emits_if emits_bind emits_lit emits_byte emits_Ret f) (auto simp: ascii_def)
  have b: "emits (\<lambda>s. case long of None \<Rightarrow> Ret s
      | Some l \<Rightarrow> rbind (if c \<noteq> 0 then append_c me s (lit ''/'') else Ret s) (\<lambda>s.
          rbind (append_c me s (lit ''--'')) (\<lambda>s. append_s me s l)))
      (case map_option str_text long of None \<Rightarrow> [] | Some l \<Rightarrow> (if c \<noteq> 0 then lit ''/'' else []) @ lit ''--'' @ l)"
  proof (cases long)
    case (Some x)
    then have x: "str_ok x" using l by simp
    show ?thesis unfolding Some option.case option.map
      by (intro emits_bind emits_if emits_lit emits_s emits_Ret f x) (simp_all add: ascii_def)
  qed (simp add: emits_Ret)
  have e: "build_canon me c long = rbind (if c \<noteq> 0 then rbind (append_c me str_empty (lit ''-'')) (\<lambda>s. append_n me s [c] 1) else Ret str_empty)
      (\<lambda>s. case long of None \<Rightarrow> Ret s
      | Some l \<Rightarrow> rbind (if c \<noteq> 0 then append_c me s (lit ''/'') else Ret s) (\<lambda>s.
          rbind (append_c me s (lit ''--'')) (\<lambda>s. append_s me s l)))"
    by (simp add: build_canon_def)
  show ?thesis unfolding e
    by (rule ends_mono [OF succeeds_ends [OF emitsD [OF emits_bind [OF a b] holds_empty]]])
      (use True in \<open>auto simp: holds_def canon_of_def\<close>)
next
  case False
  then have "128 \<le> unat c" by (auto simp: ascii_def not_less)
  then have "append_n me s [c] 1 = Abort UCB_ERROR_INVALID_ARG" for s by (rule append_lone_byte)
  moreover have "succeeds (append_c me str_empty (lit ''-'')) (\<lambda>_. True)"
    using emitsD [OF emits_lit [OF f, of "''-''"] holds_empty] by (rule succeeds_mono) (simp_all add: ascii_def)
  ultimately show ?thesis using False by (cases "append_c me str_empty (lit ''-'')") (use sc in \<open>auto simp: build_canon_def\<close>)
qed

lemma copy_choices_ok:
  assumes f: "\<not> fatal_returns me"
  shows "list_all (arg_text_ok sc) cs \<Longrightarrow> n \<le> length cs \<Longrightarrow>
    ends sc (copy_choices me cs n) (\<lambda>r. \<exists>ss. r = Some ss \<and> list_all str_ok ss \<and> map str_text ss = take n cs)"
proof (induction cs arbitrary: n)
  case (Cons c cs)
  show ?case
  proof (cases n)
    case (Suc k)
    have c: "arg_text_ok sc c" and ih: "ends sc (copy_choices me cs k) (\<lambda>r. \<exists>ss. r = Some ss \<and> list_all str_ok ss \<and> map str_text ss = take k cs)"
      using Cons Suc by simp_all
    have n: "ends sc (ucb_str_new me (Some (c @ [0])) 0) (\<lambda>r. \<exists>s. r = Some s \<and> str_ok s \<and> str_text s = c)"
      by (rule ends_mono [OF str_new_ends [OF f c]]) auto
    show ?thesis unfolding Suc copy_choices.simps
      by (rule ends_bind [OF n], clarify, simp only: option.case, rule ends_bind [OF ih]) auto
  qed simp
qed simp

text \<open>What \<^verbatim>\<open>ucb_arg_parser_add\<close> accepts: a destination, a value type, choices only where a value is taken.\<close>

definition valid_decl :: "ucb_arg_opt_impl \<Rightarrow> bool" where
  "valid_decl o' \<longleftrightarrow> (needs_dest o' \<longrightarrow> o_dest o' \<noteq> None)
     \<and> (o_action o' = UCB_ARG_ACTION_STORE \<longrightarrow> o_type o' \<noteq> UCB_ARG_TYPE_NONE)
     \<and> (o_choices o' \<noteq> None \<longrightarrow> opt_takes_value o')"

lemma described_valid:
  "described o' opt \<Longrightarrow> check_action opt \<Longrightarrow> o_choices o' = None \<or> opt_action opt = UCB_ARG_ACTION_STORE
     \<or> opt_action opt = UCB_ARG_ACTION_APPEND \<Longrightarrow> valid_decl o'"
  by (cases "opt_action opt") (auto simp: described_def valid_decl_def check_action_def needs_dest_def opt_takes_value_def)

definition added :: "ucb_arg_parser \<Rightarrow> ucb_arg_opt \<Rightarrow> bool \<times> ucb_arg_parser \<Rightarrow> bool" where
  "added p opt = (\<lambda>(ok, p'). ok \<and> parser_ok p' \<and> names_unique (opts p')
     \<and> (\<exists>o'. p' = p\<lparr>opts := opts p @ [o']\<rparr> \<and> declares o' opt \<and> valid_decl o'))"

lemma addedI:
  assumes "parser_ok p" "names_unique (opts p)" "fresh_names (opts p) opt" "declares o' opt" "valid_decl o'"
  shows "added p opt (True, p\<lparr>opts := opts p @ [o']\<rparr>)"
  using assms unfolding added_def by (auto simp: parser_ok_def names_unique_snoc fresh_names_def declares_def described_def)

lemma arg_text_valid: "arg_text_ok False t \<Longrightarrow> (sc \<Longrightarrow> valid_text t) \<Longrightarrow> arg_text_ok sc t"
  by (simp add: arg_text_ok_def)

lemma descriptor_texts:
  assumes "descriptor_ok opt" "sc \<longrightarrow> acceptable os opt"
  shows "pred_option (arg_text_ok sc) (opt_name opt)" "pred_option (arg_text_ok sc) (opt_long opt)"
    "pred_option (arg_text_ok sc) (opt_def opt)" "pred_option (arg_text_ok sc) (opt_metavar opt)"
    "pred_option (arg_text_ok sc) (opt_help opt)" "opt_choices opt = Some cs \<Longrightarrow> list_all (arg_text_ok sc) cs"
proof -
  have t: "arg_text_ok sc t" if "t \<in> set (opt_texts opt)" "arg_text_ok False t" for t
    using that assms(2) by (auto simp: acceptable_def list_all_iff arg_text_ok_def)
  note d = assms(1) [unfolded descriptor_ok_def] and u = opt_texts_def
  show "pred_option (arg_text_ok sc) (opt_name opt)" using d t by (cases "opt_name opt") (simp_all add: u)
  show "pred_option (arg_text_ok sc) (opt_long opt)" using d t by (cases "opt_long opt") (simp_all add: u)
  show "pred_option (arg_text_ok sc) (opt_def opt)" using d t by (cases "opt_def opt") (simp_all add: u)
  show "pred_option (arg_text_ok sc) (opt_metavar opt)" using d t by (cases "opt_metavar opt") (simp_all add: u)
  show "pred_option (arg_text_ok sc) (opt_help opt)" using d t by (cases "opt_help opt") (simp_all add: u)
  show "list_all (arg_text_ok sc) cs" if "opt_choices opt = Some cs" using d t that by (simp add: u list_all_iff)
qed

lemma calloc_ok: "\<not> fatal_returns me \<Longrightarrow> k > 0 \<Longrightarrow> ends sc (ucb_calloc me 1 k) (\<lambda>ok. ok)"
  by (simp add: ucb_calloc_def ucb_fatal_oom_def)

lemma push_opt_ok:
  assumes f: "\<not> fatal_returns me" and p: "parser_ok p" "names_unique (opts p)" and d: "descriptor_ok opt" "sc \<longrightarrow> acceptable os opt"
    and fr: "fresh_names (opts p) opt" and ca: "check_action opt" and cn: "check_num_choices opt"
    and o': "described o' opt" "o_choices o' = None"
  shows "ends sc (push_opt me p opt o') (added p opt)"
proof (cases "opt_num_choices opt = 0")
  case True
  then have "declares o' opt" using o' by (simp add: declares_def choices_text_def)
  from addedI [OF p fr this] described_valid [OF o'(1) ca] o'(2) True show ?thesis by (simp add: push_opt_def)
next
  case False
  then obtain cs where cs: "opt_choices opt = Some cs" "list_all (arg_text_ok sc) cs" "opt_num_choices opt \<le> length cs"
    and act: "opt_action opt = UCB_ARG_ACTION_STORE \<or> opt_action opt = UCB_ARG_ACTION_APPEND"
    using cn d(1) descriptor_texts(6) [OF d] by (auto simp: check_num_choices_def descriptor_ok_def)
  have a: "added p opt (True, p\<lparr>opts := opts p @ [o'\<lparr>o_choices := Some ss\<rparr>]\<rparr>)"
    if "list_all str_ok ss" "map str_text ss = take (opt_num_choices opt) cs" for ss
  proof -
    have ds: "described (o'\<lparr>o_choices := Some ss\<rparr>) opt" using o' that(1) by (auto simp: described_def opt_ok_def)
    moreover have "declares (o'\<lparr>o_choices := Some ss\<rparr>) opt"
      using ds that(2) False cs(1) by (simp add: declares_def choices_text_def)
    ultimately show ?thesis using addedI [OF p fr] described_valid [OF ds ca] act by blast
  qed
  have c: "ends sc (ucb_calloc me 1 sizeof_vector) (\<lambda>ok. ok)" by (rule calloc_ok [OF f]) (simp add: sizeof_vector_def)
  show ?thesis
    unfolding push_opt_def if_not_P [OF False] cs(1) option.sel
    by (rule ends_bind [OF c], simp only: not_True_eq_False if_False simp_thms, rule ends_bind [OF copy_choices_ok [OF f cs(2,3)]])
      (auto simp: a)
qed

lemma add_declares:
  assumes f: "\<not> fatal_returns me" and p: "parser_ok p" "names_unique (opts p)" and d: "descriptor_ok opt"
  defines "sc \<equiv> acceptable (opts p) opt"
  shows "ends sc (ucb_arg_parser_add me p opt) (added p opt)"
proof -
  have ac: "sc \<longrightarrow> acceptable (opts p) opt" by (simp add: sc_def)
  have ok: "list_all opt_ok (opts p)" using p(1) by (simp add: parser_ok_def)
  have names: "ends sc (check_names p opt) (\<lambda>_. fresh_names (opts p) opt)"
    using ac
    by (auto simp: check_names_def fresh_names_def acceptable_def find_long_index [OF ok] long_index_None find_short_None text_of_def
        split: option.splits)
  have e: "ends sc (verify (check_action opt) UCB_ERROR_INVALID_ARG (verify (check_num_choices opt) UCB_ERROR_INVALID_ARG k)) Q"
    if "check_action opt \<Longrightarrow> check_num_choices opt \<Longrightarrow> ends sc k Q" for k and Q :: "bool \<times> ucb_arg_parser \<Rightarrow> bool"
    using that ac by (auto simp: acceptable_def)
  have c: "ends sc (ucb_calloc me 1 sizeof_opt_impl) (\<lambda>ok. ok)" by (rule calloc_ok [OF f]) (simp add: sizeof_opt_impl_def)
  note g = assign_given_ok [OF f]
  note dd = descriptor_texts [OF d ac]
  have cc: "sc \<longrightarrow> opt_short opt \<noteq> 0 \<longrightarrow> ascii (opt_short opt)" using ac by (simp add: acceptable_def)
  have canon: "ends sc (build_canon me (opt_short opt) (if opt_long opt = None then None else Some long))
      (\<lambda>s. str_ok s \<and> (opt_short opt \<noteq> 0 \<longrightarrow> ascii (opt_short opt)) \<and> str_text s = canon_of (opt_short opt) (opt_long opt))"
    if "str_ok long \<and> str_text long = text_of (opt_long opt)" for long
    using build_canon_ok [OF f _ cc, where long = "if opt_long opt = None then None else Some long"] that
    by (cases "opt_long opt") (simp_all add: text_of_def)
  show ?thesis
    unfolding ucb_arg_parser_add_def
    by (rule ends_bind [OF names], rule e, rule ends_bind [OF c],
        simp only: not_True_eq_False if_False simp_thms,
        rule ends_bind [OF g [OF dd(1)]], rule ends_bind [OF g [OF dd(2)]], rule ends_bind [OF g [OF dd(3)]],
        rule ends_bind [OF g [OF dd(4)]], rule ends_bind [OF g [OF dd(5)]], rule ends_bind [OF canon], assumption,
        unfold Let_def, rule push_opt_ok [OF f p d ac])
      (auto simp: described_def opt_ok_def)
qed

text \<open>C38: \<^verbatim>\<open>ucb_arg_parser_add\<close> keeps the parser well formed and its short and long names unique: a call
  that returns has appended one option that holds the descriptor's texts, with a destination and a
  value type where its action needs them. Unless memory runs out it returns for every acceptable
  descriptor.\<close>

theorem ucb_arg_parser_add_keeps_names_unique:
  assumes "\<not> fatal_returns me" "parser_ok p" "names_unique (opts p)" "descriptor_ok opt"
  shows "ends (acceptable (opts p) opt) (ucb_arg_parser_add me p opt) (\<lambda>(ok, p'). ok \<and> parser_ok p' \<and> names_unique (opts p')
     \<and> (\<exists>o'. p' = p\<lparr>opts := opts p @ [o']\<rparr> \<and> declares o' opt \<and> valid_decl o'))"
  using add_declares [OF assms] by (rule ends_mono) (simp add: added_def)

definition demo_descriptor :: ucb_arg_opt where
  "demo_descriptor = ucb_arg_opt_make\<lparr>opt_name := Some (lit ''all''), opt_short := 97, opt_long := Some (lit ''all''),
     opt_action := UCB_ARG_ACTION_STORE_TRUE, opt_dest := Some 2\<rparr>"

theorem ucb_arg_parser_add_keeps_names_unique_witness:
  "ends (acceptable (opts demo_parser) demo_descriptor) (ucb_arg_parser_add me_ok demo_parser demo_descriptor) (\<lambda>(ok, p'). ok \<and> parser_ok p' \<and> names_unique (opts p')
     \<and> (\<exists>o'. p' = demo_parser\<lparr>opts := opts demo_parser @ [o']\<rparr> \<and> declares o' demo_descriptor \<and> valid_decl o'))"
proof (rule ucb_arg_parser_add_keeps_names_unique [OF _ demo_parser_ok(1)])
  show "names_unique (opts demo_parser)" by (simp add: names_unique_def demo_parser_def)
  show "descriptor_ok demo_descriptor"
    by (simp add: descriptor_ok_def demo_descriptor_def ucb_arg_opt_make_def arg_text_ok_def lit_def PTRDIFF_MAX_def)
qed simp

section \<open>Numbers\<close>

lemma parse_int_ll: "parse_int v = Some x \<longleftrightarrow> parse_ll v = Some x \<and> INT_MIN \<le> x \<and> x \<le> INT_MAX"
  by (auto simp: parse_int_def split: option.split if_splits)

lemma parse_int_iff:
  "parse_int v = Some x \<longleftrightarrow> (\<exists>sg ds. numeral_of v sg ds \<and> x = signed_value sg ds \<and> INT_MIN \<le> x \<and> x \<le> INT_MAX)"
proof -
  have "INT_MIN \<le> x \<Longrightarrow> LLONG_MIN \<le> x" "x \<le> INT_MAX \<Longrightarrow> x \<le> LLONG_MAX"
    by (simp_all add: LLONG_MIN_def INT_MIN_def INT_MAX_def LLONG_MAX_def)
  then show ?thesis unfolding parse_int_ll parse_ll_iff by auto
qed

lemma numeral_value_unique: "numeral_of v a b \<Longrightarrow> numeral_of v c d \<Longrightarrow> signed_value a b = signed_value c d"
  using subject_numeral [of v a b] subject_numeral [of v c d] by (simp add: signed_value_def)

lemma parse_int_digits: "INT_MIN \<le> x \<Longrightarrow> x \<le> INT_MAX \<Longrightarrow> parse_int (int_digits x) = Some x"
  using parse_ll_digits [of x] by (simp add: parse_int_def INT_MIN_def INT_MAX_def LLONG_MIN_def LLONG_MAX_def)

text \<open>C39: an option of type \<^verbatim>\<open>int\<close> accepts exactly the decimal numerals, with an optional sign and nothing
  around them, whose value is in range, and stores that value; a rejected text leaves every object
  as it was and throws.\<close>

theorem convert_store_int_range:
  assumes "\<not> fatal_returns (e_mem ae)" "o_type o' = UCB_ARG_TYPE_INT" "o_dest o' = Some a"
    "well_typed (a_mem st) a UCB_ARG_TYPE_INT" "opt_ok o'"
  shows "succeeds (convert_store ae o' v st) (\<lambda>(ok, st').
     ok = (\<exists>sg ds. numeral_of v sg ds \<and> INT_MIN \<le> signed_value sg ds \<and> signed_value sg ds \<le> INT_MAX)
     \<and> (\<forall>sg ds. ok \<and> numeral_of v sg ds \<longrightarrow> view (a_mem st') a = VCell (CInt (signed_value sg ds)))
     \<and> (\<not> ok \<longrightarrow> a_mem st' = a_mem st \<and> a_err st' \<noteq> None))"
proof -
  have u: "x = signed_value sg ds" if "numeral_of v sg ds" "parse_int v = Some x" for sg ds x
    using that numeral_value_unique unfolding parse_int_iff by blast
  have c: "value_view (e_float ae) (o_type o') v = map_option (\<lambda>x. VCell (CInt x)) (parse_int v)"
    by (simp add: assms(2) value_view_def convert_value_def option.map_comp o_def)
  have e: "parse_int v \<noteq> None \<longleftrightarrow> (\<exists>sg ds. numeral_of v sg ds \<and> INT_MIN \<le> signed_value sg ds \<and> signed_value sg ds \<le> INT_MAX)"
    using parse_int_iff [of v] by auto
  have r: "succeeds (convert_store ae o' v st) (\<lambda>(ok, st'). case map_option (\<lambda>x. VCell (CInt x)) (parse_int v) of
      Some w \<Rightarrow> ok \<and> stores st a (o_type o') w st' | None \<Rightarrow> \<not> ok \<and> throws st st')"
    using convert_store_stores [OF assms(1,3) _ _ assms(5), where sc = True and st = st and v = v] unfolding c ends_True by (simp add: assms)
  show ?thesis
    unfolding e [symmetric] using r
    by (rule succeeds_mono) (use u stores_view in \<open>cases "parse_int v"; fastforce dest: throws_fields\<close>)
qed

text \<open>The surroundings, objects and arguments of an example: \<^verbatim>\<open>prog -n 3 x\<close>.\<close>

definition demo_env :: arg_env where
  "demo_env = \<lparr>e_mem = me_ok, e_float = \<lparr>c_strtof = (\<lambda>_. (0, 0, False)), c_strtod = (\<lambda>_. (0, 0, False))\<rparr>, e_write = (\<lambda>_. True)\<rparr>"

definition demo_state :: arg_state where
  "demo_state = \<lparr>a_parser = demo_parser, a_mem = [0 \<mapsto> CInt 5, 1 \<mapsto> CVec []], a_out = [], a_err = None\<rparr>"

definition demo_argv :: "byte list list" where
  "demo_argv = [lit ''prog'', lit ''-n'', lit ''3'', lit ''x'']"

lemma demo_typed: "well_typed (a_mem demo_state) 0 UCB_ARG_TYPE_INT" "well_typed (a_mem demo_state) 1 UCB_ARG_TYPE_NONE"
  by (simp_all add: demo_state_def well_typed_def cell_type_def cell_ok_def)

theorem convert_store_int_range_witness:
  "succeeds (convert_store demo_env demo_opt (lit ''-42'') demo_state) (\<lambda>(ok, st').
     ok = (\<exists>sg ds. numeral_of (lit ''-42'') sg ds \<and> INT_MIN \<le> signed_value sg ds \<and> signed_value sg ds \<le> INT_MAX)
     \<and> (\<forall>sg ds. ok \<and> numeral_of (lit ''-42'') sg ds \<longrightarrow> view (a_mem st') 0 = VCell (CInt (signed_value sg ds)))
     \<and> (\<not> ok \<longrightarrow> a_mem st' = a_mem demo_state \<and> a_err st' \<noteq> None))"
  by (rule convert_store_int_range)
    (simp_all add: demo_env_def demo_opt_ok demo_typed, simp_all add: demo_opt_def)

section \<open>Spellings\<close>

text \<open>C40: for an option that takes a value, \<^verbatim>\<open>--name=value\<close> and \<^verbatim>\<open>--name value\<close> have the same effect, in every
  state and whatever follows.\<close>

theorem long_value_attached_or_next:
  assumes "list_all opt_ok (opts (a_parser st))" "EQ_SIGN \<notin> set name" "name \<noteq> []"
    "long_index (opts (a_parser st)) name 0 = Some i" "opt_takes_value (opts (a_parser st) ! i)"
  shows "parse_args ae pos False ((DASH # DASH # name @ EQ_SIGN # v) # args) st
    = parse_args ae pos False ((DASH # DASH # name) # v # args) st"
  using scan_attached [OF assms(2-5)] by (simp only: parse_args_events [OF assms(1)])

theorem long_value_attached_or_next_witness:
  "parse_args demo_env (Some 1) False ((DASH # DASH # lit ''num'' @ EQ_SIGN # lit ''3'') # [lit ''x'']) demo_state
    = parse_args demo_env (Some 1) False ((DASH # DASH # lit ''num'') # lit ''3'' # [lit ''x'']) demo_state"
proof (rule long_value_attached_or_next [where i = 0])
  show "list_all opt_ok (opts (a_parser demo_state))" by (simp add: demo_state_def demo_parser_def demo_opt_ok)
  have "str_text (o_long demo_opt) = lit ''num''" by (simp add: demo_opt_def mk_str_lit [THEN holds_ok(2)] ascii_def)
  then show "long_index (opts (a_parser demo_state)) (lit ''num'') 0 = Some 0"
    by (simp add: demo_state_def demo_parser_def) (simp add: lit_def)
qed (simp_all add: demo_state_def demo_parser_def demo_opt_def opt_takes_value_def lit_def EQ_SIGN_def)

text \<open>A flag at the front of a bundle may stand alone.\<close>

lemma bundle_splits:
  assumes "list_all opt_ok (opts (a_parser st))" "find_short (opts (a_parser st)) c 0 = Some i"
    "\<not> opt_takes_value (opts (a_parser st) ! i)" "is_short (DASH # c # cs)" "is_short (DASH # cs)"
  shows "parse_args ae pos False ((DASH # c # cs) # args) st = parse_args ae pos False ([DASH, c] # (DASH # cs) # args) st"
  using scan_bundle [OF assms(2-5)] by (simp only: parse_args_events [OF assms(1)])

lemma positionals_after_dashes:
  assumes "list_all opt_ok (opts (a_parser st))"
  shows "parse_args ae pos False ([DASH, DASH] # args) st = run_events ae pos (map EPos args) st"
  by (simp only: parse_args_events [OF assms]) (simp add: scan_positionals)

section \<open>Parsing\<close>

lemma demo_decl: "decl_ok [demo_opt] (Some 1)"
  by (simp add: decl_ok_def demo_opt_ok) (simp add: demo_opt_def needs_dest_def)

lemma demo_pre: "parse_pre demo_env demo_argv (Some 1) demo_state"
proof -
  have "objects_ok [demo_opt] (Some 1) (a_mem demo_state)"
    using demo_typed by (simp add: objects_ok_def demo_opt_def dest_type_def)
  moreover have "opts (a_parser demo_state) = [demo_opt]" "a_parser demo_state = demo_parser" by (simp_all add: demo_state_def demo_parser_def)
  moreover have "counts_fit fe [demo_opt] demo_argv" for fe by (simp add: counts_fit_def demo_opt_def)
  moreover have "list_all (arg_text_ok False) demo_argv" by (simp add: demo_argv_def arg_text_ok_def lit_def PTRDIFF_MAX_def)
  ultimately show ?thesis using demo_decl demo_parser_ok(1) by (simp add: parse_pre_def demo_env_def)
qed

lemma demo_clean: "parse_clean demo_argv demo_parser"
proof -
  have "valid_text (lit l)" if "list_all (\<lambda>c. ascii (of_char c)) l" for l using valid_lit [OF that, of "[]"] by simp
  then have "list_all valid_text demo_argv" by (simp add: demo_argv_def ascii_def)
  then show ?thesis by (simp add: parse_clean_def version_given_def demo_parser_def demo_opt_def)
qed

lemma demo_events: "parse_events [demo_opt] demo_argv = [EOpt 0 (Some (lit ''3'')), EPos (lit ''x'')]"
  by (simp add: parse_events_def demo_argv_def) (simp add: demo_opt_def is_long_def is_short_def is_negative_number_def
      is_digit_char_def DASH_def lit_def opt_takes_value_def value_event_def next_arg_def)

lemma demo_value: "parse_int (lit ''3'') = Some 3" "parse_int (lit ''7'') = Some 7"
  using parse_int_digits [of 3] parse_int_digits [of 7]
  by (simp_all add: int_digits_def nat_digits.simps lit_def INT_MIN_def INT_MAX_def)

lemma demo_parsed:
  "parse_status (default_view fe) fe [demo_opt] demo_argv = UCB_ARG_OK"
  "parsed_view (default_view fe) fe [demo_opt] demo_argv 0 = VCell (CInt 3)"
proof -
  have d: "default_view fe demo_opt = Some (VCell (CInt 7))"
    by (simp add: default_view_def demo_opt_def mk_str_lit [THEN holds_ok(2)] ascii_def value_view_def convert_value_def demo_value)
  have g: "given fe demo_opt w (Some (lit ''3'')) = VCell (CInt 3)" "accepts fe demo_opt (lit ''3'')" for w
    by (simp_all add: given_def accepts_def choice_ok_def demo_opt_def value_view_def convert_value_def demo_value)
  have "opt_status fe demo_opt (Some (lit ''3'')) = UCB_ARG_OK" using g(2) by (simp add: opt_status_def demo_opt_def)
  then show "parse_status (default_view fe) fe [demo_opt] demo_argv = UCB_ARG_OK"
    by (simp add: parse_status_def demo_events Let_def d event_status_def)
  show "parsed_view (default_view fe) fe [demo_opt] demo_argv 0 = VCell (CInt 3)" by (simp add: parsed_view_def demo_events g)
qed

text \<open>
  C34: \<^verbatim>\<open>ucb_arg_parser_parse\<close>, for options whose objects have the declared types and are pairwise distinct
  (also from the vector of positionals), whose names are ASCII unless a metavar is given (\<open>decl_ok\<close>),
  whose counters do not overflow, and whose defaults the header and the code read alike (\<open>plain_default\<close>:
  an option that stores false has a default, one that appends has none): the call does nothing
  undefined; a call that returns has the status that declaration and arguments determine, an error
  is thrown with \<^verbatim>\<open>UCB_ARG_ERROR\<close>, and after \<^verbatim>\<open>UCB_ARG_OK\<close> every object holds its documented start - zero or
  empty, then the default - changed by the values given to its option, in order, and the positionals
  are appended. It returns unless memory runs out, if the arguments are valid UTF-8 and a version
  text is set where an option prints it.
\<close>

theorem ucb_arg_parser_parse_correct:
  assumes "parse_pre ae argv pos st" "list_all plain_default (opts (a_parser st))"
  shows "ends (parse_clean argv (a_parser st)) (ucb_arg_parser_parse ae (int (length argv)) argv pos st) (\<lambda>(s, st').
     s = parse_status (default_view (e_float ae)) (e_float ae) (opts (a_parser st)) argv
     \<and> (s = UCB_ARG_ERROR \<longrightarrow> a_err st' \<noteq> None)
     \<and> (s = UCB_ARG_OK \<longrightarrow>
          (\<forall>i < length (opts (a_parser st)). needs_dest (opts (a_parser st) ! i) \<longrightarrow>
             view (a_mem st') (the (o_dest (opts (a_parser st) ! i)))
               = parsed_view (default_view (e_float ae)) (e_float ae) (opts (a_parser st)) argv i)
        \<and> (\<forall>a. pos = Some a \<longrightarrow> view (a_mem st') a
             = pushed (view (a_mem st) a) (posns (parse_events (opts (a_parser st)) argv)))))"
  by (rule parse_documented [OF assms])

theorem ucb_arg_parser_parse_correct_witness:
  "succeeds (ucb_arg_parser_parse demo_env (int (length demo_argv)) demo_argv (Some 1) demo_state) (\<lambda>(s, st').
     s = UCB_ARG_OK \<and> view (a_mem st') 0 = VCell (CInt 3) \<and> view (a_mem st') 1 = VTexts [lit ''x''])"
proof -
  have o0: "ends (parse_clean demo_argv (a_parser demo_state)) m P = succeeds m P" for m :: "(ucb_arg_status \<times> arg_state) result" and P
    using demo_clean by (simp add: demo_state_def)
  have o1: "opts (a_parser demo_state) = [demo_opt]" by (simp add: demo_state_def demo_parser_def)
  have o2: "needs_dest demo_opt" "o_dest demo_opt = Some 0" by (simp_all add: demo_opt_def needs_dest_def)
  have o3: "view (a_mem demo_state) 1 = VTexts []" by (simp add: demo_state_def view_def view_cell_def)
  have o4: "list_all plain_default (opts (a_parser demo_state))" unfolding o1 by (simp add: plain_default_def demo_opt_def)
  show ?thesis
    using ucb_arg_parser_parse_correct [OF demo_pre o4] unfolding o0
    by (rule succeeds_mono) (auto simp: o1 o2 o3 [unfolded One_nat_def] demo_parsed demo_events pushed_def)
qed

text \<open>C35: the caller's objects, pairwise distinct and of the declared types before the call, keep their types and
  stay well formed, and so does the parser, whatever the arguments are and however the call ends. Names are
  ASCII unless a metavar is given, and counters do not overflow.\<close>

theorem ucb_arg_parser_parse_keeps_types:
  assumes "parse_pre ae argv pos st"
  shows "ends (parse_clean argv (a_parser st)) (ucb_arg_parser_parse ae (int (length argv)) argv pos st) (\<lambda>(s, st').
     parser_ok (a_parser st') \<and> objects_ok (opts (a_parser st)) pos (a_mem st'))"
  using parse_parsed [OF assms] by (rule ends_mono) (auto simp: state_ok_def)

theorem ucb_arg_parser_parse_keeps_types_witness:
  "succeeds (ucb_arg_parser_parse demo_env (int (length demo_argv)) demo_argv (Some 1) demo_state) (\<lambda>(s, st').
     parser_ok (a_parser st') \<and> objects_ok (opts (a_parser demo_state)) (Some 1) (a_mem st'))"
  using ucb_arg_parser_parse_keeps_types [OF demo_pre] demo_clean by (simp add: demo_state_def)

end
