(* ===== verification/Spec2Isabelle.thy ===== *)
theory Spec2Isabelle
  imports Utf8_Encode Grapheme Ucb_Str Uc_Case_Props Pqueue Vector Path_Props Envmap_Props Threadpool_Props Argparse_Props
begin

text \<open>
  A verification development for UCB, a C utility library (\<^verbatim>\<open>src/src/ucb\<close>, public headers in
  \<^verbatim>\<open>src/include/ucb\<close>).

  \<^bold>\<open>How the program is put together.\<close> Every component allocates through the wrappers of
  \<^verbatim>\<open>memory.c\<close>, which report a failed allocation as a fatal error (the default handler ends the
  process). Misuse is caught by the macros \<^verbatim>\<open>UCB_VERIFY\<close> and \<^verbatim>\<open>UCB_VERIFY_ARGS\<close>, which end the
  process. On top of that stand the byte buffer (\<^verbatim>\<open>buffer.c\<close>), the UTF-8 and grapheme code
  (\<^verbatim>\<open>unicode.c\<close>), strings that own valid UTF-8 (\<^verbatim>\<open>string.c\<close>, using both), the containers
  (\<^verbatim>\<open>container/\<close>), paths (\<^verbatim>\<open>path.c\<close>, made of three strings and a style), and the thread pool
  (\<^verbatim>\<open>threads/\<close>), whose tasks wait in a priority queue under the pool's mutex.

  \<^bold>\<open>The common model.\<close> \<open>Prelude\<close> holds the outcome of a call, \<open>Ret\<close> a value, \<open>Abort\<close> with
  the code of the report that ends the process, or \<open>Undef\<close> where C leaves the behaviour
  undefined (an access outside a block or to a freed block, signed overflow). An object is a
  record with the fields of the C struct; a call takes it and returns its new value. A heap
  block is the list of its bytes, so that an access is checked against its length. The decision
  of the C library to grant a request, the content of fresh memory, and whether the fatal
  handler returns are the parameter \<open>mem_env\<close>. \<^verbatim>\<open>size_t\<close> arithmetic that the code does not
  guard is reduced modulo \<open>2 ^ 64\<close> by \<open>usize\<close> and \<open>usub\<close>; bytes and code points are words of
  8 and 32 bits.

  \<^bold>\<open>The theories and the code they model.\<close>
  \<^item> \<open>Prelude\<close>: outcomes and their rules (\<open>always\<close>, \<open>rbind\<close>), \<^verbatim>\<open>memory.c\<close>, memory reads and writes.
  \<^item> \<open>Utf8\<close>: validation, decoding and iteration of \<^verbatim>\<open>unicode.c\<close> against the byte patterns of
    RFC 3629. \<open>Utf8_Encode\<close>: the encoder that works in chunks of a byte buffer.
  \<^item> \<open>Buffer\<close>: \<^verbatim>\<open>buffer.c\<close>, static and heap implementation, with an invariant over every
    sequence of operations.
  \<^item> \<open>Uc_Tables\<close>, \<open>Grapheme\<close>: the lookups in the property tables and the segmentation state
    machine of \<^verbatim>\<open>unicode.c\<close> against the boundary rules of Unicode Annex 29. The generated tables
    are a parameter.
  \<^item> \<open>Uc_Case\<close>: case mapping, and comparison of case foldings by iterators, of \<^verbatim>\<open>unicode.c\<close>.
    \<open>Uc_Case_Spec\<close> gives the mapping of a text (\<open>case_text\<close>, \<open>fold_text\<close>) and shows that the code computes it;
    \<open>Uc_Case_Props\<close> has the case operations of \<^verbatim>\<open>string.c\<close> and the results. \<open>Buffer_Heap\<close>: the
    buffers this code writes to never fail other than for want of memory.
  \<^item> \<open>Ucb_Str\<close>: \<^verbatim>\<open>string.c\<close>: life cycle, assignment, append, insert, search, comparison,
    concatenation, with the invariant \<open>str_ok\<close> (the block holds the text and its terminator and
    the text is valid UTF-8 without a null byte), including calls whose argument aliases the
    string. \<open>str_call\<close> admits any text and any code points; the one call that can break the
    invariant is a \<^verbatim>\<open>ucb_str_append_cp\<close> that fails, which may overwrite the terminator.
  \<^item> \<open>Pqueue\<close>: \<^verbatim>\<open>container/pqueue.c\<close> on an explicit store of list nodes; \<open>pq_holds\<close> relates it
    to a list of items by descending priority. The locale \<open>prio_queue\<close> states the contract of
    push and pop; it is interpreted on the operations of the code.
  \<^item> \<open>Vector\<close>: the template \<^verbatim>\<open>container/templates/vector_template.h\<close> and its instance for
    \<^verbatim>\<open>int\<close>. Its locale states the contract of a sequence.
  \<^item> \<open>Path_Base\<close>, \<open>Path\<close>: \<^verbatim>\<open>path.c\<close>, with the platform (POSIX or \<^verbatim>\<open>_WIN32\<close>) as a parameter.
    \<open>Path_Text\<close> gives the operations as functions on texts (segments, splitting of names, anchors);
    \<open>Path_Spec\<close>, \<open>Path_Ops\<close>, \<open>Path_Norm\<close>, \<open>Path_Parents\<close> show that the operations compute them;
    \<open>Path_Parse\<close> says what parsing means without any function of the model (\<open>parsed_dir\<close>) and shows
    that the texts agree, save for surplus separators in front of a name, where the code
    differs from its documentation; \<open>Path_Props\<close> states the results.
  \<^item> \<open>Env\<close>: the POSIX branch of \<^verbatim>\<open>env.c\<close> on the environment of the process, a list of strings.
    \<open>Envmap\<close>: \<^verbatim>\<open>envmap.c\<close>; \<open>Envmap_Spec\<close> relates a map to a list of pairs of texts, and
    \<open>Envmap_Props\<close> interprets the locale of finite maps (\<open>text_map\<close>) on it.
  \<^item> \<open>Thread\<close>: \<^verbatim>\<open>threads/task.c\<close> and the bookkeeping of \<^verbatim>\<open>threads/thread.c\<close>. \<open>Threadpool\<close>: the
    pool object and each section of \<^verbatim>\<open>threads/threadpool.c\<close> that runs under the mutex, and the step
    relation \<open>pool_step\<close> in which any number of workers and callers take these sections in any
    order, with spurious wake-ups and failing thread creation. \<open>Threadpool_Inv\<close>: mutual exclusion,
    the state of the threads, and where every task is. \<open>Threadpool_Live\<close>: with one thread that
    starts, waits for and joins the pool there is no deadlock and every call returns.
    \<open>Threadpool_Props\<close> states the results. A section between taking and leaving the mutex is
    one step; two threads that join the same worker at the same time are outside the model,
    because the system leaves that undefined.
  \<^item> \<open>Argparse_Num\<close>, \<open>Argparse_Opt\<close>, \<open>Argparse_Text\<close>, \<open>Argparse\<close>: \<^verbatim>\<open>argparse.c\<close>: the
    converters, the declaration of options, the rendered texts, and parsing into the caller's
    objects, which live at addresses and have a type. \<open>Argparse_Spec\<close> gives the texts a
    specification of its own (\<open>help_text\<close>); \<open>Argparse_Scan\<close> separates the syntax of a command line, a list of
    events, from its effects; \<open>Argparse_Values\<close>, \<open>Argparse_Run\<close> and \<open>Argparse_Correct\<close> compute the
    status and the values from declaration and events and show that parsing meets them, for
    options with distinct destinations and for defaults that code and header read alike
    (\<open>plain_default\<close>; the two other cases are lemmas);
    \<open>Argparse_Text_Props\<close> and \<open>Argparse_Props\<close> state the results.

  \<^bold>\<open>Bounds and fuel.\<close> Loops over a structure that the code walks by pointer recurse on an
  index with a measure. Two loops take fuel: the release of a bucket list, with the number of
  addresses handed out so far (a list has no more nodes than that), and the loop over the parents of a path,
  with \<open>2 * n + 3\<close> rounds for a directory of \<open>n\<close> bytes; in both cases it is proved that the
  fuel is enough. Contracts of the containers hold below \<open>2 ^ 31\<close> items, and those of the pool
  below \<open>2 ^ 31 - 1\<close> accepted tasks. The liveness of the pool needs no fuel: the measure
  \<open>pool_work\<close> bounds every run.

  \<^bold>\<open>Not modelled.\<close> System calls and their wrappers (files, directories, processes, and what
  \<^verbatim>\<open>threads/\<close> adds to pthreads beyond the above),
  the generated Unicode tables and normalization, formatted output,
  floating point (\<^verbatim>\<open>units/bytes.c\<close>), the debug-only allocation tracker, and the Windows branches of
  the environment functions.
\<close>

end
